(* ===== verification/Prelude.thy ===== *)
theory Prelude
  imports Main "HOL-Library.Word" "HOL-Library.AList" "HOL-Library.Char_ord" "HOL-Library.List_Lexorder"
begin

text \<open>
  The shared layer of the development.  It names the machine types the sources use
  (\<open>uint8_t\<close> to \<open>uint64_t\<close> as words of their width), collects the rewrite rules that the
  component proofs share, and proves the generic facts on positional number systems
  (\<open>val_le\<close>: the value of a little-endian digit list) that the limb arithmetic of
  \<^verbatim>\<open>dtoa.c\<close>, the digit printers and the checkpoint codec all rest on.
\<close>

unbundle bit_operations_syntax

section \<open>Names of the machine types\<close>

type_synonym u8 = "8 word"
type_synonym u16 = "16 word"
type_synonym u32 = "32 word"
type_synonym u64 = "64 word"
type_synonym bytes = "u8 list"

text \<open>An actor address (\<open>caf::actor_addr\<close>) is its node and its id, which is never 0; the null address and the null handle are
  \<open>None\<close> of the option type.  An actor handle is the address of the actor.\<close>

type_synonym address = "nat \<times> nat"

named_theorems limb_simps \<open>value equations of the multi-limb routines\<close>
named_theorems alist_simps \<open>lookup equations of the association lists that model unordered maps\<close>

section \<open>Association lists as \<open>std::unordered_map\<close>\<close>

text \<open>
  An \<open>unordered_map\<close> is an association list whose keys are distinct; the order of the list is
  the (unspecified) iteration order.  \<open>AList.update\<close> is \<open>m[k] = v\<close> and \<open>map_of\<close> is \<open>find\<close>.
\<close>

abbreviation keys_distinct :: "('k \<times> 'v) list \<Rightarrow> bool" where
  "keys_distinct m \<equiv> distinct (map fst m)"

lemma alist_update_lookup [alist_simps, simp]:
  "map_of (AList.update k v m) k' = (if k' = k then Some v else map_of m k')"
  by (simp add: update_conv')

lemma alist_update_keys [alist_simps, simp]:
  "fst ` set (AList.update k v m) = insert k (fst ` set m)"
  by (simp add: dom_update)

lemma alist_update_distinct [simp, intro]:
  "keys_distinct m \<Longrightarrow> keys_distinct (AList.update k v m)"
  by (rule distinct_update)

lemma map_of_Some_key: "map_of m k = Some v \<Longrightarrow> k \<in> fst ` set m"
  by (metis map_of_SomeD fst_conv image_eqI)

lemma find_key_None: "find (\<lambda>p. f p = n) ps = None \<longleftrightarrow> n \<notin> f ` set ps"
  by (induction ps) auto

lemma find_key_Some: "distinct (map f ps) \<Longrightarrow> p \<in> set ps \<Longrightarrow> find (\<lambda>q. f q = f p) ps = Some p"
  by (induction ps) auto

section \<open>Association lists as \<open>std::map\<close>\<close>

text \<open>A \<open>std::map\<close> that is iterated over is an association list in the order of its keys.\<close>

fun omap_set :: "'k::linorder \<Rightarrow> 'v \<Rightarrow> ('k \<times> 'v) list \<Rightarrow> ('k \<times> 'v) list" where
  "omap_set k v [] = [(k, v)]"
| "omap_set k v ((k', v') # m) =
     (if k < k' then (k, v) # (k', v') # m else if k = k' then (k, v) # m else (k', v') # omap_set k v m)"

definition omap_erase :: "'k \<Rightarrow> ('k \<times> 'v) list \<Rightarrow> ('k \<times> 'v) list" where
  "omap_erase k m = filter (\<lambda>(k', v). k' \<noteq> k) m"

abbreviation omap_ok :: "('k::linorder \<times> 'v) list \<Rightarrow> bool" where
  "omap_ok m \<equiv> sorted_wrt (<) (map fst m)"

lemma omap_set_lookup [alist_simps, simp]: "omap_ok m \<Longrightarrow> map_of (omap_set k v m) k' = (if k' = k then Some v else map_of m k')"
  by (induction k v m rule: omap_set.induct) auto

lemma omap_set_keys [simp]: "fst ` set (omap_set k v m) = insert k (fst ` set m)"
  by (induction k v m rule: omap_set.induct) auto

lemma omap_set_ok [simp, intro]: "omap_ok m \<Longrightarrow> omap_ok (omap_set k v m)"
  by (induction k v m rule: omap_set.induct) auto

lemma omap_erase_lookup [alist_simps, simp]: "map_of (omap_erase k m) k' = (if k' = k then None else map_of m k')"
  unfolding omap_erase_def by (induction m) auto

lemma omap_erase_keys [simp]: "fst ` set (omap_erase k m) = fst ` set m - {k}"
  unfolding omap_erase_def by (induction m) auto

lemma omap_erase_ok [simp, intro]: "omap_ok m \<Longrightarrow> omap_ok (omap_erase k m)"
  unfolding omap_erase_def by (induction m) auto

lemma omap_count_set:
  "omap_ok m \<Longrightarrow> length (filter (\<lambda>(name, e). P e) (omap_set k v m)) + (case map_of m k of Some e \<Rightarrow> if P e then 1 else 0 | None \<Rightarrow> 0) =
     length (filter (\<lambda>(name, e). P e) m) + (if P v then 1 else (0::nat))"
proof (induction k v m rule: omap_set.induct)
  case (2 k v k' v' m)
  have "map_of m k = None" if "k \<le> k'" using 2(2) that by (force simp: map_of_eq_None_iff)
  then show ?case using 2 by auto
qed simp

lemma omap_erase_absent: "k \<notin> fst ` set m \<Longrightarrow> omap_erase k m = m"
  unfolding omap_erase_def by (induction m) auto

lemma omap_count_erase:
  "omap_ok m \<Longrightarrow> length (filter (\<lambda>(name, e). P e) (omap_erase k m)) + (case map_of m k of Some e \<Rightarrow> if P e then 1 else 0 | None \<Rightarrow> (0::nat)) =
     length (filter (\<lambda>(name, e). P e) m)"
proof (induction m)
  case (Cons x m)
  obtain n e where x: "x = (n, e)" by fastforce
  show ?case
  proof (cases "n = k")
    case True
    then have "k \<notin> fst ` set m" using Cons.prems x by auto
    then have "omap_erase k m = m" by (rule omap_erase_absent)
    then show ?thesis using True x by (simp add: omap_erase_def)
  next
    case False
    then show ?thesis using Cons x by (auto simp: omap_erase_def)
  qed
qed (simp add: omap_erase_def)

section \<open>Little-endian positional values\<close>

fun val_le :: "nat \<Rightarrow> nat list \<Rightarrow> nat" where
  "val_le B [] = 0"
| "val_le B (x # xs) = x + B * val_le B xs"

lemma val_le_append: "val_le B (xs @ ys) = val_le B xs + B ^ length xs * val_le B ys"
  by (induction xs) (auto simp: algebra_simps)

lemma val_le_bound: "\<forall>x \<in> set xs. x < B \<Longrightarrow> val_le B xs < B ^ length xs"
proof (induction xs)
  case Nil
  then show ?case by simp
next
  case (Cons x xs)
  then have "val_le B xs + 1 \<le> B ^ length xs" and "x < B" by auto
  then have "B * (val_le B xs + 1) \<le> B * B ^ length xs" by (simp del: mult_Suc_right)
  with \<open>x < B\<close> show ?case by simp
qed

lemma val_le_replicate_0 [simp]: "val_le B (replicate n 0) = 0"
  by (induction n) auto

lemma val_le_inj:
  "length xs = length ys \<Longrightarrow> \<forall>x \<in> set xs. x < B \<Longrightarrow> \<forall>y \<in> set ys. y < B \<Longrightarrow>
   val_le B xs = val_le B ys \<Longrightarrow> xs = ys"
proof (induction xs ys rule: list_induct2)
  case Nil
  then show ?case by simp
next
  case (Cons x xs y ys)
  have x: "x < B" and y: "y < B" using Cons.prems by auto
  have eq: "x + B * val_le B xs = y + B * val_le B ys" using Cons.prems by simp
  have "(x + B * val_le B xs) mod B = (y + B * val_le B ys) mod B" by (simp only: eq)
  then have "x = y" using x y by simp
  moreover have "(x + B * val_le B xs) div B = (y + B * val_le B ys) div B" by (simp only: eq)
  then have "val_le B xs = val_le B ys" using x y by simp
  ultimately show ?case using Cons by simp
qed

section \<open>Bit fields of words\<close>

lemma unat_and_mask: "unat ((w :: 'a::len word) AND (push_bit k 1 - 1)) = unat w mod 2 ^ k"
proof -
  have "push_bit k 1 - 1 = (mask k :: 'a word)" by (simp add: mask_eq_exp_minus_1 push_bit_eq_mult)
  then have "w AND (push_bit k 1 - 1) = take_bit k w" by (simp only: take_bit_eq_mask)
  then show ?thesis by (simp only: unsigned_take_bit_eq) (simp add: take_bit_eq_mod)
qed

lemma unat_drop_bit_div: "unat (drop_bit k (w :: 'a::len word)) = unat w div 2 ^ k"
  by (simp only: unat_drop_bit_eq) (simp add: drop_bit_eq_div)

lemma unat_or_top:
  assumes w: "unat (w :: 'a::len word) < 2 ^ k" and k: "k < LENGTH('a)"
  shows "unat (w OR push_bit k 1) = unat w + 2 ^ k"
proof -
  have "w OR push_bit k 1 = w + push_bit k 1"
  proof (rule disjunctive_add [symmetric])
    fix n
    have "\<not> bit (unat w) k" using w by (simp add: bit_iff_odd)
    then have "\<not> bit w k" using k by (simp add: bit_unsigned_iff)
    then show "\<not> bit w n \<or> \<not> bit (push_bit k 1 :: 'a word) n"
      by (cases "n = k") (auto simp: bit_exp_iff)
  qed
  moreover have "unat (push_bit k 1 :: 'a word) = 2 ^ k"
    using k unfolding unsigned_push_bit_eq by (simp add: take_bit_nat_eq_self)
  moreover have "unat w + 2 ^ k < 2 ^ LENGTH('a)"
  proof -
    have "unat w + 2 ^ k < 2 ^ Suc k" using w by simp
    also have "\<dots> \<le> 2 ^ LENGTH('a)" using k by (intro power_increasing) auto
    finally show ?thesis .
  qed
  ultimately show ?thesis by (simp add: unat_word_ariths(1))
qed

text \<open>The low byte of a word, as the serialisers cut it out.\<close>

lemma ucast_byte_bits:
  "bit (ucast (ucast ((w :: 'a::len word) AND 0xFF) :: u8) :: 'a word) n \<longleftrightarrow> bit w n \<and> n < 8" if "8 \<le> LENGTH('a)"
proof -
  have "w AND 0xFF = take_bit 8 w" by (simp add: take_bit_eq_mask mask_eq_exp_minus_1)
  then show ?thesis using that by (auto simp: bit_simps dest: bit_imp_le_length)
qed

lemma unat_less_take_bit: "take_bit k (w :: 'a::len word) = w \<Longrightarrow> unat w < 2 ^ k"
proof -
  assume "take_bit k w = w"
  then have "unat w = take_bit k (unat w)" using unsigned_take_bit_eq [of k w, where ?'a = nat] by simp
  then show ?thesis using take_bit_nat_less_exp [of k "unat w"] by simp
qed

lemma take_bit_unat_less: "unat (w :: 'a::len word) < 2 ^ k \<Longrightarrow> take_bit k w = w"
proof -
  assume "unat w < 2 ^ k"
  then have "unat (take_bit k w) = unat w" by (simp only: unsigned_take_bit_eq take_bit_nat_eq_self)
  then show ?thesis by (simp only: word_unat_eq_iff)
qed

lemma and_byte_mask [simp]: "(b :: u8) AND 0xFF = b"
proof -
  have "(0xFF :: u8) = - 1" by simp
  then show ?thesis by (simp only: and.right_neutral)
qed

section \<open>Codes\<close>

text \<open>An encoding in which no code is the beginning of another one: what follows a code can be told apart from it.  Items with the same normal
  form have the same code.\<close>

locale prefix_code =
  fixes body :: "'a \<Rightarrow> string" and ok :: "'a \<Rightarrow> bool" and canon :: "'a \<Rightarrow> 'b"
  assumes prefix: "ok x \<Longrightarrow> ok y \<Longrightarrow> body x @ r = body y @ r' \<longleftrightarrow> canon x = canon y \<and> r = r'"
begin

lemma list_prefix:
  "\<forall>x \<in> set xs. ok x \<Longrightarrow> \<forall>y \<in> set ys. ok y \<Longrightarrow> length xs = length ys \<Longrightarrow>
   concat (map body xs) @ r = concat (map body ys) @ r' \<longleftrightarrow> map canon xs = map canon ys \<and> r = r'"
proof (induction xs arbitrary: ys)
  case (Cons x xs)
  then obtain y ys' where ys: "ys = y # ys'" by (cases ys) auto
  have "ok x" "ok y" using Cons.prems by (auto simp: ys)
  then show ?case using Cons.IH [of ys'] Cons.prems prefix [of x y] by (simp add: ys)
qed simp

lemma body_eq: "ok x \<Longrightarrow> ok y \<Longrightarrow> body x = body y \<longleftrightarrow> canon x = canon y"
  using prefix [of x y "[]" "[]"] by simp

end

end
