(* ===== verification/Dependency_Graph.thy ===== *)
theory Dependency_Graph
  imports Prelude
begin

text \<open>
  The model of \<^verbatim>\<open>src/src/core/dependency_graph.hpp\<close>: the graph of plugins and the services
  they depend on, its depth-first cycle check and its priority-driven Kahn ordering.  The three
  \<open>unordered_map\<close> members are association lists with distinct keys; every theorem holds for
  every order of those lists, that is, for every iteration order of the maps.
\<close>

record dep_graph =
  graph :: "(string \<times> string list) list"
  service_providers :: "(string \<times> string) list"
  priorities :: "(string \<times> int) list"

definition empty_graph :: dep_graph where
  "empty_graph = \<lparr>graph = [], service_providers = [], priorities = []\<rparr>"

definition register_service :: "string \<Rightarrow> string \<Rightarrow> dep_graph \<Rightarrow> dep_graph" where
  "register_service service plugin g =
     g\<lparr>service_providers := AList.update service plugin (service_providers g)\<rparr>"

fun plugin_deps :: "(string \<times> string) list \<Rightarrow> string \<Rightarrow> string list \<Rightarrow> string list" where
  "plugin_deps providers plugin_name [] = []"
| "plugin_deps providers plugin_name (svc # svcs) =
     (case map_of providers svc of
        None \<Rightarrow> plugin_deps providers plugin_name svcs
      | Some p \<Rightarrow> if p \<noteq> plugin_name then p # plugin_deps providers plugin_name svcs
                  else plugin_deps providers plugin_name svcs)"

definition add_plugin :: "string \<Rightarrow> string list \<Rightarrow> dep_graph \<Rightarrow> dep_graph" where
  "add_plugin plugin_name service_deps g =
     g\<lparr>graph := AList.update plugin_name
         (plugin_deps (service_providers g) plugin_name service_deps) (graph g)\<rparr>"

definition set_priority :: "string \<Rightarrow> int \<Rightarrow> dep_graph \<Rightarrow> dep_graph" where
  "set_priority plugin_name priority g =
     g\<lparr>priorities := AList.update plugin_name priority (priorities g)\<rparr>"

section \<open>The depth-first cycle check\<close>

text \<open>
  \<open>visiting\<close> is the current path and \<open>visited\<close> the nodes known to be free of cycles.  The source
  mutates both sets; \<open>visiting\<close> is restored before every \<open>return false\<close> and the search stops at the
  first \<open>return true\<close>, so the model passes it down and threads \<open>visited\<close> through.
\<close>

function (sequential) dfs :: "dep_graph \<Rightarrow> string \<Rightarrow> string set \<Rightarrow> string set \<Rightarrow> bool \<times> string set"
  and dfs_deps :: "dep_graph \<Rightarrow> string list \<Rightarrow> string set \<Rightarrow> string set \<Rightarrow> bool \<times> string set" where
  "dfs g node visiting visited =
     (if node \<in> visiting then (True, visited)
      else if node \<in> visited then (False, visited)
      else case map_of (graph g) node of
             None \<Rightarrow> (False, insert node visited)
           | Some deps \<Rightarrow>
               (case dfs_deps g deps (insert node visiting) visited of
                  (True, visited') \<Rightarrow> (True, visited')
                | (False, visited') \<Rightarrow> (False, insert node visited')))"
| "dfs_deps g [] visiting visited = (False, visited)"
| "dfs_deps g (dep # deps) visiting visited =
     (case dfs g dep visiting visited of
        (True, visited') \<Rightarrow> (True, visited')
      | (False, visited') \<Rightarrow> dfs_deps g deps visiting visited')"
  by pat_completeness auto
termination
proof (relation "inv_image (less_than <*lex*> less_than)
    (\<lambda>x. case x of
       Inl (g, node, visiting, visited) \<Rightarrow> (card (fst ` set (graph g) - visiting), 0)
     | Inr (g, deps, visiting, visited) \<Rightarrow> (card (fst ` set (graph g) - visiting), Suc (length deps)))",
    goal_cases)
  case 1
  show ?case by (intro wf_inv_image wf_lex_prod wf_less_than)
next
  case (2 g node visiting visited deps)
  then have "node \<in> fst ` set (graph g) - visiting" by (auto dest: map_of_Some_key)
  then have "card (fst ` set (graph g) - insert node visiting) < card (fst ` set (graph g) - visiting)"
    by (intro psubset_card_mono) auto
  then show ?case by simp
qed auto

declare dfs.simps [simp del]

definition has_cycle_from :: "dep_graph \<Rightarrow> string \<Rightarrow> bool" where
  "has_cycle_from g plugin_name = fst (dfs g plugin_name {} {})"

section \<open>Kahn's algorithm with a priority queue\<close>

definition prio :: "dep_graph \<Rightarrow> string \<Rightarrow> int" where
  "prio g n = (case map_of (priorities g) n of None \<Rightarrow> 0 | Some p \<Rightarrow> p)"

definition queue_cmp :: "dep_graph \<Rightarrow> string \<Rightarrow> string \<Rightarrow> bool" where
  "queue_cmp g a b = (if prio g a \<noteq> prio g b then prio g a > prio g b else a > b)"

text \<open>
  \<open>std::priority_queue\<close> keeps at its top an element that no other element exceeds in \<open>cmp\<close>.  The
  queue is the list of its elements; \<open>queue_top\<close> selects that element and \<open>remove1\<close> pops it.
\<close>

fun queue_top :: "dep_graph \<Rightarrow> string \<Rightarrow> string list \<Rightarrow> string" where
  "queue_top g x [] = x"
| "queue_top g x (y # ys) = queue_top g (if queue_cmp g x y then y else x) ys"

fun touch_all :: "string list \<Rightarrow> (string \<times> int) list \<Rightarrow> (string \<times> int) list" where
  "touch_all [] m = m"
| "touch_all (dep # deps) m =
     touch_all deps (case map_of m dep of None \<Rightarrow> AList.update dep 0 m | Some _ \<Rightarrow> m)"

fun compute_in_degree :: "(string \<times> string list) list \<Rightarrow> (string \<times> int) list \<Rightarrow> (string \<times> int) list" where
  "compute_in_degree [] m = m"
| "compute_in_degree ((node, deps) # es) m =
     compute_in_degree es (touch_all deps (AList.update node (int (length deps)) m))"

definition in_degree_at :: "(string \<times> int) list \<Rightarrow> string \<Rightarrow> int" where
  "in_degree_at m n = (case map_of m n of None \<Rightarrow> 0 | Some d \<Rightarrow> d)"

fun relax :: "string \<Rightarrow> (string \<times> string list) list \<Rightarrow> (string \<times> int) list \<Rightarrow> string list
    \<Rightarrow> (string \<times> int) list \<times> string list" where
  "relax u [] m q = (m, q)"
| "relax u ((node, deps) # es) m q =
     (if u \<in> set deps
      then (let d = in_degree_at m node - 1
            in relax u es (AList.update node d m) (if d = 0 then q @ [node] else q))
      else relax u es m q)"

definition kahn_measure :: "(string \<times> int) list \<Rightarrow> string list \<Rightarrow> nat" where
  "kahn_measure m q = length q + length (filter (\<lambda>(n, d). d > 0) m)"

lemma kahn_measure_update:
  "kahn_measure (AList.update n (in_degree_at m n - 1) m)
     (if in_degree_at m n - 1 = 0 then q @ [n] else q) \<le> kahn_measure m q"
proof (induction m)
  case Nil
  then show ?case by (simp add: kahn_measure_def in_degree_at_def)
next
  case (Cons p m)
  obtain k d where p: "p = (k, d)" by (cases p)
  show ?case
  proof (cases "k = n")
    case True
    then show ?thesis by (auto simp: kahn_measure_def in_degree_at_def p)
  next
    case False
    then have "in_degree_at (p # m) n = in_degree_at m n" by (auto simp: in_degree_at_def p)
    with Cons False show ?thesis by (auto simp: kahn_measure_def p split: if_splits)
  qed
qed

lemma kahn_measure_relax:
  "relax u es m q = (m', q') \<Longrightarrow> kahn_measure m' q' \<le> kahn_measure m q"
proof (induction u es m q arbitrary: m' q' rule: relax.induct)
  case (1 u m q)
  then show ?case by simp
next
  case (2 u node deps es m q)
  show ?case
  proof (cases "u \<in> set deps")
    case True
    let ?d = "in_degree_at m node - 1"
    have "relax u es (AList.update node ?d m) (if ?d = 0 then q @ [node] else q) = (m', q')"
      using 2(3) True by (simp add: Let_def)
    then have "kahn_measure m' q' \<le> kahn_measure (AList.update node ?d m) (if ?d = 0 then q @ [node] else q)"
      by (rule 2(1) [OF True refl])
    then show ?thesis using kahn_measure_update [of node m q] by linarith
  next
    case False
    then show ?thesis using 2 by simp
  qed
qed

lemma queue_top_in: "queue_top g x ys \<in> set (x # ys)"
  by (induction ys arbitrary: x) (auto split: if_splits)

function kahn :: "dep_graph \<Rightarrow> (string \<times> int) list \<Rightarrow> string list \<Rightarrow> string list \<Rightarrow> string list" where
  "kahn g m [] result = result"
| "kahn g m (x # q) result =
     (let u = queue_top g x q;
          (m', q') = relax u (graph g) m (remove1 u (x # q))
      in kahn g m' q' (result @ [u]))"
  by pat_completeness auto
termination
proof (relation "measure (\<lambda>(g, m, q, result). kahn_measure m q)", goal_cases)
  case 1
  show ?case by simp
next
  case (2 g m x q result u r m' q')
  have "kahn_measure m' q' \<le> kahn_measure m (remove1 u (x # q))"
    using 2 by (intro kahn_measure_relax) auto
  also have "\<dots> < kahn_measure m (x # q)"
    using queue_top_in [of g x q] 2
    by (simp add: kahn_measure_def length_remove1 del: remove1.simps)
  finally show ?case by simp
qed

definition topological_order :: "dep_graph \<Rightarrow> string list" where
  "topological_order g =
     (let m = compute_in_degree (graph g) [];
          q = map fst (filter (\<lambda>(n, d). d = 0) m);
          result = kahn g m q []
      in if length result \<noteq> length m then [] else result)"

definition reverse_topological_order :: "dep_graph \<Rightarrow> string list" where
  "reverse_topological_order g = rev (topological_order g)"

section \<open>The cycle check decides reachable cycles\<close>

definition deps_of :: "dep_graph \<Rightarrow> string \<Rightarrow> string list" where
  "deps_of g n = (case map_of (graph g) n of None \<Rightarrow> [] | Some deps \<Rightarrow> deps)"

definition dep_edges :: "dep_graph \<Rightarrow> (string \<times> string) set" where
  "dep_edges g = {(n, d). d \<in> set (deps_of g n)}"

definition cycle_from :: "dep_graph \<Rightarrow> string \<Rightarrow> bool" where
  "cycle_from g n \<longleftrightarrow> (\<exists>c. (n, c) \<in> (dep_edges g)\<^sup>* \<and> (c, c) \<in> (dep_edges g)\<^sup>+)"

definition acyclic_closed :: "dep_graph \<Rightarrow> string set \<Rightarrow> bool" where
  "acyclic_closed g V \<longleftrightarrow> dep_edges g `` V \<subseteq> V \<and> (\<forall>v \<in> V. (v, v) \<notin> (dep_edges g)\<^sup>+)"

lemma dep_edges_iff: "(n, d) \<in> dep_edges g \<longleftrightarrow> d \<in> set (deps_of g n)"
  by (simp add: dep_edges_def)

lemma dfs_True:
  "fst (dfs g node visiting visited) \<Longrightarrow> \<forall>v \<in> visiting. (v, node) \<in> (dep_edges g)\<^sup>+ \<Longrightarrow> cycle_from g node"
  "fst (dfs_deps g deps visiting visited) \<Longrightarrow>
     \<forall>d \<in> set deps. \<forall>v \<in> visiting. (v, d) \<in> (dep_edges g)\<^sup>+ \<Longrightarrow> \<exists>d \<in> set deps. cycle_from g d"
proof (induction g node visiting visited and g deps visiting visited rule: dfs_dfs_deps.induct)
  case (1 g node visiting visited)
  show ?case
  proof (cases "node \<in> visiting")
    case True
    with 1(3) show ?thesis by (auto simp: cycle_from_def)
  next
    case nv: False
    with 1(2) obtain deps where nvd: "node \<notin> visited" and deps: "map_of (graph g) node = Some deps"
      and call: "fst (dfs_deps g deps (insert node visiting) visited)"
      by (auto simp: dfs.simps split: if_splits option.splits prod.splits bool.splits)
    have edge: "(node, d) \<in> dep_edges g" if "d \<in> set deps" for d
      using that deps by (simp add: dep_edges_iff deps_of_def)
    have "\<forall>d \<in> set deps. \<forall>v \<in> insert node visiting. (v, d) \<in> (dep_edges g)\<^sup>+"
      using 1(3) edge by (auto intro: trancl_into_trancl)
    then obtain d where "d \<in> set deps" "cycle_from g d"
      using 1(1) [OF nv nvd deps call] by blast
    then show ?thesis
      using edge by (auto simp: cycle_from_def intro: converse_rtrancl_into_rtrancl)
  qed
next
  case (2 g visiting visited)
  then show ?case by simp
next
  case (3 g dep deps visiting visited)
  show ?case
  proof (cases "dfs g dep visiting visited")
    case (Pair b vd)
    with 3 show ?thesis by (cases b) auto
  qed
qed

lemma acyclic_closed_insert:
  assumes V: "acyclic_closed g V" and n: "n \<notin> V" and deps: "set (deps_of g n) \<subseteq> V"
  shows "acyclic_closed g (insert n V)"
proof -
  have closed: "dep_edges g `` V \<subseteq> V" using V by (simp add: acyclic_closed_def)
  have reach: "x \<in> V" if "(v, x) \<in> (dep_edges g)\<^sup>*" "v \<in> V" for v x
    using that closed by (induction rule: rtrancl_induct) auto
  have "(n, n) \<notin> (dep_edges g)\<^sup>+"
  proof
    assume "(n, n) \<in> (dep_edges g)\<^sup>+"
    then obtain d where "(n, d) \<in> dep_edges g" "(d, n) \<in> (dep_edges g)\<^sup>*"
      by (meson tranclD)
    then have "n \<in> V" using deps reach by (auto simp: dep_edges_iff)
    with n show False ..
  qed
  then show ?thesis using V closed deps by (auto simp: acyclic_closed_def dep_edges_iff)
qed

lemma dfs_False:
  "dfs g node visiting visited = (False, visited') \<Longrightarrow> acyclic_closed g visited \<Longrightarrow> visiting \<inter> visited = {} \<Longrightarrow>
     acyclic_closed g visited' \<and> visited \<subseteq> visited' \<and> node \<in> visited' \<and> visiting \<inter> visited' = {}"
  "dfs_deps g deps visiting visited = (False, visited') \<Longrightarrow> acyclic_closed g visited \<Longrightarrow> visiting \<inter> visited = {} \<Longrightarrow>
     acyclic_closed g visited' \<and> visited \<subseteq> visited' \<and> set deps \<subseteq> visited' \<and> visiting \<inter> visited' = {}"
proof (induction g node visiting visited and g deps visiting visited arbitrary: visited' and visited' rule: dfs_dfs_deps.induct)
  case (1 g node visiting visited)
  from 1(2) have nv: "node \<notin> visiting" by (auto simp: dfs.simps)
  show ?case
  proof (cases "node \<in> visited")
    case True
    with 1 nv show ?thesis by (auto simp: dfs.simps)
  next
    case nvd: False
    show ?thesis
    proof (cases "map_of (graph g) node")
      case None
      then have "deps_of g node = []" by (simp add: deps_of_def)
      with None 1 nv nvd show ?thesis
        by (auto simp: dfs.simps intro: acyclic_closed_insert)
    next
      case (Some deps)
      with 1(2) nv nvd obtain vd where vd: "dfs_deps g deps (insert node visiting) visited = (False, vd)"
        and v': "visited' = insert node vd"
        by (auto simp: dfs.simps split: prod.splits bool.splits)
      have IH: "acyclic_closed g vd \<and> visited \<subseteq> vd \<and> set deps \<subseteq> vd \<and> insert node visiting \<inter> vd = {}"
        using 1(1) [OF nv nvd Some vd] 1(3,4) nvd by auto
      moreover have "deps_of g node = deps" using Some by (simp add: deps_of_def)
      ultimately show ?thesis using v' nv by (auto intro: acyclic_closed_insert)
    qed
  qed
next
  case (2 g visiting visited)
  then show ?case by simp
next
  case (3 g dep deps visiting visited)
  from 3(3) obtain vd where d: "dfs g dep visiting visited = (False, vd)"
    and ds: "dfs_deps g deps visiting vd = (False, visited')"
    by (auto split: prod.splits bool.splits)
  have IH1: "acyclic_closed g vd \<and> visited \<subseteq> vd \<and> dep \<in> vd \<and> visiting \<inter> vd = {}"
    by (rule 3(1) [OF d 3(4,5)])
  have "acyclic_closed g visited' \<and> vd \<subseteq> visited' \<and> set deps \<subseteq> visited' \<and> visiting \<inter> visited' = {}"
    using 3(2) [OF d [symmetric] refl ds] IH1 by auto
  with IH1 show ?case by auto
qed

lemma acyclic_closed_no_cycle:
  assumes "acyclic_closed g V" "n \<in> V"
  shows "\<not> cycle_from g n"
proof -
  have "x \<in> V" if "(n, x) \<in> (dep_edges g)\<^sup>*" for x
    using that assms by (induction rule: rtrancl_induct) (auto simp: acyclic_closed_def)
  then show ?thesis using assms by (auto simp: cycle_from_def acyclic_closed_def)
qed

lemma has_cycle_from_decides: "has_cycle_from g n \<longleftrightarrow> cycle_from g n"
proof
  assume "has_cycle_from g n"
  then show "cycle_from g n" using dfs_True(1) [of g n "{}" "{}"] by (simp add: has_cycle_from_def)
next
  assume c: "cycle_from g n"
  show "has_cycle_from g n"
  proof (rule ccontr)
    assume "\<not> has_cycle_from g n"
    then obtain V where "dfs g n {} {} = (False, V)"
      by (cases "dfs g n {} {}") (auto simp: has_cycle_from_def)
    then have "acyclic_closed g V" and "n \<in> V"
      using dfs_False(1) [of g n "{}" "{}" V] by (auto simp: acyclic_closed_def)
    with c show False by (simp add: acyclic_closed_no_cycle)
  qed
qed

section \<open>Kahn's loop: invariant, soundness, completeness\<close>

definition wf_graph :: "dep_graph \<Rightarrow> bool" where
  "wf_graph g \<longleftrightarrow> keys_distinct (graph g) \<and> keys_distinct (service_providers g) \<and> keys_distinct (priorities g)"

definition graph_nodes :: "dep_graph \<Rightarrow> string set" where
  "graph_nodes g = fst ` set (graph g) \<union> (\<Union>(n, deps) \<in> set (graph g). set deps)"

text \<open>Every node of the list comes after its dependencies; \<open>S\<close> are the nodes already placed.\<close>

fun deps_first :: "dep_graph \<Rightarrow> string set \<Rightarrow> string list \<Rightarrow> bool" where
  "deps_first g S [] = True"
| "deps_first g S (x # xs) = (set (deps_of g x) \<subseteq> S \<and> deps_first g (insert x S) xs)"

text \<open>Every node of the list is the one the queue order prefers among the nodes ready at that point.\<close>

fun greedy :: "dep_graph \<Rightarrow> string set \<Rightarrow> string list \<Rightarrow> bool" where
  "greedy g S [] = True"
| "greedy g S (x # xs) =
     ((\<forall>w \<in> graph_nodes g - insert x S. set (deps_of g w) \<subseteq> S \<longrightarrow> queue_cmp g w x) \<and> greedy g (insert x S) xs)"

lemma deps_first_snoc: "deps_first g S (xs @ [x]) \<longleftrightarrow> deps_first g S xs \<and> set (deps_of g x) \<subseteq> S \<union> set xs"
  by (induction xs arbitrary: S) auto

lemma greedy_snoc:
  "greedy g S (xs @ [x]) \<longleftrightarrow> greedy g S xs \<and>
     (\<forall>w \<in> graph_nodes g - insert x (S \<union> set xs). set (deps_of g w) \<subseteq> S \<union> set xs \<longrightarrow> queue_cmp g w x)"
  by (induction xs arbitrary: S) auto

lemma queue_cmp_asym: "queue_cmp g a b \<Longrightarrow> \<not> queue_cmp g b a"
  by (auto simp: queue_cmp_def split: if_splits)

lemma queue_cmp_total: "a \<noteq> b \<Longrightarrow> queue_cmp g a b \<or> queue_cmp g b a"
  by (auto simp: queue_cmp_def split: if_splits)

lemma queue_cmp_trans: "queue_cmp g a b \<Longrightarrow> queue_cmp g b c \<Longrightarrow> queue_cmp g a c"
  by (auto simp: queue_cmp_def split: if_splits)

lemma queue_top_max: "w \<in> set (x # ys) \<Longrightarrow> w \<noteq> queue_top g x ys \<Longrightarrow> queue_cmp g w (queue_top g x ys)"
proof (induction ys arbitrary: x w)
  case Nil
  then show ?case by simp
next
  case (Cons y ys)
  let ?t = "if queue_cmp g x y then y else x"
  have top: "queue_top g x (y # ys) = queue_top g ?t ys" by simp
  show ?case
  proof (cases "w \<in> set (?t # ys)")
    case True
    from Cons.IH [OF this] Cons.prems(2) show ?thesis unfolding top by blast
  next
    case False
    then have "queue_cmp g w ?t"
      using Cons.prems(1) queue_cmp_total [of w ?t g] queue_cmp_asym by (auto split: if_splits)
    then show ?thesis
      using Cons.IH [of ?t ?t] queue_cmp_trans [of g w ?t] by (metis list.set_intros(1) top)
  qed
qed

lemma touch_all_lookup:
  "map_of (touch_all deps m) n =
     (case map_of m n of Some d \<Rightarrow> Some d | None \<Rightarrow> if n \<in> set deps then Some 0 else None)"
  by (induction deps m rule: touch_all.induct) (auto split: option.splits)

lemma touch_all_distinct: "keys_distinct m \<Longrightarrow> keys_distinct (touch_all deps m)"
  by (induction deps m rule: touch_all.induct) (auto split: option.splits)

lemma compute_in_degree_distinct: "keys_distinct m \<Longrightarrow> keys_distinct (compute_in_degree es m)"
  by (induction es m rule: compute_in_degree.induct) (auto simp: touch_all_distinct)

lemma compute_in_degree_lookup:
  "keys_distinct es \<Longrightarrow> map_of (compute_in_degree es m) n =
     (case map_of es n of
        Some deps \<Rightarrow> Some (int (length deps))
      | None \<Rightarrow> (case map_of m n of Some d \<Rightarrow> Some d
                 | None \<Rightarrow> if \<exists>(k, ds) \<in> set es. n \<in> set ds then Some 0 else None))"
proof (induction es m rule: compute_in_degree.induct)
  case (1 m)
  then show ?case by (simp split: option.splits)
next
  case (2 node deps es m)
  have "map_of es node = None" using 2(2) by (auto simp: map_of_eq_None_iff)
  with 2 show ?case by (auto simp: touch_all_lookup split: option.splits)
qed

lemma in_degree_at_update:
  "in_degree_at (AList.update k d m) n = (if n = k then d else in_degree_at m n)"
  by (auto simp: in_degree_at_def)

lemma relax_in_degree:
  "relax u es m q = (m', q') \<Longrightarrow> keys_distinct es \<Longrightarrow> in_degree_at m' n =
     in_degree_at m n - (case map_of es n of Some deps \<Rightarrow> if u \<in> set deps then 1 else 0 | None \<Rightarrow> 0)"
proof (induction u es m q arbitrary: m' q' rule: relax.induct)
  case (1 u m q)
  then show ?case by simp
next
  case (2 u node deps es m q)
  have "map_of es node = None" using 2(4) by (auto simp: map_of_eq_None_iff)
  with 2 show ?case
    by (cases "u \<in> set deps") (auto simp: Let_def in_degree_at_update split: option.splits)
qed

lemma relax_queue:
  "relax u es m q = (m', q') \<Longrightarrow> keys_distinct es \<Longrightarrow>
     q' = q @ filter (\<lambda>n. (\<exists>deps. map_of es n = Some deps \<and> u \<in> set deps) \<and> in_degree_at m n = 1) (map fst es)"
proof (induction u es m q arbitrary: m' q' rule: relax.induct)
  case (1 u m q)
  then show ?case by simp
next
  case (2 u node deps es m q)
  have node: "map_of es node = None" "node \<notin> fst ` set es"
    using 2(4) by (auto simp: map_of_eq_None_iff)
  let ?d = "in_degree_at m node - 1"
  let ?m = "AList.update node ?d m"
  let ?P = "\<lambda>es m n. (\<exists>deps. map_of es n = Some deps \<and> u \<in> set deps) \<and> in_degree_at m n = 1"
  have cong: "filter (?P es ?m) (map fst es) = filter (?P ((node, deps) # es) m) (map fst es)"
    "filter (?P es m) (map fst es) = filter (?P ((node, deps) # es) m) (map fst es)"
    using node by (auto intro!: filter_cong simp: in_degree_at_update)
  show ?case
  proof (cases "u \<in> set deps")
    case True
    then have "relax u es ?m (if ?d = 0 then q @ [node] else q) = (m', q')"
      using 2(3) by (simp add: Let_def)
    then have "q' = (if ?d = 0 then q @ [node] else q) @ filter (?P es ?m) (map fst es)"
      using 2(1) [OF True refl] 2(4) by simp
    then show ?thesis unfolding cong(1) using True by auto
  next
    case False
    then have "q' = q @ filter (?P es m) (map fst es)" using 2 by simp
    then show ?thesis unfolding cong(2) using False by simp
  qed
qed

lemma relax_keys:
  "relax u es m q = (m', q') \<Longrightarrow> fst ` set es \<subseteq> fst ` set m \<Longrightarrow> fst ` set m' = fst ` set m"
proof (induction u es m q arbitrary: m' q' rule: relax.induct)
  case (1 u m q)
  then show ?case by simp
next
  case (2 u node deps es m q)
  have "insert node (fst ` set m) = fst ` set m" "fst ` set es \<subseteq> fst ` set m" using 2(4) by auto
  with 2(1) [OF _ refl, of m' q'] 2(2) [of m' q'] 2(3) show ?case
    by (cases "u \<in> set deps") (simp_all add: Let_def)
qed

definition deps_distinct :: "dep_graph \<Rightarrow> bool" where
  "deps_distinct g \<longleftrightarrow> (\<forall>n \<in> graph_nodes g. distinct (deps_of g n))"

definition kahn_inv :: "dep_graph \<Rightarrow> (string \<times> int) list \<Rightarrow> string list \<Rightarrow> string list \<Rightarrow> bool" where
  "kahn_inv g m q result \<longleftrightarrow>
     distinct (q @ result) \<and> fst ` set m = graph_nodes g \<and>
     (\<forall>n. in_degree_at m n = int (length (deps_of g n)) - int (card (set (deps_of g n) \<inter> set result))) \<and>
     set q \<union> set result = {n \<in> graph_nodes g. in_degree_at m n = 0} \<and>
     deps_first g {} result \<and> (deps_distinct g \<longrightarrow> greedy g {} result)"

lemma kahn_invD:
  assumes "kahn_inv g m q result"
  shows "distinct (q @ result)" "fst ` set m = graph_nodes g"
    "in_degree_at m n = int (length (deps_of g n)) - int (card (set (deps_of g n) \<inter> set result))"
    "set q \<union> set result = {n \<in> graph_nodes g. in_degree_at m n = 0}"
    "deps_first g {} result" "deps_distinct g \<Longrightarrow> greedy g {} result"
  using assms unfolding kahn_inv_def by blast+

lemma ready_iff:
  "int (length ds) - int (card (set ds \<inter> R)) = 0 \<Longrightarrow> set ds \<subseteq> R"
proof -
  assume "int (length ds) - int (card (set ds \<inter> R)) = 0"
  then have "card (set ds) \<le> card (set ds \<inter> R)" using card_length [of ds] by linarith
  then have "set ds \<inter> R = set ds" by (intro card_seteq) auto
  then show ?thesis by auto
qed

lemma ready_distinct:
  "distinct ds \<Longrightarrow> set ds \<subseteq> R \<Longrightarrow> int (length ds) - int (card (set ds \<inter> R)) = 0"
  by (simp add: Int_absorb2 distinct_card)

lemma card_Int_insert: "finite A \<Longrightarrow> u \<notin> R \<Longrightarrow> card (A \<inter> insert u R) = card (A \<inter> R) + (if u \<in> A then 1 else 0)"
  by (simp add: Int_insert_right)

lemma deps_of_key: "deps_of g n \<noteq> [] \<Longrightarrow> n \<in> fst ` set (graph g)"
  by (auto simp: deps_of_def split: option.splits dest: map_of_Some_key)

lemma graph_nodes_key: "fst ` set (graph g) \<subseteq> graph_nodes g"
  by (auto simp: graph_nodes_def)

lemma kahn_inv_step:
  assumes wf: "keys_distinct (graph g)" and inv: "kahn_inv g m (x # q) result"
    and u: "u = queue_top g x q" and rel: "relax u (graph g) m (remove1 u (x # q)) = (m', q')"
  shows "kahn_inv g m' q' (result @ [u])"
proof -
  let ?R = "set result"
  let ?new = "filter (\<lambda>n. (\<exists>deps. map_of (graph g) n = Some deps \<and> u \<in> set deps) \<and> in_degree_at m n = 1) (map fst (graph g))"
  from inv have dist: "distinct ((x # q) @ result)" and dom: "fst ` set m = graph_nodes g"
    and deg: "\<And>n. in_degree_at m n = int (length (deps_of g n)) - int (card (set (deps_of g n) \<inter> ?R))"
    and ready: "set (x # q) \<union> ?R = {n \<in> graph_nodes g. in_degree_at m n = 0}"
    and df: "deps_first g {} result" and gr: "deps_distinct g \<Longrightarrow> greedy g {} result"
    by (rule kahn_invD)+
  have uq: "u \<in> set (x # q)" unfolding u by (rule queue_top_in)
  have uR: "u \<notin> ?R" using uq dist by auto
  have u0: "in_degree_at m u = 0" using uq ready by blast
  have sub: "set (deps_of g n) \<subseteq> ?R" if "in_degree_at m n = 0" for n
    using that ready_iff deg by simp
  have hit: "(\<exists>deps. map_of (graph g) n = Some deps \<and> u \<in> set deps) \<longleftrightarrow> u \<in> set (deps_of g n)" for n
    by (cases "map_of (graph g) n") (auto simp: deps_of_def)
  have q': "q' = remove1 u (x # q) @ ?new" by (rule relax_queue [OF rel wf])
  have deg': "in_degree_at m' n = in_degree_at m n - (if u \<in> set (deps_of g n) then 1 else 0)" for n
    using relax_in_degree [OF rel wf, of n] by (auto simp: deps_of_def split: option.splits)
  have dom': "fst ` set m' = graph_nodes g"
    using relax_keys [OF rel] dom graph_nodes_key by auto
  have new: "set ?new = {n \<in> graph_nodes g. u \<in> set (deps_of g n) \<and> in_degree_at m n = 1}"
  proof -
    have "n \<in> fst ` set (graph g)" if "u \<in> set (deps_of g n)" for n
      using that by (intro deps_of_key) auto
    then show ?thesis using graph_nodes_key [of g] unfolding set_filter set_map hit by blast
  qed
  have old: "set (remove1 u (x # q)) = set (x # q) - {u}"
    using dist by (intro set_remove1_eq) auto
  have d': "distinct (q' @ result @ [u])"
  proof -
    have "distinct (remove1 u (x # q))" "distinct ?new" using dist wf by auto
    moreover have "set ?new \<inter> (set (x # q) \<union> ?R) = {}" unfolding new ready by auto
    ultimately show ?thesis unfolding q' using dist old uq by auto
  qed
  have card: "in_degree_at m' n = int (length (deps_of g n)) - int (card (set (deps_of g n) \<inter> set (result @ [u])))" for n
    using card_Int_insert [of "set (deps_of g n)" u ?R] uR deg deg' by simp
  have ready': "set q' \<union> set (result @ [u]) = {n \<in> graph_nodes g. in_degree_at m' n = 0}"
  proof -
    have "set q' \<union> set (result @ [u]) = (set (x # q) \<union> ?R) \<union> set ?new"
      unfolding q' using old uq by auto
    also have "\<dots> = {n \<in> graph_nodes g. in_degree_at m' n = 0}"
      unfolding ready new using sub uR by (auto simp: deg')
    finally show ?thesis .
  qed
  have df': "deps_first g {} (result @ [u])" using df sub [OF u0] by (simp add: deps_first_snoc)
  have gr': "greedy g {} (result @ [u])" if dd: "deps_distinct g"
  proof -
    have "queue_cmp g w u" if w: "w \<in> graph_nodes g - insert u ?R" and wr: "set (deps_of g w) \<subseteq> ?R" for w
    proof -
      have "distinct (deps_of g w)" using dd w by (auto simp: deps_distinct_def)
      then have "in_degree_at m w = 0" unfolding deg using wr by (rule ready_distinct)
      then have "w \<in> set (x # q)" using w ready by blast
      then show ?thesis unfolding u by (rule queue_top_max) (use w u in auto)
    qed
    then show ?thesis using gr [OF dd] by (simp add: greedy_snoc)
  qed
  show ?thesis using d' dom' card ready' df' gr' by (simp add: kahn_inv_def)
qed

lemma kahn_final:
  "keys_distinct (graph g) \<Longrightarrow> kahn_inv g m q result \<Longrightarrow> \<exists>m'. kahn_inv g m' [] (kahn g m q result)"
proof (induction g m q result rule: kahn.induct)
  case (1 g m result)
  then show ?case by auto
next
  case (2 g m x q result)
  obtain m' q' where r: "relax (queue_top g x q) (graph g) m (remove1 (queue_top g x q) (x # q)) = (m', q')"
    by (metis surj_pair)
  have "kahn_inv g m' q' (result @ [queue_top g x q])"
    by (rule kahn_inv_step [OF 2(2,3) refl r])
  then show ?case using 2(1) [OF refl r [symmetric] refl 2(2)] r by simp
qed

lemma zero_keys:
  "keys_distinct m \<Longrightarrow> n \<in> fst ` set (filter (\<lambda>(n, d). d = 0) m) \<longleftrightarrow> n \<in> fst ` set m \<and> in_degree_at m n = 0"
  by (induction m) (auto simp: in_degree_at_def map_of_eq_None_iff split: option.splits dest: map_of_Some_key)

lemma kahn_start:
  assumes wf: "keys_distinct (graph g)" and m: "m = compute_in_degree (graph g) []"
  shows "kahn_inv g m (map fst (filter (\<lambda>(n, d). d = 0) m)) []"
proof -
  have dist: "keys_distinct m" unfolding m by (rule compute_in_degree_distinct) simp
  have look: "map_of m n = (case map_of (graph g) n of Some deps \<Rightarrow> Some (int (length deps))
      | None \<Rightarrow> if \<exists>(k, ds) \<in> set (graph g). n \<in> set ds then Some 0 else None)" for n
    using compute_in_degree_lookup [OF wf, of "[]" n] by (simp add: m split: option.splits)
  have dom: "fst ` set m = graph_nodes g"
  proof -
    have "n \<in> fst ` set m \<longleftrightarrow> n \<in> graph_nodes g" for n
    proof -
      have "n \<in> fst ` set m \<longleftrightarrow> map_of m n \<noteq> None" by (simp add: map_of_eq_None_iff)
      also have "\<dots> \<longleftrightarrow> n \<in> graph_nodes g"
        using map_of_eq_None_iff [of "graph g" n] unfolding look graph_nodes_def by (auto split: option.splits)
      finally show ?thesis .
    qed
    then show ?thesis by blast
  qed
  have deg: "in_degree_at m n = int (length (deps_of g n))" for n
    by (auto simp: in_degree_at_def look deps_of_def split: option.splits)
  have "n \<in> fst ` set (filter (\<lambda>(n, d). d = 0) m) \<longleftrightarrow> n \<in> graph_nodes g \<and> in_degree_at m n = 0" for n
    unfolding dom [symmetric] by (rule zero_keys [OF dist])
  then have "set (map fst (filter (\<lambda>(n, d). d = 0) m)) = {n \<in> graph_nodes g. in_degree_at m n = 0}"
    by auto
  moreover have "distinct (map fst (filter (\<lambda>(n, d). d = 0) m))"
    using dist by (rule distinct_map_filter)
  ultimately show ?thesis using dom deg by (simp add: kahn_inv_def)
qed

lemma finite_graph_nodes [simp]: "finite (graph_nodes g)"
  by (auto simp: graph_nodes_def)

lemma dep_edges_nodes: "(n, d) \<in> dep_edges g \<Longrightarrow> n \<in> graph_nodes g \<and> d \<in> graph_nodes g"
proof -
  assume "(n, d) \<in> dep_edges g"
  then obtain deps where "map_of (graph g) n = Some deps" "d \<in> set deps"
    by (cases "map_of (graph g) n") (auto simp: dep_edges_iff deps_of_def)
  then have "(n, deps) \<in> set (graph g)" "d \<in> set deps" by (auto dest: map_of_SomeD)
  then show ?thesis by (force simp: graph_nodes_def)
qed

lemma no_cycle_wf:
  assumes "\<And>n. n \<in> graph_nodes g \<Longrightarrow> \<not> cycle_from g n"
  shows "wf ((dep_edges g)\<inverse>)"
proof (rule finite_acyclic_wf_converse)
  show "finite (dep_edges g)"
    by (rule finite_subset [of _ "graph_nodes g \<times> graph_nodes g"]) (auto dest: dep_edges_nodes)
  show "acyclic (dep_edges g)"
  proof (rule acyclicI, intro allI notI)
    fix x assume c: "(x, x) \<in> (dep_edges g)\<^sup>+"
    then have "x \<in> graph_nodes g" by (metis tranclD dep_edges_nodes)
    then show False using assms c by (auto simp: cycle_from_def)
  qed
qed

lemma deps_first_acyclic:
  "deps_first g S xs \<Longrightarrow> acyclic_closed g S \<Longrightarrow> distinct xs \<Longrightarrow> set xs \<inter> S = {} \<Longrightarrow>
   acyclic_closed g (S \<union> set xs)"
proof (induction xs arbitrary: S)
  case Nil
  then show ?case by simp
next
  case (Cons x xs)
  then have "acyclic_closed g (insert x S)" by (auto intro: acyclic_closed_insert)
  with Cons have "acyclic_closed g (insert x S \<union> set xs)" by (intro Cons.IH) auto
  then show ?case by simp
qed

text \<open>The loop places every node exactly when the graph is acyclic and no dependency is repeated.\<close>

lemma kahn_all_iff:
  assumes inv: "kahn_inv g m [] result"
  shows "set result = graph_nodes g \<longleftrightarrow> deps_distinct g \<and> (\<forall>n \<in> graph_nodes g. \<not> cycle_from g n)"
proof
  have deg: "in_degree_at m n = int (length (deps_of g n)) - int (card (set (deps_of g n) \<inter> set result))"
    and res: "set result = {n \<in> graph_nodes g. in_degree_at m n = 0}" and dist: "distinct result"
    and df: "deps_first g {} result" for n
    using kahn_invD [OF inv] unfolding append_Nil set_empty by simp_all
  {
    assume all: "set result = graph_nodes g"
    have "distinct (deps_of g n)" if "n \<in> graph_nodes g" for n
    proof -
      have "in_degree_at m n = 0" using that all res by blast
      moreover have "card (set (deps_of g n) \<inter> set result) \<le> card (set (deps_of g n))" by (intro card_mono) auto
      ultimately have "card (set (deps_of g n)) = length (deps_of g n)"
        using deg [of n] card_length [of "deps_of g n"] by linarith
      then show ?thesis by (rule card_distinct)
    qed
    moreover have "acyclic_closed g (set result)"
      using deps_first_acyclic [OF df _ dist] by (simp add: acyclic_closed_def)
    ultimately show "deps_distinct g \<and> (\<forall>n \<in> graph_nodes g. \<not> cycle_from g n)"
      using all acyclic_closed_no_cycle by (auto simp: deps_distinct_def)
  next
    assume ok: "deps_distinct g \<and> (\<forall>n \<in> graph_nodes g. \<not> cycle_from g n)"
    then have "wf ((dep_edges g)\<inverse>)" by (intro no_cycle_wf) auto
    then have "n \<in> graph_nodes g \<longrightarrow> n \<in> set result" for n
    proof (induction n rule: wf_induct_rule)
      case (less n)
      have "d \<in> set result" if "d \<in> set (deps_of g n)" for d
      proof -
        have "(n, d) \<in> dep_edges g" using that by (simp add: dep_edges_iff)
        then show ?thesis using less dep_edges_nodes by blast
      qed
      then have "n \<in> graph_nodes g \<Longrightarrow> in_degree_at m n = 0"
        using ok ready_distinct [of "deps_of g n" "set result"] deg [of n]
        by (auto simp: deps_distinct_def)
      then show ?case unfolding res by simp
    qed
    then show "set result = graph_nodes g" using res by auto
  }
qed

lemma topological_order_cases:
  assumes "wf_graph g"
  obtains m result where "kahn_inv g m [] result"
    "topological_order g = (if set result = graph_nodes g then result else [])"
proof -
  let ?m = "compute_in_degree (graph g) []"
  have wf: "keys_distinct (graph g)" using assms by (simp add: wf_graph_def)
  obtain m where inv: "kahn_inv g m [] (kahn g ?m (map fst (filter (\<lambda>(n, d). d = 0) ?m)) [])" (is "kahn_inv g m [] ?res")
    using kahn_final [OF wf kahn_start [OF wf refl]] by blast
  have "keys_distinct ?m" by (rule compute_in_degree_distinct) simp
  then have len: "length ?m = card (graph_nodes g)"
    using kahn_invD(2) [OF kahn_start [OF wf refl]] distinct_card [of "map fst ?m"] by simp
  have "distinct ?res" and sub: "set ?res \<subseteq> graph_nodes g"
    using kahn_invD(1,4) [OF inv] by auto
  then have "length ?res = card (set ?res)" by (simp add: distinct_card)
  then have "length ?res \<noteq> length ?m \<longleftrightarrow> set ?res \<noteq> graph_nodes g"
    unfolding len using card_subset_eq [OF finite_graph_nodes sub] by metis
  then have "topological_order g = (if set ?res = graph_nodes g then ?res else [])"
    by (simp add: topological_order_def Let_def)
  with inv show ?thesis by (rule that)
qed

lemma topological_order_valid:
  assumes "wf_graph g" and "topological_order g \<noteq> []"
  shows "distinct (topological_order g)" "set (topological_order g) = graph_nodes g"
    "deps_first g {} (topological_order g)" "greedy g {} (topological_order g)"
proof -
  obtain m result where inv: "kahn_inv g m [] result"
    and top: "topological_order g = (if set result = graph_nodes g then result else [])"
    by (rule topological_order_cases [OF assms(1)])
  then have "topological_order g = result" "set result = graph_nodes g"
    using assms(2) by (auto split: if_splits)
  moreover then have "deps_distinct g" using kahn_all_iff [OF inv] by simp
  ultimately show "distinct (topological_order g)" "set (topological_order g) = graph_nodes g"
    "deps_first g {} (topological_order g)" "greedy g {} (topological_order g)"
    using kahn_invD(1,5,6) [OF inv] by auto
qed

lemma topological_order_empty_iff:
  assumes "wf_graph g"
  shows "topological_order g = [] \<longleftrightarrow>
    graph_nodes g = {} \<or> \<not> deps_distinct g \<or> (\<exists>n \<in> graph_nodes g. cycle_from g n)"
proof -
  obtain m result where r: "kahn_inv g m [] result"
    "topological_order g = (if set result = graph_nodes g then result else [])"
    by (rule topological_order_cases [OF assms])
  have "result = [] \<longleftrightarrow> graph_nodes g = {}" if "set result = graph_nodes g" using that by auto
  then show ?thesis using kahn_all_iff [OF r(1)] r(2) by auto
qed

lemma greedy_unique:
  "deps_first g S xs \<Longrightarrow> greedy g S xs \<Longrightarrow> distinct xs \<Longrightarrow> set xs = graph_nodes g - S \<Longrightarrow>
   deps_first g S ys \<Longrightarrow> greedy g S ys \<Longrightarrow> distinct ys \<Longrightarrow> set ys = graph_nodes g - S \<Longrightarrow> xs = ys"
proof (induction xs arbitrary: S ys)
  case Nil
  then have "set ys = {}" by simp
  then show ?case by simp
next
  case (Cons x xs)
  then obtain y ys' where ys: "ys = y # ys'" by (cases ys) auto
  have "x = y"
  proof (rule ccontr)
    assume neq: "x \<noteq> y"
    have "x \<in> graph_nodes g - S" "y \<in> graph_nodes g - S" using Cons.prems ys by auto
    then have "queue_cmp g x y" "queue_cmp g y x" using Cons.prems ys neq by auto
    then show False using queue_cmp_asym by blast
  qed
  moreover have "xs = ys'"
    by (rule Cons.IH [of "insert x S"]) (use Cons.prems ys \<open>x = y\<close> in auto)
  ultimately show ?case using ys by simp
qed

section \<open>Every operation keeps the maps well-formed\<close>

lemma wf_graph_ops [simp, intro]:
  "wf_graph empty_graph"
  "wf_graph g \<Longrightarrow> wf_graph (register_service service plugin g)"
  "wf_graph g \<Longrightarrow> wf_graph (add_plugin plugin_name service_deps g)"
  "wf_graph g \<Longrightarrow> wf_graph (set_priority plugin_name priority g)"
  by (simp_all add: wf_graph_def empty_graph_def register_service_def add_plugin_def set_priority_def)

lemma graph_nodes_map_of:
  "keys_distinct (graph g) \<Longrightarrow>
   graph_nodes g = {n. map_of (graph g) n \<noteq> None} \<union> {d. \<exists>n. d \<in> set (deps_of g n)}"
proof (intro set_eqI iffI)
  fix x assume wf: "keys_distinct (graph g)" and "x \<in> graph_nodes g"
  then consider "x \<in> fst ` set (graph g)" | n deps where "(n, deps) \<in> set (graph g)" "x \<in> set deps"
    by (auto simp: graph_nodes_def)
  then show "x \<in> {n. map_of (graph g) n \<noteq> None} \<union> {d. \<exists>n. d \<in> set (deps_of g n)}"
  proof cases
    case 1
    then show ?thesis by (simp add: map_of_eq_None_iff)
  next
    case 2
    then have "x \<in> set (deps_of g n)" using wf by (simp add: deps_of_def)
    then show ?thesis by blast
  qed
next
  fix x assume "x \<in> {n. map_of (graph g) n \<noteq> None} \<union> {d. \<exists>n. d \<in> set (deps_of g n)}"
  then show "x \<in> graph_nodes g"
    using graph_nodes_key [of g] dep_edges_nodes [of _ x g] by (auto simp: map_of_eq_None_iff dep_edges_iff)
qed

lemma deps_first_cong: "(\<And>n. deps_of g n = deps_of g' n) \<Longrightarrow> deps_first g S xs = deps_first g' S xs"
  by (induction xs arbitrary: S) auto

lemma greedy_cong:
  "graph_nodes g = graph_nodes g' \<Longrightarrow> (\<And>n. deps_of g n = deps_of g' n) \<Longrightarrow>
   (\<And>a b. queue_cmp g a b = queue_cmp g' a b) \<Longrightarrow> greedy g S xs = greedy g' S xs"
  by (induction xs arbitrary: S) auto

section \<open>Properties\<close>

text \<open>The cycle check is exact: \<open>has_cycle_from\<close> answers true exactly when some plugin reachable
  from the given one along dependency edges lies on a dependency cycle.\<close>

theorem has_cycle_from_exact:
  "has_cycle_from g n \<longleftrightarrow> (\<exists>c. (n, c) \<in> (dep_edges g)\<^sup>* \<and> (c, c) \<in> (dep_edges g)\<^sup>+)"
  unfolding has_cycle_from_decides cycle_from_def ..

text \<open>C25. A load order that is not empty lists every node of the graph exactly once, every plugin
  after all plugins it depends on, and at each point the node the priority order (smaller priority
  first, then name) prefers among the nodes whose dependencies are already loaded.\<close>

theorem topological_order_correct:
  assumes "wf_graph g" and "topological_order g \<noteq> []"
  shows "distinct (topological_order g) \<and> set (topological_order g) = graph_nodes g \<and>
         deps_first g {} (topological_order g) \<and> greedy g {} (topological_order g)"
  using topological_order_valid [OF assms] by blast

theorem topological_order_correct_witness:
  "topological_order (add_plugin ''B'' [] (add_plugin ''A'' [''b''] (register_service ''b'' ''B'' empty_graph)))
     = [''B'', ''A''] \<and>
   deps_first (add_plugin ''B'' [] (add_plugin ''A'' [''b''] (register_service ''b'' ''B'' empty_graph))) {} [''B'', ''A'']"
proof -
  let ?g = "add_plugin ''B'' [] (add_plugin ''A'' [''b''] (register_service ''b'' ''B'' empty_graph))"
  have wf: "wf_graph ?g" by simp
  have eq: "topological_order ?g = [''B'', ''A'']" by code_simp
  then show ?thesis using topological_order_correct [OF wf] by simp
qed

text \<open>C26. When the order is empty: exactly when there is no node, or some node is on or reaches a
  dependency cycle, or some plugin's dependency list names the same provider twice.  The last case
  is not a cycle: the in-degree counts the repeated provider twice and is decremented once.\<close>

theorem topological_order_fails_iff:
  assumes "wf_graph g"
  shows "topological_order g = [] \<longleftrightarrow>
    graph_nodes g = {} \<or> \<not> deps_distinct g \<or> (\<exists>n \<in> graph_nodes g. cycle_from g n)"
  by (rule topological_order_empty_iff [OF assms])

theorem topological_order_fails_iff_witness:
  "topological_order (add_plugin ''B'' [] empty_graph) \<noteq> [] \<and>
   deps_distinct (add_plugin ''B'' [] empty_graph)"
proof -
  have wf: "wf_graph (add_plugin ''B'' [] empty_graph)" by simp
  have ne: "topological_order (add_plugin ''B'' [] empty_graph) = [''B'']" by code_simp
  then show ?thesis using topological_order_fails_iff [OF wf] by simp
qed

text \<open>The order does not depend on the iteration order of the hash maps: two graphs that agree
  as maps have the same load order.\<close>

theorem topological_order_deterministic:
  assumes wf: "wf_graph g" "wf_graph g'"
    and graph: "map_of (graph g) = map_of (graph g')" and prios: "map_of (priorities g) = map_of (priorities g')"
  shows "topological_order g = topological_order g'"
proof -
  have deps: "deps_of g n = deps_of g' n" for n using graph by (simp add: deps_of_def)
  have cmp: "queue_cmp g a b = queue_cmp g' a b" for a b using prios by (simp add: queue_cmp_def prio_def)
  have nodes: "graph_nodes g = graph_nodes g'"
    using wf graph deps by (simp add: graph_nodes_map_of wf_graph_def)
  have edges: "dep_edges g = dep_edges g'" using deps by (simp add: dep_edges_def)
  have empty: "topological_order g = [] \<longleftrightarrow> topological_order g' = []"
    using topological_order_empty_iff wf nodes deps edges by (simp add: deps_distinct_def cycle_from_def)
  show ?thesis
  proof (cases "topological_order g = []")
    case True
    with empty show ?thesis by simp
  next
    case False
    note v = topological_order_valid [OF wf(1) False]
    have "topological_order g' \<noteq> []" using False empty by simp
    note v' = topological_order_valid [OF wf(2) this]
    have "deps_first g {} (topological_order g')" using v'(3) deps_first_cong [OF deps] by blast
    moreover have "greedy g {} (topological_order g')" using v'(4) greedy_cong [OF nodes deps cmp] by blast
    ultimately show ?thesis using v v' nodes by (intro greedy_unique [of g "{}"]) auto
  qed
qed

end
