(* ===== verification/Plugin_Loader.thy ===== *)
theory Plugin_Loader
  imports Dependency_Graph
begin

text \<open>
  The model of \<^verbatim>\<open>src/src/core/plugin/plugin_loader.cpp\<close> and of the manifest it reads
  (\<^verbatim>\<open>plugin_interface.hpp\<close>): the directory scan, the resolution of the entry plugins'
  dependencies with an explicit stack, and the load order computed on the dependency graph.
  Opening a dynamic library and running its \<open>manifest()\<close> is code of the plugin: it is the parameter
  \<open>probe\<close> of the scan.  The messages \<open>LOG_ERROR\<close> writes are returned beside the result.
\<close>

record plugin_manifest =
  mf_name :: string
  mf_version :: string
  mf_dependencies :: "string list"
  mf_provides :: "string list"
  mf_priority :: int
  mf_acl_allow :: "string list"

record plugin_info =
  pi_name :: string
  pi_path :: string
  pi_manifest :: plugin_manifest

datatype loader_error = Unknown_plugin string | No_provider string string | Circular_dependency string

section \<open>Scanning the plugin directory\<close>

text \<open>
  A directory entry is a sub-directory with its files or a plain file; a file is its path and its
  extension.  \<open>None\<close> stands for a root that does not exist.
\<close>

datatype dir_entry = Sub_directory "(string \<times> string) list" | Plain_file string

definition to_lower_ascii :: "string \<Rightarrow> string" where
  "to_lower_ascii = map (\<lambda>c. if CHR ''A'' \<le> c \<and> c \<le> CHR ''Z'' then char_of (of_char c + (32 :: nat)) else c)"

definition probe_plugin :: "(string \<Rightarrow> plugin_manifest option) \<Rightarrow> string \<Rightarrow> plugin_info option" where
  "probe_plugin probe path =
     map_option (\<lambda>m. \<lparr>pi_name = mf_name m, pi_path = path, pi_manifest = m\<rparr>) (probe path)"

fun scan_files :: "(string \<Rightarrow> plugin_manifest option) \<Rightarrow> string \<Rightarrow> (string \<times> string) list \<Rightarrow> plugin_info list" where
  "scan_files probe plugin_ext [] = []"
| "scan_files probe plugin_ext ((path, ext) # files) =
     (if to_lower_ascii ext \<noteq> to_lower_ascii plugin_ext then scan_files probe plugin_ext files
      else case probe_plugin probe path of
             None \<Rightarrow> scan_files probe plugin_ext files
           | Some info \<Rightarrow> info # scan_files probe plugin_ext files)"

definition scan_all_plugins ::
    "(string \<Rightarrow> plugin_manifest option) \<Rightarrow> string \<Rightarrow> dir_entry list option \<Rightarrow> plugin_info list" where
  "scan_all_plugins probe plugin_ext root =
     (case root of
        None \<Rightarrow> []
      | Some entries \<Rightarrow>
          concat (map (\<lambda>e. case e of Sub_directory files \<Rightarrow> scan_files probe plugin_ext files
                                    | Plain_file _ \<Rightarrow> []) entries))"

section \<open>Resolving the entry plugins\<close>

definition core_services :: "(string \<times> string) list" where
  "core_services = [(''logging_service'', ''@core'')]"

fun register_provides :: "string \<Rightarrow> string list \<Rightarrow> (string \<times> string) list \<Rightarrow> (string \<times> string) list" where
  "register_provides plugin [] m = m"
| "register_provides plugin (svc # svcs) m = register_provides plugin svcs (AList.update svc plugin m)"

fun service_to_plugin :: "plugin_info list \<Rightarrow> (string \<times> string) list \<Rightarrow> (string \<times> string) list" where
  "service_to_plugin [] m = m"
| "service_to_plugin (p # ps) m =
     service_to_plugin ps (register_provides (pi_name p) (mf_provides (pi_manifest p)) m)"

fun plugin_map :: "plugin_info list \<Rightarrow> (string \<times> plugin_info) list \<Rightarrow> (string \<times> plugin_info) list" where
  "plugin_map [] m = m"
| "plugin_map (p # ps) m = plugin_map ps (AList.update (pi_name p) p m)"

text \<open>The providers of a dependency list, in the order they are pushed, and the errors logged.\<close>

fun push_deps :: "(string \<times> string) list \<Rightarrow> string \<Rightarrow> string list \<Rightarrow> string list \<Rightarrow> string list \<times> loader_error list" where
  "push_deps services name [] stack = (stack, [])"
| "push_deps services name (dep_svc # deps) stack =
     (case map_of services dep_svc of
        None \<Rightarrow> (let (st, errs) = push_deps services name deps stack in (st, No_provider dep_svc name # errs))
      | Some provider \<Rightarrow>
          if provider = ''@core'' then push_deps services name deps stack
          else push_deps services name deps (provider # stack))"

text \<open>The work stack is a list whose head is \<open>stack.back()\<close>.\<close>

function resolve_loop ::
    "(string \<times> string) list \<Rightarrow> (string \<times> plugin_info) list \<Rightarrow> string list \<Rightarrow> string set \<Rightarrow>
     plugin_info list \<Rightarrow> loader_error list \<Rightarrow> plugin_info list \<times> loader_error list" where
  "resolve_loop services plugins [] visited resolved errs = (resolved, errs)"
| "resolve_loop services plugins (name # stack) visited resolved errs =
     (if name \<in> visited then resolve_loop services plugins stack visited resolved errs
      else case map_of plugins name of
             None \<Rightarrow> resolve_loop services plugins stack (insert name visited) resolved (errs @ [Unknown_plugin name])
           | Some info \<Rightarrow>
               (let (stack', errs') = push_deps services name (mf_dependencies (pi_manifest info)) stack
                in resolve_loop services plugins stack' (insert name visited) (resolved @ [info]) (errs @ errs')))"
  by pat_completeness auto
termination
proof (relation "inv_image (less_than <*lex*> less_than)
    (\<lambda>(services, plugins, stack, visited, resolved, errs).
       (card (fst ` set plugins - visited), length stack))", goal_cases)
  case 1
  show ?case by (intro wf_inv_image wf_lex_prod wf_less_than)
next
  case (2 services plugins name stack visited resolved errs)
  then show ?case by simp
next
  case (3 services plugins name stack visited resolved errs)
  have "card (fst ` set plugins - insert name visited) \<le> card (fst ` set plugins - visited)"
    by (intro card_mono) auto
  then show ?case by auto
next
  case (4 services plugins name stack visited resolved errs info p stack' errs')
  then have "name \<in> fst ` set plugins - visited" by (auto dest: map_of_Some_key)
  then have "card (fst ` set plugins - insert name visited) < card (fst ` set plugins - visited)"
    by (intro psubset_card_mono) auto
  then show ?case by simp
qed

definition resolve_dependencies ::
    "string list \<Rightarrow> plugin_info list \<Rightarrow> plugin_info list \<times> loader_error list" where
  "resolve_dependencies entry_plugins all_plugins =
     resolve_loop (service_to_plugin all_plugins core_services) (plugin_map all_plugins [])
       (rev entry_plugins) {} [] []"

section \<open>The load order\<close>

fun graph_services :: "plugin_info list \<Rightarrow> dep_graph \<Rightarrow> dep_graph" where
  "graph_services [] g = g"
| "graph_services (p # ps) g =
     graph_services ps (fold (\<lambda>svc. register_service svc (pi_name p)) (mf_provides (pi_manifest p)) g)"

fun graph_plugins :: "plugin_info list \<Rightarrow> dep_graph \<Rightarrow> dep_graph" where
  "graph_plugins [] g = g"
| "graph_plugins (p # ps) g =
     graph_plugins ps (set_priority (pi_name p) (mf_priority (pi_manifest p))
       (add_plugin (pi_name p) (mf_dependencies (pi_manifest p)) g))"

definition load_graph :: "plugin_info list \<Rightarrow> dep_graph" where
  "load_graph plugins = graph_plugins plugins (graph_services plugins empty_graph)"

definition compute_load_order :: "plugin_info list \<Rightarrow> string list \<times> loader_error list" where
  "compute_load_order plugins =
     (let g = load_graph plugins in
      case find (\<lambda>p. has_cycle_from g (pi_name p)) plugins of
        Some p \<Rightarrow> ([], [Circular_dependency (pi_name p)])
      | None \<Rightarrow> (topological_order g, []))"

section \<open>Resolution computes the closure of the entry plugins\<close>

definition providers_of :: "(string \<times> string) list \<Rightarrow> plugin_info \<Rightarrow> string set" where
  "providers_of services info =
     {p. p \<noteq> ''@core'' \<and> (\<exists>svc \<in> set (mf_dependencies (pi_manifest info)). map_of services svc = Some p)}"

definition needs :: "(string \<times> string) list \<Rightarrow> (string \<times> plugin_info) list \<Rightarrow> (string \<times> string) set" where
  "needs services plugins = {(n, p). \<exists>info. map_of plugins n = Some info \<and> p \<in> providers_of services info}"

lemma push_deps_stack:
  "set (fst (push_deps services name deps stack)) =
     set stack \<union> {p. p \<noteq> ''@core'' \<and> (\<exists>svc \<in> set deps. map_of services svc = Some p)}"
  by (induction services name deps stack rule: push_deps.induct)
     (auto split: option.splits prod.splits if_splits)

definition resolve_inv :: "string list \<Rightarrow> (string \<times> string) list \<Rightarrow> (string \<times> plugin_info) list \<Rightarrow> string list \<Rightarrow>
    string set \<Rightarrow> plugin_info list \<Rightarrow> bool" where
  "resolve_inv entries services plugins stack visited resolved \<longleftrightarrow>
     set entries \<subseteq> visited \<union> set stack \<and>
     visited \<union> set stack \<subseteq> (needs services plugins)\<^sup>* `` set entries \<and>
     needs services plugins `` visited \<subseteq> visited \<union> set stack \<and>
     distinct (map pi_name resolved) \<and>
     set resolved = {info. \<exists>n \<in> visited. map_of plugins n = Some info}"

lemma resolve_inv_step:
  assumes inv: "resolve_inv entries services plugins (name # stack) visited resolved"
    and names: "\<And>n info. map_of plugins n = Some info \<Longrightarrow> pi_name info = n"
    and new: "name \<notin> visited" and info: "map_of plugins name = Some info"
    and push: "push_deps services name (mf_dependencies (pi_manifest info)) stack = (stack', errs)"
  shows "resolve_inv entries services plugins stack' (insert name visited) (resolved @ [info])"
proof -
  let ?N = "needs services plugins"
  have st: "set stack' = set stack \<union> providers_of services info"
    using push_deps_stack [of services name "mf_dependencies (pi_manifest info)" stack] push
    by (simp add: providers_of_def)
  have img: "?N `` {name} = providers_of services info" using info by (auto simp: needs_def)
  have reach: "visited \<union> set (name # stack) \<subseteq> ?N\<^sup>* `` set entries"
    using inv by (simp add: resolve_inv_def)
  have "providers_of services info \<subseteq> ?N\<^sup>* `` set entries"
  proof
    fix p assume "p \<in> providers_of services info"
    then have "(name, p) \<in> ?N" using img by blast
    moreover obtain e where "e \<in> set entries" "(e, name) \<in> ?N\<^sup>*" using reach by auto
    ultimately show "p \<in> ?N\<^sup>* `` set entries" by (auto intro: rtrancl_into_rtrancl)
  qed
  then have a: "insert name visited \<union> set stack' \<subseteq> ?N\<^sup>* `` set entries" using reach st by auto
  have b: "?N `` insert name visited \<subseteq> insert name visited \<union> set stack'"
  proof -
    have "?N `` insert name visited = providers_of services info \<union> ?N `` visited" using img by blast
    moreover have "?N `` visited \<subseteq> visited \<union> set (name # stack)" using inv by (simp add: resolve_inv_def)
    ultimately show ?thesis unfolding st by auto
  qed
  have fresh: "pi_name info \<notin> pi_name ` set resolved"
    using inv names new info by (fastforce simp: resolve_inv_def)
  show ?thesis
    using inv a b fresh info st by (auto simp: resolve_inv_def)
qed

lemma resolve_loop_inv:
  "resolve_inv entries services plugins stack visited resolved \<Longrightarrow>
   (\<And>n info. map_of plugins n = Some info \<Longrightarrow> pi_name info = n) \<Longrightarrow>
   \<exists>visited'. resolve_inv entries services plugins [] visited'
      (fst (resolve_loop services plugins stack visited resolved errs))"
proof (induction services plugins stack visited resolved errs rule: resolve_loop.induct)
  case (1 services plugins visited resolved errs)
  then show ?case by auto
next
  case (2 services plugins name stack visited resolved errs)
  note inv = 2(4) and names = 2(5)
  show ?case
  proof (cases "name \<in> visited")
    case True
    then have "resolve_inv entries services plugins stack visited resolved"
      using inv by (auto simp: resolve_inv_def)
    then show ?thesis using 2(1) [OF True _ names] True by auto
  next
    case new: False
    show ?thesis
    proof (cases "map_of plugins name")
      case None
      then have "needs services plugins `` {name} = {}" by (auto simp: needs_def)
      then have "needs services plugins `` insert name visited = needs services plugins `` visited" by blast
      with None inv have "resolve_inv entries services plugins stack (insert name visited) resolved"
        by (auto simp: resolve_inv_def)
      then show ?thesis using 2(2) [OF new None _ names] new None by auto
    next
      case (Some info)
      obtain stack' errs' where push: "push_deps services name (mf_dependencies (pi_manifest info)) stack = (stack', errs')"
        by (metis surj_pair)
      have "resolve_inv entries services plugins stack' (insert name visited) (resolved @ [info])"
        by (rule resolve_inv_step [OF inv names new Some push])
      then show ?thesis using 2(3) [OF new Some push [symmetric] refl _ names] new Some push by auto
    qed
  qed
qed

lemma plugin_map_name:
  "map_of (plugin_map ps m) n = Some info \<Longrightarrow> (\<And>k i. map_of m k = Some i \<Longrightarrow> pi_name i = k) \<Longrightarrow> pi_name info = n"
proof (induction ps m rule: plugin_map.induct)
  case (1 m)
  then show ?case by simp
next
  case (2 p ps m)
  show ?case by (rule 2(1)) (use 2(2,3) in \<open>auto split: if_splits\<close>)
qed

lemma resolve_dependencies_closure:
  defines "reach \<equiv> \<lambda>entries all. (needs (service_to_plugin all core_services) (plugin_map all []))\<^sup>* `` set entries"
  shows "distinct (map pi_name (fst (resolve_dependencies entries all)))"
    and "set (fst (resolve_dependencies entries all)) =
           {info. \<exists>n \<in> reach entries all. map_of (plugin_map all []) n = Some info}"
proof -
  let ?S = "service_to_plugin all core_services" and ?P = "plugin_map all []"
  have "resolve_inv entries ?S ?P (rev entries) {} []" by (auto simp: resolve_inv_def)
  then obtain V where inv: "resolve_inv entries ?S ?P [] V (fst (resolve_dependencies entries all))"
    using resolve_loop_inv plugin_map_name [of all "[]"] unfolding resolve_dependencies_def by fastforce
  have "x \<in> V" if "(e, x) \<in> (needs ?S ?P)\<^sup>*" "e \<in> set entries" for e x
    using that inv by (induction rule: rtrancl_induct) (auto simp: resolve_inv_def)
  then have "V = reach entries all" using inv by (auto simp: resolve_inv_def reach_def)
  with inv show "distinct (map pi_name (fst (resolve_dependencies entries all)))"
    and "set (fst (resolve_dependencies entries all)) =
           {info. \<exists>n \<in> reach entries all. map_of (plugin_map all []) n = Some info}"
    by (auto simp: resolve_inv_def)
qed

section \<open>The load order respects the dependencies\<close>

definition provider :: "plugin_info list \<Rightarrow> string \<Rightarrow> string option" where
  "provider plugins svc = map_of (service_providers (load_graph plugins)) svc"

lemma plugin_deps_set:
  "set (plugin_deps providers name svcs) = {q. q \<noteq> name \<and> (\<exists>svc \<in> set svcs. map_of providers svc = Some q)}"
  by (induction providers name svcs rule: plugin_deps.induct) (auto split: option.splits)

lemma fold_register_service:
  "graph (fold (\<lambda>svc. register_service svc p) svcs g) = graph g"
  "priorities (fold (\<lambda>svc. register_service svc p) svcs g) = priorities g"
  by (induction svcs arbitrary: g) (auto simp: register_service_def)

lemma fold_register_wf: "wf_graph g \<Longrightarrow> wf_graph (fold (\<lambda>svc. register_service svc p) svcs g)"
  by (induction svcs arbitrary: g) auto

lemma fold_register_range:
  "map_of (service_providers (fold (\<lambda>svc. register_service svc p) svcs g)) s = Some q \<Longrightarrow>
   q = p \<or> map_of (service_providers g) s = Some q"
  by (induction svcs arbitrary: g) (fastforce simp: register_service_def split: if_splits)+

lemma graph_services_simps [simp]: "graph (graph_services ps g) = graph g"
  by (induction ps g rule: graph_services.induct) (auto simp: fold_register_service)

lemma graph_services_wf [simp]: "wf_graph g \<Longrightarrow> wf_graph (graph_services ps g)"
  by (induction ps g rule: graph_services.induct) (auto simp: fold_register_wf)

lemma graph_services_range:
  "map_of (service_providers (graph_services ps g)) s = Some q \<Longrightarrow>
   q \<in> pi_name ` set ps \<or> map_of (service_providers g) s = Some q"
proof (induction ps g rule: graph_services.induct)
  case (1 g)
  then show ?case by simp
next
  case (2 p ps g)
  then show ?case using fold_register_range by fastforce
qed

lemma graph_plugins_services [simp]: "service_providers (graph_plugins ps g) = service_providers g"
  by (induction ps g rule: graph_plugins.induct) (auto simp: add_plugin_def set_priority_def)

lemma graph_plugins_wf [simp]: "wf_graph g \<Longrightarrow> wf_graph (graph_plugins ps g)"
  by (induction ps g rule: graph_plugins.induct) auto

lemma graph_plugins_lookup:
  "distinct (map pi_name ps) \<Longrightarrow> map_of (graph (graph_plugins ps g)) n =
     (case find (\<lambda>p. pi_name p = n) ps of
        Some p \<Rightarrow> Some (plugin_deps (service_providers g) n (mf_dependencies (pi_manifest p)))
      | None \<Rightarrow> map_of (graph g) n)"
proof (induction ps g rule: graph_plugins.induct)
  case (1 g)
  then show ?case by simp
next
  case (2 p ps g)
  have "find (\<lambda>q. pi_name q = pi_name p) ps = None" using 2(2) by (simp add: find_key_None)
  with 2 show ?case by (auto simp: add_plugin_def set_priority_def split: option.splits)
qed

lemma load_graph_wf [simp]: "wf_graph (load_graph ps)"
  by (simp add: load_graph_def)

lemma load_graph_deps:
  assumes "distinct (map pi_name ps)" "p \<in> set ps"
  shows "deps_of (load_graph ps) (pi_name p) =
    plugin_deps (service_providers (load_graph ps)) (pi_name p) (mf_dependencies (pi_manifest p))"
proof -
  have "find (\<lambda>q. pi_name q = pi_name p) ps = Some p"
    by (rule find_key_Some [OF assms])
  then show ?thesis
    using assms(1) by (simp add: deps_of_def load_graph_def graph_plugins_lookup)
qed

lemma load_graph_nodes:
  assumes "distinct (map pi_name ps)"
  shows "graph_nodes (load_graph ps) = pi_name ` set ps"
proof -
  have keys: "map_of (graph (load_graph ps)) n \<noteq> None \<longleftrightarrow> n \<in> pi_name ` set ps" for n
    using assms find_key_None [of pi_name n ps]
    by (cases "find (\<lambda>p. pi_name p = n) ps") (simp_all add: load_graph_def graph_plugins_lookup empty_graph_def)
  have deps: "d \<in> pi_name ` set ps" if "d \<in> set (deps_of (load_graph ps) n)" for n d
  proof -
    have "n \<in> pi_name ` set ps" using that keys [of n] by (auto simp: deps_of_def split: option.splits)
    then obtain p where "p \<in> set ps" "n = pi_name p" by blast
    then show ?thesis
      using that load_graph_deps [OF assms, of p] graph_services_range [of ps empty_graph]
      by (auto simp: plugin_deps_set load_graph_def) (auto simp: empty_graph_def)
  qed
  have "keys_distinct (graph (load_graph ps))" using load_graph_wf [of ps] by (simp add: wf_graph_def)
  then show ?thesis using keys deps by (auto simp: graph_nodes_map_of)
qed

lemma compute_load_order_eq:
  assumes d: "distinct (map pi_name ps)"
  shows "fst (compute_load_order ps) = topological_order (load_graph ps)"
proof (cases "find (\<lambda>p. has_cycle_from (load_graph ps) (pi_name p)) ps")
  case None
  then show ?thesis by (simp add: compute_load_order_def Let_def)
next
  case (Some p)
  then have "p \<in> set ps" "cycle_from (load_graph ps) (pi_name p)"
    by (auto simp: find_Some_iff has_cycle_from_decides)
  then have "\<exists>n \<in> graph_nodes (load_graph ps). cycle_from (load_graph ps) n"
    using load_graph_nodes [OF d] by blast
  then have "topological_order (load_graph ps) = []"
    using topological_order_empty_iff [OF load_graph_wf, of ps] by blast
  with Some show ?thesis by (simp add: compute_load_order_def Let_def)
qed

lemma deps_first_split:
  "deps_first g S (us @ v # vs) \<Longrightarrow> set (deps_of g v) \<subseteq> S \<union> set us"
  by (induction us arbitrary: S) auto

lemma load_order_split:
  assumes d: "distinct (map pi_name ps)" and split: "fst (compute_load_order ps) = us @ pi_name p # vs"
    and p: "p \<in> set ps" and svc: "svc \<in> set (mf_dependencies (pi_manifest p))"
    and q: "provider ps svc = Some q" "q \<noteq> pi_name p"
  shows "q \<in> set us"
proof -
  let ?g = "load_graph ps"
  have "topological_order ?g = us @ pi_name p # vs" using compute_load_order_eq [OF d] split by simp
  moreover then have "deps_first ?g {} (topological_order ?g)"
    by (intro topological_order_valid(3)) auto
  ultimately have "set (deps_of ?g (pi_name p)) \<subseteq> set us" using deps_first_split by fastforce
  moreover have "q \<in> set (deps_of ?g (pi_name p))"
    using svc q by (auto simp: load_graph_deps [OF d p] plugin_deps_set provider_def)
  ultimately show ?thesis by blast
qed

section \<open>Properties\<close>

text \<open>C27. Resolution is exact and total: for any entry names and any installed plugins (missing
  providers, unknown names and dependency cycles included) the loop ends; the resolved plugins have
  distinct names and are exactly the installed plugins whose name is reachable from an entry name
  through the relation that leads from a plugin to the providers of its services, the built-in
  services excluded.\<close>

theorem resolve_dependencies_exact:
  "distinct (map pi_name (fst (resolve_dependencies entries all))) \<and>
   set (fst (resolve_dependencies entries all)) =
     {info. \<exists>n \<in> (needs (service_to_plugin all core_services) (plugin_map all []))\<^sup>* `` set entries.
              map_of (plugin_map all []) n = Some info}"
  using resolve_dependencies_closure [of entries all] by blast

text \<open>A computed load order that is not empty is a permutation of the plugins in which the
  provider of every service a plugin depends on is loaded before that plugin.\<close>

theorem compute_load_order_correct:
  assumes "distinct (map pi_name ps)" and "fst (compute_load_order ps) \<noteq> []"
  shows "distinct (fst (compute_load_order ps)) \<and> set (fst (compute_load_order ps)) = pi_name ` set ps \<and>
    (\<forall>us p vs svc q. fst (compute_load_order ps) = us @ pi_name p # vs \<longrightarrow> p \<in> set ps \<longrightarrow>
       svc \<in> set (mf_dependencies (pi_manifest p)) \<longrightarrow> provider ps svc = Some q \<longrightarrow> q \<noteq> pi_name p \<longrightarrow> q \<in> set us)"
proof -
  have ne: "topological_order (load_graph ps) \<noteq> []" using assms compute_load_order_eq by simp
  show ?thesis
    using topological_order_valid(1,2) [OF load_graph_wf ne] load_graph_nodes [OF assms(1)]
      load_order_split [OF assms(1)] compute_load_order_eq [OF assms(1)] by auto
qed

definition demo_plugin :: "string \<Rightarrow> string list \<Rightarrow> string list \<Rightarrow> plugin_info" where
  "demo_plugin n deps provs = \<lparr>pi_name = n, pi_path = n, pi_manifest =
     \<lparr>mf_name = n, mf_version = ''1'', mf_dependencies = deps, mf_provides = provs, mf_priority = 0, mf_acl_allow = []\<rparr>\<rparr>"

text \<open>A plugin that depends on two services of one other plugin makes the whole load order
  empty, with no error reported, although nothing is cyclic.\<close>

theorem compute_load_order_shared_provider:
  assumes d: "distinct (map pi_name ps)" and p: "p \<in> set ps"
    and deps: "mf_dependencies (pi_manifest p) = xs @ s # ys @ t # zs"
    and q: "provider ps s = Some q" "provider ps t = Some q" "q \<noteq> pi_name p"
  shows "fst (compute_load_order ps) = []"
proof -
  have app: "plugin_deps P n (as @ bs) = plugin_deps P n as @ plugin_deps P n bs" for P n as bs
    by (induction P n as rule: plugin_deps.induct) (auto split: option.splits)
  have "\<not> distinct (deps_of (load_graph ps) (pi_name p))"
    using q by (simp add: load_graph_deps [OF d p] deps app provider_def)
  moreover have "pi_name p \<in> graph_nodes (load_graph ps)" using p load_graph_nodes [OF d] by blast
  ultimately have "\<not> deps_distinct (load_graph ps)" by (auto simp: deps_distinct_def)
  then show ?thesis
    using compute_load_order_eq [OF d] topological_order_empty_iff [OF load_graph_wf] by auto
qed

end
