(* ===== verification/Dtoa_Limbs.thy ===== *)
theory Dtoa_Limbs
  imports Prelude
begin

text \<open>
  The multi-limb arithmetic at the bottom of \<^verbatim>\<open>plugins/ts_host/quickjs/dtoa.c\<close> (lines 72 to 217):
  natural numbers as arrays of 32-bit limbs, least significant limb first.  A limb array of length
  \<open>n\<close> is the list of its \<open>n\<close> limbs; a routine that writes into \<open>tabr\<close> returns the new list beside its
  carry or remainder.  In every call of \<^verbatim>\<open>dtoa.c\<close> the result array is the operand array itself, so
  the in-place update and the functional one agree.  \<open>limbs_val\<close> is the number the array stands for.
\<close>

type_synonym limb = u32
type_synonym dlimb = u64

definition limbs_val :: "limb list \<Rightarrow> nat" where
  "limbs_val tab = val_le (2 ^ 32) (map unat tab)"

lemma limbs_val_simps [simp]:
  "limbs_val [] = 0"
  "limbs_val (x # xs) = unat x + 2 ^ 32 * limbs_val xs"
  by (simp_all add: limbs_val_def)

lemma limbs_val_append: "limbs_val (xs @ ys) = limbs_val xs + 2 ^ (32 * length xs) * limbs_val ys"
  by (simp add: limbs_val_def val_le_append power_mult)

lemma limbs_val_bound: "limbs_val xs < 2 ^ (32 * length xs)"
proof -
  have "\<forall>x \<in> set (map unat xs). x < (2 :: nat) ^ 32"
    using unsigned_less [where ?'a = nat and ?'b = 32] by auto
  from val_le_bound [OF this] show ?thesis by (simp add: limbs_val_def power_mult)
qed

section \<open>The routines\<close>

fun mp_add_ui :: "limb list \<Rightarrow> limb \<Rightarrow> limb list \<times> limb" where
  "mp_add_ui [] k = ([], k)"
| "mp_add_ui (t # tab) k =
     (if k = 0 then (t # tab, k)
      else let a = t + k;
               (tab', c) = mp_add_ui tab (if a < k then 1 else 0)
           in (a # tab', c))"

fun mp_mul1 :: "limb list \<Rightarrow> limb \<Rightarrow> limb \<Rightarrow> limb list \<times> limb" where
  "mp_mul1 [] b l = ([], l)"
| "mp_mul1 (x # taba) b l =
     (let t = (ucast x :: dlimb) * ucast b + ucast l;
          (tabr, h) = mp_mul1 taba b (ucast (drop_bit 32 t))
      in (ucast t # tabr, h))"

definition udiv1norm_init :: "limb \<Rightarrow> limb" where
  "udiv1norm_init d =
     (let a1 = - d - 1; a0 = - 1 :: limb
      in ucast ((push_bit 32 (ucast a1 :: dlimb) OR ucast a0) div ucast d))"

definition udiv1norm :: "limb \<Rightarrow> limb \<Rightarrow> limb \<Rightarrow> limb \<Rightarrow> limb \<times> limb" where
  "udiv1norm a1 a0 d d_inv =
     (let n1m = signed_drop_bit 31 a0;
          n_adj = a0 + (n1m AND d);
          a = (ucast d_inv :: dlimb) * ucast (a1 - n1m) + ucast n_adj;
          q = ucast (drop_bit 32 a + ucast a1) :: limb;
          a = push_bit 32 (ucast a1 :: dlimb) OR ucast a0;
          a = a - ucast q * ucast d - ucast d;
          ah = ucast (drop_bit 32 a) :: limb;
          q = q + (1 + ah);
          r = ucast a + (ah AND d)
      in (q, r))"

text \<open>The loops that run from the most significant limb down recurse on the tail first.\<close>

fun mp_div1 :: "limb list \<Rightarrow> limb \<Rightarrow> limb \<Rightarrow> limb list \<times> limb" where
  "mp_div1 [] b r = ([], r)"
| "mp_div1 (x # taba) b r =
     (let (tabr, r) = mp_div1 taba b r;
          a1 = push_bit 32 (ucast r :: dlimb) OR ucast x
      in (ucast (a1 div ucast b) # tabr, ucast (a1 mod ucast b)))"

fun mp_shr_loop :: "limb list \<Rightarrow> nat \<Rightarrow> limb \<Rightarrow> limb list \<times> limb" where
  "mp_shr_loop [] shift l = ([], l)"
| "mp_shr_loop (a # tab) shift l =
     (let (tab_r, l) = mp_shr_loop tab shift l
      in ((drop_bit shift a OR push_bit (32 - shift) l) # tab_r, a))"

definition mp_shr :: "limb list \<Rightarrow> nat \<Rightarrow> limb \<Rightarrow> limb list \<times> limb" where
  "mp_shr tab shift high =
     (let (tab_r, l) = mp_shr_loop tab shift high in (tab_r, l AND (push_bit shift 1 - 1)))"

fun mp_shl :: "limb list \<Rightarrow> nat \<Rightarrow> limb \<Rightarrow> limb list \<times> limb" where
  "mp_shl [] shift l = ([], l)"
| "mp_shl (a # tab) shift l =
     (let (tab_r, h) = mp_shl tab shift (drop_bit (32 - shift) a)
      in ((push_bit shift a OR l) # tab_r, h))"

fun mp_div1norm_loop :: "limb list \<Rightarrow> limb \<Rightarrow> limb \<Rightarrow> limb \<Rightarrow> limb list \<times> limb" where
  "mp_div1norm_loop [] b b_inv r = ([], r)"
| "mp_div1norm_loop (x # tab) b b_inv r =
     (let (tabr, r) = mp_div1norm_loop tab b b_inv r;
          (q, r) = udiv1norm r x b b_inv
      in (q # tabr, r))"

definition mp_div1norm :: "limb list \<Rightarrow> limb \<Rightarrow> limb \<Rightarrow> limb \<Rightarrow> nat \<Rightarrow> limb list \<times> limb" where
  "mp_div1norm taba b r b_inv shift =
     (let (tabr, r) = (if shift \<noteq> 0
                       then let (t, h) = mp_shl taba shift 0 in (t, push_bit shift r OR h)
                       else (taba, r));
          (tabr, r) = mp_div1norm_loop tabr b b_inv r
      in (tabr, drop_bit shift r))"

section \<open>Words and their values\<close>

lemma unat32_lt: "unat (x :: limb) < 4294967296"
  using unsigned_less [of x, where ?'a = nat] by simp

lemma unat32_le: "unat (x :: limb) \<le> 4294967295"
  using unat32_lt [of x] by linarith

lemma unat_ucast_32_64 [simp]: "unat (ucast (x :: limb) :: dlimb) = unat x"
  by (simp add: unsigned_ucast_eq take_bit_nat_eq_self order_less_trans [OF unat32_lt])

lemma unat_ucast_64_32: "unat (ucast (x :: dlimb) :: limb) = unat x mod 2 ^ 32"
  by (simp add: unsigned_ucast_eq take_bit_eq_mod)

lemma unat_drop_bit_64: "unat (drop_bit 32 (x :: dlimb)) = unat x div 2 ^ 32"
  by (simp only: unat_drop_bit_eq) (simp add: drop_bit_eq_div)

lemma unat_high_32: "unat (ucast (drop_bit 32 (x :: dlimb)) :: limb) = unat x div 2 ^ 32"
proof -
  have "unat x < 2 ^ 64" using unsigned_less [of x, where ?'a = nat] by simp
  then have "unat x div 2 ^ 32 < 2 ^ 32" by (simp add: less_mult_imp_div_less)
  then show ?thesis by (simp add: unat_ucast_64_32 unat_drop_bit_64)
qed

lemma unat_join: "unat (push_bit 32 (ucast (h :: limb) :: dlimb) OR ucast (l :: limb)) = unat h * 2 ^ 32 + unat l"
proof -
  have "push_bit 32 (ucast h :: dlimb) OR ucast l = push_bit 32 (ucast h) + ucast l"
  proof (rule disjunctive_add [symmetric])
    show "\<not> bit (push_bit 32 (ucast h :: dlimb)) n \<or> \<not> bit (ucast l :: dlimb) n" for n
      by (auto simp: bit_push_bit_iff bit_ucast_iff dest: bit_imp_le_length)
  qed
  moreover have "unat (push_bit 32 (ucast h :: dlimb)) = unat h * 2 ^ 32"
    using unat32_lt [of h] by (simp add: push_bit_eq_mult unat_word_ariths)
  moreover have "unat h * 2 ^ 32 + unat l < 2 ^ 64"
    using unat32_le [of h] unat32_lt [of l] by simp
  ultimately show ?thesis by (simp add: unat_word_ariths)
qed

section \<open>Addition and multiplication\<close>

lemma mp_add_ui_val:
  "mp_add_ui tab k = (tab', c) \<Longrightarrow>
   length tab' = length tab \<and> limbs_val tab' + unat c * 2 ^ (32 * length tab) = limbs_val tab + unat k"
proof (induction tab k arbitrary: tab' c rule: mp_add_ui.induct)
  case (1 k)
  then show ?case by simp
next
  case (2 t tab k)
  show ?case
  proof (cases "k = 0")
    case True
    with 2 show ?thesis by auto
  next
    case False
    let ?a = "t + k" let ?k = "if ?a < k then 1 else 0 :: limb"
    obtain tab1 where r: "mp_add_ui tab ?k = (tab1, c)" "tab' = ?a # tab1"
      using 2(2) False by (auto simp: Let_def split: prod.splits)
    have IH: "length tab1 = length tab" "limbs_val tab1 + unat c * 2 ^ (32 * length tab) = limbs_val tab + unat ?k"
      using 2(1) [OF False refl r(1)] by auto
    have carry: "unat ?a + unat ?k * 2 ^ 32 = unat t + unat k"
    proof (cases "unat t + unat k < 2 ^ 32")
      case True
      then have "unat ?a = unat t + unat k" by (simp add: unat_word_ariths)
      moreover then have "\<not> ?a < k" by (simp add: word_less_nat_alt)
      ultimately show ?thesis by simp
    next
      case False
      then have "unat ?a = unat t + unat k - 2 ^ 32"
        using unat32_lt [of t] unat32_lt [of k] by (simp add: unat_word_ariths le_mod_geq)
      moreover then have "?a < k" using False unat32_lt [of t] by (simp add: word_less_nat_alt)
      ultimately show ?thesis using False by simp
    qed
    have "limbs_val tab' + unat c * 2 ^ (32 * length (t # tab))
        = unat ?a + 2 ^ 32 * (limbs_val tab1 + unat c * 2 ^ (32 * length tab))"
      by (simp add: r power_add algebra_simps)
    also have "\<dots> = unat t + unat k + 2 ^ 32 * limbs_val tab" using carry by (simp only: IH) simp
    finally show ?thesis using IH r by simp
  qed
qed

lemma mp_mul1_val:
  "mp_mul1 taba b l = (tabr, h) \<Longrightarrow>
   length tabr = length taba \<and> limbs_val tabr + unat h * 2 ^ (32 * length taba) = limbs_val taba * unat b + unat l"
proof (induction taba b l arbitrary: tabr h rule: mp_mul1.induct)
  case (1 b l)
  then show ?case by simp
next
  case (2 x taba b l)
  let ?t = "(ucast x :: dlimb) * ucast b + ucast l"
  obtain tab1 where r: "mp_mul1 taba b (ucast (drop_bit 32 ?t)) = (tab1, h)" "tabr = ucast ?t # tab1"
    using 2(2) by (auto simp: Let_def split: prod.splits)
  have IH: "length tab1 = length taba"
    "limbs_val tab1 + unat h * 2 ^ (32 * length taba) = limbs_val taba * unat b + unat (ucast (drop_bit 32 ?t) :: limb)"
    using 2(1) [OF refl r(1)] by auto
  have "unat x * unat b \<le> (2 ^ 32 - 1) * (2 ^ 32 - 1)"
    using unat32_le [of x] unat32_le [of b] by (intro mult_le_mono) auto
  then have "unat x * unat b + unat l < 2 ^ 64" using unat32_lt [of l] by simp
  then have t: "unat ?t = unat x * unat b + unat l"
    by (simp add: unat_word_ariths)
  have split: "unat (ucast ?t :: limb) + 2 ^ 32 * unat (ucast (drop_bit 32 ?t) :: limb) = unat x * unat b + unat l"
    unfolding unat_high_32 unat_ucast_64_32 [of ?t] t by simp
  have "limbs_val tabr + unat h * 2 ^ (32 * length (x # taba))
      = unat (ucast ?t :: limb) + 2 ^ 32 * (limbs_val tab1 + unat h * 2 ^ (32 * length taba))"
    by (simp add: r power_add algebra_simps)
  also have "\<dots> = unat x * unat b + unat l + 2 ^ 32 * (limbs_val taba * unat b)"
    using split by (simp only: IH) (simp add: algebra_simps)
  also have "\<dots> = limbs_val (x # taba) * unat b + unat l" by (simp add: algebra_simps)
  finally show ?case using IH r by simp
qed

section \<open>Division by a single limb\<close>

lemma mp_div1_val:
  "mp_div1 taba b r = (tabr, r') \<Longrightarrow> unat r < unat b \<Longrightarrow>
   length tabr = length taba \<and> unat r' < unat b \<and>
   limbs_val taba + unat r * 2 ^ (32 * length taba) = limbs_val tabr * unat b + unat r'"
proof (induction taba b r arbitrary: tabr r' rule: mp_div1.induct)
  case (1 b r)
  then show ?case by simp
next
  case (2 x taba b r)
  obtain tab1 r1 where rec: "mp_div1 taba b r = (tab1, r1)" by (metis surj_pair)
  let ?a = "push_bit 32 (ucast r1 :: dlimb) OR ucast x"
  have res: "tabr = ucast (?a div ucast b) # tab1" "r' = ucast (?a mod ucast b)"
    using 2(2) by (auto simp: rec Let_def)
  have IH: "length tab1 = length taba" "unat r1 < unat b"
    "limbs_val taba + unat r * 2 ^ (32 * length taba) = limbs_val tab1 * unat b + unat r1"
    using 2(1) [OF rec 2(3)] by auto
  have a: "unat ?a = unat r1 * 2 ^ 32 + unat x" by (rule unat_join)
  have "(unat r1 + 1) * 2 ^ 32 \<le> unat b * 2 ^ 32" using IH(2) by (intro mult_le_mono) auto
  then have "unat ?a < unat b * 2 ^ 32" using unat32_lt [of x] unfolding a by simp
  then have "unat ?a div unat b < 2 ^ 32" by (simp add: less_mult_imp_div_less mult.commute)
  then have q: "unat (ucast (?a div ucast b) :: limb) = unat ?a div unat b"
    by (simp add: unat_ucast_64_32 unat_div)
  have "unat ?a mod unat b < 2 ^ 32" using IH(2) unat32_lt [of b] by (simp add: order_less_trans [OF mod_less_divisor])
  then have r: "unat r' = unat ?a mod unat b"
    by (simp add: res unat_ucast_64_32 unat_mod)
  have "limbs_val (x # taba) + unat r * 2 ^ (32 * length (x # taba))
      = unat x + 2 ^ 32 * (limbs_val taba + unat r * 2 ^ (32 * length taba))"
    by (simp add: power_add algebra_simps)
  also have "\<dots> = unat ?a + 2 ^ 32 * (limbs_val tab1 * unat b)"
    unfolding IH(3) a by (simp add: algebra_simps)
  also have "unat ?a = unat ?a div unat b * unat b + unat ?a mod unat b" by simp
  also have "\<dots> + 2 ^ 32 * (limbs_val tab1 * unat b) = limbs_val tabr * unat b + unat r'"
    unfolding res(1) limbs_val_simps q r by (simp add: algebra_simps)
  finally show ?case using IH res r by simp
qed

section \<open>Division by a precomputed reciprocal\<close>

text \<open>
  The reciprocal of a normalised divisor is the floor of \<open>(B * (B - d) - 1) / d\<close> with \<open>B = 2^32\<close>.  The
  next lemma is the arithmetic of the quotient estimate: it is at most one too small.
\<close>

lemma reciprocal_estimate:
  fixes B d m k n2 n1 n10 q1 q0 n_adj :: int
  assumes d: "B \<le> 2 * d" "d < B" and m: "m * d = B * (B - d) - 1 - k" "0 \<le> k" "k < d"
    and n2: "0 \<le> n2" "n2 < d" and n1: "n1 = 0 \<and> 0 \<le> n10 \<and> 2 * n10 < B \<or> n1 = 1 \<and> B \<le> 2 * n10 \<and> n10 < B"
    and adj: "n_adj = n10 - n1 * (B - d)"
    and q1: "B * (q1 - n2) + q0 = m * (n2 + n1) + n_adj" "0 \<le> q0" "q0 < B"
  shows "0 \<le> n2 * B + n10 - q1 * d" "n2 * B + n10 - q1 * d < 2 * d"
proof -
  have B: "0 < B" "0 < d" using d n2 by linarith+
  have key: "B * (n2 * B + n10 - q1 * d) = (1 + k) * (n2 + n1) + (B - d) * n_adj + d * q0"
  proof -
    have e: "B * q1 = m * (n2 + n1) + n_adj - q0 + B * n2" using q1(1) by (simp add: algebra_simps)
    have "B * (n2 * B + n10 - q1 * d) = B * n2 * B + B * n10 - (B * q1) * d" by (simp add: algebra_simps)
    also have "\<dots> = B * n2 * B + B * n10 - (m * d) * (n2 + n1) - n_adj * d + q0 * d - B * n2 * d"
      unfolding e by (simp add: algebra_simps)
    also have "\<dots> = (1 + k) * (n2 + n1) + (B - d) * n_adj + d * q0"
      unfolding m(1) adj by (simp add: algebra_simps)
    finally show ?thesis .
  qed
  have adj0: "0 \<le> n_adj" using n1 adj d by auto
  have "0 \<le> (1 + k) * (n2 + n1) + (B - d) * n_adj + d * q0"
    using m n2 n1 adj0 d q1 by (intro add_nonneg_nonneg mult_nonneg_nonneg) auto
  then have "0 \<le> B * (n2 * B + n10 - q1 * d)" using key by simp
  then show "0 \<le> n2 * B + n10 - q1 * d" using B by (simp add: zero_le_mult_iff)
  have s1: "(1 + k) * (n2 + n1) \<le> d * (n2 + n1)" using m n2 n1 by (intro mult_right_mono) auto
  have s2: "d * q0 \<le> d * (B - 1)" using q1 B by (intro mult_left_mono) auto
  have "(1 + k) * (n2 + n1) + (B - d) * n_adj + d * q0 < B * (2 * d)"
    using n1
  proof
    assume a: "n1 = 0 \<and> 0 \<le> n10 \<and> 2 * n10 < B"
    have "d * n2 \<le> d * (d - 1)" using n2 B by (intro mult_left_mono) auto
    moreover have "(B - d) * n_adj \<le> (B - d) * d" using a adj d by (intro mult_left_mono) auto
    ultimately have "(1 + k) * (n2 + n1) + (B - d) * n_adj + d * q0 \<le> d * (d - 1) + (B - d) * d + d * (B - 1)"
      using s1 s2 a by auto
    also have "\<dots> < B * (2 * d)" using B by (simp add: algebra_simps)
    finally show ?thesis .
  next
    assume a: "n1 = 1 \<and> B \<le> 2 * n10 \<and> n10 < B"
    have "d * (n2 + n1) \<le> d * d" using n2 a B by (intro mult_left_mono) auto
    moreover have "(B - d) * n_adj \<le> (B - d) * (d - 1)" using a adj d by (intro mult_left_mono) auto
    ultimately have "(1 + k) * (n2 + n1) + (B - d) * n_adj + d * q0 \<le> d * d + (B - d) * (d - 1) + d * (B - 1)"
      using s1 s2 by auto
    also have "\<dots> < B * (2 * d)" using B by (simp add: algebra_simps)
    finally show ?thesis .
  qed
  then have "B * (n2 * B + n10 - q1 * d) < B * (2 * d)" using key by simp
  then show "n2 * B + n10 - q1 * d < 2 * d" using B by (simp add: mult_less_cancel_left_pos)
qed

lemma uint_join: "uint (push_bit 32 (ucast (h :: limb) :: dlimb) OR ucast (l :: limb)) = uint h * 2 ^ 32 + uint l"
proof -
  have "int (unat (push_bit 32 (ucast h :: dlimb) OR ucast l)) = int (unat h * 2 ^ 32 + unat l)"
    by (simp only: unat_join)
  then show ?thesis by (simp only: of_nat_unat of_nat_add of_nat_mult of_nat_power of_nat_numeral)
qed

lemma uint32_bounds: "0 \<le> uint (x :: limb)" "uint (x :: limb) < 2 ^ 32"
  using unsigned_less [of x, where ?'a = int] by simp_all

lemma uint_ucast_32_64 [simp]: "uint (ucast (x :: limb) :: dlimb) = uint x"
  by (metis of_nat_unat unat_ucast_32_64)

lemma uint_ucast_64_32: "uint (ucast (x :: dlimb) :: limb) = uint x mod 2 ^ 32"
  by (simp add: unsigned_ucast_eq take_bit_eq_mod)

lemma uint_high: "uint (drop_bit 32 (x :: dlimb)) = uint x div 2 ^ 32"
proof -
  have "int (unat (drop_bit 32 x)) = int (unat x div 2 ^ 32)" by (simp only: unat_drop_bit_64)
  then show ?thesis by (simp only: of_nat_unat zdiv_int of_nat_power of_nat_numeral)
qed

lemma int_div_less: "0 < y \<Longrightarrow> x < M * y \<Longrightarrow> x div y < (M :: int)"
proof -
  assume y: "0 < y" "x < M * y"
  then have "x div y * y < M * y" using div_mult_mod_eq [of x y] pos_mod_sign [of y x] by linarith
  then show ?thesis using y by (simp add: mult_less_cancel_right)
qed

lemma udiv1norm_init_val:
  assumes d: "2 ^ 31 \<le> uint d"
  shows "uint (udiv1norm_init d) = (2 ^ 32 * (2 ^ 32 - uint d) - 1) div uint d"
proof -
  note lt = uint32_bounds(2) [of d]
  have a1: "uint (- d - 1) = 2 ^ 32 - uint d - 1"
  proof -
    have "uint (- d - 1) = (- uint d - 1) mod 2 ^ 32" by (simp add: uint_word_ariths mod_diff_left_eq)
    also have "- uint d - 1 = (2 ^ 32 - uint d - 1) - 2 ^ 32" by simp
    also have "\<dots> mod 2 ^ 32 = (2 ^ 32 - uint d - 1) mod 2 ^ 32" by (rule minus_mod_self2)
    also have "\<dots> = 2 ^ 32 - uint d - 1" using d lt by simp
    finally show ?thesis .
  qed
  have a0: "uint (- 1 :: limb) = 2 ^ 32 - 1" by (simp add: unsigned_minus_1_eq_mask mask_eq_exp_minus_1)
  have j: "uint (push_bit 32 (ucast (- d - 1) :: dlimb) OR ucast (- 1 :: limb)) = 2 ^ 32 * (2 ^ 32 - uint d) - 1"
    unfolding uint_join a1 a0 by simp
  have "(2 ^ 32 * (2 ^ 32 - uint d) - 1) div uint d < 2 ^ 32"
  proof -
    have "2 ^ 32 * (2 ^ 32 - uint d) - 1 < 2 ^ 32 * uint d" using d by simp
    then show ?thesis using d by (intro int_div_less) auto
  qed
  moreover have "0 \<le> (2 ^ 32 * (2 ^ 32 - uint d) - 1) div uint d"
    using d lt by (intro div_int_pos_iff [THEN iffD2]) auto
  ultimately show ?thesis
    unfolding udiv1norm_init_def Let_def uint_ucast_64_32 uint_div uint_ucast_32_64 j by simp
qed

lemma sign_mask: "signed_drop_bit 31 (a :: limb) = (if 2 ^ 31 \<le> uint a then - 1 else 0)"
proof -
  have top: "bit a 31 \<longleftrightarrow> 2 ^ 31 \<le> uint a"
  proof -
    have "bit a 31 \<longleftrightarrow> bit (uint a) 31" by (simp add: bit_uint_iff)
    then have "bit a 31 \<longleftrightarrow> odd (uint a div 2 ^ 31)" by (simp only: bit_iff_odd)
    moreover have "uint a div 2 ^ 31 = (if 2 ^ 31 \<le> uint a then 1 else 0)"
      using uint32_bounds [of a] by (auto simp: div_pos_pos_trivial intro: int_div_pos_eq [of _ _ _ "uint a - 2 ^ 31"])
    ultimately show ?thesis by auto
  qed
  show ?thesis
  proof (rule bit_word_eqI)
    fix n assume "n < LENGTH(32)"
    then have "bit (signed_drop_bit 31 a) n \<longleftrightarrow> bit a 31"
      by (cases "n = 0") (auto simp: bit_signed_drop_bit_iff)
    then show "bit (signed_drop_bit 31 a) n = bit (if 2 ^ 31 \<le> uint a then - 1 else 0 :: limb) n"
      using top \<open>n < LENGTH(32)\<close> by auto
  qed
qed

lemma udiv1norm_adjust:
  fixes W :: dlimb and Q d :: limb
  assumes W: "uint W = x mod 2 ^ 64" and x: "- uint d \<le> x" "x < uint d" and Q: "0 \<le> x \<Longrightarrow> uint Q + 1 < 2 ^ 32"
    and ah: "ah = ucast (drop_bit 32 W)"
  shows "uint (Q + (1 + ah)) = uint Q + (if x < 0 then 0 else 1)"
    and "uint (ucast W + (ah AND d)) = x + (if x < 0 then uint d else 0)"
proof -
  have d: "uint d < 2 ^ 32" using uint32_bounds by blast
  have u_ah: "uint ah = uint W div 2 ^ 32 mod 2 ^ 32" unfolding ah uint_ucast_64_32 uint_high ..
  have "uint (Q + (1 + ah)) = uint Q + (if x < 0 then 0 else 1) \<and>
        uint (ucast W + (ah AND d)) = x + (if x < 0 then uint d else 0)"
  proof (cases "x < 0")
    case True
    have W': "uint W = x + 2 ^ 64"
    proof -
      have "x mod 2 ^ 64 = (x + 2 ^ 64) mod 2 ^ 64" by simp
      also have "\<dots> = x + 2 ^ 64" using True x d by (intro mod_pos_pos_trivial) simp_all
      finally show ?thesis using W by simp
    qed
    have "(x + 2 ^ 64) div 2 ^ 32 = 2 ^ 32 - 1"
      using True x d by (intro int_div_pos_eq [of _ _ _ "x + 2 ^ 32"]) simp_all
    then have "uint ah = 2 ^ 32 - 1" using u_ah W' by simp
    then have m1: "ah = - 1" by (intro word_uint_eqI) (simp add: unsigned_minus_1_eq_mask mask_eq_exp_minus_1)
    have "uint (ucast W + d) = ((x + 2 ^ 64) mod 2 ^ 32 + uint d) mod 2 ^ 32"
      using W' by (simp add: uint_word_ariths uint_ucast_64_32)
    also have "\<dots> = (x + uint d + 2 ^ 32 * 2 ^ 32) mod 2 ^ 32" by (simp add: mod_simps algebra_simps)
    also have "\<dots> = (x + uint d) mod 2 ^ 32" by (rule mod_mult_self2)
    also have "\<dots> = x + uint d" using True x d by (intro mod_pos_pos_trivial) simp_all
    finally show ?thesis using True m1 by simp
  next
    case False
    then have W': "uint W = x" using W x d by simp
    then have "uint ah = 0" using u_ah False x d by simp
    then have "ah = 0" by (simp only: uint_0_iff)
    moreover have "uint (Q + 1) = uint Q + 1"
      using Q False uint32_bounds [of Q] by (simp add: uint_word_ariths)
    moreover have "uint (ucast W :: limb) = x" using W' False x d by (simp add: uint_ucast_64_32)
    ultimately show ?thesis using False by simp
  qed
  then show "uint (Q + (1 + ah)) = uint Q + (if x < 0 then 0 else 1)"
    and "uint (ucast W + (ah AND d)) = x + (if x < 0 then uint d else 0)" by blast+
qed

lemma udiv1norm_quotient_estimate:
  fixes a1 a0 d :: limb
  defines "B \<equiv> (2 :: int) ^ 32"
  defines "n \<equiv> uint a1 * B + uint a0"
  assumes d: "2 ^ 31 \<le> uint d" and a1: "uint a1 < uint d"
    and A: "A = (ucast (udiv1norm_init d) :: dlimb) * ucast (a1 - signed_drop_bit 31 a0)
                + ucast (a0 + (signed_drop_bit 31 a0 AND d))"
    and Q: "Q = (ucast (drop_bit 32 A + ucast a1) :: limb)"
  shows "0 \<le> n - uint Q * uint d" "n - uint Q * uint d < 2 * uint d" "n < B * uint d"
proof -
  define n1 m where "n1 = (if 2 ^ 31 \<le> uint a0 then 1 else 0 :: int)" and "m = uint (udiv1norm_init d)"
  define n_adj where "n_adj = uint a0 - n1 * (B - uint d)"
  define k where "k = (B * (B - uint d) - 1) mod uint d"
  have Bpos: "0 < B" by (simp add: B_def)
  have dB: "uint d < B" "B \<le> 2 * uint d" using d uint32_bounds [of d] by (simp_all add: B_def)
  have mk: "m * uint d = B * (B - uint d) - 1 - k" "0 \<le> k" "k < uint d"
    using udiv1norm_init_val [OF d] d
    by (simp_all add: m_def k_def B_def minus_mod_eq_div_mult [symmetric])
  have m0: "0 \<le> m" "m < B" using uint32_bounds [of "udiv1norm_init d"] by (simp_all add: m_def B_def)
  have n1': "n1 = 0 \<and> 0 \<le> uint a0 \<and> 2 * uint a0 < B \<or> n1 = 1 \<and> B \<le> 2 * uint a0 \<and> uint a0 < B"
    using uint32_bounds [of a0] by (auto simp: n1_def B_def)
  have adj: "0 \<le> n_adj" "n_adj < B" using n1' dB uint32_bounds [of d] by (auto simp: n_adj_def)
  let ?n1m = "signed_drop_bit 31 a0"
  have u_adj: "uint (a0 + (?n1m AND d)) = n_adj"
  proof (cases "2 ^ 31 \<le> uint a0")
    case True
    then have "uint (a0 + (?n1m AND d)) = (n_adj + B) mod B"
      by (simp add: sign_mask uint_word_ariths n_adj_def n1_def B_def algebra_simps)
    then show ?thesis using adj by simp
  next
    case False
    then show ?thesis by (simp add: sign_mask n_adj_def n1_def)
  qed
  have u_a1: "uint (a1 - ?n1m) = uint a1 + n1"
    using a1 dB uint32_bounds [of a1] uint_word_ariths(1) [of a1 1] by (simp add: sign_mask n1_def B_def)
  define a where "a = m * (uint a1 + n1) + n_adj"
  have "m * (uint a1 + n1) \<le> (B - 1) * (B - 1)"
    using m0 a1 dB n1' uint32_bounds [of a1] by (intro mult_mono) auto
  moreover have "(B - 1) * (B - 1) + B \<le> 2 ^ 64" by (simp add: B_def)
  ultimately have a: "0 \<le> a" "a < 2 ^ 64"
    using m0 adj n1' uint32_bounds [of a1] by (auto simp: a_def)
  have u_a: "uint A = a"
  proof -
    have "uint A = (m * (uint a1 + n1) mod 2 ^ LENGTH(64) + n_adj) mod 2 ^ LENGTH(64)"
      by (simp only: A uint_word_ariths [where 'a = 64] uint_ucast_32_64 u_adj u_a1 m_def)
    also have "\<dots> = a mod 2 ^ 64" by (simp add: mod_add_left_eq a_def)
    also have "\<dots> = a" by (rule mod_pos_pos_trivial [OF a])
    finally show ?thesis .
  qed
  define q1 where "q1 = uint a1 + a div B"
  have q1_eq: "B * (q1 - uint a1) + a mod B = m * (uint a1 + n1) + n_adj"
    by (simp add: q1_def a_def)
  have est: "0 \<le> n - q1 * uint d" "n - q1 * uint d < 2 * uint d"
    using reciprocal_estimate [OF dB(2,1) mk _ a1 n1' n_adj_def q1_eq] Bpos uint32_bounds [of a1]
    by (auto simp: n_def)
  have "(uint a1 + 1) * B \<le> uint d * B" using a1 Bpos by (intro mult_right_mono) auto
  then show nB: "n < B * uint d" using uint32_bounds [of a0] by (simp add: n_def B_def algebra_simps)
  then have "q1 * uint d < B * uint d" using est by linarith
  then have q1B: "q1 < B" using dB Bpos by (simp add: mult_less_cancel_right)
  have q10: "0 \<le> q1" using a uint32_bounds [of a1] Bpos by (simp add: q1_def pos_imp_zdiv_nonneg_iff)
  have "uint Q = q1"
  proof -
    have "uint (drop_bit 32 A + ucast a1) = (a div B + uint a1) mod 2 ^ 64"
      unfolding uint_word_ariths(1) uint_high u_a uint_ucast_32_64 by (simp add: B_def)
    also have "\<dots> = q1" using q10 q1B by (simp add: q1_def B_def add.commute)
    finally show ?thesis using q10 q1B by (simp add: Q uint_ucast_64_32 B_def)
  qed
  then show "0 \<le> n - uint Q * uint d" "n - uint Q * uint d < 2 * uint d" using est by simp_all
qed

lemma udiv1norm_val:
  assumes d: "2 ^ 31 \<le> uint d" and inv: "d_inv = udiv1norm_init d" and a1: "uint a1 < uint d"
    and qr: "udiv1norm a1 a0 d d_inv = (q, r)"
  shows "uint a1 * 2 ^ 32 + uint a0 = uint q * uint d + uint r" "uint r < uint d"
proof -
  define A where "A = (ucast (udiv1norm_init d) :: dlimb) * ucast (a1 - signed_drop_bit 31 a0)
    + ucast (a0 + (signed_drop_bit 31 a0 AND d))"
  define Q where "Q = (ucast (drop_bit 32 A + ucast a1) :: limb)"
  define W where "W = (push_bit 32 (ucast a1 :: dlimb) OR ucast a0) - ucast Q * ucast d - ucast d"
  define x where "x = uint a1 * 2 ^ 32 + uint a0 - uint Q * uint d - uint d"
  note est = udiv1norm_quotient_estimate [OF d a1 A_def Q_def]
  have u_W: "uint W = x mod 2 ^ 64"
    by (simp only: W_def uint_word_ariths uint_join uint_ucast_32_64 x_def) (simp add: mod_simps)
  have x: "- uint d \<le> x" "x < uint d" using est by (simp_all add: x_def)
  have "uint Q + 1 < 2 ^ 32" if "0 \<le> x"
  proof -
    have "(uint Q + 1) * uint d < 2 ^ 32 * uint d" using that est(3) by (simp add: x_def algebra_simps)
    then show ?thesis using d by (simp add: mult_less_cancel_right)
  qed
  note adj = udiv1norm_adjust [OF u_W x this refl]
  have "q = Q + (1 + ucast (drop_bit 32 W))" "r = ucast W + (ucast (drop_bit 32 W) AND d)"
    using qr by (simp_all add: udiv1norm_def Let_def inv A_def Q_def W_def)
  then show "uint a1 * 2 ^ 32 + uint a0 = uint q * uint d + uint r" "uint r < uint d"
    using adj x by (auto simp: x_def algebra_simps split: if_splits)
qed

lemma unat_less_uint: "unat (x :: 'a::len word) < unat (y :: 'a word) \<longleftrightarrow> uint x < uint y"
  by (simp only: word_less_nat_alt [symmetric] word_less_def)

section \<open>Shifts\<close>

lemma unat_shl_or:
  assumes s: "1 \<le> shift" "shift < 32" and l: "unat l < 2 ^ shift"
  shows "unat (push_bit shift (a :: limb) OR l) + 2 ^ 32 * unat (drop_bit (32 - shift) a) = unat a * 2 ^ shift + unat l"
proof -
  have "push_bit shift a OR l = push_bit shift a + l"
  proof (rule disjunctive_add [symmetric])
    fix n
    have "\<not> bit l n" if "shift \<le> n"
    proof -
      have "unat l < 2 ^ n" using that by (intro less_le_trans [OF l] power_increasing) auto
      then have "\<not> bit (unat l) n" by (simp add: bit_iff_odd)
      then show ?thesis using bit_unsigned_iff [of l n, where ?'a = nat] by simp
    qed
    then show "\<not> bit (push_bit shift a) n \<or> \<not> bit l n" by (auto simp: bit_push_bit_iff)
  qed
  moreover define A M where "A = unat a" and "M = (2 :: nat) ^ (32 - shift)"
  have M: "2 ^ 32 = M * 2 ^ shift" using s by (simp add: M_def flip: power_add)
  have pb: "unat (push_bit shift a) = A mod M * 2 ^ shift"
    by (simp only: unsigned_push_bit_eq) (simp add: take_bit_eq_mod push_bit_eq_mult A_def M [simplified] mult_mod_left)
  have db: "unat (drop_bit (32 - shift) a) = A div M"
    by (simp only: unat_drop_bit_eq) (simp add: drop_bit_eq_div A_def M_def)
  have "(A mod M + 1) * 2 ^ shift \<le> M * 2 ^ shift" by (intro mult_le_mono) (simp_all add: M_def Suc_le_eq)
  then have "A mod M * 2 ^ shift + unat l < 2 ^ 32" using l M by simp
  then have "unat (push_bit shift a + l) = A mod M * 2 ^ shift + unat l"
    by (simp add: unat_word_ariths pb)
  moreover have "A mod M * 2 ^ shift + 2 ^ 32 * (A div M) = A * 2 ^ shift"
  proof -
    have "(A mod M + M * (A div M)) * 2 ^ shift = A * 2 ^ shift" by (simp only: mod_mult_div_eq)
    then show ?thesis unfolding M by (simp only: algebra_simps)
  qed
  ultimately show ?thesis by (simp add: db A_def)
qed

lemma mp_shl_val:
  "mp_shl tab shift l = (tab_r, h) \<Longrightarrow> 1 \<le> shift \<Longrightarrow> shift < 32 \<Longrightarrow> unat l < 2 ^ shift \<Longrightarrow>
   length tab_r = length tab \<and> unat h < 2 ^ shift \<and>
   limbs_val tab_r + unat h * 2 ^ (32 * length tab) = limbs_val tab * 2 ^ shift + unat l"
proof (induction tab shift l arbitrary: tab_r h rule: mp_shl.induct)
  case (1 shift l)
  then show ?case by simp
next
  case (2 a tab shift l)
  let ?h = "drop_bit (32 - shift) a"
  obtain tab1 where rec: "mp_shl tab shift ?h = (tab1, h)" and res: "tab_r = (push_bit shift a OR l) # tab1"
    using 2(2) by (auto split: prod.splits)
  have "unat ?h < 2 ^ shift"
  proof -
    have "unat a < 2 ^ shift * 2 ^ (32 - shift)" using unat32_lt [of a] 2(4) by (simp flip: power_add)
    then show ?thesis by (simp only: unat_drop_bit_eq) (simp add: drop_bit_eq_div less_mult_imp_div_less)
  qed
  then have IH: "length tab1 = length tab" "unat h < 2 ^ shift"
    "limbs_val tab1 + unat h * 2 ^ (32 * length tab) = limbs_val tab * 2 ^ shift + unat ?h"
    using 2(1) [OF rec 2(3,4)] by auto
  have "limbs_val tab_r + unat h * 2 ^ (32 * length (a # tab))
      = unat (push_bit shift a OR l) + 2 ^ 32 * (limbs_val tab1 + unat h * 2 ^ (32 * length tab))"
    by (simp add: res power_add algebra_simps)
  also have "\<dots> = (unat (push_bit shift a OR l) + 2 ^ 32 * unat ?h) + 2 ^ 32 * (limbs_val tab * 2 ^ shift)"
    unfolding IH(3) by (simp only: algebra_simps)
  also have "\<dots> = limbs_val (a # tab) * 2 ^ shift + unat l"
    unfolding unat_shl_or [OF 2(3,4,5)] by (simp add: algebra_simps)
  finally show ?case using IH res by simp
qed

lemma unat_shr_or:
  assumes s: "1 \<le> shift" "shift < 32"
  shows "unat (drop_bit shift (a :: limb) OR push_bit (32 - shift) l) =
         unat a div 2 ^ shift + (unat l mod 2 ^ shift) * 2 ^ (32 - shift)"
proof -
  have db: "unat (drop_bit shift a) = unat a div 2 ^ shift"
    by (simp only: unat_drop_bit_eq) (simp add: drop_bit_eq_div)
  have "unat a < 2 ^ (32 - shift) * 2 ^ shift" using unat32_lt [of a] s by (simp flip: power_add)
  then have lt: "unat (drop_bit shift a) < 2 ^ (32 - shift)"
    by (simp add: db less_mult_imp_div_less)
  have "1 \<le> 32 - shift" "32 - shift < 32" using s by auto
  from unat_shl_or [OF this lt, of l] have
    "unat (push_bit (32 - shift) l OR drop_bit shift a) + 2 ^ 32 * unat (drop_bit shift l)
       = unat l * 2 ^ (32 - shift) + unat a div 2 ^ shift"
    using s by (simp add: db)
  moreover have "unat l * 2 ^ (32 - shift) = 2 ^ 32 * (unat l div 2 ^ shift) + (unat l mod 2 ^ shift) * 2 ^ (32 - shift)"
  proof -
    have p: "(2 :: nat) ^ 32 = 2 ^ shift * 2 ^ (32 - shift)" using s by (simp flip: power_add)
    have "unat l * 2 ^ (32 - shift) = (unat l div 2 ^ shift * 2 ^ shift + unat l mod 2 ^ shift) * 2 ^ (32 - shift)"
      by (simp only: div_mult_mod_eq)
    then show ?thesis unfolding p by (simp only: algebra_simps)
  qed
  moreover have "unat (drop_bit shift l) = unat l div 2 ^ shift"
    by (simp only: unat_drop_bit_eq) (simp add: drop_bit_eq_div)
  ultimately show ?thesis by (simp add: or.commute)
qed

lemma mp_shr_loop_val:
  "mp_shr_loop tab shift l = (tab_r, l') \<Longrightarrow> 1 \<le> shift \<Longrightarrow> shift < 32 \<Longrightarrow>
   length tab_r = length tab \<and>
   limbs_val tab + (unat l mod 2 ^ shift) * 2 ^ (32 * length tab) = limbs_val tab_r * 2 ^ shift + unat l' mod 2 ^ shift"
proof (induction tab shift l arbitrary: tab_r l' rule: mp_shr_loop.induct)
  case (1 shift l)
  then show ?case by simp
next
  case (2 a tab shift l)
  obtain tab1 l1 where rec: "mp_shr_loop tab shift l = (tab1, l1)" by (metis surj_pair)
  have res: "tab_r = (drop_bit shift a OR push_bit (32 - shift) l1) # tab1" "l' = a"
    using 2(2) by (auto simp: rec)
  have IH: "length tab1 = length tab"
    "limbs_val tab + (unat l mod 2 ^ shift) * 2 ^ (32 * length tab) = limbs_val tab1 * 2 ^ shift + unat l1 mod 2 ^ shift"
    using 2(1) [OF rec 2(3,4)] by auto
  have p: "(2 :: nat) ^ 32 = 2 ^ shift * 2 ^ (32 - shift)" using 2(4) by (simp flip: power_add)
  have "limbs_val (a # tab) + (unat l mod 2 ^ shift) * 2 ^ (32 * length (a # tab))
      = unat a + 2 ^ 32 * (limbs_val tab + (unat l mod 2 ^ shift) * 2 ^ (32 * length tab))"
    by (simp add: power_add algebra_simps)
  also have "\<dots> = unat a div 2 ^ shift * 2 ^ shift + unat a mod 2 ^ shift
      + 2 ^ 32 * (limbs_val tab1 * 2 ^ shift) + 2 ^ 32 * (unat l1 mod 2 ^ shift)"
    unfolding IH(2) by (simp only: algebra_simps) simp
  also have "\<dots> = limbs_val tab_r * 2 ^ shift + unat l' mod 2 ^ shift"
    unfolding res limbs_val_simps unat_shr_or [OF 2(3,4)] p by (simp add: algebra_simps)
  finally show ?case using IH res by simp
qed

lemma unat_and_low: "shift < 32 \<Longrightarrow> unat ((l :: limb) AND (push_bit shift 1 - 1)) = unat l mod 2 ^ shift"
proof -
  assume s: "shift < 32"
  have "push_bit shift 1 - 1 = (mask shift :: limb)" by (simp add: mask_eq_exp_minus_1 push_bit_eq_mult)
  then have "l AND (push_bit shift 1 - 1) = take_bit shift l" by (simp add: take_bit_eq_mask)
  then show ?thesis by (simp only: unsigned_take_bit_eq) (simp add: take_bit_eq_mod)
qed

lemma mp_shr_val:
  assumes "mp_shr tab shift 0 = (tab_r, r)" "1 \<le> shift" "shift < 32"
  shows "length tab_r = length tab" "limbs_val tab_r = limbs_val tab div 2 ^ shift"
    "unat r = limbs_val tab mod 2 ^ shift"
proof -
  obtain l where l: "mp_shr_loop tab shift 0 = (tab_r, l)" "r = l AND (push_bit shift 1 - 1)"
    using assms(1) by (auto simp: mp_shr_def split: prod.splits)
  have v: "length tab_r = length tab" "limbs_val tab = limbs_val tab_r * 2 ^ shift + unat l mod 2 ^ shift"
    using mp_shr_loop_val [OF l(1) assms(2,3)] by auto
  then show "length tab_r = length tab" by simp
  show "limbs_val tab_r = limbs_val tab div 2 ^ shift" unfolding v(2) by simp
  show "unat r = limbs_val tab mod 2 ^ shift"
    unfolding v(2) using unat_and_low [OF assms(3), of l] l(2) by simp
qed

lemma mp_div1norm_loop_val:
  "mp_div1norm_loop tab b b_inv r = (tabr, r') \<Longrightarrow> 2 ^ 31 \<le> unat b \<Longrightarrow> b_inv = udiv1norm_init b \<Longrightarrow> unat r < unat b \<Longrightarrow>
   length tabr = length tab \<and> unat r' < unat b \<and>
   limbs_val tab + unat r * 2 ^ (32 * length tab) = limbs_val tabr * unat b + unat r'"
proof (induction tab b b_inv r arbitrary: tabr r' rule: mp_div1norm_loop.induct)
  case (1 b b_inv r)
  then show ?case by simp
next
  case (2 x tab b b_inv r)
  obtain tab1 r1 where rec: "mp_div1norm_loop tab b b_inv r = (tab1, r1)" by (metis surj_pair)
  obtain q where q: "udiv1norm r1 x b b_inv = (q, r')" "tabr = q # tab1"
    using 2(2) by (auto simp: rec split: prod.splits)
  have IH: "length tab1 = length tab" "unat r1 < unat b"
    "limbs_val tab + unat r * 2 ^ (32 * length tab) = limbs_val tab1 * unat b + unat r1"
    using 2(1) [OF rec 2(3,4,5)] by auto
  have b31: "2 ^ 31 \<le> uint b" using 2(3) of_nat_mono [of "2 ^ 31" "unat b", where 'a = int]
    by (simp only: of_nat_unat of_nat_power of_nat_numeral)
  have r1b: "uint r1 < uint b" using IH(2) by (simp only: unat_less_uint)
  have step: "unat r1 * 2 ^ 32 + unat x = unat q * unat b + unat r'" "unat r' < unat b"
  proof -
    have "int (unat r1 * 2 ^ 32 + unat x) = int (unat q * unat b + unat r')"
      using udiv1norm_val(1) [OF b31 2(4) r1b q(1)] by simp
    then show "unat r1 * 2 ^ 32 + unat x = unat q * unat b + unat r'" by (simp only: of_nat_eq_iff)
    show "unat r' < unat b" using udiv1norm_val(2) [OF b31 2(4) r1b q(1)] by (simp only: unat_less_uint)
  qed
  have "limbs_val (x # tab) + unat r * 2 ^ (32 * length (x # tab))
      = unat x + 2 ^ 32 * (limbs_val tab + unat r * 2 ^ (32 * length tab))"
    by (simp add: power_add algebra_simps)
  also have "\<dots> = (unat r1 * 2 ^ 32 + unat x) + 2 ^ 32 * (limbs_val tab1 * unat b)"
    unfolding IH(3) by (simp add: algebra_simps)
  also have "\<dots> = limbs_val tabr * unat b + unat r'"
    unfolding step(1) q(2) by (simp add: algebra_simps)
  finally show ?case using IH q step by simp
qed

lemma mp_div1norm_val:
  assumes norm: "b = push_bit shift d" "shift < 32" "unat b = unat d * 2 ^ shift" "2 ^ 31 \<le> unat b"
    and inv: "b_inv = udiv1norm_init b" and res: "mp_div1norm taba b 0 b_inv shift = (tabr, r)"
  shows "length tabr = length taba" "limbs_val tabr = limbs_val taba div unat d" "unat r = limbs_val taba mod unat d"
proof -
  have d: "0 < unat d" using norm(3,4) by (intro gr0I) auto
  define t h where "t = (if shift \<noteq> 0 then fst (mp_shl taba shift 0) else taba)"
    and "h = (if shift \<noteq> 0 then snd (mp_shl taba shift 0) else 0)"
  have th: "length t = length taba" "unat h < 2 ^ shift"
    "limbs_val t + unat h * 2 ^ (32 * length taba) = limbs_val taba * 2 ^ shift"
    using mp_shl_val [of taba shift 0 t h] norm(2) by (auto simp: t_def h_def)
  obtain r1 where loop: "mp_div1norm_loop t b b_inv h = (tabr, r1)" and r: "r = drop_bit shift r1"
    using res by (auto simp: mp_div1norm_def t_def h_def split: if_splits prod.splits)
  have hb: "unat h < unat b" using th(2) norm(3) d by (simp add: less_le_trans)
  have v: "length tabr = length t" "unat r1 < unat b"
    "limbs_val t + unat h * 2 ^ (32 * length t) = limbs_val tabr * unat b + unat r1"
    using mp_div1norm_loop_val [OF loop norm(4) inv hb] by auto
  show "length tabr = length taba" using v(1) th(1) by simp
  have eq: "limbs_val taba * 2 ^ shift = limbs_val tabr * (unat d * 2 ^ shift) + unat r1"
    using v(3) th norm(3) by simp
  have "2 ^ shift dvd unat r1"
  proof -
    have "unat r1 = limbs_val taba * 2 ^ shift - limbs_val tabr * unat d * 2 ^ shift" using eq by (simp add: mult.assoc)
    then show ?thesis by simp
  qed
  then obtain r0 where r0: "unat r1 = r0 * 2 ^ shift" by (metis dvd_def mult.commute)
  have "limbs_val taba * 2 ^ shift = (limbs_val tabr * unat d + r0) * 2 ^ shift"
    unfolding eq r0 by (simp add: algebra_simps)
  then have val: "limbs_val taba = limbs_val tabr * unat d + r0" by simp
  have r0d: "r0 < unat d" using v(2) unfolding r0 norm(3) by simp
  have "unat r = r0"
  proof -
    have "unat (drop_bit shift r1) = unat r1 div 2 ^ shift"
      by (simp only: unat_drop_bit_eq) (simp add: drop_bit_eq_div)
    then show ?thesis by (simp add: r r0)
  qed
  then show "limbs_val tabr = limbs_val taba div unat d" "unat r = limbs_val taba mod unat d"
    using r0d d unfolding val by simp_all
qed

end
