(* ===== verification/Dtoa_Mpb.thy ===== *)
theory Dtoa_Mpb
  imports Dtoa_Limbs
begin

text \<open>
  The multi-precision layer of \<^verbatim>\<open>plugins/ts_host/quickjs/dtoa.c\<close> (lines 213 to 487):
  numbers \<open>mpb_t\<close> with their rounding shifts, and the power routines with their tables.  An \<open>mpb_t\<close> is the list \<open>tab[0..len-1]\<close>; writing
  \<open>tab[len++]\<close> appends.  C \<open>int\<close> values whose sign matters are \<open>int\<close>, the others \<open>nat\<close>.
\<close>

type_synonym mpb = "limb list"

datatype rnd_mode = JS_RNDN | JS_RNDNA | JS_RNDZ

section \<open>Bit counts (cutils.h)\<close>

fun nat_bits :: "nat \<Rightarrow> nat" where
  "nat_bits n = (if n = 0 then 0 else Suc (nat_bits (n div 2)))"

declare nat_bits.simps [simp del]

definition clz32 :: "u32 \<Rightarrow> nat" where
  "clz32 a = 32 - nat_bits (unat a)"

definition clz64 :: "u64 \<Rightarrow> nat" where
  "clz64 a = 64 - nat_bits (unat a)"

fun ctz_nat :: "nat \<Rightarrow> nat" where
  "ctz_nat n = (if n = 0 \<or> odd n then 0 else Suc (ctz_nat (n div 2)))"

declare ctz_nat.simps [simp del]

definition ctz32 :: "nat \<Rightarrow> nat" where
  "ctz32 a = ctz_nat a"

section \<open>Numbers of several limbs\<close>

function mpb_renorm :: "mpb \<Rightarrow> mpb" where
  "mpb_renorm r = (if length r > 1 \<and> last r = 0 then mpb_renorm (butlast r) else r)"
  by pat_completeness auto
termination by (relation "measure length") auto

declare mpb_renorm.simps [simp del]

definition mpb_get_bit :: "mpb \<Rightarrow> nat \<Rightarrow> nat" where
  "mpb_get_bit r k =
     (let l = k div 32; k = k mod 32
      in if l \<ge> length r then 0 else unat (drop_bit k (r ! l) AND 1))"

text \<open>The \<open>or\<close> of all bits below the rounding bit, as the loop over the limbs computes it.\<close>

definition mpb_sticky :: "mpb \<Rightarrow> nat \<Rightarrow> limb" where
  "mpb_sticky r k =
     (let l = k div 32; k = k mod 32;
          bit2 = fold (OR) (take l r) 0
      in if l < length r then bit2 OR (r ! l AND (push_bit k 1 - 1)) else bit2)"

definition mpb_add_one :: "mpb \<Rightarrow> nat \<Rightarrow> rnd_mode \<Rightarrow> nat" where
  "mpb_add_one r shift rnd_mode =
     (if rnd_mode = JS_RNDZ then 0
      else if mpb_get_bit r (shift - 1) \<noteq> 0
      then (let bit2 = (if rnd_mode = JS_RNDNA then 1
                        else if shift \<ge> 2 then mpb_sticky r (shift - 1) else 0)
            in if bit2 \<noteq> 0 then 1 else mpb_get_bit r shift)
      else 0)"

definition mpb_shl :: "mpb \<Rightarrow> nat \<Rightarrow> mpb" where
  "mpb_shl r shift =
     (let l = shift div 32; shift = shift mod 32;
          r = (if shift \<noteq> 0
               then let (tab, h) = mp_shl r shift 0 in mpb_renorm (tab @ [h])
               else r)
      in replicate l 0 @ r)"

definition mpb_shr_add :: "mpb \<Rightarrow> nat \<Rightarrow> nat \<Rightarrow> mpb" where
  "mpb_shr_add r shift add_one =
     (let l = shift div 32; shift = shift mod 32
      in if l \<ge> length r then [of_nat add_one]
         else let r = drop l r;
                  r = (if shift \<noteq> 0 then mpb_renorm (fst (mp_shr r shift 0)) else r)
              in if add_one \<noteq> 0
                 then let (tab, a) = mp_add_ui r 1 in if a \<noteq> 0 then tab @ [a] else tab
                 else r)"

definition mpb_shr_round :: "mpb \<Rightarrow> int \<Rightarrow> rnd_mode \<Rightarrow> mpb" where
  "mpb_shr_round r shift rnd_mode =
     (if shift = 0 then r
      else if shift < 0 then mpb_shl r (nat (- shift))
      else mpb_shr_add r (nat shift) (mpb_add_one r (nat shift) rnd_mode))"

fun mpb_cmp_down :: "limb list \<Rightarrow> limb list \<Rightarrow> int" where
  "mpb_cmp_down (x # xs) (y # ys) =
     (if x \<noteq> y then (if x < y then - 1 else 1) else mpb_cmp_down xs ys)"
| "mpb_cmp_down _ _ = 0"

definition mpb_cmp :: "mpb \<Rightarrow> mpb \<Rightarrow> int" where
  "mpb_cmp a b =
     (if length a < length b then - 1 else if length a > length b then 1
      else mpb_cmp_down (rev a) (rev b))"

definition mpb_set_u64 :: "u64 \<Rightarrow> mpb" where
  "mpb_set_u64 m =
     (let t0 = ucast m :: limb; t1 = ucast (drop_bit 32 m) :: limb
      in if t1 = 0 then [t0] else [t0, t1])"

definition mpb_get_u64 :: "mpb \<Rightarrow> u64" where
  "mpb_get_u64 r =
     (if length r = 1 then ucast (r ! 0) else ucast (r ! 0) OR push_bit 32 (ucast (r ! 1)))"

definition mpb_floor_log2 :: "mpb \<Rightarrow> int" where
  "mpb_floor_log2 a =
     (let v = last a in if v = 0 then - 1 else int (length a) * 32 - 1 - int (clz32 v))"

section \<open>Powers of the radix\<close>

definition pow5_table :: "u32 list" where
  "pow5_table =
    [0x00000005, 0x00000019, 0x0000007d, 0x00000271,
     0x00000c35, 0x00003d09, 0x0001312d, 0x0005f5e1,
     0x001dcd65, 0x009502f9, 0x02e90edd, 0x0e8d4a51,
     0x48c27395, 0x6bcc41e9, 0x1afd498d, 0x86f26fc1,
     0xa2bc2ec5]"

definition pow5h_table :: "u8 list" where
  "pow5h_table = [0x01, 0x07, 0x23, 0xb1]"

definition pow5_inv_table :: "u32 list" where
  "pow5_inv_table =
    [0x99999999, 0x47ae147a, 0x0624dd2f, 0xa36e2eb1,
     0x4f8b588e, 0x0c6f7a0b, 0xad7f29ab, 0x5798ee23,
     0x12e0be82, 0xb7cdfd9d, 0x5fd7fe17, 0x19799812,
     0xc25c2684]"

text \<open>The square-and-multiply loop over bits \<open>i - 1\<close> down to \<open>0\<close> of the exponent.\<close>

fun pow_ui_loop :: "u64 \<Rightarrow> u32 \<Rightarrow> nat \<Rightarrow> nat \<Rightarrow> u64" where
  "pow_ui_loop r a b 0 = r"
| "pow_ui_loop r a b (Suc i) =
     (let r = r * r; r = (if bit b i then r * ucast a else r) in pow_ui_loop r a b i)"

definition pow_ui :: "u32 \<Rightarrow> nat \<Rightarrow> u64" where
  "pow_ui a b =
     (if b = 0 then 1
      else if b = 1 then ucast a
      else if (a = 5 \<or> a = 10) \<and> b \<le> 17
      then (let r = ucast (pow5_table ! (b - 1)) :: u64;
                r = (if b \<ge> 14 then r OR push_bit 32 (ucast (pow5h_table ! (b - 14))) else r)
            in if a = 10 then push_bit b r else r)
      else pow_ui_loop (ucast a) a b (nat_bits b - 1))"

definition pow_ui_inv :: "u32 \<Rightarrow> nat \<Rightarrow> u32 \<times> u32 \<times> nat" where
  "pow_ui_inv a b =
     (if a = 5 \<and> b \<ge> 1 \<and> b \<le> 13
      then (let r = pow5_table ! (b - 1); shift = clz32 r
            in (push_bit shift r, pow5_inv_table ! (b - 1), shift))
      else (let r = ucast (pow_ui a b) :: u32; shift = clz32 r; r = push_bit shift r
            in (r, udiv1norm_init r, shift)))"

definition digits_per_limb_table :: "nat list" where
  "digits_per_limb_table =
    [32,20,16,13,12,11,10,10, 9, 9, 8, 8, 8, 8, 8, 7, 7, 7, 7, 7, 7, 7, 6, 6, 6, 6, 6, 6, 6, 6, 6, 6, 6, 6, 6]"

definition radix_base_table :: "u32 list" where
  "radix_base_table =
    [0x00000000, 0xcfd41b91, 0x00000000, 0x48c27395,
     0x81bf1000, 0x75db9c97, 0x40000000, 0xcfd41b91,
     0x3b9aca00, 0x8c8b6d2b, 0x19a10000, 0x309f1021,
     0x57f6c100, 0x98c29b81, 0x00000000, 0x18754571,
     0x247dbc80, 0x3547667b, 0x4c4b4000, 0x6b5a6e1d,
     0x94ace180, 0xcaf18367, 0x0b640000, 0x0e8d4a51,
     0x1269ae40, 0x17179149, 0x1cb91000, 0x23744899,
     0x2b73a840, 0x34e63b41, 0x40000000, 0x4cfa3cc1,
     0x5c13d840, 0x6d91b519, 0x81bf1000]"

definition mul_log2_radix_table :: "int list" where
  "mul_log2_radix_table =
    [0x000000, 0xa1849d, 0x000000, 0x6e40d2,
     0x6308c9, 0x5b3065, 0x000000, 0x50c24e,
     0x4d104d, 0x4a0027, 0x4768ce, 0x452e54,
     0x433d00, 0x418677, 0x000000, 0x3ea16b,
     0x3d645a, 0x3c43c2, 0x3b3b9a, 0x3a4899,
     0x39680b, 0x3897b3, 0x37d5af, 0x372069,
     0x367686, 0x35d6df, 0x354072, 0x34b261,
     0x342bea, 0x33ac62, 0x000000, 0x32bfd9,
     0x3251dd, 0x31e8d6, 0x318465]"

definition c_div :: "int \<Rightarrow> int \<Rightarrow> int" where
  "c_div a b = sgn a * sgn b * (\<bar>a\<bar> div \<bar>b\<bar>)"

definition is_pow2 :: "nat \<Rightarrow> bool" where
  "is_pow2 radix \<longleftrightarrow> radix AND (radix - 1) = 0"

definition mul_log2_radix :: "int \<Rightarrow> nat \<Rightarrow> int" where
  "mul_log2_radix a radix =
     (if is_pow2 radix
      then (let radix_bits = 31 - int (clz32 (of_nat radix));
                a = (if a < 0 then a - (radix_bits - 1) else a)
            in c_div a radix_bits)
      else a * mul_log2_radix_table ! (radix - 2) div 2 ^ 24)"

section \<open>Values of the multi-precision routines\<close>

lemma nat_bits_bound: "n < 2 ^ nat_bits n"
proof (induction n rule: nat_bits.induct)
  case (1 n)
  then show ?case by (subst nat_bits.simps) auto
qed

lemma nat_bits_lower: "0 < n \<Longrightarrow> 2 ^ (nat_bits n - 1) \<le> n"
proof (induction n rule: nat_bits.induct)
  case (1 n)
  show ?case
  proof (cases "n div 2 = 0")
    case True
    then show ?thesis using \<open>0 < n\<close> by (simp add: nat_bits.simps [of n] nat_bits.simps [of 0])
  next
    case False
    then have ih: "2 ^ (nat_bits (n div 2) - 1) \<le> n div 2" using 1 by simp
    have "nat_bits (n div 2) \<noteq> 0" using False by (subst nat_bits.simps) simp
    then have "(2 :: nat) ^ nat_bits (n div 2) = 2 * 2 ^ (nat_bits (n div 2) - 1)"
      by (simp add: power_eq_if)
    then show ?thesis using ih \<open>0 < n\<close> by (subst nat_bits.simps) simp
  qed
qed

lemma nat_bits_le_iff: "nat_bits n \<le> k \<longleftrightarrow> n < 2 ^ k"
proof
  assume "nat_bits n \<le> k"
  then have "(2 :: nat) ^ nat_bits n \<le> 2 ^ k" by (simp add: power_increasing)
  then show "n < 2 ^ k" using nat_bits_bound [of n] by linarith
next
  assume lt: "n < 2 ^ k"
  show "nat_bits n \<le> k"
  proof (cases "n = 0")
    case True
    then show ?thesis by (simp add: nat_bits.simps)
  next
    case False
    then have "(2 :: nat) ^ (nat_bits n - 1) < 2 ^ k" using nat_bits_lower [of n] lt by linarith
    then have "nat_bits n - 1 < k" by (rule power_less_imp_less_exp [rotated]) simp
    then show ?thesis by simp
  qed
qed

lemma nat_bits_0 [simp]: "nat_bits 0 = 0"
  by (simp add: nat_bits.simps)

lemma nat_bits_pos: "0 < n \<Longrightarrow> 0 < nat_bits n"
  by (subst nat_bits.simps) simp

text \<open>Normalisation shifts the most significant bit to the top of the word.\<close>

lemma clz32_normalises:
  assumes "d \<noteq> 0"
  shows "clz32 d < 32" "unat (push_bit (clz32 d) d) = unat d * 2 ^ clz32 d" "2 ^ 31 \<le> unat (push_bit (clz32 d) d)"
proof -
  have pos: "0 < unat d" using assms unat_gt_0 by blast
  have le: "nat_bits (unat d) \<le> 32" using unsigned_less [of d, where ?'a = nat] by (simp add: nat_bits_le_iff)
  show "clz32 d < 32" using nat_bits_pos [OF pos] le by (simp add: clz32_def)
  have split: "(2 :: nat) ^ nat_bits (unat d) * 2 ^ clz32 d = 2 ^ 32"
    unfolding power_add [symmetric] using le by (simp add: clz32_def)
  have "unat d * 2 ^ clz32 d < 2 ^ nat_bits (unat d) * 2 ^ clz32 d"
    using nat_bits_bound by (simp add: mult_less_cancel2)
  then show eq: "unat (push_bit (clz32 d) d) = unat d * 2 ^ clz32 d"
    using split unfolding unsigned_push_bit_eq by (simp add: push_bit_eq_mult take_bit_eq_mod)
  have split': "(2 :: nat) ^ (nat_bits (unat d) - 1) * 2 ^ clz32 d = 2 ^ 31"
    unfolding power_add [symmetric] using le nat_bits_pos [OF pos] by (simp add: clz32_def)
  have "2 ^ (nat_bits (unat d) - 1) * 2 ^ clz32 d \<le> unat d * 2 ^ clz32 d"
    using nat_bits_lower [OF pos] by (rule mult_le_mono1)
  then show "2 ^ 31 \<le> unat (push_bit (clz32 d) d)" unfolding eq split' .
qed

text \<open>A number is normalised when its top limb is not zero, the one-limb zero excepted.\<close>

definition mpb_norm :: "mpb \<Rightarrow> bool" where
  "mpb_norm r \<longleftrightarrow> r \<noteq> [] \<and> (length r > 1 \<longrightarrow> last r \<noteq> 0)"

lemma limbs_val_replicate_0 [simp]: "limbs_val (replicate n 0) = 0"
  by (induction n) auto

lemma limbs_val_snoc:
  "r \<noteq> [] \<Longrightarrow> limbs_val r = limbs_val (butlast r) + 2 ^ (32 * (length r - 1)) * unat (last r)"
  by (cases r rule: rev_cases) (simp_all add: limbs_val_append)

lemma mpb_renorm_val [simp, limb_simps]: "limbs_val (mpb_renorm r) = limbs_val r"
proof (induction r rule: mpb_renorm.induct)
  case (1 r)
  show ?case
  proof (cases "length r > 1 \<and> last r = 0")
    case True
    then have "r \<noteq> []" by auto
    then show ?thesis using 1 True limbs_val_snoc [of r] by (subst mpb_renorm.simps) simp
  next
    case False
    then show ?thesis by (subst mpb_renorm.simps) (simp only: if_False)
  qed
qed

lemma mpb_renorm_norm [simp]: "r \<noteq> [] \<Longrightarrow> mpb_norm (mpb_renorm r)"
proof (induction r rule: mpb_renorm.induct)
  case (1 r)
  show ?case
  proof (cases "length r > 1 \<and> last r = 0")
    case True
    then have "butlast r \<noteq> []" by (cases r) auto
    then show ?thesis using 1 True by (subst mpb_renorm.simps) simp
  next
    case False
    then show ?thesis using 1 by (subst mpb_renorm.simps) (auto simp: mpb_norm_def)
  qed
qed

lemma mpb_norm_not_Nil [simp]: "mpb_norm r \<Longrightarrow> r \<noteq> []"
  by (simp add: mpb_norm_def)

lemma limbs_val_last_bound: "r \<noteq> [] \<Longrightarrow> last r \<noteq> 0 \<Longrightarrow> 2 ^ (32 * (length r - 1)) \<le> limbs_val r"
proof -
  assume r: "r \<noteq> []" "last r \<noteq> 0"
  then have "1 \<le> unat (last r)" using unat_gt_0 [of "last r"] by linarith
  then have "2 ^ (32 * (length r - 1)) * 1 \<le> 2 ^ (32 * (length r - 1)) * unat (last r)" by simp
  also have "\<dots> \<le> limbs_val r"
    using limbs_val_snoc [OF r(1)] by simp
  finally show ?thesis by simp
qed

lemma mpb_norm_length_less:
  assumes "mpb_norm b" "a \<noteq> []" "length a < length b"
  shows "limbs_val a < limbs_val b"
proof -
  have "limbs_val a < 2 ^ (32 * length a)" by (rule limbs_val_bound)
  also have "\<dots> \<le> 2 ^ (32 * (length b - 1))" using assms by (intro power_increasing) auto
  also have "\<dots> \<le> limbs_val b" 
  proof (rule limbs_val_last_bound)
    show "b \<noteq> []" using assms by auto
    have "0 < length a" using assms by simp
    then have "1 < length b" using assms(3) by linarith
    then show "last b \<noteq> 0" using assms(1) by (simp add: mpb_norm_def)
  qed
  finally show ?thesis .
qed

lemma limbs_val_drop: "l \<le> length r \<Longrightarrow> limbs_val (drop l r) = limbs_val r div 2 ^ (32 * l)"
proof -
  assume "l \<le> length r"
  then have eq: "limbs_val r = limbs_val (take l r) + 2 ^ (32 * l) * limbs_val (drop l r)"
    using limbs_val_append [of "take l r" "drop l r"] by simp
  moreover have "limbs_val (take l r) < 2 ^ (32 * l)" using limbs_val_bound [of "take l r"] \<open>l \<le> length r\<close> by simp
  ultimately show ?thesis by simp
qed

lemma limbs_val_take: "l \<le> length r \<Longrightarrow> limbs_val (take l r) = limbs_val r mod 2 ^ (32 * l)"
proof -
  assume "l \<le> length r"
  then have "limbs_val r = limbs_val (take l r) + 2 ^ (32 * l) * limbs_val (drop l r)"
    using limbs_val_append [of "take l r" "drop l r"] by simp
  moreover have "limbs_val (take l r) < 2 ^ (32 * l)" using limbs_val_bound [of "take l r"] \<open>l \<le> length r\<close> by simp
  ultimately show ?thesis by simp
qed

lemma limbs_val_nth: "l < length r \<Longrightarrow> unat (r ! l) = limbs_val r div 2 ^ (32 * l) mod 2 ^ 32"
proof -
  assume l: "l < length r"
  have "limbs_val (drop l r) = unat (r ! l) + 2 ^ 32 * limbs_val (drop (Suc l) r)"
    using l by (simp add: Cons_nth_drop_Suc [symmetric])
  then have "limbs_val (drop l r) mod 2 ^ 32 = unat (r ! l)" using unat32_lt [of "r ! l"] by simp
  then show ?thesis using limbs_val_drop [of l r] l by simp
qed

lemma limbs_val_beyond: "length r \<le> l \<Longrightarrow> limbs_val r div 2 ^ (32 * l) = 0"
proof -
  assume "length r \<le> l"
  then have "(2 :: nat) ^ (32 * length r) \<le> 2 ^ (32 * l)" by (intro power_increasing) auto
  then have "limbs_val r < 2 ^ (32 * l)" using limbs_val_bound [of r] by linarith
  then show ?thesis by simp
qed

lemma mod_pow2_mod: "k \<le> m \<Longrightarrow> n mod 2 ^ m mod 2 ^ k = n mod (2 :: nat) ^ k"
  by (simp add: mod_mod_cancel le_imp_power_dvd)

lemma bit_nat_mod: "k < 32 \<Longrightarrow> n mod 2 ^ 32 div 2 ^ k mod 2 = n div 2 ^ k mod (2 :: nat)"
proof -
  assume "k < 32"
  then have "bit (take_bit 32 n) k = bit n k" by (simp add: bit_take_bit_iff)
  then have "odd (n mod 2 ^ 32 div 2 ^ k) = odd (n div 2 ^ k)" unfolding take_bit_eq_mod bit_iff_odd .
  then show ?thesis by (simp only: odd_iff_mod_2_eq_one) (metis not_mod_2_eq_0_eq_1)
qed

lemma mpb_get_bit_val: "mpb_get_bit r k = limbs_val r div 2 ^ k mod 2"
proof -
  have k: "k = 32 * (k div 32) + k mod 32" by simp
  have split: "limbs_val r div 2 ^ k = limbs_val r div 2 ^ (32 * (k div 32)) div 2 ^ (k mod 32)"
    by (subst k) (simp only: power_add div_mult2_eq)
  show ?thesis
  proof (cases "k div 32 \<ge> length r")
    case True
    then show ?thesis using limbs_val_beyond [OF True] split by (simp add: mpb_get_bit_def Let_def)
  next
    case False
    have "unat (drop_bit (k mod 32) (r ! (k div 32)) AND 1) = unat (r ! (k div 32)) div 2 ^ (k mod 32) mod 2"
      by (simp only: and_one_eq unat_mod unat_drop_bit_eq) (simp add: drop_bit_eq_div)
    also have "\<dots> = limbs_val r div 2 ^ (32 * (k div 32)) div 2 ^ (k mod 32) mod 2"
      using limbs_val_nth [of "k div 32" r] False bit_nat_mod by simp
    finally show ?thesis using False split by (simp add: mpb_get_bit_def Let_def)
  qed
qed

lemma fold_or_eq_0: "fold (OR) xs b = 0 \<longleftrightarrow> b = 0 \<and> (\<forall>x \<in> set xs. x = (0 :: limb))"
  by (induction xs arbitrary: b) (auto simp: or_eq_0_iff)

lemma limbs_val_eq_0: "limbs_val xs = 0 \<longleftrightarrow> (\<forall>x \<in> set xs. x = 0)"
  by (induction xs) (auto simp: unat_eq_0)

lemma mpb_sticky_val: "mpb_sticky r k = 0 \<longleftrightarrow> limbs_val r mod 2 ^ k = 0"
proof -
  define l k' where "l = k div 32" and "k' = k mod 32"
  have k: "k = 32 * l + k'" and k': "k' < 32" by (simp_all add: l_def k'_def)
  have st: "fold (OR) (take l r) (0 :: limb) = 0 \<longleftrightarrow> limbs_val (take l r) = 0"
    by (simp add: fold_or_eq_0 limbs_val_eq_0)
  show ?thesis
  proof (cases "l < length r")
    case True
    have "limbs_val r mod 2 ^ k = limbs_val r mod 2 ^ (32 * l) + 2 ^ (32 * l) * (limbs_val r div 2 ^ (32 * l) mod 2 ^ k')"
      unfolding k power_add by (simp add: mod_mult2_eq add.commute)
    also have "limbs_val r div 2 ^ (32 * l) mod 2 ^ k' = unat (r ! l) mod 2 ^ k'"
      using limbs_val_nth [OF True] mod_pow2_mod [of k' 32] k' by simp
    finally have eq: "limbs_val r mod 2 ^ k = 0 \<longleftrightarrow> limbs_val (take l r) = 0 \<and> unat (r ! l) mod 2 ^ k' = 0"
      using limbs_val_take [of l r] True by simp
    have "mpb_sticky r k = fold (OR) (take l r) 0 OR (r ! l AND (push_bit k' 1 - 1))"
      using True by (simp add: mpb_sticky_def l_def k'_def Let_def)
    then have "mpb_sticky r k = 0 \<longleftrightarrow> limbs_val (take l r) = 0 \<and> r ! l AND (push_bit k' 1 - 1) = 0"
      using st by (simp add: or_eq_0_iff)
    also have "\<dots> \<longleftrightarrow> limbs_val (take l r) = 0 \<and> unat (r ! l) mod 2 ^ k' = 0"
      using unat_and_low [OF k', of "r ! l"] by (metis unat_eq_0)
    finally show ?thesis using eq by simp
  next
    case False
    then have "(2 :: nat) ^ (32 * length r) \<le> 2 ^ k" using k by (intro power_increasing) auto
    then have "limbs_val r < 2 ^ k" using limbs_val_bound [of r] by linarith
    then show ?thesis using False st by (simp add: mpb_sticky_def l_def k'_def Let_def)
  qed
qed

section \<open>The rounding shift\<close>

text \<open>
  The specification of rounding: the quotient by \<open>2 ^ s\<close>, truncated, or to the nearest integer with
  ties away from zero, or to the nearest integer with ties to even.
\<close>

definition round_shr :: "rnd_mode \<Rightarrow> nat \<Rightarrow> nat \<Rightarrow> nat" where
  "round_shr rnd_mode v s =
     (let q = v div 2 ^ s; r = v mod 2 ^ s
      in case rnd_mode of
           JS_RNDZ \<Rightarrow> q
         | JS_RNDNA \<Rightarrow> if 2 ^ s \<le> 2 * r then q + 1 else q
         | JS_RNDN \<Rightarrow> if 2 ^ s < 2 * r \<or> (2 ^ s = 2 * r \<and> odd q) then q + 1 else q)"

text \<open>The rounding bit and the sticky bits compare twice the remainder with the divisor.\<close>

lemma round_bit:
  assumes "0 < s"
  shows "v div 2 ^ (s - 1) mod 2 \<noteq> (0 :: nat) \<longleftrightarrow> 2 ^ s \<le> 2 * (v mod 2 ^ s)"
    and "v div 2 ^ (s - 1) mod 2 \<noteq> 0 \<Longrightarrow> v mod 2 ^ (s - 1) = 0 \<longleftrightarrow> 2 ^ s = 2 * (v mod 2 ^ s)"
proof -
  define h where "h = (2 :: nat) ^ (s - 1)"
  have s: "2 ^ s = h * 2" using assms by (simp add: h_def power_eq_if)
  have "v mod 2 ^ s = h * (v div h mod 2) + v mod h" unfolding s by (rule mod_mult2_eq)
  moreover have "v mod h < h" by (simp add: h_def)
  moreover have "v div h mod 2 = 0 \<or> v div h mod 2 = 1" by auto
  ultimately show "v div 2 ^ (s - 1) mod 2 \<noteq> 0 \<longleftrightarrow> 2 ^ s \<le> 2 * (v mod 2 ^ s)"
    and "v div 2 ^ (s - 1) mod 2 \<noteq> 0 \<Longrightarrow> v mod 2 ^ (s - 1) = 0 \<longleftrightarrow> 2 ^ s = 2 * (v mod 2 ^ s)"
    unfolding s h_def [symmetric] by auto
qed

lemma mpb_add_one_val:
  assumes "0 < s"
  shows "limbs_val r div 2 ^ s + mpb_add_one r s rnd_mode = round_shr rnd_mode (limbs_val r) s"
proof -
  let ?v = "limbs_val r"
  have sticky: "(if s \<ge> 2 then mpb_sticky r (s - 1) else 0) = 0 \<longleftrightarrow> ?v mod 2 ^ (s - 1) = 0"
    using assms by (cases "s = 1") (auto simp: mpb_sticky_val)
  have bit: "mpb_get_bit r (s - 1) \<noteq> 0 \<longleftrightarrow> 2 ^ s \<le> 2 * (?v mod 2 ^ s)"
    unfolding mpb_get_bit_val by (rule round_bit(1) [OF assms])
  have tie: "mpb_get_bit r (s - 1) \<noteq> 0 \<Longrightarrow> ?v mod 2 ^ (s - 1) = 0 \<longleftrightarrow> 2 ^ s = 2 * (?v mod 2 ^ s)"
    unfolding mpb_get_bit_val by (rule round_bit(2) [OF assms])
  have even: "mpb_get_bit r s = (if odd (?v div 2 ^ s) then 1 else 0)"
    by (simp add: mpb_get_bit_val odd_iff_mod_2_eq_one)
  show ?thesis
  proof (cases rnd_mode)
    case JS_RNDN
    show ?thesis
    proof (cases "mpb_get_bit r (s - 1) \<noteq> 0")
      case True
      then show ?thesis using bit tie sticky even
        unfolding JS_RNDN mpb_add_one_def round_shr_def Let_def by auto
    next
      case False
      then show ?thesis using bit unfolding JS_RNDN mpb_add_one_def round_shr_def Let_def by auto
    qed
  qed (use bit in \<open>auto simp: mpb_add_one_def round_shr_def Let_def\<close>)
qed

lemma mpb_shl_val:
  assumes "r \<noteq> []"
  shows "limbs_val (mpb_shl r s) = limbs_val r * 2 ^ s"
proof -
  define l k where "l = s div 32" and "k = s mod 32"
  have s: "2 ^ s = 2 ^ (32 * l) * (2 :: nat) ^ k" unfolding power_add [symmetric] by (simp add: l_def k_def)
  define t where "t = (if k \<noteq> 0 then let (tab, h) = mp_shl r k 0 in mpb_renorm (tab @ [h]) else r)"
  have "limbs_val t = limbs_val r * 2 ^ k"
  proof (cases "k = 0")
    case True
    then show ?thesis by (simp add: t_def)
  next
    case False
    obtain tab h where sh: "mp_shl r k 0 = (tab, h)" by fastforce
    have k: "1 \<le> k" "k < 32" using False by (simp_all add: k_def)
    show ?thesis using mp_shl_val [OF sh k] False by (simp add: t_def sh limbs_val_append mult.commute)
  qed
  moreover have "mpb_shl r s = replicate l 0 @ t" by (simp add: mpb_shl_def t_def l_def k_def Let_def)
  ultimately show ?thesis using s by (simp add: limbs_val_append mult.commute mult.left_commute)
qed

lemma mpb_norm_append: "mpb_norm r \<Longrightarrow> limbs_val r \<noteq> 0 \<Longrightarrow> mpb_norm (xs @ r)"
  by (cases r rule: rev_cases) (auto simp: mpb_norm_def unat_eq_0)

lemma mpb_shl_norm:
  assumes "mpb_norm r" "limbs_val r \<noteq> 0"
  shows "mpb_norm (mpb_shl r s)"
proof -
  define t where "t = (if s mod 32 \<noteq> 0 then let (tab, h) = mp_shl r (s mod 32) 0 in mpb_renorm (tab @ [h]) else r)"
  have eq: "mpb_shl r s = replicate (s div 32) 0 @ t" by (simp add: mpb_shl_def t_def Let_def)
  have "mpb_norm t" using assms by (auto simp: t_def split: prod.splits)
  moreover have "limbs_val t \<noteq> 0"
    using mpb_shl_val [of r s] assms eq by (intro notI) (simp add: limbs_val_append)
  ultimately show ?thesis using eq by (simp add: mpb_norm_append)
qed

lemma mp_add_one_append:
  "mp_add_ui r 1 = (tab, a) \<Longrightarrow> limbs_val (if a \<noteq> 0 then tab @ [a] else tab) = limbs_val r + 1"
  using mp_add_ui_val [of r 1 tab a] by (auto simp: limbs_val_append mult.commute)

lemma mpb_shr_add_val:
  assumes "add_one \<le> 1"
  shows "limbs_val (mpb_shr_add r s add_one) = limbs_val r div 2 ^ s + add_one"
proof -
  define l k where "l = s div 32" and "k = s mod 32"
  have "s = 32 * l + k" by (simp add: l_def k_def)
  then have split: "limbs_val r div 2 ^ s = limbs_val r div 2 ^ (32 * l) div 2 ^ k"
    by (simp only: power_add div_mult2_eq)
  show ?thesis
  proof (cases "l \<ge> length r")
    case True
    then have "limbs_val (mpb_shr_add r s add_one) = add_one"
      using assms by (cases add_one) (auto simp: mpb_shr_add_def l_def)
    then show ?thesis using split limbs_val_beyond [OF True] by simp
  next
    case False
    define t where "t = (if k \<noteq> 0 then mpb_renorm (fst (mp_shr (drop l r) k 0)) else drop l r)"
    have t: "limbs_val t = limbs_val r div 2 ^ s"
    proof (cases "k = 0")
      case True
      then show ?thesis using False limbs_val_drop [of l r] split by (simp add: t_def)
    next
      case k: False
      have "1 \<le> k" "k < 32" using k by (simp_all add: k_def)
      with mp_shr_val(2) [of "drop l r" k] have "limbs_val (fst (mp_shr (drop l r) k 0)) = limbs_val (drop l r) div 2 ^ k"
        by (metis prod.collapse)
      then show ?thesis using k False limbs_val_drop [of l r] split by (simp add: t_def)
    qed
    have eq: "mpb_shr_add r s add_one =
        (if add_one \<noteq> 0 then let (tab, a) = mp_add_ui t 1 in if a \<noteq> 0 then tab @ [a] else tab else t)"
      using False by (simp add: mpb_shr_add_def l_def k_def t_def Let_def)
    obtain tab a where ad: "mp_add_ui t 1 = (tab, a)" by fastforce
    show ?thesis
    proof (cases "add_one = 0")
      case True
      then show ?thesis using eq t by simp
    next
      case add: False
      then have "add_one = 1" using assms by simp
      then show ?thesis using eq t mp_add_one_append [OF ad] ad by simp
    qed
  qed
qed

lemma mpb_add_one_le: "mpb_add_one r s rnd_mode \<le> 1"
proof -
  have "mpb_get_bit r k \<le> 1" for k unfolding mpb_get_bit_val by linarith
  then show ?thesis by (simp add: mpb_add_one_def Let_def)
qed

lemma mpb_shr_round_val:
  assumes "r \<noteq> []"
  shows "limbs_val (mpb_shr_round r shift rnd_mode) =
    (if 0 < shift then round_shr rnd_mode (limbs_val r) (nat shift) else limbs_val r * 2 ^ nat (- shift))"
proof -
  consider "shift = 0" | "shift < 0" | "0 < shift" by linarith
  then show ?thesis
  proof cases
    case 3
    then have "0 < nat shift" by simp
    from mpb_add_one_val [OF this] 3 show ?thesis
      by (simp add: mpb_shr_round_def mpb_shr_add_val [OF mpb_add_one_le])
  qed (use assms in \<open>simp_all add: mpb_shr_round_def mpb_shl_val\<close>)
qed

lemma mpb_norm_mono:
  assumes n: "mpb_norm a" and len: "length b = length a" and le: "limbs_val a \<le> limbs_val b"
  shows "mpb_norm b"
proof (cases "length a > 1")
  case True
  then have "2 ^ (32 * (length b - 1)) \<le> limbs_val b"
    using limbs_val_last_bound [of a] n len le by (auto simp: mpb_norm_def)
  moreover have ne: "b \<noteq> []" using len True by auto
  have "last b \<noteq> 0" if "2 ^ (32 * (length b - 1)) \<le> limbs_val b"
  proof
    assume "last b = 0"
    then have "limbs_val b = limbs_val (butlast b)" using limbs_val_snoc [OF ne] by simp
    then show False using limbs_val_bound [of "butlast b"] that by simp
  qed
  ultimately show ?thesis using ne by (simp add: mpb_norm_def)
next
  case False
  then show ?thesis using len n by (auto simp: mpb_norm_def)
qed

lemma mp_add_ui_last:
  "mp_add_ui tab 1 = (tab', 0) \<Longrightarrow> mpb_norm tab \<Longrightarrow> mpb_norm tab'"
  using mp_add_ui_val [of tab 1 tab' 0] by (auto intro: mpb_norm_mono [of tab])

lemma mpb_shr_round_norm:
  assumes n: "mpb_norm r" and nz: "limbs_val r \<noteq> 0"
  shows "mpb_norm (mpb_shr_round r shift rnd_mode)"
proof -
  have "mpb_norm (mpb_shr_add r s a)" for s a
  proof (cases "s div 32 \<ge> length r")
    case True
    then show ?thesis by (simp add: mpb_shr_add_def mpb_norm_def)
  next
    case False
    define t where "t = (if s mod 32 \<noteq> 0 then mpb_renorm (fst (mp_shr (drop (s div 32) r) (s mod 32) 0)) else drop (s div 32) r)"
    have ne: "drop (s div 32) r \<noteq> []" using False by simp
    have "fst (mp_shr (drop (s div 32) r) (s mod 32) 0) \<noteq> []" if "s mod 32 \<noteq> 0"
    proof -
      obtain tab c where sh: "mp_shr (drop (s div 32) r) (s mod 32) 0 = (tab, c)" by fastforce
      have "length tab = length (drop (s div 32) r)" using that by (intro mp_shr_val(1) [OF sh]) auto
      then show ?thesis using ne sh by (metis fst_conv length_0_conv)
    qed
    moreover have "mpb_norm (drop (s div 32) r)" using n ne by (auto simp: mpb_norm_def)
    ultimately have t: "mpb_norm t" by (auto simp: t_def)
    obtain tab c where ad: "mp_add_ui t 1 = (tab, c)" by fastforce
    have "mpb_norm (if c \<noteq> 0 then tab @ [c] else tab)"
      using mp_add_ui_last [of t tab] ad t by (auto simp: mpb_norm_def)
    then show ?thesis using False t ad by (simp add: mpb_shr_add_def t_def Let_def)
  qed
  then show ?thesis using n mpb_shl_norm [OF n nz] by (simp add: mpb_shr_round_def)
qed

section \<open>Comparison and conversion\<close>

lemma mpb_cmp_down_val:
  "length a = length b \<Longrightarrow> mpb_cmp_down (rev a) (rev b) = sgn (int (limbs_val a) - int (limbs_val b))"
proof (induction a arbitrary: b rule: rev_induct)
  case Nil
  then show ?case by simp
next
  case (snoc x a)
  then obtain y b' where b: "b = b' @ [y]" "length b' = length a" by (cases b rule: rev_cases) auto
  show ?case
  proof (cases "x = y")
    case True
    then show ?thesis using snoc.IH [of b'] b by (simp add: limbs_val_append)
  next
    case False
    let ?P = "(2 :: nat) ^ (32 * length a)"
    have la: "limbs_val a < ?P" "limbs_val b' < ?P" using limbs_val_bound [of a] limbs_val_bound [of b'] b by auto
    have step: "limbs_val (u @ [s]) < limbs_val (v @ [t])"
      if "s < t" "limbs_val u < ?P" "length u = length a" "length v = length a" for s t :: limb and u v
    proof -
      have "unat s + 1 \<le> unat t" using that(1) by (simp add: word_less_nat_alt)
      then have "?P * (unat s + 1) \<le> ?P * unat t" by (rule mult_le_mono2)
      then show ?thesis using that(2-) by (simp add: limbs_val_append)
    qed
    show ?thesis
    proof (cases "x < y")
      case True
      then show ?thesis using step [OF True la(1), of b'] b False by simp
    next
      case ge: False
      then have "y < x" using False by simp
      then show ?thesis using step [OF _ la(2), of y x a] b False ge by simp
    qed
  qed
qed

lemma mpb_cmp_val:
  assumes "mpb_norm a" "mpb_norm b"
  shows "mpb_cmp a b = sgn (int (limbs_val a) - int (limbs_val b))"
proof -
  consider "length a < length b" | "length b < length a" | "length a = length b" by linarith
  then show ?thesis
  proof cases
    case 1
    then show ?thesis using mpb_norm_length_less [of b a] assms by (simp add: mpb_cmp_def)
  next
    case 2
    then show ?thesis using mpb_norm_length_less [of a b] assms by (simp add: mpb_cmp_def)
  next
    case 3
    then show ?thesis using mpb_cmp_down_val by (simp add: mpb_cmp_def)
  qed
qed

lemma mpb_set_u64_val [simp, limb_simps]: "limbs_val (mpb_set_u64 m) = unat m"
proof -
  have eq: "unat (ucast m :: limb) + 2 ^ 32 * unat (ucast (drop_bit 32 m) :: limb) = unat m"
    using mod_mult_div_eq [of "unat m" "2 ^ 32"] unat_high_32 [of m] unat_ucast_64_32 [of m] by simp
  show ?thesis
  proof (cases "(ucast (drop_bit 32 m) :: limb) = 0")
    case True
    then show ?thesis using eq by (simp add: mpb_set_u64_def)
  next
    case False
    then show ?thesis using eq by (simp add: mpb_set_u64_def)
  qed
qed

lemma mpb_set_u64_norm [simp]: "mpb_norm (mpb_set_u64 m)"
  by (simp add: mpb_set_u64_def mpb_norm_def Let_def)

lemma mpb_get_u64_val:
  assumes "r \<noteq> []" "length r \<le> 2"
  shows "unat (mpb_get_u64 r) = limbs_val r"
proof -
  from assms consider x where "r = [x]" | x y where "r = [x, y]"
    by (cases r; cases "tl r") auto
  then show ?thesis
  proof cases
    case 2
    then show ?thesis using unat_join [of y x] by (simp add: mpb_get_u64_def or.commute)
  qed (simp add: mpb_get_u64_def)
qed

lemma mpb_norm_two_limbs:
  assumes "mpb_norm r" "limbs_val r < 2 ^ 64"
  shows "length r \<le> 2"
proof (rule ccontr)
  assume "\<not> length r \<le> 2"
  then have "2 ^ (32 * (length r - 1)) \<le> limbs_val r"
    using assms(1) by (intro limbs_val_last_bound) (auto simp: mpb_norm_def)
  moreover have "(2 :: nat) ^ 64 \<le> 2 ^ (32 * (length r - 1))"
    using \<open>\<not> length r \<le> 2\<close> by (intro power_increasing) auto
  ultimately show False using assms(2) by linarith
qed

lemma nat_bits_unique: "2 ^ (k - 1) \<le> n \<Longrightarrow> n < 2 ^ k \<Longrightarrow> 0 < k \<Longrightarrow> nat_bits n = k"
proof (rule antisym)
  assume "2 ^ (k - 1) \<le> n" "n < 2 ^ k" "0 < k"
  then show "nat_bits n \<le> k" by (simp add: nat_bits_le_iff)
  have "\<not> nat_bits n \<le> k - 1" unfolding nat_bits_le_iff using \<open>2 ^ (k - 1) \<le> n\<close> by linarith
  then show "k \<le> nat_bits n" using \<open>0 < k\<close> by linarith
qed

lemma nat_bits_shift: "l < 2 ^ s \<Longrightarrow> h \<noteq> 0 \<Longrightarrow> nat_bits (l + 2 ^ s * h) = s + nat_bits h"
proof (rule nat_bits_unique)
  assume l: "l < 2 ^ s" and h: "h \<noteq> 0"
  have pos: "0 < nat_bits h" using h by (simp add: nat_bits_pos)
  have "2 ^ s * 2 ^ (nat_bits h - 1) \<le> 2 ^ s * h" using nat_bits_lower [of h] h by simp
  then show "2 ^ (s + nat_bits h - 1) \<le> l + 2 ^ s * h"
    unfolding power_add [symmetric] using pos by (simp add: trans_le_add2)
  have "h + 1 \<le> 2 ^ nat_bits h" using nat_bits_bound [of h] by simp
  then have "2 ^ s * (h + 1) \<le> 2 ^ s * 2 ^ nat_bits h" by (rule mult_le_mono2)
  then show "l + 2 ^ s * h < 2 ^ (s + nat_bits h)" using l by (simp add: power_add)
  show "0 < s + nat_bits h" using pos by simp
qed

lemma mpb_floor_log2_val:
  assumes "mpb_norm a"
  shows "mpb_floor_log2 a = int (nat_bits (limbs_val a)) - 1"
proof (cases "last a = 0")
  case True
  then have "a = [0]" using assms by (cases a rule: rev_cases) (auto simp: mpb_norm_def)
  then show ?thesis by (simp add: mpb_floor_log2_def)
next
  case False
  have ne: "a \<noteq> []" using assms by simp
  have "nat_bits (limbs_val a) = 32 * (length a - 1) + nat_bits (unat (last a))"
    unfolding limbs_val_snoc [OF ne] using limbs_val_bound [of "butlast a"] False
    by (intro nat_bits_shift) (auto simp: unat_eq_0)
  moreover have "nat_bits (unat (last a)) \<le> 32" using unat32_lt [of "last a"] by (simp add: nat_bits_le_iff)
  moreover have "1 \<le> length a" using ne by (cases a) auto
  ultimately show ?thesis using False by (simp add: mpb_floor_log2_def clz32_def Let_def of_nat_diff)
qed

section \<open>Powers\<close>

lemma pow_ui_loop_val: "pow_ui_loop (ucast a ^ (b div 2 ^ i)) a b i = ucast a ^ b"
proof (induction i)
  case 0
  then show ?case by simp
next
  case (Suc i)
  have "b div 2 ^ i = 2 * (b div 2 ^ Suc i) + (if bit b i then 1 else 0)"
  proof -
    have "b div 2 ^ i mod 2 = (if bit b i then 1 else 0)" by (simp add: bit_iff_odd odd_iff_mod_2_eq_one)
    moreover have "b div 2 ^ Suc i = b div 2 ^ i div 2" by (simp only: power_Suc2 div_mult2_eq)
    ultimately show ?thesis using mult_div_mod_eq [of 2 "b div 2 ^ i"] by simp
  qed
  then have "(ucast a :: u64) ^ (b div 2 ^ i) =
      (let r = ucast a ^ (b div 2 ^ Suc i) * ucast a ^ (b div 2 ^ Suc i) in if bit b i then r * ucast a else r)"
    by (simp add: power_add mult_2)
  then show ?case using Suc by (simp add: Let_def)
qed

lemma pow_ui_pow5_table:
  assumes "2 \<le> b" "b \<le> 17"
  shows "pow_ui 5 b = 5 ^ b" "pow_ui 10 b = 10 ^ b"
proof -
  have b: "b \<in> set [2..<18]" using assms by (simp only: set_upt atLeastLessThan_iff) simp
  have "\<forall>b \<in> set [2..<18]. pow_ui 5 b = 5 ^ b" by code_simp
  then show "pow_ui 5 b = 5 ^ b" using b by (rule bspec)
  have "\<forall>b \<in> set [2..<18]. pow_ui 10 b = 10 ^ b" by code_simp
  then show "pow_ui 10 b = 10 ^ b" using b by (rule bspec)
qed

lemma pow_ui_val: "pow_ui a b = ucast a ^ b"
proof -
  consider "b = 0" | "b = 1" | "2 \<le> b" "(a = 5 \<or> a = 10) \<and> b \<le> 17" | "2 \<le> b" "\<not> ((a = 5 \<or> a = 10) \<and> b \<le> 17)"
    by linarith
  then show ?thesis
  proof cases
    case 3
    then show ?thesis using pow_ui_pow5_table [of b] by auto
  next
    case 4
    let ?i = "nat_bits b - 1"
    have pos: "0 < b" using 4 by simp
    have "b div 2 ^ ?i = 1"
    proof -
      have "b < 2 * 2 ^ ?i" using nat_bits_bound [of b] nat_bits_pos [OF pos] by (simp add: power_eq_if)
      then show ?thesis using nat_bits_lower [OF pos] by (intro div_nat_eqI) auto
    qed
    then have "pow_ui_loop (ucast a) a b ?i = ucast a ^ b" using pow_ui_loop_val [of a b ?i] by simp
    moreover have "b \<noteq> 0" "b \<noteq> 1" using 4 by simp_all
    ultimately show ?thesis using 4(2) unfolding pow_ui_def by (simp only: if_False)
  qed (simp_all add: pow_ui_def)
qed

text \<open>The table of reciprocals agrees with their computation.\<close>

lemma nat_bits_numeral:
  "nat_bits (numeral n) = Suc (nat_bits (numeral n div 2))" "nat_bits 1 = 1" "nat_bits (Suc 0) = 1"
  by (simp_all add: nat_bits.simps)

lemma ucast_minus_1: "(ucast (- 1 :: limb) :: dlimb) = 0xFFFFFFFF"
  by (simp add: unsigned_minus_1_eq_mask mask_eq_exp_minus_1)

lemma pow_ui_inv_val:
  "pow_ui_inv a b =
     (let d = ucast (pow_ui a b) :: u32; shift = clz32 d
      in (push_bit shift d, udiv1norm_init (push_bit shift d), shift))"
proof (cases "a = 5 \<and> b \<ge> 1 \<and> b \<le> 13")
  case True
  then have "1 \<le> b" "b \<le> 13" by simp_all
  then have "b = 1 \<or> b = 2 \<or> b = 3 \<or> b = 4 \<or> b = 5 \<or> b = 6 \<or> b = 7 \<or> b = 8 \<or> b = 9 \<or> b = 10 \<or> b = 11 \<or> b = 12 \<or> b = 13"
    by presburger
  then show ?thesis using True unfolding pow_ui_val
    by (elim disjE; simp add: pow_ui_inv_def pow5_table_def pow5_inv_table_def clz32_def nat_bits_numeral
      udiv1norm_init_def ucast_minus_1 Let_def)
next
  case False
  then show ?thesis unfolding pow_ui_inv_def Let_def by (simp only: if_False)
qed

text \<open>For a radix that is a power of two, \<open>mul_log2_radix\<close> is the floor of the exact quotient.\<close>

lemma c_div_floor: "0 < k \<Longrightarrow> c_div (if a < 0 then a - (k - 1) else a) k = a div k"
proof -
  assume k: "0 < k"
  show ?thesis
  proof (cases "a < 0")
    case True
    have "- (a - (k - 1)) div k = - (a div k)"
    proof (rule int_div_pos_eq)
      show "- (a - (k - 1)) = k * - (a div k) + (k - 1 - a mod k)"
        using mult_div_mod_eq [of k a] by (simp add: algebra_simps)
      show "0 \<le> k - 1 - a mod k" "k - 1 - a mod k < k" using pos_mod_bound [OF k, of a] pos_mod_sign [OF k, of a] by simp_all
    qed
    then show ?thesis using True k by (simp add: c_div_def sgn_if)
  next
    case False
    then show ?thesis using k by (simp add: c_div_def sgn_if)
  qed
qed

section \<open>Properties\<close>

text \<open>Division of a number by a limb through a precomputed reciprocal is exact: with the divisor
  shifted to its top bit and the reciprocal of \<open>udiv1norm_init\<close>, \<open>mp_div1norm\<close> leaves the quotient in the
  array and returns the remainder, for every number and every divisor that is not zero.\<close>

theorem mp_div1norm_correct:
  assumes "d \<noteq> 0"
  shows "case mp_div1norm taba (push_bit (clz32 d) d) 0 (udiv1norm_init (push_bit (clz32 d) d)) (clz32 d) of (tabr, r) \<Rightarrow>
           length tabr = length taba \<and> limbs_val tabr = limbs_val taba div unat d \<and> unat r = limbs_val taba mod unat d"
proof -
  let ?b = "push_bit (clz32 d) d"
  obtain tabr r where res: "mp_div1norm taba ?b 0 (udiv1norm_init ?b) (clz32 d) = (tabr, r)" by fastforce
  from mp_div1norm_val [OF refl clz32_normalises [OF assms] refl res] res show ?thesis by simp
qed

text \<open>The rounding shift: for a positive shift the result is the number divided by \<open>2 ^ shift\<close> and
  rounded in the given mode (truncated; nearest, ties away from zero; nearest, ties to even), for a
  negative one it is the exact product; the result of a number that is not zero is normalised.\<close>

theorem mpb_shr_round_correct:
  assumes "mpb_norm r"
  shows "limbs_val (mpb_shr_round r shift rnd_mode) =
           (if 0 < shift then round_shr rnd_mode (limbs_val r) (nat shift) else limbs_val r * 2 ^ nat (- shift)) \<and>
         (limbs_val r \<noteq> 0 \<longrightarrow> mpb_norm (mpb_shr_round r shift rnd_mode))"
  using mpb_shr_round_val [of r] mpb_shr_round_norm [of r] assms by simp

text \<open>Powers: \<open>pow_ui\<close> is the power modulo \<open>2 ^ 64\<close> on its table path and on its
  square-and-multiply path, and \<open>pow_ui_inv\<close> returns the normalised power, its shift and the reciprocal
  \<open>udiv1norm_init\<close> computes, on the path that reads the reciprocal from a table as well.\<close>

theorem pow_ui_correct:
  "pow_ui a b = ucast a ^ b \<and>
   pow_ui_inv a b = (let d = ucast (ucast a ^ b :: u64) :: u32
                     in (push_bit (clz32 d) d, udiv1norm_init (push_bit (clz32 d) d), clz32 d))"
  using pow_ui_inv_val [of a b] by (simp add: pow_ui_val Let_def)

end
