(* ===== verification/Dtoa_Scale.thy ===== *)
theory Dtoa_Scale
  imports Dtoa_Mpb Complex_Main
begin

text \<open>
  The scaling by a power of the radix that printing and parsing share
  (\<^verbatim>\<open>dtoa.c\<close>, lines 890 to 1012): \<open>mul_pow\<close> multiplies or divides a number by a power of the odd part of
  the radix, keeping enough bits and a sticky bit for a later rounding; \<open>mul_pow_round\<close> rounds the
  result to an integer and \<open>round_to_d\<close> to the mantissa of a double.  The lemmas show that both roundings are
  those of the exact fraction.
\<close>

section \<open>Scaling by a power of the radix\<close>

text \<open>
  The two loops of \<open>mul_pow\<close>.  \<open>b\<close>, \<open>b_inv\<close>, \<open>shift\<close> and \<open>n0\<close> are the cached power and its exponent.
  \<open>d\<close> is an entry of \<open>digits_per_limb_table\<close>, all of which are positive; the loops stop at once for
  \<open>d = 0\<close>, which makes them total.
\<close>

function mul_pow_up :: "mpb \<Rightarrow> u32 \<Rightarrow> nat \<Rightarrow> nat \<Rightarrow> limb \<Rightarrow> nat \<Rightarrow> mpb" where
  "mul_pow_up a radix1 d f b n0 =
     (if f = 0 \<or> d = 0 then a
      else let n = min f d;
               (b, n0) = (if n \<noteq> n0 then (ucast (pow_ui radix1 n), n) else (b, n0));
               (tab, h) = mp_mul1 a b 0;
               a = (if h \<noteq> 0 then tab @ [h] else tab)
           in mul_pow_up a radix1 d (f - n) b n0)"
  by pat_completeness auto
termination by (relation "measure (\<lambda>(a, radix1, d, f, b, n0). f)") auto

declare mul_pow_up.simps [simp del]

function mul_pow_down :: "mpb \<Rightarrow> u32 \<Rightarrow> nat \<Rightarrow> nat \<Rightarrow> limb \<Rightarrow> limb \<Rightarrow> nat \<Rightarrow> nat \<Rightarrow> limb \<Rightarrow> mpb \<times> limb" where
  "mul_pow_down a radix1 d f b b_inv shift n0 rem =
     (if f = 0 \<or> d = 0 then (a, rem)
      else let n = min f d;
               (b, b_inv, shift, n0) =
                 (if n \<noteq> n0 then let (b, b_inv, shift) = pow_ui_inv radix1 n in (b, b_inv, shift, n)
                  else (b, b_inv, shift, n0));
               (tab, r) = mp_div1norm a b 0 b_inv shift
           in mul_pow_down (mpb_renorm tab) radix1 d (f - n) b b_inv shift n0 (rem OR r))"
  by pat_completeness auto
termination by (relation "measure (\<lambda>(a, radix1, d, f, b, b_inv, shift, n0, rem). f)") auto

declare mul_pow_down.simps [simp del]

definition mul_pow :: "mpb \<Rightarrow> nat \<Rightarrow> nat \<Rightarrow> int \<Rightarrow> bool \<Rightarrow> int \<Rightarrow> mpb \<times> int" where
  "mul_pow a radix1 radix_shift f is_int e =
     (let e_offset = - f * int radix_shift
      in if radix1 \<noteq> 1
         then let d = digits_per_limb_table ! (radix1 - 2)
              in if f \<ge> 0 then (mul_pow_up a (of_nat radix1) d (nat f) 0 0, e_offset)
                 else let f = nat (- f);
                          l = (f + d - 1) div d;
                          e_offset = e_offset + int l * 32;
                          extra_bits = (if \<not> is_int then max (e - mpb_floor_log2 a) 0
                                        else max (2 + e - e_offset) 0);
                          e_offset = e_offset + extra_bits;
                          a = mpb_shr_round a (- (int l * 32 + extra_bits)) JS_RNDZ;
                          (a, rem) = mul_pow_down a (of_nat radix1) d f 0 0 0 0 0
                      in (a[0 := a ! 0 OR (if rem \<noteq> 0 then 1 else 0)], e_offset)
         else (a, e_offset))"

definition mul_pow_round :: "u64 \<Rightarrow> int \<Rightarrow> nat \<Rightarrow> nat \<Rightarrow> int \<Rightarrow> rnd_mode \<Rightarrow> mpb" where
  "mul_pow_round m e radix1 radix_shift f rnd_mode =
     (let (tmp1, e_offset) = mul_pow (mpb_set_u64 m) radix1 radix_shift f True e
      in mpb_shr_round tmp1 (- e + e_offset) rnd_mode)"

text \<open>The mantissa and the exponent \<open>*pe\<close> of the rounded value.\<close>

definition round_to_d :: "mpb \<Rightarrow> int \<Rightarrow> rnd_mode \<Rightarrow> u64 \<times> int" where
  "round_to_d a e_offset rnd_mode =
     (if a ! 0 = 0 \<and> length a = 1 then (0, 0)
      else let e = mpb_floor_log2 a + 1 - e_offset;
               e_min = - 1021;
               prec = (if e < e_min then 53 - (e_min - e) else 53);
               a = mpb_shr_round a (e + e_offset - prec) rnd_mode;
               m = push_bit (nat (53 - prec)) (mpb_get_u64 a)
           in if m \<ge> push_bit 53 1 then (drop_bit 1 m, e + 1) else (m, e))"

definition mul_pow_round_to_d :: "mpb \<Rightarrow> nat \<Rightarrow> nat \<Rightarrow> int \<Rightarrow> rnd_mode \<Rightarrow> u64 \<times> int" where
  "mul_pow_round_to_d a radix1 radix_shift f rnd_mode =
     (let (a, e_offset) = mul_pow a radix1 radix_shift f False 55
      in round_to_d a e_offset rnd_mode)"

section \<open>Scaling by a power of the radix is exact\<close>

text \<open>A power of the radix that fits a limb.\<close>

lemma unat_power_fits:
  fixes a :: "'a::len word"
  shows "unat a ^ n < 2 ^ LENGTH('a) \<Longrightarrow> unat (a ^ n) = unat a ^ n"
proof -
  assume "unat a ^ n < 2 ^ LENGTH('a)"
  moreover have "a ^ n = of_nat (unat a ^ n)" by simp
  ultimately show ?thesis by (simp only: unat_of_nat mod_less)
qed

lemma pow_ui_limb:
  assumes "unat a ^ n < 2 ^ 32"
  shows "unat (ucast (pow_ui a n) :: limb) = unat a ^ n"
proof -
  have "unat (ucast a :: u64) ^ n < 2 ^ LENGTH(64)" using assms by simp
  then have "unat (pow_ui a n) = unat a ^ n" unfolding pow_ui_val by (subst unat_power_fits) simp_all
  then show ?thesis using assms unat_ucast_64_32 [of "pow_ui a n"] by simp
qed

lemma power_le_fits: "unat (a :: u32) ^ d < 2 ^ 32 \<Longrightarrow> a \<noteq> 0 \<Longrightarrow> n \<le> d \<Longrightarrow> unat a ^ n < 2 ^ 32"
proof -
  assume "unat a ^ d < 2 ^ 32" "a \<noteq> 0" "n \<le> d"
  moreover have "1 \<le> unat a" using \<open>a \<noteq> 0\<close> unat_gt_0 [of a] by linarith
  then have "unat a ^ n \<le> unat a ^ d" using \<open>n \<le> d\<close> by (intro power_increasing) auto
  ultimately show ?thesis by linarith
qed

lemma mp_mul1_append:
  assumes mul: "mp_mul1 a b 0 = (tab, h)"
  shows "limbs_val (if h \<noteq> 0 then tab @ [h] else tab) = limbs_val a * unat b"
    and "mpb_norm a \<Longrightarrow> b \<noteq> 0 \<Longrightarrow> mpb_norm (if h \<noteq> 0 then tab @ [h] else tab)"
proof -
  note v = mp_mul1_val [OF mul]
  show "limbs_val (if h \<noteq> 0 then tab @ [h] else tab) = limbs_val a * unat b"
    using v by (auto simp: limbs_val_append mult.commute)
  assume n: "mpb_norm a" and b: "b \<noteq> 0"
  show "mpb_norm (if h \<noteq> 0 then tab @ [h] else tab)"
  proof (cases "h = 0")
    case True
    have "0 < unat b" using b unat_gt_0 by blast
    then have "limbs_val a * 1 \<le> limbs_val a * unat b" by (intro mult_le_mono2) simp
    then show ?thesis using True v mpb_norm_mono [OF n, of tab] by simp
  next
    case False
    then show ?thesis by (simp add: mpb_norm_def)
  qed
qed

lemma mul_pow_up_val:
  assumes "unat radix1 ^ d < 2 ^ 32" "radix1 \<noteq> 0" "0 < d" "n0 \<noteq> 0 \<longrightarrow> b = ucast (pow_ui radix1 n0)" "mpb_norm a"
  shows "limbs_val (mul_pow_up a radix1 d f b n0) = limbs_val a * unat radix1 ^ f \<and> mpb_norm (mul_pow_up a radix1 d f b n0)"
  using assms
proof (induction a radix1 d f b n0 rule: mul_pow_up.induct)
  case (1 a radix1 d f b n0)
  show ?case
  proof (cases "f = 0")
    case True
    then show ?thesis using 1(6) by (simp add: mul_pow_up.simps)
  next
    case False
    define n where "n = min f d"
    define b' where "b' = (if n \<noteq> n0 then ucast (pow_ui radix1 n) else b)"
    have n: "n \<noteq> 0" "n \<le> d" "n \<le> f" using False 1(4) by (auto simp: n_def)
    have b': "b' = ucast (pow_ui radix1 n)" using 1(5) n by (auto simp: b'_def)
    have pair: "(if n \<noteq> n0 then (ucast (pow_ui radix1 n), n) else (b, n0)) = (b', n)" by (simp add: b'_def)
    obtain tab h where mul: "mp_mul1 a b' 0 = (tab, h)" by fastforce
    let ?a = "if h \<noteq> 0 then tab @ [h] else tab"
    have ub: "unat b' = unat radix1 ^ n" unfolding b' by (intro pow_ui_limb power_le_fits [OF 1(2,3) n(2)])
    moreover have "0 < unat radix1" using 1(3) unat_gt_0 by blast
    ultimately have "b' \<noteq> 0" using unat_gt_0 [of b'] by simp
    note a = mp_mul1_append(1) [OF mul, unfolded ub] mp_mul1_append(2) [OF mul 1(6) this]
    have "mul_pow_up a radix1 d f b n0 = mul_pow_up ?a radix1 d (f - n) b' n"
      using False 1(4) pair mul by (subst mul_pow_up.simps) (simp add: n_def [symmetric])
    moreover have "limbs_val (mul_pow_up ?a radix1 d (f - n) b' n) = limbs_val ?a * unat radix1 ^ (f - n) \<and>
        mpb_norm (mul_pow_up ?a radix1 d (f - n) b' n)"
      using 1(1) [OF _ n_def pair [symmetric] refl mul [symmetric] refl refl] False 1(2-4) b' a(2) by simp
    ultimately show ?thesis using a(1) n(3) by (simp add: mult.assoc power_add [symmetric])
  qed
qed

lemma or_eq_0: "x OR y = (0 :: limb) \<longleftrightarrow> x = 0 \<and> y = 0"
  by (rule or_eq_0_iff)

lemma pow_ui_inv_div:
  assumes fits: "unat radix1 ^ n < 2 ^ 32" and nz: "radix1 \<noteq> 0"
    and inv: "pow_ui_inv radix1 n = (b, b_inv, shift)" and div: "mp_div1norm a b 0 b_inv shift = (tab, r)"
  shows "length tab = length a" "limbs_val tab = limbs_val a div unat radix1 ^ n"
    "r = 0 \<longleftrightarrow> limbs_val a mod unat radix1 ^ n = 0"
proof -
  let ?d = "ucast (pow_ui radix1 n) :: limb"
  have d: "unat ?d = unat radix1 ^ n" by (rule pow_ui_limb [OF fits])
  have "0 < unat radix1" using nz unat_gt_0 by blast
  then have "?d \<noteq> 0" using d unat_gt_0 [of ?d] by simp
  note norm = clz32_normalises [OF this]
  have b: "b = push_bit (clz32 ?d) ?d" "b_inv = udiv1norm_init b" "shift = clz32 ?d"
    using inv by (auto simp: pow_ui_inv_val Let_def)
  have res: "length tab = length a" "limbs_val tab = limbs_val a div unat ?d" "unat r = limbs_val a mod unat ?d"
    using mp_div1norm_val [of b shift ?d b_inv a tab r] b norm div by auto
  then show "length tab = length a" "limbs_val tab = limbs_val a div unat radix1 ^ n"
    "r = 0 \<longleftrightarrow> limbs_val a mod unat radix1 ^ n = 0" using d unat_eq_zero [of r] by simp_all
qed

lemma div_mod_power_zero:
  "n \<le> f \<Longrightarrow> v mod (p :: nat) ^ f = 0 \<longleftrightarrow> v mod p ^ n = 0 \<and> v div p ^ n mod p ^ (f - n) = 0"
proof -
  assume "n \<le> f"
  then have "p ^ f = p ^ n * p ^ (f - n)" by (simp add: power_add [symmetric])
  then have "v mod p ^ f = p ^ n * (v div p ^ n mod p ^ (f - n)) + v mod p ^ n" by (simp only: mod_mult2_eq)
  then show ?thesis by (cases "p ^ n = 0") auto
qed

lemma mul_pow_down_val:
  assumes "unat radix1 ^ d < 2 ^ 32" "radix1 \<noteq> 0" "0 < d" "n0 \<noteq> 0 \<longrightarrow> pow_ui_inv radix1 n0 = (b, b_inv, shift)"
    "mul_pow_down a radix1 d f b b_inv shift n0 rem = (a', rem')" "a \<noteq> []"
  shows "limbs_val a' = limbs_val a div unat radix1 ^ f \<and> (0 < f \<longrightarrow> mpb_norm a') \<and>
         (rem' = 0 \<longleftrightarrow> rem = 0 \<and> limbs_val a mod unat radix1 ^ f = 0)"
  using assms
proof (induction a radix1 d f b b_inv shift n0 rem rule: mul_pow_down.induct)
  case (1 a radix1 d f b b_inv shift n0 rem)
  show ?case
  proof (cases "f = 0")
    case True
    then show ?thesis using 1(6,7) by (auto simp: mul_pow_down.simps)
  next
    case False
    define n where "n = min f d"
    have n: "n \<noteq> 0" "n \<le> d" "n \<le> f" using False 1(4) by (auto simp: n_def)
    obtain c c_inv s where inv: "pow_ui_inv radix1 n = (c, c_inv, s)" by (rule prod_cases3)
    have pair: "(if n \<noteq> n0 then let (b, b_inv, shift) = pow_ui_inv radix1 n in (b, b_inv, shift, n)
                  else (b, b_inv, shift, n0)) = (c, c_inv, s, n)"
      using 1(5) n inv by auto
    obtain tab r where div: "mp_div1norm a c 0 c_inv s = (tab, r)" by fastforce
    have fits: "unat radix1 ^ n < 2 ^ 32" by (rule power_le_fits [OF 1(2,3) n(2)])
    note v = pow_ui_inv_div [OF fits 1(3) inv div]
    have ne: "mpb_norm (mpb_renorm tab)"
    proof (rule mpb_renorm_norm)
      show "tab \<noteq> []" using v(1) 1(7) by auto
    qed
    have zero: "mul_pow_down (mpb_renorm tab) radix1 d 0 c c_inv s n (rem OR r) = (mpb_renorm tab, rem OR r)"
      by (simp add: mul_pow_down.simps)
    have rec: "mul_pow_down (mpb_renorm tab) radix1 d (f - n) c c_inv s n (rem OR r) = (a', rem')"
      using 1(6) False 1(4) pair div by (subst (asm) mul_pow_down.simps) (simp add: n_def [symmetric])
    have "limbs_val a' = limbs_val tab div unat radix1 ^ (f - n) \<and> (0 < f - n \<longrightarrow> mpb_norm a') \<and>
        (rem' = 0 \<longleftrightarrow> rem OR r = 0 \<and> limbs_val tab mod unat radix1 ^ (f - n) = 0)"
      using 1(1) [OF _ n_def pair [symmetric] refl refl refl div [symmetric]] False 1(2-4) inv rec ne by simp
    moreover have "f - n = 0 \<Longrightarrow> mpb_norm a'" using rec zero ne by simp
    moreover have "limbs_val tab div unat radix1 ^ (f - n) = limbs_val a div unat radix1 ^ f"
      using v(2) n(3) by (simp add: div_mult2_eq [symmetric] power_add [symmetric])
    ultimately show ?thesis using v(2,3) div_mod_power_zero [OF n(3)] by (auto simp: or_eq_0)
  qed
qed

text \<open>Rounding of a fraction to an integer, the specification of \<open>mul_pow_round\<close>.\<close>

definition round_div :: "rnd_mode \<Rightarrow> nat \<Rightarrow> nat \<Rightarrow> nat" where
  "round_div rnd_mode n d =
     (let q = n div d; r = n mod d
      in case rnd_mode of
           JS_RNDZ \<Rightarrow> q
         | JS_RNDNA \<Rightarrow> if d \<le> 2 * r then q + 1 else q
         | JS_RNDN \<Rightarrow> if d < 2 * r \<or> (d = 2 * r \<and> odd q) then q + 1 else q)"

lemma round_shr_div: "round_shr rnd_mode v s = round_div rnd_mode v (2 ^ s)"
  by (simp add: round_shr_def round_div_def)

lemma round_div_1 [simp]: "round_div rnd_mode v (Suc 0) = v"
  by (cases rnd_mode) (simp_all add: round_div_def)

lemma round_div_scale: "0 < k \<Longrightarrow> round_div rnd_mode (k * n) (k * d) = round_div rnd_mode n d"
proof -
  assume k: "0 < k"
  have r: "k * n mod (k * d) = k * (n mod d)" by (rule mult_mod_right [symmetric])
  have q: "k * n div (k * d) = n div d" using k by simp
  have cmp: "k * d < 2 * (k * x) \<longleftrightarrow> d < 2 * x" "k * d \<le> 2 * (k * x) \<longleftrightarrow> d \<le> 2 * x" "k * d = 2 * (k * x) \<longleftrightarrow> d = 2 * x" for x
    using k by (simp_all add: mult.left_commute)
  show ?thesis unfolding round_div_def q r Let_def cmp ..
qed

lemma or_sticky: "n OR (if c then 1 else 0) = (if c \<and> even n then n + 1 else (n :: nat))"
  by (cases c) (auto simp: or_Suc_0_eq)

text \<open>
  A quotient whose last bit is made sticky by the remainder rounds like the exact fraction, as long
  as at least two bits are shifted out.
\<close>

lemma sticky_round:
  assumes R: "0 < R" and s: "2 \<le> s"
  shows "round_div rnd_mode (A div R OR (if A mod R \<noteq> 0 then 1 else 0)) (2 ^ s) = round_div rnd_mode A (R * 2 ^ s)"
proof -
  define Q r H where "Q = A div R" and "r = A mod R" and "H = (2 :: nat) ^ (s - 2)"
  define q t where "q = Q div 2 ^ s" and "t = Q mod 2 ^ s"
  have "2 ^ s = (2 :: nat) ^ (2 + (s - 2))" using s by (simp only: le_add_diff_inverse)
  also have "\<dots> = 2 ^ 2 * H" unfolding H_def by (rule power_add)
  finally have H: "2 ^ s = 4 * H" by simp
  have Q: "Q = q * (4 * H) + t" and t: "t < 4 * H" unfolding q_def t_def H [symmetric] by (simp_all add: div_mult_mod_eq)
  have r: "r < R" using R by (simp add: r_def)
  have A: "A = Q * R + r" by (simp add: Q_def r_def)
  have qA: "A div (R * 2 ^ s) = q" by (simp add: q_def Q_def div_mult2_eq)
  have mA: "A mod (R * 2 ^ s) = t * R + r" unfolding mod_mult2_eq t_def Q_def r_def by (simp add: mult.commute)
  define t' where "t' = (if r \<noteq> 0 \<and> even t then t + 1 else t)"
  have t': "t' < 4 * H" using t unfolding t'_def by presburger
  have ev: "even Q \<longleftrightarrow> even t" using Q by simp
  have Q': "Q OR (if r \<noteq> 0 then 1 else 0) = q * (4 * H) + t'" unfolding or_sticky t'_def using Q ev by simp
  have qQ: "(q * (4 * H) + t') div 2 ^ s = q" "(q * (4 * H) + t') mod 2 ^ s = t'"
    using t' unfolding H by simp_all
  define X Y where "X = R * H" and "Y = t * R"
  have XY: "R * (4 * H) = 4 * X" "t * R = Y" by (simp_all add: X_def Y_def)
  have mono: "2 * H + k \<le> t \<Longrightarrow> 2 * X + R * k \<le> Y" for k
    using mult_le_mono2 [of "2 * H + k" t R] by (simp add: X_def Y_def algebra_simps)
  have anti: "t + k \<le> 2 * H \<Longrightarrow> Y + R * k \<le> 2 * X" for k
    using mult_le_mono2 [of "t + k" "2 * H" R] by (simp add: X_def Y_def algebra_simps)
  have le: "4 * H \<le> 2 * t' \<longleftrightarrow> 4 * X \<le> 2 * (Y + r)"
  proof
    assume "4 * H \<le> 2 * t'"
    then have "2 * H + 0 \<le> t" unfolding t'_def by (auto split: if_splits)
    from mono [OF this] show "4 * X \<le> 2 * (Y + r)" by simp
  next
    assume le: "4 * X \<le> 2 * (Y + r)"
    then have "\<not> t + 1 \<le> 2 * H" using anti [of 1] r by auto
    then show "4 * H \<le> 2 * t'" unfolding t'_def by simp
  qed
  have lt: "4 * H < 2 * t' \<longleftrightarrow> 4 * X < 2 * (Y + r)"
  proof
    assume "4 * H < 2 * t'"
    then have "2 * H + 1 \<le> t \<or> (2 * H + 0 \<le> t \<and> r \<noteq> 0)" unfolding t'_def by (auto split: if_splits)
    then show "4 * X < 2 * (Y + r)" using mono [of 1] mono [of 0] R by auto
  next
    assume lt: "4 * X < 2 * (Y + r)"
    then have "\<not> t + 1 \<le> 2 * H" using anti [of 1] r by auto
    moreover have "t \<noteq> 2 * H \<or> r \<noteq> 0" using lt anti [of 0] by auto
    ultimately show "4 * H < 2 * t'" unfolding t'_def 
      using \<open>\<not> t + 1 \<le> 2 * H\<close> by presburger
  qed
  have eq: "4 * H = 2 * t' \<longleftrightarrow> 4 * X = 2 * (Y + r)" using le lt by linarith
  show ?thesis
    unfolding Q_def [symmetric] r_def [symmetric] Q' round_div_def Let_def qQ qA mA
    unfolding H XY
    using le lt eq by (cases rnd_mode) simp_all
qed

lemma digits_per_limb_fits:
  assumes "odd radix1" "3 \<le> radix1" "radix1 \<le> 35"
  shows "0 < digits_per_limb_table ! (radix1 - 2)" "radix1 ^ (digits_per_limb_table ! (radix1 - 2)) < 2 ^ 32"
proof -
  have mem: "radix1 \<in> set (filter odd [3..<36])" using assms by (simp only: set_filter set_upt) auto
  have "\<forall>r \<in> set (filter odd [3..<36]). 0 < digits_per_limb_table ! (r - 2) \<and> r ^ (digits_per_limb_table ! (r - 2)) < 2 ^ 32"
    by (simp add: digits_per_limb_table_def)
  with mem show "0 < digits_per_limb_table ! (radix1 - 2)" "radix1 ^ (digits_per_limb_table ! (radix1 - 2)) < 2 ^ 32"
    by (auto simp only:)
qed

lemma limbs_val_set_sticky:
  assumes "a \<noteq> []"
  shows "limbs_val (a[0 := a ! 0 OR (if c then 1 else 0)]) = limbs_val a OR (if c then 1 else 0)"
proof -
  obtain x xs where a: "a = x # xs" using assms by (cases a) auto
  have "unat (x OR 1) = unat x OR 1" by (simp add: unsigned_or_eq)
  then have "unat (x OR 1) = (if even (unat x) then unat x + 1 else unat x)" using or_sticky [of "unat x" True] by simp
  then show ?thesis unfolding a by (cases c) (simp_all add: or_Suc_0_eq)
qed

text \<open>
  What \<open>mul_pow\<close> promises of its result \<open>(a', e_offset)\<close>: \<open>a'\<close> is \<open>a * radix1 ^ f\<close> scaled by a power of
  two, exactly for \<open>f \<ge> 0\<close>, and otherwise truncated with a sticky last bit.
\<close>

lemma mul_pow_exact:
  assumes r: "odd radix1" "1 \<le> radix1" "radix1 \<le> 35" and f: "0 \<le> f \<or> radix1 = 1" and n: "mpb_norm a"
    and res: "mul_pow a radix1 radix_shift f is_int e = (a', e_offset)"
  shows "limbs_val a' = limbs_val a * radix1 ^ nat f" "e_offset = - f * int radix_shift" "mpb_norm a'"
proof -
  have "limbs_val a' = limbs_val a * radix1 ^ nat f \<and> mpb_norm a' \<and> e_offset = - f * int radix_shift"
  proof (cases "radix1 = 1")
    case True
    then show ?thesis using res n by (simp add: mul_pow_def)
  next
    case False
    then have r3: "3 \<le> radix1" using r by presburger
    have unat: "unat (of_nat radix1 :: u32) = radix1" using r by (simp add: unat_of_nat)
    have nz: "(of_nat radix1 :: u32) \<noteq> 0" using unat r by auto
    have "limbs_val (mul_pow_up a (of_nat radix1) (digits_per_limb_table ! (radix1 - 2)) (nat f) 0 0)
        = limbs_val a * radix1 ^ nat f \<and>
        mpb_norm (mul_pow_up a (of_nat radix1) (digits_per_limb_table ! (radix1 - 2)) (nat f) 0 0)"
      using digits_per_limb_fits [OF r(1) r3 r(3)] mul_pow_up_val [of "of_nat radix1" _ 0 0] nz unat n by simp
    then show ?thesis using res False f by (auto simp: mul_pow_def Let_def)
  qed
  then show "limbs_val a' = limbs_val a * radix1 ^ nat f" "e_offset = - f * int radix_shift" "mpb_norm a'" by simp_all
qed

lemma mul_pow_inexact:
  assumes r: "odd radix1" "3 \<le> radix1" "radix1 \<le> 35" and f: "f < 0" and ne: "a \<noteq> []"
    and res: "mul_pow a radix1 radix_shift f is_int e = (a', e_offset)"
  obtains S where
    "limbs_val a' = (let A = limbs_val a * 2 ^ S; R = radix1 ^ nat (- f) in A div R OR (if A mod R \<noteq> 0 then 1 else 0))"
    "e_offset = - f * int radix_shift + int S" "mpb_norm a'"
    "is_int \<Longrightarrow> 2 + e + f * int radix_shift \<le> int S"
    "\<not> is_int \<Longrightarrow> e - mpb_floor_log2 a + 32 * int ((nat (- f) + digits_per_limb_table ! (radix1 - 2) - 1) div digits_per_limb_table ! (radix1 - 2)) \<le> int S"
proof -
  define d where "d = digits_per_limb_table ! (radix1 - 2)"
  define l where "l = (nat (- f) + d - 1) div d"
  define extra where "extra = (if \<not> is_int then max (e - mpb_floor_log2 a) 0
    else max (2 + e - (- f * int radix_shift + int l * 32)) 0)"
  have extra: "0 \<le> extra" by (simp add: extra_def)
  define S where "S = nat (int l * 32 + extra)"
  have S: "int S = int l * 32 + extra" using extra by (simp add: S_def)
  have unat: "unat (of_nat radix1 :: u32) = radix1" using r by (simp add: unat_of_nat)
  have nz: "(of_nat radix1 :: u32) \<noteq> 0" using unat r by auto
  note fits = digits_per_limb_fits [OF r, folded d_def]
  define a1 where "a1 = mpb_shr_round a (- (int l * 32 + extra)) JS_RNDZ"
  have "\<not> 0 < - (int l * 32 + extra)" using extra by simp
  then have a1: "limbs_val a1 = limbs_val a * 2 ^ S" using mpb_shr_round_val [OF ne] by (simp add: a1_def S_def add.commute)
  have "a1 \<noteq> []" using ne extra unfolding a1_def mpb_shr_round_def mpb_shl_def by (auto split: prod.splits simp: Let_def)
  obtain a2 rem where down: "mul_pow_down a1 (of_nat radix1) d (nat (- f)) 0 0 0 0 0 = (a2, rem)" by fastforce
  have "(0 :: nat) \<noteq> 0 \<longrightarrow> pow_ui_inv (of_nat radix1) 0 = (0, 0, 0)" by simp
  note v = mul_pow_down_val [OF _ nz fits(1) this down \<open>a1 \<noteq> []\<close>, unfolded unat, OF fits(2)]
  have "mul_pow a radix1 radix_shift f is_int e =
     (let (a, rem) = mul_pow_down a1 (of_nat radix1) d (nat (- f)) 0 0 0 0 0
      in (a[0 := a ! 0 OR (if rem \<noteq> 0 then 1 else 0)], - f * int radix_shift + int l * 32 + extra))"
    using f r unfolding mul_pow_def Let_def a1_def extra_def l_def d_def by simp
  then have eq: "a' = a2[0 := a2 ! 0 OR (if rem \<noteq> 0 then 1 else 0)]" "e_offset = - f * int radix_shift + int S"
    using res down S by simp_all
  show thesis
  proof (rule that [of S])
    show "limbs_val a' = (let A = limbs_val a * 2 ^ S; R = radix1 ^ nat (- f) in A div R OR (if A mod R \<noteq> 0 then 1 else 0))"
      unfolding eq Let_def using v limbs_val_set_sticky [of a2 "rem \<noteq> 0"] a1 f by simp
    show "e_offset = - f * int radix_shift + int S" by (rule eq)
    show "mpb_norm a'" unfolding eq using v f by (cases a2 rule: rev_cases) (auto simp: mpb_norm_def nth_append list_update_append)
    show "is_int \<Longrightarrow> 2 + e + f * int radix_shift \<le> int S" unfolding S extra_def by simp
  qed (simp add: S extra_def l_def d_def)
qed

text \<open>\<open>m * 2 ^ e * (radix1 * 2 ^ radix_shift) ^ f\<close> as a fraction.\<close>

definition scaled_num :: "nat \<Rightarrow> int \<Rightarrow> nat \<Rightarrow> nat \<Rightarrow> int \<Rightarrow> nat" where
  "scaled_num m e radix1 radix_shift f = m * radix1 ^ nat f * 2 ^ nat (e + f * int radix_shift)"

definition scaled_den :: "int \<Rightarrow> nat \<Rightarrow> nat \<Rightarrow> int \<Rightarrow> nat" where
  "scaled_den e radix1 radix_shift f = radix1 ^ nat (- f) * 2 ^ nat (- (e + f * int radix_shift))"

lemma mul_pow_round_exact:
  assumes r: "odd radix1" "radix1 \<le> 35" and f: "0 \<le> f \<or> radix1 = 1"
  shows "limbs_val (mul_pow_round m e radix1 radix_shift f rnd_mode) =
    round_div rnd_mode (scaled_num (unat m) e radix1 radix_shift f) (scaled_den e radix1 radix_shift f)"
proof -
  obtain a eo where mp: "mul_pow (mpb_set_u64 m) radix1 radix_shift f True e = (a, eo)" by fastforce
  have r1: "1 \<le> radix1" using r(1) by (cases radix1) auto
  note v = mul_pow_exact [OF r(1) r1 r(2) f mpb_set_u64_norm mp]
  let ?p = "e + f * int radix_shift"
  have den: "scaled_den e radix1 radix_shift f = 2 ^ nat (- ?p)" using f by (auto simp: scaled_den_def)
  have "limbs_val (mul_pow_round m e radix1 radix_shift f rnd_mode) =
      (if 0 < - ?p then round_div rnd_mode (unat m * radix1 ^ nat f) (2 ^ nat (- ?p))
       else unat m * radix1 ^ nat f * 2 ^ nat ?p)"
  proof -
    have "- e + eo = - ?p" using v(2) by simp
    then have "mul_pow_round m e radix1 radix_shift f rnd_mode = mpb_shr_round a (- ?p) rnd_mode"
      unfolding mul_pow_round_def mp by (simp only: Let_def prod.case)
    then show ?thesis using mpb_shr_round_val [OF mpb_norm_not_Nil [OF v(3)], of "- ?p" rnd_mode] v(1)
      by (simp only: round_shr_div mpb_set_u64_val minus_minus)
  qed
  then show ?thesis unfolding den scaled_num_def by (cases "0 < - ?p") auto
qed

lemma round_div_shift:
  assumes "t \<le> int S"
  shows "round_div rnd_mode (v * 2 ^ S) (R * 2 ^ nat (int S - t)) = round_div rnd_mode (v * 2 ^ nat t) (R * 2 ^ nat (- t))"
proof -
  define k where "k = S - nat t"
  have k: "S = k + nat t" "nat (int S - t) = k + nat (- t)" using assms by (auto simp: k_def)
  have "v * 2 ^ S = 2 ^ k * (v * 2 ^ nat t)" unfolding k(1) power_add by (simp only: mult_ac)
  moreover have "R * 2 ^ nat (int S - t) = 2 ^ k * (R * 2 ^ nat (- t))" unfolding k(2) power_add by (simp only: mult_ac)
  ultimately show ?thesis by (simp only: round_div_scale zero_less_power zero_less_numeral)
qed

lemma mul_pow_round_inexact:
  assumes r: "odd radix1" "3 \<le> radix1" "radix1 \<le> 35" and f: "f < 0"
  shows "limbs_val (mul_pow_round m e radix1 radix_shift f rnd_mode) =
    round_div rnd_mode (scaled_num (unat m) e radix1 radix_shift f) (scaled_den e radix1 radix_shift f)"
proof -
  define p where "p = e + f * int radix_shift"
  define R where "R = radix1 ^ nat (- f)"
  have R: "0 < R" using r by (simp add: R_def)
  obtain a eo where mp: "mul_pow (mpb_set_u64 m) radix1 radix_shift f True e = (a, eo)" by fastforce
  obtain S where S: "limbs_val a = (let A = limbs_val (mpb_set_u64 m) * 2 ^ S; R = radix1 ^ nat (- f)
       in A div R OR (if A mod R \<noteq> 0 then 1 else 0))"
    and eo: "eo = - f * int radix_shift + int S" and ne: "mpb_norm a" and ge: "2 + e + f * int radix_shift \<le> int S"
    using mul_pow_inexact [OF r f _ mp] by (metis mpb_norm_not_Nil mpb_set_u64_norm)
  let ?s = "nat (int S - p)"
  have s: "2 \<le> ?s" "0 < - e + eo" "nat (- e + eo) = ?s" using ge eo by (simp_all add: p_def)
  have "limbs_val (mul_pow_round m e radix1 radix_shift f rnd_mode) = round_div rnd_mode (limbs_val a) (2 ^ ?s)"
    using mpb_shr_round_val [OF mpb_norm_not_Nil [OF ne]] mp s by (simp add: mul_pow_round_def round_shr_div)
  also have "\<dots> = round_div rnd_mode (unat m * 2 ^ S) (R * 2 ^ ?s)"
    using sticky_round [OF R s(1), of rnd_mode "unat m * 2 ^ S"] S by (simp add: R_def Let_def)
  also have "\<dots> = round_div rnd_mode (unat m * 2 ^ nat p) (R * 2 ^ nat (- p))"
    using s(1) by (intro round_div_shift) simp
  finally show ?thesis using f by (simp add: scaled_num_def scaled_den_def p_def [symmetric] R_def)
qed

section \<open>Rounding to a double\<close>

text \<open>\<open>v * 2 ^ - s\<close> rounded to an integer.\<close>

definition round_exp :: "rnd_mode \<Rightarrow> nat \<Rightarrow> int \<Rightarrow> nat" where
  "round_exp rnd_mode v s = round_div rnd_mode (v * 2 ^ nat (- s)) (2 ^ nat s)"

lemma mpb_shr_round_exp: "r \<noteq> [] \<Longrightarrow> limbs_val (mpb_shr_round r s rnd_mode) = round_exp rnd_mode (limbs_val r) s"
  by (auto simp: mpb_shr_round_val round_exp_def round_shr_div)

lemma round_div_bounds: "n div d \<le> round_div rnd_mode n d" "round_div rnd_mode n d \<le> n div d + 1"
  by (cases rnd_mode; simp add: round_div_def Let_def)+

lemma round_div_half: "2 * n < d \<Longrightarrow> round_div rnd_mode n d = 0"
  by (cases rnd_mode) (simp_all add: round_div_def Let_def)

text \<open>
  A number of \<open>k\<close> bits rounded to \<open>prec\<close> bits: between \<open>2 ^ (prec - 1)\<close> and \<open>2 ^ prec\<close> when \<open>prec\<close> is positive,
  at most 1 when it is 0 and 0 when it is negative.
\<close>

lemma round_exp_bits:
  assumes v: "0 < v" and k: "k = int (nat_bits v)"
  shows "1 \<le> prec \<Longrightarrow> 2 ^ nat (prec - 1) \<le> round_exp rnd_mode v (k - prec)"
    "0 \<le> prec \<Longrightarrow> round_exp rnd_mode v (k - prec) \<le> 2 ^ nat prec"
    "prec < 0 \<Longrightarrow> round_exp rnd_mode v (k - prec) = 0"
proof -
  have k1: "1 \<le> k" and lo: "2 ^ (nat k - 1) \<le> v" and hi: "v < 2 ^ nat k"
    using nat_bits_pos [OF v] nat_bits_lower [OF v] nat_bits_bound [of v] by (simp_all add: k)
  let ?n = "v * 2 ^ nat (prec - k)" and ?d = "(2 :: nat) ^ nat (k - prec)"
  have re: "round_exp rnd_mode v (k - prec) = round_div rnd_mode ?n ?d" by (simp add: round_exp_def)
  show "2 ^ nat (prec - 1) \<le> round_exp rnd_mode v (k - prec)" if p: "1 \<le> prec"
  proof -
    have "2 ^ nat (prec - 1) * ?d = 2 ^ (nat k - 1) * (2 :: nat) ^ nat (prec - k)"
      unfolding power_add [symmetric] using p k1 by (intro arg_cong [where f = "power 2"]) linarith
    also have "\<dots> \<le> ?n" using lo by simp
    finally have "2 ^ nat (prec - 1) \<le> ?n div ?d" by (simp add: less_eq_div_iff_mult_less_eq)
    then show ?thesis using round_div_bounds(1) [of ?n ?d] unfolding re by (rule le_trans)
  qed
  show "round_exp rnd_mode v (k - prec) \<le> 2 ^ nat prec" if p: "0 \<le> prec"
  proof -
    have "?n < 2 ^ nat k * 2 ^ nat (prec - k)" using hi by simp
    also have "\<dots> = 2 ^ nat prec * ?d"
      unfolding power_add [symmetric] using p k1 by (intro arg_cong [where f = "power 2"]) linarith
    finally have "?n div ?d < 2 ^ nat prec" by (simp add: less_mult_imp_div_less)
    then show ?thesis using round_div_bounds(2) [of rnd_mode ?n ?d] unfolding re by linarith
  qed
  show "round_exp rnd_mode v (k - prec) = 0" if p: "prec < 0"
  proof -
    have "2 * v < 2 * 2 ^ nat k" using hi by simp
    also have "2 * 2 ^ nat k \<le> ?d" unfolding power_Suc [symmetric] using p k1 by (intro power_increasing) auto
    finally show ?thesis using p k1 unfolding re by (intro round_div_half) simp
  qed
qed

text \<open>The exponent of the last place of a double in the binade \<open>2 ^ (e - 1) .. 2 ^ e\<close>, subnormals included.\<close>

definition double_ulp :: "int \<Rightarrow> int" where
  "double_ulp e = max e (- 1021) - 53"

lemma push_bit_fits: "unat (m :: u64) * 2 ^ s < 2 ^ 64 \<Longrightarrow> unat (push_bit s m) = unat m * 2 ^ s"
  unfolding unsigned_push_bit_eq by (simp add: push_bit_eq_mult take_bit_eq_mod)

lemma round_scaled_bounds:
  fixes R :: nat
  assumes "1 \<le> prec \<Longrightarrow> 2 ^ nat (prec - 1) \<le> R" "0 \<le> prec \<Longrightarrow> R \<le> 2 ^ nat prec" "prec < 0 \<Longrightarrow> R = 0" "prec \<le> 53"
  shows "R * 2 ^ nat (53 - prec) \<le> 2 ^ 53 \<and> (R * 2 ^ nat (53 - prec) = 0 \<or> 2 ^ 52 \<le> R * 2 ^ nat (53 - prec))"
proof -
  let ?P = "(2 :: nat) ^ nat (53 - prec)"
  have pow: "(2 :: nat) ^ nat prec * ?P = 2 ^ 53" if "0 \<le> prec"
    unfolding power_add [symmetric] using that assms(4) by (intro arg_cong [where f = "power 2"]) linarith
  consider "prec < 0" | "prec = 0" | "1 \<le> prec" by linarith
  then show ?thesis
  proof cases
    case 2
    then have "R = 0 \<or> R = 1" using assms(2) by auto
    then show ?thesis using pow 2 by auto
  next
    case 3
    have "(2 :: nat) ^ nat (prec - 1) * ?P = 2 ^ 52"
      unfolding power_add [symmetric] using 3 assms(4) by (intro arg_cong [where f = "power 2"]) linarith
    then show ?thesis using pow 3 mult_le_mono1 [OF assms(1), of ?P] mult_le_mono1 [OF assms(2), of ?P] by simp
  qed (use assms(3) in simp)
qed

lemma round_to_d_val:
  assumes n: "mpb_norm a" and v: "0 < limbs_val a" and res: "round_to_d a e_offset rnd_mode = (m, e)"
    and E: "E = int (nat_bits (limbs_val a)) - e_offset"
  shows "m = 0 \<or> 2 ^ 52 \<le> unat m \<and> unat m < 2 ^ 53"
    and "real (unat m) * 2 powi (e - 53) =
         real (round_exp rnd_mode (limbs_val a) (e_offset + double_ulp E)) * 2 powi double_ulp E"
proof -
  define k where "k = int (nat_bits (limbs_val a))"
  define prec where "prec = (if E < - 1021 then 53 - (- 1021 - E) else 53)"
  have prec: "prec \<le> 53" "double_ulp E = E - prec" by (simp_all add: prec_def double_ulp_def)
  have nz: "\<not> (a ! 0 = 0 \<and> length a = 1)" using v by (cases a) auto
  have log: "mpb_floor_log2 a + 1 - e_offset = E" using mpb_floor_log2_val [OF n] E by simp
  define b where "b = mpb_shr_round a (k - prec) rnd_mode"
  have norm: "mpb_norm b" unfolding b_def using n v by (intro mpb_shr_round_norm) auto
  define R where "R = round_exp rnd_mode (limbs_val a) (k - prec)"
  have val: "limbs_val b = R" using mpb_shr_round_exp n by (simp add: b_def R_def)
  note bits = round_exp_bits [OF v k_def, where rnd_mode = rnd_mode and prec = prec, folded R_def]
  have R: "R \<le> 2 ^ 53"
  proof (cases "0 \<le> prec")
    case True
    have "(2 :: nat) ^ nat prec \<le> 2 ^ 53" using prec(1) by (intro power_increasing) auto
    then show ?thesis using bits(2) [OF True] by linarith
  next
    case False
    then show ?thesis using bits(3) by simp
  qed
  have get: "unat (mpb_get_u64 b) = R"
  proof -
    have "limbs_val b < 2 ^ 64" using R val by simp
    then show ?thesis using mpb_get_u64_val [of b] mpb_norm_two_limbs [OF norm] norm val by simp
  qed
  have Rs: "R * 2 ^ nat (53 - prec) \<le> 2 ^ 53" "R * 2 ^ nat (53 - prec) = 0 \<or> 2 ^ 52 \<le> R * 2 ^ nat (53 - prec)"
    using round_scaled_bounds [OF bits prec(1)] by auto
  define w where "w = push_bit (nat (53 - prec)) (mpb_get_u64 b)"
  have w: "unat w = R * 2 ^ nat (53 - prec)" unfolding w_def using push_bit_fits [of "mpb_get_u64 b"] get Rs by simp
  have eq: "(m, e) = (if w \<ge> push_bit 53 1 then (drop_bit 1 w, E + 1) else (w, E))"
  proof -
    have "k = E + e_offset" using E by (simp add: k_def)
    then have "round_to_d a e_offset rnd_mode = (if w \<ge> push_bit 53 1 then (drop_bit 1 w, E + 1) else (w, E))"
      unfolding round_to_d_def Let_def log w_def b_def prec_def by (simp only: nz if_False)
    then show ?thesis using res by simp
  qed
  have ulp: "real R * 2 powi (E - prec) = real (unat w) * 2 powi (E - 53)"
  proof -
    have "(2 :: real) powi (E - prec) = 2 powi int (nat (53 - prec)) * 2 powi (E - 53)"
      unfolding power_int_add [symmetric, of "2 :: real", simplified] using prec(1) by simp
    then have "(2 :: real) powi (E - prec) = 2 ^ nat (53 - prec) * 2 powi (E - 53)" by (simp only: power_int_of_nat)
    then show ?thesis using w by simp
  qed
  have "real (unat m) * 2 powi (e - 53) = real (unat w) * 2 powi (E - 53) \<and>
      (m = 0 \<or> 2 ^ 52 \<le> unat m \<and> unat m < 2 ^ 53)"
  proof (cases "w \<ge> push_bit 53 1")
    case True
    then have top: "unat w = 2 ^ 53" using w Rs(1) by (simp add: word_le_nat_alt)
    have "unat (drop_bit 1 w) = unat w div 2" by (simp only: unat_drop_bit_eq) (simp add: drop_bit_eq_div)
    then have m: "unat m = 2 ^ 52" "e = E + 1" using eq True top by simp_all
    have "(2 :: real) powi (e - 53) = 2 powi 1 * 2 powi (E - 53)"
      unfolding m(2) power_int_add [symmetric, of "2 :: real", simplified] by simp
    then show ?thesis using m top by simp
  next
    case False
    then have "m = w" "e = E" "unat w < 2 ^ 53" using eq by (simp_all add: word_le_nat_alt)
    then show ?thesis using Rs(2) w by (auto simp: unat_eq_zero)
  qed
  then show "m = 0 \<or> 2 ^ 52 \<le> unat m \<and> unat m < 2 ^ 53"
    and "real (unat m) * 2 powi (e - 53) =
         real (round_exp rnd_mode (limbs_val a) (e_offset + double_ulp E)) * 2 powi double_ulp E"
    using ulp prec(2) E by (simp_all add: R_def k_def)
qed

text \<open>
  \<open>x = N / D * 2 ^ p\<close> with \<open>N, D > 0\<close>, rounded to the nearest multiple of the unit in the last place of its
  binade.  \<open>binade N D p\<close> is the exponent \<open>E\<close> with \<open>2 ^ (E - 1) \<le> x < 2 ^ E\<close>.
\<close>

definition in_binade :: "nat \<Rightarrow> nat \<Rightarrow> int \<Rightarrow> int \<Rightarrow> bool" where
  "in_binade N D p E \<longleftrightarrow> 2 powi (E - 1) \<le> real N / real D * 2 powi p \<and> real N / real D * 2 powi p < 2 powi E"

definition round_double :: "rnd_mode \<Rightarrow> nat \<Rightarrow> nat \<Rightarrow> int \<Rightarrow> int \<Rightarrow> real" where
  "round_double rnd_mode N D p E =
     (let q = double_ulp E
      in real (round_div rnd_mode (N * 2 ^ nat (p - q)) (D * 2 ^ nat (q - p))) * 2 powi q)"

lemma in_binade_nat_bits:
  assumes "0 < v"
  shows "in_binade v 1 (- eo) (int (nat_bits v) - eo)"
proof -
  have lo: "2 ^ (nat_bits v - 1) \<le> v" and hi: "v < 2 ^ nat_bits v" and pos: "0 < nat_bits v"
    using assms nat_bits_lower nat_bits_bound nat_bits_pos by auto
  have "real (2 ^ (nat_bits v - 1)) \<le> real v" "real v < real (2 ^ nat_bits v)" using lo hi by (simp_all only: of_nat_le_iff of_nat_less_iff)
  then have "2 powi int (nat_bits v - 1) * 2 powi (- eo) \<le> real v * 2 powi (- eo)"
    "real v * 2 powi (- eo) < 2 powi int (nat_bits v) * 2 powi (- eo)"
    by (simp_all add: mult_right_mono)
  then show ?thesis unfolding in_binade_def power_int_add [symmetric, of "2 :: real", simplified]
    using pos by (simp add: of_nat_diff algebra_simps)
qed

lemma round_double_1: "round_double rnd_mode v 1 (- eo) E = real (round_exp rnd_mode v (eo + double_ulp E)) * 2 powi double_ulp E"
  by (simp add: round_double_def round_exp_def Let_def algebra_simps)

lemma nat_bits_sticky: "0 < q \<Longrightarrow> nat_bits (q OR (if c then 1 else 0)) = nat_bits q"
proof -
  assume q: "0 < q"
  have "nat_bits (q + 1) = nat_bits q" if "even q"
    using that q by (subst (1 2) nat_bits.simps) simp
  then show ?thesis by (simp add: or_sticky)
qed

lemma radix_power_bound:
  assumes "r ^ d < 2 ^ 32" "0 < d" "0 < (r :: nat)"
  shows "r ^ f \<le> 2 ^ (32 * ((f + d - 1) div d))"
proof -
  let ?l = "(f + d - 1) div d"
  have "f \<le> d * ?l"
    using mult_div_mod_eq [of d "f + d - 1"] mod_less_divisor [OF assms(2), of "f + d - 1"] assms(2) by linarith
  then have "r ^ f \<le> r ^ (d * ?l)" using assms(3) by (intro power_increasing) auto
  also have "\<dots> \<le> (2 ^ 32) ^ ?l" unfolding power_mult using assms(1) by (intro power_mono) auto
  finally show ?thesis by (simp only: power_mult)
qed

lemma mul_pow_round_to_d_exact:
  assumes r: "odd radix1" "radix1 \<le> 35" and f: "0 \<le> f \<or> radix1 = 1" and n: "mpb_norm a" and v: "0 < limbs_val a"
    and res: "mul_pow_round_to_d a radix1 radix_shift f rnd_mode = (m, e)"
  shows "\<exists>E. in_binade (limbs_val a * radix1 ^ nat f) (radix1 ^ nat (- f)) (f * int radix_shift) E \<and>
    (m = 0 \<or> 2 ^ 52 \<le> unat m \<and> unat m < 2 ^ 53) \<and>
    real (unat m) * 2 powi (e - 53) =
      round_double rnd_mode (limbs_val a * radix1 ^ nat f) (radix1 ^ nat (- f)) (f * int radix_shift) E"
proof -
  obtain b eo where mp: "mul_pow a radix1 radix_shift f False 55 = (b, eo)" by fastforce
  have r1: "1 \<le> radix1" using r(1) by (cases radix1) auto
  note b = mul_pow_exact [OF r(1) r1 r(2) f n mp]
  have rd: "round_to_d b eo rnd_mode = (m, e)" using res mp by (simp add: mul_pow_round_to_d_def)
  have pos: "0 < limbs_val b" using b(1) v r1 by simp
  have den: "radix1 ^ nat (- f) = 1" "f * int radix_shift = - eo" using f b(2) by auto
  show ?thesis
    using round_to_d_val [OF b(3) pos rd refl] in_binade_nat_bits [OF pos, of eo]
    unfolding den b(1) [symmetric] round_double_1 by blast
qed

text \<open>The truncated quotient of \<open>mul_pow\<close> lies in the binade of the exact fraction.\<close>

lemma in_binade_quotient:
  assumes R: "0 < R" and Q: "0 < v * 2 ^ S div R" and E: "E = int (nat_bits (v * 2 ^ S div R)) - (int S - p)"
  shows "in_binade v R p E"
proof -
  define q where "q = v * 2 ^ S div R"
  have lo: "2 ^ (nat_bits q - 1) \<le> q" and hi: "q + 1 \<le> 2 ^ nat_bits q" and pos: "0 < nat_bits q"
    using Q nat_bits_lower [of q] nat_bits_bound [of q] nat_bits_pos [of q] by (auto simp: q_def)
  have "R * q \<le> v * 2 ^ S" "v * 2 ^ S < R * (q + 1)"
    using times_div_less_eq_dividend [of R "v * 2 ^ S"] dividend_less_times_div [OF R, of "v * 2 ^ S"] by (simp_all add: q_def)
  then have "R * 2 ^ (nat_bits q - 1) \<le> v * 2 ^ S" "v * 2 ^ S < R * 2 ^ nat_bits q"
    using mult_le_mono2 [OF lo, of R] mult_le_mono2 [OF hi, of R] by linarith+
  then have "real (R * 2 ^ (nat_bits q - 1)) \<le> real (v * 2 ^ S)" "real (v * 2 ^ S) < real (R * 2 ^ nat_bits q)"
    by (simp_all only: of_nat_le_iff of_nat_less_iff)
  then have *: "2 powi (int (nat_bits q) - 1) \<le> real v / real R * 2 powi int S" "real v / real R * 2 powi int S < 2 powi int (nat_bits q)"
    using R pos by (simp_all add: field_simps power_int_diff flip: power_int_of_nat)
  have pS: "2 powi p = 2 powi int S * (2 :: real) powi (p - int S)" "2 powi (E - 1) = 2 powi (int (nat_bits q) - 1) * (2 :: real) powi (p - int S)"
    "2 powi E = 2 powi int (nat_bits q) * (2 :: real) powi (p - int S)"
    unfolding power_int_add [symmetric, of "2 :: real", simplified] E by (simp_all add: q_def algebra_simps)
  show ?thesis unfolding in_binade_def pS mult.assoc [symmetric]
    using mult_right_mono [OF *(1), of "2 powi (p - int S)"] mult_strict_right_mono [OF *(2), of "2 powi (p - int S)"]
    by simp
qed

lemma mul_pow_quotient_bits:
  assumes r: "odd radix1" "3 \<le> radix1" "radix1 \<le> 35" and n: "mpb_norm a" and v: "0 < limbs_val a"
    and S: "55 - mpb_floor_log2 a + 32 * int ((F + digits_per_limb_table ! (radix1 - 2) - 1) div digits_per_limb_table ! (radix1 - 2)) \<le> int S"
  shows "55 \<le> nat_bits (limbs_val a * 2 ^ S div radix1 ^ F)"
proof -
  let ?l = "(F + digits_per_limb_table ! (radix1 - 2) - 1) div digits_per_limb_table ! (radix1 - 2)"
  note fits = digits_per_limb_fits [OF r]
  have R: "radix1 ^ F \<le> 2 ^ (32 * ?l)" using r by (intro radix_power_bound [OF fits(2,1)]) simp
  let ?b = "nat_bits (limbs_val a)"
  have b: "0 < ?b" "2 ^ (?b - 1) \<le> limbs_val a" using v nat_bits_pos nat_bits_lower by blast+
  have "55 + 32 * ?l \<le> ?b - 1 + S" using S b(1) mpb_floor_log2_val [OF n] by linarith
  then have "(2 :: nat) ^ (55 + 32 * ?l) \<le> 2 ^ (?b - 1 + S)" by (rule power_increasing) simp
  also have "\<dots> \<le> limbs_val a * 2 ^ S" unfolding power_add using b(2) by (rule mult_le_mono1)
  finally have "2 ^ 55 * 2 ^ (32 * ?l) \<le> limbs_val a * 2 ^ S" by (simp only: power_add)
  then have "2 ^ 55 * radix1 ^ F \<le> limbs_val a * 2 ^ S" using mult_le_mono2 [OF R, of "2 ^ 55"] by linarith
  then have "2 ^ 55 \<le> limbs_val a * 2 ^ S div radix1 ^ F" using r by (simp add: less_eq_div_iff_mult_less_eq)
  then have "\<not> nat_bits (limbs_val a * 2 ^ S div radix1 ^ F) \<le> 55" unfolding nat_bits_le_iff by linarith
  then show ?thesis by simp
qed

lemma mul_pow_round_to_d_inexact:
  assumes r: "odd radix1" "3 \<le> radix1" "radix1 \<le> 35" and f: "f < 0" and n: "mpb_norm a" and v: "0 < limbs_val a"
    and res: "mul_pow_round_to_d a radix1 radix_shift f rnd_mode = (m, e)"
  shows "\<exists>E. in_binade (limbs_val a * radix1 ^ nat f) (radix1 ^ nat (- f)) (f * int radix_shift) E \<and>
    (m = 0 \<or> 2 ^ 52 \<le> unat m \<and> unat m < 2 ^ 53) \<and>
    real (unat m) * 2 powi (e - 53) =
      round_double rnd_mode (limbs_val a * radix1 ^ nat f) (radix1 ^ nat (- f)) (f * int radix_shift) E"
proof -
  obtain b eo where mp: "mul_pow a radix1 radix_shift f False 55 = (b, eo)" by fastforce
  define R p where "R = radix1 ^ nat (- f)" and "p = f * int radix_shift"
  have R: "0 < R" using r by (simp add: R_def)
  obtain S where b: "limbs_val b = (let A = limbs_val a * 2 ^ S; R = radix1 ^ nat (- f) in A div R OR (if A mod R \<noteq> 0 then 1 else 0))"
    and eo: "eo = - f * int radix_shift + int S" and nb: "mpb_norm b"
    and S: "55 - mpb_floor_log2 a + 32 * int ((nat (- f) + digits_per_limb_table ! (radix1 - 2) - 1) div digits_per_limb_table ! (radix1 - 2)) \<le> int S"
    using mul_pow_inexact [OF r f mpb_norm_not_Nil [OF n] mp] by metis
  define A Q where "A = limbs_val a * 2 ^ S" and "Q = A div R"
  have bits: "55 \<le> nat_bits Q" using mul_pow_quotient_bits [OF r n v S] by (simp add: Q_def A_def R_def)
  then have Q: "0 < Q" by (cases Q) auto
  have vb: "limbs_val b = Q OR (if A mod R \<noteq> 0 then 1 else 0)" using b by (simp add: Q_def A_def R_def Let_def)
  have nbits: "nat_bits (limbs_val b) = nat_bits Q" unfolding vb by (rule nat_bits_sticky [OF Q])
  have pos: "0 < limbs_val b" unfolding vb or_sticky using Q by simp
  define E where "E = int (nat_bits Q) - eo"
  have rd: "round_to_d b eo rnd_mode = (m, e)" using res mp by (simp add: mul_pow_round_to_d_def)
  have eo': "eo = int S - p" using eo by (simp add: p_def)
  have bin: "in_binade (limbs_val a) R p E" using Q by (intro in_binade_quotient [OF R]) (simp_all add: Q_def A_def E_def eo')
  let ?s = "nat (eo + double_ulp E)"
  have s: "2 \<le> ?s" using bits by (simp add: double_ulp_def E_def)
  have "round_exp rnd_mode (limbs_val b) (eo + double_ulp E) = round_div rnd_mode (limbs_val b) (2 ^ ?s)"
    using s by (simp add: round_exp_def)
  also have "\<dots> = round_div rnd_mode A (R * 2 ^ ?s)" unfolding vb Q_def by (rule sticky_round [OF R s])
  also have "?s = nat (int S - (p - double_ulp E))" by (simp add: eo')
  also have "round_div rnd_mode A (R * 2 ^ nat (int S - (p - double_ulp E))) =
      round_div rnd_mode (limbs_val a * 2 ^ nat (p - double_ulp E)) (R * 2 ^ nat (- (p - double_ulp E)))"
    unfolding A_def using s by (intro round_div_shift) (simp add: eo')
  finally have "real (round_exp rnd_mode (limbs_val b) (eo + double_ulp E)) * 2 powi double_ulp E = round_double rnd_mode (limbs_val a) R p E"
    by (simp add: round_double_def Let_def)
  then show ?thesis
    using round_to_d_val [OF nb pos rd, of E] bin f nbits by (auto simp: E_def R_def p_def)
qed

lemma mul_pow_round_to_d_val:
  assumes "odd radix1" "radix1 \<le> 35" "mpb_norm a" "0 < limbs_val a"
  shows "case mul_pow_round_to_d a radix1 radix_shift f rnd_mode of (m, e) \<Rightarrow>
    \<exists>E. in_binade (limbs_val a * radix1 ^ nat f) (radix1 ^ nat (- f)) (f * int radix_shift) E \<and>
      (m = 0 \<or> 2 ^ 52 \<le> unat m \<and> unat m < 2 ^ 53) \<and>
      real (unat m) * 2 powi (e - 53) =
        round_double rnd_mode (limbs_val a * radix1 ^ nat f) (radix1 ^ nat (- f)) (f * int radix_shift) E"
proof -
  obtain m e where res: "mul_pow_round_to_d a radix1 radix_shift f rnd_mode = (m, e)" by fastforce
  show ?thesis
  proof (cases "0 \<le> f \<or> radix1 = 1")
    case True
    then show ?thesis using mul_pow_round_to_d_exact [OF assms(1,2) True assms(3,4) res] res by simp
  next
    case False
    then have "3 \<le> radix1" "f < 0" using assms(1) by presburger+
    then show ?thesis using mul_pow_round_to_d_inexact [OF assms(1) _ assms(2) _ assms(3,4) res] res by simp
  qed
qed

section \<open>Properties\<close>

lemma replicate_numeral_exec: "replicate (numeral k) x = x # replicate (pred_numeral k) x"
  by (simp add: numeral_eq_Suc)

lemma mpb_renorm_exec:
  "mpb_renorm [x] = [x]"
  "mpb_renorm [x, y] = (if y = 0 then [x] else [x, y])"
  "mpb_renorm [x, y, z] = (if z = 0 then mpb_renorm [x, y] else [x, y, z])"
  "mpb_renorm [x, y, z, w] = (if w = 0 then mpb_renorm [x, y, z] else [x, y, z, w])"
  by (simp_all add: mpb_renorm.simps)

lemmas mpb_exec = mpb_shr_round_def mpb_shl_def mpb_shr_add_def mpb_add_one_def mpb_get_bit_def mpb_sticky_def
  mpb_floor_log2_def mpb_get_u64_def mpb_set_u64_def mpb_renorm_exec clz32_def nat_bits_numeral mp_shr_def
  replicate_numeral_exec

text \<open>Scaling to an integer is correctly rounded: for every 64-bit \<open>m\<close>, every exponents \<open>e\<close> and \<open>f\<close> and every
  odd part \<open>radix1\<close> of a radix up to 36, \<open>mul_pow_round\<close> returns the exact value
  \<open>m * 2 ^ e * (radix1 * 2 ^ radix_shift) ^ f\<close> rounded to an integer in the given mode.\<close>

theorem mul_pow_round_correct:
  assumes "odd radix1" "radix1 \<le> 35"
  shows "limbs_val (mul_pow_round m e radix1 radix_shift f rnd_mode) =
    round_div rnd_mode (scaled_num (unat m) e radix1 radix_shift f) (scaled_den e radix1 radix_shift f)"
proof (cases "0 \<le> f \<or> radix1 = 1")
  case True
  then show ?thesis by (rule mul_pow_round_exact [OF assms])
next
  case False
  then have "3 \<le> radix1" using assms(1) by presburger
  then show ?thesis using False assms by (intro mul_pow_round_inexact) auto
qed

text \<open>Scaling to a double is correctly rounded: for a positive number \<open>a\<close> the mantissa \<open>m\<close> and the exponent
  \<open>e\<close> that \<open>mul_pow_round_to_d\<close> returns satisfy \<open>m * 2 ^ (e - 53) = round (a * radix ^ f)\<close>, where the
  exact value is rounded in the given mode to a multiple of the unit in the last place of the
  doubles around it (subnormal ones included), and \<open>m\<close> is 0 or has exactly 53 bits.\<close>

theorem mul_pow_round_to_d_correct:
  assumes "odd radix1" "radix1 \<le> 35" "mpb_norm a" "0 < limbs_val a"
  shows "case mul_pow_round_to_d a radix1 radix_shift f rnd_mode of (m, e) \<Rightarrow>
    \<exists>E. in_binade (limbs_val a * radix1 ^ nat f) (radix1 ^ nat (- f)) (f * int radix_shift) E \<and>
      (m = 0 \<or> 2 ^ 52 \<le> unat m \<and> unat m < 2 ^ 53) \<and>
      real (unat m) * 2 powi (e - 53) =
        round_double rnd_mode (limbs_val a * radix1 ^ nat f) (radix1 ^ nat (- f)) (f * int radix_shift) E"
  by (rule mul_pow_round_to_d_val [OF assms])

end
