(* ===== verification/Dtoa_Print.thy ===== *)
theory Dtoa_Print
  imports Dtoa_Scale
begin

text \<open>
  Printing numbers, \<^verbatim>\<open>plugins/ts_host/quickjs/dtoa.c\<close> lines 531 to 748, 843 to 888 and 1033 to 1317.  A
  routine that writes characters at \<open>buf\<close> and returns their count returns the list of the characters
  written.  A \<open>double\<close> is the 64-bit word \<open>float64_as_uint64\<close> reads.
\<close>

section \<open>Integers\<close>

definition digit_char :: "nat \<Rightarrow> char" where
  "digit_char digit = char_of (if digit < 10 then digit + 48 else digit + 97 - 10)"

text \<open>The loop writes \<open>buf[i]\<close> from \<open>i = len - 1\<close> down to \<open>0\<close>.\<close>

fun u32toa_len :: "u32 \<Rightarrow> nat \<Rightarrow> string" where
  "u32toa_len n 0 = []"
| "u32toa_len n (Suc i) = (let digit = n mod 10; n = n div 10 in u32toa_len n i @ [char_of (unat digit + 48)])"

fun u64toa_bin_len :: "u64 \<Rightarrow> nat \<Rightarrow> nat \<Rightarrow> string" where
  "u64toa_bin_len n radix_bits 0 = []"
| "u64toa_bin_len n radix_bits (Suc i) =
     (let digit = n AND (push_bit radix_bits 1 - 1); n = drop_bit radix_bits n
      in u64toa_bin_len n radix_bits i @ [digit_char (unat digit)])"

fun limb_to_a_loop :: "limb \<Rightarrow> u32 \<Rightarrow> nat \<Rightarrow> string" where
  "limb_to_a_loop n radix 0 = []"
| "limb_to_a_loop n radix (Suc i) =
     (let digit = n mod radix; n = n div radix in limb_to_a_loop n radix i @ [digit_char (unat digit)])"

definition limb_to_a :: "limb \<Rightarrow> nat \<Rightarrow> nat \<Rightarrow> string" where
  "limb_to_a n radix len = (if radix = 10 then u32toa_len n len else limb_to_a_loop n (of_nat radix) len)"

text \<open>\<open>acc\<close> is the part of \<open>buf1\<close> from \<open>q\<close> on.\<close>

function u32toa_loop :: "u32 \<Rightarrow> string \<Rightarrow> string" where
  "u32toa_loop n acc =
     (let acc = char_of (unat (n mod 10) + 48) # acc; n = n div 10
      in if n \<noteq> 0 then u32toa_loop n acc else acc)"
  by pat_completeness auto
termination
proof (relation "measure (\<lambda>(n, acc). unat n)", goal_cases)
  case (2 n acc acc' n')
  then have "n \<noteq> 0" by auto
  then have "0 < unat n" using unat_gt_0 by blast
  then show ?case using 2 by (simp add: unat_div)
qed simp

declare u32toa_loop.simps [simp del]

definition u32toa :: "u32 \<Rightarrow> string" where
  "u32toa n = u32toa_loop n []"

definition i32toa :: "u32 \<Rightarrow> string" where
  "i32toa n = (if sint n \<ge> 0 then u32toa n else CHR ''-'' # u32toa (- n))"

definition u64toa :: "u64 \<Rightarrow> string" where
  "u64toa n =
     (if n < 0x100000000 then u32toa (ucast n)
      else let n1 = n div 1000000000; n = n mod 1000000000
           in (if n1 \<ge> 0x100000000
               then let n2 = ucast (n1 div 1000000000) :: u32; n1 = n1 mod 1000000000
                    in (if n2 \<ge> 10 then [char_of (unat (n2 div 10) + 48), char_of (unat (n2 mod 10) + 48)]
                        else [char_of (unat n2 + 48)]) @ u32toa_len (ucast n1) 9
               else u32toa (ucast n1)) @ u32toa_len (ucast n) 9)"

definition i64toa :: "u64 \<Rightarrow> string" where
  "i64toa n = (if sint n \<ge> 0 then u64toa n else CHR ''-'' # u64toa (- n))"

function u64toa_radix_loop :: "u64 \<Rightarrow> u64 \<Rightarrow> string \<Rightarrow> string" where
  "u64toa_radix_loop n radix acc =
     (let acc = digit_char (unat (n mod radix)) # acc; n' = n div radix
      in if n' \<noteq> 0 \<and> radix \<ge> 2 then u64toa_radix_loop n' radix acc else acc)"
  by pat_completeness auto
termination
proof (relation "measure (\<lambda>(n, radix, acc). unat n)", goal_cases)
  case (2 n radix acc acc' n')
  then have "n \<noteq> 0" by auto
  then have "0 < unat n" using unat_gt_0 by blast
  moreover have "2 \<le> unat radix" using 2 by (simp add: word_le_nat_alt)
  ultimately show ?case using 2 by (simp add: unat_div)
qed simp

declare u64toa_radix_loop.simps [simp del]

definition u64toa_radix :: "u64 \<Rightarrow> nat \<Rightarrow> string" where
  "u64toa_radix n radix =
     (if radix = 10 then u64toa n
      else if is_pow2 radix
      then (let radix_bits = 31 - clz32 (of_nat radix);
                l = (if n = 0 then 1 else (64 - clz64 n + radix_bits - 1) div radix_bits)
            in u64toa_bin_len n radix_bits l)
      else u64toa_radix_loop n (of_nat radix) [])"

definition i64toa_radix :: "u64 \<Rightarrow> nat \<Rightarrow> string" where
  "i64toa_radix n radix = (if sint n \<ge> 0 then u64toa_radix n radix else CHR ''-'' # u64toa_radix (- n) radix)"

section \<open>Tables\<close>

definition dtoa_max_digits_table :: "nat list" where
  "dtoa_max_digits_table =
    [54, 35, 28, 24, 22, 20, 19, 18, 17, 17, 16, 16, 15, 15, 15, 14, 14, 14, 14, 14, 13, 13, 13, 13, 13, 13, 13,
     12, 12, 12, 12, 12, 12, 12, 12]"

section \<open>The digits of a large number\<close>

text \<open>
  Both loops fill \<open>buf\<close> from its end.  \<open>digits_per_limb\<close> is an entry of its table, all of which are
  positive; for 0 the loops stop at once.
\<close>

function output_bin :: "mpb \<Rightarrow> nat \<Rightarrow> nat \<Rightarrow> nat \<Rightarrow> string" where
  "output_bin a radix_bits digits_per_limb n_digits =
     (let n = min n_digits digits_per_limb; n_digits' = n_digits - n;
          s = u64toa_bin_len (ucast (a ! 0)) radix_bits n
      in if n_digits' = 0 \<or> digits_per_limb = 0 then s
         else output_bin (mpb_shr_round a (int (digits_per_limb * radix_bits)) JS_RNDZ) radix_bits digits_per_limb n_digits' @ s)"
  by pat_completeness auto
termination by (relation "measure (\<lambda>(a, radix_bits, digits_per_limb, n_digits). n_digits)") auto

declare output_bin.simps [simp del]

function output_radix :: "mpb \<Rightarrow> nat \<Rightarrow> nat \<Rightarrow> nat \<Rightarrow> string" where
  "output_radix a radix digits_per_limb n_digits =
     (if n_digits = 0 \<or> digits_per_limb = 0 then []
      else let n = min n_digits digits_per_limb; n_digits = n_digits - n;
               (tab, r) = mp_div1 a (radix_base_table ! (radix - 2)) 0
           in output_radix (mpb_renorm tab) radix digits_per_limb n_digits @ limb_to_a r radix n)"
  by pat_completeness auto
termination by (relation "measure (\<lambda>(a, radix, digits_per_limb, n_digits). n_digits)") auto

declare output_radix.simps [simp del]

definition output_digits :: "mpb \<Rightarrow> nat \<Rightarrow> nat \<Rightarrow> nat \<Rightarrow> string" where
  "output_digits a radix n_digits1 dot_pos =
     (let radix_bits = (if is_pow2 radix then 31 - clz32 (of_nat radix) else 0);
          digits_per_limb = digits_per_limb_table ! (radix - 2);
          buf = (if radix_bits \<noteq> 0 then output_bin a radix_bits digits_per_limb n_digits1
                 else output_radix a radix digits_per_limb n_digits1)
      in if dot_pos \<noteq> n_digits1 then take dot_pos buf @ CHR ''.'' # drop dot_pos buf else buf)"

section \<open>Doubles\<close>

text \<open>The \<open>flags\<close> word: bits 0 and 1 select the format, bits 2 and 3 the exponent notation, bit 4 shows the sign of \<open>-0\<close>.\<close>

abbreviation (input) "JS_DTOA_FORMAT_FREE \<equiv> (0 :: nat)"
abbreviation (input) "JS_DTOA_FORMAT_FIXED \<equiv> (1 :: nat)"
abbreviation (input) "JS_DTOA_FORMAT_FRAC \<equiv> (2 :: nat)"
abbreviation (input) "JS_DTOA_FORMAT_MASK \<equiv> (3 :: nat)"
abbreviation (input) "JS_DTOA_EXP_AUTO \<equiv> (0 :: nat)"
abbreviation (input) "JS_DTOA_EXP_ENABLED \<equiv> (4 :: nat)"
abbreviation (input) "JS_DTOA_EXP_DISABLED \<equiv> (8 :: nat)"
abbreviation (input) "JS_DTOA_EXP_MASK \<equiv> (12 :: nat)"
abbreviation (input) "JS_DTOA_MINUS_ZERO \<equiv> (16 :: nat)"
abbreviation (input) "JS_DTOA_MAX_DIGITS \<equiv> (101 :: int)"

definition biased_exp :: "u64 \<Rightarrow> int" where
  "biased_exp a = uint (drop_bit 52 a AND 0x7ff)"

definition js_dtoa_max_len :: "u64 \<Rightarrow> nat \<Rightarrow> int \<Rightarrow> nat \<Rightarrow> int" where
  "js_dtoa_max_len d radix n_digits flags =
     (let fmt = flags AND JS_DTOA_FORMAT_MASK;
          n = (if fmt \<noteq> JS_DTOA_FORMAT_FRAC
               then let n = (if fmt = JS_DTOA_FORMAT_FREE then int (dtoa_max_digits_table ! (radix - 2)) else n_digits)
                    in if flags AND JS_DTOA_EXP_MASK = JS_DTOA_EXP_DISABLED
                       then let e = biased_exp d
                            in if e = 0x7ff then 0
                               else n + (10 + \<bar>mul_log2_radix (e - 1023 - 1) radix\<bar>)
                       else n + (1 + 1 + 6)
               else let e = biased_exp d
                    in if e = 0x7ff then 0
                       else let e = e - 1023;
                                n = (if e < 0 then 1 else 2 + mul_log2_radix (e - 1) radix)
                            in n + (1 + 1 + 1 + n_digits))
      in max n 9)"

text \<open>
  The loops of the free and the fixed format.  Nothing in the code bounds them, so a loop that does not
  end is \<open>None\<close>.
\<close>

partial_function (option) find_mant ::
    "u64 \<Rightarrow> int \<Rightarrow> nat \<Rightarrow> nat \<Rightarrow> int \<Rightarrow> u64 \<Rightarrow> int \<Rightarrow> (u64 \<times> int) option" where
  "find_mant m e radix1 radix_shift P mant_max1 E =
     (let mant = mpb_get_u64 (mul_pow_round m (e - 53) radix1 radix_shift (P - E) JS_RNDN)
      in if mant < mant_max1 then Some (mant, E)
         else find_mant m e radix1 radix_shift P mant_max1 (E + 1))"

partial_function (option) strip_zeros :: "u64 \<Rightarrow> u64 \<Rightarrow> int \<Rightarrow> (u64 \<times> int) option" where
  "strip_zeros radix mant P =
     (if mant mod radix = 0 then strip_zeros radix (mant div radix) (P - 1) else Some (mant, P))"

text \<open>\<open>found\<close> is \<open>(P_found, E_found, mant_found)\<close>, or \<open>None\<close> while \<open>P_found = 0\<close>.\<close>

partial_function (option) free_loop ::
    "u64 \<Rightarrow> int \<Rightarrow> nat \<Rightarrow> nat \<Rightarrow> nat \<Rightarrow> int \<Rightarrow> int \<Rightarrow> (int \<times> int \<times> u64) option \<Rightarrow> (int \<times> int \<times> u64) option" where
  "free_loop m e radix radix1 radix_shift E0 P found =
     (case find_mant m e radix1 radix_shift P (pow_ui (of_nat radix) (nat P)) E0 of
        None \<Rightarrow> None
      | Some (mant, E) \<Rightarrow>
          (case strip_zeros (of_nat radix) mant P of
             None \<Rightarrow> None
           | Some (mant, P) \<Rightarrow>
               if found = None \<or> mul_pow_round_to_d (mpb_set_u64 mant) radix1 radix_shift (E - P) JS_RNDN = (m, e)
               then (if P = 1 then Some (P, E, mant)
                     else free_loop m e radix radix1 radix_shift E0 (P - 1) (Some (P, E, mant)))
               else found))"

partial_function (option) fixed_loop ::
    "u64 \<Rightarrow> int \<Rightarrow> nat \<Rightarrow> nat \<Rightarrow> int \<Rightarrow> mpb \<Rightarrow> int \<Rightarrow> (mpb \<times> int) option" where
  "fixed_loop m e radix1 radix_shift P mant_max E =
     (let tmp1 = mul_pow_round m (e - 53) radix1 radix_shift (P - E) JS_RNDNA
      in if mpb_cmp tmp1 mant_max < 0 then Some (tmp1, E)
         else fixed_loop m e radix1 radix_shift P mant_max (E + 1))"

text \<open>The part from the label \<open>output\<close> on.\<close>

definition dtoa_output :: "mpb \<Rightarrow> nat \<Rightarrow> nat \<Rightarrow> nat \<Rightarrow> int \<Rightarrow> nat \<Rightarrow> int \<Rightarrow> int \<Rightarrow> string" where
  "dtoa_output tmp1 radix radix1 radix_shift n_digits flags P E =
     (let E_max = (if flags AND JS_DTOA_FORMAT_MASK = JS_DTOA_FORMAT_FIXED then n_digits
                   else int (dtoa_max_digits_table ! (radix - 2)) + 4);
          exp = flags AND JS_DTOA_EXP_MASK
      in if exp = JS_DTOA_EXP_ENABLED \<or> (exp = JS_DTOA_EXP_AUTO \<and> (E \<le> - 6 \<or> E > E_max))
         then let E = E - 1;
                  (E, c) = (if radix = 10 then (E, CHR ''e'')
                            else if radix1 = 1 \<and> radix_shift \<le> 4 then (E * int radix_shift, CHR ''p'')
                            else (E, CHR ''@''))
              in output_digits tmp1 radix (nat P) 1 @ [c] @
                 (if E < 0 then CHR ''-'' # u32toa (of_int (- E)) else CHR ''+'' # u32toa (of_int E))
         else if E \<le> 0
         then ''0.'' @ replicate (nat (- E)) (CHR ''0'') @ output_digits tmp1 radix (nat P) (nat P)
         else output_digits tmp1 radix (nat P) (nat (min P E)) @ replicate (nat (E - P)) (CHR ''0''))"

text \<open>The branch of the format \<open>JS_DTOA_FORMAT_FRAC\<close>.\<close>

definition dtoa_frac :: "u64 \<Rightarrow> int \<Rightarrow> nat \<Rightarrow> nat \<Rightarrow> nat \<Rightarrow> int \<Rightarrow> int \<Rightarrow> string" where
  "dtoa_frac m e radix radix1 radix_shift n_digits E =
     (let tmp1 = mul_pow_round m (e - 53) radix1 radix_shift n_digits JS_RNDNA;
          q = output_digits tmp1 radix (nat (max (E + 1) 1 + n_digits)) (nat (max (E + 1) 1))
      in if q ! 0 = CHR ''0'' \<and> length q \<ge> 2 \<and> q ! 1 \<noteq> CHR ''.'' then tl q else q)"

text \<open>\<open>P\<close> and \<open>E\<close> of a number that is not zero in the free and in the fixed format, with the digits \<open>tmp1\<close>.\<close>

definition dtoa_digits :: "u64 \<Rightarrow> int \<Rightarrow> nat \<Rightarrow> nat \<Rightarrow> nat \<Rightarrow> int \<Rightarrow> nat \<Rightarrow> int \<Rightarrow> (mpb \<times> int \<times> int) option" where
  "dtoa_digits m e radix radix1 radix_shift n_digits fmt E =
     (if fmt = JS_DTOA_FORMAT_FREE
      then case free_loop m e radix radix1 radix_shift E (int (dtoa_max_digits_table ! (radix - 2))) None of
             None \<Rightarrow> None
           | Some (P, E, mant) \<Rightarrow> Some (mpb_set_u64 mant, P, E)
      else if \<not> (1 \<le> n_digits \<and> n_digits \<le> JS_DTOA_MAX_DIGITS) then None
      else let (mant_max, pow_shift) = mul_pow [1] radix1 radix_shift n_digits False 0;
               mant_max = mpb_shr_round mant_max pow_shift JS_RNDZ
           in case fixed_loop m e radix1 radix_shift n_digits mant_max E of
                None \<Rightarrow> None
              | Some (tmp1, E) \<Rightarrow> Some (tmp1, n_digits, E))"

text \<open>
  The result is \<open>None\<close> when a loop does not end or an assertion fails.  \<open>sign\<close> is the part written before
  the digits.
\<close>

definition js_dtoa :: "u64 \<Rightarrow> nat \<Rightarrow> int \<Rightarrow> nat \<Rightarrow> string option" where
  "js_dtoa d radix n_digits flags =
     (let fmt = flags AND JS_DTOA_FORMAT_MASK;
          radix_shift = ctz32 radix; radix1 = drop_bit radix_shift radix;
          sgn = (drop_bit 63 d \<noteq> 0); e = biased_exp d; m = d AND (push_bit 52 1 - 1);
          sign = (if sgn then ''-'' else '''')
      in if e = 0x7ff then Some (if m = 0 then sign @ ''Infinity'' else ''NaN'')
         else if e = 0 \<and> m = 0
         then let P = (if fmt = JS_DTOA_FORMAT_FREE then 1 else if fmt = JS_DTOA_FORMAT_FRAC then n_digits + 1 else n_digits)
              in Some ((if sgn \<and> flags AND JS_DTOA_MINUS_ZERO \<noteq> 0 then ''-'' else '''') @
                       dtoa_output [0] radix radix1 radix_shift n_digits flags P 1)
         else let (e, m) = (if e = 0 then let l = int (clz64 m) - 11 in (e - (l - 1), push_bit (nat l) m)
                            else (e, m OR push_bit 52 1));
                  e = e - 1022
              in if fmt = JS_DTOA_FORMAT_FREE \<and> e \<ge> 1 \<and> e \<le> 53 \<and>
                    m AND (push_bit (nat (53 - e)) 1 - 1) = 0 \<and>
                    flags AND JS_DTOA_EXP_MASK \<noteq> JS_DTOA_EXP_ENABLED
                 then Some (sign @ u64toa_radix (drop_bit (nat (53 - e)) m) radix)
                 else let E = 1 + mul_log2_radix (e - 1) radix
                      in if fmt = JS_DTOA_FORMAT_FRAC
                         then if \<not> (0 \<le> n_digits \<and> n_digits \<le> JS_DTOA_MAX_DIGITS) then None
                              else Some (sign @ dtoa_frac m e radix radix1 radix_shift n_digits E)
                         else case dtoa_digits m e radix radix1 radix_shift n_digits fmt E of
                                None \<Rightarrow> None
                              | Some (tmp1, P, E) \<Rightarrow>
                                  Some (sign @ dtoa_output tmp1 radix radix1 radix_shift n_digits flags P E))"

section \<open>Reference printers\<close>

text \<open>The digits of a number in a radix: without leading zeros, and in a field of a given width.\<close>

function radix_string :: "nat \<Rightarrow> nat \<Rightarrow> string" where
  "radix_string r n = (if n < r \<or> r < 2 then [digit_char n] else radix_string r (n div r) @ [digit_char (n mod r)])"
  by pat_completeness auto
termination by (relation "measure snd") auto

declare radix_string.simps [simp del]

fun digits_len :: "nat \<Rightarrow> nat \<Rightarrow> nat \<Rightarrow> string" where
  "digits_len r n 0 = []"
| "digits_len r n (Suc i) = digits_len r (n div r) i @ [digit_char (n mod r)]"

lemma digits_len_length [simp]: "length (digits_len r n i) = i"
  by (induction i arbitrary: n) auto

lemma digits_len_add: "digits_len r n (i + j) = digits_len r (n div r ^ j) i @ digits_len r n j"
  by (induction j arbitrary: n) (auto simp: div_mult2_eq)

lemma digits_len_mod: "0 < r \<Longrightarrow> j \<le> k \<Longrightarrow> digits_len r (n mod r ^ k) j = digits_len r n j"
proof (induction j arbitrary: n k)
  case 0
  then show ?case by simp
next
  case (Suc j)
  obtain k' where k: "k = Suc k'" "j \<le> k'" using Suc.prems by (cases k) auto
  have "n mod r ^ k = r * (n div r mod r ^ k') + n mod r" unfolding k power_Suc by (rule mod_mult2_eq)
  then have "n mod r ^ k div r = n div r mod r ^ k'" "n mod r ^ k mod r = n mod r" using Suc.prems(1) by simp_all
  then show ?case using Suc.IH [of k' "n div r"] Suc.prems(1) k(2) by simp
qed

lemma radix_string_split:
  assumes "2 \<le> r" "r ^ k \<le> n"
  shows "radix_string r n = radix_string r (n div r ^ k) @ digits_len r n k"
  using assms(2)
proof (induction k arbitrary: n)
  case 0
  then show ?case by simp
next
  case (Suc k)
  have "r ^ 1 \<le> r ^ Suc k" using assms(1) by (intro power_increasing) auto
  then have "r \<le> n" using Suc.prems by (simp only: power_one_right)
  moreover have "r ^ k \<le> n div r" using Suc.prems assms(1) by (simp add: less_eq_div_iff_mult_less_eq mult.commute)
  ultimately show ?case using Suc.IH [of "n div r"] assms(1)
    by (subst radix_string.simps) (simp add: div_mult2_eq)
qed

lemma radix_string_digits_len:
  assumes "2 \<le> r" "r ^ k \<le> n" "n < r ^ Suc k"
  shows "radix_string r n = digits_len r n (Suc k)"
proof -
  have "n div r ^ k < r" using assms(3) by (simp add: less_mult_imp_div_less mult.commute)
  then have "radix_string r (n div r ^ k) = digits_len r (n div r ^ k) 1" by (simp add: radix_string.simps)
  then show ?thesis using radix_string_split [OF assms(1,2)] digits_len_add [of r n 1 k] by simp
qed

section \<open>The printers agree with the reference\<close>

lemma digit_char_10: "d < 10 \<Longrightarrow> digit_char d = char_of (d + 48)"
  by (simp add: digit_char_def)

lemma unat_div_10 [simp]: "unat ((n :: u32) div 10) = unat n div 10" "unat ((n :: u32) mod 10) = unat n mod 10"
  by (simp_all add: unat_div unat_mod)

lemma u32toa_len_digits: "u32toa_len n len = digits_len 10 (unat n) len"
  by (induction n len rule: u32toa_len.induct) (simp_all add: Let_def digit_char_10)

lemma u64toa_bin_len_digits: "k < 64 \<Longrightarrow> u64toa_bin_len n k len = digits_len (2 ^ k) (unat n) len"
proof (induction n k len rule: u64toa_bin_len.induct)
  case (2 n k i)
  have "push_bit k 1 - 1 = (mask k :: u64)" by (simp add: mask_eq_exp_minus_1 push_bit_eq_mult)
  then have "n AND (push_bit k 1 - 1) = take_bit k n" by (simp add: take_bit_eq_mask)
  then have "unat (n AND (push_bit k 1 - 1)) = unat n mod 2 ^ k"
    by (simp only: unsigned_take_bit_eq) (simp add: take_bit_eq_mod)
  moreover have "unat (drop_bit k n) = unat n div 2 ^ k" by (simp only: unat_drop_bit_eq) (simp add: drop_bit_eq_div)
  ultimately show ?case using 2 by (simp add: Let_def)
qed simp

lemma limb_to_a_loop_digits: "limb_to_a_loop n radix len = digits_len (unat radix) (unat n) len"
  by (induction n radix len rule: limb_to_a_loop.induct) (simp_all add: Let_def unat_div unat_mod)

lemma limb_to_a_digits: "radix < 2 ^ 32 \<Longrightarrow> limb_to_a n radix len = digits_len radix (unat n) len"
  by (simp add: limb_to_a_def u32toa_len_digits limb_to_a_loop_digits unat_of_nat)

lemma u32toa_loop_string: "u32toa_loop n acc = radix_string 10 (unat n) @ acc"
proof (induction n acc rule: u32toa_loop.induct)
  case (1 n acc)
  have "n div 10 = 0 \<longleftrightarrow> unat n < 10" using unat_eq_zero [of "n div 10"] by auto
  then show ?case using 1
    by (subst u32toa_loop.simps, subst radix_string.simps) (auto simp: Let_def digit_char_10)
qed

lemma u32toa_string: "u32toa n = radix_string 10 (unat n)"
  by (simp add: u32toa_def u32toa_loop_string)

lemma u64toa_radix_loop_string:
  assumes "2 \<le> unat radix"
  shows "u64toa_radix_loop n radix acc = radix_string (unat radix) (unat n) @ acc"
  using assms
proof (induction n radix acc rule: u64toa_radix_loop.induct)
  case (1 n radix acc)
  have "n div radix = 0 \<longleftrightarrow> unat n < unat radix"
    using 1(2) unat_eq_zero [of "n div radix"] by (auto simp: unat_div Euclidean_Rings.div_eq_0_iff)
  then show ?case using 1
    by (subst u64toa_radix_loop.simps, subst radix_string.simps)
      (auto simp: Let_def word_le_nat_alt unat_div unat_mod)
qed

lemma ucast_64_32_small: "unat (x :: u64) < 2 ^ 32 \<Longrightarrow> unat (ucast x :: u32) = unat x"
  using unat_ucast_64_32 [of x] by simp

lemma two_digits: "n < 100 \<Longrightarrow> radix_string 10 n =
    (if 10 \<le> n then [char_of (n div 10 + 48), char_of (n mod 10 + 48)] else [char_of (n + 48)])"
proof -
  assume "n < 100"
  then have "n div 10 < 10" by (intro less_mult_imp_div_less) simp
  then show ?thesis by (simp add: radix_string.simps digit_char_10)
qed

lemma u64toa_string: "u64toa n = radix_string 10 (unat n)"
proof (cases "n < 0x100000000")
  case True
  then have "unat n < 2 ^ 32" by (simp add: word_less_nat_alt)
  then show ?thesis using True by (simp add: u64toa_def u32toa_string ucast_64_32_small)
next
  case False
  define n1 r where "n1 = n div 1000000000" and "r = n mod 1000000000"
  have n1: "unat n1 = unat n div 10 ^ 9" and r: "unat r = unat n mod 10 ^ 9"
    by (simp_all add: n1_def r_def unat_div unat_mod)
  have ge: "10 ^ 9 \<le> unat n" using False by (simp add: word_less_nat_alt)
  have low: "u32toa_len (ucast r) 9 = digits_len 10 (unat n) 9"
  proof -
    have "unat r < 10 ^ 9" unfolding r by simp
    then have "unat (ucast r :: u32) = unat n mod 10 ^ 9" using r by (subst ucast_64_32_small) simp_all
    then show ?thesis using digits_len_mod [of 10 9 9 "unat n"] by (simp add: u32toa_len_digits)
  qed
  have high: "(if n1 \<ge> 0x100000000
               then let n2 = ucast (n1 div 1000000000) :: u32; n1 = n1 mod 1000000000
                    in (if n2 \<ge> 10 then [char_of (unat (n2 div 10) + 48), char_of (unat (n2 mod 10) + 48)]
                        else [char_of (unat n2 + 48)]) @ u32toa_len (ucast n1) 9
               else u32toa (ucast n1)) = radix_string 10 (unat n1)"
  proof (cases "n1 \<ge> 0x100000000")
    case True
    define n2 where "n2 = (ucast (n1 div 1000000000) :: u32)"
    have lt: "unat n1 < 18446744074" unfolding n1
      using unsigned_less [of n, where ?'a = nat] by (intro less_mult_imp_div_less) simp
    have q: "unat (n1 div 1000000000) = unat n1 div 10 ^ 9" "unat (n1 mod 1000000000) = unat n1 mod 10 ^ 9"
      by (simp_all add: unat_div unat_mod)
    have "unat n1 div 10 ^ 9 < 100" using lt by (intro less_mult_imp_div_less) simp
    then have n2: "unat n2 = unat n1 div 10 ^ 9" "unat n2 < 100"
      using q by (simp_all add: n2_def ucast_64_32_small)
    have "unat (ucast (n1 mod 1000000000) :: u32) = unat n1 mod 10 ^ 9"
      using q by (subst ucast_64_32_small) (simp_all add: less_trans [of _ "10 ^ 9"])
    then have l: "u32toa_len (ucast (n1 mod 1000000000)) 9 = digits_len 10 (unat n1) 9"
      using digits_len_mod [of 10 9 9 "unat n1"] by (simp add: u32toa_len_digits)
    have h: "(if n2 \<ge> 10 then [char_of (unat (n2 div 10) + 48), char_of (unat (n2 mod 10) + 48)] else [char_of (unat n2 + 48)])
        = radix_string 10 (unat n1 div 10 ^ 9)"
      using two_digits [OF n2(2)] n2(1) by (simp add: word_le_nat_alt)
    have "10 ^ 9 \<le> unat n1" using True by (simp add: word_le_nat_alt)
    from radix_string_split [OF _ this] show ?thesis
      using True h l by (simp add: Let_def n2_def [symmetric])
  next
    case small: False
    then have "unat n1 < 2 ^ 32" by (simp add: word_le_nat_alt)
    then show ?thesis using small by (simp add: u32toa_string ucast_64_32_small)
  qed
  have "u64toa n = radix_string 10 (unat n1) @ digits_len 10 (unat n) 9"
    unfolding high [symmetric] low [symmetric] u64toa_def using False by (simp add: Let_def n1_def r_def)
  then show ?thesis using radix_string_split [OF _ ge] n1 by simp
qed

lemma is_pow2_cases:
  assumes "2 \<le> radix" "radix \<le> 36" "is_pow2 radix"
  obtains k where "k \<in> {1, 2, 3, 4, 5}" "radix = 2 ^ k" "31 - clz32 (of_nat radix) = k"
proof -
  have "\<forall>r \<in> set [2..<37]. is_pow2 r \<longrightarrow> r \<in> {2, 4, 8, 16, 32}" by (simp add: is_pow2_def)
  moreover have "radix \<in> set [2..<37]" using assms by (simp only: set_upt atLeastLessThan_iff) simp
  ultimately have "radix \<in> {2, 4, 8, 16, 32}" using assms(3) by blast
  moreover have "clz32 2 = 30" "clz32 4 = 29" "clz32 8 = 28" "clz32 16 = 27" "clz32 32 = 26"
    by (simp_all add: clz32_def nat_bits_numeral)
  ultimately show thesis using that [of 1] that [of 2] that [of 3] that [of 4] that [of 5] by auto
qed

lemma bin_length:
  assumes k: "0 < k" and n: "0 < n" and i: "Suc i = (nat_bits n + k - 1) div k"
  shows "(2 ^ k) ^ i \<le> n" "n < (2 ^ k) ^ Suc i"
proof -
  have m: "k * Suc i + (nat_bits n + k - 1) mod k = nat_bits n + k - 1" unfolding i by simp
  have r: "(nat_bits n + k - 1) mod k < k" using k by simp
  have "nat_bits n \<le> k * Suc i" using m r k by linarith
  then have "n < 2 ^ (k * Suc i)" by (simp only: nat_bits_le_iff)
  then show "n < (2 ^ k) ^ Suc i" by (simp only: power_mult)
  have "k * i \<le> nat_bits n - 1" using m by simp
  then have "(2 :: nat) ^ (k * i) \<le> 2 ^ (nat_bits n - 1)" by (intro power_increasing) auto
  then show "(2 ^ k) ^ i \<le> n" unfolding power_mult [symmetric] using nat_bits_lower [OF n] by linarith
qed

lemma u64toa_radix_string:
  assumes "2 \<le> radix" "radix \<le> 36"
  shows "u64toa_radix n radix = radix_string radix (unat n)"
proof -
  consider "radix = 10" | "radix \<noteq> 10" "is_pow2 radix" | "radix \<noteq> 10" "\<not> is_pow2 radix" by blast
  then show ?thesis
  proof cases
    case 1
    then show ?thesis by (simp add: u64toa_radix_def u64toa_string)
  next
    case 2
    obtain k where k: "k \<in> {1, 2, 3, 4, 5}" "radix = 2 ^ k" "31 - clz32 (of_nat radix) = k"
      using is_pow2_cases [OF assms 2(2)] .
    have k64: "k < 64" and kpos: "0 < k" using k(1) by auto
    show ?thesis
    proof (cases "n = 0")
      case True
      then show ?thesis using 2 k assms k64
        by (simp add: u64toa_radix_def Let_def u64toa_bin_len_digits radix_string.simps)
    next
      case False
      then have n: "0 < unat n" using unat_gt_0 by blast
      have "nat_bits (unat n) \<le> 64" using unsigned_less [of n, where ?'a = nat] by (simp add: nat_bits_le_iff)
      then have l: "64 - clz64 n = nat_bits (unat n)" by (simp add: clz64_def)
      have "0 < (nat_bits (unat n) + k - 1) div k"
        using nat_bits_pos [OF n] kpos by (simp add: div_greater_zero_iff)
      then obtain i where i: "Suc i = (nat_bits (unat n) + k - 1) div k" by (metis gr0_implies_Suc)
      have "u64toa_radix n radix = digits_len radix (unat n) (Suc i)"
        using 2 False k(2,3) k64 l i by (simp add: u64toa_radix_def Let_def u64toa_bin_len_digits del: digits_len.simps)
      then show ?thesis
        using radix_string_digits_len [of radix i "unat n"] bin_length [OF kpos n i] k(2) assms(1) by simp
    qed
  next
    case 3
    have "unat (of_nat radix :: u64) = radix" using assms by (simp add: unat_of_nat)
    then show ?thesis using 3 assms u64toa_radix_loop_string [of "of_nat radix" n "[]"] by (simp add: u64toa_radix_def)
  qed
qed

lemma mpb_shr_round_not_Nil:
  assumes "r \<noteq> []"
  shows "mpb_shr_round r s rnd_mode \<noteq> []"
proof -
  have ren: "mpb_renorm t \<noteq> []" if "t \<noteq> []" for t using mpb_renorm_norm [OF that] by simp
  have sh: "fst (mp_shr t k 0) \<noteq> []" if "t \<noteq> []" "1 \<le> k" "k < 32" for t k
  proof -
    obtain tab c where "mp_shr t k 0 = (tab, c)" by fastforce
    then show ?thesis using mp_shr_val(1) [of t k tab c] that by (metis fst_conv length_0_conv)
  qed
  have add: "(let (tab, a) = mp_add_ui t 1 in if a \<noteq> 0 then tab @ [a] else tab) \<noteq> []" if "t \<noteq> []" for t
  proof -
    obtain tab a where "mp_add_ui t 1 = (tab, a)" by fastforce
    then show ?thesis using mp_add_ui_val [of t 1 tab a] that by auto
  qed
  have "mpb_shr_add r k a \<noteq> []" for k a
    using ren sh add unfolding mpb_shr_add_def Let_def by auto
  moreover have "mpb_shl r k \<noteq> []" for k
    using ren assms by (auto simp: mpb_shl_def Let_def split: prod.splits)
  ultimately show ?thesis using assms by (simp add: mpb_shr_round_def)
qed

lemma digits_len_mod_dvd: "0 < r \<Longrightarrow> r ^ j dvd M \<Longrightarrow> digits_len r (n mod M) j = digits_len r n j"
  using digits_len_mod [of r j j "n mod M"] digits_len_mod [of r j j n] by (simp add: mod_mod_cancel)

lemma digits_len_step:
  assumes "0 < d"
  shows "digits_len r (v div r ^ d) (n - min n d) @ digits_len r v (min n d) = digits_len r v n"
proof (cases "n \<le> d")
  case False
  then show ?thesis using digits_len_add [of r v "n - d" d] by simp
qed simp

lemma radix_base_table_val:
  assumes "2 \<le> radix" "radix \<le> 36" "\<not> is_pow2 radix"
  shows "unat (radix_base_table ! (radix - 2)) = radix ^ (digits_per_limb_table ! (radix - 2))" "0 < digits_per_limb_table ! (radix - 2)"
proof -
  have mem: "radix \<in> set (filter (\<lambda>r. \<not> is_pow2 r) [2..<37])"
    using assms by (simp only: set_filter set_upt atLeastLessThan_iff mem_Collect_eq) simp
  have "\<forall>r \<in> set (filter (\<lambda>r. \<not> is_pow2 r) [2..<37]).
      unat (radix_base_table ! (r - 2)) = r ^ (digits_per_limb_table ! (r - 2)) \<and> 0 < digits_per_limb_table ! (r - 2)"
    by (simp add: is_pow2_def digits_per_limb_table_def radix_base_table_def)
  with mem show "unat (radix_base_table ! (radix - 2)) = radix ^ (digits_per_limb_table ! (radix - 2))"
    "0 < digits_per_limb_table ! (radix - 2)" by (auto simp only:)
qed

lemma output_radix_digits:
  assumes r: "2 \<le> radix" "radix \<le> 36" "\<not> is_pow2 radix" and d: "d = digits_per_limb_table ! (radix - 2)"
  shows "output_radix a radix d n = digits_len radix (limbs_val a) n"
proof (induction n arbitrary: a rule: less_induct)
  case (less n)
  let ?B = "radix_base_table ! (radix - 2)"
  have B: "unat ?B = radix ^ d" "0 < d" using radix_base_table_val [OF r] by (simp_all add: d)
  show ?case
  proof (cases "n = 0")
    case True
    then show ?thesis by (simp add: output_radix.simps)
  next
    case False
    obtain tab rem where div: "mp_div1 a ?B 0 = (tab, rem)" by fastforce
    have "unat (0 :: limb) < unat ?B" using B r by simp
    from mp_div1_val [OF div this] B
    have v: "limbs_val tab * radix ^ d + unat rem = limbs_val a" "unat rem < radix ^ d" by simp_all
    have q: "limbs_val tab = limbs_val a div radix ^ d" "unat rem = limbs_val a mod radix ^ d"
      using v(2) r(1) unfolding v(1) [symmetric] by simp_all
    have low: "limb_to_a rem radix (min n d) = digits_len radix (limbs_val a) (min n d)"
      using r q by (simp add: limb_to_a_digits digits_len_mod)
    have "output_radix a radix d n = output_radix (mpb_renorm tab) radix d (n - min n d) @ limb_to_a rem radix (min n d)"
      using False B(2) div by (subst output_radix.simps) (simp add: Let_def)
    also have "output_radix (mpb_renorm tab) radix d (n - min n d) = digits_len radix (limbs_val tab) (n - min n d)"
      using less.IH [of "n - min n d" "mpb_renorm tab"] False B(2) by simp
    finally show ?thesis using digits_len_step [OF B(2)] low q by simp
  qed
qed

lemma output_bin_digits:
  assumes k: "0 < k" "k * d \<le> 32" and d: "0 < d" and a: "a \<noteq> []"
  shows "output_bin a k d n = digits_len (2 ^ k) (limbs_val a) n"
  using a
proof (induction n arbitrary: a rule: less_induct)
  case (less n)
  have "k * min n d \<le> 32" using k(2) mult_le_mono2 [of "min n d" d k] by linarith
  then have "(2 :: nat) ^ (k * min n d) dvd 2 ^ 32" by (rule le_imp_power_dvd)
  then have dvd: "((2 :: nat) ^ k) ^ min n d dvd 2 ^ 32" by (simp only: power_mult)
  have "unat (a ! 0) = limbs_val a mod 2 ^ 32" using limbs_val_nth [of 0 a] less.prems by simp
  moreover have "k < 64" using k d by (cases d) auto
  ultimately have low: "u64toa_bin_len (ucast (a ! 0)) k (min n d) = digits_len (2 ^ k) (limbs_val a) (min n d)"
    using digits_len_mod_dvd [OF _ dvd, of "limbs_val a"] by (simp add: u64toa_bin_len_digits)
  show ?case
  proof (cases "n \<le> d")
    case True
    then show ?thesis using low d by (subst output_bin.simps) simp
  next
    case False
    let ?a = "mpb_shr_round a (int (d * k)) JS_RNDZ"
    have pos: "0 < int (d * k)" using k d by simp
    have v: "limbs_val ?a = limbs_val a div (2 ^ k) ^ d"
      using mpb_shr_round_val [OF less.prems, of "int (d * k)" JS_RNDZ] pos
      by (simp add: round_shr_def power_mult [symmetric] mult.commute [of k] del: of_nat_mult)
    have ne: "?a \<noteq> []" by (rule mpb_shr_round_not_Nil [OF less.prems])
    have "output_bin a k d n = output_bin ?a k d (n - d) @ u64toa_bin_len (ucast (a ! 0)) k (min n d)"
      using False d by (subst output_bin.simps) (simp add: Let_def)
    also have "output_bin ?a k d (n - d) = digits_len (2 ^ k) (limbs_val ?a) (n - d)"
      using less.IH [OF _ ne, of "n - d"] False d by simp
    finally show ?thesis using digits_len_step [OF d, of "2 ^ k" "limbs_val a" n] low v False by simp
  qed
qed

lemma output_digits_string:
  assumes "2 \<le> radix" "radix \<le> 36" "a \<noteq> []"
  shows "output_digits a radix n dot_pos =
    (if dot_pos \<noteq> n
     then take dot_pos (digits_len radix (limbs_val a) n) @ CHR ''.'' # drop dot_pos (digits_len radix (limbs_val a) n)
     else digits_len radix (limbs_val a) n)"
proof (cases "is_pow2 radix")
  case True
  then obtain k where k: "k \<in> {1, 2, 3, 4, 5}" "radix = 2 ^ k" "31 - clz32 (of_nat radix) = k"
    using is_pow2_cases assms(1,2) by metis
  have d: "0 < digits_per_limb_table ! (radix - 2)" "k * digits_per_limb_table ! (radix - 2) \<le> 32"
    using k(1,2) by (auto simp: digits_per_limb_table_def)
  have "output_bin a k (digits_per_limb_table ! (radix - 2)) n = digits_len radix (limbs_val a) n"
    using output_bin_digits [OF _ d(2,1) assms(3)] k by auto
  then show ?thesis using True k by (auto simp: output_digits_def Let_def)
next
  case False
  then show ?thesis using output_radix_digits [OF assms(1,2) False refl] by (simp add: output_digits_def Let_def)
qed

lemma signed_magnitude:
  fixes n :: "'a::len word"
  assumes "sint n < 0"
  shows "unat (- n) = nat (- sint n)"
proof -
  have "uint (- n) = (- sint n) mod 2 ^ LENGTH('a)"
  proof -
    have "- n = word_of_int (- sint n)" by simp
    then show ?thesis by (simp only: uint_word_of_int)
  qed
  moreover have "- sint n \<le> 2 ^ (LENGTH('a) - 1)" using sint_ge [of n] by simp
  moreover have "(2 :: int) ^ (LENGTH('a) - 1) < 2 ^ LENGTH('a)" by simp
  ultimately have "uint (- n) = - sint n" using assms by simp
  then show ?thesis by (simp only: unat_eq_nat_uint)
qed

section \<open>Doubles as numbers\<close>

text \<open>The number a finite double stands for: sign, 11 exponent bits and 52 mantissa bits.\<close>

definition double_mant :: "u64 \<Rightarrow> nat" where
  "double_mant d = unat (d AND (push_bit 52 1 - 1)) + (if biased_exp d = 0 then 0 else 2 ^ 52)"

definition double_exp :: "u64 \<Rightarrow> int" where
  "double_exp d = max (biased_exp d) 1 - 1075"

definition double_neg :: "u64 \<Rightarrow> bool" where
  "double_neg d \<longleftrightarrow> drop_bit 63 d \<noteq> 0"

definition double_val :: "u64 \<Rightarrow> real" where
  "double_val d = (if double_neg d then - 1 else 1) * real (double_mant d) * 2 powi double_exp d"

lemma double_fields:
  "unat d = (if double_neg d then 2 ^ 63 else 0) + nat (biased_exp d) * 2 ^ 52 + unat d mod 2 ^ 52"
  "0 \<le> biased_exp d" "biased_exp d < 2048"
proof -
  have lt: "unat d < 2 ^ 64" using unsigned_less [of d, where ?'a = nat] by simp
  have "(0x7ff :: u64) = push_bit 11 1 - 1" by simp
  then have "unat (drop_bit 52 d AND 0x7ff) = unat d div 2 ^ 52 mod 2 ^ 11"
    using unat_and_mask [of "drop_bit 52 d" 11] unat_drop_bit_div [of 52 d] by simp
  then have e: "biased_exp d = int (unat d div 2 ^ 52 mod 2 ^ 11)"
    by (simp only: biased_exp_def uint_nat)
  then show "0 \<le> biased_exp d" "biased_exp d < 2048" by simp_all
  have s: "double_neg d \<longleftrightarrow> unat d div 2 ^ 63 \<noteq> 0"
    using unat_drop_bit_div [of 63 d] unat_eq_zero [of "drop_bit 63 d"] by (simp add: double_neg_def)
  have "unat d div 2 ^ 52 = unat d div 2 ^ 63 * 2 ^ 11 + unat d div 2 ^ 52 mod 2 ^ 11"
    using div_mult_mod_eq [of "unat d div 2 ^ 52" "2 ^ 11"] by (simp add: div_mult2_eq [symmetric])
  moreover have "unat d div 2 ^ 63 < 2" using lt by (intro less_mult_imp_div_less) simp
  moreover define S E M where "S = unat d div 2 ^ 63" and "E = unat d div 2 ^ 52 mod 2 ^ 11" and "M = unat d mod 2 ^ 52"
  ultimately have S: "S < 2" "unat d div 2 ^ 52 = S * 2 ^ 11 + E" by simp_all
  have nat_E: "nat (biased_exp d) = E" unfolding e E_def by simp
  have "unat d = (S * 2 ^ 11 + E) * 2 ^ 52 + M" unfolding S(2) [symmetric] M_def by (simp only: div_mult_mod_eq)
  moreover have "S = (if double_neg d then 1 else 0)" using s S(1) S_def by auto
  ultimately show "unat d = (if double_neg d then 2 ^ 63 else 0) + nat (biased_exp d) * 2 ^ 52 + unat d mod 2 ^ 52"
    unfolding M_def [symmetric] nat_E by (cases "double_neg d") simp_all
qed

lemma double_mant_bounds: "double_mant d < 2 ^ 53" "biased_exp d \<noteq> 0 \<Longrightarrow> 2 ^ 52 \<le> double_mant d"
proof -
  have "unat (d AND (push_bit 52 1 - 1)) < 2 ^ 52" unfolding unat_and_mask by simp
  then show "double_mant d < 2 ^ 53" "biased_exp d \<noteq> 0 \<Longrightarrow> 2 ^ 52 \<le> double_mant d" by (simp_all add: double_mant_def)
qed

text \<open>An integer below \<open>2 ^ 53\<close> is stored with its mantissa shifted left.\<close>

lemma double_integer:
  assumes val: "double_val d = of_int i" and i: "1 \<le> \<bar>i\<bar>" "\<bar>i\<bar> < 2 ^ 53"
  obtains s where "s \<le> 52" "double_mant d = nat \<bar>i\<bar> * 2 ^ s" "biased_exp d = 1075 - int s" "double_neg d \<longleftrightarrow> i < 0"
proof -
  define M X where "M = double_mant d" and "X = double_exp d"
  have pos: "(0 :: real) < 2 powi X" by simp
  have mag: "real M * 2 powi X = of_int \<bar>i\<bar>"
  proof -
    have "\<bar>double_val d\<bar> = real M * 2 powi X" using pos by (simp add: double_val_def M_def X_def abs_mult)
    then show ?thesis using val by simp
  qed
  have neg: "double_neg d \<longleftrightarrow> i < 0"
  proof -
    have pos: "0 < real M * 2 powi X" using mag i(1) by simp
    have eq: "real_of_int i = (if double_neg d then - 1 else 1) * (real M * 2 powi X)"
      using val by (simp add: double_val_def M_def X_def)
    show ?thesis
    proof (cases "double_neg d")
      case True
      then have "real_of_int i = - (real M * 2 powi X)" using eq by simp
      then have "real_of_int i < 0" using pos by linarith
      then show ?thesis using True by simp
    next
      case False
      then have "real_of_int i = real M * 2 powi X" using eq by simp
      then have "0 < real_of_int i" using pos by linarith
      then show ?thesis using False by simp
    qed
  qed
  have "- 53 < X"
  proof (rule ccontr)
    assume "\<not> - 53 < X"
    then have "(2 :: real) powi X \<le> 2 powi (- 53)" by (intro power_int_increasing) auto
    moreover have "real M < 2 ^ 53" using double_mant_bounds(1) [of d] of_nat_less_iff [of M "2 ^ 53", where ?'a = real] by (simp add: M_def)
    ultimately have "real M * 2 powi X < 2 ^ 53 * 2 powi (- 53)" using pos by (intro mult_less_le_imp_less) auto
    then show False using mag i(1) by (simp add: power_int_minus)
  qed
  then have be: "biased_exp d = X + 1075" "biased_exp d \<noteq> 0" by (auto simp: X_def double_exp_def)
  have "X \<le> 0"
  proof (rule ccontr)
    assume "\<not> X \<le> 0"
    then have "(2 :: real) powi 1 \<le> 2 powi X" by (intro power_int_increasing) auto
    moreover have "(2 :: real) ^ 52 \<le> real M" using double_mant_bounds(2) [OF be(2)] of_nat_le_iff [of "2 ^ 52" M, where ?'a = real] by (simp add: M_def)
    ultimately have "2 ^ 52 * 2 powi 1 \<le> real M * 2 powi X" by (intro mult_mono) auto
    then show False using mag i(2) by (simp flip: of_int_less_iff [where ?'a = real])
  qed
  show thesis
  proof (rule that [of "nat (- X)"])
    show "nat (- X) \<le> 52" using \<open>- 53 < X\<close> by simp
    show "biased_exp d = 1075 - int (nat (- X))" using be(1) \<open>X \<le> 0\<close> by simp
    have "real M = of_int \<bar>i\<bar> * 2 ^ nat (- X)"
      using mag \<open>X \<le> 0\<close> by (auto simp: power_int_def field_simps split: if_splits)
    then have "real M = real (nat \<bar>i\<bar> * 2 ^ nat (- X))" by simp
    then show "double_mant d = nat \<bar>i\<bar> * 2 ^ nat (- X)" unfolding M_def by (simp only: of_nat_eq_iff)
  qed (rule neg)
qed

lemma signed_nonneg:
  fixes n :: "'a::len word"
  assumes "0 \<le> sint n"
  shows "unat n = nat (sint n)"
proof -
  have "n = word_of_int (sint n)" by simp
  then have "uint n = sint n mod 2 ^ LENGTH('a)" by (metis uint_word_of_int)
  moreover have "sint n < 2 ^ (LENGTH('a) - 1)" using sint_less [of n] by simp
  moreover have "(2 :: int) ^ (LENGTH('a) - 1) < 2 ^ LENGTH('a)" by simp
  ultimately have "uint n = sint n" using assms by simp
  then show ?thesis by (simp only: unat_eq_nat_uint)
qed

lemma js_dtoa_fast:
  assumes "flags AND 3 = 0" "flags AND 12 \<noteq> 4" "s \<le> 52" "biased_exp d = 1075 - int s" "double_mant d = v * 2 ^ s"
  shows "js_dtoa d radix n_digits flags = Some ((if double_neg d then ''-'' else '''') @ u64toa_radix (of_nat v) radix)"
proof -
  let ?m = "d AND (push_bit 52 1 - 1)" and ?e = "1075 - int s"
  let ?w = "?m OR push_bit 52 1"
  have e: "?e \<noteq> 0x7ff" "?e \<noteq> 0" "?e - 1022 \<ge> 1" "?e - 1022 \<le> 53" "nat (53 - (?e - 1022)) = s" using assms(3) by simp_all
  have w: "unat ?w = v * 2 ^ s"
  proof -
    have "unat ?m < 2 ^ 52" unfolding unat_and_mask by simp
    then show ?thesis using unat_or_top [of ?m 52] assms(4,5) e(2) by (simp add: double_mant_def)
  qed
  have low: "?w AND (push_bit s 1 - 1) = 0"
    unfolding unat_eq_zero [symmetric] unat_and_mask w by simp
  have v: "drop_bit s ?w = of_nat v"
  proof -
    have lt: "v * 2 ^ s < 2 ^ 64" using w unsigned_less [of ?w, where ?'a = nat] by simp
    have "v * 1 \<le> v * 2 ^ s" by (rule mult_le_mono2) simp
    then have "v < 2 ^ 64" using lt by linarith
    then have "unat (drop_bit s ?w) = unat (of_nat v :: u64)" unfolding unat_drop_bit_div w by (simp add: unat_of_nat)
    then show ?thesis by (simp only: word_unat_eq_iff)
  qed
  show ?thesis
    unfolding js_dtoa_def Let_def assms(1,4) double_neg_def [symmetric]
    using e assms(2) low v by (simp only: if_False if_True prod.case refl simp_thms)
qed

section \<open>Properties\<close>

lemma digit_char_exec:
  "digit_char 0 = CHR ''0''" "digit_char 1 = CHR ''1''" "digit_char (Suc 0) = CHR ''1''" "digit_char 2 = CHR ''2''"
  "digit_char 3 = CHR ''3''" "digit_char 4 = CHR ''4''" "digit_char 5 = CHR ''5''" "digit_char 6 = CHR ''6''"
  "digit_char 7 = CHR ''7''" "digit_char 8 = CHR ''8''" "digit_char 9 = CHR ''9''" "digit_char 15 = CHR ''f''"
  by (simp_all add: digit_char_def char_of_def bit_0)

lemma digits_len_exec: "digits_len r n (numeral k) = digits_len r (n div r) (pred_numeral k) @ [digit_char (n mod r)]"
  by (simp add: numeral_eq_Suc)

lemmas print_exec = digit_char_exec digits_len_exec radix_string.simps

text \<open>Printing integers: in every radix from 2 to 36, \<open>u64toa_radix\<close> writes exactly the digits of its
  64-bit argument, most significant first and without leading zeros (the source notes that it was
  only tested below \<open>2 ^ 53\<close>), and \<open>i64toa_radix\<close> writes the sign and the digits of the magnitude, the smallest
  64-bit integer included.\<close>

theorem u64toa_radix_correct:
  assumes "2 \<le> radix" "radix \<le> 36"
  shows "u64toa_radix n radix = radix_string radix (unat n) \<and>
         i64toa_radix n radix = (if sint n < 0 then ''-'' else '''') @ radix_string radix (nat \<bar>sint n\<bar>)"
proof -
  show ?thesis
    using signed_magnitude [of n] signed_nonneg [of n] u64toa_radix_string [OF assms] by (auto simp: i64toa_radix_def)
qed

text \<open>The digits of a number of any length: \<open>output_digits\<close> writes the \<open>n_digits\<close> lowest digits of the number
  in the given radix, zeros included, with a dot after the first \<open>dot_pos\<close> of them unless the dot would be
  last.\<close>

theorem output_digits_correct:
  assumes "2 \<le> radix" "radix \<le> 36" "a \<noteq> []"
  shows "output_digits a radix n_digits dot_pos =
    (let ds = digits_len radix (limbs_val a) n_digits
     in if dot_pos \<noteq> n_digits then take dot_pos ds @ ''.'' @ drop dot_pos ds else ds)"
  using output_digits_string [OF assms] by (simp add: Let_def)

text \<open>Integers print as integers: a double whose value is an integer \<open>i\<close> with \<open>0 < |i| < 2 ^ 53\<close> is printed, in
  the free format without forced exponent, as its sign and the digits of \<open>|i|\<close>, in every radix.\<close>

theorem js_dtoa_integer:
  assumes "2 \<le> radix" "radix \<le> 36" "flags AND JS_DTOA_FORMAT_MASK = JS_DTOA_FORMAT_FREE"
    "flags AND JS_DTOA_EXP_MASK \<noteq> JS_DTOA_EXP_ENABLED"
    "double_val d = of_int i" "1 \<le> \<bar>i\<bar>" "\<bar>i\<bar> < 2 ^ 53"
  shows "js_dtoa d radix n_digits flags = Some ((if i < 0 then ''-'' else '''') @ radix_string radix (nat \<bar>i\<bar>))"
proof -
  obtain s where s: "s \<le> 52" "double_mant d = nat \<bar>i\<bar> * 2 ^ s" "biased_exp d = 1075 - int s" "double_neg d \<longleftrightarrow> i < 0"
    using double_integer [OF assms(5-7)] .
  have "unat (of_nat (nat \<bar>i\<bar>) :: u64) = nat \<bar>i\<bar>" using assms(7) by (simp add: unat_of_nat nat_less_iff del: of_nat_nat)
  then show ?thesis
    using js_dtoa_fast [OF assms(3,4) s(1,3,2)] u64toa_radix_string [OF assms(1,2)] s(4) by simp
qed

end
