(* ===== verification/Dtoa_Parse.thy ===== *)
theory Dtoa_Parse
  imports Dtoa_Print
begin

text \<open>
  Parsing numbers, \<^verbatim>\<open>plugins/ts_host/quickjs/dtoa.c\<close> lines 764 to 796 and 1319 to 1619.  The pointer \<open>p\<close> into the
  NUL-terminated input is the list of the characters that remain; \<open>p > p_start\<close> compares lengths of
  remainders.  The exponent arithmetic is done at the width of \<open>int\<close>: \<open>i32\<close> is the two's complement
  value of its result.  The value is \<open>None\<close> where the code returns \<open>NAN\<close>, and a double's bits
  otherwise; the second component is \<open>*pnext\<close>.
\<close>

section \<open>Tables\<close>

definition atod_max_digits_table :: "nat list" where
  "atod_max_digits_table =
    [64, 80, 32, 55, 49, 45, 21, 40, 38, 37, 35, 34, 33, 32, 16, 31, 30, 30, 29, 29, 28, 28, 27, 27, 27, 26, 26, 26, 26,
     25, 12, 25, 25, 24, 24]"

definition max_exponent :: "int list" where
  "max_exponent =
    [1024,   647,   512,   442,   397,   365,   342,   324,
      309,   297,   286,   277,   269,   263,   256,   251,
      246,   242,   237,   234,   230,   227,   224,   221,
      218,   216,   214,   211,   209,   207,   205,   203,
      202,   200,   199]"

definition min_exponent :: "int list" where
  "min_exponent =
    [-1075,  -679,  -538,  -463,  -416,  -383,  -359,  -340,
     -324,  -311,  -300,  -291,  -283,  -276,  -269,  -263,
     -258,  -254,  -249,  -245,  -242,  -238,  -235,  -232,
     -229,  -227,  -224,  -222,  -220,  -217,  -215,  -214,
     -212,  -210,  -208]"

section \<open>Characters and digits\<close>

definition chr_at :: "string \<Rightarrow> nat \<Rightarrow> nat" where
  "chr_at p i = (if i < length p then of_char (p ! i) else 0)"

definition to_digit :: "nat \<Rightarrow> nat" where
  "to_digit c =
     (if c \<ge> 48 \<and> c \<le> 57 then c - 48
      else if c \<ge> 65 \<and> c \<le> 90 then c - 65 + 10
      else if c \<ge> 97 \<and> c \<le> 122 then c - 97 + 10
      else 36)"

definition i32 :: "int \<Rightarrow> int" where
  "i32 x = (x + 2 ^ 31) mod 2 ^ 32 - 2 ^ 31"

definition mpb_mul1_base :: "mpb \<Rightarrow> limb \<Rightarrow> limb \<Rightarrow> mpb" where
  "mpb_mul1_base r radix_base a =
     (if r ! 0 = 0 \<and> length r = 1 then r[0 := a]
      else mpb_renorm (if radix_base = 0 then a # r
                       else let (tab, h) = mp_mul1 r radix_base a in tab @ [h]))"

section \<open>The parser\<close>

abbreviation (input) "JS_ATOD_INT_ONLY \<equiv> (1 :: nat)"
abbreviation (input) "JS_ATOD_ACCEPT_BIN_OCT \<equiv> (2 :: nat)"
abbreviation (input) "JS_ATOD_ACCEPT_LEGACY_OCTAL \<equiv> (4 :: nat)"
abbreviation (input) "JS_ATOD_ACCEPT_UNDERSCORES \<equiv> (8 :: nat)"

text \<open>The sign: \<open>is_neg\<close> and the rest.\<close>

definition atod_sign :: "string \<Rightarrow> bool \<times> string" where
  "atod_sign p =
     (if chr_at p 0 = 43 then (False, drop 1 p) else if chr_at p 0 = 45 then (True, drop 1 p) else (False, p))"

text \<open>The number of characters \<open>0\<close> to \<open>7\<close> at the start.\<close>

fun octal_len :: "string \<Rightarrow> nat" where
  "octal_len [] = 0"
| "octal_len (c # p) = (if of_char c \<ge> (48 :: nat) \<and> of_char c \<le> (55 :: nat) then Suc (octal_len p) else 0)"

text \<open>The prefix decides the radix.  \<open>Prefix_fail\<close> and \<open>Prefix_overflow\<close> are the jumps to \<open>fail\<close> and \<open>overflow\<close>.\<close>

datatype atod_prefix = Prefix_fail string | Prefix_overflow string | Prefix_radix string nat nat

definition atod_prefix :: "string \<Rightarrow> nat \<Rightarrow> nat \<Rightarrow> atod_prefix" where
  "atod_prefix p radix flags =
     (let sep = (if flags AND JS_ATOD_ACCEPT_UNDERSCORES \<noteq> 0 then 95 else 256);
          done = (\<lambda>p radix sep. if to_digit (chr_at p 0) \<ge> radix then Prefix_fail p else Prefix_radix p radix sep);
          no_prefix = (\<lambda>sep. Prefix_radix p (if radix = 0 then 10 else radix) sep);
          c = chr_at p 1
      in if chr_at p 0 = 48
         then if (c = 120 \<or> c = 88) \<and> (radix = 0 \<or> radix = 16) then done (drop 2 p) 16 sep
              else if (c = 111 \<or> c = 79) \<and> radix = 0 \<and> flags AND JS_ATOD_ACCEPT_BIN_OCT \<noteq> 0 then done (drop 2 p) 8 sep
              else if (c = 98 \<or> c = 66) \<and> radix = 0 \<and> flags AND JS_ATOD_ACCEPT_BIN_OCT \<noteq> 0 then done (drop 2 p) 2 sep
              else if (c \<ge> 48 \<and> c \<le> 57) \<and> radix = 0 \<and> flags AND JS_ATOD_ACCEPT_LEGACY_OCTAL \<noteq> 0
              then let i = 1 + octal_len (drop 1 p)
                   in if chr_at p i = 56 \<or> chr_at p i = 57 then no_prefix 256 else done (drop 1 p) 8 256
              else no_prefix sep
         else if flags AND JS_ATOD_INT_ONLY = 0 \<and> take 8 p = ''Infinity'' then Prefix_overflow (drop 8 p)
         else no_prefix sep)"

text \<open>
  The test for a dot at the head of both digit loops: \<open>None\<close> leaves the loop at a second dot.  (The
  source also tests \<open>*p == sep\<close> there, which is false for a dot.)
\<close>

definition atod_dot :: "nat \<Rightarrow> nat \<Rightarrow> nat \<Rightarrow> string \<Rightarrow> int \<Rightarrow> int \<Rightarrow> (string \<times> int) option" where
  "atod_dot len_start radix flags p pos dot_pos =
     (if chr_at p 0 = 46 \<and> (length p < len_start \<or> to_digit (chr_at p 1) < radix) \<and> flags AND JS_ATOD_INT_ONLY = 0
      then if dot_pos \<ge> 0 then None else Some (drop 1 p, pos)
      else Some (p, dot_pos))"

lemma atod_dot_le: "atod_dot len_start radix flags p pos dot_pos = Some (p', dp) \<Longrightarrow> length p' \<le> length p"
  by (auto simp: atod_dot_def split: if_splits)

function skip_zeros :: "nat \<Rightarrow> nat \<Rightarrow> nat \<Rightarrow> nat \<Rightarrow> string \<Rightarrow> int \<Rightarrow> int \<Rightarrow> string \<times> int \<times> int" where
  "skip_zeros len_start radix flags sep p pos dot_pos =
     (case atod_dot len_start radix flags p pos dot_pos of
        None \<Rightarrow> (p, pos, dot_pos)
      | Some (p, dot_pos) \<Rightarrow>
          let p = (if chr_at p 0 = sep \<and> length p < len_start \<and> chr_at p 1 = 48 then drop 1 p else p)
          in if chr_at p 0 \<noteq> 48 then (p, pos, dot_pos)
             else skip_zeros len_start radix flags sep (drop 1 p) (pos + 1) dot_pos)"
  by pat_completeness auto
termination
proof (relation "measure (\<lambda>(len_start, radix, flags, sep, p, pos, dot_pos). length p)", goal_cases)
  case (2 len_start radix flags sep p pos dot_pos pr p' dot_pos' p'')
  then have "length p' \<le> length p" "length p'' \<le> length p'" by (auto dest: atod_dot_le)
  moreover have "p'' \<noteq> []" using 2 by (auto simp: chr_at_def)
  ultimately show ?case by (cases p'') auto
qed simp

declare skip_zeros.simps [simp del]

record atod_digits =
  ad_tmp0 :: mpb
  ad_cur_limb :: limb
  ad_limb_digit_count :: nat
  ad_digit_count :: nat
  ad_extra_digits :: limb

text \<open>The body of the digit loop for the digit \<open>c\<close>.\<close>

definition atod_digit :: "nat \<Rightarrow> nat \<Rightarrow> atod_digits \<Rightarrow> atod_digits" where
  "atod_digit radix c st =
     (if ad_digit_count st < atod_max_digits_table ! (radix - 2)
      then let cur_limb = ad_cur_limb st * of_nat radix + of_nat c;
               st = st\<lparr>ad_cur_limb := cur_limb, ad_limb_digit_count := ad_limb_digit_count st + 1\<rparr>;
               st = (if ad_limb_digit_count st = digits_per_limb_table ! (radix - 2)
                     then st\<lparr>ad_tmp0 := mpb_mul1_base (ad_tmp0 st) (radix_base_table ! (radix - 2)) cur_limb,
                             ad_cur_limb := 0, ad_limb_digit_count := 0\<rparr>
                     else st)
           in st\<lparr>ad_digit_count := ad_digit_count st + 1\<rparr>
      else st\<lparr>ad_extra_digits := ad_extra_digits st OR of_nat c\<rparr>)"

function read_digits :: "nat \<Rightarrow> nat \<Rightarrow> nat \<Rightarrow> nat \<Rightarrow> string \<Rightarrow> int \<Rightarrow> int \<Rightarrow> atod_digits \<Rightarrow> string \<times> int \<times> int \<times> atod_digits" where
  "read_digits len_start radix flags sep p pos dot_pos st =
     (case atod_dot len_start radix flags p pos dot_pos of
        None \<Rightarrow> (p, pos, dot_pos, st)
      | Some (p, dot_pos) \<Rightarrow>
          let p = (if chr_at p 0 = sep \<and> length p < len_start \<and> to_digit (chr_at p 1) < radix then drop 1 p else p);
              c = to_digit (chr_at p 0)
          in if c \<ge> radix \<or> p = [] then (p, pos, dot_pos, st)
             else read_digits len_start radix flags sep (drop 1 p) (pos + 1) dot_pos (atod_digit radix c st))"
  by pat_completeness auto
termination
proof (relation "measure (\<lambda>(len_start, radix, flags, sep, p, pos, dot_pos, st). length p)", goal_cases)
  case (2 len_start radix flags sep p pos dot_pos st pr p' dot_pos' p'')
  then have "length p' \<le> length p" "length p'' \<le> length p'" by (auto dest: atod_dot_le)
  then show ?case using 2 by (cases p'') auto
qed simp

declare read_digits.simps [simp del]

text \<open>The digits of the exponent: the rest, \<open>expn\<close> and \<open>expn_overflow\<close>.\<close>

function read_expn :: "nat \<Rightarrow> string \<Rightarrow> int \<Rightarrow> bool \<Rightarrow> string \<times> int \<times> bool" where
  "read_expn sep p expn expn_overflow =
     (let p = (if chr_at p 0 = sep \<and> to_digit (chr_at p 1) < 10 then drop 1 p else p);
          c = to_digit (chr_at p 0)
      in if c \<ge> 10 then (p, expn, expn_overflow)
         else let (expn, expn_overflow) =
                    (if \<not> expn_overflow
                     then if expn > (2147483647 - 2 - 9) div 10 then (expn, True) else (expn * 10 + int c, False)
                     else (expn, expn_overflow))
              in read_expn sep (drop 1 p) expn expn_overflow)"
  by pat_completeness auto
termination
proof (relation "measure (\<lambda>(sep, p, expn, expn_overflow). length p)", goal_cases)
  case (2 sep p expn expn_overflow p' c)
  then have "length p' \<le> length p" by auto
  moreover have "p' \<noteq> []" using 2 by (auto simp: chr_at_def to_digit_def)
  ultimately show ?case by (cases p') auto
qed simp

declare read_expn.simps [simp del]

text \<open>The optional exponent part: \<open>Inl p\<close> is the jump to \<open>fail\<close>, \<open>Inr (p, expn, expn_overflow, exp_is_neg, is_bin_exp)\<close> the rest.\<close>

definition atod_expn ::
    "nat \<Rightarrow> nat \<Rightarrow> nat \<Rightarrow> nat \<Rightarrow> nat \<Rightarrow> string \<Rightarrow> string + (string \<times> int \<times> bool \<times> bool \<times> bool)" where
  "atod_expn len_start radix radix_bits flags sep p =
     (let c0 = chr_at p 0; is_p = (c0 = 112 \<or> c0 = 80)
      in if flags AND JS_ATOD_INT_ONLY = 0 \<and>
            ((radix = 10 \<and> (c0 = 101 \<or> c0 = 69)) \<or>
             (radix \<noteq> 10 \<and> (c0 = 64 \<or> (radix_bits \<ge> 1 \<and> radix_bits \<le> 4 \<and> is_p)))) \<and> length p < len_start
         then let p = drop 1 p;
                  (exp_is_neg, p) = (if chr_at p 0 = 43 then (False, drop 1 p)
                                     else if chr_at p 0 = 45 then (True, drop 1 p) else (False, p));
                  c = to_digit (chr_at p 0)
              in if c \<ge> 10 then Inl p
                 else let (p, expn, expn_overflow) = read_expn sep (drop 1 p) (int c) False
                      in Inr (p, if exp_is_neg then - expn else expn, expn_overflow, exp_is_neg, is_p)
         else Inr (p, 0, False, False, False))"

abbreviation (input) "INFINITY_BITS \<equiv> (0x7ff0000000000000 :: u64)"

text \<open>The bits of the double with mantissa \<open>m\<close> and exponent \<open>e\<close>.\<close>

definition pack_double :: "u64 \<Rightarrow> int \<Rightarrow> u64" where
  "pack_double m e =
     (if m = 0 then 0
      else if e > 1024 then INFINITY_BITS
      else if e < - 1073 then 0
      else if e < - 1021 then drop_bit (nat (- e - 1021)) m
      else push_bit 52 (of_int (e + 1022)) OR (m AND (push_bit 52 1 - 1)))"

text \<open>The conversion of a number that is not zero, with the ranges of the exponent checked first.\<close>

definition atod_convert :: "nat \<Rightarrow> mpb \<Rightarrow> int \<Rightarrow> bool \<Rightarrow> int \<Rightarrow> int \<Rightarrow> u64" where
  "atod_convert radix tmp0 expn is_bin_exp expn_offset digit_count =
     (let radix_shift = ctz32 radix; radix1 = drop_bit radix_shift radix;
          radix_bits = (if radix1 = 1 then int radix_shift else 0)
      in if radix_bits \<noteq> 0
         then let expn = (if is_bin_exp then expn else i32 (expn * radix_bits));
                  expn = i32 (expn - expn_offset * radix_bits);
                  expn1 = i32 (expn + digit_count * radix_bits)
              in if expn1 \<ge> 1024 + radix_bits then INFINITY_BITS
                 else if expn1 \<le> - 1075 then 0
                 else let (m, e) = round_to_d tmp0 (- expn) JS_RNDN in pack_double m e
         else let expn = i32 (expn - expn_offset);
                  expn1 = i32 (expn + digit_count)
              in if expn1 \<ge> max_exponent ! (radix - 2) + 1 then INFINITY_BITS
                 else if expn1 \<le> min_exponent ! (radix - 2) then 0
                 else let (m, e) = mul_pow_round_to_d tmp0 radix1 radix_shift expn JS_RNDN in pack_double m e)"

text \<open>The last partial limb, and the sticky bit of the digits beyond the limit in a radix that is a power of two.\<close>

definition atod_mantissa :: "nat \<Rightarrow> atod_digits \<Rightarrow> mpb" where
  "atod_mantissa radix st =
     (let tmp0 = (if ad_limb_digit_count st \<noteq> 0
                  then mpb_mul1_base (ad_tmp0 st) (ucast (pow_ui (of_nat radix) (ad_limb_digit_count st))) (ad_cur_limb st)
                  else ad_tmp0 st)
      in if drop_bit (ctz32 radix) radix = 1 \<and> ctz32 radix \<noteq> 0 \<and> ad_extra_digits st \<noteq> 0 then tmp0[0 := tmp0 ! 0 OR 1] else tmp0)"

definition atod_number :: "nat \<Rightarrow> nat \<Rightarrow> nat \<Rightarrow> nat \<Rightarrow> string \<Rightarrow> u64 option \<times> string" where
  "atod_number len_start radix flags sep p =
     (let (p, pos, dot_pos) = skip_zeros len_start radix flags sep p 0 (- 1);
          sig_pos = pos;
          (p, pos, dot_pos, st) = read_digits len_start radix flags sep p pos dot_pos
            \<lparr>ad_tmp0 = [0], ad_cur_limb = 0, ad_limb_digit_count = 0, ad_digit_count = 0, ad_extra_digits = 0\<rparr>;
          is_zero = (ad_digit_count st = 0); digit_count = int (ad_digit_count st);
          expn_offset = (if is_zero then 0 else sig_pos + digit_count - (if dot_pos < 0 then pos else dot_pos));
          radix_bits = (if drop_bit (ctz32 radix) radix = 1 then ctz32 radix else 0)
      in case atod_expn len_start radix radix_bits flags sep p of
           Inl p \<Rightarrow> (None, p)
         | Inr (p, expn, expn_overflow, exp_is_neg, is_bin_exp) \<Rightarrow>
             if \<not> is_zero \<and> expn_overflow then (Some (if exp_is_neg then 0 else INFINITY_BITS), p)
             else if length p = len_start then (None, p)
             else if is_zero then (Some 0, p)
             else (Some (atod_convert radix (atod_mantissa radix st) expn is_bin_exp expn_offset digit_count), p))"

definition js_atod :: "string \<Rightarrow> nat \<Rightarrow> nat \<Rightarrow> u64 option \<times> string" where
  "js_atod str radix flags =
     (let (is_neg, p_start) = atod_sign str;
          (r, p) = (case atod_prefix p_start radix flags of
                      Prefix_fail p \<Rightarrow> (None, p)
                    | Prefix_overflow p \<Rightarrow> (Some INFINITY_BITS, p)
                    | Prefix_radix p radix sep \<Rightarrow> atod_number (length p_start) radix flags sep p)
      in (map_option (\<lambda>a. a OR (if is_neg then push_bit 63 1 else 0)) r, p))"

section \<open>Packing a double\<close>

lemma fields_unique:
  assumes "k < 2048" "f < 2 ^ 52" and a: "unat a = k * 2 ^ 52 + f"
  shows "biased_exp a = int k" "unat a mod 2 ^ 52 = f" "\<not> double_neg a"
proof -
  have "unat a < 2 ^ 63"
  proof -
    have "k * 2 ^ 52 \<le> 2047 * 2 ^ 52" using assms(1) by (intro mult_le_mono1) simp
    then show ?thesis using a assms(2) by simp
  qed
  then have neg: "\<not> double_neg a"
    using unat_drop_bit_div [of 63 a] unat_eq_zero [of "drop_bit 63 a"] by (simp add: double_neg_def)
  then show "\<not> double_neg a" .
  show m: "unat a mod 2 ^ 52 = f" unfolding a using assms(2) by simp
  have "nat (biased_exp a) * 2 ^ 52 + f = k * 2 ^ 52 + f" using double_fields(1) [of a] neg m a by simp
  then show "biased_exp a = int k" using double_fields(2) [of a] by simp
qed

lemma double_val_fields:
  assumes "k < 2048" "f < 2 ^ 52" "unat a = k * 2 ^ 52 + f"
  shows "double_val a = real (f + (if k = 0 then 0 else 2 ^ 52)) * 2 powi (max (int k) 1 - 1075)"
proof -
  note f = fields_unique [OF assms]
  have "double_mant a = f + (if k = 0 then 0 else 2 ^ 52)" unfolding double_mant_def unat_and_mask using f by simp
  then show ?thesis using f by (simp add: double_val_def double_exp_def)
qed

text \<open>\<open>V = m * 2 ^ (e - 53)\<close> is a multiple of the smallest positive double.\<close>

lemma unat_or_shifted:
  assumes "unat (x :: u64) < 2 ^ 12" "unat (y :: u64) < 2 ^ 52"
  shows "unat (push_bit 52 x OR y) = unat x * 2 ^ 52 + unat y"
proof -
  have "unat x * 2 ^ 52 \<le> (2 ^ 12 - 1) * 2 ^ 52" using assms(1) by (intro mult_le_mono1) simp
  then have lt: "unat x * 2 ^ 52 + unat y < 2 ^ 64" using assms(2) by simp
  have p: "unat (push_bit 52 x) = unat x * 2 ^ 52"
    using lt unfolding unsigned_push_bit_eq by (simp add: push_bit_eq_mult take_bit_nat_eq_self)
  have "push_bit 52 x OR y = push_bit 52 x + y"
  proof (rule disjunctive_add [symmetric])
    fix n
    show "\<not> bit (push_bit 52 x) n \<or> \<not> bit y n"
    proof (cases "n < 52")
      case True
      then show ?thesis by (simp add: bit_push_bit_iff)
    next
      case False
      then have "(2 :: nat) ^ 52 \<le> 2 ^ n" by (intro power_increasing) auto
      then have "\<not> bit (unat y) n" using assms(2) by (simp add: bit_iff_odd)
      then show ?thesis by (auto simp: bit_unsigned_iff dest: bit_imp_le_length)
    qed
  qed
  then show ?thesis using p lt by (simp add: unat_word_ariths(1))
qed

lemma pack_double_val:
  assumes M: "unat m = M" "M = 0 \<or> 2 ^ 52 \<le> M \<and> M < 2 ^ 53"
    and V: "V = real M * 2 powi (e - 53)" and mult: "V = real K * 2 powi (- 1074)" and fin: "V < 2 powi 1024"
  shows "double_val (pack_double m e) = V" "biased_exp (pack_double m e) < 2047"
proof -
  have "double_val (pack_double m e) = V \<and> biased_exp (pack_double m e) < 2047"
  proof (cases "m = 0")
    case True
    then have "M = 0" using M(1) by simp
    have "unat (0 :: u64) = 0 * 2 ^ 52 + 0" by simp
    from double_val_fields [OF _ _ this] fields_unique [OF _ _ this] show ?thesis
      using True V \<open>M = 0\<close> by (simp add: pack_double_def)
  next
    case False
    then have "unat m \<noteq> 0" by (simp add: unat_eq_zero)
    then have m: "2 ^ 52 \<le> M" "M < 2 ^ 53" using M by auto
    have m': "2 powi 52 \<le> real M" "real M < 2 powi 53"
      using m of_nat_le_iff [of "2 ^ 52" M, where ?'a = real] of_nat_less_iff [of M "2 ^ 53", where ?'a = real] by simp_all
    have "e \<le> 1024"
    proof (rule ccontr)
      assume "\<not> e \<le> 1024"
      then have "(2 :: real) powi (1025 - 53) \<le> 2 powi (e - 53)" by (intro power_int_increasing) auto
      then have "2 powi 52 * 2 powi (1025 - 53) \<le> V" unfolding V using m'(1) by (intro mult_mono) auto
      moreover have "2 powi 52 * 2 powi (1025 - 53) = (2 :: real) powi 1024" by (subst power_int_add [symmetric]) auto
      ultimately show False using fin by simp
    qed
    have "- 1074 < e"
    proof (rule ccontr)
      assume "\<not> - 1074 < e"
      then have "(2 :: real) powi (e - 53) \<le> 2 powi (- 1074 - 53)" by (intro power_int_increasing) auto
      then have "V < 2 powi 53 * 2 powi (- 1074 - 53)" unfolding V using m'(2) by (intro mult_less_le_imp_less) auto
      also have "\<dots> = 2 powi (- 1074)" by (subst power_int_add [symmetric]) auto
      finally have "K = 0" unfolding mult by simp
      then show False using V mult m(1) by simp
    qed
    show ?thesis
    proof (cases "e < - 1021")
      case True
      define s where "s = nat (- e - 1021)"
      have "real M = real (K * 2 ^ s)"
      proof -
        have "real M = real K * (2 powi (- 1074) * 2 powi (53 - e))"
          using V mult by (simp add: power_int_diff field_simps)
        also have "2 powi (- 1074) * 2 powi (53 - e) = (2 :: real) ^ s"
          using True by (subst power_int_add [symmetric]) (auto simp: s_def power_int_def)
        finally show ?thesis by simp
      qed
      then have K: "M = K * 2 ^ s" by (simp only: of_nat_eq_iff)
      have pd: "pack_double m e = drop_bit s m"
        using True False \<open>- 1074 < e\<close> by (simp add: pack_double_def s_def)
      have "K < 2 ^ 52"
      proof (rule ccontr)
        assume "\<not> K < 2 ^ 52"
        moreover have "(2 :: nat) ^ 1 \<le> 2 ^ s" using True by (intro power_increasing) (auto simp: s_def)
        ultimately have "2 ^ 52 * 2 ^ 1 \<le> K * 2 ^ s" by (intro mult_le_mono) auto
        then show False using K m(2) by simp
      qed
      moreover have "unat (drop_bit s m) = 0 * 2 ^ 52 + K" unfolding unat_drop_bit_div M(1) K by simp
      ultimately show ?thesis using double_val_fields [of 0 K "drop_bit s m"] fields_unique [of 0 K "drop_bit s m"] mult pd by simp
    next
      case normal: False
      define k where "k = nat (e + 1022)"
      have k: "0 < k" "k < 2047" "int k = e + 1022" using normal \<open>e \<le> 1024\<close> by (auto simp: k_def)
      let ?f = "M - 2 ^ 52"
      have pd: "pack_double m e = push_bit 52 (of_nat k) OR (m AND (push_bit 52 1 - 1))"
      proof -
        have "of_int (e + 1022) = (of_nat k :: u64)" unfolding k(3) [symmetric] by simp
        then show ?thesis using normal False \<open>e \<le> 1024\<close> \<open>- 1074 < e\<close> by (simp add: pack_double_def)
      qed
      have "unat (m AND (push_bit 52 1 - 1)) = ?f"
        unfolding unat_and_mask M(1) using m by (simp add: mod_if)
      then have "unat (pack_double m e) = k * 2 ^ 52 + ?f"
        unfolding pd using k(2) m by (subst unat_or_shifted) (simp_all add: unat_of_nat)
      then show ?thesis
        using double_val_fields [of k ?f "pack_double m e"] fields_unique [of k ?f "pack_double m e"] m k V
        by (simp add: of_nat_diff)
    qed
  qed
  then show "double_val (pack_double m e) = V" "biased_exp (pack_double m e) < 2047" by simp_all
qed

section \<open>The nearest double\<close>

text \<open>
  \<open>a\<close> is the double nearest to \<open>x = N / D * 2 ^ p\<close>, ties to even: infinity when the rounded value is not below
  \<open>2 ^ 1024\<close>.
\<close>

definition nearest_double :: "nat \<Rightarrow> nat \<Rightarrow> int \<Rightarrow> u64 \<Rightarrow> bool" where
  "nearest_double N D p a \<longleftrightarrow>
     (\<exists>E. in_binade N D p E \<and>
        (if round_double JS_RNDN N D p E < 2 powi 1024
         then biased_exp a < 2047 \<and> double_val a = round_double JS_RNDN N D p E
         else a = INFINITY_BITS))"

lemma two_powi_add: "(2 :: real) powi (a + b) = 2 powi a * 2 powi b"
  by (simp add: power_int_add)

lemma scaled_fraction:
  assumes "0 < D"
  shows "real (N * 2 ^ nat (p - q)) / real (D * 2 ^ nat (q - p)) = real N / real D * 2 powi (p - q)"
proof (cases "q \<le> p")
  case True
  then show ?thesis by (simp add: power_int_def)
next
  case False
  then have "(2 :: real) powi (p - q) = 1 / 2 ^ nat (q - p)" by (simp add: power_int_def power_one_over)
  then show ?thesis using False by simp
qed

lemma real_div_le: "0 < d \<Longrightarrow> real k \<le> real n / real d \<Longrightarrow> k \<le> n div d"
proof -
  assume d: "0 < d" and le: "real k \<le> real n / real d"
  then have "real (k * d) \<le> real n" by (simp add: field_simps)
  then have "k * d \<le> n" by (simp only: of_nat_le_iff)
  then show "k \<le> n div d" using d by (simp add: less_eq_div_iff_mult_less_eq)
qed

lemma round_double_overflow:
  assumes D: "0 < D" and bin: "in_binade N D p E" and E: "1025 \<le> E"
  shows "2 powi 1024 \<le> round_double rnd_mode N D p E"
proof -
  have q: "double_ulp E = E - 53" using E by (simp add: double_ulp_def)
  let ?n = "N * 2 ^ nat (p - (E - 53))" and ?d = "D * 2 ^ nat ((E - 53) - p)"
  have "2 powi (E - 1) * 2 powi (- (E - 53)) \<le> real N / real D * 2 powi p * 2 powi (- (E - 53))"
    using bin by (intro mult_right_mono) (auto simp: in_binade_def)
  moreover have "2 powi (E - 1) * 2 powi (- (E - 53)) = (2 :: real) ^ 52"
    by (subst power_int_add [symmetric]) auto
  moreover have "2 powi p * 2 powi (- (E - 53)) = (2 :: real) powi (p - (E - 53))"
    by (simp only: two_powi_add [symmetric] diff_conv_add_uminus)
  ultimately have "real (2 ^ 52) \<le> real ?n / real ?d"
    unfolding scaled_fraction [OF D] by (simp add: mult.assoc)
  then have "2 ^ 52 \<le> ?n div ?d" using D by (intro real_div_le) auto
  then have "2 ^ 52 \<le> round_div rnd_mode ?n ?d" using round_div_bounds(1) [of ?n ?d rnd_mode] by linarith
  then have "(2 :: real) ^ 52 \<le> real (round_div rnd_mode ?n ?d)"
    using of_nat_le_iff [of "2 ^ 52" "round_div rnd_mode ?n ?d", where ?'a = real] by simp
  moreover have "(2 :: real) powi (1025 - 53) \<le> 2 powi (E - 53)" using E by (intro power_int_increasing) auto
  ultimately have "2 ^ 52 * 2 powi (1025 - 53) \<le> real (round_div rnd_mode ?n ?d) * 2 powi (E - 53)"
    by (intro mult_mono) auto
  moreover have "2 ^ 52 * 2 powi (1025 - 53) = (2 :: real) powi 1024" by (simp add: power_add [symmetric])
  ultimately show ?thesis unfolding round_double_def Let_def q by (simp only:)
qed

lemma round_double_underflow:
  assumes D: "0 < D" and bin: "in_binade N D p E" and E: "E \<le> - 1075"
  shows "round_double rnd_mode N D p E = 0"
proof -
  have q: "double_ulp E = - 1074" using E by (simp add: double_ulp_def)
  let ?n = "N * 2 ^ nat (p - (- 1074))" and ?d = "D * 2 ^ nat ((- 1074) - p)"
  have "real ?n / real ?d = real N / real D * 2 powi p * 2 powi 1074"
    unfolding scaled_fraction [OF D] by (simp only: mult.assoc two_powi_add diff_minus_eq_add)
  also have "\<dots> < 2 powi E * 2 powi 1074" using bin by (intro mult_strict_right_mono) (auto simp: in_binade_def)
  also have "\<dots> = 2 powi (E + 1074)" by (simp only: two_powi_add)
  also have "\<dots> \<le> 2 powi (- 1)" using E by (intro power_int_increasing) auto
  finally have "real ?n / real ?d < 1 / 2" by (simp only: power_int_minus1_right inverse_eq_divide)
  then have "real (2 * ?n) < real ?d" using D by (simp add: field_simps)
  then have "2 * ?n < ?d" by (simp only: of_nat_less_iff)
  then have "round_div rnd_mode ?n ?d = 0" by (rule round_div_half)
  then show ?thesis unfolding round_double_def Let_def q by simp
qed

lemma in_binade_exists:
  assumes "0 < N" "0 < D"
  shows "\<exists>E. in_binade N D p E"
proof -
  have "D < 2 ^ D" by (rule less_exp)
  then have "D * 1 \<le> N * 2 ^ D" using assms by (metis less_or_eq_imp_le mult.commute mult_le_mono nat_mult_1_right Suc_leI One_nat_def)
  then have "0 < N * 2 ^ D div D" using assms by (simp add: div_greater_zero_iff)
  then show ?thesis using in_binade_quotient [OF assms(2) _ refl] by blast
qed

lemma in_binade_mono:
  assumes "in_binade N D p E" "2 powi k \<le> real N / real D * 2 powi p"
  shows "k + 1 \<le> E"
proof (rule ccontr)
  assume "\<not> k + 1 \<le> E"
  then have "(2 :: real) powi E \<le> 2 powi k" by (intro power_int_increasing) auto
  then show False using assms by (simp add: in_binade_def)
qed

lemma in_binade_mono':
  assumes "in_binade N D p E" "real N / real D * 2 powi p < 2 powi k"
  shows "E \<le> k"
proof (rule ccontr)
  assume "\<not> E \<le> k"
  then have "(2 :: real) powi k \<le> 2 powi (E - 1)" by (intro power_int_increasing) auto
  then show False using assms by (simp add: in_binade_def)
qed

lemma nearest_overflow:
  assumes "0 < N" "0 < D" "2 powi 1024 \<le> real N / real D * 2 powi p"
  shows "nearest_double N D p INFINITY_BITS"
proof -
  obtain E where E: "in_binade N D p E" using in_binade_exists assms by blast
  have "2 powi 1024 \<le> round_double JS_RNDN N D p E"
    using in_binade_mono [OF E assms(3)] by (intro round_double_overflow [OF assms(2) E]) simp
  then show ?thesis using E unfolding nearest_double_def by (intro exI [of _ E]) (simp only: linorder_not_less [symmetric], simp)
qed

lemma double_zero: "double_val 0 = 0" "biased_exp 0 = 0"
  using double_val_fields [of 0 0 0] fields_unique [of 0 0 0] by simp_all

lemma nearest_underflow:
  assumes "0 < N" "0 < D" "real N / real D * 2 powi p < 2 powi (- 1075)"
  shows "nearest_double N D p 0"
proof -
  obtain E where E: "in_binade N D p E" using in_binade_exists assms by blast
  have "round_double JS_RNDN N D p E = 0"
    by (rule round_double_underflow [OF assms(2) E in_binade_mono' [OF E assms(3)]])
  then show ?thesis using E double_zero unfolding nearest_double_def by (intro exI [of _ E]) simp
qed

lemma pack_nearest:
  assumes M: "m = 0 \<or> 2 ^ 52 \<le> unat m \<and> unat m < 2 ^ 53" and bin: "in_binade N D p E"
    and V: "real (unat m) * 2 powi (e - 53) = round_double JS_RNDN N D p E"
  shows "nearest_double N D p (pack_double m e)"
proof -
  define U where "U = unat m"
  define x where "x = round_double JS_RNDN N D p E"
  have U: "U = 0 \<or> 2 ^ 52 \<le> U \<and> U < 2 ^ 53" using M by (auto simp: U_def)
  have xU: "x = real U * 2 powi (e - 53)" using V by (simp only: x_def U_def)
  show ?thesis
  proof (cases "x < 2 powi 1024")
    case True
    obtain K where "x = real K * 2 powi double_ulp E" unfolding x_def round_double_def Let_def by blast
    moreover have "(2 :: real) powi double_ulp E = 2 ^ nat (double_ulp E + 1074) * 2 powi (- 1074)"
    proof -
      have "0 \<le> double_ulp E + 1074" by (simp add: double_ulp_def)
      then show ?thesis using two_powi_add [of "double_ulp E + 1074" "- 1074"] by (simp add: power_int_def)
    qed
    ultimately have "x = real (K * 2 ^ nat (double_ulp E + 1074)) * 2 powi (- 1074)" by (simp only: of_nat_mult of_nat_power of_nat_numeral mult.assoc)
    from pack_double_val [OF U_def [symmetric] U xU this True] show ?thesis
      using bin True unfolding nearest_double_def x_def by (intro exI [of _ E]) simp
  next
    case False
    have "1024 < e"
    proof (rule ccontr)
      assume "\<not> 1024 < e"
      then have "(2 :: real) powi (e - 53) \<le> 2 powi (1024 - 53)" by (intro power_int_increasing) auto
      moreover have "real U < 2 ^ 53" using U of_nat_less_iff [of U "2 ^ 53", where ?'a = real] by auto
      ultimately have "x < 2 ^ 53 * 2 powi (1024 - 53)" unfolding xU by (intro mult_less_le_imp_less) auto
      then show False using False by simp
    qed
    moreover have "m \<noteq> 0" using False xU by (auto simp: U_def)
    ultimately show ?thesis
      using bin False unfolding nearest_double_def x_def by (intro exI [of _ E]) (simp add: pack_double_def)
  qed
qed

lemma ctz_nat_split: "0 < n \<Longrightarrow> n = drop_bit (ctz_nat n) n * 2 ^ ctz_nat n \<and> odd (drop_bit (ctz_nat n) n)"
proof (induction n rule: ctz_nat.induct)
  case (1 n)
  show ?case
  proof (cases "odd n")
    case True
    then show ?thesis by (simp add: ctz_nat.simps)
  next
    case False
    then have "n div 2 = drop_bit (ctz_nat (n div 2)) (n div 2) * 2 ^ ctz_nat (n div 2) \<and> odd (drop_bit (ctz_nat (n div 2)) (n div 2))"
      using 1 by auto
    moreover have "ctz_nat n = Suc (ctz_nat (n div 2))" using False 1(2) by (subst ctz_nat.simps) simp
    moreover have "n = 2 * (n div 2)" using False by simp
    ultimately show ?thesis by (simp add: drop_bit_Suc)
  qed
qed

lemma radix_odd_part:
  assumes "2 \<le> radix" "radix \<le> 36"
  shows "radix = drop_bit (ctz32 radix) radix * 2 ^ ctz32 radix" "odd (drop_bit (ctz32 radix) radix)"
    "drop_bit (ctz32 radix) radix \<le> 35"
proof -
  note s = ctz_nat_split [of radix, folded ctz32_def]
  show eq: "radix = drop_bit (ctz32 radix) radix * 2 ^ ctz32 radix" and od: "odd (drop_bit (ctz32 radix) radix)"
    using s assms by auto
  have "drop_bit (ctz32 radix) radix * 1 \<le> drop_bit (ctz32 radix) radix * 2 ^ ctz32 radix" by (rule mult_le_mono2) simp
  then have "drop_bit (ctz32 radix) radix \<le> 36" using eq assms by linarith
  moreover have "drop_bit (ctz32 radix) radix \<noteq> 36" using od by auto
  ultimately show "drop_bit (ctz32 radix) radix \<le> 35" by linarith
qed

text \<open>
  The bounds of the exponent tables.  \<open>pow_lb r n\<close> is a lower bound \<open>m * 2 ^ t\<close> of \<open>r ^ n\<close> whose mantissa keeps 16
  bits, so that the powers of the tables can be compared without computing them.
\<close>

function pow_lb :: "nat \<Rightarrow> nat \<Rightarrow> nat \<times> nat" where
  "pow_lb r n =
     (if n = 0 then (1, 0)
      else let (m, t) = pow_lb r (n div 2); m = m * m * (if odd n then r else 1); k = nat_bits m - 16
           in (m div 2 ^ k, 2 * t + k))"
  by pat_completeness auto
termination by (relation "measure snd") auto

declare pow_lb.simps [simp del]

lemma pow_lb_le: "pow_lb r n = (m, t) \<Longrightarrow> m * 2 ^ t \<le> r ^ n"
proof (induction r n arbitrary: m t rule: pow_lb.induct)
  case (1 r n)
  show ?case
  proof (cases "n = 0")
    case True
    then show ?thesis using 1(2) by (simp add: pow_lb.simps)
  next
    case False
    obtain m1 t1 where h: "pow_lb r (n div 2) = (m1, t1)" by fastforce
    define m2 k where "m2 = m1 * m1 * (if odd n then r else 1)" and "k = nat_bits m2 - 16"
    have mt: "m = m2 div 2 ^ k" "t = 2 * t1 + k"
      using 1(2) False h by (auto simp: pow_lb.simps [of r n] m2_def k_def Let_def)
    have ih: "m1 * 2 ^ t1 \<le> r ^ (n div 2)" using 1(1) [OF False h] .
    have "r ^ n = r ^ (n div 2) * r ^ (n div 2) * (if odd n then r else 1)"
      by (cases "odd n") (auto simp: power_add [symmetric] mult_2 elim!: oddE evenE)
    moreover have "m2 * 2 ^ (2 * t1) = (m1 * 2 ^ t1) * (m1 * 2 ^ t1) * (if odd n then r else 1)"
      by (simp add: m2_def mult_2 power_add)
    ultimately have "m2 * 2 ^ (2 * t1) \<le> r ^ n" using ih by (simp only: mult_le_mono)
    moreover have "m * 2 ^ t = m2 div 2 ^ k * 2 ^ k * 2 ^ (2 * t1)" unfolding mt by (simp add: power_add)
    moreover have "m2 div 2 ^ k * 2 ^ k * 2 ^ (2 * t1) \<le> m2 * 2 ^ (2 * t1)" by (rule mult_le_mono1) (rule div_times_less_eq_dividend)
    ultimately show ?thesis by linarith
  qed
qed

definition pow_ge_exp :: "nat \<Rightarrow> nat \<Rightarrow> nat \<Rightarrow> bool" where
  "pow_ge_exp r n j \<longleftrightarrow> (let (m, t) = pow_lb r n in 0 < m \<and> j < t + nat_bits m)"

lemma pow_ge_exp: "pow_ge_exp r n j \<Longrightarrow> 2 ^ j \<le> r ^ n"
proof -
  assume "pow_ge_exp r n j"
  then obtain m t where lb: "pow_lb r n = (m, t)" "0 < m" "j < t + nat_bits m"
    by (auto simp: pow_ge_exp_def split: prod.splits)
  have "(2 :: nat) ^ j \<le> 2 ^ (nat_bits m - 1 + t)" using lb nat_bits_pos [OF lb(2)] by (intro power_increasing) auto
  also have "\<dots> \<le> m * 2 ^ t" unfolding power_add using nat_bits_lower [OF lb(2)] by (rule mult_le_mono1)
  also have "\<dots> \<le> r ^ n" by (rule pow_lb_le [OF lb(1)])
  finally show ?thesis .
qed

lemma exponent_tables:
  assumes "2 \<le> radix" "radix \<le> 36"
  shows "0 \<le> max_exponent ! (radix - 2)" "min_exponent ! (radix - 2) \<le> 0"
    "2 ^ 1024 \<le> radix ^ nat (max_exponent ! (radix - 2))" "2 ^ 1075 \<le> radix ^ nat (- (min_exponent ! (radix - 2)))"
proof -
  have mem: "radix \<in> set [2..<37]" using assms by (simp only: set_upt atLeastLessThan_iff) simp
  have sgn: "\<forall>r \<in> set [2..<37]. 0 \<le> max_exponent ! (r - 2) \<and> min_exponent ! (r - 2) \<le> 0"
    by (simp add: max_exponent_def min_exponent_def)
  have mx: "\<forall>r \<in> set [2..<37]. pow_ge_exp r (nat (max_exponent ! (r - 2))) 1024"
    by (simp add: max_exponent_def pow_ge_exp_def pow_lb.simps nat_bits_numeral)
  have mn: "\<forall>r \<in> set [2..<37]. pow_ge_exp r (nat (- (min_exponent ! (r - 2)))) 1075"
    by (simp add: min_exponent_def pow_ge_exp_def pow_lb.simps nat_bits_numeral)
  show "0 \<le> max_exponent ! (radix - 2)" "min_exponent ! (radix - 2) \<le> 0" using bspec [OF sgn mem] by simp_all
  show "2 ^ 1024 \<le> radix ^ nat (max_exponent ! (radix - 2))" "2 ^ 1075 \<le> radix ^ nat (- (min_exponent ! (radix - 2)))"
    using pow_ge_exp [OF bspec [OF mx mem]] pow_ge_exp [OF bspec [OF mn mem]] by (simp_all only:)
qed

lemma i32_id: "- (2 ^ 31) \<le> x \<Longrightarrow> x < 2 ^ 31 \<Longrightarrow> i32 x = x"
  by (simp add: i32_def)

text \<open>\<open>radix ^ f\<close> as a real, through the odd part of the radix.\<close>

lemma radix_powi:
  assumes "radix = radix1 * 2 ^ s" "0 < radix1"
  shows "real (radix1 ^ nat f) / real (radix1 ^ nat (- f)) * 2 powi (f * int s) = real radix powi f"
proof -
  have two: "(2 :: real) powi (f * int s) = (2 ^ s) powi f"
    using power_int_mult [of "2 :: real" "int s" f] by (simp add: mult.commute)
  have "real radix powi f = real radix1 powi f * (2 ^ s) powi f" using assms by (simp add: power_int_mult_distrib)
  moreover have "real (radix1 ^ nat f) / real (radix1 ^ nat (- f)) = real radix1 powi f"
    using assms(2) by (cases "0 \<le> f") (simp_all add: power_int_def power_inverse divide_inverse)
  ultimately show ?thesis using two by simp
qed

lemma scaled_range:
  assumes dc: "radix ^ (dc - 1) \<le> N" "N < radix ^ dc" "0 < dc" and radix: "2 \<le> radix"
  shows "real radix powi (f + int dc - 1) \<le> real N * real radix powi f" "real N * real radix powi f < real radix powi (f + int dc)"
proof -
  have pos: "0 < real radix powi f" using radix by simp
  have lo: "real radix ^ (dc - 1) \<le> real N" using dc(1) of_nat_le_iff [of "radix ^ (dc - 1)" N, where ?'a = real] by simp
  have hi: "real N < real radix ^ dc" using dc(2) of_nat_less_iff [of N "radix ^ dc", where ?'a = real] by simp
  have "real radix powi (f + int dc - 1) = real radix powi (int (dc - 1) + f)" using dc(3) by (simp add: of_nat_diff algebra_simps)
  also have "\<dots> = real radix ^ (dc - 1) * real radix powi f" using radix by (simp add: power_int_add)
  finally show "real radix powi (f + int dc - 1) \<le> real N * real radix powi f" using lo pos by simp
  have "real radix powi (f + int dc) = real radix ^ dc * real radix powi f" using radix by (simp add: power_int_add)
  then show "real N * real radix powi f < real radix powi (f + int dc)" using hi pos by simp
qed

lemma radix_powi_table:
  assumes "2 \<le> radix" "radix \<le> 36"
  shows "max_exponent ! (radix - 2) \<le> k \<Longrightarrow> 2 powi 1024 \<le> real radix powi k"
    "k \<le> min_exponent ! (radix - 2) \<Longrightarrow> real radix powi k \<le> 2 powi (- 1075)"
proof -
  note t = exponent_tables [OF assms]
  show "2 powi 1024 \<le> real radix powi k" if "max_exponent ! (radix - 2) \<le> k"
  proof -
    have "real (2 ^ 1024) \<le> real (radix ^ nat (max_exponent ! (radix - 2)))" using t(3) by (simp only: of_nat_le_iff)
    then have "2 powi 1024 \<le> real radix powi (max_exponent ! (radix - 2))" using t(1) by (simp add: power_int_def)
    also have "\<dots> \<le> real radix powi k" using that assms by (intro power_int_increasing) auto
    finally show ?thesis .
  qed
  show "real radix powi k \<le> 2 powi (- 1075)" if "k \<le> min_exponent ! (radix - 2)"
  proof -
    have "real (2 ^ 1075) \<le> real (radix ^ nat (- (min_exponent ! (radix - 2))))" using t(4) by (simp only: of_nat_le_iff)
    then have "2 ^ 1075 \<le> real radix powi (- (min_exponent ! (radix - 2)))" using t(2) by (simp add: power_int_def)
    then have "inverse (real radix powi (- (min_exponent ! (radix - 2)))) \<le> inverse (2 ^ 1075)" by (intro le_imp_inverse_le) auto
    then have "real radix powi (min_exponent ! (radix - 2)) \<le> 2 powi (- 1075)" by (simp add: power_int_minus)
    moreover have "real radix powi k \<le> real radix powi (min_exponent ! (radix - 2))" using that assms by (intro power_int_increasing) auto
    ultimately show ?thesis by linarith
  qed
qed

lemma pow2_range:
  assumes "0 < N" "2 ^ a \<le> N" "N < 2 ^ b"
  shows "real N / real 1 * 2 powi p < 2 powi (int b + p)" "2 powi (int a + p) \<le> real N / real 1 * 2 powi p"
proof -
  have "real (2 ^ a) \<le> real N" "real N < real (2 ^ b)" using assms by (simp_all only: of_nat_le_iff of_nat_less_iff)
  then show "real N / real 1 * 2 powi p < 2 powi (int b + p)" "2 powi (int a + p) \<le> real N / real 1 * 2 powi p"
    by (simp_all add: two_powi_add)
qed

lemma round_to_d_nearest:
  assumes n: "mpb_norm a" and v: "0 < limbs_val a" and res: "round_to_d a eo JS_RNDN = (m, e)"
  shows "nearest_double (limbs_val a) 1 (- eo) (pack_double m e)"
proof (rule pack_nearest)
  note r = round_to_d_val [OF n v res refl]
  show "m = 0 \<or> 2 ^ 52 \<le> unat m \<and> unat m < 2 ^ 53" by (rule r(1))
  show "in_binade (limbs_val a) 1 (- eo) (int (nat_bits (limbs_val a)) - eo)" by (rule in_binade_nat_bits [OF v])
  show "real (unat m) * 2 powi (e - 53) = round_double JS_RNDN (limbs_val a) 1 (- eo) (int (nat_bits (limbs_val a)) - eo)"
    unfolding round_double_1 by (rule r(2))
qed

lemma atod_convert_bin:
  assumes rb: "drop_bit (ctz32 radix) radix = 1" "2 \<le> radix" "radix \<le> 36" and n: "mpb_norm tmp0"
    and dc: "radix ^ (dc - 1) \<le> limbs_val tmp0" "limbs_val tmp0 < radix ^ dc" "0 < dc"
    and small: "\<bar>expn\<bar> \<le> 10 ^ 8" "\<bar>off\<bar> \<le> 10 ^ 8" "dc \<le> 10 ^ 8"
  shows "nearest_double (limbs_val tmp0) 1 ((if is_bin_exp then expn else expn * int (ctz32 radix)) - off * int (ctz32 radix))
    (atod_convert radix tmp0 expn is_bin_exp off (int dc))"
proof -
  define k where "k = ctz32 radix"
  have radix: "radix = 2 ^ k" using radix_odd_part(1) [OF rb(2,3)] rb(1) by (simp add: k_def)
  have k: "1 \<le> k" "k \<le> 5"
  proof -
    show "1 \<le> k" using radix rb(2) by (cases k) auto
    have "(2 :: nat) ^ k < 2 ^ 6" using radix rb(3) by simp
    then have "k < 6" by (rule power_less_imp_less_exp [rotated]) simp
    then show "k \<le> 5" by simp
  qed
  have mul: "\<bar>x * int k\<bar> \<le> 5 * 10 ^ 8" if "\<bar>x\<bar> \<le> 10 ^ 8" for x
    using mult_mono [OF that, of "int k" 5] k by (simp add: abs_mult)
  define p where "p = (if is_bin_exp then expn else expn * int k) - off * int k"
  have p: "\<bar>p\<bar> \<le> 10 ^ 9" using mul [OF small(1)] mul [OF small(2)] small(1) by (auto simp: p_def)
  have e1: "i32 (expn * int k) = expn * int k" using mul [OF small(1)] by (intro i32_id) auto
  have e2: "i32 ((if is_bin_exp then expn else i32 (expn * int k)) - off * int k) = p"
    unfolding e1 p_def [symmetric] using p by (intro i32_id) auto
  have dk: "\<bar>int dc * int k\<bar> \<le> 5 * 10 ^ 8" using small(3) by (intro mul) simp
  have e3: "i32 (p + int dc * int k) = p + int dc * int k"
  proof (rule i32_id)
    have w: "0 \<le> int dc * int k" "int dc * int k \<le> 500000000" and "p \<le> 1000000000" "- 1000000000 \<le> p"
      using p dk by auto
    then have "- 2147483648 \<le> p + int dc * int k" "p + int dc * int k < 2147483648" by linarith+
    then show "- (2 ^ 31) \<le> p + int dc * int k" "p + int dc * int k < 2 ^ 31" by simp_all
  qed
  obtain m e where rd: "round_to_d tmp0 (- p) JS_RNDN = (m, e)" by fastforce
  have conv: "atod_convert radix tmp0 expn is_bin_exp off (int dc) =
     (if p + int dc * int k \<ge> 1024 + int k then INFINITY_BITS
      else if p + int dc * int k \<le> - 1075 then 0 else pack_double m e)"
  proof -
    have nz: "int k \<noteq> 0" using k by simp
    show ?thesis unfolding atod_convert_def Let_def k_def [symmetric] rb(1) [folded k_def]
      by (simp only: if_True nz e2 e3 rd prod.case simp_thms)
  qed
  have pos: "0 < limbs_val tmp0"
  proof -
    have "0 < radix ^ (dc - 1)" using radix by simp
    then show ?thesis using dc(1) by linarith
  qed
  have "2 ^ (k * (dc - 1)) \<le> limbs_val tmp0" "limbs_val tmp0 < 2 ^ (k * dc)"
    using dc(1,2) unfolding radix by (simp_all only: power_mult)
  note range = pow2_range [OF pos this, of p]
  have kd: "int (k * (dc - 1)) = int dc * int k - int k" using dc(3) by (simp add: of_nat_diff algebra_simps)
  show ?thesis
  proof -
    consider "p + int dc * int k \<ge> 1024 + int k" | "p + int dc * int k \<le> - 1075"
      | "\<not> p + int dc * int k \<ge> 1024 + int k" "\<not> p + int dc * int k \<le> - 1075" by blast
    then have "nearest_double (limbs_val tmp0) 1 p (atod_convert radix tmp0 expn is_bin_exp off (int dc))"
    proof cases
      case 1
      have "(2 :: real) powi 1024 \<le> 2 powi (int (k * (dc - 1)) + p)" using 1 unfolding kd by (intro power_int_increasing) auto
      also note range(2)
      finally show ?thesis using 1 pos conv nearest_overflow [of "limbs_val tmp0" 1 p] by simp
    next
      case 2
      note range(1)
      also have "(2 :: real) powi (int (k * dc) + p) \<le> 2 powi (- 1075)"
        using 2 by (intro power_int_increasing) (auto simp: mult.commute add.commute)
      finally show ?thesis using 2 pos conv nearest_underflow [of "limbs_val tmp0" 1 p] by simp
    next
      case 3
      then show ?thesis using conv round_to_d_nearest [OF n pos rd] by simp
    qed
    then show ?thesis by (simp only: p_def k_def)
  qed
qed

lemma atod_convert_odd:
  assumes r: "drop_bit (ctz32 radix) radix \<noteq> 1" "2 \<le> radix" "radix \<le> 36" and n: "mpb_norm tmp0"
    and dc: "radix ^ (dc - 1) \<le> limbs_val tmp0" "limbs_val tmp0 < radix ^ dc" "0 < dc"
    and int: "- (2 ^ 31) \<le> expn - off" "expn - off + int dc < 2 ^ 31"
  shows "nearest_double (limbs_val tmp0 * drop_bit (ctz32 radix) radix ^ nat (expn - off))
      (drop_bit (ctz32 radix) radix ^ nat (- (expn - off))) ((expn - off) * int (ctz32 radix))
    (atod_convert radix tmp0 expn is_bin_exp off (int dc))"
proof -
  define s radix1 f where "s = ctz32 radix" and "radix1 = drop_bit (ctz32 radix) radix" and "f = expn - off"
  note odd = radix_odd_part [OF r(2,3), folded s_def radix1_def, unfolded s_def [symmetric], folded radix1_def]
  have r1: "0 < radix1" using odd(2) by (cases radix1) auto
  have e1: "i32 (expn - off) = f" unfolding f_def using int by (intro i32_id) auto
  have e2: "i32 (f + int dc) = f + int dc" unfolding f_def using int by (intro i32_id) auto
  obtain m e where rd: "mul_pow_round_to_d tmp0 radix1 s f JS_RNDN = (m, e)" by fastforce
  have conv: "atod_convert radix tmp0 expn is_bin_exp off (int dc) =
     (if f + int dc \<ge> max_exponent ! (radix - 2) + 1 then INFINITY_BITS
      else if f + int dc \<le> min_exponent ! (radix - 2) then 0 else pack_double m e)"
    unfolding atod_convert_def Let_def using r(1) e1 e2 rd by (simp add: s_def radix1_def)
  have pos: "0 < limbs_val tmp0"
  proof -
    have "0 < radix ^ (dc - 1)" using r(2) by simp
    then show ?thesis using dc(1) by linarith
  qed
  let ?N = "limbs_val tmp0 * radix1 ^ nat f" and ?D = "radix1 ^ nat (- f)"
  have ND: "0 < ?N" "0 < ?D" using pos r1 by simp_all
  have x: "real ?N / real ?D * 2 powi (f * int s) = real (limbs_val tmp0) * real radix powi f"
    unfolding radix_powi [OF odd(1) r1, of f, symmetric] by simp
  note range = scaled_range [OF dc r(2), of f]
  consider "f + int dc \<ge> max_exponent ! (radix - 2) + 1" | "\<not> f + int dc \<ge> max_exponent ! (radix - 2) + 1" "f + int dc \<le> min_exponent ! (radix - 2)"
    | "\<not> f + int dc \<ge> max_exponent ! (radix - 2) + 1" "\<not> f + int dc \<le> min_exponent ! (radix - 2)" by blast
  then have "nearest_double ?N ?D (f * int s) (atod_convert radix tmp0 expn is_bin_exp off (int dc))"
  proof cases
    case 1
    then have "2 powi 1024 \<le> real radix powi (f + int dc - 1)" by (intro radix_powi_table(1) [OF r(2,3)]) simp
    also note range(1)
    finally show ?thesis using nearest_overflow [OF ND, of "f * int s"] conv 1 unfolding x by simp
  next
    case 2
    note range(2)
    also have "real radix powi (f + int dc) \<le> 2 powi (- 1075)" using 2 by (intro radix_powi_table(2) [OF r(2,3)])
    finally show ?thesis using nearest_underflow [OF ND, of "f * int s"] conv 2 unfolding x by simp
  next
    case 3
    have "nearest_double ?N ?D (f * int s) (pack_double m e)"
      using mul_pow_round_to_d_val [OF odd(2,3) n pos, where radix_shift = s and f = f and rnd_mode = JS_RNDN] rd by (auto intro: pack_nearest)
    then show ?thesis using conv 3 by simp
  qed
  then show ?thesis by (simp only: s_def radix1_def f_def)
qed

section \<open>Reading digits\<close>

lemma mpb_mul1_base_val:
  assumes "mpb_norm r"
  shows "limbs_val (mpb_mul1_base r b a) = limbs_val r * (if b = 0 then 2 ^ 32 else unat b) + unat a" "mpb_norm (mpb_mul1_base r b a)"
proof -
  consider "r = [0]" | "\<not> (r ! 0 = 0 \<and> length r = 1)" using assms by (cases r) auto
  then have "limbs_val (mpb_mul1_base r b a) = limbs_val r * (if b = 0 then 2 ^ 32 else unat b) + unat a \<and> mpb_norm (mpb_mul1_base r b a)"
  proof cases
    case 1
    then show ?thesis by (simp add: mpb_mul1_base_def mpb_norm_def)
  next
    case 2
    obtain tab h where mul: "mp_mul1 r b a = (tab, h)" by fastforce
    show ?thesis
    proof (cases "b = 0")
      case True
      then have "mpb_mul1_base r b a = mpb_renorm (a # r)" using 2 by (simp only: mpb_mul1_base_def if_False if_True simp_thms)
      then show ?thesis using True by simp
    next
      case False
      then have eq: "mpb_mul1_base r b a = mpb_renorm (tab @ [h])" using 2 mul by (simp only: mpb_mul1_base_def if_False Let_def prod.case)
      then show ?thesis using False mp_mul1_val [OF mul] by (simp add: limbs_val_append mult.commute)
    qed
  qed
  then show "limbs_val (mpb_mul1_base r b a) = limbs_val r * (if b = 0 then 2 ^ 32 else unat b) + unat a" "mpb_norm (mpb_mul1_base r b a)" by simp_all
qed

lemma radix_base_exact:
  assumes "2 \<le> radix" "radix \<le> 36"
  shows "0 < digits_per_limb_table ! (radix - 2)"
    "(if radix_base_table ! (radix - 2) = 0 then 2 ^ 32 else unat (radix_base_table ! (radix - 2))) = radix ^ (digits_per_limb_table ! (radix - 2))"
    "radix ^ (digits_per_limb_table ! (radix - 2)) \<le> 2 ^ 32" "2 ^ 53 \<le> radix ^ (atod_max_digits_table ! (radix - 2))"
proof -
  have mem: "radix \<in> set [2..<37]" using assms by (simp only: set_upt atLeastLessThan_iff) simp
  have "\<forall>r \<in> set [2..<37]. 0 < digits_per_limb_table ! (r - 2) \<and>
     (if radix_base_table ! (r - 2) = 0 then 2 ^ 32 else unat (radix_base_table ! (r - 2))) = r ^ (digits_per_limb_table ! (r - 2)) \<and>
     r ^ (digits_per_limb_table ! (r - 2)) \<le> 2 ^ 32 \<and> 2 ^ 53 \<le> r ^ (atod_max_digits_table ! (r - 2))"
    by (simp add: digits_per_limb_table_def radix_base_table_def atod_max_digits_table_def)
  from bspec [OF this mem] show "0 < digits_per_limb_table ! (radix - 2)"
    "(if radix_base_table ! (radix - 2) = 0 then 2 ^ 32 else unat (radix_base_table ! (radix - 2))) = radix ^ (digits_per_limb_table ! (radix - 2))"
    "radix ^ (digits_per_limb_table ! (radix - 2)) \<le> 2 ^ 32" "2 ^ 53 \<le> radix ^ (atod_max_digits_table ! (radix - 2))" by blast+
qed

text \<open>After \<open>n\<close> digits of value \<open>v\<close> the number is in \<open>tmp0\<close> and, for the digits of the current limb, in \<open>cur_limb\<close>.\<close>

definition atod_inv :: "nat \<Rightarrow> nat \<Rightarrow> nat \<Rightarrow> atod_digits \<Rightarrow> bool" where
  "atod_inv radix n v st \<longleftrightarrow>
     mpb_norm (ad_tmp0 st) \<and> ad_digit_count st = n \<and> ad_extra_digits st = 0 \<and>
     limbs_val (ad_tmp0 st) * radix ^ ad_limb_digit_count st + unat (ad_cur_limb st) = v \<and>
     unat (ad_cur_limb st) < radix ^ ad_limb_digit_count st \<and>
     ad_limb_digit_count st < digits_per_limb_table ! (radix - 2)"

lemma atod_digit_inv:
  assumes r: "2 \<le> radix" "radix \<le> 36" and inv: "atod_inv radix n v st" and c: "c < radix"
    and max: "n < atod_max_digits_table ! (radix - 2)"
  shows "atod_inv radix (Suc n) (v * radix + c) (atod_digit radix c st)"
proof -
  let ?d = "digits_per_limb_table ! (radix - 2)" and ?l = "ad_limb_digit_count st"
  note i = inv [unfolded atod_inv_def] and b = radix_base_exact [OF r]
  define cur where "cur = ad_cur_limb st * of_nat radix + of_nat c"
  have lt: "unat (ad_cur_limb st) * radix + c < radix ^ Suc ?l"
  proof -
    have "(unat (ad_cur_limb st) + 1) * radix \<le> radix ^ ?l * radix" using i by (intro mult_le_mono1) simp
    then show ?thesis using c by (simp add: mult.commute)
  qed
  have le: "radix ^ Suc ?l \<le> 2 ^ 32"
  proof -
    have "radix ^ Suc ?l \<le> radix ^ ?d" using i r(1) by (intro power_increasing) auto
    then show ?thesis using b(3) by linarith
  qed
  have cur: "unat cur = unat (ad_cur_limb st) * radix + c"
  proof -
    have "cur = of_nat (unat (ad_cur_limb st) * radix + c)" by (simp add: cur_def)
    moreover have "unat (ad_cur_limb st) * radix + c < 2 ^ LENGTH(32)" using lt le by simp
    ultimately show ?thesis by (simp only: unat_of_nat mod_less)
  qed
  have val: "limbs_val (ad_tmp0 st) * radix ^ Suc ?l + unat cur = v * radix + c"
    using i cur by (auto simp: algebra_simps)
  show ?thesis
  proof (cases "Suc ?l = ?d")
    case True
    have "atod_digit radix c st = st\<lparr>ad_cur_limb := 0, ad_limb_digit_count := 0, ad_digit_count := Suc n,
        ad_tmp0 := mpb_mul1_base (ad_tmp0 st) (radix_base_table ! (radix - 2)) cur\<rparr>"
      using i max True by (simp add: atod_digit_def Let_def cur_def)
    then show ?thesis using mpb_mul1_base_val [of "ad_tmp0 st" "radix_base_table ! (radix - 2)" cur] i b(1,2) val True
      by (simp add: atod_inv_def)
  next
    case False
    have "atod_digit radix c st = st\<lparr>ad_cur_limb := cur, ad_limb_digit_count := Suc ?l, ad_digit_count := Suc n\<rparr>"
      using i max False by (simp add: atod_digit_def Let_def cur_def)
    then show ?thesis using i val lt cur False by (simp add: atod_inv_def)
  qed
qed

text \<open>The value of a string of digits.\<close>

fun digits_val :: "nat \<Rightarrow> nat \<Rightarrow> string \<Rightarrow> nat" where
  "digits_val radix v [] = v"
| "digits_val radix v (c # cs) = digits_val radix (v * radix + to_digit (of_char c)) cs"

definition digit_string :: "nat \<Rightarrow> string \<Rightarrow> bool" where
  "digit_string radix ds \<longleftrightarrow> (\<forall>c \<in> set ds. to_digit (of_char c) < radix)"

lemma to_digit_special [simp]: "to_digit 46 = 36" "to_digit 95 = 36" "to_digit 256 = 36" "to_digit 0 = 36" "to_digit 43 = 36" "to_digit 45 = 36"
  by (simp_all add: to_digit_def)

lemma chr_at_Nil [simp]: "chr_at [] i = 0"
  by (simp add: chr_at_def)

lemma chr_at_Cons [simp]: "chr_at (c # cs) 0 = of_char c"
  by (simp add: chr_at_def)

lemma digit_not_special:
  assumes "to_digit x < radix" "radix \<le> 36"
  shows "x \<noteq> 46" "x \<noteq> 95" "x \<noteq> 256" "x \<noteq> 0" "x \<noteq> 43" "x \<noteq> 45"
  using assms by (auto intro!: gr0I)

lemma read_digits_string:
  assumes r: "2 \<le> radix" "radix \<le> 36" and sep: "sep \<in> {95, 256}"
  shows "digit_string radix ds \<Longrightarrow> atod_inv radix n v st \<Longrightarrow> n + length ds \<le> atod_max_digits_table ! (radix - 2) \<Longrightarrow>
    \<exists>st'. read_digits len radix flags sep ds pos dot_pos st = ([], pos + int (length ds), dot_pos, st') \<and>
      atod_inv radix (n + length ds) (digits_val radix v ds) st'"
proof (induction ds arbitrary: pos n v st)
  case Nil
  then show ?case using r sep by (subst read_digits.simps) (auto simp: atod_dot_def)
next
  case (Cons c cs)
  have c: "to_digit (of_char c) < radix" and cs: "digit_string radix cs" using Cons.prems(1) by (auto simp: digit_string_def)
  note ns = digit_not_special [OF c r(2)]
  have inv: "atod_inv radix (Suc n) (v * radix + to_digit (of_char c)) (atod_digit radix (to_digit (of_char c)) st)"
    using Cons.prems(2,3) by (intro atod_digit_inv [OF r _ c]) auto
  from Cons.IH [OF cs inv, of "pos + 1"] Cons.prems(3) obtain st' where
    "read_digits len radix flags sep cs (pos + 1) dot_pos (atod_digit radix (to_digit (of_char c)) st) =
       ([], pos + 1 + int (length cs), dot_pos, st')"
    "atod_inv radix (Suc n + length cs) (digits_val radix (v * radix + to_digit (of_char c)) cs) st'" by auto
  then show ?case using c ns sep by (subst read_digits.simps) (auto simp: atod_dot_def)
qed

lemma skip_zeros_digit:
  assumes "to_digit (of_char c) < radix" "radix \<le> 36" "of_char c \<noteq> (48 :: nat)" "sep \<in> {95, 256}"
  shows "skip_zeros len radix flags sep (c # cs) 0 (- 1) = (c # cs, 0, - 1)"
  using assms digit_not_special [OF assms(1,2)] by (subst skip_zeros.simps) (auto simp: atod_dot_def)

lemma digits_val_bounds:
  "digit_string radix ds \<Longrightarrow> 0 < radix \<Longrightarrow> v * radix ^ length ds \<le> digits_val radix v ds \<and> digits_val radix v ds < (v + 1) * radix ^ length ds"
proof (induction ds arbitrary: v)
  case Nil
  then show ?case by simp
next
  case (Cons c cs)
  let ?w = "v * radix + to_digit (of_char c)"
  have c: "to_digit (of_char c) < radix" using Cons.prems by (simp add: digit_string_def)
  have ih: "?w * radix ^ length cs \<le> digits_val radix ?w cs \<and> digits_val radix ?w cs < (?w + 1) * radix ^ length cs"
    using Cons by (simp add: digit_string_def)
  have "v * radix ^ length (c # cs) = v * radix * radix ^ length cs" by simp
  also have "\<dots> \<le> ?w * radix ^ length cs" by (intro mult_le_mono1) simp
  finally have lo: "v * radix ^ length (c # cs) \<le> ?w * radix ^ length cs" .
  have "(?w + 1) * radix ^ length cs \<le> (v + 1) * radix * radix ^ length cs" using c by (intro mult_le_mono1) simp
  also have "\<dots> = (v + 1) * radix ^ length (c # cs)" by (simp add: algebra_simps)
  finally have hi: "(?w + 1) * radix ^ length cs \<le> (v + 1) * radix ^ length (c # cs)" .
  show ?case unfolding digits_val.simps using ih lo hi by (meson le_trans less_le_trans)
qed

lemma atod_mantissa_val:
  assumes r: "2 \<le> radix" "radix \<le> 36" and inv: "atod_inv radix n v st"
  shows "limbs_val (atod_mantissa radix st) = v" "mpb_norm (atod_mantissa radix st)"
proof -
  note i = inv [unfolded atod_inv_def]
  let ?l = "ad_limb_digit_count st" and ?P = "ucast (pow_ui (of_nat radix) (ad_limb_digit_count st)) :: limb"
  have "limbs_val (atod_mantissa radix st) = v \<and> mpb_norm (atod_mantissa radix st)"
  proof (cases "?l = 0")
    case True
    then show ?thesis using i by (simp add: atod_mantissa_def)
  next
    case False
    have un: "unat (of_nat radix :: u32) = radix" using r by (simp add: unat_of_nat)
    have "radix ^ ?l < radix ^ (digits_per_limb_table ! (radix - 2))" using i r by (intro power_strict_increasing) auto
    then have "radix ^ ?l < 2 ^ 32" using radix_base_exact(3) [OF r] by linarith
    then have P: "unat ?P = radix ^ ?l" using pow_ui_limb [of "of_nat radix" ?l] un by simp
    then have "?P \<noteq> 0" using r by (auto simp: unat_eq_zero [symmetric])
    then show ?thesis using mpb_mul1_base_val [of "ad_tmp0 st" ?P "ad_cur_limb st"] i False P
      by (simp add: atod_mantissa_def)
  qed
  then show "limbs_val (atod_mantissa radix st) = v" "mpb_norm (atod_mantissa radix st)" by simp_all
qed

text \<open>A string of digits that starts with no zero is read as the double nearest to its value.\<close>

lemma atod_number_digits:
  assumes r: "2 \<le> radix" "radix \<le> 36" and sep: "sep \<in> {95, 256}" and ds: "digit_string radix (c # cs)"
    and c: "of_char c \<noteq> (48 :: nat)" and len: "length (c # cs) \<le> atod_max_digits_table ! (radix - 2)"
    and small: "length (c # cs) \<le> 10 ^ 8"
  shows "\<exists>a. atod_number (length (c # cs)) radix flags sep (c # cs) = (Some a, []) \<and> nearest_double (digits_val radix 0 (c # cs)) 1 0 a"
proof -
  let ?n = "length (c # cs)" and ?v = "digits_val radix 0 (c # cs)"
  let ?st = "\<lparr>ad_tmp0 = [0], ad_cur_limb = 0, ad_limb_digit_count = 0, ad_digit_count = 0, ad_extra_digits = 0\<rparr>"
  have cd: "to_digit (of_char c) < radix" using ds by (simp add: digit_string_def)
  have st0: "atod_inv radix 0 0 ?st" using radix_base_exact(1) [OF r] by (simp add: atod_inv_def mpb_norm_def)
  obtain st where rd: "read_digits ?n radix flags sep (c # cs) 0 (- 1) ?st = ([], 0 + int ?n, - 1, st)"
    and inv: "atod_inv radix (0 + ?n) ?v st"
    using read_digits_string [OF r sep ds st0] len by (metis add_0)
  have dc: "ad_digit_count st = ?n" using inv by (simp add: atod_inv_def)
  have lead: "0 < to_digit (of_char c)" using c cd r(2) by (auto simp: to_digit_def split: if_splits)
  have bounds: "radix ^ (?n - 1) \<le> ?v" "?v < radix ^ ?n"
  proof -
    have "digit_string radix cs" using ds by (simp add: digit_string_def)
    then have "to_digit (of_char c) * radix ^ length cs \<le> ?v" using digits_val_bounds [of radix cs "to_digit (of_char c)"] r by simp
    moreover have "1 * radix ^ length cs \<le> to_digit (of_char c) * radix ^ length cs" using lead by (intro mult_le_mono1) simp
    ultimately have "radix ^ length cs \<le> ?v" by linarith
    then show "radix ^ (?n - 1) \<le> ?v" by (simp del: digits_val.simps)
    show "?v < radix ^ ?n" using digits_val_bounds [OF ds, of 0] r by simp
  qed
  define a where "a = atod_convert radix (atod_mantissa radix st) 0 False 0 (int ?n)"
  have num: "atod_number ?n radix flags sep (c # cs) = (Some a, [])"
    unfolding atod_number_def skip_zeros_digit [OF cd r(2) c sep] Let_def prod.case rd dc
    by (simp add: atod_expn_def a_def)
  note m = atod_mantissa_val [OF r inv]
  have "nearest_double ?v 1 0 a"
  proof (cases "drop_bit (ctz32 radix) radix = 1")
    case True
    have "nearest_double (limbs_val (atod_mantissa radix st)) 1 ((if False then 0 else 0 * int (ctz32 radix)) - 0 * int (ctz32 radix)) a"
      unfolding a_def using bounds small m by (intro atod_convert_bin [OF True r]) auto
    then show ?thesis using m(1) by simp
  next
    case False
    have "nearest_double (limbs_val (atod_mantissa radix st) * drop_bit (ctz32 radix) radix ^ nat (0 - 0))
      (drop_bit (ctz32 radix) radix ^ nat (- (0 - 0))) ((0 - 0) * int (ctz32 radix)) a"
      unfolding a_def using bounds small m by (intro atod_convert_odd [OF False r]) auto
    then show ?thesis using m(1) by simp
  qed
  then show ?thesis using num by blast
qed

text \<open>Integers below \<open>2 ^ 53\<close> are doubles, so the nearest double is exact.\<close>

lemma nearest_double_integer:
  assumes "nearest_double v 1 0 a" "0 < v" "v < 2 ^ 53"
  shows "double_val a = real v"
proof -
  obtain E where E: "in_binade v 1 0 E"
    "if round_double JS_RNDN v 1 0 E < 2 powi 1024 then biased_exp a < 2047 \<and> double_val a = round_double JS_RNDN v 1 0 E else a = INFINITY_BITS"
    using assms(1) by (auto simp: nearest_double_def)
  have "real v < real (2 ^ 53)" using assms(3) by (simp only: of_nat_less_iff)
  then have vlt: "real v < 2 powi 53" by simp
  then have "E \<le> 53" using in_binade_mono' [OF E(1), of 53] by simp
  then have q: "double_ulp E \<le> 0" by (simp add: double_ulp_def)
  have "round_double JS_RNDN v 1 0 E = real (v * 2 ^ nat (- double_ulp E)) * 2 powi double_ulp E"
    using q by (simp add: round_double_def Let_def)
  also have "\<dots> = real v" using q by (auto simp: power_int_def power_inverse field_simps split: if_splits)
  finally have rv: "round_double JS_RNDN v 1 0 E = real v" .
  have "(2 :: real) powi 53 \<le> 2 powi 1024" by (intro power_int_increasing) auto
  then show ?thesis using E(2) rv vlt by (simp only: if_True)
qed

lemma digits_val_snoc: "digits_val radix v (xs @ [c]) = digits_val radix v xs * radix + to_digit (of_char c)"
  by (induction xs arbitrary: v) auto

lemma to_digit_digit_char: "d < 36 \<Longrightarrow> to_digit (of_char (digit_char d)) = d"
  by (auto simp: to_digit_def digit_char_def)

lemma radix_string_val:
  assumes "2 \<le> radix" "radix \<le> 36"
  shows "digits_val radix 0 (radix_string radix n) = n" "digit_string radix (radix_string radix n)"
proof -
  have "digits_val radix 0 (radix_string radix n) = n \<and> digit_string radix (radix_string radix n)"
  proof (induction n rule: less_induct)
    case (less n)
    show ?case
    proof (cases "n < radix")
      case True
      then show ?thesis using assms by (simp add: radix_string.simps digit_string_def to_digit_digit_char)
    next
      case False
      then have "n div radix < n" "n mod radix < radix" using assms by auto
      moreover have "radix_string radix n = radix_string radix (n div radix) @ [digit_char (n mod radix)]"
        using False assms by (subst radix_string.simps) simp
      moreover have "to_digit (of_char (digit_char (n mod radix))) = n mod radix"
        using \<open>n mod radix < radix\<close> assms(2) by (intro to_digit_digit_char) linarith
      ultimately show ?thesis using less.IH [of "n div radix"] assms
        by (simp add: digits_val_snoc digit_string_def div_mult_mod_eq)
    qed
  qed
  then show "digits_val radix 0 (radix_string radix n) = n" "digit_string radix (radix_string radix n)" by simp_all
qed

lemma radix_string_head:
  assumes "2 \<le> radix" "radix \<le> 36" "0 < n"
  obtains c cs where "radix_string radix n = c # cs" "of_char c \<noteq> (48 :: nat)"
proof -
  have "\<exists>c cs. radix_string radix n = c # cs \<and> of_char c \<noteq> (48 :: nat)"
    using assms(3)
  proof (induction n rule: less_induct)
    case (less n)
    show ?case
    proof (cases "n < radix")
      case True
      have "to_digit (of_char (digit_char n)) = n" using True assms by (intro to_digit_digit_char) simp
      then have "of_char (digit_char n) \<noteq> (48 :: nat)" using less.prems by (auto simp: to_digit_def split: if_splits)
      then show ?thesis using True by (simp add: radix_string.simps)
    next
      case False
      then have "n div radix < n" "0 < n div radix" using assms by (auto simp: div_greater_zero_iff)
      moreover have "radix_string radix n = radix_string radix (n div radix) @ [digit_char (n mod radix)]"
        using False assms by (subst radix_string.simps) simp
      ultimately show ?thesis using less.IH [of "n div radix"] by auto
    qed
  qed
  then show thesis using that by blast
qed

lemma radix_string_length:
  assumes "2 \<le> radix" "radix \<le> 36" "0 < n" "n < 2 ^ 53"
  shows "length (radix_string radix n) \<le> atod_max_digits_table ! (radix - 2)"
proof (rule ccontr)
  let ?k = "atod_max_digits_table ! (radix - 2)"
  assume long: "\<not> ?thesis"
  obtain c cs where h: "radix_string radix n = c # cs" "of_char c \<noteq> (48 :: nat)" using radix_string_head [OF assms(1-3)] .
  note v = radix_string_val [OF assms(1,2), of n, unfolded h(1)]
  have "0 < to_digit (of_char c)"
    using v(2) h(2) assms(2) by (auto simp: digit_string_def to_digit_def split: if_splits)
  then have "1 * radix ^ length cs \<le> to_digit (of_char c) * radix ^ length cs" by (intro mult_le_mono1) simp
  also have "\<dots> \<le> n"
    using digits_val_bounds [of radix cs "to_digit (of_char c)"] v assms(1) by (simp add: digit_string_def)
  finally have "radix ^ length cs < 2 ^ 53" using assms(4) by simp
  moreover have "radix ^ ?k \<le> radix ^ length cs" using long h(1) assms(1) by (intro power_increasing) auto
  ultimately show False using radix_base_exact(4) [OF assms(1,2)] by linarith
qed

lemma digit_char_not_I: "d < 36 \<Longrightarrow> digit_char d \<noteq> CHR ''I''"
proof
  assume "d < 36" "digit_char d = CHR ''I''"
  then have "(of_char (digit_char d) :: nat) = of_char (CHR ''I'')" by (simp only:)
  then show False using \<open>d < 36\<close> by (auto simp: digit_char_def split: if_splits)
qed

lemma radix_string_chars: "2 \<le> radix \<Longrightarrow> radix \<le> 36 \<Longrightarrow> CHR ''I'' \<notin> set (radix_string radix n)"
proof (induction n rule: less_induct)
  case (less n)
  show ?case
  proof (cases "n < radix")
    case True
    then show ?thesis using less.prems digit_char_not_I [of n] by (auto simp: radix_string.simps)
  next
    case False
    then have "n div radix < n" "n mod radix < 36" using less.prems by (auto intro: less_le_trans [of _ radix])
    then show ?thesis using less.IH [of "n div radix"] less.prems False digit_char_not_I [of "n mod radix"]
      by (subst radix_string.simps) auto
  qed
qed

lemma js_atod_radix_string:
  assumes r: "2 \<le> radix" "radix \<le> 36" and v: "0 < v" "v < 2 ^ 53"
  shows "\<exists>a. js_atod ((if neg then ''-'' else '''') @ radix_string radix v) radix flags =
      (Some (a OR (if neg then push_bit 63 1 else 0)), []) \<and> double_val a = real v"
proof -
  obtain c cs where h: "radix_string radix v = c # cs" "of_char c \<noteq> (48 :: nat)" using radix_string_head [OF r v(1)] .
  note val = radix_string_val [OF r, of v, unfolded h(1)]
  have len: "length (c # cs) \<le> atod_max_digits_table ! (radix - 2)" using radix_string_length [OF r v] h(1) by simp
  have small: "length (c # cs) \<le> 10 ^ 8"
  proof -
    have "\<forall>r \<in> set [2..<37]. atod_max_digits_table ! (r - 2) \<le> 100" by (simp add: atod_max_digits_table_def)
    moreover have "radix \<in> set [2..<37]" using r by (simp only: set_upt atLeastLessThan_iff) simp
    ultimately have "atod_max_digits_table ! (radix - 2) \<le> 100" by (rule bspec)
    then show ?thesis using len by simp
  qed
  have cd: "to_digit (of_char c) < radix" using val(2) by (simp add: digit_string_def)
  define sep :: nat where "sep = (if flags AND JS_ATOD_ACCEPT_UNDERSCORES \<noteq> 0 then 95 else 256)"
  have sep: "sep \<in> {95, 256}" by (simp add: sep_def)
  obtain a where a: "atod_number (length (c # cs)) radix flags sep (c # cs) = (Some a, [])" "nearest_double v 1 0 a"
    using atod_number_digits [OF r sep val(2) h(2) len small] val(1) by auto
  have inf: "take 8 (c # cs) \<noteq> ''Infinity''"
    using radix_string_chars [OF r, of v] h(1) by auto
  have pre: "atod_prefix (c # cs) radix flags = Prefix_radix (c # cs) radix sep"
    unfolding atod_prefix_def Let_def using h(2) inf r by (simp add: sep_def)
  have sign: "atod_sign ((if neg then ''-'' else '''') @ c # cs) = (neg, c # cs)"
    using digit_not_special [OF cd r(2)] by (simp add: atod_sign_def chr_at_def)
  have "js_atod ((if neg then ''-'' else '''') @ c # cs) radix flags = (Some (a OR (if neg then push_bit 63 1 else 0)), [])"
    unfolding js_atod_def sign Let_def prod.case pre atod_prefix.case a(1) by simp
  then show ?thesis using h(1) nearest_double_integer [OF a(2) v] by auto
qed

text \<open>Two doubles of the same magnitude below \<open>2 ^ 53\<close>, one of them positive, differ at most in the sign bit.\<close>

lemma double_sign_unique:
  assumes a: "double_val a = real v" and d: "double_val d = of_int i" and i: "v = nat \<bar>i\<bar>" "1 \<le> \<bar>i\<bar>" "\<bar>i\<bar> < 2 ^ 53"
  shows "a OR (if i < 0 then push_bit 63 1 else 0) = d"
proof -
  obtain s where s: "double_mant d = v * 2 ^ s" "biased_exp d = 1075 - int s" "double_neg d \<longleftrightarrow> i < 0" "s \<le> 52"
    using double_integer [OF d i(2,3)] i(1) by metis
  obtain t where t: "double_mant a = v * 2 ^ t" "biased_exp a = 1075 - int t" "\<not> double_neg a" "t \<le> 52"
    using double_integer [of a "int v"] a i by (auto simp: nat_less_iff)
  have "biased_exp d \<noteq> 0" "biased_exp a \<noteq> 0" using s t by auto
  note m = double_mant_bounds(1) [of d] double_mant_bounds(2) [OF this(1)] double_mant_bounds(1) [of a] double_mant_bounds(2) [OF this(2)]
  have "s = t"
  proof (rule ccontr)
    assume "s \<noteq> t"
    then consider "Suc s \<le> t" | "Suc t \<le> s" by linarith
    then show False
    proof cases
      case 1
      then have "v * 2 ^ Suc s \<le> v * 2 ^ t" by (intro mult_le_mono2 power_increasing) auto
      then have "2 * double_mant d \<le> double_mant a" unfolding s(1) t(1) by (simp only: power_Suc mult.left_commute)
      then show False using m by simp
    next
      case 2
      then have "v * 2 ^ Suc t \<le> v * 2 ^ s" by (intro mult_le_mono2 power_increasing) auto
      then have "2 * double_mant a \<le> double_mant d" unfolding s(1) t(1) by (simp only: power_Suc mult.left_commute)
      then show False using m by simp
    qed
  qed
  then have e: "biased_exp a = biased_exp d" "double_mant a = double_mant d" using s t by auto
  then have "unat a mod 2 ^ 52 = unat d mod 2 ^ 52"
    unfolding double_mant_def unat_and_mask by (cases "biased_exp d = 0") simp_all
  then have eq: "unat d = unat a + (if double_neg d then 2 ^ 63 else 0)"
    using double_fields(1) [of a] double_fields(1) [of d] e t(3) by auto
  have "unat a < 2 ^ 63"
    using t(3) unat_drop_bit_div [of 63 a] unat_eq_zero [of "drop_bit 63 a"] by (simp add: double_neg_def div_eq_0_iff)
  then have "unat (a OR (if i < 0 then push_bit 63 1 else 0)) = unat d"
    using eq s(3) unat_or_top [of a 63] by simp
  then show ?thesis by (simp only: word_unat_eq_iff)
qed

section \<open>Properties\<close>

text \<open>C40. Conversion is correctly rounded in the radices that are not powers of two: for the \<open>dc\<close> significant digits in \<open>tmp0\<close> (those that the
  limit on digits keeps) and every exponent for which the two sums of the code do not overflow an \<open>int\<close>, \<open>atod_convert\<close> returns the
  double nearest to \<open>tmp0 * radix ^ (expn - expn_offset)\<close>, ties to even, infinity when that rounds
  to \<open>2 ^ 1024\<close> or more; the early exits on the exponent tables never change the result.\<close>

theorem atod_convert_correct:
  assumes "2 \<le> radix" "radix \<le> 36" "drop_bit (ctz32 radix) radix \<noteq> 1" "mpb_norm tmp0"
    "radix ^ (dc - 1) \<le> limbs_val tmp0" "limbs_val tmp0 < radix ^ dc" "0 < dc"
    "- (2 ^ 31) \<le> expn - expn_offset" "expn - expn_offset + int dc < 2 ^ 31"
  shows "nearest_double (limbs_val tmp0 * drop_bit (ctz32 radix) radix ^ nat (expn - expn_offset))
      (drop_bit (ctz32 radix) radix ^ nat (- (expn - expn_offset))) ((expn - expn_offset) * int (ctz32 radix))
    (atod_convert radix tmp0 expn is_bin_exp expn_offset (int dc))"
  using assms by (intro atod_convert_odd) auto

theorem atod_convert_correct_witness:
  "nearest_double (5 * 5 ^ nat (- 324)) (5 ^ nat 324) (- 324) (atod_convert 10 [5] (- 324) False 0 1)"
proof -
  have c: "ctz32 10 = 1" by (simp add: ctz32_def ctz_nat.simps)
  show ?thesis using atod_convert_correct [of 10 "[5]" 1 "- 324" 0 False] by (simp add: c mpb_norm_def)
qed

text \<open>The bound is needed: the parser accepts exponents up to \<open>INT32_MAX - 8\<close>, and when the number of digits is added to such an exponent the
  sum wraps around, so that a huge number is read as zero.\<close>

lemma js_atod_exponent_wraps: "js_atod ''123456789e2147483639'' 10 0 = (Some 0, [])"
  by code_simp

text \<open>C39. Printing and parsing agree on integers: a double whose value is an integer \<open>i\<close> with \<open>0 < |i| < 2 ^ 53\<close> is
  printed by \<open>js_dtoa\<close> in the free format as a string that \<open>js_atod\<close> reads back, in the same radix and to its
  end, as the very same 64 bits.\<close>

theorem js_atod_js_dtoa_roundtrip:
  assumes "2 \<le> radix" "radix \<le> 36" "flags AND JS_DTOA_FORMAT_MASK = JS_DTOA_FORMAT_FREE"
    "flags AND JS_DTOA_EXP_MASK \<noteq> JS_DTOA_EXP_ENABLED"
    "double_val d = of_int i" "1 \<le> \<bar>i\<bar>" "\<bar>i\<bar> < 2 ^ 53"
  shows "\<exists>s. js_dtoa d radix n_digits flags = Some s \<and> js_atod s radix aflags = (Some d, [])"
proof -
  obtain k where k: "k \<le> 52" "double_mant d = nat \<bar>i\<bar> * 2 ^ k" "biased_exp d = 1075 - int k" "double_neg d \<longleftrightarrow> i < 0"
    using double_integer [OF assms(5-7)] .
  let ?v = "nat \<bar>i\<bar>"
  have v: "0 < ?v" "?v < 2 ^ 53" using assms(6,7) by (auto simp: nat_less_iff)
  have "unat (of_nat ?v :: u64) = ?v" using v(2) by (simp add: unat_of_nat del: of_nat_nat)
  then have p: "js_dtoa d radix n_digits flags = Some ((if i < 0 then ''-'' else '''') @ radix_string radix ?v)"
    using js_dtoa_fast [OF assms(3,4) k(1,3,2)] u64toa_radix_string [OF assms(1,2)] k(4) by simp
  obtain a where "js_atod ((if i < 0 then ''-'' else '''') @ radix_string radix ?v) radix aflags =
      (Some (a OR (if i < 0 then push_bit 63 1 else 0)), [])" "double_val a = real ?v"
    using js_atod_radix_string [OF assms(1,2) v, of "i < 0" aflags] by auto
  then show ?thesis using p double_sign_unique [of a ?v d i] assms(5-7) by auto
qed

theorem js_atod_js_dtoa_roundtrip_witness:
  "\<exists>s. js_dtoa 0xC01C000000000000 10 0 0 = Some s \<and> js_atod s 10 0 = (Some 0xC01C000000000000, [])"
proof -
  have "double_val 0xC01C000000000000 = of_int (- 7)"
    by (simp add: double_val_def double_neg_def double_mant_def double_exp_def biased_exp_def power_int_def power_one_over)
  from js_atod_js_dtoa_roundtrip [OF _ _ _ _ this, of 10 0 0 0] show ?thesis by simp
qed

end
