(* ===== verification/Entity_Contract.thy ===== *)
theory Entity_Contract
  imports Prelude "HOL-Library.Multiset"
begin

text \<open>
  The contract of the entity store (\<^verbatim>\<open>include/common/entity_store_contract.hpp\<close>): values, references, patches and requests, and the two
  functions that check the structure of a request.  A real number is its 64 bits.  The theory shows that the checks accept exactly the requests
  that satisfy the rules of the contract, stated without reference to the order of the checks, and that the names and numbers of the
  enumerations are codes.
\<close>

section \<open>Enumerations\<close>

datatype value_kind =
    Null_value | Boolean | Signed_integer | Unsigned_integer | Real | Decimal | Text | Json | Bytes

definition value_kind_to_string :: "value_kind \<Rightarrow> string" where
  "value_kind_to_string x = (case x of
      Null_value \<Rightarrow> ''null'' | Boolean \<Rightarrow> ''boolean'' | Signed_integer \<Rightarrow> ''signed_integer'' | Unsigned_integer \<Rightarrow> ''unsigned_integer''
    | Real \<Rightarrow> ''real'' | Decimal \<Rightarrow> ''decimal'' | Text \<Rightarrow> ''text'' | Json \<Rightarrow> ''json'' | Bytes \<Rightarrow> ''bytes'')"

definition value_kind_from_string :: "string \<Rightarrow> value_kind option" where
  "value_kind_from_string str =
     (if str = ''null'' then Some Null_value else if str = ''boolean'' then Some Boolean
      else if str = ''signed_integer'' then Some Signed_integer else if str = ''unsigned_integer'' then Some Unsigned_integer
      else if str = ''real'' then Some Real else if str = ''decimal'' then Some Decimal else if str = ''text'' then Some Text
      else if str = ''json'' then Some Json else if str = ''bytes'' then Some Bytes else None)"

text \<open>The underlying numbers, in the order of the declaration.\<close>

definition value_kinds :: "value_kind list" where
  "value_kinds = [Null_value, Boolean, Signed_integer, Unsigned_integer, Real, Decimal, Text, Json, Bytes]"

definition kind_number :: "value_kind \<Rightarrow> u8" where
  "kind_number x = (case x of
      Null_value \<Rightarrow> 0 | Boolean \<Rightarrow> 1 | Signed_integer \<Rightarrow> 2 | Unsigned_integer \<Rightarrow> 3 | Real \<Rightarrow> 4 | Decimal \<Rightarrow> 5 | Text \<Rightarrow> 6 | Json \<Rightarrow> 7 | Bytes \<Rightarrow> 8)"

definition value_kind_from_integer :: "u8 \<Rightarrow> value_kind option" where
  "value_kind_from_integer raw = (if raw > kind_number Bytes then None else Some (value_kinds ! unat raw))"

datatype result_code = Ok | Not_found | Conflict | Invalid_request | Unavailable | Commit_unknown | Internal_error

definition result_code_to_string :: "result_code \<Rightarrow> string" where
  "result_code_to_string x = (case x of
      Ok \<Rightarrow> ''ok'' | Not_found \<Rightarrow> ''not_found'' | Conflict \<Rightarrow> ''conflict'' | Invalid_request \<Rightarrow> ''invalid_request''
    | Unavailable \<Rightarrow> ''unavailable'' | Commit_unknown \<Rightarrow> ''commit_unknown'' | Internal_error \<Rightarrow> ''internal_error'')"

definition result_code_from_string :: "string \<Rightarrow> result_code option" where
  "result_code_from_string str =
     (if str = ''ok'' then Some Ok else if str = ''not_found'' then Some Not_found else if str = ''conflict'' then Some Conflict
      else if str = ''invalid_request'' then Some Invalid_request else if str = ''unavailable'' then Some Unavailable
      else if str = ''commit_unknown'' then Some Commit_unknown else if str = ''internal_error'' then Some Internal_error else None)"

definition result_code_from_integer :: "u8 \<Rightarrow> result_code option" where
  "result_code_from_integer raw =
     (if raw > 6 then None
      else Some ([Ok, Not_found, Conflict, Invalid_request, Unavailable, Commit_unknown, Internal_error] ! unat raw))"

text \<open>The operations are enumerations over \<open>uint8_t\<close>, so that a message can hold any other byte as well; there are 253 and 252 of them, in their order.\<close>

datatype patch_op = Set_op | Erase_op | Increment_op | Unknown_patch_op "253"

definition patch_op_to_string :: "patch_op \<Rightarrow> string" where
  "patch_op_to_string x = (case x of Set_op \<Rightarrow> ''set'' | Erase_op \<Rightarrow> ''erase'' | Increment_op \<Rightarrow> ''increment'' | Unknown_patch_op _ \<Rightarrow> ''unknown'')"

definition patch_op_from_string :: "string \<Rightarrow> patch_op option" where
  "patch_op_from_string str =
     (if str = ''set'' then Some Set_op else if str = ''erase'' then Some Erase_op else if str = ''increment'' then Some Increment_op else None)"

definition patch_op_number :: "patch_op \<Rightarrow> u8" where
  "patch_op_number x = (case x of Set_op \<Rightarrow> 0 | Erase_op \<Rightarrow> 1 | Increment_op \<Rightarrow> 2 | Unknown_patch_op n \<Rightarrow> 3 + word_of_int (Rep_bit1 n))"

definition patch_op_from_integer :: "u8 \<Rightarrow> patch_op option" where
  "patch_op_from_integer raw = (if raw > patch_op_number Increment_op then None else Some ([Set_op, Erase_op, Increment_op] ! unat raw))"

datatype entity_operation = Legacy_patch | Insert | Update | Delete_entity | Unknown_operation "252"

definition entity_operation_to_string :: "entity_operation \<Rightarrow> string" where
  "entity_operation_to_string x =
     (case x of Legacy_patch \<Rightarrow> ''legacy_patch'' | Insert \<Rightarrow> ''insert'' | Update \<Rightarrow> ''update'' | Delete_entity \<Rightarrow> ''delete_entity''
      | Unknown_operation _ \<Rightarrow> ''unknown'')"

definition entity_operations :: "entity_operation list" where
  "entity_operations = [Legacy_patch, Insert, Update, Delete_entity]"

definition entity_operation_from_string :: "string \<Rightarrow> entity_operation option" where
  "entity_operation_from_string s = find (\<lambda>candidate. s = entity_operation_to_string candidate) entity_operations"

definition entity_operation_number :: "entity_operation \<Rightarrow> u8" where
  "entity_operation_number x = (case x of Legacy_patch \<Rightarrow> 0 | Insert \<Rightarrow> 1 | Update \<Rightarrow> 2 | Delete_entity \<Rightarrow> 3
     | Unknown_operation n \<Rightarrow> 4 + word_of_int (Rep_bit0 n))"

definition entity_operation_from_integer :: "u8 \<Rightarrow> entity_operation option" where
  "entity_operation_from_integer raw = (if raw > 3 then None else Some (entity_operations ! unat raw))"

section \<open>Values and requests\<close>

text \<open>Only the member that belongs to the kind has a meaning.  \<open>operator==\<close> is defaulted, that is, equality of all members; the comparison of
  two reals is \<open>real_equal\<close>, in which the two zeros are equal and a NaN is equal to nothing.\<close>

record entity_value =
  v_kind :: value_kind
  v_boolean :: bool
  v_signed :: u64
  v_unsigned :: u64
  v_real :: u64
  v_text :: string
  v_bytes :: bytes

definition null_value :: entity_value where
  "null_value = \<lparr>v_kind = Null_value, v_boolean = False, v_signed = 0, v_unsigned = 0, v_real = 0, v_text = [], v_bytes = []\<rparr>"

definition boolean_value :: "bool \<Rightarrow> entity_value" where
  "boolean_value x = null_value\<lparr>v_kind := Boolean, v_boolean := x\<rparr>"

definition signed_value :: "u64 \<Rightarrow> entity_value" where
  "signed_value x = null_value\<lparr>v_kind := Signed_integer, v_signed := x\<rparr>"

definition unsigned_value :: "u64 \<Rightarrow> entity_value" where
  "unsigned_value x = null_value\<lparr>v_kind := Unsigned_integer, v_unsigned := x\<rparr>"

definition real_value :: "u64 \<Rightarrow> entity_value" where
  "real_value x = null_value\<lparr>v_kind := Real, v_real := x\<rparr>"

definition decimal_value :: "string \<Rightarrow> entity_value" where
  "decimal_value x = null_value\<lparr>v_kind := Decimal, v_text := x\<rparr>"

definition text_value :: "string \<Rightarrow> entity_value" where
  "text_value x = null_value\<lparr>v_kind := Text, v_text := x\<rparr>"

definition json_value :: "string \<Rightarrow> entity_value" where
  "json_value x = null_value\<lparr>v_kind := Json, v_text := x\<rparr>"

definition bytes_value :: "bytes \<Rightarrow> entity_value" where
  "bytes_value x = null_value\<lparr>v_kind := Bytes, v_bytes := x\<rparr>"

definition real_nan :: "u64 \<Rightarrow> bool" where
  "real_nan x \<longleftrightarrow> drop_bit 52 x AND 0x7FF = 0x7FF \<and> take_bit 52 x \<noteq> 0"

definition real_equal :: "u64 \<Rightarrow> u64 \<Rightarrow> bool" where
  "real_equal x y \<longleftrightarrow> \<not> real_nan x \<and> \<not> real_nan y \<and> (x = y \<or> take_bit 63 x = 0 \<and> take_bit 63 y = 0)"

definition value_equal :: "entity_value \<Rightarrow> entity_value \<Rightarrow> bool" where
  "value_equal a b \<longleftrightarrow> v_kind a = v_kind b \<and> v_boolean a = v_boolean b \<and> v_signed a = v_signed b \<and> v_unsigned a = v_unsigned b \<and>
     real_equal (v_real a) (v_real b) \<and> v_text a = v_text b \<and> v_bytes a = v_bytes b"

record named_value =
  nv_name :: string
  nv_data :: entity_value

definition named_equal :: "named_value \<Rightarrow> named_value \<Rightarrow> bool" where
  "named_equal a b \<longleftrightarrow> nv_name a = nv_name b \<and> value_equal (nv_data a) (nv_data b)"

record entity_ref =
  er_store :: string
  er_partition :: string
  er_entity :: string
  er_key :: "named_value list"

record field_mask =
  fm_all_fields :: bool
  fm_names :: "string list"

record load_request =
  lr_target :: entity_ref
  lr_fields :: field_mask

record field_patch =
  fp_operation :: patch_op
  fp_name :: string
  fp_data :: entity_value

record entity_patch =
  ep_target :: entity_ref
  ep_fields :: "field_patch list"
  ep_create_if_missing :: bool
  ep_check_version :: bool
  ep_expected_version :: u64
  ep_operation :: entity_operation

record save_request =
  sr_request_id :: string
  sr_changes :: "entity_patch list"

record committed_entity =
  ce_target :: entity_ref
  ce_version :: u64
  ce_operation :: entity_operation

record save_result =
  sv_code :: result_code
  sv_error :: string
  sv_request_id :: string
  sv_committed :: bool
  sv_entities :: "committed_entity list"

record load_result =
  ld_code :: result_code
  ld_error :: string
  ld_target :: entity_ref
  ld_fields :: "named_value list"
  ld_version :: u64

section \<open>The checks\<close>

text \<open>An error message, or the empty string.  \<open>names\<close> is the set built so far.\<close>

fun check_key :: "string set \<Rightarrow> named_value list \<Rightarrow> string" where
  "check_key names [] = []"
| "check_key names (key # keys) =
     (if nv_name key = [] then ''target.key contains an empty field name''
      else if nv_name key \<in> names then ''target.key contains duplicate field: '' @ nv_name key
      else check_key (insert (nv_name key) names) keys)"

definition validate_target :: "entity_ref \<Rightarrow> string" where
  "validate_target target =
     (if er_store target = [] then ''target.store is empty''
      else if er_entity target = [] then ''target.entity is empty''
      else if er_key target = [] then ''target.key is empty''
      else check_key {} (er_key target))"

definition is_number :: "value_kind \<Rightarrow> bool" where
  "is_number kind \<longleftrightarrow> kind = Signed_integer \<or> kind = Unsigned_integer \<or> kind = Real \<or> kind = Decimal"

fun check_mask :: "string set \<Rightarrow> string list \<Rightarrow> string" where
  "check_mask names [] = []"
| "check_mask names (name # rest) =
     (if name = [] then ''field mask contains an empty field name''
      else if name \<in> names then ''field mask contains duplicate field: '' @ name
      else check_mask (insert name names) rest)"

definition validate_load :: "load_request \<Rightarrow> string" where
  "validate_load request =
     (let error = validate_target (lr_target request); mask = lr_fields request
      in if error \<noteq> [] then error
         else if fm_all_fields mask \<and> fm_names mask \<noteq> [] then ''field mask cannot contain names when all_fields is true''
         else if \<not> fm_all_fields mask \<and> fm_names mask = [] then ''field mask must contain names when all_fields is false''
         else check_mask {} (fm_names mask))"

definition same_target :: "entity_patch \<Rightarrow> entity_patch \<Rightarrow> bool" where
  "same_target change prior \<longleftrightarrow>
     \<not> (ep_operation change = Legacy_patch \<and> ep_operation prior = Legacy_patch) \<and>
     er_store (ep_target prior) = er_store (ep_target change) \<and> er_entity (ep_target prior) = er_entity (ep_target change) \<and>
     length (er_key (ep_target prior)) = length (er_key (ep_target change)) \<and>
     (\<forall>key \<in> set (er_key (ep_target change)). \<exists>k \<in> set (er_key (ep_target prior)). named_equal k key)"

fun check_fields :: "entity_operation \<Rightarrow> string set \<Rightarrow> string set \<Rightarrow> field_patch list \<Rightarrow> string" where
  "check_fields operation key_names patch_names [] = []"
| "check_fields operation key_names patch_names (field # patches) =
     (if patch_op_number (fp_operation field) > patch_op_number Increment_op then ''unknown field patch operation''
      else if operation = Insert \<and> fp_operation field \<noteq> Set_op then ''strict insert requires set fields''
      else if fp_name field = [] then ''entity patch contains an empty field name''
      else if fp_name field \<in> patch_names then ''entity patch contains duplicate field: '' @ fp_name field
      else if fp_name field \<in> key_names then ''entity patch cannot modify key field: '' @ fp_name field
      else if fp_operation field = Increment_op \<and> \<not> is_number (v_kind (fp_data field)) then ''increment requires a numeric value: '' @ fp_name field
      else check_fields operation key_names (insert (fp_name field) patch_names) patches)"

definition check_change :: "string \<Rightarrow> string \<Rightarrow> entity_patch \<Rightarrow> string" where
  "check_change store shard change =
     (let target = ep_target change; operation = ep_operation change; error = validate_target target
      in if error \<noteq> [] then error
         else if er_store target \<noteq> store then ''all changes must use the same store''
         else if er_partition target \<noteq> shard then ''all changes must use the same partition''
         else if entity_operation_number operation > 3 then ''unknown entity operation''
         else if operation \<noteq> Legacy_patch \<and> ep_create_if_missing change then ''strict operation cannot use create_if_missing''
         else if operation \<noteq> Legacy_patch \<and> ep_expected_version change > 0x7FFFFFFFFFFFFFFF then ''strict version exceeds int64''
         else if operation = Insert \<and> (ep_check_version change \<or> ep_expected_version change \<noteq> 0) then ''insert cannot specify an existing version''
         else if (operation = Update \<or> operation = Delete_entity) \<and> (\<not> ep_check_version change \<or> ep_expected_version change = 0)
         then ''strict update/delete requires a positive expected version''
         else if operation = Delete_entity \<and> ep_fields change \<noteq> [] then ''delete entity cannot contain field patches''
         else if ep_fields change = [] \<and> operation \<noteq> Insert \<and> operation \<noteq> Delete_entity then ''entity patch has no fields''
         else check_fields operation (nv_name ` set (er_key target)) {} (ep_fields change))"

fun check_changes :: "string \<Rightarrow> string \<Rightarrow> entity_patch list \<Rightarrow> entity_patch list \<Rightarrow> string" where
  "check_changes store shard seen [] = []"
| "check_changes store shard seen (change # changes) =
     (if \<exists>prior \<in> set seen. same_target change prior then ''duplicate entity target in strict batch''
      else let error = check_change store shard change
           in if error \<noteq> [] then error else check_changes store shard (seen @ [change]) changes)"

definition validate_save :: "save_request \<Rightarrow> string" where
  "validate_save request =
     (if sr_request_id request = [] then ''request_id is empty''
      else case sr_changes request of
        [] \<Rightarrow> ''changes is empty''
      | change # changes \<Rightarrow>
          check_changes (er_store (ep_target change)) (er_partition (ep_target change)) [] (change # changes))"

section \<open>What the checks accept\<close>

text \<open>The rules of the contract, without an order in which they are checked.\<close>

definition target_ok :: "entity_ref \<Rightarrow> bool" where
  "target_ok target \<longleftrightarrow> er_store target \<noteq> [] \<and> er_entity target \<noteq> [] \<and> er_key target \<noteq> [] \<and>
     [] \<notin> nv_name ` set (er_key target) \<and> distinct (map nv_name (er_key target))"

definition load_ok :: "load_request \<Rightarrow> bool" where
  "load_ok request \<longleftrightarrow> target_ok (lr_target request) \<and> (fm_all_fields (lr_fields request) \<longleftrightarrow> fm_names (lr_fields request) = []) \<and>
     [] \<notin> set (fm_names (lr_fields request)) \<and> distinct (fm_names (lr_fields request))"

definition version_ok :: "entity_patch \<Rightarrow> bool" where
  "version_ok change \<longleftrightarrow> (case ep_operation change of
      Legacy_patch \<Rightarrow> True
    | Insert \<Rightarrow> \<not> ep_create_if_missing change \<and> \<not> ep_check_version change \<and> ep_expected_version change = 0
    | Unknown_operation _ \<Rightarrow> False
    | _ \<Rightarrow> \<not> ep_create_if_missing change \<and> ep_check_version change \<and> 0 < unat (ep_expected_version change) \<and> unat (ep_expected_version change) < 2 ^ 63)"

definition fields_ok :: "entity_patch \<Rightarrow> bool" where
  "fields_ok change \<longleftrightarrow>
     (case ep_operation change of Insert \<Rightarrow> True | Delete_entity \<Rightarrow> ep_fields change = [] | _ \<Rightarrow> ep_fields change \<noteq> []) \<and>
     distinct (map fp_name (ep_fields change)) \<and>
     fp_name ` set (ep_fields change) \<inter> insert [] (nv_name ` set (er_key (ep_target change))) = {} \<and>
     (\<forall>field \<in> set (ep_fields change). fp_operation field \<in> {Set_op, Erase_op, Increment_op} \<and>
        (ep_operation change = Insert \<longrightarrow> fp_operation field = Set_op) \<and>
        (fp_operation field = Increment_op \<longrightarrow> is_number (v_kind (fp_data field))))"

definition change_ok :: "entity_patch \<Rightarrow> bool" where
  "change_ok change \<longleftrightarrow> target_ok (ep_target change) \<and> version_ok change \<and> fields_ok change"

text \<open>Two changes of one request concern the same record, and one of them is strict.\<close>

definition clash :: "entity_patch \<Rightarrow> entity_patch \<Rightarrow> bool" where
  "clash a b \<longleftrightarrow> \<not> (ep_operation a = Legacy_patch \<and> ep_operation b = Legacy_patch) \<and>
     er_store (ep_target a) = er_store (ep_target b) \<and> er_entity (ep_target a) = er_entity (ep_target b) \<and>
     nv_name ` set (er_key (ep_target a)) = nv_name ` set (er_key (ep_target b)) \<and>
     (\<forall>k \<in> set (er_key (ep_target a)). \<forall>l \<in> set (er_key (ep_target b)). nv_name k = nv_name l \<longrightarrow> value_equal (nv_data k) (nv_data l))"

definition save_ok :: "save_request \<Rightarrow> bool" where
  "save_ok request \<longleftrightarrow> sr_request_id request \<noteq> [] \<and> sr_changes request \<noteq> [] \<and>
     (\<forall>a \<in> set (sr_changes request). change_ok a) \<and>
     (\<forall>a \<in> set (sr_changes request). \<forall>b \<in> set (sr_changes request).
        er_store (ep_target a) = er_store (ep_target b) \<and> er_partition (ep_target a) = er_partition (ep_target b)) \<and>
     sorted_wrt (\<lambda>a b. \<not> clash a b) (sr_changes request)"

lemma real_equal_sym: "real_equal x y \<longleftrightarrow> real_equal y x"
  unfolding real_equal_def by auto

lemma value_equal_sym: "value_equal x y \<longleftrightarrow> value_equal y x"
  unfolding value_equal_def using real_equal_sym by auto

lemma clash_symD: "clash a b \<Longrightarrow> clash b a"
  unfolding clash_def using value_equal_sym [THEN iffD1] by fastforce

lemma check_key_iff:
  "check_key names keys = [] \<longleftrightarrow> [] \<notin> nv_name ` set keys \<and> distinct (map nv_name keys) \<and> nv_name ` set keys \<inter> names = {}"
  by (induction names keys rule: check_key.induct) auto

lemma check_mask_iff: "check_mask names fs = [] \<longleftrightarrow> [] \<notin> set fs \<and> distinct fs \<and> set fs \<inter> names = {}"
  by (induction names fs rule: check_mask.induct) auto

lemma validate_target_iff: "validate_target target = [] \<longleftrightarrow> target_ok target"
  unfolding validate_target_def target_ok_def by (auto simp: check_key_iff)

lemma unat_patch_op_number: "unat (patch_op_number (Unknown_patch_op n)) = 3 + nat (Rep_bit1 n)"
proof -
  have "Rep_bit1 n \<in> {0..<253}" using Rep_bit1 [of n] by simp
  then show ?thesis by (simp add: patch_op_number_def unat_word_ariths unsigned_of_int take_bit_int_eq_self nat_less_iff)
qed

lemma unat_entity_operation_number: "unat (entity_operation_number (Unknown_operation n)) = 4 + nat (Rep_bit0 n)"
proof -
  have "Rep_bit0 n \<in> {0..<252}" using Rep_bit0 [of n] by simp
  then show ?thesis by (simp add: entity_operation_number_def unat_word_ariths unsigned_of_int take_bit_int_eq_self nat_less_iff)
qed

lemma patch_op_unknown: "patch_op_number x > patch_op_number Increment_op \<longleftrightarrow> x \<notin> {Set_op, Erase_op, Increment_op}"
proof (cases x)
  case (Unknown_patch_op n)
  then show ?thesis using unat_patch_op_number [of n] by (simp add: word_less_nat_alt patch_op_number_def [of Increment_op])
qed (auto simp: patch_op_number_def)

lemma entity_operation_unknown: "entity_operation_number x > 3 \<longleftrightarrow> x \<notin> set entity_operations"
proof (cases x)
  case (Unknown_operation n)
  then show ?thesis using unat_entity_operation_number [of n] by (simp add: word_less_nat_alt entity_operations_def)
qed (auto simp: entity_operation_number_def entity_operations_def)

lemma check_fields_iff:
  "check_fields operation key_names patch_names fs = [] \<longleftrightarrow>
     distinct (map fp_name fs) \<and> fp_name ` set fs \<inter> insert [] (key_names \<union> patch_names) = {} \<and>
     (\<forall>field \<in> set fs. fp_operation field \<in> {Set_op, Erase_op, Increment_op} \<and> (operation = Insert \<longrightarrow> fp_operation field = Set_op) \<and>
        (fp_operation field = Increment_op \<longrightarrow> is_number (v_kind (fp_data field))))"
proof (induction operation key_names patch_names fs rule: check_fields.induct)
  case (2 operation key_names patch_names field patches)
  show ?case
  proof (cases "fp_operation field \<notin> {Set_op, Erase_op, Increment_op} \<or> (operation = Insert \<and> fp_operation field \<noteq> Set_op) \<or> fp_name field = [] \<or> fp_name field \<in> patch_names \<or>
                fp_name field \<in> key_names \<or> fp_operation field = Increment_op \<and> \<not> is_number (v_kind (fp_data field))")
    case False
    then show ?thesis using 2 patch_op_unknown [of "fp_operation field"] by auto
  qed (use patch_op_unknown [of "fp_operation field"] in auto)
qed simp

lemma int64_bound: "(x :: u64) > 0x7FFFFFFFFFFFFFFF \<longleftrightarrow> \<not> unat x < 2 ^ 63"
  by (simp add: word_less_nat_alt not_less)  linarith

lemma error_chain: "e \<noteq> [] \<Longrightarrow> ((if c then e else x) = []) \<longleftrightarrow> \<not> c \<and> x = []"
  by simp

lemma check_change_iff:
  "check_change store shard change = [] \<longleftrightarrow>
     change_ok change \<and> er_store (ep_target change) = store \<and> er_partition (ep_target change) = shard"
proof -
  have chain: "check_change store shard change = [] \<longleftrightarrow>
      target_ok (ep_target change) \<and> er_store (ep_target change) = store \<and> er_partition (ep_target change) = shard \<and>
      \<not> ep_operation change \<notin> set entity_operations \<and>
      \<not> (ep_operation change \<noteq> Legacy_patch \<and> ep_create_if_missing change) \<and>
      \<not> (ep_operation change \<noteq> Legacy_patch \<and> \<not> unat (ep_expected_version change) < 2 ^ 63) \<and>
      \<not> (ep_operation change = Insert \<and> (ep_check_version change \<or> ep_expected_version change \<noteq> 0)) \<and>
      \<not> ((ep_operation change = Update \<or> ep_operation change = Delete_entity) \<and> (\<not> ep_check_version change \<or> ep_expected_version change = 0)) \<and>
      \<not> (ep_operation change = Delete_entity \<and> ep_fields change \<noteq> []) \<and>
      \<not> (ep_fields change = [] \<and> ep_operation change \<noteq> Insert \<and> ep_operation change \<noteq> Delete_entity) \<and>
      check_fields (ep_operation change) (nv_name ` set (er_key (ep_target change))) {} (ep_fields change) = []"
    by (simp only: check_change_def Let_def int64_bound validate_target_iff [symmetric] entity_operation_unknown)
      (cases "validate_target (ep_target change) = []", simp_all add: error_chain split del: if_split)
  show ?thesis
    unfolding chain change_ok_def
    by (cases "ep_operation change") (auto simp: version_ok_def fields_ok_def check_fields_iff unat_gt_0 entity_operations_def)
qed

lemma same_target_clash:
  assumes a: "target_ok (ep_target a)" and b: "target_ok (ep_target b)"
  shows "same_target b a \<longleftrightarrow> clash a b"
proof -
  let ?A = "er_key (ep_target a)" and ?B = "er_key (ep_target b)"
  have dA: "distinct (map nv_name ?A)" and dB: "distinct (map nv_name ?B)" using a b by (auto simp: target_ok_def)
  have cA: "card (nv_name ` set ?A) = length ?A" and cB: "card (nv_name ` set ?B) = length ?B"
    using distinct_card [OF dA] distinct_card [OF dB] by auto
  have inj: "inj_on nv_name (set ?A)" "inj_on nv_name (set ?B)" using dA dB by (auto simp: distinct_map)
  have "length ?A = length ?B \<and> (\<forall>key \<in> set ?B. \<exists>k \<in> set ?A. named_equal k key) \<longleftrightarrow>
      nv_name ` set ?A = nv_name ` set ?B \<and>
      (\<forall>k \<in> set ?A. \<forall>l \<in> set ?B. nv_name k = nv_name l \<longrightarrow> value_equal (nv_data k) (nv_data l))"  (is "?L \<longleftrightarrow> ?R")
  proof
    assume L: ?L
    have sub: "nv_name ` set ?B \<subseteq> nv_name ` set ?A" 
    proof
      fix n assume "n \<in> nv_name ` set ?B"
      then obtain l where "l \<in> set ?B" and n: "n = nv_name l" by auto
      then obtain k where "k \<in> set ?A" "named_equal k l" using L by blast
      then show "n \<in> nv_name ` set ?A" using n by (metis named_equal_def imageI)
    qed
    then have eq: "nv_name ` set ?B = nv_name ` set ?A" using L cA cB by (intro card_subset_eq) auto
    have "value_equal (nv_data k) (nv_data l)" if "k \<in> set ?A" "l \<in> set ?B" "nv_name k = nv_name l" for k l
    proof -
      obtain k' where "k' \<in> set ?A" "named_equal k' l" using L \<open>l \<in> set ?B\<close> by blast
      moreover then have "k' = k" using inj(1) that by (auto simp: named_equal_def inj_on_def)
      ultimately show ?thesis by (simp add: named_equal_def)
    qed
    with eq show ?R by simp
  next
    assume R: ?R
    have "\<exists>k \<in> set ?A. named_equal k l" if l: "l \<in> set ?B" for l
    proof -
      have "nv_name l \<in> nv_name ` set ?A" using R l by simp
      then show ?thesis using R l by (fastforce simp: named_equal_def)
    qed
    with R show ?L using cA cB by auto
  qed
  then show ?thesis unfolding same_target_def clash_def by (auto simp del: named_equal_def)
qed

lemma check_changes_iff:
  "\<forall>p \<in> set seen. target_ok (ep_target p) \<Longrightarrow>
   check_changes store shard seen changes = [] \<longleftrightarrow>
     (\<forall>c \<in> set changes. change_ok c \<and> er_store (ep_target c) = store \<and> er_partition (ep_target c) = shard) \<and>
     (\<forall>p \<in> set seen. \<forall>c \<in> set changes. \<not> clash p c) \<and> sorted_wrt (\<lambda>a b. \<not> clash a b) changes"
proof (induction store shard seen changes rule: check_changes.induct)
  case (2 store shard seen change changes)
  show ?case
  proof (cases "check_change store shard change = []")
    case True
    then have ok: "change_ok change" by (simp add: check_change_iff)
    then have t: "target_ok (ep_target change)" by (simp add: change_ok_def)
    have dup: "(\<exists>p \<in> set seen. same_target change p) \<longleftrightarrow> (\<exists>p \<in> set seen. clash p change)"
      using 2(2) t by (auto simp: same_target_clash)
    show ?thesis
    proof (cases "\<exists>p \<in> set seen. same_target change p")
      case True
      then show ?thesis using dup by auto
    next
      case False
      moreover have "\<forall>p \<in> set (seen @ [change]). target_ok (ep_target p)" using 2(2) t by simp
      ultimately show ?thesis using 2(1) [OF False refl] True dup by (auto simp: Let_def check_change_iff)
    qed
  next
    case False
    then show ?thesis by (auto simp: Let_def check_change_iff)
  qed
qed simp

lemma validate_save_accepts: "validate_save request = [] \<longleftrightarrow> save_ok request"
proof (cases "sr_changes request")
  case (Cons change changes)
  then show ?thesis unfolding validate_save_def save_ok_def
    by (auto simp: check_changes_iff simp del: check_changes.simps)
qed (auto simp: validate_save_def save_ok_def)

lemma sorted_wrt_sym_mset:
  assumes "\<And>x y. P x y \<Longrightarrow> P y x" and "mset xs = mset ys"
  shows "sorted_wrt P xs \<longleftrightarrow> sorted_wrt P ys"
proof -
  have step: "sorted_wrt P xs \<Longrightarrow> sorted_wrt P ys" if "mset xs = mset ys" for xs ys
    using that
  proof (induction xs arbitrary: ys)
    case (Cons x xs)
    then have "x \<in> set ys" by (metis list.set_intros(1) set_mset_mset)
    then obtain us vs where ys: "ys = us @ x # vs" by (meson split_list)
    have m: "mset xs = mset (us @ vs)" using Cons.prems ys by simp
    then have "sorted_wrt P (us @ vs)" using Cons by auto
    moreover have "\<forall>z \<in> set (us @ vs). P x z" using Cons.prems(1) m by (metis set_mset_mset sorted_wrt.simps(2))
    ultimately show ?case using assms(1) ys by (auto simp: sorted_wrt_append)
  qed simp
  show ?thesis using step assms(2) by metis
qed

text \<open>C19. \<open>validate\<close> of a save request accepts exactly the requests that satisfy the contract: an id, at least one change, one store and one
  partition, every change well formed, and no two changes of the same record of which one is strict.  The operations of changes and fields are bytes: those
  outside the enumerations are refused.\<close>

theorem validate_save_exact: "validate_save request = [] \<longleftrightarrow> save_ok request"
  by (rule validate_save_accepts)

text \<open>Whether a save request is accepted does not depend on the order of its changes, although the check reads them in order and looks only
  at the changes before the current one.\<close>

theorem validate_save_order:
  assumes "mset cs = mset cs'"
  shows "validate_save \<lparr>sr_request_id = r, sr_changes = cs\<rparr> = [] \<longleftrightarrow> validate_save \<lparr>sr_request_id = r, sr_changes = cs'\<rparr> = []"
proof -
  have "set cs = set cs'" by (rule mset_eq_setD [OF assms])
  moreover then have "cs = [] \<longleftrightarrow> cs' = []" by (metis set_empty)
  moreover have "sorted_wrt (\<lambda>a b. \<not> clash a b) cs \<longleftrightarrow> sorted_wrt (\<lambda>a b. \<not> clash a b) cs'"
    using clash_symD assms by (intro sorted_wrt_sym_mset) blast+
  ultimately show ?thesis unfolding validate_save_accepts save_ok_def by simp
qed

definition sample_change :: "string \<Rightarrow> entity_operation \<Rightarrow> u64 \<Rightarrow> entity_patch" where
  "sample_change key operation version =
     \<lparr>ep_target = \<lparr>er_store = ''default'', er_partition = ''p'', er_entity = ''player'', er_key = [\<lparr>nv_name = ''id'', nv_data = text_value key\<rparr>]\<rparr>,
      ep_fields = [\<lparr>fp_operation = Set_op, fp_name = ''gold'', fp_data = signed_value 5\<rparr>],
      ep_create_if_missing = False, ep_check_version = (version \<noteq> 0), ep_expected_version = version, ep_operation = operation\<rparr>"

lemma validate_save_order_witness:
  "validate_save \<lparr>sr_request_id = ''r'', sr_changes = [sample_change ''a'' Insert 0, sample_change ''b'' Update 3]\<rparr> = [] \<and>
   validate_save \<lparr>sr_request_id = ''r'', sr_changes = [sample_change ''b'' Update 3, sample_change ''a'' Insert 0]\<rparr> = []"
proof
  show first: "validate_save \<lparr>sr_request_id = ''r'', sr_changes = [sample_change ''a'' Insert 0, sample_change ''b'' Update 3]\<rparr> = []"
    by code_simp
  have "mset [sample_change ''a'' Insert 0, sample_change ''b'' Update 3] = mset [sample_change ''b'' Update 3, sample_change ''a'' Insert 0]"
    by simp
  from validate_save_order [OF this, of "''r''"] first
  show "validate_save \<lparr>sr_request_id = ''r'', sr_changes = [sample_change ''b'' Update 3, sample_change ''a'' Insert 0]\<rparr> = []"
    by simp
qed

text \<open>\<open>validate\<close> of a load request accepts exactly the well-formed ones.\<close>

theorem validate_load_exact: "validate_load request = [] \<longleftrightarrow> load_ok request"
  unfolding validate_load_def load_ok_def Let_def
  by (auto simp: check_mask_iff validate_target_iff)

section \<open>The enumerations are codes\<close>

lemma value_kind_names: "value_kind_from_string s = Some x \<longleftrightarrow> s = value_kind_to_string x"
  by (cases x) (auto simp: value_kind_from_string_def value_kind_to_string_def)

lemma result_code_names: "result_code_from_string s = Some x \<longleftrightarrow> s = result_code_to_string x"
  by (cases x) (auto simp: result_code_from_string_def result_code_to_string_def)

lemma patch_op_names: "patch_op_from_string s = Some x \<longleftrightarrow> s = patch_op_to_string x \<and> x \<in> {Set_op, Erase_op, Increment_op}"
  by (cases x) (auto simp: patch_op_from_string_def patch_op_to_string_def)

lemma entity_operation_names: "entity_operation_from_string s = Some x \<longleftrightarrow> s = entity_operation_to_string x \<and> x \<in> set entity_operations"
  by (cases x) (auto simp: entity_operation_from_string_def entity_operation_to_string_def entity_operations_def)

lemma value_kind_numbers: "value_kind_from_integer (kind_number x) = Some x"
  by (cases x) (auto simp: value_kind_from_integer_def kind_number_def value_kinds_def)

lemma patch_op_numbers: "patch_op_from_integer (patch_op_number x) = (if x \<in> {Set_op, Erase_op, Increment_op} then Some x else None)"
  using patch_op_unknown [of x] by (cases x) (auto simp: patch_op_from_integer_def patch_op_number_def)

lemma entity_operation_numbers: "entity_operation_from_integer (entity_operation_number x) = (if x \<in> set entity_operations then Some x else None)"
  using entity_operation_unknown [of x] by (cases x) (auto simp: entity_operation_from_integer_def entity_operation_number_def entity_operations_def)

text \<open>The number of an operation is its byte.\<close>

lemma patch_op_number_inj: "patch_op_number x = patch_op_number y \<longleftrightarrow> x = y"
proof -
  have unknown: "patch_op_number (Unknown_patch_op m) = patch_op_number (Unknown_patch_op n) \<longleftrightarrow> m = n" for m n
  proof -
    have "0 \<le> Rep_bit1 m" "0 \<le> Rep_bit1 n" using Rep_bit1 [of m] Rep_bit1 [of n] by simp_all
    then show ?thesis using unat_patch_op_number [of m] unat_patch_op_number [of n] by (metis Rep_bit1_inject add_left_cancel eq_nat_nat_iff)
  qed
  have "x \<in> {Set_op, Erase_op, Increment_op} \<Longrightarrow> patch_op_number x = patch_op_number y \<longleftrightarrow> x = y" for x y
  proof (cases "y \<in> {Set_op, Erase_op, Increment_op}")
    case True
    then show "x \<in> {Set_op, Erase_op, Increment_op} \<Longrightarrow> patch_op_number x = patch_op_number y \<longleftrightarrow> x = y" by (auto simp: patch_op_number_def)
  qed (metis patch_op_unknown)
  note known = this
  show ?thesis
  proof (cases "x \<in> {Set_op, Erase_op, Increment_op} \<or> y \<in> {Set_op, Erase_op, Increment_op}")
    case True
    then show ?thesis using known [of x y] known [of y x] by metis
  next
    case False
    then obtain m n where "x = Unknown_patch_op m" "y = Unknown_patch_op n" by (cases x; cases y) (auto)
    then show ?thesis using unknown by simp
  qed
qed

lemma entity_operation_number_inj: "entity_operation_number x = entity_operation_number y \<longleftrightarrow> x = y"
proof -
  have unknown: "entity_operation_number (Unknown_operation m) = entity_operation_number (Unknown_operation n) \<longleftrightarrow> m = n" for m n
  proof -
    have "0 \<le> Rep_bit0 m" "0 \<le> Rep_bit0 n" using Rep_bit0 [of m] Rep_bit0 [of n] by simp_all
    then show ?thesis using unat_entity_operation_number [of m] unat_entity_operation_number [of n] by (metis Rep_bit0_inject add_left_cancel eq_nat_nat_iff)
  qed
  have "x \<in> set entity_operations \<Longrightarrow> entity_operation_number x = entity_operation_number y \<longleftrightarrow> x = y" for x y
  proof (cases "y \<in> set entity_operations")
    case True
    then show "x \<in> set entity_operations \<Longrightarrow> entity_operation_number x = entity_operation_number y \<longleftrightarrow> x = y"
      by (auto simp: entity_operations_def entity_operation_number_def)
  qed (metis entity_operation_unknown)
  note known = this
  show ?thesis
  proof (cases "x \<in> set entity_operations \<or> y \<in> set entity_operations")
    case True
    then show ?thesis using known [of x y] known [of y x] by metis
  next
    case False
    then obtain m n where "x = Unknown_operation m" "y = Unknown_operation n" by (cases x; cases y) (auto simp: entity_operations_def)
    then show ?thesis using unknown by simp
  qed
qed

end
