(* ===== verification/Number_Text.thy ===== *)
theory Number_Text
  imports Prelude
begin

text \<open>
  Decimal text of integers: the digits of the C locale, \<open>std::to_string\<close> and \<open>std::from_chars\<close> of the C++ standard library, as the entity stores use
  them, and that reading inverts printing within the range of the integer type.
\<close>

section \<open>Digits\<close>

definition is_digit :: "char \<Rightarrow> bool" where
  "is_digit c \<longleftrightarrow> CHR ''0'' \<le> c \<and> c \<le> CHR ''9''"

definition digit_of :: "char \<Rightarrow> nat" where
  "digit_of c = of_char c - 48"

definition char_digit :: "nat \<Rightarrow> char" where
  "char_digit d = char_of (48 + d)"

definition num :: "string \<Rightarrow> nat" where
  "num ds = val_le 10 (map digit_of (rev ds))"

text \<open>\<open>std::from_chars\<close> for an integer type with the range \<open>lo..hi\<close>: a minus sign only for signed types, then the longest run of digits; an
  empty run and a value out of range are errors.\<close>

definition from_chars :: "int \<Rightarrow> int \<Rightarrow> string \<Rightarrow> (int \<times> string) option" where
  "from_chars lo hi text =
     (let neg = (lo < 0 \<and> text \<noteq> [] \<and> hd text = CHR ''-''); t = (if neg then tl text else text);
          v = (if neg then - int (num (takeWhile is_digit t)) else int (num (takeWhile is_digit t)))
      in if takeWhile is_digit t = [] \<or> v < lo \<or> v > hi then None else Some (v, dropWhile is_digit t))"

text \<open>\<open>std::to_string\<close> of an integer.\<close>

fun nat_text :: "nat \<Rightarrow> string" where
  "nat_text n = (if n < 10 then [char_digit n] else nat_text (n div 10) @ [char_digit (n mod 10)])"

declare nat_text.simps [simp del]

definition int_text :: "int \<Rightarrow> string" where
  "int_text z = (if z < 0 then CHR ''-'' # nat_text (nat (- z)) else nat_text (nat z))"

section \<open>Digit strings\<close>

abbreviation digits_ok :: "string \<Rightarrow> bool" where
  "digits_ok ds \<equiv> \<forall>c \<in> set ds. is_digit c"

lemma is_digit_nat: "is_digit c \<longleftrightarrow> 48 \<le> (of_char c :: nat) \<and> (of_char c :: nat) \<le> 57"
  by (simp add: is_digit_def less_eq_char_def)

lemma digit_of_less: "is_digit c \<Longrightarrow> digit_of c < 10"
  by (auto simp: is_digit_nat digit_of_def)

lemma char_digit_props: "d < 10 \<Longrightarrow> is_digit (char_digit d)" "d < 10 \<Longrightarrow> digit_of (char_digit d) = d"
  by (auto simp: is_digit_nat char_digit_def digit_of_def of_char_of)

lemma char_digit_of [simp]: "is_digit c \<Longrightarrow> char_digit (digit_of c) = c"
  by (simp add: is_digit_nat char_digit_def digit_of_def)

lemma digit_of_eq: "is_digit c \<Longrightarrow> is_digit d \<Longrightarrow> digit_of c = digit_of d \<longleftrightarrow> c = d"
  by (metis char_digit_of)

lemma digit_of_0 [simp]: "digit_of (CHR ''0'') = 0" "is_digit (CHR ''0'')"
  by (simp_all add: digit_of_def is_digit_nat)

lemma digit_of_zero_iff: "is_digit c \<Longrightarrow> digit_of c = 0 \<longleftrightarrow> c = CHR ''0''"
  using digit_of_eq [of c "CHR ''0''"] by simp

lemma num_Nil [simp]: "num [] = 0"
  by (simp add: num_def)

lemma num_Cons: "num (c # ds) = digit_of c * 10 ^ length ds + num ds"
  by (simp add: num_def val_le_append)

lemma num_append: "num (as @ bs) = num as * 10 ^ length bs + num bs"
  by (simp add: num_def val_le_append)

lemma num_zeros [simp]: "num (replicate n (CHR ''0'')) = 0"
  by (simp add: num_def map_replicate rev_replicate)

lemma num_less: "digits_ok ds \<Longrightarrow> num ds < 10 ^ length ds"
  using val_le_bound [of "map digit_of (rev ds)" 10] digit_of_less by (auto simp: num_def)

lemma num_leading: "digits_ok (c # ds) \<Longrightarrow> c \<noteq> CHR ''0'' \<Longrightarrow> 10 ^ length ds \<le> num (c # ds)"
proof -
  assume "digits_ok (c # ds)" "c \<noteq> CHR ''0''"
  then have "1 \<le> digit_of c" using digit_of_zero_iff [of c] by (simp add: Suc_le_eq)
  then have "1 * 10 ^ length ds \<le> digit_of c * 10 ^ length ds" by (intro mult_le_mono1)
  then show ?thesis by (simp only: num_Cons)
qed

lemma num_inj: "length as = length bs \<Longrightarrow> digits_ok as \<Longrightarrow> digits_ok bs \<Longrightarrow> num as = num bs \<Longrightarrow> as = bs"
proof (induction as bs rule: list_induct2)
  case (Cons a as b bs)
  have b: "num as < 10 ^ length as" "num bs < 10 ^ length as" using Cons num_less [of as] num_less [of bs] by auto
  have eq: "digit_of a * 10 ^ length as + num as = digit_of b * 10 ^ length as + num bs" using Cons by (simp add: num_Cons)
  have "(digit_of a * 10 ^ length as + num as) div 10 ^ length as = (digit_of b * 10 ^ length as + num bs) div 10 ^ length as"
    by (simp only: eq)
  then have "digit_of a = digit_of b" using b by simp
  then show ?case using Cons eq digit_of_eq [of a b] by simp
qed simp

lemma num_lex: "length as = length bs \<Longrightarrow> digits_ok as \<Longrightarrow> digits_ok bs \<Longrightarrow> as < bs \<longleftrightarrow> num as < num bs"
proof (induction as bs rule: list_induct2)
  case (Cons a as b bs)
  have b: "num as < 10 ^ length as" "num bs < 10 ^ length as" using Cons num_less [of as] num_less [of bs] by auto
  have ab: "a < b \<longleftrightarrow> digit_of a < digit_of b"
    using Cons.prems by (auto simp: is_digit_nat digit_of_def less_char_def)
  have *: "num (x # as) < num (y # bs)" if "digit_of x < digit_of y" for x y
  proof -
    have "(digit_of x + 1) * 10 ^ length as \<le> digit_of y * 10 ^ length as" using that by (intro mult_le_mono1) simp
    then show ?thesis using b Cons.hyps by (simp add: num_Cons)
  qed
  have **: "num (y # bs) < num (x # as)" if "digit_of y < digit_of x" for x y
  proof -
    have "(digit_of y + 1) * 10 ^ length as \<le> digit_of x * 10 ^ length as" using that by (intro mult_le_mono1) simp
    then show ?thesis using b Cons.hyps by (simp add: num_Cons)
  qed
  consider "digit_of a < digit_of b" | "digit_of b < digit_of a" | "a = b" using digit_of_eq [of a b] Cons.prems by force
  then show ?case
  proof cases
    case 1
    then show ?thesis using ab *[of a b] by simp
  next
    case 2
    then have "\<not> a < b" "a \<noteq> b" using ab by auto
    then show ?thesis using **[of b a] 2 by auto
  next
    case 3
    then show ?thesis using Cons by (simp add: num_Cons)
  qed
qed simp

lemma num_dropWhile: "num (dropWhile (\<lambda>c. c = CHR ''0'') ds) = num ds"
  by (induction ds) (auto simp: num_Cons)

section \<open>Printing and reading\<close>

lemma nat_text_digits: "digits_ok (nat_text n) \<and> nat_text n \<noteq> [] \<and> num (nat_text n) = n \<and> (n > 0 \<longrightarrow> hd (nat_text n) \<noteq> CHR ''0'')"
proof (induction n rule: nat_text.induct)
  case (1 n)
  show ?case
  proof (cases "n < 10")
    case True
    then show ?thesis using char_digit_props [OF True] digit_of_zero_iff [of "char_digit n"] by (auto simp: nat_text.simps [of n] num_Cons)
  next
    case False
    have m: "n mod 10 < 10" by simp
    show ?thesis using 1 [OF False] False char_digit_props [OF m] by (auto simp: nat_text.simps [of n] num_append num_Cons hd_append)
  qed
qed

lemma nat_text_0: "nat_text 0 = ''0''"
  using char_digit_of [of "CHR ''0''"] by (simp add: nat_text.simps)

lemma num_nat_text [simp]: "num (nat_text n) = n"
  using nat_text_digits by blast

lemma nat_text_length: "0 < k \<Longrightarrow> n < 10 ^ k \<Longrightarrow> length (nat_text n) \<le> k"
proof (cases "n = 0")
  case False
  assume k: "0 < k" "n < 10 ^ k"
  note d = nat_text_digits [of n]
  have "(10::nat) ^ (length (nat_text n) - 1) \<le> n"
    using num_leading [of "hd (nat_text n)" "tl (nat_text n)"] d False by (cases "nat_text n") auto
  also have "\<dots> < 10 ^ k" by (rule k)
  finally have "length (nat_text n) - 1 < k" by (simp add: power_strict_increasing_iff)
  then show ?thesis by simp
qed (simp add: nat_text_0)

lemma int_text_length: "\<bar>z\<bar> < 10 ^ 100 \<Longrightarrow> length (int_text z) \<le> 101"
proof -
  assume z: "\<bar>z\<bar> < 10 ^ 100"
  then have "nat (- z) < 10 ^ 100 \<or> 0 \<le> z" "nat z < 10 ^ 100" by (auto simp: nat_less_iff)
  then show ?thesis using nat_text_length [of 100 "nat z"] nat_text_length [of 100 "nat (- z)"] by (auto simp: int_text_def)
qed

lemma from_chars_int_text:
  assumes "lo \<le> 0" "0 \<le> hi"
  shows "from_chars lo hi (int_text z) = (if lo \<le> z \<and> z \<le> hi then Some (z, []) else None)"
proof -
  have d: "takeWhile is_digit (nat_text n) = nat_text n" "dropWhile is_digit (nat_text n) = []" "nat_text n \<noteq> []" "num (nat_text n) = n" for n
    using nat_text_digits [of n] by (auto simp: takeWhile_eq_all_conv)
  have h: "hd (nat_text n) \<noteq> CHR ''-''" for n using nat_text_digits [of n] by (cases "nat_text n") (auto simp: is_digit_nat)
  show ?thesis
  proof (cases "z < 0")
    case True
    moreover have "\<not> is_digit (CHR ''-'')" by (simp add: is_digit_nat)
    ultimately show ?thesis using assms by (cases "lo < 0") (auto simp: from_chars_def int_text_def Let_def d)
  next
    case False
    then show ?thesis using h assms by (auto simp: from_chars_def int_text_def Let_def d)
  qed
qed

end
