(* ===== verification/Redis_Decimal.thy ===== *)
theory Redis_Decimal
  imports Complex_Main Entity_Contract Number_Text
begin

text \<open>
  The exact decimal arithmetic of the Redis entity store (\<open>Decimal\<close> in \<^verbatim>\<open>plugins/redis/redis_entity_codec.hpp\<close>): parsing with a sign, a point
  and an exponent, normalisation, printing and addition of digit strings of at most 4096 digits.  The theory shows that addition is exact, that
  the normal form of a number is unique, and that printing and parsing are inverse up to the length limit of the parser.
\<close>

section \<open>Errors\<close>

datatype entity_error = Entity_error result_code string

type_synonym 'a outcome = "entity_error + 'a"

definition invalid :: "string \<Rightarrow> 'a outcome" where
  "invalid message = Inl (Entity_error Invalid_request message)"

definition corrupt :: "string \<Rightarrow> 'a outcome" where
  "corrupt message = Inl (Entity_error Internal_error message)"

text \<open>An exception leaves every caller.\<close>

definition and_then :: "'a outcome \<Rightarrow> ('a \<Rightarrow> 'b outcome) \<Rightarrow> 'b outcome" where
  "and_then x f = (case x of Inl e \<Rightarrow> Inl e | Inr a \<Rightarrow> f a)"

lemma and_then_simps [simp]: "and_then (Inr a) f = f a" "and_then (Inl e) f = Inl e" "and_then (invalid m) f = invalid m" "and_then (corrupt m) f = corrupt m"
  by (simp_all add: and_then_def invalid_def corrupt_def)

lemma outcome_distinct [simp]: "invalid m \<noteq> Inr a" "Inr a \<noteq> invalid m" "corrupt m \<noteq> Inr a" "Inr a \<noteq> corrupt m"
  by (simp_all add: invalid_def corrupt_def)

lemma and_then_Inr: "and_then x f = Inr b \<longleftrightarrow> (\<exists>a. x = Inr a \<and> f a = Inr b)"
  by (cases x) auto

section \<open>The class Decimal\<close>

record decimal =
  dec_digits :: string
  dec_scale :: int
  dec_negative :: bool

definition decimal_limit :: nat where
  "decimal_limit = 4096"

text \<open>\<open>while (scale_ > 0 && digits_.back() == '0')\<close>\<close>

function strip_zeros :: "string \<Rightarrow> int \<Rightarrow> string \<times> int" where
  "strip_zeros ds scale = (if scale > 0 \<and> ds \<noteq> [] \<and> last ds = CHR ''0'' then strip_zeros (butlast ds) (scale - 1) else (ds, scale))"
  by pat_completeness auto

termination
  by (relation "measure (\<lambda>(ds, scale). nat scale)") auto

declare strip_zeros.simps [simp del]

definition dec_normalize :: "decimal \<Rightarrow> decimal outcome" where
  "dec_normalize d =
     (let ds = dropWhile (\<lambda>c. c = CHR ''0'') (dec_digits d)
      in if ds = [] then Inr \<lparr>dec_digits = ''0'', dec_scale = 0, dec_negative = False\<rparr>
         else case strip_zeros ds (dec_scale d) of (ds', scale) \<Rightarrow>
           if length ds' > decimal_limit \<or> scale > int decimal_limit then invalid ''decimal precision exceeds 4096 digits''
           else Inr (d\<lparr>dec_digits := ds', dec_scale := scale\<rparr>))"

text \<open>The loop over the mantissa: the digits, whether there was one, the number of digits after the point, and the rest of the text.\<close>

fun read_mantissa :: "bool \<Rightarrow> string \<Rightarrow> bool \<Rightarrow> int \<Rightarrow> string \<Rightarrow> (string \<times> bool \<times> int \<times> string) outcome" where
  "read_mantissa dot digits any_digit fraction [] = Inr (digits, any_digit, fraction, [])"
| "read_mantissa dot digits any_digit fraction (c # cs) =
     (if c = CHR ''e'' \<or> c = CHR ''E'' then Inr (digits, any_digit, fraction, c # cs)
      else if c = CHR ''.'' \<and> \<not> dot then read_mantissa True digits any_digit fraction cs
      else if \<not> is_digit c then invalid ''invalid decimal''
      else read_mantissa dot (digits @ [c]) True (if dot then fraction + 1 else fraction) cs)"

definition read_exponent :: "string \<Rightarrow> int outcome" where
  "read_exponent rest =
     (case rest of
        [] \<Rightarrow> Inr 0
      | _ # text \<Rightarrow>
          (let text' = (if text \<noteq> [] \<and> hd text = CHR ''+'' then tl text else text)
           in case from_chars (- (2 ^ 31)) (2 ^ 31 - 1) text' of
                None \<Rightarrow> invalid ''decimal exponent out of range''
              | Some (exponent, end) \<Rightarrow>
                  if end \<noteq> [] \<or> exponent < - int decimal_limit \<or> exponent > int decimal_limit
                  then invalid ''decimal exponent out of range'' else Inr exponent))"

text \<open>A negative scale appends zeros.\<close>

definition scaled_decimal :: "bool \<Rightarrow> string \<Rightarrow> int \<Rightarrow> decimal" where
  "scaled_decimal negative digits scale =
     (if scale < 0 then \<lparr>dec_digits = digits @ replicate (nat (- scale)) (CHR ''0''), dec_scale = 0, dec_negative = negative\<rparr>
      else \<lparr>dec_digits = digits, dec_scale = scale, dec_negative = negative\<rparr>)"

definition decimal_of :: "string \<Rightarrow> decimal outcome" where
  "decimal_of text =
     (if text = [] \<or> length text > decimal_limit then invalid ''invalid/oversized decimal''
      else let signed = (hd text = CHR ''-'' \<or> hd text = CHR ''+''); negative = (hd text = CHR ''-'')
           in and_then (read_mantissa False [] False 0 (if signed then tl text else text)) (\<lambda>(digits, any_digit, fraction, rest).
                if \<not> any_digit then invalid ''invalid decimal''
                else and_then (read_exponent rest) (\<lambda>exponent. dec_normalize (scaled_decimal negative digits (fraction - exponent)))))"

definition decimal_str :: "decimal \<Rightarrow> string" where
  "decimal_str d =
     (let scale = nat (dec_scale d);
          out = (if dec_scale d > 0 \<and> length (dec_digits d) \<le> scale
                 then replicate (scale + 1 - length (dec_digits d)) (CHR ''0'') @ dec_digits d else dec_digits d);
          out = (if dec_scale d > 0 then take (length out - scale) out @ CHR ''.'' # drop (length out - scale) out else out)
      in if dec_negative d then CHR ''-'' # out else out)"

definition decimal_integer :: "decimal \<Rightarrow> string outcome" where
  "decimal_integer d = (if dec_scale d \<noteq> 0 then invalid ''increment is not an exact integer'' else Inr (decimal_str d))"

text \<open>The two loops of \<open>add\<close>, over the digits from the last to the first; the result has the last digit first.\<close>

fun add_digits :: "nat \<Rightarrow> string \<Rightarrow> string \<Rightarrow> string" where
  "add_digits carry [] [] = (if carry = 0 then [] else [char_digit (carry mod 10)])"
| "add_digits carry (a # as) [] = (let sum = carry + digit_of a in char_digit (sum mod 10) # add_digits (sum div 10) as [])"
| "add_digits carry [] (b # bs) = (let sum = carry + digit_of b in char_digit (sum mod 10) # add_digits (sum div 10) [] bs)"
| "add_digits carry (a # as) (b # bs) =
     (let sum = carry + digit_of a + digit_of b in char_digit (sum mod 10) # add_digits (sum div 10) as bs)"

fun sub_digits :: "bool \<Rightarrow> string \<Rightarrow> string \<Rightarrow> string" where
  "sub_digits borrow [] bs = []"
| "sub_digits borrow (a # as) bs =
     (let difference = int (digit_of a) - of_bool borrow - (case bs of [] \<Rightarrow> 0 | b # _ \<Rightarrow> int (digit_of b))
      in char_digit (nat (if difference < 0 then difference + 10 else difference)) #
         sub_digits (difference < 0) as (case bs of [] \<Rightarrow> [] | _ # bs' \<Rightarrow> bs'))"

definition decimal_add :: "decimal \<Rightarrow> decimal \<Rightarrow> decimal outcome" where
  "decimal_add x y =
     (let scale = max (dec_scale x) (dec_scale y);
          a = dec_digits x @ replicate (nat (scale - dec_scale x)) (CHR ''0'');
          b = dec_digits y @ replicate (nat (scale - dec_scale y)) (CHR ''0'')
      in if length a > decimal_limit \<or> length b > decimal_limit then invalid ''decimal precision exceeds 4096 digits''
         else let (digits, negative) =
                (if dec_negative x = dec_negative y then (add_digits 0 (rev a) (rev b), dec_negative x)
                 else if length a < length b \<or> length a = length b \<and> a < b then (sub_digits False (rev b) (rev a), dec_negative y)
                 else (sub_digits False (rev a) (rev b), dec_negative x))
              in dec_normalize \<lparr>dec_digits = rev digits, dec_scale = scale, dec_negative = negative\<rparr>)"

section \<open>Digit strings\<close>

lemma add_digits_spec:
  "digits_ok as \<Longrightarrow> digits_ok bs \<Longrightarrow> carry \<le> 1 \<Longrightarrow>
   digits_ok (add_digits carry as bs) \<and> num (rev (add_digits carry as bs)) = carry + num (rev as) + num (rev bs) \<and>
   length (add_digits carry as bs) \<le> Suc (max (length as) (length bs))"
proof (induction carry as bs rule: add_digits.induct)
  case (1 carry)
  then show ?case using char_digit_props [of carry] by (auto simp: num_Cons)
next
  case (2 carry a as)
  let ?s = "carry + digit_of a"
  have s: "?s div 10 \<le> 1" "?s mod 10 < 10" "?s = ?s div 10 * 10 + ?s mod 10" using 2 digit_of_less [of a] by auto
  show ?case using 2(1) [OF refl] 2(2-) s char_digit_props [OF s(2)]
    by (simp add: Let_def num_append num_Cons)
next
  case (3 carry b bs)
  let ?s = "carry + digit_of b"
  have s: "?s div 10 \<le> 1" "?s mod 10 < 10" "?s = ?s div 10 * 10 + ?s mod 10" using 3 digit_of_less [of b] by auto
  show ?case using 3(1) [OF refl] 3(2-) s char_digit_props [OF s(2)]
    by (simp add: Let_def num_append num_Cons)
next
  case (4 carry a as b bs)
  let ?s = "carry + digit_of a + digit_of b"
  have s: "?s div 10 \<le> 1" "?s mod 10 < 10" "?s = ?s div 10 * 10 + ?s mod 10" using 4 digit_of_less [of a] digit_of_less [of b] by auto
  show ?case using 4(1) [OF refl] 4(2-) s char_digit_props [OF s(2)]
    by (simp add: Let_def num_append num_Cons)
qed

text \<open>Subtraction of a number that is not larger; in general the digits are those of the difference modulo the power of ten.\<close>

lemma sub_digits_spec:
  "digits_ok as \<Longrightarrow> digits_ok bs \<Longrightarrow> length bs \<le> length as \<Longrightarrow>
   digits_ok (sub_digits borrow as bs) \<and> length (sub_digits borrow as bs) = length as \<and>
   (\<exists>out :: bool. int (num (rev (sub_digits borrow as bs))) = int (num (rev as)) - int (num (rev bs)) - of_bool borrow + of_bool out * 10 ^ length as)"
proof (induction as arbitrary: borrow bs)
  case Nil
  then show ?case by (auto intro: exI [of _ False])
next
  case (Cons a as)
  note 2 = Cons.IH Cons.prems
  define t where "t = (case bs of [] \<Rightarrow> 0 | b # _ \<Rightarrow> digit_of b)"
  define bs' where "bs' = (case bs of [] \<Rightarrow> [] | _ # bs' \<Rightarrow> bs')"
  define d where "d = int (digit_of a) - of_bool borrow - int t"
  define e where "e = nat (if d < 0 then d + 10 else d)"
  have tb: "t < 10" using 2(3) digit_of_less by (auto simp: t_def split: list.splits)
  have ab: "digit_of a < 10" using 2(2) digit_of_less by simp
  have e: "e < 10" "int e = d + 10 * of_bool (d < 0)" using tb ab by (auto simp: e_def d_def)
  have nb: "num (rev bs) = num (rev bs') * 10 + t" by (auto simp: bs'_def t_def num_append num_Cons split: list.splits)
  have ok': "digits_ok bs'" "length bs' \<le> length as" using 2(3,4) by (auto simp: bs'_def split: list.splits)
  have step: "sub_digits borrow (a # as) bs = char_digit e # sub_digits (d < 0) as bs'"
    by (simp add: Let_def e_def d_def t_def bs'_def split: list.splits)
  have IH: "digits_ok (sub_digits (d < 0) as bs') \<and> length (sub_digits (d < 0) as bs') = length as \<and>
     (\<exists>out :: bool. int (num (rev (sub_digits (d < 0) as bs'))) = int (num (rev as)) - int (num (rev bs')) - of_bool (d < 0) + of_bool out * 10 ^ length as)"
    using 2(1) [of bs' "d < 0"] 2(2) ok' by simp
  then obtain out :: bool where out: "int (num (rev (sub_digits (d < 0) as bs'))) = int (num (rev as)) - int (num (rev bs')) - of_bool (d < 0) + of_bool out * 10 ^ length as"
    by blast
  have "int (num (rev (sub_digits borrow (a # as) bs))) = int (num (rev (sub_digits (d < 0) as bs'))) * 10 + int e"
    using char_digit_props [OF e(1)] unfolding step by (simp add: num_append num_Cons)
  also have "\<dots> = int (num (rev (a # as))) - int (num (rev bs)) - of_bool borrow + of_bool out * 10 ^ length (a # as)"
    unfolding out e(2) nb by (simp add: num_append num_Cons d_def algebra_simps)
  finally show ?case using IH char_digit_props [OF e(1)] unfolding step by auto
qed

section \<open>Normal form and value\<close>

definition decimal_ok :: "decimal \<Rightarrow> bool" where
  "decimal_ok d \<longleftrightarrow> digits_ok (dec_digits d) \<and> dec_digits d \<noteq> [] \<and> length (dec_digits d) \<le> decimal_limit \<and>
     0 \<le> dec_scale d \<and> dec_scale d \<le> int decimal_limit \<and>
     (hd (dec_digits d) = CHR ''0'' \<longrightarrow> d = \<lparr>dec_digits = ''0'', dec_scale = 0, dec_negative = False\<rparr>) \<and>
     (dec_scale d > 0 \<longrightarrow> last (dec_digits d) \<noteq> CHR ''0'')"

text \<open>The number without its point, and the number.\<close>

definition dec_int :: "decimal \<Rightarrow> int" where
  "dec_int d = (if dec_negative d then - int (num (dec_digits d)) else int (num (dec_digits d)))"

definition dec_val :: "decimal \<Rightarrow> real" where
  "dec_val d = dec_int d / 10 ^ nat (dec_scale d)"

lemma strip_zeros_spec:
  assumes "strip_zeros ds scale = (ds', scale')" "digits_ok ds" "ds \<noteq> []" "hd ds \<noteq> CHR ''0''" "0 \<le> scale"
  shows "digits_ok ds' \<and> ds' \<noteq> [] \<and> hd ds' = hd ds \<and> 0 \<le> scale' \<and> scale' \<le> scale \<and> length ds' \<le> length ds \<and>
    (scale' > 0 \<longrightarrow> last ds' \<noteq> CHR ''0'') \<and> num ds = num ds' * 10 ^ nat (scale - scale')"
  using assms
proof (induction ds scale arbitrary: ds' scale' rule: strip_zeros.induct)
  case (1 ds scale)
  show ?case
  proof (cases "scale > 0 \<and> ds \<noteq> [] \<and> last ds = CHR ''0''")
    case True
    have ds: "ds = butlast ds @ [CHR ''0'']" using True by (metis append_butlast_last_id)
    have ne: "butlast ds \<noteq> []" using ds 1(5) by (metis append_Nil list.sel(1))
    have hd: "hd (butlast ds) = hd ds" using ds ne by (metis hd_append2)
    have ok: "digits_ok (butlast ds)" using 1(3) by (meson in_set_butlastD)
    have strip: "strip_zeros (butlast ds) (scale - 1) = (ds', scale')" using 1(2) True by (simp add: strip_zeros.simps [of ds])
    note IH = 1(1) [OF True strip ok ne] 
    have n: "num ds = num (butlast ds) * 10" by (subst ds) (simp add: num_append num_Cons)
    have "nat (scale - scale') = Suc (nat (scale - 1 - scale'))" using IH True hd 1(5) by auto
    then show ?thesis using IH n True hd 1(5) by auto
  next
    case False
    then show ?thesis using 1 by (auto simp: strip_zeros.simps [of ds])
  qed
qed

lemma strip_zeros_id: "scale > 0 \<longrightarrow> last ds \<noteq> CHR ''0'' \<Longrightarrow> strip_zeros ds scale = (ds, scale)"
  by (auto simp: strip_zeros.simps [of ds])

lemma dec_normalize_spec:
  assumes ok: "digits_ok (dec_digits d)" and s: "0 \<le> dec_scale d"
  shows "case dec_normalize d of
      Inr c \<Rightarrow> decimal_ok c \<and> dec_val c = dec_val d
    | Inl e \<Rightarrow> Inl e = (invalid ''decimal precision exceeds 4096 digits'' :: decimal outcome) \<and> (length (dec_digits d) > decimal_limit \<or> dec_scale d > int decimal_limit)"
proof -
  define ds where "ds = dropWhile (\<lambda>c. c = CHR ''0'') (dec_digits d)"
  have n: "num ds = num (dec_digits d)" by (simp add: ds_def num_dropWhile)
  show ?thesis
  proof (cases "ds = []")
    case True
    then show ?thesis using n
      by (simp add: dec_normalize_def ds_def [symmetric] decimal_ok_def dec_val_def dec_int_def decimal_limit_def num_Cons)
  next
    case False
    obtain ds' scale' where strip: "strip_zeros ds (dec_scale d) = (ds', scale')" by fastforce
    have dsok: "digits_ok ds" using ok unfolding ds_def by (meson set_dropWhileD)
    have hd: "hd ds \<noteq> CHR ''0''" using False unfolding ds_def by (rule hd_dropWhile)
    note sp = strip_zeros_spec [OF strip dsok False hd s]
    have len: "length ds' \<le> length (dec_digits d)" using sp length_dropWhile_le [of _ "dec_digits d"] unfolding ds_def by (meson le_trans)
    have "nat (dec_scale d) = nat (dec_scale d - scale') + nat scale'" using sp by auto
    then have "num (dec_digits d) / 10 ^ nat (dec_scale d) = num ds' / (10 ^ nat scale' :: real)"
      using sp n by (simp add: power_add)
    then have v: "dec_val (d\<lparr>dec_digits := ds', dec_scale := scale'\<rparr>) = dec_val d"
      by (simp add: dec_val_def dec_int_def)
    have step: "dec_normalize d = (if length ds' > decimal_limit \<or> scale' > int decimal_limit then invalid ''decimal precision exceeds 4096 digits''
        else Inr (d\<lparr>dec_digits := ds', dec_scale := scale'\<rparr>))"
      using False strip by (simp add: dec_normalize_def ds_def [symmetric])
    show ?thesis
    proof (cases "length ds' > decimal_limit \<or> scale' > int decimal_limit")
      case True
      then show ?thesis using sp len by (auto simp: step invalid_def)
    next
      case F: False
      then have "decimal_ok (d\<lparr>dec_digits := ds', dec_scale := scale'\<rparr>)" using sp hd by (auto simp: decimal_ok_def)
      then show ?thesis using F v by (simp add: step)
    qed
  qed
qed

lemma dec_normalize_id:
  assumes "decimal_ok d" shows "dec_normalize d = Inr d"
proof (cases "hd (dec_digits d) = CHR ''0''")
  case True
  then have "d = \<lparr>dec_digits = ''0'', dec_scale = 0, dec_negative = False\<rparr>" using assms by (simp add: decimal_ok_def)
  then show ?thesis by (simp add: dec_normalize_def)
next
  case False
  then have "dropWhile (\<lambda>c. c = CHR ''0'') (dec_digits d) = dec_digits d" using assms
    by (cases "dec_digits d") (auto simp: decimal_ok_def)
  moreover have "strip_zeros (dec_digits d) (dec_scale d) = (dec_digits d, dec_scale d)"
    using assms by (intro strip_zeros_id) (simp add: decimal_ok_def)
  ultimately show ?thesis using assms by (auto simp: dec_normalize_def decimal_ok_def)
qed

lemma num_not_ten: "digits_ok ds \<Longrightarrow> ds \<noteq> [] \<Longrightarrow> last ds \<noteq> CHR ''0'' \<Longrightarrow> \<not> 10 dvd num ds"
proof -
  assume a: "digits_ok ds" "ds \<noteq> []" "last ds \<noteq> CHR ''0''"
  have "num ds = num (butlast ds) * 10 + digit_of (last ds)"
    using num_append [of "butlast ds" "[last ds]"] a(2) by (simp add: num_Cons)
  moreover have "digit_of (last ds) < 10" "digit_of (last ds) \<noteq> 0" using a digit_of_less digit_of_zero_iff by (auto simp: last_in_set)
  ultimately show ?thesis by presburger
qed

lemma num_canonical:
  assumes "digits_ok as" "digits_ok bs" "as \<noteq> []" "bs \<noteq> []" "hd as \<noteq> CHR ''0''" "hd bs \<noteq> CHR ''0''" "num as = num bs"
  shows "as = bs"
proof -
  have le: "length xs \<le> length ys" if "digits_ok xs" "digits_ok ys" "xs \<noteq> []" "hd xs \<noteq> CHR ''0''" "num xs = num ys" for xs ys
  proof -
    have "(10::nat) ^ (length xs - 1) \<le> num xs" using that num_leading [of "hd xs" "tl xs"] by (cases xs) auto
    also have "\<dots> < 10 ^ length ys" using that num_less by simp
    finally show ?thesis by (simp add: power_strict_increasing_iff)
  qed
  show ?thesis using le [of as bs] le [of bs as] assms by (intro num_inj) auto
qed

section \<open>Addition\<close>

definition dec_zero :: decimal where
  "dec_zero = \<lparr>dec_digits = ''0'', dec_scale = 0, dec_negative = False\<rparr>"

definition aligned :: "decimal \<Rightarrow> int \<Rightarrow> string" where
  "aligned x scale = dec_digits x @ replicate (nat (scale - dec_scale x)) (CHR ''0'')"

lemma decimal_ok_dest:
  assumes "decimal_ok x"
  shows "digits_ok (dec_digits x)" "dec_digits x \<noteq> []" "0 \<le> dec_scale x" "x \<noteq> dec_zero \<Longrightarrow> hd (dec_digits x) \<noteq> CHR ''0''"
  using assms by (auto simp: decimal_ok_def dec_zero_def)

lemma dec_zero_ok [simp]: "decimal_ok dec_zero"
  by (simp add: decimal_ok_def dec_zero_def decimal_limit_def)

lemma decimal_leading: "decimal_ok x \<Longrightarrow> x \<noteq> dec_zero \<Longrightarrow> 10 ^ (length (dec_digits x) - 1) \<le> num (dec_digits x)"
proof -
  assume x: "decimal_ok x" "x \<noteq> dec_zero"
  note d = decimal_ok_dest [OF x(1)]
  have "digits_ok (hd (dec_digits x) # tl (dec_digits x))" using d(1,2) by simp
  from num_leading [OF this d(4) [OF x(2)]] show ?thesis using d(2) by simp
qed

lemma decimal_num_pos: "decimal_ok x \<Longrightarrow> x \<noteq> dec_zero \<Longrightarrow> 0 < num (dec_digits x)"
  using decimal_leading [of x] less_le_trans [of 0 "10 ^ (length (dec_digits x) - 1)" "num (dec_digits x)"] by simp

lemma decimal_negative_value: "decimal_ok x \<Longrightarrow> dec_negative x \<Longrightarrow> dec_val x < 0"
proof -
  assume x: "decimal_ok x" "dec_negative x"
  then have "x \<noteq> dec_zero" by (auto simp: dec_zero_def)
  then have "0 < num (dec_digits x)" using decimal_num_pos x by blast
  then show ?thesis using x by (simp add: dec_val_def dec_int_def)
qed

lemma num_aligned: "num (aligned x scale) = num (dec_digits x) * 10 ^ nat (scale - dec_scale x)"
  by (simp add: aligned_def num_append)

lemma aligned_ok: "decimal_ok x \<Longrightarrow> digits_ok (aligned x scale)"
  by (auto simp: aligned_def decimal_ok_def)

text \<open>The signed digit strings over the common power of ten.\<close>

lemma dec_val_aligned:
  assumes "decimal_ok x" "dec_scale x \<le> scale"
  shows "dec_val x = (if dec_negative x then - real (num (aligned x scale)) else real (num (aligned x scale))) / 10 ^ nat scale"
proof -
  have "nat scale = nat (dec_scale x) + nat (scale - dec_scale x)" using assms decimal_ok_dest [OF assms(1)] by auto
  then have "real (num (aligned x scale)) / 10 ^ nat scale = real (num (dec_digits x)) / 10 ^ nat (dec_scale x)"
    by (simp add: num_aligned power_add)
  then show ?thesis by (simp add: dec_val_def dec_int_def)
qed

lemma sub_digits_value:
  assumes "digits_ok a" "digits_ok b" "length b \<le> length a"
  shows "digits_ok (rev (sub_digits False (rev a) (rev b)))" "length (sub_digits False (rev a) (rev b)) = length a"
    "int (num (rev (sub_digits False (rev a) (rev b)))) = (if num b \<le> num a then int (num a) - int (num b) else int (num a) - int (num b) + 10 ^ length a)"
proof -
  let ?r = "rev (sub_digits False (rev a) (rev b))"
  obtain out :: bool where out: "int (num ?r) = int (num a) - int (num b) + of_bool out * 10 ^ length a"
    using sub_digits_spec [of "rev a" "rev b" False] assms by auto
  show ok: "digits_ok ?r" and len: "length (sub_digits False (rev a) (rev b)) = length a" using sub_digits_spec [of "rev a" "rev b" False] assms by auto
  have "num ?r < 10 ^ length a" using num_less [OF ok] len by simp
  then have b: "int (num ?r) < 10 ^ length a" by (metis of_nat_less_iff of_nat_power of_nat_numeral)
  show "int (num ?r) = (if num b \<le> num a then int (num a) - int (num b) else int (num a) - int (num b) + 10 ^ length a)"
    using out b by (cases out) auto
qed

lemma num_length_less:
  assumes "digits_ok a" "digits_ok b" "length a < length b" "hd b \<noteq> CHR ''0''"
  shows "num a < num b"
proof -
  have "num a < 10 ^ length a" using assms num_less by simp
  also have "(10::nat) ^ length a \<le> 10 ^ (length b - 1)" using assms by (intro power_increasing) auto
  also have "\<dots> \<le> num b" using assms num_leading [of "hd b" "tl b"] by (cases b) auto
  finally show ?thesis .
qed

text \<open>The comparison of the aligned strings is the comparison of the numbers, except for a zero that is longer than a proper fraction.\<close>

lemma aligned_compare:
  assumes x: "decimal_ok x" and y: "decimal_ok y" and s: "scale = max (dec_scale x) (dec_scale y)"
    and nz: "x = dec_zero \<Longrightarrow> 1 \<le> \<bar>dec_val y\<bar>" "y = dec_zero \<Longrightarrow> 1 \<le> \<bar>dec_val x\<bar>"
  shows "length (aligned x scale) < length (aligned y scale) \<or> length (aligned x scale) = length (aligned y scale) \<and> aligned x scale < aligned y scale \<longleftrightarrow>
    num (aligned x scale) < num (aligned y scale)"
    and "length (aligned x scale) < length (aligned y scale) \<Longrightarrow> num (aligned x scale) < num (aligned y scale)"
    and "length (aligned y scale) < length (aligned x scale) \<Longrightarrow> num (aligned y scale) < num (aligned x scale)"
proof -
  have less: "num (aligned u scale) < num (aligned v scale)"
    if u: "decimal_ok u" and v: "decimal_ok v" and l: "length (aligned u scale) < length (aligned v scale)"
      and su: "dec_scale u \<le> scale" and sv: "dec_scale v \<le> scale" and z: "v = dec_zero \<Longrightarrow> scale = dec_scale u \<and> 1 \<le> \<bar>dec_val u\<bar>" for u v
  proof (cases "v = dec_zero")
    case True
    then have sc: "scale = dec_scale u" and "1 \<le> \<bar>dec_val u\<bar>" using z by auto
    moreover have "\<bar>dec_val u\<bar> = real (num (dec_digits u)) / 10 ^ nat (dec_scale u)" by (simp add: dec_val_def dec_int_def)
    ultimately have "10 ^ nat scale \<le> real (num (dec_digits u))" by (simp add: field_simps)
    then have "real (10 ^ nat scale) \<le> real (num (dec_digits u))" by simp
    then have "10 ^ nat scale \<le> num (dec_digits u)" by (simp only: of_nat_le_iff)
    also have "\<dots> < 10 ^ length (dec_digits u)" using decimal_ok_dest [OF u] num_less by simp
    finally have "nat scale < length (dec_digits u)" by (simp add: power_strict_increasing_iff)
    moreover have "length (aligned v scale) = Suc (nat scale)" using True by (simp add: aligned_def dec_zero_def)
    ultimately show ?thesis using l sc by (simp add: aligned_def)
  next
    case False
    then have "hd (aligned v scale) \<noteq> CHR ''0''" using decimal_ok_dest [OF v] by (simp add: aligned_def)
    then show ?thesis using l aligned_ok u v by (intro num_length_less) auto
  qed
  have zs: "dec_scale dec_zero = 0" by (simp add: dec_zero_def)
  have c1: "y = dec_zero \<Longrightarrow> scale = dec_scale x \<and> 1 \<le> \<bar>dec_val x\<bar>" using s nz(2) zs decimal_ok_dest(3) [OF x] by auto
  have c2: "x = dec_zero \<Longrightarrow> scale = dec_scale y \<and> 1 \<le> \<bar>dec_val y\<bar>" using s nz(1) zs decimal_ok_dest(3) [OF y] by auto
  show A: "length (aligned x scale) < length (aligned y scale) \<Longrightarrow> num (aligned x scale) < num (aligned y scale)"
    using less [OF x y _ _ _ c1] s by simp
  show B: "length (aligned y scale) < length (aligned x scale) \<Longrightarrow> num (aligned y scale) < num (aligned x scale)"
    using less [OF y x _ _ _ c2] s by simp
  show "length (aligned x scale) < length (aligned y scale) \<or> length (aligned x scale) = length (aligned y scale) \<and> aligned x scale < aligned y scale \<longleftrightarrow>
    num (aligned x scale) < num (aligned y scale)"
    using A B num_lex [OF _ aligned_ok [OF x] aligned_ok [OF y]] by (meson linorder_neqE_nat not_less_iff_gr_or_eq)
qed

lemma real_of_int_diff: "int a = int b - int c \<Longrightarrow> real a = real b - real c"
  by (metis of_int_diff of_int_of_nat_eq)

definition sum_digits :: "decimal \<Rightarrow> decimal \<Rightarrow> decimal" where
  "sum_digits x y =
     (let scale = max (dec_scale x) (dec_scale y); a = aligned x scale; b = aligned y scale;
          (digits, negative) =
            (if dec_negative x = dec_negative y then (add_digits 0 (rev a) (rev b), dec_negative x)
             else if length a < length b \<or> length a = length b \<and> a < b then (sub_digits False (rev b) (rev a), dec_negative y)
             else (sub_digits False (rev a) (rev b), dec_negative x))
      in \<lparr>dec_digits = rev digits, dec_scale = scale, dec_negative = negative\<rparr>)"

definition add_fits :: "decimal \<Rightarrow> decimal \<Rightarrow> bool" where
  "add_fits x y \<longleftrightarrow> length (aligned x (max (dec_scale x) (dec_scale y))) \<le> decimal_limit \<and> length (aligned y (max (dec_scale x) (dec_scale y))) \<le> decimal_limit"

lemma decimal_add_alt:
  "decimal_add x y = (if add_fits x y then dec_normalize (sum_digits x y) else invalid ''decimal precision exceeds 4096 digits'')"
  by (simp add: decimal_add_def sum_digits_def add_fits_def aligned_def Let_def)

lemma sum_digits_exact:
  assumes x: "decimal_ok x" and y: "decimal_ok y"
    and nz: "x = dec_zero \<Longrightarrow> \<not> (- 1 < dec_val y \<and> dec_val y < 0)" "y = dec_zero \<Longrightarrow> \<not> (- 1 < dec_val x \<and> dec_val x < 0)"
  shows "digits_ok (dec_digits (sum_digits x y)) \<and> dec_scale (sum_digits x y) = max (dec_scale x) (dec_scale y) \<and>
    dec_val (sum_digits x y) = dec_val x + dec_val y \<and>
    length (dec_digits (sum_digits x y)) \<le> Suc (max (length (aligned x (max (dec_scale x) (dec_scale y)))) (length (aligned y (max (dec_scale x) (dec_scale y)))))"
proof -
  define scale where "scale = max (dec_scale x) (dec_scale y)"
  let ?a = "aligned x scale" and ?b = "aligned y scale"
  have vx: "dec_val x = (if dec_negative x then - real (num ?a) else real (num ?a)) / 10 ^ nat scale"
    and vy: "dec_val y = (if dec_negative y then - real (num ?b) else real (num ?b)) / 10 ^ nat scale"
    using dec_val_aligned [OF x, of scale] dec_val_aligned [OF y, of scale] by (auto simp: scale_def)
  show ?thesis
  proof (cases "dec_negative x = dec_negative y")
    case True
    then have r: "sum_digits x y = \<lparr>dec_digits = rev (add_digits 0 (rev ?a) (rev ?b)), dec_scale = scale, dec_negative = dec_negative x\<rparr>"
      by (simp add: sum_digits_def scale_def Let_def)
    note v = add_digits_spec [of "rev ?a" "rev ?b" 0]
    have ok: "digits_ok ?a" "digits_ok ?b" using aligned_ok x y by auto
    have "real (num (rev (add_digits 0 (rev ?a) (rev ?b)))) = real (num ?a) + real (num ?b)" using v ok by simp
    then have "dec_val (sum_digits x y) = dec_val x + dec_val y"
      unfolding vx vy using True by (auto simp: r dec_val_def dec_int_def add_divide_distrib diff_divide_distrib)
    then show ?thesis using v ok by (simp add: r scale_def [symmetric])
  next
    case False
    have z: "\<not> dec_negative dec_zero" by (simp add: dec_zero_def)
    have zx: "1 \<le> \<bar>dec_val y\<bar>" if "x = dec_zero" using nz(1) [OF that] decimal_negative_value [OF y] False z that by auto
    have zy: "1 \<le> \<bar>dec_val x\<bar>" if "y = dec_zero" using nz(2) [OF that] decimal_negative_value [OF x] False z that by auto
    note cmp = aligned_compare [OF x y scale_def zx zy]
    show ?thesis
    proof (cases "num ?a < num ?b")
      case True
      then have l: "length ?a \<le> length ?b" using cmp(3) by (meson not_le order_less_asym)
      have r: "sum_digits x y = \<lparr>dec_digits = rev (sub_digits False (rev ?b) (rev ?a)), dec_scale = scale, dec_negative = dec_negative y\<rparr>"
        using False True cmp(1) by (simp add: sum_digits_def scale_def [symmetric] Let_def)
      note v = sub_digits_value [OF aligned_ok [OF y] aligned_ok [OF x] l]
      have "real (num (rev (sub_digits False (rev ?b) (rev ?a)))) = real (num ?b) - real (num ?a)" using v(3) True by (intro real_of_int_diff) simp
      then have "dec_val (sum_digits x y) = dec_val x + dec_val y"
        unfolding vx vy using False by (auto simp: r dec_val_def dec_int_def diff_divide_distrib)
      then show ?thesis using v(1,2) l by (simp add: r scale_def [symmetric])
    next
      case F: False
      then have l: "length ?b \<le> length ?a" using cmp(2) by (meson not_le)
      have r: "sum_digits x y = \<lparr>dec_digits = rev (sub_digits False (rev ?a) (rev ?b)), dec_scale = scale, dec_negative = dec_negative x\<rparr>"
        using False F cmp(1) by (simp add: sum_digits_def scale_def [symmetric] Let_def)
      note v = sub_digits_value [OF aligned_ok [OF x] aligned_ok [OF y] l]
      have "real (num (rev (sub_digits False (rev ?a) (rev ?b)))) = real (num ?a) - real (num ?b)" using v(3) F by (intro real_of_int_diff) simp
      then have "dec_val (sum_digits x y) = dec_val x + dec_val y"
        unfolding vx vy using False by (auto simp: r dec_val_def dec_int_def diff_divide_distrib)
      then show ?thesis using v(1,2) l by (simp add: r scale_def [symmetric])
    qed
  qed
qed

lemma decimal_add_spec:
  assumes "decimal_ok x" "decimal_ok y"
    and "x = dec_zero \<Longrightarrow> \<not> (- 1 < dec_val y \<and> dec_val y < 0)" "y = dec_zero \<Longrightarrow> \<not> (- 1 < dec_val x \<and> dec_val x < 0)"
  shows "case decimal_add x y of
      Inr c \<Rightarrow> decimal_ok c \<and> dec_val c = dec_val x + dec_val y
    | Inl e \<Rightarrow> e = Entity_error Invalid_request ''decimal precision exceeds 4096 digits'' \<and>
        decimal_limit \<le> max (length (aligned x (max (dec_scale x) (dec_scale y)))) (length (aligned y (max (dec_scale x) (dec_scale y))))"
proof (cases "add_fits x y")
  case True
  note s = sum_digits_exact [OF assms]
  have "0 \<le> dec_scale (sum_digits x y)" using s decimal_ok_dest(3) [OF assms(1)] by simp
  moreover have "dec_scale (sum_digits x y) \<le> int decimal_limit" using s assms(1,2) by (simp add: decimal_ok_def)
  ultimately show ?thesis using dec_normalize_spec [of "sum_digits x y"] s True
    by (auto simp: decimal_add_alt invalid_def split: sum.splits)
qed (auto simp: decimal_add_alt add_fits_def invalid_def)

text \<open>C33. Addition of decimals is exact, except for the sum of zero and a number between -1 and 0: the result is in normal form and is the
  sum, and the only other outcome is the error for more than 4096 digits, which does not occur when both aligned numbers have fewer digits.\<close>

theorem decimal_add_exact:
  assumes "decimal_ok x" "decimal_ok y"
    and "x = dec_zero \<Longrightarrow> \<not> (- 1 < dec_val y \<and> dec_val y < 0)" "y = dec_zero \<Longrightarrow> \<not> (- 1 < dec_val x \<and> dec_val x < 0)"
  shows "case decimal_add x y of
      Inr c \<Rightarrow> decimal_ok c \<and> dec_val c = dec_val x + dec_val y
    | Inl e \<Rightarrow> e = Entity_error Invalid_request ''decimal precision exceeds 4096 digits'' \<and>
        decimal_limit \<le> max (length (aligned x (max (dec_scale x) (dec_scale y)))) (length (aligned y (max (dec_scale x) (dec_scale y))))"
  by (rule decimal_add_spec [OF assms])

lemma decimal_add_exact_witness:
  "\<exists>c. decimal_add \<lparr>dec_digits = ''9995'', dec_scale = 2, dec_negative = False\<rparr> \<lparr>dec_digits = ''1001'', dec_scale = 1, dec_negative = True\<rparr> = Inr c \<and>
     dec_val c = 99.95 + (- 100.1)"
proof -
  let ?x = "\<lparr>dec_digits = ''9995'', dec_scale = 2, dec_negative = False\<rparr>" and ?y = "\<lparr>dec_digits = ''1001'', dec_scale = 1, dec_negative = True\<rparr>"
  have ok: "decimal_ok ?x" "decimal_ok ?y" by (simp_all add: decimal_ok_def decimal_limit_def is_digit_nat)
  have ne: "?x \<noteq> dec_zero" "?y \<noteq> dec_zero" by (simp_all add: dec_zero_def)
  have v: "dec_val ?x = 99.95" "dec_val ?y = - 100.1" by (simp_all add: dec_val_def dec_int_def num_Cons digit_of_def)
  have sum: "decimal_add ?x ?y = Inr \<lparr>dec_digits = ''15'', dec_scale = 2, dec_negative = True\<rparr>" by code_simp
  show ?thesis using decimal_add_exact [OF ok] ne v unfolding sum by auto
qed

text \<open>C34. The sum of zero and a number between -1 and 0 is 10 too large, on either side: the aligned zero is the longer string, so the
  smaller number is taken for the larger one and the last borrow is lost.\<close>

theorem decimal_add_zero_wrong:
  assumes y: "decimal_ok y" "- 1 < dec_val y" "dec_val y < 0" and fits: "dec_scale y < int decimal_limit"
  shows "\<exists>c. decimal_add dec_zero y = Inr c \<and> decimal_add y dec_zero = Inr c \<and> decimal_ok c \<and> dec_val c = 10 + dec_val y"
proof -
  let ?s = "dec_scale y" let ?n = "num (dec_digits y)" let ?z = "replicate (Suc (nat ?s)) (CHR ''0'')"
  have neg: "dec_negative y" 
  proof (rule ccontr)
    assume "\<not> dec_negative y"
    then have "0 \<le> dec_val y" by (simp add: dec_val_def dec_int_def)
    then show False using y(3) by simp
  qed
  have s0: "0 \<le> ?s" using decimal_ok_dest [OF y(1)] by simp
  have val: "dec_val y = - (real ?n / 10 ^ nat ?s)" using neg by (simp add: dec_val_def dec_int_def)
  have pos: "0 < ?n" using y(3) val by (cases "?n = 0") auto
  have "real ?n < real (10 ^ nat ?s)" using y(2) val by (simp add: field_simps)
  then have lt: "?n < 10 ^ nat ?s" by (simp only: of_nat_less_iff)
  have "10 ^ (length (dec_digits y) - 1) \<le> ?n"
    using neg by (intro decimal_leading [OF y(1)]) (auto simp: dec_zero_def)
  then have "(10::nat) ^ (length (dec_digits y) - 1) < 10 ^ nat ?s" using lt by (rule le_less_trans)
  then have len: "length (dec_digits y) \<le> nat ?s" using decimal_ok_dest [OF y(1)] by (simp add: power_strict_increasing_iff)
  have al: "aligned dec_zero ?s = ?z" "aligned y ?s = dec_digits y" using s0 by (simp_all add: aligned_def dec_zero_def)
  define d where "d = \<lparr>dec_digits = rev (sub_digits False (rev ?z) (rev (dec_digits y))), dec_scale = ?s, dec_negative = False\<rparr>"
  have mx: "max (dec_scale dec_zero) ?s = ?s" "max ?s (dec_scale dec_zero) = ?s" "\<not> dec_negative dec_zero" using s0 by (auto simp: dec_zero_def)
  have sums: "sum_digits dec_zero y = d" "sum_digits y dec_zero = d"
    using neg mx len by (simp_all add: sum_digits_def al Let_def d_def)
  note v = sub_digits_value [of ?z "dec_digits y"]
  have zok: "digits_ok ?z" and yok: "digits_ok (dec_digits y)" and l: "length (dec_digits y) \<le> length ?z"
    using decimal_ok_dest [OF y(1)] len by auto
  have "num ?z = 0" by (rule num_zeros)
  then have r: "digits_ok (dec_digits d)" "length (dec_digits d) = Suc (nat ?s)" "int (num (dec_digits d)) = 10 ^ Suc (nat ?s) - int ?n"
    using v [OF zok yok l] pos by (simp_all add: d_def del: replicate_Suc)
  have "real (num (dec_digits d)) = 10 ^ Suc (nat ?s) - real ?n" using r(3) real_of_int_diff [of "num (dec_digits d)" "10 ^ Suc (nat ?s)" ?n] by simp
  then have dv: "dec_val d = 10 + dec_val y" unfolding val by (simp add: dec_val_def dec_int_def d_def field_simps)
  have f: "add_fits dec_zero y" "add_fits y dec_zero" using mx fits len s0 by (auto simp: add_fits_def al decimal_limit_def)
  have nd: "case dec_normalize d of Inr c \<Rightarrow> decimal_ok c \<and> dec_val c = dec_val d
    | Inl e \<Rightarrow> Inl e = (invalid ''decimal precision exceeds 4096 digits'' :: decimal outcome) \<and> (length (dec_digits d) > decimal_limit \<or> dec_scale d > int decimal_limit)"
    using r(1) s0 by (intro dec_normalize_spec) (simp_all add: d_def)
  have "\<not> (length (dec_digits d) > decimal_limit \<or> dec_scale d > int decimal_limit)" using r(2) fits by (simp add: decimal_limit_def d_def)
  then obtain c where "dec_normalize d = Inr c" "decimal_ok c" "dec_val c = dec_val d" using nd by (cases "dec_normalize d") auto
  then show ?thesis using f sums dv by (simp add: decimal_add_alt)
qed

lemma decimal_add_zero_wrong_witness:
  "\<exists>c. decimal_add dec_zero \<lparr>dec_digits = ''5'', dec_scale = 1, dec_negative = True\<rparr> = Inr c \<and> dec_val c = 9.5"
proof -
  let ?y = "\<lparr>dec_digits = ''5'', dec_scale = 1, dec_negative = True\<rparr>"
  have ok: "decimal_ok ?y" by (simp add: decimal_ok_def decimal_limit_def is_digit_nat)
  have v: "dec_val ?y = - 0.5" by (simp add: dec_val_def dec_int_def num_Cons digit_of_def)
  have f: "dec_scale ?y < int decimal_limit" by (simp add: decimal_limit_def)
  show ?thesis using decimal_add_zero_wrong [OF ok _ _ f] v by auto
qed

section \<open>Normal forms are unique\<close>

lemma dec_int_scaled:
  assumes "decimal_ok x" "decimal_ok y" "dec_val x = dec_val y" "dec_scale x \<le> dec_scale y"
  shows "dec_int y = dec_int x * 10 ^ nat (dec_scale y - dec_scale x)"
proof -
  have "nat (dec_scale y) = nat (dec_scale x) + nat (dec_scale y - dec_scale x)"
    using assms decimal_ok_dest(3) [OF assms(1)] by auto
  then have "real_of_int (dec_int y) = real_of_int (dec_int x) * 10 ^ nat (dec_scale y - dec_scale x)"
    using assms(3) by (simp add: dec_val_def power_add field_simps)
  then have "real_of_int (dec_int y) = real_of_int (dec_int x * 10 ^ nat (dec_scale y - dec_scale x))" by simp
  then show ?thesis by (simp only: of_int_eq_iff)
qed

lemma same_scale:
  assumes "decimal_ok x" "decimal_ok y" "dec_val x = dec_val y" "dec_scale x \<le> dec_scale y"
  shows "dec_scale x = dec_scale y"
proof (rule ccontr)
  assume "dec_scale x \<noteq> dec_scale y"
  then obtain k where k: "nat (dec_scale y - dec_scale x) = Suc k" using assms(4) by (metis diff_gt_0_iff_gt gr0_implies_Suc order_le_less zero_less_nat_eq)
  have "dec_int y = 10 * (dec_int x * 10 ^ k)" using dec_int_scaled [OF assms] k by simp
  then have "10 dvd dec_int y" by (rule dvdI)
  then have "int 10 dvd int (num (dec_digits y))" by (simp add: dec_int_def split: if_splits)
  then have "10 dvd num (dec_digits y)" by (simp only: of_nat_dvd_iff)
  moreover have "dec_scale y > 0" using k decimal_ok_dest(3) [OF assms(1)] by linarith
  ultimately show False using num_not_ten [of "dec_digits y"] assms(2) by (auto simp: decimal_ok_def)
qed

lemma decimal_unique:
  assumes "decimal_ok x" "decimal_ok y" "dec_val x = dec_val y"
  shows "x = y"
proof -
  have s: "dec_scale x = dec_scale y" using same_scale [of x y] same_scale [of y x] assms by (metis linear)
  then have i: "dec_int x = dec_int y" using dec_int_scaled [OF assms] by simp
  have zero: "u = v" if "u = dec_zero" "decimal_ok v" "dec_int u = dec_int v" for u v
    using decimal_num_pos [OF that(2)] that by (cases "v = dec_zero") (auto simp: dec_int_def dec_zero_def num_Cons split: if_splits)
  show ?thesis
  proof (cases "x = dec_zero \<or> y = dec_zero")
    case True
    then show ?thesis using zero [of x y] zero [of y x] assms i by metis
  next
    case False
    then have p: "0 < num (dec_digits x)" "0 < num (dec_digits y)" using decimal_num_pos assms by auto
    then have n: "num (dec_digits x) = num (dec_digits y)" "dec_negative x = dec_negative y"
      using i by (auto simp: dec_int_def split: if_splits)
    have "dec_digits x = dec_digits y"
      using decimal_ok_dest [OF assms(1)] decimal_ok_dest [OF assms(2)] False n(1) by (intro num_canonical) auto
    then show ?thesis using s n(2) by (intro decimal.equality) auto
  qed
qed

section \<open>Parsing and printing\<close>

lemma read_mantissa_digits:
  "digits_ok ds \<Longrightarrow> read_mantissa dot acc any_digit fraction (ds @ rest) =
     read_mantissa dot (acc @ ds) (any_digit \<or> ds \<noteq> []) (if dot then fraction + int (length ds) else fraction) rest"
proof (induction ds arbitrary: acc any_digit fraction)
  case (Cons c ds)
  have "c \<noteq> CHR ''e''" "c \<noteq> CHR ''E''" "c \<noteq> CHR ''.''" using Cons.prems by (auto simp: is_digit_nat)
  then show ?case using Cons by (simp add: add.assoc)
qed simp

lemma read_mantissa_ok:
  "read_mantissa dot acc any_digit fraction t = Inr (digits, any', fraction', rest) \<Longrightarrow> digits_ok acc \<Longrightarrow> 0 \<le> fraction \<Longrightarrow>
   digits_ok digits \<and> 0 \<le> fraction'"
  by (induction dot acc any_digit fraction t rule: read_mantissa.induct) (auto split: if_splits)

lemma decimal_of_ok:
  assumes "decimal_of text = Inr d"
  shows "decimal_ok d"
proof -
  obtain digits any' fraction rest exponent t negative where
    mant: "read_mantissa False [] False 0 t = Inr (digits, any', fraction, rest)" and
    norm: "dec_normalize (scaled_decimal negative digits (fraction - exponent)) = Inr d"
    using assms unfolding decimal_of_def Let_def by (auto simp: and_then_Inr split: if_splits prod.splits)
  have "digits_ok digits" using read_mantissa_ok [OF mant] by simp
  then have "digits_ok (dec_digits (scaled_decimal negative digits (fraction - exponent)))" "0 \<le> dec_scale (scaled_decimal negative digits (fraction - exponent))"
    by (auto simp: scaled_decimal_def)
  from dec_normalize_spec [OF this] show ?thesis unfolding norm by simp
qed

lemma normalize_padded: "dec_normalize (d\<lparr>dec_digits := replicate n (CHR ''0'') @ dec_digits d\<rparr>) = dec_normalize d"
proof -
  have "dropWhile (\<lambda>c. c = CHR ''0'') (replicate n (CHR ''0'') @ ds) = dropWhile (\<lambda>c. c = CHR ''0'') ds" for ds
    by (induction n) auto
  then show ?thesis by (cases d) (auto simp: dec_normalize_def split: prod.splits)
qed

text \<open>The text without the sign is read back.\<close>

definition padded :: "decimal \<Rightarrow> string" where
  "padded d = replicate (nat (dec_scale d) + 1 - length (dec_digits d)) (CHR ''0'') @ dec_digits d"

lemma decimal_str_alt:
  assumes "decimal_ok d"
  shows "decimal_str d = (if dec_negative d then [CHR ''-''] else []) @
    (if dec_scale d > 0 then take (length (padded d) - nat (dec_scale d)) (padded d) @ CHR ''.'' # drop (length (padded d) - nat (dec_scale d)) (padded d)
     else dec_digits d)"
  using assms by (auto simp: decimal_str_def padded_def Let_def decimal_ok_def not_le Suc_leI)

lemma read_printed:
  assumes d: "decimal_ok d"
  shows "\<exists>digits. read_mantissa False [] False 0 (if dec_scale d > 0 then take (length (padded d) - nat (dec_scale d)) (padded d) @ CHR ''.'' # drop (length (padded d) - nat (dec_scale d)) (padded d)
     else dec_digits d) = Inr (digits, True, dec_scale d, []) \<and> dec_normalize (d\<lparr>dec_digits := digits\<rparr>) = Inr d"
proof (cases "dec_scale d > 0")
  case True
  let ?k = "length (padded d) - nat (dec_scale d)"
  have ok: "digits_ok (padded d)" using decimal_ok_dest [OF d] by (auto simp: padded_def)
  have len: "nat (dec_scale d) < length (padded d)" by (simp add: padded_def)
  have parts: "digits_ok (take ?k (padded d))" "digits_ok (drop ?k (padded d))" using ok in_set_takeD in_set_dropD by metis+
  have "read_mantissa False [] False 0 (take ?k (padded d) @ CHR ''.'' # drop ?k (padded d)) =
      read_mantissa True (take ?k (padded d)) True 0 (drop ?k (padded d) @ [])"
    using len by (subst read_mantissa_digits [OF parts(1)]) (cases "padded d", auto)
  also have "\<dots> = Inr (padded d, True, dec_scale d, [])"
    using len True by (subst read_mantissa_digits [OF parts(2)]) auto
  finally show ?thesis using True normalize_padded [where d = d] dec_normalize_id [OF d] by (simp add: padded_def)
next
  case False
  then have "dec_scale d = 0" using decimal_ok_dest [OF d] by simp
  then show ?thesis using read_mantissa_digits [of "dec_digits d" False "[]" False 0 "[]"] decimal_ok_dest [OF d] dec_normalize_id [OF d] by simp
qed

lemma printed_head:
  assumes "decimal_ok d" "\<not> dec_negative d"
  shows "decimal_str d \<noteq> []" "hd (decimal_str d) \<noteq> CHR ''-''" "hd (decimal_str d) \<noteq> CHR ''+''"
proof -
  have ok: "digits_ok (padded d)" "digits_ok (dec_digits d)" "dec_digits d \<noteq> []" using decimal_ok_dest [OF assms(1)] by (auto simp: padded_def)
  have len: "nat (dec_scale d) < length (padded d)" by (simp add: padded_def)
  have "decimal_str d \<noteq> [] \<and> is_digit (hd (decimal_str d))"
  proof (cases "dec_scale d > 0")
    case True
    then have "hd (decimal_str d) = hd (padded d)" "decimal_str d \<noteq> []" using len assms by (auto simp: decimal_str_alt hd_append)
    moreover have "padded d \<noteq> []" using len by auto
    ultimately show ?thesis using ok(1) hd_in_set by metis
  qed (use assms ok in \<open>auto simp: decimal_str_alt\<close>)
  then show "decimal_str d \<noteq> []" "hd (decimal_str d) \<noteq> CHR ''-''" "hd (decimal_str d) \<noteq> CHR ''+''" by (auto simp: is_digit_nat)
qed

lemma decimal_of_str:
  assumes d: "decimal_ok d"
  shows "decimal_of (decimal_str d) = (if length (decimal_str d) \<le> decimal_limit then Inr d else invalid ''invalid/oversized decimal'')"
proof -
  obtain digits where m: "read_mantissa False [] False 0 (if dec_scale d > 0 then take (length (padded d) - nat (dec_scale d)) (padded d) @ CHR ''.'' # drop (length (padded d) - nat (dec_scale d)) (padded d)
     else dec_digits d) = Inr (digits, True, dec_scale d, [])" and n: "dec_normalize (d\<lparr>dec_digits := digits\<rparr>) = Inr d"
    using read_printed [OF d] by blast
  have s: "\<not> dec_scale d < 0" using decimal_ok_dest [OF d] by simp
  show ?thesis
  proof (cases "dec_negative d")
    case True
    then have "dec_normalize \<lparr>dec_digits = digits, dec_scale = dec_scale d, dec_negative = True\<rparr> = Inr d" using n by (cases d) simp
    then show ?thesis using m s True by (simp add: decimal_of_def decimal_str_alt [OF d] read_exponent_def scaled_decimal_def)
  next
    case False
    then have "dec_normalize \<lparr>dec_digits = digits, dec_scale = dec_scale d, dec_negative = False\<rparr> = Inr d" using n by (cases d) simp
    moreover have "read_mantissa False [] False 0 (decimal_str d) = Inr (digits, True, dec_scale d, [])"
      using m False by (simp add: decimal_str_alt [OF d])
    ultimately show ?thesis using s printed_head [OF d False] by (simp add: decimal_of_def read_exponent_def scaled_decimal_def)
  qed
qed

text \<open>The text of a parsed decimal is read back as the same decimal exactly when it has at most 4096 characters; a longer text, which the
  leading zeros and the point of an accepted number can make, is rejected.\<close>

theorem decimal_roundtrip:
  assumes "decimal_of text = Inr d"
  shows "decimal_of (decimal_str d) = (if length (decimal_str d) \<le> 4096 then Inr d else invalid ''invalid/oversized decimal'')"
  using decimal_of_str [OF decimal_of_ok [OF assms]] by (simp add: decimal_limit_def)

end
