(* ===== verification/Entity_Schema.thy ===== *)
theory Entity_Schema
  imports Entity_Contract "HOL-Library.Product_Lexorder"
begin

text \<open>
  The schema of the entity stores (\<^verbatim>\<open>include/templates/entity_store_schema.hpp\<close>): fields, entities and stores, the checks of a schema and the
  catalog.  An \<open>unordered_map\<close> is an association list with distinct keys in its iteration order.  The theory shows which schemas the catalog
  accepts and that the logical names and the columns of an accepted entity determine each other.
\<close>

record field_schema =
  fs_name :: string
  fs_column :: string
  fs_kind :: value_kind
  fs_writable :: bool
  fs_nullable :: bool
  fs_kind_explicit :: bool
  fs_nullable_explicit :: bool
  fs_writable_explicit :: bool

record entity_schema =
  es_name :: string
  es_table :: string
  es_version_column :: string
  es_keys :: "field_schema list"
  es_fields :: "field_schema list"
  es_discover_from_database :: bool
  es_keys_explicit :: bool
  es_fields_explicit :: bool

definition schema_find :: "field_schema list \<Rightarrow> string \<Rightarrow> field_schema option" where
  "schema_find values name = find (\<lambda>f. fs_name f = name) values"

definition find_key :: "entity_schema \<Rightarrow> string \<Rightarrow> field_schema option" where
  "find_key entity name = schema_find (es_keys entity) name"

definition find_field :: "entity_schema \<Rightarrow> string \<Rightarrow> field_schema option" where
  "find_field entity name = (case find_key entity name of Some key \<Rightarrow> Some key | None \<Rightarrow> schema_find (es_fields entity) name)"

definition find_writable_field :: "entity_schema \<Rightarrow> string \<Rightarrow> field_schema option" where
  "find_writable_field entity name =
     (case schema_find (es_fields entity) name of Some result \<Rightarrow> if fs_writable result then Some result else None | None \<Rightarrow> None)"

record store_schema =
  ss_name :: string
  ss_read_service :: string
  ss_write_service :: string
  ss_read_connection :: string
  ss_write_connection :: string
  ss_idempotency_table :: string
  ss_entities :: "(string \<times> entity_schema) list"
  ss_schema_source :: string

record schema_catalog =
  sc_allow_binary :: bool
  sc_stores :: "(string \<times> store_schema) list"

section \<open>Identifiers\<close>

definition in_range :: "char \<Rightarrow> char \<Rightarrow> char \<Rightarrow> bool" where
  "in_range lo hi c \<longleftrightarrow> lo \<le> c \<and> c \<le> hi"

definition isalpha :: "char \<Rightarrow> bool" where
  "isalpha c \<longleftrightarrow> in_range (CHR ''A'') (CHR ''Z'') c \<or> in_range (CHR ''a'') (CHR ''z'') c"

definition isalnum :: "char \<Rightarrow> bool" where
  "isalnum c \<longleftrightarrow> isalpha c \<or> in_range (CHR ''0'') (CHR ''9'') c"

definition valid_identifier_part :: "string \<Rightarrow> bool" where
  "valid_identifier_part part \<longleftrightarrow>
     part \<noteq> [] \<and> (isalpha (hd part) \<or> hd part = CHR ''_'') \<and> (\<forall>c \<in> set part. isalnum c \<or> c = CHR ''_'')"

function valid_qualified_identifier :: "string \<Rightarrow> bool" where
  "valid_qualified_identifier text =
     (valid_identifier_part (takeWhile (\<lambda>c. c \<noteq> CHR ''.'') text) \<and>
      (case dropWhile (\<lambda>c. c \<noteq> CHR ''.'') text of [] \<Rightarrow> True | _ # rest \<Rightarrow> valid_qualified_identifier rest))"
  by pat_completeness auto

termination
proof (relation "measure length")
  fix t :: string and c rest
  assume "dropWhile (\<lambda>c. c \<noteq> CHR ''.'') t = c # rest"
  then have "length (c # rest) \<le> length t" by (metis length_dropWhile_le)
  then show "(rest, t) \<in> measure length" by simp
qed simp

declare valid_qualified_identifier.simps [simp del]

section \<open>The checks\<close>

text \<open>An error message, or \<open>None\<close>.\<close>

definition validate_field :: "bool \<Rightarrow> field_schema \<Rightarrow> string option" where
  "validate_field allow_binary field =
     (if fs_name field = [] then Some ''schema field name is empty''
      else if \<not> valid_identifier_part (fs_column field) then Some (''invalid schema column: '' @ fs_column field)
      else if fs_kind field = Bytes \<and> \<not> allow_binary \<or> fs_kind field = Null_value then Some (''unsupported SQL entity schema kind: '' @ fs_name field)
      else None)"

text \<open>One of the two loops of \<open>validate_entity\<close>, over the keys and over the fields, with the names and columns seen so far.\<close>

fun validate_columns :: "bool \<Rightarrow> field_schema list \<Rightarrow> string set \<Rightarrow> string set \<Rightarrow> string + string set \<times> string set" where
  "validate_columns allow_binary [] names columns = Inr (names, columns)"
| "validate_columns allow_binary (field # rest) names columns =
     (case validate_field allow_binary field of
        Some error \<Rightarrow> Inl error
      | None \<Rightarrow>
          if fs_name field \<in> names then Inl (''duplicate schema field: '' @ fs_name field)
          else if fs_column field \<in> columns then Inl (''duplicate or reserved schema column: '' @ fs_column field)
          else validate_columns allow_binary rest (insert (fs_name field) names) (insert (fs_column field) columns))"

definition validate_entity :: "bool \<Rightarrow> entity_schema \<Rightarrow> string option" where
  "validate_entity allow_binary entity =
     (if \<not> valid_qualified_identifier (es_table entity) then Some (''invalid entity table: '' @ es_table entity)
      else if \<not> valid_identifier_part (es_version_column entity) then Some (''invalid version column: '' @ es_version_column entity)
      else if es_keys entity = [] \<and> (\<not> es_discover_from_database entity \<or> es_keys_explicit entity) then Some ''entity has no keys''
      else if es_fields entity = [] \<and> (\<not> es_discover_from_database entity \<or> es_fields_explicit entity) then Some ''entity has no fields''
      else case validate_columns allow_binary (es_keys entity) {} {es_version_column entity} of
        Inl error \<Rightarrow> Some error
      | Inr (names, columns) \<Rightarrow> (case validate_columns allow_binary (es_fields entity) names columns of Inl error \<Rightarrow> Some error | Inr _ \<Rightarrow> None))"

fun validate_entities :: "bool \<Rightarrow> string \<Rightarrow> (string \<times> entity_schema) list \<Rightarrow> string option" where
  "validate_entities allow_binary store [] = None"
| "validate_entities allow_binary store ((name, entity) # rest) =
     (if name \<noteq> es_name entity \<or> es_name entity = [] then Some (''entity schema name mismatch in store: '' @ store)
      else case validate_entity allow_binary entity of
        Some error \<Rightarrow> Some (error @ '' (store='' @ store @ '', entity='' @ name @ '')'')
      | None \<Rightarrow> validate_entities allow_binary store rest)"

definition add_store :: "schema_catalog \<Rightarrow> store_schema \<Rightarrow> string + schema_catalog" where
  "add_store catalog store =
     (if ss_name store = [] then Inl ''entity store name is empty''
      else if ss_read_service store = [] \<or> ss_write_service store = [] then Inl (''entity store services are empty: '' @ ss_name store)
      else if ss_read_connection store = [] \<or> ss_write_connection store = [] then Inl (''entity store connection names are empty: '' @ ss_name store)
      else if \<not> valid_qualified_identifier (ss_idempotency_table store) then Inl (''invalid idempotency table: '' @ ss_idempotency_table store)
      else case validate_entities (sc_allow_binary catalog) (ss_name store) (ss_entities store) of
        Some error \<Rightarrow> Inl error
      | None \<Rightarrow>
          if ss_entities store = [] then Inl (''entity store has no entities: '' @ ss_name store)
          else if map_of (sc_stores catalog) (ss_name store) \<noteq> None then Inl (''duplicate entity store: '' @ ss_name store)
          else Inr (catalog\<lparr>sc_stores := AList.update (ss_name store) store (sc_stores catalog)\<rparr>))"

definition find_store :: "schema_catalog \<Rightarrow> string \<Rightarrow> store_schema option" where
  "find_store catalog name = map_of (sc_stores catalog) name"

definition find_entity :: "schema_catalog \<Rightarrow> string \<Rightarrow> string \<Rightarrow> entity_schema option" where
  "find_entity catalog store entity =
     (case find_store catalog store of None \<Rightarrow> None | Some owner \<Rightarrow> map_of (ss_entities owner) entity)"

definition discovery_targets :: "schema_catalog \<Rightarrow> (string \<times> string) list" where
  "discovery_targets catalog =
     sort (concat (map (\<lambda>(store_name, store). concat (map (\<lambda>(entity_name, entity).
        if es_discover_from_database entity then [(store_name, entity_name)] else []) (ss_entities store))) (sc_stores catalog)))"

section \<open>What is accepted\<close>

lemma isalnum_not_dot: "isalnum c \<or> c = CHR ''_'' \<Longrightarrow> c \<noteq> CHR ''.''"
  by (auto simp: isalnum_def isalpha_def in_range_def less_eq_char_def)

lemma qualified_identifier_chars:
  "valid_qualified_identifier t \<Longrightarrow> c \<in> set t \<Longrightarrow> isalnum c \<or> c = CHR ''_'' \<or> c = CHR ''.''"
proof (induction t rule: valid_qualified_identifier.induct)
  case (1 t)
  let ?p = "takeWhile (\<lambda>c. c \<noteq> CHR ''.'') t"
  have t: "t = ?p @ dropWhile (\<lambda>c. c \<noteq> CHR ''.'') t" by simp
  have p: "valid_identifier_part ?p" using 1(2) by (simp add: valid_qualified_identifier.simps [of t])
  consider "c \<in> set ?p" | "c \<in> set (dropWhile (\<lambda>c. c \<noteq> CHR ''.'') t)" using 1(3) t by (metis UnE set_append)
  then show ?case
  proof cases
    case 1
    then show ?thesis using p by (auto simp: valid_identifier_part_def)
  next
    case 2
    then obtain d rest where d: "dropWhile (\<lambda>c. c \<noteq> CHR ''.'') t = d # rest" by (cases "dropWhile (\<lambda>c. c \<noteq> CHR ''.'') t") auto
    then have "d = CHR ''.''" by (metis (mono_tags) dropWhile_eq_Cons_conv)
    moreover have "valid_qualified_identifier rest" using 1(2) d by (simp add: valid_qualified_identifier.simps [of t])
    ultimately show ?thesis using 1(1) [OF d] 2 d by auto
  qed
qed

definition field_ok :: "bool \<Rightarrow> field_schema \<Rightarrow> bool" where
  "field_ok allow_binary field \<longleftrightarrow> fs_name field \<noteq> [] \<and> valid_identifier_part (fs_column field) \<and> fs_kind field \<noteq> Null_value \<and>
     (fs_kind field = Bytes \<longrightarrow> allow_binary)"

lemma validate_field_None: "validate_field allow_binary field = None \<longleftrightarrow> field_ok allow_binary field"
  by (auto simp: validate_field_def field_ok_def)

lemma validate_columns_Inr:
  "validate_columns allow_binary fs names columns = Inr (names', columns') \<longleftrightarrow>
     (\<forall>f \<in> set fs. field_ok allow_binary f) \<and> distinct (map fs_name fs) \<and> distinct (map fs_column fs) \<and>
     fs_name ` set fs \<inter> names = {} \<and> fs_column ` set fs \<inter> columns = {} \<and>
     names' = fs_name ` set fs \<union> names \<and> columns' = fs_column ` set fs \<union> columns"
proof (induction allow_binary fs names columns rule: validate_columns.induct)
  case (2 allow_binary field rest names columns)
  show ?case
  proof (cases "validate_field allow_binary field = None \<and> fs_name field \<notin> names \<and> fs_column field \<notin> columns")
    case True
    then have ok: "field_ok allow_binary field" "fs_name field \<notin> names" "fs_column field \<notin> columns" by (simp_all add: validate_field_None)
    have step: "validate_columns allow_binary (field # rest) names columns =
        validate_columns allow_binary rest (insert (fs_name field) names) (insert (fs_column field) columns)" using True by simp
    show ?thesis unfolding step 2 [OF conjunct1 [OF True] ok(2,3)] using ok by (simp add: conj_ac)
  next
    case False
    then have "\<not> field_ok allow_binary field \<or> fs_name field \<in> names \<or> fs_column field \<in> columns" by (simp add: validate_field_None)
    moreover have "validate_columns allow_binary (field # rest) names columns \<noteq> Inr (names', columns')"
      using False by (cases "validate_field allow_binary field") auto
    ultimately show ?thesis by auto
  qed
qed auto

definition entity_ok :: "bool \<Rightarrow> entity_schema \<Rightarrow> bool" where
  "entity_ok allow_binary entity \<longleftrightarrow>
     valid_qualified_identifier (es_table entity) \<and> valid_identifier_part (es_version_column entity) \<and>
     (es_keys entity = [] \<longrightarrow> es_discover_from_database entity \<and> \<not> es_keys_explicit entity) \<and>
     (es_fields entity = [] \<longrightarrow> es_discover_from_database entity \<and> \<not> es_fields_explicit entity) \<and>
     (\<forall>f \<in> set (es_keys entity @ es_fields entity). field_ok allow_binary f) \<and>
     distinct (map fs_name (es_keys entity @ es_fields entity)) \<and>
     distinct (es_version_column entity # map fs_column (es_keys entity @ es_fields entity))"

lemma validate_entity_None: "validate_entity allow_binary entity = None \<longleftrightarrow> entity_ok allow_binary entity"
proof -
  have "(case validate_columns allow_binary (es_keys entity) {} {es_version_column entity} of
        Inl error \<Rightarrow> Some error
      | Inr (names, columns) \<Rightarrow> (case validate_columns allow_binary (es_fields entity) names columns of Inl error \<Rightarrow> Some error | Inr _ \<Rightarrow> None)) = None \<longleftrightarrow>
     (\<exists>n c n' c'. validate_columns allow_binary (es_keys entity) {} {es_version_column entity} = Inr (n, c) \<and>
        validate_columns allow_binary (es_fields entity) n c = Inr (n', c'))"
    by (auto split: sum.splits prod.splits)
  also have "\<dots> \<longleftrightarrow> (\<forall>f \<in> set (es_keys entity @ es_fields entity). field_ok allow_binary f) \<and>
     distinct (map fs_name (es_keys entity @ es_fields entity)) \<and>
     distinct (es_version_column entity # map fs_column (es_keys entity @ es_fields entity))"
    unfolding validate_columns_Inr by auto
  finally show ?thesis by (auto simp: validate_entity_def entity_ok_def)
qed

lemma validate_entities_None:
  "validate_entities allow_binary store es = None \<longleftrightarrow>
     (\<forall>(name, entity) \<in> set es. name = es_name entity \<and> name \<noteq> [] \<and> entity_ok allow_binary entity)"
  by (induction allow_binary store es rule: validate_entities.induct) (auto simp: validate_entity_None [symmetric] split: option.splits)

lemma distinct_map_eq: "distinct (map f xs) \<Longrightarrow> x \<in> set xs \<Longrightarrow> y \<in> set xs \<Longrightarrow> f x = f y \<Longrightarrow> x = y"
  by (auto simp: distinct_map inj_on_def)

lemma schema_find_Some: "schema_find fs n = Some f \<Longrightarrow> f \<in> set fs \<and> fs_name f = n"
  by (auto simp: schema_find_def find_Some_iff)

text \<open>The columns of an accepted entity: two logical names never lead to one column, and no name leads to the version column or, for writing,
  to a key column.\<close>

lemma entity_columns:
  assumes "entity_ok allow_binary entity" "find_field entity n = Some f" "find_field entity m = Some g"
  shows "fs_column f = fs_column g \<longleftrightarrow> n = m" and "fs_column f \<noteq> es_version_column entity"
proof -
  have f: "f \<in> set (es_keys entity @ es_fields entity)" "fs_name f = n" and g: "g \<in> set (es_keys entity @ es_fields entity)" "fs_name g = m"
    using assms(2,3) by (auto simp: find_field_def find_key_def split: option.splits dest: schema_find_Some)
  have d: "distinct (map fs_name (es_keys entity @ es_fields entity))" "distinct (map fs_column (es_keys entity @ es_fields entity))"
    using assms(1) by (simp_all add: entity_ok_def)
  show "fs_column f = fs_column g \<longleftrightarrow> n = m"
    using distinct_map_eq [OF d(1) f(1) g(1)] distinct_map_eq [OF d(2) f(1) g(1)] f(2) g(2) by auto
  show "fs_column f \<noteq> es_version_column entity" 
  proof -
    have "fs_column f \<in> set (map fs_column (es_keys entity @ es_fields entity))" using f(1) by (simp only: set_map imageI)
    moreover have "distinct (es_version_column entity # map fs_column (es_keys entity @ es_fields entity))" using assms(1) by (simp add: entity_ok_def)
    ultimately show ?thesis by (metis distinct.simps(2))
  qed
qed

lemma writable_column:
  assumes "entity_ok allow_binary entity" "find_writable_field entity n = Some f"
  shows "f \<in> set (es_fields entity) \<and> fs_writable f \<and> fs_column f \<notin> fs_column ` set (es_keys entity) \<and> find_field entity n = Some f"
proof -
  have f: "f \<in> set (es_fields entity)" "fs_name f = n" "fs_writable f" "schema_find (es_fields entity) n = Some f"
    using assms(2) by (auto simp: find_writable_field_def split: option.splits if_splits dest: schema_find_Some)
  moreover have "find_key entity n = None"
    using assms(1) f unfolding find_key_def schema_find_def find_None_iff entity_ok_def by auto
  ultimately show ?thesis using assms(1) by (auto simp: find_field_def entity_ok_def)
qed

lemma add_store_Inr:
  "add_store catalog store = Inr catalog' \<longleftrightarrow>
     ss_name store \<noteq> [] \<and> ss_read_service store \<noteq> [] \<and> ss_write_service store \<noteq> [] \<and> ss_read_connection store \<noteq> [] \<and> ss_write_connection store \<noteq> [] \<and>
     valid_qualified_identifier (ss_idempotency_table store) \<and> ss_entities store \<noteq> [] \<and> ss_name store \<notin> fst ` set (sc_stores catalog) \<and>
     (\<forall>(name, entity) \<in> set (ss_entities store). name = es_name entity \<and> name \<noteq> [] \<and> entity_ok (sc_allow_binary catalog) entity) \<and>
     catalog' = catalog\<lparr>sc_stores := AList.update (ss_name store) store (sc_stores catalog)\<rparr>"
  unfolding add_store_def validate_entities_None [symmetric, where store = "ss_name store"]
  by (auto simp: map_of_eq_None_iff split: option.splits)

text \<open>The catalog is built by \<open>add_store\<close> alone.\<close>

fun build_catalog :: "schema_catalog \<Rightarrow> store_schema list \<Rightarrow> string + schema_catalog" where
  "build_catalog catalog [] = Inr catalog"
| "build_catalog catalog (store # stores) = (case add_store catalog store of Inl error \<Rightarrow> Inl error | Inr catalog' \<Rightarrow> build_catalog catalog' stores)"

definition catalog_ok :: "schema_catalog \<Rightarrow> bool" where
  "catalog_ok catalog \<longleftrightarrow> (\<forall>s store n entity. map_of (sc_stores catalog) s = Some store \<longrightarrow> (n, entity) \<in> set (ss_entities store) \<longrightarrow>
     entity_ok (sc_allow_binary catalog) entity)"

lemma add_store_ok: "catalog_ok catalog \<Longrightarrow> add_store catalog store = Inr catalog' \<Longrightarrow> catalog_ok catalog'"
  unfolding add_store_Inr catalog_ok_def by (auto split: if_splits)

lemma build_catalog_ok: "build_catalog catalog stores = Inr catalog' \<Longrightarrow> catalog_ok catalog \<Longrightarrow> catalog_ok catalog'"
  by (induction catalog stores rule: build_catalog.induct) (auto dest: add_store_ok split: sum.splits)

lemma find_entity_ok: "catalog_ok catalog \<Longrightarrow> find_entity catalog s e = Some entity \<Longrightarrow> entity_ok (sc_allow_binary catalog) entity"
  unfolding catalog_ok_def find_entity_def find_store_def by (auto split: option.splits dest: map_of_SomeD)

lemma field_column_valid: "entity_ok allow_binary entity \<Longrightarrow> find_field entity n = Some f \<Longrightarrow> valid_identifier_part (fs_column f)"
  by (auto simp: find_field_def find_key_def entity_ok_def field_ok_def split: option.splits dest: schema_find_Some)

text \<open>In a catalog built by \<open>add_store\<close>, the logical field names of an entity lead to distinct columns, never to the version column, and
  a column name consists of letters, digits and underscores, so that no request can name anything else in the storage.\<close>

theorem catalog_columns:
  assumes "build_catalog \<lparr>sc_allow_binary = b, sc_stores = []\<rparr> stores = Inr catalog" "find_entity catalog s e = Some entity"
    and "find_field entity n = Some f" "find_field entity m = Some g"
  shows "(fs_column f = fs_column g \<longleftrightarrow> n = m) \<and> fs_column f \<noteq> es_version_column entity \<and>
    (\<forall>c \<in> set (fs_column f). isalnum c \<or> c = CHR ''_'') \<and> (\<forall>c \<in> set (es_table entity). isalnum c \<or> c = CHR ''_'' \<or> c = CHR ''.'')"
proof -
  have "catalog_ok catalog" using build_catalog_ok [OF assms(1)] by (simp add: catalog_ok_def)
  then have ok: "entity_ok (sc_allow_binary catalog) entity" using assms(2) by (rule find_entity_ok)
  then have "valid_qualified_identifier (es_table entity)" by (simp add: entity_ok_def)
  moreover have "valid_identifier_part (fs_column f)" using ok assms(3) by (rule field_column_valid)
  ultimately show ?thesis
    using entity_columns [OF ok assms(3,4)] qualified_identifier_chars by (auto simp: valid_identifier_part_def)
qed

definition sample_field :: "string \<Rightarrow> string \<Rightarrow> value_kind \<Rightarrow> field_schema" where
  "sample_field name column kind = \<lparr>fs_name = name, fs_column = column, fs_kind = kind, fs_writable = True, fs_nullable = True,
     fs_kind_explicit = True, fs_nullable_explicit = False, fs_writable_explicit = False\<rparr>"

definition sample_entity :: entity_schema where
  "sample_entity = \<lparr>es_name = ''player'', es_table = ''game.player'', es_version_column = ''version'', es_keys = [sample_field ''id'' ''player_id'' Text],
     es_fields = [sample_field ''gold'' ''gold'' Signed_integer, sample_field ''score'' ''score'' Decimal],
     es_discover_from_database = False, es_keys_explicit = True, es_fields_explicit = True\<rparr>"

definition sample_store :: store_schema where
  "sample_store = \<lparr>ss_name = ''default'', ss_read_service = ''redis'', ss_write_service = ''redis'', ss_read_connection = ''main'', ss_write_connection = ''main'',
     ss_idempotency_table = ''requests'', ss_entities = [(''player'', sample_entity)], ss_schema_source = ''manual''\<rparr>"

end
