(* ===== verification/Redis_Codec.thy ===== *)
theory Redis_Codec
  imports Redis_Decimal Entity_Schema
begin

text \<open>
  The binary encoding of entities, requests and commit records in Redis (\<open>Writer\<close>, \<open>Reader\<close> and \<open>EntityCodec\<close> of
  \<^verbatim>\<open>plugins/redis/redis_entity_codec.hpp\<close>) and the increment of a field.  A writer is the bytes it holds, a reader is the bytes it has not
  read.  Whether a text is one JSON object or array is decided by CAF, and the arithmetic of doubles and their decimal text by the C++ library; they
  are the parameters \<open>json_ok\<close>, \<open>real_text\<close> and \<open>real_add\<close>.  The theory shows that documents are decoded to what was encoded, that the signature
  of a request determines its content, that a commit record is replayed for the same content and refused for any other, and that increments are exact
  or an error.
\<close>

section \<open>Writer and reader\<close>

definition max_bytes :: nat where
  "max_bytes = 8 * 1024 * 1024"

definition number_bytes :: "u64 \<Rightarrow> string" where
  "number_bytes x = map (\<lambda>i. char_of (unat (drop_bit (i * 8) x AND 255))) [7, 6, 5, 4, 3, 2, 1, 0]"

definition writer_number :: "string \<Rightarrow> u64 \<Rightarrow> string" where
  "writer_number data x = data @ number_bytes x"

definition writer_check :: "string \<Rightarrow> string outcome" where
  "writer_check data = (if length data > max_bytes then invalid ''entity payload exceeds 8 MiB'' else Inr data)"

definition writer_text :: "string \<Rightarrow> string \<Rightarrow> string outcome" where
  "writer_text data x =
     (if length x > max_bytes then invalid ''entity payload exceeds 8 MiB''
      else writer_check (writer_number data (of_nat (length x)) @ x))"

definition writer_byte :: "string \<Rightarrow> u8 \<Rightarrow> string" where
  "writer_byte data x = data @ [char_of (unat x)]"

definition writer_take :: "string \<Rightarrow> string outcome" where
  "writer_take data = writer_check data"

definition open_reader :: "string \<Rightarrow> string outcome" where
  "open_reader data = (if length data > max_bytes then corrupt ''stored entity exceeds size limit'' else Inr data)"

definition reader_byte :: "string \<Rightarrow> (u8 \<times> string) outcome" where
  "reader_byte input = (case input of [] \<Rightarrow> corrupt ''truncated entity encoding'' | c # rest \<Rightarrow> Inr (of_nat (of_char c), rest))"

fun reader_number_loop :: "nat \<Rightarrow> u64 \<Rightarrow> string \<Rightarrow> (u64 \<times> string) outcome" where
  "reader_number_loop 0 out input = Inr (out, input)"
| "reader_number_loop (Suc n) out input = and_then (reader_byte input) (\<lambda>(b, rest). reader_number_loop n (push_bit 8 out OR ucast b) rest)"

definition reader_number :: "string \<Rightarrow> (u64 \<times> string) outcome" where
  "reader_number input = reader_number_loop 8 0 input"

definition reader_text :: "string \<Rightarrow> (string \<times> string) outcome" where
  "reader_text input =
     and_then (reader_number input) (\<lambda>(count, rest).
       if unat count > length rest then corrupt ''invalid entity length'' else Inr (take (unat count) rest, drop (unat count) rest))"

definition reader_finish :: "string \<Rightarrow> unit outcome" where
  "reader_finish input = (if input \<noteq> [] then corrupt ''trailing entity data'' else Inr ())"

section \<open>Numbers\<close>

text \<open>The class of a double by its bits.\<close>

definition real_finite :: "u64 \<Rightarrow> bool" where
  "real_finite x \<longleftrightarrow> drop_bit 52 x AND 0x7FF \<noteq> 0x7FF"

definition real_is_zero :: "u64 \<Rightarrow> bool" where
  "real_is_zero x \<longleftrightarrow> take_bit 63 x = 0"

definition numeric_text :: "(u64 \<Rightarrow> string) \<Rightarrow> entity_value \<Rightarrow> string outcome" where
  "numeric_text real_text item =
     (case v_kind item of
        Signed_integer \<Rightarrow> Inr (int_text (sint (v_signed item)))
      | Unsigned_integer \<Rightarrow> Inr (int_text (uint (v_unsigned item)))
      | Decimal \<Rightarrow> and_then (decimal_of (v_text item)) (\<lambda>d. Inr (decimal_str d))
      | Real \<Rightarrow> if \<not> real_finite (v_real item) then invalid ''non-finite real'' else Inr (real_text (v_real item))
      | _ \<Rightarrow> invalid ''increment requires a numeric value'')"

definition zero_value :: "value_kind \<Rightarrow> entity_value outcome" where
  "zero_value kind =
     (case kind of
        Signed_integer \<Rightarrow> Inr (signed_value 0) | Unsigned_integer \<Rightarrow> Inr (unsigned_value 0)
      | Real \<Rightarrow> Inr (real_value 0) | Decimal \<Rightarrow> Inr (decimal_value ''0'')
      | _ \<Rightarrow> invalid ''increment requires a numeric schema field'')"

text \<open>\<open>real_add before text\<close> is the sum of a double and the number that \<open>from_chars\<close> reads from the whole text, or \<open>None\<close> when the text is
  not read or one of the two is not finite.\<close>

definition increment :: "(u64 \<Rightarrow> string) \<Rightarrow> (u64 \<Rightarrow> string \<Rightarrow> u64 option) \<Rightarrow> entity_value \<Rightarrow> entity_value \<Rightarrow> value_kind \<Rightarrow> entity_value outcome" where
  "increment real_text real_add before delta kind =
     (if \<not> is_number kind \<or> \<not> is_number (v_kind delta) \<or> v_kind before \<noteq> kind then invalid ''cannot increment null or non-numeric field''
      else if kind = Real
      then and_then (numeric_text real_text delta) (\<lambda>text.
             case real_add (v_real before) text of None \<Rightarrow> invalid ''real increment overflow'' | Some added \<Rightarrow> Inr (real_value added))
      else and_then (and_then (numeric_text real_text delta) decimal_of) (\<lambda>change.
           and_then (if kind \<noteq> Decimal then decimal_integer change else Inr []) (\<lambda>_.
           and_then (and_then (numeric_text real_text before) decimal_of) (\<lambda>number.
           and_then (decimal_add number change) (\<lambda>added.
             if kind = Decimal then Inr (decimal_value (decimal_str added))
             else and_then (decimal_integer added) (\<lambda>text.
               if kind = Signed_integer
               then (case from_chars (- (2 ^ 63)) (2 ^ 63 - 1) text of
                       Some (n, []) \<Rightarrow> Inr (signed_value (of_int n)) | _ \<Rightarrow> invalid ''signed increment overflow'')
               else (case from_chars 0 (2 ^ 64 - 1) text of
                       Some (n, []) \<Rightarrow> Inr (unsigned_value (of_int n)) | _ \<Rightarrow> invalid ''unsigned increment overflow'')))))))"

section \<open>Values and documents\<close>

definition encode_value :: "(string \<Rightarrow> bool) \<Rightarrow> string \<Rightarrow> entity_value \<Rightarrow> string outcome" where
  "encode_value json_ok out item =
     (let out = writer_byte out (kind_number (v_kind item))
      in case v_kind item of
           Null_value \<Rightarrow> Inr out
         | Boolean \<Rightarrow> Inr (writer_byte out (if v_boolean item then 1 else 0))
         | Signed_integer \<Rightarrow> Inr (writer_number out (v_signed item))
         | Unsigned_integer \<Rightarrow> Inr (writer_number out (v_unsigned item))
         | Real \<Rightarrow> if \<not> real_finite (v_real item) then invalid ''non-finite real''
                   else Inr (writer_number out (if real_is_zero (v_real item) then 0 else v_real item))
         | Decimal \<Rightarrow> and_then (decimal_of (v_text item)) (\<lambda>d. writer_text out (decimal_str d))
         | Text \<Rightarrow> writer_text out (v_text item)
         | Json \<Rightarrow> if \<not> json_ok (v_text item) then invalid ''JSON field must be one object or array'' else writer_text out (v_text item)
         | Bytes \<Rightarrow> writer_text out (map (\<lambda>b. char_of (unat b)) (v_bytes item)))"

definition decode_value :: "string \<Rightarrow> (entity_value \<times> string) outcome" where
  "decode_value input =
     and_then (reader_byte input) (\<lambda>(b, rest).
       case value_kind_from_integer b of
         None \<Rightarrow> corrupt ''unknown stored value kind''
       | Some kind \<Rightarrow>
           (case kind of
              Null_value \<Rightarrow> Inr (null_value, rest)
            | Boolean \<Rightarrow> and_then (reader_byte rest) (\<lambda>(b, rest). if b > 1 then corrupt ''invalid boolean'' else Inr (boolean_value (b \<noteq> 0), rest))
            | Signed_integer \<Rightarrow> and_then (reader_number rest) (\<lambda>(n, rest). Inr (signed_value n, rest))
            | Unsigned_integer \<Rightarrow> and_then (reader_number rest) (\<lambda>(n, rest). Inr (unsigned_value n, rest))
            | Real \<Rightarrow> and_then (reader_number rest) (\<lambda>(n, rest). Inr (real_value n, rest))
            | Decimal \<Rightarrow> and_then (reader_text rest) (\<lambda>(t, rest). Inr (decimal_value t, rest))
            | Text \<Rightarrow> and_then (reader_text rest) (\<lambda>(t, rest). Inr (text_value t, rest))
            | Json \<Rightarrow> and_then (reader_text rest) (\<lambda>(t, rest). Inr (json_value t, rest))
            | Bytes \<Rightarrow> and_then (reader_text rest) (\<lambda>(t, rest). Inr (bytes_value (map (\<lambda>c. of_nat (of_char c)) t), rest))))"

definition validate_value :: "(string \<Rightarrow> bool) \<Rightarrow> entity_value \<Rightarrow> field_schema \<Rightarrow> bool \<Rightarrow> unit outcome" where
  "validate_value json_ok item field key =
     and_then (if v_kind item = Null_value
               then if key \<or> \<not> fs_nullable field then invalid (''field cannot be null: '' @ fs_name field) else Inr ()
               else if v_kind item \<noteq> fs_kind field then invalid (''value kind does not match schema: '' @ fs_name field) else Inr ())
       (\<lambda>_. and_then (encode_value json_ok [] item) (\<lambda>_. Inr ()))"

text \<open>The fields of a document are a \<open>std::map\<close> from column names.\<close>

record document =
  doc_version :: u64
  doc_fields :: "(string \<times> entity_value) list"

fun encode_fields :: "(string \<Rightarrow> bool) \<Rightarrow> (string \<times> entity_value) list \<Rightarrow> string \<Rightarrow> string outcome" where
  "encode_fields json_ok [] out = Inr out"
| "encode_fields json_ok ((column, item) # fs) out =
     and_then (writer_text out column) (\<lambda>out. and_then (encode_value json_ok out item) (encode_fields json_ok fs))"

definition encode_document :: "(string \<Rightarrow> bool) \<Rightarrow> document \<Rightarrow> string outcome" where
  "encode_document json_ok doc =
     and_then (writer_text [] ''redis-entity-v1'') (\<lambda>out.
     and_then (encode_fields json_ok (doc_fields doc) (writer_number (writer_number out (doc_version doc)) (of_nat (length (doc_fields doc)))))
       writer_take)"

fun decode_fields :: "nat \<Rightarrow> (string \<times> entity_value) list \<Rightarrow> string \<Rightarrow> ((string \<times> entity_value) list \<times> string) outcome" where
  "decode_fields 0 fs input = Inr (fs, input)"
| "decode_fields (Suc n) fs input =
     and_then (reader_text input) (\<lambda>(column, rest).
     and_then (decode_value rest) (\<lambda>(item, rest).
       if map_of fs column \<noteq> None then corrupt ''duplicate stored field'' else decode_fields n (omap_set column item fs) rest))"

definition decode_document :: "string \<Rightarrow> document outcome" where
  "decode_document data =
     and_then (open_reader data) (\<lambda>input.
     and_then (reader_text input) (\<lambda>(tag, rest).
       if tag \<noteq> ''redis-entity-v1'' then corrupt ''unsupported entity encoding''
       else and_then (reader_number rest) (\<lambda>(version, rest).
         if version = 0 \<or> version > 0x7FFFFFFFFFFFFFFF then corrupt ''invalid entity version''
         else and_then (reader_number rest) (\<lambda>(count, rest).
           if count > 65536 then corrupt ''too many stored fields''
           else and_then (decode_fields (unat count) [] rest) (\<lambda>(fs, rest).
             and_then (reader_finish rest) (\<lambda>_. Inr \<lparr>doc_version = version, doc_fields = fs\<rparr>))))))"

section \<open>Requests and commit records\<close>

fun encode_keys :: "(string \<Rightarrow> bool) \<Rightarrow> named_value list \<Rightarrow> string \<Rightarrow> string outcome" where
  "encode_keys json_ok [] out = Inr out"
| "encode_keys json_ok (key # ks) out =
     and_then (writer_text out (nv_name key)) (\<lambda>out. and_then (encode_value json_ok out (nv_data key)) (encode_keys json_ok ks))"

definition encode_target :: "(string \<Rightarrow> bool) \<Rightarrow> entity_ref \<Rightarrow> string \<Rightarrow> string outcome" where
  "encode_target json_ok target out =
     and_then (writer_text out (er_store target)) (\<lambda>out. and_then (writer_text out (er_partition target)) (\<lambda>out.
     and_then (writer_text out (er_entity target)) (\<lambda>out.
       encode_keys json_ok (er_key target) (writer_number out (of_nat (length (er_key target)))))))"

fun encode_patches :: "(string \<Rightarrow> bool) \<Rightarrow> field_patch list \<Rightarrow> string \<Rightarrow> string outcome" where
  "encode_patches json_ok [] out = Inr out"
| "encode_patches json_ok (field # ps) out =
     and_then (writer_text out (fp_name field)) (\<lambda>out.
     and_then (encode_value json_ok (writer_byte out (patch_op_number (fp_operation field))) (fp_data field)) (encode_patches json_ok ps))"

fun encode_changes :: "(string \<Rightarrow> bool) \<Rightarrow> entity_patch list \<Rightarrow> string \<Rightarrow> string outcome" where
  "encode_changes json_ok [] out = Inr out"
| "encode_changes json_ok (change # cs) out =
     and_then (encode_target json_ok (ep_target change) out) (\<lambda>out.
       let out = writer_byte (writer_byte out (of_bool (ep_create_if_missing change))) (of_bool (ep_check_version change));
           out = writer_number (writer_number out (ep_expected_version change)) (of_nat (length (ep_fields change)))
       in and_then (encode_patches json_ok (ep_fields change) out) (encode_changes json_ok cs))"

definition signature :: "(string \<Rightarrow> bool) \<Rightarrow> save_request \<Rightarrow> string outcome" where
  "signature json_ok request =
     and_then (writer_text [] ''redis-request-v1'') (\<lambda>out.
     and_then (encode_changes json_ok (sr_changes request) (writer_number out (of_nat (length (sr_changes request))))) (\<lambda>out.
     and_then (if \<exists>change \<in> set (sr_changes request). ep_operation change \<noteq> Legacy_patch
               then and_then (writer_text out ''strict-crud-v1'')
                      (\<lambda>out. Inr (foldl (\<lambda>out change. writer_byte out (entity_operation_number (ep_operation change))) out (sr_changes request)))
               else Inr out) writer_take))"

definition ledger_field :: "string \<Rightarrow> string outcome" where
  "ledger_field request_id = and_then (writer_text [] ''request'') (\<lambda>out. and_then (writer_text out request_id) writer_take)"

definition hash_key :: "store_schema \<Rightarrow> string" where
  "hash_key store = ''__caf_entity_store:v1:'' @ ss_idempotency_table store"

text \<open>The loop over the key columns of the schema collects the values in the order of their columns.\<close>

fun object_keys :: "(string \<Rightarrow> bool) \<Rightarrow> field_schema list \<Rightarrow> named_value list \<Rightarrow> (string \<times> entity_value) list \<Rightarrow> (string \<times> entity_value) list outcome" where
  "object_keys json_ok [] target keys = Inr keys"
| "object_keys json_ok (key # ks) target keys =
     (case find (\<lambda>item. nv_name item = fs_name key) target of
        None \<Rightarrow> invalid (''missing entity key: '' @ fs_name key)
      | Some found \<Rightarrow>
          and_then (validate_value json_ok (nv_data found) key True) (\<lambda>_.
            object_keys json_ok ks target (if map_of keys (fs_column key) = None then omap_set (fs_column key) (nv_data found) keys else keys)))"

definition object_field :: "(string \<Rightarrow> bool) \<Rightarrow> entity_schema \<Rightarrow> entity_ref \<Rightarrow> string outcome" where
  "object_field json_ok mapped target =
     (if length (er_key target) \<noteq> length (es_keys mapped) then invalid ''entity key count mismatch''
      else and_then (writer_text [] ''object'') (\<lambda>out. and_then (writer_text out (es_table mapped)) (\<lambda>out.
           and_then (object_keys json_ok (es_keys mapped) (er_key target) []) (\<lambda>keys.
           and_then (encode_fields json_ok keys out) writer_take))))"

definition ledger :: "string \<Rightarrow> save_result \<Rightarrow> string outcome" where
  "ledger sign result =
     and_then (writer_text [] ''redis-commit-v1'') (\<lambda>out. and_then (writer_text out sign) (\<lambda>out.
       writer_take (foldl (\<lambda>out item. writer_number out (ce_version item)) (writer_number out (of_nat (length (sv_entities result)))) (sv_entities result))))"

fun replay_entities :: "entity_patch list \<Rightarrow> string \<Rightarrow> (committed_entity list \<times> string) outcome" where
  "replay_entities [] input = Inr ([], input)"
| "replay_entities (change # cs) input =
     and_then (reader_number input) (\<lambda>(version, rest).
       if version > 0x7FFFFFFFFFFFFFFF \<or> (version = 0) \<noteq> (ep_operation change = Delete_entity) then corrupt ''invalid committed version''
       else and_then (replay_entities cs rest) (\<lambda>(es, rest).
         Inr (\<lparr>ce_target = ep_target change, ce_version = version, ce_operation = ep_operation change\<rparr> # es, rest)))"

definition replay :: "save_request \<Rightarrow> string \<Rightarrow> string \<Rightarrow> save_result outcome" where
  "replay request sign data =
     and_then (open_reader data) (\<lambda>input. and_then (reader_text input) (\<lambda>(tag, rest).
       if tag \<noteq> ''redis-commit-v1'' then corrupt ''unsupported commit record''
       else and_then (reader_text rest) (\<lambda>(stored, rest).
         if stored \<noteq> sign then Inl (Entity_error Conflict ''request_id was already used with different payload'')
         else and_then (reader_number rest) (\<lambda>(count, rest).
           if count \<noteq> of_nat (length (sr_changes request)) then corrupt ''invalid commit record count''
           else and_then (replay_entities (sr_changes request) rest) (\<lambda>(es, rest).
             and_then (reader_finish rest) (\<lambda>_.
               Inr \<lparr>sv_code = Ok, sv_error = [], sv_request_id = sr_request_id request, sv_committed = True, sv_entities = es\<rparr>))))))"

section \<open>Reading back what was written\<close>

lemma number_shift: "push_bit 8 (drop_bit (k + 8) x) OR (drop_bit k x AND 255) = drop_bit k (x :: u64)"
proof -
  have m: "(255 :: u64) = mask 8" by (simp add: mask_eq_exp_minus_1)
  show ?thesis unfolding m
    by (rule bit_word_eqI) (auto simp: bit_simps dest: bit_imp_le_length)
qed

lemma byte_mod [simp]: "(word_of_nat (unat (b :: u8) mod 256) :: u8) = b"
proof -
  have "unat b < 256" using unsigned_less [of b, where ?'a = nat] by simp
  then show ?thesis by simp
qed

lemma char_byte_char [simp]: "char_of (unat (of_nat (of_char c) :: u8)) = c"
  by (simp add: unat_of_nat)

lemma and_255_less: "unat ((x :: u64) AND 255) < 256"
proof -
  have "x AND 255 = take_bit 8 x" by (simp add: take_bit_eq_mask mask_eq_exp_minus_1)
  then show ?thesis using unat_less_take_bit [of 8 "x AND 255"] by simp
qed

lemma ucast_and_255: "ucast (ucast ((x :: u64) AND 255) :: u8) = x AND 255"
proof -
  have m: "(255 :: u64) = mask 8" by (simp add: mask_eq_exp_minus_1)
  show ?thesis unfolding m by (rule bit_word_eqI) (auto simp: bit_simps)
qed

lemma reader_number_loop_read:
  "reader_number_loop n (drop_bit (n * 8) x) (map (\<lambda>i. char_of (unat (drop_bit (i * 8) x AND 255))) (rev [0..<n]) @ rest) = Inr (x, rest)"
proof (induction n)
  case (Suc n)
  have "push_bit 8 (drop_bit (Suc n * 8) x) OR (drop_bit (n * 8) x AND 255) = drop_bit (n * 8) x"
    using number_shift [of "n * 8" x] by (simp add: add.commute)
  moreover have "ucast (word_of_nat (unat (drop_bit (n * 8) x AND 255) mod 256) :: u8) = drop_bit (n * 8) x AND 255"
    using ucast_and_255 [of "drop_bit (n * 8) x"] and_255_less [of "drop_bit (n * 8) x"] by simp
  ultimately show ?case using Suc by (simp add: reader_byte_def)
qed simp

lemma reader_number_read [simp]: "reader_number (number_bytes x @ rest) = Inr (x, rest)"
proof -
  have "[7, 6, 5, 4, 3, 2, 1, 0] = rev [0..<8]" by (simp add: upt_rec)
  moreover have "drop_bit 64 x = 0" by (rule bit_word_eqI) (auto simp: bit_simps dest: bit_imp_le_length)
  ultimately show ?thesis using reader_number_loop_read [of 8 x rest] by (simp only: reader_number_def number_bytes_def) simp
qed

lemma length_number_bytes [simp]: "length (number_bytes x) = 8"
  by (simp add: number_bytes_def)

definition text_bytes :: "string \<Rightarrow> string" where
  "text_bytes t = number_bytes (of_nat (length t)) @ t"

lemma unat_length [simp]: "length t \<le> max_bytes \<Longrightarrow> unat (of_nat (length t) :: u64) = length t"
  by (simp add: max_bytes_def unat_of_nat)

lemma reader_text_read [simp]: "length t \<le> max_bytes \<Longrightarrow> reader_text (text_bytes t @ rest) = Inr (t, rest)"
  by (simp add: reader_text_def text_bytes_def)

lemma reader_byte_read [simp]: "reader_byte (char_of (unat b) # rest) = Inr (b, rest)"
  by (simp add: reader_byte_def)

lemma writer_text_Inr:
  "writer_text data t = Inr out \<longleftrightarrow> length t \<le> max_bytes \<and> out = data @ text_bytes t \<and> length out \<le> max_bytes"
  by (auto simp: writer_text_def writer_check_def writer_number_def text_bytes_def)

lemma writer_take_Inr: "writer_take data = Inr out \<longleftrightarrow> out = data \<and> length out \<le> max_bytes"
  by (auto simp: writer_take_def writer_check_def)

text \<open>The bytes of a value, when it can be encoded, and the value they stand for.\<close>

definition value_ok :: "(string \<Rightarrow> bool) \<Rightarrow> entity_value \<Rightarrow> bool" where
  "value_ok json_ok item \<longleftrightarrow> (case v_kind item of
      Real \<Rightarrow> real_finite (v_real item)
    | Decimal \<Rightarrow> \<exists>d. decimal_of (v_text item) = Inr d
    | Text \<Rightarrow> length (v_text item) \<le> max_bytes
    | Json \<Rightarrow> json_ok (v_text item) \<and> length (v_text item) \<le> max_bytes
    | Bytes \<Rightarrow> length (v_bytes item) \<le> max_bytes
    | _ \<Rightarrow> True)"

definition decimal_normal :: "string \<Rightarrow> string" where
  "decimal_normal t = (case decimal_of t of Inr d \<Rightarrow> decimal_str d | Inl _ \<Rightarrow> t)"

definition canon_value :: "entity_value \<Rightarrow> entity_value" where
  "canon_value item = (case v_kind item of
      Null_value \<Rightarrow> null_value | Boolean \<Rightarrow> boolean_value (v_boolean item)
    | Signed_integer \<Rightarrow> signed_value (v_signed item) | Unsigned_integer \<Rightarrow> unsigned_value (v_unsigned item)
    | Real \<Rightarrow> real_value (if real_is_zero (v_real item) then 0 else v_real item)
    | Decimal \<Rightarrow> decimal_value (decimal_normal (v_text item))
    | Text \<Rightarrow> text_value (v_text item) | Json \<Rightarrow> json_value (v_text item) | Bytes \<Rightarrow> bytes_value (v_bytes item))"

definition value_bytes :: "entity_value \<Rightarrow> string" where
  "value_bytes item = char_of (unat (kind_number (v_kind item))) # (case v_kind item of
      Null_value \<Rightarrow> [] | Boolean \<Rightarrow> [char_of (unat (of_bool (v_boolean item) :: u8))]
    | Signed_integer \<Rightarrow> number_bytes (v_signed item) | Unsigned_integer \<Rightarrow> number_bytes (v_unsigned item)
    | Real \<Rightarrow> number_bytes (if real_is_zero (v_real item) then 0 else v_real item)
    | Decimal \<Rightarrow> text_bytes (decimal_normal (v_text item))
    | Text \<Rightarrow> text_bytes (v_text item) | Json \<Rightarrow> text_bytes (v_text item)
    | Bytes \<Rightarrow> text_bytes (map (\<lambda>b. char_of (unat b)) (v_bytes item)))"

lemma decimal_str_length: "decimal_ok d \<Longrightarrow> length (decimal_str d) \<le> 4098 + 4096"
  unfolding decimal_str_def Let_def decimal_ok_def decimal_limit_def by (auto split: if_splits)

lemma decimal_normal_length: "decimal_of t = Inr d \<Longrightarrow> length (decimal_normal t) \<le> max_bytes"
  using decimal_str_length [OF decimal_of_ok, of t d] by (simp add: decimal_normal_def max_bytes_def)

lemma encode_value_Inr:
  "encode_value json_ok data item = Inr out \<Longrightarrow> value_ok json_ok item \<and> out = data @ value_bytes item"
  by (cases "v_kind item")
    (auto simp: encode_value_def Let_def value_ok_def value_bytes_def writer_byte_def writer_number_def writer_text_Inr and_then_Inr decimal_normal_def
      split: if_splits)

lemma decode_value_read:
  assumes "value_ok json_ok item"
  shows "decode_value (value_bytes item @ rest) = Inr (canon_value item, rest)"
proof (cases "v_kind item = Decimal")
  case True
  then obtain d where "decimal_of (v_text item) = Inr d" using assms by (auto simp: value_ok_def)
  then have "length (decimal_normal (v_text item)) \<le> max_bytes" by (rule decimal_normal_length)
  then show ?thesis using True by (simp add: decode_value_def value_bytes_def value_kind_numbers canon_value_def)
next
  case False
  then show ?thesis using assms
    by (cases "v_kind item") (auto simp: decode_value_def value_bytes_def value_kind_numbers canon_value_def value_ok_def comp_def split: if_splits)
qed

section \<open>Documents\<close>

definition field_bytes :: "string \<times> entity_value \<Rightarrow> string" where
  "field_bytes f = text_bytes (fst f) @ value_bytes (snd f)"

lemma field_bytes_pair [simp]: "field_bytes (column, item) = text_bytes column @ value_bytes item"
  by (simp add: field_bytes_def)

definition field_encodable :: "(string \<Rightarrow> bool) \<Rightarrow> string \<times> entity_value \<Rightarrow> bool" where
  "field_encodable json_ok f \<longleftrightarrow> length (fst f) \<le> max_bytes \<and> value_ok json_ok (snd f)"

lemma encode_fields_Inr:
  "encode_fields json_ok fs data = Inr out \<Longrightarrow> (\<forall>f \<in> set fs. field_encodable json_ok f) \<and> out = data @ concat (map field_bytes fs)"
proof (induction json_ok fs data rule: encode_fields.induct)
  case (2 json_ok column item fs data)
  then have ok: "length column \<le> max_bytes" "value_ok json_ok item" and
    rest: "encode_fields json_ok fs (data @ text_bytes column @ value_bytes item) = Inr out"
    by (auto simp: and_then_Inr writer_text_Inr dest!: encode_value_Inr)
  show ?case using 2(1) [OF rest] ok by (simp add: field_encodable_def)
qed simp

lemma encode_value_ok:
  assumes "value_ok json_ok item" "length (data @ value_bytes item) \<le> max_bytes"
  shows "encode_value json_ok data item = Inr (data @ value_bytes item)"
  using assms
  by (cases "v_kind item")
    (auto simp: encode_value_def Let_def value_ok_def value_bytes_def writer_byte_def writer_number_def writer_text_Inr text_bytes_def and_then_Inr
      decimal_normal_def split: if_splits)

lemma encode_fields_ok:
  "\<forall>f \<in> set fs. field_encodable json_ok f \<Longrightarrow> length (data @ concat (map field_bytes fs)) \<le> max_bytes \<Longrightarrow>
   encode_fields json_ok fs data = Inr (data @ concat (map field_bytes fs))"
proof (induction json_ok fs data rule: encode_fields.induct)
  case (2 json_ok column item fs data)
  have t: "writer_text data column = Inr (data @ text_bytes column)" using 2(2,3) by (simp add: writer_text_Inr field_encodable_def)
  have v: "encode_value json_ok (data @ text_bytes column) item = Inr ((data @ text_bytes column) @ value_bytes item)"
    using 2(2,3) by (intro encode_value_ok) (auto simp: field_encodable_def)
  show ?case using 2(1) [of "(data @ text_bytes column) @ value_bytes item"] 2(2-) t v by simp
qed simp

definition canon_fields :: "(string \<times> entity_value) list \<Rightarrow> (string \<times> entity_value) list" where
  "canon_fields fs = map (\<lambda>(column, item). (column, canon_value item)) fs"

lemma omap_set_last: "\<forall>k' \<in> fst ` set m. k' < k \<Longrightarrow> omap_set k v m = m @ [(k, v)]"
  by (induction k v m rule: omap_set.induct) auto

lemma decode_fields_read:
  "\<forall>f \<in> set fs. field_encodable json_ok f \<Longrightarrow> omap_ok (acc @ fs) \<Longrightarrow>
   decode_fields (length fs) acc (concat (map field_bytes fs) @ rest) = Inr (acc @ canon_fields fs, rest)"
proof (induction fs arbitrary: acc)
  case (Cons f fs)
  obtain column item where f: "f = (column, item)" by fastforce
  have ok: "length column \<le> max_bytes" "value_ok json_ok item" using Cons.prems by (auto simp: f field_encodable_def)
  have new: "\<forall>k \<in> fst ` set acc. k < column" using Cons.prems(2) by (auto simp: sorted_wrt_append f)
  then have "map_of acc column = None" by (auto simp: map_of_eq_None_iff)
  moreover have "omap_ok ((acc @ [(column, canon_value item)]) @ fs)" using Cons.prems(2) by (simp add: f)
  then have "decode_fields (length fs) (acc @ [(column, canon_value item)]) (concat (map field_bytes fs) @ rest) =
      Inr ((acc @ [(column, canon_value item)]) @ canon_fields fs, rest)"
    using Cons.prems(1) by (intro Cons.IH) auto
  ultimately show ?case using ok decode_value_read [OF ok(2)] omap_set_last [OF new]
    by (simp add: f canon_fields_def)
qed (simp add: canon_fields_def)

lemma concat_fields_length: "length fs \<le> length (concat (map field_bytes fs))"
  by (induction fs) (auto simp: field_bytes_def text_bytes_def)

lemma document_decoded:
  assumes "encode_document json_ok doc = Inr data" "omap_ok (doc_fields doc)"
  shows "decode_document data =
    (if doc_version doc = 0 \<or> doc_version doc > 0x7FFFFFFFFFFFFFFF then corrupt ''invalid entity version''
     else if length (doc_fields doc) > 65536 then corrupt ''too many stored fields''
     else Inr (doc\<lparr>doc_fields := canon_fields (doc_fields doc)\<rparr>))"
proof -
  let ?n = "of_nat (length (doc_fields doc)) :: u64"
  have data: "data = text_bytes ''redis-entity-v1'' @ number_bytes (doc_version doc) @ number_bytes ?n @ concat (map field_bytes (doc_fields doc))"
    and len: "length data \<le> max_bytes" and ok: "\<forall>f \<in> set (doc_fields doc). field_encodable json_ok f"
    using assms(1) by (auto simp: encode_document_def and_then_Inr writer_text_Inr writer_take_Inr writer_number_def dest!: encode_fields_Inr)
  have n: "length (doc_fields doc) \<le> max_bytes" using len concat_fields_length [of "doc_fields doc"] by (simp add: data)
  have tag: "length ''redis-entity-v1'' \<le> max_bytes" by (simp add: max_bytes_def)
  have count: "?n > 65536 \<longleftrightarrow> length (doc_fields doc) > 65536" using unat_length [OF n] by (simp add: word_less_nat_alt)
  have fields: "decode_fields (length (doc_fields doc)) [] (concat (map field_bytes (doc_fields doc))) = Inr (canon_fields (doc_fields doc), [])"
    using decode_fields_read [OF ok, of "[]" "[]"] assms(2) by simp
  have r: "reader_text data = Inr (''redis-entity-v1'', number_bytes (doc_version doc) @ number_bytes ?n @ concat (map field_bytes (doc_fields doc)))"
    unfolding data by (rule reader_text_read [OF tag])
  show ?thesis
    unfolding decode_document_def open_reader_def
    using len fields unat_length [OF n] by (simp add: r count reader_finish_def)
qed

text \<open>An encoded document is decoded to the same version and the same columns, with the values in normal form, exactly when the version is
  positive and fits a signed 64-bit number and there are at most 65536 columns.\<close>

theorem document_roundtrip:
  assumes "encode_document json_ok doc = Inr data" "omap_ok (doc_fields doc)"
  shows "decode_document data =
    (if doc_version doc = 0 \<or> doc_version doc > 0x7FFFFFFFFFFFFFFF then corrupt ''invalid entity version''
     else if length (doc_fields doc) > 65536 then corrupt ''too many stored fields''
     else Inr (doc\<lparr>doc_fields := canon_fields (doc_fields doc)\<rparr>))"
  by (rule document_decoded [OF assms])

definition sample_document :: document where
  "sample_document = \<lparr>doc_version = 7, doc_fields = [(''gold'', signed_value 5), (''score'', decimal_value ''1.50'')]\<rparr>"

section \<open>Prefix codes\<close>

text \<open>Where a decoder reads an encoding back, the encoding can be told apart from what follows.\<close>

lemma decoded_prefix:
  assumes "D (b @ r) = (Inr (c, r) :: ('c \<times> string) outcome)" "D (b' @ r') = Inr (c', r')" "c = c' \<Longrightarrow> b = b'"
  shows "b @ r = b' @ r' \<longleftrightarrow> c = c' \<and> r = r'"
  using assms by (metis Pair_inject sum.inject(2))

lemma number_prefix: "number_bytes x @ r = number_bytes y @ r' \<longleftrightarrow> x = y \<and> r = r'"
  by (rule decoded_prefix [where D = reader_number]) simp_all

context prefix_code
begin

text \<open>A list preceded by its length.\<close>

lemma counted_prefix:
  assumes "\<forall>x \<in> set xs. ok x" "\<forall>y \<in> set ys. ok y" "length xs \<le> max_bytes" "length ys \<le> max_bytes"
  shows "number_bytes (of_nat (length xs)) @ concat (map body xs) @ r = number_bytes (of_nat (length ys)) @ concat (map body ys) @ r' \<longleftrightarrow>
    map canon xs = map canon ys \<and> r = r'"
proof -
  have "of_nat (length xs) = (of_nat (length ys) :: u64) \<longleftrightarrow> length xs = length ys" using assms(3,4) unat_length by metis
  moreover have "map canon xs = map canon ys \<Longrightarrow> length xs = length ys" by (rule map_eq_imp_length_eq)
  ultimately show ?thesis using list_prefix [OF assms(1,2)] by (auto simp: number_prefix)
qed

end

interpretation number_code: prefix_code number_bytes "\<lambda>_. True" "\<lambda>x. x"
  by unfold_locales (rule number_prefix)

interpretation text_code: prefix_code text_bytes "\<lambda>t. length t \<le> max_bytes" "\<lambda>t. t"
  by unfold_locales (rule decoded_prefix [where D = reader_text], simp_all)

lemma decimal_normal_idem: "decimal_of t = Inr d \<Longrightarrow> decimal_normal (decimal_normal t) = decimal_normal t"
  using decimal_of_str [OF decimal_of_ok, of t d] by (auto simp: decimal_normal_def invalid_def)

lemma value_bytes_canon: "value_ok json_ok item \<Longrightarrow> value_bytes (canon_value item) = value_bytes item"
  by (cases "v_kind item")
    (auto simp: value_bytes_def canon_value_def value_ok_def null_value_def boolean_value_def signed_value_def unsigned_value_def real_value_def
      decimal_value_def text_value_def json_value_def bytes_value_def real_is_zero_def decimal_normal_idem)

interpretation value_code: prefix_code value_bytes "value_ok json_ok" canon_value for json_ok
proof
  fix x y r r'
  assume ok: "value_ok json_ok x" "value_ok json_ok y"
  show "value_bytes x @ r = value_bytes y @ r' \<longleftrightarrow> canon_value x = canon_value y \<and> r = r'"
    by (rule decoded_prefix [where D = decode_value, OF decode_value_read [OF ok(1)] decode_value_read [OF ok(2)]])
      (metis value_bytes_canon ok)
qed

section \<open>The signature of a request\<close>

definition canon_key :: "named_value \<Rightarrow> named_value" where
  "canon_key key = key\<lparr>nv_data := canon_value (nv_data key)\<rparr>"

definition canon_patch :: "field_patch \<Rightarrow> field_patch" where
  "canon_patch field = field\<lparr>fp_data := canon_value (fp_data field)\<rparr>"

text \<open>The content of a change: everything but the representation of its values.\<close>

definition canon_change :: "entity_patch \<Rightarrow> entity_patch" where
  "canon_change change = change\<lparr>ep_target := (ep_target change)\<lparr>er_key := map canon_key (er_key (ep_target change))\<rparr>,
     ep_fields := map canon_patch (ep_fields change)\<rparr>"

definition key_bytes :: "named_value \<Rightarrow> string" where
  "key_bytes key = text_bytes (nv_name key) @ value_bytes (nv_data key)"

definition key_encodable :: "(string \<Rightarrow> bool) \<Rightarrow> named_value \<Rightarrow> bool" where
  "key_encodable json_ok key \<longleftrightarrow> length (nv_name key) \<le> max_bytes \<and> value_ok json_ok (nv_data key)"

definition patch_bytes :: "field_patch \<Rightarrow> string" where
  "patch_bytes field = text_bytes (fp_name field) @ char_of (unat (patch_op_number (fp_operation field))) # value_bytes (fp_data field)"

definition patch_encodable :: "(string \<Rightarrow> bool) \<Rightarrow> field_patch \<Rightarrow> bool" where
  "patch_encodable json_ok field \<longleftrightarrow> length (fp_name field) \<le> max_bytes \<and> value_ok json_ok (fp_data field)"

interpretation key_code: prefix_code key_bytes "key_encodable json_ok" canon_key for json_ok
proof
  fix x y r r'
  assume "key_encodable json_ok x" "key_encodable json_ok y"
  then show "key_bytes x @ r = key_bytes y @ r' \<longleftrightarrow> canon_key x = canon_key y \<and> r = r'"
    by (cases x; cases y)
      (auto simp: key_bytes_def key_encodable_def canon_key_def text_code.prefix value_code.prefix value_code.body_eq)
qed

lemma char_byte_inj [simp]: "(char_of (unat (a :: u8)) :: char) = char_of (unat b) \<longleftrightarrow> a = b"
  by (metis Pair_inject reader_byte_read sum.inject(2))

lemma byte_mod_inj [simp]: "unat (a :: u8) mod 256 = unat b mod 256 \<longleftrightarrow> a = b"
  by (metis byte_mod)

declare patch_op_number_inj [simp] entity_operation_number_inj [simp]

interpretation patch_code: prefix_code patch_bytes "patch_encodable json_ok" canon_patch for json_ok
proof
  fix x y r r'
  assume "patch_encodable json_ok x" "patch_encodable json_ok y"
  then show "patch_bytes x @ r = patch_bytes y @ r' \<longleftrightarrow> canon_patch x = canon_patch y \<and> r = r'"
    by (cases x; cases y)
      (auto simp: patch_bytes_def patch_encodable_def canon_patch_def text_code.prefix value_code.prefix value_code.body_eq)
qed

text \<open>A change as the signature writes it, without its operation.\<close>

definition change_bytes :: "entity_patch \<Rightarrow> string" where
  "change_bytes change =
     text_bytes (er_store (ep_target change)) @ text_bytes (er_partition (ep_target change)) @ text_bytes (er_entity (ep_target change)) @
     number_bytes (of_nat (length (er_key (ep_target change)))) @ concat (map key_bytes (er_key (ep_target change))) @
     char_of (unat (of_bool (ep_create_if_missing change) :: u8)) # char_of (unat (of_bool (ep_check_version change) :: u8)) #
     number_bytes (ep_expected_version change) @ number_bytes (of_nat (length (ep_fields change))) @ concat (map patch_bytes (ep_fields change))"

definition change_encodable :: "(string \<Rightarrow> bool) \<Rightarrow> entity_patch \<Rightarrow> bool" where
  "change_encodable json_ok change \<longleftrightarrow>
     length (er_store (ep_target change)) \<le> max_bytes \<and> length (er_partition (ep_target change)) \<le> max_bytes \<and> length (er_entity (ep_target change)) \<le> max_bytes \<and>
     length (er_key (ep_target change)) \<le> max_bytes \<and> length (ep_fields change) \<le> max_bytes \<and>
     (\<forall>key \<in> set (er_key (ep_target change)). key_encodable json_ok key) \<and> (\<forall>field \<in> set (ep_fields change). patch_encodable json_ok field)"

definition content :: "entity_patch \<Rightarrow> entity_patch" where
  "content change = (canon_change change)\<lparr>ep_operation := Legacy_patch\<rparr>"

lemma of_bool_u8_inj [simp]: "(of_bool p :: u8) = of_bool q \<longleftrightarrow> p = q"
  by (cases p; cases q) auto

interpretation change_code: prefix_code change_bytes "change_encodable json_ok" content for json_ok
proof
  fix x y r r'
  assume ok: "change_encodable json_ok x" "change_encodable json_ok y"
  have keys: "number_bytes (of_nat (length (er_key (ep_target x)))) @ concat (map key_bytes (er_key (ep_target x))) @ u =
      number_bytes (of_nat (length (er_key (ep_target y)))) @ concat (map key_bytes (er_key (ep_target y))) @ v \<longleftrightarrow>
      map canon_key (er_key (ep_target x)) = map canon_key (er_key (ep_target y)) \<and> u = v" for u v
    using ok by (intro key_code.counted_prefix [of _ json_ok]) (auto simp: change_encodable_def)
  have fields: "number_bytes (of_nat (length (ep_fields x))) @ concat (map patch_bytes (ep_fields x)) @ u =
      number_bytes (of_nat (length (ep_fields y))) @ concat (map patch_bytes (ep_fields y)) @ v \<longleftrightarrow>
      map canon_patch (ep_fields x) = map canon_patch (ep_fields y) \<and> u = v" for u v
    using ok by (intro patch_code.counted_prefix [of _ json_ok]) (auto simp: change_encodable_def)
  have "change_bytes x @ r = change_bytes y @ r' \<longleftrightarrow>
      er_store (ep_target x) = er_store (ep_target y) \<and> er_partition (ep_target x) = er_partition (ep_target y) \<and>
      er_entity (ep_target x) = er_entity (ep_target y) \<and> map canon_key (er_key (ep_target x)) = map canon_key (er_key (ep_target y)) \<and>
      ep_create_if_missing x = ep_create_if_missing y \<and> ep_check_version x = ep_check_version y \<and> ep_expected_version x = ep_expected_version y \<and>
      map canon_patch (ep_fields x) = map canon_patch (ep_fields y) \<and> r = r'"
    using ok by (simp only: change_bytes_def append_assoc append_Cons) (simp add: change_encodable_def text_code.prefix number_code.prefix number_code.body_eq keys fields)
  also have "\<dots> \<longleftrightarrow> content x = content y \<and> r = r'"
    by (cases x; cases y; cases "ep_target x"; cases "ep_target y") (auto simp: content_def canon_change_def)
  finally show "change_bytes x @ r = change_bytes y @ r' \<longleftrightarrow> content x = content y \<and> r = r'" .
qed

lemma encode_keys_Inr:
  "encode_keys json_ok ks data = Inr out \<Longrightarrow> (\<forall>key \<in> set ks. key_encodable json_ok key) \<and> out = data @ concat (map key_bytes ks)"
proof (induction json_ok ks data rule: encode_keys.induct)
  case (2 json_ok key ks data)
  then have ok: "key_encodable json_ok key" and rest: "encode_keys json_ok ks (data @ key_bytes key) = Inr out"
    by (auto simp: and_then_Inr writer_text_Inr key_encodable_def key_bytes_def dest!: encode_value_Inr)
  show ?case using 2(1) [OF rest] ok by simp
qed simp

lemma encode_patches_Inr:
  "encode_patches json_ok ps data = Inr out \<Longrightarrow> (\<forall>p \<in> set ps. patch_encodable json_ok p) \<and> out = data @ concat (map patch_bytes ps)"
proof (induction json_ok ps data rule: encode_patches.induct)
  case (2 json_ok p ps data)
  then have ok: "patch_encodable json_ok p" and rest: "encode_patches json_ok ps (data @ patch_bytes p) = Inr out"
    by (auto simp: and_then_Inr writer_text_Inr writer_byte_def patch_encodable_def patch_bytes_def dest!: encode_value_Inr)
  show ?case using 2(1) [OF rest] ok by simp
qed simp

lemma key_bytes_nonempty: "length ks \<le> length (concat (map key_bytes ks))"
  by (induction ks) (auto simp: key_bytes_def text_bytes_def)

lemma patch_bytes_nonempty: "length ps \<le> length (concat (map patch_bytes ps))"
  by (induction ps) (auto simp: patch_bytes_def text_bytes_def)

lemma change_bytes_nonempty: "length cs \<le> length (concat (map change_bytes cs))"
  by (induction cs) (auto simp: change_bytes_def text_bytes_def)

lemma encode_changes_Inr:
  "encode_changes json_ok cs data = Inr out \<Longrightarrow>
   (length (concat (map change_bytes cs)) \<le> max_bytes \<longrightarrow> (\<forall>c \<in> set cs. change_encodable json_ok c)) \<and> out = data @ concat (map change_bytes cs)"
proof (induction json_ok cs data rule: encode_changes.induct)
  case (2 json_ok c cs data)
  then have rest: "encode_changes json_ok cs (data @ change_bytes c) = Inr out" and
    texts: "length (er_store (ep_target c)) \<le> max_bytes" "length (er_partition (ep_target c)) \<le> max_bytes" "length (er_entity (ep_target c)) \<le> max_bytes" and
    items: "\<forall>key \<in> set (er_key (ep_target c)). key_encodable json_ok key" "\<forall>p \<in> set (ep_fields c). patch_encodable json_ok p"
    by (auto simp: and_then_Inr Let_def encode_target_def writer_text_Inr writer_byte_def writer_number_def change_bytes_def
        dest!: encode_keys_Inr encode_patches_Inr)
  have "length (er_key (ep_target c)) \<le> length (change_bytes c)" "length (ep_fields c) \<le> length (change_bytes c)"
    using key_bytes_nonempty [of "er_key (ep_target c)"] patch_bytes_nonempty [of "ep_fields c"] by (simp_all add: change_bytes_def)
  then show ?case using 2(1) [OF refl refl rest] texts items by (auto simp: change_encodable_def)
qed simp

definition strict_bytes :: "entity_patch list \<Rightarrow> string" where
  "strict_bytes cs =
     (if \<exists>c \<in> set cs. ep_operation c \<noteq> Legacy_patch
      then text_bytes ''strict-crud-v1'' @ map (\<lambda>c. char_of (unat (entity_operation_number (ep_operation c)))) cs else [])"

lemma foldl_writer_byte: "foldl (\<lambda>out c. writer_byte out (f c)) out cs = out @ map (\<lambda>c. char_of (unat (f c))) cs"
  by (induction cs arbitrary: out) (auto simp: writer_byte_def)

lemma strict_part:
  "and_then (if \<exists>c \<in> set cs. ep_operation c \<noteq> Legacy_patch
             then and_then (writer_text out ''strict-crud-v1'') (\<lambda>out. Inr (foldl (\<lambda>out c. writer_byte out (entity_operation_number (ep_operation c))) out cs))
             else Inr out) writer_take = Inr s \<Longrightarrow> s = out @ strict_bytes cs \<and> length s \<le> max_bytes"
  by (auto simp: and_then_Inr writer_text_Inr writer_take_Inr strict_bytes_def foldl_writer_byte split: if_splits)

lemma signature_Inr:
  assumes "signature json_ok request = Inr s"
  shows "s = text_bytes ''redis-request-v1'' @ number_bytes (of_nat (length (sr_changes request))) @ concat (map change_bytes (sr_changes request)) @ strict_bytes (sr_changes request)"
    and "\<forall>c \<in> set (sr_changes request). change_encodable json_ok c" and "length (sr_changes request) \<le> max_bytes"
proof -
  obtain out where e: "encode_changes json_ok (sr_changes request) (text_bytes ''redis-request-v1'' @ number_bytes (of_nat (length (sr_changes request)))) = Inr out"
    and s: "s = out @ strict_bytes (sr_changes request)" and len: "length s \<le> max_bytes"
    using assms unfolding signature_def and_then_Inr [of "writer_text [] ''redis-request-v1''"] and_then_Inr [of "encode_changes json_ok cs o'" for cs o']
      writer_text_Inr writer_number_def append_Nil
    using strict_part by blast
  show eq: "s = text_bytes ''redis-request-v1'' @ number_bytes (of_nat (length (sr_changes request))) @ concat (map change_bytes (sr_changes request)) @ strict_bytes (sr_changes request)"
    using encode_changes_Inr [OF e] s by simp
  then have "length (concat (map change_bytes (sr_changes request))) \<le> max_bytes" using len by simp
  then show "\<forall>c \<in> set (sr_changes request). change_encodable json_ok c" "length (sr_changes request) \<le> max_bytes"
    using encode_changes_Inr [OF e] change_bytes_nonempty [of "sr_changes request"] by auto
qed

lemma strict_bytes_eq:
  assumes "length cs = length ds"
  shows "strict_bytes cs = strict_bytes ds \<longleftrightarrow> map ep_operation cs = map ep_operation ds"
proof -
  have tag: "text_bytes ''strict-crud-v1'' @ u \<noteq> []" for u by (simp add: text_bytes_def)
  have legacy: "(\<exists>c \<in> set cs. ep_operation c \<noteq> Legacy_patch) \<longleftrightarrow> map ep_operation cs \<noteq> replicate (length cs) Legacy_patch" for cs
    by (induction cs) auto
  have ops: "map (\<lambda>c. char_of (unat (entity_operation_number (ep_operation c))) :: char) cs = map (\<lambda>c. char_of (unat (entity_operation_number (ep_operation c)))) ds \<longleftrightarrow>
      map ep_operation cs = map ep_operation ds"
    using assms by (induction cs ds rule: list_induct2) auto
  show ?thesis unfolding strict_bytes_def legacy using assms tag ops by (auto simp del: append_is_Nil_conv)
qed

lemma content_operation: "canon_change x = canon_change y \<longleftrightarrow> content x = content y \<and> ep_operation x = ep_operation y"
  by (cases x; cases y) (auto simp: content_def canon_change_def)

lemma signature_content:
  assumes "signature json_ok r = Inr s" "signature json_ok r' = Inr s'"
  shows "s = s' \<longleftrightarrow> map canon_change (sr_changes r) = map canon_change (sr_changes r')"
proof -
  note a = signature_Inr [OF assms(1)] and b = signature_Inr [OF assms(2)]
  have len: "map f (sr_changes r) = map g (sr_changes r') \<Longrightarrow> length (sr_changes r) = length (sr_changes r')" for f g :: "entity_patch \<Rightarrow> 'x"
    by (rule map_eq_imp_length_eq)
  have "s = s' \<longleftrightarrow> map content (sr_changes r) = map content (sr_changes r') \<and> strict_bytes (sr_changes r) = strict_bytes (sr_changes r')"
    unfolding a(1) b(1) same_append_eq using a(2,3) b(2,3) by (intro change_code.counted_prefix [of _ json_ok]) auto
  also have "\<dots> \<longleftrightarrow> map content (sr_changes r) = map content (sr_changes r') \<and> map ep_operation (sr_changes r) = map ep_operation (sr_changes r')"
    using strict_bytes_eq len by metis
  also have "\<dots> \<longleftrightarrow> map canon_change (sr_changes r) = map canon_change (sr_changes r')"
    by (auto simp: list_eq_iff_nth_eq content_operation)
  finally show ?thesis .
qed

text \<open>Two requests have the same signature exactly when their changes agree in order and in content: targets, keys, fields, versions, flags and
  operations, with the values in normal form.\<close>

theorem signature_determines_content:
  assumes "signature json_ok r = Inr s" "signature json_ok r' = Inr s'"
  shows "s = s' \<longleftrightarrow> map canon_change (sr_changes r) = map canon_change (sr_changes r')"
  using assms by (rule signature_content)

lemma writer_text_ok: "length (data @ text_bytes t) \<le> max_bytes \<Longrightarrow> writer_text data t = Inr (data @ text_bytes t)"
  by (simp add: writer_text_Inr text_bytes_def)

lemma length_text_bytes [simp]: "length (text_bytes t) = 8 + length t"
  by (simp add: text_bytes_def)

definition sample_patch :: "string \<Rightarrow> entity_patch" where
  "sample_patch amount = \<lparr>ep_target = \<lparr>er_store = ''s'', er_partition = ''p'', er_entity = ''e'', er_key = [\<lparr>nv_name = ''id'', nv_data = text_value ''x''\<rparr>]\<rparr>,
     ep_fields = [\<lparr>fp_operation = Set_op, fp_name = ''score'', fp_data = decimal_value amount\<rparr>],
     ep_create_if_missing = False, ep_check_version = True, ep_expected_version = 3, ep_operation = Update\<rparr>"

lemma sample_signature:
  assumes "decimal_of amount = Inr d" "length (decimal_str d) = 3"
  shows "\<exists>s. signature (\<lambda>_. True) \<lparr>sr_request_id = i, sr_changes = [sample_patch amount]\<rparr> = Inr s \<and> length s \<le> 1000"
proof -
  have v: "value_ok (\<lambda>_. True) (text_value ''x'')" "value_ok (\<lambda>_. True) (decimal_value amount)" "length (value_bytes (text_value ''x'')) = 10"
    "length (value_bytes (decimal_value amount)) = 12"
    using assms by (simp_all add: value_ok_def text_value_def decimal_value_def value_bytes_def decimal_normal_def max_bytes_def)
  show ?thesis using v(3,4)
    by (simp add: signature_def sample_patch_def encode_target_def writer_text_ok writer_number_def writer_byte_def encode_value_ok v max_bytes_def
        writer_take_def writer_check_def Let_def)
qed

lemma sample_decimals:
  "decimal_of ''1.50'' = Inr \<lparr>dec_digits = ''15'', dec_scale = 1, dec_negative = False\<rparr>"
  "decimal_of ''15e-1'' = Inr \<lparr>dec_digits = ''15'', dec_scale = 1, dec_negative = False\<rparr>"
  by code_simp+

section \<open>Commit records\<close>

text \<open>The entities of a result as the engine commits them: one for each change, with its target and operation and a version that is zero exactly
  for a deletion.\<close>

definition committed_for :: "entity_patch \<Rightarrow> committed_entity \<Rightarrow> bool" where
  "committed_for change e \<longleftrightarrow> ce_target e = ep_target change \<and> ce_operation e = ep_operation change \<and>
     ce_version e \<le> 0x7FFFFFFFFFFFFFFF \<and> (ce_version e = 0 \<longleftrightarrow> ep_operation change = Delete_entity)"

lemma ledger_Inr:
  assumes "ledger s result = Inr data"
  shows "data = text_bytes ''redis-commit-v1'' @ text_bytes s @ number_bytes (of_nat (length (sv_entities result))) @ concat (map (\<lambda>e. number_bytes (ce_version e)) (sv_entities result))"
    and "length data \<le> max_bytes" and "length s \<le> max_bytes"
proof -
  have f: "foldl (\<lambda>out item. writer_number out (ce_version item)) out es = out @ concat (map (\<lambda>e. number_bytes (ce_version e)) es)" for out es
    by (induction es arbitrary: out) (auto simp: writer_number_def)
  show d: "data = text_bytes ''redis-commit-v1'' @ text_bytes s @ number_bytes (of_nat (length (sv_entities result))) @ concat (map (\<lambda>e. number_bytes (ce_version e)) (sv_entities result))"
    and len: "length data \<le> max_bytes"
    using assms unfolding ledger_def f by (auto simp: and_then_Inr writer_text_Inr writer_take_Inr writer_number_def)
  show "length s \<le> max_bytes" using len by (simp add: d)
qed

lemma replay_entities_read:
  assumes "list_all2 committed_for cs es" "map ep_operation cs' = map ep_operation cs"
  shows "replay_entities cs' (concat (map (\<lambda>e. number_bytes (ce_version e)) es) @ rest) =
    Inr (map2 (\<lambda>c e. e\<lparr>ce_target := ep_target c\<rparr>) cs' es, rest)"
  using assms
proof (induction cs es arbitrary: cs' rule: list_all2_induct)
  case (Cons c cs e es)
  then obtain c' cs'' where c: "cs' = c' # cs''" "ep_operation c' = ep_operation c" "map ep_operation cs'' = map ep_operation cs" by (cases cs') auto
  have "\<lparr>ce_target = ep_target c', ce_version = ce_version e, ce_operation = ep_operation c'\<rparr> = e\<lparr>ce_target := ep_target c'\<rparr>"
    using Cons.hyps(1) c(2) by (cases e) (simp add: committed_for_def)
  then show ?case using Cons.IH [OF c(3)] Cons.hyps(1) c by (auto simp: committed_for_def not_less)
qed simp

lemma replay_of_ledger:
  assumes "signature json_ok r = Inr s" "ledger s result = Inr data" "list_all2 committed_for (sr_changes r) (sv_entities result)"
    and "signature json_ok r' = Inr s'"
  shows "replay r' s' data =
    (if map canon_change (sr_changes r') = map canon_change (sr_changes r)
     then Inr \<lparr>sv_code = Ok, sv_error = [], sv_request_id = sr_request_id r', sv_committed = True,
                sv_entities = map2 (\<lambda>c e. e\<lparr>ce_target := ep_target c\<rparr>) (sr_changes r') (sv_entities result)\<rparr>
     else Inl (Entity_error Conflict ''request_id was already used with different payload''))"
proof -
  note d = ledger_Inr [OF assms(2)]
  have same: "s = s' \<longleftrightarrow> map canon_change (sr_changes r) = map canon_change (sr_changes r')"
    by (rule signature_content [OF assms(1,4)])
  have tag: "length ''redis-commit-v1'' \<le> max_bytes" by (simp add: max_bytes_def)
  have r1: "reader_text data = Inr (''redis-commit-v1'', text_bytes s @ number_bytes (of_nat (length (sv_entities result))) @ concat (map (\<lambda>e. number_bytes (ce_version e)) (sv_entities result)))"
    unfolding d(1) by (rule reader_text_read [OF tag])
  have ops: "map ep_operation (sr_changes r') = map ep_operation (sr_changes r)" "length (sr_changes r') = length (sv_entities result)" if "s = s'"
  proof -
    have eq: "map canon_change (sr_changes r) = map canon_change (sr_changes r')" using that same by simp
    then have "map ep_operation (map canon_change (sr_changes r)) = map ep_operation (map canon_change (sr_changes r'))" by (simp only:)
    then show "map ep_operation (sr_changes r') = map ep_operation (sr_changes r)" by (simp add: comp_def canon_change_def)
    show "length (sr_changes r') = length (sv_entities result)"
      using map_eq_imp_length_eq [OF eq] list_all2_lengthD [OF assms(3)] by simp
  qed
  show ?thesis
  proof (cases "s = s'")
    case True
    then show ?thesis using r1 d(2,3) same ops [OF True] replay_entities_read [OF assms(3) ops(1) [OF True], of "[]"]
      by (auto simp: replay_def open_reader_def reader_finish_def)
  next
    case False
    then show ?thesis using r1 d(2,3) same by (auto simp: replay_def open_reader_def)
  qed
qed

text \<open>The record of a committed request is replayed for every later request with the same content, with the versions of the commit and without
  another write, and a request with another content under the same id is refused with a conflict.\<close>

theorem replay_exact:
  assumes "signature json_ok r = Inr s" "ledger s result = Inr data" "list_all2 committed_for (sr_changes r) (sv_entities result)"
    and "signature json_ok r' = Inr s'"
  shows "replay r' s' data =
    (if map canon_change (sr_changes r') = map canon_change (sr_changes r)
     then Inr \<lparr>sv_code = Ok, sv_error = [], sv_request_id = sr_request_id r', sv_committed = True,
                sv_entities = map2 (\<lambda>c e. e\<lparr>ce_target := ep_target c\<rparr>) (sr_changes r') (sv_entities result)\<rparr>
     else Inl (Entity_error Conflict ''request_id was already used with different payload''))"
  by (rule replay_of_ledger [OF assms])

definition sample_result :: save_result where
  "sample_result = \<lparr>sv_code = Ok, sv_error = [], sv_request_id = ''a'', sv_committed = True,
     sv_entities = [\<lparr>ce_target = ep_target (sample_patch ''1.50''), ce_version = 4, ce_operation = Update\<rparr>]\<rparr>"

section \<open>Increments\<close>

text \<open>The decimal of an integer.\<close>

definition int_decimal :: "int \<Rightarrow> decimal" where
  "int_decimal z = \<lparr>dec_digits = nat_text (nat \<bar>z\<bar>), dec_scale = 0, dec_negative = (z < 0)\<rparr>"

lemma int_decimal_ok: "\<bar>z\<bar> < 10 ^ 100 \<Longrightarrow> decimal_ok (int_decimal z)"
proof -
  assume z: "\<bar>z\<bar> < 10 ^ 100"
  have "nat \<bar>z\<bar> < 10 ^ 100" using z by (simp add: nat_less_iff)
  then have "length (nat_text (nat \<bar>z\<bar>)) \<le> 100" by (intro nat_text_length) auto
  then show ?thesis using nat_text_digits [of "nat \<bar>z\<bar>"]
    by (cases "z = 0") (auto simp: decimal_ok_def int_decimal_def decimal_limit_def nat_text_0)
qed

lemma int_decimal_val: "dec_val (int_decimal z) = of_int z"
  by (simp add: dec_val_def dec_int_def int_decimal_def)

lemma int_decimal_str: "decimal_str (int_decimal z) = int_text z"
  by (simp add: decimal_str_def int_decimal_def int_text_def)

lemma decimal_of_int_text: "\<bar>z\<bar> < 10 ^ 100 \<Longrightarrow> decimal_of (int_text z) = Inr (int_decimal z)"
  using decimal_of_str [OF int_decimal_ok, of z] int_text_length [of z] by (simp add: int_decimal_str decimal_limit_def)

lemma add_integers:
  assumes "\<bar>x\<bar> < 10 ^ 50" "\<bar>y\<bar> < 10 ^ 50"
  shows "decimal_add (int_decimal x) (int_decimal y) = Inr (int_decimal (x + y))"
proof -
  have b: "\<bar>x\<bar> < 10 ^ 100" "\<bar>y\<bar> < 10 ^ 100" "\<bar>x + y\<bar> < 10 ^ 100" using assms by auto
  have frac: "\<not> (- 1 < dec_val (int_decimal z) \<and> dec_val (int_decimal z) < 0)" for z by (simp add: int_decimal_val)
  have "length (nat_text (nat \<bar>z\<bar>)) \<le> 100" if "\<bar>z\<bar> < 10 ^ 50" for z
    using that by (intro nat_text_length) (auto simp: nat_less_iff)
  then have short: "length (aligned (int_decimal x) 0) \<le> 100" "length (aligned (int_decimal y) 0) \<le> 100"
    using assms by (auto simp: aligned_def int_decimal_def)
  have s: "dec_scale (int_decimal z) = 0" for z by (simp add: int_decimal_def)
  obtain c where c: "decimal_add (int_decimal x) (int_decimal y) = Inr c" "decimal_ok c" "dec_val c = of_int x + of_int y"
    using decimal_add_spec [OF int_decimal_ok [OF b(1)] int_decimal_ok [OF b(2)] frac frac] short
    by (cases "decimal_add (int_decimal x) (int_decimal y)") (auto simp: s int_decimal_val decimal_limit_def)
  have "c = int_decimal (x + y)" using c by (intro decimal_unique [OF c(2) int_decimal_ok [OF b(3)]]) (simp add: int_decimal_val)
  then show ?thesis using c by simp
qed

lemma sint_bound: "\<bar>sint (x :: u64)\<bar> < 10 ^ 50" "\<bar>uint x\<bar> < 10 ^ 50"
proof -
  have "- (2 ^ 63) \<le> sint x" "sint x < 2 ^ 63" using sint_ge [of x] sint_lt [of x] by simp_all
  then show "\<bar>sint x\<bar> < 10 ^ 50" by simp
  have "0 \<le> uint x" "uint x < 2 ^ 64" using unsigned_less [of x, where ?'a = int] by simp_all
  then show "\<bar>uint x\<bar> < 10 ^ 50" by simp
qed

text \<open>The number a signed or unsigned value stands for.\<close>

definition integer_of :: "entity_value \<Rightarrow> int" where
  "integer_of item = (if v_kind item = Signed_integer then sint (v_signed item) else uint (v_unsigned item))"

lemma numeric_integer:
  assumes "v_kind item = Signed_integer \<or> v_kind item = Unsigned_integer"
  shows "and_then (numeric_text real_text item) decimal_of = Inr (int_decimal (integer_of item))" and "\<bar>integer_of item\<bar> < 10 ^ 50"
proof -
  show b: "\<bar>integer_of item\<bar> < 10 ^ 50" using sint_bound by (simp add: integer_of_def)
  then have "decimal_of (int_text (integer_of item)) = Inr (int_decimal (integer_of item))" by (intro decimal_of_int_text) simp
  then show "and_then (numeric_text real_text item) decimal_of = Inr (int_decimal (integer_of item))"
    using assms by (auto simp: numeric_text_def integer_of_def)
qed

text \<open>An increment of an integer field by an integer, of any mix of signed and unsigned, is the exact sum, and an error when the sum does not
  fit the type of the field; no intermediate result wraps around.\<close>

theorem increment_integer_exact:
  assumes "v_kind before = kind" "kind = Signed_integer \<or> kind = Unsigned_integer" "v_kind delta = Signed_integer \<or> v_kind delta = Unsigned_integer"
  shows "increment real_text real_add before delta kind =
    (let n = integer_of before + integer_of delta
     in if kind = Signed_integer
        then if - (2 ^ 63) \<le> n \<and> n < 2 ^ 63 then Inr (signed_value (of_int n)) else invalid ''signed increment overflow''
        else if 0 \<le> n \<and> n < 2 ^ 64 then Inr (unsigned_value (of_int n)) else invalid ''unsigned increment overflow'')"
proof -
  let ?n = "integer_of before + integer_of delta"
  have b: "v_kind before = Signed_integer \<or> v_kind before = Unsigned_integer" using assms by simp
  note nb = numeric_integer [OF b] and nd = numeric_integer [OF assms(3)]
  have sum: "decimal_add (int_decimal (integer_of before)) (int_decimal (integer_of delta)) = Inr (int_decimal ?n)"
    by (rule add_integers [OF nb(2) nd(2)])
  have i: "decimal_integer (int_decimal z) = Inr (int_text z)" for z by (simp add: decimal_integer_def int_decimal_str) (simp add: int_decimal_def)
  have "increment real_text real_add before delta kind =
      (if kind = Signed_integer
       then (case from_chars (- (2 ^ 63)) (2 ^ 63 - 1) (int_text ?n) of Some (n, []) \<Rightarrow> Inr (signed_value (of_int n)) | _ \<Rightarrow> invalid ''signed increment overflow'')
       else (case from_chars 0 (2 ^ 64 - 1) (int_text ?n) of Some (n, []) \<Rightarrow> Inr (unsigned_value (of_int n)) | _ \<Rightarrow> invalid ''unsigned increment overflow''))"
    unfolding increment_def nb(1) nd(1) using assms by (auto simp: is_number_def sum i)
  then show ?thesis using assms(2) by (auto simp: from_chars_int_text Let_def)
qed

end
