(* ===== verification/Redis_Store.thy ===== *)
theory Redis_Store
  imports Redis_Codec
begin

text \<open>
  The entity store engine on Redis (\<open>EntityStoreEngine\<close> of \<^verbatim>\<open>plugins/redis/redis_entity_store.hpp\<close>).  A save reads a snapshot of the objects and
  of the commit record with one \<open>HMGET\<close>, applies the changes in memory and publishes them with one script that compares the snapshot again; clients
  run concurrently and only these two commands are atomic.  The hash of Redis is a partial map from fields to byte strings.  Clocks, deadlines, the stop
  token and the network appear as choices of the step relation: a command may fail before it is sent, and its reply may be lost after it ran or before.
  The theory shows that every run is equivalent to a serial execution of the committed requests, that a request id is committed at most once, that
  clients end after a bounded number of commands, and what one change does to a document.
\<close>

type_synonym hash = "string \<rightharpoonup> string"

text \<open>The engine's configuration and the parameters of the codec.\<close>

record engine =
  en_json :: "string \<Rightarrow> bool"
  en_real_text :: "u64 \<Rightarrow> string"
  en_real_add :: "u64 \<Rightarrow> string \<Rightarrow> u64 option"
  en_name :: string
  en_catalog :: schema_catalog
  en_config_error :: string
  en_save_retry_attempts :: nat
  en_load_retry_attempts :: nat

section \<open>Checks\<close>

definition check_config :: "engine \<Rightarrow> unit outcome" where
  "check_config en = (if en_config_error en \<noteq> [] then invalid (en_config_error en) else Inr ())"

definition engine_find_store :: "engine \<Rightarrow> string \<Rightarrow> bool \<Rightarrow> store_schema outcome" where
  "engine_find_store en name write =
     (case find_store (en_catalog en) name of
        None \<Rightarrow> invalid (''unknown entity store: '' @ name)
      | Some store \<Rightarrow>
          if (if write then ss_write_connection store else ss_read_connection store) \<noteq> en_name en
          then invalid ''connection does not match entity store routing'' else Inr store)"

definition engine_find_entity :: "store_schema \<Rightarrow> string \<Rightarrow> entity_schema outcome" where
  "engine_find_entity store name =
     (case map_of (ss_entities store) name of None \<Rightarrow> invalid (''unknown entity: '' @ name) | Some entity \<Rightarrow> Inr entity)"

fun validate_patch_fields :: "engine \<Rightarrow> entity_schema \<Rightarrow> field_patch list \<Rightarrow> unit outcome" where
  "validate_patch_fields en mapped [] = Inr ()"
| "validate_patch_fields en mapped (field # rest) =
     (case find_writable_field mapped (fp_name field) of
        None \<Rightarrow> invalid (''unknown or read-only field: '' @ fp_name field)
      | Some column \<Rightarrow>
          and_then (case fp_operation field of
              Set_op \<Rightarrow> validate_value (en_json en) (fp_data field) column False
            | Erase_op \<Rightarrow> if \<not> fs_nullable column then invalid (''cannot erase required field: '' @ fp_name field) else Inr ()
            | Increment_op \<Rightarrow>
                if \<not> is_number (fs_kind column) then invalid ''increment requires numeric schema field''
                else and_then (and_then (numeric_text (en_real_text en) (fp_data field)) decimal_of) (\<lambda>delta.
                     if fs_kind column = Signed_integer \<or> fs_kind column = Unsigned_integer
                     then and_then (decimal_integer delta) (\<lambda>_. Inr ()) else Inr ())
            | Unknown_patch_op _ \<Rightarrow> invalid ''unknown patch operation'')
            (\<lambda>_. validate_patch_fields en mapped rest))"

definition validate_patch :: "engine \<Rightarrow> entity_schema \<Rightarrow> entity_patch \<Rightarrow> unit outcome" where
  "validate_patch en mapped patch =
     (if ep_expected_version patch > 0x7FFFFFFFFFFFFFFF then invalid ''version exceeds int64'' else validate_patch_fields en mapped (ep_fields patch))"

text \<open>The two loops of \<open>validate_document\<close>; the errors of the values are turned into another code by the caller.\<close>

fun validate_keys :: "engine \<Rightarrow> document \<Rightarrow> field_schema list \<Rightarrow> unit outcome" where
  "validate_keys en doc [] = Inr ()"
| "validate_keys en doc (key # rest) =
     (case map_of (doc_fields doc) (fs_column key) of
        None \<Rightarrow> corrupt ''missing stored entity key''
      | Some item \<Rightarrow> and_then (validate_value (en_json en) item key True) (\<lambda>_. validate_keys en doc rest))"

fun validate_fields :: "engine \<Rightarrow> document \<Rightarrow> field_schema list \<Rightarrow> unit outcome" where
  "validate_fields en doc [] = Inr ()"
| "validate_fields en doc (column # rest) =
     and_then (validate_value (en_json en) (case map_of (doc_fields doc) (fs_column column) of None \<Rightarrow> null_value | Some item \<Rightarrow> item) column False)
       (\<lambda>_. validate_fields en doc rest)"

definition rethrow :: "result_code \<Rightarrow> 'a outcome \<Rightarrow> 'a outcome" where
  "rethrow code x = (case x of Inl (Entity_error _ message) \<Rightarrow> Inl (Entity_error code message) | Inr a \<Rightarrow> Inr a)"

definition validate_document :: "engine \<Rightarrow> document \<Rightarrow> entity_schema \<Rightarrow> unit outcome" where
  "validate_document en doc mapped =
     rethrow Internal_error (and_then (validate_keys en doc (es_keys mapped)) (\<lambda>_. validate_fields en doc (es_fields mapped)))"

section \<open>One change\<close>

text \<open>\<open>emplace\<close> keeps an existing entry.  A null pointer is not followed: the checks before make sure that the columns exist; in the model it
  would be this outcome.\<close>

definition null_column :: "'a outcome" where
  "null_column = Inl (Entity_error Internal_error ''null column'')"

fun add_keys :: "entity_schema \<Rightarrow> named_value list \<Rightarrow> (string \<times> entity_value) list \<Rightarrow> (string \<times> entity_value) list outcome" where
  "add_keys mapped [] fs = Inr fs"
| "add_keys mapped (key # rest) fs =
     (case find_key mapped (nv_name key) of
        None \<Rightarrow> null_column
      | Some column \<Rightarrow>
          add_keys mapped rest (if map_of fs (fs_column column) = None then omap_set (fs_column column) (nv_data key) fs else fs))"

fun apply_fields :: "engine \<Rightarrow> entity_schema \<Rightarrow> field_patch list \<Rightarrow> (string \<times> entity_value) list \<Rightarrow> (string \<times> entity_value) list outcome" where
  "apply_fields en mapped [] fs = Inr fs"
| "apply_fields en mapped (field # rest) fs =
     (case find_writable_field mapped (fp_name field) of
        None \<Rightarrow> null_column
      | Some column \<Rightarrow>
          (case fp_operation field of
             Erase_op \<Rightarrow> apply_fields en mapped rest (omap_erase (fs_column column) fs)
           | Set_op \<Rightarrow> apply_fields en mapped rest (omap_set (fs_column column) (fp_data field) fs)
           | _ \<Rightarrow>
               and_then (case map_of fs (fs_column column) of None \<Rightarrow> zero_value (fs_kind column) | Some item \<Rightarrow> Inr item) (\<lambda>before.
               and_then (increment (en_real_text en) (en_real_add en) before (fp_data field) (fs_kind column)) (\<lambda>item.
                 apply_fields en mapped rest (omap_set (fs_column column) item fs)))))"

definition empty_document :: document where
  "empty_document = \<lparr>doc_version = 0, doc_fields = []\<rparr>"

text \<open>The part of \<open>apply\<close> that checks existence and version, and adds the keys of a new document.\<close>

definition apply_open :: "engine \<Rightarrow> document \<Rightarrow> entity_schema \<Rightarrow> entity_patch \<Rightarrow> document outcome" where
  "apply_open en doc mapped patch =
     (if doc_version doc = 0
      then if ep_operation patch \<noteq> Insert \<and> \<not> ep_create_if_missing patch \<or> ep_check_version patch \<and> ep_expected_version patch \<noteq> 0
           then Inl (Entity_error Not_found ''entity not found'')
           else and_then (add_keys mapped (er_key (ep_target patch)) (doc_fields doc)) (\<lambda>fs. Inr (doc\<lparr>doc_fields := fs\<rparr>))
      else if ep_operation patch = Insert then Inl (Entity_error Conflict ''entity already exists'')
      else and_then (validate_document en doc mapped) (\<lambda>_.
           if ep_check_version patch \<and> ep_expected_version patch \<noteq> doc_version doc then Inl (Entity_error Conflict ''entity version conflict'') else Inr doc))"

definition apply_patch :: "engine \<Rightarrow> document \<Rightarrow> entity_schema \<Rightarrow> entity_patch \<Rightarrow> document outcome" where
  "apply_patch en doc mapped patch =
     and_then (apply_open en doc mapped patch) (\<lambda>doc.
       if ep_operation patch = Delete_entity then Inr empty_document
       else if doc_version doc = 0x7FFFFFFFFFFFFFFF then invalid ''entity version exhausted''
       else and_then (apply_fields en mapped (ep_fields patch) (doc_fields doc)) (\<lambda>fs.
            let doc = \<lparr>doc_version = doc_version doc + 1, doc_fields = fs\<rparr>
            in rethrow Invalid_request (and_then (validate_document en doc mapped) (\<lambda>_. Inr doc))))"

section \<open>Saving\<close>

text \<open>What \<open>save\<close> works out before its first command.\<close>

record prepared =
  p_request :: save_request
  p_store :: store_schema
  p_fields :: "string list"
  p_sign :: string
  p_ledger :: string

fun prepare_fields :: "engine \<Rightarrow> store_schema \<Rightarrow> entity_patch list \<Rightarrow> string list outcome" where
  "prepare_fields en store [] = Inr []"
| "prepare_fields en store (patch # rest) =
     and_then (engine_find_entity store (er_entity (ep_target patch))) (\<lambda>mapped.
     and_then (validate_patch en mapped patch) (\<lambda>_.
     and_then (object_field (en_json en) mapped (ep_target patch)) (\<lambda>field.
     and_then (prepare_fields en store rest) (\<lambda>fs. Inr (field # fs)))))"

definition save_prepare :: "engine \<Rightarrow> save_request \<Rightarrow> prepared outcome" where
  "save_prepare en request =
     and_then (check_config en) (\<lambda>_.
       if validate_save request \<noteq> [] then invalid (validate_save request)
       else if length (sr_request_id request) > 255 \<or> length (sr_changes request) > 1024 then invalid ''save request is too large''
       else and_then (engine_find_store en (er_store (ep_target (hd (sr_changes request)))) True) (\<lambda>store.
            and_then (prepare_fields en store (sr_changes request)) (\<lambda>fs.
            and_then (signature (en_json en) request) (\<lambda>sign.
            and_then (ledger_field (sr_request_id request)) (\<lambda>key.
              Inr \<lparr>p_request = request, p_store = store, p_fields = fs, p_sign = sign, p_ledger = key\<rparr>)))))"

text \<open>The snapshot is a \<open>std::map\<close> from the fields to what \<open>HMGET\<close> returned for them.\<close>

definition snapshot_of :: "string list \<Rightarrow> hash \<Rightarrow> (string \<times> string option) list" where
  "snapshot_of fs h = map (\<lambda>f. (f, h f)) (sorted_list_of_set (set fs))"

fun decode_snapshot :: "nat \<Rightarrow> (string \<times> string option) list \<Rightarrow> (string \<times> document) list outcome" where
  "decode_snapshot total_bytes [] = Inr []"
| "decode_snapshot total_bytes ((field, None) # rest) = decode_snapshot total_bytes rest"
| "decode_snapshot total_bytes ((field, Some bytes) # rest) =
     (if total_bytes + length bytes > max_bytes then invalid ''batch snapshot exceeds 8 MiB''
      else and_then (if bytes = [] then Inr [] else and_then (decode_document bytes) (\<lambda>doc. Inr [(field, doc)])) (\<lambda>here.
           and_then (decode_snapshot (total_bytes + length bytes) rest) (\<lambda>docs. Inr (here @ docs))))"

text \<open>The changes in order; \<open>documents[field]\<close> makes an empty document where there is none.\<close>

fun apply_changes :: "engine \<Rightarrow> store_schema \<Rightarrow> (entity_patch \<times> string) list \<Rightarrow> (string \<times> document) list \<Rightarrow>
    (committed_entity list \<times> (string \<times> document) list) outcome" where
  "apply_changes en store [] docs = Inr ([], docs)"
| "apply_changes en store ((patch, field) # rest) docs =
     and_then (engine_find_entity store (er_entity (ep_target patch))) (\<lambda>mapped.
     and_then (apply_patch en (case map_of docs field of None \<Rightarrow> empty_document | Some doc \<Rightarrow> doc) mapped patch) (\<lambda>doc.
     and_then (apply_changes en store rest (omap_set field doc docs)) (\<lambda>(es, docs).
       Inr (\<lparr>ce_target = ep_target patch, ce_version = doc_version doc, ce_operation = ep_operation patch\<rparr> # es, docs))))"

text \<open>The arguments of the script: the commit record and, for every field, what is expected and what is written.\<close>

record plan =
  pl_result :: save_result
  pl_record :: string
  pl_updates :: "(string \<times> string option \<times> string) list"

fun plan_updates :: "engine \<Rightarrow> (string \<times> document) list \<Rightarrow> nat \<Rightarrow> (string \<times> string option) list \<Rightarrow> (string \<times> string option \<times> string) list outcome" where
  "plan_updates en docs total_bytes [] = Inr []"
| "plan_updates en docs total_bytes ((field, bytes) # rest) =
     (case map_of docs field of
        None \<Rightarrow> Inl (Entity_error Internal_error ''map::at'')
      | Some doc \<Rightarrow>
          and_then (if doc_version doc = 0 then Inr [] else encode_document (en_json en) doc) (\<lambda>updated.
            let total_bytes = total_bytes + length field + length updated + (case bytes of None \<Rightarrow> 0 | Some b \<Rightarrow> length b)
            in if total_bytes > 3 * max_bytes then invalid ''atomic batch exceeds 24 MiB''
               else and_then (plan_updates en docs total_bytes rest) (\<lambda>us. Inr ((field, bytes, updated) # us))))"

definition save_plan :: "engine \<Rightarrow> prepared \<Rightarrow> (string \<times> string option) list \<Rightarrow> plan outcome" where
  "save_plan en p snapshot =
     and_then (decode_snapshot 0 snapshot) (\<lambda>docs.
     and_then (apply_changes en (p_store p) (zip (sr_changes (p_request p)) (p_fields p)) docs) (\<lambda>(es, docs).
       let result = \<lparr>sv_code = Ok, sv_error = [], sv_request_id = sr_request_id (p_request p), sv_committed = True, sv_entities = es\<rparr>
       in and_then (ledger (p_sign p) result) (\<lambda>record.
          and_then (plan_updates en docs (length record) snapshot) (\<lambda>us.
            Inr \<lparr>pl_result = result, pl_record = record, pl_updates = us\<rparr>))))"

section \<open>The commit script\<close>

datatype script_reply = Published | Previous string | Stale | Script_error

text \<open>The loop compares every field with what was read.\<close>

definition unchanged :: "hash \<Rightarrow> (string \<times> string option \<times> string) list \<Rightarrow> bool" where
  "unchanged h updates \<longleftrightarrow> (\<forall>(field, expected, updated) \<in> set updates. case expected of None \<Rightarrow> h field = None | Some bytes \<Rightarrow> h field = Some bytes)"

definition publish :: "string \<Rightarrow> plan \<Rightarrow> hash \<Rightarrow> hash" where
  "publish key pl h = foldl (\<lambda>h (field, expected, updated). h(field \<mapsto> updated)) (h(key \<mapsto> pl_record pl)) (pl_updates pl)"

definition commit_script :: "string \<Rightarrow> plan \<Rightarrow> hash \<Rightarrow> script_reply \<times> hash" where
  "commit_script key pl h =
     (case h key of
        Some previous \<Rightarrow> (Previous previous, h)
      | None \<Rightarrow>
          if length (pl_updates pl) < 1 \<or> length (pl_updates pl) > 1024 then (Script_error, h)
          else if \<not> unchanged h (pl_updates pl) then (Stale, h)
          else (Published, publish key pl h))"

definition failure :: "save_request \<Rightarrow> result_code \<Rightarrow> string \<Rightarrow> save_result" where
  "failure request code error = \<lparr>sv_code = code, sv_error = error, sv_request_id = sr_request_id request, sv_committed = False, sv_entities = []\<rparr>"

definition failed :: "save_request \<Rightarrow> entity_error \<Rightarrow> save_result" where
  "failed request e = (case e of Entity_error code message \<Rightarrow> failure request code message)"

definition replayed :: "prepared \<Rightarrow> string \<Rightarrow> save_result" where
  "replayed p bytes = (case replay (p_request p) (p_sign p) bytes of Inl e \<Rightarrow> failed (p_request p) e | Inr result \<Rightarrow> result)"

section \<open>Concurrent clients\<close>

text \<open>A call of \<open>save\<close>: before the read of attempt \<open>n\<close>, between the read and the script, and returned.\<close>

datatype client = Reading prepared nat | Committing prepared nat plan | Returned prepared save_result

text \<open>The read: a stored commit record ends the call, and so does an error of the plan; an error that says that Redis is unavailable is retried.\<close>

definition after_error :: "engine \<Rightarrow> prepared \<Rightarrow> nat \<Rightarrow> bool \<Rightarrow> entity_error \<Rightarrow> client" where
  "after_error en p attempt pause e =
     (case e of Entity_error code message \<Rightarrow>
        if code = Unavailable \<and> attempt < en_save_retry_attempts en \<and> pause then Reading p (attempt + 1) else Returned p (failed (p_request p) e))"

definition after_read :: "engine \<Rightarrow> prepared \<Rightarrow> nat \<Rightarrow> bool \<Rightarrow> hash \<Rightarrow> client" where
  "after_read en p attempt pause h =
     (case h (p_ledger p) of
        Some bytes \<Rightarrow> Returned p (replayed p bytes)
      | None \<Rightarrow>
          (case save_plan en p (snapshot_of (p_fields p) h) of
             Inl e \<Rightarrow> after_error en p attempt pause e
           | Inr pl \<Rightarrow> Committing p attempt pl))"

definition after_commit :: "engine \<Rightarrow> prepared \<Rightarrow> nat \<Rightarrow> bool \<Rightarrow> plan \<Rightarrow> script_reply \<Rightarrow> client" where
  "after_commit en p attempt pause pl reply =
     (case reply of
        Published \<Rightarrow> Returned p (pl_result pl)
      | Previous bytes \<Rightarrow> Returned p (replayed p bytes)
      | Stale \<Rightarrow>
          if attempt < en_save_retry_attempts en \<and> pause then Reading p (attempt + 1)
          else Returned p (failure (p_request p) Conflict ''concurrent update; retry with the same request_id'')
      | Script_error \<Rightarrow> after_error en p attempt pause (Entity_error Unavailable ''invalid entity commit arguments''))"

text \<open>The steps of the clients, each labelled with its client; the last component lists the published calls, newest last.  A command that fails
  before it is sent leaves the hash alone; a reply that is lost may have been executed.\<close>

type_synonym system = "hash \<times> (nat \<rightharpoonup> client) \<times> prepared list"

inductive engine_step :: "engine \<Rightarrow> nat \<Rightarrow> system \<Rightarrow> system \<Rightarrow> bool" for en where
  Call: "cs i = None \<Longrightarrow> save_prepare en request = Inr p \<Longrightarrow> engine_step en i (h, cs, published) (h, cs(i \<mapsto> Reading p 1), published)"
| Read: "cs i = Some (Reading p n) \<Longrightarrow> engine_step en i (h, cs, published) (h, cs(i \<mapsto> after_read en p n pause h), published)"
| Read_fails: "cs i = Some (Reading p n) \<Longrightarrow>
    engine_step en i (h, cs, published) (h, cs(i \<mapsto> after_error en p n pause (Entity_error Unavailable message)), published)"
| Commit: "cs i = Some (Committing p n pl) \<Longrightarrow> commit_script (p_ledger p) pl h = (reply, h') \<Longrightarrow>
    engine_step en i (h, cs, published) (h', cs(i \<mapsto> after_commit en p n pause pl reply), if reply = Published then published @ [p] else published)"
| Commit_fails: "cs i = Some (Committing p n pl) \<Longrightarrow>
    engine_step en i (h, cs, published) (h, cs(i \<mapsto> after_error en p n pause (Entity_error Unavailable message)), published)"
| Reply_lost: "cs i = Some (Committing p n pl) \<Longrightarrow> commit_script (p_ledger p) pl h = (reply, h') \<Longrightarrow>
    engine_step en i (h, cs, published) (h', cs(i \<mapsto> Returned p (failure (p_request p) Commit_unknown message)), if reply = Published then published @ [p] else published)"
| Request_lost: "cs i = Some (Committing p n pl) \<Longrightarrow>
    engine_step en i (h, cs, published) (h, cs(i \<mapsto> Returned p (failure (p_request p) Commit_unknown message)), published)"

inductive engine_run :: "engine \<Rightarrow> hash \<Rightarrow> nat list \<Rightarrow> system \<Rightarrow> bool" for en h0 where
  Start: "engine_run en h0 [] (h0, Map.empty, [])"
| Step: "engine_run en h0 is s \<Longrightarrow> engine_step en i s s' \<Longrightarrow> engine_run en h0 (is @ [i]) s'"

section \<open>The atomic specification\<close>

text \<open>A call executed at once on the current hash.\<close>

definition commit_now :: "engine \<Rightarrow> hash \<Rightarrow> prepared \<Rightarrow> hash" where
  "commit_now en h p =
     (case h (p_ledger p) of
        Some _ \<Rightarrow> h
      | None \<Rightarrow> (case save_plan en p (snapshot_of (p_fields p) h) of Inl e \<Rightarrow> h | Inr pl \<Rightarrow> publish (p_ledger p) pl h))"

section \<open>Plans and the script\<close>

lemma plan_updates_snapshot: "plan_updates en docs bytes0 snapshot = Inr us \<Longrightarrow> map (\<lambda>(field, expected, updated). (field, expected)) us = snapshot"
proof (induction snapshot arbitrary: bytes0 us)
  case (Cons x snapshot)
  then show ?case by (cases x) (auto simp: and_then_Inr Let_def split: option.splits if_splits)
qed simp

lemma save_plan_snapshot:
  assumes "save_plan en p snapshot = Inr pl"
  shows "map (\<lambda>(field, expected, updated). (field, expected)) (pl_updates pl) = snapshot"
  using assms by (auto simp: save_plan_def and_then_Inr Let_def dest: plan_updates_snapshot split: prod.splits)

lemma unchanged_iff: "unchanged h us \<longleftrightarrow> (\<forall>(field, expected) \<in> set (map (\<lambda>(field, expected, updated). (field, expected)) us). h field = expected)"
  by (force simp: unchanged_def split: option.splits)

text \<open>A plan whose snapshot still holds is the plan that would be made now.\<close>

lemma snapshot_current:
  assumes "save_plan en p (snapshot_of (p_fields p) h') = Inr pl" "unchanged h (pl_updates pl)"
  shows "snapshot_of (p_fields p) h = snapshot_of (p_fields p) h'"
  using assms(2) unfolding unchanged_iff save_plan_snapshot [OF assms(1)] by (auto simp: snapshot_of_def)

lemma commit_script_atomic:
  assumes "save_plan en p (snapshot_of (p_fields p) h') = Inr pl" "commit_script (p_ledger p) pl h = (reply, h'')"
  shows "h'' = (if reply = Published then commit_now en h p else h)" and "reply = Published \<Longrightarrow> h (p_ledger p) = None"
    and "reply = Previous bytes \<Longrightarrow> h (p_ledger p) = Some bytes"
  using assms snapshot_current [OF assms(1), of h]
  by (auto simp: commit_script_def commit_now_def split: option.splits if_splits)

lemma publish_lookup:
  assumes "k \<notin> fst ` set (pl_updates pl)"
  shows "publish key pl h k = (if k = key then Some (pl_record pl) else h k)"
proof -
  have "k \<notin> fst ` set us \<Longrightarrow> foldl (\<lambda>h (field, expected, updated). h(field \<mapsto> updated)) g us k = g k"
    for us :: "(string \<times> string option \<times> string) list" and g :: hash
    by (induction us arbitrary: g) auto
  then show ?thesis using assms by (simp add: publish_def)
qed

section \<open>Prepared calls\<close>

definition is_prepared :: "engine \<Rightarrow> prepared \<Rightarrow> bool" where
  "is_prepared en p \<longleftrightarrow> (\<exists>request. save_prepare en request = Inr p)"

lemma object_field_tag: "object_field json_ok mapped target = Inr f \<Longrightarrow> \<exists>r. f = text_bytes ''object'' @ r"
  by (auto simp: object_field_def and_then_Inr writer_text_Inr writer_take_Inr split: if_splits dest!: encode_fields_Inr)

lemma prepare_fields_tag: "prepare_fields en store cs = Inr fs \<Longrightarrow> length fs = length cs \<and> (\<forall>f \<in> set fs. \<exists>r. f = text_bytes ''object'' @ r)"
proof (induction cs arbitrary: fs)
  case (Cons c cs)
  then show ?case by (auto simp: and_then_Inr dest: object_field_tag)
qed simp

lemma prepared_facts:
  assumes "is_prepared en p"
  shows "signature (en_json en) (p_request p) = Inr (p_sign p)" "length (p_fields p) = length (sr_changes (p_request p))"
    "\<forall>f \<in> set (p_fields p). \<exists>r. f = text_bytes ''object'' @ r" "p_ledger p = text_bytes ''request'' @ text_bytes (sr_request_id (p_request p))"
    "length (sr_request_id (p_request p)) \<le> 255"
  using assms
  by (auto simp: is_prepared_def save_prepare_def and_then_Inr ledger_field_def writer_text_Inr writer_take_Inr dest!: prepare_fields_tag split: if_splits)

lemma ledger_not_object:
  assumes "is_prepared en p" "is_prepared en q"
  shows "p_ledger p \<notin> set (p_fields q)"
proof
  assume "p_ledger p \<in> set (p_fields q)"
  then obtain r where "p_ledger p = text_bytes ''object'' @ r" using prepared_facts(3) [OF assms(2)] by blast
  then have "text_bytes ''request'' @ text_bytes (sr_request_id (p_request p)) = text_bytes ''object'' @ r" using prepared_facts(4) [OF assms(1)] by simp
  moreover have "length ''request'' \<le> max_bytes" "length ''object'' \<le> max_bytes" by (simp_all add: max_bytes_def)
  ultimately have "''request'' = ''object''" using text_code.prefix by blast
  then show False by simp
qed

text \<open>A commit record stands for one request id.\<close>

lemma ledger_injective:
  assumes "is_prepared en p" "is_prepared en q"
  shows "p_ledger p = p_ledger q \<longleftrightarrow> sr_request_id (p_request p) = sr_request_id (p_request q)"
proof -
  have "length (sr_request_id (p_request p)) \<le> max_bytes" "length (sr_request_id (p_request q)) \<le> max_bytes"
    using prepared_facts(5) [OF assms(1)] prepared_facts(5) [OF assms(2)] by (simp_all add: max_bytes_def)
  then show ?thesis using text_code.body_eq by (simp add: prepared_facts(4) [OF assms(1)] prepared_facts(4) [OF assms(2)])
qed

lemma publish_ledger:
  assumes "is_prepared en p" "is_prepared en q" "save_plan en q (snapshot_of (p_fields q) h') = Inr pl"
  shows "publish (p_ledger q) pl h (p_ledger p) = (if p_ledger p = p_ledger q then Some (pl_record pl) else h (p_ledger p))"
proof -
  have "fst ` set (pl_updates pl) = fst ` set (map (\<lambda>(field, expected, updated). (field, expected)) (pl_updates pl))"
    by force
  then have "fst ` set (pl_updates pl) = set (p_fields q)"
    by (simp only: save_plan_snapshot [OF assms(3)]) (simp add: snapshot_of_def image_image)
  then show ?thesis using ledger_not_object [OF assms(1,2)] by (simp add: publish_lookup)
qed

section \<open>Results\<close>

lemma rethrow_Inr: "rethrow code x = Inr a \<longleftrightarrow> x = Inr a"
  by (auto simp: rethrow_def split: sum.splits entity_error.splits)

lemma apply_patch_version:
  assumes "apply_patch en doc mapped patch = Inr doc'" "doc_version doc \<le> 0x7FFFFFFFFFFFFFFF"
  shows "doc_version doc' = (if ep_operation patch = Delete_entity then 0 else doc_version doc + 1) \<and> doc_version doc' \<le> 0x7FFFFFFFFFFFFFFF \<and>
    (doc_version doc' = 0 \<longleftrightarrow> ep_operation patch = Delete_entity)"
proof -
  obtain d where d: "apply_open en doc mapped patch = Inr d"
    and r: "(if ep_operation patch = Delete_entity then Inr empty_document
       else if doc_version d = 0x7FFFFFFFFFFFFFFF then invalid ''entity version exhausted''
       else and_then (apply_fields en mapped (ep_fields patch) (doc_fields d)) (\<lambda>fs.
            let doc = \<lparr>doc_version = doc_version d + 1, doc_fields = fs\<rparr>
            in rethrow Invalid_request (and_then (validate_document en doc mapped) (\<lambda>_. Inr doc)))) = Inr doc'"
    using assms(1) unfolding apply_patch_def and_then_Inr [of "apply_open en doc mapped patch"] by blast
  have dv: "doc_version d = doc_version doc" using d by (auto simp: apply_open_def and_then_Inr split: if_splits)
  have v: "doc_version doc' = (if ep_operation patch = Delete_entity then 0 else doc_version doc + 1)"
    "ep_operation patch \<noteq> Delete_entity \<Longrightarrow> doc_version doc \<noteq> 0x7FFFFFFFFFFFFFFF"
    using r by (auto simp: dv and_then_Inr Let_def rethrow_Inr empty_document_def split: if_splits)
  have "unat (doc_version doc + 1) = unat (doc_version doc) + 1" if "doc_version doc \<noteq> 0x7FFFFFFFFFFFFFFF"
    using assms(2) by (simp add: unat_word_ariths(1) word_le_nat_alt)
  then have "doc_version doc + 1 \<le> 0x7FFFFFFFFFFFFFFF \<and> doc_version doc + 1 \<noteq> 0" if "doc_version doc \<noteq> 0x7FFFFFFFFFFFFFFF"
    using assms(2) that by (auto simp: word_le_nat_alt word_unat_eq_iff)
  then show ?thesis using v by auto
qed

lemma omap_set_subset: "set (omap_set k v m) \<subseteq> insert (k, v) (set m)"
  by (induction k v m rule: omap_set.induct) auto

abbreviation versions_ok :: "(string \<times> document) list \<Rightarrow> bool" where
  "versions_ok docs \<equiv> \<forall>fd \<in> set docs. doc_version (snd fd) \<le> 0x7FFFFFFFFFFFFFFF"

lemma decode_document_version: "decode_document data = Inr doc \<Longrightarrow> doc_version doc \<le> 0x7FFFFFFFFFFFFFFF"
  by (auto simp: decode_document_def and_then_Inr not_less split: if_splits prod.splits)

lemma decode_snapshot_versions: "decode_snapshot n snapshot = Inr docs \<Longrightarrow> versions_ok docs"
proof (induction n snapshot arbitrary: docs rule: decode_snapshot.induct)
  case (3 n field bytes rest)
  from 3(2) obtain here rest' where
    here: "(if bytes = [] then Inr [] else and_then (decode_document bytes) (\<lambda>doc. Inr [(field, doc)])) = Inr here"
    and rest: "decode_snapshot (n + length bytes) rest = Inr rest'" and docs: "docs = here @ rest'" and fits: "\<not> n + length bytes > max_bytes"
    by (auto simp: and_then_Inr split: if_splits)
  have "versions_ok here" using here by (auto simp: and_then_Inr decode_document_version split: if_splits)
  then show ?case using 3(1) [OF fits rest] docs by auto
qed auto

lemma apply_changes_committed:
  assumes "apply_changes en store (zip cs fs) docs = Inr (es, docs')" "versions_ok docs" "length fs = length cs"
  shows "list_all2 committed_for cs es"
  using assms(3,1,2)
proof (induction fs cs arbitrary: docs es rule: list_induct2)
  case (Cons f fs c cs)
  let ?old = "case map_of docs f of None \<Rightarrow> empty_document | Some doc \<Rightarrow> doc"
  from Cons.prems(1) obtain mapped doc es' where doc: "apply_patch en ?old mapped c = Inr doc"
    and rest: "apply_changes en store (zip cs fs) (omap_set f doc docs) = Inr (es', docs')"
    and es: "es = \<lparr>ce_target = ep_target c, ce_version = doc_version doc, ce_operation = ep_operation c\<rparr> # es'"
    by (auto simp: and_then_Inr split: prod.splits)
  have old: "doc_version ?old \<le> 0x7FFFFFFFFFFFFFFF"
    using Cons.prems(2) by (auto simp: empty_document_def split: option.splits dest!: map_of_SomeD)
  note v = apply_patch_version [OF doc old]
  have "versions_ok (omap_set f doc docs)" using omap_set_subset [of f doc docs] Cons.prems(2) v by auto
  then have "list_all2 committed_for cs es'" using Cons.IH [OF rest] by simp
  moreover have "committed_for c \<lparr>ce_target = ep_target c, ce_version = doc_version doc, ce_operation = ep_operation c\<rparr>"
    using v unfolding committed_for_def by (metis committed_entity.select_convs)
  ultimately show ?case by (simp add: es)
qed simp

lemma map2_same_target: "list_all2 committed_for cs es \<Longrightarrow> map2 (\<lambda>c e. e\<lparr>ce_target := ep_target c\<rparr>) cs es = es"
  by (induction cs es rule: list_all2_induct) (auto simp: committed_for_def)

text \<open>The record that is published with a plan replays to the result of the plan.\<close>

lemma plan_replays:
  assumes "is_prepared en p" "save_plan en p snapshot = Inr pl"
  shows "replay (p_request p) (p_sign p) (pl_record pl) = Inr (pl_result pl)"
proof -
  obtain docs es docs' where docs: "decode_snapshot 0 snapshot = Inr docs"
    and es: "apply_changes en (p_store p) (zip (sr_changes (p_request p)) (p_fields p)) docs = Inr (es, docs')"
    and result: "pl_result pl = \<lparr>sv_code = Ok, sv_error = [], sv_request_id = sr_request_id (p_request p), sv_committed = True, sv_entities = es\<rparr>"
    and rec: "ledger (p_sign p) (pl_result pl) = Inr (pl_record pl)"
    using assms(2) by (auto simp: save_plan_def and_then_Inr Let_def split: prod.splits)
  have c: "list_all2 committed_for (sr_changes (p_request p)) es"
    using apply_changes_committed [OF es decode_snapshot_versions [OF docs] prepared_facts(2) [OF assms(1)]] .
  have "list_all2 committed_for (sr_changes (p_request p)) (sv_entities (pl_result pl))" using c by (simp add: result)
  from replay_of_ledger [OF prepared_facts(1) [OF assms(1)] rec this prepared_facts(1) [OF assms(1)]]
  show ?thesis using map2_same_target [OF c] by (simp add: result)
qed

section \<open>The invariant of concurrent clients\<close>

text \<open>A call that says that it is committed returns what its commit record says.\<close>

definition client_ok :: "engine \<Rightarrow> hash \<Rightarrow> client \<Rightarrow> bool" where
  "client_ok en h c \<longleftrightarrow> (case c of
      Reading p n \<Rightarrow> is_prepared en p \<and> 1 \<le> n \<and> n \<le> max 1 (en_save_retry_attempts en)
    | Committing p n pl \<Rightarrow> is_prepared en p \<and> 1 \<le> n \<and> n \<le> max 1 (en_save_retry_attempts en) \<and>
        (\<exists>h'. save_plan en p (snapshot_of (p_fields p) h') = Inr pl)
    | Returned p result \<Rightarrow> is_prepared en p \<and>
        (sv_committed result \<longrightarrow> (\<exists>bytes. h (p_ledger p) = Some bytes \<and> replay (p_request p) (p_sign p) bytes = Inr result)))"

definition system_ok :: "engine \<Rightarrow> hash \<Rightarrow> system \<Rightarrow> bool" where
  "system_ok en h0 s \<longleftrightarrow> (case s of (h, cs, published) \<Rightarrow>
     h = foldl (commit_now en) h0 published \<and> distinct (map p_ledger published) \<and>
     (\<forall>p \<in> set published. is_prepared en p \<and> h (p_ledger p) \<noteq> None) \<and> (\<forall>i c. cs i = Some c \<longrightarrow> client_ok en h c))"

lemma failed_not_committed [simp]: "sv_committed (failed r e) = False" "sv_committed (failure r code m) = False"
  by (cases e, auto simp: failed_def failure_def)

lemma after_error_ok:
  "is_prepared en p \<Longrightarrow> 1 \<le> n \<Longrightarrow> client_ok en h (after_error en p n pause e)"
  by (auto simp: after_error_def client_ok_def split: entity_error.splits)

lemma replayed_ok:
  assumes "is_prepared en p" "h (p_ledger p) = Some bytes"
  shows "client_ok en h (Returned p (replayed p bytes))"
  using assms by (auto simp: client_ok_def replayed_def split: sum.splits)

lemma after_read_ok:
  assumes "client_ok en h (Reading p n)"
  shows "client_ok en h (after_read en p n pause h)"
proof -
  have p: "is_prepared en p" "1 \<le> n" using assms by (auto simp: client_ok_def)
  show ?thesis
  proof (cases "h (p_ledger p)")
    case (Some bytes)
    then show ?thesis using replayed_ok [of en p h bytes] p by (simp add: after_read_def)
  next
    case None
    then show ?thesis using after_error_ok [OF p] assms
      by (auto simp: after_read_def client_ok_def split: sum.splits) 
  qed
qed

text \<open>Publishing keeps every commit record.\<close>

lemma commit_keeps:
  assumes "client_ok en h (Committing p n pl)" "commit_script (p_ledger p) pl h = (reply, h')" "is_prepared en q" "h (p_ledger q) = Some bytes"
  shows "h' (p_ledger q) = Some bytes"
proof -
  obtain h1 where plan: "save_plan en p (snapshot_of (p_fields p) h1) = Inr pl" and p: "is_prepared en p" using assms(1) by (auto simp: client_ok_def)
  show ?thesis
  proof (cases "reply = Published")
    case True
    then have new: "h (p_ledger p) = None" and h': "h' = publish (p_ledger p) pl h"
      using assms(2) by (auto simp: commit_script_def split: option.splits if_splits)
    have "p_ledger q \<noteq> p_ledger p" using new assms(4) by auto
    then show ?thesis using publish_ledger [OF assms(3) p plan] assms(4) h' by simp
  next
    case False
    then show ?thesis using assms(2,4) by (auto simp: commit_script_def split: option.splits if_splits)
  qed
qed

lemma client_ok_keep:
  assumes "client_ok en h c" "\<And>q bytes. is_prepared en q \<Longrightarrow> h (p_ledger q) = Some bytes \<Longrightarrow> h' (p_ledger q) = Some bytes"
  shows "client_ok en h' c"
  using assms by (fastforce simp: client_ok_def split: client.splits)

lemma after_commit_ok:
  assumes c: "client_ok en h (Committing p n pl)" and s: "commit_script (p_ledger p) pl h = (reply, h')"
  shows "client_ok en h' (after_commit en p n pause pl reply)"
proof -
  obtain h1 where plan: "save_plan en p (snapshot_of (p_fields p) h1) = Inr pl" and p: "is_prepared en p" and n: "1 \<le> n" using c by (auto simp: client_ok_def)
  show ?thesis
  proof (cases reply)
    case Published
    then have "h' = publish (p_ledger p) pl h" using s by (auto simp: commit_script_def split: option.splits if_splits)
    then have "h' (p_ledger p) = Some (pl_record pl)" using publish_ledger [OF p p plan] by simp
    then show ?thesis using Published p plan_replays [OF p plan] by (simp add: after_commit_def client_ok_def)
  next
    case (Previous bytes)
    then have "h' (p_ledger p) = Some bytes" using s by (auto simp: commit_script_def split: option.splits if_splits)
    then show ?thesis using Previous replayed_ok [OF p] by (simp add: after_commit_def)
  next
    case Stale
    then show ?thesis using p n by (auto simp: after_commit_def client_ok_def)
  next
    case Script_error
    then show ?thesis using after_error_ok [OF p n] by (simp add: after_commit_def)
  qed
qed

lemma system_ok_dest:
  assumes "system_ok en h0 (h, cs, published)" "cs i = Some c"
  shows "client_ok en h c"
  using assms by (auto simp: system_ok_def)

text \<open>A step that leaves the hash alone and one that runs the script.\<close>

lemma system_ok_local:
  assumes "system_ok en h0 (h, cs, published)" "client_ok en h c"
  shows "system_ok en h0 (h, cs(i \<mapsto> c), published)"
  using assms by (auto simp: system_ok_def)

lemma system_ok_script:
  assumes ok: "system_ok en h0 (h, cs, published)" and i: "cs i = Some (Committing p n pl)"
    and s: "commit_script (p_ledger p) pl h = (reply, h')" and c: "client_ok en h' c"
  shows "system_ok en h0 (h', cs(i \<mapsto> c), if reply = Published then published @ [p] else published)"
proof -
  have co: "client_ok en h (Committing p n pl)" using system_ok_dest [OF ok i] .
  then obtain h1 where plan: "save_plan en p (snapshot_of (p_fields p) h1) = Inr pl" and p: "is_prepared en p" by (auto simp: client_ok_def)
  note atomic = commit_script_atomic [OF plan s]
  have keep: "h' (p_ledger q) = Some bytes" if "is_prepared en q" "h (p_ledger q) = Some bytes" for q bytes
    using commit_keeps [OF co s that] .
  have clients: "client_ok en h' d" if "(cs(i \<mapsto> c)) j = Some d" for j d
    using that c ok client_ok_keep [where en = en and h = h and h' = h', OF _ keep] by (auto simp: system_ok_def split: if_splits)
  have logged: "\<forall>q \<in> set published. is_prepared en q \<and> h' (p_ledger q) \<noteq> None"
    using ok keep by (fastforce simp: system_ok_def)
  show ?thesis
  proof (cases "reply = Published")
    case True
    have new: "p_ledger p \<notin> p_ledger ` set published" using ok atomic(2) [OF True] by (auto simp: system_ok_def)
    have "h' = publish (p_ledger p) pl h" using s True by (auto simp: commit_script_def split: option.splits if_splits)
    then have "h' (p_ledger p) \<noteq> None" using publish_ledger [OF p p plan] by simp
    then show ?thesis using True new logged clients atomic(1) ok p unfolding system_ok_def by auto
  next
    case False
    then show ?thesis using logged clients atomic(1) ok unfolding system_ok_def by auto
  qed
qed

lemma engine_step_ok:
  assumes "engine_step en i s s'" "system_ok en h0 s"
  shows "system_ok en h0 s'"
  using assms
proof (cases rule: engine_step.cases)
  case (Call cs request p h published)
  have "client_ok en h (Reading p 1)" using Call by (auto simp: client_ok_def is_prepared_def)
  then show ?thesis using Call assms(2) system_ok_local by blast
next
  case (Read cs p n h published pause)
  then have "client_ok en h (Reading p n)" using assms(2) system_ok_dest by blast
  then show ?thesis using Read assms(2) system_ok_local after_read_ok by blast
next
  case (Read_fails cs p n h published pause message)
  then have "client_ok en h (Reading p n)" using assms(2) system_ok_dest by blast
  then have "client_ok en h (after_error en p n pause (Entity_error Unavailable message))" by (intro after_error_ok) (auto simp: client_ok_def)
  then show ?thesis using Read_fails assms(2) system_ok_local by blast
next
  case (Commit cs p n pl h reply h' published pause)
  then have "client_ok en h (Committing p n pl)" using assms(2) system_ok_dest by blast
  then have "client_ok en h' (after_commit en p n pause pl reply)" using Commit after_commit_ok by blast
  then show ?thesis using Commit assms(2) system_ok_script by blast
next
  case (Commit_fails cs p n pl h published pause message)
  then have "client_ok en h (Committing p n pl)" using assms(2) system_ok_dest by blast
  then have "client_ok en h (after_error en p n pause (Entity_error Unavailable message))" by (intro after_error_ok) (auto simp: client_ok_def)
  then show ?thesis using Commit_fails assms(2) system_ok_local by blast
next
  case (Reply_lost cs p n pl h reply h' published message)
  then have "client_ok en h (Committing p n pl)" using assms(2) system_ok_dest by blast
  then have "client_ok en h' (Returned p (failure (p_request p) Commit_unknown message))" by (auto simp: client_ok_def)
  then show ?thesis using Reply_lost assms(2) system_ok_script by blast
next
  case (Request_lost cs p n pl h published message)
  then have "client_ok en h (Committing p n pl)" using assms(2) system_ok_dest by blast
  then have "client_ok en h (Returned p (failure (p_request p) Commit_unknown message))" by (auto simp: client_ok_def)
  then show ?thesis using Request_lost assms(2) system_ok_local by blast
qed

lemma engine_run_ok: "engine_run en h0 is s \<Longrightarrow> system_ok en h0 s"
  by (induction rule: engine_run.induct) (auto simp: system_ok_def [of _ _ "(h0, Map.empty, [])"] intro: engine_step_ok)

text \<open>C5. However the commands of concurrent saves interleave, with lost requests and lost replies, the hash is the result of executing the published
  calls one after another, each as a whole on the hash it found; and a request id is published at most once.\<close>

theorem saves_serializable:
  assumes "engine_run en h0 is (h, cs, published)"
  shows "h = foldl (commit_now en) h0 published \<and> distinct (map (\<lambda>p. sr_request_id (p_request p)) published)"
proof -
  have ok: "system_ok en h0 (h, cs, published)" by (rule engine_run_ok [OF assms])
  then have "distinct (map p_ledger published)" "\<forall>p \<in> set published. is_prepared en p" by (auto simp: system_ok_def)
  then have "distinct (map (\<lambda>p. sr_request_id (p_request p)) published)"
    unfolding distinct_map inj_on_def using ledger_injective by blast
  then show ?thesis using ok by (simp add: system_ok_def)
qed

text \<open>C7. A call that returns a committed result can rely on it: the hash holds its commit record, from which every later call with the same id
  and content gets the same result.\<close>

theorem committed_results_durable:
  assumes "engine_run en h0 is (h, cs, published)" "cs i = Some (Returned p result)" "sv_committed result"
  shows "\<exists>bytes. h (p_ledger p) = Some bytes \<and> replay (p_request p) (p_sign p) bytes = Inr result"
  using system_ok_dest [OF engine_run_ok [OF assms(1)] assms(2)] assms(3) by (simp add: client_ok_def)

section \<open>Termination\<close>

text \<open>The commands a call can still issue, and its start.\<close>

definition remaining :: "engine \<Rightarrow> client option \<Rightarrow> nat" where
  "remaining en c = (let limit = max 1 (en_save_retry_attempts en) in case c of
      None \<Rightarrow> 2 * limit + 1
    | Some (Reading p n) \<Rightarrow> 2 * (limit - n) + 2
    | Some (Committing p n pl) \<Rightarrow> 2 * (limit - n) + 1
    | Some (Returned p result) \<Rightarrow> 0)"

lemma after_error_remaining:
  "1 \<le> n \<Longrightarrow> n \<le> max 1 (en_save_retry_attempts en) \<Longrightarrow> remaining en (Some (after_error en p n pause e)) \<le> 2 * (max 1 (en_save_retry_attempts en) - n)"
  by (auto simp: after_error_def remaining_def Let_def split: entity_error.splits)

lemma after_commit_remaining:
  "1 \<le> n \<Longrightarrow> n \<le> max 1 (en_save_retry_attempts en) \<Longrightarrow> remaining en (Some (after_commit en p n pause pl reply)) \<le> 2 * (max 1 (en_save_retry_attempts en) - n)"
  using after_error_remaining [of n en p pause "Entity_error Unavailable ''invalid entity commit arguments''"]
  by (cases reply) (auto simp: after_commit_def remaining_def Let_def)

lemma after_read_remaining:
  assumes "1 \<le> n" "n \<le> max 1 (en_save_retry_attempts en)"
  shows "remaining en (Some (after_read en p n pause h)) \<le> 2 * (max 1 (en_save_retry_attempts en) - n) + 1"
proof (cases "h (p_ledger p)")
  case None
  show ?thesis
  proof (cases "save_plan en p (snapshot_of (p_fields p) h)")
    case (Inl e)
    then show ?thesis using None after_error_remaining [OF assms, of p pause e] by (simp add: after_read_def)
  qed (simp add: None after_read_def remaining_def)
qed (simp add: after_read_def remaining_def)

lemma engine_step_remaining:
  assumes "engine_step en i (h, cs, published) (h', cs', published')" "system_ok en h0 (h, cs, published)"
  shows "remaining en (cs' i) < remaining en (cs i) \<and> (\<forall>j. j \<noteq> i \<longrightarrow> cs' j = cs j)"
  using assms(1)
proof (cases rule: engine_step.cases)
  case (Call request p)
  then show ?thesis by (auto simp: remaining_def Let_def)
next
  case (Read p n pause)
  then have "client_ok en h (Reading p n)" using assms(2) system_ok_dest by blast
  then have n: "1 \<le> n" "n \<le> max 1 (en_save_retry_attempts en)" by (auto simp: client_ok_def)
  then show ?thesis using Read after_read_remaining [OF n, of p pause h] by (auto simp: remaining_def [of en "Some (Reading p n)"] Let_def)
next
  case (Read_fails p n pause message)
  then have "client_ok en h (Reading p n)" using assms(2) system_ok_dest by blast
  then have n: "1 \<le> n" "n \<le> max 1 (en_save_retry_attempts en)" by (auto simp: client_ok_def)
  then show ?thesis using Read_fails after_error_remaining [OF n, of p pause "Entity_error Unavailable message"] by (auto simp: remaining_def [of en "Some (Reading p n)"] Let_def)
next
  case (Commit p n pl reply pause)
  then have "client_ok en h (Committing p n pl)" using assms(2) system_ok_dest by blast
  then have n: "1 \<le> n" "n \<le> max 1 (en_save_retry_attempts en)" by (auto simp: client_ok_def)
  then show ?thesis using Commit after_commit_remaining [OF n, of p pause pl reply] by (auto simp: remaining_def [of en "Some (Committing p n pl)"] Let_def)
next
  case (Commit_fails p n pl pause message)
  then have "client_ok en h (Committing p n pl)" using assms(2) system_ok_dest by blast
  then have n: "1 \<le> n" "n \<le> max 1 (en_save_retry_attempts en)" by (auto simp: client_ok_def)
  then show ?thesis using Commit_fails after_error_remaining [OF n, of p pause "Entity_error Unavailable message"] by (auto simp: remaining_def [of en "Some (Committing p n pl)"] Let_def)
next
  case (Reply_lost p n pl reply message)
  then show ?thesis by (auto simp: remaining_def Let_def)
next
  case (Request_lost p n pl message)
  then show ?thesis by (auto simp: remaining_def Let_def)
qed

lemma engine_run_remaining:
  "engine_run en h0 is s \<Longrightarrow> count_list is i + remaining en (fst (snd s) i) \<le> 2 * max 1 (en_save_retry_attempts en) + 1"
proof (induction rule: engine_run.induct)
  case Start
  then show ?case by (simp add: remaining_def)
next
  case (Step js s j s')
  obtain h cs published h' cs' published' where s: "s = (h, cs, published)" "s' = (h', cs', published')" by (metis prod_cases3)
  have "remaining en (cs' j) < remaining en (cs j) \<and> (\<forall>k. k \<noteq> j \<longrightarrow> cs' k = cs k)"
    using engine_step_remaining Step.hyps(2) engine_run_ok [OF Step.hyps(1)] by (simp add: s)
  then show ?case using Step.IH by (cases "i = j") (auto simp: s)
qed

text \<open>C6. A save ends: it issues at most two commands per attempt, whatever the other clients do, and a call that has not returned can always
  go on; after its last command it has returned.\<close>

theorem save_terminates:
  assumes "engine_run en h0 is (h, cs, published)" "cs i = Some c"
  shows "count_list is i \<le> 2 * max 1 (en_save_retry_attempts en) + 1 \<and>
    (if \<exists>p result. c = Returned p result then \<not> (\<exists>s'. engine_step en i (h, cs, published) s')
     else (\<exists>s'. engine_step en i (h, cs, published) s') \<and> count_list is i < 2 * max 1 (en_save_retry_attempts en) + 1)"
proof -
  have r: "count_list is i + remaining en (Some c) \<le> 2 * max 1 (en_save_retry_attempts en) + 1"
    using engine_run_remaining [OF assms(1), of i] assms(2) by simp
  show ?thesis
  proof (cases c)
    case (Reading p n)
    then have "engine_step en i (h, cs, published) (h, cs(i \<mapsto> after_read en p n True h), published)" using assms(2) by (intro engine_step.Read) simp
    then have "\<exists>s'. engine_step en i (h, cs, published) s'" by blast
    moreover have "count_list is i < 2 * max 1 (en_save_retry_attempts en) + 1" using r Reading by (simp add: remaining_def Let_def)
    ultimately show ?thesis using Reading by simp
  next
    case (Committing p n pl)
    then have "engine_step en i (h, cs, published) (h, cs(i \<mapsto> Returned p (failure (p_request p) Commit_unknown [])), published)"
      using assms(2) by (intro engine_step.Request_lost) simp
    then have "\<exists>s'. engine_step en i (h, cs, published) s'" by blast
    moreover have "count_list is i < 2 * max 1 (en_save_retry_attempts en) + 1" using r Committing by (simp add: remaining_def Let_def)
    ultimately show ?thesis using Committing by simp
  next
    case (Returned p result)
    then show ?thesis using r assms(2) by (auto elim!: engine_step.cases)
  qed
qed

section \<open>A concrete run\<close>

definition sample_engine :: engine where
  "sample_engine = \<lparr>en_json = (\<lambda>_. True), en_real_text = (\<lambda>_. ''0''), en_real_add = (\<lambda>_ _. None), en_name = ''main'',
     en_catalog = \<lparr>sc_allow_binary = True, sc_stores = [(''default'', sample_store)]\<rparr>, en_config_error = [],
     en_save_retry_attempts = 3, en_load_retry_attempts = 3\<rparr>"

definition sample_insert :: entity_patch where
  "sample_insert = sample_change ''x'' Insert 0"

definition sample_request :: save_request where
  "sample_request = \<lparr>sr_request_id = ''r1'', sr_changes = [sample_insert]\<rparr>"

definition sample_object :: string where
  "sample_object = text_bytes ''object'' @ text_bytes ''game.player'' @ text_bytes ''player_id'' @ value_bytes (text_value ''x'')"

lemma sample_values:
  "value_ok json_ok (text_value ''x'')" "value_ok json_ok (signed_value 5)" "value_ok json_ok null_value" "length (value_bytes (text_value ''x'')) = 10"
  "length (value_bytes (signed_value 5)) = 9" "length (value_bytes null_value) = 1"
  "v_kind (text_value ''x'') = Text" "v_kind (signed_value 5) = Signed_integer" "v_kind null_value = Null_value"
  by (simp_all add: value_ok_def value_bytes_def text_value_def signed_value_def null_value_def max_bytes_def)

lemma sample_schema:
  "fs_kind (sample_field n c k) = k" "fs_column (sample_field n c k) = c" "fs_name (sample_field n c k) = n" "fs_nullable (sample_field n c k)" "fs_writable (sample_field n c k)"
  by (simp_all add: sample_field_def)

lemma sample_validate:
  "validate_value json_ok (text_value ''x'') (sample_field n c Text) key = Inr ()"
  "validate_value json_ok (signed_value 5) (sample_field n c Signed_integer) key = Inr ()"
  "validate_value json_ok null_value (sample_field n c k) False = Inr ()"
  by (simp_all add: validate_value_def sample_values sample_schema encode_value_ok max_bytes_def)

lemma sample_object_field: "object_field json_ok sample_entity (ep_target sample_insert) = Inr sample_object"
  by (simp add: object_field_def sample_entity_def sample_insert_def sample_change_def sample_schema sample_validate sample_values writer_text_ok encode_value_ok
      writer_take_def writer_check_def max_bytes_def sample_object_def)

lemma sample_prepare:
  "\<exists>p. save_prepare sample_engine sample_request = Inr p \<and> p_fields p = [sample_object] \<and> p_store p = sample_store \<and> p_request p = sample_request \<and>
     length (p_sign p) \<le> 1000"
proof -
  have v: "validate_save sample_request = []" by code_simp
  have s: "engine_find_store sample_engine ''default'' True = Inr sample_store" by code_simp
  have e: "engine_find_entity sample_store ''player'' = Inr sample_entity" by code_simp
  have w: "find_writable_field sample_entity ''gold'' = Some (sample_field ''gold'' ''gold'' Signed_integer)" by code_simp
  have j: "en_json sample_engine = (\<lambda>_. True)" by (simp add: sample_engine_def)
  have fields: "prepare_fields sample_engine sample_store [sample_insert] = Inr [sample_object]"
    using sample_object_field e w
    by (simp add: validate_patch_def sample_insert_def sample_change_def sample_validate j)
  have "\<exists>s. signature (\<lambda>_. True) sample_request = Inr s \<and> length s \<le> 1000"
    by (simp add: signature_def sample_request_def sample_insert_def sample_change_def encode_target_def writer_text_ok writer_number_def writer_byte_def
        encode_value_ok sample_values max_bytes_def writer_take_def writer_check_def Let_def)
  then obtain sign where sign: "signature (\<lambda>_. True) sample_request = Inr sign" "length sign \<le> 1000" by blast
  have l: "ledger_field ''r1'' = Inr (text_bytes ''request'' @ text_bytes ''r1'')"
    by (simp add: ledger_field_def writer_text_ok writer_take_def writer_check_def max_bytes_def)
  have r: "sr_request_id sample_request = ''r1''" "sr_changes sample_request = [sample_insert]" "er_store (ep_target sample_insert) = ''default''"
    by (simp_all add: sample_request_def sample_insert_def sample_change_def)
  have c: "check_config sample_engine = Inr ()" by (simp add: check_config_def sample_engine_def)
  have "save_prepare sample_engine sample_request =
      Inr \<lparr>p_request = sample_request, p_store = sample_store, p_fields = [sample_object], p_sign = sign, p_ledger = text_bytes ''request'' @ text_bytes ''r1''\<rparr>"
    using v s fields sign l by (simp add: save_prepare_def c r j del: prepare_fields.simps)
  then show ?thesis using sign(2) by simp
qed

definition sample_created :: document where
  "sample_created = \<lparr>doc_version = 1, doc_fields = [(''gold'', signed_value 5), (''player_id'', text_value ''x'')]\<rparr>"

lemma sample_apply: "apply_patch sample_engine empty_document sample_entity sample_insert = Inr sample_created"
proof -
  have k: "find_key sample_entity ''id'' = Some (sample_field ''id'' ''player_id'' Text)" by code_simp
  have w: "find_writable_field sample_entity ''gold'' = Some (sample_field ''gold'' ''gold'' Signed_integer)" by code_simp
  have j: "en_json sample_engine = (\<lambda>_. True)" by (simp add: sample_engine_def)
  have i: "ep_operation sample_insert = Insert" "\<not> ep_check_version sample_insert" "er_key (ep_target sample_insert) = [\<lparr>nv_name = ''id'', nv_data = text_value ''x''\<rparr>]"
    "ep_fields sample_insert = [\<lparr>fp_operation = Set_op, fp_name = ''gold'', fp_data = signed_value 5\<rparr>]"
    by (simp_all add: sample_insert_def sample_change_def)
  have o: "apply_open sample_engine empty_document sample_entity sample_insert = Inr \<lparr>doc_version = 0, doc_fields = [(''player_id'', text_value ''x'')]\<rparr>"
    by (simp add: apply_open_def empty_document_def i k sample_schema)
  have lt: "''gold'' < ''player_id''" "\<not> ''player_id'' < ''gold''" by code_simp+
  have d: "validate_document sample_engine sample_created sample_entity = Inr ()"
    by (simp add: validate_document_def sample_created_def sample_entity_def sample_schema j sample_validate rethrow_def)
  show ?thesis using d by (simp add: apply_patch_def o i w sample_schema lt sample_created_def rethrow_def)
qed

lemma sample_plan:
  assumes "p_fields p = [sample_object]" "p_store p = sample_store" "p_request p = sample_request" "length (p_sign p) \<le> 1000"
  shows "\<exists>pl. save_plan sample_engine p (snapshot_of (p_fields p) Map.empty) = Inr pl \<and> length (pl_updates pl) = 1 \<and> unchanged Map.empty (pl_updates pl)"
proof -
  have snap: "snapshot_of (p_fields p) Map.empty = [(sample_object, None)]" by (simp add: snapshot_of_def assms)
  have e: "engine_find_entity sample_store ''player'' = Inr sample_entity" by code_simp
  have n: "er_entity (ep_target sample_insert) = ''player''" by (simp add: sample_insert_def sample_change_def)
  have j: "en_json sample_engine = (\<lambda>_. True)" by (simp add: sample_engine_def)
  have changes: "apply_changes sample_engine sample_store [(sample_insert, sample_object)] [] =
      Inr ([\<lparr>ce_target = ep_target sample_insert, ce_version = 1, ce_operation = ep_operation sample_insert\<rparr>], [(sample_object, sample_created)])"
    using sample_apply e n by (simp add: sample_created_def)
  obtain rec where rec: "ledger (p_sign p) \<lparr>sv_code = Ok, sv_error = [], sv_request_id = ''r1'', sv_committed = True,
      sv_entities = [\<lparr>ce_target = ep_target sample_insert, ce_version = 1, ce_operation = ep_operation sample_insert\<rparr>]\<rparr> = Inr rec" "length rec \<le> 2000"
    using assms(4) by (auto simp: ledger_def writer_text_ok writer_number_def writer_take_def writer_check_def max_bytes_def)
  have ok: "\<forall>f \<in> set (doc_fields sample_created). field_encodable (\<lambda>_. True) f"
    by (simp add: sample_created_def field_encodable_def sample_values max_bytes_def)
  let ?h = "text_bytes ''redis-entity-v1'' @ number_bytes 1 @ number_bytes 2"
  have len: "length (?h @ concat (map field_bytes (doc_fields sample_created))) \<le> 200" by (simp add: sample_created_def sample_values)
  then have "encode_fields (\<lambda>_. True) (doc_fields sample_created) ?h = Inr (?h @ concat (map field_bytes (doc_fields sample_created)))"
    by (intro encode_fields_ok [OF ok]) (simp add: max_bytes_def)
  then have enc: "encode_document (\<lambda>_. True) sample_created = Inr (?h @ concat (map field_bytes (doc_fields sample_created)))"
    using len by (simp add: encode_document_def writer_text_ok writer_number_def writer_take_def writer_check_def max_bytes_def sample_created_def)
  have small: "length sample_object \<le> 100" by (simp add: sample_object_def sample_values)
  have r: "sr_changes sample_request = [sample_insert]" "sr_request_id sample_request = ''r1''" by (simp_all add: sample_request_def)
  have updates: "plan_updates sample_engine [(sample_object, sample_created)] (length rec) [(sample_object, None)] =
      Inr [(sample_object, None, ?h @ concat (map field_bytes (doc_fields sample_created)))]"
    using enc len small rec(2) by (simp add: j sample_created_def max_bytes_def)
  show ?thesis using rec(1) changes updates unfolding save_plan_def snap
    by (simp add: assms r Let_def unchanged_def del: plan_updates.simps apply_changes.simps)
qed

text \<open>One client inserts a player: call, read, script.\<close>

lemma sample_run:
  "\<exists>p (pl :: plan) h. engine_run sample_engine Map.empty [0, 0, 0] (h, [0 \<mapsto> Returned p (pl_result pl)], [p]) \<and> p_request p = sample_request \<and> sv_committed (pl_result pl)"
proof -
  obtain p where p: "save_prepare sample_engine sample_request = Inr p" "p_fields p = [sample_object]" "p_store p = sample_store" "p_request p = sample_request"
    "length (p_sign p) \<le> 1000" using sample_prepare by blast
  obtain pl where pl: "save_plan sample_engine p (snapshot_of (p_fields p) Map.empty) = Inr pl" "length (pl_updates pl) = 1" "unchanged Map.empty (pl_updates pl)"
    using sample_plan [OF p(2-5)] by blast
  let ?e = "Map.empty :: hash"
  have "engine_run sample_engine ?e [] (?e, Map.empty, [])" by (rule engine_run.Start)
  moreover have "engine_step sample_engine 0 (?e, Map.empty, []) (?e, [0 \<mapsto> Reading p 1], [])" using p(1) by (intro engine_step.Call) simp_all
  ultimately have r1: "engine_run sample_engine ?e [0] (?e, [0 \<mapsto> Reading p 1], [])" using engine_run.Step by fastforce
  have "after_read sample_engine p 1 True ?e = Committing p 1 pl" using pl(1) by (simp add: after_read_def)
  then have "engine_step sample_engine 0 (?e, [0 \<mapsto> Reading p 1], []) (?e, [0 \<mapsto> Committing p 1 pl], [])"
    using engine_step.Read [of "[0 \<mapsto> Reading p 1]" 0 p 1 sample_engine ?e "[]" True] by simp
  then have r2: "engine_run sample_engine ?e [0, 0] (?e, [0 \<mapsto> Committing p 1 pl], [])" using engine_run.Step [OF r1] by fastforce
  have script: "commit_script (p_ledger p) pl ?e = (Published, publish (p_ledger p) pl ?e)" using pl(2,3) by (simp add: commit_script_def)
  have "engine_step sample_engine 0 (?e, [0 \<mapsto> Committing p 1 pl], []) (publish (p_ledger p) pl ?e, [0 \<mapsto> Returned p (pl_result pl)], [p])"
    using engine_step.Commit [of "[0 \<mapsto> Committing p 1 pl]" 0 p 1 pl ?e Published _ sample_engine "[]" True, OF _ script] by (simp add: after_commit_def)
  then have r3: "engine_run sample_engine ?e [0, 0, 0] (publish (p_ledger p) pl ?e, [0 \<mapsto> Returned p (pl_result pl)], [p])" using engine_run.Step [OF r2] by fastforce
  have "sv_committed (pl_result pl)" using pl(1) by (auto simp: save_plan_def and_then_Inr Let_def split: prod.splits)
  then show ?thesis using r3 p(4) by (intro exI [of _ p] exI [of _ pl] exI [of _ "publish (p_ledger p) pl ?e"]) simp
qed

lemma saves_serializable_witness:
  "\<exists>p h cs. engine_run sample_engine Map.empty [0, 0, 0] (h, cs, [p]) \<and> h = commit_now sample_engine Map.empty p"
proof -
  obtain p and pl :: plan and h where r: "engine_run sample_engine Map.empty [0, 0, 0] (h, [0 \<mapsto> Returned p (pl_result pl)], [p])" using sample_run by blast
  from saves_serializable [OF r] show ?thesis using r by auto
qed

lemma committed_results_durable_witness:
  "\<exists>p h cs result bytes. engine_run sample_engine Map.empty [0, 0, 0] (h, cs, [p]) \<and> h (p_ledger p) = Some bytes \<and>
     replay sample_request (p_sign p) bytes = Inr result \<and> sv_committed result"
proof -
  obtain p and pl :: plan and h where r: "engine_run sample_engine Map.empty [0, 0, 0] (h, [0 \<mapsto> Returned p (pl_result pl)], [p])"
    and p: "p_request p = sample_request" "sv_committed (pl_result pl)" using sample_run by blast
  have "[0 \<mapsto> Returned p (pl_result pl)] 0 = Some (Returned p (pl_result pl))" by simp
  from committed_results_durable [OF r this p(2)] show ?thesis using r p by auto
qed

lemma save_terminates_witness:
  "\<exists>p h cs. engine_run sample_engine Map.empty [0, 0, 0] (h, cs, [p]) \<and> count_list [0, 0, 0 :: nat] 0 \<le> 2 * max 1 (en_save_retry_attempts sample_engine) + 1 \<and>
     \<not> (\<exists>s'. engine_step sample_engine 0 (h, cs, [p]) s')"
proof -
  obtain p and pl :: plan and h where r: "engine_run sample_engine Map.empty [0, 0, 0] (h, [0 \<mapsto> Returned p (pl_result pl)], [p])" using sample_run by blast
  have "[0 \<mapsto> Returned p (pl_result pl)] 0 = Some (Returned p (pl_result pl))" by simp
  from save_terminates [OF r this] show ?thesis using r by auto
qed

section \<open>What is stored can be read\<close>

lemma canon_kind [simp]: "v_kind (canon_value item) = v_kind item"
  by (cases "v_kind item") (simp_all add: canon_value_def null_value_def boolean_value_def signed_value_def unsigned_value_def real_value_def
      decimal_value_def text_value_def json_value_def bytes_value_def)

lemma canon_text: "v_kind item = Decimal \<Longrightarrow> v_text (canon_value item) = decimal_normal (v_text item)"
  by (simp add: canon_value_def decimal_value_def)

lemma real_finite_0: "real_finite 0"
  by (simp add: real_finite_def)

lemma value_ok_canon:
  assumes "value_ok json_ok item"
  shows "value_ok json_ok (canon_value item) \<longleftrightarrow> (v_kind item = Decimal \<longrightarrow> length (decimal_normal (v_text item)) \<le> decimal_limit)"
proof (cases "v_kind item = Decimal")
  case True
  then obtain d where d: "decimal_of (v_text item) = Inr d" using assms by (auto simp: value_ok_def)
  then show ?thesis using True decimal_of_str [OF decimal_of_ok [OF d]]
    by (auto simp: value_ok_def canon_text decimal_normal_def)
next
  case False
  then show ?thesis using assms real_finite_0
    by (cases "v_kind item") (auto simp: value_ok_def canon_value_def real_value_def text_value_def json_value_def bytes_value_def null_value_def boolean_value_def signed_value_def
      unsigned_value_def)
qed

lemma validate_canon:
  assumes "validate_value json_ok item field key = Inr ()"
  shows "validate_value json_ok (canon_value item) field key = Inr () \<longleftrightarrow>
    (v_kind item = Decimal \<longrightarrow> length (decimal_normal (v_text item)) \<le> decimal_limit)"
proof -
  obtain out where enc: "encode_value json_ok [] item = Inr out" using assms by (auto simp: validate_value_def and_then_Inr)
  note ok = encode_value_Inr [OF enc]
  have "encode_value json_ok [] (canon_value item) \<noteq> Inr o'" if "\<not> value_ok json_ok (canon_value item)" for o'
    using that encode_value_Inr by blast
  moreover have "\<exists>out. encode_value json_ok [] (canon_value item) = Inr out" if c: "value_ok json_ok (canon_value item)"
  proof (cases "v_kind item = Decimal \<or> v_kind item = Text \<or> v_kind item = Json \<or> v_kind item = Bytes")
    case True
    then have "length out \<le> max_bytes" using enc by (auto simp: encode_value_def Let_def and_then_Inr writer_text_Inr split: if_splits)
    then show ?thesis using encode_value_ok [OF c, of "[]"] ok value_bytes_canon [of json_ok item] by auto
  next
    case False
    then have "length (value_bytes (canon_value item)) \<le> 9" by (cases "v_kind item") (auto simp: value_bytes_def)
    then show ?thesis using encode_value_ok [OF c, of "[]"] by (auto simp: max_bytes_def)
  qed
  ultimately have "(\<exists>out. encode_value json_ok [] (canon_value item) = Inr out) \<longleftrightarrow> value_ok json_ok (canon_value item)" by blast
  then show ?thesis using assms value_ok_canon [of json_ok item] ok
    by (auto simp: validate_value_def and_then_Inr split: if_splits)
qed

lemma canon_fields_lookup: "map_of (canon_fields fs) c = map_option canon_value (map_of fs c)"
  by (induction fs) (auto simp: canon_fields_def)

lemma canon_null: "canon_value null_value = null_value"
  by (simp add: canon_value_def null_value_def)

text \<open>A decimal of the document that a schema column shows and whose normal text is too long for the parser.\<close>

definition oversized :: "document \<Rightarrow> field_schema \<Rightarrow> bool" where
  "oversized doc column \<longleftrightarrow> (\<exists>item. map_of (doc_fields doc) (fs_column column) = Some item \<and> v_kind item = Decimal \<and>
     length (decimal_normal (v_text item)) > decimal_limit)"

lemma validate_keys_canon:
  assumes "validate_keys en doc ks = Inr ()"
  shows "validate_keys en (doc\<lparr>doc_fields := canon_fields (doc_fields doc)\<rparr>) ks = Inr () \<longleftrightarrow> (\<forall>k \<in> set ks. \<not> oversized doc k)"
  using assms
proof (induction ks)
  case (Cons k ks)
  then obtain item where i: "map_of (doc_fields doc) (fs_column k) = Some item" "validate_value (en_json en) item k True = Inr ()" "validate_keys en doc ks = Inr ()"
    by (auto simp: and_then_Inr split: option.splits)
  then show ?case using Cons.IH [OF i(3)] validate_canon [OF i(2)]
    by (auto simp: canon_fields_lookup and_then_Inr oversized_def not_less)
qed simp

lemma validate_fields_canon:
  assumes "validate_fields en doc cs = Inr ()"
  shows "validate_fields en (doc\<lparr>doc_fields := canon_fields (doc_fields doc)\<rparr>) cs = Inr () \<longleftrightarrow> (\<forall>c \<in> set cs. \<not> oversized doc c)"
  using assms
proof (induction cs)
  case (Cons c cs)
  let ?item = "case map_of (doc_fields doc) (fs_column c) of None \<Rightarrow> null_value | Some item \<Rightarrow> item"
  have i: "validate_value (en_json en) ?item c False = Inr ()" "validate_fields en doc cs = Inr ()" using Cons.prems by (auto simp: and_then_Inr)
  have "(case map_of (canon_fields (doc_fields doc)) (fs_column c) of None \<Rightarrow> null_value | Some item \<Rightarrow> item) = canon_value ?item"
    by (simp add: canon_fields_lookup canon_null split: option.splits)
  moreover have "oversized doc c \<longleftrightarrow> v_kind ?item = Decimal \<and> length (decimal_normal (v_text ?item)) > decimal_limit"
    by (auto simp: oversized_def null_value_def split: option.splits)
  ultimately show ?case using Cons.IH [OF i(2)] validate_canon [OF i(1)] by (auto simp: and_then_Inr not_less)
qed simp

lemma validate_decoded:
  assumes "validate_document en doc mapped = Inr ()" "encode_document (en_json en) doc = Inr data" "omap_ok (doc_fields doc)"
    and "decode_document data = Inr doc'"
  shows "validate_document en doc' mapped = Inr () \<longleftrightarrow> \<not> (\<exists>column \<in> set (es_keys mapped @ es_fields mapped). oversized doc column)"
proof -
  have doc': "doc' = doc\<lparr>doc_fields := canon_fields (doc_fields doc)\<rparr>"
    using document_decoded [OF assms(2,3)] assms(4) by (auto split: if_splits)
  have v: "validate_keys en doc (es_keys mapped) = Inr ()" "validate_fields en doc (es_fields mapped) = Inr ()"
    using assms(1) by (auto simp: validate_document_def rethrow_Inr and_then_Inr)
  show ?thesis unfolding doc' validate_document_def rethrow_Inr and_then_Inr
    using validate_keys_canon [OF v(1)] validate_fields_canon [OF v(2)] by auto
qed

text \<open>A document that passes the checks before it is stored passes them again after it is read, exactly when the normal text of each of its decimals
  has at most 4096 characters; otherwise the stored entity can neither be loaded nor changed any more.\<close>

theorem stored_document_readable:
  assumes "validate_document en doc mapped = Inr ()" "encode_document (en_json en) doc = Inr data" "omap_ok (doc_fields doc)"
    and "decode_document data = Inr doc'"
  shows "validate_document en doc' mapped = Inr () \<longleftrightarrow> \<not> (\<exists>column \<in> set (es_keys mapped @ es_fields mapped). oversized doc column)"
  by (rule validate_decoded [OF assms])

text \<open>The value \<open>1e-4096\<close> is accepted in a request and makes the entity unreadable.\<close>

lemma oversized_decimal: "decimal_of ''1e-4096'' = Inr \<lparr>dec_digits = ''1'', dec_scale = 4096, dec_negative = False\<rparr> \<and> length (decimal_normal ''1e-4096'') > decimal_limit"
proof -
  have d: "decimal_of ''1e-4096'' = Inr \<lparr>dec_digits = ''1'', dec_scale = 4096, dec_negative = False\<rparr>" by code_simp
  then show ?thesis by (simp add: decimal_normal_def decimal_str_def decimal_limit_def)
qed

section \<open>The effect of one change\<close>

text \<open>The value of a patched column: what the patch sets, nothing after an erasure, and the increment of the old value or of zero.\<close>

definition patched :: "engine \<Rightarrow> field_schema \<Rightarrow> field_patch \<Rightarrow> entity_value option \<Rightarrow> entity_value option \<Rightarrow> bool" where
  "patched en column field old new \<longleftrightarrow> (case fp_operation field of
      Set_op \<Rightarrow> new = Some (fp_data field)
    | Erase_op \<Rightarrow> new = None
    | _ \<Rightarrow> \<exists>before item. (case old of None \<Rightarrow> zero_value (fs_kind column) | Some v \<Rightarrow> Inr v) = Inr before \<and>
        increment (en_real_text en) (en_real_add en) before (fp_data field) (fs_kind column) = Inr item \<and> new = Some item)"

definition patch_columns :: "entity_schema \<Rightarrow> field_patch list \<Rightarrow> string set" where
  "patch_columns mapped fs = {fs_column column | column field. field \<in> set fs \<and> find_writable_field mapped (fp_name field) = Some column}"

lemma patch_columns_Cons:
  "find_writable_field mapped (fp_name field) = Some column \<Longrightarrow> patch_columns mapped (field # fs) = insert (fs_column column) (patch_columns mapped fs)"
  by (auto simp: patch_columns_def)

lemma patch_columns_new:
  assumes "entity_ok b mapped" "distinct (map fp_name (field # fs))" "find_writable_field mapped (fp_name field) = Some column"
  shows "fs_column column \<notin> patch_columns mapped fs"
proof
  assume "fs_column column \<in> patch_columns mapped fs"
  then obtain column' field' where f: "field' \<in> set fs" "find_writable_field mapped (fp_name field') = Some column'" "fs_column column' = fs_column column"
    by (auto simp: patch_columns_def)
  have "find_field mapped (fp_name field) = Some column" "find_field mapped (fp_name field') = Some column'"
    using writable_column [OF assms(1)] assms(3) f(2) by blast+
  then have "fp_name field = fp_name field'" using entity_columns(1) [OF assms(1)] f(3) by metis
  then show False using assms(2) f(1) by force
qed

lemma apply_fields_effect:
  assumes "apply_fields en mapped fs old = Inr new" "entity_ok b mapped" "distinct (map fp_name fs)" "omap_ok old"
  shows "omap_ok new \<and> (\<forall>c. c \<notin> patch_columns mapped fs \<longrightarrow> map_of new c = map_of old c) \<and>
    (\<forall>field \<in> set fs. \<exists>column. find_writable_field mapped (fp_name field) = Some column \<and>
       patched en column field (map_of old (fs_column column)) (map_of new (fs_column column)))"
  using assms
proof (induction fs arbitrary: old)
  case (Cons field fs)
  obtain column where col: "find_writable_field mapped (fp_name field) = Some column"
    using Cons.prems(1) by (auto simp: null_column_def split: option.splits)
  let ?c = "fs_column column"
  have fresh: "?c \<notin> patch_columns mapped fs" using patch_columns_new [OF Cons.prems(2,3) col] .
  obtain mid where mid: "apply_fields en mapped fs mid = Inr new" "omap_ok mid" "\<forall>k. k \<noteq> ?c \<longrightarrow> map_of mid k = map_of old k"
    and here: "patched en column field (map_of old ?c) (map_of mid ?c)"
  proof (cases "fp_operation field")
    case Set_op
    then show thesis using that [of "omap_set ?c (fp_data field) old"] Cons.prems(1,4) col by (auto simp: patched_def)
  next
    case Erase_op
    then show thesis using that [of "omap_erase ?c old"] Cons.prems(1,4) col by (auto simp: patched_def)
  next
    case other: Increment_op
    then obtain before item where b: "(case map_of old ?c of None \<Rightarrow> zero_value (fs_kind column) | Some v \<Rightarrow> Inr v) = Inr before"
      "increment (en_real_text en) (en_real_add en) before (fp_data field) (fs_kind column) = Inr item" "apply_fields en mapped fs (omap_set ?c item old) = Inr new"
      using Cons.prems(1) col by (auto simp: and_then_Inr)
    then show thesis using that [of "omap_set ?c item old"] Cons.prems(4) other by (auto simp: patched_def)
  next
    case other: (Unknown_patch_op n)
    then obtain before item where b: "(case map_of old ?c of None \<Rightarrow> zero_value (fs_kind column) | Some v \<Rightarrow> Inr v) = Inr before"
      "increment (en_real_text en) (en_real_add en) before (fp_data field) (fs_kind column) = Inr item" "apply_fields en mapped fs (omap_set ?c item old) = Inr new"
      using Cons.prems(1) col by (auto simp: and_then_Inr)
    then show thesis using that [of "omap_set ?c item old"] Cons.prems(4) other by (auto simp: patched_def)
  qed
  note IH = Cons.IH [OF mid(1) Cons.prems(2) _ mid(2)]
  have rest: "omap_ok new" "\<forall>k. k \<notin> patch_columns mapped fs \<longrightarrow> map_of new k = map_of mid k"
    "\<forall>f \<in> set fs. \<exists>column. find_writable_field mapped (fp_name f) = Some column \<and> patched en column f (map_of mid (fs_column column)) (map_of new (fs_column column))"
    using IH Cons.prems(3) by simp_all
  have others: "\<exists>column'. find_writable_field mapped (fp_name f) = Some column' \<and> patched en column' f (map_of old (fs_column column')) (map_of new (fs_column column'))"
    if f: "f \<in> set fs" for f
  proof -
    obtain column' where c': "find_writable_field mapped (fp_name f) = Some column'" "patched en column' f (map_of mid (fs_column column')) (map_of new (fs_column column'))"
      using bspec [OF rest(3) f] by blast
    then have "fs_column column' \<in> patch_columns mapped fs" using f by (auto simp: patch_columns_def)
    then have "map_of mid (fs_column column') = map_of old (fs_column column')" using fresh mid(3) by metis
    then show ?thesis using c' by auto
  qed
  have "patched en column field (map_of old ?c) (map_of new ?c)" using here rest(2) fresh by simp
  moreover have "map_of new k = map_of old k" if "k \<notin> patch_columns mapped (field # fs)" for k
    using that rest(2) mid(3) by (simp add: patch_columns_Cons [OF col])
  ultimately show ?case using rest(1) others col by auto
qed simp

lemma apply_patch_parts:
  assumes "apply_patch en doc mapped patch = Inr doc'" "ep_operation patch \<noteq> Delete_entity" "doc_version doc \<noteq> 0"
  shows "apply_fields en mapped (ep_fields patch) (doc_fields doc) = Inr (doc_fields doc') \<and> doc_version doc' = doc_version doc + 1 \<and>
    doc_version doc \<noteq> 0x7FFFFFFFFFFFFFFF \<and> (ep_check_version patch \<longrightarrow> ep_expected_version patch = doc_version doc) \<and>
    validate_document en doc' mapped = Inr ()"
proof -
  have o: "apply_open en doc mapped patch = Inr doc \<and> (ep_check_version patch \<longrightarrow> ep_expected_version patch = doc_version doc)"
    using assms(1,3) by (auto simp: apply_patch_def apply_open_def and_then_Inr [of "validate_document en doc mapped"] and_then_Inr [of "and_then (validate_document en doc mapped) f" for f] split: if_splits)
  then show ?thesis using assms(1,2)
    by (auto simp: apply_patch_def and_then_Inr Let_def rethrow_Inr split: if_splits)
qed

text \<open>A change of an existing entity that succeeds found the expected version, raises the version by one without wrapping around, gives every
  patched column its new value and leaves all other columns, the keys among them, as they were.\<close>

theorem change_effect:
  assumes "apply_patch en doc mapped patch = Inr doc'" "ep_operation patch \<noteq> Delete_entity" "doc_version doc \<noteq> 0"
    and "doc_version doc \<le> 0x7FFFFFFFFFFFFFFF" "entity_ok b mapped" "distinct (map fp_name (ep_fields patch))" "omap_ok (doc_fields doc)"
  shows "unat (doc_version doc') = unat (doc_version doc) + 1 \<and> (ep_check_version patch \<longrightarrow> ep_expected_version patch = doc_version doc) \<and>
    (\<forall>c. c \<notin> patch_columns mapped (ep_fields patch) \<longrightarrow> map_of (doc_fields doc') c = map_of (doc_fields doc) c) \<and>
    (\<forall>field \<in> set (ep_fields patch). \<exists>column. find_writable_field mapped (fp_name field) = Some column \<and> fs_column column \<notin> fs_column ` set (es_keys mapped) \<and>
       patched en column field (map_of (doc_fields doc) (fs_column column)) (map_of (doc_fields doc') (fs_column column)))"
proof -
  note p = apply_patch_parts [OF assms(1-3)]
  note e = apply_fields_effect [OF conjunct1 [OF p] assms(5-7)]
  have "unat (doc_version doc + 1) = unat (doc_version doc) + 1" using assms(4) by (simp add: unat_word_ariths(1) word_le_nat_alt)
  moreover have "\<exists>column. find_writable_field mapped (fp_name field) = Some column \<and> fs_column column \<notin> fs_column ` set (es_keys mapped) \<and>
      patched en column field (map_of (doc_fields doc) (fs_column column)) (map_of (doc_fields doc') (fs_column column))" if f: "field \<in> set (ep_fields patch)" for field
  proof -
    obtain column where c: "find_writable_field mapped (fp_name field) = Some column"
      "patched en column field (map_of (doc_fields doc) (fs_column column)) (map_of (doc_fields doc') (fs_column column))"
      using bspec [OF conjunct2 [OF conjunct2 [OF e]] f] by blast
    then show ?thesis using writable_column [OF assms(5) c(1)] by blast
  qed
  ultimately show ?thesis using p e by simp
qed

definition sample_update :: entity_patch where
  "sample_update = sample_change ''x'' Update 1"

section \<open>Loading\<close>

text \<open>What a command returned: a nil, a string, an error, another type, or nothing because the connection failed.\<close>

datatype redis_reply = Nil_reply | String_reply string | Error_reply string | Other_reply | No_reply string

fun select_fields :: "entity_schema \<Rightarrow> string list \<Rightarrow> field_schema list outcome" where
  "select_fields mapped [] = Inr []"
| "select_fields mapped (name # rest) =
     (case find_field mapped name of
        None \<Rightarrow> invalid (''unknown projected field: '' @ name)
      | Some column \<Rightarrow> and_then (select_fields mapped rest) (\<lambda>cs. Inr (column # cs)))"

definition project :: "document \<Rightarrow> field_schema list \<Rightarrow> named_value list" where
  "project doc selected =
     map (\<lambda>column. \<lparr>nv_name = fs_name column, nv_data = (case map_of (doc_fields doc) (fs_column column) of None \<Rightarrow> null_value | Some item \<Rightarrow> item)\<rparr>) selected"

text \<open>One attempt: the code, the fields and the version.\<close>

definition load_attempt :: "engine \<Rightarrow> entity_schema \<Rightarrow> field_schema list \<Rightarrow> redis_reply \<Rightarrow> (result_code \<times> named_value list \<times> u64) outcome" where
  "load_attempt en mapped selected reply =
     (case reply of
        No_reply message \<Rightarrow> Inl (Entity_error Unavailable message)
      | Error_reply message \<Rightarrow> Inl (Entity_error Unavailable message)
      | Nil_reply \<Rightarrow> Inr (Not_found, [], 0)
      | Other_reply \<Rightarrow> corrupt ''unexpected Redis value type''
      | String_reply bytes \<Rightarrow>
          if bytes = [] then Inr (Not_found, [], 0)
          else and_then (decode_document bytes) (\<lambda>doc. and_then (validate_document en doc mapped) (\<lambda>_. Inr (Ok, project doc selected, doc_version doc))))"

text \<open>The loop over the replies that the attempts get, each with the answer of \<open>pause\<close>; without a reply the deadline has passed.\<close>

fun load_loop :: "engine \<Rightarrow> entity_schema \<Rightarrow> field_schema list \<Rightarrow> nat \<Rightarrow> (redis_reply \<times> bool) list \<Rightarrow> (result_code \<times> named_value list \<times> u64) outcome" where
  "load_loop en mapped selected attempt [] = Inl (Entity_error Unavailable ''Redis operation stopped or deadline expired'')"
| "load_loop en mapped selected attempt ((reply, pause) # rest) =
     (case load_attempt en mapped selected reply of
        Inr r \<Rightarrow> Inr r
      | Inl (Entity_error code message) \<Rightarrow>
          if code = Unavailable \<and> attempt < en_load_retry_attempts en \<and> pause then load_loop en mapped selected (attempt + 1) rest
          else Inl (Entity_error code message))"

text \<open>The checks before the loop: the entity, the selected columns and the field of the hash.\<close>

definition load_prepare :: "engine \<Rightarrow> load_request \<Rightarrow> (entity_schema \<times> field_schema list \<times> string) outcome" where
  "load_prepare en request =
     and_then (check_config en) (\<lambda>_.
       if validate_load request \<noteq> [] then invalid (validate_load request)
       else and_then (engine_find_store en (er_store (lr_target request)) False) (\<lambda>store.
            and_then (engine_find_entity store (er_entity (lr_target request))) (\<lambda>mapped.
            and_then (object_field (en_json en) mapped (lr_target request)) (\<lambda>field.
            and_then (if fm_all_fields (lr_fields request) then Inr (es_fields mapped) else select_fields mapped (fm_names (lr_fields request))) (\<lambda>selected.
              Inr (mapped, selected, field))))))"

definition load_entity :: "engine \<Rightarrow> load_request \<Rightarrow> (redis_reply \<times> bool) list \<Rightarrow> load_result" where
  "load_entity en request replies =
     (case and_then (load_prepare en request) (\<lambda>(mapped, selected, field). load_loop en mapped selected 1 replies) of
        Inl (Entity_error code message) \<Rightarrow> \<lparr>ld_code = code, ld_error = message, ld_target = lr_target request, ld_fields = [], ld_version = 0\<rparr>
      | Inr (code, fs, version) \<Rightarrow> \<lparr>ld_code = code, ld_error = [], ld_target = lr_target request, ld_fields = fs, ld_version = version\<rparr>)"

text \<open>The reply of \<open>HGET\<close> on a hash of strings.\<close>

definition hget :: "hash \<Rightarrow> string \<Rightarrow> redis_reply" where
  "hget h field = (case h field of None \<Rightarrow> Nil_reply | Some bytes \<Rightarrow> String_reply bytes)"

lemma plan_updates_encode:
  "plan_updates en docs n snapshot = Inr us \<Longrightarrow> (f, e, u) \<in> set us \<Longrightarrow>
   \<exists>doc. map_of docs f = Some doc \<and> (if doc_version doc = 0 then u = [] else encode_document (en_json en) doc = Inr u)"
proof (induction snapshot arbitrary: n us)
  case (Cons x snapshot)
  obtain field bytes where x: "x = (field, bytes)" by fastforce
  obtain doc u' n' us' where r: "map_of docs field = Some doc" "(if doc_version doc = 0 then Inr [] else encode_document (en_json en) doc) = Inr u'"
    "plan_updates en docs n' snapshot = Inr us'" "us = (field, bytes, u') # us'"
    using Cons.prems(1) by (auto simp: x and_then_Inr Let_def split: option.splits if_splits)
  show ?case
  proof (cases "(f, e, u) \<in> set us'")
    case True
    then show ?thesis using Cons.IH [OF r(3)] by blast
  next
    case False
    then show ?thesis using Cons.prems(2) r by (auto split: if_splits)
  qed
qed simp

lemma publish_update:
  assumes "(f, e, u) \<in> set (pl_updates pl)" "distinct (map fst (pl_updates pl))"
  shows "publish key pl h f = Some u"
proof -
  let ?set = "\<lambda>(h :: hash) (field, expected :: string option, updated). h(field \<mapsto> updated)"
  have other: "f \<notin> fst ` set us \<Longrightarrow> foldl ?set g us f = g f" for us g
    by (induction us arbitrary: g) auto
  have "(f, e, u) \<in> set us \<Longrightarrow> distinct (map fst us) \<Longrightarrow> foldl ?set g us f = Some u" for us g
  proof (induction us arbitrary: g)
    case (Cons x us)
    show ?case
    proof (cases "x = (f, e, u)")
      case True
      then have "f \<notin> fst ` set us" using Cons.prems(2) by simp
      from other [OF this, of "g(f \<mapsto> u)"] show ?thesis unfolding True foldl_Cons prod.case by (simp only: fun_upd_same)
    next
      case False
      then show ?thesis using Cons by simp
    qed
  qed simp
  then show ?thesis using assms by (simp add: publish_def)
qed

lemma encode_nonempty: "encode_document json_ok doc = Inr u \<Longrightarrow> u \<noteq> []"
  by (auto simp: encode_document_def and_then_Inr writer_text_Inr writer_take_Inr writer_number_def text_bytes_def dest!: encode_fields_Inr)

text \<open>A load of a stored document gives its version and the selected columns in normal form, or an internal error when a decimal is oversized.\<close>

lemma load_reads_document:
  assumes "h field = Some data" "encode_document (en_json en) doc = Inr data" "omap_ok (doc_fields doc)" "validate_document en doc mapped = Inr ()"
    and "doc_version doc \<noteq> 0" "doc_version doc \<le> 0x7FFFFFFFFFFFFFFF" "length (doc_fields doc) \<le> 65536"
  shows "if \<exists>column \<in> set (es_keys mapped @ es_fields mapped). oversized doc column
    then \<exists>message. load_attempt en mapped selected (hget h field) = Inl (Entity_error Internal_error message)
    else load_attempt en mapped selected (hget h field) =
      Inr (Ok, project (doc\<lparr>doc_fields := canon_fields (doc_fields doc)\<rparr>) selected, doc_version doc)"
proof -
  let ?d = "doc\<lparr>doc_fields := canon_fields (doc_fields doc)\<rparr>"
  have dec: "decode_document data = Inr ?d" using document_decoded [OF assms(2,3)] assms(5-7) by simp
  have ne: "data \<noteq> []" using encode_nonempty [OF assms(2)] .
  note v = validate_decoded [OF assms(4,2,3) dec]
  have step: "load_attempt en mapped selected (hget h field) = and_then (validate_document en ?d mapped) (\<lambda>_. Inr (Ok, project ?d selected, doc_version doc))"
    using assms(1) ne dec by (simp add: load_attempt_def hget_def)
  have bad: "\<exists>message. validate_document en ?d mapped = Inl (Entity_error Internal_error message)" if "validate_document en ?d mapped \<noteq> Inr ()"
    using that by (auto simp: validate_document_def rethrow_def split: sum.splits entity_error.splits)
  show ?thesis
  proof (cases "validate_document en ?d mapped = Inr ()")
    case True
    then show ?thesis using v step by simp
  next
    case False
    then obtain message where "validate_document en ?d mapped = Inl (Entity_error Internal_error message)" using bad by blast
    then show ?thesis using v step False by simp
  qed
qed

end
