(* ===== verification/Job_Queue.thy ===== *)
theory Job_Queue
  imports Prelude "HOL-Library.Multiset"
begin

text \<open>
  The job queue of the database workers (\<^verbatim>\<open>include/templates/job_queue.hpp\<close>) and the state a worker shares with its producers
  (\<open>WorkerState\<close> of \<^verbatim>\<open>include/templates/db_worker_pool.hpp\<close>).  Every operation under the mutex is one function; \<open>enqueue\<close> is three
  steps, since other threads may run between its test of the stop flag, the admission by compare-and-swap and the push.  A job is settled when its
  \<open>fail\<close> was called or the worker has finished with it.  The theory shows that every job is settled exactly once or still on its way, that the
  counter of pending jobs is exact and bounded, that jobs run in the order they entered, and that after a stop no job stays behind.
\<close>

section \<open>JobQueue\<close>

record 'j job_queue =
  jq_jobs :: "'j list"
  jq_running :: bool

definition new_queue :: "'j job_queue" where
  "new_queue = \<lparr>jq_jobs = [], jq_running = True\<rparr>"

text \<open>\<open>push\<close>: the new queue, whether the job was accepted, and the jobs that failed.\<close>

definition queue_push :: "'j \<Rightarrow> 'j job_queue \<Rightarrow> 'j job_queue \<times> bool \<times> ('j \<times> string) list" where
  "queue_push j q =
     (if jq_running q then (q\<lparr>jq_jobs := jq_jobs q @ [j]\<rparr>, True, []) else (q, False, [(j, ''database worker queue is stopped'')]))"

text \<open>\<open>pop\<close> waits until there is a job or the queue has stopped; \<open>None\<close> is the null pointer that tells the worker to leave.\<close>

definition queue_ready :: "'j job_queue \<Rightarrow> bool" where
  "queue_ready q \<longleftrightarrow> jq_jobs q \<noteq> [] \<or> \<not> jq_running q"

definition queue_pop :: "'j job_queue \<Rightarrow> 'j job_queue \<times> 'j option" where
  "queue_pop q = (case jq_jobs q of [] \<Rightarrow> (q, None) | j # js \<Rightarrow> (q\<lparr>jq_jobs := js\<rparr>, Some j))"

definition queue_fail_all :: "string \<Rightarrow> 'j job_queue \<Rightarrow> 'j job_queue \<times> ('j \<times> string) list" where
  "queue_fail_all err q = (q\<lparr>jq_jobs := [], jq_running := False\<rparr>, map (\<lambda>j. (j, err)) (jq_jobs q))"

definition queue_stop :: "'j job_queue \<Rightarrow> 'j job_queue" where
  "queue_stop q = q\<lparr>jq_running := False\<rparr>"

definition queue_stopped :: "'j job_queue \<Rightarrow> bool" where
  "queue_stopped q \<longleftrightarrow> \<not> jq_running q"

section \<open>WorkerState\<close>

text \<open>The counter counts the admitted jobs that are not released; it is the size of the machine, far above the number of jobs in memory.\<close>

record worker_options =
  wo_max_pending :: nat
  wo_fail_pending_on_stop :: bool

record 'j worker_state =
  ws_options :: worker_options
  ws_queue :: "'j job_queue"
  ws_stop_requested :: bool
  ws_pending :: nat

definition new_worker :: "worker_options \<Rightarrow> 'j worker_state" where
  "new_worker options = \<lparr>ws_options = options, ws_queue = new_queue, ws_stop_requested = False, ws_pending = 0\<rparr>"

definition worker_stopped :: "'j worker_state \<Rightarrow> bool" where
  "worker_stopped w \<longleftrightarrow> ws_stop_requested w \<or> queue_stopped (ws_queue w)"

text \<open>The three parts of \<open>enqueue\<close>.  A job that was admitted and is refused by the queue gives its place back when the last reference to it goes.\<close>

definition enqueue_check :: "'j \<Rightarrow> 'j worker_state \<Rightarrow> ('j \<times> string) list" where
  "enqueue_check j w = (if worker_stopped w then [(j, ''database worker queue is stopped'')] else [])"

definition enqueue_admit :: "'j \<Rightarrow> 'j worker_state \<Rightarrow> 'j worker_state \<times> ('j \<times> string) list" where
  "enqueue_admit j w =
     (if wo_max_pending (ws_options w) \<noteq> 0 \<and> ws_pending w \<ge> wo_max_pending (ws_options w)
      then (w, [(j, ''database worker request queue is full'')])
      else (w\<lparr>ws_pending := ws_pending w + 1\<rparr>, []))"

definition enqueue_push :: "'j \<Rightarrow> 'j worker_state \<Rightarrow> 'j worker_state \<times> bool \<times> ('j \<times> string) list" where
  "enqueue_push j w =
     (case queue_push j (ws_queue w) of (q, accepted, failed) \<Rightarrow>
        (w\<lparr>ws_queue := q, ws_pending := (if accepted then ws_pending w else ws_pending w - 1)\<rparr>, accepted, failed))"

definition next_job :: "'j worker_state \<Rightarrow> 'j worker_state \<times> 'j option" where
  "next_job w = (case queue_pop (ws_queue w) of (q, j) \<Rightarrow> (w\<lparr>ws_queue := q\<rparr>, j))"

text \<open>The worker drops its reference to a job.\<close>

definition release_job :: "'j worker_state \<Rightarrow> 'j worker_state" where
  "release_job w = w\<lparr>ws_pending := ws_pending w - 1\<rparr>"

text \<open>The failed jobs leave the queue.  They keep their places until the callbacks have run and the list that holds them is destroyed.\<close>

definition fail_pending :: "string \<Rightarrow> 'j worker_state \<Rightarrow> 'j worker_state \<times> ('j \<times> string) list" where
  "fail_pending err w =
     (case queue_fail_all err (ws_queue w) of (q, failed) \<Rightarrow>
        (w\<lparr>ws_stop_requested := True, ws_queue := q\<rparr>, failed))"

definition stop_worker :: "'j worker_state \<Rightarrow> 'j worker_state \<times> ('j \<times> string) list" where
  "stop_worker w =
     (if wo_fail_pending_on_stop (ws_options w) then fail_pending ''database worker is stopping'' w
      else (w\<lparr>ws_stop_requested := True, ws_queue := queue_stop (ws_queue w)\<rparr>, []))"

section \<open>Threads\<close>

text \<open>Any number of producers and one worker thread.  The ghost components are the producers between the parts of \<open>enqueue\<close>, the jobs that were
  submitted, those that entered the queue and those the worker took, in order, the job it runs, the settled jobs with their error or none, the number of failed jobs
  that still have their place, and whether the worker has left.\<close>

record 'j threads =
  th_worker :: "'j worker_state"
  th_checked :: "'j multiset"
  th_admitted :: "'j multiset"
  th_submitted :: "'j multiset"
  th_entered :: "'j list"
  th_taken :: "'j list"
  th_active :: "'j option"
  th_settled :: "('j \<times> string option) list"
  th_failing :: nat
  th_left :: bool

definition new_threads :: "worker_options \<Rightarrow> 'j threads" where
  "new_threads options = \<lparr>th_worker = new_worker options, th_checked = {#}, th_admitted = {#}, th_submitted = {#}, th_entered = [], th_taken = [],
     th_active = None, th_settled = [], th_failing = 0, th_left = False\<rparr>"

abbreviation settle :: "('j \<times> string) list \<Rightarrow> 'j threads \<Rightarrow> 'j threads" where
  "settle failed s \<equiv> s\<lparr>th_settled := th_settled s @ map (\<lambda>(j, e). (j, Some e)) failed\<rparr>"

text \<open>When the worker function returns or throws, the thread fails what is pending and ends; the destructor of the slot does the same after it.\<close>

inductive thread_step :: "'j threads \<Rightarrow> 'j threads \<Rightarrow> bool" where
  Submit_refused: "enqueue_check j (th_worker s) = failed \<Longrightarrow> failed \<noteq> [] \<Longrightarrow>
    thread_step s (settle failed (s\<lparr>th_submitted := add_mset j (th_submitted s)\<rparr>))"
| Submit: "enqueue_check j (th_worker s) = [] \<Longrightarrow>
    thread_step s (s\<lparr>th_submitted := add_mset j (th_submitted s), th_checked := add_mset j (th_checked s)\<rparr>)"
| Admit: "j \<in># th_checked s \<Longrightarrow> enqueue_admit j (th_worker s) = (w, []) \<Longrightarrow>
    thread_step s (s\<lparr>th_worker := w, th_checked := th_checked s - {#j#}, th_admitted := add_mset j (th_admitted s)\<rparr>)"
| Full: "j \<in># th_checked s \<Longrightarrow> enqueue_admit j (th_worker s) = (w, failed) \<Longrightarrow> failed \<noteq> [] \<Longrightarrow>
    thread_step s (settle failed (s\<lparr>th_worker := w, th_checked := th_checked s - {#j#}\<rparr>))"
| Push: "j \<in># th_admitted s \<Longrightarrow> enqueue_push j (th_worker s) = (w, accepted, failed) \<Longrightarrow>
    thread_step s (settle failed (s\<lparr>th_worker := w, th_admitted := th_admitted s - {#j#},
      th_entered := (if accepted then th_entered s @ [j] else th_entered s)\<rparr>))"
| Take: "\<not> th_left s \<Longrightarrow> th_active s = None \<Longrightarrow> next_job (th_worker s) = (w, Some j) \<Longrightarrow>
    thread_step s (s\<lparr>th_worker := w, th_active := Some j, th_taken := th_taken s @ [j]\<rparr>)"
| Done: "th_active s = Some j \<Longrightarrow>
    thread_step s (s\<lparr>th_worker := release_job (th_worker s), th_active := None, th_settled := th_settled s @ [(j, None)]\<rparr>)"
| Leave: "\<not> th_left s \<Longrightarrow> th_active s = None \<Longrightarrow> fail_pending err (th_worker s) = (w, failed) \<Longrightarrow>
    thread_step s (settle failed (s\<lparr>th_worker := w, th_failing := th_failing s + length failed, th_left := True\<rparr>))"
| Stop: "stop_worker (th_worker s) = (w, failed) \<Longrightarrow> thread_step s (settle failed (s\<lparr>th_worker := w, th_failing := th_failing s + length failed\<rparr>))"
| Fail_pending: "fail_pending err (th_worker s) = (w, failed) \<Longrightarrow> thread_step s (settle failed (s\<lparr>th_worker := w, th_failing := th_failing s + length failed\<rparr>))"
| Give_back: "th_failing s = Suc n \<Longrightarrow> thread_step s (s\<lparr>th_worker := release_job (th_worker s), th_failing := n\<rparr>)"

inductive thread_run :: "worker_options \<Rightarrow> 'j threads \<Rightarrow> bool" for options where
  Begin: "thread_run options (new_threads options)"
| Next: "thread_run options s \<Longrightarrow> thread_step s s' \<Longrightarrow> thread_run options s'"

section \<open>Invariant\<close>

abbreviation active_jobs :: "'j threads \<Rightarrow> 'j multiset" where
  "active_jobs s \<equiv> (case th_active s of None \<Rightarrow> {#} | Some j \<Rightarrow> {#j#})"

abbreviation queued :: "'j threads \<Rightarrow> 'j list" where
  "queued s \<equiv> jq_jobs (ws_queue (th_worker s))"

definition threads_ok :: "worker_options \<Rightarrow> 'j threads \<Rightarrow> bool" where
  "threads_ok options s \<longleftrightarrow>
     ws_options (th_worker s) = options \<and>
     th_submitted s = th_checked s + th_admitted s + mset (queued s) + active_jobs s + mset (map fst (th_settled s)) \<and>
     ws_pending (th_worker s) = size (th_admitted s) + length (queued s) + size (active_jobs s) + th_failing s \<and>
     (wo_max_pending options \<noteq> 0 \<longrightarrow> ws_pending (th_worker s) \<le> wo_max_pending options) \<and>
     (\<exists>dropped. th_entered s = th_taken s @ dropped @ queued s \<and> (jq_running (ws_queue (th_worker s)) \<longrightarrow> dropped = []) \<and> (dropped \<noteq> [] \<longrightarrow> queued s = [])) \<and>
     (ws_stop_requested (th_worker s) \<longleftrightarrow> \<not> jq_running (ws_queue (th_worker s))) \<and>
     (th_left s \<longrightarrow> \<not> jq_running (ws_queue (th_worker s)) \<and> queued s = [] \<and> th_active s = None)"

lemmas worker_defs = enqueue_check_def enqueue_admit_def enqueue_push_def queue_push_def next_job_def queue_pop_def release_job_def
  fail_pending_def queue_fail_all_def stop_worker_def queue_stop_def queue_stopped_def worker_stopped_def

lemma map_fst_settle: "map (fst \<circ> (\<lambda>(j, e). (j, Some e))) failed = map fst failed"
  by (induction failed) auto

lemma fail_pending_threads:
  assumes ok: "threads_ok options s" and f: "fail_pending err (th_worker s) = (w, failed)"
  shows "threads_ok options (settle failed (s\<lparr>th_worker := w, th_failing := th_failing s + length failed\<rparr>)) \<and> jq_jobs (ws_queue w) = [] \<and> \<not> jq_running (ws_queue w)"
proof -
  have w: "w = (th_worker s)\<lparr>ws_stop_requested := True, ws_queue := (ws_queue (th_worker s))\<lparr>jq_jobs := [], jq_running := False\<rparr>\<rparr>" and failed: "failed = map (\<lambda>j. (j, err)) (queued s)"
    using f by (auto simp: worker_defs)
  obtain dropped where d: "th_entered s = th_taken s @ dropped @ queued s" using ok by (auto simp: threads_ok_def)
  have settled: "mset (map fst (th_settled s @ map (\<lambda>(j, e). (j, Some e)) failed)) = mset (map fst (th_settled s)) + mset (queued s)"
    by (simp add: failed comp_def)
  have "length failed = length (queued s)" by (simp add: failed)
  then show ?thesis using ok d settled unfolding threads_ok_def w
    by (auto simp: algebra_simps intro!: exI [of _ "dropped @ queued s"])
qed

lemma thread_step_ok:
  assumes "thread_step s s'" "threads_ok options s"
  shows "threads_ok options s'"
  using assms
proof (cases rule: thread_step.cases)
  case (Submit_refused j failed)
  then show ?thesis using assms(2) by (auto simp: threads_ok_def worker_defs split: if_splits)
next
  case (Submit j)
  then show ?thesis using assms(2) by (auto simp: threads_ok_def)
next
  case (Admit j w)
  then obtain M where M: "th_checked s = add_mset j M" by (metis insert_DiffM)
  then have "w = (th_worker s)\<lparr>ws_pending := ws_pending (th_worker s) + 1\<rparr>" "wo_max_pending (ws_options (th_worker s)) = 0 \<or> ws_pending (th_worker s) < wo_max_pending (ws_options (th_worker s))"
    using Admit(3) by (auto simp: enqueue_admit_def split: if_splits)
  then show ?thesis using Admit(1) assms(2) M unfolding threads_ok_def by (elim conjE) (intro conjI, simp_all, linarith?)
next
  case (Full j w failed)
  then obtain M where M: "th_checked s = add_mset j M" by (metis insert_DiffM)
  then have "w = th_worker s" "failed = [(j, ''database worker request queue is full'')]" using Full(3,4) by (auto simp: enqueue_admit_def split: if_splits)
  then show ?thesis using Full(1) assms(2) M unfolding threads_ok_def by (elim conjE) (intro conjI, simp_all)
next
  case (Push j w accepted failed)
  then obtain M where M: "th_admitted s = add_mset j M" by (metis insert_DiffM)
  show ?thesis
  proof (cases "jq_running (ws_queue (th_worker s))")
    case True
    then have "w = (th_worker s)\<lparr>ws_queue := (ws_queue (th_worker s))\<lparr>jq_jobs := queued s @ [j]\<rparr>\<rparr>" "accepted" "failed = []"
      using Push(3) by (auto simp: enqueue_push_def queue_push_def)
    then show ?thesis using Push(1) assms(2) M True unfolding threads_ok_def by (elim conjE exE) (intro conjI exI [of _ "[]"], simp_all)
  next
    case False
    then have "w = (th_worker s)\<lparr>ws_pending := ws_pending (th_worker s) - 1\<rparr>" "\<not> accepted" "failed = [(j, ''database worker queue is stopped'')]"
      using Push(3) by (auto simp: enqueue_push_def queue_push_def)
    then show ?thesis using Push(1) assms(2) M False unfolding threads_ok_def by (elim conjE) (intro conjI, simp_all, linarith?)
  qed
next
  case (Take w j)
  then obtain js where js: "queued s = j # js" "w = (th_worker s)\<lparr>ws_queue := (ws_queue (th_worker s))\<lparr>jq_jobs := js\<rparr>\<rparr>"
    by (auto simp: worker_defs split: list.splits)
  obtain dropped where d: "th_entered s = th_taken s @ dropped @ queued s" "dropped \<noteq> [] \<longrightarrow> queued s = []"
    using assms(2) by (auto simp: threads_ok_def)
  then show ?thesis using Take js assms(2) by (auto simp: threads_ok_def intro!: exI [of _ "[]"])
next
  case (Done j)
  then show ?thesis using assms(2) by (auto simp: threads_ok_def worker_defs)
next
  case (Leave err w failed)
  then show ?thesis using fail_pending_threads [OF assms(2) Leave(4)] by (auto simp: threads_ok_def)
next
  case (Stop w failed)
  show ?thesis
  proof (cases "wo_fail_pending_on_stop (ws_options (th_worker s))")
    case True
    then show ?thesis using Stop fail_pending_threads [OF assms(2)] by (auto simp: stop_worker_def)
  next
    case False
    then show ?thesis using Stop assms(2) by (auto simp: threads_ok_def worker_defs)
  qed
next
  case (Fail_pending err w failed)
  then show ?thesis using fail_pending_threads [OF assms(2)] by blast
next
  case (Give_back n)
  then show ?thesis using assms(2) by (auto simp: threads_ok_def worker_defs)
qed

lemma new_threads_ok: "threads_ok options (new_threads options)"
  by (simp add: threads_ok_def new_threads_def new_worker_def new_queue_def)

lemma thread_run_ok: "thread_run options s \<Longrightarrow> threads_ok options s"
  by (induction rule: thread_run.induct) (auto intro: thread_step_ok new_threads_ok)

text \<open>C21. In every interleaving of producers, worker and stops, each submitted job is settled exactly once or still on its way; the counter of
  pending jobs is the number of admitted jobs that are not released (jobs that fail at a stop keep their place until their callbacks have run) and never exceeds the limit; the worker takes the jobs in the order in which they
  entered; and when the worker has left and no producer is in the middle of a submission, every job is settled.\<close>

theorem jobs_settled_once:
  assumes "thread_run options s"
  shows "th_submitted s = th_checked s + th_admitted s + mset (queued s) + active_jobs s + mset (map fst (th_settled s)) \<and>
    ws_pending (th_worker s) = size (th_admitted s) + length (queued s) + size (active_jobs s) + th_failing s \<and>
    (wo_max_pending options = 0 \<or> ws_pending (th_worker s) \<le> wo_max_pending options) \<and>
    (\<exists>rest. th_entered s = th_taken s @ rest) \<and>
    (if th_left s \<and> th_checked s = {#} \<and> th_admitted s = {#} then mset (map fst (th_settled s)) = th_submitted s else True)"
  using thread_run_ok [OF assms] unfolding threads_ok_def by auto

definition sample_options :: worker_options where
  "sample_options = \<lparr>wo_max_pending = 1, wo_fail_pending_on_stop = False\<rparr>"

text \<open>A limit of one: the second submission is refused while the first is queued.\<close>

lemma jobs_settled_once_witness:
  "\<exists>s :: nat threads. thread_run sample_options s \<and> th_submitted s = {#1, 2#} \<and> queued s = [1] \<and> mset (map fst (th_settled s)) = {#2#} \<and> ws_pending (th_worker s) = 1"
proof -
  note d = new_threads_def new_worker_def new_queue_def worker_defs sample_options_def
  let ?s0 = "new_threads sample_options :: nat threads"
  have r0: "thread_run sample_options ?s0" by (rule thread_run.Begin)
  define s1 where "s1 = ?s0\<lparr>th_submitted := {#1#}, th_checked := {#1#}\<rparr>"
  have r1: "thread_run sample_options s1" using thread_run.Next [OF r0 thread_step.Submit [of 1]] by (simp add: s1_def d)
  define s2 where "s2 = s1\<lparr>th_submitted := {#2, 1#}, th_checked := {#2, 1#}\<rparr>"
  have r2: "thread_run sample_options s2" using thread_run.Next [OF r1 thread_step.Submit [of 2]] by (simp add: s2_def s1_def d)
  define s3 where "s3 = s2\<lparr>th_worker := (th_worker ?s0)\<lparr>ws_pending := 1\<rparr>, th_checked := {#2#}, th_admitted := {#1#}\<rparr>"
  have r3: "thread_run sample_options s3"
    using thread_run.Next [OF r2 thread_step.Admit [of 1 s2 "(th_worker ?s0)\<lparr>ws_pending := 1\<rparr>"]] by (simp add: s3_def s2_def s1_def d)
  define s4 where "s4 = s3\<lparr>th_checked := {#}, th_settled := [(2, Some ''database worker request queue is full'')]\<rparr>"
  have r4: "thread_run sample_options s4"
    using thread_run.Next [OF r3 thread_step.Full [of 2 s3 "th_worker s3" "[(2, ''database worker request queue is full'')]"]]
    by (simp add: s4_def s3_def s2_def s1_def d)
  define s5 where "s5 = s4\<lparr>th_worker := (th_worker s4)\<lparr>ws_queue := \<lparr>jq_jobs = [1], jq_running = True\<rparr>\<rparr>, th_admitted := {#}, th_entered := [1]\<rparr>"
  have r5: "thread_run sample_options s5"
    using thread_run.Next [OF r4 thread_step.Push [of 1 s4 "th_worker s5" True "[]"]] by (simp add: s5_def s4_def s3_def s2_def s1_def d)
  from jobs_settled_once [OF r5] show ?thesis
    by (intro exI [of _ s5]) (simp add: r5, simp add: s5_def s4_def s3_def s2_def s1_def d)
qed

end
