(* ===== verification/Sql_Statements.thy ===== *)
theory Sql_Statements
  imports Entity_Schema Number_Text
begin

text \<open>
  The SQL dialects and the statement builder of the entity store (\<^verbatim>\<open>include/templates/sql_entity_store_statements.hpp\<close>).  A statement is its text with
  the parameters bound to the placeholders and the fields of the result columns; a builder returns an error text or a statement.  The text that an
  \<open>ostringstream\<close> gives a double and the double that \<open>from_chars\<close> reads are parameters.  The theory shows that no value of a request ever gets into
  the text of a statement, that the placeholders of a text are numbered exactly like its parameters, and that a value read back from its
  parameter text is the value that was written.
\<close>

section \<open>Dialects\<close>

datatype dialect_kind = Sqlite | Mysql | Postgres

definition parse_dialect :: "string \<Rightarrow> dialect_kind option" where
  "parse_dialect name =
     (if name = ''sqlite'' then Some Sqlite else if name = ''mysql'' then Some Mysql
      else if name = ''postgres'' \<or> name = ''postgresql'' then Some Postgres else None)"

record sql_statement =
  st_text :: string
  st_params :: "string list"
  st_result_fields :: "field_schema list"

type_synonym statement_result = "string + sql_statement"

definition empty_statement :: sql_statement where
  "empty_statement = \<lparr>st_text = [], st_params = [], st_result_fields = []\<rparr>"

abbreviation add_text :: "string \<Rightarrow> sql_statement \<Rightarrow> sql_statement" where
  "add_text t out \<equiv> out\<lparr>st_text := st_text out @ t\<rparr>"

text \<open>The loop of \<open>quote\<close> over the parts between the dots.\<close>

function quote_loop :: "char \<Rightarrow> string \<Rightarrow> string \<Rightarrow> string" where
  "quote_loop mark result identifier =
     (let result = (if result \<noteq> [] then result @ ''.'' else result) @ mark # takeWhile (\<lambda>c. c \<noteq> CHR ''.'') identifier @ [mark]
      in case dropWhile (\<lambda>c. c \<noteq> CHR ''.'') identifier of [] \<Rightarrow> result | _ # rest \<Rightarrow> quote_loop mark result rest)"
  by pat_completeness auto

termination
proof (relation "measure (\<lambda>(_, _, t). length t)")
  fix t :: string and c rest
  assume "dropWhile (\<lambda>c. c \<noteq> CHR ''.'') t = c # rest"
  then have "length (c # rest) \<le> length t" by (metis length_dropWhile_le)
  then show "((mark, x, rest), mark, result, t) \<in> measure (\<lambda>(_, _, t). length t)" for mark x result by simp
qed simp

declare quote_loop.simps [simp del]

definition quote :: "dialect_kind \<Rightarrow> string \<Rightarrow> string" where
  "quote d identifier = quote_loop (if d = Mysql then CHR ''`'' else CHR 0x22) [] identifier"

definition placeholder :: "dialect_kind \<Rightarrow> nat \<Rightarrow> string" where
  "placeholder d index = (if d = Postgres then CHR ''$'' # nat_text index else ''?'')"

definition boolean_parameter :: "dialect_kind \<Rightarrow> bool \<Rightarrow> string" where
  "boolean_parameter d b = (if d = Postgres then if b then ''true'' else ''false'' else if b then ''1'' else ''0'')"

definition create_idempotency_table :: "dialect_kind \<Rightarrow> store_schema \<Rightarrow> sql_statement" where
  "create_idempotency_table d store =
     (let text_type = (if d = Mysql then ''LONGTEXT'' else ''TEXT''); key_type = (if d = Mysql then ''VARBINARY(255)'' else ''VARCHAR(255)'')
      in empty_statement\<lparr>st_text :=
           ''CREATE TABLE IF NOT EXISTS '' @ quote d (ss_idempotency_table store) @ '' ('' @ quote d ''request_id'' @ '' '' @ key_type @ '' PRIMARY KEY, ''
           @ quote d ''request_signature'' @ '' '' @ text_type @ '' NOT NULL, '' @ quote d ''result_data'' @ '' '' @ text_type @ '' NOT NULL)''\<rparr>)"

definition reserve_request :: "dialect_kind \<Rightarrow> store_schema \<Rightarrow> string \<Rightarrow> string \<Rightarrow> sql_statement" where
  "reserve_request d store request_id signature =
     (let columns = quote d ''request_id'' @ '', '' @ quote d ''request_signature'' @ '', '' @ quote d ''result_data'';
          prefix = (if d = Mysql then ''INSERT IGNORE INTO '' else ''INSERT INTO '');
          suffix = (if d = Mysql then [] else '' ON CONFLICT ('' @ quote d ''request_id'' @ '') DO NOTHING'')
      in empty_statement\<lparr>st_text := prefix @ quote d (ss_idempotency_table store) @ '' ('' @ columns @ '') VALUES ('' @ placeholder d 1 @ '', ''
           @ placeholder d 2 @ '', '' @ placeholder d 3 @ '')'' @ suffix,
         st_params := [request_id, signature, []]\<rparr>)"

definition load_request_record :: "dialect_kind \<Rightarrow> store_schema \<Rightarrow> string \<Rightarrow> sql_statement" where
  "load_request_record d store request_id =
     empty_statement\<lparr>st_text := ''SELECT '' @ quote d ''request_signature'' @ '', '' @ quote d ''result_data'' @ '' FROM '' @ quote d (ss_idempotency_table store)
        @ '' WHERE '' @ quote d ''request_id'' @ '' = '' @ placeholder d 1,
      st_params := [request_id]\<rparr>"

definition finish_request_record :: "dialect_kind \<Rightarrow> store_schema \<Rightarrow> string \<Rightarrow> string \<Rightarrow> sql_statement" where
  "finish_request_record d store request_id result_data =
     empty_statement\<lparr>st_text := ''UPDATE '' @ quote d (ss_idempotency_table store) @ '' SET '' @ quote d ''result_data'' @ '' = '' @ placeholder d 1
        @ '' WHERE '' @ quote d ''request_id'' @ '' = '' @ placeholder d 2,
      st_params := [result_data, request_id]\<rparr>"

section \<open>The checks of the builder\<close>

definition find_named :: "named_value list \<Rightarrow> string \<Rightarrow> named_value option" where
  "find_named values name = find (\<lambda>v. nv_name v = name) values"

definition numeric :: "value_kind \<Rightarrow> bool" where
  "numeric kind \<longleftrightarrow> kind = Signed_integer \<or> kind = Unsigned_integer \<or> kind = Real \<or> kind = Decimal"

definition compatible :: "value_kind \<Rightarrow> value_kind \<Rightarrow> bool \<Rightarrow> bool" where
  "compatible expected actual increment \<longleftrightarrow>
     (if actual = Null_value then True
      else if increment then numeric expected \<and> numeric actual
      else expected = actual \<or> numeric expected \<and> numeric actual)"

fun check_schema_keys :: "named_value list \<Rightarrow> field_schema list \<Rightarrow> string option" where
  "check_schema_keys key [] = None"
| "check_schema_keys key (expected # rest) =
     (case find_named key (fs_name expected) of
        None \<Rightarrow> Some (''missing entity key: '' @ fs_name expected)
      | Some actual \<Rightarrow>
          if v_kind (nv_data actual) = Null_value \<or> \<not> compatible (fs_kind expected) (v_kind (nv_data actual)) False
          then Some (''invalid key type: '' @ fs_name expected)
          else check_schema_keys key rest)"

definition validate_keys :: "entity_schema \<Rightarrow> entity_ref \<Rightarrow> string option" where
  "validate_keys schema target =
     (if length (er_key target) \<noteq> length (es_keys schema) then Some (''entity key does not match schema: '' @ er_entity target)
      else check_schema_keys (er_key target) (es_keys schema))"

fun validate_patch :: "entity_schema \<Rightarrow> field_patch list \<Rightarrow> string option" where
  "validate_patch schema [] = None"
| "validate_patch schema (change # rest) =
     (case find_writable_field schema (fp_name change) of
        None \<Rightarrow> Some (''unknown or read-only entity field: '' @ fp_name change)
      | Some field \<Rightarrow>
          if (fp_operation change = Erase_op \<or> v_kind (fp_data change) = Null_value) \<and> \<not> fs_nullable field
          then Some (''entity field is not nullable: '' @ fp_name change)
          else if fp_operation change \<noteq> Erase_op \<and> \<not> compatible (fs_kind field) (v_kind (fp_data change)) (fp_operation change = Increment_op)
          then Some (''invalid entity field type: '' @ fp_name change)
          else validate_patch schema rest)"

section \<open>The builder\<close>

definition parameter_text :: "(u64 \<Rightarrow> string) \<Rightarrow> dialect_kind \<Rightarrow> entity_value \<Rightarrow> string" where
  "parameter_text real_out d input =
     (case v_kind input of
        Boolean \<Rightarrow> boolean_parameter d (v_boolean input)
      | Signed_integer \<Rightarrow> int_text (sint (v_signed input))
      | Unsigned_integer \<Rightarrow> int_text (uint (v_unsigned input))
      | Real \<Rightarrow> real_out (v_real input)
      | Decimal \<Rightarrow> v_text input | Text \<Rightarrow> v_text input | Json \<Rightarrow> v_text input
      | Null_value \<Rightarrow> [] | Bytes \<Rightarrow> [])"

definition append_parameter :: "(u64 \<Rightarrow> string) \<Rightarrow> dialect_kind \<Rightarrow> entity_value \<Rightarrow> sql_statement \<Rightarrow> sql_statement" where
  "append_parameter real_out d input out =
     out\<lparr>st_text := st_text out @ placeholder d (length (st_params out) + 1), st_params := st_params out @ [parameter_text real_out d input]\<rparr>"

text \<open>The keys were checked before: every key of the schema is there.\<close>

fun append_where :: "(u64 \<Rightarrow> string) \<Rightarrow> dialect_kind \<Rightarrow> named_value list \<Rightarrow> bool \<Rightarrow> field_schema list \<Rightarrow> sql_statement \<Rightarrow> sql_statement" where
  "append_where real_out d key first [] out = out"
| "append_where real_out d key first (key_schema # rest) out =
     (let out = (if first then out else add_text '' AND '' out); out = add_text (quote d (fs_column key_schema) @ '' = '') out;
          out = (case find_named key (fs_name key_schema) of None \<Rightarrow> out | Some k \<Rightarrow> append_parameter real_out d (nv_data k) out)
      in append_where real_out d key False rest out)"

definition append_version :: "(u64 \<Rightarrow> string) \<Rightarrow> dialect_kind \<Rightarrow> entity_schema \<Rightarrow> entity_patch \<Rightarrow> sql_statement \<Rightarrow> sql_statement" where
  "append_version real_out d schema patch out =
     (if ep_check_version patch
      then append_parameter real_out d (unsigned_value (ep_expected_version patch)) (add_text ('' AND '' @ quote d (es_version_column schema) @ '' = '') out)
      else out)"

text \<open>The fields of a mask, in its order; the first unknown name is the error.\<close>

fun select_fields :: "entity_schema \<Rightarrow> string list \<Rightarrow> string + field_schema list" where
  "select_fields schema [] = Inr []"
| "select_fields schema (name # names) =
     (case find_field schema name of
        None \<Rightarrow> Inl (''unknown entity field: '' @ name)
      | Some field \<Rightarrow> (case select_fields schema names of Inl e \<Rightarrow> Inl e | Inr fs \<Rightarrow> Inr (field # fs)))"

fun column_list :: "dialect_kind \<Rightarrow> bool \<Rightarrow> string list \<Rightarrow> string" where
  "column_list d first [] = []"
| "column_list d first (column # rest) = (if first then [] else '', '') @ quote d column @ column_list d False rest"

definition build_load :: "(u64 \<Rightarrow> string) \<Rightarrow> dialect_kind \<Rightarrow> entity_schema \<Rightarrow> load_request \<Rightarrow> statement_result" where
  "build_load real_out d schema request =
     (case validate_keys schema (lr_target request) of
        Some error \<Rightarrow> Inl error
      | None \<Rightarrow>
          (case (if fm_all_fields (lr_fields request) then Inr (es_fields schema) else select_fields schema (fm_names (lr_fields request))) of
             Inl error \<Rightarrow> Inl error
           | Inr selected \<Rightarrow>
               let out = empty_statement\<lparr>st_text := ''SELECT '' @ column_list d True (map fs_column selected) @ (if selected \<noteq> [] then '', '' else [])
                     @ quote d (es_version_column schema) @ '' FROM '' @ quote d (es_table schema) @ '' WHERE '', st_result_fields := selected\<rparr>
               in Inr (append_where real_out d (er_key (lr_target request)) True (es_keys schema) out)))"

fun append_sets :: "(u64 \<Rightarrow> string) \<Rightarrow> dialect_kind \<Rightarrow> entity_schema \<Rightarrow> bool \<Rightarrow> field_patch list \<Rightarrow> sql_statement \<Rightarrow> sql_statement" where
  "append_sets real_out d schema first [] out = out"
| "append_sets real_out d schema first (change # rest) out =
     (let out = (if first then out else add_text '', '' out);
          column = (case find_writable_field schema (fp_name change) of None \<Rightarrow> [] | Some field \<Rightarrow> quote d (fs_column field));
          out = add_text (column @ '' = '') out;
          out = (if fp_operation change = Erase_op \<or> v_kind (fp_data change) = Null_value then add_text ''NULL'' out
                 else append_parameter real_out d (fp_data change) (if fp_operation change = Increment_op then add_text (column @ '' + '') out else out))
      in append_sets real_out d schema False rest out)"

definition build_update :: "(u64 \<Rightarrow> string) \<Rightarrow> dialect_kind \<Rightarrow> entity_schema \<Rightarrow> entity_patch \<Rightarrow> statement_result" where
  "build_update real_out d schema patch =
     (case validate_keys schema (ep_target patch) of
        Some error \<Rightarrow> Inl error
      | None \<Rightarrow>
          (case validate_patch schema (ep_fields patch) of
             Some error \<Rightarrow> Inl error
           | None \<Rightarrow>
               let out = empty_statement\<lparr>st_text := ''UPDATE '' @ quote d (es_table schema) @ '' SET ''\<rparr>;
                   out = append_sets real_out d schema True (ep_fields patch) out;
                   out = add_text ('', '' @ quote d (es_version_column schema) @ '' = '' @ quote d (es_version_column schema) @ '' + 1 WHERE '') out;
                   out = append_where real_out d (er_key (ep_target patch)) True (es_keys schema) out
               in Inr (append_version real_out d schema patch out)))"

text \<open>The columns of an insertion with their values; a value that is erased or null is the literal \<open>NULL\<close>.\<close>

definition insert_columns :: "entity_schema \<Rightarrow> entity_patch \<Rightarrow> (string \<times> entity_value option) list" where
  "insert_columns schema patch =
     map (\<lambda>key_schema. (fs_column key_schema, map_option nv_data (find_named (er_key (ep_target patch)) (fs_name key_schema)))) (es_keys schema) @
     map (\<lambda>change. (case find_writable_field schema (fp_name change) of None \<Rightarrow> [] | Some field \<Rightarrow> fs_column field,
        if fp_operation change = Erase_op \<or> v_kind (fp_data change) = Null_value then None else Some (fp_data change))) (ep_fields patch)"

fun append_values :: "(u64 \<Rightarrow> string) \<Rightarrow> dialect_kind \<Rightarrow> bool \<Rightarrow> (string \<times> entity_value option) list \<Rightarrow> sql_statement \<Rightarrow> sql_statement" where
  "append_values real_out d first [] out = out"
| "append_values real_out d first ((_, v) # rest) out =
     (let out = (if first then out else add_text '', '' out);
          out = (case v of None \<Rightarrow> add_text ''NULL'' out | Some input \<Rightarrow> append_parameter real_out d input out)
      in append_values real_out d False rest out)"

definition build_insert :: "(u64 \<Rightarrow> string) \<Rightarrow> dialect_kind \<Rightarrow> entity_schema \<Rightarrow> entity_patch \<Rightarrow> statement_result" where
  "build_insert real_out d schema patch =
     (case validate_keys schema (ep_target patch) of
        Some error \<Rightarrow> Inl error
      | None \<Rightarrow>
          (case validate_patch schema (ep_fields patch) of
             Some error \<Rightarrow> Inl error
           | None \<Rightarrow>
               let columns = insert_columns schema patch;
                   out = empty_statement\<lparr>st_text := ''INSERT INTO '' @ quote d (es_table schema) @ '' ('' @ column_list d True (map fst columns)
                     @ (if columns \<noteq> [] then '', '' else []) @ quote d (es_version_column schema) @ '') VALUES (''\<rparr>;
                   out = append_values real_out d True columns out
               in Inr (add_text ((if columns \<noteq> [] then '', '' else []) @ ''1)'') out)))"

definition build_delete :: "(u64 \<Rightarrow> string) \<Rightarrow> dialect_kind \<Rightarrow> entity_schema \<Rightarrow> entity_patch \<Rightarrow> statement_result" where
  "build_delete real_out d schema patch =
     (case validate_keys schema (ep_target patch) of
        Some error \<Rightarrow> Inl error
      | None \<Rightarrow>
          let out = empty_statement\<lparr>st_text := ''DELETE FROM '' @ quote d (es_table schema) @ '' WHERE ''\<rparr>;
              out = append_where real_out d (er_key (ep_target patch)) True (es_keys schema) out
          in Inr (append_version real_out d schema patch out))"

definition build_current_version :: "(u64 \<Rightarrow> string) \<Rightarrow> dialect_kind \<Rightarrow> entity_schema \<Rightarrow> entity_ref \<Rightarrow> statement_result" where
  "build_current_version real_out d schema target =
     (case validate_keys schema target of
        Some error \<Rightarrow> Inl error
      | None \<Rightarrow>
          let out = empty_statement\<lparr>st_text := ''SELECT '' @ quote d (es_version_column schema) @ '' FROM '' @ quote d (es_table schema) @ '' WHERE ''\<rparr>
          in Inr (append_where real_out d (er_key target) True (es_keys schema) out))"

section \<open>Reading a cell\<close>

text \<open>\<open>real_in\<close> gives the double that \<open>from_chars\<close> reads from the whole cell, when it is finite.\<close>

definition decode_cell :: "(string \<Rightarrow> u64 option) \<Rightarrow> string \<Rightarrow> bool \<Rightarrow> field_schema \<Rightarrow> string + entity_value" where
  "decode_cell real_in cell is_null schema =
     (let failed = Inl (''cannot decode field '' @ [CHR 0x27] @ fs_name schema @ [CHR 0x27] @ '' as '' @ value_kind_to_string (fs_kind schema))
      in if is_null then Inr null_value
         else case fs_kind schema of
           Null_value \<Rightarrow> Inr null_value
         | Boolean \<Rightarrow>
             if cell = ''1'' \<or> cell = ''true'' \<or> cell = ''t'' then Inr (boolean_value True)
             else if cell = ''0'' \<or> cell = ''false'' \<or> cell = ''f'' then Inr (boolean_value False) else failed
         | Signed_integer \<Rightarrow> (case from_chars (- (2 ^ 63)) (2 ^ 63 - 1) cell of Some (n, []) \<Rightarrow> Inr (signed_value (of_int n)) | _ \<Rightarrow> failed)
         | Unsigned_integer \<Rightarrow> (case from_chars 0 (2 ^ 64 - 1) cell of Some (n, []) \<Rightarrow> Inr (unsigned_value (of_int n)) | _ \<Rightarrow> failed)
         | Real \<Rightarrow> (case real_in cell of Some x \<Rightarrow> Inr (real_value x) | None \<Rightarrow> failed)
         | Decimal \<Rightarrow> Inr (decimal_value cell) | Text \<Rightarrow> Inr (text_value cell) | Json \<Rightarrow> Inr (json_value cell)
         | Bytes \<Rightarrow> failed)"

section \<open>Texts do not depend on values\<close>

text \<open>What is left of a value, a target and a patch without the values: their kinds, names and operations.\<close>

definition erase_value :: "entity_value \<Rightarrow> entity_value" where
  "erase_value v = null_value\<lparr>v_kind := v_kind v\<rparr>"

definition erase_target :: "entity_ref \<Rightarrow> entity_ref" where
  "erase_target t = t\<lparr>er_key := map (nv_data_update erase_value) (er_key t)\<rparr>"

definition erase_patch :: "entity_patch \<Rightarrow> entity_patch" where
  "erase_patch p = p\<lparr>ep_target := erase_target (ep_target p), ep_fields := map (fp_data_update erase_value) (ep_fields p), ep_expected_version := 0\<rparr>"

definition erase_load :: "load_request \<Rightarrow> load_request" where
  "erase_load r = r\<lparr>lr_target := erase_target (lr_target r)\<rparr>"

definition sql_text :: "statement_result \<Rightarrow> string + string" where
  "sql_text r = map_sum id st_text r"

lemma erase_simps [simp]:
  "v_kind (erase_value v) = v_kind v" "er_key (erase_target t) = map (nv_data_update erase_value) (er_key t)" "er_entity (erase_target t) = er_entity t"
  "ep_target (erase_patch p) = erase_target (ep_target p)" "ep_fields (erase_patch p) = map (fp_data_update erase_value) (ep_fields p)"
  "ep_check_version (erase_patch p) = ep_check_version p" "lr_target (erase_load r) = erase_target (lr_target r)" "lr_fields (erase_load r) = lr_fields r"
  by (simp_all add: erase_value_def erase_target_def erase_patch_def erase_load_def)

text \<open>Two statements under construction with the same text and as many parameters.\<close>

definition alike :: "sql_statement \<Rightarrow> sql_statement \<Rightarrow> bool" where
  "alike a b \<longleftrightarrow> st_text a = st_text b \<and> length (st_params a) = length (st_params b)"

named_theorems alike_intros

lemma alike_refl [alike_intros]: "alike a a"
  by (simp add: alike_def)

lemma alike_add_text [alike_intros]: "alike a b \<Longrightarrow> alike (add_text t a) (add_text t b)"
  by (simp add: alike_def)

lemma alike_parameter [alike_intros]: "alike a b \<Longrightarrow> alike (append_parameter r d v a) (append_parameter r d v' b)"
  by (simp add: alike_def append_parameter_def)

lemma find_named_erase: "find_named (map (nv_data_update erase_value) key) name = map_option (nv_data_update erase_value) (find_named key name)"
  unfolding find_named_def by (induction key) auto

lemma alike_where [alike_intros]: "alike a b \<Longrightarrow> alike (append_where r d key first ks a) (append_where r d (map (nv_data_update erase_value) key) first ks b)"
proof (induction ks arbitrary: first a b)
  case (Cons k ks)
  then show ?case
    by (cases first; cases "find_named key (fs_name k)") (auto simp: find_named_erase Let_def intro!: Cons.IH alike_intros)
qed simp

lemma alike_version [alike_intros]: "alike a b \<Longrightarrow> alike (append_version r d schema p a) (append_version r d schema (erase_patch p) b)"
  by (simp add: append_version_def alike_intros)

lemma alike_sets [alike_intros]: "alike a b \<Longrightarrow> alike (append_sets r d schema first cs a) (append_sets r d schema first (map (fp_data_update erase_value) cs) b)"
proof (induction cs arbitrary: first a b)
  case (Cons c cs)
  then show ?case by (cases first) (auto simp: Let_def intro!: Cons.IH alike_intros)
qed simp

lemma alike_values [alike_intros]:
  "alike a b \<Longrightarrow> alike (append_values r d first cs a) (append_values r d first (map (apsnd (map_option erase_value)) cs) b)"
proof (induction cs arbitrary: first a b)
  case (Cons c cs)
  then show ?case by (cases first; cases c; cases "snd c") (auto simp: Let_def intro!: Cons.IH alike_intros)
qed simp

lemma check_schema_keys_erase: "check_schema_keys (map (nv_data_update erase_value) key) ks = check_schema_keys key ks"
  by (induction key ks rule: check_schema_keys.induct) (auto simp: find_named_erase split: option.splits)

lemma validate_keys_erase: "validate_keys schema (erase_target t) = validate_keys schema t"
  by (simp add: validate_keys_def check_schema_keys_erase)

lemma validate_patch_erase: "validate_patch schema (map (fp_data_update erase_value) cs) = validate_patch schema cs"
  by (induction schema cs rule: validate_patch.induct) (auto split: option.splits)

lemma insert_columns_erase: "insert_columns schema (erase_patch p) = map (apsnd (map_option erase_value)) (insert_columns schema p)"
  by (auto simp: insert_columns_def find_named_erase option.map_comp o_def)

lemmas erase_checks = validate_keys_erase validate_patch_erase insert_columns_erase

lemma alike_text: "alike a b \<Longrightarrow> st_text a = st_text b"
  by (simp add: alike_def)

lemma insert_columns_fst: "map fst (map (apsnd f) cs) = map fst cs"
  by simp

lemma erase_load_text: "sql_text (build_load r d schema q) = sql_text (build_load r d schema (erase_load q))"
  by (auto simp: sql_text_def build_load_def erase_checks Let_def split: option.splits sum.splits intro!: alike_text alike_intros)

lemma erase_current_version: "sql_text (build_current_version r d schema t) = sql_text (build_current_version r d schema (erase_target t))"
  by (auto simp: sql_text_def build_current_version_def erase_checks Let_def split: option.splits intro!: alike_text alike_intros)

lemma erase_delete: "sql_text (build_delete r d schema p) = sql_text (build_delete r d schema (erase_patch p))"
  by (auto simp: sql_text_def build_delete_def erase_checks Let_def split: option.splits intro!: alike_text alike_intros)

lemma erase_update: "sql_text (build_update r d schema p) = sql_text (build_update r d schema (erase_patch p))"
  by (auto simp: sql_text_def build_update_def erase_checks Let_def split: option.splits intro!: alike_text alike_intros)

lemma erase_insert: "sql_text (build_insert r d schema p) = sql_text (build_insert r d schema (erase_patch p))"
  by (auto simp: sql_text_def build_insert_def erase_checks Let_def o_def fun_eq_iff split: option.splits intro!: alike_text alike_intros)

section \<open>Placeholders and parameters\<close>

text \<open>The placeholders a driver finds in a text, by their numbers: the marks \<open>?\<close> count from one, the marks \<open>$n\<close> carry their number.\<close>

fun dollar_marks :: "string \<Rightarrow> nat list" where
  "dollar_marks [] = []"
| "dollar_marks (c # cs) = (if c = CHR ''$'' then num (takeWhile is_digit cs) # dollar_marks cs else dollar_marks cs)"

definition marks :: "dialect_kind \<Rightarrow> string \<Rightarrow> nat list" where
  "marks d t = (if d = Postgres then dollar_marks t else [1..<Suc (count_list t (CHR ''?''))])"

definition bound :: "dialect_kind \<Rightarrow> sql_statement \<Rightarrow> bool" where
  "bound d out \<longleftrightarrow> marks d (st_text out) = [1..<Suc (length (st_params out))]"

text \<open>A piece of text without a mark that does not continue a number.\<close>

definition plain :: "string \<Rightarrow> bool" where
  "plain t \<longleftrightarrow> CHR ''?'' \<notin> set t \<and> CHR ''$'' \<notin> set t \<and> (t = [] \<or> \<not> is_digit (hd t))"

lemma takeWhile_append_stop: "t = [] \<or> \<not> P (hd t) \<Longrightarrow> takeWhile P (s @ t) = takeWhile P s"
  by (induction s) (cases t; auto)+

lemma dollar_marks_append: "t = [] \<or> \<not> is_digit (hd t) \<Longrightarrow> dollar_marks (s @ t) = dollar_marks s @ dollar_marks t"
  by (induction s) (auto simp: takeWhile_append_stop)

lemma dollar_marks_none: "CHR ''$'' \<notin> set t \<Longrightarrow> dollar_marks t = []"
  by (induction t) auto

lemma count_none: "c \<notin> set t \<Longrightarrow> count_list t c = 0"
  by (induction t) auto

lemma upt_Suc_eq: "[1..<Suc a] = [1..<Suc b] \<longleftrightarrow> a = b"
  by (metis diff_Suc_1 length_upt)

lemma bound_iff: "bound d out \<longleftrightarrow>
    (if d = Postgres then dollar_marks (st_text out) = [1..<Suc (length (st_params out))] else count_list (st_text out) (CHR ''?'') = length (st_params out))"
  by (simp only: bound_def marks_def upt_Suc_eq if_distrib if_bool_eq_conj) (simp del: upt_Suc add: upt_Suc_eq [simplified])

named_theorems bound_intros

lemma bound_text [bound_intros]: "bound d out \<Longrightarrow> plain t \<Longrightarrow> bound d (add_text t out)"
  by (auto simp: bound_iff plain_def dollar_marks_append dollar_marks_none count_none simp del: upt_Suc)

lemma bound_start [bound_intros]: "plain t \<Longrightarrow> bound d (empty_statement\<lparr>st_text := t, st_result_fields := fs\<rparr>)" "plain t \<Longrightarrow> bound d (empty_statement\<lparr>st_text := t\<rparr>)"
  by (auto simp: bound_iff plain_def empty_statement_def dollar_marks_none count_none)

lemma dollar_marks_number: "dollar_marks (CHR ''$'' # nat_text n) = [n]"
proof -
  have "CHR ''$'' \<notin> set (nat_text n)" "takeWhile is_digit (nat_text n) = nat_text n"
    using nat_text_digits [of n] by (auto simp: takeWhile_eq_all_conv is_digit_nat)
  then show ?thesis using dollar_marks_none [of "nat_text n"] by (simp only: dollar_marks.simps if_True num_nat_text refl simp_thms)
qed

lemma bound_parameter [bound_intros]: "bound d out \<Longrightarrow> bound d (append_parameter r d v out)"
  unfolding bound_iff append_parameter_def placeholder_def
  by (cases "d = Postgres") (auto simp: dollar_marks_append dollar_marks_number is_digit_nat simp del: dollar_marks.simps)

lemma plain_append [simp, intro]: "plain s \<Longrightarrow> s \<noteq> [] \<Longrightarrow> CHR ''?'' \<notin> set t \<Longrightarrow> CHR ''$'' \<notin> set t \<Longrightarrow> plain (s @ t)"
  by (auto simp: plain_def)

text \<open>Quoted identifiers.\<close>

lemma quote_loop_step:
  "dropWhile (\<lambda>c. c \<noteq> CHR ''.'') t = [] \<Longrightarrow>
     quote_loop mark result t = (if result \<noteq> [] then result @ ''.'' else result) @ mark # takeWhile (\<lambda>c. c \<noteq> CHR ''.'') t @ [mark]"
  "dropWhile (\<lambda>c. c \<noteq> CHR ''.'') t = a # rest \<Longrightarrow>
     quote_loop mark result t = quote_loop mark ((if result \<noteq> [] then result @ ''.'' else result) @ mark # takeWhile (\<lambda>c. c \<noteq> CHR ''.'') t @ [mark]) rest"
  by (subst quote_loop.simps, simp only: Let_def list.case)+

lemma quote_loop_chars: "c \<in> set (quote_loop mark result t) \<Longrightarrow> c \<in> set result \<or> c = mark \<or> c = CHR ''.'' \<or> c \<in> set t"
proof (induction t arbitrary: result rule: length_induct)
  case (1 t)
  have p: "set (takeWhile (\<lambda>c. c \<noteq> CHR ''.'') t) \<subseteq> set t" by (auto dest: set_takeWhileD)
  show ?case
  proof (cases "dropWhile (\<lambda>c. c \<noteq> CHR ''.'') t")
    case Nil
    then show ?thesis using "1.prems" p unfolding quote_loop_step(1) [OF Nil] by (auto split: if_splits)
  next
    case (Cons a rest)
    have "set (a # rest) \<subseteq> set t" unfolding Cons [symmetric] by (auto dest: set_dropWhileD)
    moreover have "length rest < length t" using arg_cong [OF Cons, of length] length_dropWhile_le [of _ t] by (metis Suc_le_eq length_Cons)
    ultimately show ?thesis using "1.IH" "1.prems" p unfolding quote_loop_step(2) [OF Cons] by (fastforce split: if_splits)
  qed
qed

lemma quote_loop_head: "result = [] \<or> hd result = mark \<Longrightarrow> quote_loop mark result t \<noteq> [] \<and> hd (quote_loop mark result t) = mark"
proof (induction t arbitrary: result rule: length_induct)
  case (1 t)
  show ?case
  proof (cases "dropWhile (\<lambda>c. c \<noteq> CHR ''.'') t")
    case Nil
    then show ?thesis using "1.prems" unfolding quote_loop_step(1) [OF Nil] by auto
  next
    case (Cons a rest)
    have "length rest < length t" using arg_cong [OF Cons, of length] length_dropWhile_le [of _ t] by (metis Suc_le_eq length_Cons)
    then show ?thesis using "1.IH" "1.prems" unfolding quote_loop_step(2) [OF Cons] by auto
  qed
qed

lemma identifier_marks: "valid_identifier_part t \<Longrightarrow> CHR ''?'' \<notin> set t \<and> CHR ''$'' \<notin> set t"
  by (auto simp: valid_identifier_part_def isalnum_def isalpha_def in_range_def less_eq_char_def)

lemma qualified_marks: "valid_qualified_identifier t \<Longrightarrow> CHR ''?'' \<notin> set t \<and> CHR ''$'' \<notin> set t"
  using qualified_identifier_chars [of t "CHR ''?''"] qualified_identifier_chars [of t "CHR ''$''"]
  by (auto simp: isalnum_def isalpha_def in_range_def less_eq_char_def)

lemma plain_quote:
  assumes "CHR ''?'' \<notin> set t \<and> CHR ''$'' \<notin> set t"
  shows "plain (quote d t)" "quote d t \<noteq> []" "CHR ''?'' \<notin> set (quote d t)" "CHR ''$'' \<notin> set (quote d t)"
proof -
  let ?m = "if d = Mysql then CHR ''`'' else CHR 0x22"
  have h: "quote d t \<noteq> []" "hd (quote d t) = ?m" using quote_loop_head [of "[]" ?m t] by (auto simp: quote_def)
  have c: "c = ?m \<or> c = CHR ''.'' \<or> c \<in> set t" if "c \<in> set (quote d t)" for c
    using that quote_loop_chars [of c ?m "[]" t] by (auto simp: quote_def)
  show n: "CHR ''?'' \<notin> set (quote d t)" "CHR ''$'' \<notin> set (quote d t)" using c [of "CHR ''?''"] c [of "CHR ''$''"] assms by (auto split: if_splits)
  show "quote d t \<noteq> []" by (rule h)
  show "plain (quote d t)" using h n by (auto simp: plain_def is_digit_nat split: if_splits)
qed

definition columns_ok :: "string list \<Rightarrow> bool" where
  "columns_ok cs \<longleftrightarrow> (\<forall>c \<in> set cs. CHR ''?'' \<notin> set c \<and> CHR ''$'' \<notin> set c)"

lemma column_list_marks: "columns_ok cs \<Longrightarrow> CHR ''?'' \<notin> set (column_list d first cs) \<and> CHR ''$'' \<notin> set (column_list d first cs)"
  by (induction d first cs rule: column_list.induct) (auto simp: columns_ok_def plain_quote)

lemma plain_literal: "CHR ''?'' \<notin> set t \<Longrightarrow> CHR ''$'' \<notin> set t \<Longrightarrow> t \<noteq> [] \<Longrightarrow> \<not> is_digit (hd t) \<Longrightarrow> plain t"
  by (simp add: plain_def)

lemma bound_where [bound_intros]:
  "bound d out \<Longrightarrow> columns_ok (map fs_column ks) \<Longrightarrow> bound d (append_where r d key first ks out)"
proof (induction ks arbitrary: first out)
  case (Cons k ks)
  have q: "CHR ''?'' \<notin> set (fs_column k) \<and> CHR ''$'' \<notin> set (fs_column k)" "columns_ok (map fs_column ks)" using Cons.prems(2) by (auto simp: columns_ok_def)
  note p = plain_quote [OF q(1), of d]
  have "plain ('' AND '' @ quote d (fs_column k) @ '' = '')" "plain (quote d (fs_column k) @ '' = '')"
    using p by (auto intro!: plain_literal simp: is_digit_nat)
  then have "bound d (add_text (quote d (fs_column k) @ '' = '') (if first then out else add_text '' AND '' out))"
    using Cons.prems(1) bound_text [OF Cons.prems(1)] by auto
  then show ?case using Cons.IH [OF _ q(2)] by (cases "find_named key (fs_name k)") (auto simp: Let_def bound_intros)
qed simp

lemma bound_version [bound_intros]:
  assumes "bound d out" "CHR ''?'' \<notin> set (es_version_column schema) \<and> CHR ''$'' \<notin> set (es_version_column schema)"
  shows "bound d (append_version r d schema p out)"
  using assms(1) plain_quote [OF assms(2), of d] unfolding append_version_def
  by (auto intro!: bound_intros plain_literal simp: is_digit_nat)

lemma entity_marks:
  assumes "entity_ok allow_binary schema"
  shows "CHR ''?'' \<notin> set (es_table schema) \<and> CHR ''$'' \<notin> set (es_table schema)"
    "CHR ''?'' \<notin> set (es_version_column schema) \<and> CHR ''$'' \<notin> set (es_version_column schema)"
    "columns_ok (map fs_column (es_keys schema))" "columns_ok (map fs_column (es_fields schema))" 
  using assms qualified_marks [of "es_table schema"] identifier_marks [of "es_version_column schema"]
  by (auto simp: entity_ok_def columns_ok_def field_ok_def dest!: identifier_marks)

lemma field_marks:
  assumes "entity_ok allow_binary schema" "find_field schema n = Some f \<or> find_writable_field schema n = Some f"
  shows "CHR ''?'' \<notin> set (fs_column f) \<and> CHR ''$'' \<notin> set (fs_column f)"
proof -
  have "f \<in> set (es_keys schema) \<union> set (es_fields schema)"
    using assms(2) by (auto simp: find_field_def find_writable_field_def find_key_def dest: schema_find_Some split: option.splits if_splits)
  then show ?thesis using entity_marks(3, 4) [OF assms(1)] by (auto simp: columns_ok_def)
qed

lemma bound_sets:
  "entity_ok allow_binary schema \<Longrightarrow> validate_patch schema cs = None \<Longrightarrow> bound d out \<Longrightarrow> bound d (append_sets r d schema first cs out)"
proof (induction cs arbitrary: first out)
  case (Cons c cs)
  then obtain f where f: "find_writable_field schema (fp_name c) = Some f" "validate_patch schema cs = None" by (auto split: option.splits if_splits)
  note p = plain_quote [OF field_marks [OF Cons.prems(1) disjI2 [OF f(1)]], of d]
  have pieces: "plain ('', '' @ quote d (fs_column f) @ '' = '')" "plain (quote d (fs_column f) @ '' = '')" "plain (quote d (fs_column f) @ '' + '')" "plain ''NULL''"
    using p by (auto intro!: plain_literal simp: is_digit_nat)
  define o' where "o' = add_text (quote d (fs_column f) @ '' = '') (if first then out else add_text '', '' out)"
  have o: "bound d o'" unfolding o'_def using bound_text [OF Cons.prems(3)] pieces by auto
  have "append_sets r d schema first (c # cs) out = append_sets r d schema False cs
      (if fp_operation c = Erase_op \<or> v_kind (fp_data c) = Null_value then add_text ''NULL'' o'
       else append_parameter r d (fp_data c) (if fp_operation c = Increment_op then add_text (quote d (fs_column f) @ '' + '') o' else o'))"
    by (simp only: append_sets.simps Let_def f(1) option.case o'_def)
  then show ?case
    using Cons.IH [OF Cons.prems(1) f(2)] bound_text [OF o pieces(3)] bound_text [OF o pieces(4)] o by (auto simp: bound_intros)
qed simp

lemma bound_values: "bound d out \<Longrightarrow> bound d (append_values r d first cs out)"
proof (induction cs arbitrary: first out)
  case (Cons c cs)
  have pieces: "plain '', ''" "plain '', NULL''" "plain ''NULL''" by (auto intro!: plain_literal simp: is_digit_nat)
  show ?case using Cons.IH Cons.prems pieces by (cases first; cases c; cases "snd c") (auto simp: Let_def bound_intros)
qed simp

lemma select_fields_Inr: "select_fields schema names = Inr fs \<Longrightarrow> f \<in> set fs \<Longrightarrow> \<exists>n. find_field schema n = Some f"
  by (induction schema names arbitrary: fs rule: select_fields.induct) (auto split: option.splits sum.splits)

lemma bound_load:
  assumes "entity_ok allow_binary schema" "build_load r d schema q = Inr st"
  shows "bound d st"
proof -
  note e = entity_marks [OF assms(1)]
  obtain fs where fs: "(if fm_all_fields (lr_fields q) then Inr (es_fields schema) else select_fields schema (fm_names (lr_fields q))) = Inr fs"
    "st = append_where r d (er_key (lr_target q)) True (es_keys schema)
      (empty_statement\<lparr>st_text := ''SELECT '' @ column_list d True (map fs_column fs) @ (if fs \<noteq> [] then '', '' else [])
                     @ quote d (es_version_column schema) @ '' FROM '' @ quote d (es_table schema) @ '' WHERE '', st_result_fields := fs\<rparr>)"
    using assms(2) by (auto simp: build_load_def Let_def split: option.splits sum.splits)
  have "columns_ok (map fs_column fs)"
    using fs(1) e(4) field_marks [OF assms(1)] by (auto simp: columns_ok_def split: if_splits dest!: select_fields_Inr)
  note c = column_list_marks [OF this, of d True]
  show ?thesis unfolding fs(2)
    by (intro bound_intros plain_literal e(3)) (use c plain_quote [OF e(1), of d] plain_quote [OF e(2), of d] in \<open>auto simp: is_digit_nat\<close>)
qed

lemma bound_update:
  assumes "entity_ok allow_binary schema" "build_update r d schema p = Inr st"
  shows "bound d st"
proof -
  note e = entity_marks [OF assms(1)] and q = plain_quote [OF entity_marks(1) [OF assms(1)], of d] plain_quote [OF entity_marks(2) [OF assms(1)], of d]
  have v: "validate_patch schema (ep_fields p) = None" using assms(2) by (auto simp: build_update_def split: option.splits)
  have "bound d (empty_statement\<lparr>st_text := ''UPDATE '' @ quote d (es_table schema) @ '' SET ''\<rparr>)"
    by (intro bound_intros plain_literal) (use q in \<open>auto simp: is_digit_nat\<close>)
  note s = bound_sets [OF assms(1) v this, of r True]
  have "plain ('', '' @ quote d (es_version_column schema) @ '' = '' @ quote d (es_version_column schema) @ '' + 1 WHERE '')"
    by (intro plain_literal) (use q in \<open>auto simp: is_digit_nat\<close>)
  note w = bound_version [OF bound_where [OF bound_text [OF s this] e(3)] e(2)]
  show ?thesis using assms(2) v w by (auto simp: build_update_def Let_def split: option.splits)
qed

lemma bound_insert:
  assumes "entity_ok allow_binary schema" "es_keys schema \<noteq> []" "build_insert r d schema p = Inr st"
  shows "bound d st"
proof -
  note e = entity_marks [OF assms(1)] and q = plain_quote [OF entity_marks(1) [OF assms(1)], of d] plain_quote [OF entity_marks(2) [OF assms(1)], of d]
  let ?cs = "insert_columns schema p"
  have v: "validate_patch schema (ep_fields p) = None" using assms(3) by (auto simp: build_insert_def split: option.splits)
  have ne: "?cs \<noteq> []" using assms(2) by (simp add: insert_columns_def)
  have "columns_ok (map fst ?cs)"
    using e(3) by (auto simp: columns_ok_def insert_columns_def split: option.splits dest: field_marks [OF assms(1) disjI2 [OF sym]])
  note c = column_list_marks [OF this, of d True]
  have "bound d (empty_statement\<lparr>st_text := ''INSERT INTO '' @ quote d (es_table schema) @ '' ('' @ column_list d True (map fst ?cs)
                     @ (if ?cs \<noteq> [] then '', '' else []) @ quote d (es_version_column schema) @ '') VALUES (''\<rparr>)"
    by (intro bound_intros plain_literal) (use q c in \<open>auto simp: is_digit_nat\<close>)
  note s = bound_text [OF bound_values [OF this, of r True ?cs], of "'', 1)''"]
  have "plain '', 1)''" by (intro plain_literal) (auto simp: is_digit_nat)
  then show ?thesis using assms(3) v s ne by (auto simp: build_insert_def Let_def split: option.splits)
qed

lemma bound_delete:
  assumes "entity_ok allow_binary schema" "build_delete r d schema p = Inr st"
  shows "bound d st"
proof -
  note e = entity_marks [OF assms(1)] and q = plain_quote [OF entity_marks(1) [OF assms(1)], of d]
  have "bound d (empty_statement\<lparr>st_text := ''DELETE FROM '' @ quote d (es_table schema) @ '' WHERE ''\<rparr>)"
    by (intro bound_intros plain_literal) (use q in \<open>auto simp: is_digit_nat\<close>)
  note w = bound_version [OF bound_where [OF this e(3)] e(2)]
  show ?thesis using assms(2) w by (auto simp: build_delete_def Let_def split: option.splits)
qed

lemma bound_current_version:
  assumes "entity_ok allow_binary schema" "build_current_version r d schema t = Inr st"
  shows "bound d st"
proof -
  note e = entity_marks [OF assms(1)] and q = plain_quote [OF entity_marks(1) [OF assms(1)], of d] plain_quote [OF entity_marks(2) [OF assms(1)], of d]
  have "bound d (empty_statement\<lparr>st_text := ''SELECT '' @ quote d (es_version_column schema) @ '' FROM '' @ quote d (es_table schema) @ '' WHERE ''\<rparr>)"
    by (intro bound_intros plain_literal) (use q in \<open>auto simp: is_digit_nat\<close>)
  note w = bound_where [OF this e(3)]
  show ?thesis using assms(2) w by (auto simp: build_current_version_def Let_def split: option.splits)
qed

section \<open>Properties\<close>

text \<open>C17. No value of a request reaches the text of a statement.  The text that a builder produces, or its error, is the one it produces for the request with
  all values erased: only names that the schema knows, kinds and operations matter.  Values travel as parameters alone.\<close>

theorem values_not_in_text:
  "sql_text (build_load r d schema q) = sql_text (build_load r d schema (erase_load q)) \<and>
   sql_text (build_update r d schema p) = sql_text (build_update r d schema (erase_patch p)) \<and>
   sql_text (build_insert r d schema p) = sql_text (build_insert r d schema (erase_patch p)) \<and>
   sql_text (build_delete r d schema p) = sql_text (build_delete r d schema (erase_patch p)) \<and>
   sql_text (build_current_version r d schema t) = sql_text (build_current_version r d schema (erase_target t))"
  by (intro conjI erase_load_text erase_update erase_insert erase_delete erase_current_version)

text \<open>C23. Every statement of an accepted schema binds its parameters: the placeholders in its text are numbered one, two and so on, as many as there
  are parameters, in each dialect.\<close>

theorem placeholders_match_parameters:
  assumes "validate_entity allow_binary schema = None" "es_keys schema \<noteq> []"
    "build_load r d schema q = Inr st \<or> build_update r d schema p = Inr st \<or> build_insert r d schema p = Inr st \<or> build_delete r d schema p = Inr st \<or>
     build_current_version r d schema t = Inr st"
  shows "marks d (st_text st) = [1..<Suc (length (st_params st))]"
proof -
  have ok: "entity_ok allow_binary schema" using assms(1) by (simp add: validate_entity_None)
  have "bound d st" using assms(3) bound_load [OF ok] bound_update [OF ok] bound_insert [OF ok assms(2)] bound_delete [OF ok] bound_current_version [OF ok] by blast
  then show ?thesis by (simp add: bound_def)
qed

lemma sample_update:
  "\<exists>st. build_update r Postgres sample_entity (sample_change ''a'' Update 3) = Inr st \<and> length (st_params st) = 3"
  by (simp add: build_update_def sample_entity_def sample_change_def sample_field_def validate_keys_def find_named_def compatible_def text_value_def signed_value_def
      null_value_def find_writable_field_def schema_find_def append_version_def append_parameter_def empty_statement_def)

lemma sample_entity_valid: "validate_entity False sample_entity = None"
  by code_simp

lemma placeholders_match_parameters_witness:
  "\<exists>st. build_update (\<lambda>_. []) Postgres sample_entity (sample_change ''a'' Update 3) = Inr st \<and> marks Postgres (st_text st) = [1, 2, 3]"
proof -
  obtain st where st: "build_update (\<lambda>_. []) Postgres sample_entity (sample_change ''a'' Update 3) = Inr st" "length (st_params st) = 3"
    using sample_update by blast
  have "es_keys sample_entity \<noteq> []" by (simp add: sample_entity_def)
  from placeholders_match_parameters [OF sample_entity_valid this disjI2 [OF disjI1 [OF st(1)]]]
  show ?thesis using st by (auto simp: upt_rec)
qed

text \<open>A value with nothing but the member of its kind.\<close>

definition own_member :: "entity_value \<Rightarrow> entity_value" where
  "own_member v =
     (case v_kind v of Null_value \<Rightarrow> null_value | Boolean \<Rightarrow> boolean_value (v_boolean v) | Signed_integer \<Rightarrow> signed_value (v_signed v)
      | Unsigned_integer \<Rightarrow> unsigned_value (v_unsigned v) | Real \<Rightarrow> real_value (v_real v) | Decimal \<Rightarrow> decimal_value (v_text v) | Text \<Rightarrow> text_value (v_text v)
      | Json \<Rightarrow> json_value (v_text v) | Bytes \<Rightarrow> bytes_value (v_bytes v))"

lemma sint_range: "- (2 ^ 63) \<le> sint (x :: u64)" "sint x \<le> 2 ^ 63 - 1" "0 \<le> uint x" "uint x \<le> 2 ^ 64 - 1"
  using sint_ge [of x] sint_lt [of x] unsigned_less [of x, where ?'a = int] by simp_all

text \<open>A value is read back as it was written: the text of its parameter, decoded as a cell of a field of its kind, gives the value, in every dialect and for
  every kind a column can have.  For doubles the text must determine the number, which 17 significant digits do.\<close>

theorem cell_roundtrip:
  assumes "v_kind v = fs_kind schema" "v_kind v \<noteq> Null_value" "v_kind v \<noteq> Bytes" "v_kind v = Real \<longrightarrow> real_in (real_out (v_real v)) = Some (v_real v)"
  shows "decode_cell real_in (parameter_text real_out d v) False schema = Inr (own_member v)"
proof (cases "v_kind v")
  case Signed_integer
  then show ?thesis using assms(1) sint_range [of "v_signed v"]
    by (simp add: decode_cell_def parameter_text_def own_member_def from_chars_int_text Let_def)
next
  case Unsigned_integer
  then show ?thesis using assms(1) sint_range [of "v_unsigned v"]
    by (simp add: decode_cell_def parameter_text_def own_member_def from_chars_int_text Let_def)
next
  case Boolean
  then show ?thesis using assms(1) by (simp add: decode_cell_def parameter_text_def own_member_def boolean_parameter_def Let_def)
qed (use assms in \<open>simp_all add: decode_cell_def parameter_text_def own_member_def Let_def\<close>)

end
