(* ===== verification/Sql_Record.thy ===== *)
theory Sql_Record
  imports Sql_Statements
begin

text \<open>
  What the SQL entity store keeps about a request to make it idempotent (\<open>entity_store_actor\<close> of \<^verbatim>\<open>include/templates/sql_entity_store_actor.hpp\<close>): the
  signature of the request and the versions of its result.  The theory shows that the signature determines the content of a request and that the
  versions are read back as they were stored.
\<close>

section \<open>The signature of a request\<close>

definition sig_token :: "string \<Rightarrow> string" where
  "sig_token v = nat_text (length v) @ '':'' @ v"

definition byte_text :: "bytes \<Rightarrow> string" where
  "byte_text bs = map (\<lambda>b. char_of (unat b)) bs"

definition sig_value :: "(u64 \<Rightarrow> string) \<Rightarrow> entity_value \<Rightarrow> string" where
  "sig_value real_out item =
     sig_token (nat_text (unat (kind_number (v_kind item)))) @
     (case v_kind item of
        Null_value \<Rightarrow> sig_token []
      | Boolean \<Rightarrow> sig_token (if v_boolean item then ''1'' else ''0'')
      | Signed_integer \<Rightarrow> sig_token (int_text (sint (v_signed item)))
      | Unsigned_integer \<Rightarrow> sig_token (nat_text (unat (v_unsigned item)))
      | Real \<Rightarrow> sig_token (real_out (v_real item))
      | Decimal \<Rightarrow> sig_token (v_text item) | Text \<Rightarrow> sig_token (v_text item) | Json \<Rightarrow> sig_token (v_text item)
      | Bytes \<Rightarrow> sig_token (byte_text (v_bytes item)))"

definition sig_key :: "(u64 \<Rightarrow> string) \<Rightarrow> named_value \<Rightarrow> string" where
  "sig_key real_out key = sig_token (nv_name key) @ sig_value real_out (nv_data key)"

definition sig_field :: "(u64 \<Rightarrow> string) \<Rightarrow> field_patch \<Rightarrow> string" where
  "sig_field real_out field =
     sig_token (nat_text (unat (patch_op_number (fp_operation field)))) @ sig_token (fp_name field) @ sig_value real_out (fp_data field)"

definition sig_change :: "(u64 \<Rightarrow> string) \<Rightarrow> entity_patch \<Rightarrow> string" where
  "sig_change real_out change =
     (let target = ep_target change
      in sig_token (er_store target) @ sig_token (er_partition target) @ sig_token (er_entity target) @
         sig_token (nat_text (length (er_key target))) @ concat (map (sig_key real_out) (er_key target)) @
         sig_token (if ep_create_if_missing change then ''1'' else ''0'') @ sig_token (if ep_check_version change then ''1'' else ''0'') @
         sig_token (nat_text (unat (ep_expected_version change))) @
         sig_token (nat_text (length (ep_fields change))) @ concat (map (sig_field real_out) (ep_fields change)))"

definition request_signature :: "(u64 \<Rightarrow> string) \<Rightarrow> save_request \<Rightarrow> string" where
  "request_signature real_out request =
     (let changes = sr_changes request
      in sig_token (nat_text (length changes)) @ concat (map (sig_change real_out) changes) @
         (if \<exists>x \<in> set changes. ep_operation x \<noteq> Legacy_patch
          then sig_token ''strict-crud-v1'' @ concat (map (\<lambda>x. sig_token (nat_text (unat (entity_operation_number (ep_operation x))))) changes) else []))"

section \<open>The versions of a result\<close>

definition parse_uint64 :: "string \<Rightarrow> u64 option" where
  "parse_uint64 text = (case from_chars 0 (2 ^ 64 - 1) text of Some (v, []) \<Rightarrow> Some (word_of_int v) | _ \<Rightarrow> None)"

fun encode_loop :: "bool \<Rightarrow> u64 list \<Rightarrow> string" where
  "encode_loop first [] = []"
| "encode_loop first (v # vs) = (if first then [] else '','') @ nat_text (unat v) @ encode_loop False vs"

definition encode_versions :: "u64 list \<Rightarrow> string" where
  "encode_versions versions = encode_loop True versions"

text \<open>The rest of the text from \<open>begin\<close> on and the versions read; the loop ends as soon as there are as many versions as expected.\<close>

function decode_loop :: "nat \<Rightarrow> string \<Rightarrow> u64 list \<Rightarrow> u64 list option" where
  "decode_loop expected rest output =
     (if length output < expected
      then let part = takeWhile (\<lambda>c. c \<noteq> CHR '','') rest
           in if part = [] then None
              else case parse_uint64 part of
                None \<Rightarrow> None
              | Some version \<Rightarrow>
                  (case dropWhile (\<lambda>c. c \<noteq> CHR '','') rest of
                     [] \<Rightarrow> if length (output @ [version]) = expected then Some (output @ [version]) else None
                   | _ # rest' \<Rightarrow> decode_loop expected rest' (output @ [version]))
      else None)"
  by pat_completeness auto

termination
  by (relation "measure (\<lambda>(expected, rest, output). expected - length output)") auto

declare decode_loop.simps [simp del]

definition decode_versions :: "string \<Rightarrow> nat \<Rightarrow> u64 list option" where
  "decode_versions text expected = decode_loop expected text []"

section \<open>Signatures are unambiguous\<close>

lemma nat_text_inj: "nat_text m = nat_text n \<longleftrightarrow> m = n"
  by (metis num_nat_text)

lemma nat_text_split: "takeWhile is_digit (nat_text n @ CHR '':'' # r) = nat_text n" "dropWhile is_digit (nat_text n @ CHR '':'' # r) = CHR '':'' # r"
proof -
  have "\<not> is_digit (CHR '':'')" by (simp add: is_digit_nat)
  then show "takeWhile is_digit (nat_text n @ CHR '':'' # r) = nat_text n" "dropWhile is_digit (nat_text n @ CHR '':'' # r) = CHR '':'' # r"
    using nat_text_digits [of n] by (simp_all add: takeWhile_append2 dropWhile_append2)
qed

lemma sig_token_prefix: "sig_token x @ r = sig_token y @ r' \<longleftrightarrow> x = y \<and> r = r'"
proof
  assume "sig_token x @ r = sig_token y @ r'"
  then have eq: "nat_text (length x) @ CHR '':'' # x @ r = nat_text (length y) @ CHR '':'' # y @ r'" by (simp add: sig_token_def)
  from arg_cong [OF eq, of "takeWhile is_digit"] have "length x = length y" by (simp add: nat_text_split nat_text_inj)
  moreover from arg_cong [OF eq, of "dropWhile is_digit"] have "x @ r = y @ r'" by (simp add: nat_text_split)
  ultimately show "x = y \<and> r = r'" by simp
qed simp

interpretation token_code: prefix_code sig_token "\<lambda>_. True" "\<lambda>x. x"
  by unfold_locales (simp add: sig_token_prefix)

context prefix_code
begin

text \<open>A list after a token with its length.\<close>

lemma token_counted:
  assumes "\<forall>x \<in> set xs. ok x" "\<forall>y \<in> set ys. ok y"
  shows "sig_token (nat_text (length xs)) @ concat (map body xs) @ r = sig_token (nat_text (length ys)) @ concat (map body ys) @ r' \<longleftrightarrow>
    map canon xs = map canon ys \<and> r = r'"
proof -
  have "map canon xs = map canon ys \<Longrightarrow> length xs = length ys" by (rule map_eq_imp_length_eq)
  then show ?thesis using list_prefix [OF assms] by (auto simp: sig_token_prefix nat_text_inj)
qed

end

text \<open>The content of a value: its kind and the member of its kind; a double counts by its text.\<close>

definition value_content :: "(u64 \<Rightarrow> string) \<Rightarrow> entity_value \<Rightarrow> entity_value \<times> string" where
  "value_content real_out v = ((own_member v)\<lparr>v_real := 0\<rparr>, if v_kind v = Real then real_out (v_real v) else [])"

lemma kind_number_inj: "kind_number x = kind_number y \<longleftrightarrow> x = y"
  by (metis value_kind_numbers option.inject)

lemma int_text_inj: "int_text a = int_text b \<longleftrightarrow> a = b"
proof
  define n where "n = \<bar>a\<bar> + \<bar>b\<bar>"
  have n: "- n \<le> 0" "0 \<le> n" "- n \<le> a" "a \<le> n" "- n \<le> b" "b \<le> n" by (auto simp: n_def)
  have f: "from_chars (- n) n (int_text a) = Some (a, [])" "from_chars (- n) n (int_text b) = Some (b, [])"
    by (simp_all only: from_chars_int_text [OF n(1, 2)] n simp_thms if_True)
  assume eq: "int_text a = int_text b"
  have "Some (a, [] :: string) = Some (b, [])" by (rule trans [OF f(1) [symmetric, unfolded eq] f(2)])
  then show "a = b" by (simp only: option.inject prod.inject)
qed simp

lemma byte_text_inj: "byte_text a = byte_text b \<longleftrightarrow> a = b"
proof -
  have "inj (\<lambda>b :: u8. char_of (unat b) :: char)"
  proof (rule injI)
    fix x y :: u8 assume "(char_of (unat x) :: char) = char_of (unat y)"
    then have "of_char (char_of (unat x) :: char) = (of_char (char_of (unat y) :: char) :: nat)" by simp
    then show "x = y" using unsigned_less [of x, where ?'a = nat] unsigned_less [of y, where ?'a = nat] by (simp add: word_unat_eq_iff)
  qed
  then show ?thesis by (simp add: byte_text_def inj_map_eq_map)
qed

interpretation value_sig: prefix_code "sig_value real_out" "\<lambda>_. True" "value_content real_out" for real_out
proof
  fix x y r r'
  note members = null_value_def boolean_value_def signed_value_def unsigned_value_def real_value_def decimal_value_def text_value_def json_value_def bytes_value_def
  show "sig_value real_out x @ r = sig_value real_out y @ r' \<longleftrightarrow> value_content real_out x = value_content real_out y \<and> r = r'"
  proof (cases "v_kind x = v_kind y")
    case True
    then show ?thesis
      by (cases "v_kind y") (auto simp: sig_value_def value_content_def own_member_def members sig_token_prefix nat_text_inj int_text_inj byte_text_inj
          word_eq_iff_signed [symmetric] word_unat_eq_iff [symmetric])
  next
    case False
    have "v_kind (fst (value_content real_out v)) = v_kind v" for v by (cases "v_kind v") (simp_all add: value_content_def own_member_def members)
    then have "value_content real_out x \<noteq> value_content real_out y" using False by metis
    moreover have "nat_text (unat (kind_number (v_kind x))) \<noteq> nat_text (unat (kind_number (v_kind y)))"
      using False by (simp add: nat_text_inj word_unat_eq_iff [symmetric] kind_number_inj)
    ultimately show ?thesis by (simp only: sig_value_def append_assoc sig_token_prefix simp_thms)
  qed
qed

definition key_content :: "(u64 \<Rightarrow> string) \<Rightarrow> named_value \<Rightarrow> string \<times> entity_value \<times> string" where
  "key_content real_out key = (nv_name key, value_content real_out (nv_data key))"

definition field_content :: "(u64 \<Rightarrow> string) \<Rightarrow> field_patch \<Rightarrow> patch_op \<times> string \<times> entity_value \<times> string" where
  "field_content real_out field = (fp_operation field, fp_name field, value_content real_out (fp_data field))"

text \<open>The content of a change: everything but the representation of its values.\<close>

definition change_content :: "(u64 \<Rightarrow> string) \<Rightarrow> entity_patch \<Rightarrow>
  (string \<times> string \<times> string \<times> (string \<times> entity_value \<times> string) list) \<times> (bool \<times> bool \<times> u64) \<times> (patch_op \<times> string \<times> entity_value \<times> string) list" where
  "change_content real_out change =
     (let target = ep_target change
      in ((er_store target, er_partition target, er_entity target, map (key_content real_out) (er_key target)),
          (ep_create_if_missing change, ep_check_version change, ep_expected_version change), map (field_content real_out) (ep_fields change)))"

interpretation key_sig: prefix_code "sig_key real_out" "\<lambda>_. True" "key_content real_out" for real_out
  by unfold_locales (auto simp: sig_key_def key_content_def sig_token_prefix value_sig.prefix)

lemma patch_number_text: "nat_text (unat (patch_op_number x)) = nat_text (unat (patch_op_number y)) \<longleftrightarrow> x = y"
  by (simp add: nat_text_inj patch_op_number_inj flip: word_unat_eq_iff)

lemma operation_number_text: "nat_text (unat (entity_operation_number x)) = nat_text (unat (entity_operation_number y)) \<longleftrightarrow> x = y"
  by (simp add: nat_text_inj entity_operation_number_inj flip: word_unat_eq_iff)

interpretation field_sig: prefix_code "sig_field real_out" "\<lambda>_. True" "field_content real_out" for real_out
  by unfold_locales (auto simp: sig_field_def field_content_def sig_token_prefix value_sig.prefix patch_number_text)

lemma flag_text: "(if a then ''1'' else ''0'') = (if b then ''1'' else ''0'') \<longleftrightarrow> a = b"
  by simp

interpretation change_sig: prefix_code "sig_change real_out" "\<lambda>_. True" "change_content real_out" for real_out
proof
  fix x y :: entity_patch and r r'
  have keys: "sig_token (nat_text (length (er_key (ep_target x)))) @ concat (map (sig_key real_out) (er_key (ep_target x))) @ u =
      sig_token (nat_text (length (er_key (ep_target y)))) @ concat (map (sig_key real_out) (er_key (ep_target y))) @ v \<longleftrightarrow>
      map (key_content real_out) (er_key (ep_target x)) = map (key_content real_out) (er_key (ep_target y)) \<and> u = v" for u v
    by (rule key_sig.token_counted) simp_all
  have fields: "sig_token (nat_text (length (ep_fields x))) @ concat (map (sig_field real_out) (ep_fields x)) @ u =
      sig_token (nat_text (length (ep_fields y))) @ concat (map (sig_field real_out) (ep_fields y)) @ v \<longleftrightarrow>
      map (field_content real_out) (ep_fields x) = map (field_content real_out) (ep_fields y) \<and> u = v" for u v
    by (rule field_sig.token_counted) simp_all
  show "sig_change real_out x @ r = sig_change real_out y @ r' \<longleftrightarrow> change_content real_out x = change_content real_out y \<and> r = r'"
    by (simp only: sig_change_def change_content_def Let_def append_assoc keys fields flag_text nat_text_inj word_unat_eq_iff [symmetric] prod.inject
        sig_token_prefix [of "er_store _"] sig_token_prefix [of "er_partition _"] sig_token_prefix [of "er_entity _"] sig_token_prefix [of "if _ then _ else _"]
        sig_token_prefix [of "nat_text (unat (ep_expected_version _))"]) blast
qed

interpretation operation_sig: prefix_code "\<lambda>x. sig_token (nat_text (unat (entity_operation_number (ep_operation x))))" "\<lambda>_. True" ep_operation
  by unfold_locales (simp add: sig_token_prefix operation_number_text)

lemma map_pair_eq: "map (\<lambda>x. (f x, g x)) xs = map (\<lambda>x. (f x, g x)) ys \<longleftrightarrow> map f xs = map f ys \<and> map g xs = map g ys"
proof (induction xs arbitrary: ys)
  case (Cons x xs)
  then show ?case by (cases ys) auto
qed simp

text \<open>C18. The signature stored with a request id determines the content of the request: two requests have the same signature exactly when their changes have, in the
  same order, the same targets, keys, flags, expected versions, patches and operations.  Since every part is preceded by its length, no text of one part can be
  taken for another.  Doubles are compared by their text.\<close>

theorem request_signature_exact:
  "request_signature real_out a = request_signature real_out b \<longleftrightarrow>
   map (\<lambda>x. (change_content real_out x, ep_operation x)) (sr_changes a) = map (\<lambda>x. (change_content real_out x, ep_operation x)) (sr_changes b)"
proof -
  let ?strict = "\<lambda>xs. if \<exists>x \<in> set xs. ep_operation x \<noteq> Legacy_patch
    then sig_token ''strict-crud-v1'' @ concat (map (\<lambda>x. sig_token (nat_text (unat (entity_operation_number (ep_operation x))))) xs) else []"
  have strict: "?strict xs = ?strict ys \<longleftrightarrow> map ep_operation xs = map ep_operation ys" if "length xs = length ys" for xs ys :: "entity_patch list"
  proof -
    have ne: "sig_token t @ u \<noteq> []" for t u by (simp add: sig_token_def)
    have ops: "(\<exists>x \<in> set xs. ep_operation x \<noteq> Legacy_patch) \<longleftrightarrow> map ep_operation xs \<noteq> replicate (length xs) Legacy_patch" for xs :: "entity_patch list"
      by (induction xs) auto
    have "sig_token ''strict-crud-v1'' @ concat (map (\<lambda>x. sig_token (nat_text (unat (entity_operation_number (ep_operation x))))) xs) @ [] =
      sig_token ''strict-crud-v1'' @ concat (map (\<lambda>x. sig_token (nat_text (unat (entity_operation_number (ep_operation x))))) ys) @ [] \<longleftrightarrow>
      map ep_operation xs = map ep_operation ys" unfolding same_append_eq using operation_sig.list_prefix [of xs ys "[]" "[]"] that by simp
    then show ?thesis unfolding ops using that ne ne [symmetric] by auto
  qed
  have "request_signature real_out a = request_signature real_out b \<longleftrightarrow>
    map (change_content real_out) (sr_changes a) = map (change_content real_out) (sr_changes b) \<and> ?strict (sr_changes a) = ?strict (sr_changes b)"
    unfolding request_signature_def Let_def by (rule change_sig.token_counted) simp_all
  also have "\<dots> \<longleftrightarrow> map (change_content real_out) (sr_changes a) = map (change_content real_out) (sr_changes b) \<and> map ep_operation (sr_changes a) = map ep_operation (sr_changes b)"
    using strict map_eq_imp_length_eq by blast
  also have "\<dots> \<longleftrightarrow> map (\<lambda>x. (change_content real_out x, ep_operation x)) (sr_changes a) = map (\<lambda>x. (change_content real_out x, ep_operation x)) (sr_changes b)"
    by (simp only: map_pair_eq)
  finally show ?thesis .
qed

section \<open>Versions are read back\<close>

lemma parse_nat_text: "parse_uint64 (nat_text (unat v)) = Some v"
proof -
  have "nat_text (unat v) = int_text (uint v)" by (simp add: int_text_def)
  moreover have "uint v \<le> 2 ^ 64 - 1" using sint_range(4) [of v] by simp
  ultimately show ?thesis by (simp add: parse_uint64_def from_chars_int_text)
qed

lemma nat_text_no_comma: "takeWhile (\<lambda>c. c \<noteq> CHR '','') (nat_text n @ r) = nat_text n @ takeWhile (\<lambda>c. c \<noteq> CHR '','') r"
  "dropWhile (\<lambda>c. c \<noteq> CHR '','') (nat_text n @ r) = dropWhile (\<lambda>c. c \<noteq> CHR '','') r" "nat_text n \<noteq> []"
proof -
  have "\<not> is_digit (CHR '','')" by (simp add: is_digit_nat)
  then have "\<forall>c \<in> set (nat_text n). c \<noteq> CHR '',''" using nat_text_digits [of n] by blast
  then show "takeWhile (\<lambda>c. c \<noteq> CHR '','') (nat_text n @ r) = nat_text n @ takeWhile (\<lambda>c. c \<noteq> CHR '','') r"
    "dropWhile (\<lambda>c. c \<noteq> CHR '','') (nat_text n @ r) = dropWhile (\<lambda>c. c \<noteq> CHR '','') r" by (simp_all add: takeWhile_append2 dropWhile_append2)
  show "nat_text n \<noteq> []" using nat_text_digits [of n] by simp
qed

lemma decode_loop_encode:
  "decode_loop n (nat_text (unat v) @ encode_loop False vs) out = (if n = length out + length (v # vs) then Some (out @ v # vs) else None)"
proof (induction vs arbitrary: n v out)
  case Nil
  have t: "takeWhile (\<lambda>c. c \<noteq> CHR '','') (nat_text (unat v)) = nat_text (unat v)" "dropWhile (\<lambda>c. c \<noteq> CHR '','') (nat_text (unat v)) = []"
    using nat_text_no_comma(1, 2) [of "unat v" "[]"] by simp_all
  show ?case by (simp add: decode_loop.simps [of n "nat_text (unat v)" out] t parse_nat_text nat_text_no_comma(3) del: takeWhile_eq_all_conv dropWhile_eq_Nil_conv)
next
  case (Cons u vs)
  have r: "encode_loop False (u # vs) = CHR '','' # nat_text (unat u) @ encode_loop False vs" by simp
  show ?case unfolding r by (subst decode_loop.simps) (auto simp: nat_text_no_comma parse_nat_text Cons.IH)
qed

text \<open>The versions stored as the result of a request are read back exactly, by a request with as many changes and by no other.\<close>

theorem versions_roundtrip: "decode_versions (encode_versions vs) n = (if vs \<noteq> [] \<and> n = length vs then Some vs else None)"
proof (cases vs)
  case Nil
  then show ?thesis by (simp add: decode_versions_def encode_versions_def decode_loop.simps)
next
  case (Cons v vs')
  then show ?thesis using decode_loop_encode [of n v vs' "[]"] by (auto simp: decode_versions_def encode_versions_def)
qed

end
