(* ===== verification/Db_Contract.thy ===== *)
theory Db_Contract
  imports Prelude
begin

text \<open>
  The contract of the database plugins (\<^verbatim>\<open>include/common/db_contract.hpp\<close>): the classes of errors with their names and numbers, and the result of a statement with
  its cells as texts.
\<close>

datatype error_code = No_error | Sql_error | Connection_unavailable | Connection_lost | Transaction_lost | Outcome_unknown

definition error_codes :: "error_code list" where
  "error_codes = [No_error, Sql_error, Connection_unavailable, Connection_lost, Transaction_lost, Outcome_unknown]"

definition error_code_to_string :: "error_code \<Rightarrow> string" where
  "error_code_to_string code =
     (case code of No_error \<Rightarrow> ''none'' | Sql_error \<Rightarrow> ''sql_error'' | Connection_unavailable \<Rightarrow> ''connection_unavailable'' | Connection_lost \<Rightarrow> ''connection_lost''
      | Transaction_lost \<Rightarrow> ''transaction_lost'' | Outcome_unknown \<Rightarrow> ''outcome_unknown'')"

definition error_code_from_integer :: "u8 \<Rightarrow> error_code option" where
  "error_code_from_integer raw = (if raw > 5 then None else Some (error_codes ! unat raw))"

definition error_code_from_string :: "string \<Rightarrow> error_code option" where
  "error_code_from_string name = find (\<lambda>code. error_code_to_string code = name) error_codes"

definition is_connection_error :: "error_code \<Rightarrow> bool" where
  "is_connection_error code \<longleftrightarrow> code = Connection_unavailable \<or> code = Connection_lost \<or> code = Transaction_lost \<or> code = Outcome_unknown"

text \<open>The time a statement took and the codes of the driver are left out: nothing depends on them.\<close>

record db_result =
  db_ok :: bool
  db_error :: string
  db_columns :: "string list"
  db_rows :: "string list list"
  db_nulls :: "u8 list list"
  db_affected :: int
  db_insert_id :: string
  db_code :: error_code

definition empty_result :: db_result where
  "empty_result = \<lparr>db_ok = False, db_error = [], db_columns = [], db_rows = [], db_nulls = [], db_affected = 0, db_insert_id = [], db_code = No_error\<rparr>"

definition db_is_null :: "db_result \<Rightarrow> nat \<Rightarrow> nat \<Rightarrow> bool" where
  "db_is_null result row column \<longleftrightarrow> row < length (db_nulls result) \<and> column < length (db_nulls result ! row) \<and> db_nulls result ! row ! column \<noteq> 0"

lemma error_code_names: "error_code_from_string (error_code_to_string code) = Some code"
  by (cases code) (simp_all add: error_code_from_string_def error_codes_def error_code_to_string_def)

end
