(* ===== verification/Connection_Pool.thy ===== *)
theory Connection_Pool
  imports Prelude
begin

text \<open>
  The connection pool of the SQL plugins (\<^verbatim>\<open>include/templates/sql_connection_pool.hpp\<close>) with the round-robin routing of the worker pool
  (\<open>WorkerPool\<close> of \<^verbatim>\<open>include/templates/db_worker_pool.hpp\<close>): connection slots with a transaction state and a 32-bit generation, the registry of
  transactions with their request keys, and the 64-bit handles that name a pool, a slot and a generation.  A slot is addressed by the name of its
  pool and its index.  The theory shows that every connection in a transaction is held by exactly one registered handle, that a handle is routed exactly
  while it is registered and active, and when a stale handle could become valid again.
\<close>

section \<open>Slots\<close>

datatype transaction_state = Idle | Active | Closing

record slot =
  sl_state :: transaction_state
  sl_generation :: u32
  sl_stopped :: bool
  sl_recoverable :: bool

definition new_slot :: slot where
  "new_slot = \<lparr>sl_state = Idle, sl_generation = 0, sl_stopped = False, sl_recoverable = False\<rparr>"

definition enable_recovery :: "slot \<Rightarrow> slot" where
  "enable_recovery s = s\<lparr>sl_recoverable := True\<rparr>"

text \<open>\<open>fetch_add\<close> wraps around, and the generation 0 is skipped.\<close>

definition next_generation :: "u32 \<Rightarrow> u32" where
  "next_generation g = (if g + 1 = 0 then g + 1 + 1 else g + 1)"

definition try_acquire :: "slot \<Rightarrow> slot \<times> u32" where
  "try_acquire s =
     (if sl_state s \<noteq> Idle then (s, 0)
      else (s\<lparr>sl_state := Active, sl_generation := next_generation (sl_generation s)\<rparr>, next_generation (sl_generation s)))"

definition try_close :: "u32 \<Rightarrow> slot \<Rightarrow> slot \<times> bool" where
  "try_close expected s =
     (if sl_generation s \<noteq> expected then (s, False)
      else if sl_state s \<noteq> Active then (s, False) else (s\<lparr>sl_state := Closing\<rparr>, True))"

definition release_slot :: "u32 \<Rightarrow> slot \<Rightarrow> slot \<times> bool" where
  "release_slot expected s = (if sl_generation s \<noteq> expected then (s, False) else (s\<lparr>sl_state := Idle\<rparr>, True))"

section \<open>Handles\<close>

definition max_index :: nat where
  "max_index = 0xFFFF"

definition encode_handle :: "nat \<Rightarrow> nat \<Rightarrow> u32 \<Rightarrow> u64" where
  "encode_handle pool_index slot_index generation = push_bit 32 (ucast generation) OR push_bit 16 (of_nat pool_index) OR of_nat slot_index"

definition decode_handle :: "u64 \<Rightarrow> nat \<times> nat \<times> u32" where
  "decode_handle token = (unat (drop_bit 16 token AND 0xFFFF), unat (token AND 0xFFFF), ucast (drop_bit 32 token))"

section \<open>The pool\<close>

text \<open>An entry of the registry points to a slot; slots live as long as the pool, so the weak pointer of an entry is never empty while the pool is there.\<close>

record entry =
  en_slot :: "string \<times> nat"
  en_generation :: u32
  en_key :: string

record pool =
  po_slots :: "(string \<times> slot list) list"
  po_round_robin :: u64
  po_stopped :: bool
  po_indexes :: "(string \<times> nat) list"
  po_names :: "string list"
  po_entries :: "(u64 \<times> entry) list"
  po_keys :: "(string \<times> u64) list"

definition new_pool :: pool where
  "new_pool = \<lparr>po_slots = [], po_round_robin = 0, po_stopped = False, po_indexes = [], po_names = [], po_entries = [], po_keys = []\<rparr>"

text \<open>A route: the slot and the handle, or an error.  Each constructor of \<open>pool_error\<close> is one message, with the name or handle at its end; the
  name of the backend, which every message contains, is left out.\<close>

datatype pool_error =
    Unknown_connection string | Pool_exhausted | Duplicate_request_key | Pool_index_capacity | Transactions_exhausted string
  | Slot_index_capacity | Invalid_transaction u64 | Inactive_transaction u64 | Closing_transaction u64 | Inactive_request_key

datatype route = Route "string \<times> nat" u64 | Failed pool_error

definition find_slots :: "pool \<Rightarrow> string \<Rightarrow> slot list option" where
  "find_slots p name = map_of (po_slots p) name"

definition set_slot :: "string \<Rightarrow> nat \<Rightarrow> slot \<Rightarrow> pool \<Rightarrow> pool" where
  "set_slot name i s p = (case find_slots p name of None \<Rightarrow> p | Some slots \<Rightarrow> p\<lparr>po_slots := omap_set name (slots[i := s]) (po_slots p)\<rparr>)"

text \<open>\<open>add_slot\<close> throws once the pool is stopped, after it has given the name an index.\<close>

definition add_slot :: "string \<Rightarrow> pool \<Rightarrow> pool \<times> bool" where
  "add_slot name p =
     (let p = (if map_of (po_indexes p) name = None
               then p\<lparr>po_indexes := omap_set name (length (po_names p)) (po_indexes p), po_names := po_names p @ [name]\<rparr> else p)
      in if po_stopped p then (p, False)
         else (p\<lparr>po_slots := omap_set name ((case find_slots p name of None \<Rightarrow> [] | Some slots \<Rightarrow> slots) @ [new_slot]) (po_slots p)\<rparr>, True))"

text \<open>The slots are tried from the one the counter names, each at most once.\<close>

definition route_round_robin :: "string \<Rightarrow> (slot \<Rightarrow> bool) \<Rightarrow> pool \<Rightarrow> pool \<times> nat option" where
  "route_round_robin name accepts p =
     (case find_slots p name of
        None \<Rightarrow> (p, None)
      | Some slots \<Rightarrow>
          if po_stopped p \<or> slots = [] then (p, None)
          else let start = unat (po_round_robin p) mod length slots
               in (p\<lparr>po_round_robin := po_round_robin p + 1\<rparr>,
                   find (\<lambda>i. \<not> sl_stopped (slots ! i) \<and> accepts (slots ! i)) (map (\<lambda>k. (start + k) mod length slots) [0..<length slots])))"

text \<open>Work bound to a key always goes to the same slot; \<open>hash\<close> is the hash of the standard library.\<close>

definition route_affine :: "(string \<Rightarrow> u64) \<Rightarrow> string \<Rightarrow> string \<Rightarrow> pool \<Rightarrow> nat option" where
  "route_affine hash name key p =
     (case find_slots p name of
        None \<Rightarrow> None
      | Some slots \<Rightarrow>
          if po_stopped p \<or> slots = [] then None
          else let i = unat (hash key) mod length slots in if sl_stopped (slots ! i) then None else Some i)"

definition route_idle :: "string \<Rightarrow> pool \<Rightarrow> pool \<times> route" where
  "route_idle name p =
     (case find_slots p name of
        None \<Rightarrow> (p, Failed (Unknown_connection name))
      | Some slots \<Rightarrow>
          if slots = [] then (p, Failed (Unknown_connection name))
          else case route_round_robin name (\<lambda>s. sl_state s = Idle) p of
            (p, Some i) \<Rightarrow> (p, Route (name, i) 0)
          | (p, None) \<Rightarrow> (p, Failed Pool_exhausted))"

definition find_transaction :: "string \<Rightarrow> pool \<Rightarrow> u64" where
  "find_transaction key p = (case map_of (po_keys p) key of None \<Rightarrow> 0 | Some token \<Rightarrow> token)"

definition insert_transaction :: "u64 \<Rightarrow> string \<times> nat \<Rightarrow> u32 \<Rightarrow> string \<Rightarrow> pool \<Rightarrow> pool \<times> bool" where
  "insert_transaction token slot generation key p =
     (if key \<noteq> [] \<and> map_of (po_keys p) key \<noteq> None \<or> map_of (po_entries p) token \<noteq> None then (p, False)
      else (p\<lparr>po_entries := omap_set token \<lparr>en_slot = slot, en_generation = generation, en_key = key\<rparr> (po_entries p),
              po_keys := (if key \<noteq> [] then omap_set key token (po_keys p) else po_keys p)\<rparr>, True))"

definition acquire_transaction :: "string \<Rightarrow> string \<Rightarrow> pool \<Rightarrow> pool \<times> route" where
  "acquire_transaction name key p =
     (if key \<noteq> [] \<and> find_transaction key p \<noteq> 0 then (p, Failed Duplicate_request_key)
      else case (find_slots p name, map_of (po_indexes p) name) of
        (Some slots, Some index) \<Rightarrow>
          if slots = [] then (p, Failed (Unknown_connection name))
          else if index > max_index then (p, Failed Pool_index_capacity)
          else (case route_round_robin name (\<lambda>s. snd (try_acquire s) \<noteq> 0) p of
            (p, None) \<Rightarrow> (p, Failed (Transactions_exhausted name))
          | (p, Some i) \<Rightarrow>
              (let (s, generation) = try_acquire (slots ! i); p = set_slot name i s p
               in if i > max_index then (set_slot name i (fst (release_slot generation s)) p, Failed Slot_index_capacity)
                  else let token = encode_handle index i generation
                       in case insert_transaction token (name, i) generation key p of
                            (p, True) \<Rightarrow> (p, Route (name, i) token)
                          | (p, False) \<Rightarrow> (set_slot name i (fst (release_slot generation s)) p, Failed Duplicate_request_key)))
      | _ \<Rightarrow> (p, Failed (Unknown_connection name)))"

definition route_transaction :: "u64 \<Rightarrow> bool \<Rightarrow> pool \<Rightarrow> pool \<times> route" where
  "route_transaction token closing p =
     (case decode_handle token of (pool_index, slot_index, generation) \<Rightarrow>
        if pool_index \<ge> length (po_names p) then (p, Failed (Invalid_transaction token))
        else let name = po_names p ! pool_index in
          (case find_slots p name of
             None \<Rightarrow> (p, Failed (Invalid_transaction token))
           | Some slots \<Rightarrow>
               if slot_index \<ge> length slots then (p, Failed (Invalid_transaction token))
               else let s = slots ! slot_index in
                 if sl_generation s \<noteq> generation then (p, Failed (Inactive_transaction token))
                 else if closing
                 then if sl_state s = Closing then (p, Failed (Closing_transaction token))
                      else if sl_state s \<noteq> Active then (p, Failed (Inactive_transaction token))
                      else (case try_close generation s of
                          (s, True) \<Rightarrow> (set_slot name slot_index s p, Route (name, slot_index) token)
                        | (s, False) \<Rightarrow> (p, Failed (Inactive_transaction token)))
                 else if sl_state s \<noteq> Active then (p, Failed (Inactive_transaction token))
                 else (p, Route (name, slot_index) token)))"

definition route_key :: "string \<Rightarrow> bool \<Rightarrow> pool \<Rightarrow> pool \<times> route" where
  "route_key key closing p =
     (let token = find_transaction key p
      in if token = 0 then (p, Failed Inactive_request_key) else route_transaction token closing p)"

definition release_transaction :: "u64 \<Rightarrow> pool \<Rightarrow> pool \<times> bool" where
  "release_transaction token p =
     (case map_of (po_entries p) token of
        None \<Rightarrow> (p, False)
      | Some e \<Rightarrow>
          (case en_slot e of (name, i) \<Rightarrow>
             (case find_slots p name of
                None \<Rightarrow> (p\<lparr>po_keys := (if en_key e \<noteq> [] then omap_erase (en_key e) (po_keys p) else po_keys p), po_entries := omap_erase token (po_entries p)\<rparr>, False)
              | Some slots \<Rightarrow>
                  (case release_slot (en_generation e) (slots ! i) of (s, released) \<Rightarrow>
                     let p = set_slot name i s p
                     in (p\<lparr>po_keys := (if en_key e \<noteq> [] then omap_erase (en_key e) (po_keys p) else po_keys p),
                           po_entries := omap_erase token (po_entries p)\<rparr>, released)))))"

definition recover_slot :: "string \<Rightarrow> nat \<Rightarrow> pool \<Rightarrow> pool" where
  "recover_slot name i p = (case find_slots p name of None \<Rightarrow> p | Some slots \<Rightarrow> if i < length slots then set_slot name i (enable_recovery (slots ! i)) p else p)"

text \<open>A worker may stop by itself; stopping the pool stops them all.\<close>

definition stop_slot :: "string \<Rightarrow> nat \<Rightarrow> pool \<Rightarrow> pool" where
  "stop_slot name i p = (case find_slots p name of None \<Rightarrow> p | Some slots \<Rightarrow> if i < length slots then set_slot name i ((slots ! i)\<lparr>sl_stopped := True\<rparr>) p else p)"

definition stop_and_join :: "pool \<Rightarrow> pool" where
  "stop_and_join p = p\<lparr>po_stopped := True, po_slots := map (\<lambda>(name, slots). (name, map (\<lambda>s. s\<lparr>sl_stopped := True\<rparr>) slots)) (po_slots p)\<rparr>"

text \<open>The operations of the plugin and its workers; the label is the handle a step grants.\<close>

definition granted_token :: "route \<Rightarrow> u64 option" where
  "granted_token r = (case r of Route _ token \<Rightarrow> Some token | Failed _ \<Rightarrow> None)"

inductive pool_step :: "pool \<Rightarrow> u64 option \<Rightarrow> pool \<Rightarrow> bool" where
  Add_slot: "pool_step p None (fst (add_slot name p))"
| Route_idle: "pool_step p None (fst (route_idle name p))"
| Acquire: "pool_step p (granted_token (snd (acquire_transaction name key p))) (fst (acquire_transaction name key p))"
| Route_handle: "pool_step p None (fst (route_transaction token closing p))"
| Route_by_key: "pool_step p None (fst (route_key key closing p))"
| Release: "pool_step p None (fst (release_transaction token p))"
| Recovery: "pool_step p None (recover_slot name i p)"
| Stop_slot: "pool_step p None (stop_slot name i p)"
| Stop_all: "pool_step p None (stop_and_join p)"

text \<open>A run with the handles it grants, in order.\<close>

inductive pool_run :: "pool \<Rightarrow> u64 list \<Rightarrow> pool \<Rightarrow> bool" for p where
  Start: "pool_run p [] p"
| Step: "pool_run p ts p' \<Longrightarrow> pool_step p' l p'' \<Longrightarrow> pool_run p (ts @ (case l of None \<Rightarrow> [] | Some t \<Rightarrow> [t])) p''"

section \<open>Handles name their parts\<close>

lemma encode_words:
  fixes K I :: u16 and g :: u32
  defines "t \<equiv> push_bit 32 (ucast g) OR push_bit 16 (ucast K) OR ucast I :: u64"
  shows "ucast (drop_bit 32 t) = g" "drop_bit 16 t AND 0xFFFF = ucast K" "t AND 0xFFFF = ucast I"
proof -
  have m: "w AND 0xFFFF = take_bit 16 w" for w :: u64 by (simp add: take_bit_eq_mask mask_eq_exp_minus_1)
  show "ucast (drop_bit 32 t) = g" unfolding t_def by (auto simp: bit_eq_iff bit_simps dest: bit_imp_le_length)
  show "drop_bit 16 t AND 0xFFFF = ucast K" unfolding t_def m by (auto simp: bit_eq_iff bit_simps dest: bit_imp_le_length)
  show "t AND 0xFFFF = ucast I" unfolding t_def m by (auto simp: bit_eq_iff bit_simps dest: bit_imp_le_length)
qed

lemma of_nat_index:
  assumes "k \<le> max_index"
  shows "(of_nat k :: u64) = ucast (of_nat k :: u16)" "unat (of_nat k :: u16) = k"
proof -
  have k: "k < 2 ^ 16" using assms by (simp add: max_index_def)
  then show u: "unat (of_nat k :: u16) = k" by (simp add: unat_of_nat take_bit_eq_mod)
  have "unat (of_nat k :: u64) = k" using k by (simp add: unat_of_nat take_bit_eq_mod)
  moreover have "unat (ucast (of_nat k :: u16) :: u64) = k" using k u by (simp add: unsigned_ucast_eq take_bit_eq_mod)
  ultimately show "(of_nat k :: u64) = ucast (of_nat k :: u16)" by (simp only: word_unat_eq_iff)
qed

lemma decode_encode:
  assumes "k \<le> max_index" "i \<le> max_index"
  shows "decode_handle (encode_handle k i g) = (k, i, g)"
proof -
  have "unat (ucast (w :: u16) :: u64) = unat w" for w using unsigned_less [of w, where ?'a = nat] by (simp add: unsigned_ucast_eq take_bit_eq_mod)
  then show ?thesis using encode_words [of g "of_nat k" "of_nat i"] of_nat_index [OF assms(1)] of_nat_index [OF assms(2)]
    unfolding decode_handle_def encode_handle_def by simp
qed

lemma encode_inj:
  assumes "k \<le> max_index" "i \<le> max_index" "k' \<le> max_index" "i' \<le> max_index" "encode_handle k i g = encode_handle k' i' g'"
  shows "k = k'" "i = i'" "g = g'"
proof -
  have "(k, i, g) = (k', i', g')" using decode_encode [OF assms(1, 2), of g] decode_encode [OF assms(3, 4), of g'] unfolding assms(5) by (rule trans [OF sym])
  then show "k = k'" "i = i'" "g = g'" by simp_all
qed

lemma encode_decode: "decode_handle token = (k, i, g) \<Longrightarrow> encode_handle k i g = token"
proof -
  assume d: "decode_handle token = (k, i, g)"
  have m: "w AND 0xFFFF = take_bit 16 w" for w :: u64 by (simp add: take_bit_eq_mask mask_eq_exp_minus_1)
  have t: "push_bit 32 (ucast (ucast (drop_bit 32 token) :: u32)) OR push_bit 16 (take_bit 16 (drop_bit 16 token)) OR take_bit 16 token = token"
    by (auto simp: bit_eq_iff bit_simps dest: bit_imp_le_length)
  show ?thesis using d t by (auto simp: decode_handle_def encode_handle_def m)
qed

lemma decode_bounds:
  assumes "decode_handle token = (k, i, g)"
  shows "k \<le> max_index" "i \<le> max_index"
proof -
  have m: "unat (w AND 0xFFFF :: u64) \<le> 0xFFFF" for w
    by (rule order.trans [OF word_le_nat_alt [THEN iffD1, OF word_and_le1]]) simp
  show "k \<le> max_index" "i \<le> max_index" using assms by (auto simp: decode_handle_def max_index_def m)
qed

lemma next_generation_nonzero [simp]: "next_generation g \<noteq> 0"
  by (auto simp: next_generation_def)

lemma encode_nonzero: "k \<le> max_index \<Longrightarrow> i \<le> max_index \<Longrightarrow> g \<noteq> 0 \<Longrightarrow> encode_handle k i g \<noteq> 0"
  using decode_encode [of k i g] by (auto simp: decode_handle_def)

section \<open>The invariant\<close>

definition slot_at :: "pool \<Rightarrow> string \<Rightarrow> nat \<Rightarrow> slot option" where
  "slot_at p name i = (case find_slots p name of None \<Rightarrow> None | Some slots \<Rightarrow> if i < length slots then Some (slots ! i) else None)"

text \<open>An entry under a handle: its slot is busy with the generation of the entry, and the handle names the pool, the slot and the generation.\<close>

definition entry_ok :: "pool \<Rightarrow> u64 \<Rightarrow> entry \<Rightarrow> bool" where
  "entry_ok p token e \<longleftrightarrow> (\<exists>name i s k. en_slot e = (name, i) \<and> slot_at p name i = Some s \<and> sl_state s \<noteq> Idle \<and> sl_generation s = en_generation e \<and>
     sl_generation s \<noteq> 0 \<and> map_of (po_indexes p) name = Some k \<and> k \<le> max_index \<and> i \<le> max_index \<and> token = encode_handle k i (sl_generation s))"

definition tables_ok :: "pool \<Rightarrow> bool" where
  "tables_ok p \<longleftrightarrow> omap_ok (po_slots p) \<and> omap_ok (po_indexes p) \<and> omap_ok (po_entries p) \<and> omap_ok (po_keys p) \<and>
     (\<forall>name k. map_of (po_indexes p) name = Some k \<longleftrightarrow> k < length (po_names p) \<and> po_names p ! k = name) \<and>
     (\<forall>name i s. slot_at p name i = Some s \<longrightarrow> map_of (po_indexes p) name \<noteq> None) \<and>
     (\<forall>key token. map_of (po_keys p) key = Some token \<longleftrightarrow> key \<noteq> [] \<and> (\<exists>e. map_of (po_entries p) token = Some e \<and> en_key e = key))"

definition pool_ok :: "pool \<Rightarrow> bool" where
  "pool_ok p \<longleftrightarrow> tables_ok p \<and> (\<forall>token e. map_of (po_entries p) token = Some e \<longrightarrow> entry_ok p token e) \<and>
     (\<forall>name i s. slot_at p name i = Some s \<longrightarrow> sl_state s \<noteq> Idle \<longrightarrow> (\<exists>token e. map_of (po_entries p) token = Some e \<and> en_slot e = (name, i)))"

lemma pool_okI:
  assumes "tables_ok p" "\<And>token e. map_of (po_entries p) token = Some e \<Longrightarrow> entry_ok p token e"
    "\<And>name i s. slot_at p name i = Some s \<Longrightarrow> sl_state s \<noteq> Idle \<Longrightarrow> \<exists>token e. map_of (po_entries p) token = Some e \<and> en_slot e = (name, i)"
  shows "pool_ok p"
  using assms by (auto simp: pool_ok_def)

lemma pool_okD:
  assumes "pool_ok p"
  shows "tables_ok p" "map_of (po_entries p) token = Some e \<Longrightarrow> entry_ok p token e"
    "slot_at p name i = Some s \<Longrightarrow> sl_state s \<noteq> Idle \<Longrightarrow> \<exists>token e. map_of (po_entries p) token = Some e \<and> en_slot e = (name, i)"
  using assms by (auto simp: pool_ok_def)

lemma tables_okD:
  assumes "tables_ok p"
  shows "omap_ok (po_slots p)" "omap_ok (po_indexes p)" "omap_ok (po_entries p)" "omap_ok (po_keys p)"
    "map_of (po_indexes p) name = Some k \<longleftrightarrow> k < length (po_names p) \<and> po_names p ! k = name"
    "slot_at p name i = Some s \<Longrightarrow> map_of (po_indexes p) name \<noteq> None"
    "map_of (po_keys p) key = Some token \<longleftrightarrow> key \<noteq> [] \<and> (\<exists>e. map_of (po_entries p) token = Some e \<and> en_key e = key)"
  using assms unfolding tables_ok_def by blast+

lemma slot_at_simps [simp]:
  "slot_at (po_round_robin_update f p) = slot_at p" "slot_at (po_stopped_update g p) = slot_at p" "slot_at (po_entries_update h p) = slot_at p"
  "slot_at (po_keys_update l p) = slot_at p" "slot_at (po_indexes_update m p) = slot_at p" "slot_at (po_names_update n p) = slot_at p"
  by (auto simp: slot_at_def find_slots_def fun_eq_iff)

lemma slot_at_set:
  assumes "omap_ok (po_slots p)" "slot_at p name i \<noteq> None"
  shows "slot_at (set_slot name i s p) n j = (if (n, j) = (name, i) then Some s else slot_at p n j)"
  using assms by (auto simp: slot_at_def set_slot_def find_slots_def split: option.splits if_splits)

lemma set_slot_simps [simp]:
  "po_round_robin (set_slot name i s p) = po_round_robin p" "po_stopped (set_slot name i s p) = po_stopped p"
  "po_indexes (set_slot name i s p) = po_indexes p" "po_names (set_slot name i s p) = po_names p"
  "po_entries (set_slot name i s p) = po_entries p" "po_keys (set_slot name i s p) = po_keys p"
  "omap_ok (po_slots p) \<Longrightarrow> omap_ok (po_slots (set_slot name i s p))"
  by (auto simp: set_slot_def split: option.splits)

lemma set_slot_round_robin [simp]: "set_slot name i s (po_round_robin_update f p) = po_round_robin_update f (set_slot name i s p)"
  by (auto simp: set_slot_def find_slots_def split: option.splits)

text \<open>Handles and busy slots determine each other.\<close>

lemma entry_of_slot:
  assumes "pool_ok p" "map_of (po_entries p) t = Some e" "map_of (po_entries p) t' = Some e'" "en_slot e = en_slot e'"
  shows "t = t'"
  using pool_okD(2) [OF assms(1) assms(2)] pool_okD(2) [OF assms(1) assms(3)] assms(4) by (auto simp: entry_ok_def)

text \<open>A change that keeps the registry and every busy slot busy with its generation keeps the invariant.\<close>

lemma pool_ok_quiet:
  assumes "pool_ok p" "tables_ok p'" "po_entries p' = po_entries p"
    "\<And>name i s'. slot_at p' name i = Some s' \<Longrightarrow> sl_state s' \<noteq> Idle \<Longrightarrow> \<exists>s. slot_at p name i = Some s \<and> sl_state s \<noteq> Idle"
    "\<And>name i s. slot_at p name i = Some s \<Longrightarrow> sl_state s \<noteq> Idle \<Longrightarrow>
       \<exists>s'. slot_at p' name i = Some s' \<and> sl_state s' \<noteq> Idle \<and> sl_generation s' = sl_generation s"
    "\<And>name k. map_of (po_indexes p) name = Some k \<Longrightarrow> map_of (po_indexes p') name = Some k"
  shows "pool_ok p'"
proof (rule pool_okI)
  show "tables_ok p'" by fact
next
  fix token e assume "map_of (po_entries p') token = Some e"
  with assms have "entry_ok p token e" by (simp add: pool_okD)
  then show "entry_ok p' token e" unfolding entry_ok_def using assms(5, 6) by metis
next
  fix name i s' assume "slot_at p' name i = Some s'" "sl_state s' \<noteq> Idle"
  with assms(4) obtain s where "slot_at p name i = Some s" "sl_state s \<noteq> Idle" by blast
  with assms show "\<exists>token e. map_of (po_entries p') token = Some e \<and> en_slot e = (name, i)" by (simp add: pool_okD)
qed

lemma pool_ok_round_robin [simp]: "pool_ok (po_round_robin_update f p) = pool_ok p"
  by (simp add: pool_ok_def tables_ok_def entry_ok_def)

lemma pool_ok_set_slot:
  assumes "pool_ok p" "slot_at p name i = Some s" "sl_state s = Idle \<longleftrightarrow> sl_state s' = Idle" "sl_state s \<noteq> Idle \<Longrightarrow> sl_generation s' = sl_generation s"
  shows "pool_ok (set_slot name i s' p)"
proof (rule pool_ok_quiet [OF assms(1)])
  note t = tables_okD [OF pool_okD(1) [OF assms(1)]]
  have at: "slot_at (set_slot name i s' p) n j = (if (n, j) = (name, i) then Some s' else slot_at p n j)" for n j
    using t(1) assms(2) by (simp add: slot_at_set)
  show "tables_ok (set_slot name i s' p)" using t assms(2) unfolding tables_ok_def at by (auto split: if_splits)
  show "\<exists>s. slot_at p n j = Some s \<and> sl_state s \<noteq> Idle" if "slot_at (set_slot name i s' p) n j = Some s''" "sl_state s'' \<noteq> Idle" for n j s''
    using that assms(2, 3) by (auto simp: at split: if_splits)
  show "\<exists>s''. slot_at (set_slot name i s' p) n j = Some s'' \<and> sl_state s'' \<noteq> Idle \<and> sl_generation s'' = sl_generation s1"
    if "slot_at p n j = Some s1" "sl_state s1 \<noteq> Idle" for n j s1
    using that assms(2-4) by (auto simp: at)
qed auto

section \<open>Every operation keeps the invariant\<close>

lemma find_SomeD: "find P xs = Some x \<Longrightarrow> x \<in> set xs \<and> P x"
  by (auto simp: find_Some_iff)

lemma round_robin_result:
  assumes "route_round_robin name accepts p = (p', r)"
  shows "\<exists>f. p' = po_round_robin_update f p"
    "r = Some i \<Longrightarrow> \<not> po_stopped p \<and> (\<exists>slots. find_slots p name = Some slots \<and> i < length slots \<and> \<not> sl_stopped (slots ! i) \<and> accepts (slots ! i))"
proof -
  have "\<exists>f. p = po_round_robin_update f p" by (rule exI [of _ "\<lambda>x. x"]) simp
  then show "\<exists>f. p' = po_round_robin_update f p"
    using assms by (auto simp: route_round_robin_def Let_def split: option.splits if_splits)
  show "\<not> po_stopped p \<and> (\<exists>slots. find_slots p name = Some slots \<and> i < length slots \<and> \<not> sl_stopped (slots ! i) \<and> accepts (slots ! i))" if "r = Some i"
    using assms that by (auto simp: route_round_robin_def Let_def split: option.splits if_splits dest!: find_SomeD)
qed

lemma round_robin_none:
  assumes "route_round_robin name accepts p = (p', None)" "find_slots p name = Some slots" "\<not> po_stopped p" "i < length slots"
  shows "sl_stopped (slots ! i) \<or> \<not> accepts (slots ! i)"
proof -
  let ?n = "length slots" and ?a = "unat (po_round_robin p)"
  have "find (\<lambda>i. \<not> sl_stopped (slots ! i) \<and> accepts (slots ! i)) (map (\<lambda>k. (?a mod ?n + k) mod ?n) [0..<?n]) = None"
    using assms by (auto simp: route_round_robin_def Let_def split: if_splits)
  then have all: "sl_stopped (slots ! ((?a mod ?n + k) mod ?n)) \<or> \<not> accepts (slots ! ((?a mod ?n + k) mod ?n))" if "k < ?n" for k
    using that by (auto simp: find_None_iff)
  have m: "?a mod ?n < ?n" using assms(4) by (intro mod_less_divisor) linarith
  let ?k = "(i + (?n - ?a mod ?n)) mod ?n"
  have "(?a mod ?n + ?k) mod ?n = (?a mod ?n + (i + (?n - ?a mod ?n))) mod ?n" by (simp add: mod_add_right_eq)
  also have "?a mod ?n + (i + (?n - ?a mod ?n)) = i + ?n" using m by simp
  finally have "(?a mod ?n + ?k) mod ?n = i" using assms(4) by simp
  moreover have "?k < ?n" using assms(4) by (intro mod_less_divisor) linarith
  ultimately show ?thesis using all [of ?k] by simp
qed

lemma slot_atI: "find_slots p name = Some slots \<Longrightarrow> i < length slots \<Longrightarrow> slot_at p name i = Some (slots ! i)"
  by (simp add: slot_at_def)

lemma route_idle_ok: "pool_ok p \<Longrightarrow> pool_ok (fst (route_idle name p))"
  by (auto simp: route_idle_def split: option.splits prod.splits dest!: round_robin_result(1))

lemma add_slot_at:
  assumes "omap_ok (po_slots p)"
  shows "slot_at (fst (add_slot name p)) n i =
    (if \<not> po_stopped p \<and> n = name \<and> i = length (case find_slots p name of None \<Rightarrow> [] | Some slots \<Rightarrow> slots) then Some new_slot else slot_at p n i)"
  using assms by (auto simp: add_slot_def Let_def slot_at_def find_slots_def nth_append split: option.splits)

lemma add_slot_simps [simp]:
  "po_entries (fst (add_slot name p)) = po_entries p" "po_keys (fst (add_slot name p)) = po_keys p"
  "omap_ok (po_slots p) \<Longrightarrow> omap_ok (po_slots (fst (add_slot name p)))" "omap_ok (po_indexes p) \<Longrightarrow> omap_ok (po_indexes (fst (add_slot name p)))"
  by (auto simp: add_slot_def Let_def)

lemma add_slot_indexes:
  assumes "tables_ok p"
  shows "map_of (po_indexes (fst (add_slot name p))) n = Some k \<longleftrightarrow>
      k < length (po_names (fst (add_slot name p))) \<and> po_names (fst (add_slot name p)) ! k = n"
    "map_of (po_indexes p) n = Some k \<Longrightarrow> map_of (po_indexes (fst (add_slot name p))) n = Some k"
    "map_of (po_indexes (fst (add_slot name p))) name \<noteq> None"
proof -
  note t = tables_okD [OF assms]
  have new: "map_of (po_indexes p) name = None \<Longrightarrow> k < length (po_names p) \<Longrightarrow> po_names p ! k \<noteq> name" for k using t(5) [of name k] by auto
  show "map_of (po_indexes (fst (add_slot name p))) n = Some k \<longleftrightarrow>
      k < length (po_names (fst (add_slot name p))) \<and> po_names (fst (add_slot name p)) ! k = n"
    using t(2) t(5) [of n k] new [of k] by (auto simp: add_slot_def Let_def nth_append less_Suc_eq)
  show "map_of (po_indexes p) n = Some k \<Longrightarrow> map_of (po_indexes (fst (add_slot name p))) n = Some k"
    using t(2) by (auto simp: add_slot_def Let_def)
  show "map_of (po_indexes (fst (add_slot name p))) name \<noteq> None" using t(2) by (auto simp: add_slot_def Let_def)
qed

lemma add_slot_ok:
  assumes "pool_ok p"
  shows "pool_ok (fst (add_slot name p))"
proof (rule pool_ok_quiet [OF assms])
  note T = pool_okD(1) [OF assms] note t = tables_okD [OF T] and x = add_slot_indexes [OF T] and at = add_slot_at [OF t(1)]
  have known: "map_of (po_indexes (fst (add_slot name p))) n \<noteq> None" if s: "slot_at (fst (add_slot name p)) n i = Some s" for n i s
  proof (cases "n = name")
    case False
    with s have "slot_at p n i = Some s" by (simp add: at)
    then obtain k where "map_of (po_indexes p) n = Some k" using t(6) by blast
    then show ?thesis using x(2) [of n k] by simp
  qed (use x(3) in simp)
  show "tables_ok (fst (add_slot name p))"
    unfolding tables_ok_def using t(1-4, 7) x(1) known by simp
  show "\<exists>s. slot_at p n i = Some s \<and> sl_state s \<noteq> Idle" if "slot_at (fst (add_slot name p)) n i = Some s'" "sl_state s' \<noteq> Idle" for n i s'
    using that by (auto simp: at new_slot_def split: if_splits)
  show "\<exists>s'. slot_at (fst (add_slot name p)) n i = Some s' \<and> sl_state s' \<noteq> Idle \<and> sl_generation s' = sl_generation s"
    if "slot_at p n i = Some s" "sl_state s \<noteq> Idle" for n i s
  proof -
    have "i \<noteq> length (case find_slots p n of None \<Rightarrow> [] | Some slots \<Rightarrow> slots)" using that(1) by (auto simp: slot_at_def split: option.splits if_splits)
    then show ?thesis using that by (auto simp: at)
  qed
qed (use add_slot_indexes [OF pool_okD(1) [OF assms]] in auto)

lemma stop_slot_ok: "pool_ok p \<Longrightarrow> pool_ok (stop_slot name i p)"
  by (auto simp: stop_slot_def split: option.splits intro!: pool_ok_set_slot intro: slot_atI)

lemma recover_slot_ok: "pool_ok p \<Longrightarrow> pool_ok (recover_slot name i p)"
  by (auto simp: recover_slot_def enable_recovery_def split: option.splits intro!: pool_ok_set_slot intro: slot_atI)

lemma stop_all_at: "slot_at (stop_and_join p) name i = map_option (\<lambda>s. s\<lparr>sl_stopped := True\<rparr>) (slot_at p name i)"
  by (auto simp: slot_at_def find_slots_def stop_and_join_def map_of_map split: option.splits)

lemma stop_join_simps [simp]:
  "po_entries (stop_and_join p) = po_entries p" "po_keys (stop_and_join p) = po_keys p" "po_indexes (stop_and_join p) = po_indexes p"
  "po_names (stop_and_join p) = po_names p" "map fst (po_slots (stop_and_join p)) = map fst (po_slots p)"
  by (auto simp: stop_and_join_def)

lemma stop_all_ok:
  assumes "pool_ok p"
  shows "pool_ok (stop_and_join p)"
proof (rule pool_ok_quiet [OF assms])
  note t = tables_okD [OF pool_okD(1) [OF assms]]
  show "tables_ok (stop_and_join p)"
    unfolding tables_ok_def stop_all_at stop_join_simps using t by (auto simp del: t(5))
qed (auto simp: stop_all_at)

text \<open>A registered handle, decoded, leads to its slot, and a handle that leads to a busy slot of its generation is registered.\<close>

lemma registered_decode:
  assumes "pool_ok p" "map_of (po_entries p) token = Some e"
  obtains name i s k where "en_slot e = (name, i)" "slot_at p name i = Some s" "sl_state s \<noteq> Idle" "sl_generation s = en_generation e" "sl_generation s \<noteq> 0"
    "decode_handle token = (k, i, sl_generation s)" "k < length (po_names p)" "po_names p ! k = name" "k \<le> max_index" "i \<le> max_index" "token \<noteq> 0"
proof -
  from pool_okD(2) [OF assms] obtain name i s k where x: "en_slot e = (name, i)" "slot_at p name i = Some s" "sl_state s \<noteq> Idle"
    "sl_generation s = en_generation e" "sl_generation s \<noteq> 0" "map_of (po_indexes p) name = Some k" "k \<le> max_index" "i \<le> max_index"
    "token = encode_handle k i (sl_generation s)" by (auto simp: entry_ok_def)
  have "k < length (po_names p)" "po_names p ! k = name" using x(6) tables_okD(5) [OF pool_okD(1) [OF assms(1)]] by auto
  then show thesis using that [OF x(1-5)] x(7-) decode_encode [OF x(7, 8)] encode_nonzero [OF x(7, 8) x(5)] by simp
qed

lemma busy_registered:
  assumes "pool_ok p" "decode_handle token = (k, i, g)" "k < length (po_names p)" "slot_at p (po_names p ! k) i = Some s" "sl_state s \<noteq> Idle" "sl_generation s = g"
  shows "\<exists>e. map_of (po_entries p) token = Some e \<and> en_slot e = (po_names p ! k, i)"
proof -
  obtain t e where e: "map_of (po_entries p) t = Some e" "en_slot e = (po_names p ! k, i)" using pool_okD(3) [OF assms(1, 4, 5)] by blast
  have x: "map_of (po_indexes p) (po_names p ! k) = Some k" using tables_okD(5) [OF pool_okD(1) [OF assms(1)]] assms(3) by simp
  have "t = encode_handle k i g" using pool_okD(2) [OF assms(1) e(1)] e(2) x assms(4, 6) by (auto simp: entry_ok_def)
  then show ?thesis using e encode_decode [OF assms(2)] by auto
qed

definition leads_to :: "pool \<Rightarrow> u64 \<Rightarrow> string \<times> nat \<Rightarrow> slot \<Rightarrow> bool" where
  "leads_to p token loc s \<longleftrightarrow> (\<exists>e. map_of (po_entries p) token = Some e \<and> en_slot e = loc) \<and> slot_at p (fst loc) (snd loc) = Some s"

lemma route_transaction_decode:
  "route_transaction token closing p = (p', Route loc t) \<longleftrightarrow>
     (\<exists>k i g s. decode_handle token = (k, i, g) \<and> k < length (po_names p) \<and> slot_at p (po_names p ! k) i = Some s \<and> sl_generation s = g \<and>
        sl_state s = Active \<and> loc = (po_names p ! k, i) \<and> t = token \<and> p' = (if closing then set_slot (po_names p ! k) i (s\<lparr>sl_state := Closing\<rparr>) p else p))"
  by (auto simp: route_transaction_def Let_def slot_at_def try_close_def split: prod.splits option.splits)

lemma route_transaction_failed: "route_transaction token closing p = (p', Failed err) \<Longrightarrow> p' = p"
  by (auto simp: route_transaction_def Let_def try_close_def split: prod.splits option.splits if_splits)

lemma route_transaction_iff:
  assumes "pool_ok p"
  shows "route_transaction token closing p = (p', Route loc t) \<longleftrightarrow>
    (\<exists>s. leads_to p token loc s \<and> sl_state s = Active \<and> t = token \<and>
       p' = (if closing then set_slot (fst loc) (snd loc) (s\<lparr>sl_state := Closing\<rparr>) p else p))" (is "?l \<longleftrightarrow> ?r")
proof
  assume ?l
  then obtain k i g s where x: "decode_handle token = (k, i, g)" "k < length (po_names p)" "slot_at p (po_names p ! k) i = Some s" "sl_generation s = g"
    "sl_state s = Active" "loc = (po_names p ! k, i)" "t = token" "p' = (if closing then set_slot (po_names p ! k) i (s\<lparr>sl_state := Closing\<rparr>) p else p)"
    unfolding route_transaction_decode by blast
  then show ?r using busy_registered [OF assms x(1-3) _ x(4)] by (auto simp: leads_to_def)
next
  assume ?r
  then obtain s e where x: "map_of (po_entries p) token = Some e" "en_slot e = loc" "slot_at p (fst loc) (snd loc) = Some s" "sl_state s = Active"
    "t = token" "p' = (if closing then set_slot (fst loc) (snd loc) (s\<lparr>sl_state := Closing\<rparr>) p else p)" unfolding leads_to_def by blast
  from registered_decode [OF assms x(1)] obtain name i s' k where y: "en_slot e = (name, i)" "slot_at p name i = Some s'"
    "decode_handle token = (k, i, sl_generation s')" "k < length (po_names p)" "po_names p ! k = name" by metis
  then show ?l unfolding route_transaction_decode using x by (intro exI [of _ k] exI [of _ i] exI [of _ "sl_generation s"] exI [of _ s]) auto
qed

lemma route_transaction_ok:
  assumes "pool_ok p"
  shows "pool_ok (fst (route_transaction token closing p))"
proof (cases "route_transaction token closing p")
  case (Pair p' r)
  show ?thesis
  proof (cases r)
    case (Route loc t)
    then obtain s where "slot_at p (fst loc) (snd loc) = Some s" "sl_state s = Active"
      "p' = (if closing then set_slot (fst loc) (snd loc) (s\<lparr>sl_state := Closing\<rparr>) p else p)"
      using Pair route_transaction_iff [OF assms, of token closing p' loc t] by (auto simp: leads_to_def)
    then show ?thesis using Pair assms pool_ok_set_slot [OF assms] by auto
  qed (use Pair assms in \<open>auto dest: route_transaction_failed\<close>)
qed

lemma route_key_ok: "pool_ok p \<Longrightarrow> pool_ok (fst (route_key key closing p))"
  by (simp add: route_key_def Let_def route_transaction_ok)

lemma find_transaction_zero:
  assumes "pool_ok p"
  shows "find_transaction key p = 0 \<longleftrightarrow> map_of (po_keys p) key = None"
proof (cases "map_of (po_keys p) key")
  case (Some t)
  then obtain e where e: "map_of (po_entries p) t = Some e" using tables_okD(7) [OF pool_okD(1) [OF assms]] by blast
  have "t \<noteq> 0" by (rule registered_decode [OF assms e]) simp
  then show ?thesis using Some by (simp add: find_transaction_def)
qed (simp add: find_transaction_def)

text \<open>The handle of the next transaction of an idle slot is not registered.\<close>

lemma next_handle_fresh:
  assumes "pool_ok p" "slot_at p name i = Some s" "sl_state s = Idle" "map_of (po_indexes p) name = Some k" "k \<le> max_index" "i \<le> max_index"
  shows "map_of (po_entries p) (encode_handle k i g) = None"
proof (rule ccontr)
  assume "map_of (po_entries p) (encode_handle k i g) \<noteq> None"
  then obtain e where e: "map_of (po_entries p) (encode_handle k i g) = Some e" by blast
  obtain n j s' k' where x: "slot_at p n j = Some s'" "sl_state s' \<noteq> Idle" "decode_handle (encode_handle k i g) = (k', j, sl_generation s')" "po_names p ! k' = n"
    by (rule registered_decode [OF assms(1) e]) simp
  have "k' = k" "j = i" using x(3) decode_encode [OF assms(5, 6), of g] by simp_all
  moreover have "po_names p ! k = name" using assms(4) tables_okD(5) [OF pool_okD(1) [OF assms(1)]] by simp
  ultimately show False using x(1, 2, 4) assms(2, 3) by simp
qed

text \<open>An acquisition in one view: the pool after a success, and what holds when it fails.\<close>

definition granted :: "string \<Rightarrow> nat \<Rightarrow> string \<Rightarrow> u64 \<Rightarrow> slot \<Rightarrow> pool \<Rightarrow> pool" where
  "granted name i key token s p =
     (set_slot name i (fst (try_acquire s)) p)\<lparr>po_round_robin := po_round_robin p + 1,
        po_entries := omap_set token \<lparr>en_slot = (name, i), en_generation = snd (try_acquire s), en_key = key\<rparr> (po_entries p),
        po_keys := (if key \<noteq> [] then omap_set key token (po_keys p) else po_keys p)\<rparr>"

definition grantable :: "pool \<Rightarrow> string \<Rightarrow> nat \<Rightarrow> string \<Rightarrow> nat \<Rightarrow> slot \<Rightarrow> bool" where
  "grantable p name i key k s \<longleftrightarrow> slot_at p name i = Some s \<and> sl_state s = Idle \<and> \<not> sl_stopped s \<and> \<not> po_stopped p \<and> map_of (po_keys p) key = None \<and>
     map_of (po_indexes p) name = Some k \<and> k \<le> max_index \<and> i \<le> max_index"

lemma round_robin_counter:
  "route_round_robin name accepts p = (p', Some i) \<Longrightarrow> p' = p\<lparr>po_round_robin := po_round_robin p + 1\<rparr>"
  by (auto simp: route_round_robin_def Let_def split: option.splits if_splits)

lemma omap_set_twice [simp]: "omap_set k v (omap_set k w m) = omap_set k v m"
  by (induction k w m rule: omap_set.induct) auto

lemma set_slot_twice: "omap_ok (po_slots p) \<Longrightarrow> set_slot name i s (set_slot name i s' p) = set_slot name i s p"
  by (auto simp: set_slot_def find_slots_def split: option.splits)

lemma idle_again: "sl_state s = Idle \<Longrightarrow> s\<lparr>sl_generation := g, sl_state := Idle\<rparr> = s\<lparr>sl_generation := g\<rparr>"
  by (cases s) simp

lemma no_key: "pool_ok p \<Longrightarrow> map_of (po_keys p) [] = None"
  using tables_okD(7) [OF pool_okD(1), of p "[]"] by (cases "map_of (po_keys p) []") auto

lemma acquire_value:
  assumes "pool_ok p" "map_of (po_keys p) key = None" "find_slots p name = Some slots" "map_of (po_indexes p) name = Some k" "k \<le> max_index"
    "route_round_robin name (\<lambda>s. snd (try_acquire s) \<noteq> 0) p = (p1, Some i)"
  defines "s \<equiv> slots ! i" and "token \<equiv> encode_handle k i (snd (try_acquire (slots ! i)))"
  shows "slot_at p name i = Some s \<and> sl_state s = Idle \<and> \<not> sl_stopped s \<and> \<not> po_stopped p"
    "acquire_transaction name key p =
       (if i \<le> max_index then (granted name i key token s p, Route (name, i) token)
        else (set_slot name i (s\<lparr>sl_generation := next_generation (sl_generation s)\<rparr>) (p\<lparr>po_round_robin := po_round_robin p + 1\<rparr>), Failed Slot_index_capacity))"
proof -
  note rr = assms(6) [unfolded round_robin_counter [OF assms(6)]]
  show s: "slot_at p name i = Some s \<and> sl_state s = Idle \<and> \<not> sl_stopped s \<and> \<not> po_stopped p"
    using round_robin_result(2) [OF rr, of i] assms(3) by (auto simp: try_acquire_def s_def slot_at_def split: if_splits)
  then have "slots \<noteq> []" using assms(3) by (auto simp: slot_at_def)
  have fresh: "i \<le> max_index \<Longrightarrow> map_of (po_entries p) token = None"
    using next_handle_fresh [OF assms(1) _ _ assms(4, 5)] s unfolding token_def by blast
  have "find_transaction key p = 0" using assms(2) by (simp add: find_transaction_def)
  have o: "omap_ok (po_slots p)" using tables_okD(1) [OF pool_okD(1) [OF assms(1)]] .
  show "acquire_transaction name key p =
       (if i \<le> max_index then (granted name i key token s p, Route (name, i) token)
        else (set_slot name i (s\<lparr>sl_generation := next_generation (sl_generation s)\<rparr>) (p\<lparr>po_round_robin := po_round_robin p + 1\<rparr>), Failed Slot_index_capacity))"
  proof (cases "i \<le> max_index")
    case True
    then show ?thesis
      using \<open>slots \<noteq> []\<close> \<open>find_transaction key p = 0\<close> assms(2-5) rr fresh [OF True] unfolding s_def token_def
      by (auto simp: acquire_transaction_def Let_def case_prod_beta insert_transaction_def granted_def)
  next
    case False
    then show ?thesis
      using \<open>slots \<noteq> []\<close> \<open>find_transaction key p = 0\<close> assms(2-5) rr s o unfolding s_def
      by (auto simp: acquire_transaction_def Let_def case_prod_beta try_acquire_def release_slot_def set_slot_twice idle_again)
  qed
qed

text \<open>The ways an acquisition ends: a grant, an index that no handle can hold, or nothing to grant.\<close>

lemma acquire_cases:
  assumes "pool_ok p"
  obtains (granted) i s k where "grantable p name i key k s"
      "acquire_transaction name key p =
         (granted name i key (encode_handle k i (snd (try_acquire s))) s p, Route (name, i) (encode_handle k i (snd (try_acquire s))))"
  | (capacity) i s f where "slot_at p name i = Some s" "sl_state s = Idle" "i > max_index" "acquire_transaction name key p =
         (set_slot name i (s\<lparr>sl_generation := next_generation (sl_generation s)\<rparr>) (po_round_robin_update f p), Failed Slot_index_capacity)"
  | (refused) f err where "\<not> (\<exists>i k s. grantable p name i key k s)" "acquire_transaction name key p = (po_round_robin_update f p, Failed err)" "err \<noteq> Slot_index_capacity"
proof -
  have id: "po_round_robin_update (\<lambda>x. x) p = p" by simp
  show thesis
  proof (cases "map_of (po_keys p) key = None \<and> (\<exists>slots k. find_slots p name = Some slots \<and> slots \<noteq> [] \<and> map_of (po_indexes p) name = Some k \<and> k \<le> max_index)")
    case False
    have "\<exists>err. acquire_transaction name key p = (p, Failed err) \<and> err \<noteq> Slot_index_capacity"
      using False find_transaction_zero [OF assms, of key] no_key [OF assms]
      by (auto simp: acquire_transaction_def split: option.splits)
    moreover have "\<not> (\<exists>i k s. grantable p name i key k s)" using False by (auto simp: grantable_def slot_at_def split: option.splits if_splits)
    ultimately show thesis using refused [of "\<lambda>x. x"] id by auto
  next
    case True
    then obtain slots k where x: "map_of (po_keys p) key = None" "find_slots p name = Some slots" "slots \<noteq> []" "map_of (po_indexes p) name = Some k" "k \<le> max_index"
      by blast
    obtain p1 r where rr: "route_round_robin name (\<lambda>s. snd (try_acquire s) \<noteq> 0) p = (p1, r)" by fastforce
    then obtain f where f: "p1 = po_round_robin_update f p" using round_robin_result(1) by blast
    show thesis
    proof (cases r)
      case None
      have "find_transaction key p = 0" using x(1) by (simp add: find_transaction_def)
      then have "acquire_transaction name key p = (p1, Failed (Transactions_exhausted name))"
        using x rr None by (simp add: acquire_transaction_def)
      moreover have "\<not> grantable p name i key k' s" for i k' s
      proof
        assume g: "grantable p name i key k' s"
        then have "slots ! i = s" "i < length slots" "\<not> po_stopped p" using x(2) by (auto simp: grantable_def slot_at_def split: if_splits)
        then show False using round_robin_none [OF rr [unfolded None] x(2), of i] g by (auto simp: grantable_def try_acquire_def)
      qed
      ultimately show thesis using refused f by blast
    next
      case (Some i)
      note v = acquire_value [OF assms x(1, 2, 4, 5) rr [unfolded Some]]
      show thesis
      proof (cases "i \<le> max_index")
        case True
        then show thesis using granted [of i k "slots ! i"] v x by (auto simp: grantable_def)
      next
        case False
        then show thesis using capacity [of i "slots ! i" "\<lambda>_. po_round_robin p + 1"] v by auto
      qed
    qed
  qed
qed

lemma granted_at:
  assumes "omap_ok (po_slots p)" "slot_at p name i = Some s"
  shows "slot_at (granted name i key token s p) n j = (if (n, j) = (name, i) then Some (fst (try_acquire s)) else slot_at p n j)"
  using assms by (simp add: granted_def slot_at_set)

lemma granted_fields [simp]:
  "po_indexes (granted name i key token s p) = po_indexes p" "po_names (granted name i key token s p) = po_names p"
  "omap_ok (po_slots p) \<Longrightarrow> omap_ok (po_slots (granted name i key token s p))"
  "omap_ok (po_entries p) \<Longrightarrow> map_of (po_entries (granted name i key token s p)) =
     (map_of (po_entries p))(token \<mapsto> \<lparr>en_slot = (name, i), en_generation = snd (try_acquire s), en_key = key\<rparr>)"
  "omap_ok (po_keys p) \<Longrightarrow> map_of (po_keys (granted name i key token s p)) = (if key \<noteq> [] then (map_of (po_keys p))(key \<mapsto> token) else map_of (po_keys p))"
  "omap_ok (po_entries p) \<Longrightarrow> omap_ok (po_entries (granted name i key token s p))" "omap_ok (po_keys p) \<Longrightarrow> omap_ok (po_keys (granted name i key token s p))"
  by (auto simp: granted_def fun_eq_iff)

lemma entry_ok_keep:
  assumes "entry_ok p token e" "po_indexes p' = po_indexes p"
    "\<And>n j s. en_slot e = (n, j) \<Longrightarrow> slot_at p n j = Some s \<Longrightarrow> sl_state s \<noteq> Idle \<Longrightarrow> slot_at p' n j = Some s"
  shows "entry_ok p' token e"
  using assms(1) unfolding entry_ok_def assms(2) using assms(3) by blast

lemma granted_ok:
  assumes "pool_ok p" "grantable p name i key k s" "token = encode_handle k i (snd (try_acquire s))"
  shows "pool_ok (granted name i key token s p)"
proof (rule pool_okI)
  let ?p = "granted name i key token s p"
  note T = pool_okD(1) [OF assms(1)] and t = tables_okD [OF pool_okD(1) [OF assms(1)]]
  have g: "slot_at p name i = Some s" "sl_state s = Idle" "map_of (po_keys p) key = None" "map_of (po_indexes p) name = Some k" "k \<le> max_index" "i \<le> max_index"
    using assms(2) by (auto simp: grantable_def)
  have acq: "sl_state (fst (try_acquire s)) = Active" "sl_generation (fst (try_acquire s)) = snd (try_acquire s)" "snd (try_acquire s) \<noteq> 0"
    using g(2) by (auto simp: try_acquire_def)
  note at = granted_at [OF t(1) g(1), of key token]
  have fresh: "map_of (po_entries p) token = None" unfolding assms(3) by (rule next_handle_fresh [OF assms(1) g(1, 2, 4-6)])
  have nokey: "map_of (po_entries p) t' = Some e \<Longrightarrow> en_key e \<noteq> [] \<Longrightarrow> en_key e \<noteq> key" for t' e using t(7) [of key t'] g(3) by auto
  have keys: "map_of (po_keys ?p) key' = Some t' \<longleftrightarrow> key' \<noteq> [] \<and> (\<exists>e. map_of (po_entries ?p) t' = Some e \<and> en_key e = key')" for key' t'
    using t(3, 4) t(7) [of key' t'] fresh nokey [of t'] by auto
  show "tables_ok ?p" unfolding tables_ok_def using t(1-6) g(4) keys by (auto simp: at split: if_splits)
  show "entry_ok ?p t' e" if e: "map_of (po_entries ?p) t' = Some e" for t' e
  proof (cases "t' = token")
    case True
    then have "e = \<lparr>en_slot = (name, i), en_generation = snd (try_acquire s), en_key = key\<rparr>" using e t(3) by simp
    then show ?thesis unfolding entry_ok_def at using True g acq assms(3) by auto
  next
    case False
    then have "entry_ok p t' e" using e t(3) pool_okD(2) [OF assms(1)] by simp
    then show ?thesis by (rule entry_ok_keep) (use g(1, 2) in \<open>auto simp: at\<close>)
  qed
  show "\<exists>t' e. map_of (po_entries ?p) t' = Some e \<and> en_slot e = (n, j)" if busy: "slot_at ?p n j = Some s'" "sl_state s' \<noteq> Idle" for n j s'
  proof (cases "(n, j) = (name, i)")
    case True
    then show ?thesis using t(3) by (intro exI [of _ token]) simp
  next
    case False
    then have "slot_at p n j = Some s'" using busy(1) by (simp add: at del: prod.inject)
    then obtain t' e where "map_of (po_entries p) t' = Some e" "en_slot e = (n, j)" using busy(2) pool_okD(3) [OF assms(1)] by blast
    then show ?thesis using t(3) fresh by (intro exI [of _ t']) auto
  qed
qed

lemma acquire_ok:
  assumes "pool_ok p"
  shows "pool_ok (fst (acquire_transaction name key p))"
  using assms
proof (cases rule: acquire_cases [where name = name and key = key])
  case (granted i s k)
  then show ?thesis using granted_ok [OF assms granted(1)] by simp
next
  case (capacity i s f)
  have "pool_ok (set_slot name i (s\<lparr>sl_generation := next_generation (sl_generation s)\<rparr>) p)"
    by (rule pool_ok_set_slot [OF assms capacity(1)]) (use capacity(2) in auto)
  then show ?thesis using capacity by simp
qed (use assms in simp)

text \<open>The release of a registered handle always succeeds.\<close>

definition released :: "u64 \<Rightarrow> entry \<Rightarrow> slot \<Rightarrow> pool \<Rightarrow> pool" where
  "released token e s p =
     (set_slot (fst (en_slot e)) (snd (en_slot e)) (s\<lparr>sl_state := Idle\<rparr>) p)\<lparr>
        po_keys := (if en_key e \<noteq> [] then omap_erase (en_key e) (po_keys p) else po_keys p), po_entries := omap_erase token (po_entries p)\<rparr>"

lemma release_value:
  assumes "pool_ok p" "map_of (po_entries p) token = Some e"
  obtains s where "slot_at p (fst (en_slot e)) (snd (en_slot e)) = Some s" "sl_state s \<noteq> Idle" "release_transaction token p = (released token e s p, True)"
proof -
  obtain name i s where x: "en_slot e = (name, i)" "slot_at p name i = Some s" "sl_state s \<noteq> Idle" "sl_generation s = en_generation e"
    by (rule registered_decode [OF assms]) simp
  then have "release_transaction token p = (released token e s p, True)"
    using assms(2) by (auto simp: release_transaction_def released_def slot_at_def release_slot_def Let_def split: option.splits if_splits)
  then show thesis using that x by simp
qed

lemma released_ok:
  assumes "pool_ok p" "map_of (po_entries p) token = Some e" "slot_at p (fst (en_slot e)) (snd (en_slot e)) = Some s"
  shows "pool_ok (released token e s p)"
proof (rule pool_okI)
  let ?p = "released token e s p"
  note t = tables_okD [OF pool_okD(1) [OF assms(1)]]
  obtain name i where ni: "en_slot e = (name, i)" by fastforce
  have at: "slot_at ?p n j = (if (n, j) = (name, i) then Some (s\<lparr>sl_state := Idle\<rparr>) else slot_at p n j)" for n j
    using t(1) assms(3) ni by (simp add: released_def slot_at_set)
  have ent: "map_of (po_entries ?p) t' = (if t' = token then None else map_of (po_entries p) t')" for t' by (simp add: released_def)
  have other: "en_slot e' \<noteq> (name, i)" if "map_of (po_entries p) t' = Some e'" "t' \<noteq> token" for t' e'
    using entry_of_slot [OF assms(1) that(1) assms(2)] that(2) ni by auto
  have key: "map_of (po_keys p) (en_key e) = Some t' \<Longrightarrow> t' = token" for t'
    using t(7) [of "en_key e" token] assms(2) t(7) [of "en_key e" t'] by auto
  have keys: "map_of (po_keys ?p) key' = Some t' \<longleftrightarrow> key' \<noteq> [] \<and> (\<exists>e. map_of (po_entries ?p) t' = Some e \<and> en_key e = key')" for key' t'
  proof (cases "key' = en_key e \<and> key' \<noteq> []")
    case True
    have "\<not> (\<exists>e'. map_of (po_entries ?p) t' = Some e' \<and> en_key e' = key')"
      using t(7) [of key' t'] key [of t'] True by (auto simp: ent split: if_splits)
    then show ?thesis using True by (auto simp: released_def)
  next
    case False
    then have "map_of (po_keys ?p) key' = map_of (po_keys p) key'" by (auto simp: released_def)
    then show ?thesis using t(7) [of key' t'] False assms(2) by (auto simp: ent)
  qed
  have o: "omap_ok (po_slots ?p)" "omap_ok (po_indexes ?p)" "omap_ok (po_entries ?p)" "omap_ok (po_keys ?p)" "po_indexes ?p = po_indexes p" "po_names ?p = po_names p"
    using t(1-4) by (auto simp: released_def)
  have known: "map_of (po_indexes p) name \<noteq> None" using t(6) assms(3) ni by simp
  show "tables_ok ?p" unfolding tables_ok_def using o t(5, 6) known keys by (auto simp: at split: if_splits)
  show "entry_ok ?p t' e'" if e: "map_of (po_entries ?p) t' = Some e'" for t' e'
  proof -
    have e': "map_of (po_entries p) t' = Some e'" "t' \<noteq> token" using e by (auto simp: ent split: if_splits)
    show ?thesis by (rule entry_ok_keep [OF pool_okD(2) [OF assms(1) e'(1)] o(5)]) (use other [OF e'] in \<open>auto simp: at\<close>)
  qed
  show "\<exists>t' e'. map_of (po_entries ?p) t' = Some e' \<and> en_slot e' = (n, j)" if busy: "slot_at ?p n j = Some s'" "sl_state s' \<noteq> Idle" for n j s'
  proof -
    have n: "(n, j) \<noteq> (name, i)" "slot_at p n j = Some s'" using busy by (auto simp: at split: if_splits)
    then obtain t' e' where "map_of (po_entries p) t' = Some e'" "en_slot e' = (n, j)" using busy(2) pool_okD(3) [OF assms(1)] by blast
    then show ?thesis using n(1) ni assms(2) by (intro exI [of _ t'] exI [of _ e']) (auto simp: ent)
  qed
qed

lemma release_ok: "pool_ok p \<Longrightarrow> pool_ok (fst (release_transaction token p))"
proof (cases "map_of (po_entries p) token")
  case (Some e)
  assume ok: "pool_ok p"
  obtain s where "slot_at p (fst (en_slot e)) (snd (en_slot e)) = Some s" "release_transaction token p = (released token e s p, True)"
    by (rule release_value [OF ok Some]) simp
  then show ?thesis using released_ok [OF ok Some] by simp
qed (simp add: release_transaction_def)

lemma new_pool_ok: "pool_ok new_pool"
  by (simp add: pool_ok_def tables_ok_def new_pool_def slot_at_def find_slots_def)

lemma pool_step_ok: "pool_step p l p' \<Longrightarrow> pool_ok p \<Longrightarrow> pool_ok p'"
  by (induction rule: pool_step.induct)
    (auto simp: add_slot_ok route_idle_ok acquire_ok route_transaction_ok route_key_ok release_ok recover_slot_ok stop_slot_ok stop_all_ok)

lemma pool_run_ok: "pool_run p ts p' \<Longrightarrow> pool_ok p \<Longrightarrow> pool_ok p'"
  by (induction rule: pool_run.induct) (auto simp: pool_step_ok)

section \<open>Generations\<close>

lemma unat_next_generation:
  assumes "g \<noteq> 0"
  shows "unat (next_generation g) = (if unat g = 2 ^ 32 - 1 then 1 else unat g + 1)"
proof (cases "g = - 1")
  case True
  then show ?thesis by (simp add: next_generation_def unsigned_minus_1_eq_mask mask_eq_exp_minus_1)
next
  case False
  then have "unat g \<noteq> 2 ^ 32 - 1" by (auto simp: word_unat_eq_iff unsigned_minus_1_eq_mask mask_eq_exp_minus_1)
  moreover have "unat g < 2 ^ 32" using unsigned_less [of g, where ?'a = nat] by simp
  moreover have "g + 1 \<noteq> 0" using False by (metis add.right_cancel add.left_inverse)
  ultimately show ?thesis using assms by (simp add: next_generation_def unat_word_ariths)
qed

text \<open>The generations run through the \<open>2\<^sup>3\<^sup>2 - 1\<close> non-zero values in a cycle.\<close>

lemma unat_generation_cycle: "g \<noteq> 0 \<Longrightarrow> unat ((next_generation ^^ n) g) = (unat g - 1 + n) mod (2 ^ 32 - 1) + 1 \<and> (next_generation ^^ n) g \<noteq> 0"
proof (induction n)
  case 0
  have "unat g < 2 ^ 32" "unat g \<noteq> 0" using unsigned_less [of g, where ?'a = nat] 0 by (auto simp: unsigned_eq_0_iff)
  then show ?case using 0 by simp
next
  case (Suc n)
  let ?h = "(next_generation ^^ n) g" and ?m = "unat g - 1 + n"
  have "unat ?h = ?m mod (2 ^ 32 - 1) + 1" "?h \<noteq> 0" using Suc by auto
  then show ?case using unat_next_generation [of ?h] mod_Suc [of ?m "2 ^ 32 - 1"] by simp
qed

lemma generation_cycle:
  assumes "g \<noteq> 0"
  shows "(next_generation ^^ n) g = g \<longleftrightarrow> (2 ^ 32 - 1) dvd n"
proof -
  have g: "unat g < 2 ^ 32" "unat g \<noteq> 0" using unsigned_less [of g, where ?'a = nat] assms by (auto simp: unsigned_eq_0_iff)
  have "(next_generation ^^ n) g = g \<longleftrightarrow> (unat g - 1 + n) mod (2 ^ 32 - 1) = unat g - 1"
    using unat_generation_cycle [OF assms, of n] g(2) unfolding word_unat_eq_iff by auto
  also have "\<dots> \<longleftrightarrow> (unat g - 1 + n) mod (2 ^ 32 - 1) = (unat g - 1) mod (2 ^ 32 - 1)" using g by simp
  also have "\<dots> \<longleftrightarrow> (2 ^ 32 - 1) dvd n" using mod_eq_dvd_iff_nat [of "unat g - 1" "unat g - 1 + n" "2 ^ 32 - 1"] by simp
  finally show ?thesis .
qed

section \<open>Runs and the slots they touch\<close>

definition handle_slot :: "u64 \<Rightarrow> nat \<times> nat" where
  "handle_slot token = (case decode_handle token of (k, i, g) \<Rightarrow> (k, i))"

abbreviation grants_of :: "nat \<times> nat \<Rightarrow> u64 option \<Rightarrow> nat" where
  "grants_of loc l \<equiv> (case l of Some t \<Rightarrow> if handle_slot t = loc then 1 else 0 | None \<Rightarrow> 0)"

definition slot_kept :: "pool \<Rightarrow> pool \<Rightarrow> bool" where
  "slot_kept p p' \<longleftrightarrow> (\<forall>name i s. slot_at p name i = Some s \<longrightarrow> (\<exists>s'. slot_at p' name i = Some s' \<and> sl_generation s' = sl_generation s)) \<and>
     (\<forall>name k. map_of (po_indexes p) name = Some k \<longrightarrow> map_of (po_indexes p') name = Some k) \<and>
     (\<forall>token. map_of (po_entries p) token = None \<longrightarrow> map_of (po_entries p') token = None)"

lemma slot_kept_refl: "slot_kept p (po_round_robin_update f p)" "slot_kept p p"
  by (auto simp: slot_kept_def)

lemma slot_kept_set:
  assumes "pool_ok p" "slot_at p name i = Some s" "sl_generation s' = sl_generation s"
  shows "slot_kept p (set_slot name i s' p)"
  using assms slot_at_set [OF tables_okD(1) [OF pool_okD(1) [OF assms(1)]], of name i s'] by (auto simp: slot_kept_def)

lemma add_slot_kept:
  assumes "pool_ok p"
  shows "slot_kept p (fst (add_slot name p))"
proof -
  note t = tables_okD [OF pool_okD(1) [OF assms]]
  have "\<exists>s'. slot_at (fst (add_slot name p)) n i = Some s' \<and> sl_generation s' = sl_generation s" if s: "slot_at p n i = Some s" for n i s
  proof -
    have "i \<noteq> length (case find_slots p n of None \<Rightarrow> [] | Some slots \<Rightarrow> slots)" using s by (auto simp: slot_at_def split: option.splits if_splits)
    then show ?thesis using s by (auto simp: add_slot_at [OF t(1)])
  qed
  then show ?thesis using add_slot_indexes(2) [OF pool_okD(1) [OF assms]] by (auto simp: slot_kept_def)
qed

lemma route_transaction_kept:
  assumes "pool_ok p"
  shows "slot_kept p (fst (route_transaction token closing p))"
proof (cases "route_transaction token closing p")
  case (Pair p' r)
  show ?thesis
  proof (cases r)
    case (Route loc t)
    then obtain s where "slot_at p (fst loc) (snd loc) = Some s"
      "p' = (if closing then set_slot (fst loc) (snd loc) (s\<lparr>sl_state := Closing\<rparr>) p else p)"
      using Pair route_transaction_iff [OF assms, of token closing p' loc t] by (auto simp: leads_to_def)
    then show ?thesis using Pair slot_kept_refl slot_kept_set [OF assms] by auto
  qed (use Pair slot_kept_refl in \<open>auto dest: route_transaction_failed\<close>)
qed

lemma released_kept:
  assumes "pool_ok p" "slot_at p (fst (en_slot e)) (snd (en_slot e)) = Some s"
  shows "slot_kept p (released token e s p)"
  using slot_kept_set [OF assms, of "s\<lparr>sl_state := Idle\<rparr>"] by (auto simp: slot_kept_def released_def)

lemma pool_step_kept:
  assumes "pool_step p l p'" "pool_ok p"
  shows "slot_kept p p' \<and> l = None \<or> (\<exists>name key. p' = fst (acquire_transaction name key p) \<and> l = granted_token (snd (acquire_transaction name key p)))"
  using assms
proof (induction rule: pool_step.induct)
  case (Add_slot p name)
  then show ?case by (simp add: add_slot_kept)
next
  case (Route_idle p name)
  then show ?case by (auto simp: route_idle_def slot_kept_refl split: option.splits prod.splits dest!: round_robin_result(1))
next
  case (Route_handle p token closing)
  then show ?case by (simp add: route_transaction_kept)
next
  case (Route_by_key p key closing)
  then show ?case by (simp add: route_key_def Let_def route_transaction_kept slot_kept_refl)
next
  case (Release p token)
  show ?case
  proof (cases "map_of (po_entries p) token")
    case (Some e)
    show ?thesis by (rule release_value [OF Release Some]) (use released_kept [OF Release] in auto)
  qed (simp add: release_transaction_def slot_kept_refl)
next
  case (Recovery p name i)
  then show ?case by (auto simp: recover_slot_def enable_recovery_def slot_kept_refl slot_kept_set slot_atI split: option.splits)
next
  case (Stop_slot p name i)
  then show ?case by (auto simp: stop_slot_def slot_kept_refl slot_kept_set slot_atI split: option.splits)
next
  case (Stop_all p)
  then show ?case by (auto simp: slot_kept_def stop_all_at)
qed blast

lemma handle_slot_encode [simp]: "k \<le> max_index \<Longrightarrow> i \<le> max_index \<Longrightarrow> handle_slot (encode_handle k i g) = (k, i)"
  by (simp add: handle_slot_def decode_encode)

text \<open>A slot that handles can name advances by one generation per grant, and a handle becomes registered only by a grant.\<close>

lemma pool_step_generation:
  assumes "pool_step p l p'" "pool_ok p" "slot_at p name i = Some s" "map_of (po_indexes p) name = Some k" "k \<le> max_index" "i \<le> max_index"
  shows "\<exists>s'. slot_at p' name i = Some s' \<and> sl_generation s' = (next_generation ^^ grants_of (k, i) l) (sl_generation s)"
    and "map_of (po_indexes p') name = Some k" and "map_of (po_entries p) token = None \<Longrightarrow> l \<noteq> Some token \<Longrightarrow> map_of (po_entries p') token = None"
proof -
  note t = tables_okD [OF pool_okD(1) [OF assms(2)]]
  let ?goal = "(\<exists>s'. slot_at p' name i = Some s' \<and> sl_generation s' = (next_generation ^^ grants_of (k, i) l) (sl_generation s)) \<and>
    map_of (po_indexes p') name = Some k \<and> (map_of (po_entries p) token = None \<longrightarrow> l \<noteq> Some token \<longrightarrow> map_of (po_entries p') token = None)"
  have ?goal
  proof (cases "slot_kept p p' \<and> l = None")
    case True
    then show ?thesis using assms(3, 4) by (auto simp: slot_kept_def)
  next
    case False
    then obtain n key where p': "p' = fst (acquire_transaction n key p)" "l = granted_token (snd (acquire_transaction n key p))"
      using pool_step_kept [OF assms(1, 2)] by blast
    from assms(2) show ?thesis
    proof (cases rule: acquire_cases [where name = n and key = key])
      case (granted j s' k')
      let ?t = "encode_handle k' j (snd (try_acquire s'))"
      have g: "slot_at p n j = Some s'" "sl_state s' = Idle" "map_of (po_indexes p) n = Some k'" "k' \<le> max_index" "j \<le> max_index"
        using granted(1) by (auto simp: grantable_def)
      have e: "p' = granted n j key ?t s' p" using p' granted(2) by simp
      have l: "l = Some ?t" using p' granted(2) by (simp add: granted_token_def)
      have same: "n = name \<and> j = i" if "k' = k" "j = i" using that g(3) assms(4) t(5) by metis
      show ?thesis using e l g assms(3, 4) t(1, 3) same
        by (auto simp: granted_at try_acquire_def)
    next
      case (capacity j s' f)
      then show ?thesis using p' assms t(1) by (auto simp: granted_token_def slot_at_set)
    next
      case (refused f err)
      then show ?thesis using p' assms by (auto simp: granted_token_def)
    qed
  qed
  then show "\<exists>s'. slot_at p' name i = Some s' \<and> sl_generation s' = (next_generation ^^ grants_of (k, i) l) (sl_generation s)"
    "map_of (po_indexes p') name = Some k" "map_of (po_entries p) token = None \<Longrightarrow> l \<noteq> Some token \<Longrightarrow> map_of (po_entries p') token = None"
    by auto
qed

abbreviation grants :: "nat \<times> nat \<Rightarrow> u64 list \<Rightarrow> nat" where
  "grants loc ts \<equiv> length (filter (\<lambda>t. handle_slot t = loc) ts)"

lemma pool_run_generation:
  assumes "pool_run p ts p'" "pool_ok p" "slot_at p name i = Some s" "map_of (po_indexes p) name = Some k" "k \<le> max_index" "i \<le> max_index"
  shows "(\<exists>s'. slot_at p' name i = Some s' \<and> sl_generation s' = (next_generation ^^ grants (k, i) ts) (sl_generation s)) \<and> map_of (po_indexes p') name = Some k"
  using assms(1)
proof (induction rule: pool_run.induct)
  case (Step ts p' l p'')
  then obtain s' where s': "slot_at p' name i = Some s'" "sl_generation s' = (next_generation ^^ grants (k, i) ts) (sl_generation s)" "map_of (po_indexes p') name = Some k"
    by blast
  note g = pool_step_generation [OF Step.hyps(2) pool_run_ok [OF Step.hyps(1) assms(2)] s'(1, 3) assms(5, 6)]
  have "grants (k, i) (ts @ (case l of None \<Rightarrow> [] | Some t \<Rightarrow> [t])) = grants_of (k, i) l + grants (k, i) ts" by (auto split: option.splits)
  then have "(next_generation ^^ grants (k, i) (ts @ (case l of None \<Rightarrow> [] | Some t \<Rightarrow> [t]))) (sl_generation s) =
      (next_generation ^^ grants_of (k, i) l) (sl_generation s')" unfolding s'(2) by (simp only: funpow_add o_apply)
  then show ?case using g(1, 2) by simp
qed (use assms in auto)

text \<open>A handle is not registered again before all other generations of its slot were granted.\<close>

lemma stale_unregistered:
  assumes "pool_run p ts p'" "pool_ok p" "slot_at p name i = Some s" "map_of (po_indexes p) name = Some k" "k \<le> max_index" "i \<le> max_index" "sl_generation s \<noteq> 0"
    "map_of (po_entries p) (encode_handle k i (sl_generation s)) = None" "grants (k, i) ts < 2 ^ 32 - 1"
  shows "map_of (po_entries p') (encode_handle k i (sl_generation s)) = None"
  using assms(1, 9)
proof (induction rule: pool_run.induct)
  case (Step ts p' l p'')
  let ?t = "encode_handle k i (sl_generation s)"
  note run = pool_run.Step [OF Step.hyps] and ok = pool_run_ok [OF Step.hyps(1) assms(2)]
  have old: "map_of (po_entries p') ?t = None" using Step by auto
  obtain s' where s': "slot_at p' name i = Some s'" "map_of (po_indexes p') name = Some k" using pool_run_generation [OF Step.hyps(1) assms(2-6)] by blast
  show ?case
  proof (cases "l = Some ?t")
    case False
    then show ?thesis using pool_step_generation(3) [OF Step.hyps(2) ok s' assms(5, 6) old] by blast
  next
    case True
    obtain s'' where s'': "slot_at p'' name i = Some s''" "map_of (po_indexes p'') name = Some k"
      "sl_generation s'' = (next_generation ^^ (Suc (grants (k, i) ts))) (sl_generation s)"
      using pool_run_generation [OF run assms(2-6)] True assms(5, 6) by auto
    have "Suc (grants (k, i) ts) < 2 ^ 32 - 1" using Step.prems True assms(5, 6) by simp
    then have "\<not> (2 ^ 32 - 1) dvd Suc (grants (k, i) ts)" using nat_dvd_not_less [of "Suc (grants (k, i) ts)"] by simp
    then have "sl_generation s'' \<noteq> sl_generation s" unfolding s''(3) generation_cycle [OF assms(7)] .
    show ?thesis
    proof (rule ccontr)
      assume "map_of (po_entries p'') ?t \<noteq> None"
      then obtain e where e: "map_of (po_entries p'') ?t = Some e" by blast
      obtain n j x k' where x: "slot_at p'' n j = Some x" "decode_handle ?t = (k', j, sl_generation x)" "po_names p'' ! k' = n"
        by (rule registered_decode [OF pool_run_ok [OF run assms(2)] e]) simp
      have "k' = k" "j = i" "sl_generation x = sl_generation s" using x(2) decode_encode [OF assms(5, 6), of "sl_generation s"] by simp_all
      moreover have "po_names p'' ! k = name" using s''(2) tables_okD(5) [OF pool_okD(1) [OF pool_run_ok [OF run assms(2)]]] by simp
      ultimately show False using x(1, 3) s''(1) \<open>sl_generation s'' \<noteq> sl_generation s\<close> by simp
    qed
  qed
qed (use assms(8) in simp)

section \<open>Properties\<close>

lemma grant_effect:
  assumes "pool_ok p" "acquire_transaction name key p = (p', Route loc token)"
  shows "fst loc = name \<and> token \<noteq> 0 \<and> map_of (po_entries p) token = None \<and> (\<exists>s. slot_at p name (snd loc) = Some s \<and> sl_state s = Idle \<and> \<not> sl_stopped s) \<and>
    (\<exists>s. leads_to p' token loc s \<and> sl_state s = Active) \<and> find_transaction key p' = (if key = [] then 0 else token)"
  using assms(1)
proof (cases rule: acquire_cases [where name = name and key = key])
  case (granted i s k)
  have g: "slot_at p name i = Some s" "sl_state s = Idle" "\<not> sl_stopped s" "map_of (po_indexes p) name = Some k" "k \<le> max_index" "i \<le> max_index"
    using granted(1) by (auto simp: grantable_def)
  let ?t = "encode_handle k i (snd (try_acquire s))"
  have r: "loc = (name, i)" "token = ?t" "p' = granted name i key ?t s p" using granted(2) assms(2) by auto
  have "?t \<noteq> 0" using encode_nonzero [OF g(5, 6)] g(2) by (simp add: try_acquire_def)
  moreover have "map_of (po_entries p) ?t = None" by (rule next_handle_fresh [OF assms(1) g(1, 2, 4-6)])
  moreover note t = tables_okD [OF pool_okD(1) [OF assms(1)]]
  have "leads_to p' token loc (fst (try_acquire s))" using r t(1, 3) g(1) by (simp add: leads_to_def granted_at)
  moreover have "sl_state (fst (try_acquire s)) = Active" using g(2) by (simp add: try_acquire_def)
  moreover have "find_transaction key p' = (if key = [] then 0 else token)" using r t(4) no_key [OF assms(1)] by (simp add: find_transaction_def)
  ultimately show ?thesis using r g by auto
qed (use assms(2) in auto)

lemma exclusive_ok:
  assumes "pool_ok p" "slot_at p name i = Some s"
  shows "sl_state s \<noteq> Idle \<longleftrightarrow> (\<exists>!token. leads_to p token (name, i) s)"
proof
  assume "sl_state s \<noteq> Idle"
  then obtain token e where "map_of (po_entries p) token = Some e" "en_slot e = (name, i)" using pool_okD(3) [OF assms] by blast
  then show "\<exists>!token. leads_to p token (name, i) s"
    using assms(2) entry_of_slot [OF assms(1)] by (auto simp: leads_to_def intro!: ex1I [of _ token])
next
  assume "\<exists>!token. leads_to p token (name, i) s"
  then obtain token e where e: "map_of (po_entries p) token = Some e" "en_slot e = (name, i)" by (auto simp: leads_to_def)
  show "sl_state s \<noteq> Idle" by (rule registered_decode [OF assms(1) e(1)]) (use e(2) assms(2) in auto)
qed

text \<open>C20. Transactions are exclusive.  In every state the pool reaches, a connection is in a transaction exactly when one registered handle, and no other,
  leads to it.  A handle is routed exactly while it is registered and its transaction is active, to its own connection.  An acquisition that succeeds
  takes an idle connection of the pool it was asked for, gives it a handle that was not registered, and the request key finds that handle.\<close>

theorem transactions_exclusive:
  assumes "pool_run new_pool ts p" "slot_at p name i = Some s"
  shows "(sl_state s \<noteq> Idle \<longleftrightarrow> (\<exists>!token. leads_to p token (name, i) s)) \<and>
    ((\<exists>p'. route_transaction t closing p = (p', Route loc t)) \<longleftrightarrow> (\<exists>s'. leads_to p t loc s' \<and> sl_state s' = Active)) \<and>
    (acquire_transaction name key p = (p', Route loc t) \<longrightarrow>
       fst loc = name \<and> t \<noteq> 0 \<and> map_of (po_entries p) t = None \<and> (\<exists>s. slot_at p name (snd loc) = Some s \<and> sl_state s = Idle \<and> \<not> sl_stopped s) \<and>
       (\<exists>s. leads_to p' t loc s \<and> sl_state s = Active) \<and> find_transaction key p' = (if key = [] then 0 else t))"
proof -
  have ok: "pool_ok p" by (rule pool_run_ok [OF assms(1) new_pool_ok])
  show ?thesis
    using exclusive_ok [OF ok assms(2)] route_transaction_iff [OF ok, of t closing _ loc t] grant_effect [OF ok, of name key p' loc t] by blast
qed

definition pool_one :: pool where
  "pool_one = fst (add_slot ''db'' new_pool)"

definition pool_granted :: pool where
  "pool_granted = fst (acquire_transaction ''db'' ''k'' pool_one)"

lemmas pool_eval = pool_one_def pool_granted_def new_pool_def add_slot_def acquire_transaction_def find_transaction_def find_slots_def new_slot_def
  route_round_robin_def try_acquire_def next_generation_def set_slot_def insert_transaction_def encode_handle_def max_index_def Let_def

lemma pool_one_value:
  "pool_one = \<lparr>po_slots = [(''db'', [new_slot])], po_round_robin = 0, po_stopped = False, po_indexes = [(''db'', 0)], po_names = [''db''], po_entries = [], po_keys = []\<rparr>"
  by (simp add: pool_eval)

lemma acquire_one: "acquire_transaction ''db'' ''k'' pool_one = (pool_granted, Route (''db'', 0) 0x100000000)"
  by (simp add: pool_granted_def) (simp add: pool_eval)

lemma run_one: "pool_run new_pool [0x100000000] pool_granted" "pool_run new_pool [] pool_one"
proof -
  show one: "pool_run new_pool [] pool_one"
    using pool_run.Step [OF pool_run.Start pool_step.Add_slot [of new_pool "''db''"]] by (simp add: pool_one_def)
  show "pool_run new_pool [0x100000000] pool_granted"
    using pool_run.Step [OF one pool_step.Acquire [of pool_one "''db''" "''k''"]] by (simp add: acquire_one granted_token_def)
qed

lemma granted_slot: "slot_at pool_granted ''db'' 0 = Some (fst (try_acquire new_slot))"
  by (simp add: slot_at_def pool_eval)

lemma transactions_exclusive_witness:
  "(\<exists>!token. leads_to pool_granted token (''db'', 0) (fst (try_acquire new_slot))) \<and>
   (\<exists>s. leads_to pool_granted 0x100000000 (''db'', 0) s \<and> sl_state s = Active)"
proof -
  have "sl_state (fst (try_acquire new_slot)) \<noteq> Idle" by (simp add: try_acquire_def new_slot_def)
  moreover have "slot_at pool_one ''db'' 0 = Some new_slot" by (simp add: pool_one_value slot_at_def find_slots_def)
  ultimately show ?thesis
    using transactions_exclusive [OF run_one(1) granted_slot, of 0 False "(''db'', 0)" "[]" new_pool]
      transactions_exclusive [OF run_one(2), of "''db''" 0 new_slot "0x100000000" False "(''db'', 0)" "''k''" pool_granted] acquire_one by blast
qed

text \<open>C22. A stale handle stays dead.  Once a transaction is released, its handle is registered and routed again only after its connection was granted
  \<open>2\<^sup>3\<^sup>2 - 1\<close> more times, whatever the pool does in between, and not one grant earlier: the generation is back then, and no sooner.\<close>

theorem stale_handle_rejected:
  assumes "pool_run new_pool ts0 p" "release_transaction token p = (p1, True)" "pool_run p1 ts p2"
    "length (filter (\<lambda>t. handle_slot t = handle_slot token) ts) < 2 ^ 32 - 1"
  shows "map_of (po_entries p2) token = None \<and> route_transaction token closing p2 \<noteq> (p3, Route loc token) \<and>
    (next_generation ^^ (2 ^ 32 - 1)) (snd (snd (decode_handle token))) = snd (snd (decode_handle token))"
proof -
  have ok: "pool_ok p" by (rule pool_run_ok [OF assms(1) new_pool_ok])
  obtain e where e: "map_of (po_entries p) token = Some e" using assms(2) by (cases "map_of (po_entries p) token") (auto simp: release_transaction_def)
  obtain name i s k where x: "en_slot e = (name, i)" "slot_at p name i = Some s" "sl_generation s \<noteq> 0" "decode_handle token = (k, i, sl_generation s)"
    "k < length (po_names p)" "po_names p ! k = name" "k \<le> max_index" "i \<le> max_index" by (rule registered_decode [OF ok e]) simp
  have p1: "p1 = released token e s p" by (rule release_value [OF ok e]) (use x(1, 2) assms(2) in auto)
  have ok1: "pool_ok p1" unfolding p1 by (rule released_ok [OF ok e]) (simp add: x(1, 2))
  have at1: "slot_at p1 name i = Some (s\<lparr>sl_state := Idle\<rparr>)" "map_of (po_indexes p1) name = Some k" "map_of (po_entries p1) token = None"
    using tables_okD(1, 5) [OF pool_okD(1) [OF ok]] x(1, 2, 5, 6) by (auto simp: p1 released_def slot_at_set)
  have token: "token = encode_handle k i (sl_generation (s\<lparr>sl_state := Idle\<rparr>))" using encode_decode [OF x(4)] by simp
  have none: "map_of (po_entries p2) token = None" unfolding token
    by (rule stale_unregistered [OF assms(3) ok1 at1(1, 2) x(7, 8)]) (use x(3, 4) at1(3) token assms(4) in \<open>auto simp: handle_slot_def\<close>)
  have "route_transaction token closing p2 \<noteq> (p3, Route loc token)"
    using route_transaction_iff [OF pool_run_ok [OF assms(3) ok1]] none by (auto simp: leads_to_def)
  moreover have "(next_generation ^^ (2 ^ 32 - 1)) (sl_generation s) = sl_generation s" by (rule generation_cycle [OF x(3), THEN iffD2]) (rule dvd_refl)
  ultimately show ?thesis using none unfolding x(4) snd_conv by blast
qed

lemma stale_handle_rejected_witness:
  "map_of (po_entries (fst (release_transaction 0x100000000 pool_granted))) 0x100000000 = None \<and>
   route_transaction 0x100000000 False (fst (release_transaction 0x100000000 pool_granted)) \<noteq> (pool_one, Route (''db'', 0) 0x100000000)"
proof -
  have r: "release_transaction 0x100000000 pool_granted = (fst (release_transaction 0x100000000 pool_granted), True)"
    by (simp add: release_transaction_def release_slot_def pool_eval)
  show ?thesis using stale_handle_rejected [OF run_one(1) r pool_run.Start, of False pool_one "(''db'', 0)"] by simp
qed

text \<open>A transaction is refused only for a reason.  While the pool runs, the request key is free, and a running connection of a known pool is idle
  within the range of the handles, an acquisition succeeds, wherever the round robin starts; and with no such connection it fails.\<close>

theorem acquire_complete:
  assumes "pool_run new_pool ts p" "\<And>i s. slot_at p name i = Some s \<Longrightarrow> i \<le> max_index"
  shows "(\<exists>p' loc token. acquire_transaction name key p = (p', Route loc token)) \<longleftrightarrow>
    (\<exists>i s k. slot_at p name i = Some s \<and> sl_state s = Idle \<and> \<not> sl_stopped s \<and> \<not> po_stopped p \<and> find_transaction key p = 0 \<and>
       map_of (po_indexes p) name = Some k \<and> k \<le> max_index)"
proof -
  have ok: "pool_ok p" by (rule pool_run_ok [OF assms(1) new_pool_ok])
  have "(\<exists>i s k. slot_at p name i = Some s \<and> sl_state s = Idle \<and> \<not> sl_stopped s \<and> \<not> po_stopped p \<and> find_transaction key p = 0 \<and>
       map_of (po_indexes p) name = Some k \<and> k \<le> max_index) \<longleftrightarrow> (\<exists>i k s. grantable p name i key k s)"
    unfolding grantable_def find_transaction_zero [OF ok] using assms(2) by blast
  moreover from ok have "(\<exists>p' loc token. acquire_transaction name key p = (p', Route loc token)) \<longleftrightarrow> (\<exists>i k s. grantable p name i key k s)"
  proof (cases rule: acquire_cases [where name = name and key = key])
    case (granted i s k)
    then show ?thesis by auto
  next
    case (capacity i s f)
    then show ?thesis using assms(2) by fastforce
  next
    case (refused f err)
    then show ?thesis by auto
  qed
  ultimately show ?thesis by blast
qed

end
