(* ===== verification/Sql_Service.thy ===== *)
theory Sql_Service
  imports Db_Contract Number_Text Connection_Pool "HOL-Library.Multiset"
begin

text \<open>
  The message handlers of the SQL plugins (\<open>SqlServiceDispatcher\<close> of \<^verbatim>\<open>include/templates/sql_service_handlers.hpp\<close>) and the worker that owns a native
  connection (\<open>ReconnectingSqlWorker\<close> of \<^verbatim>\<open>include/templates/sql_reconnecting_worker.hpp\<close>), composed with the connection pool.  A callback \<open>done\<close> is a value of
  the type \<open>completion\<close>; what it does is an agenda of actions in the order of the code.  The results of the driver are arguments of the steps.
  Handlers and workers interleave; a worker runs a job and completes it in two steps.  The theory shows that a statement outside of transactions
  never runs inside one, that no transaction begins inside another, and that a statement of a transaction runs only in the session that began it.
\<close>

section \<open>Jobs\<close>

type_synonym location = "string \<times> nat"

datatype operation = Query | Exec | Begin | Commit | Rollback

text \<open>The callbacks: of a statement, of a statement in a transaction, of the begin and the end of a transaction, and of the rollback that cleans up after a
  failed commit, which still has to deliver the result of the commit.\<close>

datatype completion = Deliver | Deliver_statement | Deliver_begun | Deliver_finished | Deliver_cleanup db_result

record job =
  jb_request :: nat
  jb_op :: operation
  jb_transaction :: u64
  jb_sql :: string
  jb_params :: "string list"
  jb_done :: completion

definition failure :: "error_code \<Rightarrow> string \<Rightarrow> db_result" where
  "failure code message = empty_result\<lparr>db_error := message, db_code := code\<rparr>"

section \<open>The worker\<close>

record worker =
  wk_started :: bool
  wk_connected :: bool
  wk_active :: u64
  wk_current :: "(job \<times> db_result) option"

definition new_worker_thread :: worker where
  "new_worker_thread = \<lparr>wk_started = False, wk_connected = False, wk_active = 0, wk_current = None\<rparr>"

definition clamp_attempts :: "nat \<Rightarrow> nat" where
  "clamp_attempts n = max 1 (min n 10)"

text \<open>One element of the input for each round of the loop: whether the slot was stopped, the result of \<open>connect\<close>, and whether the wait before the next
  round was interrupted.\<close>

fun reconnect :: "nat \<Rightarrow> db_result \<Rightarrow> (bool \<times> db_result \<times> bool) list \<Rightarrow> bool \<times> db_result" where
  "reconnect 0 result rounds = (False, result)"
| "reconnect n result [] = (False, result)"
| "reconnect (Suc n) result ((stopped, r, interrupted) # rounds) =
     (if stopped then (False, failure Connection_unavailable ''database reconnect interrupted by shutdown'')
      else if db_ok r then (True, r)
      else if \<not> is_connection_error (db_code r) then (False, r)
      else if n > 0 \<and> interrupted then (False, failure Connection_unavailable ''database reconnect interrupted by shutdown'')
      else reconnect n (r\<lparr>db_code := Connection_unavailable\<rparr>) rounds)"

text \<open>After \<open>execute\<close>: a lost connection or a failed rollback closes the session.\<close>

definition after_execute :: "job \<Rightarrow> db_result \<Rightarrow> worker \<Rightarrow> worker \<times> db_result" where
  "after_execute job raw w =
     (let result = (if \<not> db_ok raw \<and> db_code raw = No_error then raw\<lparr>db_code := Sql_error\<rparr> else raw);
          lost = (\<not> db_ok result \<and> is_connection_error (db_code result))
      in if lost \<or> jb_op job = Rollback \<and> \<not> db_ok result
         then (w\<lparr>wk_connected := False, wk_active := 0\<rparr>,
               if lost \<and> (jb_op job = Commit \<or> jb_transaction job = 0 \<and> jb_op job = Exec) then result\<lparr>db_code := Outcome_unknown\<rparr> else result)
         else if db_ok result
         then (if jb_op job = Begin then w\<lparr>wk_active := jb_transaction job\<rparr>
               else if jb_op job = Commit \<or> jb_op job = Rollback then w\<lparr>wk_active := 0\<rparr> else w, result)
         else (w, result))"

text \<open>The last component tells whether the job reached the driver.\<close>

definition process :: "nat \<Rightarrow> bool \<Rightarrow> (bool \<times> db_result \<times> bool) list \<Rightarrow> db_result \<Rightarrow> job \<Rightarrow> worker \<Rightarrow> worker \<times> db_result \<times> bool" where
  "process max_attempts stopped rounds raw job w =
     (if stopped then (w, failure Connection_unavailable ''database worker is stopping'', False)
      else if jb_transaction job \<noteq> 0 \<and> jb_op job \<noteq> Begin \<and> jb_transaction job \<noteq> wk_active w
      then (w, failure Transaction_lost ''transaction no longer belongs to a live database session'', False)
      else case (if wk_connected w then (True, empty_result)
                 else reconnect (clamp_attempts max_attempts) (failure Connection_unavailable ''database connection unavailable'') rounds) of
        (False, result) \<Rightarrow> (w, result, False)
      | (True, _) \<Rightarrow> (case after_execute job raw (w\<lparr>wk_connected := True\<rparr>) of (w', result) \<Rightarrow> (w', result, True)))"

section \<open>The service\<close>

text \<open>The last component records what reached the driver: the connection, the job and the transaction of the session at that time.\<close>

record service =
  sv_backend :: string
  sv_pool :: pool
  sv_queue :: "location \<Rightarrow> job list"
  sv_worker :: "location \<Rightarrow> worker"
  sv_replies :: "(nat \<times> db_result) list"
  sv_executed :: "(location \<times> job \<times> u64) list"

definition new_service :: "string \<Rightarrow> service" where
  "new_service backend = \<lparr>sv_backend = backend, sv_pool = new_pool, sv_queue = (\<lambda>_. []), sv_worker = (\<lambda>_. new_worker_thread), sv_replies = [], sv_executed = []\<rparr>"

abbreviation stopped_at :: "service \<Rightarrow> location \<Rightarrow> bool" where
  "stopped_at s loc \<equiv> (case slot_at (sv_pool s) (fst loc) (snd loc) of None \<Rightarrow> True | Some x \<Rightarrow> sl_stopped x)"

abbreviation recoverable_at :: "service \<Rightarrow> location \<Rightarrow> bool" where
  "recoverable_at s loc \<equiv> (case slot_at (sv_pool s) (fst loc) (snd loc) of None \<Rightarrow> False | Some x \<Rightarrow> sl_recoverable x)"

definition pool_error_text :: "string \<Rightarrow> pool_error \<Rightarrow> string" where
  "pool_error_text backend e =
     (case e of
        Unknown_connection name \<Rightarrow> ''unknown '' @ backend @ '' connection: '' @ name
      | Pool_exhausted \<Rightarrow> backend @ '' pool exhausted (all connections stopped or in transactions)''
      | Duplicate_request_key \<Rightarrow> ''duplicate '' @ backend @ '' transaction request key''
      | Pool_index_capacity \<Rightarrow> backend @ '' transaction pool index exceeds handle capacity''
      | Transactions_exhausted name \<Rightarrow> backend @ '' transaction pool exhausted: '' @ name
      | Slot_index_capacity \<Rightarrow> backend @ '' transaction slot index exceeds handle capacity''
      | Invalid_transaction token \<Rightarrow> ''invalid '' @ backend @ '' transaction: '' @ nat_text (unat token)
      | Inactive_transaction token \<Rightarrow> ''inactive '' @ backend @ '' transaction: '' @ nat_text (unat token)
      | Closing_transaction token \<Rightarrow> ''closing '' @ backend @ '' transaction: '' @ nat_text (unat token)
      | Inactive_request_key \<Rightarrow> ''inactive '' @ backend @ '' transaction request key'')"

section \<open>Completion\<close>

text \<open>The actions of the callbacks of one slot.\<close>

datatype action = Complete job db_result | Fail_pending string | Release_handle u64 | Reply nat db_result

definition enqueue :: "location \<Rightarrow> job \<Rightarrow> service \<Rightarrow> service \<times> action list" where
  "enqueue loc job s =
     (if stopped_at s loc then (s, [Complete job (failure Connection_unavailable ''database worker queue is stopped'')])
      else (s\<lparr>sv_queue := (sv_queue s)(loc := sv_queue s loc @ [job])\<rparr>, []))"

definition cleanup_job :: "job \<Rightarrow> db_result \<Rightarrow> job" where
  "cleanup_job job original =
     \<lparr>jb_request = jb_request job, jb_op = Rollback, jb_transaction = jb_transaction job, jb_sql = [], jb_params = [], jb_done = Deliver_cleanup original\<rparr>"

definition release_and_reply :: "bool \<Rightarrow> bool \<Rightarrow> job \<Rightarrow> db_result \<Rightarrow> action list" where
  "release_and_reply broken recoverable job result =
     (if broken \<and> \<not> recoverable then [Fail_pending ''transaction rollback failed''] else []) @ [Release_handle (jb_transaction job), Reply (jb_request job) result]"

definition complete :: "location \<Rightarrow> job \<Rightarrow> db_result \<Rightarrow> service \<Rightarrow> service \<times> action list" where
  "complete loc job result s =
     (case jb_done job of
        Deliver \<Rightarrow> (s, [Reply (jb_request job) result])
      | Deliver_statement \<Rightarrow>
          (s, (if \<not> db_ok result \<and> is_connection_error (db_code result) then [Release_handle (jb_transaction job)] else []) @ [Reply (jb_request job) result])
      | Deliver_begun \<Rightarrow>
          if db_ok result then (s, [Reply (jb_request job) (result\<lparr>db_insert_id := nat_text (unat (jb_transaction job))\<rparr>)])
          else (s, [Release_handle (jb_transaction job), Reply (jb_request job) result])
      | Deliver_finished \<Rightarrow>
          if jb_op job = Commit \<and> \<not> db_ok result then enqueue loc (cleanup_job job result) s
          else (s, release_and_reply (jb_op job = Rollback \<and> \<not> db_ok result) (recoverable_at s loc) job result)
      | Deliver_cleanup original \<Rightarrow> (s, release_and_reply (\<not> db_ok result) (recoverable_at s loc) job original))"

definition act :: "location \<Rightarrow> action \<Rightarrow> service \<Rightarrow> service \<times> action list" where
  "act loc a s =
     (case a of
        Complete job result \<Rightarrow> complete loc job result s
      | Fail_pending message \<Rightarrow>
          (s\<lparr>sv_pool := stop_slot (fst loc) (snd loc) (sv_pool s), sv_queue := (sv_queue s)(loc := [])\<rparr>,
           map (\<lambda>j. Complete j (failure Connection_unavailable message)) (sv_queue s loc))
      | Release_handle token \<Rightarrow> (s\<lparr>sv_pool := fst (release_transaction token (sv_pool s))\<rparr>, [])
      | Reply request result \<Rightarrow> (s\<lparr>sv_replies := sv_replies s @ [(request, result)]\<rparr>, []))"

definition job_weight :: "job \<Rightarrow> nat" where
  "job_weight j = (if jb_done j = Deliver_finished then 6 else 4)"

definition action_weight :: "action \<Rightarrow> nat" where
  "action_weight a = (case a of Complete j _ \<Rightarrow> job_weight j | _ \<Rightarrow> 1)"

function run_agenda :: "location \<Rightarrow> action list \<Rightarrow> service \<Rightarrow> service" where
  "run_agenda loc [] s = s"
| "run_agenda loc (a # as) s = (case act loc a s of (s', todo) \<Rightarrow> run_agenda loc (todo @ as) s')"
  by pat_completeness auto

termination
proof (relation "measure (\<lambda>(loc, as, s). sum_list (map action_weight as) + sum_list (map job_weight (sv_queue s loc)))")
  fix loc a as s s' todo assume "(s', todo) = act loc a s"
  then have "sum_list (map action_weight todo) + sum_list (map job_weight (sv_queue s' loc)) < action_weight a + sum_list (map job_weight (sv_queue s loc))"
    by (auto simp: act_def complete_def enqueue_def release_and_reply_def cleanup_job_def action_weight_def job_weight_def [abs_def] o_def Let_def
        split: action.splits completion.splits if_splits)
  then show "((loc, todo @ as, s'), loc, a # as, s) \<in> measure (\<lambda>(loc, as, s). sum_list (map action_weight as) + sum_list (map job_weight (sv_queue s loc)))"
    by simp
qed simp

section \<open>The handlers\<close>

definition submit :: "location \<Rightarrow> job \<Rightarrow> service \<Rightarrow> service" where
  "submit loc job s = (case enqueue loc job s of (s', agenda) \<Rightarrow> run_agenda loc agenda s')"

definition reply :: "nat \<Rightarrow> db_result \<Rightarrow> service \<Rightarrow> service" where
  "reply request result s = s\<lparr>sv_replies := sv_replies s @ [(request, result)]\<rparr>"

definition dispatch_regular :: "nat \<Rightarrow> string \<Rightarrow> operation \<Rightarrow> string \<Rightarrow> string list \<Rightarrow> service \<Rightarrow> service" where
  "dispatch_regular request name op sql params s =
     (case route_idle name (sv_pool s) of (p, r) \<Rightarrow>
        let s = s\<lparr>sv_pool := p\<rparr>
        in case r of
             Failed e \<Rightarrow> reply request (failure Connection_unavailable (pool_error_text (sv_backend s) e)) s
           | Route loc _ \<Rightarrow> submit loc \<lparr>jb_request = request, jb_op = op, jb_transaction = 0, jb_sql = sql, jb_params = params, jb_done = Deliver\<rparr> s)"

definition dispatch_transaction :: "nat \<Rightarrow> u64 \<Rightarrow> operation \<Rightarrow> string \<Rightarrow> string list \<Rightarrow> service \<Rightarrow> service" where
  "dispatch_transaction request token op sql params s =
     (case route_transaction token False (sv_pool s) of (p, r) \<Rightarrow>
        let s = s\<lparr>sv_pool := p\<rparr>
        in case r of
             Failed e \<Rightarrow> reply request (failure Transaction_lost (pool_error_text (sv_backend s) e)) s
           | Route loc _ \<Rightarrow>
               submit loc \<lparr>jb_request = request, jb_op = op, jb_transaction = token, jb_sql = sql, jb_params = params, jb_done = Deliver_statement\<rparr> s)"

definition begin_transaction :: "nat \<Rightarrow> string \<Rightarrow> string \<Rightarrow> service \<Rightarrow> service" where
  "begin_transaction request name key s =
     (case acquire_transaction name key (sv_pool s) of (p, r) \<Rightarrow>
        let s = s\<lparr>sv_pool := p\<rparr>
        in case r of
             Failed e \<Rightarrow> reply request (failure Connection_unavailable (pool_error_text (sv_backend s) e)) s
           | Route loc token \<Rightarrow>
               submit loc \<lparr>jb_request = request, jb_op = Begin, jb_transaction = token, jb_sql = [], jb_params = [], jb_done = Deliver_begun\<rparr> s)"

text \<open>The end of a transaction, named by its handle or by its request key.\<close>

definition finish_transaction :: "nat \<Rightarrow> u64 + string \<Rightarrow> operation \<Rightarrow> service \<Rightarrow> service" where
  "finish_transaction request name op s =
     (case (case name of Inl token \<Rightarrow> route_transaction token True (sv_pool s) | Inr key \<Rightarrow> route_key key True (sv_pool s)) of (p, r) \<Rightarrow>
        let s = s\<lparr>sv_pool := p\<rparr>
        in case r of
             Failed e \<Rightarrow> reply request (failure Transaction_lost (pool_error_text (sv_backend s) e)) s
           | Route loc token \<Rightarrow>
               submit loc \<lparr>jb_request = request, jb_op = op, jb_transaction = token, jb_sql = [], jb_params = [], jb_done = Deliver_finished\<rparr> s)"

text \<open>The messages; the ones without a name of a connection are sent to the default connection.  A message that is not a request is ignored.\<close>

datatype message =
    Statement string operation string "string list" | Transaction_statement u64 operation string "string list"
  | Tx_begin string string | Tx_commit u64 | Tx_rollback "u64 + string"

definition handle :: "nat \<Rightarrow> message \<Rightarrow> service \<Rightarrow> service" where
  "handle request m s =
     (case m of
        Statement name op sql params \<Rightarrow> dispatch_regular request name op sql params s
      | Transaction_statement token op sql params \<Rightarrow> dispatch_transaction request token op sql params s
      | Tx_begin name key \<Rightarrow> begin_transaction request name key s
      | Tx_commit token \<Rightarrow> finish_transaction request (Inl token) Commit s
      | Tx_rollback name \<Rightarrow> finish_transaction request name Rollback s)"

text \<open>The handlers build jobs with the operations of their messages: statements query or execute.\<close>

definition message_ok :: "message \<Rightarrow> bool" where
  "message_ok m \<longleftrightarrow> (case m of Statement _ op _ _ \<Rightarrow> op = Query \<or> op = Exec | Transaction_statement _ op _ _ \<Rightarrow> op = Query \<or> op = Exec | _ \<Rightarrow> True)"

section \<open>Interleaving\<close>

definition run_job :: "nat \<Rightarrow> (bool \<times> db_result \<times> bool) list \<Rightarrow> db_result \<Rightarrow> location \<Rightarrow> service \<Rightarrow> service" where
  "run_job max_attempts rounds raw loc s =
     (case sv_queue s loc of
        [] \<Rightarrow> s
      | job # rest \<Rightarrow>
          (case process max_attempts (stopped_at s loc) rounds raw job (sv_worker s loc) of (w, result, executed) \<Rightarrow>
             s\<lparr>sv_queue := (sv_queue s)(loc := rest), sv_worker := (sv_worker s)(loc := w\<lparr>wk_current := Some (job, result)\<rparr>),
               sv_executed := (if executed then sv_executed s @ [(loc, job, wk_active (sv_worker s loc))] else sv_executed s)\<rparr>))"

definition finish_job :: "location \<Rightarrow> service \<Rightarrow> service" where
  "finish_job loc s =
     (case wk_current (sv_worker s loc) of
        None \<Rightarrow> s
      | Some (job, result) \<Rightarrow> run_agenda loc [Complete job result] (s\<lparr>sv_worker := (sv_worker s)(loc := (sv_worker s loc)\<lparr>wk_current := None\<rparr>)\<rparr>))"

text \<open>A step, with the request it receives.\<close>

inductive service_step :: "service \<Rightarrow> nat list \<Rightarrow> service \<Rightarrow> bool" where
  Message: "message_ok m \<Longrightarrow> service_step s [request] (handle request m s)"
| Start_worker: "\<not> wk_started (sv_worker s loc) \<Longrightarrow>
    service_step s [] (s\<lparr>sv_pool := recover_slot (fst loc) (snd loc) (sv_pool s), sv_worker := (sv_worker s)(loc := (sv_worker s loc)\<lparr>wk_started := True\<rparr>)\<rparr>)"
| Run_job: "wk_started (sv_worker s loc) \<Longrightarrow> wk_current (sv_worker s loc) = None \<Longrightarrow> sv_queue s loc \<noteq> [] \<Longrightarrow>
    service_step s [] (run_job max_attempts rounds raw loc s)"
| Finish_job: "wk_current (sv_worker s loc) \<noteq> None \<Longrightarrow> service_step s [] (finish_job loc s)"
| Add_slot: "service_step s [] (s\<lparr>sv_pool := fst (add_slot name (sv_pool s))\<rparr>)"
| Stop_slot: "service_step s [] (s\<lparr>sv_pool := stop_slot name i (sv_pool s)\<rparr>)"
| Stop_all: "service_step s [] (s\<lparr>sv_pool := stop_and_join (sv_pool s)\<rparr>)"
| Worker_exit: "service_step s [] (run_agenda loc [Fail_pending err] s)"

inductive service_run :: "service \<Rightarrow> nat list \<Rightarrow> bool" where
  Boot: "service_run (new_service backend) []"
| Then: "service_run s rs \<Longrightarrow> service_step s received s' \<Longrightarrow> service_run s' (rs @ received)"

section \<open>Handles of a connection\<close>

definition registered :: "pool \<Rightarrow> location \<Rightarrow> u64 \<Rightarrow> bool" where
  "registered p loc t \<longleftrightarrow> (\<exists>e. map_of (po_entries p) t = Some e \<and> en_slot e = loc)"

definition token_generation :: "u64 \<Rightarrow> u32" where
  "token_generation t = snd (snd (decode_handle t))"

text \<open>The handles that can name a connection.\<close>

definition own :: "pool \<Rightarrow> location \<Rightarrow> u64 \<Rightarrow> bool" where
  "own p loc t \<longleftrightarrow> (\<exists>k g. map_of (po_indexes p) (fst loc) = Some k \<and> k \<le> max_index \<and> snd loc \<le> max_index \<and> g \<noteq> 0 \<and> t = encode_handle k (snd loc) g)"

abbreviation generation_at :: "pool \<Rightarrow> location \<Rightarrow> u32" where
  "generation_at p loc \<equiv> (case slot_at p (fst loc) (snd loc) of None \<Rightarrow> 0 | Some x \<Rightarrow> sl_generation x)"

lemma own_inj:
  assumes "own p loc t" "own p loc t'" "token_generation t = token_generation t'"
  shows "t = t'"
  using assms by (auto simp: own_def token_generation_def decode_encode)

lemma own_nonzero: "own p loc t \<Longrightarrow> t \<noteq> 0 \<and> token_generation t \<noteq> 0"
  by (auto simp: own_def token_generation_def decode_encode encode_nonzero)

lemma own_location:
  assumes "pool_ok p" "own p loc t" "own p loc' t"
  shows "loc = loc'"
proof -
  obtain k g k' g' where k: "map_of (po_indexes p) (fst loc) = Some k" "map_of (po_indexes p) (fst loc') = Some k'" "k \<le> max_index" "snd loc \<le> max_index"
    "k' \<le> max_index" "snd loc' \<le> max_index" "encode_handle k (snd loc) g = encode_handle k' (snd loc') g'" using assms(2, 3) by (auto simp: own_def)
  have "k = k'" "snd loc = snd loc'" using encode_inj [OF k(3-7)] by simp_all
  moreover have "fst loc = fst loc'" using k(1, 2) \<open>k = k'\<close> tables_okD(5) [OF pool_okD(1) [OF assms(1)]] by metis
  ultimately show ?thesis by (simp add: prod_eq_iff)
qed

lemma registered_own:
  assumes "pool_ok p" "registered p loc t"
  shows "own p loc t" "token_generation t = generation_at p loc" "\<exists>s. slot_at p (fst loc) (snd loc) = Some s \<and> sl_state s \<noteq> Idle"
proof -
  obtain e where e: "map_of (po_entries p) t = Some e" "en_slot e = loc" using assms(2) by (auto simp: registered_def)
  from pool_okD(2) [OF assms(1) e(1)] obtain name i s k where x: "en_slot e = (name, i)" "slot_at p name i = Some s" "sl_state s \<noteq> Idle" "sl_generation s \<noteq> 0"
    "map_of (po_indexes p) name = Some k" "k \<le> max_index" "i \<le> max_index" "t = encode_handle k i (sl_generation s)" by (auto simp: entry_ok_def)
  show "own p loc t" using x e by (auto simp: own_def)
  show "token_generation t = generation_at p loc" using x e by (auto simp: token_generation_def decode_encode)
  show "\<exists>s. slot_at p (fst loc) (snd loc) = Some s \<and> sl_state s \<noteq> Idle" using x e by auto
qed

lemma registered_unique: "pool_ok p \<Longrightarrow> registered p loc t \<Longrightarrow> registered p loc t' \<Longrightarrow> t = t'"
  by (auto simp: registered_def intro: entry_of_slot)

section \<open>What the operations of the pool do to the handles\<close>

text \<open>Two pools that look the same to the jobs of a connection.\<close>

definition same_for :: "location \<Rightarrow> pool \<Rightarrow> pool \<Rightarrow> bool" where
  "same_for loc p p' \<longleftrightarrow> generation_at p' loc = generation_at p loc \<and> registered p' loc = registered p loc \<and> (\<forall>t. own p loc t \<longrightarrow> own p' loc t) \<and>
     (slot_at p (fst loc) (snd loc) = None \<longleftrightarrow> slot_at p' (fst loc) (snd loc) = None) \<and>
     (case (slot_at p (fst loc) (snd loc), slot_at p' (fst loc) (snd loc)) of (Some x, Some y) \<Rightarrow> sl_stopped x \<longrightarrow> sl_stopped y | _ \<Rightarrow> True)"

lemma same_for_refl [simp]: "same_for loc p p" "same_for loc p (po_round_robin_update f p)"
  by (auto simp: same_for_def registered_def own_def fun_eq_iff split: option.splits)

lemma same_for_set_slot:
  assumes "pool_ok p" "slot_at p name i = Some s" "sl_generation s' = sl_generation s" "sl_stopped s \<longrightarrow> sl_stopped s'"
  shows "same_for loc p (set_slot name i s' p)"
  using slot_at_set [OF tables_okD(1) [OF pool_okD(1) [OF assms(1)]], of name i s'] assms
  by (auto simp: same_for_def registered_def own_def fun_eq_iff split: option.splits)

lemma same_for_route_idle: "same_for loc p (fst (route_idle name p))"
  by (auto simp: route_idle_def split: option.splits prod.splits dest!: round_robin_result(1))

lemma same_for_route_transaction:
  assumes "pool_ok p"
  shows "same_for loc p (fst (route_transaction token closing p))"
proof (cases "route_transaction token closing p")
  case (Pair p' r)
  show ?thesis
  proof (cases r)
    case (Route loc' t)
    then obtain s where "slot_at p (fst loc') (snd loc') = Some s"
      "p' = (if closing then set_slot (fst loc') (snd loc') (s\<lparr>sl_state := Closing\<rparr>) p else p)"
      using Pair route_transaction_iff [OF assms, of token closing p' loc' t] by (auto simp: leads_to_def)
    then show ?thesis using Pair same_for_set_slot [OF assms] by auto
  qed (use Pair in \<open>auto dest: route_transaction_failed\<close>)
qed

lemma same_for_recover: "pool_ok p \<Longrightarrow> same_for loc p (recover_slot name i p)"
  by (auto simp: recover_slot_def enable_recovery_def split: option.splits intro!: same_for_set_slot intro: slot_atI)

lemma same_for_stop_slot: "pool_ok p \<Longrightarrow> same_for loc p (stop_slot name i p)"
  by (auto simp: stop_slot_def split: option.splits intro!: same_for_set_slot intro: slot_atI)

lemma same_for_stop_all: "same_for loc p (stop_and_join p)"
  by (auto simp: same_for_def registered_def own_def fun_eq_iff stop_all_at split: option.splits)

lemma released_at:
  assumes "pool_ok p" "map_of (po_entries p) t = Some e" "slot_at p (fst (en_slot e)) (snd (en_slot e)) = Some s"
  shows "slot_at (released t e s p) n j = (if (n, j) = en_slot e then Some (s\<lparr>sl_state := Idle\<rparr>) else slot_at p n j)"
  using tables_okD(1) [OF pool_okD(1) [OF assms(1)]] assms(3) by (auto simp: released_def slot_at_set prod_eq_iff)

lemma released_fields: "po_entries (released t e s p) = omap_erase t (po_entries p)" "po_indexes (released t e s p) = po_indexes p"
  by (simp_all add: released_def)

lemma release_effect:
  assumes "pool_ok p"
  shows "registered (fst (release_transaction t p)) loc t' \<longleftrightarrow> registered p loc t' \<and> t' \<noteq> t"
    "generation_at (fst (release_transaction t p)) loc = generation_at p loc" "own (fst (release_transaction t p)) = own p"
    "map_option sl_stopped (slot_at (fst (release_transaction t p)) n i) = map_option sl_stopped (slot_at p n i)"
proof -
  have "(registered (fst (release_transaction t p)) loc t' \<longleftrightarrow> registered p loc t' \<and> t' \<noteq> t) \<and>
    generation_at (fst (release_transaction t p)) loc = generation_at p loc \<and> own (fst (release_transaction t p)) = own p \<and>
    map_option sl_stopped (slot_at (fst (release_transaction t p)) n i) = map_option sl_stopped (slot_at p n i)"
  proof (cases "map_of (po_entries p) t")
    case None
    then show ?thesis by (auto simp: release_transaction_def registered_def)
  next
    case (Some e)
    obtain s where s: "slot_at p (fst (en_slot e)) (snd (en_slot e)) = Some s" "release_transaction t p = (released t e s p, True)"
      by (rule release_value [OF assms Some]) simp
    note at = released_at [OF assms Some s(1)]
    show ?thesis using s Some by (cases "en_slot e") (auto simp: at registered_def released_fields own_def fun_eq_iff split: option.splits)
  qed
  then show "registered (fst (release_transaction t p)) loc t' \<longleftrightarrow> registered p loc t' \<and> t' \<noteq> t"
    "generation_at (fst (release_transaction t p)) loc = generation_at p loc" "own (fst (release_transaction t p)) = own p"
    "map_option sl_stopped (slot_at (fst (release_transaction t p)) n i) = map_option sl_stopped (slot_at p n i)" by auto
qed

lemma same_for_release:
  assumes "pool_ok p" "\<not> registered p loc t"
  shows "same_for loc p (fst (release_transaction t p))"
proof -
  let ?p = "fst (release_transaction t p)"
  have s: "map_option sl_stopped (slot_at ?p (fst loc) (snd loc)) = map_option sl_stopped (slot_at p (fst loc) (snd loc))" by (rule release_effect(4) [OF assms(1)])
  have "registered ?p loc = registered p loc" using release_effect(1) [OF assms(1)] assms(2) by (auto simp: fun_eq_iff)
  then show ?thesis using release_effect(2, 3) [OF assms(1)] s unfolding same_for_def by (auto split: option.splits)
qed

section \<open>The invariant\<close>

text \<open>A callback fits its job.\<close>

definition job_ok :: "job \<Rightarrow> bool" where
  "job_ok j \<longleftrightarrow>
     (case jb_done j of
        Deliver \<Rightarrow> jb_transaction j = 0 \<and> (jb_op j = Query \<or> jb_op j = Exec)
      | Deliver_statement \<Rightarrow> jb_transaction j \<noteq> 0 \<and> (jb_op j = Query \<or> jb_op j = Exec)
      | Deliver_begun \<Rightarrow> jb_transaction j \<noteq> 0 \<and> jb_op j = Begin
      | Deliver_finished \<Rightarrow> jb_transaction j \<noteq> 0 \<and> (jb_op j = Commit \<or> jb_op j = Rollback)
      | Deliver_cleanup _ \<Rightarrow> jb_transaction j \<noteq> 0 \<and> jb_op j = Rollback)"

definition is_cleanup :: "job \<Rightarrow> bool" where
  "is_cleanup j \<longleftrightarrow> (\<exists>r. jb_done j = Deliver_cleanup r)"

text \<open>How many transactions ago the handle of a job was granted.\<close>

definition aged :: "nat \<Rightarrow> u32 \<Rightarrow> job \<Rightarrow> bool" where
  "aged n G j \<longleftrightarrow> (next_generation ^^ n) (token_generation (jb_transaction j)) = G"

definition recent :: "nat \<Rightarrow> u32 \<Rightarrow> job \<Rightarrow> bool" where
  "recent n G j \<longleftrightarrow> jb_transaction j = 0 \<or> jb_op j \<noteq> Begin \<and> (aged n G j \<or> aged (Suc n) G j \<and> is_cleanup j)"

definition releases :: "job \<Rightarrow> db_result \<Rightarrow> bool" where
  "releases j r \<longleftrightarrow>
     (case jb_done j of Deliver \<Rightarrow> False | Deliver_statement \<Rightarrow> \<not> db_ok r \<and> is_connection_error (db_code r) | Deliver_begun \<Rightarrow> \<not> db_ok r
      | Deliver_finished \<Rightarrow> \<not> (jb_op j = Commit \<and> \<not> db_ok r) | Deliver_cleanup _ \<Rightarrow> True)"

text \<open>A live connection: the session is in a registered transaction or in none; its queue holds no begin and jobs of the last transactions, or one begin of
  the registered transaction, older jobs before it and jobs of transactions after it.\<close>

definition no_begin :: "u32 \<Rightarrow> (u64 \<Rightarrow> bool) \<Rightarrow> job list \<Rightarrow> worker \<Rightarrow> bool" where
  "no_begin G reg q w \<longleftrightarrow> (\<forall>j \<in> set q. recent 0 G j \<and> (wk_active w \<noteq> 0 \<longrightarrow> jb_transaction j \<noteq> 0)) \<and>
     (\<forall>j r. wk_current w = Some (j, r) \<longrightarrow> recent 0 G j \<or> jb_op j = Begin \<and> reg (jb_transaction j))"

definition one_begin :: "u32 \<Rightarrow> (u64 \<Rightarrow> bool) \<Rightarrow> job list \<Rightarrow> worker \<Rightarrow> bool" where
  "one_begin G reg q w \<longleftrightarrow> wk_active w = 0 \<and> (\<exists>X b Y. q = X @ b # Y \<and> jb_op b = Begin \<and> reg (jb_transaction b) \<and>
     (\<forall>j \<in> set X. recent 1 G j) \<and> (\<forall>j \<in> set Y. recent 0 G j \<and> jb_transaction j \<noteq> 0)) \<and>
     (\<forall>j r. wk_current w = Some (j, r) \<longrightarrow> recent 1 G j)"

definition live :: "u32 \<Rightarrow> (u64 \<Rightarrow> bool) \<Rightarrow> job list \<Rightarrow> worker \<Rightarrow> bool" where
  "live G reg q w \<longleftrightarrow> (wk_active w \<noteq> 0 \<longrightarrow> reg (wk_active w)) \<and> (no_begin G reg q w \<or> one_begin G reg q w) \<and>
     (\<forall>j r. wk_current w = Some (j, r) \<longrightarrow> releases j r \<longrightarrow> wk_active w \<noteq> jb_transaction j)"

definition jobs_at :: "service \<Rightarrow> location \<Rightarrow> job set" where
  "jobs_at s loc = set (sv_queue s loc) \<union> {j. \<exists>r. wk_current (sv_worker s loc) = Some (j, r)}"

definition job_at :: "pool \<Rightarrow> location \<Rightarrow> job \<Rightarrow> bool" where
  "job_at p loc j \<longleftrightarrow> job_ok j \<and> (jb_transaction j \<noteq> 0 \<longrightarrow> own p loc (jb_transaction j))"

definition slot_ok :: "service \<Rightarrow> location \<Rightarrow> bool" where
  "slot_ok s loc \<longleftrightarrow> (\<forall>j \<in> jobs_at s loc. job_at (sv_pool s) loc j) \<and>
     (\<not> wk_connected (sv_worker s loc) \<longrightarrow> wk_active (sv_worker s loc) = 0) \<and>
     (slot_at (sv_pool s) (fst loc) (snd loc) = None \<longrightarrow> sv_queue s loc = [] \<and> wk_current (sv_worker s loc) = None \<and> wk_active (sv_worker s loc) = 0) \<and>
     (\<not> stopped_at s loc \<longrightarrow> live (generation_at (sv_pool s) loc) (registered (sv_pool s) loc) (sv_queue s loc) (sv_worker s loc))"

definition execution_ok :: "location \<times> job \<times> u64 \<Rightarrow> bool" where
  "execution_ok x \<longleftrightarrow> (case x of (loc, j, active) \<Rightarrow>
     (jb_transaction j = 0 \<longrightarrow> active = 0) \<and> (jb_op j = Begin \<longrightarrow> active = 0) \<and> (jb_transaction j \<noteq> 0 \<and> jb_op j \<noteq> Begin \<longrightarrow> active = jb_transaction j))"

definition service_ok :: "service \<Rightarrow> bool" where
  "service_ok s \<longleftrightarrow> pool_ok (sv_pool s) \<and> (\<forall>loc. slot_ok s loc) \<and> (\<forall>x \<in> set (sv_executed s). execution_ok x)"

lemma job_at_mono: "job_at p loc j \<Longrightarrow> (\<And>t. own p loc t \<Longrightarrow> own p' loc t) \<Longrightarrow> job_at p' loc j"
  by (auto simp: job_at_def)

lemma slot_ok_frame:
  assumes "slot_ok s loc" "same_for loc (sv_pool s) (sv_pool s')" "sv_queue s' loc = sv_queue s loc" "sv_worker s' loc = sv_worker s loc"
  shows "slot_ok s' loc"
  using assms unfolding slot_ok_def same_for_def jobs_at_def
  by (auto intro: job_at_mono split: option.splits)

lemma service_okI:
  assumes "pool_ok (sv_pool s)" "\<And>loc. slot_ok s loc" "\<And>x. x \<in> set (sv_executed s) \<Longrightarrow> execution_ok x"
  shows "service_ok s"
  using assms by (simp add: service_ok_def)

lemma service_okD:
  assumes "service_ok s"
  shows "pool_ok (sv_pool s)" "slot_ok s loc" "x \<in> set (sv_executed s) \<Longrightarrow> execution_ok x"
  using assms by (simp_all add: service_ok_def del: split_paired_All)

text \<open>A change of the pool alone.\<close>

lemma service_ok_pool:
  assumes "service_ok s" "pool_ok p" "\<And>loc. same_for loc (sv_pool s) p"
  shows "service_ok (s\<lparr>sv_pool := p\<rparr>)"
proof (rule service_okI)
  show "slot_ok (s\<lparr>sv_pool := p\<rparr>) loc" for loc by (rule slot_ok_frame [OF service_okD(2) [OF assms(1)]]) (simp_all add: assms(3))
qed (use assms in \<open>auto simp: service_ok_def\<close>)

lemma service_ok_reply: "service_ok s \<Longrightarrow> service_ok (reply request result s)"
  by (auto simp: service_ok_def reply_def slot_ok_def jobs_at_def)

section \<open>Completions on a stopped slot\<close>

definition action_ok :: "service \<Rightarrow> location \<Rightarrow> action \<Rightarrow> bool" where
  "action_ok s loc a \<longleftrightarrow> (case a of Complete j _ \<Rightarrow> job_at (sv_pool s) loc j | Release_handle t \<Rightarrow> own (sv_pool s) loc t | _ \<Rightarrow> True)"

lemma stopped_release:
  assumes "pool_ok p"
  shows "(case slot_at (fst (release_transaction t p)) n i of None \<Rightarrow> True | Some x \<Rightarrow> sl_stopped x) = (case slot_at p n i of None \<Rightarrow> True | Some x \<Rightarrow> sl_stopped x)"
  using release_effect(4) [OF assms, of t n i] by (auto split: option.splits)

lemma slot_none_release:
  assumes "pool_ok p"
  shows "slot_at (fst (release_transaction t p)) n i = None \<longleftrightarrow> slot_at p n i = None"
  using release_effect(4) [OF assms, of t n i] by (auto split: option.splits)

lemma own_elsewhere: "pool_ok p \<Longrightarrow> own p loc t \<Longrightarrow> registered p loc' t \<Longrightarrow> loc' = loc"
  using own_location registered_own(1) by blast

lemma stopped_slot_ok:
  assumes "stopped_at s loc" "\<And>j. j \<in> jobs_at s loc \<Longrightarrow> job_at (sv_pool s) loc j" "\<not> wk_connected (sv_worker s loc) \<longrightarrow> wk_active (sv_worker s loc) = 0"
    "slot_at (sv_pool s) (fst loc) (snd loc) = None \<longrightarrow> sv_queue s loc = [] \<and> wk_current (sv_worker s loc) = None \<and> wk_active (sv_worker s loc) = 0"
  shows "slot_ok s loc"
  using assms by (simp add: slot_ok_def)

lemma release_slot_ok:
  assumes "service_ok s" "own (sv_pool s) loc t" "stopped_at s loc"
  shows "service_ok (s\<lparr>sv_pool := fst (release_transaction t (sv_pool s))\<rparr>)" (is "service_ok ?s")
proof (rule service_okI)
  note ok = service_okD(1) [OF assms(1)]
  show "pool_ok (sv_pool ?s)" by (simp add: release_ok ok)
  show "execution_ok x" if "x \<in> set (sv_executed ?s)" for x using that assms(1) by (simp add: service_ok_def)
  show "slot_ok ?s loc'" for loc'
  proof (cases "loc' = loc")
    case False
    then have "\<not> registered (sv_pool s) loc' t" using own_elsewhere [OF ok assms(2)] by blast
    then show ?thesis by (intro slot_ok_frame [OF service_okD(2) [OF assms(1)]]) (simp_all add: same_for_release ok)
  next
    case True
    have "slot_ok s loc" by (rule service_okD(2) [OF assms(1)])
    then show ?thesis unfolding True using assms(3)
      by (intro stopped_slot_ok) (auto simp: slot_ok_def jobs_at_def job_at_def release_effect(3) [OF ok] stopped_release [OF ok] slot_none_release [OF ok])
  qed
qed

lemma own_stop_slot [simp]: "own (stop_slot n i p) = own p"
  by (auto simp: own_def stop_slot_def fun_eq_iff split: option.splits)

lemma stop_slot_stops: "pool_ok p \<Longrightarrow> (case slot_at (stop_slot (fst loc) (snd loc) p) (fst loc) (snd loc) of None \<Rightarrow> True | Some x \<Rightarrow> sl_stopped x)"
  using tables_okD(1) [OF pool_okD(1)]
  by (auto simp: stop_slot_def slot_at_set slot_atI slot_at_def [of p] split: option.splits if_splits)

lemma fail_pending_ok:
  fixes loc :: location
  assumes "service_ok s"
  defines "s' \<equiv> s\<lparr>sv_pool := stop_slot (fst loc) (snd loc) (sv_pool s), sv_queue := (sv_queue s)(loc := [])\<rparr>"
  shows "service_ok s'" "stopped_at s' loc"
proof -
  let ?s = "s\<lparr>sv_pool := stop_slot (fst loc) (snd loc) (sv_pool s), sv_queue := (sv_queue s)(loc := [])\<rparr>"
  note ok = service_okD(1) [OF assms(1)]
  have stopped: "stopped_at ?s loc" using stop_slot_stops [OF ok, of loc] by simp
  then show "stopped_at s' loc" by (simp add: s'_def)
  show "service_ok s'" unfolding s'_def
  proof (rule service_okI)
    show "pool_ok (sv_pool ?s)" by (simp add: stop_slot_ok ok)
    show "execution_ok x" if "x \<in> set (sv_executed ?s)" for x using that assms(1) by (simp add: service_ok_def)
    show "slot_ok ?s loc'" for loc'
    proof (cases "loc' = loc")
      case False
      then show ?thesis by (intro slot_ok_frame [OF service_okD(2) [OF assms(1)]]) (simp_all add: same_for_stop_slot ok)
    next
      case True
      have "same_for loc (sv_pool s) (sv_pool ?s)" by (simp add: same_for_stop_slot ok)
      then have "slot_at (sv_pool ?s) (fst loc) (snd loc) = None \<longleftrightarrow> slot_at (sv_pool s) (fst loc) (snd loc) = None" by (simp add: same_for_def)
      then show ?thesis unfolding True using stopped service_okD(2) [OF assms(1), of loc]
        by (intro stopped_slot_ok) (auto simp: slot_ok_def jobs_at_def job_at_def)
    qed
  qed
qed

lemma job_at_cleanup: "job_at p loc j \<Longrightarrow> jb_done j = Deliver_finished \<Longrightarrow> job_at p loc (cleanup_job j r)"
  by (auto simp: job_at_def job_ok_def cleanup_job_def)

lemma job_at_own: "job_at p loc j \<Longrightarrow> jb_done j \<noteq> Deliver \<Longrightarrow> own p loc (jb_transaction j)"
  by (auto simp: job_at_def job_ok_def split: completion.splits)

lemma release_and_reply_ok: "job_at (sv_pool s) loc j \<Longrightarrow> jb_done j \<noteq> Deliver \<Longrightarrow> a \<in> set (release_and_reply b r j result) \<Longrightarrow> action_ok s loc a"
  by (auto simp: release_and_reply_def action_ok_def job_at_own split: if_splits)

lemma act_stopped:
  assumes "service_ok s" "stopped_at s loc" "action_ok s loc a" "act loc a s = (s', todo)"
  shows "service_ok s'" "stopped_at s' loc" "\<forall>b \<in> set todo. action_ok s' loc b" "own (sv_pool s') = own (sv_pool s)"
proof -
  have "service_ok s' \<and> stopped_at s' loc \<and> (\<forall>b \<in> set todo. action_ok s' loc b) \<and> own (sv_pool s') = own (sv_pool s)"
  proof (cases a)
    case (Complete j r)
    have j: "job_at (sv_pool s) loc j" using assms(3) Complete by (simp add: action_ok_def)
    have c: "complete loc j r s = (s', todo)" using assms(4) Complete by (simp add: act_def)
    have "s' = s" using c assms(2) by (auto simp: complete_def enqueue_def split: completion.splits if_splits)
    moreover have "\<forall>b \<in> set todo. action_ok s loc b"
      using c assms(2) j job_at_own [OF j] release_and_reply_ok [OF j] job_at_cleanup [OF j]
      by (auto simp: complete_def enqueue_def action_ok_def split: completion.splits if_splits)
    ultimately show ?thesis using assms(1, 2) by simp
  next
    case (Fail_pending m)
    let ?s = "s\<lparr>sv_pool := stop_slot (fst loc) (snd loc) (sv_pool s), sv_queue := (sv_queue s)(loc := [])\<rparr>"
    have c: "s' = ?s" "todo = map (\<lambda>j. Complete j (failure Connection_unavailable m)) (sv_queue s loc)" using assms(4) Fail_pending by (simp_all add: act_def)
    have "\<forall>j \<in> set (sv_queue s loc). job_at (sv_pool s) loc j" using service_okD(2) [OF assms(1), of loc] by (simp add: slot_ok_def jobs_at_def)
    then have "\<forall>b \<in> set todo. action_ok ?s loc b" unfolding c(2) by (auto simp: action_ok_def job_at_def)
    then show ?thesis using fail_pending_ok [OF assms(1), of loc] unfolding c(1) by simp
  next
    case (Release_handle t)
    have "s' = s\<lparr>sv_pool := fst (release_transaction t (sv_pool s))\<rparr>" "todo = []" using assms(4) Release_handle by (simp_all add: act_def)
    moreover have "own (sv_pool s) loc t" using assms(3) Release_handle by (simp add: action_ok_def)
    ultimately show ?thesis using release_slot_ok [OF assms(1) _ assms(2)] assms(2)
      by (simp add: stopped_release [OF service_okD(1) [OF assms(1)]] release_effect(3) [OF service_okD(1) [OF assms(1)]])
  next
    case (Reply req r)
    then show ?thesis using assms service_ok_reply [OF assms(1), of req r] by (auto simp: act_def reply_def)
  qed
  then show "service_ok s'" "stopped_at s' loc" "\<forall>b \<in> set todo. action_ok s' loc b" "own (sv_pool s') = own (sv_pool s)" by auto
qed

lemma action_ok_own: "own (sv_pool s') = own (sv_pool s) \<Longrightarrow> action_ok s' loc a = action_ok s loc a"
  by (simp add: action_ok_def job_at_def split: action.splits)

lemma run_agenda_stopped:
  "service_ok s \<Longrightarrow> stopped_at s loc \<Longrightarrow> \<forall>a \<in> set as. action_ok s loc a \<Longrightarrow> service_ok (run_agenda loc as s)"
proof (induction loc as s rule: run_agenda.induct)
  case (2 loc a as s)
  obtain s' todo where a: "act loc a s = (s', todo)" by fastforce
  have ok: "action_ok s loc a" using "2.prems"(3) by simp
  note n = act_stopped [OF "2.prems"(1, 2) ok a]
  have "\<forall>b \<in> set (todo @ as). action_ok s' loc b" using n(3) "2.prems"(3) action_ok_own [OF n(4)] by auto
  then show ?case using "2.IH" [OF a [symmetric] n(1, 2)] a by simp
qed simp

section \<open>Jobs that enter a live queue\<close>

lemma queue_ok:
  assumes "service_ok s" "job_at (sv_pool s) loc j" "\<not> stopped_at s loc"
    "live (generation_at (sv_pool s) loc) (registered (sv_pool s) loc) (sv_queue s loc @ [j]) (sv_worker s loc)"
  shows "service_ok (s\<lparr>sv_queue := (sv_queue s)(loc := sv_queue s loc @ [j])\<rparr>)" (is "service_ok ?s")
proof (rule service_okI)
  show "pool_ok (sv_pool ?s)" using service_okD(1) [OF assms(1)] by simp
  show "execution_ok x" if "x \<in> set (sv_executed ?s)" for x using that assms(1) by (simp add: service_ok_def)
  show "slot_ok ?s loc'" for loc'
  proof (cases "loc' = loc")
    case False
    then show ?thesis by (intro slot_ok_frame [OF service_okD(2) [OF assms(1)]]) simp_all
  next
    case True
    then show ?thesis using service_okD(2) [OF assms(1), of loc] assms(2-4) by (auto simp: slot_ok_def jobs_at_def split: option.splits)
  qed
qed

text \<open>A job of a recent transaction may enter always, a job of none only an idle connection.\<close>

lemma live_enter:
  assumes "live G reg q w" "recent 0 G j" "jb_transaction j \<noteq> 0 \<or> (\<forall>t. \<not> reg t)"
  shows "live G reg (q @ [j]) w"
proof (cases "no_begin G reg q w")
  case True
  then have "no_begin G reg (q @ [j]) w" using assms by (auto simp: no_begin_def live_def)
  then show ?thesis using assms(1) by (auto simp: live_def)
next
  case False
  then have o: "one_begin G reg q w" using assms(1) by (simp add: live_def)
  then obtain X b Y where x: "q = X @ b # Y" "jb_op b = Begin" "reg (jb_transaction b)" "\<forall>j \<in> set X. recent 1 G j"
    "\<forall>j \<in> set Y. recent 0 G j \<and> jb_transaction j \<noteq> 0" by (auto simp: one_begin_def)
  then have "jb_transaction j \<noteq> 0" using assms(3) by blast
  then have "q @ [j] = X @ b # (Y @ [j]) \<and> (\<forall>j \<in> set (Y @ [j]). recent 0 G j \<and> jb_transaction j \<noteq> 0)" using x assms(2) by auto
  then have "one_begin G reg (q @ [j]) w" using o x(2-4) unfolding one_begin_def by blast
  then show ?thesis using assms(1) by (auto simp: live_def)
qed

lemma submit_ok:
  assumes "service_ok s" "job_at (sv_pool s) loc j"
    "\<not> stopped_at s loc \<Longrightarrow> live (generation_at (sv_pool s) loc) (registered (sv_pool s) loc) (sv_queue s loc @ [j]) (sv_worker s loc)"
  shows "service_ok (submit loc j s)"
proof (cases "stopped_at s loc")
  case True
  have "\<forall>a \<in> set [Complete j (failure Connection_unavailable ''database worker queue is stopped'')]. action_ok s loc a" using assms(2) by (simp add: action_ok_def)
  from run_agenda_stopped [OF assms(1) True this] show ?thesis using True by (simp add: submit_def enqueue_def)
next
  case False
  then show ?thesis using queue_ok [OF assms(1, 2) False assms(3) [OF False]] by (simp add: submit_def enqueue_def)
qed

lemma live_at:
  assumes "service_ok s" "\<not> stopped_at s loc"
  shows "live (generation_at (sv_pool s) loc) (registered (sv_pool s) loc) (sv_queue s loc) (sv_worker s loc)"
  using service_okD(2) [OF assms(1), of loc] assms(2) by (auto simp: slot_ok_def)

section \<open>The handlers keep the invariant\<close>

text \<open>The pool changes first, in a way no connection notices, and a job enters.\<close>

lemma route_submit:
  assumes "service_ok s" "pool_ok p" "\<And>loc. same_for loc (sv_pool s) p" "job_at p loc j"
    "\<not> stopped_at (s\<lparr>sv_pool := p\<rparr>) loc \<Longrightarrow> recent 0 (generation_at p loc) j \<and> (jb_transaction j \<noteq> 0 \<or> (\<forall>t. \<not> registered p loc t))"
  shows "service_ok (submit loc j (s\<lparr>sv_pool := p\<rparr>))"
proof (rule submit_ok [OF service_ok_pool [OF assms(1-3)]])
  show "job_at (sv_pool (s\<lparr>sv_pool := p\<rparr>)) loc j" using assms(4) by simp
  assume "\<not> stopped_at (s\<lparr>sv_pool := p\<rparr>) loc"
  from live_enter [OF live_at [OF service_ok_pool [OF assms(1-3)] this]] assms(5) [OF this]
  show "live (generation_at (sv_pool (s\<lparr>sv_pool := p\<rparr>)) loc) (registered (sv_pool (s\<lparr>sv_pool := p\<rparr>)) loc) (sv_queue (s\<lparr>sv_pool := p\<rparr>) loc @ [j]) (sv_worker (s\<lparr>sv_pool := p\<rparr>) loc)"
    by simp
qed

lemma idle_unregistered: "pool_ok p \<Longrightarrow> slot_at p (fst loc) (snd loc) = Some x \<Longrightarrow> sl_state x = Idle \<Longrightarrow> \<not> registered p loc t"
  using registered_own(3) by fastforce

lemma dispatch_regular_ok:
  assumes "service_ok s" "op = Query \<or> op = Exec"
  shows "service_ok (dispatch_regular request name op sql params s)"
proof (cases "route_idle name (sv_pool s)")
  case (Pair p r)
  note ok = service_okD(1) [OF assms(1)]
  have p: "pool_ok p" "\<And>loc. same_for loc (sv_pool s) p" using route_idle_ok [OF ok, of name] same_for_route_idle [of _ "sv_pool s" name] Pair by simp_all
  show ?thesis
  proof (cases r)
    case (Failed e)
    then show ?thesis using Pair service_ok_reply [OF service_ok_pool [OF assms(1) p]] by (simp add: dispatch_regular_def Let_def)
  next
    case (Route loc t)
    obtain i where rr: "route_round_robin name (\<lambda>s. sl_state s = Idle) (sv_pool s) = (p, Some i)" "loc = (name, i)"
      using Pair Route by (auto simp: route_idle_def split: option.splits if_splits prod.splits)
    obtain f where f: "p = po_round_robin_update f (sv_pool s)" using round_robin_result(1) [OF rr(1)] by blast
    have i: "\<exists>x. slot_at p (fst loc) (snd loc) = Some x \<and> sl_state x = Idle"
      using round_robin_result(2) [OF rr(1), of i] rr(2) slot_atI [of "sv_pool s" name _ i] unfolding f by auto
    let ?j = "\<lparr>jb_request = request, jb_op = op, jb_transaction = 0, jb_sql = sql, jb_params = params, jb_done = Deliver\<rparr>"
    have "service_ok (submit loc ?j (s\<lparr>sv_pool := p\<rparr>))"
      by (rule route_submit [OF assms(1) p]) (use assms(2) i idle_unregistered [OF p(1), of loc] in \<open>auto simp: job_at_def job_ok_def recent_def\<close>)
    then show ?thesis using Pair Route by (simp add: dispatch_regular_def Let_def)
  qed
qed

text \<open>A routed handle is registered for the connection it is routed to.\<close>

lemma routed_registered:
  assumes "pool_ok p" "route_transaction token closing p = (p', Route loc t)"
  shows "t = token" "registered p' loc t"
proof -
  have l: "\<exists>s. leads_to p token loc s" "t = token" using route_transaction_iff [OF assms(1), of token closing p' loc t] assms(2) by auto
  then have "registered p loc t" by (auto simp: leads_to_def registered_def)
  moreover have "same_for loc p p'" using same_for_route_transaction [OF assms(1), of loc token closing] assms(2) by simp
  ultimately show "t = token" "registered p' loc t" using l by (auto simp: same_for_def)
qed

lemma transaction_job:
  assumes "pool_ok p" "registered p loc (jb_transaction j)" "jb_op j \<noteq> Begin" "job_ok j"
  shows "job_at p loc j" "recent 0 (generation_at p loc) j" "jb_transaction j \<noteq> 0"
  using registered_own [OF assms(1, 2)] own_nonzero assms(3, 4) by (auto simp: job_at_def recent_def aged_def)

lemma dispatch_transaction_ok:
  assumes "service_ok s" "op = Query \<or> op = Exec"
  shows "service_ok (dispatch_transaction request token op sql params s)"
proof (cases "route_transaction token False (sv_pool s)")
  case (Pair p r)
  note ok = service_okD(1) [OF assms(1)]
  have p: "pool_ok p" "\<And>loc. same_for loc (sv_pool s) p"
    using route_transaction_ok [OF ok, of token False] same_for_route_transaction [OF ok, of _ token False] Pair by simp_all
  show ?thesis
  proof (cases r)
    case (Failed e)
    then show ?thesis using Pair service_ok_reply [OF service_ok_pool [OF assms(1) p]] by (simp add: dispatch_transaction_def Let_def)
  next
    case (Route loc t)
    note reg = routed_registered [OF ok Pair [unfolded Route]]
    let ?j = "\<lparr>jb_request = request, jb_op = op, jb_transaction = token, jb_sql = sql, jb_params = params, jb_done = Deliver_statement\<rparr>"
    have "token \<noteq> 0" using registered_own(1) [OF p(1) reg(2)] own_nonzero reg(1) by blast
    then have "job_ok ?j" using assms(2) by (auto simp: job_ok_def)
    note j = transaction_job [OF p(1), of loc ?j]
    have "service_ok (submit loc ?j (s\<lparr>sv_pool := p\<rparr>))"
      by (rule route_submit [OF assms(1) p]) (use reg \<open>job_ok ?j\<close> assms(2) j in auto)
    then show ?thesis using Pair Route by (simp add: dispatch_transaction_def Let_def)
  qed
qed

lemma finish_transaction_ok:
  assumes "service_ok s" "op = Commit \<or> op = Rollback"
  shows "service_ok (finish_transaction request name op s)"
proof -
  note ok = service_okD(1) [OF assms(1)]
  let ?route = "case name of Inl token \<Rightarrow> route_transaction token True (sv_pool s) | Inr key \<Rightarrow> route_key key True (sv_pool s)"
  obtain p r where Pair: "?route = (p, r)" by fastforce
  have route: "(\<exists>token. route_transaction token True (sv_pool s) = (p, r)) \<or> (\<exists>e. p = sv_pool s \<and> r = Failed e)"
    using Pair by (auto simp: route_key_def Let_def split: sum.splits if_splits)
  have p: "pool_ok p" "\<And>loc. same_for loc (sv_pool s) p"
    using route route_transaction_ok [OF ok, of _ True] same_for_route_transaction [OF ok, of _ _ True] ok by (metis fst_conv same_for_refl(1))+
  show ?thesis
  proof (cases r)
    case (Failed e)
    then show ?thesis using Pair service_ok_reply [OF service_ok_pool [OF assms(1) p]] by (simp add: finish_transaction_def Let_def)
  next
    case (Route loc t)
    then obtain token where token: "route_transaction token True (sv_pool s) = (p, Route loc t)" using route by blast
    note reg = routed_registered [OF ok token]
    let ?j = "\<lparr>jb_request = request, jb_op = op, jb_transaction = t, jb_sql = [], jb_params = [], jb_done = Deliver_finished\<rparr>"
    have "t \<noteq> 0" using registered_own(1) [OF p(1) reg(2)] own_nonzero by blast
    then have "job_ok ?j" using assms(2) by (auto simp: job_ok_def)
    note j = transaction_job [OF p(1), of loc ?j]
    have "service_ok (submit loc ?j (s\<lparr>sv_pool := p\<rparr>))"
      by (rule route_submit [OF assms(1) p]) (use reg \<open>job_ok ?j\<close> assms(2) j in auto)
    then show ?thesis using Pair Route by (simp add: finish_transaction_def Let_def)
  qed
qed

lemma recent_grow: "recent 0 G j \<Longrightarrow> recent (Suc 0) (next_generation G) j"
  by (auto simp: recent_def aged_def)

text \<open>The generation of a handle does not come back within two transactions.\<close>

lemma aged_distinct:
  assumes "g \<noteq> 0" "n \<in> {1, 2}"
  shows "(next_generation ^^ n) g \<noteq> g"
proof -
  have "\<not> (2 ^ 32 - 1) dvd (1 :: nat)" "\<not> (2 ^ 32 - 1) dvd (2 :: nat)" by (auto dest: dvd_imp_le)
  then show ?thesis using generation_cycle [OF assms(1), of n] assms(2) by auto
qed

text \<open>A grant, seen from the connections.\<close>

lemma granted_view:
  assumes "pool_ok p" "grantable p name i key k s" "token = encode_handle k i (snd (try_acquire s))"
  defines "p' \<equiv> granted name i key token s p"
  shows "registered p' (name, i) token" "own p' = own p" "own p' (name, i) token" "generation_at p' (name, i) = next_generation (generation_at p (name, i))"
    "token_generation token = generation_at p' (name, i)" "loc \<noteq> (name, i) \<Longrightarrow> same_for loc p p'"
    "slot_at p' name i = Some (fst (try_acquire s))"
proof -
  note t = tables_okD [OF pool_okD(1) [OF assms(1)]]
  have g: "slot_at p name i = Some s" "sl_state s = Idle" "map_of (po_indexes p) name = Some k" "k \<le> max_index" "i \<le> max_index" using assms(2) by (auto simp: grantable_def)
  have acq: "snd (try_acquire s) = next_generation (sl_generation s)" "sl_generation (fst (try_acquire s)) = next_generation (sl_generation s)"
    using g(2) by (simp_all add: try_acquire_def)
  note at = granted_at [OF t(1) g(1), of key token]
  have fresh: "map_of (po_entries p) token = None" unfolding assms(3) by (rule next_handle_fresh [OF assms(1) g(1-5)])
  have ent: "map_of (po_entries p') = (map_of (po_entries p))(token \<mapsto> \<lparr>en_slot = (name, i), en_generation = snd (try_acquire s), en_key = key\<rparr>)"
    unfolding p'_def using t(3) by simp
  show own: "own p' = own p" by (simp add: own_def p'_def fun_eq_iff)
  show "registered p' (name, i) token" using ent by (simp add: registered_def)
  show "own p' (name, i) token" unfolding own own_def using g assms(3) acq by (intro exI [of _ k] exI [of _ "next_generation (sl_generation s)"]) simp
  show "generation_at p' (name, i) = next_generation (generation_at p (name, i))" "slot_at p' name i = Some (fst (try_acquire s))"
    using g(1) acq by (simp_all add: p'_def at)
  have "slot_at p' name i = Some (fst (try_acquire s))" by (simp add: p'_def at)
  moreover have "token_generation token = next_generation (sl_generation s)" using acq assms(3) decode_encode [OF g(4, 5)] by (simp add: token_generation_def)
  ultimately show "token_generation token = generation_at p' (name, i)" using acq by simp
  show "same_for loc p p'" if "loc \<noteq> (name, i)"
  proof -
    have "registered p' loc = registered p loc" using ent fresh that by (auto simp: registered_def fun_eq_iff)
    moreover have "slot_at p' (fst loc) (snd loc) = slot_at p (fst loc) (snd loc)" using that by (auto simp: p'_def at prod_eq_iff)
    ultimately show ?thesis by (auto simp: same_for_def own split: option.splits)
  qed
qed

lemma begin_live:
  assumes "live G reg q w" "\<And>t. \<not> reg t" "jb_op b = Begin" "reg' (jb_transaction b)"
  shows "live (next_generation G) reg' (q @ [b]) w"
proof -
  have a: "wk_active w = 0" using assms(1, 2) by (auto simp: live_def)
  have n: "no_begin G reg q w" using assms(1, 2) by (auto simp: live_def one_begin_def)
  have c: "recent (Suc 0) (next_generation G) j" if "wk_current w = Some (j, r)" for j r using that n assms(2) by (auto simp: no_begin_def intro: recent_grow)
  have "one_begin (next_generation G) reg' (q @ [b]) w"
    unfolding one_begin_def using n assms(2-4) a by (intro conjI exI [of _ q] exI [of _ b] exI [of _ "[]"]) (auto simp: no_begin_def c intro: recent_grow)
  then show ?thesis using a assms(1) by (auto simp: live_def)
qed

text \<open>A connection whose index no handle can hold sees no transactions.\<close>

lemma live_without_transactions:
  assumes "live G reg q w" "\<And>t. \<not> reg t" "\<And>j. j \<in> set q \<Longrightarrow> jb_transaction j = 0" "\<And>j r. wk_current w = Some (j, r) \<Longrightarrow> jb_transaction j = 0"
  shows "live G' reg' q w"
  using assms by (auto simp: live_def no_begin_def one_begin_def recent_def)

lemma capacity_ok:
  assumes "service_ok s" "slot_at (sv_pool s) name i = Some x" "sl_state x = Idle" "i > max_index"
  shows "service_ok (s\<lparr>sv_pool := set_slot name i (x\<lparr>sl_generation := next_generation (sl_generation x)\<rparr>) (po_round_robin_update f (sv_pool s))\<rparr>)"
proof -
  note ok = service_okD(1) [OF assms(1)]
  define p where "p = set_slot name i (x\<lparr>sl_generation := next_generation (sl_generation x)\<rparr>) (po_round_robin_update f (sv_pool s))"
  have at: "slot_at p n j = (if (n, j) = (name, i) then Some (x\<lparr>sl_generation := next_generation (sl_generation x)\<rparr>) else slot_at (sv_pool s) n j)" for n j
    unfolding p_def using tables_okD(1) [OF pool_okD(1) [OF ok]] assms(2) by (simp add: slot_at_set)
  have reg: "registered p = registered (sv_pool s)" "own p = own (sv_pool s)" by (auto simp: p_def registered_def own_def fun_eq_iff)
  have "service_ok (s\<lparr>sv_pool := p\<rparr>)"
  proof (rule service_okI)
    show "pool_ok (sv_pool (s\<lparr>sv_pool := p\<rparr>))" using pool_ok_set_slot [OF ok assms(2)] assms(3) by (simp add: p_def)
    show "execution_ok y" if "y \<in> set (sv_executed (s\<lparr>sv_pool := p\<rparr>))" for y using that service_okD(3) [OF assms(1)] by simp
    show "slot_ok (s\<lparr>sv_pool := p\<rparr>) loc" for loc
    proof (cases "loc = (name, i)")
      case False
      then have "slot_at p (fst loc) (snd loc) = slot_at (sv_pool s) (fst loc) (snd loc)" by (simp add: at)
      then have "same_for loc (sv_pool s) p" by (auto simp: same_for_def reg split: option.splits)
      then show ?thesis by (intro slot_ok_frame [OF service_okD(2) [OF assms(1)]]) simp_all
    next
      case True
      have o: "\<not> own (sv_pool s) loc t" for t using assms(4) True by (auto simp: own_def)
      then have r: "\<not> registered (sv_pool s) loc t" for t using registered_own(1) [OF ok, of loc t] by blast
      have tx: "\<forall>j \<in> jobs_at s loc. jb_transaction j = 0" using service_okD(2) [OF assms(1), of loc] o by (auto simp: slot_ok_def job_at_def)
      have "live G' reg' (sv_queue s loc) (sv_worker s loc)" if "\<not> sl_stopped x" for G' reg'
        by (rule live_without_transactions [OF live_at [OF assms(1), of loc]])
          (use that True assms(2) tx r in \<open>auto simp: jobs_at_def\<close>)
      then show ?thesis using service_okD(2) [OF assms(1), of loc] assms(2) True
        by (auto simp: slot_ok_def jobs_at_def job_at_def reg at)
    qed
  qed
  then show ?thesis by (simp add: p_def)
qed

lemma begin_transaction_ok:
  assumes "service_ok s"
  shows "service_ok (begin_transaction request name key s)"
  using service_okD(1) [OF assms]
proof (cases rule: acquire_cases [where name = name and key = key])
  case (capacity i x f)
  let ?p = "set_slot name i (x\<lparr>sl_generation := next_generation (sl_generation x)\<rparr>) (po_round_robin_update f (sv_pool s))"
  note ok = service_okD(1) [OF assms] and t = tables_okD [OF pool_okD(1) [OF service_okD(1) [OF assms]]]
  have "service_ok (s\<lparr>sv_pool := ?p\<rparr>)" by (rule capacity_ok [OF assms capacity(1-3)])
  then show ?thesis using capacity(4) service_ok_reply by (simp add: begin_transaction_def Let_def)
next
  case (refused f err)
  have "service_ok (s\<lparr>sv_pool := po_round_robin_update f (sv_pool s)\<rparr>)" by (rule service_ok_pool [OF assms]) (use service_okD(1) [OF assms] in auto)
  then show ?thesis using refused(2) service_ok_reply by (simp add: begin_transaction_def Let_def)
next
  case (granted i x k)
  let ?t = "encode_handle k i (snd (try_acquire x))" and ?loc = "(name, i)"
  let ?p = "granted name i key ?t x (sv_pool s)"
  let ?s = "s\<lparr>sv_pool := ?p\<rparr>" and ?j = "\<lparr>jb_request = request, jb_op = Begin, jb_transaction = ?t, jb_sql = [], jb_params = [], jb_done = Deliver_begun\<rparr>"
  let ?s' = "?s\<lparr>sv_queue := (sv_queue ?s)(?loc := sv_queue ?s ?loc @ [?j])\<rparr>"
  note ok = service_okD(1) [OF assms] and v = granted_view [OF service_okD(1) [OF assms] granted(1) refl]
  have x: "slot_at (sv_pool s) name i = Some x" "sl_state x = Idle" "\<not> sl_stopped x" using granted(1) by (auto simp: grantable_def)
  have st: "\<not> stopped_at s ?loc" "\<not> stopped_at ?s ?loc" using x v(7) by (auto simp: try_acquire_def)
  have "service_ok ?s'"
  proof (rule service_okI)
    show "pool_ok (sv_pool ?s')" using granted_ok [OF ok granted(1) refl] by simp
    show "execution_ok y" if "y \<in> set (sv_executed ?s')" for y using that service_okD(3) [OF assms] by simp
    show "slot_ok ?s' loc" for loc
    proof (cases "loc = ?loc")
      case False
      then show ?thesis by (intro slot_ok_frame [OF service_okD(2) [OF assms]]) (use v(6) in auto)
    next
      case True
      have "live (generation_at ?p ?loc) (registered ?p ?loc) (sv_queue s ?loc @ [?j]) (sv_worker s ?loc)"
        unfolding v(4) by (rule begin_live [OF live_at [OF assms st(1)]]) (use idle_unregistered [OF ok, of ?loc] x v(1) in auto)
      moreover have "job_at ?p ?loc ?j" using v(3) own_nonzero by (auto simp: job_at_def job_ok_def)
      moreover have "\<forall>j \<in> jobs_at s ?loc. job_at ?p ?loc j" using service_okD(2) [OF assms, of ?loc] v(2) by (auto simp: slot_ok_def job_at_def)
      ultimately show ?thesis unfolding True using service_okD(2) [OF assms, of ?loc] v(7) by (auto simp: slot_ok_def jobs_at_def)
    qed
  qed
  then show ?thesis using granted(2) st(2) by (simp add: begin_transaction_def Let_def submit_def enqueue_def)
qed

section \<open>The worker keeps the invariant\<close>

lemma process_frame:
  assumes "process n stopped rounds raw j w = (w', r, executed)"
  shows "wk_current w' = wk_current w" "\<not> wk_connected w \<longrightarrow> wk_active w = 0 \<Longrightarrow> \<not> wk_connected w' \<longrightarrow> wk_active w' = 0"
    "stopped \<Longrightarrow> w' = w \<and> \<not> executed"
  using assms by (auto simp: process_def after_execute_def Let_def split: if_splits bool.splits prod.splits)

lemma after_execute_session:
  assumes "after_execute j raw v = (w', r)" "job_ok j" "releases j r" "jb_op j = Begin \<Longrightarrow> wk_active v = 0"
  shows "wk_active w' \<noteq> jb_transaction j"
  using assms by (cases "jb_done j"; cases "jb_op j") (auto simp: after_execute_def Let_def releases_def job_ok_def split: if_splits)

text \<open>What one job does to the session: a begin enters its transaction, no other job enters one, and a job whose callback releases its handle leaves the session
  outside of its transaction.\<close>

lemma process_session:
  assumes "process n stopped rounds raw j w = (w', r, executed)" "job_ok j" "jb_transaction j = 0 \<or> jb_op j = Begin \<Longrightarrow> wk_active w = 0"
    "\<not> wk_connected w \<longrightarrow> wk_active w = 0" "\<not> stopped"
  shows "wk_active w' = 0 \<or> wk_active w' = wk_active w \<or> jb_op j = Begin \<and> wk_active w' = jb_transaction j"
    "releases j r \<Longrightarrow> wk_active w' \<noteq> jb_transaction j" "executed \<Longrightarrow> execution_ok (loc, j, wk_active w)"
proof -
  show "wk_active w' = 0 \<or> wk_active w' = wk_active w \<or> jb_op j = Begin \<and> wk_active w' = jb_transaction j"
    using assms(1) by (auto simp: process_def after_execute_def Let_def split: if_splits bool.splits prod.splits)
  show "executed \<Longrightarrow> execution_ok (loc, j, wk_active w)"
    using assms by (auto simp: process_def execution_ok_def split: if_splits bool.splits prod.splits)
  show "wk_active w' \<noteq> jb_transaction j" if "releases j r"
  proof (cases "jb_transaction j \<noteq> 0 \<and> jb_op j \<noteq> Begin \<and> jb_transaction j \<noteq> wk_active w \<or> \<not> executed")
    case True
    then have "w' = w" using assms(1, 5) by (auto simp: process_def split: if_splits bool.splits prod.splits)
    then show ?thesis using True assms that
      by (auto simp: process_def releases_def job_ok_def split: if_splits bool.splits prod.splits completion.splits)
  next
    case False
    define v where "v = w\<lparr>wk_connected := True\<rparr>"
    have v: "wk_active v = wk_active w" by (simp add: v_def)
    have "after_execute j raw v = (w', r)"
      using False assms(1, 5) unfolding v_def by (auto simp: process_def split: if_splits bool.splits prod.splits)
    then show ?thesis using after_execute_session [OF _ assms(2)] False assms(3) that v by metis
  qed
qed

lemma live_run:
  assumes "live G reg (j # rest) w" "wk_current w = None" "process n stopped rounds raw j w = (w', r, executed)" "job_ok j"
    "\<not> wk_connected w \<longrightarrow> wk_active w = 0" "\<not> stopped"
  shows "live G reg rest (w'\<lparr>wk_current := Some (j, r)\<rparr>)" "executed \<Longrightarrow> execution_ok (loc, j, wk_active w)"
proof -
  have nb: "jb_op j \<noteq> Begin" if "recent k G j" for k using that assms(4) by (auto simp: recent_def job_ok_def split: completion.splits)
  have out: "jb_transaction j = 0 \<or> jb_op j = Begin \<Longrightarrow> wk_active w = 0"
    using assms(1) nb by (auto simp: live_def no_begin_def one_begin_def)
  note s = process_session [OF assms(3, 4) out assms(5, 6)]
  show "executed \<Longrightarrow> execution_ok (loc, j, wk_active w)" by (rule s(3))
  have shape: "(wk_active w' \<noteq> 0 \<longrightarrow> reg (wk_active w')) \<and> (no_begin G reg rest (w'\<lparr>wk_current := Some (j, r)\<rparr>) \<or> one_begin G reg rest (w'\<lparr>wk_current := Some (j, r)\<rparr>))"
  proof (cases "no_begin G reg (j # rest) w")
    case True
    then have "wk_active w' = 0 \<or> wk_active w' = wk_active w" using s(1) nb by (auto simp: no_begin_def)
    then show ?thesis using True assms(1) by (auto simp: no_begin_def live_def)
  next
    case False
    then obtain X b Y where x: "j # rest = X @ b # Y" "jb_op b = Begin" "reg (jb_transaction b)" "\<forall>j \<in> set X. recent 1 G j"
      "\<forall>j \<in> set Y. recent 0 G j \<and> jb_transaction j \<noteq> 0" "wk_active w = 0" using assms(1) by (auto simp: live_def one_begin_def)
    show ?thesis
    proof (cases X)
      case Nil
      then show ?thesis using x s(1) by (auto simp: no_begin_def)
    next
      case (Cons a X')
      then have "recent 1 G j" "rest = X' @ b # Y" using x by auto
      moreover from this have "wk_active w' = 0" using s(1) nb x(6) by auto
      moreover have "\<forall>j \<in> set X'. recent 1 G j" using x(4) Cons by simp
      ultimately have "one_begin G reg rest (w'\<lparr>wk_current := Some (j, r)\<rparr>)" unfolding one_begin_def using x(2, 3, 5)
        by (intro conjI exI [of _ X'] exI [of _ b] exI [of _ Y]) simp_all
      then show ?thesis using \<open>wk_active w' = 0\<close> by simp
    qed
  qed
  then show "live G reg rest (w'\<lparr>wk_current := Some (j, r)\<rparr>)" using s(2) by (auto simp: live_def)
qed

lemma run_job_ok:
  assumes "service_ok s" "wk_current (sv_worker s loc) = None"
  shows "service_ok (run_job n rounds raw loc s)"
proof (cases "sv_queue s loc")
  case (Cons j rest)
  obtain w' r executed where p: "process n (stopped_at s loc) rounds raw j (sv_worker s loc) = (w', r, executed)" by (metis prod_cases3)
  have ok: "slot_ok s loc" by (rule service_okD(2) [OF assms(1)])
  then have j: "job_at (sv_pool s) loc j" and c: "\<not> wk_connected (sv_worker s loc) \<longrightarrow> wk_active (sv_worker s loc) = 0"
    using Cons by (auto simp: slot_ok_def jobs_at_def)
  note f = process_frame [OF p]
  have live: "live (generation_at (sv_pool s) loc) (registered (sv_pool s) loc) rest (w'\<lparr>wk_current := Some (j, r)\<rparr>) \<and>
    (executed \<longrightarrow> execution_ok (loc, j, wk_active (sv_worker s loc)))" if "\<not> stopped_at s loc"
    using live_run [OF live_at [OF assms(1) that, unfolded Cons] assms(2) p _ c that] j by (simp add: job_at_def)
  let ?s = "s\<lparr>sv_queue := (sv_queue s)(loc := rest), sv_worker := (sv_worker s)(loc := w'\<lparr>wk_current := Some (j, r)\<rparr>),
               sv_executed := (if executed then sv_executed s @ [(loc, j, wk_active (sv_worker s loc))] else sv_executed s)\<rparr>"
  have "service_ok ?s"
  proof (rule service_okI)
    show "pool_ok (sv_pool ?s)" using service_okD(1) [OF assms(1)] by simp
    show "execution_ok x" if "x \<in> set (sv_executed ?s)" for x
      using that live f(3) service_okD(3) [OF assms(1), of x] by (cases "stopped_at s loc") (auto split: if_splits simp del: split_paired_All)
    show "slot_ok ?s loc'" for loc'
    proof (cases "loc' = loc")
      case False
      then show ?thesis by (intro slot_ok_frame [OF service_okD(2) [OF assms(1)]]) simp_all
    next
      case True
      show ?thesis unfolding True using ok live f(2) [OF c] Cons j by (auto simp: slot_ok_def jobs_at_def)
    qed
  qed
  then show ?thesis using Cons p by (simp add: run_job_def)
qed (use assms in \<open>simp add: run_job_def\<close>)

lemma live_release:
  assumes "live G reg q w" "wk_current w = None" "wk_active w \<noteq> t" "\<And>b. b \<in> set q \<Longrightarrow> jb_op b = Begin \<Longrightarrow> jb_transaction b \<noteq> t"
  shows "live G (\<lambda>t'. reg t' \<and> t' \<noteq> t) q w"
proof (cases "no_begin G reg q w")
  case True
  then show ?thesis using assms by (auto simp: live_def no_begin_def)
next
  case False
  then obtain X b Y where x: "q = X @ b # Y" "jb_op b = Begin" "reg (jb_transaction b)" "\<forall>j \<in> set X. recent 1 G j"
    "\<forall>j \<in> set Y. recent 0 G j \<and> jb_transaction j \<noteq> 0" "wk_active w = 0" using assms(1) by (auto simp: live_def one_begin_def)
  then have "one_begin G (\<lambda>t'. reg t' \<and> t' \<noteq> t) q w" unfolding one_begin_def using assms(2, 4)
    by (intro conjI exI [of _ X] exI [of _ b] exI [of _ Y]) simp_all
  then show ?thesis using x(6) assms(2) by (simp add: live_def)
qed

text \<open>A handle may be given back on a live connection, when the session is not in its transaction and its begin does not wait.\<close>

definition may_release :: "service \<Rightarrow> location \<Rightarrow> u64 \<Rightarrow> bool" where
  "may_release s loc t \<longleftrightarrow> own (sv_pool s) loc t \<and>
     (stopped_at s loc \<or> wk_current (sv_worker s loc) = None \<and> wk_active (sv_worker s loc) \<noteq> t \<and> (\<forall>b \<in> set (sv_queue s loc). jb_op b = Begin \<longrightarrow> jb_transaction b \<noteq> t))"

lemma release_any_ok:
  assumes "service_ok s" "may_release s loc t"
  shows "service_ok (s\<lparr>sv_pool := fst (release_transaction t (sv_pool s))\<rparr>)" (is "service_ok ?s")
proof (cases "stopped_at s loc")
  case True
  then show ?thesis using release_slot_ok [OF assms(1)] assms(2) by (simp add: may_release_def)
next
  case live: False
  note ok = service_okD(1) [OF assms(1)]
  show ?thesis
  proof (rule service_okI)
    show "pool_ok (sv_pool ?s)" by (simp add: release_ok ok)
    show "execution_ok x" if "x \<in> set (sv_executed ?s)" for x using that service_okD(3) [OF assms(1)] by simp
    show "slot_ok ?s loc'" for loc'
    proof (cases "loc' = loc")
      case False
      then have "\<not> registered (sv_pool s) loc' t" using own_elsewhere [OF ok, of loc t loc'] assms(2) by (auto simp: may_release_def)
      then show ?thesis by (intro slot_ok_frame [OF service_okD(2) [OF assms(1)]]) (simp_all add: same_for_release ok)
    next
      case True
      have "registered (sv_pool ?s) loc = (\<lambda>t'. registered (sv_pool s) loc t' \<and> t' \<noteq> t)" by (auto simp: release_effect(1) [OF ok])
      then have "live (generation_at (sv_pool ?s) loc) (registered (sv_pool ?s) loc) (sv_queue s loc) (sv_worker s loc)"
        using live_release [OF live_at [OF assms(1) live], of t] assms(2) live by (auto simp: may_release_def release_effect(2) [OF ok])
      then show ?thesis unfolding True using service_okD(2) [OF assms(1), of loc]
        by (auto simp: slot_ok_def jobs_at_def job_at_def release_effect(3) [OF ok] slot_none_release [OF ok])
    qed
  qed
qed

lemma release_and_reply_agenda:
  assumes "service_ok s" "may_release s loc (jb_transaction j)"
  shows "service_ok (run_agenda loc (release_and_reply b c j r) s)"
proof (cases "b \<and> \<not> c")
  case False
  then have "run_agenda loc (release_and_reply b c j r) s = reply (jb_request j) r (s\<lparr>sv_pool := fst (release_transaction (jb_transaction j) (sv_pool s))\<rparr>)"
    by (auto simp: release_and_reply_def act_def reply_def)
  then show ?thesis using service_ok_reply [OF release_any_ok [OF assms]] by simp
next
  case True
  let ?s = "s\<lparr>sv_pool := stop_slot (fst loc) (snd loc) (sv_pool s), sv_queue := (sv_queue s)(loc := [])\<rparr>"
  let ?as = "map (\<lambda>j. Complete j (failure Connection_unavailable ''transaction rollback failed'')) (sv_queue s loc) @ [Release_handle (jb_transaction j), Reply (jb_request j) r]"
  have "\<forall>j \<in> set (sv_queue s loc). job_at (sv_pool s) loc j" using service_okD(2) [OF assms(1), of loc] by (simp add: slot_ok_def jobs_at_def)
  then have "\<forall>a \<in> set ?as. action_ok ?s loc a" using assms(2) by (auto simp: action_ok_def job_at_def may_release_def)
  from run_agenda_stopped [OF fail_pending_ok [OF assms(1)] this] show ?thesis using True by (simp add: release_and_reply_def act_def)
qed

lemma live_clear:
  assumes "live G reg q w"
  shows "live G reg q (w\<lparr>wk_current := None\<rparr>)"
proof -
  have "no_begin G reg q w \<Longrightarrow> no_begin G reg q (w\<lparr>wk_current := None\<rparr>)" by (simp add: no_begin_def)
  moreover have "one_begin G reg q w \<Longrightarrow> one_begin G reg q (w\<lparr>wk_current := None\<rparr>)" by (simp add: one_begin_def)
  ultimately show ?thesis using assms unfolding live_def by auto
qed

lemma current_cleared:
  assumes "service_ok s"
  shows "service_ok (s\<lparr>sv_worker := (sv_worker s)(loc := (sv_worker s loc)\<lparr>wk_current := None\<rparr>)\<rparr>)" (is "service_ok ?s")
proof (rule service_okI)
  show "pool_ok (sv_pool ?s)" using service_okD(1) [OF assms] by simp
  show "execution_ok x" if "x \<in> set (sv_executed ?s)" for x using that service_okD(3) [OF assms] by simp
  show "slot_ok ?s loc'" for loc'
  proof (cases "loc' = loc")
    case False
    then show ?thesis by (intro slot_ok_frame [OF service_okD(2) [OF assms]]) simp_all
  next
    case True
    show ?thesis unfolding True using live_clear service_okD(2) [OF assms, of loc] by (auto simp: slot_ok_def jobs_at_def)
  qed
qed

text \<open>The current job of a live connection: no begin that waits has its handle, and a rollback of it may be queued.\<close>

lemma live_current:
  assumes "live G reg q w" "wk_current w = Some (j, r)" "own p loc (jb_transaction j)" "\<And>t. reg t \<Longrightarrow> token_generation t = G"
  shows "b \<in> set q \<Longrightarrow> jb_op b = Begin \<Longrightarrow> job_ok b \<Longrightarrow> jb_transaction b \<noteq> jb_transaction j"
    "jb_op j = Commit \<Longrightarrow> jb_done j = Deliver_finished \<Longrightarrow> recent 0 G (cleanup_job j r)"
proof -
  have nz: "jb_transaction j \<noteq> 0" "token_generation (jb_transaction j) \<noteq> 0" using own_nonzero [OF assms(3)] by auto
  show "jb_transaction b \<noteq> jb_transaction j" if "b \<in> set q" "jb_op b = Begin" "job_ok b"
  proof -
    have bn: "jb_transaction b \<noteq> 0" using that by (auto simp: job_ok_def split: completion.splits)
    then have o: "one_begin G reg q w" using assms(1) that by (auto simp: live_def no_begin_def recent_def)
    then have "reg (jb_transaction b)" using that bn by (auto simp: one_begin_def recent_def)
    moreover have "recent 1 G j" using o assms(2) by (simp add: one_begin_def)
    then have "(next_generation ^^ 1) (token_generation (jb_transaction j)) = G \<or> (next_generation ^^ 2) (token_generation (jb_transaction j)) = G"
      using nz by (auto simp: recent_def aged_def numeral_2_eq_2)
    then have "token_generation (jb_transaction j) \<noteq> G" using aged_distinct [OF nz(2), of 1] aged_distinct [OF nz(2), of 2] by auto
    ultimately show ?thesis using assms(4) by auto
  qed
  show "recent 0 G (cleanup_job j r)" if "jb_op j = Commit" "jb_done j = Deliver_finished"
    using assms(1, 2) nz that by (auto simp: live_def no_begin_def one_begin_def recent_def aged_def is_cleanup_def cleanup_job_def)
qed

lemma finish_job_ok:
  assumes "service_ok s"
  shows "service_ok (finish_job loc s)"
proof (cases "wk_current (sv_worker s loc)")
  case (Some jr)
  obtain j r where jr: "jr = (j, r)" by (cases jr)
  note cur = Some [unfolded jr] and ok = service_okD(1) [OF assms]
  define s' where "s' = s\<lparr>sv_worker := (sv_worker s)(loc := (sv_worker s loc)\<lparr>wk_current := None\<rparr>)\<rparr>"
  have s': "service_ok s'" "sv_pool s' = sv_pool s" "sv_queue s' = sv_queue s" "wk_current (sv_worker s' loc) = None"
    "wk_active (sv_worker s' loc) = wk_active (sv_worker s loc)" using current_cleared [OF assms, of loc] by (simp_all add: s'_def)
  have q: "job_at (sv_pool s) loc j" "\<forall>b \<in> set (sv_queue s loc). job_ok b"
    using service_okD(2) [OF assms, of loc] cur by (auto simp: slot_ok_def jobs_at_def job_at_def)
  have "service_ok (run_agenda loc [Complete j r] s')"
  proof (cases "stopped_at s loc")
    case True
    then show ?thesis by (intro run_agenda_stopped [OF s'(1)]) (use q s' in \<open>auto simp: action_ok_def\<close>)
  next
    case False
    note live = live_at [OF assms False]
    have gen: "\<And>t. registered (sv_pool s) loc t \<Longrightarrow> token_generation t = generation_at (sv_pool s) loc" using registered_own(2) [OF ok] by blast
    have may: "may_release s' loc (jb_transaction j)" if "releases j r"
    proof -
      have o: "own (sv_pool s) loc (jb_transaction j)" using that job_at_own [OF q(1)] by (cases "jb_done j") (auto simp: releases_def)
      have "wk_active (sv_worker s loc) \<noteq> jb_transaction j" using live cur that by (auto simp: live_def)
      then show ?thesis using o live_current(1) [OF live cur o gen] q(2) s' by (auto simp: may_release_def)
    qed
    have one: "run_agenda loc [Complete j r] s' = (case complete loc j r s' of (s, todo) \<Rightarrow> run_agenda loc todo s)" by (simp add: act_def)
    show ?thesis
    proof (cases "jb_done j = Deliver_finished \<and> jb_op j = Commit \<and> \<not> db_ok r")
      case True
      have o: "own (sv_pool s) loc (jb_transaction j)" using job_at_own [OF q(1)] True by simp
      have "service_ok (submit loc (cleanup_job j r) s')"
      proof (rule submit_ok [OF s'(1)])
        show "job_at (sv_pool s') loc (cleanup_job j r)" using job_at_cleanup [OF q(1)] True s'(2) by simp
        have "recent 0 (generation_at (sv_pool s) loc) (cleanup_job j r)" using live_current(2) [OF live cur o gen] True by simp
        then show "live (generation_at (sv_pool s') loc) (registered (sv_pool s') loc) (sv_queue s' loc @ [cleanup_job j r]) (sv_worker s' loc)"
          using live_enter [OF live_at [OF s'(1)]] own_nonzero [OF o] False s'(2) by (simp add: cleanup_job_def)
      qed
      then show ?thesis unfolding one using True by (simp add: complete_def submit_def)
    next
      case fin: False
      have rel: "service_ok (run_agenda loc [Release_handle (jb_transaction j), Reply (jb_request j) x] s')" if "releases j r" for x
        using release_and_reply_agenda [OF s'(1) may [OF that], of False False x] by (simp add: release_and_reply_def)
      have rep: "service_ok (run_agenda loc [Reply (jb_request j) x] s')" for x using service_ok_reply [OF s'(1)] by (simp add: act_def reply_def)
      show ?thesis unfolding one using fin rel rep release_and_reply_agenda [OF s'(1) may]
        by (cases "jb_done j") (auto simp: complete_def releases_def simp del: run_agenda.simps)
    qed
  qed
  then show ?thesis using cur by (simp add: finish_job_def s'_def)
qed (simp add: finish_job_def assms)

lemma add_slot_service_ok:
  assumes "service_ok s"
  shows "service_ok (s\<lparr>sv_pool := fst (add_slot name (sv_pool s))\<rparr>)" (is "service_ok ?s")
proof (rule service_okI)
  note ok = service_okD(1) [OF assms] and t = pool_okD(1) [OF service_okD(1) [OF assms]]
  note at = add_slot_at [OF tables_okD(1) [OF t]]
  show "pool_ok (sv_pool ?s)" by (simp add: add_slot_ok ok)
  show "execution_ok x" if "x \<in> set (sv_executed ?s)" for x using that service_okD(3) [OF assms] by simp
  show "slot_ok ?s loc" for loc
  proof -
    have own: "own (sv_pool s) loc t \<Longrightarrow> own (sv_pool ?s) loc t" for t using add_slot_indexes(2) [OF t, of "fst loc"] by (auto simp: own_def)
    have reg: "registered (sv_pool ?s) loc = registered (sv_pool s) loc" by (simp add: registered_def fun_eq_iff)
    show ?thesis
    proof (cases "slot_at (sv_pool ?s) (fst loc) (snd loc) = slot_at (sv_pool s) (fst loc) (snd loc)")
      case True
      then have "same_for loc (sv_pool s) (sv_pool ?s)" using own reg by (auto simp: same_for_def split: option.splits)
      then show ?thesis by (intro slot_ok_frame [OF service_okD(2) [OF assms]]) simp_all
    next
      case False
      then have "snd loc = length (case find_slots (sv_pool s) name of None \<Rightarrow> [] | Some slots \<Rightarrow> slots)" "fst loc = name" by (auto simp: at split: if_splits)
      then have "slot_at (sv_pool s) (fst loc) (snd loc) = None" by (auto simp: slot_at_def split: option.splits)
      then have "sv_queue s loc = []" "wk_current (sv_worker s loc) = None" "wk_active (sv_worker s loc) = 0"
        using service_okD(2) [OF assms, of loc] by (auto simp: slot_ok_def)
      then show ?thesis using False by (auto simp: slot_ok_def jobs_at_def live_def no_begin_def at split: if_splits)
    qed
  qed
qed

lemma start_worker_ok:
  assumes "service_ok s"
  shows "service_ok (s\<lparr>sv_worker := (sv_worker s)(loc := (sv_worker s loc)\<lparr>wk_started := True\<rparr>)\<rparr>)" (is "service_ok ?s")
proof (rule service_okI)
  show "pool_ok (sv_pool ?s)" using service_okD(1) [OF assms] by simp
  show "execution_ok x" if "x \<in> set (sv_executed ?s)" for x using that service_okD(3) [OF assms] by simp
  show "slot_ok ?s loc'" for loc'
  proof (cases "loc' = loc")
    case False
    then show ?thesis by (intro slot_ok_frame [OF service_okD(2) [OF assms]]) simp_all
  next
    case True
    show ?thesis unfolding True using service_okD(2) [OF assms, of loc]
      by (auto simp: slot_ok_def jobs_at_def live_def no_begin_def one_begin_def)
  qed
qed

lemma handle_ok: "service_ok s \<Longrightarrow> message_ok m \<Longrightarrow> service_ok (handle request m s)"
  by (cases m) (auto simp: handle_def message_ok_def dispatch_regular_ok dispatch_transaction_ok begin_transaction_ok finish_transaction_ok)

lemma worker_exit_ok:
  assumes "service_ok s"
  shows "service_ok (run_agenda loc [Fail_pending err] s)"
proof -
  let ?s = "s\<lparr>sv_pool := stop_slot (fst loc) (snd loc) (sv_pool s), sv_queue := (sv_queue s)(loc := [])\<rparr>"
  have "\<forall>j \<in> set (sv_queue s loc). job_at (sv_pool s) loc j" using service_okD(2) [OF assms, of loc] by (simp add: slot_ok_def jobs_at_def)
  then have "\<forall>a \<in> set (map (\<lambda>j. Complete j (failure Connection_unavailable err)) (sv_queue s loc)). action_ok ?s loc a"
    by (auto simp: action_ok_def job_at_def)
  from run_agenda_stopped [OF fail_pending_ok [OF assms] this] show ?thesis by (simp add: act_def)
qed

lemma new_service_ok: "service_ok (new_service backend)"
proof -
  have "slot_at new_pool n i = None" for n i by (simp add: new_pool_def slot_at_def find_slots_def)
  then show ?thesis by (auto simp: service_ok_def slot_ok_def new_service_def new_pool_ok jobs_at_def new_worker_thread_def)
qed

lemma service_step_ok: "service_step s rs s' \<Longrightarrow> service_ok s \<Longrightarrow> service_ok s'"
proof (induction rule: service_step.induct)
  case (Start_worker s loc)
  note ok = service_okD(1) [OF Start_worker(2)]
  have "service_ok (s\<lparr>sv_pool := recover_slot (fst loc) (snd loc) (sv_pool s)\<rparr>)"
    by (rule service_ok_pool [OF Start_worker(2) recover_slot_ok [OF ok] same_for_recover [OF ok]])
  from start_worker_ok [OF this, of loc] show ?case by simp
next
  case (Stop_slot s name i)
  then show ?case by (intro service_ok_pool) (auto intro: stop_slot_ok same_for_stop_slot service_okD(1))
next
  case (Stop_all s)
  then show ?case by (intro service_ok_pool) (auto intro: stop_all_ok same_for_stop_all service_okD(1))
qed (simp_all add: handle_ok run_job_ok finish_job_ok add_slot_service_ok worker_exit_ok del: run_agenda.simps)

lemma service_run_ok: "service_run s rs \<Longrightarrow> service_ok s"
  by (induction rule: service_run.induct) (auto intro: new_service_ok service_step_ok)

section \<open>Sessions are isolated\<close>

text \<open>C8. Through every interleaving of messages, workers, reconnects and shutdown, whatever the driver answers: a statement outside of transactions reaches the
  driver only on a session that is in no transaction, so does a begin, and a statement, commit or rollback of a transaction reaches it only on the session that
  began this transaction.\<close>

theorem sessions_isolated:
  assumes "service_run s requests" "(loc, job, active) \<in> set (sv_executed s)"
  shows "active = (if jb_transaction job = 0 \<or> jb_op job = Begin then 0 else jb_transaction job)"
  using service_okD(3) [OF service_run_ok [OF assms(1)] assms(2)] by (auto simp: execution_ok_def)

text \<open>A run: a transaction begins and a statement is executed in it.\<close>

definition demo_ok :: db_result where
  "demo_ok = empty_result\<lparr>db_ok := True\<rparr>"

definition demo_begun :: service where
  "demo_begun = begin_transaction 1 ''db'' ''k'' ((new_service ''mysql'')\<lparr>sv_pool := pool_one\<rparr>)"

definition demo_started :: service where
  "demo_started = demo_begun\<lparr>sv_pool := recover_slot ''db'' 0 (sv_pool demo_begun),
     sv_worker := (sv_worker demo_begun)((''db'', 0) := (sv_worker demo_begun (''db'', 0))\<lparr>wk_started := True\<rparr>)\<rparr>"

definition demo_session :: service where
  "demo_session = finish_job (''db'', 0) (run_job 3 [(False, demo_ok, False)] demo_ok (''db'', 0) demo_started)"

definition demo_executed :: service where
  "demo_executed = run_job 3 [] demo_ok (''db'', 0) (dispatch_transaction 2 0x100000000 Exec ''x'' [] demo_session)"

definition demo_begin_job :: job where
  "demo_begin_job = \<lparr>jb_request = 1, jb_op = Begin, jb_transaction = 0x100000000, jb_sql = [], jb_params = [], jb_done = Deliver_begun\<rparr>"

definition demo_job :: job where
  "demo_job = \<lparr>jb_request = 2, jb_op = Exec, jb_transaction = 0x100000000, jb_sql = ''x'', jb_params = [], jb_done = Deliver_statement\<rparr>"

lemma demo_begun_value:
  "demo_begun = (new_service ''mysql'')\<lparr>sv_pool := pool_granted, sv_queue := (\<lambda>_. [])((''db'', 0) := [demo_begin_job])\<rparr>"
proof -
  have "\<not> sl_stopped (fst (try_acquire new_slot))" by (simp add: try_acquire_def new_slot_def)
  then show ?thesis by (simp add: demo_begun_def begin_transaction_def acquire_one submit_def enqueue_def granted_slot new_service_def demo_begin_job_def)
qed

lemma recovered_slot: "slot_at (recover_slot ''db'' 0 pool_granted) ''db'' 0 = Some (enable_recovery (fst (try_acquire new_slot)))"
  "route_transaction 0x100000000 False (recover_slot ''db'' 0 pool_granted) = (recover_slot ''db'' 0 pool_granted, Route (''db'', 0) 0x100000000)"
  by (simp_all add: recover_slot_def enable_recovery_def slot_at_def route_transaction_def decode_handle_def pool_eval)

lemma demo_session_value:
  "sv_queue demo_session (''db'', 0) = []" "sv_pool demo_session = recover_slot ''db'' 0 pool_granted"
  "sv_worker demo_session (''db'', 0) = \<lparr>wk_started = True, wk_connected = True, wk_active = 0x100000000, wk_current = None\<rparr>"
  "sv_executed demo_session = [((''db'', 0), demo_begin_job, 0)]"
  "loc \<noteq> (''db'', 0) \<Longrightarrow> sv_queue demo_session loc = [] \<and> wk_current (sv_worker demo_session loc) = None"
proof -
  have l: "\<not> sl_stopped (enable_recovery (fst (try_acquire new_slot)))" by (simp add: try_acquire_def new_slot_def enable_recovery_def)
  let ?w = "\<lparr>wk_started = True, wk_connected = False, wk_active = 0, wk_current = None\<rparr>"
  have "clamp_attempts 3 = Suc (Suc (Suc 0))" by (simp add: clamp_attempts_def)
  then have c: "process 3 False [(False, demo_ok, False)] demo_ok demo_begin_job ?w = (?w\<lparr>wk_connected := True, wk_active := 0x100000000\<rparr>, demo_ok, True)"
    by (simp add: process_def after_execute_def demo_begin_job_def demo_ok_def)
  have d: "jb_done demo_begin_job = Deliver_begun" "db_ok demo_ok" by (simp_all add: demo_begin_job_def demo_ok_def)
  show "sv_queue demo_session (''db'', 0) = []" "sv_pool demo_session = recover_slot ''db'' 0 pool_granted"
    "sv_worker demo_session (''db'', 0) = \<lparr>wk_started = True, wk_connected = True, wk_active = 0x100000000, wk_current = None\<rparr>"
    "sv_executed demo_session = [((''db'', 0), demo_begin_job, 0)]"
  "loc \<noteq> (''db'', 0) \<Longrightarrow> sv_queue demo_session loc = [] \<and> wk_current (sv_worker demo_session loc) = None"
    by (simp_all add: demo_session_def finish_job_def run_job_def demo_started_def demo_begun_value recovered_slot l c d
        new_service_def new_worker_thread_def act_def complete_def)
qed

lemma demo_executed_value: "sv_executed demo_executed = [((''db'', 0), demo_begin_job, 0), ((''db'', 0), demo_job, 0x100000000)]"
proof -
  have "\<not> sl_stopped (enable_recovery (fst (try_acquire new_slot)))" by (simp add: try_acquire_def new_slot_def enable_recovery_def)
  then show ?thesis
    by (simp add: demo_executed_def dispatch_transaction_def demo_session_value recovered_slot submit_def enqueue_def run_job_def process_def demo_job_def
        split: prod.splits)
qed

lemma demo_service_run: "service_run demo_executed [1, 2]"
proof -
  have "service_run demo_begun [1]"
    using service_run.Then [OF service_run.Then [OF service_run.Boot [of "''mysql''"] service_step.Add_slot [of _ "''db''"]] service_step.Message [of "Tx_begin ''db'' ''k''" _ 1]]
    by (simp add: demo_begun_def handle_def message_ok_def pool_one_def new_service_def)
  then have s: "service_run demo_started [1]"
    using service_run.Then [OF _ service_step.Start_worker [of demo_begun "(''db'', 0)"]] by (simp add: demo_started_def demo_begun_value new_service_def new_worker_thread_def)
  have "service_step demo_started [] (run_job 3 [(False, demo_ok, False)] demo_ok (''db'', 0) demo_started)"
    by (rule service_step.Run_job) (simp_all add: demo_started_def demo_begun_value new_service_def new_worker_thread_def)
  then have r: "service_run (run_job 3 [(False, demo_ok, False)] demo_ok (''db'', 0) demo_started) [1]" using service_run.Then [OF s] by simp
  have "service_step (run_job 3 [(False, demo_ok, False)] demo_ok (''db'', 0) demo_started) [] demo_session" unfolding demo_session_def
    by (rule service_step.Finish_job) (simp add: run_job_def demo_started_def demo_begun_value split: prod.splits)
  then have "service_run demo_session [1]" using service_run.Then [OF r] by simp
  from service_run.Then [OF this service_step.Message [of "Transaction_statement 0x100000000 Exec ''x'' []" _ 2]]
  have d: "service_run (dispatch_transaction 2 0x100000000 Exec ''x'' [] demo_session) [1, 2]" by (simp add: handle_def message_ok_def)
  have "\<not> sl_stopped (enable_recovery (fst (try_acquire new_slot)))" by (simp add: try_acquire_def new_slot_def enable_recovery_def)
  then have "service_step (dispatch_transaction 2 0x100000000 Exec ''x'' [] demo_session) [] demo_executed" unfolding demo_executed_def
    by (intro service_step.Run_job) (simp_all add: dispatch_transaction_def demo_session_value recovered_slot submit_def enqueue_def)
  then show ?thesis using service_run.Then [OF d] by simp
qed

lemma sessions_isolated_witness:
  "((''db'', 0), demo_begin_job, 0) \<in> set (sv_executed demo_executed) \<and> ((''db'', 0), demo_job, 0x100000000) \<in> set (sv_executed demo_executed) \<and>
   (0x100000000 :: u64) = (if jb_transaction demo_job = 0 \<or> jb_op demo_job = Begin then 0 else jb_transaction demo_job)"
proof -
  have "((''db'', 0), demo_job, 0x100000000) \<in> set (sv_executed demo_executed)" by (simp add: demo_executed_value)
  from sessions_isolated [OF demo_service_run this] show ?thesis by (simp add: demo_executed_value)
qed

section \<open>Every request is answered once\<close>

definition action_requests :: "action \<Rightarrow> nat multiset" where
  "action_requests a = (case a of Complete j _ \<Rightarrow> {#jb_request j#} | Reply request _ \<Rightarrow> {#request#} | _ \<Rightarrow> {#})"

definition answered :: "service \<Rightarrow> nat multiset" where
  "answered s = image_mset fst (mset (sv_replies s))"

text \<open>The requests that wait at a connection.\<close>

definition waiting :: "service \<Rightarrow> location \<Rightarrow> nat multiset" where
  "waiting s loc = image_mset jb_request (mset (sv_queue s loc)) + (case wk_current (sv_worker s loc) of None \<Rightarrow> {#} | Some (j, _) \<Rightarrow> {#jb_request j#})"

lemma act_requests:
  assumes "act loc a s = (s', todo)"
  shows "answered s' + waiting s' loc + sum_list (map action_requests todo) = answered s + waiting s loc + action_requests a" "loc' \<noteq> loc \<Longrightarrow> waiting s' loc' = waiting s loc'"
proof -
  have todo: "sum_list (map (\<lambda>j. action_requests (Complete j (r j))) js) = image_mset jb_request (mset js)" for js r by (induction js) (auto simp: action_requests_def)
  show "answered s' + waiting s' loc + sum_list (map action_requests todo) = answered s + waiting s loc + action_requests a"
    using assms todo by (cases a) (auto simp: act_def complete_def enqueue_def release_and_reply_def cleanup_job_def answered_def waiting_def o_def
        action_requests_def split: completion.splits if_splits)
  show "loc' \<noteq> loc \<Longrightarrow> waiting s' loc' = waiting s loc'"
    using assms by (cases a) (auto simp: act_def complete_def enqueue_def waiting_def split: completion.splits if_splits)
qed

lemma run_agenda_requests:
  "answered (run_agenda loc as s) + waiting (run_agenda loc as s) loc = answered s + waiting s loc + sum_list (map action_requests as) \<and>
   (\<forall>loc'. loc' \<noteq> loc \<longrightarrow> waiting (run_agenda loc as s) loc' = waiting s loc')"
proof (induction loc as s rule: run_agenda.induct)
  case (2 loc a as s)
  obtain s' todo where a: "act loc a s = (s', todo)" by fastforce
  show ?case using "2.IH" [OF a [symmetric]] act_requests [OF a] a by (auto simp: ac_simps)
qed simp

text \<open>A step that works at one connection and takes the requests \<open>rs\<close>.\<close>

definition takes :: "nat list \<Rightarrow> service \<Rightarrow> service \<Rightarrow> bool" where
  "takes rs s s' \<longleftrightarrow> (\<exists>loc. answered s' + waiting s' loc = answered s + waiting s loc + mset rs \<and> (\<forall>loc'. loc' \<noteq> loc \<longrightarrow> waiting s' loc' = waiting s loc'))"

lemma takesI:
  "answered s' + waiting s' loc = answered s + waiting s loc + mset rs \<Longrightarrow> (\<And>loc'. loc' \<noteq> loc \<Longrightarrow> waiting s' loc' = waiting s loc') \<Longrightarrow> takes rs s s'"
  unfolding takes_def by blast

lemma takes_pool: "takes rs (s\<lparr>sv_pool := p\<rparr>) s' = takes rs s s'" "takes rs s (s'\<lparr>sv_pool := p\<rparr>) = takes rs s s'"
  by (simp_all add: takes_def answered_def waiting_def)

lemma takes_refl: "takes [] s s"
  by (rule takesI) simp_all

lemma takes_agenda: "sum_list (map action_requests as) = mset rs \<Longrightarrow> takes rs s (run_agenda loc as s)"
  using run_agenda_requests [of loc as s] unfolding takes_def by metis

lemma takes_submit: "takes [jb_request j] s (submit loc j s)"
proof -
  show ?thesis
  proof (cases "stopped_at s loc")
    case True
    then have "submit loc j s = run_agenda loc [Complete j (failure Connection_unavailable ''database worker queue is stopped'')] s"
      by (simp add: submit_def enqueue_def del: run_agenda.simps)
    then show ?thesis using takes_agenda by (simp add: action_requests_def del: run_agenda.simps)
  next
    case False
    then show ?thesis by (intro takesI [of _ loc]) (simp_all add: submit_def enqueue_def answered_def waiting_def)
  qed
qed

lemma takes_reply: "takes [request] s (reply request r s)"
  by (rule takesI) (simp_all add: reply_def answered_def waiting_def)

lemma takes_handle: "takes [request] s (handle request m s)"
proof -
  have sub: "takes [request] s (submit loc \<lparr>jb_request = request, jb_op = op, jb_transaction = t, jb_sql = sql, jb_params = ps, jb_done = d\<rparr> (s\<lparr>sv_pool := p\<rparr>))" for loc op t sql ps d p
    using takes_submit [of "\<lparr>jb_request = request, jb_op = op, jb_transaction = t, jb_sql = sql, jb_params = ps, jb_done = d\<rparr>" "s\<lparr>sv_pool := p\<rparr>" loc]
    by (simp add: takes_pool)
  have rep: "takes [request] s (reply request r (s\<lparr>sv_pool := p\<rparr>))" for r p using takes_reply [of request "s\<lparr>sv_pool := p\<rparr>" r] by (simp add: takes_pool)
  show ?thesis
    by (cases m) (auto simp: handle_def dispatch_regular_def dispatch_transaction_def begin_transaction_def finish_transaction_def Let_def sub rep
        split: prod.splits route.splits sum.splits)
qed

lemma service_step_takes: "service_step s rs s' \<Longrightarrow> takes rs s s'"
proof (induction rule: service_step.induct)
  case (Start_worker s loc)
  show ?case by (rule takesI [of _ loc]) (simp_all add: answered_def waiting_def)
next
  case (Run_job s loc n rounds raw)
  then show ?case by (intro takesI [of _ loc]) (auto simp: run_job_def answered_def waiting_def split: list.splits prod.splits)
next
  case (Finish_job s loc)
  then obtain j r where jr: "wk_current (sv_worker s loc) = Some (j, r)" by auto
  let ?s = "s\<lparr>sv_worker := (sv_worker s)(loc := (sv_worker s loc)\<lparr>wk_current := None\<rparr>)\<rparr>"
  have "waiting s loc = waiting ?s loc + {#jb_request j#}" "\<And>l. l \<noteq> loc \<Longrightarrow> waiting s l = waiting ?s l" "answered ?s = answered s"
    using jr by (simp_all add: waiting_def answered_def)
  moreover have "answered (run_agenda loc [Complete j r] ?s) + waiting (run_agenda loc [Complete j r] ?s) loc = answered ?s + waiting ?s loc + {#jb_request j#}"
    "\<And>l. l \<noteq> loc \<Longrightarrow> waiting (run_agenda loc [Complete j r] ?s) l = waiting ?s l"
    using run_agenda_requests [of loc "[Complete j r]" ?s] by (auto simp: action_requests_def simp del: run_agenda.simps split_paired_All)
  ultimately show ?case using jr by (intro takesI [of _ loc]) (simp_all add: finish_job_def del: run_agenda.simps)
next
  case (Worker_exit s loc err)
  show ?case by (rule takes_agenda) (simp add: action_requests_def)
qed (simp_all add: takes_handle takes_pool takes_refl)

lemma takes_total:
  assumes "takes received s s'" "finite L" "\<forall>loc. loc \<notin> L \<longrightarrow> waiting s loc = {#}" "mset rs = answered s + (\<Sum>loc \<in> L. waiting s loc)"
  shows "\<exists>L. finite L \<and> (\<forall>loc. loc \<notin> L \<longrightarrow> waiting s' loc = {#}) \<and> mset (rs @ received) = answered s' + (\<Sum>loc \<in> L. waiting s' loc)"
proof -
  obtain loc where l: "answered s' + waiting s' loc = answered s + waiting s loc + mset received" "\<And>loc'. loc' \<noteq> loc \<Longrightarrow> waiting s' loc' = waiting s loc'"
    using assms(1) by (auto simp: takes_def)
  let ?L = "insert loc L"
  have "(\<Sum>loc \<in> L. waiting s loc) = (\<Sum>loc \<in> ?L. waiting s loc)" using assms(2, 3) by (simp add: sum.insert_if del: split_paired_All)
  also have "\<dots> = waiting s loc + (\<Sum>loc \<in> L - {loc}. waiting s loc)" using assms(2) by (simp add: sum.insert_remove)
  finally have before: "(\<Sum>loc \<in> L. waiting s loc) = waiting s loc + (\<Sum>loc \<in> L - {loc}. waiting s loc)" .
  have after: "(\<Sum>loc \<in> ?L. waiting s' loc) = waiting s' loc + (\<Sum>loc \<in> L - {loc}. waiting s' loc)" using assms(2) by (simp add: sum.insert_remove)
  have "(\<Sum>loc \<in> L - {loc}. waiting s' loc) = (\<Sum>loc \<in> L - {loc}. waiting s loc)" by (rule sum.cong) (auto simp: l(2) simp del: split_paired_All)
  then have "mset (rs @ received) = answered s' + (\<Sum>loc \<in> ?L. waiting s' loc)" using before after assms(4) l(1) by (simp add: ac_simps)
  then show ?thesis using assms(2, 3) l(2) by (intro exI [of _ ?L]) (auto simp del: split_paired_All)
qed

lemma service_run_total: "service_run s rs \<Longrightarrow> \<exists>L. finite L \<and> (\<forall>loc. loc \<notin> L \<longrightarrow> waiting s loc = {#}) \<and> mset rs = answered s + (\<Sum>loc \<in> L. waiting s loc)"
proof (induction rule: service_run.induct)
  case (Boot backend)
  show ?case by (rule exI [of _ "{}"]) (simp add: new_service_def new_worker_thread_def waiting_def answered_def)
next
  case (Then s rs received s')
  then show ?case using takes_total [OF service_step_takes [OF Then(2)]] by blast
qed

text \<open>C9. No request is lost or answered twice.  In every run the answers are among the requests received, each as often at most; and once no connection has a job
  waiting or at work, each request has exactly one answer.  This includes requests that fail to be routed, jobs of connections that are stopped or whose worker
  exits, and commits that fail and are answered only after the rollback that cleans up.\<close>

theorem service_answers_once:
  assumes "service_run s requests"
  shows "mset (map fst (sv_replies s)) \<subseteq># mset requests \<and>
    ((\<forall>loc. sv_queue s loc = [] \<and> wk_current (sv_worker s loc) = None) \<longrightarrow> mset (map fst (sv_replies s)) = mset requests)"
proof -
  obtain L where "mset requests = answered s + (\<Sum>loc \<in> L. waiting s loc)" using service_run_total [OF assms] by blast
  then show ?thesis by (auto simp: answered_def waiting_def simp del: split_paired_All)
qed

definition demo_finished :: service where
  "demo_finished = finish_job (''db'', 0) demo_executed"

lemma demo_finished_run: "service_run demo_finished [1, 2]"
proof -
  have "wk_current (sv_worker demo_executed (''db'', 0)) \<noteq> None"
  proof -
    have "\<not> sl_stopped (enable_recovery (fst (try_acquire new_slot)))" by (simp add: try_acquire_def new_slot_def enable_recovery_def)
    then show ?thesis
      by (simp add: demo_executed_def run_job_def dispatch_transaction_def demo_session_value recovered_slot submit_def enqueue_def split: prod.splits)
  qed
  from service_run.Then [OF demo_service_run service_step.Finish_job [OF this]] show ?thesis by (simp add: demo_finished_def)
qed

lemma demo_finished_idle: "sv_queue demo_finished loc = [] \<and> wk_current (sv_worker demo_finished loc) = None"
proof -
  have l: "\<not> sl_stopped (enable_recovery (fst (try_acquire new_slot)))" by (simp add: try_acquire_def new_slot_def enable_recovery_def)
  have p: "process 3 False [] demo_ok demo_job (sv_worker demo_session (''db'', 0)) = (sv_worker demo_session (''db'', 0), demo_ok, True)"
    by (simp add: process_def demo_session_value after_execute_def demo_job_def demo_ok_def)
  have d: "jb_done demo_job = Deliver_statement" "db_ok demo_ok" by (simp_all add: demo_job_def demo_ok_def)
  show ?thesis using demo_session_value(5) [of loc]
    by (cases "loc = (''db'', 0)") (simp_all add: demo_finished_def demo_executed_def dispatch_transaction_def recovered_slot submit_def enqueue_def run_job_def l p d
        demo_job_def [symmetric] demo_session_value(1, 2) finish_job_def act_def complete_def)
qed

lemma service_answers_once_witness:
  "(\<forall>loc. sv_queue demo_finished loc = [] \<and> wk_current (sv_worker demo_finished loc) = None) \<and> mset (map fst (sv_replies demo_finished)) = {#1, 2#}"
  using service_answers_once [OF demo_finished_run] demo_finished_idle by (simp del: split_paired_All)

end
