(* ===== verification/Sql_Save.thy ===== *)
theory Sql_Save
  imports Sql_Record Sql_Service
begin

text \<open>
  One save of the SQL entity store, as a state machine on its context (the functions \<open>start_save\<close> to \<open>rollback_replay\<close> of
  \<^verbatim>\<open>include/templates/sql_entity_store_actor.hpp\<close> and \<open>fail_database\<close>, \<open>fail_transport\<close>, \<open>retry_or_finish\<close> of \<^verbatim>\<open>sql_entity_store_recovery.hpp\<close>).  The
  save talks to the SQL service with the messages of the theory \<open>Sql_Service\<close>; the stage of a context names the continuation that waits for the answer.  A handler
  sees one time; the clock counts its own ticks, of which \<open>cf_ticks\<close> make a millisecond, and delays are in milliseconds.  The theory shows when a save reports success, that every transaction it begins is closed, and that it ends.
\<close>

section \<open>The context\<close>

text \<open>The answer to a request: a result, or an error of the transport, such as a timeout.\<close>

datatype answer = Answered db_result | Transport_error string

datatype stage = Await_table | Await_begin | Await_reserve | Await_record | Await_change | Await_exists | Await_insert | Await_version | Await_result | Await_commit
  | Await_rollback save_result | Await_replay save_result | Sleeping

text \<open>The flag \<open>completed\<close> is left out: a completed context is in no queue and waits for nothing.\<close>

record save_context =
  cx_id :: nat
  cx_request :: save_request
  cx_store :: store_schema
  cx_schemas :: "entity_schema list"
  cx_signature :: string
  cx_versions :: "u64 list"
  cx_deadline :: nat
  cx_transaction :: u64
  cx_key :: string
  cx_begin_sent :: bool
  cx_change_index :: nat
  cx_attempt :: nat
  cx_retry_requested :: bool
  cx_commit_uncertain :: bool
  cx_stage :: stage

record save_config =
  cf_dialect :: dialect_kind
  cf_real_out :: "u64 \<Rightarrow> string"
  cf_save_retry_attempts :: nat
  cf_retry_backoff :: nat
  cf_ticks :: nat

text \<open>What a continuation ends with: a request, a timer, or the result.\<close>

datatype progress = Ask save_context message | Sleep save_context nat | Done save_context save_result

definition save_error :: "save_request \<Rightarrow> result_code \<Rightarrow> string \<Rightarrow> save_result" where
  "save_error request code error = \<lparr>sv_code = code, sv_error = error, sv_request_id = sr_request_id request, sv_committed = False, sv_entities = []\<rparr>"

definition expired :: "nat \<Rightarrow> save_context \<Rightarrow> bool" where
  "expired now c \<longleftrightarrow> now \<ge> cx_deadline c"

abbreviation ask :: "stage \<Rightarrow> message \<Rightarrow> save_context \<Rightarrow> progress" where
  "ask s m c \<equiv> Ask (c\<lparr>cx_stage := s\<rparr>) m"

abbreviation tx_statement :: "operation \<Rightarrow> sql_statement \<Rightarrow> save_context \<Rightarrow> message" where
  "tx_statement op st c \<equiv> Transaction_statement (cx_transaction c) op (st_text st) (st_params st)"

section \<open>Failure and retry\<close>

text \<open>Milliseconds on the clock.\<close>

abbreviation millis :: "save_config \<Rightarrow> nat \<Rightarrow> nat" where
  "millis cfg n \<equiv> n * cf_ticks cfg"

definition retry_delay :: "save_config \<Rightarrow> nat \<Rightarrow> nat" where
  "retry_delay cfg attempt = min (cf_retry_backoff cfg * 2 ^ min (attempt - 1) 5) 1000"

definition retry_or_finish :: "save_config \<Rightarrow> nat \<Rightarrow> save_context \<Rightarrow> save_result \<Rightarrow> progress" where
  "retry_or_finish cfg now c result =
     (let result = (if cx_commit_uncertain c then result\<lparr>sv_code := Commit_unknown\<rparr> else result); delay = retry_delay cfg (cx_attempt c)
      in if \<not> cx_retry_requested c \<or> cx_attempt c \<ge> cf_save_retry_attempts cfg \<or> now + millis cfg delay \<ge> cx_deadline c then Done c result
         else Sleep (c\<lparr>cx_stage := Sleeping\<rparr>) delay)"

definition rollback :: "save_config \<Rightarrow> nat \<Rightarrow> result_code \<Rightarrow> string \<Rightarrow> save_context \<Rightarrow> progress" where
  "rollback cfg now code error c =
     (let failed = save_error (cx_request c) code error
      in if \<not> cx_begin_sent c then retry_or_finish cfg now c failed else ask (Await_rollback failed) (Tx_rollback (Inr (cx_key c))) c)"

definition rollback_replay :: "save_result \<Rightarrow> save_context \<Rightarrow> progress" where
  "rollback_replay result c = ask (Await_replay result) (Tx_rollback (Inr (cx_key c))) c"

definition fail_database :: "save_config \<Rightarrow> nat \<Rightarrow> db_result \<Rightarrow> result_code \<Rightarrow> string \<Rightarrow> save_context \<Rightarrow> progress" where
  "fail_database cfg now result fallback error c =
     (let retry = is_connection_error (db_code result);
          c = c\<lparr>cx_retry_requested := retry, cx_commit_uncertain := cx_commit_uncertain c \<or> fallback = Commit_unknown\<rparr>
      in rollback cfg now (if retry then Unavailable else fallback) (if error = [] then db_error result else error) c)"

definition fail_transport :: "save_config \<Rightarrow> nat \<Rightarrow> string \<Rightarrow> result_code \<Rightarrow> save_context \<Rightarrow> progress" where
  "fail_transport cfg now error fallback c =
     rollback cfg now fallback error (c\<lparr>cx_retry_requested := True, cx_commit_uncertain := cx_commit_uncertain c \<or> fallback = Commit_unknown\<rparr>)"

section \<open>The steps of an attempt\<close>

definition start_save :: "save_config \<Rightarrow> nat \<Rightarrow> string \<Rightarrow> save_context \<Rightarrow> progress" where
  "start_save cfg now key c =
     (let c = c\<lparr>cx_attempt := cx_attempt c + 1, cx_transaction := 0, cx_begin_sent := False, cx_retry_requested := False, cx_change_index := 0,
            cx_versions := [], cx_key := key\<rparr>
      in if expired now c then rollback cfg now Unavailable ''save deadline expired while queued'' c
         else let ddl = create_idempotency_table (cf_dialect cfg) (cx_store c)
              in ask Await_table (Statement (ss_write_connection (cx_store c)) Exec (st_text ddl) (st_params ddl)) c)"

definition begin_save :: "save_config \<Rightarrow> nat \<Rightarrow> save_context \<Rightarrow> progress" where
  "begin_save cfg now c =
     (if expired now c then rollback cfg now Unavailable ''save deadline expired before BEGIN'' c
      else ask Await_begin (Tx_begin (ss_write_connection (cx_store c)) (cx_key c)) (c\<lparr>cx_begin_sent := True\<rparr>))"

definition reserve_id :: "save_config \<Rightarrow> nat \<Rightarrow> save_context \<Rightarrow> progress" where
  "reserve_id cfg now c =
     (if expired now c then rollback cfg now Unavailable ''save deadline expired after BEGIN'' c
      else ask Await_reserve (tx_statement Exec (reserve_request (cf_dialect cfg) (cx_store c) (sr_request_id (cx_request c)) (cx_signature c)) c) c)"

definition replay_request :: "save_config \<Rightarrow> save_context \<Rightarrow> progress" where
  "replay_request cfg c = ask Await_record (tx_statement Query (load_request_record (cf_dialect cfg) (cx_store c) (sr_request_id (cx_request c))) c) c"

abbreviation current_change :: "save_context \<Rightarrow> entity_patch" where
  "current_change c \<equiv> sr_changes (cx_request c) ! cx_change_index c"

abbreviation current_schema :: "save_context \<Rightarrow> entity_schema" where
  "current_schema c \<equiv> cx_schemas c ! cx_change_index c"

definition insert_change :: "save_config \<Rightarrow> nat \<Rightarrow> save_context \<Rightarrow> progress" where
  "insert_change cfg now c =
     (case build_insert (cf_real_out cfg) (cf_dialect cfg) (current_schema c) (current_change c) of
        Inl error \<Rightarrow> rollback cfg now Invalid_request error c
      | Inr st \<Rightarrow> ask Await_insert (tx_statement Exec st c) c)"

definition load_change_version :: "save_config \<Rightarrow> nat \<Rightarrow> save_context \<Rightarrow> progress" where
  "load_change_version cfg now c =
     (case build_current_version (cf_real_out cfg) (cf_dialect cfg) (current_schema c) (ep_target (current_change c)) of
        Inl error \<Rightarrow> rollback cfg now Invalid_request error c
      | Inr st \<Rightarrow> ask Await_version (tx_statement Query st c) c)"

definition store_result :: "save_config \<Rightarrow> save_context \<Rightarrow> progress" where
  "store_result cfg c =
     ask Await_result (tx_statement Exec (finish_request_record (cf_dialect cfg) (cx_store c) (sr_request_id (cx_request c)) (encode_versions (cx_versions c))) c) c"

definition apply_next_change :: "save_config \<Rightarrow> nat \<Rightarrow> save_context \<Rightarrow> progress" where
  "apply_next_change cfg now c =
     (if expired now c then rollback cfg now Unavailable ''save deadline expired before applying changes'' c
      else if cx_change_index c \<ge> length (sr_changes (cx_request c)) then store_result cfg c
      else if ep_operation (current_change c) = Insert then insert_change cfg now c
      else case (if ep_operation (current_change c) = Delete_entity
                 then build_delete (cf_real_out cfg) (cf_dialect cfg) (current_schema c) (current_change c)
                 else build_update (cf_real_out cfg) (cf_dialect cfg) (current_schema c) (current_change c)) of
        Inl error \<Rightarrow> rollback cfg now Invalid_request error c
      | Inr st \<Rightarrow> ask Await_change (tx_statement Exec st c) c)"

definition commit_save :: "save_config \<Rightarrow> nat \<Rightarrow> save_context \<Rightarrow> progress" where
  "commit_save cfg now c =
     (if expired now c then rollback cfg now Unavailable ''save deadline expired before COMMIT'' c
      else ask Await_commit (Tx_commit (cx_transaction c)) c)"

text \<open>A result with the versions of the changes, in their order.\<close>

definition saved :: "save_request \<Rightarrow> u64 list \<Rightarrow> save_result" where
  "saved request versions =
     \<lparr>sv_code = Ok, sv_error = [], sv_request_id = sr_request_id request, sv_committed = True,
      sv_entities = map (\<lambda>(change, version). \<lparr>ce_target = ep_target change, ce_version = version, ce_operation = ep_operation change\<rparr>)
        (zip (sr_changes request) versions)\<rparr>"

definition next_change :: "save_config \<Rightarrow> nat \<Rightarrow> u64 \<Rightarrow> save_context \<Rightarrow> progress" where
  "next_change cfg now version c =
     apply_next_change cfg now (c\<lparr>cx_versions := cx_versions c @ [version], cx_change_index := cx_change_index c + 1\<rparr>)"

section \<open>The continuations\<close>

definition or_else_text :: "string \<Rightarrow> string \<Rightarrow> string" where
  "or_else_text error text = (if error = [] then text else error)"

definition on_table :: "save_config \<Rightarrow> nat \<Rightarrow> db_result \<Rightarrow> save_context \<Rightarrow> progress" where
  "on_table cfg now r c =
     (if \<not> db_ok r then fail_database cfg now r Unavailable (''cannot initialize idempotency table: '' @ db_error r) c else begin_save cfg now c)"

definition on_begin :: "save_config \<Rightarrow> nat \<Rightarrow> db_result \<Rightarrow> save_context \<Rightarrow> progress" where
  "on_begin cfg now r c =
     (case (if db_ok r then parse_uint64 (db_insert_id r) else None) of
        None \<Rightarrow> fail_database cfg now r Unavailable (or_else_text (db_error r) ''database did not return a transaction handle'') c
      | Some token \<Rightarrow> reserve_id cfg now (c\<lparr>cx_transaction := token\<rparr>))"

definition on_reserve :: "save_config \<Rightarrow> nat \<Rightarrow> db_result \<Rightarrow> save_context \<Rightarrow> progress" where
  "on_reserve cfg now r c =
     (if \<not> db_ok r then fail_database cfg now r Internal_error (''cannot reserve request id: '' @ db_error r) c
      else if db_affected r = 0 then replay_request cfg c else apply_next_change cfg now c)"

definition on_record :: "save_config \<Rightarrow> nat \<Rightarrow> db_result \<Rightarrow> save_context \<Rightarrow> progress" where
  "on_record cfg now r c =
     (if \<not> db_ok r \<or> db_rows r = [] \<or> length (hd (db_rows r)) \<noteq> 2
      then fail_database cfg now r Commit_unknown (or_else_text (db_error r) ''idempotent request result is unavailable'') c
      else if hd (db_rows r) ! 0 \<noteq> cx_signature c then rollback cfg now Conflict ''request_id was already used by another request'' c
      else case decode_versions (hd (db_rows r) ! 1) (length (sr_changes (cx_request c))) of
        None \<Rightarrow> rollback cfg now Commit_unknown ''stored idempotent result is incomplete'' c
      | Some versions \<Rightarrow> rollback_replay (saved (cx_request c) versions) c)"

definition on_change :: "save_config \<Rightarrow> nat \<Rightarrow> db_result \<Rightarrow> save_context \<Rightarrow> progress" where
  "on_change cfg now r c =
     (let change = current_change c
      in if \<not> db_ok r then fail_database cfg now r Internal_error (db_error r) c
         else if db_affected r > 0
         then if ep_operation change = Delete_entity then next_change cfg now 0 c else load_change_version cfg now c
         else if ep_create_if_missing change \<and> (\<not> ep_check_version change \<or> ep_expected_version change = 0) then insert_change cfg now c
         else case build_current_version (cf_real_out cfg) (cf_dialect cfg) (current_schema c) (ep_target change) of
           Inl error \<Rightarrow> rollback cfg now Invalid_request error c
         | Inr st \<Rightarrow> ask Await_exists (tx_statement Query st c) c)"

definition on_exists :: "save_config \<Rightarrow> nat \<Rightarrow> db_result \<Rightarrow> save_context \<Rightarrow> progress" where
  "on_exists cfg now r c =
     (if \<not> db_ok r then fail_database cfg now r Internal_error (db_error r) c
      else if db_rows r = [] then rollback cfg now Not_found ''entity not found'' c
      else rollback cfg now Conflict (if ep_check_version (current_change c) then ''entity version conflict'' else ''entity was not updated'') c)"

definition on_insert :: "save_config \<Rightarrow> nat \<Rightarrow> db_result \<Rightarrow> save_context \<Rightarrow> progress" where
  "on_insert cfg now r c =
     (if \<not> db_ok r \<or> db_affected r = 0 then fail_database cfg now r Conflict (or_else_text (db_error r) ''entity insert did not create a row'') c
      else load_change_version cfg now c)"

definition on_version :: "save_config \<Rightarrow> nat \<Rightarrow> db_result \<Rightarrow> save_context \<Rightarrow> progress" where
  "on_version cfg now r c =
     (case (if db_ok r \<and> db_rows r \<noteq> [] \<and> hd (db_rows r) \<noteq> [] then parse_uint64 (hd (hd (db_rows r))) else None) of
        None \<Rightarrow> fail_database cfg now r Internal_error (or_else_text (db_error r) ''cannot read committed entity version'') c
      | Some version \<Rightarrow> next_change cfg now version c)"

definition on_result :: "save_config \<Rightarrow> nat \<Rightarrow> db_result \<Rightarrow> save_context \<Rightarrow> progress" where
  "on_result cfg now r c =
     (if \<not> db_ok r \<or> db_affected r \<noteq> 1 then fail_database cfg now r Internal_error (or_else_text (db_error r) ''cannot persist idempotent request result'') c
      else commit_save cfg now c)"

definition on_commit :: "save_config \<Rightarrow> nat \<Rightarrow> db_result \<Rightarrow> save_context \<Rightarrow> progress" where
  "on_commit cfg now r c =
     (if \<not> db_ok r then fail_database cfg now r Commit_unknown (db_error r) c else Done c (saved (cx_request c) (cx_versions c)))"

text \<open>The end of a rollback counts, not its result.  A sleeping context waits for no answer.\<close>

definition advance :: "save_config \<Rightarrow> nat \<Rightarrow> answer \<Rightarrow> save_context \<Rightarrow> progress" where
  "advance cfg now a c =
     (case cx_stage c of
        Await_rollback failed \<Rightarrow> retry_or_finish cfg now c failed
      | Await_replay result \<Rightarrow> Done c result
      | s \<Rightarrow>
        (case a of
           Transport_error error \<Rightarrow> fail_transport cfg now error (if s = Await_commit then Commit_unknown else Unavailable) c
         | Answered r \<Rightarrow>
             (case s of
                Await_table \<Rightarrow> on_table cfg now r c | Await_begin \<Rightarrow> on_begin cfg now r c | Await_reserve \<Rightarrow> on_reserve cfg now r c
              | Await_record \<Rightarrow> on_record cfg now r c | Await_change \<Rightarrow> on_change cfg now r c | Await_exists \<Rightarrow> on_exists cfg now r c
              | Await_insert \<Rightarrow> on_insert cfg now r c | Await_version \<Rightarrow> on_version cfg now r c | Await_result \<Rightarrow> on_result cfg now r c
              | _ \<Rightarrow> on_commit cfg now r c)))"

text \<open>The timer of a retry; \<open>up\<close> tells whether the write service is registered.\<close>

definition wake :: "save_config \<Rightarrow> nat \<Rightarrow> bool \<Rightarrow> string \<Rightarrow> save_context \<Rightarrow> progress" where
  "wake cfg now up key c =
     (if up then start_save cfg now key c
      else retry_or_finish cfg now (c\<lparr>cx_attempt := cx_attempt c + 1\<rparr>) (save_error (cx_request c) Unavailable ''write service unavailable during retry''))"

section \<open>Runs of a save\<close>

text \<open>A list of messages with their answers, in order: of the attempts before the current one, and of the current one.\<close>

type_synonym exchange = "(message \<times> answer) list"

inductive save_run :: "save_config \<Rightarrow> save_context \<Rightarrow> exchange list \<Rightarrow> exchange \<Rightarrow> progress \<Rightarrow> bool" for cfg c0 where
  Start: "save_run cfg c0 [] [] (start_save cfg now key c0)"
| Answer: "save_run cfg c0 past h (Ask c m) \<Longrightarrow> save_run cfg c0 past (h @ [(m, a)]) (advance cfg now a c)"
| Wake_up: "save_run cfg c0 past h (Sleep c delay) \<Longrightarrow> save_run cfg c0 (past @ [h]) [] (wake cfg now True key c)"
| Wake_down: "save_run cfg c0 past h (Sleep c delay) \<Longrightarrow> save_run cfg c0 past h (wake cfg now False key c)"

section \<open>What a successful attempt looks like\<close>

definition same_save :: "save_context \<Rightarrow> save_context \<Rightarrow> bool" where
  "same_save a b \<longleftrightarrow> cx_id a = cx_id b \<and> cx_request a = cx_request b \<and> cx_store a = cx_store b \<and> cx_schemas a = cx_schemas b \<and>
     cx_signature a = cx_signature b \<and> cx_deadline a = cx_deadline b"

abbreviation changes_of :: "save_context \<Rightarrow> entity_patch list" where
  "changes_of c \<equiv> sr_changes (cx_request c)"

abbreviation in_tx :: "u64 \<Rightarrow> operation \<Rightarrow> sql_statement \<Rightarrow> message" where
  "in_tx t op st \<equiv> Transaction_statement t op (st_text st) (st_params st)"

text \<open>The row of a change is written: inserted, updated, or inserted because the update found none and the change may create it.\<close>

inductive written :: "save_config \<Rightarrow> u64 \<Rightarrow> entity_schema \<Rightarrow> entity_patch \<Rightarrow> exchange \<Rightarrow> bool" for cfg t schema change where
  Inserted: "ep_operation change = Insert \<Longrightarrow> build_insert (cf_real_out cfg) (cf_dialect cfg) schema change = Inr st \<Longrightarrow> db_ok r \<Longrightarrow> db_affected r \<noteq> 0 \<Longrightarrow>
    written cfg t schema change [(in_tx t Exec st, Answered r)]"
| Updated: "ep_operation change \<noteq> Insert \<Longrightarrow> ep_operation change \<noteq> Delete_entity \<Longrightarrow>
    build_update (cf_real_out cfg) (cf_dialect cfg) schema change = Inr st \<Longrightarrow> db_ok r \<Longrightarrow> db_affected r > 0 \<Longrightarrow>
    written cfg t schema change [(in_tx t Exec st, Answered r)]"
| Created: "ep_operation change \<noteq> Insert \<Longrightarrow>
    (if ep_operation change = Delete_entity then build_delete (cf_real_out cfg) (cf_dialect cfg) schema change
     else build_update (cf_real_out cfg) (cf_dialect cfg) schema change) = Inr st \<Longrightarrow> db_ok r \<Longrightarrow> db_affected r \<le> 0 \<Longrightarrow>
    ep_create_if_missing change \<Longrightarrow> \<not> ep_check_version change \<or> ep_expected_version change = 0 \<Longrightarrow>
    build_insert (cf_real_out cfg) (cf_dialect cfg) schema change = Inr st' \<Longrightarrow> db_ok r' \<Longrightarrow> db_affected r' \<noteq> 0 \<Longrightarrow>
    written cfg t schema change [(in_tx t Exec st, Answered r), (in_tx t Exec st', Answered r')]"

text \<open>A change is applied: its row is deleted, or written and its version read.\<close>

inductive applied :: "save_config \<Rightarrow> u64 \<Rightarrow> entity_schema \<Rightarrow> entity_patch \<Rightarrow> exchange \<Rightarrow> u64 \<Rightarrow> bool" for cfg t schema change where
  Deleted: "ep_operation change = Delete_entity \<Longrightarrow> build_delete (cf_real_out cfg) (cf_dialect cfg) schema change = Inr st \<Longrightarrow> db_ok r \<Longrightarrow> db_affected r > 0 \<Longrightarrow>
    applied cfg t schema change [(in_tx t Exec st, Answered r)] 0"
| Read: "written cfg t schema change b \<Longrightarrow> build_current_version (cf_real_out cfg) (cf_dialect cfg) schema (ep_target change) = Inr st \<Longrightarrow>
    db_ok r \<Longrightarrow> db_rows r \<noteq> [] \<Longrightarrow> hd (db_rows r) \<noteq> [] \<Longrightarrow> parse_uint64 (hd (hd (db_rows r))) = Some v \<Longrightarrow>
    applied cfg t schema change (b @ [(in_tx t Query st, Answered r)]) v"

inductive change_log :: "save_config \<Rightarrow> u64 \<Rightarrow> entity_schema list \<Rightarrow> entity_patch list \<Rightarrow> nat \<Rightarrow> exchange \<Rightarrow> u64 list \<Rightarrow> bool" for cfg t schemas changes where
  None_yet: "change_log cfg t schemas changes 0 [] []"
| One_more: "change_log cfg t schemas changes i log vs \<Longrightarrow> i < length changes \<Longrightarrow> applied cfg t (schemas ! i) (changes ! i) b v \<Longrightarrow>
    change_log cfg t schemas changes (Suc i) (log @ b) (vs @ [v])"

abbreviation table_message :: "save_config \<Rightarrow> save_context \<Rightarrow> message" where
  "table_message cfg c \<equiv> Statement (ss_write_connection (cx_store c)) Exec (st_text (create_idempotency_table (cf_dialect cfg) (cx_store c)))
     (st_params (create_idempotency_table (cf_dialect cfg) (cx_store c)))"

abbreviation begin_message :: "save_context \<Rightarrow> message" where
  "begin_message c \<equiv> Tx_begin (ss_write_connection (cx_store c)) (cx_key c)"

abbreviation reserve_message :: "save_config \<Rightarrow> u64 \<Rightarrow> save_context \<Rightarrow> message" where
  "reserve_message cfg t c \<equiv> in_tx t Exec (reserve_request (cf_dialect cfg) (cx_store c) (sr_request_id (cx_request c)) (cx_signature c))"

abbreviation record_message :: "save_config \<Rightarrow> u64 \<Rightarrow> save_context \<Rightarrow> message" where
  "record_message cfg t c \<equiv> in_tx t Query (load_request_record (cf_dialect cfg) (cx_store c) (sr_request_id (cx_request c)))"

abbreviation result_message :: "save_config \<Rightarrow> u64 \<Rightarrow> u64 list \<Rightarrow> save_context \<Rightarrow> message" where
  "result_message cfg t vs c \<equiv> in_tx t Exec (finish_request_record (cf_dialect cfg) (cx_store c) (sr_request_id (cx_request c)) (encode_versions vs))"

text \<open>The table exists and the transaction \<open>t\<close> has begun.\<close>

definition opened :: "save_config \<Rightarrow> save_context \<Rightarrow> u64 \<Rightarrow> exchange \<Rightarrow> bool" where
  "opened cfg c t h \<longleftrightarrow> (\<exists>r0 r1. h = [(table_message cfg c, Answered r0), (begin_message c, Answered r1)] \<and> db_ok r0 \<and> db_ok r1 \<and>
     parse_uint64 (db_insert_id r1) = Some t)"

text \<open>The request id was new and is reserved now.\<close>

definition reserved :: "save_config \<Rightarrow> save_context \<Rightarrow> u64 \<Rightarrow> exchange \<Rightarrow> bool" where
  "reserved cfg c t h \<longleftrightarrow> (\<exists>h0 r. opened cfg c t h0 \<and> h = h0 @ [(reserve_message cfg t c, Answered r)] \<and> db_ok r \<and> db_affected r \<noteq> 0)"

text \<open>All changes are applied in order, the versions read are stored with the request id, and the commit is acknowledged.\<close>

definition committed :: "save_config \<Rightarrow> save_context \<Rightarrow> exchange \<Rightarrow> u64 list \<Rightarrow> bool" where
  "committed cfg c h vs \<longleftrightarrow> (\<exists>t h0 log r r'. reserved cfg c t h0 \<and> change_log cfg t (cx_schemas c) (changes_of c) (length (changes_of c)) log vs \<and>
     h = h0 @ log @ [(result_message cfg t vs c, Answered r), (Tx_commit t, Answered r')] \<and> db_ok r \<and> db_affected r = 1 \<and> db_ok r')"

text \<open>The request id was used before; the record has the signature of the request and the versions.\<close>

definition replayed :: "save_config \<Rightarrow> save_context \<Rightarrow> exchange \<Rightarrow> u64 list \<Rightarrow> bool" where
  "replayed cfg c h vs \<longleftrightarrow> (\<exists>t h0 r r' record. opened cfg c t h0 \<and>
     h = h0 @ [(reserve_message cfg t c, Answered r), (record_message cfg t c, Answered r')] \<and> db_ok r \<and> db_affected r = 0 \<and> db_ok r' \<and>
     db_rows r' \<noteq> [] \<and> hd (db_rows r') = [cx_signature c, record] \<and> decode_versions record (length (changes_of c)) = Some vs)"

section \<open>The invariant\<close>

abbreviation begun :: "exchange \<Rightarrow> bool" where
  "begun h \<equiv> \<exists>conn key a. (Tx_begin conn key, a) \<in> set h"

abbreviation commit_sent :: "exchange \<Rightarrow> bool" where
  "commit_sent h \<equiv> \<exists>t a. (Tx_commit t, a) \<in> set h"

text \<open>Every transaction of an exchange has the key \<open>key\<close>.\<close>

definition own_key :: "string \<Rightarrow> exchange \<Rightarrow> bool" where
  "own_key key h \<longleftrightarrow> (\<forall>conn key' a. (Tx_begin conn key', a) \<in> set h \<longrightarrow> key' = key)"

text \<open>An attempt that is over and did not commit: the transaction that it began, if any, was rolled back last.\<close>

definition closed :: "string \<Rightarrow> exchange \<Rightarrow> bool" where
  "closed key h \<longleftrightarrow> own_key key h \<and> (begun h \<longrightarrow> (\<exists>h' a. h = h' @ [(Tx_rollback (Inr key), a)]))"

text \<open>Where a change is written, up to the version.\<close>

definition at_change :: "save_config \<Rightarrow> save_context \<Rightarrow> exchange \<Rightarrow> exchange \<Rightarrow> bool" where
  "at_change cfg c h b \<longleftrightarrow> (\<exists>h0 log. reserved cfg c (cx_transaction c) h0 \<and> change_log cfg (cx_transaction c) (cx_schemas c) (changes_of c) (cx_change_index c) log (cx_versions c) \<and> h = h0 @ log @ b)"

definition waits :: "save_config \<Rightarrow> save_context \<Rightarrow> exchange \<Rightarrow> message \<Rightarrow> bool" where
  "waits cfg c h m \<longleftrightarrow>
     (let t = cx_transaction c; i = cx_change_index c; change = changes_of c ! i; schema = cx_schemas c ! i;
          command = (if ep_operation change = Delete_entity then build_delete (cf_real_out cfg) (cf_dialect cfg) schema change
                     else build_update (cf_real_out cfg) (cf_dialect cfg) schema change)
      in case cx_stage c of
           Await_table \<Rightarrow> h = [] \<and> m = table_message cfg c \<and> i = 0 \<and> cx_versions c = []
         | Await_begin \<Rightarrow> (\<exists>r. h = [(table_message cfg c, Answered r)] \<and> db_ok r) \<and> m = begin_message c \<and> i = 0 \<and> cx_versions c = []
         | Await_reserve \<Rightarrow> opened cfg c t h \<and> m = reserve_message cfg t c \<and> i = 0 \<and> cx_versions c = []
         | Await_record \<Rightarrow> (\<exists>h0 r. opened cfg c t h0 \<and> h = h0 @ [(reserve_message cfg t c, Answered r)] \<and> db_ok r \<and> db_affected r = 0) \<and> m = record_message cfg t c
         | Await_change \<Rightarrow> at_change cfg c h [] \<and> i < length (changes_of c) \<and> ep_operation change \<noteq> Insert \<and> (\<exists>st. command = Inr st \<and> m = in_tx t Exec st)
         | Await_insert \<Rightarrow> i < length (changes_of c) \<and> (\<exists>st. build_insert (cf_real_out cfg) (cf_dialect cfg) schema change = Inr st \<and> m = in_tx t Exec st) \<and>
             (ep_operation change = Insert \<and> at_change cfg c h [] \<or>
              (\<exists>st r. ep_operation change \<noteq> Insert \<and> command = Inr st \<and> db_ok r \<and> db_affected r \<le> 0 \<and> ep_create_if_missing change \<and>
                 (\<not> ep_check_version change \<or> ep_expected_version change = 0) \<and> at_change cfg c h [(in_tx t Exec st, Answered r)]))
         | Await_version \<Rightarrow> i < length (changes_of c) \<and> (\<exists>b. written cfg t schema change b \<and> at_change cfg c h b) \<and>
             (\<exists>st. build_current_version (cf_real_out cfg) (cf_dialect cfg) schema (ep_target change) = Inr st \<and> m = in_tx t Query st)
         | Await_exists \<Rightarrow> (\<exists>op sql ps. m = Transaction_statement t op sql ps)
         | Await_result \<Rightarrow> at_change cfg c h [] \<and> i = length (changes_of c) \<and> m = result_message cfg t (cx_versions c) c
         | Await_commit \<Rightarrow> (\<exists>r. at_change cfg c h [(result_message cfg t (cx_versions c) c, Answered r)] \<and> db_ok r \<and> db_affected r = 1) \<and>
             i = length (changes_of c) \<and> m = Tx_commit t
         | Await_rollback failed \<Rightarrow> sv_code failed \<noteq> Ok \<and> \<not> sv_committed failed \<and> m = Tx_rollback (Inr (cx_key c))
         | Await_replay result \<Rightarrow> (\<exists>vs. replayed cfg c h vs \<and> result = saved (cx_request c) vs) \<and> m = Tx_rollback (Inr (cx_key c))
         | Sleeping \<Rightarrow> False)"

definition save_inv :: "save_config \<Rightarrow> save_context \<Rightarrow> exchange list \<Rightarrow> exchange \<Rightarrow> progress \<Rightarrow> bool" where
  "save_inv cfg c0 past h p \<longleftrightarrow>
     (\<forall>h' \<in> set past. \<exists>key. closed key h') \<and>
     (case p of
        Ask c m \<Rightarrow> same_save c0 c \<and> waits cfg c h m \<and> own_key (cx_key c) h \<and> (begun h \<or> (\<exists>conn key. m = Tx_begin conn key) \<longrightarrow> cx_begin_sent c) \<and>
          (commit_sent (concat past @ h) \<longrightarrow> cx_commit_uncertain c)
      | Sleep c delay \<Rightarrow> same_save c0 c \<and> closed (cx_key c) h \<and> (commit_sent (concat past @ h) \<longrightarrow> cx_commit_uncertain c)
      | Done c r \<Rightarrow> same_save c0 c \<and> own_key (cx_key c) h \<and>
          (if sv_code r = Ok
           then \<exists>vs. r = saved (cx_request c) vs \<and> (committed cfg c h vs \<or> (\<exists>h' a. h = h' @ [(Tx_rollback (Inr (cx_key c)), a)] \<and> replayed cfg c h' vs))
           else \<not> sv_committed r \<and> closed (cx_key c) h \<and> (commit_sent (concat past @ h) \<longrightarrow> sv_code r = Commit_unknown)))"

lemma change_log_le: "change_log cfg t schemas changes i log vs \<Longrightarrow> i \<le> length changes \<and> length vs = i"
  by (induction rule: change_log.induct) auto

text \<open>The stage, the position and the flags of a context do not matter to what was exchanged.\<close>

lemma opened_cong:
  "cx_store c' = cx_store c \<Longrightarrow> cx_key c' = cx_key c \<Longrightarrow> opened cfg c' t h = opened cfg c t h"
  by (simp add: opened_def)

lemma reserved_cong:
  "cx_store c' = cx_store c \<Longrightarrow> cx_key c' = cx_key c \<Longrightarrow> cx_request c' = cx_request c \<Longrightarrow> cx_signature c' = cx_signature c \<Longrightarrow> reserved cfg c' t h = reserved cfg c t h"
  using opened_cong [of c' c] by (simp add: reserved_def)

lemma at_change_cong:
  "cx_store c' = cx_store c \<Longrightarrow> cx_key c' = cx_key c \<Longrightarrow> cx_request c' = cx_request c \<Longrightarrow> cx_signature c' = cx_signature c \<Longrightarrow> cx_schemas c' = cx_schemas c \<Longrightarrow>
   cx_transaction c' = cx_transaction c \<Longrightarrow> cx_change_index c' = cx_change_index c \<Longrightarrow> cx_versions c' = cx_versions c \<Longrightarrow> at_change cfg c' h b = at_change cfg c h b"
  using reserved_cong [of c' c] by (simp add: at_change_def)

lemma same_save_refl [simp]: "same_save c c"
  by (simp add: same_save_def)

text \<open>What a step that may fail needs: then a rollback is right.\<close>

definition ready :: "save_context \<Rightarrow> exchange list \<Rightarrow> exchange \<Rightarrow> save_context \<Rightarrow> bool" where
  "ready c0 past h c \<longleftrightarrow> (\<forall>h' \<in> set past. \<exists>key. closed key h') \<and> same_save c0 c \<and> own_key (cx_key c) h \<and> (begun h \<longrightarrow> cx_begin_sent c) \<and>
     (commit_sent (concat past @ h) \<longrightarrow> cx_commit_uncertain c)"

lemma ready_update:
  assumes "ready c0 past h c" "same_save c c'" "cx_key c' = cx_key c" "cx_begin_sent c' = cx_begin_sent c" "cx_commit_uncertain c \<longrightarrow> cx_commit_uncertain c'"
  shows "ready c0 past h c'"
  using assms by (auto simp: ready_def same_save_def)

lemma askI:
  assumes "ready c0 past h c" "waits cfg (c\<lparr>cx_stage := s\<rparr>) h m" "\<And>conn key. m = Tx_begin conn key \<Longrightarrow> cx_begin_sent c"
  shows "save_inv cfg c0 past h (ask s m c)"
  using assms by (auto simp: save_inv_def ready_def same_save_def)

lemma retry_or_finish_over:
  assumes "save_inv cfg c0 past h (Sleep c delay)" "sv_code r \<noteq> Ok" "\<not> sv_committed r" "same_save c c'" "cx_key c' = cx_key c" "cx_commit_uncertain c' = cx_commit_uncertain c"
  shows "save_inv cfg c0 past h (retry_or_finish cfg now c' r)"
  using assms by (auto simp: retry_or_finish_def Let_def save_inv_def closed_def same_save_def)

lemma retry_or_finish_inv:
  assumes "ready c0 past h c" "closed (cx_key c) h" "sv_code r \<noteq> Ok" "\<not> sv_committed r"
  shows "save_inv cfg c0 past h (retry_or_finish cfg now c r)"
proof -
  have "save_inv cfg c0 past h (Sleep c 0)" using assms(1, 2) by (simp add: save_inv_def ready_def)
  from retry_or_finish_over [OF this assms(3, 4)] show ?thesis by simp
qed

lemma rollback_inv:
  assumes "ready c0 past h c" "code \<noteq> Ok"
  shows "save_inv cfg c0 past h (rollback cfg now code error c)"
proof (cases "cx_begin_sent c")
  case True
  then show ?thesis using askI [OF assms(1), of cfg "Await_rollback (save_error (cx_request c) code error)"] assms(2)
    by (simp add: rollback_def waits_def save_error_def)
next
  case False
  then have "closed (cx_key c) h" using assms(1) by (auto simp: closed_def ready_def)
  then show ?thesis using retry_or_finish_inv [OF assms(1)] assms(2) False by (simp add: rollback_def save_error_def)
qed

lemma fail_database_inv: "ready c0 past h c \<Longrightarrow> fallback \<noteq> Ok \<Longrightarrow> save_inv cfg c0 past h (fail_database cfg now r fallback error c)"
  unfolding fail_database_def Let_def by (rule rollback_inv [OF ready_update]) (auto simp: same_save_def)

lemma fail_transport_inv: "ready c0 past h c \<Longrightarrow> fallback \<noteq> Ok \<Longrightarrow> save_inv cfg c0 past h (fail_transport cfg now error fallback c)"
  unfolding fail_transport_def by (rule rollback_inv [OF ready_update]) (auto simp: same_save_def)

text \<open>A failed commit: the answer to it is part of the exchange already, its mark is set by the failure.\<close>

lemma uncertain_ready:
  assumes "ready c0 past h c"
  shows "ready c0 past (h @ [(Tx_commit t, a)]) (c\<lparr>cx_retry_requested := b, cx_commit_uncertain := True\<rparr>)"
  using assms by (auto simp: ready_def own_key_def same_save_def)

lemma ready_snoc:
  assumes "ready c0 past h c" "\<And>conn key. m = Tx_begin conn key \<Longrightarrow> key = cx_key c \<and> cx_begin_sent c" "\<And>t. m \<noteq> Tx_commit t"
  shows "ready c0 past (h @ [(m, a)]) c"
proof -
  have h: "own_key (cx_key c) h" using assms(1) by (simp add: ready_def)
  have "own_key (cx_key c) (h @ [(m, a)])" unfolding own_key_def
  proof (intro allI impI)
    fix conn key b assume "(Tx_begin conn key, b) \<in> set (h @ [(m, a)])"
    then consider "(Tx_begin conn key, b) \<in> set h" | "m = Tx_begin conn key" by auto
    then show "key = cx_key c" by cases (use h assms(2) in \<open>unfold own_key_def, blast+\<close>)
  qed
  moreover have "begun (h @ [(m, a)]) \<longrightarrow> cx_begin_sent c" using assms(1, 2) by (auto simp: ready_def)
  moreover have "commit_sent (concat past @ h @ [(m, a)]) \<longrightarrow> cx_commit_uncertain c" using assms(1, 3) by (auto simp: ready_def)
  ultimately show ?thesis using assms(1) by (simp add: ready_def)
qed

lemma inv_ready: "save_inv cfg c0 past h (Ask c m) \<Longrightarrow> ready c0 past h c"
  by (simp add: save_inv_def ready_def)

section \<open>The steps keep the invariant\<close>

lemma start_inv:
  assumes "\<forall>h' \<in> set past. \<exists>key. closed key h'" "same_save c0 c" "commit_sent (concat past) \<longrightarrow> cx_commit_uncertain c"
  shows "save_inv cfg c0 past [] (start_save cfg now key c)"
proof -
  let ?c = "c\<lparr>cx_attempt := cx_attempt c + 1, cx_transaction := 0, cx_begin_sent := False, cx_retry_requested := False, cx_change_index := 0, cx_versions := [], cx_key := key\<rparr>"
  have r: "ready c0 past [] ?c" using assms by (simp add: ready_def own_key_def same_save_def)
  show ?thesis
  proof (cases "expired now ?c")
    case True
    then show ?thesis using rollback_inv [OF r] by (simp add: start_save_def Let_def)
  next
    case False
    then show ?thesis using askI [OF r, of cfg Await_table] by (simp add: start_save_def Let_def waits_def)
  qed
qed

lemma store_result_inv:
  assumes "ready c0 past h c" "at_change cfg c h []" "cx_change_index c = length (changes_of c)"
  shows "save_inv cfg c0 past h (store_result cfg c)"
proof -
  have "at_change cfg (c\<lparr>cx_stage := Await_result\<rparr>) h []" using assms(2) by (simp add: at_change_cong [of "c\<lparr>cx_stage := Await_result\<rparr>" c])
  then show ?thesis using askI [OF assms(1), of cfg Await_result] assms(3) by (simp add: store_result_def waits_def)
qed

lemma insert_change_inv:
  assumes "ready c0 past h c" "cx_change_index c < length (changes_of c)"
    "ep_operation (current_change c) = Insert \<and> at_change cfg c h [] \<or>
     (\<exists>st r. ep_operation (current_change c) \<noteq> Insert \<and>
        (if ep_operation (current_change c) = Delete_entity then build_delete (cf_real_out cfg) (cf_dialect cfg) (current_schema c) (current_change c)
         else build_update (cf_real_out cfg) (cf_dialect cfg) (current_schema c) (current_change c)) = Inr st \<and> db_ok r \<and> db_affected r \<le> 0 \<and>
        ep_create_if_missing (current_change c) \<and> (\<not> ep_check_version (current_change c) \<or> ep_expected_version (current_change c) = 0) \<and>
        at_change cfg c h [(in_tx (cx_transaction c) Exec st, Answered r)])"
  shows "save_inv cfg c0 past h (insert_change cfg now c)"
proof (cases "build_insert (cf_real_out cfg) (cf_dialect cfg) (current_schema c) (current_change c)")
  case (Inl e)
  then show ?thesis using rollback_inv [OF assms(1)] by (simp add: insert_change_def)
next
  case (Inr st)
  have "at_change cfg (c\<lparr>cx_stage := Await_insert\<rparr>) h b = at_change cfg c h b" for b by (rule at_change_cong) simp_all
  then have "waits cfg (c\<lparr>cx_stage := Await_insert\<rparr>) h (tx_statement Exec st c)" using assms(2, 3) Inr by (simp add: waits_def)
  from askI [OF assms(1) this] show ?thesis using Inr by (simp add: insert_change_def)
qed

lemma load_version_inv:
  assumes "ready c0 past h c" "cx_change_index c < length (changes_of c)" "written cfg (cx_transaction c) (current_schema c) (current_change c) b" "at_change cfg c h b"
  shows "save_inv cfg c0 past h (load_change_version cfg now c)"
proof (cases "build_current_version (cf_real_out cfg) (cf_dialect cfg) (current_schema c) (ep_target (current_change c))")
  case (Inl e)
  then show ?thesis using rollback_inv [OF assms(1)] by (simp add: load_change_version_def)
next
  case (Inr st)
  have "at_change cfg (c\<lparr>cx_stage := Await_version\<rparr>) h b = at_change cfg c h b" for b by (rule at_change_cong) simp_all
  then have "waits cfg (c\<lparr>cx_stage := Await_version\<rparr>) h (tx_statement Query st c)" using assms(2-4) Inr by (auto simp: waits_def Let_def)
  from askI [OF assms(1) this] show ?thesis using Inr by (simp add: load_change_version_def)
qed

lemma apply_next_inv:
  assumes "ready c0 past h c" "at_change cfg c h []"
  shows "save_inv cfg c0 past h (apply_next_change cfg now c)"
proof -
  have le: "cx_change_index c \<le> length (changes_of c)" using assms(2) change_log_le by (fastforce simp: at_change_def)
  let ?command = "if ep_operation (current_change c) = Delete_entity then build_delete (cf_real_out cfg) (cf_dialect cfg) (current_schema c) (current_change c)
    else build_update (cf_real_out cfg) (cf_dialect cfg) (current_schema c) (current_change c)"
  consider "expired now c" | "\<not> expired now c" "cx_change_index c = length (changes_of c)"
    | "\<not> expired now c" "cx_change_index c < length (changes_of c)" "ep_operation (current_change c) = Insert"
    | e where "\<not> expired now c" "cx_change_index c < length (changes_of c)" "ep_operation (current_change c) \<noteq> Insert" "?command = Inl e"
    | st where "\<not> expired now c" "cx_change_index c < length (changes_of c)" "ep_operation (current_change c) \<noteq> Insert" "?command = Inr st"
    using le by (cases ?command) force+
  then show ?thesis
  proof cases
    case 1
    then show ?thesis using rollback_inv [OF assms(1)] by (simp add: apply_next_change_def)
  next
    case 2
    then show ?thesis using store_result_inv [OF assms] by (simp add: apply_next_change_def)
  next
    case 3
    then show ?thesis using insert_change_inv [OF assms(1)] assms(2) by (simp add: apply_next_change_def)
  next
    case (4 e)
    then show ?thesis using rollback_inv [OF assms(1)] by (auto simp: apply_next_change_def)
  next
    case (5 st)
    have "at_change cfg (c\<lparr>cx_stage := Await_change\<rparr>) h [] = at_change cfg c h []" by (rule at_change_cong) simp_all
    then have "waits cfg (c\<lparr>cx_stage := Await_change\<rparr>) h (tx_statement Exec st c)" using assms(2) 5 by (simp add: waits_def)
    from askI [OF assms(1) this] show ?thesis using 5 by (auto simp: apply_next_change_def)
  qed
qed

lemma next_change_inv:
  assumes "ready c0 past h c" "at_change cfg c h b" "cx_change_index c < length (changes_of c)" "applied cfg (cx_transaction c) (current_schema c) (current_change c) b v"
  shows "save_inv cfg c0 past h (next_change cfg now v c)"
proof -
  let ?c = "c\<lparr>cx_versions := cx_versions c @ [v], cx_change_index := cx_change_index c + 1\<rparr>"
  obtain h0 log where h: "reserved cfg c (cx_transaction c) h0" "change_log cfg (cx_transaction c) (cx_schemas c) (changes_of c) (cx_change_index c) log (cx_versions c)"
    "h = h0 @ log @ b" using assms(2) by (auto simp: at_change_def)
  have "change_log cfg (cx_transaction c) (cx_schemas c) (changes_of c) (Suc (cx_change_index c)) (log @ b) (cx_versions c @ [v])"
    by (rule change_log.One_more [OF h(2) assms(3, 4)])
  moreover have "reserved cfg ?c (cx_transaction c) h0" using h(1) reserved_cong [of ?c c] by simp
  ultimately have "at_change cfg ?c h []" using h(3) by (auto simp: at_change_def)
  then show ?thesis unfolding next_change_def by (intro apply_next_inv ready_update [OF assms(1)]) (simp_all add: same_save_def)
qed

text \<open>One lemma per continuation; \<open>h\<close> is the exchange before the answer \<open>r\<close> to \<open>m\<close>.\<close>

lemma on_table_inv:
  assumes "ready c0 past h c" "waits cfg c h m" "cx_stage c = Await_table"
  shows "save_inv cfg c0 past (h @ [(m, Answered r)]) (on_table cfg now r c)"
proof -
  have w: "h = []" "m = table_message cfg c" "cx_change_index c = 0" "cx_versions c = []" using assms(2, 3) by (simp_all add: waits_def Let_def)
  have r: "ready c0 past (h @ [(m, Answered r)]) c" by (rule ready_snoc [OF assms(1)]) (simp_all add: w)
  show ?thesis
  proof (cases "db_ok r \<and> \<not> expired now c")
    case False
    then show ?thesis using fail_database_inv [OF r] rollback_inv [OF r] by (auto simp: on_table_def begin_save_def)
  next
    case True
    let ?c = "c\<lparr>cx_begin_sent := True\<rparr>"
    have "ready c0 past (h @ [(m, Answered r)]) ?c" using r by (auto simp: ready_def same_save_def)
    from askI [OF this, of cfg Await_begin] show ?thesis using True w by (simp add: on_table_def begin_save_def waits_def)
  qed
qed

lemma on_begin_inv:
  assumes "ready c0 past h c" "waits cfg c h m" "cx_stage c = Await_begin" "cx_begin_sent c"
  shows "save_inv cfg c0 past (h @ [(m, Answered r)]) (on_begin cfg now r c)"
proof -
  obtain r0 where w: "h = [(table_message cfg c, Answered r0)]" "db_ok r0" "m = begin_message c" "cx_change_index c = 0" "cx_versions c = []"
    using assms(2, 3) by (auto simp: waits_def Let_def)
  have r: "ready c0 past (h @ [(m, Answered r)]) c" by (rule ready_snoc [OF assms(1)]) (simp_all add: w assms(4))
  show ?thesis
  proof (cases "if db_ok r then parse_uint64 (db_insert_id r) else None")
    case None
    then show ?thesis using fail_database_inv [OF r] by (simp add: on_begin_def)
  next
    case (Some t)
    let ?c = "c\<lparr>cx_transaction := t\<rparr>"
    have rc: "ready c0 past (h @ [(m, Answered r)]) ?c" by (rule ready_update [OF r]) (simp_all add: same_save_def)
    have "opened cfg (?c\<lparr>cx_stage := Await_reserve\<rparr>) t (h @ [(m, Answered r)])" using w Some by (auto simp: opened_def split: if_splits)
    then show ?thesis using Some rollback_inv [OF rc] askI [OF rc, of cfg Await_reserve] w by (simp add: on_begin_def reserve_id_def waits_def)
  qed
qed

lemma on_reserve_inv:
  assumes "ready c0 past h c" "waits cfg c h m" "cx_stage c = Await_reserve"
  shows "save_inv cfg c0 past (h @ [(m, Answered r)]) (on_reserve cfg now r c)"
proof -
  have w: "opened cfg c (cx_transaction c) h" "m = reserve_message cfg (cx_transaction c) c" "cx_change_index c = 0" "cx_versions c = []"
    using assms(2, 3) by (simp_all add: waits_def Let_def)
  have r: "ready c0 past (h @ [(m, Answered r)]) c" by (rule ready_snoc [OF assms(1)]) (simp_all add: w)
  consider "\<not> db_ok r" | "db_ok r" "db_affected r = 0" | "db_ok r" "db_affected r \<noteq> 0" by blast
  then show ?thesis
  proof cases
    case 1
    then show ?thesis using fail_database_inv [OF r] by (simp add: on_reserve_def)
  next
    case 2
    have "opened cfg (c\<lparr>cx_stage := Await_record\<rparr>) (cx_transaction c) h" using w(1) by (simp add: opened_def)
    then have "waits cfg (c\<lparr>cx_stage := Await_record\<rparr>) (h @ [(m, Answered r)]) (record_message cfg (cx_transaction c) c)" using w 2 by (auto simp: waits_def Let_def)
    from askI [OF r this] show ?thesis using 2 by (simp add: on_reserve_def replay_request_def)
  next
    case 3
    have "reserved cfg c (cx_transaction c) (h @ [(m, Answered r)])" using w 3 by (auto simp: reserved_def)
    then have "at_change cfg c (h @ [(m, Answered r)]) []" using w change_log.None_yet by (fastforce simp: at_change_def)
    then show ?thesis using apply_next_inv [OF r] 3 by (simp add: on_reserve_def)
  qed
qed

lemma on_record_inv:
  assumes "ready c0 past h c" "waits cfg c h m" "cx_stage c = Await_record"
  shows "save_inv cfg c0 past (h @ [(m, Answered r)]) (on_record cfg now r c)"
proof -
  obtain h0 r0 where w: "opened cfg c (cx_transaction c) h0" "h = h0 @ [(reserve_message cfg (cx_transaction c) c, Answered r0)]" "db_ok r0" "db_affected r0 = 0"
    "m = record_message cfg (cx_transaction c) c" using assms(2, 3) by (auto simp: waits_def Let_def)
  have r: "ready c0 past (h @ [(m, Answered r)]) c" by (rule ready_snoc [OF assms(1)]) (simp_all add: w)
  show ?thesis
  proof (cases "db_ok r \<and> db_rows r \<noteq> [] \<and> length (hd (db_rows r)) = 2 \<and> hd (db_rows r) ! 0 = cx_signature c \<and>
      decode_versions (hd (db_rows r) ! 1) (length (changes_of c)) \<noteq> None")
    case False
    then show ?thesis using fail_database_inv [OF r] rollback_inv [OF r] by (auto simp: on_record_def split: option.splits)
  next
    case True
    then obtain vs where vs: "decode_versions (hd (db_rows r) ! 1) (length (changes_of c)) = Some vs" by blast
    have row: "hd (db_rows r) = [cx_signature c, hd (db_rows r) ! 1]" using True by (cases "hd (db_rows r)"; cases "tl (hd (db_rows r))") auto
    have "replayed cfg c (h @ [(m, Answered r)]) vs" unfolding replayed_def using w True row vs
      by (intro exI [of _ "cx_transaction c"] exI [of _ h0] exI [of _ r0] exI [of _ r] exI [of _ "hd (db_rows r) ! 1"]) simp
    then have "replayed cfg (c\<lparr>cx_stage := s\<rparr>) (h @ [(m, Answered r)]) vs" for s by (simp add: replayed_def opened_def)
    then have "waits cfg (c\<lparr>cx_stage := Await_replay (saved (cx_request c) vs)\<rparr>) (h @ [(m, Answered r)]) (Tx_rollback (Inr (cx_key c)))" by (auto simp: waits_def Let_def)
    from askI [OF r this] show ?thesis using True vs by (simp add: on_record_def rollback_replay_def)
  qed
qed

text \<open>The statement of a change was answered.\<close>

lemma at_change_snoc: "at_change cfg c h b \<Longrightarrow> at_change cfg c (h @ [x]) (b @ [x])"
  by (auto simp: at_change_def)

lemma on_change_inv:
  assumes "ready c0 past h c" "waits cfg c h m" "cx_stage c = Await_change"
  shows "save_inv cfg c0 past (h @ [(m, Answered r)]) (on_change cfg now r c)"
proof -
  let ?command = "if ep_operation (current_change c) = Delete_entity then build_delete (cf_real_out cfg) (cf_dialect cfg) (current_schema c) (current_change c)
    else build_update (cf_real_out cfg) (cf_dialect cfg) (current_schema c) (current_change c)"
  obtain st where w: "at_change cfg c h []" "cx_change_index c < length (changes_of c)" "ep_operation (current_change c) \<noteq> Insert" "?command = Inr st"
    "m = in_tx (cx_transaction c) Exec st" using assms(2, 3) by (auto simp: waits_def Let_def)
  have r: "ready c0 past (h @ [(m, Answered r)]) c" by (rule ready_snoc [OF assms(1)]) (simp_all add: w)
  have at: "at_change cfg c (h @ [(m, Answered r)]) [(m, Answered r)]" using at_change_snoc [OF w(1)] by simp
  consider "\<not> db_ok r" | "db_ok r" "db_affected r > 0" "ep_operation (current_change c) = Delete_entity"
    | "db_ok r" "db_affected r > 0" "ep_operation (current_change c) \<noteq> Delete_entity"
    | "db_ok r" "db_affected r \<le> 0" "ep_create_if_missing (current_change c)" "\<not> ep_check_version (current_change c) \<or> ep_expected_version (current_change c) = 0"
    | "db_ok r" "db_affected r \<le> 0" "\<not> (ep_create_if_missing (current_change c) \<and> (\<not> ep_check_version (current_change c) \<or> ep_expected_version (current_change c) = 0))"
    by force
  then show ?thesis
  proof cases
    case 1
    then show ?thesis using fail_database_inv [OF r] by (simp add: on_change_def Let_def)
  next
    case 2
    then have "applied cfg (cx_transaction c) (current_schema c) (current_change c) [(m, Answered r)] 0" using w by (auto intro: applied.Deleted)
    from next_change_inv [OF r at w(2) this] show ?thesis using 2 by (simp add: on_change_def Let_def)
  next
    case 3
    then have "written cfg (cx_transaction c) (current_schema c) (current_change c) [(m, Answered r)]" using w by (auto intro: written.Updated)
    from load_version_inv [OF r w(2) this at] show ?thesis using 3 by (simp add: on_change_def Let_def)
  next
    case 4
    have "save_inv cfg c0 past (h @ [(m, Answered r)]) (insert_change cfg now c)"
      by (rule insert_change_inv [OF r w(2)]) (use 4 w at in auto)
    then show ?thesis using 4 by (simp add: on_change_def Let_def)
  next
    case 5
    have "waits cfg (c\<lparr>cx_stage := Await_exists\<rparr>) (h @ [(m, Answered r)]) (tx_statement Query st' c)" for st' by (simp add: waits_def Let_def)
    from askI [OF r this] show ?thesis using 5 rollback_inv [OF r] by (auto simp: on_change_def Let_def split: sum.splits)
  qed
qed

lemma on_exists_inv:
  assumes "ready c0 past h c" "waits cfg c h m" "cx_stage c = Await_exists"
  shows "save_inv cfg c0 past (h @ [(m, Answered r)]) (on_exists cfg now r c)"
proof -
  have r: "ready c0 past (h @ [(m, Answered r)]) c" by (rule ready_snoc [OF assms(1)]) (use assms(2, 3) in \<open>auto simp: waits_def Let_def\<close>)
  then show ?thesis using fail_database_inv [OF r] rollback_inv [OF r] by (simp add: on_exists_def)
qed

lemma on_insert_inv:
  assumes "ready c0 past h c" "waits cfg c h m" "cx_stage c = Await_insert"
  shows "save_inv cfg c0 past (h @ [(m, Answered r)]) (on_insert cfg now r c)"
proof -
  let ?command = "if ep_operation (current_change c) = Delete_entity then build_delete (cf_real_out cfg) (cf_dialect cfg) (current_schema c) (current_change c)
    else build_update (cf_real_out cfg) (cf_dialect cfg) (current_schema c) (current_change c)"
  let ?tx = "cx_transaction c"
  obtain st where w: "cx_change_index c < length (changes_of c)" "build_insert (cf_real_out cfg) (cf_dialect cfg) (current_schema c) (current_change c) = Inr st"
    "m = in_tx ?tx Exec st" using assms(2, 3) by (auto simp: waits_def Let_def)
  have before: "ep_operation (current_change c) = Insert \<and> at_change cfg c h [] \<or>
     (\<exists>st r. ep_operation (current_change c) \<noteq> Insert \<and> ?command = Inr st \<and> db_ok r \<and> db_affected r \<le> 0 \<and> ep_create_if_missing (current_change c) \<and>
        (\<not> ep_check_version (current_change c) \<or> ep_expected_version (current_change c) = 0) \<and> at_change cfg c h [(in_tx ?tx Exec st, Answered r)])"
    using assms(2, 3) by (simp add: waits_def Let_def)
  have r: "ready c0 past (h @ [(m, Answered r)]) c" by (rule ready_snoc [OF assms(1)]) (simp_all add: w)
  show ?thesis
  proof (cases "db_ok r \<and> db_affected r \<noteq> 0")
    case False
    then show ?thesis using fail_database_inv [OF r] by (auto simp: on_insert_def)
  next
    case True
    have "\<exists>b. written cfg ?tx (current_schema c) (current_change c) b \<and> at_change cfg c (h @ [(m, Answered r)]) b"
      using before
    proof
      assume "ep_operation (current_change c) = Insert \<and> at_change cfg c h []"
      then show ?thesis using at_change_snoc [of cfg c h "[]" "(m, Answered r)"] written.Inserted [of "current_change c" cfg "current_schema c" st r ?tx] True w by auto
    next
      assume "\<exists>st r. ep_operation (current_change c) \<noteq> Insert \<and> ?command = Inr st \<and> db_ok r \<and> db_affected r \<le> 0 \<and> ep_create_if_missing (current_change c) \<and>
        (\<not> ep_check_version (current_change c) \<or> ep_expected_version (current_change c) = 0) \<and> at_change cfg c h [(in_tx ?tx Exec st, Answered r)]"
      then obtain st0 r0 where u: "ep_operation (current_change c) \<noteq> Insert" "?command = Inr st0" "db_ok r0" "db_affected r0 \<le> 0" "ep_create_if_missing (current_change c)"
        "\<not> ep_check_version (current_change c) \<or> ep_expected_version (current_change c) = 0" "at_change cfg c h [(in_tx ?tx Exec st0, Answered r0)]" by blast
      have "written cfg ?tx (current_schema c) (current_change c) [(in_tx ?tx Exec st0, Answered r0), (in_tx ?tx Exec st, Answered r)]"
        by (rule written.Created [OF u(1-6) w(2)]) (use True in simp_all)
      then show ?thesis using at_change_snoc [OF u(7), of "(m, Answered r)"] w(3) by auto
    qed
    then show ?thesis using load_version_inv [OF r w(1)] True by (auto simp: on_insert_def)
  qed
qed

lemma on_version_inv:
  assumes "ready c0 past h c" "waits cfg c h m" "cx_stage c = Await_version"
  shows "save_inv cfg c0 past (h @ [(m, Answered r)]) (on_version cfg now r c)"
proof -
  obtain b st where w: "cx_change_index c < length (changes_of c)" "written cfg (cx_transaction c) (current_schema c) (current_change c) b" "at_change cfg c h b"
    "build_current_version (cf_real_out cfg) (cf_dialect cfg) (current_schema c) (ep_target (current_change c)) = Inr st" "m = in_tx (cx_transaction c) Query st"
    using assms(2, 3) by (auto simp: waits_def Let_def)
  have r: "ready c0 past (h @ [(m, Answered r)]) c" by (rule ready_snoc [OF assms(1)]) (simp_all add: w)
  show ?thesis
  proof (cases "if db_ok r \<and> db_rows r \<noteq> [] \<and> hd (db_rows r) \<noteq> [] then parse_uint64 (hd (hd (db_rows r))) else None")
    case None
    then show ?thesis using fail_database_inv [OF r] by (simp add: on_version_def)
  next
    case (Some v)
    then have "applied cfg (cx_transaction c) (current_schema c) (current_change c) (b @ [(m, Answered r)]) v"
      unfolding w(5) by (intro applied.Read [OF w(2, 4)]) (auto split: if_splits)
    from next_change_inv [OF r at_change_snoc [OF w(3)] w(1) this] show ?thesis using Some by (simp add: on_version_def)
  qed
qed

lemma on_result_inv:
  assumes "ready c0 past h c" "waits cfg c h m" "cx_stage c = Await_result"
  shows "save_inv cfg c0 past (h @ [(m, Answered r)]) (on_result cfg now r c)"
proof -
  have w: "at_change cfg c h []" "cx_change_index c = length (changes_of c)" "m = result_message cfg (cx_transaction c) (cx_versions c) c"
    using assms(2, 3) by (simp_all add: waits_def Let_def)
  have r: "ready c0 past (h @ [(m, Answered r)]) c" by (rule ready_snoc [OF assms(1)]) (simp_all add: w)
  show ?thesis
  proof (cases "db_ok r \<and> db_affected r = 1 \<and> \<not> expired now c")
    case False
    then show ?thesis using fail_database_inv [OF r] rollback_inv [OF r] by (auto simp: on_result_def commit_save_def)
  next
    case True
    have "at_change cfg (c\<lparr>cx_stage := Await_commit\<rparr>) (h @ [(m, Answered r)]) b = at_change cfg c (h @ [(m, Answered r)]) b" for b by (rule at_change_cong) simp_all
    then have "waits cfg (c\<lparr>cx_stage := Await_commit\<rparr>) (h @ [(m, Answered r)]) (Tx_commit (cx_transaction c))"
      using at_change_snoc [OF w(1), of "(m, Answered r)"] w True by (auto simp: waits_def Let_def)
    from askI [OF r this] show ?thesis using True by (simp add: on_result_def commit_save_def)
  qed
qed

lemma on_commit_inv:
  assumes "ready c0 past h c" "waits cfg c h m" "cx_stage c = Await_commit"
  shows "save_inv cfg c0 past (h @ [(m, Answered r)]) (on_commit cfg now r c)"
proof -
  obtain r0 where w: "at_change cfg c h [(result_message cfg (cx_transaction c) (cx_versions c) c, Answered r0)]" "db_ok r0" "db_affected r0 = 1"
    "cx_change_index c = length (changes_of c)" "m = Tx_commit (cx_transaction c)" using assms(2, 3) by (auto simp: waits_def Let_def)
  show ?thesis
  proof (cases "db_ok r")
    case False
    then show ?thesis using rollback_inv [OF uncertain_ready [OF assms(1)]] w(5) by (simp add: on_commit_def fail_database_def Let_def)
  next
    case True
    have "committed cfg c (h @ [(m, Answered r)]) (cx_versions c)" using w True unfolding committed_def at_change_def by fastforce
    moreover have "own_key (cx_key c) (h @ [(m, Answered r)])" using assms(1) w(5) by (auto simp: ready_def own_key_def)
    ultimately show ?thesis using True assms(1) by (auto simp: on_commit_def save_inv_def ready_def saved_def)
  qed
qed

lemma advance_inv:
  assumes "save_inv cfg c0 past h (Ask c m)"
  shows "save_inv cfg c0 past (h @ [(m, a)]) (advance cfg now a c)"
proof -
  note r = inv_ready [OF assms]
  have w: "waits cfg c h m" and b: "\<And>conn key. m = Tx_begin conn key \<Longrightarrow> cx_begin_sent c" using assms by (auto simp: save_inv_def)
  show ?thesis
  proof (cases "\<exists>s. cx_stage c = Await_rollback s \<or> cx_stage c = Await_replay s")
    case True
    then have m: "m = Tx_rollback (Inr (cx_key c))" using w by (auto simp: waits_def Let_def)
    have rs: "ready c0 past (h @ [(m, a)]) c" by (rule ready_snoc [OF r]) (simp_all add: m)
    then have cl: "closed (cx_key c) (h @ [(m, a)])" by (auto simp: ready_def closed_def m)
    from True obtain s where "cx_stage c = Await_rollback s \<or> cx_stage c = Await_replay s" by blast
    then show ?thesis
    proof
      assume s: "cx_stage c = Await_rollback s"
      then have "sv_code s \<noteq> Ok" "\<not> sv_committed s" using w by (simp_all add: waits_def Let_def)
      from retry_or_finish_inv [OF rs cl this] show ?thesis using s by (simp add: advance_def)
    next
      assume s: "cx_stage c = Await_replay s"
      then obtain vs where "replayed cfg c h vs" "s = saved (cx_request c) vs" using w by (auto simp: waits_def Let_def)
      then show ?thesis using s rs m by (auto simp: advance_def save_inv_def ready_def saved_def)
    qed
  next
    case False
    show ?thesis
    proof (cases a)
      case (Transport_error e)
      show ?thesis
      proof (cases "cx_stage c = Await_commit")
        case True
        then have "m = Tx_commit (cx_transaction c)" using w by (auto simp: waits_def Let_def)
        then show ?thesis using rollback_inv [OF uncertain_ready [OF r]] Transport_error True by (simp add: advance_def fail_transport_def)
      next
        case nc: False
        have "ready c0 past (h @ [(m, a)]) c"
          by (rule ready_snoc [OF r]) (use w nc False b in \<open>auto simp: waits_def Let_def split: stage.splits\<close>)
        from fail_transport_inv [OF this] show ?thesis using Transport_error nc False by (cases "cx_stage c") (auto simp: advance_def)
      qed
    next
      case (Answered x)
      have "cx_stage c \<noteq> Sleeping" using w by (auto simp: waits_def Let_def)
      moreover have "cx_stage c = Await_begin \<Longrightarrow> cx_begin_sent c" using w b by (auto simp: waits_def Let_def)
      ultimately show ?thesis using Answered False on_table_inv [OF r w] on_begin_inv [OF r w] on_reserve_inv [OF r w] on_record_inv [OF r w] on_change_inv [OF r w]
          on_exists_inv [OF r w] on_insert_inv [OF r w] on_version_inv [OF r w] on_result_inv [OF r w] on_commit_inv [OF r w]
        by (cases "cx_stage c") (simp_all add: advance_def)
    qed
  qed
qed

lemma save_run_inv: "save_run cfg c0 past h p \<Longrightarrow> save_inv cfg c0 past h p"
proof (induction rule: save_run.induct)
  case (Start now key)
  show ?case by (rule start_inv) auto
next
  case (Answer past h c m a now)
  then show ?case using advance_inv by blast
next
  case (Wake_up past h c delay now key)
  then show ?case unfolding wake_def by (simp only: if_True) (rule start_inv; auto simp: save_inv_def)
next
  case (Wake_down past h c delay now key)
  then show ?case unfolding wake_def if_False [THEN eq_reflection] by (intro retry_or_finish_over) (auto simp: save_error_def same_save_def)
qed

text \<open>C10. A save reports the truth.  When it reports success, all changes of the request were applied in order in one transaction, with the versions it reports read in it
  and stored with the request id, and the commit was acknowledged; or the request id was used before and the stored record, with the signature of this
  request, holds the versions it reports.  When it reports failure, nothing is said to be committed, and if a commit was sent in any attempt, the
  report is that the outcome is unknown.\<close>

theorem save_outcome_sound:
  assumes "save_run cfg c0 past h (Done c r)"
  shows "(\<exists>vs. r = saved (cx_request c0) vs \<and> (committed cfg c h vs \<or> (\<exists>h' a. h = h' @ [(Tx_rollback (Inr (cx_key c)), a)] \<and> replayed cfg c h' vs))) \<or>
    sv_code r \<noteq> Ok \<and> \<not> sv_committed r \<and> (commit_sent (concat past @ h) \<longrightarrow> sv_code r = Commit_unknown)"
  using save_run_inv [OF assms] by (auto simp: save_inv_def same_save_def split: if_splits)

text \<open>C15. No transaction is left open.  The transactions that an attempt begins have the same key; an attempt that is followed by another, or ends the save without
  a commit, has sent the rollback for this key last if it began one; and the only other end is an acknowledged commit.\<close>

theorem transactions_closed:
  assumes "save_run cfg c0 past h p" "p = Sleep c delay \<or> p = Done c r"
  shows "(\<forall>attempt \<in> set past. \<exists>key. closed key attempt) \<and> (closed (cx_key c) h \<or> own_key (cx_key c) h \<and> (\<exists>h' t x. h = h' @ [(Tx_commit t, Answered x)] \<and> db_ok x))"
proof -
  have "\<exists>h' t x. h = h' @ [(Tx_commit t, Answered x)] \<and> db_ok x" if "committed cfg c h vs" for vs using that by (auto simp: committed_def)
  then show ?thesis using save_run_inv [OF assms(1)] assms(2) by (auto simp: save_inv_def closed_def split: if_splits) blast+
qed

section \<open>A save ends\<close>

text \<open>What happens to a save: the time, whether the write service is registered, the key of the next attempt, and the answer.\<close>

type_synonym stimulus = "nat \<times> bool \<times> string \<times> answer"

fun drive :: "save_config \<Rightarrow> stimulus list \<Rightarrow> progress \<Rightarrow> progress" where
  "drive cfg [] p = p"
| "drive cfg ((now, up, key, a) # rest) (Ask c m) = drive cfg rest (advance cfg now a c)"
| "drive cfg ((now, up, key, a) # rest) (Sleep c delay) = drive cfg rest (wake cfg now up key c)"
| "drive cfg (x # rest) (Done c r) = Done c r"

text \<open>How many steps the stage of an attempt leaves at most.\<close>

definition stage_rank :: "save_context \<Rightarrow> nat" where
  "stage_rank c =
     (let n = length (changes_of c); left = 3 * (n - cx_change_index c)
      in case cx_stage c of
           Await_table \<Rightarrow> 3 * n + 7 | Await_begin \<Rightarrow> 3 * n + 6 | Await_reserve \<Rightarrow> 3 * n + 5 | Await_record \<Rightarrow> 2 | Await_change \<Rightarrow> left + 4 | Await_insert \<Rightarrow> left + 3
         | Await_version \<Rightarrow> left + 2 | Await_exists \<Rightarrow> 2 | Await_result \<Rightarrow> 3 | Await_commit \<Rightarrow> 2 | Await_rollback _ \<Rightarrow> 1 | Await_replay _ \<Rightarrow> 1 | Sleeping \<Rightarrow> 0)"

definition attempts_left :: "save_config \<Rightarrow> save_context \<Rightarrow> nat" where
  "attempts_left cfg c = (cf_save_retry_attempts cfg - cx_attempt c) * (3 * length (changes_of c) + 8)"

definition steps_left :: "save_config \<Rightarrow> progress \<Rightarrow> nat" where
  "steps_left cfg p = (case p of Ask c m \<Rightarrow> attempts_left cfg c + stage_rank c | Sleep c d \<Rightarrow> attempts_left cfg c | Done c r \<Rightarrow> 0)"

text \<open>What the measure needs of a context that waits: it sleeps only while attempts are left, and a change is at work only while there is one.\<close>

definition sane :: "save_config \<Rightarrow> progress \<Rightarrow> bool" where
  "sane cfg p \<longleftrightarrow>
     (case p of
        Ask c m \<Rightarrow> (cx_stage c = Await_begin \<or> cx_stage c = Await_table \<or> cx_stage c = Await_reserve \<longrightarrow> cx_change_index c = 0) \<and> cx_stage c \<noteq> Sleeping \<and>
          (cx_stage c = Await_change \<or> cx_stage c = Await_insert \<or> cx_stage c = Await_version \<longrightarrow> cx_change_index c < length (changes_of c))
      | Sleep c d \<Rightarrow> cx_attempt c < cf_save_retry_attempts cfg
      | Done c r \<Rightarrow> True)"

abbreviation below :: "save_config \<Rightarrow> save_context \<Rightarrow> nat \<Rightarrow> progress \<Rightarrow> bool" where
  "below cfg c k p \<equiv> sane cfg p \<and> steps_left cfg p \<le> attempts_left cfg c + k"

lemma below_retry: "below cfg c k (retry_or_finish cfg now c r)"
  by (auto simp: retry_or_finish_def Let_def sane_def steps_left_def attempts_left_def)

lemma below_rollback: "1 \<le> k \<Longrightarrow> below cfg c k (rollback cfg now code error c)"
  using below_retry by (auto simp: rollback_def Let_def sane_def steps_left_def stage_rank_def attempts_left_def)

lemma below_fail: "1 \<le> k \<Longrightarrow> below cfg c k (fail_database cfg now r fallback error c)" "1 \<le> k \<Longrightarrow> below cfg c k (fail_transport cfg now e fallback c)"
  using below_rollback [where k = k and cfg = cfg and c = "c\<lparr>cx_retry_requested := _, cx_commit_uncertain := _\<rparr>"] by (auto simp: fail_database_def fail_transport_def Let_def attempts_left_def)

lemma below_ask:
  assumes "stage_rank (c\<lparr>cx_stage := s\<rparr>) \<le> k" "s \<noteq> Sleeping" "s = Await_begin \<or> s = Await_table \<or> s = Await_reserve \<Longrightarrow> cx_change_index c = 0"
    "s = Await_change \<or> s = Await_insert \<or> s = Await_version \<Longrightarrow> cx_change_index c < length (changes_of c)"
  shows "below cfg c k (ask s m c)"
  using assms by (auto simp: sane_def steps_left_def attempts_left_def)

lemma below_insert: "cx_change_index c < length (changes_of c) \<Longrightarrow> 3 * (length (changes_of c) - cx_change_index c) + 3 \<le> k \<Longrightarrow> below cfg c k (insert_change cfg now c)"
  using below_rollback [where k = k and cfg = cfg and c = c and now = now] below_ask [where c = c and s = Await_insert and k = k and cfg = cfg] by (auto simp: insert_change_def stage_rank_def Let_def split: sum.splits)

lemma below_version: "cx_change_index c < length (changes_of c) \<Longrightarrow> 3 * (length (changes_of c) - cx_change_index c) + 2 \<le> k \<Longrightarrow> below cfg c k (load_change_version cfg now c)"
  using below_rollback [where k = k and cfg = cfg and c = c and now = now] below_ask [where c = c and s = Await_version and k = k and cfg = cfg] by (auto simp: load_change_version_def stage_rank_def Let_def split: sum.splits)

lemma below_apply:
  assumes "3 * (length (changes_of c) - cx_change_index c) + 4 \<le> k"
  shows "below cfg c k (apply_next_change cfg now c)"
proof (cases "cx_change_index c < length (changes_of c)")
  case True
  have "1 \<le> k" using assms by simp
  then show ?thesis using True assms below_rollback [where k = k and cfg = cfg and c = c and now = now] below_insert [where c = c and k = k and cfg = cfg and now = now] below_ask [where c = c and s = Await_change and k = k and cfg = cfg]
    by (auto simp: apply_next_change_def stage_rank_def Let_def split: sum.splits)
next
  case False
  have "1 \<le> k" using assms by simp
  then show ?thesis using False assms below_rollback [where k = k and cfg = cfg and c = c and now = now] below_ask [where c = c and s = Await_result and k = k and cfg = cfg]
    by (auto simp: apply_next_change_def store_result_def stage_rank_def)
qed

lemma below_next:
  assumes "cx_change_index c < length (changes_of c)" "3 * (length (changes_of c) - cx_change_index c) + 1 \<le> k"
  shows "below cfg c k (next_change cfg now v c)"
  using below_apply [where c = "c\<lparr>cx_versions := cx_versions c @ [v], cx_change_index := cx_change_index c + 1\<rparr>" and k = k and cfg = cfg and now = now] assms
  by (simp add: next_change_def attempts_left_def)

lemma below_record: "1 \<le> k \<Longrightarrow> below cfg c k (on_record cfg now r c)"
  using below_fail(1) [where k = k and cfg = cfg and c = c and now = now] below_rollback [where k = k and cfg = cfg and c = c and now = now]
    below_ask [where c = c and s = "Await_replay _" and k = k and cfg = cfg]
  by (auto simp: on_record_def rollback_replay_def stage_rank_def split: option.splits)

lemma below_change:
  assumes "cx_change_index c < length (changes_of c)"
  shows "below cfg c (3 * (length (changes_of c) - cx_change_index c) + 3) (on_change cfg now r c)"
proof -
  define k where "k = 3 * (length (changes_of c) - cx_change_index c) + 3"
  have k: "1 \<le> k" "2 \<le> k" "3 * (length (changes_of c) - cx_change_index c) + 1 \<le> k" "3 * (length (changes_of c) - cx_change_index c) + 2 \<le> k"
    "3 * (length (changes_of c) - cx_change_index c) + 3 \<le> k" by (simp_all add: k_def)
  have "below cfg c k (ask Await_exists m c)" for m using below_ask [where c = c and s = Await_exists and cfg = cfg and k = k] k(2) by (simp add: stage_rank_def)
  then have "below cfg c k (on_change cfg now r c)"
    unfolding on_change_def Let_def
    by (simp only: below_fail(1) [OF k(1)] below_rollback [OF k(1)] below_next [OF assms k(3)] below_version [OF assms k(4)] below_insert [OF assms k(5)]
        split: if_split sum.split) simp
  then show ?thesis by (simp add: k_def)
qed

lemma below_advance:
  assumes "sane cfg (Ask c m)"
  shows "below cfg c (stage_rank c - 1) (advance cfg now a c)"
proof -
  have s: "cx_stage c \<noteq> Sleeping" using assms by (simp add: sane_def)
  let ?n = "length (changes_of c)" and ?i = "cx_change_index c"
  have zero: "cx_stage c = Await_begin \<or> cx_stage c = Await_table \<or> cx_stage c = Await_reserve \<Longrightarrow> ?i = 0"
    and less: "cx_stage c = Await_change \<or> cx_stage c = Await_insert \<or> cx_stage c = Await_version \<Longrightarrow> ?i < ?n" using assms by (auto simp: sane_def)
  show ?thesis
  proof (cases "\<exists>x. cx_stage c = Await_rollback x \<or> cx_stage c = Await_replay x")
    case True
    then show ?thesis using below_retry [where cfg = cfg and c = c and k = 0] by (auto simp: advance_def stage_rank_def sane_def steps_left_def)
  next
    case False
    have one: "1 \<le> stage_rank c - 1" using s False by (cases "cx_stage c") (auto simp: stage_rank_def Let_def)
    note f = below_fail [OF one, where cfg = cfg and c = c and now = now] and rb = below_rollback [OF one, where cfg = cfg and c = c and now = now]
    show ?thesis
    proof (cases a)
      case (Transport_error e)
      then show ?thesis using f(2) False s by (cases "cx_stage c") (auto simp: advance_def)
    next
      case (Answered r)
      show ?thesis
      proof (cases "cx_stage c")
        case Await_table
        then show ?thesis using Answered f(1) rb zero below_ask [where c = "c\<lparr>cx_begin_sent := True\<rparr>" and s = Await_begin and cfg = cfg and k = "6 + 3 * ?n"]
          by (simp add: advance_def on_table_def begin_save_def stage_rank_def attempts_left_def)
      next
        case Await_begin
        have "below cfg c (stage_rank c - 1) (reserve_id cfg now (c\<lparr>cx_transaction := t\<rparr>))" for t
          using Await_begin zero below_ask [where c = "c\<lparr>cx_transaction := t\<rparr>" and s = Await_reserve and cfg = cfg and k = "5 + 3 * ?n"]
            below_rollback [where c = "c\<lparr>cx_transaction := t\<rparr>" and k = "5 + 3 * ?n" and cfg = cfg and now = now]
          by (simp add: reserve_id_def stage_rank_def attempts_left_def)
        then show ?thesis using Answered Await_begin f(1) by (simp add: advance_def on_begin_def split: option.splits)
      next
        case Await_reserve
        then show ?thesis using Answered f(1) zero below_apply [where c = c and k = "4 + 3 * ?n" and cfg = cfg and now = now]
            below_ask [where c = c and s = Await_record and cfg = cfg and k = "4 + 3 * ?n"]
          by (simp add: advance_def on_reserve_def replay_request_def stage_rank_def)
      next
        case Await_record
        then show ?thesis using Answered below_record [OF one] by (simp add: advance_def)
      next
        case Await_change
        moreover have "stage_rank c - 1 = 3 * (?n - ?i) + 3" using Await_change by (simp add: stage_rank_def)
        ultimately show ?thesis using Answered below_change less by (simp add: advance_def)
      next
        case Await_exists
        then show ?thesis using Answered f(1) rb by (simp add: advance_def on_exists_def)
      next
        case Await_insert
        then show ?thesis using Answered f(1) less below_version [where c = c and cfg = cfg and now = now and k = "stage_rank c - 1"]
          by (simp add: advance_def on_insert_def stage_rank_def Let_def)
      next
        case Await_version
        then show ?thesis using Answered f(1) less below_next [where c = c and cfg = cfg and now = now and k = "stage_rank c - 1"]
          by (simp add: advance_def on_version_def stage_rank_def Let_def split: option.splits)
      next
        case Await_result
        then show ?thesis using Answered f(1) rb below_ask [where c = c and s = Await_commit and cfg = cfg and k = 2]
          by (simp add: advance_def on_result_def commit_save_def stage_rank_def)
      next
        case Await_commit
        then show ?thesis using Answered f(1) by (simp add: advance_def on_commit_def sane_def steps_left_def)
      qed (use False s in auto)
    qed
  qed
qed

lemma below_start: "below cfg (c\<lparr>cx_attempt := cx_attempt c + 1\<rparr>) (3 * length (changes_of c) + 7) (start_save cfg now key c)"
proof -
  let ?c = "c\<lparr>cx_attempt := cx_attempt c + 1, cx_transaction := 0, cx_begin_sent := False, cx_retry_requested := False, cx_change_index := 0, cx_versions := [], cx_key := key\<rparr>"
  show ?thesis using below_rollback [where c = ?c and k = "3 * length (changes_of c) + 7" and cfg = cfg and now = now]
      below_ask [where c = ?c and s = Await_table and cfg = cfg and k = "3 * length (changes_of c) + 7"]
    by (simp add: start_save_def Let_def stage_rank_def attempts_left_def)
qed

lemma below_wake:
  assumes "sane cfg (Sleep c delay)"
  shows "sane cfg (wake cfg now up key c) \<and> steps_left cfg (wake cfg now up key c) < attempts_left cfg c"
proof -
  have "attempts_left cfg (c\<lparr>cx_attempt := cx_attempt c + 1\<rparr>) + (3 * length (changes_of c) + 7) < attempts_left cfg c"
  proof -
    have "cx_attempt c < cf_save_retry_attempts cfg" using assms by (simp add: sane_def)
    then obtain k where "cf_save_retry_attempts cfg - cx_attempt c = Suc k" by (metis Suc_diff_Suc)
    moreover from this have "cf_save_retry_attempts cfg - Suc (cx_attempt c) = k" by simp
    ultimately show ?thesis by (simp add: attempts_left_def)
  qed
  moreover have "sane cfg (wake cfg now up key c) \<and> steps_left cfg (wake cfg now up key c) \<le> attempts_left cfg (c\<lparr>cx_attempt := cx_attempt c + 1\<rparr>) + (3 * length (changes_of c) + 7)"
    unfolding wake_def using below_start [where c = c and cfg = cfg and now = now and key = key] below_retry [where c = "c\<lparr>cx_attempt := cx_attempt c + 1\<rparr>" and k = "3 * length (changes_of c) + 7"]
    by (simp split: if_splits)
  ultimately show ?thesis by linarith
qed

lemma drive_ends:
  "sane cfg p \<Longrightarrow> steps_left cfg p < length inputs \<or> steps_left cfg p = 0 \<and> (\<exists>c r. p = Done c r) \<Longrightarrow> \<exists>c r. drive cfg inputs p = Done c r"
proof (induction cfg inputs p rule: drive.induct)
  case (2 cfg now up key a rest c m)
  have "stage_rank c > 0" using 2(2) by (cases "cx_stage c") (auto simp: sane_def stage_rank_def Let_def)
  moreover have b: "below cfg c (stage_rank c - 1) (advance cfg now a c)" by (rule below_advance [OF 2(2)])
  moreover have "steps_left cfg (Ask c m) = attempts_left cfg c + stage_rank c" by (simp add: steps_left_def)
  ultimately have "steps_left cfg (advance cfg now a c) < steps_left cfg (Ask c m)" by linarith
  then have "steps_left cfg (advance cfg now a c) < length rest" using 2(3) by auto
  then show ?case using 2(1) b by simp
next
  case (3 cfg now up key a rest c delay)
  have b: "sane cfg (wake cfg now up key c) \<and> steps_left cfg (wake cfg now up key c) < attempts_left cfg c" by (rule below_wake [OF 3(2)])
  then have "steps_left cfg (wake cfg now up key c) < length rest" using 3(3) by (auto simp: steps_left_def)
  then show ?case using 3(1) b by simp
qed auto

text \<open>C16. Every save ends.  Whatever the answers, errors of the transport, times and absences of the write service, a save has its result after at most
  \<open>3 n + 8\<close> steps for each attempt it may make, where \<open>n\<close> is the number of its changes.\<close>

theorem save_ends:
  assumes "cx_attempt c0 = 0" "length inputs \<ge> max 1 (cf_save_retry_attempts cfg) * (3 * length (changes_of c0) + 8)"
  shows "\<exists>c r. drive cfg inputs (start_save cfg now key c0) = Done c r"
proof -
  have "below cfg (c0\<lparr>cx_attempt := 1\<rparr>) (3 * length (changes_of c0) + 7) (start_save cfg now key c0)" using below_start [where c = c0 and cfg = cfg and now = now and key = key] assms(1) by simp
  moreover have "attempts_left cfg (c0\<lparr>cx_attempt := 1\<rparr>) + (3 * length (changes_of c0) + 8) = max 1 (cf_save_retry_attempts cfg) * (3 * length (changes_of c0) + 8)"
    by (cases "cf_save_retry_attempts cfg") (simp_all add: attempts_left_def)
  ultimately show ?thesis using assms(2) by (intro drive_ends) auto
qed

lemma drive_run: "save_run cfg c0 past h p \<Longrightarrow> \<exists>past' h'. save_run cfg c0 past' h' (drive cfg inputs p)"
proof (induction cfg inputs p arbitrary: past h rule: drive.induct)
  case (2 cfg now up key a rest c m)
  then show ?case using save_run.Answer [of cfg c0 past h c m a now] by auto
next
  case (3 cfg now up key a rest c delay)
  then show ?case using save_run.Wake_up [of cfg c0 past h c delay now key] save_run.Wake_down [of cfg c0 past h c delay now key] by (cases up) auto
qed auto

section \<open>A save that commits\<close>

definition demo_config :: save_config where
  "demo_config = \<lparr>cf_dialect = Sqlite, cf_real_out = (\<lambda>_. []), cf_save_retry_attempts = 3, cf_retry_backoff = 100, cf_ticks = 2\<rparr>"

definition demo_save :: save_context where
  "demo_save = \<lparr>cx_id = 1, cx_request = \<lparr>sr_request_id = ''r'', sr_changes = [sample_change ''a'' Update 3]\<rparr>, cx_store = sample_store, cx_schemas = [sample_entity],
     cx_signature = ''s'', cx_versions = [], cx_deadline = 100, cx_transaction = 0, cx_key = [], cx_begin_sent = False, cx_change_index = 0, cx_attempt = 0,
     cx_retry_requested = False, cx_commit_uncertain = False, cx_stage = Sleeping\<rparr>"

definition demo_answer :: "int \<Rightarrow> string \<Rightarrow> string list list \<Rightarrow> stimulus" where
  "demo_answer n insert_id rows = (1, True, [], Answered (empty_result\<lparr>db_ok := True, db_affected := n, db_insert_id := insert_id, db_rows := rows\<rparr>))"

text \<open>The answers to: create the table, begin, reserve, update, read the version, store the result, commit.\<close>

definition demo_inputs :: "stimulus list" where
  "demo_inputs = [demo_answer 0 [] [], demo_answer 0 ''7'' [], demo_answer 1 [] [], demo_answer 1 [] [], demo_answer 0 [] [[''4'']], demo_answer 1 [] [], demo_answer 0 [] []]"

lemma demo_saved: "\<exists>c. drive demo_config demo_inputs (start_save demo_config 0 ''k'' demo_save) = Done c (saved (cx_request demo_save) [4])"
proof -
  have p: "parse_uint64 ''7'' = Some 7" "parse_uint64 ''4'' = Some 4" by code_simp+
  have "\<exists>st. build_update (cf_real_out demo_config) Sqlite sample_entity (sample_change ''a'' Update 3) = Inr st"
    by (simp add: Let_def build_update_def sample_entity_def sample_change_def sample_field_def validate_keys_def find_named_def compatible_def text_value_def signed_value_def
      null_value_def find_writable_field_def schema_find_def)
  then obtain st where st: "build_update (cf_real_out demo_config) Sqlite sample_entity (sample_change ''a'' Update 3) = Inr st" by blast
  have "\<exists>sv. build_current_version (cf_real_out demo_config) Sqlite sample_entity (ep_target (sample_change ''a'' Update 3)) = Inr sv"
    by (simp add: Let_def build_current_version_def sample_entity_def sample_change_def sample_field_def validate_keys_def find_named_def compatible_def text_value_def null_value_def)
  then obtain sv where sv: "build_current_version (cf_real_out demo_config) Sqlite sample_entity (ep_target (sample_change ''a'' Update 3)) = Inr sv" by blast
  have d: "cf_dialect demo_config = Sqlite" "ep_operation (sample_change ''a'' Update 3) = Update" by (simp_all add: demo_config_def sample_change_def)
  show ?thesis
    by (simp add: demo_inputs_def demo_answer_def start_save_def demo_save_def Let_def expired_def advance_def on_table_def begin_save_def on_begin_def p reserve_id_def
        on_reserve_def apply_next_change_def d st sv on_change_def load_change_version_def on_version_def next_change_def store_result_def on_result_def commit_save_def on_commit_def)
qed

lemma demo_save_run: "\<exists>past h c. save_run demo_config demo_save past h (Done c (saved (cx_request demo_save) [4]))"
proof -
  obtain c where c: "drive demo_config demo_inputs (start_save demo_config 0 ''k'' demo_save) = Done c (saved (cx_request demo_save) [4])" using demo_saved by blast
  show ?thesis using drive_run [OF save_run.Start [of demo_config demo_save 0 "''k''"], of demo_inputs] unfolding c by blast
qed

lemma save_outcome_sound_witness:
  "\<exists>past h c vs. save_run demo_config demo_save past h (Done c (saved (cx_request demo_save) [4])) \<and> saved (cx_request demo_save) [4] = saved (cx_request demo_save) vs \<and>
     (committed demo_config c h vs \<or> (\<exists>h' a. h = h' @ [(Tx_rollback (Inr (cx_key c)), a)] \<and> replayed demo_config c h' vs))"
proof -
  obtain past h c where run: "save_run demo_config demo_save past h (Done c (saved (cx_request demo_save) [4]))" using demo_save_run by blast
  have "sv_code (saved (cx_request demo_save) [4]) = Ok" by (simp add: saved_def)
  then show ?thesis using save_outcome_sound [OF run] run by blast
qed

lemma transactions_closed_witness:
  "\<exists>past h c. save_run demo_config demo_save past h (Done c (saved (cx_request demo_save) [4])) \<and>
     (closed (cx_key c) h \<or> own_key (cx_key c) h \<and> (\<exists>h' t x. h = h' @ [(Tx_commit t, Answered x)] \<and> db_ok x))"
proof -
  obtain past h c where run: "save_run demo_config demo_save past h (Done c (saved (cx_request demo_save) [4]))" using demo_save_run by blast
  show ?thesis using transactions_closed [OF run, of c 0 "saved (cx_request demo_save) [4]"] run by blast
qed

lemma save_ends_witness: "\<exists>c r. drive demo_config (replicate 33 (0, False, [], Transport_error [])) (start_save demo_config 0 [] demo_save) = Done c r"
  using save_ends [of demo_save demo_config "replicate 33 (0, False, [], Transport_error [])" 0 "[]"] by (simp add: demo_save_def demo_config_def)

end
