(* ===== verification/Sql_Provider.thy ===== *)
theory Sql_Provider
  imports Db_Contract Sql_Statements
begin

text \<open>
  The discovery of schemas in the database (\<^verbatim>\<open>include/templates/sql_entity_store_schema_provider.hpp\<close>): the metadata query of each dialect, the reading of its
  result, the inference of value kinds, and the completion of an entity schema.  The theory shows that a completed schema is one the catalog accepts
  and that it agrees with the table: its keys are the primary key, its fields are visible other columns, and it grants no more than the table
  does.
\<close>

section \<open>Metadata\<close>

record column_metadata =
  cm_name :: string
  cm_type :: string
  cm_detail :: string
  cm_nullable :: bool
  cm_key_order :: nat
  cm_generated :: bool
  cm_hidden :: bool

definition table_parts :: "entity_schema \<Rightarrow> string \<Rightarrow> string \<times> string" where
  "table_parts entity fallback_schema =
     (case dropWhile (\<lambda>c. c \<noteq> CHR ''.'') (es_table entity) of
        [] \<Rightarrow> (fallback_schema, es_table entity)
      | _ # rest \<Rightarrow> (takeWhile (\<lambda>c. c \<noteq> CHR ''.'') (es_table entity), rest))"

text \<open>The text of the metadata query and its parameters, the schema and the table.\<close>

definition sqlite_query :: string where
  "sqlite_query =
      ''SELECT name AS column_name, type AS data_type, type AS type_detail, CASE WHEN '' @ [CHR 0x22] @ ''notnull'' @ [CHR 0x22] @
      '' = 0 AND pk = 0 THEN 1 ELSE 0 END AS nullable, pk AS key_order, CASE WHEN hidden IN (2, 3) THEN 1 ELSE 0 END AS '' @
      ''generated, CASE WHEN hidden = 1 THEN 1 ELSE 0 END AS hidden FROM pragma_table_xinfo(?, ?) ORDER BY cid''"

definition mysql_query :: string where
  "mysql_query =
      ''SELECT c.COLUMN_NAME AS column_name, c.DATA_TYPE AS data_type, c.COLUMN_TYPE AS type_detail, CASE WHEN c.IS_NULLABLE = '' @ [CHR 0x27] @
      ''YES'' @ [CHR 0x27] @ '' THEN 1 ELSE 0 END AS nullable, COALESCE(k.ORDINAL_POSITION, 0) AS key_order, CASE WHEN c.GENERATION_EXPRESSION <> '' @
      [CHR 0x27] @ [CHR 0x27] @ '' OR c.EXTRA LIKE '' @ [CHR 0x27] @ ''%auto_increment%'' @ [CHR 0x27] @
      '' THEN 1 ELSE 0 END AS `generated`, CASE WHEN c.EXTRA LIKE '' @ [CHR 0x27] @ ''%INVISIBLE%'' @ [CHR 0x27] @
      '' THEN 1 ELSE 0 END AS `hidden` FROM information_schema.COLUMNS c LEFT JOIN information_schema.KEY_COLUMN_USAGE k ON '' @
      ''k.TABLE_SCHEMA = c.TABLE_SCHEMA AND k.TABLE_NAME = c.TABLE_NAME AND k.COLUMN_NAME = c.COLUMN_NAME AND k.CONSTRAINT_NAME '' @ ''= '' @
      [CHR 0x27] @ ''PRIMARY'' @ [CHR 0x27] @ '' WHERE c.TABLE_SCHEMA = COALESCE(NULLIF(?, '' @ [CHR 0x27] @ [CHR 0x27] @
      ''), DATABASE()) AND c.TABLE_NAME = ? ORDER BY c.ORDINAL_POSITION''"

definition postgres_query :: string where
  "postgres_query =
      ''SELECT c.column_name AS column_name, c.data_type AS data_type, c.udt_name AS type_detail, CASE WHEN c.is_nullable = '' @ [CHR 0x27] @ ''YES'' @
      [CHR 0x27] @ '' THEN 1 ELSE 0 END AS nullable, COALESCE(k.ordinal_position, 0) AS key_order, CASE WHEN c.is_generated <> '' @ [CHR 0x27] @
      ''NEVER'' @ [CHR 0x27] @ '' OR c.is_identity = '' @ [CHR 0x27] @ ''YES'' @ [CHR 0x27] @ '' OR c.column_default LIKE '' @ [CHR 0x27] @
      ''nextval(%'' @ [CHR 0x27] @
      '' THEN 1 ELSE 0 END AS generated, 0 AS hidden FROM information_schema.columns c LEFT JOIN (SELECT kcu.table_schema, '' @
      ''kcu.table_name, kcu.column_name, kcu.ordinal_position FROM information_schema.key_column_usage kcu JOIN '' @
      ''information_schema.table_constraints tc ON tc.constraint_catalog = kcu.constraint_catalog AND tc.constraint_schema = '' @
      ''kcu.constraint_schema AND tc.constraint_name = kcu.constraint_name AND tc.table_schema = kcu.table_schema AND '' @
      ''tc.table_name = kcu.table_name WHERE tc.constraint_type = '' @ [CHR 0x27] @ ''PRIMARY KEY'' @ [CHR 0x27] @
      '') k ON k.table_schema = c.table_schema AND k.table_name = c.table_name AND k.column_name = c.column_name WHERE '' @
      ''c.table_schema = COALESCE(NULLIF($1, '' @ [CHR 0x27] @ [CHR 0x27] @
      ''), current_schema()) AND c.table_name = $2 ORDER BY c.ordinal_position''"

definition metadata_query :: "dialect_kind \<Rightarrow> entity_schema \<Rightarrow> string \<times> string list" where
  "metadata_query d entity =
     (case d of
        Sqlite \<Rightarrow> (case table_parts entity ''main'' of (schema, table) \<Rightarrow> (sqlite_query, [table, schema]))
      | Mysql \<Rightarrow> (case table_parts entity [] of (schema, table) \<Rightarrow> (mysql_query, [schema, table]))
      | Postgres \<Rightarrow> (case table_parts entity [] of (schema, table) \<Rightarrow> (postgres_query, [schema, table])))"

definition metadata_names :: "string list" where
  "metadata_names = [''column_name'', ''data_type'', ''type_detail'', ''nullable'', ''key_order'', ''generated'', ''hidden'']"

text \<open>The position of a name, \<open>std::find\<close>.\<close>

fun index_of :: "string \<Rightarrow> string list \<Rightarrow> nat option" where
  "index_of name [] = None"
| "index_of name (x # xs) = (if x = name then Some 0 else map_option Suc (index_of name xs))"

fun metadata_positions :: "string list \<Rightarrow> string list \<Rightarrow> string + nat list" where
  "metadata_positions columns [] = Inr []"
| "metadata_positions columns (name # names) =
     (case index_of name columns of
        None \<Rightarrow> Inl (''schema metadata result is missing column: '' @ name)
      | Some i \<Rightarrow> (case metadata_positions columns names of Inl e \<Rightarrow> Inl e | Inr is \<Rightarrow> Inr (i # is)))"

definition metadata_flag :: "string \<Rightarrow> bool option" where
  "metadata_flag v = (if v = ''1'' then Some True else if v = ''0'' then Some False else None)"

definition decode_row :: "db_result \<Rightarrow> nat list \<Rightarrow> nat \<Rightarrow> string + column_metadata" where
  "decode_row result positions row_index =
     (let row = db_rows result ! row_index; cell = (\<lambda>i. row ! (positions ! i))
      in if \<exists>i \<in> set positions. i \<ge> length row \<or> db_is_null result row_index i then Inl ''invalid NULL/truncated schema metadata row''
         else case (from_chars 0 (2 ^ 64 - 1) (cell 4), metadata_flag (cell 3), metadata_flag (cell 5), metadata_flag (cell 6)) of
           (Some (key, []), Some nullable, Some generated, Some hidden) \<Rightarrow>
             if cell 0 = [] then Inl ''invalid schema metadata value''
             else Inr \<lparr>cm_name = cell 0, cm_type = cell 1, cm_detail = cell 2, cm_nullable = nullable, cm_key_order = nat key, cm_generated = generated, cm_hidden = hidden\<rparr>
         | _ \<Rightarrow> Inl ''invalid schema metadata value'')"

fun decode_rows :: "db_result \<Rightarrow> nat list \<Rightarrow> nat list \<Rightarrow> string + column_metadata list" where
  "decode_rows result positions [] = Inr []"
| "decode_rows result positions (i # is) =
     (case decode_row result positions i of
        Inl e \<Rightarrow> Inl e
      | Inr column \<Rightarrow> (case decode_rows result positions is of Inl e \<Rightarrow> Inl e | Inr columns \<Rightarrow> Inr (column # columns)))"

definition decode_metadata :: "db_result \<Rightarrow> string + column_metadata list" where
  "decode_metadata result =
     (if \<not> db_ok result then Inl (''schema metadata query failed: '' @ db_error result)
      else if db_rows result = [] then Inl ''table is missing, inaccessible, or has no visible columns''
      else case metadata_positions (db_columns result) metadata_names of
        Inl e \<Rightarrow> Inl e
      | Inr positions \<Rightarrow> decode_rows result positions [0..<length (db_rows result)])"

section \<open>Types\<close>

definition lower_char :: "char \<Rightarrow> char" where
  "lower_char c = (if in_range (CHR ''A'') (CHR ''Z'') c then char_of ((of_char c :: nat) + 32) else c)"

definition lowercase :: "string \<Rightarrow> string" where
  "lowercase t = map lower_char t"

definition base_type :: "string \<Rightarrow> string" where
  "base_type type =
     dropWhile (\<lambda>c. c = CHR '' '') (rev (dropWhile (\<lambda>c. c = CHR '' '') (rev (takeWhile (\<lambda>c. c \<noteq> CHR ''('') (lowercase type)))))"

fun contains :: "string \<Rightarrow> string \<Rightarrow> bool" where
  "contains [] p \<longleftrightarrow> p = []"
| "contains (c # cs) p \<longleftrightarrow> take (length p) (c # cs) = p \<or> contains cs p"

definition sqlite_kind :: "column_metadata \<Rightarrow> value_kind option" where
  "sqlite_kind column =
     (let type = base_type (cm_type column)
      in if type \<in> {''integer'', ''int'', ''tinyint'', ''smallint'', ''mediumint'', ''bigint'', ''int2'', ''int8''} then Some Signed_integer
         else if type \<in> {''real'', ''double'', ''double precision'', ''float''} then Some Real
         else if type \<in> {''text'', ''varchar'', ''char'', ''character'', ''clob'', ''nvarchar'', ''nchar''} then Some Text
         else None)"

definition mysql_kind :: "column_metadata \<Rightarrow> value_kind option" where
  "mysql_kind column =
     (let type = base_type (cm_type column)
      in if type \<in> {''tinyint'', ''smallint'', ''mediumint'', ''int'', ''integer'', ''bigint''}
         then Some (if contains (lowercase (cm_detail column)) ''unsigned'' then Unsigned_integer else Signed_integer)
         else if type \<in> {''decimal'', ''numeric''} then Some Decimal
         else if type \<in> {''float'', ''double'', ''real''} then Some Real
         else if type = ''json'' then Some Json
         else if type \<in> {''char'', ''varchar'', ''tinytext'', ''text'', ''mediumtext'', ''longtext'', ''date'', ''datetime'', ''timestamp'', ''time''} then Some Text
         else None)"

definition postgres_kind :: "column_metadata \<Rightarrow> value_kind option" where
  "postgres_kind column =
     (let type = base_type (cm_type column)
      in if type \<in> {''smallint'', ''integer'', ''bigint''} then Some Signed_integer
         else if type \<in> {''numeric'', ''decimal''} then Some Decimal
         else if type \<in> {''real'', ''double precision''} then Some Real
         else if type = ''boolean'' then Some Boolean
         else if type \<in> {''json'', ''jsonb''} then Some Json
         else if type \<in> {''text'', ''character varying'', ''character'', ''uuid'', ''date'', ''timestamp without time zone'', ''timestamp with time zone'',
           ''time without time zone'', ''time with time zone''} then Some Text
         else None)"

definition infer_kind :: "dialect_kind \<Rightarrow> column_metadata \<Rightarrow> value_kind option" where
  "infer_kind d column = (case d of Sqlite \<Rightarrow> sqlite_kind column | Mysql \<Rightarrow> mysql_kind column | Postgres \<Rightarrow> postgres_kind column)"

section \<open>Completion\<close>

definition binary_types :: "string set" where
  "binary_types = {''blob'', ''tinyblob'', ''mediumblob'', ''longblob'', ''binary'', ''varbinary'', ''bytea'', ''bit'', ''bit varying''}"

definition complete_field :: "dialect_kind \<Rightarrow> bool \<Rightarrow> column_metadata \<Rightarrow> field_schema \<Rightarrow> string + field_schema" where
  "complete_field d key column field =
     (if cm_hidden column then Inl (''hidden database columns cannot be exposed: '' @ cm_name column)
      else if base_type (cm_type column) \<in> binary_types then Inl (''binary database column is unsupported: '' @ cm_name column)
      else case (if fs_kind_explicit field then Some (fs_kind field) else infer_kind d column) of
        None \<Rightarrow> Inl (''ambiguous database type '' @ [CHR 0x27] @ cm_type column @ [CHR 0x27] @ '' for '' @ cm_name column @ ''; configure an explicit kind'')
      | Some kind \<Rightarrow>
          let field = field\<lparr>fs_kind := kind\<rparr>
          in if fs_nullable_explicit field \<and> fs_nullable field \<and> \<not> cm_nullable column
             then Inl (''nullable override cannot relax database NOT NULL: '' @ cm_name column)
             else let field = (if fs_nullable_explicit field then field else field\<lparr>fs_nullable := cm_nullable column\<rparr>)
                  in if key \<and> fs_nullable field then Inl (''primary keys must not be nullable: '' @ cm_name column)
                     else if fs_writable_explicit field \<and> fs_writable field \<and> (key \<or> cm_generated column)
                     then Inl (''keys/generated columns cannot be writable: '' @ cm_name column)
                     else Inr (if key \<or> cm_generated column then field\<lparr>fs_writable := False\<rparr> else field))"

text \<open>A \<open>field_schema\<close> with its default members, named after a column.\<close>

definition column_field :: "string \<Rightarrow> field_schema" where
  "column_field name = \<lparr>fs_name = name, fs_column = name, fs_kind = Text, fs_writable = True, fs_nullable = True,
     fs_kind_explicit = False, fs_nullable_explicit = False, fs_writable_explicit = False\<rparr>"

fun duplicate_column :: "string set \<Rightarrow> column_metadata list \<Rightarrow> string option" where
  "duplicate_column seen [] = None"
| "duplicate_column seen (c # cs) = (if cm_name c \<in> seen then Some (cm_name c) else duplicate_column (insert (cm_name c) seen) cs)"

definition by_name :: "column_metadata list \<Rightarrow> string \<Rightarrow> column_metadata option" where
  "by_name columns name = find (\<lambda>c. cm_name c = name) columns"

fun complete_keys :: "dialect_kind \<Rightarrow> column_metadata list \<Rightarrow> string set \<Rightarrow> field_schema list \<Rightarrow> string + field_schema list" where
  "complete_keys d columns seen [] = Inr []"
| "complete_keys d columns seen (field # rest) =
     (case by_name columns (fs_column field) of
        None \<Rightarrow> Inl (''configured key is not a unique primary key column: '' @ fs_column field)
      | Some column \<Rightarrow>
          if cm_key_order column = 0 \<or> fs_column field \<in> seen then Inl (''configured key is not a unique primary key column: '' @ fs_column field)
          else case complete_field d True column field of
            Inl e \<Rightarrow> Inl e
          | Inr field' \<Rightarrow> (case complete_keys d columns (insert (fs_column field) seen) rest of Inl e \<Rightarrow> Inl e | Inr fs \<Rightarrow> Inr (field' # fs)))"

fun complete_fields :: "dialect_kind \<Rightarrow> column_metadata list \<Rightarrow> string \<Rightarrow> field_schema list \<Rightarrow> string + field_schema list" where
  "complete_fields d columns version [] = Inr []"
| "complete_fields d columns version (field # rest) =
     (case by_name columns (fs_column field) of
        None \<Rightarrow> Inl (''configured field is absent from database: '' @ fs_column field)
      | Some column \<Rightarrow>
          if cm_key_order column > 0 \<or> fs_column field = version then Inl (''keys/version cannot also be exposed as ordinary fields: '' @ fs_column field)
          else case complete_field d False column field of
            Inl e \<Rightarrow> Inl e
          | Inr field' \<Rightarrow> (case complete_fields d columns version rest of Inl e \<Rightarrow> Inl e | Inr fs \<Rightarrow> Inr (field' # fs)))"

definition version_column_ok :: "dialect_kind \<Rightarrow> column_metadata \<Rightarrow> bool" where
  "version_column_ok d column \<longleftrightarrow>
     \<not> (cm_nullable column \<or> cm_generated column \<or> cm_hidden column \<or> cm_key_order column \<noteq> 0 \<or>
        infer_kind d column \<notin> {Some Signed_integer, Some Unsigned_integer})"

text \<open>Equal positions of two key columns are refused by the check that follows, so that the order \<open>std::sort\<close> gives them does not matter.\<close>

definition apply_metadata :: "dialect_kind \<Rightarrow> entity_schema \<Rightarrow> db_result \<Rightarrow> string + entity_schema" where
  "apply_metadata d entity result =
     (if \<not> es_discover_from_database entity then Inl (''schema is not awaiting database discovery: '' @ es_name entity)
      else case decode_metadata result of
        Inl e \<Rightarrow> Inl e
      | Inr columns \<Rightarrow>
      (case duplicate_column {} columns of
        Some name \<Rightarrow> Inl (''duplicate metadata column: '' @ name)
      | None \<Rightarrow>
      (let primary_key = sort_key cm_key_order (filter (\<lambda>c. cm_key_order c > 0) columns) in
       if primary_key = [] then Inl (''database entity requires a primary key: '' @ es_table entity)
       else if map cm_key_order primary_key \<noteq> [1..<Suc (length primary_key)] then Inl (''invalid primary key metadata: '' @ es_table entity)
       else case by_name columns (es_version_column entity) of
         None \<Rightarrow> Inl (''version column is missing: '' @ es_version_column entity)
       | Some version \<Rightarrow>
       if \<not> version_column_ok d version then Inl (''version column must be a non-null, non-generated integer: '' @ es_version_column entity)
       else let keys = (if es_keys_explicit entity then es_keys entity else map (\<lambda>c. column_field (cm_name c)) primary_key) in
       if length keys \<noteq> length primary_key then Inl ''configured keys must include the complete database primary key''
       else case complete_keys d columns {} keys of
         Inl e \<Rightarrow> Inl e
       | Inr keys \<Rightarrow>
       (let fields = (if es_fields_explicit entity then es_fields entity
                      else map (\<lambda>c. column_field (cm_name c))
                        (filter (\<lambda>c. \<not> (cm_key_order c > 0 \<or> cm_hidden c \<or> cm_name c = es_version_column entity)) columns))
        in case complete_fields d columns (es_version_column entity) fields of
             Inl e \<Rightarrow> Inl e
           | Inr fields \<Rightarrow>
               let completed = entity\<lparr>es_keys := keys, es_fields := fields, es_discover_from_database := False\<rparr>
               in case validate_entity False completed of Some e \<Rightarrow> Inl e | None \<Rightarrow> Inr completed))))"

section \<open>What a completed schema promises\<close>

text \<open>A field that exposes a column of the table: it grants no more than the column does.\<close>

definition exposes :: "dialect_kind \<Rightarrow> bool \<Rightarrow> column_metadata \<Rightarrow> field_schema \<Rightarrow> bool" where
  "exposes d key column field \<longleftrightarrow>
     fs_column field = cm_name column \<and> \<not> cm_hidden column \<and> base_type (cm_type column) \<notin> binary_types \<and>
     (fs_nullable field \<longrightarrow> cm_nullable column \<and> \<not> key) \<and> (fs_writable field \<longrightarrow> \<not> cm_generated column \<and> \<not> key) \<and>
     (\<not> fs_kind_explicit field \<longrightarrow> infer_kind d column = Some (fs_kind field))"

lemma complete_field_exposes:
  assumes "complete_field d key column field = Inr field'" "cm_name column = fs_column field"
  shows "exposes d key column field' \<and> fs_column field' = fs_column field \<and> fs_name field' = fs_name field"
  using assms by (auto simp: complete_field_def exposes_def Let_def split: if_splits option.splits)

lemma by_name_Some: "by_name columns name = Some c \<Longrightarrow> c \<in> set columns \<and> cm_name c = name"
  by (auto simp: by_name_def find_Some_iff)

lemma complete_keys_exposes:
  "complete_keys d columns seen keys = Inr keys' \<Longrightarrow>
     map fs_column keys' = map fs_column keys \<and> distinct (map fs_column keys) \<and> set (map fs_column keys) \<inter> seen = {} \<and>
     (\<forall>f \<in> set keys'. \<exists>c \<in> set columns. cm_key_order c > 0 \<and> exposes d True c f)"
proof (induction d columns seen keys arbitrary: keys' rule: complete_keys.induct)
  case (2 d columns seen field rest)
  obtain column field' fs where c: "by_name columns (fs_column field) = Some column" "cm_key_order column \<noteq> 0" "fs_column field \<notin> seen"
    "complete_field d True column field = Inr field'" "complete_keys d columns (insert (fs_column field) seen) rest = Inr fs" "keys' = field' # fs"
    using "2.prems" by (auto split: option.splits if_splits sum.splits)
  note e = complete_field_exposes [OF c(4)] and n = by_name_Some [OF c(1)]
  have "\<not> (cm_key_order column = 0 \<or> fs_column field \<in> seen)" using c(2, 3) by simp
  from "2.IH" [OF c(1) this c(4) c(5)] show ?case using c e n by (auto simp: image_iff)
qed simp

lemma complete_fields_exposes:
  "complete_fields d columns version fds = Inr fds' \<Longrightarrow>
     map fs_column fds' = map fs_column fds \<and>
     (\<forall>f \<in> set fds'. fs_column f \<noteq> version \<and> (\<exists>c \<in> set columns. cm_key_order c = 0 \<and> exposes d False c f))"
proof (induction d columns version fds arbitrary: fds' rule: complete_fields.induct)
  case (2 d columns version field rest)
  obtain column field' fs where c: "by_name columns (fs_column field) = Some column" "cm_key_order column = 0" "fs_column field \<noteq> version"
    "complete_field d False column field = Inr field'" "complete_fields d columns version rest = Inr fs" "fds' = field' # fs"
    using "2.prems" by (auto split: option.splits if_splits sum.splits)
  note e = complete_field_exposes [OF c(4)] and n = by_name_Some [OF c(1)]
  have "\<not> (0 < cm_key_order column \<or> fs_column field = version)" using c(2, 3) by simp
  from "2.IH" [OF c(1) this c(4) c(5)] show ?case using c e n by auto
qed simp

lemma duplicate_column_None: "duplicate_column seen cs = None \<longleftrightarrow> distinct (map cm_name cs) \<and> set (map cm_name cs) \<inter> seen = {}"
  by (induction seen cs rule: duplicate_column.induct) auto

text \<open>As many distinct key columns as the primary key has: they are its columns.\<close>

lemma key_columns:
  assumes "distinct (map cm_name columns)" "distinct ks" "length ks = length (filter (\<lambda>c. cm_key_order c > 0) columns)"
    "\<And>k. k \<in> set ks \<Longrightarrow> \<exists>c \<in> set columns. cm_key_order c > 0 \<and> cm_name c = k"
  shows "set ks = {cm_name c |c. c \<in> set columns \<and> cm_key_order c > 0}"
proof (rule card_subset_eq)
  let ?K = "map cm_name (filter (\<lambda>c. cm_key_order c > 0) columns)"
  have K: "{cm_name c |c. c \<in> set columns \<and> cm_key_order c > 0} = set ?K" by auto
  show "finite {cm_name c |c. c \<in> set columns \<and> cm_key_order c > 0}" unfolding K by simp
  show "set ks \<subseteq> {cm_name c |c. c \<in> set columns \<and> cm_key_order c > 0}" using assms(4) by blast
  have "distinct ?K" using assms(1) by (simp add: distinct_map_filter)
  then show "card (set ks) = card {cm_name c |c. c \<in> set columns \<and> cm_key_order c > 0}"
    unfolding K using assms(2, 3) distinct_card [of ks] distinct_card [of ?K] by simp
qed

text \<open>C24. A schema completed from the database agrees with the table.  Its keys are exactly the columns of the primary key, neither writable nor nullable; its
  version column is an integer column outside the key; its other fields are visible columns that are neither; a field is nullable or writable
  only where the column is; a kind that was not configured is the one inferred from the column; and the catalog accepts the schema.\<close>

theorem completed_schema_agrees:
  assumes "apply_metadata d entity result = Inr completed"
  shows "\<exists>columns version. decode_metadata result = Inr columns \<and> distinct (map cm_name columns) \<and> validate_entity False completed = None \<and>
    \<not> es_discover_from_database completed \<and>
    set (map fs_column (es_keys completed)) = {cm_name c |c. c \<in> set columns \<and> cm_key_order c > 0} \<and>
    (\<forall>f \<in> set (es_keys completed). \<exists>c \<in> set columns. exposes d True c f) \<and>
    (\<forall>f \<in> set (es_fields completed). \<exists>c \<in> set columns. cm_key_order c = 0 \<and> cm_name c \<noteq> es_version_column completed \<and> exposes d False c f) \<and>
    version \<in> set columns \<and> cm_name version = es_version_column completed \<and> version_column_ok d version"
proof -
  obtain columns version where c: "decode_metadata result = Inr columns" "duplicate_column {} columns = None" "by_name columns (es_version_column entity) = Some version"
    "version_column_ok d version" using assms unfolding apply_metadata_def Let_def by (auto split: if_splits sum.splits option.splits)
  define pk where "pk = sort_key cm_key_order (filter (\<lambda>c. cm_key_order c > 0) columns)"
  define keys where "keys = (if es_keys_explicit entity then es_keys entity else map (\<lambda>c. column_field (cm_name c)) pk)"
  define fds where "fds = (if es_fields_explicit entity then es_fields entity else map (\<lambda>c. column_field (cm_name c))
    (filter (\<lambda>c. \<not> (cm_key_order c > 0 \<or> cm_hidden c \<or> cm_name c = es_version_column entity)) columns))"
  have len: "length keys = length pk"
    using assms unfolding apply_metadata_def Let_def c sum.case option.case pk_def [symmetric] keys_def [symmetric] fds_def [symmetric] by (meson Inl_Inr_False)
  obtain keys' fds' where kf: "complete_keys d columns {} keys = Inr keys'" "complete_fields d columns (es_version_column entity) fds = Inr fds'"
    "completed = entity\<lparr>es_keys := keys', es_fields := fds', es_discover_from_database := False\<rparr>" "validate_entity False completed = None"
    using assms unfolding apply_metadata_def Let_def c sum.case option.case pk_def [symmetric] keys_def [symmetric] fds_def [symmetric]
    by (auto split: if_splits sum.splits option.splits)
  note x = c len [unfolded pk_def] kf
  have d: "distinct (map cm_name columns)" using x(2) by (simp add: duplicate_column_None)
  note k = complete_keys_exposes [OF x(6)] and f = complete_fields_exposes [OF x(7)] and v = by_name_Some [OF x(3)]
  have "set (map fs_column keys') = {cm_name c |c. c \<in> set columns \<and> cm_key_order c > 0}"
  proof (rule key_columns [OF d])
    show "distinct (map fs_column keys')" using k by simp
    show "length (map fs_column keys') = length (filter (\<lambda>c. cm_key_order c > 0) columns)" using k x(5) by (metis length_map length_sort)
    show "\<exists>c \<in> set columns. cm_key_order c > 0 \<and> cm_name c = n" if n: "n \<in> set (map fs_column keys')" for n
    proof -
      obtain f where "f \<in> set keys'" "n = fs_column f" using n by auto
      then show ?thesis using k unfolding exposes_def by metis
    qed
  qed
  moreover have "\<forall>f \<in> set keys'. \<exists>c \<in> set columns. exposes d True c f" using k by blast
  moreover have "\<forall>f \<in> set fds'. \<exists>c \<in> set columns. cm_key_order c = 0 \<and> cm_name c \<noteq> es_version_column entity \<and> exposes d False c f"
    using f by (metis exposes_def)
  moreover have "es_keys completed = keys'" "es_fields completed = fds'" "es_version_column completed = es_version_column entity"
    "\<not> es_discover_from_database completed" using kf(3) by simp_all
  ultimately show ?thesis using c(1, 4) d v kf(4) by (intro exI [of _ columns] exI [of _ version]) simp
qed

definition sample_metadata :: db_result where
  "sample_metadata = empty_result\<lparr>db_ok := True, db_columns := metadata_names,
     db_rows := [[''id'', ''varchar(64)'', ''varchar(64)'', ''0'', ''1'', ''0'', ''0''], [''gold'', ''BIGINT'', ''bigint'', ''1'', ''0'', ''0'', ''0''],
       [''version'', ''bigint'', ''bigint'', ''0'', ''0'', ''0'', ''0'']]\<rparr>"

definition sample_discovery :: entity_schema where
  "sample_discovery = \<lparr>es_name = ''player'', es_table = ''player'', es_version_column = ''version'', es_keys = [], es_fields = [],
     es_discover_from_database = True, es_keys_explicit = False, es_fields_explicit = False\<rparr>"

lemma sample_completed: "apply_metadata Sqlite sample_discovery sample_metadata = Inr (sample_discovery\<lparr>
    es_keys := [(column_field ''id'')\<lparr>fs_writable := False, fs_nullable := False\<rparr>], es_fields := [(column_field ''gold'')\<lparr>fs_kind := Signed_integer\<rparr>],
    es_discover_from_database := False\<rparr>)"
  by code_simp

lemma completed_schema_agrees_witness:
  "\<exists>columns version. decode_metadata sample_metadata = Inr columns \<and> version \<in> set columns \<and> cm_name version = ''version'' \<and> version_column_ok Sqlite version \<and>
     {''id''} = {cm_name c |c. c \<in> set columns \<and> cm_key_order c > 0}"
  using completed_schema_agrees [OF sample_completed] by (auto simp: sample_discovery_def column_field_def)

end
