(* ===== verification/Sql_Store.thy ===== *)
theory Sql_Store
  imports Sql_Save Sql_Provider "HOL-Library.Multiset"
begin

text \<open>
  The actor of the SQL entity store (\<open>entity_store_actor\<close> of \<^verbatim>\<open>include/templates/sql_entity_store_actor.hpp\<close> and \<^verbatim>\<open>sql_entity_store_recovery.hpp\<close>): the admission of
  requests, the discovery of schemas before the first request, loads with their retries, a queue of saves for each partition, draining and exit.  A handler is
  a function of the state that returns the effects in their order; the clock and the registry of services are arguments that are read wherever the code reads them.  The theory
  defines the runs of the actor and shows its invariant: the tables agree, a partition has one save at work, and each save is answered or still held.
\<close>

section \<open>The state\<close>

record load_context =
  lc_request :: load_request
  lc_statement :: sql_statement
  lc_store :: store_schema
  lc_deadline :: nat
  lc_attempt :: nat
  lc_sleeping :: bool

text \<open>A request that waits for the schemas, with its promise and its deadline.\<close>

datatype waiter = Wait_load nat load_request nat | Wait_save nat save_request nat

record store_config =
  st_save :: save_config
  st_real_in :: "string \<Rightarrow> u64 option"
  st_request_timeout :: nat
  st_max_pending_requests :: nat
  st_load_retry_attempts :: nat
  st_self :: string

record store_actor =
  sa_catalog :: schema_catalog
  sa_config_error :: string
  sa_draining :: bool
  sa_in_flight :: nat
  sa_next_key :: u64
  sa_drain_waiters :: "nat list"
  sa_schema_loading :: bool
  sa_discovery_index :: nat
  sa_targets :: "(string \<times> string) list"
  sa_schema_deadline :: nat
  sa_schema_waiters :: "waiter list"
  sa_queues :: "(string \<times> save_context list) list"
  sa_loads :: "(nat \<times> load_context) list"

datatype effect = Save_call nat message | Save_timer nat nat | Save_reply nat save_result | Load_call nat message | Load_timer nat nat | Load_reply nat load_result
  | Metadata_call message | Discovery_timer nat | Drained nat

type_synonym handler = "store_actor \<Rightarrow> store_actor \<times> effect list"

text \<open>A handler reads the clock and asks the registry several times: \<open>now k\<close> is its reading number \<open>k\<close>, in ticks, and \<open>up k\<close> tells which services are
  registered at that moment.  Nothing is assumed of how the readings follow each other.\<close>

type_synonym clock = "nat \<Rightarrow> nat"

type_synonym registry = "nat \<Rightarrow> string \<Rightarrow> bool"

abbreviation (input) later :: "nat \<Rightarrow> (nat \<Rightarrow> 'a) \<Rightarrow> nat \<Rightarrow> 'a" where
  "later n reading \<equiv> \<lambda>k. reading (k + n)"

text \<open>\<open>duration_cast<milliseconds>\<close> of the time left, not below zero: what is left of a millisecond does not count.\<close>

definition time_left :: "store_config \<Rightarrow> nat \<Rightarrow> nat \<Rightarrow> nat" where
  "time_left cfg deadline t = (deadline - t) div cf_ticks (st_save cfg)"

definition new_store :: "schema_catalog \<Rightarrow> string \<Rightarrow> store_actor" where
  "new_store catalog config_error =
     \<lparr>sa_catalog = catalog, sa_config_error = config_error, sa_draining = False, sa_in_flight = 0, sa_next_key = 0, sa_drain_waiters = [], sa_schema_loading = False,
      sa_discovery_index = 0, sa_targets = [], sa_schema_deadline = 0, sa_schema_waiters = [], sa_queues = [], sa_loads = []\<rparr>"

definition queue_of :: "store_actor \<Rightarrow> string \<Rightarrow> save_context list" where
  "queue_of s key = (case map_of (sa_queues s) key of None \<Rightarrow> [] | Some q \<Rightarrow> q)"

text \<open>An empty queue is erased.\<close>

definition set_queue :: "string \<Rightarrow> save_context list \<Rightarrow> store_actor \<Rightarrow> store_actor" where
  "set_queue key q s = s\<lparr>sa_queues := (if q = [] then AList.delete key (sa_queues s) else AList.update key q (sa_queues s))\<rparr>"

section \<open>Admission and draining\<close>

definition admission_error :: "store_config \<Rightarrow> store_actor \<Rightarrow> string" where
  "admission_error cfg s =
     (if sa_draining s then ''entity store is draining''
      else if sa_in_flight s + length (sa_schema_waiters s) \<ge> st_max_pending_requests cfg then ''entity store pending request limit reached'' else [])"

definition notify_drained :: handler where
  "notify_drained s =
     (if \<not> sa_draining s \<or> sa_in_flight s \<noteq> 0 \<or> sa_schema_loading s then (s, [])
      else (s\<lparr>sa_drain_waiters := []\<rparr>, map Drained (sa_drain_waiters s)))"

definition operation_finished :: handler where
  "operation_finished s = notify_drained (s\<lparr>sa_in_flight := sa_in_flight s - 1\<rparr>)"

definition drain :: "nat \<Rightarrow> handler" where
  "drain coordinator s =
     (let s = s\<lparr>sa_draining := True\<rparr>
      in if sa_in_flight s = 0 \<and> \<not> sa_schema_loading s then (s, [Drained coordinator])
         else (s\<lparr>sa_drain_waiters := sa_drain_waiters s @ [coordinator]\<rparr>, []))"

section \<open>Saves\<close>

definition transaction_key :: "store_config \<Rightarrow> store_actor \<Rightarrow> string" where
  "transaction_key cfg s = st_self cfg @ '':'' @ nat_text (unat (sa_next_key s + 1))"

abbreviation count_key :: "store_actor \<Rightarrow> store_actor" where
  "count_key s \<equiv> s\<lparr>sa_next_key := sa_next_key s + 1\<rparr>"

lemma queue_of_set [simp]: "queue_of (set_queue part q s) part' = (if part' = part then q else queue_of s part')"
  by (auto simp: queue_of_def set_queue_def delete_conv)

lemma queue_of_simps [simp]:
  "queue_of (s\<lparr>sa_next_key := k\<rparr>) part = queue_of s part" "queue_of (s\<lparr>sa_in_flight := n\<rparr>) part = queue_of s part"
  "queue_of (s\<lparr>sa_drain_waiters := ws\<rparr>) part = queue_of s part"
  by (simp_all add: queue_of_def)

lemma notify_queue [simp]: "queue_of (fst (notify_drained s)) part = queue_of s part" "queue_of (fst (operation_finished s)) part = queue_of s part"
  by (simp_all add: notify_drained_def operation_finished_def)

text \<open>The progress of the save at the head of the queue of a partition; when it is done, the next one starts.\<close>

function settle :: "store_config \<Rightarrow> clock \<Rightarrow> string \<Rightarrow> progress \<Rightarrow> handler" where
  "settle cfg now part (Ask c m) s = (set_queue part (c # tl (queue_of s part)) s, [Save_call (cx_id c) m])"
| "settle cfg now part (Sleep c delay) s = (set_queue part (c # tl (queue_of s part)) s, [Save_timer (cx_id c) delay])"
| "settle cfg now part (Done c r) s =
     (case operation_finished (set_queue part (tl (queue_of s part)) s) of (s', drained) \<Rightarrow>
        (case tl (queue_of s part) of
           [] \<Rightarrow> (s', Save_reply (cx_id c) r # drained)
         | next # _ \<Rightarrow>
             (case settle cfg (later 1 now) part (start_save (st_save cfg) (now 0) (transaction_key cfg s') next) (count_key s') of (s'', fx) \<Rightarrow>
                (s'', Save_reply (cx_id c) r # drained @ fx))))"
  by pat_completeness auto

termination
proof (relation "measure (\<lambda>(cfg, now, part, p, s). length (queue_of s part))")
  fix cfg :: store_config and now :: clock and part :: string and c :: save_context and r :: save_result and s s' :: store_actor and drained "next" rest
  assume "(s', drained) = operation_finished (set_queue part (tl (queue_of s part)) s)" "tl (queue_of s part) = next # rest"
  then have "queue_of s' part = next # rest" using notify_queue(2) [of "set_queue part (tl (queue_of s part)) s" part] by (metis fst_conv queue_of_set)
  then show "((cfg, later 1 now, part, start_save (st_save cfg) (now 0) (transaction_key cfg s') next, count_key s'), cfg, now, part, Done c r, s)
    \<in> measure (\<lambda>(cfg, now, part, p, s). length (queue_of s part))" using \<open>tl (queue_of s part) = next # rest\<close> by (cases "queue_of s part") auto
qed simp

text \<open>The schemas of the changes, after every statement was built once.\<close>

fun plan_changes :: "save_config \<Rightarrow> schema_catalog \<Rightarrow> entity_patch list \<Rightarrow> string + entity_schema list" where
  "plan_changes cfg catalog [] = Inr []"
| "plan_changes cfg catalog (change # rest) =
     (case find_entity catalog (er_store (ep_target change)) (er_entity (ep_target change)) of
        None \<Rightarrow> Inl (''unknown entity: '' @ er_entity (ep_target change))
      | Some schema \<Rightarrow>
          (case (if ep_operation change = Insert then build_insert (cf_real_out cfg) (cf_dialect cfg) schema change
                 else if ep_operation change = Delete_entity then build_delete (cf_real_out cfg) (cf_dialect cfg) schema change
                 else build_update (cf_real_out cfg) (cf_dialect cfg) schema change) of
             Inl error \<Rightarrow> Inl error
           | Inr _ \<Rightarrow>
               (case (if ep_create_if_missing change then build_insert (cf_real_out cfg) (cf_dialect cfg) schema change else Inr empty_statement) of
                  Inl error \<Rightarrow> Inl error
                | Inr _ \<Rightarrow> (case plan_changes cfg catalog rest of Inl error \<Rightarrow> Inl error | Inr schemas \<Rightarrow> Inr (schema # schemas)))))"

definition partition_key :: "store_schema \<Rightarrow> save_request \<Rightarrow> string" where
  "partition_key store request = ss_name store @ [CHR 0x0A] @ er_partition (ep_target (hd (sr_changes request)))"

definition new_save :: "store_config \<Rightarrow> nat \<Rightarrow> save_request \<Rightarrow> store_schema \<Rightarrow> entity_schema list \<Rightarrow> nat \<Rightarrow> save_context" where
  "new_save cfg i request store schemas deadline =
     \<lparr>cx_id = i, cx_request = request, cx_store = store, cx_schemas = schemas, cx_signature = request_signature (cf_real_out (st_save cfg)) request, cx_versions = [],
      cx_deadline = deadline, cx_transaction = 0, cx_key = [], cx_begin_sent = False, cx_change_index = 0, cx_attempt = 0, cx_retry_requested = False,
      cx_commit_uncertain = False, cx_stage = Sleeping\<rparr>"

definition save_ready :: "store_config \<Rightarrow> clock \<Rightarrow> registry \<Rightarrow> nat \<Rightarrow> save_request \<Rightarrow> nat \<Rightarrow> handler" where
  "save_ready cfg now up i request deadline s =
     (let refuse = (\<lambda>code error. (s, [Save_reply i (save_error request code error)]))
      in if sa_config_error s \<noteq> [] then refuse Invalid_request (sa_config_error s)
         else if now 0 \<ge> deadline then refuse Unavailable ''save deadline expired while awaiting schema''
         else if validate_save request \<noteq> [] then refuse Invalid_request (validate_save request)
         else if length (sr_request_id request) > 255 then refuse Invalid_request ''request_id exceeds 255 bytes''
         else case find_store (sa_catalog s) (er_store (ep_target (hd (sr_changes request)))) of
           None \<Rightarrow> refuse Invalid_request ''unknown entity store''
         | Some store \<Rightarrow>
             (case plan_changes (st_save cfg) (sa_catalog s) (sr_changes request) of
                Inl error \<Rightarrow> refuse Invalid_request error
              | Inr schemas \<Rightarrow>
                  if \<not> up 0 (ss_write_service store) then refuse Unavailable (''write service unavailable: '' @ ss_write_service store)
                  else let c = new_save cfg i request store schemas deadline; part = partition_key store request; q = queue_of s part;
                           s = (set_queue part (q @ [c]) s)\<lparr>sa_in_flight := sa_in_flight s + 1\<rparr>
                       in if q = [] then settle cfg (later 2 now) part (start_save (st_save cfg) (now 1) (transaction_key cfg s) c) (count_key s) else (s, [])))"

section \<open>Loads\<close>

definition load_error :: "entity_ref \<Rightarrow> result_code \<Rightarrow> string \<Rightarrow> load_result" where
  "load_error target code error = \<lparr>ld_code = code, ld_error = error, ld_target = target, ld_fields = [], ld_version = 0\<rparr>"

definition end_load :: "nat \<Rightarrow> load_result \<Rightarrow> handler" where
  "end_load i result s = (case operation_finished (s\<lparr>sa_loads := AList.delete i (sa_loads s)\<rparr>) of (s, fx) \<Rightarrow> (s, Load_reply i result # fx))"

definition retry_load :: "store_config \<Rightarrow> nat \<Rightarrow> nat \<Rightarrow> string \<Rightarrow> bool \<Rightarrow> load_context \<Rightarrow> handler" where
  "retry_load cfg now i error retryable c s =
     (let delay = retry_delay (st_save cfg) (lc_attempt c)
      in if retryable \<and> lc_attempt c < st_load_retry_attempts cfg \<and> now + millis (st_save cfg) delay < lc_deadline c
         then (s\<lparr>sa_loads := AList.update i (c\<lparr>lc_sleeping := True\<rparr>) (sa_loads s)\<rparr>, [Load_timer i delay])
         else end_load i (load_error (lr_target (lc_request c)) Unavailable error) s)"

definition start_load :: "store_config \<Rightarrow> clock \<Rightarrow> registry \<Rightarrow> nat \<Rightarrow> load_context \<Rightarrow> handler" where
  "start_load cfg now up i c s =
     (let c = c\<lparr>lc_attempt := lc_attempt c + 1, lc_sleeping := False\<rparr>
      in if \<not> up 0 (ss_read_service (lc_store c)) \<or> time_left cfg (lc_deadline c) (now 0) = 0 then retry_load cfg (now 1) i ''read service unavailable or deadline expired'' True c s
         else (s\<lparr>sa_loads := AList.update i c (sa_loads s)\<rparr>,
               [Load_call i (Statement (ss_read_connection (lc_store c)) Query (st_text (lc_statement c)) (st_params (lc_statement c)))]))"

fun decode_fields :: "(string \<Rightarrow> u64 option) \<Rightarrow> db_result \<Rightarrow> nat \<Rightarrow> string list \<Rightarrow> field_schema list \<Rightarrow> string + named_value list" where
  "decode_fields real_in result i row [] = Inr []"
| "decode_fields real_in result i row (field # rest) =
     (case decode_cell real_in (hd row) (db_is_null result 0 i) field of
        Inl error \<Rightarrow> Inl error
      | Inr v \<Rightarrow> (case decode_fields real_in result (i + 1) (tl row) rest of Inl error \<Rightarrow> Inl error | Inr vs \<Rightarrow> Inr (\<lparr>nv_name = fs_name field, nv_data = v\<rparr> # vs)))"

definition loaded :: "store_config \<Rightarrow> load_context \<Rightarrow> db_result \<Rightarrow> load_result" where
  "loaded cfg c result =
     (let target = lr_target (lc_request c); row = hd (db_rows result)
      in if \<not> db_ok result then load_error target Unavailable (db_error result)
         else if db_rows result = [] then load_error target Not_found []
         else if length row \<noteq> length (st_result_fields (lc_statement c)) + 1 then load_error target Internal_error ''entity query returned an unexpected column count''
         else case decode_fields (st_real_in cfg) result 0 row (st_result_fields (lc_statement c)) of
           Inl error \<Rightarrow> load_error target Internal_error error
         | Inr fields' \<Rightarrow>
             (case parse_uint64 (last row) of
                None \<Rightarrow> load_error target Internal_error ''entity version is not an unsigned integer''
              | Some version \<Rightarrow> \<lparr>ld_code = Ok, ld_error = [], ld_target = target, ld_fields = fields', ld_version = version\<rparr>))"

definition on_load_answer :: "store_config \<Rightarrow> nat \<Rightarrow> nat \<Rightarrow> answer \<Rightarrow> load_context \<Rightarrow> handler" where
  "on_load_answer cfg now i a c s =
     (case a of
        Transport_error error \<Rightarrow> retry_load cfg now i error True c s
      | Answered result \<Rightarrow>
          if \<not> db_ok result then retry_load cfg now i (db_error result) (is_connection_error (db_code result)) c s else end_load i (loaded cfg c result) s)"

definition load_ready :: "store_config \<Rightarrow> clock \<Rightarrow> registry \<Rightarrow> nat \<Rightarrow> load_request \<Rightarrow> nat \<Rightarrow> handler" where
  "load_ready cfg now up i request deadline s =
     (let target = lr_target request; refuse = (\<lambda>code error. (s, [Load_reply i (load_error target code error)]))
      in if sa_config_error s \<noteq> [] then refuse Invalid_request (sa_config_error s)
         else if now 0 \<ge> deadline then refuse Unavailable ''load deadline expired while awaiting schema''
         else if validate_load request \<noteq> [] then refuse Invalid_request (validate_load request)
         else case (find_store (sa_catalog s) (er_store target), find_entity (sa_catalog s) (er_store target) (er_entity target)) of
           (Some store, Some schema) \<Rightarrow>
             (case build_load (cf_real_out (st_save cfg)) (cf_dialect (st_save cfg)) schema request of
                Inl error \<Rightarrow> refuse Invalid_request error
              | Inr statement \<Rightarrow>
                  if \<not> up 0 (ss_read_service store) then refuse Unavailable (''read service unavailable: '' @ ss_read_service store)
                  else start_load cfg (later 1 now) (later 1 up) i
                    \<lparr>lc_request = request, lc_statement = statement, lc_store = store, lc_deadline = deadline, lc_attempt = 0, lc_sleeping = False\<rparr>
                    (s\<lparr>sa_in_flight := sa_in_flight s + 1\<rparr>))
         | _ \<Rightarrow> refuse Invalid_request ''unknown entity store or entity'')"

section \<open>Requests\<close>

definition on_load :: "store_config \<Rightarrow> clock \<Rightarrow> registry \<Rightarrow> nat \<Rightarrow> load_request \<Rightarrow> handler" where
  "on_load cfg now up i request s =
     (let deadline = now 0 + millis (st_save cfg) (st_request_timeout cfg)
      in if admission_error cfg s \<noteq> [] then (s, [Load_reply i (load_error (lr_target request) Unavailable (admission_error cfg s))])
         else if sa_schema_loading s then (s\<lparr>sa_schema_waiters := sa_schema_waiters s @ [Wait_load i request deadline]\<rparr>, [])
         else load_ready cfg (later 1 now) (later 1 up) i request deadline s)"

definition on_save :: "store_config \<Rightarrow> clock \<Rightarrow> registry \<Rightarrow> nat \<Rightarrow> save_request \<Rightarrow> handler" where
  "on_save cfg now up i request s =
     (let deadline = now 0 + millis (st_save cfg) (st_request_timeout cfg)
      in if admission_error cfg s \<noteq> [] then (s, [Save_reply i (save_error request Unavailable (admission_error cfg s))])
         else if sa_schema_loading s then (s\<lparr>sa_schema_waiters := sa_schema_waiters s @ [Wait_save i request deadline]\<rparr>, [])
         else save_ready cfg (later 1 now) (later 1 up) i request deadline s)"

text \<open>A waiter reads the clock three times at most.\<close>

definition run_waiter :: "store_config \<Rightarrow> clock \<Rightarrow> registry \<Rightarrow> waiter \<Rightarrow> handler" where
  "run_waiter cfg now up w s =
     (case w of Wait_load i request deadline \<Rightarrow> load_ready cfg now up i request deadline s | Wait_save i request deadline \<Rightarrow> save_ready cfg now up i request deadline s)"

fun run_waiters :: "store_config \<Rightarrow> clock \<Rightarrow> registry \<Rightarrow> waiter list \<Rightarrow> handler" where
  "run_waiters cfg now up [] s = (s, [])"
| "run_waiters cfg now up (w # ws) s =
     (case run_waiter cfg now up w s of (s, fx) \<Rightarrow> (case run_waiters cfg (later 3 now) (later 3 up) ws s of (s, fx') \<Rightarrow> (s, fx @ fx')))"

section \<open>The discovery of schemas\<close>

definition finish_schema :: "store_config \<Rightarrow> clock \<Rightarrow> registry \<Rightarrow> string \<Rightarrow> handler" where
  "finish_schema cfg now up error s =
     (let ws = sa_schema_waiters s;
          s = s\<lparr>sa_schema_loading := False, sa_config_error := (if error = [] then sa_config_error s else error), sa_schema_waiters := []\<rparr>
      in case run_waiters cfg now up ws s of (s, fx) \<Rightarrow> (case notify_drained s of (s, fx') \<Rightarrow> (s, fx @ fx')))"

text \<open>\<open>mutable_entity\<close> and the assignment to what it points to.\<close>

definition set_entity :: "string \<Rightarrow> string \<Rightarrow> entity_schema \<Rightarrow> schema_catalog \<Rightarrow> schema_catalog" where
  "set_entity store entity schema catalog =
     (case find_store catalog store of
        None \<Rightarrow> catalog
      | Some owner \<Rightarrow> catalog\<lparr>sc_stores := AList.update store (owner\<lparr>ss_entities := AList.update entity schema (ss_entities owner)\<rparr>) (sc_stores catalog)\<rparr>)"

definition discover_next_schema :: "store_config \<Rightarrow> clock \<Rightarrow> registry \<Rightarrow> handler" where
  "discover_next_schema cfg now up s =
     (if sa_discovery_index s = length (sa_targets s) then finish_schema cfg (later 1 now) (later 1 up) [] s
      else if time_left cfg (sa_schema_deadline s) (now 0) = 0 then finish_schema cfg (later 1 now) (later 1 up) ''database schema discovery deadline exceeded'' s
      else case sa_targets s ! sa_discovery_index s of (store_name, entity_name) \<Rightarrow>
        (case (find_store (sa_catalog s) store_name, find_entity (sa_catalog s) store_name entity_name) of
           (Some store, Some entity) \<Rightarrow>
             if \<not> up 0 (ss_write_service store) then (s, [Discovery_timer (min (cf_retry_backoff (st_save cfg)) (time_left cfg (sa_schema_deadline s) (now 0)))])
             else (case metadata_query (cf_dialect (st_save cfg)) entity of (sql, params) \<Rightarrow> (s, [Metadata_call (Statement (ss_write_connection store) Query sql params)]))
         | _ \<Rightarrow> (s, [])))"

definition on_metadata :: "store_config \<Rightarrow> clock \<Rightarrow> registry \<Rightarrow> answer \<Rightarrow> handler" where
  "on_metadata cfg now up a s =
     (case a of
        Transport_error error \<Rightarrow> finish_schema cfg (later 1 now) (later 1 up) (''schema discovery failed: '' @ error) s
      | Answered result \<Rightarrow>
          if \<not> db_ok result \<and> is_connection_error (db_code result)
          then if time_left cfg (sa_schema_deadline s) (now 0) = 0 then finish_schema cfg (later 1 now) (later 1 up) ''database schema discovery deadline exceeded'' s
               else (s, [Discovery_timer (min (cf_retry_backoff (st_save cfg)) (time_left cfg (sa_schema_deadline s) (now 0)))])
          else case sa_targets s ! sa_discovery_index s of (store_name, entity_name) \<Rightarrow>
            (case find_entity (sa_catalog s) store_name entity_name of
               None \<Rightarrow> (s, [])
             | Some entity \<Rightarrow>
                 (case apply_metadata (cf_dialect (st_save cfg)) entity result of
                    Inl error \<Rightarrow> finish_schema cfg (later 1 now) (later 1 up) (''schema discovery failed ('' @ store_name @ ''/'' @ entity_name @ ''): '' @ error) s
                  | Inr completed \<Rightarrow>
                      discover_next_schema cfg (later 1 now) (later 1 up)
                        (s\<lparr>sa_catalog := set_entity store_name entity_name completed (sa_catalog s), sa_discovery_index := sa_discovery_index s + 1\<rparr>))))"

definition initialize_schema :: "store_config \<Rightarrow> clock \<Rightarrow> registry \<Rightarrow> handler" where
  "initialize_schema cfg now up s =
     (if sa_config_error s \<noteq> [] then (s, [])
      else let targets = discovery_targets (sa_catalog s); s = s\<lparr>sa_targets := targets\<rparr>
           in if targets = [] then (s, [])
              else discover_next_schema cfg (later 1 now) (later 1 up) (s\<lparr>sa_schema_loading := True, sa_schema_deadline := now 0 + millis (st_save cfg) (st_request_timeout cfg)\<rparr>))"

section \<open>The actor\<close>

text \<open>The answers and timers of a save come to its context, which is the head of the queue of its partition; an event that nothing waits for does nothing.\<close>

datatype event = Load_message nat load_request | Save_message nat save_request | Drain_message nat | Shutdown_hook | Save_answer nat answer | Save_wake nat
  | Load_answer nat answer | Load_wake nat | Metadata_answer answer | Discovery_wake

definition heads :: "nat \<Rightarrow> string \<times> save_context list \<Rightarrow> bool" where
  "heads i entry \<longleftrightarrow> (case snd entry of [] \<Rightarrow> False | c # _ \<Rightarrow> cx_id c = i)"

definition at_head :: "nat \<Rightarrow> store_actor \<Rightarrow> (string \<times> save_context) option" where
  "at_head i s = map_option (\<lambda>(part, q). (part, hd q)) (find (heads i) (sa_queues s))"

definition on_save_answer :: "store_config \<Rightarrow> clock \<Rightarrow> nat \<Rightarrow> answer \<Rightarrow> handler" where
  "on_save_answer cfg now i a s =
     (case at_head i s of
        None \<Rightarrow> (s, [])
      | Some (part, c) \<Rightarrow> if cx_stage c = Sleeping then (s, []) else settle cfg (later 1 now) part (advance (st_save cfg) (now 0) a c) s)"

definition on_save_wake :: "store_config \<Rightarrow> clock \<Rightarrow> registry \<Rightarrow> nat \<Rightarrow> handler" where
  "on_save_wake cfg now up i s =
     (case at_head i s of
        None \<Rightarrow> (s, [])
      | Some (part, c) \<Rightarrow>
          if cx_stage c \<noteq> Sleeping then (s, [])
          else settle cfg (later 1 now) part (wake (st_save cfg) (now 0) (up 0 (ss_write_service (cx_store c))) (transaction_key cfg s) c)
            (if up 0 (ss_write_service (cx_store c)) then count_key s else s))"

definition on_event :: "store_config \<Rightarrow> clock \<Rightarrow> registry \<Rightarrow> event \<Rightarrow> handler" where
  "on_event cfg now up e s =
     (case e of
        Load_message i request \<Rightarrow> on_load cfg now up i request s
      | Save_message i request \<Rightarrow> on_save cfg now up i request s
      | Drain_message coordinator \<Rightarrow> drain coordinator s
      | Shutdown_hook \<Rightarrow> (s\<lparr>sa_draining := True\<rparr>, [])
      | Save_answer i a \<Rightarrow> on_save_answer cfg now i a s
      | Save_wake i \<Rightarrow> on_save_wake cfg now up i s
      | Load_answer i a \<Rightarrow> (case map_of (sa_loads s) i of None \<Rightarrow> (s, []) | Some c \<Rightarrow> if lc_sleeping c then (s, []) else on_load_answer cfg (now 0) i a c s)
      | Load_wake i \<Rightarrow> (case map_of (sa_loads s) i of None \<Rightarrow> (s, []) | Some c \<Rightarrow> if lc_sleeping c then start_load cfg now up i c s else (s, []))
      | Metadata_answer a \<Rightarrow> if sa_schema_loading s then on_metadata cfg now up a s else (s, [])
      | Discovery_wake \<Rightarrow> if sa_schema_loading s then discover_next_schema cfg now up s else (s, []))"

definition on_exit :: "store_config \<Rightarrow> clock \<Rightarrow> registry \<Rightarrow> handler" where
  "on_exit cfg now up s =
     (let ws = sa_schema_waiters s;
          s = s\<lparr>sa_draining := True, sa_config_error := ''entity store exited before request completed'', sa_schema_loading := False, sa_schema_waiters := []\<rparr>
      in case run_waiters cfg now up ws s of (s, fx) \<Rightarrow>
        (s\<lparr>sa_queues := [], sa_drain_waiters := []\<rparr>,
         fx @ map (\<lambda>c. Save_reply (cx_id c) (save_error (cx_request c) (if cx_begin_sent c then Commit_unknown else Unavailable)
           ''entity store exited; retry with the same request_id'')) (concat (map snd (sa_queues s)))))"

text \<open>Every request has a promise of its own: a save that arrives has a number that no save had before, a load one that no load in the actor has.\<close>

definition waiting_loads :: "waiter list \<Rightarrow> nat list" where
  "waiting_loads ws = concat (map (\<lambda>w. case w of Wait_load i _ _ \<Rightarrow> [i] | _ \<Rightarrow> []) ws)"

definition load_ids :: "store_actor \<Rightarrow> nat list" where
  "load_ids s = map fst (sa_loads s) @ waiting_loads (sa_schema_waiters s)"

definition arrived :: "event \<Rightarrow> nat multiset" where
  "arrived e = (case e of Save_message i _ \<Rightarrow> {#i#} | _ \<Rightarrow> {#})"

definition requested :: "event list \<Rightarrow> nat multiset" where
  "requested es = sum_list (map arrived es)"

definition new_request :: "event list \<Rightarrow> event \<Rightarrow> store_actor \<Rightarrow> bool" where
  "new_request es e s \<longleftrightarrow> (case e of Load_message i _ \<Rightarrow> i \<notin> set (load_ids s) | Save_message i _ \<Rightarrow> i \<notin># requested es | _ \<Rightarrow> True)"

inductive store_run :: "store_config \<Rightarrow> event list \<Rightarrow> effect list \<Rightarrow> store_actor \<Rightarrow> bool" for cfg where
  Boot: "initialize_schema cfg now up (new_store catalog config_error) = (s, fx) \<Longrightarrow> store_run cfg [] fx s"
| Event: "store_run cfg es fx s \<Longrightarrow> new_request es e s \<Longrightarrow> on_event cfg now up e s = (s', fx') \<Longrightarrow> store_run cfg (es @ [e]) (fx @ fx') s'"

text \<open>What a run sends and receives for one save, in order.\<close>

fun calls :: "nat \<Rightarrow> effect list \<Rightarrow> message list" where
  "calls i [] = []"
| "calls i (Save_call j m # fx) = (if j = i then m # calls i fx else calls i fx)"
| "calls i (_ # fx) = calls i fx"

fun answers :: "nat \<Rightarrow> event list \<Rightarrow> answer list" where
  "answers i [] = []"
| "answers i (Save_answer j a # es) = (if j = i then a # answers i es else answers i es)"
| "answers i (_ # es) = answers i es"

section \<open>The invariant\<close>

primrec progress_context :: "progress \<Rightarrow> save_context" where
  "progress_context (Ask c m) = c"
| "progress_context (Sleep c delay) = c"
| "progress_context (Done c r) = c"

text \<open>A save that is under way, in the sense of the theory \<open>Sql_Save\<close>.\<close>

definition under_way :: "save_config \<Rightarrow> nat \<Rightarrow> progress \<Rightarrow> bool" where
  "under_way cfg i p \<longleftrightarrow> (\<exists>c0 past h. cx_id c0 = i \<and> save_run cfg c0 past h p)"

definition active :: "save_config \<Rightarrow> save_context \<Rightarrow> bool" where
  "active cfg c \<longleftrightarrow> (\<exists>m. under_way cfg (cx_id c) (Ask c m)) \<or> (\<exists>delay. under_way cfg (cx_id c) (Sleep c delay))"

definition queue_ok :: "save_config \<Rightarrow> save_context list \<Rightarrow> bool" where
  "queue_ok cfg q \<longleftrightarrow> (\<exists>c rest. q = c # rest \<and> active cfg c \<and> (\<forall>d \<in> set rest. cx_attempt d = 0))"

definition queued :: "store_actor \<Rightarrow> save_context list" where
  "queued s = concat (map snd (sa_queues s))"

definition waiting_saves :: "waiter list \<Rightarrow> nat multiset" where
  "waiting_saves ws = sum_list (map (\<lambda>w. case w of Wait_save i _ _ \<Rightarrow> {#i#} | _ \<Rightarrow> {#}) ws)"

text \<open>The saves that have no answer yet.\<close>

definition pending_saves :: "store_actor \<Rightarrow> nat multiset" where
  "pending_saves s = image_mset cx_id (mset (queued s)) + waiting_saves (sa_schema_waiters s)"

definition idle :: "store_actor \<Rightarrow> bool" where
  "idle s \<longleftrightarrow> sa_queues s = [] \<and> sa_loads s = [] \<and> \<not> sa_schema_loading s"

text \<open>The tables agree; the invariant without the saves at work.\<close>

definition base_ok :: "store_actor \<Rightarrow> bool" where
  "base_ok s \<longleftrightarrow> keys_distinct (sa_queues s) \<and> distinct (load_ids s) \<and> sa_in_flight s = length (queued s) + length (sa_loads s) \<and>
     (sa_schema_waiters s \<noteq> [] \<longrightarrow> sa_schema_loading s)"

definition core_ok :: "store_config \<Rightarrow> store_actor \<Rightarrow> bool" where
  "core_ok cfg s \<longleftrightarrow> base_ok s \<and> (\<forall>(part, q) \<in> set (sa_queues s). queue_ok (st_save cfg) q)"

text \<open>Someone waits for the end of draining only while the actor is busy.\<close>

definition drain_ok :: "store_actor \<Rightarrow> bool" where
  "drain_ok s \<longleftrightarrow> (sa_drain_waiters s \<noteq> [] \<longrightarrow> sa_draining s \<and> (sa_in_flight s \<noteq> 0 \<or> sa_schema_loading s))"

definition store_ok :: "store_config \<Rightarrow> store_actor \<Rightarrow> bool" where
  "store_ok cfg s \<longleftrightarrow> core_ok cfg s \<and> drain_ok s"

text \<open>The answer to a save: the result of its run, or a refusal.\<close>

definition reply_ok :: "save_config \<Rightarrow> nat \<Rightarrow> save_result \<Rightarrow> bool" where
  "reply_ok cfg i r \<longleftrightarrow> (\<exists>c. under_way cfg i (Done c r)) \<or> sv_code r \<noteq> Ok \<and> \<not> sv_committed r"

definition save_replies :: "effect list \<Rightarrow> nat multiset" where
  "save_replies fx = sum_list (map (\<lambda>e. case e of Save_reply i _ \<Rightarrow> {#i#} | _ \<Rightarrow> {#}) fx)"

definition effects_ok :: "save_config \<Rightarrow> effect list \<Rightarrow> bool" where
  "effects_ok cfg fx \<longleftrightarrow> (\<forall>i r. Save_reply i r \<in> set fx \<longrightarrow> reply_ok cfg i r)"

text \<open>What a handler achieves that takes the saves \<open>new\<close>.\<close>

definition handled :: "store_config \<Rightarrow> nat multiset \<Rightarrow> store_actor \<Rightarrow> store_actor \<times> effect list \<Rightarrow> bool" where
  "handled cfg new s res \<longleftrightarrow> (case res of (s', fx) \<Rightarrow> store_ok cfg s' \<and> save_replies fx + pending_saves s' = pending_saves s + new \<and> effects_ok (st_save cfg) fx \<and>
     ((\<exists>a. Drained a \<in> set fx) \<longrightarrow> idle s' \<and> sa_draining s'))"

text \<open>The same of a handler that may end the discovery and run the requests that waited for it.\<close>

definition kept :: "store_config \<Rightarrow> nat multiset \<Rightarrow> store_actor \<Rightarrow> store_actor \<times> effect list \<Rightarrow> bool" where
  "kept cfg new s res \<longleftrightarrow> (case res of (s', fx) \<Rightarrow> store_ok cfg s' \<and> save_replies fx + pending_saves s' = pending_saves s + new \<and> effects_ok (st_save cfg) fx \<and>
     (sa_schema_loading s' \<longrightarrow> (\<forall>a. Drained a \<notin> set fx)))"

lemma handled_kept: "handled cfg new s res \<Longrightarrow> kept cfg new s res"
  by (auto simp: handled_def kept_def idle_def)

lemma save_replies_simps [simp]:
  "save_replies [] = {#}" "save_replies (e # fx) = (case e of Save_reply i _ \<Rightarrow> {#i#} | _ \<Rightarrow> {#}) + save_replies fx" "save_replies (fx @ fx') = save_replies fx + save_replies fx'"
  "save_replies (map Drained as) = {#}"
  by (simp_all add: save_replies_def o_def)

lemma effects_ok_simps [simp]:
  "effects_ok cfg []" "effects_ok cfg (e # fx) \<longleftrightarrow> (case e of Save_reply i r \<Rightarrow> reply_ok cfg i r | _ \<Rightarrow> True) \<and> effects_ok cfg fx"
  "effects_ok cfg (fx @ fx') \<longleftrightarrow> effects_ok cfg fx \<and> effects_ok cfg fx'" "effects_ok cfg (map Drained as)"
  by (auto simp: effects_ok_def split: effect.splits)

lemma waiting_saves_simps [simp]:
  "waiting_saves [] = {#}" "waiting_saves (w # ws) = (case w of Wait_save i _ _ \<Rightarrow> {#i#} | _ \<Rightarrow> {#}) + waiting_saves ws" "waiting_saves (ws @ ws') = waiting_saves ws + waiting_saves ws'"
  by (simp_all add: waiting_saves_def)

lemma reply_ok_error: "code \<noteq> Ok \<Longrightarrow> reply_ok cfg i (save_error request code error)"
  by (simp add: reply_ok_def save_error_def)

section \<open>Queues\<close>

lemma alist_update_values:
  "keys_distinct m \<Longrightarrow> mset (concat (map snd (AList.update k v m))) + mset (case map_of m k of None \<Rightarrow> [] | Some q \<Rightarrow> q) = mset (concat (map snd m)) + mset v"
proof (induction m)
  case (Cons x m)
  obtain k' v' where x: "x = (k', v')" by (cases x)
  have "k' = k \<Longrightarrow> map_of m k = None" using Cons.prems x by (auto simp: map_of_eq_None_iff)
  then show ?case using Cons x by auto
qed simp

lemma alist_delete_values:
  "keys_distinct m \<Longrightarrow> mset (concat (map snd (AList.delete k m))) + mset (case map_of m k of None \<Rightarrow> [] | Some q \<Rightarrow> q) = mset (concat (map snd m))"
proof (induction m)
  case (Cons x m)
  obtain k' v' where x: "x = (k', v')" by (cases x)
  then have "k' = k \<Longrightarrow> AList.delete k m = m" "k' = k \<Longrightarrow> map_of m k = None" using Cons.prems by (auto simp: delete_idem map_of_eq_None_iff)
  then show ?case using Cons x by auto
qed simp

lemma queued_set_queue: "keys_distinct (sa_queues s) \<Longrightarrow> mset (queued (set_queue part q s)) + mset (queue_of s part) = mset (queued s) + mset q"
  using alist_update_values [of "sa_queues s" part q] alist_delete_values [of "sa_queues s" part] by (auto simp: queued_def set_queue_def queue_of_def)

lemma set_queue_distinct: "keys_distinct (sa_queues s) \<Longrightarrow> keys_distinct (sa_queues (set_queue part q s))"
  by (simp add: set_queue_def distinct_delete)

lemma set_queue_fields [simp]:
  "sa_loads (set_queue part q s) = sa_loads s" "sa_schema_waiters (set_queue part q s) = sa_schema_waiters s" "sa_in_flight (set_queue part q s) = sa_in_flight s"
  "sa_drain_waiters (set_queue part q s) = sa_drain_waiters s" "sa_draining (set_queue part q s) = sa_draining s" "sa_schema_loading (set_queue part q s) = sa_schema_loading s"
  "load_ids (set_queue part q s) = load_ids s"
  by (simp_all add: set_queue_def load_ids_def)

lemma queues_in: "keys_distinct (sa_queues s) \<Longrightarrow> (part, q) \<in> set (sa_queues s) \<longleftrightarrow> map_of (sa_queues s) part = Some q"
  by (metis map_of_eq_Some_iff)

lemma set_queue_ok:
  assumes "keys_distinct (sa_queues s)" "\<forall>(p, q) \<in> set (sa_queues s). queue_ok cfg q" "q \<noteq> [] \<Longrightarrow> queue_ok cfg q"
  shows "\<forall>(p, q) \<in> set (sa_queues (set_queue part q s)). queue_ok cfg q"
proof -
  have "queue_ok cfg q'" if x: "(p, q') \<in> set (sa_queues (set_queue part q s))" for p q'
  proof -
    have "map_of (sa_queues (set_queue part q s)) p = Some q'" using x queues_in [OF set_queue_distinct [OF assms(1)]] by blast
    then have "p = part \<and> q' = q \<and> q \<noteq> [] \<or> map_of (sa_queues s) p = Some q'" by (auto simp: set_queue_def delete_conv split: if_splits)
    then show ?thesis using assms(2, 3) queues_in [OF assms(1), of p q'] by auto
  qed
  then show ?thesis by blast
qed

lemma queue_of_ok:
  assumes "core_ok cfg s" "queue_of s part = c # rest"
  shows "queue_ok (st_save cfg) (c # rest)"
proof -
  have "(part, c # rest) \<in> set (sa_queues s)" using assms(2) by (auto simp: queue_of_def map_of_SomeD split: option.splits)
  then show ?thesis using assms(1) unfolding core_ok_def by blast
qed

lemma queues_empty:
  assumes "core_ok cfg s"
  shows "sa_queues s = [] \<longleftrightarrow> queued s = []"
proof (cases "sa_queues s")
  case (Cons x xs)
  then have "queue_ok (st_save cfg) (snd x)" using assms unfolding core_ok_def by (cases x) auto
  then show ?thesis using Cons by (auto simp: queued_def queue_ok_def)
qed (simp add: queued_def)

section \<open>Saves under way\<close>

definition sleeps :: "progress \<Rightarrow> bool" where
  "sleeps p \<longleftrightarrow> (case p of Sleep c _ \<Rightarrow> cx_stage c = Sleeping | _ \<Rightarrow> True)"

lemma sleeps_basic [simp]: "sleeps (Ask c m)" "sleeps (Done c r)" "sleeps (retry_or_finish cfg now c r)"
  by (simp_all add: sleeps_def retry_or_finish_def Let_def)

lemma sleeps_failure [simp]: "sleeps (rollback cfg now code e c)" "sleeps (rollback_replay result c)" "sleeps (fail_database cfg now r code e c)" "sleeps (fail_transport cfg now e code c)"
  by (simp_all add: rollback_def rollback_replay_def fail_database_def fail_transport_def Let_def)

lemma sleeps_steps [simp]: "sleeps (start_save cfg now key c)" "sleeps (begin_save cfg now c)" "sleeps (reserve_id cfg now c)" "sleeps (replay_request cfg c)"
  "sleeps (insert_change cfg now c)" "sleeps (load_change_version cfg now c)" "sleeps (store_result cfg c)" "sleeps (commit_save cfg now c)"
  by (simp_all add: start_save_def begin_save_def reserve_id_def replay_request_def insert_change_def load_change_version_def store_result_def commit_save_def Let_def split: sum.splits)

lemma sleeps_change [simp]: "sleeps (apply_next_change cfg now c)" "sleeps (next_change cfg now v c)"
  by (simp_all add: apply_next_change_def next_change_def split: sum.splits)

lemma sleeps_answers [simp]:
  "sleeps (on_table cfg now r c)" "sleeps (on_begin cfg now r c)" "sleeps (on_reserve cfg now r c)" "sleeps (on_record cfg now r c)" "sleeps (on_change cfg now r c)"
  "sleeps (on_exists cfg now r c)" "sleeps (on_insert cfg now r c)" "sleeps (on_version cfg now r c)" "sleeps (on_result cfg now r c)" "sleeps (on_commit cfg now r c)"
  by (simp_all add: on_table_def on_begin_def on_reserve_def on_record_def on_change_def on_exists_def on_insert_def on_version_def on_result_def on_commit_def Let_def
      split: option.splits sum.splits)

lemma sleeps_advance [simp]: "sleeps (advance cfg now a c)"
  by (cases "cx_stage c"; cases a) (simp_all add: advance_def)

lemma sleeps_wake [simp]: "sleeps (wake cfg now up key c)"
  by (simp add: wake_def)

lemma run_sleeping: "save_run cfg c0 past h (Sleep c delay) \<Longrightarrow> cx_stage c = Sleeping"
proof -
  have "save_run cfg c0 past h p \<Longrightarrow> sleeps p" for p by (induction rule: save_run.induct) auto
  then show "save_run cfg c0 past h (Sleep c delay) \<Longrightarrow> cx_stage c = Sleeping" by (fastforce simp: sleeps_def)
qed

lemma run_awake: "save_run cfg c0 past h (Ask c m) \<Longrightarrow> cx_stage c \<noteq> Sleeping"
  using save_run_inv [of cfg c0 past h "Ask c m"] by (auto simp: save_inv_def waits_def Let_def)

lemma under_way_id: "under_way cfg i p \<Longrightarrow> cx_id (progress_context p) = i"
  unfolding under_way_def using save_run_inv by (cases p) (fastforce simp: save_inv_def same_save_def)+

lemma under_way_start: "under_way cfg (cx_id c) (start_save cfg now key c)"
  unfolding under_way_def using save_run.Start by blast

lemma under_way_answer: "active cfg c \<Longrightarrow> cx_stage c \<noteq> Sleeping \<Longrightarrow> under_way cfg (cx_id c) (advance cfg now a c)"
  unfolding active_def under_way_def using run_sleeping save_run.Answer by blast

lemma under_way_wake:
  assumes "active cfg c" "cx_stage c = Sleeping"
  shows "under_way cfg (cx_id c) (wake cfg now up key c)"
proof -
  obtain c0 past h delay where r: "cx_id c0 = cx_id c" "save_run cfg c0 past h (Sleep c delay)" using assms run_awake unfolding active_def under_way_def by blast
  show ?thesis unfolding under_way_def using r(1) save_run.Wake_up [OF r(2), of now key] save_run.Wake_down [OF r(2), of now key] by (cases up) auto
qed

section \<open>The queue of a partition\<close>

text \<open>Every queue but that of one partition is in order.\<close>

definition others_ok :: "save_config \<Rightarrow> string \<Rightarrow> store_actor \<Rightarrow> bool" where
  "others_ok cfg part s \<longleftrightarrow> (\<forall>(p, q) \<in> set (sa_queues s). p \<noteq> part \<longrightarrow> queue_ok cfg q)"

lemma core_okD:
  assumes "core_ok cfg s"
  shows "base_ok s" "others_ok (st_save cfg) part s"
  using assms by (auto simp: core_ok_def others_ok_def)

lemma core_okI:
  assumes "base_ok s" "others_ok (st_save cfg) part s" "queue_of s part \<noteq> [] \<Longrightarrow> queue_ok (st_save cfg) (queue_of s part)" "map_of (sa_queues s) part \<noteq> Some []"
  shows "core_ok cfg s"
proof -
  have "queue_ok (st_save cfg) q" if "(p, q) \<in> set (sa_queues s)" for p q
  proof (cases "p = part")
    case True
    then have "map_of (sa_queues s) part = Some q" using that assms(1) queues_in [of s part q] by (simp add: base_ok_def)
    then show ?thesis using assms(3, 4) by (cases q) (auto simp: queue_of_def)
  next
    case False
    then show ?thesis using that assms(2) by (auto simp: others_ok_def)
  qed
  then show ?thesis using assms(1) unfolding core_ok_def by blast
qed

lemma others_set_queue: "keys_distinct (sa_queues s) \<Longrightarrow> others_ok cfg part s \<Longrightarrow> others_ok cfg part (set_queue part q s)"
proof -
  assume d: "keys_distinct (sa_queues s)" and o: "others_ok cfg part s"
  have "queue_ok cfg q'" if "(p, q') \<in> set (sa_queues (set_queue part q s))" "p \<noteq> part" for p q'
  proof -
    have "map_of (sa_queues (set_queue part q s)) p = Some q'" using that queues_in [OF set_queue_distinct [OF d]] by blast
    then have "map_of (sa_queues s) p = Some q'" using that(2) by (auto simp: set_queue_def delete_conv split: if_splits)
    then show ?thesis using o that(2) queues_in [OF d, of p q'] by (auto simp: others_ok_def)
  qed
  then show ?thesis by (auto simp: others_ok_def)
qed

lemma set_queue_nonempty: "map_of (sa_queues (set_queue part q s)) part \<noteq> Some []"
  by (auto simp: set_queue_def delete_conv)

lemma queue_change:
  assumes "base_ok s" "queue_of s part = c0 # rest" "cx_id c = cx_id c0"
  shows "base_ok (set_queue part (c # rest) s)" "pending_saves (set_queue part (c # rest) s) = pending_saves s"
proof -
  have m: "mset (queued (set_queue part (c # rest) s)) + mset (c0 # rest) = mset (queued s) + mset (c # rest)"
    using queued_set_queue [of s part "c # rest"] assms(1, 2) by (simp add: base_ok_def)
  then have "add_mset c0 (mset (queued (set_queue part (c # rest) s))) = add_mset c (mset (queued s))" by simp
  from arg_cong [OF this, of "image_mset cx_id"] have i: "image_mset cx_id (mset (queued (set_queue part (c # rest) s))) = image_mset cx_id (mset (queued s))" by (simp add: assms(3))
  from arg_cong [OF i, of size] have "length (queued (set_queue part (c # rest) s)) = length (queued s)" by simp
  then show "base_ok (set_queue part (c # rest) s)" using assms(1) set_queue_distinct by (auto simp: base_ok_def)
  show "pending_saves (set_queue part (c # rest) s) = pending_saves s" using i by (simp add: pending_saves_def)
qed

lemma progress_handled:
  assumes "base_ok s" "others_ok (st_save cfg) part s" "queue_of s part = c0 # rest" "\<forall>d \<in> set rest. cx_attempt d = 0" "active (st_save cfg) c" "cx_id c = cx_id c0"
    "\<And>i r. Save_reply i r \<notin> set fx" "\<And>a. Drained a \<notin> set fx" "drain_ok s"
  shows "handled cfg {#} s (set_queue part (c # rest) s, fx)"
proof -
  note q = queue_change [OF assms(1, 3, 6)]
  have d: "keys_distinct (sa_queues s)" using assms(1) by (simp add: base_ok_def)
  have "core_ok cfg (set_queue part (c # rest) s)"
    by (rule core_okI [OF q(1) others_set_queue [OF d assms(2)]]) (use assms(4, 5) set_queue_nonempty in \<open>auto simp: queue_ok_def\<close>)
  then have "store_ok cfg (set_queue part (c # rest) s)" using assms(9) by (simp add: store_ok_def drain_ok_def)
  moreover have "save_replies fx = {#}" using assms(7) by (induction fx) (auto split: effect.splits)
  moreover have "effects_ok (st_save cfg) fx" using assms(7) by (auto simp: effects_ok_def)
  ultimately show ?thesis using q(2) assms(8) by (auto simp: handled_def)
qed

text \<open>The head of a queue leaves.\<close>

lemma pop_ok:
  assumes "base_ok s" "others_ok (st_save cfg) part s" "queue_of s part = c0 # rest" "operation_finished (set_queue part rest s) = (s', fx)" "drain_ok s"
  shows "base_ok s'" "others_ok (st_save cfg) part s'" "queue_of s' part = rest" "map_of (sa_queues s') part \<noteq> Some []" "{#cx_id c0#} + pending_saves s' = pending_saves s"
    "\<exists>as. fx = map Drained as" "fx \<noteq> [] \<Longrightarrow> queued s' = [] \<and> sa_loads s' = [] \<and> \<not> sa_schema_loading s' \<and> sa_draining s'" "drain_ok s'"
proof -
  have d: "keys_distinct (sa_queues s)" using assms(1) by (simp add: base_ok_def)
  let ?s = "set_queue part rest s"
  have "mset (queued ?s) + mset (c0 # rest) = mset (queued s) + mset rest" using queued_set_queue [OF d, of part rest] assms(3) by simp
  then have m: "mset (queued s) = add_mset c0 (mset (queued ?s))" by simp
  from arg_cong [OF this, of size] have l: "length (queued s) = Suc (length (queued ?s))" by simp
  obtain ws where n: "s' = ?s\<lparr>sa_in_flight := sa_in_flight s - 1, sa_drain_waiters := ws\<rparr>" "\<exists>as. fx = map Drained as"
    "fx \<noteq> [] \<Longrightarrow> sa_draining s \<and> sa_in_flight s - 1 = 0 \<and> \<not> sa_schema_loading s"
    "ws \<noteq> [] \<Longrightarrow> sa_drain_waiters s \<noteq> [] \<and> (sa_in_flight s - 1 \<noteq> 0 \<or> sa_schema_loading s)"
  proof (cases "sa_draining s \<and> sa_in_flight s - 1 = 0 \<and> \<not> sa_schema_loading s")
    case True
    then show ?thesis using assms(4) that [of "[]"] by (auto simp: operation_finished_def notify_drained_def)
  next
    case False
    then have "s' = ?s\<lparr>sa_in_flight := sa_in_flight s - 1\<rparr>" "fx = []" using assms(4) by (auto simp: operation_finished_def notify_drained_def)
    moreover have "sa_drain_waiters s \<noteq> [] \<Longrightarrow> sa_in_flight s - 1 \<noteq> 0 \<or> sa_schema_loading s" using False assms(5) by (auto simp: drain_ok_def)
    ultimately show ?thesis using that [of "sa_drain_waiters s"] by simp
  qed
  have f: "sa_queues s' = sa_queues ?s" "queued s' = queued ?s" "sa_loads s' = sa_loads s" "load_ids s' = load_ids s" "sa_schema_waiters s' = sa_schema_waiters s"
    "sa_schema_loading s' = sa_schema_loading s" "sa_draining s' = sa_draining s" "sa_in_flight s' = sa_in_flight s - 1" "sa_drain_waiters s' = ws"
    by (simp_all add: n(1) queued_def load_ids_def)
  show "drain_ok s'" using n(4) assms(5) by (auto simp: f drain_ok_def)
  show "base_ok s'" using assms(1) f l set_queue_distinct [OF d, of part rest] by (auto simp: base_ok_def)
  show "others_ok (st_save cfg) part s'" using others_set_queue [OF d assms(2)] by (simp add: others_ok_def f)
  show "queue_of s' part = rest" using queue_of_set [of part rest s part] by (simp add: queue_of_def f)
  show "map_of (sa_queues s') part \<noteq> Some []" using set_queue_nonempty by (simp add: f)
  show "{#cx_id c0#} + pending_saves s' = pending_saves s" using m by (simp add: pending_saves_def f)
  show "\<exists>as. fx = map Drained as" by (rule n(2))
  show "fx \<noteq> [] \<Longrightarrow> queued s' = [] \<and> sa_loads s' = [] \<and> \<not> sa_schema_loading s' \<and> sa_draining s'"
    using n(3) assms(1) l by (auto simp: f base_ok_def)
qed

lemma settle_handled:
  assumes "base_ok s" "others_ok (st_save cfg) part s" "queue_of s part = c0 # rest" "\<forall>d \<in> set rest. cx_attempt d = 0" "under_way (st_save cfg) (cx_id c0) p" "drain_ok s"
  shows "handled cfg {#} s (settle cfg now part p s)"
  using assms
proof (induction cfg now part p s arbitrary: c0 rest rule: settle.induct)
  case (1 cfg now part c m s)
  then have i: "cx_id c = cx_id c0" using under_way_id by fastforce
  then have "active (st_save cfg) c" using 1(5) by (auto simp: active_def)
  then show ?case using progress_handled [OF 1(1-4) _ i, of "[Save_call (cx_id c) m]"] 1(3, 6) by simp
next
  case (2 cfg now part c delay s)
  then have i: "cx_id c = cx_id c0" using under_way_id by fastforce
  then have "active (st_save cfg) c" using 2(5) by (auto simp: active_def)
  then show ?case using progress_handled [OF 2(1-4) _ i, of "[Save_timer (cx_id c) delay]"] 2(3, 6) by simp
next
  case (3 cfg now part c r s)
  have i: "cx_id c = cx_id c0" using under_way_id [OF 3(6)] by simp
  obtain s' drained where f: "operation_finished (set_queue part rest s) = (s', drained)" by fastforce
  note pop = pop_ok [OF 3(2-4) f 3(7)]
  have tl: "tl (queue_of s part) = rest" using 3(4) by simp
  have reply: "reply_ok (st_save cfg) (cx_id c) r" using 3(6) i by (auto simp: reply_ok_def)
  obtain as where as: "drained = map Drained as" using pop(6) by blast
  show ?case
  proof (cases rest)
    case Nil
    have core: "core_ok cfg s'" by (rule core_okI [OF pop(1, 2)]) (use pop(3, 4) Nil in auto)
    then have ok: "store_ok cfg s'" using pop(8) by (simp add: store_ok_def)
    have "settle cfg now part (Done c r) s = (s', Save_reply (cx_id c) r # drained)" using f tl Nil by simp
    moreover have "(\<exists>a. Drained a \<in> set drained) \<longrightarrow> idle s' \<and> sa_draining s'" using pop(7) queues_empty [OF core] by (cases drained) (auto simp: idle_def)
    moreover have "save_replies drained = {#}" "effects_ok (st_save cfg) drained" by (simp_all add: as)
    ultimately show ?thesis using ok pop(5) reply i by (simp add: handled_def del: settle.simps)
  next
    case (Cons n more')
    have dn: "drained = []"
    proof (rule ccontr)
      assume "drained \<noteq> []"
      then have "queued s' = []" using pop(7) by blast
      moreover have "(part, rest) \<in> set (sa_queues s')" using pop(3) Cons by (auto simp: queue_of_def split: option.splits dest!: map_of_SomeD)
      then have "n \<in> set (queued s')" using Cons by (force simp: queued_def)
      ultimately show False by simp
    qed
    have "drain_ok (count_key s')" "base_ok (count_key s')" "others_ok (st_save cfg) part (count_key s')" "queue_of (count_key s') part = n # more'" "\<forall>d \<in> set more'. cx_attempt d = 0"
      using pop(1-3, 8) 3(5) Cons by (auto simp: base_ok_def others_ok_def queued_def load_ids_def drain_ok_def)
    then have "handled cfg {#} (count_key s') (settle cfg (later 1 now) part (start_save (st_save cfg) (now 0) (transaction_key cfg s') n) (count_key s'))"
      by (intro 3(1) [OF _ _ _ _ _ _ under_way_start]) (use f tl Cons in auto)
    moreover obtain s'' fx where n: "settle cfg (later 1 now) part (start_save (st_save cfg) (now 0) (transaction_key cfg s') n) (count_key s') = (s'', fx)" by fastforce
    moreover have "settle cfg now part (Done c r) s = (s'', Save_reply (cx_id c) r # fx)" using f tl Cons n dn by simp
    moreover have "pending_saves (count_key s') = pending_saves s'" by (simp add: pending_saves_def queued_def)
    ultimately show ?thesis using pop(5) reply i by (auto simp: handled_def simp del: settle.simps)
  qed
qed

section \<open>The handlers of requests\<close>

text \<open>What a handler achieves that only takes a request.  It may report the end of draining, when the request ends at once.\<close>

definition accepted :: "store_config \<Rightarrow> nat multiset \<Rightarrow> store_actor \<Rightarrow> store_actor \<times> effect list \<Rightarrow> bool" where
  "accepted cfg new s res \<longleftrightarrow> (case res of (s', fx) \<Rightarrow> core_ok cfg s' \<and> save_replies fx + pending_saves s' = pending_saves s + new \<and> effects_ok (st_save cfg) fx \<and>
     ((\<exists>a. Drained a \<in> set fx) \<longrightarrow> sa_draining s) \<and> (sa_drain_waiters s' = sa_drain_waiters s \<or> sa_drain_waiters s' = []) \<and> sa_draining s' = sa_draining s \<and>
     sa_schema_loading s' = sa_schema_loading s \<and> sa_schema_waiters s' = sa_schema_waiters s)"

definition drain_known :: "store_actor \<Rightarrow> bool" where
  "drain_known s \<longleftrightarrow> (sa_drain_waiters s \<noteq> [] \<longrightarrow> sa_draining s)"

lemma accepted_handled: "accepted cfg new s res \<Longrightarrow> drain_ok s \<Longrightarrow> \<not> sa_draining s \<Longrightarrow> handled cfg new s res"
  by (auto simp: accepted_def handled_def store_ok_def drain_ok_def)

lemma accepted_known: "accepted cfg new s (s', fx) \<Longrightarrow> drain_known s \<Longrightarrow> drain_known s'"
  by (auto simp: accepted_def drain_known_def)

lemma accepted_fx: "core_ok cfg s \<Longrightarrow> save_replies fx = new \<Longrightarrow> effects_ok (st_save cfg) fx \<Longrightarrow> (\<And>a. Drained a \<notin> set fx) \<Longrightarrow> accepted cfg new s (s, fx)"
  by (simp add: accepted_def)

lemma notify_accepted: "core_ok cfg s \<Longrightarrow> accepted cfg {#} s (notify_drained s)"
  by (auto simp: notify_drained_def accepted_def core_ok_def base_ok_def load_ids_def queued_def pending_saves_def)

lemma accepted_reply: "accepted cfg new s (s', fx) \<Longrightarrow> accepted cfg new s (s', Load_reply i r # fx)"
  by (simp add: accepted_def)

text \<open>What the progress of a save leaves alone.\<close>

definition same_frame :: "store_actor \<Rightarrow> store_actor \<Rightarrow> bool" where
  "same_frame s s' \<longleftrightarrow> sa_loads s' = sa_loads s \<and> sa_draining s' = sa_draining s \<and> sa_schema_loading s' = sa_schema_loading s \<and>
     sa_schema_waiters s' = sa_schema_waiters s \<and> (sa_drain_waiters s' = sa_drain_waiters s \<or> sa_drain_waiters s' = [])"

lemma finished_frame: "same_frame s (fst (operation_finished (set_queue part q s)))"
  by (simp add: same_frame_def operation_finished_def notify_drained_def)

lemma settle_frame: "same_frame s (fst (settle cfg now part p s))"
proof (induction cfg now part p s rule: settle.induct)
  case (3 cfg now part c r s)
  obtain s' fx where o: "operation_finished (set_queue part (tl (queue_of s part)) s) = (s', fx)" by fastforce
  then have f: "same_frame s s'" using finished_frame [of s part "tl (queue_of s part)"] by simp
  show ?case
  proof (cases "tl (queue_of s part)")
    case (Cons n rest)
    have "same_frame (count_key s') (fst (settle cfg (later 1 now) part (start_save (st_save cfg) (now 0) (transaction_key cfg s') n) (count_key s')))"
      by (rule 3 [OF o [symmetric] Cons])
    then show ?thesis using f o Cons by (auto simp: same_frame_def case_prod_beta)
  qed (use f o in simp)
qed (simp_all add: same_frame_def)

lemma push_ok:
  fixes c :: save_context
  assumes "core_ok cfg s" "queue_of s part = q"
  defines "s' \<equiv> (set_queue part (q @ [c]) s)\<lparr>sa_in_flight := sa_in_flight s + 1\<rparr>"
  shows "base_ok s'" "others_ok (st_save cfg) part s'" "queue_of s' part = q @ [c]" "pending_saves s' = pending_saves s + {#cx_id c#}" "map_of (sa_queues s') part \<noteq> Some []"
proof -
  note b = core_okD [OF assms(1)]
  have d: "keys_distinct (sa_queues s)" using b(1) by (simp add: base_ok_def)
  have m: "mset (queued s') = mset (queued s) + {#c#}"
    using queued_set_queue [OF d, of part "q @ [c]"] assms(2) by (simp add: s'_def queued_def)
  from arg_cong [OF this, of size] have "length (queued s') = Suc (length (queued s))" by simp
  then show "base_ok s'" using b(1) set_queue_distinct [OF d, of part "q @ [c]"] by (simp add: base_ok_def s'_def load_ids_def)
  show "others_ok (st_save cfg) part s'" using others_set_queue [OF d b(2)] by (simp add: others_ok_def s'_def)
  show "queue_of s' part = q @ [c]" by (simp add: s'_def)
  show "pending_saves s' = pending_saves s + {#cx_id c#}" using m by (simp add: pending_saves_def s'_def)
  show "map_of (sa_queues s') part \<noteq> Some []" using set_queue_nonempty [of part "q @ [c]" s] by (simp add: s'_def)
qed

lemma count_key_ok: "base_ok (count_key s) = base_ok s" "others_ok cfg part (count_key s) = others_ok cfg part s" "pending_saves (count_key s) = pending_saves s"
  by (simp_all add: base_ok_def others_ok_def pending_saves_def queued_def load_ids_def)

lemma enqueue_accepted:
  assumes "core_ok cfg s" "queue_of s part = q" "cx_attempt c = 0" "drain_known s"
  defines "s' \<equiv> (set_queue part (q @ [c]) s)\<lparr>sa_in_flight := sa_in_flight s + 1\<rparr>"
  shows "accepted cfg {#cx_id c#} s (if q = [] then settle cfg now part (start_save (st_save cfg) t (transaction_key cfg s') c) (count_key s') else (s', []))"
proof -
  note p = push_ok [OF assms(1, 2), of c, folded s'_def]
  have f: "sa_drain_waiters s' = sa_drain_waiters s" "sa_draining s' = sa_draining s" "sa_schema_loading s' = sa_schema_loading s" "sa_schema_waiters s' = sa_schema_waiters s"
    "sa_in_flight s' \<noteq> 0" by (simp_all add: s'_def)
  show ?thesis
  proof (cases q)
    case (Cons c0 rest)
    then have "queue_ok (st_save cfg) (q @ [c])" using queue_of_ok [OF assms(1)] assms(2, 3) by (auto simp: queue_ok_def)
    then have "core_ok cfg s'" by (intro core_okI [OF p(1, 2)]) (use p(3, 5) in auto)
    then show ?thesis using Cons p(4) f by (simp add: accepted_def)
  next
    case Nil
    have "drain_ok (count_key s')" using assms(4) f by (auto simp: drain_ok_def drain_known_def)
    then have h: "handled cfg {#} (count_key s') (settle cfg now part (start_save (st_save cfg) t (transaction_key cfg s') c) (count_key s'))"
      by (intro settle_handled [where rest = "[]", OF _ _ _ _ under_way_start]) (use p(1-3) Nil in \<open>simp_all add: count_key_ok\<close>)
    obtain s'' fx where r: "settle cfg now part (start_save (st_save cfg) t (transaction_key cfg s') c) (count_key s') = (s'', fx)" by fastforce
    have "same_frame (count_key s') s''" using settle_frame [of "count_key s'" cfg now part "start_save (st_save cfg) t (transaction_key cfg s') c"] unfolding r by simp
    then show ?thesis using Nil h p(4) f unfolding r by (auto simp: accepted_def handled_def store_ok_def same_frame_def count_key_ok)
  qed
qed

lemma save_ready_accepted:
  assumes "core_ok cfg s" "drain_known s"
  shows "accepted cfg {#i#} s (save_ready cfg now up i request deadline s)"
proof -
  have r: "accepted cfg {#i#} s (s, [Save_reply i (save_error request code error)])" if "code \<noteq> Ok" for code error
    using that by (intro accepted_fx [OF assms(1)]) (auto intro: reply_ok_error)
  have e: "accepted cfg {#i#} s
      (let c = new_save cfg i request store schemas deadline; part = partition_key store request; q = queue_of s part;
           s = (set_queue part (q @ [c]) s)\<lparr>sa_in_flight := sa_in_flight s + 1\<rparr>
       in if q = [] then settle cfg (later 2 now) part (start_save (st_save cfg) (now 1) (transaction_key cfg s) c) (count_key s) else (s, []))" for store schemas
  proof -
    let ?c = "new_save cfg i request store schemas deadline"
    have n: "cx_id ?c = i" "cx_attempt ?c = 0" by (simp_all add: new_save_def)
    from enqueue_accepted [OF assms(1) refl n(2) assms(2), of "partition_key store request" "later 2 now" "now 1"] show ?thesis unfolding n(1) Let_def by simp
  qed
  show ?thesis unfolding save_ready_def Let_def [of "\<lambda>code error. _ code error"]
    using r e by (simp split: option.splits sum.splits)
qed

section \<open>Loads keep the invariant\<close>

lemma load_ids_loads: "load_ids (s\<lparr>sa_loads := ls\<rparr>) = map fst ls @ drop (length (sa_loads s)) (load_ids s)"
  by (simp add: load_ids_def)

lemma load_ids_set: "set (map fst (sa_loads s)) \<subseteq> set (load_ids s)"
  by (simp add: load_ids_def)

lemma core_loads:
  assumes "core_ok cfg s" "map fst ls = map fst (sa_loads s)"
  shows "core_ok cfg (s\<lparr>sa_loads := ls\<rparr>)" "pending_saves (s\<lparr>sa_loads := ls\<rparr>) = pending_saves s"
proof -
  have "length ls = length (sa_loads s)" using assms(2) by (metis length_map)
  then show "core_ok cfg (s\<lparr>sa_loads := ls\<rparr>)" "pending_saves (s\<lparr>sa_loads := ls\<rparr>) = pending_saves s"
    using assms by (simp_all add: core_ok_def base_ok_def load_ids_def queued_def pending_saves_def)
qed

lemma update_known:
  assumes "map_of (sa_loads s) i \<noteq> None"
  shows "map fst (AList.update i c (sa_loads s)) = map fst (sa_loads s)"
  using assms by (auto simp: update_keys map_of_eq_None_iff)

lemma load_kept:
  assumes "store_ok cfg s" "map_of (sa_loads s) i \<noteq> None" "fx = [Load_call i m] \<or> fx = [Load_timer i delay]"
  shows "handled cfg {#} s (s\<lparr>sa_loads := AList.update i c (sa_loads s)\<rparr>, fx)"
  using core_loads [OF _ update_known [OF assms(2)], of cfg c] assms by (auto simp: handled_def store_ok_def drain_ok_def)

lemma end_load_handled:
  assumes "store_ok cfg s" "map_of (sa_loads s) i \<noteq> None"
  shows "handled cfg {#} s (end_load i r s)"
proof -
  let ?ls = "AList.delete i (sa_loads s)"
  let ?s = "s\<lparr>sa_loads := ?ls, sa_in_flight := sa_in_flight s - 1\<rparr>"
  have c: "core_ok cfg s" "drain_ok s" using assms(1) by (simp_all add: store_ok_def)
  have d: "distinct (map fst (sa_loads s))" using c(1) by (simp add: core_ok_def base_ok_def load_ids_def)
  have k: "map fst ?ls = remove1 i (map fst (sa_loads s))" using d by (simp add: delete_keys distinct_remove1_removeAll)
  have i: "i \<in> set (map fst (sa_loads s))" using assms(2) by (auto simp: map_of_eq_None_iff)
  have "length (map fst ?ls) = length (sa_loads s) - 1" unfolding k using i by (simp only: length_remove1 if_True length_map)
  moreover have "sa_loads s \<noteq> []" using i by auto
  ultimately have l: "length (sa_loads s) = Suc (length ?ls)" by (cases "sa_loads s") simp_all
  have "load_ids ?s = remove1 i (map fst (sa_loads s)) @ drop (length (sa_loads s)) (load_ids s)" using k by (simp add: load_ids_def)
  moreover have "distinct (map fst (sa_loads s) @ drop (length (sa_loads s)) (load_ids s))" using c(1) by (simp add: core_ok_def base_ok_def load_ids_def)
  ultimately have ids: "distinct (load_ids ?s)" by (auto simp: distinct_remove1 dest: notin_set_remove1)
  have core: "core_ok cfg ?s" using c(1) l ids by (simp add: core_ok_def base_ok_def queued_def)
  show ?thesis
  proof (cases "sa_draining s \<and> sa_in_flight s - 1 = 0 \<and> \<not> sa_schema_loading s")
    case True
    let ?s' = "?s\<lparr>sa_drain_waiters := []\<rparr>"
    have e: "end_load i r s = (?s', Load_reply i r # map Drained (sa_drain_waiters s))" using True by (simp add: end_load_def operation_finished_def notify_drained_def)
    have "sa_in_flight s = length (queued s) + length (sa_loads s)" using c(1) by (simp add: core_ok_def base_ok_def)
    then have "queued s = []" "?ls = []" using True l by auto
    then have "idle ?s'" using queues_empty [OF c(1)] True by (simp add: idle_def)
    moreover have "core_ok cfg ?s'" using core by (simp add: core_ok_def base_ok_def load_ids_def queued_def)
    ultimately show ?thesis unfolding e using True by (simp add: handled_def store_ok_def drain_ok_def pending_saves_def queued_def)
  next
    case False
    then have "end_load i r s = (?s, [Load_reply i r])" by (auto simp: end_load_def operation_finished_def notify_drained_def)
    moreover have "drain_ok ?s" using False c(2) by (auto simp: drain_ok_def)
    ultimately show ?thesis using core by (simp add: handled_def store_ok_def pending_saves_def queued_def)
  qed
qed

lemma retry_load_handled: "store_ok cfg s \<Longrightarrow> map_of (sa_loads s) i \<noteq> None \<Longrightarrow> handled cfg {#} s (retry_load cfg now i error retryable c s)"
  using load_kept end_load_handled by (simp add: retry_load_def Let_def)

lemma start_load_handled: "store_ok cfg s \<Longrightarrow> map_of (sa_loads s) i \<noteq> None \<Longrightarrow> handled cfg {#} s (start_load cfg now up i c s)"
  using load_kept retry_load_handled by (simp add: start_load_def Let_def)

lemma load_answer_handled: "store_ok cfg s \<Longrightarrow> map_of (sa_loads s) i \<noteq> None \<Longrightarrow> handled cfg {#} s (on_load_answer cfg now i a c s)"
  using retry_load_handled end_load_handled by (simp add: on_load_answer_def split: answer.splits)

text \<open>The first attempt of a load sends a query, sleeps, or ends at once.\<close>

lemma start_load_fresh:
  assumes "i \<notin> set (map fst (sa_loads s))"
  shows "(\<exists>c' e. start_load cfg now up i c (s\<lparr>sa_in_flight := sa_in_flight s + 1\<rparr>) =
      (s\<lparr>sa_in_flight := sa_in_flight s + 1, sa_loads := AList.update i c' (sa_loads s)\<rparr>, [e]) \<and> ((\<exists>m. e = Load_call i m) \<or> (\<exists>delay. e = Load_timer i delay))) \<or>
    (\<exists>r. start_load cfg now up i c (s\<lparr>sa_in_flight := sa_in_flight s + 1\<rparr>) = (case notify_drained s of (s', fx) \<Rightarrow> (s', Load_reply i r # fx)))"
proof -
  have "AList.delete i (sa_loads s) = sa_loads s" using assms by (simp add: delete_idem)
  then have "end_load i r (s\<lparr>sa_in_flight := Suc (sa_in_flight s)\<rparr>) = (case notify_drained s of (s', fx) \<Rightarrow> (s', Load_reply i r # fx))" for r
    by (simp add: end_load_def operation_finished_def)
  then show ?thesis unfolding start_load_def retry_load_def Let_def by (simp, blast)
qed

lemma load_added:
  assumes "core_ok cfg s" "i \<notin> set (load_ids s)" "(\<exists>m. e = Load_call i m) \<or> (\<exists>delay. e = Load_timer i delay)"
  shows "accepted cfg {#} s (s\<lparr>sa_in_flight := sa_in_flight s + 1, sa_loads := AList.update i c (sa_loads s)\<rparr>, [e])"
proof -
  have "i \<notin> set (map fst (sa_loads s))" using assms(2) load_ids_set by blast
  then have k: "map fst (AList.update i c (sa_loads s)) = map fst (sa_loads s) @ [i]" by (simp add: update_keys)
  then have "length (map fst (AList.update i c (sa_loads s))) = length (map fst (sa_loads s) @ [i])" by (simp only:)
  then have l: "length (AList.update i c (sa_loads s)) = Suc (length (sa_loads s))" by simp
  have "core_ok cfg (s\<lparr>sa_in_flight := sa_in_flight s + 1, sa_loads := AList.update i c (sa_loads s)\<rparr>)"
    using assms(1, 2) k l by (auto simp: core_ok_def base_ok_def load_ids_def queued_def)
  then show ?thesis using assms(3) by (auto simp: accepted_def pending_saves_def queued_def)
qed

lemma load_ready_accepted:
  assumes "core_ok cfg s" "i \<notin> set (load_ids s)"
  shows "accepted cfg {#} s (load_ready cfg now up i request deadline s)"
    "set (map fst (sa_loads (fst (load_ready cfg now up i request deadline s)))) \<subseteq> insert i (set (map fst (sa_loads s)))"
proof -
  have fresh: "i \<notin> set (map fst (sa_loads s))" using assms(2) load_ids_set by blast
  define good where "good = (\<lambda>res. accepted cfg {#} s res \<and> set (map fst (sa_loads (fst res))) \<subseteq> insert i (set (map fst (sa_loads s))))"
  have "good (s, [Load_reply i x])" for x using accepted_fx [OF assms(1), of "[Load_reply i x]" "{#}"] by (auto simp: good_def)
  moreover have "good (start_load cfg (later 1 now) (later 1 up) i c (s\<lparr>sa_in_flight := sa_in_flight s + 1\<rparr>))" for c
    using start_load_fresh [OF fresh, of cfg "later 1 now" "later 1 up" c]
  proof
    assume "\<exists>c' e. start_load cfg (later 1 now) (later 1 up) i c (s\<lparr>sa_in_flight := sa_in_flight s + 1\<rparr>) =
        (s\<lparr>sa_in_flight := sa_in_flight s + 1, sa_loads := AList.update i c' (sa_loads s)\<rparr>, [e]) \<and> ((\<exists>m. e = Load_call i m) \<or> (\<exists>delay. e = Load_timer i delay))"
    then obtain c' e where a: "start_load cfg (later 1 now) (later 1 up) i c (s\<lparr>sa_in_flight := sa_in_flight s + 1\<rparr>) =
        (s\<lparr>sa_in_flight := sa_in_flight s + 1, sa_loads := AList.update i c' (sa_loads s)\<rparr>, [e])" "(\<exists>m. e = Load_call i m) \<or> (\<exists>delay. e = Load_timer i delay)" by blast
    have "set (map fst (AList.update i c' (sa_loads s))) \<subseteq> insert i (set (map fst (sa_loads s)))" by (auto simp: update_keys)
    then show ?thesis using load_added [OF assms a(2)] unfolding good_def a(1) by simp
  next
    assume "\<exists>r. start_load cfg (later 1 now) (later 1 up) i c (s\<lparr>sa_in_flight := sa_in_flight s + 1\<rparr>) = (case notify_drained s of (s', fx) \<Rightarrow> (s', Load_reply i r # fx))"
    then obtain r where r: "start_load cfg (later 1 now) (later 1 up) i c (s\<lparr>sa_in_flight := sa_in_flight s + 1\<rparr>) = (case notify_drained s of (s', fx) \<Rightarrow> (s', Load_reply i r # fx))" by blast
    obtain s' fx where n: "notify_drained s = (s', fx)" by fastforce
    have "sa_loads s' = sa_loads s" using n by (auto simp: notify_drained_def split: if_splits)
    then show ?thesis using notify_accepted [OF assms(1)] unfolding good_def r n by (auto intro: accepted_reply)
  qed
  ultimately have "good (load_ready cfg now up i request deadline s)" unfolding load_ready_def Let_def by (simp split: option.splits sum.splits)
  then show "accepted cfg {#} s (load_ready cfg now up i request deadline s)"
    "set (map fst (sa_loads (fst (load_ready cfg now up i request deadline s)))) \<subseteq> insert i (set (map fst (sa_loads s)))" by (simp_all add: good_def)
qed

section \<open>The waiters\<close>

lemma waiting_loads_simps [simp]:
  "waiting_loads [] = []" "waiting_loads (w # ws) = (case w of Wait_load i _ _ \<Rightarrow> [i] | _ \<Rightarrow> []) @ waiting_loads ws" "waiting_loads (ws @ ws') = waiting_loads ws @ waiting_loads ws'"
  by (simp_all add: waiting_loads_def)

lemma save_ready_loads: "sa_loads (fst (save_ready cfg now up i request deadline s)) = sa_loads s"
  using settle_frame by (simp add: save_ready_def Let_def same_frame_def split: option.splits sum.splits)

lemma mset_chain:
  fixes a b :: "'a multiset"
  shows "a + p' = p + new \<Longrightarrow> b + p'' = p' + new' \<Longrightarrow> (a + b) + p'' = p + (new + new')"
  by (metis add.assoc add.commute)

lemma accepted_trans: "accepted cfg new s (s', fx) \<Longrightarrow> accepted cfg new' s' (s'', fx') \<Longrightarrow> accepted cfg (new + new') s (s'', fx @ fx')"
  unfolding accepted_def prod.case save_replies_simps effects_ok_simps
  by (elim conjE, intro conjI, assumption, rule mset_chain) auto

lemma run_waiter_accepted:
  assumes "core_ok cfg s" "sa_schema_waiters s = []" "distinct (map fst (sa_loads s) @ waiting_loads (w # ws))" "drain_known s"
  shows "accepted cfg (waiting_saves [w]) s (run_waiter cfg now up w s)" "distinct (map fst (sa_loads (fst (run_waiter cfg now up w s))) @ waiting_loads ws)"
proof -
  obtain s' fx where w: "run_waiter cfg now up w s = (s', fx)" by fastforce
  have "accepted cfg (waiting_saves [w]) s (s', fx) \<and> distinct (map fst (sa_loads s') @ waiting_loads ws)"
  proof (cases w)
    case (Wait_save i request deadline)
    then show ?thesis using w save_ready_accepted [OF assms(1, 4), of i now up request deadline] save_ready_loads [of cfg now up i request deadline s] assms(3)
      by (simp add: run_waiter_def)
  next
    case (Wait_load i request deadline)
    then have "i \<notin> set (load_ids s)" using assms(2, 3) by (auto simp: load_ids_def)
    note l = load_ready_accepted [OF assms(1) this, of now up request deadline]
    have a: "accepted cfg {#} s (s', fx)" "set (map fst (sa_loads s')) \<subseteq> insert i (set (map fst (sa_loads s)))" using l w Wait_load by (simp_all add: run_waiter_def)
    then have "distinct (map fst (sa_loads s'))" by (simp add: accepted_def core_ok_def base_ok_def load_ids_def)
    then show ?thesis using a Wait_load assms(3) by auto
  qed
  then show "accepted cfg (waiting_saves [w]) s (run_waiter cfg now up w s)" "distinct (map fst (sa_loads (fst (run_waiter cfg now up w s))) @ waiting_loads ws)" using w by simp_all
qed

lemma run_waiters_accepted:
  assumes "core_ok cfg s" "sa_schema_waiters s = []" "distinct (map fst (sa_loads s) @ waiting_loads ws)" "drain_known s"
  shows "accepted cfg (waiting_saves ws) s (run_waiters cfg now up ws s)"
  using assms
proof (induction ws arbitrary: s now up)
  case Nil
  then show ?case by (simp add: accepted_def)
next
  case (Cons w ws)
  obtain s' fx where w: "run_waiter cfg now up w s = (s', fx)" by fastforce
  obtain s'' fx' where ws: "run_waiters cfg (later 3 now) (later 3 up) ws s' = (s'', fx')" by fastforce
  have a: "accepted cfg (waiting_saves [w]) s (s', fx)" "distinct (map fst (sa_loads s') @ waiting_loads ws)"
    using run_waiter_accepted [OF Cons.prems, of now up] w by simp_all
  then have "core_ok cfg s'" "sa_schema_waiters s' = []" "drain_known s'" using Cons.prems(2) accepted_known [OF _ Cons.prems(4)] by (auto simp: accepted_def)
  then have "accepted cfg (waiting_saves ws) s' (s'', fx')" using Cons.IH [of s' "later 3 now" "later 3 up"] ws a(2) by simp
  then show ?case using accepted_trans [OF a(1)] w ws by simp
qed

section \<open>The discovery keeps the invariant\<close>

lemma notify_handled:
  assumes "core_ok cfg s" "\<not> sa_schema_loading s" "sa_drain_waiters s \<noteq> [] \<Longrightarrow> sa_draining s"
  shows "handled cfg {#} s (notify_drained s)"
proof (cases "sa_draining s \<and> sa_in_flight s = 0")
  case True
  have "core_ok cfg (s\<lparr>sa_drain_waiters := []\<rparr>)" using assms(1) by (simp add: core_ok_def base_ok_def load_ids_def queued_def)
  moreover have "idle s" using True assms queues_empty [OF assms(1)] by (simp add: idle_def core_ok_def base_ok_def)
  ultimately show ?thesis using True assms(2)
    by (simp add: notify_drained_def handled_def store_ok_def drain_ok_def pending_saves_def queued_def idle_def)
next
  case False
  then show ?thesis using assms by (auto simp: notify_drained_def handled_def store_ok_def drain_ok_def)
qed

lemma run_then_notify:
  assumes "accepted cfg new s (s', fx)" "\<not> sa_schema_loading s" "drain_known s" "notify_drained s' = (s'', fx')"
  shows "kept cfg new s (s'', fx @ fx')"
proof -
  have h: "handled cfg {#} s' (s'', fx')" using notify_handled [of cfg s'] assms accepted_known [OF assms(1, 3)] by (auto simp: accepted_def drain_known_def)
  moreover from this have "save_replies (fx @ fx') + pending_saves s'' = pending_saves s + new"
    using assms(1) mset_chain [of "save_replies fx" "pending_saves s'" "pending_saves s" new "save_replies fx'" "pending_saves s''" "{#}"] by (simp add: handled_def accepted_def)
  moreover have "\<not> sa_schema_loading s''" using assms(1, 2, 4) by (auto simp: accepted_def notify_drained_def split: if_splits)
  ultimately show ?thesis using assms(1) by (auto simp: handled_def kept_def accepted_def simp del: add.assoc)
qed

lemma finish_schema_kept:
  assumes "store_ok cfg s"
  shows "kept cfg {#} s (finish_schema cfg now up error s)"
proof -
  define s1 where "s1 = s\<lparr>sa_schema_loading := False, sa_config_error := (if error = [] then sa_config_error s else error), sa_schema_waiters := []\<rparr>"
  let ?ws = "sa_schema_waiters s"
  have c: "core_ok cfg s" "drain_ok s" using assms by (simp_all add: store_ok_def)
  have f: "sa_loads s1 = sa_loads s" "sa_schema_waiters s1 = []" "\<not> sa_schema_loading s1" "drain_known s1"
    using c(2) by (auto simp: s1_def drain_known_def drain_ok_def)
  have "core_ok cfg s1" using c(1) by (simp add: s1_def core_ok_def base_ok_def load_ids_def queued_def)
  moreover have "distinct (map fst (sa_loads s1) @ waiting_loads ?ws)" using c(1) f(1) by (simp add: core_ok_def base_ok_def load_ids_def)
  ultimately have a: "accepted cfg (waiting_saves ?ws) s1 (run_waiters cfg now up ?ws s1)" using f(2, 4) by (intro run_waiters_accepted)
  obtain s2 fx where r: "run_waiters cfg now up ?ws s1 = (s2, fx)" by fastforce
  obtain s3 fx' where n: "notify_drained s2 = (s3, fx')" by fastforce
  have "kept cfg (waiting_saves ?ws) s1 (s3, fx @ fx')" using run_then_notify [OF _ f(3, 4) n] a r by simp
  moreover have "pending_saves s = pending_saves s1 + waiting_saves ?ws" by (simp add: pending_saves_def s1_def queued_def)
  ultimately show ?thesis using r n by (simp add: finish_schema_def Let_def s1_def kept_def)
qed

lemma handled_idle: "store_ok cfg s \<Longrightarrow> (\<And>i r. Save_reply i r \<notin> set fx) \<Longrightarrow> (\<And>a. Drained a \<notin> set fx) \<Longrightarrow> handled cfg {#} s (s, fx)"
proof -
  assume s: "store_ok cfg s" "\<And>i r. Save_reply i r \<notin> set fx" "\<And>a. Drained a \<notin> set fx"
  have "save_replies fx = {#}" using s(2) by (induction fx) (auto split: effect.splits)
  then show ?thesis using s by (auto simp: handled_def effects_ok_def)
qed

lemma discover_next_kept:
  assumes "store_ok cfg s"
  shows "kept cfg {#} s (discover_next_schema cfg now up s)"
  using finish_schema_kept [OF assms] handled_kept [OF handled_idle [OF assms]]
  by (simp add: discover_next_schema_def split: prod.splits option.splits)

lemma kept_catalog:
  assumes "store_ok cfg s" "\<And>s. store_ok cfg s \<Longrightarrow> kept cfg {#} s (f s)"
  shows "kept cfg {#} s (f (s\<lparr>sa_catalog := catalog, sa_discovery_index := n\<rparr>))"
proof -
  let ?s = "s\<lparr>sa_catalog := catalog, sa_discovery_index := n\<rparr>"
  have "queued ?s = queued s" "load_ids ?s = load_ids s" by (simp_all add: queued_def load_ids_def)
  then have "store_ok cfg ?s" using assms(1) by (auto simp: store_ok_def core_ok_def base_ok_def drain_ok_def)
  moreover have "pending_saves ?s = pending_saves s" by (simp add: pending_saves_def queued_def)
  ultimately show ?thesis using assms(2) [of ?s] by (simp add: kept_def)
qed

lemma metadata_kept:
  assumes "store_ok cfg s"
  shows "kept cfg {#} s (on_metadata cfg now up a s)"
  using finish_schema_kept [OF assms] handled_kept [OF handled_idle [OF assms]]
    kept_catalog [OF assms, where f = "discover_next_schema cfg (later 1 now) (later 1 up)", OF discover_next_kept]
  by (simp add: on_metadata_def split: answer.splits prod.splits option.splits sum.splits)

lemma boot_kept: "kept cfg {#} (new_store catalog error) (initialize_schema cfg now up (new_store catalog error))"
proof -
  let ?s = "new_store catalog error"
  have ok: "store_ok cfg ?s" "store_ok cfg (?s\<lparr>sa_targets := t\<rparr>)" "store_ok cfg (?s\<lparr>sa_targets := t, sa_schema_loading := True, sa_schema_deadline := d\<rparr>)" for t d
    by (simp_all add: new_store_def store_ok_def core_ok_def base_ok_def drain_ok_def load_ids_def queued_def)
  have p: "pending_saves ?s = {#}" "pending_saves (?s\<lparr>sa_targets := t\<rparr>) = {#}" "pending_saves (?s\<lparr>sa_targets := t, sa_schema_loading := True, sa_schema_deadline := d\<rparr>) = {#}" for t d
    by (simp_all add: new_store_def pending_saves_def queued_def)
  show ?thesis using ok(1, 2) p discover_next_kept [OF ok(3), where now = "later 1 now" and up = "later 1 up"] by (simp add: initialize_schema_def Let_def kept_def)
qed

section \<open>Events\<close>

lemma wait_handled:
  assumes "store_ok cfg s" "sa_schema_loading s" "distinct (load_ids s @ waiting_loads [w])"
  shows "handled cfg (waiting_saves [w]) s (s\<lparr>sa_schema_waiters := sa_schema_waiters s @ [w]\<rparr>, [])"
proof -
  let ?s = "s\<lparr>sa_schema_waiters := sa_schema_waiters s @ [w]\<rparr>"
  have l: "load_ids ?s = load_ids s @ waiting_loads [w]" by (simp add: load_ids_def)
  then have "store_ok cfg ?s" using assms by (auto simp: store_ok_def core_ok_def base_ok_def drain_ok_def queued_def)
  moreover have "pending_saves ?s = pending_saves s + waiting_saves [w]" by (simp add: pending_saves_def queued_def)
  ultimately show ?thesis by (simp add: handled_def)
qed

lemma on_save_handled:
  assumes "store_ok cfg s"
  shows "handled cfg {#i#} s (on_save cfg now up i request s)"
proof -
  have c: "core_ok cfg s" "drain_ok s" "distinct (load_ids s)" using assms by (simp_all add: store_ok_def core_ok_def base_ok_def)
  have "handled cfg {#i#} s (s, [Save_reply i (save_error request Unavailable error)])" for error
    using assms reply_ok_error [of Unavailable "st_save cfg" i request error] by (simp add: handled_def)
  moreover have "handled cfg {#i#} s (save_ready cfg (later 1 now) (later 1 up) i request deadline s)" if "\<not> sa_draining s" for deadline
    by (rule accepted_handled [OF save_ready_accepted [OF c(1)] c(2) that]) (use c(2) in \<open>simp add: drain_known_def drain_ok_def\<close>)
  ultimately show ?thesis using wait_handled [OF assms, of "Wait_save i request deadline" for deadline] c(3)
    by (auto simp: on_save_def Let_def admission_error_def)
qed

lemma on_load_handled:
  assumes "store_ok cfg s" "i \<notin> set (load_ids s)"
  shows "handled cfg {#} s (on_load cfg now up i request s)"
proof -
  have c: "core_ok cfg s" "drain_ok s" "distinct (load_ids s)" using assms(1) by (simp_all add: store_ok_def core_ok_def base_ok_def)
  have "handled cfg {#} s (s, [Load_reply i r])" for r by (rule handled_idle [OF assms(1)]) auto
  then show ?thesis using accepted_handled [OF load_ready_accepted(1) [OF c(1) assms(2)] c(2)] wait_handled [OF assms(1), of "Wait_load i request deadline" for deadline] c(3) assms(2)
    by (auto simp: on_load_def Let_def admission_error_def)
qed

lemma draining_ok:
  assumes "core_ok cfg s"
  shows "core_ok cfg (s\<lparr>sa_draining := True\<rparr>)" "core_ok cfg (s\<lparr>sa_draining := True, sa_drain_waiters := ws\<rparr>)"
    "pending_saves (s\<lparr>sa_draining := True\<rparr>) = pending_saves s" "pending_saves (s\<lparr>sa_draining := True, sa_drain_waiters := ws\<rparr>) = pending_saves s"
  using assms by (simp_all add: core_ok_def base_ok_def queued_def load_ids_def pending_saves_def)

lemma drain_handled:
  assumes "store_ok cfg s"
  shows "handled cfg {#} s (drain a s)" "handled cfg {#} s (s\<lparr>sa_draining := True\<rparr>, [])"
proof -
  have c: "core_ok cfg s" "drain_ok s" using assms by (simp_all add: store_ok_def)
  have i: "sa_in_flight s = 0 \<Longrightarrow> \<not> sa_schema_loading s \<Longrightarrow> idle s" using c(1) queues_empty [OF c(1)] by (simp add: idle_def core_ok_def base_ok_def)
  show "handled cfg {#} s (s\<lparr>sa_draining := True\<rparr>, [])" using draining_ok [OF c(1)] c(2) by (simp add: handled_def store_ok_def drain_ok_def)
  show "handled cfg {#} s (drain a s)"
  proof (cases "sa_in_flight s = 0 \<and> \<not> sa_schema_loading s")
    case True
    then have "drain a s = (s\<lparr>sa_draining := True\<rparr>, [Drained a])" by (simp add: drain_def)
    moreover have "idle (s\<lparr>sa_draining := True\<rparr>)" using True i by (simp add: idle_def)
    ultimately show ?thesis using draining_ok [OF c(1)] c(2) by (simp add: handled_def store_ok_def drain_ok_def)
  next
    case False
    then have "drain a s = (s\<lparr>sa_draining := True, sa_drain_waiters := sa_drain_waiters s @ [a]\<rparr>, [])" by (auto simp: drain_def)
    then show ?thesis using draining_ok [OF c(1)] False by (auto simp: handled_def store_ok_def drain_ok_def)
  qed
qed

lemma head_handled:
  assumes "store_ok cfg s" "queue_of s part = c # rest" "under_way (st_save cfg) (cx_id c) p"
  shows "handled cfg {#} s (settle cfg now part p s)" "handled cfg {#} s (settle cfg now part p (count_key s))"
proof -
  have c: "core_ok cfg s" "drain_ok s" using assms(1) by (simp_all add: store_ok_def)
  note b = core_okD [OF c(1)]
  have q: "\<forall>d \<in> set rest. cx_attempt d = 0" using queue_of_ok [OF c(1) assms(2)] by (simp add: queue_ok_def)
  show "handled cfg {#} s (settle cfg now part p s)" by (rule settle_handled [OF b assms(2) q assms(3) c(2)])
  have "handled cfg {#} (count_key s) (settle cfg now part p (count_key s))"
    by (rule settle_handled [OF _ _ _ q assms(3)]) (use b c(2) assms(2) in \<open>simp_all add: count_key_ok drain_ok_def\<close>)
  then show "handled cfg {#} s (settle cfg now part p (count_key s))" by (simp add: handled_def count_key_ok)
qed

lemma at_head_queue:
  assumes "base_ok s" "at_head i s = Some (part, c)"
  shows "cx_id c = i \<and> (\<exists>rest. queue_of s part = c # rest)"
proof -
  obtain q where f: "find (heads i) (sa_queues s) = Some (part, q)" "c = hd q" using assms(2) by (auto simp: at_head_def)
  have h: "heads i (part, q)" "(part, q) \<in> set (sa_queues s)" using f(1) by (auto simp: find_Some_iff)
  have "queue_of s part = q" using queues_in [of s part q] h(2) assms(1) by (simp add: base_ok_def queue_of_def)
  then show ?thesis using h(1) f(2) by (cases q) (auto simp: heads_def)
qed

lemma head_active:
  assumes "store_ok cfg s" "at_head i s = Some (part, c)"
  obtains rest where "queue_of s part = c # rest" "active (st_save cfg) c" "cx_id c = i"
proof -
  have b: "base_ok s" "core_ok cfg s" using assms(1) by (simp_all add: store_ok_def core_ok_def)
  obtain rest where q: "queue_of s part = c # rest" "cx_id c = i" using at_head_queue [OF b(1) assms(2)] by blast
  then show ?thesis using that queue_of_ok [OF b(2) q(1)] by (auto simp: queue_ok_def)
qed

lemma save_answer_handled:
  assumes "store_ok cfg s"
  shows "handled cfg {#} s (on_save_answer cfg now i a s)"
proof (cases "at_head i s")
  case (Some x)
  obtain part c where x: "x = (part, c)" by (cases x)
  obtain rest where q: "queue_of s part = c # rest" "active (st_save cfg) c" using head_active [OF assms] Some x by metis
  show ?thesis using Some x head_handled(1) [OF assms q(1) under_way_answer [OF q(2)]] handled_idle [OF assms, of "[]"] by (simp add: on_save_answer_def)
qed (simp add: on_save_answer_def handled_idle [OF assms])

lemma save_wake_handled:
  assumes "store_ok cfg s"
  shows "handled cfg {#} s (on_save_wake cfg now up i s)"
proof (cases "at_head i s")
  case (Some x)
  obtain part c where x: "x = (part, c)" by (cases x)
  obtain rest where q: "queue_of s part = c # rest" "active (st_save cfg) c" using head_active [OF assms] Some x by metis
  show ?thesis using Some x head_handled [OF assms q(1) under_way_wake [OF q(2)]] handled_idle [OF assms, of "[]"] by (simp add: on_save_wake_def)
qed (simp add: on_save_wake_def handled_idle [OF assms])

text \<open>The events of the discovery.\<close>

definition of_discovery :: "event \<Rightarrow> bool" where
  "of_discovery e \<longleftrightarrow> (case e of Metadata_answer _ \<Rightarrow> True | Discovery_wake \<Rightarrow> True | _ \<Rightarrow> False)"

lemma on_event_handled:
  assumes "store_ok cfg s" "new_request es e s" "of_discovery e \<Longrightarrow> \<not> sa_schema_loading s"
  shows "handled cfg (arrived e) s (on_event cfg now up e s)"
proof (cases e)
  case (Load_message i request)
  then show ?thesis using on_load_handled [OF assms(1)] assms(2) by (simp add: new_request_def on_event_def arrived_def)
next
  case (Load_answer i a)
  then show ?thesis using load_answer_handled [OF assms(1)] handled_idle [OF assms(1), of "[]"] by (simp add: on_event_def arrived_def split: option.splits)
next
  case (Load_wake i)
  then show ?thesis using start_load_handled [OF assms(1)] handled_idle [OF assms(1), of "[]"] by (simp add: on_event_def arrived_def split: option.splits)
qed (use on_save_handled [OF assms(1)] drain_handled [OF assms(1)] save_answer_handled [OF assms(1)] save_wake_handled [OF assms(1)] handled_idle [OF assms(1), of "[]"] assms(3)
    in \<open>simp_all add: arrived_def of_discovery_def on_event_def\<close>)

lemma on_event_kept:
  assumes "store_ok cfg s" "new_request es e s"
  shows "kept cfg (arrived e) s (on_event cfg now up e s)"
proof (cases "of_discovery e \<and> sa_schema_loading s")
  case True
  then show ?thesis using metadata_kept [OF assms(1)] discover_next_kept [OF assms(1)] by (cases e) (simp_all add: of_discovery_def on_event_def arrived_def)
next
  case False
  then show ?thesis using handled_kept [OF on_event_handled [OF assms]] by blast
qed

section \<open>Runs\<close>

lemma store_run_ok:
  assumes "store_run cfg es fx s"
  shows "store_ok cfg s \<and> save_replies fx + pending_saves s = requested es \<and> effects_ok (st_save cfg) fx"
  using assms
proof (induction rule: store_run.induct)
  case (Boot now up catalog config_error s fx)
  then show ?case using boot_kept [of cfg catalog config_error now up] by (simp add: kept_def requested_def new_store_def pending_saves_def queued_def)
next
  case (Event es fx s e now up s' fx')
  then have "kept cfg (arrived e) s (s', fx')" using on_event_kept [of cfg s es e now up] by simp
  then show ?case using Event.IH mset_chain [of "save_replies fx" "pending_saves s" "{#}" "requested es" "save_replies fx'" "pending_saves s'" "arrived e"]
    by (simp add: kept_def requested_def)
qed

end
