(* ===== verification/Sql_Store_Replies.thy ===== *)
theory Sql_Store_Replies
  imports Sql_Store "HOL-Library.Sublist"
begin

text \<open>
  What the actor of the theory \<open>Sql_Store\<close> tells its clients.  The first part follows one save through a run of the actor: the messages that were sent for it and the answers that
  came back are at any time a run of the save in the sense of the theory \<open>Sql_Save\<close>.  From this follow the truth of the answers to saves, that each save is answered once, when
  the actor reports that it is drained, and two defects: a report that comes too early, and an answer at exit that hides a commit.
\<close>

section \<open>Whose answers\<close>

text \<open>The saves that the actor holds, each with its request.\<close>

definition waiting_requests :: "waiter list \<Rightarrow> (nat \<times> save_request) set" where
  "waiting_requests ws = {(i, request). \<exists>deadline. Wait_save i request deadline \<in> set ws}"

definition held :: "store_actor \<Rightarrow> (nat \<times> save_request) set" where
  "held s = (\<lambda>c. (cx_id c, cx_request c)) ` set (queued s) \<union> waiting_requests (sa_schema_waiters s)"

lemma held_pending: "fst ` held s = set_mset (pending_saves s)"
proof -
  have "fst ` waiting_requests ws = set_mset (waiting_saves ws)" for ws by (induction ws) (force simp: waiting_requests_def split: waiter.splits)+
  then show ?thesis by (simp add: held_def pending_saves_def image_Un image_image)
qed

text \<open>A run of the save of a request that sent the messages \<open>cs\<close>, in their order, and was given answers from \<open>as\<close>.\<close>

definition runs_for :: "store_config \<Rightarrow> answer list \<Rightarrow> message list \<Rightarrow> nat \<Rightarrow> save_request \<Rightarrow> progress \<Rightarrow> bool" where
  "runs_for cfg as cs i request p \<longleftrightarrow> (\<exists>store schemas deadline past h. save_run (st_save cfg) (new_save cfg i request store schemas deadline) past h p \<and>
     map fst (concat past @ h) = cs \<and> subseq (map snd (concat past @ h)) as)"

text \<open>A save at the head of its queue: its last message has no answer yet, or it sleeps.\<close>

definition at_work :: "store_config \<Rightarrow> answer list \<Rightarrow> message list \<Rightarrow> save_context \<Rightarrow> bool" where
  "at_work cfg as cs c \<longleftrightarrow> (\<exists>cs' m. cs = cs' @ [m] \<and> runs_for cfg as cs' (cx_id c) (cx_request c) (Ask c m)) \<or>
     (\<exists>delay. runs_for cfg as cs (cx_id c) (cx_request c) (Sleep c delay))"

definition not_begun :: "store_config \<Rightarrow> save_context \<Rightarrow> bool" where
  "not_begun cfg c \<longleftrightarrow> (\<exists>store schemas deadline. c = new_save cfg (cx_id c) (cx_request c) store schemas deadline)"

text \<open>What the actor holds of the save \<open>i\<close> fits the messages that were sent for it.\<close>

definition queue_told :: "store_config \<Rightarrow> nat \<Rightarrow> answer list \<Rightarrow> message list \<Rightarrow> save_context list \<Rightarrow> bool" where
  "queue_told cfg i as cs q \<longleftrightarrow> (case q of [] \<Rightarrow> True | c # rest \<Rightarrow> (cx_id c = i \<longrightarrow> at_work cfg as cs c) \<and> (\<forall>d \<in> set rest. cx_id d = i \<longrightarrow> cs = []) \<and> (\<forall>d \<in> set rest. not_begun cfg d))"

definition told :: "store_config \<Rightarrow> nat \<Rightarrow> answer list \<Rightarrow> message list \<Rightarrow> store_actor \<Rightarrow> bool" where
  "told cfg i as cs s \<longleftrightarrow> (\<forall>part. queue_told cfg i as cs (queue_of s part)) \<and> (i \<in> fst ` waiting_requests (sa_schema_waiters s) \<longrightarrow> cs = [])"

definition justified :: "store_config \<Rightarrow> (nat \<times> save_request) set \<Rightarrow> answer list \<Rightarrow> message list \<Rightarrow> nat \<Rightarrow> save_result \<Rightarrow> bool" where
  "justified cfg K as cs i r \<longleftrightarrow> (\<exists>request. (i, request) \<in> K \<and> ((\<exists>c. runs_for cfg as cs i request (Done c r)) \<or> (\<exists>code error. code \<noteq> Ok \<and> r = save_error request code error)))"

text \<open>What a handler does for the save \<open>i\<close>, given the saves \<open>K\<close> that it brings.\<close>

definition traced :: "store_config \<Rightarrow> nat \<Rightarrow> answer list \<Rightarrow> (nat \<times> save_request) set \<Rightarrow> store_actor \<Rightarrow> message list \<Rightarrow> store_actor \<times> effect list \<Rightarrow> bool" where
  "traced cfg i as K s cs res \<longleftrightarrow> (case res of (s', fx) \<Rightarrow> held s' \<subseteq> held s \<union> K \<and> (i \<notin> fst ` (held s \<union> K) \<longrightarrow> calls i fx = []) \<and> told cfg i as (cs @ calls i fx) s' \<and>
     (\<forall>r. Save_reply i r \<in> set fx \<longrightarrow> justified cfg (held s \<union> K) as (cs @ calls i fx) i r))"

lemma calls_sent_append [simp]: "calls i (fx @ fx') = calls i fx @ calls i fx'"
  by (induction i fx rule: calls.induct) auto

lemma answers_received_append [simp]: "answers i (es @ es') = answers i es @ answers i es'"
  by (induction i es rule: answers.induct) auto

lemma calls_drained [simp]: "calls i (map Drained as) = []"
  by (induction as) auto

lemma runs_for_mono: "runs_for cfg as cs i request p \<Longrightarrow> subseq as as' \<Longrightarrow> runs_for cfg as' cs i request p"
  unfolding runs_for_def using subseq_order.order_trans by blast

lemma at_work_mono: "at_work cfg as cs c \<Longrightarrow> subseq as as' \<Longrightarrow> at_work cfg as' cs c"
  unfolding at_work_def using runs_for_mono by blast

lemma queue_told_mono: "queue_told cfg i as cs q \<Longrightarrow> subseq as as' \<Longrightarrow> queue_told cfg i as' cs q"
  using at_work_mono by (auto simp: queue_told_def split: list.splits)

lemma told_mono: "told cfg i as cs s \<Longrightarrow> subseq as as' \<Longrightarrow> told cfg i as' cs s"
  unfolding told_def using queue_told_mono by blast

lemma justified_mono: "justified cfg K as cs i r \<Longrightarrow> K \<subseteq> K' \<Longrightarrow> subseq as as' \<Longrightarrow> justified cfg K' as' cs i r"
  unfolding justified_def using runs_for_mono by blast

lemma justified_error: "(i, request) \<in> K \<Longrightarrow> code \<noteq> Ok \<Longrightarrow> justified cfg K as cs i (save_error request code error)"
  by (auto simp: justified_def)

lemma run_same: "save_run cfg c0 past h p \<Longrightarrow> cx_id (progress_context p) = cx_id c0 \<and> cx_request (progress_context p) = cx_request c0"
  using save_run_inv [of cfg c0 past h p] by (cases p) (auto simp: save_inv_def same_save_def)

lemma active_advance:
  "active cfg c \<Longrightarrow> cx_stage c \<noteq> Sleeping \<Longrightarrow> cx_id (progress_context (advance cfg now a c)) = cx_id c \<and> cx_request (progress_context (advance cfg now a c)) = cx_request c"
  unfolding active_def under_way_def using run_same save_run.Answer run_sleeping by (metis progress_context.simps(1))

lemma active_wake:
  assumes "active cfg c" "cx_stage c = Sleeping"
  shows "cx_id (progress_context (wake cfg now up key c)) = cx_id c \<and> cx_request (progress_context (wake cfg now up key c)) = cx_request c"
proof -
  obtain c0 past h delay where r: "save_run cfg c0 past h (Sleep c delay)" using assms run_awake unfolding active_def under_way_def by blast
  have "cx_id c0 = cx_id c" "cx_request c0 = cx_request c" using run_same [OF r] by simp_all
  then show ?thesis using run_same [OF save_run.Wake_up [OF r, of now key]] run_same [OF save_run.Wake_down [OF r, of now key]] by (cases up) auto
qed

lemma new_save_same [simp]: "cx_id (new_save cfg i request store schemas deadline) = i" "cx_request (new_save cfg i request store schemas deadline) = request"
  by (simp_all add: new_save_def)

lemma runs_for_same: "runs_for cfg as cs i request p \<Longrightarrow> cx_id (progress_context p) = i \<and> cx_request (progress_context p) = request"
  unfolding runs_for_def using run_same by fastforce

lemma runs_for_start: "not_begun cfg c \<Longrightarrow> runs_for cfg as [] (cx_id c) (cx_request c) (start_save (st_save cfg) now key c)"
proof -
  assume "not_begun cfg c"
  then obtain store schemas deadline where c: "new_save cfg (cx_id c) (cx_request c) store schemas deadline = c" unfolding not_begun_def by metis
  have "map fst (concat [] @ []) = []" "subseq (map snd (concat [] @ [])) as" by simp_all
  then show ?thesis unfolding runs_for_def using save_run.Start [of "st_save cfg" c now key] c by metis
qed

lemma runs_for_answer:
  assumes "at_work cfg as cs c" "cx_stage c \<noteq> Sleeping"
  shows "runs_for cfg (as @ [a]) cs (cx_id c) (cx_request c) (advance (st_save cfg) now a c)"
proof -
  have "\<not> runs_for cfg as cs (cx_id c) (cx_request c) (Sleep c delay)" for delay unfolding runs_for_def using run_sleeping assms(2) by blast
  then obtain cs' m store schemas deadline past h where r: "cs = cs' @ [m]" "save_run (st_save cfg) (new_save cfg (cx_id c) (cx_request c) store schemas deadline) past h (Ask c m)"
    "map fst (concat past @ h) = cs'" "subseq (map snd (concat past @ h)) as" using assms(1) unfolding at_work_def runs_for_def by blast
  have "map fst (concat past @ (h @ [(m, a)])) = cs" "subseq (map snd (concat past @ (h @ [(m, a)]))) (as @ [a])"
    using r(1, 3) list_emb_append_mono [OF r(4), of "[a]" "[a]"] by auto
  then show ?thesis unfolding runs_for_def using save_run.Answer [OF r(2), of a now] by blast
qed

lemma runs_for_wake:
  assumes "at_work cfg as cs c" "cx_stage c = Sleeping"
  shows "runs_for cfg as cs (cx_id c) (cx_request c) (wake (st_save cfg) now up key c)"
proof -
  have "\<not> runs_for cfg as cs' (cx_id c) (cx_request c) (Ask c m)" for cs' m unfolding runs_for_def using run_awake assms(2) by blast
  then obtain delay store schemas deadline past h where r: "save_run (st_save cfg) (new_save cfg (cx_id c) (cx_request c) store schemas deadline) past h (Sleep c delay)"
    "map fst (concat past @ h) = cs" "subseq (map snd (concat past @ h)) as" using assms(1) unfolding at_work_def runs_for_def by blast
  have "map fst (concat (past @ [h]) @ []) = cs" "subseq (map snd (concat (past @ [h]) @ [])) as" using r(2, 3) by simp_all
  note w = this
  show ?thesis
  proof (cases up)
    case True
    then show ?thesis unfolding runs_for_def using w save_run.Wake_up [OF r(1), of now key] by (simp only:) blast
  next
    case False
    then show ?thesis unfolding runs_for_def using r(2, 3) save_run.Wake_down [OF r(1), of now key] by (simp only: simp_thms) blast
  qed
qed

section \<open>Histories and queues\<close>

lemma queued_set_queue_sub: "set (queued (set_queue part q s)) \<subseteq> set (queued s) \<union> set q"
proof -
  have "snd ` set (AList.update part q m) \<subseteq> insert q (snd ` set m)" for m :: "(string \<times> save_context list) list" by (induction m) auto
  moreover have "snd ` set (AList.delete part m) \<subseteq> snd ` set m" for m :: "(string \<times> save_context list) list" by (induction m) auto
  ultimately have "snd ` set (sa_queues (set_queue part q s)) \<subseteq> insert q (snd ` set (sa_queues s))" unfolding set_queue_def by (simp add: subset_insertI2)
  then have "\<Union> (set ` snd ` set (sa_queues (set_queue part q s))) \<subseteq> \<Union> (set ` insert q (snd ` set (sa_queues s)))" by (intro Union_mono image_mono)
  then show ?thesis by (simp add: queued_def image_image Un_commute)
qed

lemma queue_of_sub: "set (queue_of s part) \<subseteq> set (queued s)"
proof (cases "map_of (sa_queues s) part")
  case (Some q)
  from map_of_SomeD [OF this] show ?thesis using Some by (force simp: queue_of_def queued_def)
qed (simp add: queue_of_def)

lemma held_set_queue: "held (set_queue part q s) \<subseteq> held s \<union> (\<lambda>c. (cx_id c, cx_request c)) ` set q"
  using queued_set_queue_sub [of part q s] by (auto simp: held_def)

lemma held_head: "queue_of s part = q \<Longrightarrow> (\<lambda>c. (cx_id c, cx_request c)) ` set q \<subseteq> held s"
  using queue_of_sub [of s part] by (auto simp: held_def)

lemma held_fields [simp]: "held (count_key s) = held s" "held (s\<lparr>sa_in_flight := n\<rparr>) = held s" "held (s\<lparr>sa_drain_waiters := ws\<rparr>) = held s"
  by (simp_all add: held_def queued_def)

lemma told_set_queue: "told cfg i as cs s \<Longrightarrow> queue_told cfg i as cs q \<Longrightarrow> told cfg i as cs (set_queue part q s)"
  by (simp add: told_def)

lemma told_queue: "told cfg i as cs s \<Longrightarrow> queue_told cfg i as cs (queue_of s part)"
  by (simp add: told_def)

lemma told_same: "told cfg i as cs s \<Longrightarrow> sa_queues s' = sa_queues s \<Longrightarrow> sa_schema_waiters s' = sa_schema_waiters s \<Longrightarrow> told cfg i as cs s'"
  by (simp add: told_def queue_of_def)

lemma traced_quiet:
  assumes "told cfg i as cs s" "sa_queues s' = sa_queues s" "sa_schema_waiters s' = sa_schema_waiters s" "\<And>r. Save_reply i r \<notin> set fx" "calls i fx = []"
  shows "traced cfg i as K s cs (s', fx)"
  using assms told_same [OF assms(1-3)] by (auto simp: traced_def held_def queued_def)

text \<open>A save that is held once, as the number of saves of each number tells.\<close>

abbreviation once :: "nat \<Rightarrow> nat multiset \<Rightarrow> bool" where
  "once i saves \<equiv> count saves i \<le> 1"

lemma once_answered:
  assumes "save_replies fx + pending_saves s' = pending_saves s + new" "once i (pending_saves s + new)" "Save_reply i r \<in> set fx"
  shows "i \<notin> fst ` held s'"
proof -
  have "i \<in># save_replies fx" using assms(3) by (induction fx) (auto split: effect.splits)
  then have "count (save_replies fx) i > 0" by simp
  moreover have "count (save_replies fx) i + count (pending_saves s') i \<le> 1" using assms(1, 2) by (metis count_union)
  ultimately have "count (pending_saves s') i = 0" by linarith
  then show ?thesis by (simp add: held_pending not_in_iff)
qed

lemma traced_trans:
  assumes "traced cfg i as K s cs (s', fx)" "traced cfg i as K' s' (cs @ calls i fx) (s'', fx')" "\<And>r. Save_reply i r \<in> set fx \<Longrightarrow> i \<notin> fst ` (held s' \<union> K')"
  shows "traced cfg i as (K \<union> K') s cs (s'', fx @ fx')"
proof -
  note a = assms(1, 2) [unfolded traced_def prod.case]
  have sub: "held s' \<union> K' \<subseteq> held s \<union> (K \<union> K')" using a(1) by blast
  have "justified cfg (held s \<union> (K \<union> K')) as (cs @ calls i (fx @ fx')) i r" if "Save_reply i r \<in> set (fx @ fx')" for r
  proof (cases "Save_reply i r \<in> set fx")
    case True
    then have "calls i fx' = []" using a(2) assms(3) by blast
    moreover have "justified cfg (held s \<union> K) as (cs @ calls i fx) i r" using a(1) True by blast
    ultimately show ?thesis using justified_mono [of cfg "held s \<union> K" as "cs @ calls i fx" i r "held s \<union> (K \<union> K')" as] by auto
  next
    case False
    then have "justified cfg (held s' \<union> K') as ((cs @ calls i fx) @ calls i fx') i r" using a(2) that by auto
    then show ?thesis using justified_mono [OF _ sub] by auto
  qed
  moreover have "calls i (fx @ fx') = []" if "i \<notin> fst ` (held s \<union> (K \<union> K'))"
  proof -
    have "i \<notin> fst ` (held s \<union> K)" "i \<notin> fst ` (held s' \<union> K')" using that sub by blast+
    then show ?thesis using a by simp
  qed
  moreover have "held s'' \<subseteq> held s \<union> (K \<union> K')" using a(2) sub by blast
  moreover have "told cfg i as (cs @ calls i (fx @ fx')) s''" using a(2) by simp
  ultimately show ?thesis unfolding traced_def by blast
qed

text \<open>The head of a queue that leaves, and a save that is nowhere else.\<close>

lemma pop_held:
  assumes "base_ok s" "queue_of s part = c # rest" "operation_finished (set_queue part rest s) = (s', fx)"
  shows "base_ok s'" "{#cx_id c#} + pending_saves s' = pending_saves s" "held s' \<subseteq> held s" "queue_of s' p = (if p = part then rest else queue_of s p)"
    "sa_schema_waiters s' = sa_schema_waiters s" "\<exists>as. fx = map Drained as"
proof -
  have d: "keys_distinct (sa_queues s)" using assms(1) by (simp add: base_ok_def)
  let ?s = "set_queue part rest s"
  have "mset (queued ?s) + mset (c # rest) = mset (queued s) + mset rest" using queued_set_queue [OF d, of part rest] assms(2) by simp
  then have m: "mset (queued s) = add_mset c (mset (queued ?s))" by simp
  from arg_cong [OF this, of size] have l: "length (queued s) = Suc (length (queued ?s))" by simp
  obtain ws where n: "s' = ?s\<lparr>sa_in_flight := sa_in_flight s - 1, sa_drain_waiters := ws\<rparr>" "\<exists>as. fx = map Drained as"
  proof (cases "sa_draining s \<and> sa_in_flight s - 1 = 0 \<and> \<not> sa_schema_loading s")
    case True
    then show ?thesis using assms(3) that [of "[]"] by (auto simp: operation_finished_def notify_drained_def)
  next
    case False
    then have "s' = ?s\<lparr>sa_in_flight := sa_in_flight s - 1\<rparr>" "fx = []" using assms(3) by (auto simp: operation_finished_def notify_drained_def)
    then show ?thesis using that [of "sa_drain_waiters s"] by simp
  qed
  have f: "sa_queues s' = sa_queues ?s" "queued s' = queued ?s" "sa_loads s' = sa_loads s" "load_ids s' = load_ids s" "sa_schema_waiters s' = sa_schema_waiters s"
    "sa_schema_loading s' = sa_schema_loading s" "sa_in_flight s' = sa_in_flight s - 1"
    by (simp_all add: n(1) queued_def load_ids_def)
  show "base_ok s'" using assms(1) f l set_queue_distinct [OF d, of part rest] by (auto simp: base_ok_def)
  show "{#cx_id c#} + pending_saves s' = pending_saves s" using m by (simp add: pending_saves_def f)
  have "held s' = held ?s" by (simp add: held_def f)
  then show "held s' \<subseteq> held s" using held_set_queue [of part rest s] held_head [OF assms(2)] by auto
  show "queue_of s' p = (if p = part then rest else queue_of s p)" using queue_of_set [of part rest s p] by (simp add: queue_of_def f)
  show "sa_schema_waiters s' = sa_schema_waiters s" "\<exists>as. fx = map Drained as" by (rule f(5), rule n(2))
qed

lemma pop_absent:
  assumes "base_ok s" "queue_of s part = c # rest" "once (cx_id c) (pending_saves s)"
  shows "cx_id c \<notin> cx_id ` set rest" "p \<noteq> part \<Longrightarrow> cx_id c \<notin> cx_id ` set (queue_of s p)" "cx_id c \<notin> fst ` waiting_requests (sa_schema_waiters s)"
    "operation_finished (set_queue part rest s) = (s', fx) \<Longrightarrow> cx_id c \<notin> fst ` held s'"
proof -
  have h: "cx_id c \<notin> fst ` held s' \<and> sa_schema_waiters s' = sa_schema_waiters s \<and> queue_of s' part = rest \<and> (\<forall>p. p \<noteq> part \<longrightarrow> queue_of s' p = queue_of s p)"
    if f: "operation_finished (set_queue part rest s) = (s', fx)" for s' fx
  proof -
    note pop = pop_held [OF assms(1, 2) f]
    have "count (pending_saves s) (cx_id c) = Suc (count (pending_saves s') (cx_id c))" unfolding pop(2) [symmetric] by simp
    then have "count (pending_saves s') (cx_id c) = 0" using assms(3) by simp
    then show ?thesis using pop(4, 5) by (simp add: held_pending not_in_iff)
  qed
  then show "operation_finished (set_queue part rest s) = (s', fx) \<Longrightarrow> cx_id c \<notin> fst ` held s'" by blast
  obtain s1 fx1 where f: "operation_finished (set_queue part rest s) = (s1, fx1)" by fastforce
  note a = h [OF f]
  have "cx_id c \<notin> cx_id ` set (queue_of s1 p)" for p using a held_head [of s1 p "queue_of s1 p"] by (fastforce simp: image_iff)
  then show "cx_id c \<notin> cx_id ` set rest" "p \<noteq> part \<Longrightarrow> cx_id c \<notin> cx_id ` set (queue_of s p)" using a by metis+
  show "cx_id c \<notin> fst ` waiting_requests (sa_schema_waiters s)" using a by (auto simp: held_def)
qed

lemma queue_told_absent: "queue_told cfg i as cs q \<Longrightarrow> i \<notin> cx_id ` set q \<Longrightarrow> queue_told cfg i as cs' q"
  by (auto simp: queue_told_def split: list.splits)

text \<open>Everything but the head of one queue fits.\<close>

definition others_told :: "store_config \<Rightarrow> nat \<Rightarrow> answer list \<Rightarrow> message list \<Rightarrow> string \<Rightarrow> store_actor \<Rightarrow> bool" where
  "others_told cfg i as cs part s \<longleftrightarrow> (\<forall>p. p \<noteq> part \<longrightarrow> queue_told cfg i as cs (queue_of s p)) \<and> (\<forall>d \<in> set (tl (queue_of s part)). (cx_id d = i \<longrightarrow> cs = []) \<and> not_begun cfg d) \<and>
     (i \<in> fst ` waiting_requests (sa_schema_waiters s) \<longrightarrow> cs = [])"

lemma told_others: "told cfg i as cs s \<Longrightarrow> others_told cfg i as cs part s"
proof -
  assume t: "told cfg i as cs s"
  then have "queue_told cfg i as cs (queue_of s part)" by (rule told_queue)
  then show ?thesis using t by (cases "queue_of s part") (auto simp: told_def others_told_def queue_told_def)
qed

lemma others_toldI:
  assumes "others_told cfg i as cs part s" "queue_told cfg i as cs q"
  shows "told cfg i as cs (set_queue part q s)"
  using assms by (auto simp: told_def others_told_def)

lemma settle_traced:
  assumes "base_ok s" "once i (pending_saves s)" "queue_of s part = c0 # rest" "others_told cfg i as cs part s" "cx_id c0 = i \<Longrightarrow> runs_for cfg as cs i (cx_request c0) p"
    "cx_id (progress_context p) = cx_id c0" "cx_request (progress_context p) = cx_request c0"
  shows "traced cfg i as {} s cs (settle cfg now part p s)"
  using assms
proof (induction cfg now part p s arbitrary: c0 rest rule: settle.induct)
  case (1 cfg now part c m s)
  let ?s = "set_queue part (c # rest) s"
  have "held ?s \<subseteq> held s" using held_set_queue [of part "c # rest" s] held_head [OF 1(3)] 1(6, 7) by auto
  moreover have "told cfg i as (cs @ calls i [Save_call (cx_id c) m]) ?s"
  proof (cases "cx_id c0 = i")
    case True
    note a = pop_absent [OF 1(1, 3), unfolded True, OF 1(2)]
    have w: "at_work cfg as (cs @ [m]) c" using 1(5-7) True by (auto simp: at_work_def)
    have o: "queue_told cfg i as (cs @ [m]) (queue_of s p)" if "p \<noteq> part" for p using 1(4) a(2) that queue_told_absent by (auto simp: others_told_def)
    have "queue_told cfg i as (cs @ [m]) (c # rest)" using w a(1) 1(3, 4) by (auto simp: queue_told_def others_told_def)
    then show ?thesis using o a(3) 1(6) True by (auto simp: told_def)
  next
    case False
    then have "queue_told cfg i as cs (c # rest)" using 1(3, 4, 6) by (auto simp: queue_told_def others_told_def)
    then show ?thesis using others_toldI [OF 1(4)] False 1(6) by simp
  qed
  moreover have "calls i [Save_call (cx_id c) m] = []" if "i \<notin> fst ` held s" using that held_head [OF 1(3)] 1(6) by (force simp: image_iff)
  ultimately show ?case using 1(3) by (simp add: traced_def)
next
  case (2 cfg now part c delay s)
  let ?s = "set_queue part (c # rest) s"
  have "held ?s \<subseteq> held s" using held_set_queue [of part "c # rest" s] held_head [OF 2(3)] 2(6, 7) by auto
  moreover have "queue_told cfg i as cs (c # rest)" using 2(3-7) by (auto simp: queue_told_def others_told_def at_work_def)
  ultimately show ?case using others_toldI [OF 2(4)] 2(3) by (simp add: traced_def)
next
  case (3 cfg now part c r s)
  have i: "cx_id c = cx_id c0" using 3(7) by simp
  obtain s' drained where f: "operation_finished (set_queue part rest s) = (s', drained)" by fastforce
  note pop = pop_held [OF 3(2, 4) f]
  have tl: "tl (queue_of s part) = rest" using 3(4) by simp
  obtain as' where d: "drained = map Drained as'" using pop(6) by blast
  have j: "justified cfg (held s) as cs i r" if "cx_id c = i"
    using 3(6) that i held_head [OF 3(4)] unfolding justified_def by auto
  have gone: "i \<notin> fst ` held s'" if "cx_id c = i" using pop_absent(4) [OF 3(2, 4) _ f] 3(3) i that by auto
  have q: "queue_of s' p = (if p = part then rest else queue_of s p)" for p by (rule pop_held(4) [OF 3(2, 4) f])
  show ?case
  proof (cases rest)
    case Nil
    have "told cfg i as cs s'" using 3(5) Nil pop(5) by (auto simp: told_def others_told_def q queue_told_def)
    then show ?thesis using f tl Nil d pop(3) j by (auto simp: traced_def)
  next
    case (Cons n more')
    let ?p = "start_save (st_save cfg) (now 0) (transaction_key cfg s') n"
    have o: "others_told cfg i as cs part (count_key s')" using 3(5) Cons pop(5) tl by (auto simp: others_told_def q)
    have n: "not_begun cfg n" "cx_id n = i \<Longrightarrow> cs = []" using 3(5) Cons tl by (auto simp: others_told_def)
    have on: "once i (pending_saves (count_key s'))" using 3(3) pop(2) by (metis count_key_ok(3) count_union le_add2 order_trans)
    have p: "cx_id (progress_context ?p) = cx_id n" "cx_request (progress_context ?p) = cx_request n" using runs_for_same [OF runs_for_start [OF n(1)]] by blast+
    have t: "traced cfg i as {} (count_key s') cs (settle cfg (later 1 now) part ?p (count_key s'))"
    proof (rule 3(1) [where ?c0.0 = n and rest = more'])
      show "base_ok (count_key s')" using pop(1) by (simp add: count_key_ok)
      show "queue_of (count_key s') part = n # more'" using Cons q by simp
      show "runs_for cfg as cs i (cx_request n) ?p" if "cx_id n = i" using runs_for_start [OF n(1)] n(2) that by auto
    qed (use f tl Cons o on p in auto)
    obtain s'' fx where r: "settle cfg (later 1 now) part ?p (count_key s') = (s'', fx)" by fastforce
    have u: "held s'' \<subseteq> held s'" "i \<notin> fst ` held s' \<Longrightarrow> calls i fx = []" "told cfg i as (cs @ calls i fx) s''"
      "\<And>r. Save_reply i r \<in> set fx \<Longrightarrow> justified cfg (held s') as (cs @ calls i fx) i r" using t unfolding r by (simp_all add: traced_def)
    have "justified cfg (held s) as (cs @ calls i fx) i r'" if "Save_reply i r' \<in> set (Save_reply (cx_id c) r # drained @ fx)" for r'
    proof (cases "Save_reply i r' \<in> set fx")
      case True
      then show ?thesis using justified_mono [OF u(4) pop(3) subseq_order.order_refl] by blast
    next
      case False
      then have "cx_id c = i" "r' = r" using that d by auto
      then show ?thesis using j u(2) gone by simp
    qed
    moreover have "settle cfg now part (Done c r) s = (s'', Save_reply (cx_id c) r # drained @ fx)" using f tl Cons r by simp
    moreover have "i \<notin> fst ` held s \<Longrightarrow> calls i (Save_reply (cx_id c) r # drained @ fx) = []" using u(2) pop(3) d by auto
    ultimately show ?thesis using u(1, 3) pop(3) d by (auto simp: traced_def simp del: settle.simps)
  qed
qed

lemma traced_from: "traced cfg i as {} s1 cs res \<Longrightarrow> held s1 \<subseteq> held s \<union> K \<Longrightarrow> traced cfg i as K s cs res"
  using justified_mono [of cfg "held s1" as _ i _ "held s \<union> K" as] by (auto simp: traced_def)

section \<open>Histories and handlers\<close>

lemma save_ready_traced:
  assumes "core_ok cfg s" "once i (pending_saves s + {#j#})" "told cfg i as cs s" "i = j \<Longrightarrow> cs = []"
  shows "traced cfg i as {(j, request)} s cs (save_ready cfg now up j request deadline s)"
proof -
  have r: "traced cfg i as {(j, request)} s cs (s, [Save_reply j (save_error request code error)])" if "code \<noteq> Ok" for code error
    using that assms(3) by (auto simp: traced_def intro: justified_error)
  have e: "traced cfg i as {(j, request)} s cs
      (let c = new_save cfg j request store schemas deadline; part = partition_key store request; q = queue_of s part;
           s = (set_queue part (q @ [c]) s)\<lparr>sa_in_flight := sa_in_flight s + 1\<rparr>
       in if q = [] then settle cfg (later 2 now) part (start_save (st_save cfg) (now 1) (transaction_key cfg s) c) (count_key s) else (s, []))" for store schemas
  proof -
    let ?c = "new_save cfg j request store schemas deadline" and ?part = "partition_key store request"
    define q where "q = queue_of s ?part"
    define s1 where "s1 = (set_queue ?part (q @ [?c]) s)\<lparr>sa_in_flight := sa_in_flight s + 1\<rparr>"
    note p = push_ok [OF assms(1), where part = ?part and q = q and c = ?c, folded s1_def, OF q_def [symmetric]]
    have nb: "not_begun cfg ?c" by (auto simp: not_begun_def)
    have h: "held s1 \<subseteq> held s \<union> {(j, request)}" using held_set_queue [of ?part "q @ [?c]" s] held_head [of s ?part q] by (auto simp: s1_def q_def)
    have w: "sa_schema_waiters s1 = sa_schema_waiters s" "\<And>p. p \<noteq> ?part \<Longrightarrow> queue_of s1 p = queue_of s p" by (simp_all add: s1_def)
    show ?thesis
    proof (cases "q = []")
      case True
      let ?p = "start_save (st_save cfg) (now 1) (transaction_key cfg s1) ?c"
      have "traced cfg i as {} (count_key s1) cs (settle cfg (later 2 now) ?part ?p (count_key s1))"
      proof (rule settle_traced [where ?c0.0 = ?c and rest = "[]"])
        show "once i (pending_saves (count_key s1))" using assms(2) p(4) by (simp add: count_key_ok)
        show "others_told cfg i as cs ?part (count_key s1)" using told_others [OF assms(3), of ?part] w p(3) True by (auto simp: others_told_def)
        show "runs_for cfg as cs i (cx_request ?c) ?p" if "cx_id ?c = i" using runs_for_start [OF nb] assms(4) that by auto
        show "cx_id (progress_context ?p) = cx_id ?c" "cx_request (progress_context ?p) = cx_request ?c" using runs_for_same [OF runs_for_start [OF nb]] by blast+
      qed (use p(1, 3) True in \<open>simp_all add: count_key_ok\<close>)
      then have "traced cfg i as {(j, request)} s cs (settle cfg (later 2 now) ?part ?p (count_key s1))" by (rule traced_from) (use h in simp)
      then show ?thesis unfolding Let_def q_def [symmetric] s1_def [symmetric] if_P [OF True] .
    next
      case False
      have "queue_told cfg i as cs q" using told_queue [OF assms(3)] by (simp add: q_def)
      then have "queue_told cfg i as cs (q @ [?c])" using False nb assms(4) by (cases q) (auto simp: queue_told_def)
      then have "told cfg i as cs s1" using told_set_queue [OF assms(3), of "q @ [?c]" ?part] told_same [of cfg i as cs _ s1] by (simp add: s1_def)
      then have "traced cfg i as {(j, request)} s cs (s1, [])" using h by (simp add: traced_def)
      then show ?thesis unfolding Let_def q_def [symmetric] s1_def [symmetric] if_not_P [OF False] .
    qed
  qed
  show ?thesis unfolding save_ready_def Let_def [of "\<lambda>code error. _ code error"]
    using r e by (simp split: option.splits sum.splits)
qed

lemma end_load_traced: "told cfg i as cs s \<Longrightarrow> traced cfg i as K s cs (end_load j r s)"
  by (simp add: end_load_def operation_finished_def notify_drained_def) (auto intro!: traced_quiet)

lemma retry_load_traced: "told cfg i as cs s \<Longrightarrow> traced cfg i as K s cs (retry_load cfg' now j error retryable c s)"
  using end_load_traced by (auto simp: retry_load_def Let_def intro!: traced_quiet)

lemma start_load_traced: "told cfg i as cs s \<Longrightarrow> traced cfg i as K s cs (start_load cfg' now up j c s)"
  using retry_load_traced by (auto simp: start_load_def Let_def intro!: traced_quiet)

lemma load_answer_traced: "told cfg i as cs s \<Longrightarrow> traced cfg i as K s cs (on_load_answer cfg' now j a c s)"
  using retry_load_traced end_load_traced by (simp add: on_load_answer_def split: answer.splits)

lemma load_ready_traced:
  assumes "told cfg i as cs s"
  shows "traced cfg i as K s cs (load_ready cfg' now up j request deadline s)"
proof -
  have "traced cfg i as K s cs (s, [Load_reply j r])" for r by (rule traced_quiet [OF assms]) auto
  moreover have "traced cfg i as K s cs (start_load cfg' (later 1 now) (later 1 up) j c (s\<lparr>sa_in_flight := Suc (sa_in_flight s)\<rparr>))" for c
    using start_load_traced [OF told_same [OF assms], of "s\<lparr>sa_in_flight := Suc (sa_in_flight s)\<rparr>" K] by (simp add: traced_def split: prod.splits)
  ultimately show ?thesis by (simp add: load_ready_def Let_def split: option.splits sum.splits)
qed

lemma waiting_ids: "fst ` waiting_requests ws = set_mset (waiting_saves ws)"
  by (induction ws) (force simp: waiting_requests_def split: waiter.splits)+

lemma run_waiters_traced:
  assumes "core_ok cfg s" "sa_schema_waiters s = []" "distinct (map fst (sa_loads s) @ waiting_loads ws)" "drain_known s"
    "once i (pending_saves s + waiting_saves ws)" "told cfg i as cs s" "i \<in># waiting_saves ws \<Longrightarrow> cs = []"
  shows "traced cfg i as (waiting_requests ws) s cs (run_waiters cfg now up ws s)"
  using assms
proof (induction ws arbitrary: s now up cs)
  case Nil
  then show ?case by (simp add: traced_def)
next
  case (Cons w ws)
  obtain s' fx where w: "run_waiter cfg now up w s = (s', fx)" by fastforce
  obtain s'' fx' where ws: "run_waiters cfg (later 3 now) (later 3 up) ws s' = (s'', fx')" by fastforce
  have a: "accepted cfg (waiting_saves [w]) s (s', fx)" "distinct (map fst (sa_loads s') @ waiting_loads ws)"
    using run_waiter_accepted [OF Cons.prems(1-4), of now up] w by simp_all
  have eq: "save_replies fx + pending_saves s' = pending_saves s + waiting_saves [w]" using a(1) by (simp add: accepted_def)
  have all: "count (save_replies fx) i + count (pending_saves s') i + count (waiting_saves ws) i \<le> 1"
    using arg_cong [OF eq, of "\<lambda>M. count M i"] Cons.prems(5) by simp
  have t: "traced cfg i as (waiting_requests [w]) s cs (s', fx)"
  proof (cases w)
    case (Wait_save j request deadline)
    have "traced cfg i as {(j, request)} s cs (save_ready cfg now up j request deadline s)"
      by (rule save_ready_traced [OF Cons.prems(1) _ Cons.prems(6)]) (use Cons.prems(5, 7) Wait_save in auto)
    then show ?thesis using w Wait_save by (simp add: run_waiter_def waiting_requests_def)
  next
    case (Wait_load j request deadline)
    then show ?thesis using w load_ready_traced [OF Cons.prems(6), of "waiting_requests [w]" cfg now up j request deadline] by (simp add: run_waiter_def)
  qed
  have "traced cfg i as (waiting_requests ws) s' (cs @ calls i fx) (s'', fx')"
  proof (rule Cons.IH [of s' "cs @ calls i fx" "later 3 now" "later 3 up", unfolded ws])
    show "core_ok cfg s'" "sa_schema_waiters s' = []" using a(1) Cons.prems(2) by (simp_all add: accepted_def)
    show "drain_known s'" by (rule accepted_known [OF a(1) Cons.prems(4)])
    show "once i (pending_saves s' + waiting_saves ws)" using all by simp
    show "told cfg i as (cs @ calls i fx) s'" using t by (simp add: traced_def)
    assume i: "i \<in># waiting_saves ws"
    then have "count (waiting_saves ws) i > 0" by simp
    moreover have "count (pending_saves s) i + count (waiting_saves [w]) i + count (waiting_saves ws) i \<le> 1" using Cons.prems(5) by simp
    ultimately have "count (pending_saves s) i + count (waiting_saves [w]) i = 0" by linarith
    then have "i \<notin> fst ` (held s \<union> waiting_requests [w])" by (simp only: image_Un held_pending waiting_ids) (simp add: count_eq_zero_iff)
    then show "cs @ calls i fx = []" using t Cons.prems(7) i by (simp add: traced_def)
  qed (rule a(2))
  moreover have "i \<notin> fst ` (held s' \<union> waiting_requests ws)" if "Save_reply i r \<in> set fx" for r
  proof -
    have "i \<in># save_replies fx" using that by (induction fx) (auto split: effect.splits)
    then have "count (save_replies fx) i > 0" by simp
    then have "count (pending_saves s') i = 0" "count (waiting_saves ws) i = 0" using all by linarith+
    then show ?thesis by (simp add: image_Un held_pending waiting_ids count_eq_zero_iff)
  qed
  ultimately have "traced cfg i as (waiting_requests [w] \<union> waiting_requests ws) s cs (s'', fx @ fx')" by (rule traced_trans [OF t])
  moreover have "waiting_requests [w] \<union> waiting_requests ws = waiting_requests (w # ws)" by (auto simp: waiting_requests_def)
  ultimately show ?case using w ws by simp
qed

lemma notify_traced: "told cfg i as cs s \<Longrightarrow> traced cfg i as K s cs (notify_drained s)"
  by (auto simp: notify_drained_def intro!: traced_quiet)

lemma finish_schema_traced:
  assumes "store_ok cfg s" "once i (pending_saves s)" "told cfg i as cs s"
  shows "traced cfg i as {} s cs (finish_schema cfg now up error s)"
proof -
  define s1 where "s1 = s\<lparr>sa_schema_loading := False, sa_config_error := (if error = [] then sa_config_error s else error), sa_schema_waiters := []\<rparr>"
  let ?ws = "sa_schema_waiters s"
  have c: "core_ok cfg s" "drain_ok s" using assms(1) by (simp_all add: store_ok_def)
  obtain s2 fx where r: "run_waiters cfg now up ?ws s1 = (s2, fx)" by fastforce
  obtain s3 fx' where n: "notify_drained s2 = (s3, fx')" by fastforce
  have p: "pending_saves s = pending_saves s1 + waiting_saves ?ws" by (simp add: pending_saves_def s1_def queued_def)
  have "traced cfg i as (waiting_requests ?ws) s1 cs (run_waiters cfg now up ?ws s1)"
  proof (rule run_waiters_traced)
    show "core_ok cfg s1" using c(1) by (simp add: s1_def core_ok_def base_ok_def load_ids_def queued_def)
    show "distinct (map fst (sa_loads s1) @ waiting_loads ?ws)" using c(1) by (simp add: s1_def core_ok_def base_ok_def load_ids_def)
    show "drain_known s1" using c(2) by (auto simp: s1_def drain_known_def drain_ok_def)
    show "once i (pending_saves s1 + waiting_saves ?ws)" using assms(2) p by simp
    show "told cfg i as cs s1" using assms(3) by (simp add: told_def queue_of_def s1_def waiting_requests_def)
    show "i \<in># waiting_saves ?ws \<Longrightarrow> cs = []" using assms(3) by (simp add: told_def waiting_ids)
  qed (simp add: s1_def)
  then have t: "traced cfg i as (waiting_requests ?ws) s1 cs (s2, fx)" using r by simp
  then have n2: "traced cfg i as {} s2 (cs @ calls i fx) (s3, fx')" using notify_traced [of cfg i as "cs @ calls i fx" s2 "{}"] n by (simp add: traced_def)
  have q: "calls i fx' = []" "\<And>r. Save_reply i r \<notin> set fx'" "held s3 = held s2" using n by (auto simp: notify_drained_def split: if_splits)
  have "held s = held s1 \<union> waiting_requests ?ws" by (auto simp: held_def s1_def queued_def waiting_requests_def)
  then show ?thesis using t n2 q r n by (auto simp: finish_schema_def Let_def s1_def [symmetric] traced_def)
qed

lemma discover_next_traced: "store_ok cfg s \<Longrightarrow> once i (pending_saves s) \<Longrightarrow> told cfg i as cs s \<Longrightarrow> traced cfg i as {} s cs (discover_next_schema cfg now up s)"
  using finish_schema_traced by (auto simp: discover_next_schema_def intro!: traced_quiet split: prod.splits option.splits)

lemma metadata_traced:
  assumes "store_ok cfg s" "once i (pending_saves s)" "told cfg i as cs s"
  shows "traced cfg i as {} s cs (on_metadata cfg now up a s)"
proof -
  have "traced cfg i as {} s cs (discover_next_schema cfg (later 1 now) (later 1 up) (s\<lparr>sa_catalog := catalog, sa_discovery_index := n\<rparr>))" for catalog n
  proof -
    let ?s = "s\<lparr>sa_catalog := catalog, sa_discovery_index := n\<rparr>"
    have "queued ?s = queued s" "load_ids ?s = load_ids s" by (simp_all add: queued_def load_ids_def)
    then have "store_ok cfg ?s" "pending_saves ?s = pending_saves s" "held ?s = held s" using assms(1)
      by (auto simp: store_ok_def core_ok_def base_ok_def drain_ok_def pending_saves_def held_def)
    then show ?thesis using discover_next_traced [of cfg ?s i as cs "later 1 now" "later 1 up"] assms(2) told_same [OF assms(3), of ?s] by (simp add: traced_def)
  qed
  then show ?thesis using finish_schema_traced [OF assms] traced_quiet [OF assms(3)]
    by (simp add: on_metadata_def split: answer.splits prod.splits option.splits sum.splits)
qed

lemma boot_traced: "traced cfg i [] {} (new_store catalog error) [] (initialize_schema cfg now up (new_store catalog error))"
proof -
  let ?s = "new_store catalog error"
  have t: "told cfg i [] [] ?s" "told cfg i [] [] (?s\<lparr>sa_targets := t, sa_schema_loading := True, sa_schema_deadline := d\<rparr>)" for t d
    by (simp_all add: told_def new_store_def queue_of_def queue_told_def)
  have "traced cfg i [] {} ?s [] (discover_next_schema cfg (later 1 now) (later 1 up) (?s\<lparr>sa_targets := t, sa_schema_loading := True, sa_schema_deadline := d\<rparr>))" for t d
  proof -
    let ?t = "?s\<lparr>sa_targets := t, sa_schema_loading := True, sa_schema_deadline := d\<rparr>"
    have "store_ok cfg ?t" "pending_saves ?t = {#}" "held ?t = held ?s"
      by (simp_all add: new_store_def store_ok_def core_ok_def base_ok_def drain_ok_def load_ids_def queued_def pending_saves_def held_def)
    then show ?thesis using discover_next_traced [OF _ _ t(2) [where t = t and d = d], of "later 1 now" "later 1 up"] by (simp add: traced_def)
  qed
  then show ?thesis using traced_quiet [OF t(1)] by (simp add: initialize_schema_def Let_def)
qed

text \<open>The saves an event brings.\<close>

definition brings :: "event \<Rightarrow> (nat \<times> save_request) set" where
  "brings e = (case e of Save_message i request \<Rightarrow> {(i, request)} | _ \<Rightarrow> {})"

lemma on_save_traced:
  assumes "store_ok cfg s" "once i (pending_saves s + {#j#})" "told cfg i as cs s" "i = j \<Longrightarrow> cs = []"
  shows "traced cfg i as {(j, request)} s cs (on_save cfg now up j request s)"
proof -
  have "traced cfg i as {(j, request)} s cs (s, [Save_reply j (save_error request Unavailable error)])" for error
    using assms(3) by (auto simp: traced_def intro: justified_error)
  moreover have "traced cfg i as {(j, request)} s cs (s\<lparr>sa_schema_waiters := sa_schema_waiters s @ [Wait_save j request deadline]\<rparr>, [])" for deadline
    using assms(3, 4) by (auto simp: traced_def held_def queued_def told_def queue_of_def waiting_requests_def image_iff)
  moreover have "core_ok cfg s" using assms(1) by (simp add: store_ok_def)
  then have "traced cfg i as {(j, request)} s cs (save_ready cfg (later 1 now) (later 1 up) j request deadline s)" for deadline
    by (rule save_ready_traced [OF _ assms(2-4)])
  ultimately show ?thesis by (simp add: on_save_def Let_def)
qed

lemma on_load_traced: "told cfg i as cs s \<Longrightarrow> traced cfg i as {} s cs (on_load cfg' now up j request s)"
proof -
  assume t: "told cfg i as cs s"
  then have "traced cfg i as {} s cs (s\<lparr>sa_schema_waiters := sa_schema_waiters s @ [Wait_load j request deadline]\<rparr>, [])" for deadline
    by (auto simp: traced_def held_def queued_def told_def queue_of_def waiting_requests_def)
  then show ?thesis using load_ready_traced [OF t] traced_quiet [OF t] by (simp add: on_load_def Let_def)
qed

lemma told_head: "told cfg i as cs s \<Longrightarrow> queue_of s part = c # rest \<Longrightarrow> cx_id c = i \<Longrightarrow> at_work cfg as cs c"
  using told_queue [of cfg i as cs s part] by (simp add: queue_told_def)

lemma save_answer_traced:
  assumes "store_ok cfg s" "once i (pending_saves s)" "told cfg i as cs s"
  shows "traced cfg i (as @ (if j = i then [a] else [])) {} s cs (on_save_answer cfg now j a s)"
proof -
  let ?as = "as @ (if j = i then [a] else [])"
  have t: "told cfg i ?as cs s" by (rule told_mono [OF assms(3)]) (simp add: prefix_imp_subseq)
  have q: "traced cfg i ?as {} s cs (s, [])" by (rule traced_quiet [OF t]) auto
  show ?thesis
  proof (cases "at_head j s")
    case (Some x)
    obtain part c where x: "x = (part, c)" by (cases x)
    obtain rest where h: "queue_of s part = c # rest" "active (st_save cfg) c" "cx_id c = j" using head_active [OF assms(1)] Some x by metis
    have b: "base_ok s" using assms(1) by (simp add: store_ok_def core_ok_def)
    have "traced cfg i ?as {} s cs (settle cfg (later 1 now) part (advance (st_save cfg) (now 0) a c) s)" if "cx_stage c \<noteq> Sleeping"
    proof (rule settle_traced [OF b assms(2) h(1) told_others [OF t]])
      show "runs_for cfg ?as cs i (cx_request c) (advance (st_save cfg) (now 0) a c)" if "cx_id c = i"
        using runs_for_answer [OF told_head [OF assms(3) h(1) that] \<open>cx_stage c \<noteq> Sleeping\<close>] h(3) that by auto
      show "cx_id (progress_context (advance (st_save cfg) (now 0) a c)) = cx_id c" "cx_request (progress_context (advance (st_save cfg) (now 0) a c)) = cx_request c"
        using active_advance [OF h(2) that] by blast+
    qed
    then show ?thesis using q Some x by (simp add: on_save_answer_def)
  qed (use q in \<open>simp add: on_save_answer_def\<close>)
qed

lemma save_wake_traced:
  assumes "store_ok cfg s" "once i (pending_saves s)" "told cfg i as cs s"
  shows "traced cfg i as {} s cs (on_save_wake cfg now up j s)"
proof -
  have q: "traced cfg i as {} s cs (s, [])" by (rule traced_quiet [OF assms(3)]) auto
  show ?thesis
  proof (cases "at_head j s")
    case (Some x)
    obtain part c where x: "x = (part, c)" by (cases x)
    obtain rest where h: "queue_of s part = c # rest" "active (st_save cfg) c" "cx_id c = j" using head_active [OF assms(1)] Some x by metis
    have b: "base_ok s" using assms(1) by (simp add: store_ok_def core_ok_def)
    have "traced cfg i as {} s cs (settle cfg (later 1 now) part (wake (st_save cfg) (now 0) u (transaction_key cfg s) c) s')"
      if "cx_stage c = Sleeping" "s' = s \<or> s' = count_key s" for u s'
    proof (rule traced_from [OF settle_traced])
      show "base_ok s'" "once i (pending_saves s')" "queue_of s' part = c # rest" using that(2) b assms(2) h(1) by (auto simp: count_key_ok)
      show "others_told cfg i as cs part s'" using that(2) told_others [OF assms(3), of part] by (auto simp: others_told_def)
      show "held s' \<subseteq> held s \<union> {}" using that(2) by auto
      show "runs_for cfg as cs i (cx_request c) (wake (st_save cfg) (now 0) u (transaction_key cfg s) c)" if "cx_id c = i"
        using runs_for_wake [OF told_head [OF assms(3) h(1) that] \<open>cx_stage c = Sleeping\<close>] that by simp
      show "cx_id (progress_context (wake (st_save cfg) (now 0) u (transaction_key cfg s) c)) = cx_id c"
        "cx_request (progress_context (wake (st_save cfg) (now 0) u (transaction_key cfg s) c)) = cx_request c"
        using active_wake [OF h(2) that(1)] by blast+
    qed
    then show ?thesis using q Some x by (simp add: on_save_wake_def)
  qed (use q in \<open>simp add: on_save_wake_def\<close>)
qed

lemma on_event_traced:
  assumes "store_ok cfg s" "once i (pending_saves s + arrived e)" "told cfg i as cs s" "i \<in># arrived e \<Longrightarrow> cs = []"
  shows "traced cfg i (as @ answers i [e]) (brings e) s cs (on_event cfg now up e s)"
proof -
  have o: "once i (pending_saves s)" using assms(2) by simp
  have q: "traced cfg i as K s cs (s, [])" for K by (rule traced_quiet [OF assms(3)]) auto
  show ?thesis
  proof (cases e)
    case (Save_message j request)
    then show ?thesis using on_save_traced [OF assms(1) _ assms(3)] assms(2, 4) by (simp add: on_event_def brings_def arrived_def split: if_splits)
  next
    case (Save_answer j a)
    then show ?thesis using save_answer_traced [OF assms(1) o assms(3), of j a now] by (cases "j = i") (simp_all add: on_event_def brings_def)
  next
    case (Save_wake j)
    then show ?thesis using save_wake_traced [OF assms(1) o assms(3)] by (simp add: on_event_def brings_def)
  next
    case (Drain_message a)
    then show ?thesis using traced_quiet [OF assms(3)] by (simp add: on_event_def brings_def drain_def Let_def)
  next
    case Shutdown_hook
    then show ?thesis using traced_quiet [OF assms(3)] by (simp add: on_event_def brings_def)
  qed (use q on_load_traced [OF assms(3)] load_answer_traced [OF assms(3)] start_load_traced [OF assms(3)] metadata_traced [OF assms(1) o assms(3)]
      discover_next_traced [OF assms(1) o assms(3)] in \<open>simp_all add: on_event_def brings_def split: option.splits\<close>)
qed

lemma brings_arrived: "fst ` brings e = set_mset (arrived e)"
  by (cases e) (simp_all add: brings_def arrived_def)

lemma requested_append [simp]: "requested (es @ es') = requested es + requested es'" "requested [e] = arrived e" "requested [] = {#}"
  by (simp_all add: requested_def)

text \<open>The number of a save is used once.\<close>

lemma requested_once: "store_run cfg es fx s \<Longrightarrow> once i (requested es)"
proof (induction rule: store_run.induct)
  case (Event es fx s e now up s' fx')
  then show ?case by (cases e) (auto simp: new_request_def arrived_def count_eq_zero_iff split: if_splits)
qed simp

lemma store_run_traced:
  assumes "store_run cfg es fx s"
  shows "held s \<subseteq> \<Union> (brings ` set es) \<and> (i \<notin># requested es \<longrightarrow> calls i fx = []) \<and> told cfg i (answers i es) (calls i fx) s \<and>
    (\<forall>r. Save_reply i r \<in> set fx \<longrightarrow> justified cfg (\<Union> (brings ` set es)) (answers i es) (calls i fx) i r)"
  using assms
proof (induction rule: store_run.induct)
  case (Boot now up catalog config_error s fx)
  then show ?case using boot_traced [of cfg i catalog config_error now up]
    by (auto simp: traced_def held_def new_store_def queued_def waiting_requests_def)
next
  case (Event es fx s e now up s' fx')
  note ok = store_run_ok [OF Event.hyps(1)] and all = requested_once [OF store_run.Event [OF Event.hyps(1-3)], of i]
  have eq: "save_replies fx + pending_saves s = requested es" "store_ok cfg s" using ok by simp_all
  have n: "count (save_replies fx) i + count (pending_saves s) i + count (arrived e) i \<le> 1" using all by (simp add: eq(1) [symmetric])
  have new: "i \<in># arrived e \<Longrightarrow> calls i fx = []" using Event.IH Event.hyps(2) by (cases e) (auto simp: new_request_def arrived_def split: if_splits)
  let ?K = "\<Union> (brings ` set (es @ [e]))"
  have "traced cfg i (answers i es @ answers i [e]) (brings e) s (calls i fx) (on_event cfg now up e s)"
    by (rule on_event_traced [OF eq(2)]) (use Event.IH n new in auto)
  then have t: "traced cfg i (answers i (es @ [e])) (brings e) s (calls i fx) (s', fx')" using Event.hyps(3) by simp
  have k: "held s \<union> brings e \<subseteq> ?K" "\<Union> (brings ` set es) \<subseteq> ?K" using Event.IH by auto
  have "justified cfg ?K (answers i (es @ [e])) (calls i (fx @ fx')) i r" if r: "Save_reply i r \<in> set (fx @ fx')" for r
  proof (cases "Save_reply i r \<in> set fx")
    case True
    then have "i \<in># save_replies fx" by (induction fx) (auto split: effect.splits)
    then have "count (save_replies fx) i > 0" by simp
    then have "count (pending_saves s) i = 0" "count (arrived e) i = 0" using n by linarith+
    then have "i \<notin> fst ` (held s \<union> brings e)" by (simp add: image_Un held_pending brings_arrived count_eq_zero_iff)
    then have "calls i fx' = []" using t by (simp add: traced_def)
    moreover have "subseq (answers i es) (answers i (es @ [e]))" by (simp add: prefix_imp_subseq)
    moreover have "justified cfg (\<Union> (brings ` set es)) (answers i es) (calls i fx) i r" using Event.IH True by blast
    ultimately show ?thesis using justified_mono [OF _ k(2)] by simp
  next
    case False
    then have "justified cfg (held s \<union> brings e) (answers i (es @ [e])) (calls i (fx @ fx')) i r" using r t by (simp add: traced_def)
    then show ?thesis using justified_mono [OF _ k(1) subseq_order.order_refl] by blast
  qed
  moreover have "calls i (fx @ fx') = []" if "i \<notin># requested (es @ [e])"
  proof -
    have "i \<notin># requested es" "i \<notin># arrived e" using that by simp_all
    moreover have "i \<notin># pending_saves s" using \<open>i \<notin># requested es\<close> by (simp add: eq(1) [symmetric])
    ultimately show ?thesis using t Event.IH by (simp add: traced_def image_Un held_pending brings_arrived)
  qed
  moreover have "held s' \<subseteq> ?K" using t k by (auto simp: traced_def)
  moreover have "told cfg i (answers i (es @ [e])) (calls i (fx @ fx')) s'" using t by (simp add: traced_def)
  ultimately show ?case by blast
qed

section \<open>Exit\<close>

definition refused :: "string \<Rightarrow> waiter \<Rightarrow> effect" where
  "refused error w = (case w of Wait_load i request _ \<Rightarrow> Load_reply i (load_error (lr_target request) Invalid_request error)
     | Wait_save i request _ \<Rightarrow> Save_reply i (save_error request Invalid_request error))"

lemma exit_waiters: "sa_config_error s \<noteq> [] \<Longrightarrow> run_waiters cfg now up ws s = (s, map (refused (sa_config_error s)) ws)"
  by (induction ws arbitrary: now up) (auto simp: run_waiter_def refused_def load_ready_def save_ready_def Let_def split: waiter.splits)

lemma exit_effects:
  "snd (on_exit cfg now up s) = map (refused ''entity store exited before request completed'') (sa_schema_waiters s) @
     map (\<lambda>c. Save_reply (cx_id c) (save_error (cx_request c) (if cx_begin_sent c then Commit_unknown else Unavailable) ''entity store exited; retry with the same request_id'')) (queued s)"
  by (simp add: on_exit_def Let_def exit_waiters queued_def)

lemma exit_replies: "save_replies (snd (on_exit cfg now up s)) = pending_saves s"
proof -
  have "save_replies (map (refused error) ws) = waiting_saves ws" for error ws by (induction ws) (auto simp: refused_def split: waiter.splits)
  moreover have "save_replies (map (\<lambda>c. Save_reply (cx_id c) (f c)) q) = image_mset cx_id (mset q)" for f q by (induction q) auto
  ultimately show ?thesis by (simp add: exit_effects pending_saves_def)
qed

lemma exit_justified:
  assumes "Save_reply i r \<in> set (snd (on_exit cfg now up s))"
  shows "justified cfg (held s) as cs i r"
proof -
  have "\<exists>request code error. (i, request) \<in> held s \<and> code \<noteq> Ok \<and> r = save_error request code error"
    using assms by (auto simp: exit_effects refused_def held_def waiting_requests_def split: waiter.splits if_splits) blast+
  then show ?thesis by (auto intro: justified_error)
qed

section \<open>What clients may rely on\<close>

text \<open>C12. Every save is answered exactly once.  At any time in any run, the saves received are those answered and those still held, each as often as it was received; and the
  exit of the actor answers all that it holds.\<close>

theorem saves_answered_once:
  assumes "store_run cfg es fx s"
  shows "save_replies fx + pending_saves s = requested es \<and> save_replies (fx @ snd (on_exit cfg now up s)) = requested es"
  using store_run_ok [OF assms] by (simp add: exit_replies)

text \<open>C11. The answers are true.  An answer is for a save that was received with this promise.  When it reports success, the messages that the actor sent for this save
  until then, in their order, with answers that it received for this save, in their order, are a run of the save of this very request that ended with
  this answer: all changes were applied in one transaction and the commit was acknowledged, or the stored record of the request id has the content of the request.
  Any other answer reports an error and nothing committed.\<close>

theorem store_replies_sound:
  assumes "store_run cfg es fx s" "Save_reply i r \<in> set (fx @ snd (on_exit cfg now up s))"
  shows "\<exists>request. Save_message i request \<in> set es \<and>
    ((\<exists>store schemas deadline past h c vs. save_run (st_save cfg) (new_save cfg i request store schemas deadline) past h (Done c r) \<and>
        map fst (concat past @ h) = calls i fx \<and> subseq (map snd (concat past @ h)) (answers i es) \<and> r = saved request vs \<and>
        (committed (st_save cfg) c h vs \<or> (\<exists>h' a. h = h' @ [(Tx_rollback (Inr (cx_key c)), a)] \<and> replayed (st_save cfg) c h' vs))) \<or>
     sv_code r \<noteq> Ok \<and> \<not> sv_committed r)"
proof -
  note t = store_run_traced [OF assms(1), of i]
  have "justified cfg (\<Union> (brings ` set es)) (answers i es) (calls i fx) i r"
    using assms(2) t exit_justified [of i r cfg now up s "answers i es" "calls i fx"] justified_mono [OF _ _ subseq_order.order_refl] by auto
  then obtain request where k: "(i, request) \<in> \<Union> (brings ` set es)"
    and d: "(\<exists>c. runs_for cfg (answers i es) (calls i fx) i request (Done c r)) \<or> (\<exists>code error. code \<noteq> Ok \<and> r = save_error request code error)" unfolding justified_def by blast
  then obtain e where e: "e \<in> set es" "(i, request) \<in> brings e" by blast
  have "(i, request) \<in> brings e \<Longrightarrow> e = Save_message i request" by (cases e) (simp_all add: brings_def)
  then have m: "Save_message i request \<in> set es" using e by simp
  show ?thesis
  proof (cases "\<exists>c. runs_for cfg (answers i es) (calls i fx) i request (Done c r)")
    case True
    then obtain c store schemas deadline past h where r: "save_run (st_save cfg) (new_save cfg i request store schemas deadline) past h (Done c r)"
      "map fst (concat past @ h) = calls i fx" "subseq (map snd (concat past @ h)) (answers i es)" unfolding runs_for_def by blast
    then have "(\<exists>vs. r = saved request vs \<and> (committed (st_save cfg) c h vs \<or> (\<exists>h' a. h = h' @ [(Tx_rollback (Inr (cx_key c)), a)] \<and> replayed (st_save cfg) c h' vs))) \<or>
      sv_code r \<noteq> Ok \<and> \<not> sv_committed r" using save_run_inv [OF r(1)] by (auto simp: save_inv_def same_save_def split: if_splits)
    then show ?thesis using m r by blast
  next
    case False
    then show ?thesis using m d by (auto simp: save_error_def)
  qed
qed

section \<open>Draining\<close>

definition calls_out :: "effect \<Rightarrow> bool" where
  "calls_out e \<longleftrightarrow> (case e of Save_call _ _ \<Rightarrow> True | Load_call _ _ \<Rightarrow> True | Metadata_call _ \<Rightarrow> True | Save_timer _ _ \<Rightarrow> True | Load_timer _ _ \<Rightarrow> True | Discovery_timer _ \<Rightarrow> True | _ \<Rightarrow> False)"

lemma idle_stays:
  assumes "store_ok cfg s" "idle s" "sa_draining s" "on_event cfg now up e s = (s', fx)"
  shows "idle s' \<and> sa_draining s' \<and> (\<forall>x \<in> set fx. \<not> calls_out x)"
proof -
  have q: "at_head i s = None" for i using assms(2) by (simp add: idle_def at_head_def)
  have f: "sa_in_flight s = 0" using assms(1, 2) by (simp add: idle_def store_ok_def core_ok_def base_ok_def queued_def)
  show ?thesis using assms(2-4) q f
    by (cases e) (auto simp: on_event_def on_load_def on_save_def on_save_answer_def on_save_wake_def admission_error_def drain_def idle_def calls_out_def Let_def)
qed

text \<open>C13. Draining.  Whatever event arrives, unless it ends the discovery of the schemas, the actor reports that it is drained only when it takes no more requests and has no
  save, load or discovery under way.  Once the actor is in such a state it stays so and nothing is sent to a database any more; and nobody who waits for the
  report is left waiting in it.  The end of the discovery is left out because there the report can come too early, as the theorem \<open>drained_too_early\<close> shows.\<close>

theorem drained_when_idle:
  assumes "store_run cfg es fx s" "new_request es e s" "on_event cfg now up e s = (s', fx')"
  shows "(Drained a \<in> set fx' \<and> (sa_schema_loading s \<longrightarrow> sa_schema_loading s') \<longrightarrow> idle s' \<and> sa_draining s' \<and> pending_saves s' = {#}) \<and>
    (idle s \<and> sa_draining s \<longrightarrow> idle s' \<and> sa_draining s' \<and> (\<forall>x \<in> set fx'. \<not> calls_out x)) \<and> (idle s' \<longrightarrow> sa_drain_waiters s' = [])"
proof -
  have ok: "store_ok cfg s" using store_run_ok [OF assms(1)] by simp
  then have k: "kept cfg (arrived e) s (s', fx')" using on_event_kept [OF ok assms(2), of now up] assms(3) by simp
  have h: "handled cfg (arrived e) s (s', fx')" if "\<not> (of_discovery e \<and> sa_schema_loading s)" using on_event_handled [OF ok assms(2), of now up] assms(3) that by simp
  have ok': "store_ok cfg s'" using k by (simp add: kept_def)
  have w: "idle s' \<Longrightarrow> sa_drain_waiters s' = [] \<and> pending_saves s' = {#}"
    using ok' by (auto simp: store_ok_def core_ok_def base_ok_def drain_ok_def idle_def pending_saves_def queued_def)
  have "idle s' \<and> sa_draining s'" if d: "Drained a \<in> set fx'" "sa_schema_loading s \<longrightarrow> sa_schema_loading s'"
  proof -
    have "\<not> (of_discovery e \<and> sa_schema_loading s)" using k d by (auto simp: kept_def)
    then show ?thesis using h d(1) by (auto simp: handled_def)
  qed
  then show ?thesis using w idle_stays [OF ok _ _ assms(3)] by blast
qed

section \<open>Runs on examples\<close>

definition demo_store :: store_config where
  "demo_store = \<lparr>st_save = demo_config, st_real_in = (\<lambda>_. None), st_request_timeout = 1000, st_max_pending_requests = 10, st_load_retry_attempts = 3, st_self = ''node:1''\<rparr>"

definition demo_catalog :: schema_catalog where
  "demo_catalog = \<lparr>sc_allow_binary = False, sc_stores = [(''default'', sample_store)]\<rparr>"

definition demo_request :: save_request where
  "demo_request = \<lparr>sr_request_id = ''r'', sr_changes = [sample_change ''a'' Update 3]\<rparr>"

definition demo_reply :: "int \<Rightarrow> string \<Rightarrow> string list list \<Rightarrow> event" where
  "demo_reply n insert_id rows = Save_answer 1 (Answered (empty_result\<lparr>db_ok := True, db_affected := n, db_insert_id := insert_id, db_rows := rows\<rparr>))"

text \<open>The services are registered and the time is zero.\<close>

abbreviation demo_clock :: clock where
  "demo_clock \<equiv> \<lambda>_. 0"

abbreviation demo_up :: registry where
  "demo_up \<equiv> \<lambda>_ _. True"

fun handle_events :: "store_config \<Rightarrow> event list \<Rightarrow> handler" where
  "handle_events cfg [] s = (s, [])"
| "handle_events cfg (e # es) s = (case on_event cfg demo_clock demo_up e s of (s, fx) \<Rightarrow> (case handle_events cfg es s of (s, fx') \<Rightarrow> (s, fx @ fx')))"

text \<open>A save up to its commit, whose answer is lost; the rollback is answered and the retry starts.\<close>

definition demo_commit :: "event list" where
  "demo_commit = [Save_message 1 demo_request, demo_reply 0 [] [], demo_reply 0 ''7'' [], demo_reply 1 [] [], demo_reply 1 [] [], demo_reply 0 [] [[''4'']], demo_reply 1 [] []]"

definition demo_lost :: "event list" where
  "demo_lost = [Save_answer 1 (Transport_error ''timeout''), demo_reply 0 [] [], Save_wake 1]"

lemma handle_events_run:
  assumes "store_run cfg es fx s" "\<forall>e \<in> set es'. \<nexists>i request. e = Load_message i request" "\<And>i. once i (requested (es @ es'))" "handle_events cfg es' s = (s', fx')"
  shows "store_run cfg (es @ es') (fx @ fx') s'"
  using assms
proof (induction es' arbitrary: es fx s fx')
  case (Cons e es')
  obtain s1 fx1 where e: "on_event cfg demo_clock demo_up e s = (s1, fx1)" by fastforce
  obtain fx2 where r: "handle_events cfg es' s1 = (s', fx2)" "fx' = fx1 @ fx2" using Cons.prems(4) e by (auto split: prod.splits)
  have q: "requested (es @ e # es') = requested es + (arrived e + requested es')" by (simp add: requested_def)
  have "i \<notin># requested es" if "e = Save_message i request" for i request using Cons.prems(3) [of i] that unfolding q by (simp add: arrived_def not_in_iff)
  then have "new_request es e s" using Cons.prems(2) by (auto simp: new_request_def split: event.splits)
  from Cons.IH [OF store_run.Event [OF Cons.prems(1) this e] _ _ r(1)] show ?case using Cons.prems(2, 3) r(2) by simp
qed simp

lemma demo_boot: "initialize_schema demo_store demo_clock demo_up (new_store demo_catalog []) = (new_store demo_catalog [], [])"
  by code_simp

lemma demo_requested: "requested (demo_commit @ demo_lost) = {#1#}" "requested (demo_commit @ [demo_reply 0 [] []]) = {#1#}" "requested (demo_commit @ [Drain_message 9]) = {#1#}"
  by (simp_all add: requested_def arrived_def demo_commit_def demo_lost_def demo_reply_def)

lemma demo_run:
  assumes "\<forall>e \<in> set es. \<nexists>i request. e = Load_message i request" "requested es = {#1#}" "handle_events demo_store es (new_store demo_catalog []) = (s, fx)"
  shows "store_run demo_store es fx s"
  using handle_events_run [OF store_run.Boot [OF demo_boot] assms(1) _ assms(3)] assms(2) by simp

lemma demo_lost_outcome:
  "case handle_events demo_store (demo_commit @ demo_lost) (new_store demo_catalog []) of (s, fx) \<Rightarrow> Tx_commit 7 \<in> set (calls 1 fx) \<and> save_replies fx = {#} \<and>
     snd (on_exit demo_store demo_clock demo_up s) = [Save_reply 1 (save_error demo_request Unavailable ''entity store exited; retry with the same request_id'')]"
  by code_simp


lemma saves_answered_once_witness:
  "\<exists>fx s. store_run demo_store (demo_commit @ demo_lost) fx s \<and> save_replies (fx @ snd (on_exit demo_store demo_clock demo_up s)) = {#1#}"
proof -
  obtain s fx where h: "handle_events demo_store (demo_commit @ demo_lost) (new_store demo_catalog []) = (s, fx)" by fastforce
  have r: "store_run demo_store (demo_commit @ demo_lost) fx s" by (rule demo_run [OF _ demo_requested(1) h]) (simp add: demo_commit_def demo_lost_def demo_reply_def)
  then show ?thesis using saves_answered_once [OF r, of demo_clock demo_up] demo_requested(1) by auto
qed

lemma demo_saved_outcome:
  "case handle_events demo_store (demo_commit @ [demo_reply 0 [] []]) (new_store demo_catalog []) of (s, fx) \<Rightarrow> Save_reply 1 (saved demo_request [4]) \<in> set fx"
  by code_simp

lemma store_replies_sound_witness:
  "\<exists>fx s request store schemas deadline past h c vs. store_run demo_store (demo_commit @ [demo_reply 0 [] []]) fx s \<and>
     save_run demo_config (new_save demo_store 1 request store schemas deadline) past h (Done c (saved demo_request [4])) \<and>
     map fst (concat past @ h) = calls 1 fx \<and> saved demo_request [4] = saved request vs \<and>
     (committed demo_config c h vs \<or> (\<exists>h' a. h = h' @ [(Tx_rollback (Inr (cx_key c)), a)] \<and> replayed demo_config c h' vs))"
proof -
  obtain s fx where h: "handle_events demo_store (demo_commit @ [demo_reply 0 [] []]) (new_store demo_catalog []) = (s, fx)" by fastforce
  have r: "store_run demo_store (demo_commit @ [demo_reply 0 [] []]) fx s" by (rule demo_run [OF _ demo_requested(2) h]) (simp add: demo_commit_def demo_lost_def demo_reply_def)
  have "Save_reply 1 (saved demo_request [4]) \<in> set (fx @ snd (on_exit demo_store demo_clock demo_up s))" using demo_saved_outcome unfolding h by simp
  note s = store_replies_sound [OF r this]
  have "st_save demo_store = demo_config" "sv_code (saved demo_request [4]) = Ok" by (simp_all add: demo_store_def saved_def)
  then show ?thesis using s r by metis
qed

lemma demo_drained_outcome:
  "case handle_events demo_store (demo_commit @ [Drain_message 9]) (new_store demo_catalog []) of (s, fx) \<Rightarrow>
     Drained 9 \<in> set (snd (on_event demo_store demo_clock demo_up (demo_reply 0 [] []) s)) \<and> \<not> sa_schema_loading s"
  by code_simp

lemma drained_when_idle_witness:
  "\<exists>fx s s' fx'. store_run demo_store (demo_commit @ [Drain_message 9]) fx s \<and> on_event demo_store demo_clock demo_up (demo_reply 0 [] []) s = (s', fx') \<and>
     Drained 9 \<in> set fx' \<and> idle s' \<and> sa_draining s' \<and> sa_drain_waiters s' = []"
proof -
  obtain s fx where h: "handle_events demo_store (demo_commit @ [Drain_message 9]) (new_store demo_catalog []) = (s, fx)" by fastforce
  have r: "store_run demo_store (demo_commit @ [Drain_message 9]) fx s" by (rule demo_run [OF _ demo_requested(3) h]) (simp add: demo_commit_def demo_lost_def demo_reply_def)
  obtain s' fx' where e: "on_event demo_store demo_clock demo_up (demo_reply 0 [] []) s = (s', fx')" by fastforce
  have "new_request (demo_commit @ [Drain_message 9]) (demo_reply 0 [] []) s" by (simp add: demo_reply_def new_request_def)
  from drained_when_idle [OF r this e, of 9] show ?thesis using demo_drained_outcome r e unfolding h by auto
qed

section \<open>A report that comes too early\<close>

text \<open>A store whose schema is discovered.  A load, a save and the request to drain arrive before the schema is known; it becomes known when less than a millisecond of the time
  of the load is left.\<close>

definition discovery_catalog :: schema_catalog where
  "discovery_catalog = \<lparr>sc_allow_binary = False, sc_stores = [(''default'', sample_store\<lparr>ss_entities := [(''player'', sample_discovery)]\<rparr>)]\<rparr>"

definition demo_load :: load_request where
  "demo_load = \<lparr>lr_target = ep_target (sample_change ''a'' Update 3), lr_fields = \<lparr>fm_all_fields = True, fm_names = []\<rparr>\<rparr>"

definition demo_waiting :: "event list" where
  "demo_waiting = [Save_message 1 demo_request, Drain_message 9]"

definition late_clock :: clock where
  "late_clock k = 1999"

lemma demo_early_outcome:
  "case initialize_schema demo_store demo_clock demo_up (new_store discovery_catalog []) of (s, _) \<Rightarrow> load_ids s = [] \<and>
     (case handle_events demo_store (Load_message 2 demo_load # demo_waiting) s of (s, _) \<Rightarrow>
        (case on_event demo_store late_clock demo_up (Metadata_answer (Answered sample_metadata)) s of (s, fx) \<Rightarrow>
           fx = [Load_reply 2 (load_error (lr_target demo_load) Unavailable ''read service unavailable or deadline expired''), Drained 9,
             Save_call 1 (Statement ''main'' Exec (st_text (create_idempotency_table Sqlite sample_store)) (st_params (create_idempotency_table Sqlite sample_store)))] \<and>
           sa_queues s \<noteq> []))"
  by code_simp

text \<open>The load is given up at once and was the only request counted, so the actor reports that it is drained, and then starts the save that it had accepted before.\<close>

theorem drained_too_early:
  "\<exists>fx s s' r m. store_run demo_store (Load_message 2 demo_load # demo_waiting) fx s \<and>
     on_event demo_store late_clock demo_up (Metadata_answer (Answered sample_metadata)) s = (s', [Load_reply 2 r, Drained 9, Save_call 1 m]) \<and> \<not> idle s'"
proof -
  obtain s0 fx0 where b: "initialize_schema demo_store demo_clock demo_up (new_store discovery_catalog []) = (s0, fx0)" by fastforce
  obtain s1 fx1 where l: "on_event demo_store demo_clock demo_up (Load_message 2 demo_load) s0 = (s1, fx1)" by fastforce
  obtain s2 fx2 where w: "handle_events demo_store demo_waiting s1 = (s2, fx2)" by fastforce
  obtain s3 fx3 where e: "on_event demo_store late_clock demo_up (Metadata_answer (Answered sample_metadata)) s2 = (s3, fx3)" by fastforce
  note o = demo_early_outcome [unfolded b prod.case handle_events.simps l w e]
  have "new_request [] (Load_message 2 demo_load) s0" using o by (simp add: new_request_def)
  from store_run.Event [OF store_run.Boot [OF b] this l] have "store_run demo_store [Load_message 2 demo_load] (fx0 @ fx1) s1" by simp
  from handle_events_run [OF this _ _ w] have "store_run demo_store (Load_message 2 demo_load # demo_waiting) ((fx0 @ fx1) @ fx2) s2"
    by (simp add: demo_waiting_def requested_def arrived_def)
  moreover have "\<not> idle s3" using o by (simp add: idle_def)
  ultimately show ?thesis using e o by blast
qed

end
