(* ===== verification/Checkpoint.thy ===== *)
theory Checkpoint
  imports Prelude
begin

text \<open>
  The checkpoint store of the host, \<^verbatim>\<open>src/core/checkpoint_manager.cpp\<close>: the table-driven CRC-32, the
  little-endian fields, the file format, and the two message handlers.  Saving is a list of file system
  operations, so that a crash between two of them, or in the middle of a write, is a state of the
  model.  The theory shows that the table computes the bitwise CRC, that a saved state is
  restored, that a change confined to four consecutive bytes of the state is rejected, and that
  a crash during a save leaves either the old or the new state.
\<close>

section \<open>CRC-32\<close>

definition crc_bit :: "u32 \<Rightarrow> u32" where
  "crc_bit crc = (drop_bit 1 crc) XOR (0xEDB88320 AND - (crc AND 1))"

fun crc_bits :: "nat \<Rightarrow> u32 \<Rightarrow> u32" where
  "crc_bits 0 crc = crc"
| "crc_bits (Suc j) crc = crc_bits j (crc_bit crc)"

definition crc32_table :: "u32 list" where
  "crc32_table = map (\<lambda>i. crc_bits 8 (of_nat i)) [0..<256]"

definition crc_byte :: "u32 \<Rightarrow> u8 \<Rightarrow> u32" where
  "crc_byte crc b = crc32_table ! unat ((crc XOR ucast b) AND 0xFF) XOR drop_bit 8 crc"

definition compute_crc32 :: "bytes \<Rightarrow> u32" where
  "compute_crc32 data = fold (\<lambda>b crc. crc_byte crc b) data 0xFFFFFFFF XOR 0xFFFFFFFF"

section \<open>Little-endian fields\<close>

definition write_le :: "'a::len word \<Rightarrow> bytes" where
  "write_le value = map (\<lambda>i. ucast (drop_bit (i * 8) value AND 0xFF)) [0..<LENGTH('a) div 8]"

fun read_le_loop :: "nat \<Rightarrow> nat \<Rightarrow> 'a::len word \<Rightarrow> bytes \<Rightarrow> ('a word \<times> bytes) option" where
  "read_le_loop 0 i value is = Some (value, is)"
| "read_le_loop (Suc n) i value [] = None"
| "read_le_loop (Suc n) i value (c # is) = read_le_loop n (Suc i) (value OR push_bit (i * 8) (ucast c)) is"

definition read_le :: "bytes \<Rightarrow> ('a::len word \<times> bytes) option" where
  "read_le is = read_le_loop (LENGTH('a) div 8) 0 0 is"

section \<open>The file format\<close>

record checkpoint_header =
  ch_version :: u16
  ch_name_len :: u16
  ch_timestamp :: u64
  ch_crc32 :: u32
  ch_data_len :: u64

definition magic :: bytes where
  "magic = [0x43, 0x4B, 0x50, 0x54]"

definition make_header :: "bytes \<Rightarrow> bytes \<Rightarrow> u64 \<Rightarrow> checkpoint_header" where
  "make_header plugin_name data now =
     \<lparr>ch_version = 1, ch_name_len = of_nat (length plugin_name), ch_timestamp = now,
      ch_crc32 = compute_crc32 data, ch_data_len = of_nat (length data)\<rparr>"

text \<open>The pieces in the order the handler writes them.\<close>

definition file_pieces :: "bytes \<Rightarrow> bytes \<Rightarrow> u64 \<Rightarrow> bytes list" where
  "file_pieces plugin_name data now =
     (let hdr = make_header plugin_name data now
      in [magic, write_le (ch_version hdr), write_le (ch_name_len hdr), write_le (ch_timestamp hdr),
          write_le (ch_crc32 hdr), write_le (ch_data_len hdr), take (unat (ch_name_len hdr)) plugin_name, data])"

section \<open>The file system\<close>

type_synonym path = bytes
type_synonym file_system = "path \<rightharpoonup> bytes"

datatype fs_op = Open_trunc path | Append path bytes | Rename path path

fun fs_step :: "fs_op \<Rightarrow> file_system \<Rightarrow> file_system" where
  "fs_step (Open_trunc p) fs = fs(p \<mapsto> [])"
| "fs_step (Append p bs) fs = fs(p \<mapsto> (case fs p of None \<Rightarrow> [] | Some c \<Rightarrow> c) @ bs)"
| "fs_step (Rename p q) fs = (fs(p := None))(q := fs p)"

fun fs_run :: "fs_op list \<Rightarrow> file_system \<Rightarrow> file_system" where
  "fs_run [] fs = fs"
| "fs_run (op # ops) fs = fs_run ops (fs_step op fs)"

text \<open>The operator \<open>/\<close> of \<open>std::filesystem::path\<close>: an absolute right side replaces the left one.\<close>

definition path_join :: "path \<Rightarrow> path \<Rightarrow> path" where
  "path_join d p =
     (if p \<noteq> [] \<and> hd p = 0x2F then p
      else if d \<noteq> [] \<and> last d \<noteq> 0x2F then d @ [0x2F] @ p else d @ p)"

definition ckpt_path :: "path \<Rightarrow> bytes \<Rightarrow> path" where
  "ckpt_path checkpoint_dir plugin_name = path_join checkpoint_dir (plugin_name @ [0x2E, 0x63, 0x6B, 0x70, 0x74])"

definition tmp_path :: "path \<Rightarrow> bytes \<Rightarrow> path" where
  "tmp_path checkpoint_dir plugin_name = ckpt_path checkpoint_dir plugin_name @ [0x2E, 0x74, 0x6D, 0x70]"

section \<open>The handlers\<close>

definition save_ops :: "path \<Rightarrow> bytes \<Rightarrow> bytes \<Rightarrow> u64 \<Rightarrow> fs_op list" where
  "save_ops dir plugin_name data now =
     (let tmp = tmp_path dir plugin_name
      in [Open_trunc tmp] @ map (Append tmp) (file_pieces plugin_name data now) @ [Rename tmp (ckpt_path dir plugin_name)])"

text \<open>
  What the environment does to a save: nothing, refuse to open the temporary file, accept only the first
  \<open>n\<close> bytes, or refuse the rename.
\<close>

datatype save_fault = No_fault | Open_fails | Write_fails nat | Rename_fails

definition save_state :: "save_fault \<Rightarrow> path \<Rightarrow> bytes \<Rightarrow> bytes \<Rightarrow> u64 \<Rightarrow> file_system \<Rightarrow> file_system \<times> bool" where
  "save_state fault dir plugin_name data now fs =
     (let tmp = tmp_path dir plugin_name; ops = save_ops dir plugin_name data now
      in case fault of
           Open_fails \<Rightarrow> (fs, False)
         | Write_fails n \<Rightarrow> (fs(tmp \<mapsto> take n (concat (file_pieces plugin_name data now))), False)
         | Rename_fails \<Rightarrow> (fs_run (butlast ops) fs, False)
         | No_fault \<Rightarrow> (fs_run ops fs, True))"

text \<open>
  Restoring.  Every rejected file gives the empty state; a data length that no vector can
  have makes the constructor throw, outside any handler of the actor.
\<close>

datatype restore_result = Returned bytes | Thrown

definition restore_body :: "nat \<Rightarrow> checkpoint_header \<Rightarrow> bytes \<Rightarrow> restore_result" where
  "restore_body max_size hdr r =
     (if ch_version hdr \<noteq> 1 then Returned []
      else let name_len = unat (ch_name_len hdr); data_len = unat (ch_data_len hdr)
           in if data_len > max_size then Thrown
              else let data = (if length r < name_len then [] else take data_len (drop name_len r))
                   in if length data \<noteq> data_len then Returned []
                      else if compute_crc32 data \<noteq> ch_crc32 hdr then Returned []
                      else Returned data)"

definition read_header :: "bytes \<Rightarrow> (checkpoint_header \<times> bytes) option" where
  "read_header f =
     (if take 4 f \<noteq> magic then None
      else case read_le (drop 4 f) of None \<Rightarrow> None | Some (version, r) \<Rightarrow>
        (case read_le r of None \<Rightarrow> None | Some (name_len, r) \<Rightarrow>
          (case read_le r of None \<Rightarrow> None | Some (timestamp, r) \<Rightarrow>
            (case read_le r of None \<Rightarrow> None | Some (crc32, r) \<Rightarrow>
              (case read_le r of None \<Rightarrow> None | Some (data_len, r) \<Rightarrow>
                 Some (\<lparr>ch_version = version, ch_name_len = name_len, ch_timestamp = timestamp,
                        ch_crc32 = crc32, ch_data_len = data_len\<rparr>, r))))))"

definition restore_file :: "nat \<Rightarrow> bytes \<Rightarrow> restore_result" where
  "restore_file max_size f =
     (case read_header f of None \<Rightarrow> Returned [] | Some (hdr, r) \<Rightarrow> restore_body max_size hdr r)"

definition restore_state :: "nat \<Rightarrow> path \<Rightarrow> bytes \<Rightarrow> file_system \<Rightarrow> restore_result" where
  "restore_state max_size dir plugin_name fs =
     (case fs (ckpt_path dir plugin_name) of None \<Rightarrow> Returned [] | Some f \<Rightarrow> restore_file max_size f)"

section \<open>The table computes the bitwise CRC\<close>

lemma crc_bit_xor: "crc_bit (x XOR y) = crc_bit x XOR crc_bit y"
proof -
  have "- ((x XOR y) AND 1) = - (x AND 1) XOR - (y AND (1 :: u32))"
  proof -
    have b: "z AND 1 = 0 \<or> z AND 1 = 1" for z :: u32 by (simp add: and_one_eq mod_2_eq_odd)
    have "(x XOR y) AND 1 = (x AND 1) XOR (y AND 1)" by (rule bit_eqI) (auto simp: bit_and_iff bit_xor_iff)
    then show ?thesis using b [of x] b [of y] by (elim disjE) simp_all
  qed
  then show ?thesis unfolding crc_bit_def by (auto intro!: bit_eqI simp: bit_simps)
qed

lemma crc_bits_xor: "crc_bits n (x XOR y) = crc_bits n x XOR crc_bits n y"
  by (induction n arbitrary: x y) (simp_all add: crc_bit_xor)

lemma crc_bit_even: "even x \<Longrightarrow> crc_bit x = drop_bit 1 x"
  unfolding crc_bit_def by (simp add: and_one_eq even_iff_mod_2_eq_zero)

lemma crc_bits_push: "unat x < 2 ^ (32 - n) \<Longrightarrow> n \<le> 32 \<Longrightarrow> crc_bits n (push_bit n x) = x"
proof (induction n)
  case 0
  then show ?case by simp
next
  case (Suc n)
  have "crc_bit (push_bit (Suc n) x) = drop_bit 1 (push_bit (Suc n) x)" by (rule crc_bit_even) simp
  also have "\<dots> = push_bit n x"
  proof (rule bit_word_eqI)
    fix k assume k: "k < LENGTH(32)"
    have "\<not> bit x j" if "32 - Suc n \<le> j" for j
      using bit_take_bit_iff [of "32 - Suc n" "unat x" j] Suc.prems(1) that
      by (simp add: take_bit_nat_eq_self bit_unsigned_iff)
    from this [of "k - n"] show "bit (drop_bit 1 (push_bit (Suc n) x)) k = bit (push_bit n x) k"
      using k Suc.prems by (cases "Suc k < 32") (auto simp: bit_simps simp del: push_bit_Suc)
  qed
  finally show ?case using Suc by (simp add: less_le_trans [OF Suc.prems(1)])
qed

definition crc32_bitwise :: "bytes \<Rightarrow> u32" where
  "crc32_bitwise data = NOT (fold (\<lambda>b crc. crc_bits 8 (crc XOR ucast b)) data (NOT 0))"

lemma xor_right_cancel: "(x :: 'a::len word) XOR z = y XOR z \<longleftrightarrow> x = y"
proof
  assume "x XOR z = y XOR z"
  then have "(x XOR z) XOR z = (y XOR z) XOR z" by (simp only:)
  then show "x = y" by (simp only: xor.assoc xor_self_eq xor.right_neutral)
qed simp

lemma xor_eq_zero: "(x :: 'a::len word) XOR y = 0 \<longleftrightarrow> x = y"
  using xor_right_cancel [of x y y] by (simp only: xor_self_eq)

lemma unat_and_FF: "unat ((x :: u32) AND 0xFF) < 256"
  using unat_and_mask [of x 8] by simp

lemma crc_byte_bits: "crc_byte crc b = crc_bits 8 (crc XOR ucast b)"
proof -
  let ?x = "crc XOR ucast b"
  have t: "crc32_table ! unat (?x AND 0xFF) = crc_bits 8 (?x AND 0xFF)"
    unfolding crc32_table_def using unat_and_FF [of ?x] by (subst nth_map) simp_all
  have ff: "?x AND 0xFF = take_bit 8 ?x" by (simp add: take_bit_eq_mask mask_eq_exp_minus_1)
  have "drop_bit 8 ?x = drop_bit 8 crc" by (rule bit_word_eqI) (auto simp: bit_simps dest: bit_imp_le_length)
  moreover have "?x = (?x AND 0xFF) XOR push_bit 8 (drop_bit 8 ?x)"
    unfolding ff by (rule bit_word_eqI, rename_tac n, case_tac "n < 8") (auto simp: bit_simps)
  moreover have "crc_bits 8 (push_bit 8 (drop_bit 8 ?x)) = drop_bit 8 ?x"
    by (rule crc_bits_push) (simp_all only: unat_drop_bit_div, use unsigned_less [of ?x, where ?'a = nat] in simp_all)
  ultimately have "crc_bits 8 ?x = crc_bits 8 (?x AND 0xFF) XOR drop_bit 8 crc"
    using crc_bits_xor [of 8 "?x AND 0xFF" "push_bit 8 (drop_bit 8 ?x)"] by (simp only:)
  then show ?thesis by (simp only: crc_byte_def t)
qed

lemma crc_bit_zero: "crc_bit x = 0 \<longleftrightarrow> x = 0"
proof
  assume z: "crc_bit x = 0"
  show "x = 0"
  proof (cases "even x")
    case True
    then have "drop_bit 1 x = 0" using z crc_bit_even by simp
    then have d: "\<not> bit (drop_bit 1 x) n" for n by simp
    have "\<not> bit x n" for n using True d [of "n - 1"] by (cases n) (auto simp: bit_simps bit_0)
    then show ?thesis by (intro bit_word_eqI) simp
  next
    case False
    then have "x AND 1 = 1" by (simp add: and_one_eq odd_iff_mod_2_eq_one)
    then have "bit (crc_bit x) 31" unfolding crc_bit_def using bit_imp_le_length [of x 32] by (auto simp: bit_simps)
    then show ?thesis using z by simp
  qed
qed (simp add: crc_bit_def)

lemma crc_bits_inj: "crc_bits n x = crc_bits n y \<longleftrightarrow> x = y"
proof -
  have z: "crc_bits n w = 0 \<longleftrightarrow> w = 0" for w by (induction n arbitrary: w) (simp_all add: crc_bit_zero)
  have "crc_bits n x = crc_bits n y \<longleftrightarrow> crc_bits n (x XOR y) = 0"
    by (simp only: crc_bits_xor xor_eq_zero)
  also have "\<dots> \<longleftrightarrow> x = y" by (simp only: z xor_eq_zero)
  finally show ?thesis .
qed

abbreviation crc_fold :: "bytes \<Rightarrow> u32 \<Rightarrow> u32" where
  "crc_fold bs s \<equiv> fold (\<lambda>b crc. crc_byte crc b) bs s"

lemma crc_bits_add: "crc_bits (m + n) x = crc_bits n (crc_bits m x)"
  by (induction m arbitrary: x) simp_all

lemma crc_fold_inj: "crc_fold bs s = crc_fold bs t \<longleftrightarrow> s = t"
proof (induction bs arbitrary: s t)
  case (Cons b bs)
  have "s XOR ucast b = t XOR ucast b \<longleftrightarrow> s = t" by (rule xor_right_cancel)
  then show ?case using Cons by (simp add: crc_byte_bits crc_bits_inj)
qed simp

text \<open>Up to four bytes enter the register as one little-endian word.\<close>

definition le_word :: "bytes \<Rightarrow> u32" where
  "le_word bs = of_nat (val_le 256 (map unat bs))"

lemma unat_le_word: "length bs \<le> 4 \<Longrightarrow> unat (le_word bs) = val_le 256 (map unat bs) \<and> unat (le_word bs) < 256 ^ length bs"
proof -
  assume n: "length bs \<le> 4"
  have "val_le 256 (map unat bs) < 256 ^ length (map unat bs)"
    by (rule val_le_bound) (auto intro: less_le_trans [OF unsigned_less])
  moreover have "(256 :: nat) ^ length bs \<le> 256 ^ 4" using n by (rule power_increasing) simp
  ultimately show ?thesis by (simp add: le_word_def unat_of_nat)
qed

lemma crc_fold_le_word:
  "length bs \<le> 4 \<Longrightarrow> crc_fold bs s = crc_bits (8 * length bs) (s XOR le_word bs)"
proof (induction bs arbitrary: s)
  case Nil
  then show ?case by (simp add: le_word_def)
next
  case (Cons b bs)
  let ?w = "le_word bs"
  have w: "unat ?w = val_le 256 (map unat bs)" "unat ?w < 256 ^ length bs" using Cons.prems unat_le_word [of bs] by auto
  have "(256 :: nat) ^ length bs \<le> 256 ^ 3" using Cons.prems by (intro power_increasing) auto
  then have w24: "unat ?w < 2 ^ 24" using w(2) by simp
  have "unat (push_bit 8 ?w) = 256 * unat ?w"
    using w24 unfolding unsigned_push_bit_eq by (simp add: push_bit_eq_mult take_bit_nat_eq_self)
  moreover have "unat (ucast b :: u32) = unat b" by (simp add: unsigned_ucast_eq take_bit_nat_eq_self less_le_trans [OF unsigned_less])
  moreover have "ucast b XOR push_bit 8 ?w = ucast b + push_bit 8 ?w"
  proof -
    have "ucast b XOR push_bit 8 ?w = ucast b OR push_bit 8 ?w"
      by (rule bit_word_eqI) (auto simp: bit_simps dest: bit_imp_le_length)
    also have "\<dots> = ucast b + push_bit 8 ?w"
      by (rule disjunctive_add [symmetric]) (auto simp: bit_simps dest: bit_imp_le_length)
    finally show ?thesis .
  qed
  ultimately have "unat (ucast b XOR push_bit 8 ?w) = unat (le_word (b # bs))"
    using unat_le_word [of "b # bs"] Cons.prems w(1) w24 unsigned_less [of b, where ?'a = nat] by (simp add: unat_word_ariths(1))
  then have eq: "le_word (b # bs) = ucast b XOR push_bit 8 ?w" by (simp only: word_unat_eq_iff)
  have "crc_fold (b # bs) s = crc_bits (8 * length bs) (crc_bits 8 (s XOR ucast b) XOR ?w)"
    using Cons by (simp add: crc_byte_bits)
  also have "?w = crc_bits 8 (push_bit 8 ?w)" using w24 by (intro crc_bits_push [symmetric]) simp_all
  also have "crc_bits 8 (s XOR ucast b) XOR crc_bits 8 (push_bit 8 ?w) = crc_bits 8 (s XOR le_word (b # bs))"
    by (simp only: crc_bits_xor [symmetric] eq xor.assoc)
  finally show ?case by (simp add: crc_bits_add)
qed

lemma crc_window:
  assumes "length w = length w'" "length w \<le> 4" "w \<noteq> w'"
  shows "compute_crc32 (pre @ w @ post) \<noteq> compute_crc32 (pre @ w' @ post)"
proof
  let ?s = "crc_fold pre 0xFFFFFFFF"
  assume "compute_crc32 (pre @ w @ post) = compute_crc32 (pre @ w' @ post)"
  then have "crc_fold post (crc_fold w ?s) = crc_fold post (crc_fold w' ?s)"
    unfolding compute_crc32_def fold_append comp_apply by (simp only: xor_right_cancel)
  then have "?s XOR le_word w = ?s XOR le_word w'"
    using assms by (simp add: crc_fold_inj crc_fold_le_word crc_bits_inj)
  then have "le_word w = le_word w'" by (simp only: xor.commute [of ?s] xor_right_cancel)
  then have "val_le 256 (map unat w) = val_le 256 (map unat w')" using unat_le_word assms by metis
  then have "map unat w = map unat w'"
    using assms(1) by (intro val_le_inj) (auto intro: less_le_trans [OF unsigned_less])
  then show False using assms(3) by (simp add: inj_map_eq_map inj_unsigned)
qed

section \<open>Fields round trip\<close>

lemma read_le_loop_write:
  fixes w :: "'a::len word"
  shows "8 \<le> LENGTH('a) \<Longrightarrow> read_le_loop n i (take_bit (8 * i) w) (map (\<lambda>i. ucast (drop_bit (i * 8) w AND 0xFF)) [i..<i + n] @ rest) =
    Some (take_bit (8 * (i + n)) w, rest)"
proof (induction n arbitrary: i)
  case (Suc n)
  let ?b = "\<lambda>i. ucast (drop_bit (i * 8) w AND 0xFF) :: u8"
  define c :: "'a word" where "c = ucast (?b i)"
  have c: "bit c n \<longleftrightarrow> bit w (n + i * 8) \<and> n < 8" for n
    unfolding c_def using Suc.prems by (simp only: ucast_byte_bits) (simp add: bit_drop_bit_eq add.commute)
  have "take_bit (8 * i) w OR push_bit (i * 8) (ucast (?b i)) = take_bit (8 * Suc i) w"
    unfolding c_def [symmetric] by (rule bit_word_eqI) (auto simp: bit_simps c)
  then show ?case using Suc.IH [OF Suc.prems, of "Suc i"] upt_conv_Cons [of i "i + Suc n"] by (simp only: list.map append_Cons read_le_loop.simps) simp
qed simp

lemma read_write_le: "8 \<le> LENGTH('a) \<Longrightarrow> 8 dvd LENGTH('a) \<Longrightarrow> read_le (write_le (w :: 'a::len word) @ rest) = Some (w, rest)"
  using read_le_loop_write [of "LENGTH('a) div 8" 0 w rest] by (simp add: read_le_def write_le_def)

lemma read_header_pieces:
  "read_header (concat (take 6 (file_pieces p data now)) @ rest) = Some (make_header p data now, rest)"
  unfolding file_pieces_def Let_def read_header_def by (simp add: read_write_le magic_def)

lemma file_pieces_split:
  "concat (file_pieces p data now) = concat (take 6 (file_pieces p data now)) @ take (unat (of_nat (length p) :: u16)) p @ data"
  "concat (butlast (file_pieces p data now)) = concat (take 6 (file_pieces p data now)) @ take (unat (of_nat (length p) :: u16)) p"
  by (simp_all add: file_pieces_def Let_def make_header_def)

lemma read_header_file:
  "read_header (concat (file_pieces plugin_name data now)) =
     Some (make_header plugin_name data now, take (unat (of_nat (length plugin_name) :: u16)) plugin_name @ data)"
  unfolding file_pieces_split by (rule read_header_pieces)

lemma restore_file_saved:
  assumes "length data \<le> max_size" "length data < 2 ^ 64"
  shows "restore_file max_size (concat (file_pieces plugin_name data now)) = Returned data"
proof -
  have "unat (of_nat (length data) :: u64) = length data" using assms(2) by (simp add: unat_of_nat)
  moreover have "unat (of_nat (length plugin_name) :: u16) \<le> length plugin_name" by (simp add: unat_of_nat)
  ultimately show ?thesis
    using assms unfolding restore_file_def read_header_file by (simp add: restore_body_def make_header_def Let_def)
qed

section \<open>Saving\<close>

lemma fs_run_append: "fs_run (ops @ ops') fs = fs_run ops' (fs_run ops fs)"
  by (induction ops arbitrary: fs) auto

lemma fs_run_pieces: "fs p = Some c \<Longrightarrow> fs_run (map (Append p) bss) fs = fs(p \<mapsto> c @ concat bss)"
  by (induction bss arbitrary: fs c) auto

lemma paths_differ: "ckpt_path dir q \<noteq> tmp_path dir' p"
proof
  assume "ckpt_path dir q = tmp_path dir' p"
  then have "last (ckpt_path dir q) = last (tmp_path dir' p)" by (rule arg_cong)
  then show False by (simp add: ckpt_path_def tmp_path_def path_join_def split: if_splits)
qed

lemma fs_run_save:
  "fs_run (butlast (save_ops dir p data now)) fs = fs(tmp_path dir p \<mapsto> concat (file_pieces p data now))"
  "fs_run (save_ops dir p data now) fs = fs(tmp_path dir p := None, ckpt_path dir p \<mapsto> concat (file_pieces p data now))"
  by (simp_all add: save_ops_def Let_def butlast_append fs_run_append fs_run_pieces)

text \<open>
  The states a crash can leave: between two operations, or with a part of the bytes of an unfinished write.
\<close>

inductive crash :: "fs_op list \<Rightarrow> file_system \<Rightarrow> file_system \<Rightarrow> bool" where
  crash_now: "crash ops fs fs"
| crash_write: "crash (Append p bs # ops) fs (fs_step (Append p (take k bs)) fs)"
| crash_later: "crash ops (fs_step op fs) fs' \<Longrightarrow> crash (op # ops) fs fs'"

inductive_cases crash_Nil: "crash [] fs fs'"
inductive_cases crash_Cons: "crash (op # ops) fs fs'"

lemma crash_append_step:
  assumes "crash (Append p bs # ops) fs fs'"
  shows "(\<forall>q. q \<noteq> p \<longrightarrow> fs' q = fs q) \<or> crash ops (fs_step (Append p bs) fs) fs'"
  using assms by (cases rule: crash_Cons) auto

lemma crash_appends:
  assumes "crash (map (Append tmp) bss @ ops) fs fs'"
  shows "(\<forall>p. p \<noteq> tmp \<longrightarrow> fs' p = fs p) \<or> crash ops (fs_run (map (Append tmp) bss) fs) fs'"
  using assms
proof (induction bss arbitrary: fs)
  case (Cons bs bss)
  have "(\<forall>p. p \<noteq> tmp \<longrightarrow> fs' p = fs p) \<or> crash (map (Append tmp) bss @ ops) (fs_step (Append tmp bs) fs) fs'"
    using Cons.prems crash_append_step [of tmp bs] by simp
  moreover have "fs_step (Append tmp bs) fs p = fs p" if "p \<noteq> tmp" for p using that by simp
  ultimately show ?case using Cons.IH [of "fs_step (Append tmp bs) fs"] unfolding list.map fs_run.simps by metis
qed simp

lemma crash_save:
  assumes "crash (save_ops dir p data now) fs fs'"
  shows "(\<forall>q. q \<noteq> tmp_path dir p \<longrightarrow> fs' q = fs q) \<or> fs' = fs_run (save_ops dir p data now) fs"
proof -
  let ?tmp = "tmp_path dir p" and ?bss = "file_pieces p data now"
  let ?ren = "[Rename ?tmp (ckpt_path dir p)]"
  consider "fs' = fs" | "crash (map (Append ?tmp) ?bss @ ?ren) (fs(?tmp \<mapsto> [])) fs'"
    using assms unfolding save_ops_def Let_def append_Cons append_Nil by (auto elim: crash_Cons)
  then show ?thesis
  proof cases
    case 2
    from crash_appends [OF 2] consider "\<forall>q. q \<noteq> ?tmp \<longrightarrow> fs' q = fs q"
      | "crash ?ren (fs_run (map (Append ?tmp) ?bss) (fs(?tmp \<mapsto> []))) fs'" by fastforce
    then show ?thesis
    proof cases
      case 2
      then have "fs' = fs(?tmp \<mapsto> concat ?bss) \<or> fs' = fs_run (save_ops dir p data now) fs"
        unfolding fs_run_save by (auto simp: fs_run_pieces elim!: crash_Cons crash_Nil)
      then show ?thesis by auto
    qed auto
  qed simp
qed

text \<open>
  The length field is trusted: a file that ends right after its header makes the restore throw when the
  field exceeds what a vector can hold.
\<close>

lemma restore_length_unchecked:
  assumes "max_size < unat (ch_data_len (make_header p data now))" "data = replicate n 0" "n < 2 ^ 64"
  shows "restore_state max_size dir p [ckpt_path dir p \<mapsto> concat (take 6 (file_pieces p data now))] = Thrown"
proof -
  have "read_header (concat (take 6 (file_pieces p data now))) = Some (make_header p data now, [])"
    using read_header_pieces [of p data now "[]"] by simp
  then show ?thesis
    using assms by (simp add: restore_state_def restore_file_def restore_body_def make_header_def Let_def)
qed

section \<open>Properties\<close>

text \<open>The table-driven CRC is the bitwise one: \<open>compute_crc32\<close> shifts every bit of every byte through
  the reflected polynomial \<open>0xEDB88320\<close>, from all ones and with a final complement.\<close>

theorem compute_crc32_bitwise: "compute_crc32 data = crc32_bitwise data"
proof -
  have m: "(0xFFFFFFFF :: u32) = - 1" by simp
  show ?thesis unfolding compute_crc32_def crc32_bitwise_def crc_byte_bits m bit.xor_one_right by simp
qed

text \<open>C36. A saved state is restored: whatever the directory held before, a save without a fault
  returns true, and the next restore of that plugin returns the very bytes saved; a save that
  returns false leaves what every plugin restores as it was, and so does a save for the files of other plugins.\<close>

theorem save_then_restore:
  assumes "length data \<le> max_size" "length data < 2 ^ 64" "save_state fault dir p data now fs = (fs', ok)"
  shows "restore_state max_size dir q fs' =
    (if ok \<and> ckpt_path dir q = ckpt_path dir p then Returned data else restore_state max_size dir q fs)"
  using assms(3) restore_file_saved [OF assms(1,2), of p now] paths_differ
  by (cases fault) (auto simp: save_state_def restore_state_def Let_def fs_run_save)

theorem save_then_restore_witness:
  "restore_state 8 [0x64] [0x70] (fst (save_state No_fault [0x64] [0x70] [1, 2] 7 Map.empty)) = Returned [1, 2]"
  using save_then_restore [of "[1, 2]" 8 No_fault "[0x64]" "[0x70]" 7 Map.empty "fst (save_state No_fault [0x64] [0x70] [1, 2] 7 Map.empty)" True "[0x70]"]
  by (simp add: save_state_def)

text \<open>C35. Saving survives a crash: if the process dies anywhere in a save, in the middle of a write included, a restore
  after the restart returns the old state or the whole new one, and the states of the other plugins are untouched.\<close>

theorem save_crash_safe:
  assumes "length data \<le> max_size" "length data < 2 ^ 64" "crash (save_ops dir p data now) fs fs'"
  shows "restore_state max_size dir q fs' = restore_state max_size dir q fs \<or>
         ckpt_path dir q = ckpt_path dir p \<and> restore_state max_size dir q fs' = Returned data"
  using crash_save [OF assms(3)] restore_file_saved [OF assms(1,2), of p now] paths_differ
  by (cases "ckpt_path dir q = ckpt_path dir p") (auto simp: restore_state_def fs_run_save)

theorem save_crash_safe_witness:
  "restore_state 8 [0x64] [0x70] (Map.empty(tmp_path [0x64] [0x70] \<mapsto> [0x43])) = Returned []"
proof -
  let ?tmp = "tmp_path [0x64] [0x70]" and ?ops = "save_ops [0x64] [0x70] [1, 2] 7"
  have "crash (Append ?tmp magic # drop 2 ?ops) (Map.empty(?tmp \<mapsto> [])) (fs_step (Append ?tmp (take 1 magic)) (Map.empty(?tmp \<mapsto> [])))"
    by (rule crash_write)
  then have "crash (Open_trunc ?tmp # Append ?tmp magic # drop 2 ?ops) Map.empty (Map.empty(?tmp \<mapsto> [0x43]))"
    by - (rule crash_later, simp add: magic_def)
  moreover have "Open_trunc ?tmp # Append ?tmp magic # drop 2 ?ops = ?ops"
    by (simp add: save_ops_def Let_def file_pieces_def)
  ultimately have "crash ?ops Map.empty (Map.empty(?tmp \<mapsto> [0x43]))" by (simp only:)
  from save_crash_safe [OF _ _ this, of 8 "[0x70]"] show ?thesis
    using paths_differ by (auto simp: restore_state_def)
qed

text \<open>Corruption is detected: if at most four consecutive bytes of the saved state change on disk, the
  restore returns the empty state and never the damaged bytes.\<close>

theorem restore_rejects_corruption:
  assumes "length w = length w'" "length w \<le> 4" "w \<noteq> w'" "length (pre @ w @ post) < 2 ^ 64" "length (pre @ w @ post) \<le> max_size"
    "fs (ckpt_path dir p) = Some (concat (butlast (file_pieces p (pre @ w @ post) now)) @ pre @ w' @ post)"
  shows "restore_state max_size dir p fs = Returned []"
proof -
  let ?d = "pre @ w @ post" and ?d' = "pre @ w' @ post"
  have "unat (of_nat (length ?d') :: u64) = length ?d'" using assms(1,4) by (simp only: unat_of_nat length_append) simp
  moreover have "unat (of_nat (length p) :: u16) \<le> length p" by (simp add: unat_of_nat)
  moreover have "read_header (concat (butlast (file_pieces p ?d now)) @ ?d') =
      Some (make_header p ?d now, take (unat (of_nat (length p) :: u16)) p @ ?d')"
    unfolding file_pieces_split(2) append_assoc by (rule read_header_pieces)
  ultimately show ?thesis
    using crc_window [OF assms(1-3), of pre post] assms(1,5,6)
    by (simp add: restore_state_def restore_file_def restore_body_def make_header_def Let_def)
qed

end
