(* ===== verification/Pomelo_Codec.thy ===== *)
theory Pomelo_Codec
  imports Prelude "HOL-Library.Sublist"
begin

text \<open>
  The frames of the Pomelo protocol, \<^verbatim>\<open>src/core/pomelo_codec.hpp\<close>: packages (a type, a length of three bytes, a
  body) and, in a data package, messages (a flag, a variable-length id, a route, a body).  A
  \<open>std::string\<close> of bytes is a list of bytes.  The locale \<open>frame_codec\<close> states what a receive loop relies on;
  the package parser and the WebSocket frame parser both provide it.
\<close>

section \<open>Parse results\<close>

text \<open>The sign of the returned \<open>long\<close>: not enough data (0), the bytes consumed and the frame, or an error (-1).\<close>

datatype 'f parse = Need_more | Consumed nat 'f | Protocol_error

section \<open>Packages\<close>

record parsed_pkg =
  pkg_type :: u8
  pkg_body :: bytes

abbreviation (input) "kPkgHandshake \<equiv> (1 :: u8)"
abbreviation (input) "kPkgHandshakeAck \<equiv> (2 :: u8)"
abbreviation (input) "kPkgHeartbeat \<equiv> (3 :: u8)"
abbreviation (input) "kPkgData \<equiv> (4 :: u8)"
abbreviation (input) "kPkgKick \<equiv> (5 :: u8)"

definition kMaxBody :: u32 where
  "kMaxBody = 16 * 1024 * 1024"

definition encode_pkg :: "u8 \<Rightarrow> bytes \<Rightarrow> bytes" where
  "encode_pkg type body =
     (let len = of_nat (length body) :: u32
      in [type AND 0xff, ucast (drop_bit 16 len AND 0xff), ucast (drop_bit 8 len AND 0xff), ucast (len AND 0xff)] @ body)"

definition parse_pkg :: "bytes \<Rightarrow> parsed_pkg parse" where
  "parse_pkg buf =
     (if length buf < 4 then Need_more
      else let len = push_bit 16 (ucast (buf ! 1)) OR push_bit 8 (ucast (buf ! 2)) OR ucast (buf ! 3) :: u32
           in if len > kMaxBody then Protocol_error
              else if length buf < 4 + unat len then Need_more
              else Consumed (4 + unat len) \<lparr>pkg_type = buf ! 0, pkg_body = take (unat len) (drop 4 buf)\<rparr>)"

section \<open>Messages\<close>

record parsed_msg =
  msg_id :: u32
  msg_type :: u8
  msg_route :: bytes
  msg_body :: bytes

abbreviation (input) "kMsgRequest \<equiv> (0 :: u8)"
abbreviation (input) "kMsgNotify \<equiv> (1 :: u8)"
abbreviation (input) "kMsgResponse \<equiv> (2 :: u8)"
abbreviation (input) "kMsgPush \<equiv> (3 :: u8)"

function encode_id :: "u32 \<Rightarrow> bytes" where
  "encode_id v =
     (let tmp = ucast (v mod 128) :: u8; v = v div 128
      in if v \<noteq> 0 then (tmp OR 0x80) # encode_id v else [tmp])"
  by pat_completeness auto
termination
proof (relation "measure unat")
  show "wf (measure unat)" by simp
  fix v x y assume y: "y = v div (128 :: u32)" "y \<noteq> 0"
  have "unat y = unat v div 128" unfolding y(1) by (simp add: unat_div)
  moreover have "unat y \<noteq> 0" using y(2) by (simp add: unat_eq_zero)
  ultimately show "(y, v) \<in> measure unat" by (cases "unat v") auto
qed

declare encode_id.simps [simp del]

definition encode_msg :: "u32 \<Rightarrow> u8 \<Rightarrow> bytes \<Rightarrow> bytes \<Rightarrow> bytes" where
  "encode_msg i type route body =
     (let out = [push_bit 1 type AND 0xff];
          out = (if type = kMsgRequest \<or> type = kMsgResponse then out @ encode_id i else out)
      in if type = kMsgRequest \<or> type = kMsgNotify \<or> type = kMsgPush
         then if length route > 255 then [] else out @ [of_nat (length route) AND 0xff] @ route @ body
         else out @ body)"

text \<open>The loop over at most five bytes of an id: \<open>k\<close> iterations are left.\<close>

fun parse_id :: "nat \<Rightarrow> nat \<Rightarrow> u32 \<Rightarrow> bytes \<Rightarrow> (u32 \<times> bytes) option" where
  "parse_id 0 shift i data = None"
| "parse_id (Suc k) shift i [] = None"
| "parse_id (Suc k) shift i (m # data) =
     (let i = i OR push_bit shift (ucast (m AND 0x7f))
      in if m AND 0x80 = 0 then Some (i, data) else parse_id k (shift + 7) i data)"

definition parse_route :: "bytes \<Rightarrow> (bytes \<times> bytes) option" where
  "parse_route data =
     (case data of [] \<Rightarrow> None
      | rlen # data \<Rightarrow> if unat rlen > length data then None else Some (take (unat rlen) data, drop (unat rlen) data))"

definition parse_msg :: "bytes \<Rightarrow> parsed_msg option" where
  "parse_msg data =
     (case data of [] \<Rightarrow> None
      | flag # data \<Rightarrow>
          let type = drop_bit 1 flag AND 0x07
          in if flag AND 0x01 \<noteq> 0 \<or> flag AND 0x10 \<noteq> 0 then None
             else if type > kMsgPush then None
             else case (if type = kMsgRequest \<or> type = kMsgResponse then parse_id 5 0 0 data else Some (0, data)) of
                    None \<Rightarrow> None
                  | Some (i, data) \<Rightarrow>
                      (case (if type = kMsgRequest \<or> type = kMsgNotify \<or> type = kMsgPush then parse_route data else Some ([], data)) of
                         None \<Rightarrow> None
                       | Some (route, body) \<Rightarrow>
                           Some \<lparr>msg_id = i, msg_type = type, msg_route = route, msg_body = body\<rparr>))"

section \<open>The contract of a frame parser\<close>

text \<open>Successive receive events: each appends its bytes to what was left over and takes the frames off.\<close>

fun feed :: "(bytes \<Rightarrow> 'f list \<times> bytes) \<Rightarrow> bytes list \<Rightarrow> bytes \<Rightarrow> 'f list \<times> bytes" where
  "feed drain [] buf = ([], buf)"
| "feed drain (chunk # chunks) buf =
     (let (fs, r) = drain (buf @ chunk); (gs, r') = feed drain chunks r in (fs @ gs, r'))"

text \<open>
  What a receive loop relies on: a frame is parsed back from any of its encodings whatever follows it, and a
  frame or an error found stays found when more bytes arrive.
\<close>

locale frame_codec =
  fixes encodes :: "'f \<Rightarrow> bytes \<Rightarrow> bool" and parse :: "bytes \<Rightarrow> 'f parse"
  assumes parse_encode: "encodes f bs \<Longrightarrow> parse (bs @ rest) = Consumed (length bs) f"
    and parse_mono: "parse b = Consumed n f \<Longrightarrow> 0 < n \<and> n \<le> length b \<and> parse (b @ c) = Consumed n f"
    and parse_error: "parse b = Protocol_error \<Longrightarrow> parse (b @ c) = Protocol_error"
begin

lemma parse_part:
  assumes "encodes f bs" "strict_prefix p bs"
  shows "parse p = Need_more"
proof -
  obtain z where z: "bs = p @ z" "z \<noteq> []" using assms(2) by (auto simp: strict_prefix_def prefix_def)
  have all: "parse (p @ z) = Consumed (length p + length z) f" using parse_encode [OF assms(1), of "[]"] z(1) by simp
  show ?thesis
  proof (cases "parse p")
    case (Consumed n g)
    then show ?thesis using parse_mono [OF Consumed, of z] all z(2) by auto
  next
    case Protocol_error
    then show ?thesis using parse_error [OF Protocol_error, of z] all by simp
  qed simp
qed

end

text \<open>A receive loop over such a parser, given by its equation: the frames found and what is left.\<close>

locale frame_stream = frame_codec encodes parse
  for encodes :: "'f \<Rightarrow> bytes \<Rightarrow> bool" and parse :: "bytes \<Rightarrow> 'f parse" +
  fixes drain :: "bytes \<Rightarrow> 'f list \<times> bytes"
  assumes drain_eq: "drain b = (case parse b of
      Consumed n f \<Rightarrow> (let (fs, r) = drain (drop n b) in (f # fs, r)) | _ \<Rightarrow> ([], b))"
begin

lemma drain_none: "parse b = Need_more \<or> parse b = Protocol_error \<Longrightarrow> drain b = ([], b)"
  by (subst drain_eq) auto

lemma drain_frame: "parse b = Consumed n f \<Longrightarrow> drain b = (f # fst (drain (drop n b)), snd (drain (drop n b)))"
  by (subst drain_eq) (simp split: prod.split)

text \<open>The frames of a stream are found in order, and the unfinished frame at its end is kept.\<close>

lemma drain_frames:
  assumes "list_all2 encodes fs bss" "encodes g bs" "strict_prefix p bs"
  shows "drain (concat bss @ p) = (fs, p)"
  using assms(1)
proof (induction rule: list_all2_induct)
  case Nil
  then show ?case using parse_part [OF assms(2,3)] by (simp add: drain_none)
next
  case (Cons f fs b bss)
  then show ?case using parse_encode [of f b "concat bss @ p"] by (simp add: drain_frame)
qed

text \<open>Where the stream is cut into chunks does not matter.\<close>

lemma drain_chunks:
  "drain (a @ b) = (fst (drain a) @ fst (drain (snd (drain a) @ b)), snd (drain (snd (drain a) @ b)))"
proof (induction a rule: length_induct)
  case (1 a)
  show ?case
  proof (cases "parse a")
    case (Consumed n f)
    note m = parse_mono [OF this, of b]
    then have "length (drop n a) < length a" by (simp only: length_drop) linarith
    then show ?thesis using m 1 by (simp add: drain_frame [OF Consumed] drain_frame [of "a @ b"])
  qed (simp_all add: drain_none)
qed

lemma drain_rest: "drain (snd (drain a)) = ([], snd (drain a))"
  using drain_chunks [of a "[]"] by (metis append_Nil2 append_self_conv prod.collapse fst_conv snd_conv)

lemma feed_chunks: "drain buf = ([], buf) \<Longrightarrow> feed drain chunks buf = drain (buf @ concat chunks)"
proof (induction chunks arbitrary: buf)
  case (Cons c cs)
  let ?r = "snd (drain (buf @ c))"
  have "feed drain cs ?r = drain (?r @ concat cs)" by (rule Cons.IH [OF drain_rest])
  then show ?case using drain_chunks [of "buf @ c" "concat cs"] by (simp add: case_prod_unfold Let_def)
qed simp

lemma feed_frames:
  assumes "list_all2 encodes fs bss" "encodes g bs" "strict_prefix p bs" "concat chunks = concat bss @ p"
  shows "feed drain chunks [] = (fs, p)"
proof -
  have "strict_prefix [] bs" using assms(3) by (cases p) (auto simp: strict_prefix_def)
  then have "drain [] = ([], [])" using parse_part [OF assms(2)] by (intro drain_none) simp
  then show ?thesis using feed_chunks [of "[]" chunks] drain_frames [OF assms(1-3)] assms(4) by simp
qed

end

section \<open>Packages round trip\<close>

lemma pkg_len_bits:
  "(push_bit 16 (ucast (ucast (drop_bit 16 len AND 0xff) :: u8)) OR push_bit 8 (ucast (ucast (drop_bit 8 len AND 0xff) :: u8)) OR
    ucast (ucast (len AND 0xff) :: u8)) = take_bit 24 (len :: u32)"
proof -
  define b where "b i = (ucast (ucast (drop_bit i len AND 0xff) :: u8) :: u32)" for i
  have b: "bit (b i) n \<longleftrightarrow> bit len (i + n) \<and> n < 8" for i n
    unfolding b_def by (simp only: ucast_byte_bits [where 'a = 32, simplified]) (simp add: bit_drop_bit_eq)
  have "push_bit 16 (b 16) OR push_bit 8 (b 8) OR b 0 = take_bit 24 len"
    by (rule bit_word_eqI, rename_tac n, case_tac "n < 8"; case_tac "n < 16") (auto simp: bit_simps b)
  then show ?thesis unfolding b_def by simp
qed

lemma pkg_len_lt:
  "unat (push_bit 16 (ucast (x :: u8)) OR push_bit 8 (ucast (y :: u8)) OR ucast (z :: u8) :: u32) < 2 ^ 24"
proof -
  have "take_bit 24 (push_bit 16 (ucast x) OR push_bit 8 (ucast y) OR ucast z :: u32) = push_bit 16 (ucast x) OR push_bit 8 (ucast y) OR ucast z"
    by (rule bit_word_eqI) (auto simp: bit_simps dest: bit_imp_le_length)
  then show ?thesis by (rule unat_less_take_bit)
qed

lemma parse_encode_pkg:
  "parse_pkg (encode_pkg type body @ rest) =
     (let n = length body mod 2 ^ 24
      in if n \<le> length (body @ rest) then Consumed (4 + n) \<lparr>pkg_type = type, pkg_body = take n (body @ rest)\<rparr> else Need_more)"
proof -
  let ?len = "of_nat (length body) :: u32"
  have u: "unat (take_bit 24 ?len) = length body mod 2 ^ 24"
    by (simp only: unsigned_take_bit_eq unat_of_nat) (simp add: take_bit_eq_mod mod_mod_cancel)
  have "\<not> kMaxBody < take_bit 24 ?len" by (simp add: word_less_nat_alt u kMaxBody_def)
  then show ?thesis
    unfolding parse_pkg_def encode_pkg_def Let_def by (simp add: pkg_len_bits u)
qed

lemma parse_pkg_mono:
  assumes "parse_pkg b = Consumed n f"
  shows "0 < n \<and> n \<le> length b \<and> parse_pkg (b @ c) = Consumed n f"
  using assms by (auto simp: parse_pkg_def Let_def nth_append split: if_splits)

lemma parse_pkg_no_error: "parse_pkg b \<noteq> Protocol_error"
proof -
  have "\<not> kMaxBody < push_bit 16 (ucast x) OR push_bit 8 (ucast y) OR ucast z" for x y z :: u8
    using pkg_len_lt [of x y z] by (simp add: word_less_nat_alt kMaxBody_def)
  then show ?thesis by (simp add: parse_pkg_def Let_def)
qed

text \<open>The loop that takes the packages off a buffer.\<close>

function drain_pkgs :: "bytes \<Rightarrow> parsed_pkg list \<times> bytes" where
  "drain_pkgs buf =
     (case parse_pkg buf of
        Consumed n pkg \<Rightarrow> (let (pkgs, r) = drain_pkgs (drop n buf) in (pkg # pkgs, r))
      | _ \<Rightarrow> ([], buf))"
  by pat_completeness auto
termination
proof (relation "measure length")
  fix buf n pkg assume "parse_pkg buf = Consumed n pkg"
  from parse_pkg_mono [OF this, of "[]"] show "(drop n buf, buf) \<in> measure length" by auto
qed simp

declare drain_pkgs.simps [simp del]

abbreviation encode_package :: "parsed_pkg \<Rightarrow> bytes" where
  "encode_package pkg \<equiv> encode_pkg (pkg_type pkg) (pkg_body pkg)"

definition pkg_fits :: "parsed_pkg \<Rightarrow> bool" where
  "pkg_fits pkg \<longleftrightarrow> length (pkg_body pkg) < 2 ^ 24"

lemma length_encode_pkg [simp]: "length (encode_pkg type body) = 4 + length body"
  by (simp add: encode_pkg_def Let_def)

definition encodes_pkg :: "parsed_pkg \<Rightarrow> bytes \<Rightarrow> bool" where
  "encodes_pkg pkg bs \<longleftrightarrow> pkg_fits pkg \<and> bs = encode_package pkg"

interpretation pkg: frame_stream encodes_pkg parse_pkg drain_pkgs
proof unfold_locales
  show "parse_pkg (bs @ rest) = Consumed (length bs) pkg" if "encodes_pkg pkg bs" for pkg bs rest
    using that parse_encode_pkg [of "pkg_type pkg" "pkg_body pkg" rest] by (simp add: encodes_pkg_def pkg_fits_def Let_def)
  show "drain_pkgs b = (case parse_pkg b of
      Consumed n f \<Rightarrow> (let (fs, r) = drain_pkgs (drop n b) in (f # fs, r)) | _ \<Rightarrow> ([], b))" for b
    by (rule drain_pkgs.simps)
qed (auto simp: parse_pkg_no_error dest: parse_pkg_mono)

section \<open>Messages round trip\<close>

lemma word_div_128: "(v :: u32) div 128 = drop_bit 7 v" and word_mod_128: "(v :: u32) mod 128 = take_bit 7 v"
  by (simp_all add: drop_bit_eq_div take_bit_eq_mod)

lemma group_bits:
  "bit (ucast ((ucast (take_bit 7 v) OR (if c then 0x80 else 0) :: u8) AND 0x7f) :: u32) n \<longleftrightarrow> bit v n \<and> n < 7" for v :: u32
proof -
  have m: "(0x7f :: u8) = mask 7" by (simp add: mask_eq_exp_minus_1)
  have e: "(0x80 :: u8) = push_bit 7 1" by simp
  show ?thesis
    unfolding m take_bit_eq_mask [symmetric] e
    by (cases "n < 7") (auto simp: bit_simps simp del: push_bit_of_1)
qed

lemma group_more: "(ucast (take_bit 7 (v :: u32)) OR 0x80 :: u8) AND 0x80 \<noteq> 0" "(ucast (take_bit 7 (v :: u32)) :: u8) AND 0x80 = 0"
proof -
  have e: "(0x80 :: u8) = push_bit 7 1" by simp
  have "bit ((ucast (take_bit 7 v) OR 0x80 :: u8) AND 0x80) 7" unfolding e by (simp add: bit_simps del: push_bit_of_1)
  then show "(ucast (take_bit 7 v) OR 0x80 :: u8) AND 0x80 \<noteq> 0" by auto
  show "(ucast (take_bit 7 v) :: u8) AND 0x80 = 0"
    unfolding e by (rule bit_word_eqI) (auto simp: bit_simps simp del: push_bit_of_1)
qed

lemma parse_id_encode:
  "7 * i \<le> 31 \<Longrightarrow> parse_id (5 - i) (7 * i) (take_bit (7 * i) w) (encode_id (drop_bit (7 * i) w) @ rest) = Some (w, rest)"
proof (induction "5 - i" arbitrary: i)
  case (Suc k)
  let ?v = "drop_bit (7 * i) w"
  let ?more = "drop_bit 7 ?v \<noteq> 0"
  let ?m = "ucast (take_bit 7 ?v) OR (if ?more then 0x80 else 0) :: u8"
  have next_id: "take_bit (7 * i) w OR push_bit (7 * i) (ucast (?m AND 0x7f)) = take_bit (7 * Suc i) w"
  proof -
    define g :: u32 where "g = ucast (?m AND 0x7f)"
    have g: "bit g n \<longleftrightarrow> bit w (7 * i + n) \<and> n < 7" for n
      unfolding g_def by (subst group_bits) (simp add: bit_drop_bit_eq)
    show ?thesis unfolding g_def [symmetric]
      by (rule bit_word_eqI, rename_tac n, case_tac "n < 7 * i") (auto simp: bit_simps g)
  qed
  have dd: "drop_bit 7 ?v = drop_bit (7 * Suc i) w" by (simp add: drop_bit_drop_bit add.commute)
  have enc: "encode_id ?v = ?m # (if ?more then encode_id (drop_bit (7 * Suc i) w) else [])"
    by (subst encode_id.simps) (simp add: word_div_128 word_mod_128 Let_def dd)
  have k: "5 - i = Suc k" and k': "k = 5 - Suc i" using Suc.hyps(2) by simp_all
  show ?case
  proof (cases ?more)
    case True
    have "7 * Suc i \<le> 31"
    proof (rule ccontr)
      assume "\<not> 7 * Suc i \<le> 31"
      then have "drop_bit (7 * Suc i) w = 0" by (intro bit_word_eqI) (auto simp: bit_simps dest: bit_imp_le_length)
      then show False using True dd by simp
    qed
    then have "parse_id k (7 * Suc i) (take_bit (7 * Suc i) w) (encode_id (drop_bit (7 * Suc i) w) @ rest) = Some (w, rest)"
      using Suc.hyps(1) [OF k'] by (simp only: k')
    then show ?thesis using True next_id group_more(1) by (simp add: enc k Let_def add.commute)
  next
    case False
    then have "drop_bit (7 * Suc i) w = 0" using dd by simp
    then have "take_bit (7 * Suc i) w = w"
      using bits_ident [of "7 * Suc i" w] by simp
    then show ?thesis using False next_id group_more(2) by (simp add: enc k Let_def)
  qed
qed simp

lemma parse_route_encode: "length route \<le> 255 \<Longrightarrow> parse_route (of_nat (length route) # route @ body) = Some (route, body)"
  by (simp add: parse_route_def unat_of_nat)

lemma msg_types: "(type :: u8) \<le> 3 \<Longrightarrow> type = 0 \<or> type = 1 \<or> type = 2 \<or> type = 3"
proof -
  assume "type \<le> 3"
  then have "unat type \<le> 3" by (simp add: word_le_nat_alt)
  then have "unat type = 0 \<or> unat type = 1 \<or> unat type = 2 \<or> unat type = 3" by auto
  then show ?thesis by (auto simp: word_unat_eq_iff)
qed

lemma parse_msg_encoded:
  assumes "type \<le> kMsgPush"
  shows "parse_msg (encode_msg i type route body) =
    (if type \<noteq> kMsgResponse \<and> length route > 255 then None
     else Some \<lparr>msg_id = (if type = kMsgRequest \<or> type = kMsgResponse then i else 0), msg_type = type,
                msg_route = (if type = kMsgResponse then [] else route), msg_body = body\<rparr>)"
proof -
  have "parse_id 5 0 0 (encode_id i @ rest) = Some (i, rest)" for rest using parse_id_encode [of 0 i rest] by simp
  then show ?thesis
    using msg_types [OF assms] parse_route_encode [of route body]
    by (elim disjE) (auto simp: encode_msg_def parse_msg_def Let_def)
qed

section \<open>Properties\<close>

text \<open>C37. Reassembly of the package stream: however the bytes of a sequence of packages (each of less than
  16 MB) are cut into reads, the receive loop delivers exactly these packages in order, and keeps the bytes of the last,
  unfinished one.\<close>

theorem package_stream_reassembled:
  assumes "\<forall>pkg \<in> set pkgs. pkg_fits pkg" "pkg_fits last_pkg" "strict_prefix part (encode_package last_pkg)"
    "concat chunks = concat (map encode_package pkgs) @ part"
  shows "feed drain_pkgs chunks [] = (pkgs, part)"
proof (rule pkg.feed_frames)
  show "list_all2 encodes_pkg pkgs (map encode_package pkgs)"
    using assms(1) by (auto simp: list_all2_conv_all_nth encodes_pkg_def)
  show "encodes_pkg last_pkg (encode_package last_pkg)" using assms(2) by (simp add: encodes_pkg_def)
qed (use assms in auto)

theorem package_stream_reassembled_witness:
  "feed drain_pkgs [[3], [0, 0, 0, 4, 0], [0, 1, 9], [3, 0]] [] = ([\<lparr>pkg_type = 3, pkg_body = []\<rparr>, \<lparr>pkg_type = 4, pkg_body = [9]\<rparr>], [3, 0])"
  using package_stream_reassembled [of "[\<lparr>pkg_type = 3, pkg_body = []\<rparr>, \<lparr>pkg_type = 4, pkg_body = [9]\<rparr>]" "\<lparr>pkg_type = 3, pkg_body = []\<rparr>" "[3, 0]"
    "[[3], [0, 0, 0, 4, 0], [0, 1, 9], [3, 0]]"]
  by (simp add: pkg_fits_def encode_pkg_def Let_def strict_prefix_def)

text \<open>The length field has three bytes: a package is read back exactly when its body is shorter than
  \<open>2 ^ 24\<close> bytes; of a longer body the receiver sees only the first \<open>length mod 2 ^ 24\<close> bytes, takes the rest for
  further packages, and the limit \<open>kMaxBody\<close> never rejects anything.\<close>

theorem encode_pkg_truncates:
  "parse_pkg (encode_pkg type body) =
     Consumed (4 + length body mod 2 ^ 24) \<lparr>pkg_type = type, pkg_body = take (length body mod 2 ^ 24) body\<rparr> \<and>
   parse_pkg buf \<noteq> Protocol_error"
  using parse_encode_pkg [of type body "[]"] parse_pkg_no_error by (simp add: Let_def)

text \<open>Messages round trip: for the four message types a message is parsed back to its type, its id (a request or
  a response carries all 32 bits of it), its route and its body; a route of more than 255 bytes cannot be encoded.\<close>

theorem parse_encode_msg:
  assumes "type \<le> kMsgPush"
  shows "parse_msg (encode_msg i type route body) =
    (if type \<noteq> kMsgResponse \<and> length route > 255 then None
     else Some \<lparr>msg_id = (if type = kMsgRequest \<or> type = kMsgResponse then i else 0), msg_type = type,
                msg_route = (if type = kMsgResponse then [] else route), msg_body = body\<rparr>)"
  using assms by (rule parse_msg_encoded)

end
