(* ===== verification/Pomelo_Ws.thy ===== *)
theory Pomelo_Ws
  imports Pomelo_Codec
begin

text \<open>
  The WebSocket transport of the Pomelo endpoint, \<^verbatim>\<open>src/core/pomelo_ws.cpp\<close>: SHA-1, Base64, the handshake response and the
  frames.  SHA-1 is shown equal to the padded-message definition of the standard however the input is
  cut into updates, Base64 to be invertible, and the frame parser to provide the contract \<open>frame_codec\<close> for the server's
  frames and for the masked frames of a client.
\<close>

section \<open>SHA-1\<close>

text \<open>The state: the five words, the number of bytes seen, and the first \<open>buflen\<close> bytes of the buffer (the others
  are written before they are read).\<close>

type_synonym sha_words = "u32 \<times> u32 \<times> u32 \<times> u32 \<times> u32"

record sha1 =
  sha_h :: sha_words
  sha_len :: u64
  sha_buf :: bytes

definition sha1_init :: sha1 where
  "sha1_init = \<lparr>sha_h = (0x67452301, 0xEFCDAB89, 0x98BADCFE, 0x10325476, 0xC3D2E1F0), sha_len = 0, sha_buf = []\<rparr>"

definition rol :: "u32 \<Rightarrow> nat \<Rightarrow> u32" where
  "rol v n = push_bit n v OR drop_bit (32 - n) v"

text \<open>The first 16 words of the schedule, and the extension to 80 (\<open>w\<close> grows at its end).\<close>

definition sha_load :: "bytes \<Rightarrow> u32 list" where
  "sha_load p = map (\<lambda>i. push_bit 24 (ucast (p ! (i * 4))) OR push_bit 16 (ucast (p ! (i * 4 + 1))) OR
                         push_bit 8 (ucast (p ! (i * 4 + 2))) OR ucast (p ! (i * 4 + 3))) [0..<16]"

definition sha_schedule :: "bytes \<Rightarrow> u32 list" where
  "sha_schedule p = fold (\<lambda>i w. w @ [rol (w ! (i - 3) XOR w ! (i - 8) XOR w ! (i - 14) XOR w ! (i - 16)) 1]) [16..<80] (sha_load p)"

definition sha_round :: "u32 list \<Rightarrow> nat \<Rightarrow> sha_words \<Rightarrow> sha_words" where
  "sha_round w i st =
     (case st of (a, b, c, d, e) \<Rightarrow>
        let (f, k) =
              (if i < 20 then ((b AND c) OR (NOT b AND d), 0x5A827999)
               else if i < 40 then (b XOR c XOR d, 0x6ED9EBA1)
               else if i < 60 then ((b AND c) OR (b AND d) OR (c AND d), 0x8F1BBCDC)
               else (b XOR c XOR d, 0xCA62C1D6));
            tmp = rol a 5 + f + e + k + w ! i
        in (tmp, a, rol b 30, c, d))"

definition sha_block :: "bytes \<Rightarrow> sha_words \<Rightarrow> sha_words" where
  "sha_block p h =
     (let w = sha_schedule p
      in case (h, fold (sha_round w) [0..<80] h) of
           ((h0, h1, h2, h3, h4), (a, b, c, d, e)) \<Rightarrow> (h0 + a, h1 + b, h2 + c, h3 + d, h4 + e))"

text \<open>
  The loop of \<open>update\<close>.  (The buffer is never full between two steps; a full one would never be emptied.)
\<close>

function sha_absorb :: "sha_words \<Rightarrow> bytes \<Rightarrow> bytes \<Rightarrow> sha_words \<times> bytes" where
  "sha_absorb h buf data =
     (if data = [] \<or> length buf \<ge> 64 then (h, buf)
      else let n = min (64 - length buf) (length data);
               buf = buf @ take n data; data = drop n data
           in if length buf = 64 then sha_absorb (sha_block buf h) [] data else sha_absorb h buf data)"
  by pat_completeness auto
termination by (relation "measure (\<lambda>(h, buf, data). length data)") (auto simp: min_def)

declare sha_absorb.simps [simp del]

definition sha_update :: "bytes \<Rightarrow> sha1 \<Rightarrow> sha1" where
  "sha_update data s =
     (let (h, buf) = sha_absorb (sha_h s) (sha_buf s) data
      in s\<lparr>sha_h := h, sha_len := sha_len s + of_nat (length data), sha_buf := buf\<rparr>)"

text \<open>The eight bytes of the bit length, most significant first.\<close>

fun be_bytes :: "nat \<Rightarrow> u64 \<Rightarrow> bytes" where
  "be_bytes 0 bits = []"
| "be_bytes (Suc i) bits = be_bytes i (drop_bit 8 bits) @ [ucast (bits AND 0xFF)]"

definition sha_digest :: "sha_words \<Rightarrow> bytes" where
  "sha_digest h =
     (case h of (h0, h1, h2, h3, h4) \<Rightarrow>
        concat (map (\<lambda>v. [ucast (drop_bit 24 v), ucast (drop_bit 16 v), ucast (drop_bit 8 v), ucast v]) [h0, h1, h2, h3, h4]))"

definition sha_finish :: "sha1 \<Rightarrow> bytes" where
  "sha_finish s =
     (let bits = sha_len s * 8;
          s = sha_update [0x80] s;
          remain = 64 - length (sha_buf s);
          (s, remain) = (if remain < 8 then (sha_update (replicate remain 0) s, 64) else (s, remain));
          s = sha_update (replicate (remain - 8) 0) s
      in sha_digest (sha_block (sha_buf s @ be_bytes 8 bits) (sha_h s)))"

definition sha1_hash :: "bytes \<Rightarrow> bytes" where
  "sha1_hash data = sha_finish (sha_update data sha1_init)"

section \<open>Base64\<close>

definition k_b64 :: string where
  "k_b64 = ''ABCDEFGHIJKLMNOPQRSTUVWXYZabcdefghijklmnopqrstuvwxyz0123456789+/''"

definition b64_char :: "u32 \<Rightarrow> char" where
  "b64_char v = k_b64 ! unat (v AND 0x3F)"

fun base64 :: "bytes \<Rightarrow> string" where
  "base64 [] = []"
| "base64 [a] = (let v = push_bit 16 (ucast a) in [b64_char (drop_bit 18 v), b64_char (drop_bit 12 v), CHR ''='', CHR ''=''])"
| "base64 [a, b] = (let v = push_bit 16 (ucast a) OR push_bit 8 (ucast b)
                    in [b64_char (drop_bit 18 v), b64_char (drop_bit 12 v), b64_char (drop_bit 6 v), CHR ''=''])"
| "base64 (a # b # c # data) =
     (let v = push_bit 16 (ucast a) OR push_bit 8 (ucast b) OR ucast c
      in [b64_char (drop_bit 18 v), b64_char (drop_bit 12 v), b64_char (drop_bit 6 v), b64_char v] @ base64 data)"

section \<open>The handshake\<close>

abbreviation ascii :: "string \<Rightarrow> bytes" where
  "ascii s \<equiv> map of_char s"

definition k_ws_guid :: bytes where
  "k_ws_guid = ascii ''258EAFA5-E914-47DA-95CA-C5AB0DC85B11''"

definition crlf :: bytes where
  "crlf = [13, 10]"

definition handshake_response :: "bytes \<Rightarrow> bytes" where
  "handshake_response key =
     (let accept = base64 (sha1_hash (key @ k_ws_guid))
      in ascii ''HTTP/1.1 101 Switching Protocols'' @ crlf @ ascii ''Upgrade: websocket'' @ crlf @
         ascii ''Connection: Upgrade'' @ crlf @ ascii ''Sec-WebSocket-Accept: '' @ ascii accept @ crlf @ crlf)"

definition looks_like_http_upgrade :: "bytes \<Rightarrow> bool" where
  "looks_like_http_upgrade buf \<longleftrightarrow> \<not> length buf < 4 \<and> take 4 buf = ascii ''GET ''"

section \<open>Frames\<close>

record parsed_frame =
  frame_fin :: bool
  frame_opcode :: u8
  frame_payload :: bytes

abbreviation (input) "kOpContinuation \<equiv> (0x0 :: u8)"
abbreviation (input) "kOpText \<equiv> (0x1 :: u8)"
abbreviation (input) "kOpBinary \<equiv> (0x2 :: u8)"
abbreviation (input) "kOpClose \<equiv> (0x8 :: u8)"
abbreviation (input) "kOpPing \<equiv> (0x9 :: u8)"
abbreviation (input) "kOpPong \<equiv> (0xA :: u8)"

definition be_value :: "bytes \<Rightarrow> u64" where
  "be_value bs = fold (\<lambda>b len. push_bit 8 len OR ucast b) bs 0"

text \<open>The length and the offset after it, or \<open>None\<close> when the buffer ends inside.\<close>

definition frame_length :: "bytes \<Rightarrow> (u64 \<times> nat) option" where
  "frame_length buf =
     (let len = ucast (buf ! 1 AND 0x7F) :: u64
      in if len = 126 then if length buf < 4 then None
                           else Some (push_bit 8 (ucast (buf ! 2)) OR ucast (buf ! 3), 4)
         else if len = 127 then if length buf < 10 then None else Some (be_value (take 8 (drop 2 buf)), 10)
         else Some (len, 2))"

definition unmask :: "bool \<Rightarrow> bytes \<Rightarrow> bytes \<Rightarrow> bytes" where
  "unmask masked mask_key data =
     map (\<lambda>i. if masked then data ! i XOR mask_key ! (i AND 3) else data ! i) [0..<length data]"

definition parse_frame :: "bytes \<Rightarrow> parsed_frame parse" where
  "parse_frame buf =
     (if length buf < 2 then Need_more
      else let b0 = buf ! 0; b1 = buf ! 1; masked = (b1 AND 0x80 \<noteq> 0)
           in case frame_length buf of
                None \<Rightarrow> Need_more
              | Some (len, off) \<Rightarrow>
                  if len > 64 * 1024 * 1024 then Protocol_error
                  else if masked \<and> length buf < off + 4 then Need_more
                  else let mask_key = (if masked then take 4 (drop off buf) else [0, 0, 0, 0]);
                           off = (if masked then off + 4 else off)
                       in if length buf < off + unat len then Need_more
                          else Consumed (off + unat len)
                                 \<lparr>frame_fin = (b0 AND 0x80 \<noteq> 0), frame_opcode = b0 AND 0x0F,
                                  frame_payload = unmask masked mask_key (take (unat len) (drop off buf))\<rparr>)"

definition encode_frame :: "u8 \<Rightarrow> bytes \<Rightarrow> bytes" where
  "encode_frame opcode payload =
     (let len = length payload; w = of_nat len :: u64
      in [0x80 OR (opcode AND 0x0F)] @
         (if len < 126 then [of_nat len]
          else if len < 65536 then [126, ucast (drop_bit 8 w AND 0xFF), ucast (w AND 0xFF)]
          else 127 # map (\<lambda>i. ucast (drop_bit (8 * i) w AND 0xFF)) (rev [0..<8])) @ payload)"

section \<open>SHA-1 agrees with the standard\<close>

text \<open>The definition of the standard: pad the message, then process its blocks.\<close>

function sha_blocks :: "sha_words \<Rightarrow> bytes \<Rightarrow> sha_words" where
  "sha_blocks h m = (if length m < 64 then h else sha_blocks (sha_block (take 64 m) h) (drop 64 m))"
  by pat_completeness auto
termination by (relation "measure (\<lambda>(h, m). length m)") auto

declare sha_blocks.simps [simp del]

definition sha_pad :: "bytes \<Rightarrow> bytes" where
  "sha_pad m = m @ [0x80] @ replicate ((119 - length m mod 64) mod 64) 0 @ be_bytes 8 (of_nat (length m) * 8)"

definition sha1_spec :: "bytes \<Rightarrow> bytes" where
  "sha1_spec m = sha_digest (sha_blocks (sha_h sha1_init) (sha_pad m))"

definition sha_tail :: "bytes \<Rightarrow> bytes" where
  "sha_tail m = drop (64 * (length m div 64)) m"

lemma sha_tail_short: "length m < 64 \<Longrightarrow> sha_tail m = m"
  by (simp add: sha_tail_def)

lemma sha_blocks_short: "length m < 64 \<Longrightarrow> sha_blocks h m = h"
  by (subst sha_blocks.simps) simp

lemma sha_blocks_block: "length p = 64 \<Longrightarrow> sha_blocks h (p @ m) = sha_blocks (sha_block p h) m"
  by (subst sha_blocks.simps) simp

lemma length_sha_tail: "length (sha_tail m) = length m mod 64"
  by (simp add: sha_tail_def minus_mult_div_eq_mod)

lemma sha_tail_long: "64 \<le> length m \<Longrightarrow> sha_tail (drop 64 m) = sha_tail m"
proof -
  assume "64 \<le> length m"
  then have "length m div 64 = Suc ((length m - 64) div 64)" using le_div_geq [of 64 "length m"] by simp
  then show ?thesis by (simp add: sha_tail_def add.commute)
qed

lemma sha_blocks_append: "sha_blocks (sha_blocks h x) (sha_tail x @ y) = sha_blocks h (x @ y)"
proof (induction h x rule: sha_blocks.induct)
  case (1 h m)
  show ?case
  proof (cases "length m < 64")
    case False
    then have "m = take 64 m @ drop 64 m" "length (take 64 m) = 64" by auto
    then have b: "sha_blocks h (m @ z) = sha_blocks (sha_block (take 64 m) h) (drop 64 m @ z)" for z
      using sha_blocks_block [of "take 64 m" h "drop 64 m @ z"] by (metis append.assoc append_take_drop_id)
    show ?thesis using 1 [OF False] False sha_tail_long [of m] b [of y] b [of "[]"] by simp
  qed (simp add: sha_blocks_short sha_tail_short)
qed

lemma sha_tail_append: "sha_tail (sha_tail x @ y) = sha_tail (x @ y)"
proof -
  let ?k = "64 * (length x div 64)"
  have "length x + length y = (length x mod 64 + length y) + (length x div 64) * 64" by simp
  then have "(length x + length y) div 64 = ((length x mod 64 + length y) + (length x div 64) * 64) div 64" by (simp only:)
  also have "\<dots> = length x div 64 + (length x mod 64 + length y) div 64" by (rule div_mult_self1) simp
  finally have e: "(length x + length y) div 64 = length x div 64 + (length x mod 64 + length y) div 64" .
  have "64 * (length (x @ y) div 64) = 64 * ((length x mod 64 + length y) div 64) + ?k"
    unfolding length_append e distrib_left by (rule add.commute)
  moreover have "sha_tail x @ y = drop ?k (x @ y)" by (simp add: sha_tail_def)
  ultimately show ?thesis
    unfolding sha_tail_def [of "sha_tail x @ y"] sha_tail_def [of "x @ y"] length_append length_sha_tail
    by (simp only: drop_drop length_append)
qed

lemma sha_absorb_spec: "length buf < 64 \<Longrightarrow> sha_absorb h buf data = (sha_blocks h (buf @ data), sha_tail (buf @ data))"
proof (induction h buf data rule: sha_absorb.induct)
  case (1 h buf data)
  let ?n = "min (64 - length buf) (length data)"
  let ?buf = "buf @ take ?n data" and ?data = "drop ?n data"
  show ?case
  proof (cases "data = []")
    case True
    then show ?thesis using 1(3) by (subst sha_absorb.simps) (simp add: sha_blocks_short sha_tail_short)
  next
    case False
    have split: "buf @ data = ?buf @ ?data" by simp
    note rec = 1(1,2) [OF _ refl refl refl]
    have neg: "\<not> (data = [] \<or> 64 \<le> length buf)" using False 1(3) by auto
    show ?thesis
    proof (cases "length ?buf = 64")
      case True
      then have "sha_absorb h buf data = sha_absorb (sha_block ?buf h) [] ?data"
        using neg by (subst sha_absorb.simps) (simp add: Let_def)
      also have "\<dots> = (sha_blocks (sha_block ?buf h) ?data, sha_tail ?data)" using rec(1) [OF neg True] by simp
      also have "sha_tail ?data = sha_tail (?buf @ ?data)" using True sha_tail_long [of "?buf @ ?data"] by simp
      also have "sha_blocks (sha_block ?buf h) ?data = sha_blocks h (?buf @ ?data)" by (rule sha_blocks_block [OF True, symmetric])
      finally show ?thesis by (simp only: split)
    next
      case F: False
      then have n: "?n = length data" "length (buf @ data) < 64" using 1(3) by (auto simp: min_def split: if_splits)
      have "sha_absorb h buf data = sha_absorb h ?buf ?data" using neg F by (subst sha_absorb.simps) (simp add: Let_def)
      also have "\<dots> = (sha_blocks h (buf @ data), sha_tail (buf @ data))" using rec(2) [OF neg F] n by simp
      finally show ?thesis .
    qed
  qed
qed

text \<open>A state that has absorbed the message \<open>m\<close>.\<close>

definition sha_absorbed :: "sha1 \<Rightarrow> bytes \<Rightarrow> bool" where
  "sha_absorbed s m \<longleftrightarrow> sha_h s = sha_blocks (sha_h sha1_init) m \<and> sha_buf s = sha_tail m \<and> sha_len s = of_nat (length m)"

lemma sha_absorbed_init: "sha_absorbed sha1_init []"
  by (simp add: sha_absorbed_def sha_blocks_short sha_tail_short sha1_init_def)

lemma sha_absorbed_update: "sha_absorbed s m \<Longrightarrow> sha_absorbed (sha_update d s) (m @ d)"
proof -
  assume a: "sha_absorbed s m"
  have "length (sha_tail m) < 64" unfolding length_sha_tail by simp
  from sha_absorb_spec [OF this, of "sha_h s" d] show ?thesis
    using a unfolding sha_absorbed_def sha_update_def by (simp add: sha_blocks_append sha_tail_append)
qed

lemma length_be_bytes [simp]: "length (be_bytes n w) = n"
  by (induction n arbitrary: w) auto

lemma pad_count:
  "(if 64 - (n + 1) mod 64 < 8 then 64 - (n + 1) mod 64 else 0) +
   ((if 64 - (n + 1) mod 64 < 8 then 64 else 64 - (n + 1) mod 64) - 8) = (119 - n mod 64) mod (64 :: nat)"
proof -
  obtain q where q: "n mod 64 = q" "q < 64" by simp
  have n1: "(n + 1) mod 64 = (if q = 63 then 0 else q + 1)" using q by (simp add: mod_Suc)
  consider "q = 63" | "q \<le> 55" | "55 < q" "q < 63" using q by linarith
  then show ?thesis
  proof cases
    case 2
    then have "119 - q = 55 - q + 64" by simp
    then have "(119 - q) mod 64 = (55 - q + 64) mod 64" by (rule arg_cong)
    also have "\<dots> = 55 - q" using 2 by (simp only: mod_add_self2) simp
    finally have "(119 - q) mod 64 = 55 - q" .
    moreover have "\<not> 64 - (q + 1) < 8" "q \<noteq> 63" using 2 by simp_all
    ultimately show ?thesis unfolding n1 q(1) using 2 by simp
  next
    case 3
    then have "(119 - q) mod 64 = 119 - q" by (intro mod_less) simp
    moreover have "64 - (q + 1) < 8" "q \<noteq> 63" using 3 by simp_all
    ultimately show ?thesis unfolding n1 q(1) using 3 by simp
  qed (simp only: n1 q, simp)
qed

lemma pad_length: "(n + (1 + (119 - n mod 64) mod 64)) mod (64 :: nat) = 56"
proof -
  let ?z = "119 - n mod 64"
  have "(n + (1 + ?z mod 64)) mod 64 = (n + 1 + ?z) mod 64"
    unfolding add.assoc [symmetric] by (rule mod_add_right_eq)
  also have "\<dots> = (n mod 64 + (1 + ?z)) mod 64" unfolding add.assoc by (rule mod_add_left_eq [symmetric])
  also have "n mod 64 + (1 + (119 - n mod 64)) = 120" using mod_less_divisor [of 64 n] by linarith
  finally show ?thesis by simp
qed

lemma sha_finish_spec:
  assumes "sha_absorbed s m"
  shows "sha_finish s = sha1_spec m"
proof -
  define r where "r = 64 - (length m + 1) mod 64"
  let ?s1 = "sha_update [0x80] s" and ?r2 = "if r < 8 then 64 else r"
  let ?s2 = "if r < 8 then sha_update (replicate r 0) ?s1 else ?s1"
  let ?s3 = "sha_update (replicate (?r2 - 8) 0) ?s2"
  let ?x = "m @ [0x80] @ replicate ((119 - length m mod 64) mod 64) 0"
  have s1: "sha_absorbed ?s1 (m @ [0x80])" using assms by (rule sha_absorbed_update)
  then have buf1: "64 - length (sha_buf ?s1) = r"
    unfolding sha_absorbed_def r_def using length_sha_tail [of "m @ [0x80]"] by simp
  have "sha_absorbed ?s2 ((m @ [0x80]) @ replicate (if r < 8 then r else 0) 0)"
    using sha_absorbed_update [OF s1, of "replicate r 0"] s1 by simp
  then have "sha_absorbed ?s3 (((m @ [0x80]) @ replicate (if r < 8 then r else 0) 0) @ replicate (?r2 - 8) 0)"
    by (rule sha_absorbed_update)
  moreover have "(if r < 8 then r else 0) + (?r2 - 8) = (119 - length m mod 64) mod 64" unfolding r_def by (rule pad_count)
  ultimately have s3: "sha_absorbed ?s3 ?x" by (simp only: append_assoc replicate_add [symmetric])
  have "length ?x mod 64 = 56" using pad_length [of "length m"] by (simp add: add.assoc)
  then have "length (sha_tail ?x @ be_bytes 8 w) = 64" for w by (simp only: length_append length_sha_tail length_be_bytes)
  then have blk: "sha_blocks h (sha_tail ?x @ be_bytes 8 w) = sha_block (sha_tail ?x @ be_bytes 8 w) h" for h w
    using sha_blocks_block [of "sha_tail ?x @ be_bytes 8 w" h "[]"] by (simp only: append_Nil2) (simp add: sha_blocks_short)
  have "sha_finish s = sha_digest (sha_block (sha_buf ?s3 @ be_bytes 8 (sha_len s * 8)) (sha_h ?s3))"
    unfolding sha_finish_def Let_def buf1 by (simp split: prod.split)
  also have "\<dots> = sha_digest (sha_blocks (sha_h sha1_init) (?x @ be_bytes 8 (of_nat (length m) * 8)))"
  proof -
    have "sha_buf ?s3 = sha_tail ?x" "sha_h ?s3 = sha_blocks (sha_h sha1_init) ?x" "sha_len s = of_nat (length m)"
      using s3 assms unfolding sha_absorbed_def by blast+
    then show ?thesis by (simp only: blk [symmetric] sha_blocks_append)
  qed
  finally show ?thesis by (simp add: sha1_spec_def sha_pad_def)
qed

section \<open>Base64 can be decoded\<close>

definition b64_digit :: "char \<Rightarrow> u32" where
  "b64_digit c = of_nat (length (takeWhile (\<lambda>x. x \<noteq> c) k_b64))"

fun base64_decode :: "string \<Rightarrow> bytes" where
  "base64_decode (c1 # c2 # c3 # c4 # s) =
     (let v = push_bit 18 (b64_digit c1) OR push_bit 12 (b64_digit c2) OR
              (if c3 = CHR ''='' then 0 else push_bit 6 (b64_digit c3)) OR (if c4 = CHR ''='' then 0 else b64_digit c4)
      in take (if c3 = CHR ''='' then 1 else if c4 = CHR ''='' then 2 else 3)
           [ucast (drop_bit 16 v), ucast (drop_bit 8 v), ucast v] @ base64_decode s)"
| "base64_decode s = []"

lemma length_takeWhile_index: "distinct xs \<Longrightarrow> i < length xs \<Longrightarrow> length (takeWhile (\<lambda>x. x \<noteq> xs ! i) xs) = i"
proof (induction xs arbitrary: i)
  case (Cons a xs)
  then show ?case by (cases i) auto
qed simp

lemma k_b64_facts: "distinct k_b64" "length k_b64 = 64" "CHR ''='' \<notin> set k_b64"
  by (simp_all add: k_b64_def)

lemma and_3F: "(v :: u32) AND 0x3F = take_bit 6 v"
  by (simp add: take_bit_eq_mask mask_eq_exp_minus_1)

lemma b64_digit_char [simp]: "b64_digit (b64_char v) = take_bit 6 v"
proof -
  have "unat (take_bit 6 v) < 64" using unat_less_take_bit [of 6 "take_bit 6 v"] by simp
  then show ?thesis
    unfolding b64_digit_def b64_char_def and_3F using length_takeWhile_index [OF k_b64_facts(1)] by (simp add: k_b64_facts)
qed

lemma b64_char_pad [simp]: "b64_char v \<noteq> CHR ''=''"
proof -
  have "unat (v AND 0x3F) < length k_b64" unfolding and_3F k_b64_facts using unat_less_take_bit [of 6 "take_bit 6 v"] by simp
  from nth_mem [OF this] show ?thesis using k_b64_facts(3) by (auto simp: b64_char_def)
qed

text \<open>The digits of a group put its 24 bits together again.\<close>

lemma b64_group:
  fixes v :: u32
  assumes "take_bit 24 v = v"
  shows "push_bit 18 (take_bit 6 (drop_bit 18 v)) OR push_bit 12 (take_bit 6 (drop_bit 12 v)) OR
    push_bit 6 (take_bit 6 (drop_bit 6 v)) OR take_bit 6 v = v"
proof (rule bit_word_eqI)
  fix n assume "n < LENGTH(32)"
  have "bit v n \<Longrightarrow> n < 24" using bit_take_bit_iff [of 24 v n] assms by simp
  then show "bit (push_bit 18 (take_bit 6 (drop_bit 18 v)) OR push_bit 12 (take_bit 6 (drop_bit 12 v)) OR
      push_bit 6 (take_bit 6 (drop_bit 6 v)) OR take_bit 6 v) n = bit v n"
    by (cases "n < 6"; cases "n < 12"; cases "n < 18") (auto simp: bit_simps)
qed

lemma b64_bytes:
  fixes a b c :: u8
  defines "v \<equiv> push_bit 16 (ucast a) OR push_bit 8 (ucast b) OR ucast c :: u32"
  shows "take_bit 24 v = v" "ucast (drop_bit 16 v) = a" "ucast (drop_bit 8 v) = b" "ucast v = c"
  unfolding v_def by (rule bit_word_eqI; auto simp: bit_simps dest: bit_imp_le_length)+

lemma base64_decode_base64: "base64_decode (base64 data) = data"
proof (induction data rule: base64.induct)
  case (2 a)
  let ?v = "push_bit 16 (ucast a) :: u32"
  have "take_bit 6 (drop_bit 6 ?v) = 0" "take_bit 6 ?v = 0" by (rule bit_word_eqI; auto simp: bit_simps)+
  then show ?case using b64_group [of ?v] b64_bytes [of a 0 0] by (simp add: Let_def)
next
  case (3 a b)
  let ?v = "push_bit 16 (ucast a) OR push_bit 8 (ucast b) :: u32"
  have "take_bit 6 ?v = 0" by (rule bit_word_eqI) (auto simp: bit_simps)
  then show ?case using b64_group [of ?v] b64_bytes [of a b 0] by (simp add: Let_def)
next
  case (4 a b c data)
  then show ?case using b64_group [of "push_bit 16 (ucast a) OR push_bit 8 (ucast b) OR ucast c"] b64_bytes [of a b c]
    by (simp add: Let_def or.assoc)
qed simp

section \<open>Frames round trip\<close>

text \<open>
  A frame as RFC 6455 lays it out, with an optional masking key: what the server writes (no key) and what a client
  sends (a key of four bytes).
\<close>

definition len_bytes :: "bool \<Rightarrow> nat \<Rightarrow> bytes" where
  "len_bytes masked len =
     (let w = of_nat len :: u64; m = (if masked then 0x80 else 0) :: u8
      in if len < 126 then [m OR of_nat len]
         else if len < 65536 then [m OR 126, ucast (drop_bit 8 w AND 0xFF), ucast (w AND 0xFF)]
         else (m OR 127) # map (\<lambda>i. ucast (drop_bit (8 * i) w AND 0xFF)) (rev [0..<8]))"

text \<open>Masking as the RFC describes it: the octets are combined with those of the key in turn, beginning again after the last one.\<close>

fun mask_octets :: "bytes \<Rightarrow> bytes \<Rightarrow> bytes" where
  "mask_octets key [] = []"
| "mask_octets key (b # data) = (b XOR hd key) # mask_octets (rotate1 key) data"

definition frame_bytes :: "bytes option \<Rightarrow> parsed_frame \<Rightarrow> bytes" where
  "frame_bytes key f =
     [(if frame_fin f then 0x80 else 0) OR frame_opcode f] @ len_bytes (key \<noteq> None) (length (frame_payload f)) @
     (case key of None \<Rightarrow> frame_payload f | Some k \<Rightarrow> k @ mask_octets k (frame_payload f))"

definition encodes_frame :: "parsed_frame \<Rightarrow> bytes \<Rightarrow> bool" where
  "encodes_frame f bs \<longleftrightarrow> frame_opcode f < 16 \<and> length (frame_payload f) \<le> 64 * 1024 * 1024 \<and>
     (bs = frame_bytes None f \<or> (\<exists>k. length k = 4 \<and> bs = frame_bytes (Some k) f))"

lemma encode_frame_bytes:
  "encode_frame opcode payload = frame_bytes None \<lparr>frame_fin = True, frame_opcode = opcode AND 0x0F, frame_payload = payload\<rparr>"
  by (simp add: encode_frame_def frame_bytes_def len_bytes_def Let_def)

lemma be_value_fold:
  "fold (\<lambda>b len. push_bit 8 len OR ucast b) (map (\<lambda>i. ucast (drop_bit (8 * i) w AND 0xFF) :: u8) (rev [0..<n])) v =
     push_bit (8 * n) v OR take_bit (8 * n) (w :: u64)"
proof (induction n arbitrary: v)
  case (Suc n)
  define b :: u64 where "b = ucast (ucast (drop_bit (8 * n) w AND 0xFF) :: u8)"
  have b: "bit b i \<longleftrightarrow> bit w (8 * n + i) \<and> i < 8" for i
    unfolding b_def by (simp only: ucast_byte_bits [where 'a = 64, simplified]) (simp add: bit_drop_bit_eq)
  have "push_bit (8 * n) (push_bit 8 v OR b) OR take_bit (8 * n) w = push_bit (8 * Suc n) v OR take_bit (8 * Suc n) w"
    by (rule bit_word_eqI, rename_tac i, case_tac "i < 8 * n") (auto simp: bit_simps b algebra_simps)
  then show ?case using Suc by (simp add: b_def)
qed simp

lemma be_value_bytes: "be_value (map (\<lambda>i. ucast (drop_bit (8 * i) w AND 0xFF)) (rev [0..<8])) = w"
  unfolding be_value_def be_value_fold using take_bit_length_eq [of w] by simp

lemma be_value_two:
  "take_bit 16 w = w \<Longrightarrow> push_bit 8 (ucast (ucast (drop_bit 8 w AND 0xFF) :: u8)) OR ucast (ucast (w AND 0xFF) :: u8) = (w :: u64)"
  using be_value_fold [of w 2 0] by (simp add: numeral_2_eq_2 upt_rec)

lemma length_mask_octets [simp]: "length (mask_octets k data) = length data"
  by (induction k data rule: mask_octets.induct) simp_all

lemma nth_mask_octets: "i < length data \<Longrightarrow> length k = 4 \<Longrightarrow> mask_octets k data ! i = data ! i XOR k ! (i AND 3)"
proof (induction k data arbitrary: i rule: mask_octets.induct)
  case (2 k b data)
  show ?case
  proof (cases i)
    case 0
    then show ?thesis using 2(3) by (cases k) simp_all
  next
    case (Suc j)
    have three: "n AND 3 = n mod 4" for n :: nat using take_bit_eq_mask [of 2 n] by (simp add: mask_eq_exp_minus_1 take_bit_eq_mod)
    have "rotate1 k ! (j mod 4) = k ! (Suc j mod 4)" using 2(3) nth_rotate1 [of "j mod 4" k] by (simp add: mod_Suc_eq)
    then show ?thesis using 2 Suc by (simp add: three)
  qed
qed simp

lemma unmask_mask_octets: "length k = 4 \<Longrightarrow> unmask True k (mask_octets k data) = data"
  by (rule nth_equalityI) (simp_all add: unmask_def nth_mask_octets xor.assoc)

lemma unmask_False [simp]: "unmask False k data = data"
  by (simp add: unmask_def map_nth)

lemma length_unmask [simp]: "length (unmask m k data) = length data"
  by (simp add: unmask_def)

lemma top_bit:
  fixes v :: u8
  assumes "unat v < 128"
  shows "(((if m then 0x80 else 0) OR v) AND 0x80 \<noteq> 0) = m" "((if m then 0x80 else 0) OR v) AND 0x7F = v"
proof -
  have "take_bit 7 v = v" using assms by (intro take_bit_unat_less) simp
  then have v7: "bit v n \<Longrightarrow> n < 7" for n using bit_take_bit_iff [of 7 v n] by simp
  have e: "(0x80 :: u8) = push_bit 7 1" "(0x7F :: u8) = mask 7" by (simp_all add: mask_eq_exp_minus_1)
  show "((if m then 0x80 else 0) OR v) AND 0x7F = v"
    unfolding e by (rule bit_word_eqI) (auto simp: bit_simps dest: v7 simp del: push_bit_of_1)
  have "bit (((if m then 0x80 else 0) OR v) AND 0x80) n \<longleftrightarrow> m \<and> n = 7" for n
    unfolding e by (auto simp: bit_simps dest: v7 simp del: push_bit_of_1)
  then show "(((if m then 0x80 else 0) OR v) AND 0x80 \<noteq> 0) = m"
    by (cases m) (auto intro!: bit_word_eqI)
qed

lemma low_nibble: "(opcode :: u8) < 16 \<Longrightarrow> ((if fin then 0x80 else 0) OR opcode) AND 0x0F = opcode"
proof -
  assume "opcode < 16"
  then have "take_bit 4 opcode = opcode" by (intro take_bit_unat_less) (simp add: word_less_nat_alt)
  then have o4: "bit opcode n \<Longrightarrow> n < 4" for n using bit_take_bit_iff [of 4 opcode n] by simp
  have e: "(0x80 :: u8) = push_bit 7 1" "(0x0F :: u8) = mask 4" by (simp_all add: mask_eq_exp_minus_1)
  show ?thesis unfolding e by (rule bit_word_eqI) (auto simp: bit_simps dest: o4 simp del: push_bit_of_1)
qed

text \<open>The length bytes are read back.\<close>

lemma frame_length_bytes:
  assumes "len < 2 ^ 64"
  shows "frame_length (b0 # len_bytes m len @ r) = Some (of_nat len, 1 + length (len_bytes m len)) \<and>
         ((len_bytes m len @ r) ! 0 AND 0x80 \<noteq> 0) = m \<and> len_bytes m len \<noteq> []"
proof -
  let ?m = "(if m then 0x80 else 0) :: u8" and ?w = "of_nat len :: u64"
  consider "len < 126" | "126 \<le> len" "len < 65536" | "65536 \<le> len" by linarith
  then show ?thesis
  proof cases
    case 1
    have u: "unat (of_nat len :: u8) = len" using 1 by (simp add: unat_of_nat)
    then have "ucast (of_nat len :: u8) = ?w" by (simp add: word_unat_eq_iff unat_of_nat unsigned_ucast_eq take_bit_nat_eq_self) 
    moreover have "?w \<noteq> 126" "?w \<noteq> 127" using 1 by (simp_all add: word_unat_eq_iff unat_of_nat)
    ultimately show ?thesis using 1 u top_bit [of "of_nat len" m] by (simp add: len_bytes_def frame_length_def Let_def)
  next
    case 2
    then have "take_bit 16 ?w = ?w" by (intro take_bit_unat_less) (simp add: unat_of_nat)
    then show ?thesis using 2 top_bit [of 126 m] be_value_two [of ?w] by (simp add: len_bytes_def frame_length_def Let_def)
  next
    case 3
    then show ?thesis using top_bit [of 127 m] be_value_bytes [of ?w] by (simp add: len_bytes_def frame_length_def Let_def)
  qed
qed

lemma parse_frame_bytes:
  assumes "encodes_frame f bs"
  shows "parse_frame (bs @ rest) = Consumed (length bs) f"
proof -
  have op: "frame_opcode f < 16" and len: "length (frame_payload f) \<le> 64 * 1024 * 1024" using assms by (auto simp: encodes_frame_def)
  let ?len = "length (frame_payload f)" and ?b0 = "(if frame_fin f then 0x80 else 0) OR frame_opcode f"
  have u: "unat (of_nat ?len :: u64) = ?len" "\<not> (of_nat ?len :: u64) > 64 * 1024 * 1024"
    using len by (simp_all add: unat_of_nat word_less_nat_alt)
  have lt: "?len < 2 ^ 64" "unat (frame_opcode f) < 128" using len op by (simp_all add: word_less_nat_alt)
  note hd = low_nibble [OF op, of "frame_fin f"] top_bit(1) [OF lt(2), of "frame_fin f"]
  obtain key where key: "bs = frame_bytes key f" "key = None \<or> (\<exists>k. key = Some k \<and> length k = 4)"
    using assms by (auto simp: encodes_frame_def)
  define body where "body = (case key of None \<Rightarrow> frame_payload f | Some k \<Rightarrow> k @ mask_octets k (frame_payload f))"
  note fl = frame_length_bytes [OF lt(1), of ?b0 "key \<noteq> None"]
  have bs: "bs @ rest = ?b0 # len_bytes (key \<noteq> None) ?len @ (body @ rest)"
    unfolding key(1) frame_bytes_def body_def by simp
  have l: "\<not> length (bs @ rest) < 2" using fl [of "body @ rest"] unfolding bs by (cases "len_bytes (key \<noteq> None) ?len") auto
  show ?thesis
  proof (cases key)
    case None
    then show ?thesis
      using l fl [of "body @ rest"] u hd unfolding parse_frame_def bs body_def
      by (simp add: key(1) frame_bytes_def Let_def)
  next
    case (Some k)
    then have k4: "length k = 4" using key(2) by auto
    have dr: "drop (5 + length lb) (b # lb @ k @ x) = x" for b :: u8 and lb x
    proof -
      have "5 + length lb = Suc (length lb + 4)" by simp
      then show ?thesis using k4 by (simp only: drop_Suc_Cons) simp
    qed
    show ?thesis
      using l fl [of "body @ rest"] u hd Some unmask_mask_octets k4 dr unfolding parse_frame_def bs body_def
      by (simp add: key(1) frame_bytes_def Let_def)
  qed
qed

lemma frame_length_mono:
  "frame_length b = Some (len, off) \<Longrightarrow> 2 \<le> length b \<Longrightarrow> frame_length (b @ c) = Some (len, off) \<and> 2 \<le> off \<and> off \<le> length b"
  by (auto simp: frame_length_def Let_def nth_append split: if_splits)

lemma parse_frame_mono:
  assumes "parse_frame b = Consumed n f"
  shows "0 < n \<and> n \<le> length b \<and> parse_frame (b @ c) = Consumed n f"
proof -
  have b: "2 \<le> length b" using assms by (auto simp: parse_frame_def split: if_splits)
  then obtain len off where l: "frame_length b = Some (len, off)"
    using assms by (auto simp: parse_frame_def Let_def split: option.splits)
  from frame_length_mono [OF l b, of c] show ?thesis
    using assms b unfolding parse_frame_def l by (auto simp: Let_def nth_append split: if_splits)
qed

lemma parse_frame_error: "parse_frame b = Protocol_error \<Longrightarrow> parse_frame (b @ c) = Protocol_error"
proof -
  assume e: "parse_frame b = Protocol_error"
  then have b: "2 \<le> length b" by (auto simp: parse_frame_def split: if_splits)
  then obtain len off where l: "frame_length b = Some (len, off)"
    using e by (auto simp: parse_frame_def Let_def split: option.splits)
  from frame_length_mono [OF l b, of c] show ?thesis
    using e b unfolding parse_frame_def l by (auto simp: Let_def split: if_splits)
qed

text \<open>The loop that takes the frames off a buffer.\<close>

function drain_frames :: "bytes \<Rightarrow> parsed_frame list \<times> bytes" where
  "drain_frames buf =
     (case parse_frame buf of
        Consumed n f \<Rightarrow> (let (fs, r) = drain_frames (drop n buf) in (f # fs, r))
      | _ \<Rightarrow> ([], buf))"
  by pat_completeness auto
termination
proof (relation "measure length")
  fix buf n f assume "parse_frame buf = Consumed n f"
  from parse_frame_mono [OF this, of "[]"] show "(drop n buf, buf) \<in> measure length" by auto
qed simp

declare drain_frames.simps [simp del]

interpretation ws: frame_stream encodes_frame parse_frame drain_frames
proof unfold_locales
  show "drain_frames b = (case parse_frame b of
      Consumed n f \<Rightarrow> (let (fs, r) = drain_frames (drop n b) in (f # fs, r)) | _ \<Rightarrow> ([], b))" for b
    by (rule drain_frames.simps)
qed (auto simp: parse_frame_bytes parse_frame_error dest: parse_frame_mono)

section \<open>Properties\<close>

text \<open>The SHA-1 of the handshake is the standard one: a message given in any number of updates of any lengths
  hashes to the digest of the padded message, with the padding that crosses a block boundary included.\<close>

theorem sha1_correct: "sha_finish (fold sha_update chunks sha1_init) = sha1_spec (concat chunks)"
proof -
  have "sha_absorbed s m \<Longrightarrow> sha_absorbed (fold sha_update chunks s) (m @ concat chunks)" for s m
  proof (induction chunks arbitrary: s m)
    case (Cons d chunks)
    then show ?case using Cons.IH [OF sha_absorbed_update [OF Cons.prems]] by simp
  qed simp
  from sha_finish_spec [OF this [OF sha_absorbed_init]] show ?thesis by simp
qed

text \<open>Base64 loses nothing: decoding the text of any byte string gives it back, and the text has four characters
  for every started group of three bytes.\<close>

theorem base64_roundtrip: "base64_decode (base64 data) = data \<and> length (base64 data) = 4 * ((length data + 2) div 3)"
proof -
  have "(5 + n) div 3 = Suc (Suc (Suc n) div 3)" for n :: nat using div_add_self2 [of 3 "n + 2"] by (simp add: add.commute)
  then have "length (base64 data) = 4 * ((length data + 2) div 3)" by (induction data rule: base64.induct) (simp_all add: Let_def)
  then show ?thesis by (simp add: base64_decode_base64)
qed

text \<open>C38. WebSocket frames are reassembled: however the bytes of a sequence of frames, masked by the client or not,
  are cut into reads, the receive loop delivers their final flags, opcodes and unmasked payloads in order and keeps
  the unfinished one, for payloads up to the limit of 64 MB.  The encoding is that of the RFC, with the octets of a masked payload
  combined in turn with those of the key.\<close>

theorem frame_stream_reassembled:
  assumes "list_all2 encodes_frame frames encodings" "encodes_frame last_frame last_encoding" "strict_prefix part last_encoding"
    "concat chunks = concat encodings @ part"
  shows "feed drain_frames chunks [] = (frames, part)"
  using assms by (rule ws.feed_frames)

theorem frame_stream_reassembled_witness:
  "feed drain_frames [[0x89], [0x81, 1, 2, 3, 4, 8], [0x82]] [] = ([\<lparr>frame_fin = True, frame_opcode = 9, frame_payload = [9]\<rparr>], [0x82])"
proof -
  let ?f = "\<lparr>frame_fin = True, frame_opcode = 9, frame_payload = [9]\<rparr>" and ?g = "\<lparr>frame_fin = True, frame_opcode = 2, frame_payload = []\<rparr>"
  have "frame_bytes (Some [1, 2, 3, 4]) ?f = [0x89, 0x81, 1, 2, 3, 4, 8]"
    by (simp add: frame_bytes_def len_bytes_def Let_def)
  then have f: "encodes_frame ?f [0x89, 0x81, 1, 2, 3, 4, 8]"
    unfolding encodes_frame_def by (auto intro!: exI [of _ "[1, 2, 3, 4]"])
  have g: "encodes_frame ?g [0x82, 0]" by (simp add: encodes_frame_def frame_bytes_def len_bytes_def Let_def)
  show ?thesis
    using frame_stream_reassembled [OF _ g, of "[?f]" "[[0x89, 0x81, 1, 2, 3, 4, 8]]" "[0x82]" "[[0x89], [0x81, 1, 2, 3, 4, 8], [0x82]]"] f
    by (simp add: strict_prefix_def)
qed

text \<open>What the server writes is read back: a frame of the server parses to the opcode (its low four bits) and the payload, and
  no other byte is consumed, exactly up to 64 MB; a longer payload is a protocol error for the same parser.\<close>

theorem parse_encode_frame:
  assumes "length payload < 2 ^ 64"
  shows "parse_frame (encode_frame opcode payload @ rest) =
    (if length payload \<le> 64 * 1024 * 1024
     then Consumed (length (encode_frame opcode payload)) \<lparr>frame_fin = True, frame_opcode = opcode AND 0x0F, frame_payload = payload\<rparr>
     else Protocol_error)"
proof (cases "length payload \<le> 64 * 1024 * 1024")
  case True
  have "take_bit 4 opcode = opcode AND 0x0F" by (simp add: take_bit_eq_mask mask_eq_exp_minus_1)
  then have "opcode AND 0x0F < 16" using unat_less_take_bit [of 4 "take_bit 4 opcode"] by (simp add: word_less_nat_alt)
  then have "encodes_frame \<lparr>frame_fin = True, frame_opcode = opcode AND 0x0F, frame_payload = payload\<rparr> (encode_frame opcode payload)"
    unfolding encodes_frame_def encode_frame_bytes using True by simp
  from parse_frame_bytes [OF this, of rest] show ?thesis using True by simp
next
  case False
  let ?lb = "len_bytes False (length payload)"
  have "unat (of_nat (length payload) :: u64) = length payload" using assms by (simp add: unat_of_nat)
  then have "(of_nat (length payload) :: u64) > 64 * 1024 * 1024" using False by (simp add: word_less_nat_alt)
  moreover have "encode_frame opcode payload @ rest = (0x80 OR (opcode AND 0x0F)) # ?lb @ payload @ rest"
    by (simp add: encode_frame_bytes frame_bytes_def)
  ultimately show ?thesis
    using False frame_length_bytes [OF assms, of "0x80 OR (opcode AND 0x0F)" False "payload @ rest"]
    by (cases ?lb) (simp_all add: parse_frame_def)
qed

end
