(* ===== verification/Pomelo_Bridge.thy ===== *)
theory Pomelo_Bridge
  imports Pomelo_Ws
begin

text \<open>
  The Pomelo endpoint, \<^verbatim>\<open>src/core/pomelo_bridge.cpp\<close>: a broker that accepts connections, finds out whether a client
  speaks plain TCP or WebSocket, takes packages off the stream, and turns requests and notifications into calls of cluster
  services through a route table.  The maps the handlers share are the fields of a record, a handler is a function
  from the record to the new record and the effects in order (bytes written, services resolved, services called).
  The receive loops hold a reference to the connection's buffer while the package handler may erase it: a loop that
  would read through the dangling reference ends in \<open>Dangling\<close>.  JSON parsing and the registry are not part of the sources: the
  parser is a parameter, the registry's answers are events.
\<close>

section \<open>State\<close>

type_synonym handle = nat
type_synonym actor = nat

datatype transport = Tcp | Ws

record bridge =
  rx :: "handle \<rightharpoonup> bytes"
  bad :: "handle set"
  ready :: "(handle \<times> bool) list"
  transport :: "handle \<rightharpoonup> transport"
  ws_hs_done :: "handle \<Rightarrow> bool"
  ws_frag :: "handle \<Rightarrow> bytes"
  ws_frag_op :: "handle \<rightharpoonup> u8"
  uid_map :: "bytes \<rightharpoonup> handle"

definition empty_bridge :: bridge where
  "empty_bridge = \<lparr>rx = Map.empty, bad = {}, ready = [], transport = Map.empty, ws_hs_done = (\<lambda>_. False),
                   ws_frag = (\<lambda>_. []), ws_frag_op = Map.empty, uid_map = Map.empty\<rparr>"

text \<open>What the endpoint is started with: the route table, and the parser's answer for \<open>user.uid\<close> of a handshake (empty when absent).\<close>

record bridge_env =
  routes :: "bytes \<rightharpoonup> bytes"
  json_user_uid :: "bytes \<Rightarrow> bytes"

text \<open>A call that waits for the registry, and the effects of a handler.\<close>

datatype pending =
    P_request handle u32 bytes bytes bytes
  | P_notify bytes bytes bytes

datatype effect =
    Write handle bytes
  | Resolve pending
  | Call_request actor handle u32 bytes bytes
  | Call_notify actor bytes bytes

section \<open>Frames and strings\<close>

definition k_handshake_body :: bytes where
  "k_handshake_body = ascii ''{\"code\":200,\"sys\":{\"heartbeat\":60}}''"

definition hs_frame_string :: bytes where
  "hs_frame_string =
     (let n = of_nat (length k_handshake_body) :: u64
      in [kPkgHandshake, ucast (drop_bit 16 n AND 0xFF), ucast (drop_bit 8 n AND 0xFF), ucast (n AND 0xFF)] @ k_handshake_body)"

definition response_frame :: "u32 \<Rightarrow> bytes \<Rightarrow> bytes" where
  "response_frame i body = encode_pkg kPkgData (encode_msg i kMsgResponse [] body)"

text \<open>\<open>std::string::find\<close>.\<close>

fun find_sub :: "bytes \<Rightarrow> bytes \<Rightarrow> nat option" where
  "find_sub pat [] = (if pat = [] then Some 0 else None)"
| "find_sub pat (c # s) = (if take (length pat) (c # s) = pat then Some 0 else map_option Suc (find_sub pat s))"

definition split_svc_function :: "bytes \<Rightarrow> (bytes \<times> bytes) option" where
  "split_svc_function target =
     (case find_sub (ascii '':'') target of
        None \<Rightarrow> None
      | Some pos \<Rightarrow> if pos = 0 \<or> pos + 1 \<ge> length target then None else Some (take pos target, drop (pos + 1) target))"

definition extract_ws_key :: "bytes \<Rightarrow> bytes" where
  "extract_ws_key head =
     (let marker = ascii ''Sec-WebSocket-Key:''
      in case find_sub marker head of
           None \<Rightarrow> []
         | Some pos \<Rightarrow>
             let s = dropWhile (\<lambda>c. c = 0x20 \<or> c = 0x09) (drop (pos + length marker) head)
             in take (case find_sub crlf s of None \<Rightarrow> length s | Some e \<Rightarrow> e) s)"

section \<open>Writing\<close>

definition write_raw :: "bridge \<Rightarrow> handle \<Rightarrow> bytes \<Rightarrow> effect list" where
  "write_raw st h bs = (if rx st h = None \<or> h \<in> bad st then [] else [Write h bs])"

definition write_frame :: "bridge \<Rightarrow> handle \<Rightarrow> bytes \<Rightarrow> effect list" where
  "write_frame st h frame =
     (if rx st h = None \<or> h \<in> bad st then []
      else if transport st h = Some Ws then write_raw st h (encode_frame kOpBinary frame)
      else write_raw st h frame)"

section \<open>Packages\<close>

definition mark_bad :: "handle \<Rightarrow> bridge \<Rightarrow> bridge" where
  "mark_bad h st = st\<lparr>bad := insert h (bad st), rx := (rx st)(h := None), ready := omap_erase h (ready st)\<rparr>"

definition handle_request :: "bridge_env \<Rightarrow> bridge \<Rightarrow> handle \<Rightarrow> parsed_msg \<Rightarrow> effect list" where
  "handle_request env st h msg =
     (case routes env (msg_route msg) of
        None \<Rightarrow> write_frame st h (response_frame (msg_id msg) (ascii ''unknown route: '' @ msg_route msg))
      | Some target \<Rightarrow>
          (case split_svc_function target of
             None \<Rightarrow> write_frame st h (response_frame (msg_id msg) (ascii ''bad route target: '' @ target))
           | Some (svc, function) \<Rightarrow> [Resolve (P_request h (msg_id msg) svc function (msg_body msg))]))"

definition handle_notify :: "bridge_env \<Rightarrow> parsed_msg \<Rightarrow> effect list" where
  "handle_notify env msg =
     (case routes env (msg_route msg) of
        None \<Rightarrow> []
      | Some target \<Rightarrow>
          (case split_svc_function target of
             None \<Rightarrow> []
           | Some (svc, function) \<Rightarrow> [Resolve (P_notify svc function (msg_body msg))]))"

definition handle_package :: "bridge_env \<Rightarrow> handle \<Rightarrow> parsed_pkg \<Rightarrow> bridge \<Rightarrow> bridge \<times> effect list" where
  "handle_package env h pkg st =
     (if pkg_type pkg = kPkgHandshake
      then let uid = json_user_uid env (pkg_body pkg);
               st = (if uid \<noteq> [] then st\<lparr>uid_map := (uid_map st)(uid \<mapsto> h)\<rparr> else st)
           in (st, write_frame st h hs_frame_string)
      else if pkg_type pkg = kPkgHandshakeAck then (st\<lparr>ready := omap_set h True (ready st)\<rparr>, [])
      else if pkg_type pkg = kPkgHeartbeat then (st, write_frame st h (encode_pkg kPkgHeartbeat []))
      else if pkg_type pkg \<noteq> kPkgData then (st, [])
      else case parse_msg (pkg_body pkg) of
             None \<Rightarrow> (mark_bad h st, [])
           | Some msg \<Rightarrow>
               (st, if msg_type msg = kMsgRequest then handle_request env st h msg
                    else if msg_type msg = kMsgNotify then handle_notify env msg else []))"

section \<open>The receive loops\<close>

text \<open>
  The end of a handler: it returned, or it went on through the reference to an erased buffer; the effects up to there.
\<close>

datatype outcome = Done bridge "effect list" | Dangling bridge "effect list"

fun after_effects :: "effect list \<Rightarrow> outcome \<Rightarrow> outcome" where
  "after_effects es (Done st es') = Done st (es @ es')"
| "after_effects es (Dangling st es') = Dangling st (es @ es')"

definition set_rx :: "handle \<Rightarrow> bytes \<Rightarrow> bridge \<Rightarrow> bridge" where
  "set_rx h buf st = st\<lparr>rx := (rx st)(h \<mapsto> buf)\<rparr>"

definition buffer_size :: "handle \<Rightarrow> bridge \<Rightarrow> nat" where
  "buffer_size h st = (case rx st h of None \<Rightarrow> 0 | Some buf \<Rightarrow> Suc (length buf))"

lemma handle_package_rx:
  "handle_package env h pkg st = (st', es) \<Longrightarrow> rx st' = rx st \<or> rx st' = (rx st)(h := None)"
  by (auto simp: handle_package_def mark_bad_def Let_def split: if_splits option.splits)

lemma handle_package_size:
  assumes "rx st h = Some buf" "n > 0" "n \<le> length buf" "handle_package env h pkg (set_rx h (drop n buf) st) = (st', es)"
  shows "buffer_size h st' < buffer_size h st"
  using handle_package_rx [OF assms(4)] assms(1-3) by (auto simp: buffer_size_def set_rx_def)

function tcp_loop :: "bridge_env \<Rightarrow> handle \<Rightarrow> bridge \<Rightarrow> outcome" where
  "tcp_loop env h st =
     (case rx st h of
        None \<Rightarrow> Dangling st []
      | Some buf \<Rightarrow>
          (case parse_pkg buf of
             Need_more \<Rightarrow> Done st []
           | Protocol_error \<Rightarrow> Done (mark_bad h st) []
           | Consumed n pkg \<Rightarrow>
               (case handle_package env h pkg (set_rx h (drop n buf) st) of
                  (st', es) \<Rightarrow> after_effects es (tcp_loop env h st'))))"
  by pat_completeness auto
termination
proof (relation "measure (\<lambda>(env, h, st). buffer_size h st)")
  fix env h st buf n pkg st' and es :: "effect list"
  assume "rx st h = Some buf" "parse_pkg buf = Consumed n pkg"
    and "(st', es) = handle_package env h pkg (set_rx h (drop n buf) st)"
  then show "((env, h, st'), (env, h, st)) \<in> measure (\<lambda>(env, h, st). buffer_size h st)"
    using parse_pkg_mono [of buf n pkg "[]"] handle_package_size [of st h buf n env pkg st' es] by simp
qed simp

declare tcp_loop.simps [simp del]

text \<open>The packages in the payload of a WebSocket message, handled one after the other.\<close>

fun handle_packages :: "bridge_env \<Rightarrow> handle \<Rightarrow> parsed_pkg list \<Rightarrow> bridge \<Rightarrow> bridge \<times> effect list" where
  "handle_packages env h [] st = (st, [])"
| "handle_packages env h (pkg # pkgs) st =
     (let (st, es) = handle_package env h pkg st; (st, es') = handle_packages env h pkgs st in (st, es @ es'))"

definition handle_payload :: "bridge_env \<Rightarrow> handle \<Rightarrow> bytes \<Rightarrow> bridge \<Rightarrow> bridge \<times> effect list" where
  "handle_payload env h payload st = handle_packages env h (fst (drain_pkgs payload)) st"

definition set_frag :: "handle \<Rightarrow> bytes \<Rightarrow> bridge \<Rightarrow> bridge" where
  "set_frag h frag st = st\<lparr>ws_frag := (ws_frag st)(h := frag)\<rparr>"

text \<open>One frame; the flag says whether the loop ends (a close frame).\<close>

definition handle_frame :: "bridge_env \<Rightarrow> handle \<Rightarrow> parsed_frame \<Rightarrow> bridge \<Rightarrow> bridge \<times> effect list \<times> bool" where
  "handle_frame env h frame st =
     (let opcode = frame_opcode frame; payload = frame_payload frame
      in if opcode = kOpPing then (st, write_raw st h (encode_frame kOpPong payload), False)
         else if opcode = kOpPong then (st, [], False)
         else if opcode = kOpClose then (mark_bad h st, write_raw st h (encode_frame kOpClose []), True)
         else if opcode = kOpBinary \<or> opcode = kOpText
         then if \<not> frame_fin frame
              then ((set_frag h payload st)\<lparr>ws_frag_op := (ws_frag_op st)(h \<mapsto> opcode)\<rparr>, [], False)
              else let (st', es) = handle_payload env h (ws_frag st h @ payload) (set_frag h [] st) in (st', es, False)
         else if opcode = kOpContinuation
         then if ws_frag st h \<noteq> []
              then let frag = ws_frag st h @ payload
                   in if frame_fin frame
                      then let (st', es) = handle_payload env h frag (set_frag h [] st) in (st', es, False)
                      else (set_frag h frag st, [], False)
              else (st, [], False)
         else (st, [], False))"

lemma handle_packages_Cons:
  "handle_packages env h (pkg # pkgs) st = (st', es) \<longleftrightarrow>
     (\<exists>st1 es1 es2. handle_package env h pkg st = (st1, es1) \<and> handle_packages env h pkgs st1 = (st', es2) \<and> es = es1 @ es2)"
  by (auto simp: Let_def split: prod.splits)

lemma handle_packages_rx:
  "handle_packages env h pkgs st = (st', es) \<Longrightarrow> rx st' = rx st \<or> rx st' = (rx st)(h := None)"
proof (induction pkgs arbitrary: st es)
  case (Cons pkg pkgs)
  then show ?case unfolding handle_packages_Cons using handle_package_rx by (fastforce simp del: handle_packages.simps)
qed simp

lemma handle_payload_rx:
  "handle_payload env h payload st = (st', es) \<Longrightarrow> rx st' = rx st \<or> rx st' = (rx st)(h := None)"
  unfolding handle_payload_def by (rule handle_packages_rx)

lemma handle_frame_rx:
  "handle_frame env h frame st = (st', es, stop) \<Longrightarrow> rx st' = rx st \<or> rx st' = (rx st)(h := None)"
  unfolding handle_frame_def
  by (auto simp: Let_def mark_bad_def set_frag_def dest!: handle_payload_rx split: if_splits prod.splits)

function ws_loop :: "bridge_env \<Rightarrow> handle \<Rightarrow> bridge \<Rightarrow> outcome" where
  "ws_loop env h st =
     (case rx st h of
        None \<Rightarrow> Dangling st []
      | Some buf \<Rightarrow>
          (case parse_frame buf of
             Need_more \<Rightarrow> Done st []
           | Protocol_error \<Rightarrow> Done (mark_bad h st) []
           | Consumed n frame \<Rightarrow>
               (case handle_frame env h frame (set_rx h (drop n buf) st) of
                  (st', es, stop) \<Rightarrow> if stop then Done st' es else after_effects es (ws_loop env h st'))))"
  by pat_completeness auto
termination
proof (relation "measure (\<lambda>(env, h, st). buffer_size h st)")
  fix env h st buf n frame st' stop x and es :: "effect list"
  assume "rx st h = Some buf" "parse_frame buf = Consumed n frame"
    and "(st', x) = handle_frame env h frame (set_rx h (drop n buf) st)" "(es, stop) = x"
  then have "rx st' \<in> {(rx st)(h \<mapsto> drop n buf), (rx st)(h := None)}" "0 < n" "n \<le> length buf"
    using parse_frame_mono [of buf n frame "[]"] handle_frame_rx [of env h frame "set_rx h (drop n buf) st" st' es stop]
    by (auto simp: set_rx_def)
  then show "((env, h, st'), (env, h, st)) \<in> measure (\<lambda>(env, h, st). buffer_size h st)"
    using \<open>rx st h = Some buf\<close> by (auto simp: buffer_size_def)
qed simp

declare ws_loop.simps [simp del]

section \<open>The handlers of the broker\<close>

definition new_connection :: "handle \<Rightarrow> bridge \<Rightarrow> bridge" where
  "new_connection h st =
     st\<lparr>rx := (rx st)(h \<mapsto> []), bad := bad st - {h}, ready := omap_set h False (ready st),
        transport := (transport st)(h := None), ws_hs_done := (ws_hs_done st)(h := False)\<rparr>"

text \<open>The probe of the first bytes.\<close>

definition detect_transport :: "handle \<Rightarrow> bytes \<Rightarrow> bridge \<Rightarrow> bridge" where
  "detect_transport h buf st =
     (if transport st h \<noteq> None then st
      else if looks_like_http_upgrade buf
      then st\<lparr>transport := (transport st)(h \<mapsto> Ws), ws_hs_done := (ws_hs_done st)(h := False), ws_frag := (ws_frag st)(h := [])\<rparr>
      else st\<lparr>transport := (transport st)(h \<mapsto> Tcp)\<rparr>)"

definition ws_data :: "bridge_env \<Rightarrow> handle \<Rightarrow> bytes \<Rightarrow> bridge \<Rightarrow> outcome" where
  "ws_data env h buf st =
     (if ws_hs_done st h then ws_loop env h st
      else case find_sub (crlf @ crlf) buf of
             None \<Rightarrow> Done st []
           | Some hs_end \<Rightarrow>
               let key = extract_ws_key (take (hs_end + 4) buf)
               in if key = [] then Done (st\<lparr>bad := insert h (bad st), rx := (rx st)(h := None)\<rparr>) []
                  else after_effects (write_raw st h (handshake_response key))
                         (ws_loop env h (set_rx h (drop (hs_end + 4) buf) (st\<lparr>ws_hs_done := (ws_hs_done st)(h := True)\<rparr>))))"

definition new_data :: "bridge_env \<Rightarrow> handle \<Rightarrow> bytes \<Rightarrow> bridge \<Rightarrow> outcome" where
  "new_data env h data st =
     (if h \<in> bad st then Done st []
      else let buf = (case rx st h of None \<Rightarrow> [] | Some buf \<Rightarrow> buf) @ data;
               st = detect_transport h buf (set_rx h buf st)
           in if transport st h \<noteq> Some Ws then tcp_loop env h st else ws_data env h buf st)"

definition connection_closed :: "handle \<Rightarrow> bridge \<Rightarrow> bridge" where
  "connection_closed h st =
     st\<lparr>rx := (rx st)(h := None), bad := bad st - {h}, ready := omap_erase h (ready st), transport := (transport st)(h := None),
        ws_hs_done := (ws_hs_done st)(h := False), ws_frag := (ws_frag st)(h := []), ws_frag_op := (ws_frag_op st)(h := None),
        uid_map := (\<lambda>uid. if uid_map st uid = Some h then None else uid_map st uid)\<rparr>"

definition write_uid :: "bytes \<Rightarrow> bytes \<Rightarrow> bridge \<Rightarrow> effect list" where
  "write_uid uid data st = (case uid_map st uid of None \<Rightarrow> [] | Some h \<Rightarrow> write_frame st h data)"

definition write_all :: "bytes \<Rightarrow> bridge \<Rightarrow> effect list" where
  "write_all data st = concat (map (\<lambda>(h, r). if r then write_frame st h data else []) (ready st))"

text \<open>The continuations: the registry answers, the service answers.  An error arrives as its text.\<close>

fun on_resolved :: "bridge \<Rightarrow> pending \<Rightarrow> bytes + actor option \<Rightarrow> effect list" where
  "on_resolved st (P_request src i svc f body) (Inl err) = write_frame st src (response_frame i err)"
| "on_resolved st (P_request src i svc f body) (Inr None) = write_frame st src (response_frame i (ascii ''service not found: '' @ svc))"
| "on_resolved st (P_request src i svc f body) (Inr (Some proxy)) = [Call_request proxy src i f body]"
| "on_resolved st (P_notify svc f body) (Inr (Some proxy)) = [Call_notify proxy f body]"
| "on_resolved st (P_notify svc f body) _ = []"

definition on_reply :: "bridge \<Rightarrow> handle \<Rightarrow> u32 \<Rightarrow> bytes + bytes \<Rightarrow> effect list" where
  "on_reply st src i r = write_frame st src (response_frame i (case r of Inl err \<Rightarrow> err | Inr body \<Rightarrow> body))"

text \<open>
  The push service: \<open>json\<close> gives the fields \<open>uid\<close> and \<open>body\<close> of an object payload (empty when absent).  The result is the
  message it sends to the broker: a frame for one uid, or for all.
\<close>

definition push :: "(bytes \<Rightarrow> bytes \<times> bytes) \<Rightarrow> bytes \<Rightarrow> bytes \<Rightarrow> (bytes option \<times> bytes) option" where
  "push json function payload =
     (if function = [] then None
      else let (uid, body) = json payload;
               body = (if body = [] then payload else body);
               frame = encode_pkg kPkgData (encode_msg 0 kMsgPush function body)
           in Some (if uid \<noteq> [] then Some uid else None, frame))"

section \<open>The broker as a state machine\<close>

datatype event =
    New_connection handle
  | New_data handle bytes
  | Connection_closed handle
  | Write_uid bytes bytes
  | Write_all bytes
  | Resolved pending "bytes + actor option"
  | Replied handle u32 "bytes + bytes"

fun bridge_step :: "bridge_env \<Rightarrow> event \<Rightarrow> bridge \<Rightarrow> outcome" where
  "bridge_step env (New_connection h) st = Done (new_connection h st) []"
| "bridge_step env (New_data h data) st = new_data env h data st"
| "bridge_step env (Connection_closed h) st = Done (connection_closed h st) []"
| "bridge_step env (Write_uid uid data) st = Done st (write_uid uid data st)"
| "bridge_step env (Write_all data) st = Done st (write_all data st)"
| "bridge_step env (Resolved p r) st = Done st (on_resolved st p r)"
| "bridge_step env (Replied src i r) st = Done st (on_reply st src i r)"

text \<open>
  What the middleman guarantees: data and the closing of a connection arrive only while it is open.
  \<open>live\<close> is the set of open connections.
\<close>

inductive reach :: "bridge_env \<Rightarrow> handle set \<Rightarrow> bridge \<Rightarrow> bool" for env where
  reach_init: "reach env {} empty_bridge"
| reach_open: "reach env live st \<Longrightarrow> h \<notin> live \<Longrightarrow> reach env (insert h live) (new_connection h st)"
| reach_data: "reach env live st \<Longrightarrow> h \<in> live \<Longrightarrow> new_data env h data st = Done st' (es :: effect list) \<Longrightarrow> reach env live st'"
| reach_close: "reach env live st \<Longrightarrow> h \<in> live \<Longrightarrow> reach env (live - {h}) (connection_closed h st)"

section \<open>What a handler may touch\<close>

definition traceless :: "handle \<Rightarrow> bridge \<Rightarrow> bool" where
  "traceless h st \<longleftrightarrow> rx st h = None \<and> h \<notin> bad st \<and> h \<notin> fst ` set (ready st) \<and> transport st h = None \<and> \<not> ws_hs_done st h \<and>
     ws_frag st h = [] \<and> ws_frag_op st h = None \<and> h \<notin> ran (uid_map st)"

definition buffered :: "handle \<Rightarrow> bridge \<Rightarrow> bool" where
  "buffered h st \<longleftrightarrow> (rx st h \<noteq> None) = (h \<notin> bad st)"

text \<open>A step on behalf of the connection \<open>h\<close>: other connections keep their state, and a connection has a buffer unless it is bad.\<close>

definition conn_step :: "handle \<Rightarrow> bridge \<Rightarrow> bridge \<Rightarrow> bool" where
  "conn_step h st st' \<longleftrightarrow>
     (\<forall>h'. h' \<noteq> h \<longrightarrow> (traceless h' st \<longrightarrow> traceless h' st') \<and> rx st' h' = rx st h' \<and> (h' \<in> bad st' \<longleftrightarrow> h' \<in> bad st)) \<and>
     (omap_ok (ready st) \<longrightarrow> omap_ok (ready st')) \<and> (buffered h st \<longrightarrow> buffered h st')"

lemma conn_step_refl [simp]: "conn_step h st st"
  by (simp add: conn_step_def)

lemma conn_step_trans: "conn_step h st st1 \<Longrightarrow> conn_step h st1 st2 \<Longrightarrow> conn_step h st st2"
  by (auto simp: conn_step_def)

lemma conn_step_set_rx: "h \<notin> bad st \<Longrightarrow> conn_step h st (set_rx h buf st)"
  by (auto simp: conn_step_def traceless_def buffered_def set_rx_def)

lemma conn_step_mark_bad: "conn_step h st (mark_bad h st)"
  by (auto simp: conn_step_def traceless_def buffered_def mark_bad_def)

lemma ran_upd: "h' \<notin> ran m \<Longrightarrow> h \<noteq> h' \<Longrightarrow> h' \<notin> ran (m(k \<mapsto> h))"
  by (auto simp: ran_def split: if_splits)

lemma handle_package_conn_step: "handle_package env h pkg st = (st', es) \<Longrightarrow> conn_step h st st'"
proof -
  have "conn_step h st (st\<lparr>uid_map := (uid_map st)(uid \<mapsto> h)\<rparr>)" for uid
    by (auto simp: conn_step_def traceless_def buffered_def ran_upd)
  moreover have "conn_step h st (st\<lparr>ready := omap_set h True (ready st)\<rparr>)"
    by (auto simp: conn_step_def traceless_def buffered_def)
  ultimately show "handle_package env h pkg st = (st', es) \<Longrightarrow> conn_step h st st'"
    using conn_step_mark_bad [of h st] by (auto simp: handle_package_def Let_def split: if_splits option.splits)
qed

lemma handle_packages_conn_step: "handle_packages env h pkgs st = (st', es) \<Longrightarrow> conn_step h st st'"
proof (induction pkgs arbitrary: st es)
  case (Cons pkg pkgs)
  then show ?case unfolding handle_packages_Cons using handle_package_conn_step conn_step_trans by blast
qed simp

lemma conn_step_frag: "conn_step h st (set_frag h frag st)" "conn_step h st ((set_frag h frag st)\<lparr>ws_frag_op := (ws_frag_op st)(h \<mapsto> op)\<rparr>)"
  by (auto simp: conn_step_def traceless_def buffered_def set_frag_def)

lemma handle_payload_conn_step: "handle_payload env h payload (set_frag h [] st) = (st', es) \<Longrightarrow> conn_step h st st'"
  unfolding handle_payload_def using handle_packages_conn_step conn_step_frag(1) conn_step_trans by blast

lemma handle_frame_conn_step: "handle_frame env h frame st = (st', es, stop) \<Longrightarrow> conn_step h st st'"
  unfolding handle_frame_def
  by (auto simp: Let_def conn_step_mark_bad conn_step_frag dest: handle_payload_conn_step split: if_splits prod.splits)

lemma after_effects_Done: "after_effects es out = Done st es' \<longleftrightarrow> (\<exists>es''. out = Done st es'' \<and> es' = es @ es'')"
  by (cases out) auto

lemma tcp_loop_step:
  "rx st h = Some buf \<Longrightarrow> parse_pkg buf = Consumed n pkg \<Longrightarrow> handle_package env h pkg (set_rx h (drop n buf) st) = (st1, es) \<Longrightarrow>
   tcp_loop env h st = after_effects es (tcp_loop env h st1)"
  by (subst tcp_loop.simps) simp

lemma ws_loop_step:
  "rx st h = Some buf \<Longrightarrow> parse_frame buf = Consumed n frame \<Longrightarrow>
   handle_frame env h frame (set_rx h (drop n buf) st) = (st1, es, stop) \<Longrightarrow>
   ws_loop env h st = (if stop then Done st1 es else after_effects es (ws_loop env h st1))"
  by (subst ws_loop.simps) simp

lemma tcp_loop_conn_step:
  fixes es :: "effect list"
  shows "tcp_loop env h st = Done st' es \<Longrightarrow> buffered h st \<Longrightarrow> conn_step h st st'"
proof (induction env h st arbitrary: es rule: tcp_loop.induct)
  case (1 env h st)
  then obtain buf where buf: "rx st h = Some buf" by (subst (asm) tcp_loop.simps) (auto split: option.splits)
  then have nb: "h \<notin> bad st" using 1(3) by (simp add: buffered_def)
  show ?case
  proof (cases "parse_pkg buf")
    case (Consumed n pkg)
    obtain st1 and es1 :: "effect list" where h: "handle_package env h pkg (set_rx h (drop n buf) st) = (st1, es1)" by fastforce
    then have s1: "conn_step h st st1" using handle_package_conn_step conn_step_set_rx [OF nb] conn_step_trans by blast
    then have "buffered h st1" using 1(3) by (simp add: conn_step_def)
    moreover obtain es2 where "tcp_loop env h st1 = Done st' es2"
      using 1(2) unfolding tcp_loop_step [OF buf Consumed h] after_effects_Done by blast
    ultimately show ?thesis using 1(1) [OF buf Consumed h [symmetric]] s1 conn_step_trans by blast
  qed (use 1(2) buf conn_step_mark_bad in \<open>auto simp: tcp_loop.simps [of env h st]\<close>)
qed

lemma ws_loop_conn_step:
  fixes es :: "effect list"
  shows "ws_loop env h st = Done st' es \<Longrightarrow> buffered h st \<Longrightarrow> conn_step h st st'"
proof (induction env h st arbitrary: es rule: ws_loop.induct)
  case (1 env h st)
  then obtain buf where buf: "rx st h = Some buf" by (subst (asm) ws_loop.simps) (auto split: option.splits)
  then have nb: "h \<notin> bad st" using 1(3) by (simp add: buffered_def)
  show ?case
  proof (cases "parse_frame buf")
    case (Consumed n frame)
    obtain st1 and es1 :: "effect list" and stop where h: "handle_frame env h frame (set_rx h (drop n buf) st) = (st1, es1, stop)"
      using prod_cases3 by blast
    then have s1: "conn_step h st st1" using handle_frame_conn_step conn_step_set_rx [OF nb] conn_step_trans by blast
    then have b: "buffered h st1" using 1(3) by (simp add: conn_step_def)
    show ?thesis
    proof (cases stop)
      case True
      then show ?thesis using s1 1(2) unfolding ws_loop_step [OF buf Consumed h] by simp
    next
      case False
      then obtain es2 where "ws_loop env h st1 = Done st' es2"
        using 1(2) unfolding ws_loop_step [OF buf Consumed h] by (auto simp: after_effects_Done)
      then show ?thesis using 1(1) [OF buf Consumed h [symmetric] refl False] b s1 conn_step_trans by blast
    qed
  qed (use 1(2) buf conn_step_mark_bad in \<open>auto simp: ws_loop.simps [of env h st]\<close>)
qed

section \<open>The invariant of the broker\<close>

definition bridge_inv :: "handle set \<Rightarrow> bridge \<Rightarrow> bool" where
  "bridge_inv live st \<longleftrightarrow>
     (\<forall>h. h \<notin> live \<longrightarrow> traceless h st) \<and> (\<forall>h \<in> live. buffered h st) \<and> omap_ok (ready st)"

lemma bridge_inv_conn_step:
  assumes "bridge_inv live st" "h \<in> live" "conn_step h st st'"
  shows "bridge_inv live st'"
  unfolding bridge_inv_def
proof (intro conjI allI impI ballI)
  fix h' assume "h' \<notin> live"
  then show "traceless h' st'" using assms unfolding bridge_inv_def conn_step_def by metis
next
  fix h' assume "h' \<in> live"
  then show "buffered h' st'" using assms unfolding bridge_inv_def conn_step_def buffered_def by (cases "h' = h") auto
next
  show "omap_ok (ready st')" using assms unfolding bridge_inv_def conn_step_def by blast
qed

lemma conn_step_detect: "h \<notin> bad st \<Longrightarrow> conn_step h st (detect_transport h buf (set_rx h buf st))"
  by (auto simp: conn_step_def traceless_def buffered_def detect_transport_def set_rx_def)

lemma ws_data_conn_step:
  assumes "ws_data env h buf st = Done st' es" "rx st h = Some buf" "h \<notin> bad st"
  shows "conn_step h st st'"
proof -
  have b: "buffered h st" using assms(2,3) by (simp add: buffered_def)
  have hs: "conn_step h st (set_rx h r (st\<lparr>ws_hs_done := (ws_hs_done st)(h := True)\<rparr>))" for r
    using assms(3) by (auto simp: conn_step_def traceless_def buffered_def set_rx_def)
  then have "buffered h (set_rx h r (st\<lparr>ws_hs_done := (ws_hs_done st)(h := True)\<rparr>))" for r
    using b unfolding conn_step_def by blast
  note loop = ws_loop_conn_step [OF _ this]
  have "conn_step h st (st\<lparr>bad := insert h (bad st), rx := (rx st)(h := None)\<rparr>)"
    by (auto simp: conn_step_def traceless_def buffered_def)
  note bad = this
  show ?thesis
  proof (cases "ws_hs_done st h")
    case True
    then show ?thesis using assms(1) b by (simp add: ws_data_def ws_loop_conn_step)
  next
    case False
    show ?thesis
    proof (cases "find_sub (crlf @ crlf) buf")
      case None
      then show ?thesis using False assms(1) by (simp add: ws_data_def)
    next
      case (Some e)
      let ?st = "set_rx h (drop (e + 4) buf) (st\<lparr>ws_hs_done := (ws_hs_done st)(h := True)\<rparr>)"
      consider "st' = st\<lparr>bad := insert h (bad st), rx := (rx st)(h := None)\<rparr>" | es' where "ws_loop env h ?st = Done st' es'"
        using False Some assms(1) by (auto simp: ws_data_def Let_def after_effects_Done split: if_splits)
      then show ?thesis using bad loop conn_step_trans [OF hs] by cases blast+
    qed
  qed
qed

lemma new_data_conn_step:
  assumes "new_data env h data st = Done st' es" "buffered h st"
  shows "conn_step h st st'"
proof (cases "h \<in> bad st")
  case True
  then show ?thesis using assms(1) by (simp add: new_data_def)
next
  case False
  obtain b0 where b0: "rx st h = Some b0" using False assms(2) by (auto simp: buffered_def)
  let ?buf = "b0 @ data"
  let ?st = "detect_transport h ?buf (set_rx h ?buf st)"
  have d: "conn_step h st ?st" using False by (rule conn_step_detect)
  have st: "rx ?st h = Some ?buf" "h \<notin> bad ?st" using False by (auto simp: detect_transport_def set_rx_def)
  have "new_data env h data st = (if transport ?st h \<noteq> Some Ws then tcp_loop env h ?st else ws_data env h ?buf ?st)"
    using False b0 by (simp add: new_data_def Let_def)
  with assms(1) consider "tcp_loop env h ?st = Done st' es" | "ws_data env h ?buf ?st = Done st' es"
    by (cases "transport ?st h = Some Ws") auto
  then have "conn_step h ?st st'"
  proof cases
    case 1
    then show ?thesis using st by (intro tcp_loop_conn_step) (auto simp: buffered_def)
  next
    case 2
    then show ?thesis using st by (rule ws_data_conn_step)
  qed
  then show ?thesis using d conn_step_trans by blast
qed

lemma traceless_open: "traceless h' st \<Longrightarrow> h' \<noteq> h \<Longrightarrow> traceless h' (new_connection h st)"
  and traceless_close: "traceless h' st \<or> h' = h \<Longrightarrow> traceless h' (connection_closed h st)"
  by (auto simp: traceless_def new_connection_def connection_closed_def ran_def)

lemma reach_inv: "reach env live st \<Longrightarrow> bridge_inv live st"
proof (induction rule: reach.induct)
  case reach_init
  then show ?case by (simp add: bridge_inv_def traceless_def empty_bridge_def)
next
  case (reach_open live st h)
  then show ?case
    using traceless_open [of _ st h] unfolding bridge_inv_def
    by (auto simp: buffered_def new_connection_def)
next
  case (reach_data live st h data st' es)
  then have "conn_step h st st'" by (intro new_data_conn_step) (auto simp: bridge_inv_def)
  then show ?case using reach_data by (blast intro: bridge_inv_conn_step)
next
  case (reach_close live st h)
  then show ?case
    using traceless_close [of _ st h] unfolding bridge_inv_def
    by (auto simp: buffered_def connection_closed_def)
qed

section \<open>The effects of a handler\<close>

text \<open>Bytes go to the connection the data came from, and a service is looked up only for a route of the table.\<close>

fun effect_ok :: "bridge_env \<Rightarrow> handle \<Rightarrow> effect \<Rightarrow> bool" where
  "effect_ok env h (Write h' bs) = (h' = h)"
| "effect_ok env h (Resolve (P_request h' i svc f body)) = (h' = h \<and> (\<exists>route. routes env route = Some (svc @ ascii '':'' @ f)))"
| "effect_ok env h (Resolve (P_notify svc f body)) = (\<exists>route. routes env route = Some (svc @ ascii '':'' @ f))"
| "effect_ok env h _ = False"

abbreviation effects_ok :: "bridge_env \<Rightarrow> handle \<Rightarrow> effect list \<Rightarrow> bool" where
  "effects_ok env h es \<equiv> list_all (effect_ok env h) es"

fun effects_of :: "outcome \<Rightarrow> effect list" where
  "effects_of (Done st es) = es"
| "effects_of (Dangling st es) = es"

lemma effects_of_after [simp]: "effects_of (after_effects es out) = es @ effects_of out"
  by (cases out) auto

lemma find_sub_Some: "find_sub pat s = Some pos \<Longrightarrow> pos + length pat \<le> length s \<and> take (length pat) (drop pos s) = pat"
proof (induction s arbitrary: pos)
  case (Cons c s)
  show ?case
  proof (cases "take (length pat) (c # s) = pat")
    case True
    then have "length pat \<le> length (c # s)" by (metis length_take min.cobounded1)
    then show ?thesis using True Cons.prems by simp
  next
    case False
    then show ?thesis using Cons by auto
  qed
qed (auto split: if_splits)

lemma split_svc_function_Some:
  assumes "split_svc_function target = Some (svc, f)"
  shows "target = svc @ ascii '':'' @ f"
proof -
  obtain pos where pos: "find_sub (ascii '':'') target = Some pos" "svc = take pos target" "f = drop (pos + 1) target"
    using assms by (auto simp: split_svc_function_def split: option.splits if_splits)
  have "take 1 (drop pos target) = ascii '':''" "pos + 1 \<le> length target" using find_sub_Some [OF pos(1)] by auto
  then have "drop pos target = ascii '':'' @ drop (pos + 1) target"
    by (metis append_take_drop_id drop_drop add.commute)
  then show ?thesis using append_take_drop_id [of pos target] pos(2,3) by metis
qed

lemma write_effects_ok [simp]: "effects_ok env h (write_raw st h bs)" "effects_ok env h (write_frame st h bs)"
  by (simp_all add: write_raw_def write_frame_def)

lemma handle_package_effects: "effects_ok env h (snd (handle_package env h pkg st))"
  by (auto simp: handle_package_def handle_request_def handle_notify_def Let_def split: option.splits dest!: split_svc_function_Some [simplified])

lemma handle_packages_effects: "effects_ok env h (snd (handle_packages env h pkgs st))"
proof (induction pkgs arbitrary: st)
  case (Cons pkg pkgs)
  then show ?case using handle_package_effects [of env h pkg st] by (simp add: Let_def case_prod_unfold)
qed simp

lemma handle_frame_effects: "effects_ok env h (fst (snd (handle_frame env h frame st)))"
  using handle_packages_effects [of env h] by (simp add: handle_frame_def handle_payload_def Let_def case_prod_unfold)

lemma tcp_loop_effects: "effects_ok env h (effects_of (tcp_loop env h st))"
proof (induction env h st rule: tcp_loop.induct)
  case (1 env h st)
  show ?case
  proof (cases "rx st h")
    case (Some buf)
    show ?thesis
    proof (cases "parse_pkg buf")
      case (Consumed n pkg)
      obtain st1 es1 where h: "handle_package env h pkg (set_rx h (drop n buf) st) = (st1, es1)" by fastforce
      then show ?thesis
        using 1 [OF Some Consumed h [symmetric]] handle_package_effects [of env h pkg "set_rx h (drop n buf) st"]
        by (simp add: tcp_loop_step [OF Some Consumed h])
    qed (simp_all add: tcp_loop.simps [of env h st] Some)
  qed (simp add: tcp_loop.simps)
qed

lemma ws_loop_effects: "effects_ok env h (effects_of (ws_loop env h st))"
proof (induction env h st rule: ws_loop.induct)
  case (1 env h st)
  show ?case
  proof (cases "rx st h")
    case (Some buf)
    show ?thesis
    proof (cases "parse_frame buf")
      case (Consumed n frame)
      obtain st1 es1 stop where h: "handle_frame env h frame (set_rx h (drop n buf) st) = (st1, es1, stop)"
        using prod_cases3 by blast
      then show ?thesis
        using 1 [OF Some Consumed h [symmetric] refl] handle_frame_effects [of env h frame "set_rx h (drop n buf) st"]
        by (simp add: ws_loop_step [OF Some Consumed h])
    qed (simp_all add: ws_loop.simps [of env h st] Some)
  qed (simp add: ws_loop.simps)
qed

lemma new_data_effects: "effects_ok env h (effects_of (new_data env h data st))"
  using tcp_loop_effects ws_loop_effects by (auto simp: new_data_def ws_data_def Let_def split: option.splits)

lemma new_data_bad: "h \<in> bad st \<Longrightarrow> effects_of (new_data env h data st) = []"
  by (simp add: new_data_def)

section \<open>Chunks and the dangling buffer\<close>

definition bad_message :: "parsed_pkg \<Rightarrow> bool" where
  "bad_message pkg \<longleftrightarrow> pkg_type pkg = kPkgData \<and> parse_msg (pkg_body pkg) = None"

lemma write_frame_set_rx: "rx st h \<noteq> None \<Longrightarrow> write_frame (set_rx h b st) h' bs = write_frame st h' bs"
  by (auto simp: write_frame_def write_raw_def set_rx_def)

lemma set_rx_uid: "(set_rx h b st)\<lparr>uid_map := m\<rparr> = set_rx h b (st\<lparr>uid_map := m\<rparr>)" "(set_rx h b st)\<lparr>ready := r\<rparr> = set_rx h b (st\<lparr>ready := r\<rparr>)"
  "uid_map (set_rx h b st) = uid_map st" "ready (set_rx h b st) = ready st" "set_rx h b' (set_rx h b st) = set_rx h b' st"
  "rx (set_rx h b st) h = Some b"
  by (simp_all add: set_rx_def)

text \<open>A package whose message is well formed is handled the same way whatever the buffer holds.\<close>

lemma handle_package_set_rx:
  assumes "\<not> bad_message pkg" "rx st h \<noteq> None"
  shows "handle_package env h pkg (set_rx h b st) = apfst (set_rx h b) (handle_package env h pkg st)" and
    "rx (fst (handle_package env h pkg st)) = rx st"
  using assms write_frame_set_rx [of st h b] write_frame_set_rx [of "st\<lparr>uid_map := _\<rparr>" h b]
  by (auto simp: handle_package_def handle_request_def bad_message_def set_rx_uid Let_def split: option.splits)

lemma handle_package_bad: "bad_message pkg \<Longrightarrow> handle_package env h pkg st = (mark_bad h st, [])"
  by (simp add: handle_package_def bad_message_def)

lemma handle_packages_set_rx:
  assumes "\<forall>pkg \<in> set pkgs. \<not> bad_message pkg" "rx st h \<noteq> None"
  shows "handle_packages env h pkgs (set_rx h b st) = apfst (set_rx h b) (handle_packages env h pkgs st) \<and>
    rx (fst (handle_packages env h pkgs st)) = rx st"
  using assms
proof (induction pkgs arbitrary: st)
  case (Cons pkg pkgs)
  obtain st1 es1 where h: "handle_package env h pkg st = (st1, es1)" by fastforce
  have "rx st1 = rx st" "rx st1 h \<noteq> None" using handle_package_set_rx(2) [of pkg st h env] h Cons.prems by auto
  moreover have "handle_package env h pkg (set_rx h b st) = (set_rx h b st1, es1)"
    using handle_package_set_rx(1) [of pkg st h env b] h Cons.prems by simp
  ultimately show ?case using Cons.IH [of st1] Cons.prems h by (simp add: Let_def case_prod_unfold)
qed simp

lemma drain_pkgs_Cons:
  assumes "drain_pkgs buf = (pkg # pkgs, r)"
  obtains n where "parse_pkg buf = Consumed n pkg" "drain_pkgs (drop n buf) = (pkgs, r)"
  using assms by (subst (asm) drain_pkgs.simps) (auto split: parse.splits prod.splits simp: Let_def)

lemma drain_pkgs_Nil:
  assumes "drain_pkgs buf = ([], r)"
  shows "parse_pkg buf = Need_more" "r = buf"
  using assms parse_pkg_no_error [of buf] by (subst (asm) drain_pkgs.simps; auto split: parse.splits prod.splits simp: Let_def)+

text \<open>The loop takes all packages off the buffer and handles them in order; a bad one makes it read the erased buffer.\<close>

lemma tcp_loop_packages:
  assumes "drain_pkgs buf = (pkgs, r)" "rx st h = Some buf" "\<forall>pkg \<in> set pkgs. \<not> bad_message pkg"
  shows "tcp_loop env h st = (case handle_packages env h pkgs st of (st', es) \<Rightarrow> Done (set_rx h r st') es)"
  using assms
proof (induction pkgs arbitrary: buf st)
  case Nil
  then show ?case using drain_pkgs_Nil [OF Nil(1)] by (subst tcp_loop.simps) (simp add: set_rx_def map_upd_triv)
next
  case (Cons pkg pkgs)
  obtain n where n: "parse_pkg buf = Consumed n pkg" "drain_pkgs (drop n buf) = (pkgs, r)" using Cons.prems(1) by (rule drain_pkgs_Cons)
  obtain st1 es1 where h: "handle_package env h pkg st = (st1, es1)" by fastforce
  have b: "\<not> bad_message pkg" "rx st h \<noteq> None" using Cons.prems by auto
  have st1: "rx st1 h = Some buf" using handle_package_set_rx(2) [OF b, of env] h Cons.prems(2) by simp
  have h': "handle_package env h pkg (set_rx h (drop n buf) st) = (set_rx h (drop n buf) st1, es1)"
    using handle_package_set_rx(1) [OF b, of env "drop n buf"] h by simp
  have "tcp_loop env h (set_rx h (drop n buf) st1) =
      (case handle_packages env h pkgs (set_rx h (drop n buf) st1) of (st', es) \<Rightarrow> Done (set_rx h r st') es)"
    by (rule Cons.IH [OF n(2)]) (use Cons.prems in \<open>auto simp: set_rx_uid\<close>)
  also have "\<dots> = (case handle_packages env h pkgs st1 of (st', es) \<Rightarrow> Done (set_rx h r st') es)"
    using handle_packages_set_rx [of pkgs st1 h env "drop n buf"] Cons.prems(3) st1
    by (simp add: case_prod_unfold set_rx_uid)
  finally show ?case
    using h by (simp add: tcp_loop_step [OF Cons.prems(2) n(1) h'] Let_def case_prod_unfold)
qed

abbreviation good_prefix :: "parsed_pkg list \<Rightarrow> parsed_pkg list" where
  "good_prefix pkgs \<equiv> takeWhile (\<lambda>pkg. \<not> bad_message pkg) pkgs"

lemma good_prefix_good: "\<forall>pkg \<in> set (good_prefix pkgs). \<not> bad_message pkg"
  by (auto dest: set_takeWhileD)

lemma mark_bad_set_rx: "mark_bad h (set_rx h b st) = mark_bad h st"
  by (simp add: mark_bad_def set_rx_def)

lemma tcp_loop_dangling:
  assumes "drain_pkgs buf = (pkgs, r)" "rx st h = Some buf" "\<exists>pkg \<in> set pkgs. bad_message pkg"
  shows "tcp_loop env h st = (case handle_packages env h (good_prefix pkgs) st of (st', es) \<Rightarrow> Dangling (mark_bad h st') es)"
  using assms
proof (induction pkgs arbitrary: buf st)
  case (Cons pkg pkgs)
  obtain n where n: "parse_pkg buf = Consumed n pkg" "drain_pkgs (drop n buf) = (pkgs, r)" using Cons.prems(1) by (rule drain_pkgs_Cons)
  let ?st = "set_rx h (drop n buf) st"
  show ?case
  proof (cases "bad_message pkg")
    case True
    have "tcp_loop env h (mark_bad h ?st) = Dangling (mark_bad h ?st) []" by (subst tcp_loop.simps) (simp add: mark_bad_def)
    then show ?thesis using tcp_loop_step [OF Cons.prems(2) n(1) handle_package_bad [OF True]] True by (simp add: mark_bad_set_rx)
  next
    case False
    have rx: "rx st h \<noteq> None" using Cons.prems(2) by simp
    obtain st1 es1 where h: "handle_package env h pkg st = (st1, es1)" by fastforce
    have st1: "rx st1 h = Some buf" using handle_package_set_rx(2) [OF False rx, of env] h Cons.prems(2) by simp
    have h': "handle_package env h pkg ?st = (set_rx h (drop n buf) st1, es1)" using handle_package_set_rx(1) [OF False rx, of env "drop n buf"] h by simp
    have "tcp_loop env h (set_rx h (drop n buf) st1) =
        (case handle_packages env h (good_prefix pkgs) (set_rx h (drop n buf) st1) of (st', es) \<Rightarrow> Dangling (mark_bad h st') es)"
      by (rule Cons.IH [OF n(2)]) (use Cons.prems False in \<open>auto simp: set_rx_uid\<close>)
    also have "\<dots> = (case handle_packages env h (good_prefix pkgs) st1 of (st', es) \<Rightarrow> Dangling (mark_bad h st') es)"
      using handle_packages_set_rx [OF good_prefix_good [of pkgs], of st1 h env "drop n buf"] st1 by (simp add: case_prod_unfold mark_bad_set_rx)
    finally show ?thesis using h False by (simp add: tcp_loop_step [OF Cons.prems(2) n(1) h'] Let_def case_prod_unfold)
  qed
qed simp

fun run_data :: "bridge_env \<Rightarrow> handle \<Rightarrow> bytes list \<Rightarrow> bridge \<Rightarrow> outcome" where
  "run_data env h [] st = Done st []"
| "run_data env h (chunk # chunks) st =
     (case new_data env h chunk st of
        Done st1 es \<Rightarrow> after_effects es (run_data env h chunks st1)
      | Dangling st1 es \<Rightarrow> Dangling st1 es)"

lemma new_data_tcp:
  assumes "transport st h = Some Tcp" "h \<notin> bad st" "rx st h = Some buf"
  shows "new_data env h data st = tcp_loop env h (set_rx h (buf @ data) st)"
  using assms by (simp add: new_data_def detect_transport_def set_rx_def Let_def)

lemma handle_packages_append:
  "handle_packages env h (ps @ qs) st =
     (case handle_packages env h ps st of (st1, es) \<Rightarrow> case handle_packages env h qs st1 of (st2, es') \<Rightarrow> (st2, es @ es'))"
  by (induction ps arbitrary: st) (simp_all add: Let_def case_prod_unfold)

lemma handle_packages_frame:
  "\<forall>pkg \<in> set pkgs. \<not> bad_message pkg \<Longrightarrow> transport (fst (handle_packages env h pkgs st)) = transport st \<and> bad (fst (handle_packages env h pkgs st)) = bad st"
proof (induction pkgs arbitrary: st)
  case (Cons pkg pkgs)
  have "transport (fst (handle_package env h pkg st)) = transport st \<and> bad (fst (handle_package env h pkg st)) = bad st"
    using Cons.prems by (auto simp: handle_package_def bad_message_def Let_def split: option.splits)
  then show ?case using Cons by (simp add: Let_def case_prod_unfold)
qed simp

lemma run_data_feed:
  assumes "transport st h = Some Tcp" "h \<notin> bad st" "rx st h = Some buf" "feed drain_pkgs chunks buf = (pkgs, r)"
    "\<forall>pkg \<in> set pkgs. \<not> bad_message pkg"
  shows "run_data env h chunks st = (case handle_packages env h pkgs st of (st', es) \<Rightarrow> Done (set_rx h r st') es)"
  using assms
proof (induction chunks arbitrary: st buf pkgs)
  case Nil
  then show ?case by (auto simp: set_rx_def map_upd_triv)
next
  case (Cons c cs)
  obtain ps r1 qs where ps: "drain_pkgs (buf @ c) = (ps, r1)" "feed drain_pkgs cs r1 = (qs, r)" "pkgs = ps @ qs"
    using Cons.prems(4) by (auto simp: Let_def split: prod.splits)
  let ?st = "set_rx h (buf @ c) st"
  obtain st1 es1 where h: "handle_packages env h ps st = (st1, es1)" by fastforce
  have good: "\<forall>pkg \<in> set ps. \<not> bad_message pkg" "\<forall>pkg \<in> set qs. \<not> bad_message pkg" using Cons.prems(5) ps(3) by auto
  have "new_data env h c st = Done (set_rx h r1 st1) es1"
    using tcp_loop_packages [OF ps(1), of ?st h env] good(1) handle_packages_set_rx [of ps st h env "buf @ c"] h Cons.prems
    by (simp add: new_data_tcp set_rx_uid)
  moreover have f: "transport st1 = transport st" "bad st1 = bad st" "rx st1 h = Some buf"
    using handle_packages_frame [OF good(1), of env h st] handle_packages_set_rx [OF good(1), of st h env] h Cons.prems by auto
  have "run_data env h cs (set_rx h r1 st1) = (case handle_packages env h qs (set_rx h r1 st1) of (st', es) \<Rightarrow> Done (set_rx h r st') es)"
    using Cons.prems f good(2) ps(2) by (intro Cons.IH [of _ r1]) (auto simp: set_rx_def)
  moreover have "handle_packages env h qs (set_rx h r1 st1) = apfst (set_rx h r1) (handle_packages env h qs st1)"
    using handle_packages_set_rx [OF good(2), of st1 h env r1] f by simp
  ultimately show ?case using h by (simp add: ps(3) handle_packages_append case_prod_unfold set_rx_uid)
qed

lemma run_data_dangling:
  assumes "transport st h = Some Tcp" "h \<notin> bad st" "rx st h = Some buf" "feed drain_pkgs chunks buf = (pkgs, r)"
    "\<exists>pkg \<in> set pkgs. bad_message pkg"
  shows "run_data env h chunks st = (case handle_packages env h (good_prefix pkgs) st of (st', es) \<Rightarrow> Dangling (mark_bad h st') es)"
  using assms
proof (induction chunks arbitrary: st buf pkgs)
  case (Cons c cs)
  obtain ps r1 qs where ps: "drain_pkgs (buf @ c) = (ps, r1)" "feed drain_pkgs cs r1 = (qs, r)" "pkgs = ps @ qs"
    using Cons.prems(4) by (auto simp: Let_def split: prod.splits)
  let ?st = "set_rx h (buf @ c) st"
  show ?case
  proof (cases "\<exists>pkg \<in> set ps. bad_message pkg")
    case True
    then have "good_prefix pkgs = good_prefix ps" by (auto simp: ps(3))
    moreover have "handle_packages env h (good_prefix ps) ?st = apfst (set_rx h (buf @ c)) (handle_packages env h (good_prefix ps) st)"
      using handle_packages_set_rx [OF good_prefix_good [of ps], of st h env "buf @ c"] Cons.prems(3) by simp
    ultimately show ?thesis using tcp_loop_dangling [OF ps(1) _ True, of ?st h env] Cons.prems(1-3)
      by (simp add: new_data_tcp set_rx_uid case_prod_unfold mark_bad_set_rx)
  next
    case False
    then have good: "\<forall>pkg \<in> set ps. \<not> bad_message pkg" "\<exists>pkg \<in> set qs. bad_message pkg" "good_prefix pkgs = ps @ good_prefix qs"
      using Cons.prems(5) ps(3) by auto
    obtain st1 es1 where h: "handle_packages env h ps st = (st1, es1)" by fastforce
    have new: "new_data env h c st = Done (set_rx h r1 st1) es1"
      using tcp_loop_packages [OF ps(1), of ?st h env] good(1) handle_packages_set_rx [of ps st h env "buf @ c"] h Cons.prems
      by (simp add: new_data_tcp set_rx_uid)
    have f: "transport st1 = transport st" "bad st1 = bad st" "rx st1 h = Some buf"
      using handle_packages_frame [OF good(1), of env h st] handle_packages_set_rx [OF good(1), of st h env] h Cons.prems by auto
    have "run_data env h cs (set_rx h r1 st1) = (case handle_packages env h (good_prefix qs) (set_rx h r1 st1) of (st', es) \<Rightarrow> Dangling (mark_bad h st') es)"
      using Cons.prems f good(2) ps(2) by (intro Cons.IH [of _ r1]) (auto simp: set_rx_def)
    moreover have "handle_packages env h (good_prefix qs) (set_rx h r1 st1) = apfst (set_rx h r1) (handle_packages env h (good_prefix qs) st1)"
      using handle_packages_set_rx [OF good_prefix_good [of qs], of st1 h env r1] f by simp
    ultimately show ?thesis using h new by (simp add: good(3) handle_packages_append case_prod_unfold mark_bad_set_rx)
  qed
qed simp

lemma write_frame_guard: "Write h bs \<in> set (write_frame st h' frame) \<Longrightarrow> h = h' \<and> rx st h \<noteq> None \<and> h \<notin> bad st"
  by (auto simp: write_frame_def write_raw_def split: if_splits)

lemma write_frame_no_resolve: "Resolve p \<notin> set (write_frame st h frame)"
  by (simp add: write_frame_def write_raw_def)

fun enabled :: "handle set \<Rightarrow> event \<Rightarrow> bool" where
  "enabled live (New_data h data) \<longleftrightarrow> h \<in> live"
| "enabled live _ \<longleftrightarrow> True"

fun pending_target :: "pending \<Rightarrow> bytes" where
  "pending_target (P_request h i svc f body) = svc @ ascii '':'' @ f"
| "pending_target (P_notify svc f body) = svc @ ascii '':'' @ f"

lemma step_writes:
  assumes "Write h bs \<in> set (effects_of (bridge_step env e st))"
  shows "(\<exists>data. e = New_data h data) \<and> h \<notin> bad st \<or> rx st h \<noteq> None \<and> h \<notin> bad st"
proof (cases e)
  case (New_data h' data)
  then have w: "Write h bs \<in> set (effects_of (new_data env h' data st))" using assms by simp
  then have "h' \<notin> bad st" using new_data_bad [of h' st env data] by auto
  moreover have "h = h'" using w new_data_effects [of env h' data st] by (auto simp: list_all_iff)
  ultimately show ?thesis using New_data by simp
next
  case (Resolved p r)
  then have "Write h bs \<in> set (on_resolved st p r)" using assms by simp
  then show ?thesis by (cases "(st, p, r)" rule: on_resolved.cases) (auto dest!: write_frame_guard)
qed (use assms in \<open>auto simp: write_uid_def write_all_def on_reply_def dest!: write_frame_guard split: option.splits if_splits\<close>)

text \<open>
  Three consequences of how the handlers are written.  A data package is served before the handshake is acknowledged.
  A first read of fewer than four bytes decides for TCP, so a WebSocket client whose request line arrives in pieces is never
  upgraded.  And when the first fragment of a WebSocket message is empty, its continuation frames are dropped.
\<close>

lemma data_before_ack:
  assumes "map_of (ready st) h = Some False" "pkg_type pkg = kPkgData" "parse_msg (pkg_body pkg) = Some msg" "msg_type msg = kMsgRequest"
    "routes env (msg_route msg) = Some target" "split_svc_function target = Some (svc, f)"
  shows "handle_package env h pkg st = (st, [Resolve (P_request h (msg_id msg) svc f (msg_body msg))])"
  using assms by (simp add: handle_package_def handle_request_def)

lemma short_first_read:
  assumes "length data < 4"
  shows "transport (detect_transport h data (set_rx h data (new_connection h st))) h = Some Tcp"
  using assms by (simp add: detect_transport_def looks_like_http_upgrade_def set_rx_def new_connection_def)

lemma empty_first_fragment:
  assumes "frame_opcode f1 = kOpBinary" "\<not> frame_fin f1" "frame_payload f1 = []" "frame_opcode f2 = kOpContinuation"
    "handle_frame env h f1 st = (st1, es1, stop1)" "handle_frame env h f2 st1 = (st2, es2, stop2)"
  shows "st2 = st1 \<and> es1 = [] \<and> es2 = []"
  using assms by (auto simp: handle_frame_def Let_def set_frag_def)

section \<open>Properties\<close>

text \<open>The endpoint keeps nothing of a closed connection: in every reachable state a connection that is not open has no buffer,
  no handshake or transport state, no fragments and no uid bound to it, so that a handle used again starts afresh; an
  open connection has a buffer exactly when it is not marked bad.\<close>

theorem bridge_invariant:
  assumes "reach env live st"
  shows "(h \<notin> live \<longrightarrow> traceless h st) \<and> (h \<in> live \<longrightarrow> (rx st h \<noteq> None) = (h \<notin> bad st))"
  using reach_inv [OF assms] by (simp add: bridge_inv_def buffered_def)

text \<open>Bytes are only written to healthy open connections: whatever event a reachable broker handles, every write goes to a
  connection that is open and was not marked bad, a push to a uid and a late reply of a service included.\<close>

theorem writes_only_to_open:
  assumes "reach env live st" "enabled live e" "Write h bs \<in> set (effects_of (bridge_step env e st))"
  shows "h \<in> live \<and> h \<notin> bad st"
  using step_writes [OF assms(3)] reach_inv [OF assms(1)] assms(2)
  by (auto simp: bridge_inv_def traceless_def)

text \<open>The route table is the only way in: the endpoint asks the registry for a service and a function only when the table
  maps some route to exactly that service and function, in every state and for every input.\<close>

theorem only_routed_calls:
  assumes "Resolve p \<in> set (effects_of (bridge_step env e st))"
  shows "\<exists>route. routes env route = Some (pending_target p)"
proof (cases e)
  case (New_data h data)
  then have "effect_ok env h (Resolve p)" using assms new_data_effects [of env h data st] by (auto simp: list_all_iff)
  then show ?thesis by (cases p) auto
next
  case (Resolved q r)
  then show ?thesis using assms by (cases "(st, q, r)" rule: on_resolved.cases) (auto simp: write_frame_no_resolve)
qed (use assms in \<open>auto simp: write_uid_def write_all_def on_reply_def write_frame_no_resolve split: option.splits if_splits\<close>)

text \<open>C28. Packages survive fragmentation: take a connection that was recognised as TCP, with an empty buffer, and a stream of packages whose bodies fit the 24-bit
  length field.  Whatever reads the stream arrives in, the endpoint ends in the same state and with the same effects in the same order as if it had handled
  the packages one by one, with the bytes of the last, incomplete package in the buffer.  If a data package holds a message that does not
  parse, this is so up to the first such package; there the connection is marked bad and the loop goes on with a reference to the buffer that
  was erased, which is undefined behaviour.\<close>

theorem tcp_stream_handled:
  assumes "transport st h = Some Tcp" "h \<notin> bad st" "rx st h = Some []"
    "\<forall>pkg \<in> set pkgs. pkg_fits pkg" "pkg_fits last_pkg" "strict_prefix part (encode_package last_pkg)"
    "concat chunks = concat (map encode_package pkgs) @ part"
  shows "run_data env h chunks st =
    (if \<exists>pkg \<in> set pkgs. bad_message pkg
     then (case handle_packages env h (takeWhile (\<lambda>pkg. \<not> bad_message pkg) pkgs) st of (st', es) \<Rightarrow> Dangling (mark_bad h st') es)
     else (case handle_packages env h pkgs st of (st', es) \<Rightarrow> Done (set_rx h part st') es))"
proof -
  have "list_all2 encodes_pkg pkgs (map encode_package pkgs)" using assms(4) by (auto simp: list_all2_conv_all_nth encodes_pkg_def)
  then have "feed drain_pkgs chunks [] = (pkgs, part)"
    using assms(5-7) by (intro pkg.feed_frames [of pkgs _ last_pkg "encode_package last_pkg"]) (simp_all add: encodes_pkg_def)
  then show ?thesis using run_data_feed [OF assms(1-3)] run_data_dangling [OF assms(1-3)] by simp
qed

theorem tcp_stream_handled_witness:
  "\<exists>st. run_data \<lparr>routes = Map.empty, json_user_uid = (\<lambda>_. [])\<rparr> 2 [[3, 0], [0, 0, 3]] st = Done (set_rx 2 [3] st) [Write 2 [3, 0, 0, 0]]"
proof -
  let ?env = "\<lparr>routes = Map.empty, json_user_uid = (\<lambda>_. [])\<rparr>" and ?st = "(new_connection 2 empty_bridge)\<lparr>transport := [2 \<mapsto> Tcp]\<rparr>"
  let ?pkg = "\<lparr>pkg_type = 3, pkg_body = []\<rparr>"
  have st: "transport ?st 2 = Some Tcp" "2 \<notin> bad ?st" "rx ?st 2 = Some []" by (simp_all add: new_connection_def empty_bridge_def)
  have "run_data ?env 2 [[3, 0], [0, 0, 3]] ?st = (case handle_packages ?env 2 [?pkg] ?st of (st', es) \<Rightarrow> Done (set_rx 2 [3] st') es)"
    using tcp_stream_handled [OF st, of "[?pkg]" ?pkg "[3]" "[[3, 0], [0, 0, 3]]" ?env] by (simp add: pkg_fits_def bad_message_def encode_pkg_def strict_prefix_def)
  then show ?thesis
    using st by (intro exI [of _ ?st]) (simp add: handle_package_def write_frame_def write_raw_def encode_pkg_def)
qed

text \<open>A bad message is worse than the code means: while a TCP stream is handled, the loop goes on through a reference to the
  buffer that the package handler has erased exactly when one of the complete packages in the buffer is a data package whose message does not
  parse, instead of closing the connection.\<close>

theorem bad_message_dangling:
  assumes "transport st h = Some Tcp" "h \<notin> bad st" "rx st h = Some buf"
  shows "(\<exists>st' es. new_data env h data st = Dangling st' es) \<longleftrightarrow> (\<exists>pkg \<in> set (fst (drain_pkgs (buf @ data))). bad_message pkg)"
proof -
  obtain pkgs r where d: "drain_pkgs (buf @ data) = (pkgs, r)" by fastforce
  show ?thesis
  proof (cases "\<exists>pkg \<in> set pkgs. bad_message pkg")
    case True
    then show ?thesis using tcp_loop_dangling [OF d _ True, of "set_rx h (buf @ data) st" h env] d
      by (simp add: new_data_tcp [OF assms] set_rx_uid case_prod_unfold)
  next
    case False
    then show ?thesis using tcp_loop_packages [OF d, of "set_rx h (buf @ data) st" h env] d
      by (simp add: new_data_tcp [OF assms] set_rx_uid case_prod_unfold)
  qed
qed

end
