(* ===== verification/Cluster_Master.thy ===== *)
theory Cluster_Master
  imports Prelude
begin

text \<open>
  The cluster's registration centre: the member table (\<^verbatim>\<open>src/core/cluster/membership_registry.hpp\<close>) and the master actor over it
  (\<^verbatim>\<open>src/core/cluster/master.cpp\<close>).  A member holds a lease that registrations and heartbeats renew and that a periodic
  tick and every query check, and a monitor whose down message removes it at once.  The time is a parameter of every
  handler.  The theory shows the lease contract (a member stays until its deadline, and no answer shows it
  after), that monitors are neither leaked nor doubled, and that queries answer exactly.
\<close>

section \<open>Types of the cluster protocol\<close>

datatype node_kind = Kind_master | Kind_region | Kind_worker

definition node_kind_to_string :: "node_kind \<Rightarrow> string" where
  "node_kind_to_string x = (case x of Kind_master \<Rightarrow> ''master'' | Kind_region \<Rightarrow> ''region'' | Kind_worker \<Rightarrow> ''worker'')"

definition node_kind_from_string :: "string \<Rightarrow> node_kind option" where
  "node_kind_from_string str =
     (if str = ''master'' then Some Kind_master else if str = ''region'' then Some Kind_region
      else if str = ''worker'' then Some Kind_worker else None)"

definition node_kind_from_integer :: "u8 \<Rightarrow> node_kind option" where
  "node_kind_from_integer v = (if v = 0 then Some Kind_master else if v = 1 then Some Kind_region else if v = 2 then Some Kind_worker else None)"

datatype shutdown_source = Source_local | Source_parent | Source_child | Source_external

definition shutdown_source_to_string :: "shutdown_source \<Rightarrow> string" where
  "shutdown_source_to_string x =
     (case x of Source_local \<Rightarrow> ''local'' | Source_parent \<Rightarrow> ''parent'' | Source_child \<Rightarrow> ''child'' | Source_external \<Rightarrow> ''external'')"

definition shutdown_source_from_string :: "string \<Rightarrow> shutdown_source option" where
  "shutdown_source_from_string str =
     (if str = ''local'' then Some Source_local else if str = ''parent'' then Some Source_parent
      else if str = ''child'' then Some Source_child else if str = ''external'' then Some Source_external else None)"

definition shutdown_source_from_integer :: "u8 \<Rightarrow> shutdown_source option" where
  "shutdown_source_from_integer v =
     (if v = 0 then Some Source_local else if v = 1 then Some Source_parent else if v = 2 then Some Source_child
      else if v = 3 then Some Source_external else None)"

record node_manifest =
  nm_kind :: node_kind
  nm_node_name :: string
  nm_host :: string
  nm_port :: u16
  nm_parent :: string
  nm_exported_actors :: "string list"

record actor_route =
  ar_node_name :: string
  ar_kind :: node_kind
  ar_host :: string
  ar_port :: u16
  ar_actor_name :: string
  ar_parent :: string

section \<open>The member table\<close>

text \<open>\<open>time_point::max\<close>, which the clock never reaches, is \<open>None\<close>.\<close>

type_synonym deadline = "int option"

record slot =
  sl_manifest :: node_manifest
  sl_monitor_actor :: "address option"
  sl_expires_at :: deadline
  sl_monitor_node :: nat
  sl_monitor_id :: nat

type_synonym slots = "(string \<times> slot) list"

datatype action = Monitor address | Demonitor address | Schedule_tick

definition lease :: "int \<Rightarrow> int \<Rightarrow> deadline" where
  "lease lease_ttl now = (if lease_ttl > 0 then Some (now + lease_ttl) else None)"

definition contains :: "string \<Rightarrow> slots \<Rightarrow> bool" where
  "contains node_name slots \<longleftrightarrow> map_of slots node_name \<noteq> None"

definition upsert :: "node_manifest \<Rightarrow> address option \<Rightarrow> int \<Rightarrow> int \<Rightarrow> slots \<Rightarrow> slots \<times> action list" where
  "upsert manifest monitor_actor lease_ttl now slots =
     (let node_name = nm_node_name manifest;
          old = (case map_of slots node_name of None \<Rightarrow> None | Some s \<Rightarrow> sl_monitor_actor s);
          same_monitor = (old \<noteq> None \<and> monitor_actor \<noteq> None \<and> old = monitor_actor);
          s = \<lparr>sl_manifest = manifest, sl_monitor_actor = monitor_actor, sl_expires_at = lease lease_ttl now,
               sl_monitor_node = (case monitor_actor of None \<Rightarrow> 0 | Some a \<Rightarrow> fst a),
               sl_monitor_id = (case monitor_actor of None \<Rightarrow> 0 | Some a \<Rightarrow> snd a)\<rparr>
      in (AList.update node_name s slots,
          (case old of Some a \<Rightarrow> if same_monitor then [] else [Demonitor a] | None \<Rightarrow> []) @
          (case monitor_actor of Some a \<Rightarrow> if same_monitor then [] else [Monitor a] | None \<Rightarrow> [])))"

definition touch :: "string \<Rightarrow> int \<Rightarrow> int \<Rightarrow> slots \<Rightarrow> slots \<times> bool" where
  "touch node_name lease_ttl now slots =
     (case map_of slots node_name of
        None \<Rightarrow> (slots, False)
      | Some s \<Rightarrow> (AList.update node_name (s\<lparr>sl_expires_at := lease lease_ttl now\<rparr>) slots, True))"

definition erase :: "string \<Rightarrow> bool \<Rightarrow> slots \<Rightarrow> slots \<times> action list \<times> bool" where
  "erase node_name demonitor_actor slots =
     (case map_of slots node_name of
        None \<Rightarrow> (slots, [], False)
      | Some s \<Rightarrow>
          (AList.delete node_name slots,
           (case sl_monitor_actor s of Some a \<Rightarrow> if demonitor_actor then [Demonitor a] else [] | None \<Rightarrow> []), True))"

definition matches_monitor :: "address \<Rightarrow> slot \<Rightarrow> bool" where
  "matches_monitor source s \<longleftrightarrow> sl_monitor_id s \<noteq> 0 \<and> sl_monitor_node s = fst source \<and> sl_monitor_id s = snd source"

definition erase_by_monitor :: "address \<Rightarrow> slots \<Rightarrow> slots \<times> bool" where
  "erase_by_monitor source slots =
     (case find (\<lambda>(name, s). matches_monitor source s) slots of
        None \<Rightarrow> (slots, False)
      | Some (name, s) \<Rightarrow> (fst (erase name False slots), True))"

definition is_expired :: "int \<Rightarrow> slot \<Rightarrow> bool" where
  "is_expired now s = (case sl_expires_at s of None \<Rightarrow> False | Some t \<Rightarrow> t \<le> now)"

fun erase_names :: "string list \<Rightarrow> slots \<Rightarrow> slots \<times> action list" where
  "erase_names [] slots = (slots, [])"
| "erase_names (name # names) slots =
     (let (slots, as, _) = erase name True slots; (slots, as') = erase_names names slots in (slots, as @ as'))"

definition prune_slots :: "int \<Rightarrow> (node_manifest \<Rightarrow> bool) \<Rightarrow> slots \<Rightarrow> slots \<times> action list" where
  "prune_slots now skip slots =
     erase_names (map fst (filter (\<lambda>(name, s). \<not> skip (sl_manifest s) \<and> is_expired now s) slots)) slots"

definition find_manifest :: "string \<Rightarrow> slots \<Rightarrow> node_manifest option" where
  "find_manifest node_name slots = map_option sl_manifest (map_of slots node_name)"

definition sort_manifests :: "node_manifest list \<Rightarrow> node_manifest list" where
  "sort_manifests v = sort_key nm_node_name v"

section \<open>The master\<close>

record master =
  ms_lease_ttl :: int
  ms_nodes :: slots

datatype request =
    Node_register node_manifest "address option"
  | Node_heartbeat string
  | Node_unregister string
  | Down address
  | Maintenance_tick
  | Node_topology
  | Node_children string
  | Node_resolve string string
  | Service_resolve string

datatype reply =
    Register_reply bool string
  | Topology "node_manifest list"
  | Children string "node_manifest list"
  | Route actor_route
  | Service_route "actor_route list"
  | No_such_key
  | No_reply

definition prune_expired :: "int \<Rightarrow> master \<Rightarrow> master \<times> action list" where
  "prune_expired now st =
     (if ms_lease_ttl st = 0 then (st, [])
      else let (slots, as) = prune_slots now (\<lambda>m. nm_kind m = Kind_master) (ms_nodes st) in (st\<lparr>ms_nodes := slots\<rparr>, as))"

definition make_route :: "node_manifest \<Rightarrow> string \<Rightarrow> actor_route" where
  "make_route m actor_name =
     \<lparr>ar_node_name = nm_node_name m, ar_kind = nm_kind m, ar_host = nm_host m, ar_port = nm_port m,
      ar_actor_name = actor_name, ar_parent = nm_parent m\<rparr>"

definition manifests :: "slots \<Rightarrow> node_manifest list" where
  "manifests slots = map (\<lambda>(name, s). sl_manifest s) slots"

definition on_register :: "node_manifest \<Rightarrow> address option \<Rightarrow> int \<Rightarrow> master \<Rightarrow> master \<times> action list \<times> reply" where
  "on_register manifest monitor_actor now st =
     (let (st, as) = prune_expired now st;
          existed = contains (nm_node_name manifest) (ms_nodes st);
          (slots, as') = upsert manifest monitor_actor (ms_lease_ttl st) now (ms_nodes st)
      in (st\<lparr>ms_nodes := slots\<rparr>, as @ as', Register_reply True (if existed then ''node updated'' else ''node registered'')))"

definition on_heartbeat :: "string \<Rightarrow> int \<Rightarrow> master \<Rightarrow> master \<times> action list \<times> reply" where
  "on_heartbeat node_name now st =
     (let (st, as) = prune_expired now st; (slots, ok) = touch node_name (ms_lease_ttl st) now (ms_nodes st)
      in (st\<lparr>ms_nodes := slots\<rparr>, as, if ok then Register_reply True ''node refreshed'' else Register_reply False ''node not found''))"

definition on_unregister :: "string \<Rightarrow> master \<Rightarrow> master \<times> action list \<times> reply" where
  "on_unregister node_name st =
     (let (slots, as, ok) = erase node_name True (ms_nodes st)
      in (st\<lparr>ms_nodes := slots\<rparr>, as, if ok then Register_reply True ''node removed'' else Register_reply False ''node not found''))"

definition resolve_node :: "string \<Rightarrow> string \<Rightarrow> slots \<Rightarrow> reply" where
  "resolve_node node_name actor_name slots =
     (case find_manifest node_name slots of
        None \<Rightarrow> No_such_key
      | Some m \<Rightarrow> if actor_name \<in> set (nm_exported_actors m) then Route (make_route m actor_name) else No_such_key)"

definition resolve_service :: "string \<Rightarrow> slots \<Rightarrow> reply" where
  "resolve_service svc slots =
     (let routes = map (\<lambda>m. make_route m svc) (filter (\<lambda>m. svc \<in> set (nm_exported_actors m)) (manifests slots))
      in if routes = [] then No_such_key else Service_route routes)"

definition with_pruned :: "int \<Rightarrow> master \<Rightarrow> (slots \<Rightarrow> reply) \<Rightarrow> master \<times> action list \<times> reply" where
  "with_pruned now st answer = (let (st, as) = prune_expired now st in (st, as, answer (ms_nodes st)))"

fun master_step :: "request \<Rightarrow> int \<Rightarrow> master \<Rightarrow> master \<times> action list \<times> reply" where
  "master_step (Node_register manifest monitor_actor) now st = on_register manifest monitor_actor now st"
| "master_step (Node_heartbeat node_name) now st = on_heartbeat node_name now st"
| "master_step (Node_unregister node_name) now st = on_unregister node_name st"
| "master_step (Down source) now st = (st\<lparr>ms_nodes := fst (erase_by_monitor source (ms_nodes st))\<rparr>, [], No_reply)"
| "master_step Maintenance_tick now st = (let (st, as) = prune_expired now st in (st, as @ [Schedule_tick], No_reply))"
| "master_step Node_topology now st = with_pruned now st (\<lambda>slots. Topology (sort_manifests (manifests slots)))"
| "master_step (Node_children parent_name) now st =
     with_pruned now st (\<lambda>slots. Children parent_name (sort_manifests (filter (\<lambda>m. nm_parent m = parent_name) (manifests slots))))"
| "master_step (Node_resolve node_name actor_name) now st = with_pruned now st (resolve_node node_name actor_name)"
| "master_step (Service_resolve svc) now st = with_pruned now st (resolve_service svc)"

definition master_init :: "node_manifest \<Rightarrow> int \<Rightarrow> int \<Rightarrow> master \<times> action list" where
  "master_init self_manifest lease_ttl now =
     (let (slots, as) = upsert self_manifest None lease_ttl now []
      in (\<lparr>ms_lease_ttl = lease_ttl, ms_nodes = slots\<rparr>, as @ [Schedule_tick]))"

section \<open>The member table as a map\<close>

definition slot_ok :: "string \<Rightarrow> slot \<Rightarrow> bool" where
  "slot_ok name s \<longleftrightarrow> nm_node_name (sl_manifest s) = name \<and>
     (sl_monitor_node s, sl_monitor_id s) = (case sl_monitor_actor s of None \<Rightarrow> (0, 0) | Some a \<Rightarrow> a) \<and>
     (\<forall>a. sl_monitor_actor s = Some a \<longrightarrow> snd a \<noteq> 0)"

definition slots_ok :: "slots \<Rightarrow> bool" where
  "slots_ok slots \<longleftrightarrow> keys_distinct slots \<and> (\<forall>name s. map_of slots name = Some s \<longrightarrow> slot_ok name s)"

text \<open>A registration names a proper actor.\<close>

definition address_ok :: "address option \<Rightarrow> bool" where
  "address_ok m \<longleftrightarrow> (\<forall>a. m = Some a \<longrightarrow> snd a \<noteq> 0)"

lemma delete_lookup [alist_simps, simp]: "map_of (AList.delete k m) k' = (if k' = k then None else map_of m k')"
  by (simp add: delete_conv')

lemma upsert_lookup:
  "map_of (fst (upsert manifest a ttl now slots)) n =
     (if n = nm_node_name manifest
      then Some \<lparr>sl_manifest = manifest, sl_monitor_actor = a, sl_expires_at = lease ttl now,
                 sl_monitor_node = (case a of None \<Rightarrow> 0 | Some a \<Rightarrow> fst a), sl_monitor_id = (case a of None \<Rightarrow> 0 | Some a \<Rightarrow> snd a)\<rparr>
      else map_of slots n)"
  by (simp add: upsert_def Let_def)

lemma touch_lookup:
  "map_of (fst (touch k ttl now slots)) n =
     (if n = k then map_option (\<lambda>s. s\<lparr>sl_expires_at := lease ttl now\<rparr>) (map_of slots n) else map_of slots n)"
  by (auto simp: touch_def split: option.splits)

lemma erase_lookup: "map_of (fst (erase k d slots)) n = (if n = k then None else map_of slots n)"
  by (auto simp: erase_def split: option.splits)

lemma erase_names_lookup: "map_of (fst (erase_names names slots)) n = (if n \<in> set names then None else map_of slots n)"
proof (induction names arbitrary: slots)
  case (Cons k names)
  then show ?case using Cons.IH [of "fst (erase k True slots)"] by (simp add: Let_def case_prod_unfold erase_lookup)
qed simp

lemma prune_slots_lookup:
  assumes "keys_distinct slots"
  shows "map_of (fst (prune_slots now skip slots)) n =
    (case map_of slots n of None \<Rightarrow> None | Some s \<Rightarrow> if \<not> skip (sl_manifest s) \<and> is_expired now s then None else Some s)"
proof -
  have "n \<in> set (map fst (filter (\<lambda>(name, s). \<not> skip (sl_manifest s) \<and> is_expired now s) slots)) \<longleftrightarrow>
      (\<exists>s. map_of slots n = Some s \<and> \<not> skip (sl_manifest s) \<and> is_expired now s)"
    using assms by (force simp: map_of_eq_Some_iff)
  then show ?thesis unfolding prune_slots_def erase_names_lookup by (auto split: option.splits)
qed

lemma erase_by_monitor_cases:
  assumes "keys_distinct slots"
  obtains "fst (erase_by_monitor source slots) = slots" "\<And>k s. (k, s) \<in> set slots \<Longrightarrow> \<not> matches_monitor source s"
  | k s where "map_of slots k = Some s" "matches_monitor source s" "fst (erase_by_monitor source slots) = AList.delete k slots"
proof (cases "find (\<lambda>(name, s). matches_monitor source s) slots")
  case None
  then have "fst (erase_by_monitor source slots) = slots" by (simp add: erase_by_monitor_def)
  then show ?thesis using that(1) None by (auto simp: find_None_iff)
next
  case (Some ks)
  obtain k s where ks: "ks = (k, s)" by fastforce
  then have "(k, s) \<in> set slots" "matches_monitor source s" using Some by (auto simp: find_Some_iff) (metis nth_mem)
  then show ?thesis using that(2) [of k s] assms Some ks by (simp add: erase_by_monitor_def erase_def)
qed

lemma erase_by_monitor_lookup:
  assumes "keys_distinct slots" "map_of slots n = Some s" "\<not> matches_monitor source s"
  shows "map_of (fst (erase_by_monitor source slots)) n = Some s"
  using assms(1)
proof (cases rule: erase_by_monitor_cases [of slots source])
  case (2 k t)
  then have "k \<noteq> n" using assms(2,3) by auto
  then show ?thesis using 2 assms(2) by simp
qed (use assms in auto)

lemma keys_distinct_erase [simp]: "keys_distinct slots \<Longrightarrow> keys_distinct (fst (erase k d slots))"
  by (simp add: erase_def distinct_delete split: option.splits)

lemma keys_distinct_erase_names [simp]: "keys_distinct slots \<Longrightarrow> keys_distinct (fst (erase_names names slots))"
  by (induction names arbitrary: slots) (simp_all add: Let_def case_prod_unfold)

lemma slots_ok_prune:
  assumes "slots_ok slots"
  shows "slots_ok (fst (prune_slots now skip slots))"
proof -
  have "keys_distinct slots" using assms by (simp add: slots_ok_def)
  then show ?thesis
    using assms unfolding slots_ok_def prune_slots_lookup [OF \<open>keys_distinct slots\<close>]
    by (auto simp: prune_slots_def split: option.splits if_splits)
qed

lemma slots_ok_upsert: "slots_ok slots \<Longrightarrow> address_ok a \<Longrightarrow> slots_ok (fst (upsert manifest a ttl now slots))"
  unfolding slots_ok_def upsert_lookup
  by (auto simp: upsert_def Let_def slot_ok_def address_ok_def split: option.splits)

lemma slot_ok_renew [simp]: "slot_ok name (s\<lparr>sl_expires_at := d\<rparr>) = slot_ok name s"
  by (simp add: slot_ok_def)

lemma slots_ok_touch: "slots_ok slots \<Longrightarrow> slots_ok (fst (touch k ttl now slots))"
proof -
  have "keys_distinct slots \<Longrightarrow> keys_distinct (fst (touch k ttl now slots))" by (auto simp: touch_def split: option.splits)
  then show "slots_ok slots \<Longrightarrow> slots_ok (fst (touch k ttl now slots))" unfolding slots_ok_def touch_lookup by (auto split: if_splits)
qed

lemma slots_ok_erase: "slots_ok slots \<Longrightarrow> slots_ok (fst (erase k d slots))"
  unfolding slots_ok_def erase_lookup by auto

lemma slots_ok_erase_by_monitor: "slots_ok slots \<Longrightarrow> slots_ok (fst (erase_by_monitor source slots))"
  by (auto simp: erase_by_monitor_def slots_ok_erase split: option.splits)

section \<open>The lease contract\<close>

text \<open>\<open>d\<close> has not passed at the time \<open>now\<close>; \<open>d\<close> is not later than \<open>d'\<close>.\<close>

definition pending_at :: "int \<Rightarrow> deadline \<Rightarrow> bool" where
  "pending_at now d = (case d of None \<Rightarrow> True | Some t \<Rightarrow> now < t)"

definition not_later :: "deadline \<Rightarrow> deadline \<Rightarrow> bool" where
  "not_later d d' = (case d' of None \<Rightarrow> True | Some t' \<Rightarrow> (case d of None \<Rightarrow> False | Some t \<Rightarrow> t \<le> t'))"

lemma not_later_trans: "not_later d d' \<Longrightarrow> not_later d' d'' \<Longrightarrow> not_later d d''"
  by (auto simp: not_later_def split: option.splits)

lemma pending_not_later: "pending_at now d \<Longrightarrow> not_later d d' \<Longrightarrow> pending_at now d'"
  by (auto simp: pending_at_def not_later_def split: option.splits)

fun run_steps :: "('e \<Rightarrow> int \<Rightarrow> 's \<Rightarrow> 's) \<Rightarrow> ('e \<times> int) list \<Rightarrow> 's \<Rightarrow> 's" where
  "run_steps step [] st = st"
| "run_steps step ((e, now) # es) st = run_steps step es (step e now st)"

fun spares :: "('e \<Rightarrow> int \<Rightarrow> 's \<Rightarrow> 's) \<Rightarrow> ('e \<Rightarrow> 's \<Rightarrow> bool) \<Rightarrow> ('e \<times> int) list \<Rightarrow> 's \<Rightarrow> bool" where
  "spares step evicts [] st \<longleftrightarrow> True"
| "spares step evicts ((e, now) # es) st \<longleftrightarrow> \<not> evicts e st \<and> spares step evicts es (step e now st)"

text \<open>
  A service that grants leases: \<open>lookup\<close> gives the deadline of a member, \<open>evicts\<close> says which events end a membership at once,
  and \<open>valid t\<close> is the invariant of a state whose last event was at the time \<open>t\<close>.
\<close>

locale lease_service =
  fixes step :: "'e \<Rightarrow> int \<Rightarrow> 's \<Rightarrow> 's" and lookup :: "'s \<Rightarrow> 'n \<Rightarrow> deadline option"
    and evicts :: "'n \<Rightarrow> 'e \<Rightarrow> 's \<Rightarrow> bool" and valid :: "int \<Rightarrow> 's \<Rightarrow> bool" and admissible :: "'e \<Rightarrow> bool"
  assumes valid_step: "valid t st \<Longrightarrow> t \<le> now \<Longrightarrow> admissible e \<Longrightarrow> valid now (step e now st)"
    and step_keeps: "valid t st \<Longrightarrow> t \<le> now \<Longrightarrow> admissible e \<Longrightarrow> lookup st n = Some d \<Longrightarrow> pending_at now d \<Longrightarrow> \<not> evicts n e st \<Longrightarrow>
      \<exists>d'. lookup (step e now st) n = Some d' \<and> not_later d d'"
begin

lemma valid_run:
  "valid t st \<Longrightarrow> sorted (t # map snd es) \<Longrightarrow> \<forall>(e, now) \<in> set es. admissible e \<Longrightarrow> valid (last (t # map snd es)) (run_steps step es st)"
proof (induction es arbitrary: t st)
  case (Cons x es)
  obtain e now where x: "x = (e, now)" by fastforce
  have "valid now (step e now st)" using Cons.prems x by (intro valid_step) auto
  then show ?case using Cons.IH [of now "step e now st"] Cons.prems x by auto
qed simp

lemma lease_kept:
  assumes "valid t st" "sorted (t # map snd es)" "\<forall>(e, now) \<in> set es. admissible e \<and> pending_at now d" "lookup st n = Some d"
    "spares step (evicts n) es st"
  shows "\<exists>d'. lookup (run_steps step es st) n = Some d' \<and> not_later d d'"
proof -
  have "\<exists>d''. lookup (run_steps step es st) n = Some d'' \<and> not_later d d''"
    if "valid t st" "sorted (t # map snd es)" "\<forall>(e, now) \<in> set es. admissible e \<and> pending_at now d" "lookup st n = Some d'" "not_later d d'"
      "spares step (evicts n) es st" for t st d'
    using that
  proof (induction es arbitrary: t st d')
    case (Cons x es)
    obtain e now where x: "x = (e, now)" by fastforce
    have "pending_at now d'" using Cons.prems x pending_not_later by auto
    then obtain d1 where d1: "lookup (step e now st) n = Some d1" "not_later d' d1"
      using step_keeps [of t st now e n d'] Cons.prems x by auto
    have "valid now (step e now st)" using Cons.prems x by (intro valid_step [of t]) auto
    moreover have "not_later d d1" using Cons.prems(5) d1(2) by (rule not_later_trans)
    moreover have "sorted (now # map snd es)" "\<forall>(e, now) \<in> set es. admissible e \<and> pending_at now d"
      "spares step (evicts n) es (step e now st)" using Cons.prems x by simp_all
    ultimately show ?case using Cons.IH [of now "step e now st" d1] d1(1) x by simp
  qed auto
  moreover have "not_later d d" by (simp add: not_later_def split: option.split)
  ultimately show ?thesis using assms by simp
qed

end

section \<open>The master honours the contract\<close>

abbreviation master_next :: "request \<Rightarrow> int \<Rightarrow> master \<Rightarrow> master" where
  "master_next e now st \<equiv> fst (master_step e now st)"

definition master_lookup :: "master \<Rightarrow> string \<Rightarrow> deadline option" where
  "master_lookup st n = map_option sl_expires_at (map_of (ms_nodes st) n)"

text \<open>The events that end a membership at once: the member's unregistration, and the end of its monitor.\<close>

definition master_evicts :: "string \<Rightarrow> request \<Rightarrow> master \<Rightarrow> bool" where
  "master_evicts n e st = (case e of
       Node_unregister m \<Rightarrow> m = n
     | Down source \<Rightarrow> \<exists>s. map_of (ms_nodes st) n = Some s \<and> matches_monitor source s
     | _ \<Rightarrow> False)"

definition request_ok :: "request \<Rightarrow> bool" where
  "request_ok e = (case e of Node_register manifest a \<Rightarrow> address_ok a | _ \<Rightarrow> True)"

definition lease_bound :: "int \<Rightarrow> int \<Rightarrow> slot \<Rightarrow> bool" where
  "lease_bound ttl t s \<longleftrightarrow> (if ttl > 0 then \<exists>d \<le> t + ttl. sl_expires_at s = Some d else sl_expires_at s = None)"

definition master_ok :: "int \<Rightarrow> master \<Rightarrow> bool" where
  "master_ok t st \<longleftrightarrow> slots_ok (ms_nodes st) \<and> (\<forall>n s. map_of (ms_nodes st) n = Some s \<longrightarrow> lease_bound (ms_lease_ttl st) t s)"

lemma lease_bound_mono: "lease_bound ttl t s \<Longrightarrow> t \<le> t' \<Longrightarrow> lease_bound ttl t' s"
  by (auto simp: lease_bound_def split: if_splits)

lemma master_ok_mono: "master_ok t st \<Longrightarrow> t \<le> t' \<Longrightarrow> master_ok t' st"
  unfolding master_ok_def using lease_bound_mono by blast

definition stays :: "int \<Rightarrow> int \<Rightarrow> slot \<Rightarrow> bool" where
  "stays ttl now s \<longleftrightarrow> ttl = 0 \<or> nm_kind (sl_manifest s) = Kind_master \<or> \<not> is_expired now s"

lemma prune_expired_lookup:
  assumes "slots_ok (ms_nodes st)"
  shows "map_of (ms_nodes (fst (prune_expired now st))) n =
      (case map_of (ms_nodes st) n of None \<Rightarrow> None | Some s \<Rightarrow> if stays (ms_lease_ttl st) now s then Some s else None)"
    "ms_lease_ttl (fst (prune_expired now st)) = ms_lease_ttl st" "slots_ok (ms_nodes (fst (prune_expired now st)))"
proof -
  have d: "keys_distinct (ms_nodes st)" using assms by (simp add: slots_ok_def)
  show "map_of (ms_nodes (fst (prune_expired now st))) n =
      (case map_of (ms_nodes st) n of None \<Rightarrow> None | Some s \<Rightarrow> if stays (ms_lease_ttl st) now s then Some s else None)"
    by (auto simp: prune_expired_def case_prod_unfold Let_def prune_slots_lookup [OF d] stays_def split: option.splits)
  show "ms_lease_ttl (fst (prune_expired now st)) = ms_lease_ttl st" "slots_ok (ms_nodes (fst (prune_expired now st)))"
    using assms slots_ok_prune by (simp_all add: prune_expired_def case_prod_unfold Let_def)
qed

lemma master_ok_prune: "master_ok t st \<Longrightarrow> master_ok t (fst (prune_expired now st))"
  unfolding master_ok_def using prune_expired_lookup [of st now] by (auto split: option.splits if_splits)

lemma lease_bound_lease: "sl_expires_at s = lease ttl now \<Longrightarrow> lease_bound ttl now s"
  by (auto simp: lease_bound_def lease_def)

text \<open>Every handler prunes first, or changes at most one slot.\<close>

lemma master_next_cases:
  "master_next e now st =
     (case e of
        Node_register m a \<Rightarrow> (let st = fst (prune_expired now st) in st\<lparr>ms_nodes := fst (upsert m a (ms_lease_ttl st) now (ms_nodes st))\<rparr>)
      | Node_heartbeat n \<Rightarrow> (let st = fst (prune_expired now st) in st\<lparr>ms_nodes := fst (touch n (ms_lease_ttl st) now (ms_nodes st))\<rparr>)
      | Node_unregister n \<Rightarrow> st\<lparr>ms_nodes := fst (erase n True (ms_nodes st))\<rparr>
      | Down source \<Rightarrow> st\<lparr>ms_nodes := fst (erase_by_monitor source (ms_nodes st))\<rparr>
      | _ \<Rightarrow> fst (prune_expired now st))"
  by (cases e) (simp_all add: on_register_def on_heartbeat_def on_unregister_def with_pruned_def Let_def case_prod_unfold)

lemma master_ok_step:
  assumes "master_ok t st" "t \<le> now" "request_ok e"
  shows "master_ok now (master_next e now st)"
proof -
  let ?p = "fst (prune_expired now st)"
  have st: "master_ok now st" using assms(1,2) by (rule master_ok_mono)
  have p: "master_ok now ?p" using st by (rule master_ok_prune)
  note ok = st [unfolded master_ok_def] p [unfolded master_ok_def]
  have "master_ok now (?p\<lparr>ms_nodes := fst (upsert m a (ms_lease_ttl ?p) now (ms_nodes ?p))\<rparr>)" if "address_ok a" for m a
    unfolding master_ok_def using ok slots_ok_upsert [OF _ that] lease_bound_lease by (auto simp: upsert_lookup)
  moreover have "master_ok now (?p\<lparr>ms_nodes := fst (touch n (ms_lease_ttl ?p) now (ms_nodes ?p))\<rparr>)" for n
    unfolding master_ok_def using ok slots_ok_touch lease_bound_lease by (auto simp: touch_lookup)
  moreover have "master_ok now (st\<lparr>ms_nodes := fst (erase n True (ms_nodes st))\<rparr>)" for n
    unfolding master_ok_def using ok slots_ok_erase by (auto simp: erase_lookup)
  moreover have "master_ok now (st\<lparr>ms_nodes := fst (erase_by_monitor source (ms_nodes st))\<rparr>)" for source
  proof -
    have "keys_distinct (ms_nodes st)" using ok(1) by (simp add: slots_ok_def)
    then have "lease_bound (ms_lease_ttl st) now s" if "map_of (fst (erase_by_monitor source (ms_nodes st))) n = Some s" for n s
      using ok(1) that by (cases rule: erase_by_monitor_cases [of "ms_nodes st" source]) (auto split: if_splits)
    then show ?thesis unfolding master_ok_def using ok(1) slots_ok_erase_by_monitor [of "ms_nodes st" source] by simp
  qed
  ultimately show ?thesis using assms(3) p unfolding master_next_cases by (cases e) (auto simp: request_ok_def Let_def)
qed

lemma master_step_keeps:
  assumes ok: "master_ok t st" and t: "t \<le> now" and s: "map_of (ms_nodes st) n = Some s"
    and p: "pending_at now (sl_expires_at s)" and "\<not> master_evicts n e st"
  shows "\<exists>s'. map_of (ms_nodes (master_next e now st)) n = Some s' \<and> not_later (sl_expires_at s) (sl_expires_at s')"
proof -
  let ?p = "fst (prune_expired now st)"
  have slots: "slots_ok (ms_nodes st)" using ok by (simp add: master_ok_def)
  have "stays (ms_lease_ttl st) now s" using p by (auto simp: stays_def is_expired_def pending_at_def split: option.splits)
  then have ps: "map_of (ms_nodes ?p) n = Some s" "ms_lease_ttl ?p = ms_lease_ttl st"
    using s prune_expired_lookup [OF slots] by simp_all
  have renew: "not_later (sl_expires_at s) (lease (ms_lease_ttl st) now)"
  proof -
    have "lease_bound (ms_lease_ttl st) t s" using ok s by (simp add: master_ok_def)
    then show ?thesis using t by (auto simp: lease_bound_def lease_def not_later_def split: if_splits)
  qed
  have refl: "not_later (sl_expires_at s) (sl_expires_at s)" by (simp add: not_later_def split: option.split)
  show ?thesis
  proof (cases e)
    case (Down source)
    then have "\<not> matches_monitor source s" using assms(5) s by (auto simp: master_evicts_def)
    then show ?thesis
      using Down s slots refl erase_by_monitor_lookup [of "ms_nodes st" n s source] by (auto simp: slots_ok_def)
  qed (use assms(5) s ps renew refl in \<open>auto simp: master_next_cases upsert_lookup touch_lookup erase_lookup master_evicts_def Let_def simp del: master_step.simps\<close>)
qed

interpretation master: lease_service master_next master_lookup master_evicts master_ok request_ok
proof unfold_locales
  show "master_ok now (master_next e now st)" if "master_ok t st" "t \<le> now" "request_ok e" for t st now e
    using that by (rule master_ok_step)
  show "\<exists>d'. master_lookup (master_next e now st) n = Some d' \<and> not_later d d'"
    if "master_ok t st" "t \<le> now" "request_ok e" "master_lookup st n = Some d" "pending_at now d" "\<not> master_evicts n e st" for t st now e n d
    using that master_step_keeps [of t st now n _ e] by (auto simp: master_lookup_def)
qed

lemma master_ok_init: "master_ok t (fst (master_init m ttl t))"
proof -
  have "slots_ok (fst (upsert m None ttl t []))" by (rule slots_ok_upsert) (simp_all add: slots_ok_def address_ok_def)
  then show ?thesis
    by (auto simp: master_ok_def master_init_def case_prod_unfold Let_def upsert_lookup lease_bound_lease)
qed

section \<open>Monitors\<close>

definition held :: "slots \<Rightarrow> address \<Rightarrow> int" where
  "held slots a = int (length (filter (\<lambda>(n, s). sl_monitor_actor s = Some a) slots))"

definition net :: "address \<Rightarrow> action list \<Rightarrow> int" where
  "net a as = int (length (filter (\<lambda>x. x = Monitor a) as)) - int (length (filter (\<lambda>x. x = Demonitor a) as))"

lemma net_simps [simp]:
  "net a [] = 0" "net a (as @ bs) = net a as + net a bs"
  "net a (Monitor b # as) = (if a = b then 1 else 0) + net a as" "net a (Demonitor b # as) = net a as - (if a = b then 1 else 0)"
  "net a (Schedule_tick # as) = net a as"
  by (auto simp: net_def)

definition slot_holds :: "address \<Rightarrow> slot option \<Rightarrow> int" where
  "slot_holds a s = (case s of Some s \<Rightarrow> if sl_monitor_actor s = Some a then 1 else 0 | None \<Rightarrow> 0)"

lemma held_absent: "k \<notin> fst ` set slots \<Longrightarrow> map_of slots k = None"
  by (simp add: map_of_eq_None_iff)

lemma held_update: "keys_distinct slots \<Longrightarrow> held (AList.update k s slots) a = held slots a - slot_holds a (map_of slots k) + slot_holds a (Some s)"
  by (induction slots) (auto simp: held_def slot_holds_def)

lemma held_delete: "keys_distinct slots \<Longrightarrow> held (AList.delete k slots) a = held slots a - slot_holds a (map_of slots k)"
proof (induction slots)
  case (Cons x slots)
  obtain n s where x: "x = (n, s)" by fastforce
  show ?case
  proof (cases "n = k")
    case True
    then have "AList.delete k slots = slots" using Cons.prems x by (auto simp: delete_idem)
    then show ?thesis using True x by (auto simp: held_def slot_holds_def)
  next
    case False
    then show ?thesis using Cons x by (auto simp: held_def)
  qed
qed (simp add: held_def slot_holds_def)

lemma upsert_balance:
  "keys_distinct slots \<Longrightarrow> held (fst (upsert m b ttl now slots)) a = held slots a + net a (snd (upsert m b ttl now slots))"
  by (auto simp: upsert_def Let_def held_update slot_holds_def split: option.splits)

lemma touch_balance: "keys_distinct slots \<Longrightarrow> held (fst (touch n ttl now slots)) a = held slots a"
  by (auto simp: touch_def held_update slot_holds_def split: option.splits)

lemma erase_balance: "keys_distinct slots \<Longrightarrow> held (fst (erase n True slots)) a = held slots a + net a (fst (snd (erase n True slots)))"
  by (auto simp: erase_def held_delete slot_holds_def split: option.splits)

lemma erase_names_balance:
  "keys_distinct slots \<Longrightarrow> held (fst (erase_names names slots)) a = held slots a + net a (snd (erase_names names slots))"
proof (induction names arbitrary: slots)
  case (Cons n names)
  have "keys_distinct (fst (erase n True slots))" using Cons.prems by simp
  from Cons.IH [OF this] erase_balance [OF Cons.prems, of n a] show ?case by (simp add: Let_def case_prod_unfold)
qed simp

lemma prune_balance:
  assumes "slots_ok (ms_nodes st)"
  shows "held (ms_nodes (fst (prune_expired now st))) a = held (ms_nodes st) a + net a (snd (prune_expired now st))"
  using assms by (simp add: prune_expired_def prune_slots_def Let_def case_prod_unfold erase_names_balance slots_ok_def)

lemma held_pos: "0 < held slots a \<longleftrightarrow> (\<exists>n s. (n, s) \<in> set slots \<and> sl_monitor_actor s = Some a)"
  by (auto simp: held_def filter_empty_conv)

lemma down_balance:
  assumes "slots_ok slots"
  shows "held (fst (erase_by_monitor source slots)) a = held slots a - (if a = source \<and> 0 < held slots a then 1 else 0)"
proof -
  have d: "keys_distinct slots" using assms by (simp add: slots_ok_def)
  have m: "matches_monitor source s \<longleftrightarrow> sl_monitor_actor s = Some source" if "(n, s) \<in> set slots" for n s
  proof -
    have "slot_ok n s" using assms that d by (auto simp: slots_ok_def)
    then show ?thesis by (cases "sl_monitor_actor s"; cases source) (auto simp: slot_ok_def matches_monitor_def)
  qed
  show ?thesis using d
  proof (cases rule: erase_by_monitor_cases [of slots source])
    case 1
    then show ?thesis using m held_pos [of slots source] by auto
  next
    case (2 k s)
    then have s: "(k, s) \<in> set slots" by (simp add: map_of_SomeD)
    then have mon: "sl_monitor_actor s = Some source" using m 2(2) by blast
    then have "0 < held slots source" using held_pos s by blast
    then show ?thesis using 2 held_delete [OF d, of k a] mon by (auto simp: slot_holds_def)
  qed
qed

section \<open>Queries\<close>

lemma manifests_set: "keys_distinct slots \<Longrightarrow> set (manifests slots) = {sl_manifest s | n s. map_of slots n = Some s}"
  by (auto simp: manifests_def)

lemma manifests_distinct: "slots_ok slots \<Longrightarrow> distinct (map nm_node_name (manifests slots))"
proof -
  assume ok: "slots_ok slots"
  then have "\<forall>(n, s) \<in> set slots. nm_node_name (sl_manifest s) = n" by (auto simp: slots_ok_def slot_ok_def)
  then have "map nm_node_name (manifests slots) = map fst slots" by (auto simp: manifests_def)
  then show ?thesis using ok by (simp add: slots_ok_def)
qed

lemma pruned_manifests:
  assumes "slots_ok (ms_nodes st)"
  shows "set (manifests (ms_nodes (fst (prune_expired now st)))) =
    {sl_manifest s | n s. map_of (ms_nodes st) n = Some s \<and> stays (ms_lease_ttl st) now s}"
proof -
  have "keys_distinct (ms_nodes (fst (prune_expired now st)))" using prune_expired_lookup(3) [OF assms] by (simp add: slots_ok_def)
  from manifests_set [OF this] show ?thesis
    using prune_expired_lookup(1) [OF assms] by (auto split: option.splits if_splits)
qed

definition demo_master :: node_manifest where
  "demo_master = \<lparr>nm_kind = Kind_master, nm_node_name = ''m'', nm_host = ''h'', nm_port = 1, nm_parent = [], nm_exported_actors = []\<rparr>"

definition demo_worker :: node_manifest where
  "demo_worker = \<lparr>nm_kind = Kind_worker, nm_node_name = ''w'', nm_host = ''h'', nm_port = 2, nm_parent = ''m'', nm_exported_actors = [''chat'']\<rparr>"

lemmas master_exec = demo_master_def demo_worker_def master_init_def on_register_def on_heartbeat_def prune_expired_def prune_slots_def
  upsert_def touch_def erase_def lease_def is_expired_def contains_def with_pruned_def Let_def

section \<open>Properties\<close>

text \<open>C32. A lease holds: take any run of the master, and a member with the deadline \<open>d\<close> in the state it reaches.  Whatever requests
  follow before \<open>d\<close>, except the unregistration of this member or the end of its monitor, the member is still registered
  after them, with a deadline that is not earlier.\<close>

theorem lease_respected:
  assumes "st = run_steps master_next pre (fst (master_init self_manifest ttl start))" "sorted (start # map snd pre @ map snd es)"
    "\<forall>(e, now) \<in> set (pre @ es). request_ok e" "map_of (ms_nodes st) n = Some s" "\<forall>(e, now) \<in> set es. pending_at now (sl_expires_at s)"
    "spares master_next (master_evicts n) es st"
  shows "\<exists>s'. map_of (ms_nodes (run_steps master_next es st)) n = Some s' \<and> not_later (sl_expires_at s) (sl_expires_at s')"
proof -
  let ?t = "last (start # map snd pre)"
  have "sorted ((butlast (start # map snd pre) @ [?t]) @ map snd es)"
    using assms(2) by (subst append_butlast_last_id) simp_all
  then have s2: "sorted (?t # map snd es)" by (simp add: sorted_append)
  have "sorted (start # map snd pre)" using assms(2) by (simp add: sorted_append)
  then have "master_ok ?t st"
    unfolding assms(1) using assms(3) by (intro master.valid_run master_ok_init) auto
  moreover have "\<forall>(e, now) \<in> set es. request_ok e \<and> pending_at now (sl_expires_at s)" using assms(3,5) by auto
  ultimately show ?thesis
    using master.lease_kept [of ?t st es "sl_expires_at s" n] s2 assms(4,6) by (auto simp: master_lookup_def)
qed

theorem lease_respected_witness:
  "\<exists>s'. map_of (ms_nodes (run_steps master_next [(Node_heartbeat ''w'', 5), (Node_topology, 10)]
      (run_steps master_next [(Node_register demo_worker None, 1)] (fst (master_init demo_master 10 0))))) ''w'' = Some s' \<and>
    not_later (Some 11) (sl_expires_at s')"
proof -
  let ?pre = "[(Node_register demo_worker None, 1 :: int)]" and ?es = "[(Node_heartbeat ''w'', 5 :: int), (Node_topology, 10)]"
  let ?st = "run_steps master_next ?pre (fst (master_init demo_master 10 0))"
  let ?s = "\<lparr>sl_manifest = demo_worker, sl_monitor_actor = None, sl_expires_at = Some 11, sl_monitor_node = 0, sl_monitor_id = 0\<rparr>"
  have "ms_nodes ?st = [(''m'', \<lparr>sl_manifest = demo_master, sl_monitor_actor = None, sl_expires_at = Some 10, sl_monitor_node = 0, sl_monitor_id = 0\<rparr>), (''w'', ?s)]"
    by (simp add: master_exec)
  then have "map_of (ms_nodes ?st) ''w'' = Some ?s" by simp
  then show ?thesis
    using lease_respected [OF refl, where start = 0 and pre = ?pre and es = ?es and n = "''w''" and self_manifest = demo_master and ttl = 10 and s = ?s]
    by (simp add: request_ok_def address_ok_def pending_at_def master_evicts_def del: master_step.simps)
qed

text \<open>Queries are exact: the topology lists, sorted by name and without duplicates, exactly the manifests of the members whose
  lease has not passed (the master itself is exempt), and resolving a service returns exactly the routes to the members of these that
  export it, or an error when there is none.\<close>

theorem queries_exact:
  assumes "master_ok t st" "t \<le> now"
  shows "(\<exists>ms. snd (snd (master_step Node_topology now st)) = Topology ms \<and> sorted (map nm_node_name ms) \<and> distinct (map nm_node_name ms) \<and>
      set ms = {sl_manifest s | n s. map_of (ms_nodes st) n = Some s \<and> stays (ms_lease_ttl st) now s}) \<and>
    (case snd (snd (master_step (Service_resolve svc) now st)) of
       Service_route rs \<Rightarrow> rs \<noteq> [] \<and> set rs = {make_route (sl_manifest s) svc | n s.
           map_of (ms_nodes st) n = Some s \<and> stays (ms_lease_ttl st) now s \<and> svc \<in> set (nm_exported_actors (sl_manifest s))}
     | No_such_key \<Rightarrow> \<forall>n s. map_of (ms_nodes st) n = Some s \<and> stays (ms_lease_ttl st) now s \<longrightarrow> svc \<notin> set (nm_exported_actors (sl_manifest s))
     | _ \<Rightarrow> False)" (is "?topology \<and> ?service")
proof
  have ok: "slots_ok (ms_nodes st)" using assms by (simp add: master_ok_def)
  let ?slots = "ms_nodes (fst (prune_expired now st))"
  note set = pruned_manifests [OF ok, of now]
  have "distinct (map nm_node_name (sort_key nm_node_name (manifests ?slots)))"
    using manifests_distinct [OF prune_expired_lookup(3) [OF ok]] by (simp add: distinct_map)
  then show ?topology using set by (simp add: with_pruned_def case_prod_unfold sort_manifests_def Let_def)
  let ?es = "filter (\<lambda>m. svc \<in> set (nm_exported_actors m)) (manifests ?slots)"
  have eq: "snd (snd (master_step (Service_resolve svc) now st)) =
      (if ?es = [] then No_such_key else Service_route (map (\<lambda>m. make_route m svc) ?es))"
    by (simp add: with_pruned_def case_prod_unfold resolve_service_def Let_def)
  show ?service
  proof (cases "?es = []")
    case True
    then show ?thesis unfolding eq using set by (auto simp: filter_empty_conv)
  next
    case False
    then show ?thesis unfolding eq if_not_P [OF False] using set by auto
  qed
qed

text \<open>Monitors balance: the number of slots that hold a monitor changes by exactly the monitors the handler starts minus those it
  ends, and a down message, which uses up one monitor, removes one slot; so the table and the actor's monitors never diverge.\<close>

theorem monitors_balanced:
  assumes "master_ok t st"
  shows "held (ms_nodes (fst (master_step e now st))) a =
    held (ms_nodes st) a + net a (fst (snd (master_step e now st))) - (if e = Down a \<and> 0 < held (ms_nodes st) a then 1 else 0)"
proof -
  have ok: "slots_ok (ms_nodes st)" and ok': "slots_ok (ms_nodes (fst (prune_expired now st)))"
    using assms prune_expired_lookup(3) by (auto simp: master_ok_def)
  then have d: "keys_distinct (ms_nodes st)" "keys_distinct (ms_nodes (fst (prune_expired now st)))" by (simp_all add: slots_ok_def)
  note facts = prune_balance [OF ok, of now a] upsert_balance [OF d(2)] touch_balance [OF d(2)] erase_balance [OF d(1)] down_balance [OF ok]
  show ?thesis
    by (cases e) (auto simp: facts on_register_def on_heartbeat_def on_unregister_def with_pruned_def Let_def case_prod_unfold)
qed

end
