(* ===== verification/Service_Registry.thy ===== *)
theory Service_Registry
  imports Prelude "HOL-Library.Sublist"
begin

text \<open>
  Services and their proxies (\<^verbatim>\<open>src/core/service_registry.cpp\<close>).  Callers hold a proxy: it forwards calls to the current
  implementation, enforces the access list, and during a hot reload buffers calls until the new implementation takes over.
  The registry keeps one proxy per service name and mirrors it in the actor registry of CAF.  An actor handler is a function
  from the state to the new state, the effects on other actors and the result it returns.  The theory shows that a hot reload
  neither loses nor reorders calls, that every request is answered once, that the access list holds, and that the tables of
  the registry agree.
\<close>

section \<open>The service proxy\<close>

text \<open>The content of a message is opaque to the proxy.  \<open>cl_mid\<close> is the id of a request, \<open>None\<close> for a plain send; \<open>cl_sender\<close> is
  \<open>None\<close> for an anonymous one.  A promise keeps the sender and the id of its request.\<close>

type_synonym message = string
type_synonym promise = "address option \<times> nat"

record call =
  cl_msg :: message
  cl_sender :: "address option"
  cl_mid :: "nat option"

record buffered =
  bf_msg :: message
  bf_from :: "address option"
  bf_promise :: "promise option"

record proxy =
  px_current :: "address option"
  px_version :: int
  px_restricted :: bool
  px_allowed :: "address option list"
  px_allow_cross_node :: bool
  px_paused :: bool
  px_buffered :: "buffered list"
  px_alive :: bool

text \<open>\<open>Delegate t m s i\<close> hands the message to \<open>t\<close> on behalf of the sender \<open>s\<close>, who gets the response to the request \<open>i\<close>.\<close>

datatype proxy_effect =
    Delegate address message "address option" "nat option"
  | Deliver_error "address option" nat string
  | Monitor_target address
  | Quit_proxy

datatype handler_result =
    Error_result string
  | Delegated_result
  | Empty_message
  | Bool_result bool
  | Void_result

definition acl_error :: string where
  "acl_error = ''ACL: sender not trusted''"

definition spawn_service_proxy :: "address \<Rightarrow> bool \<Rightarrow> proxy \<times> proxy_effect list" where
  "spawn_service_proxy initial_target allow_cross_node =
     (\<lparr>px_current = Some initial_target, px_version = 1, px_restricted = False, px_allowed = [],
       px_allow_cross_node = allow_cross_node, px_paused = False, px_buffered = [], px_alive = True\<rparr>,
      [Monitor_target initial_target])"

definition trusted :: "nat \<Rightarrow> proxy \<Rightarrow> address option \<Rightarrow> bool" where
  "trusted node st from \<longleftrightarrow> from \<in> set (px_allowed st) \<or>
     (px_allow_cross_node st \<and> (case from of None \<Rightarrow> False | Some a \<Rightarrow> fst a \<noteq> node))"

definition default_handler :: "nat \<Rightarrow> call \<Rightarrow> proxy \<Rightarrow> proxy \<times> proxy_effect list \<times> handler_result" where
  "default_handler node c st =
     (case px_current st of
        None \<Rightarrow> (st, [], Error_result [])
      | Some current \<Rightarrow>
          if px_paused st then
            (case cl_mid c of
               Some mid \<Rightarrow>
                 (st\<lparr>px_buffered := px_buffered st @ [\<lparr>bf_msg = cl_msg c, bf_from = cl_sender c, bf_promise = Some (cl_sender c, mid)\<rparr>]\<rparr>,
                  [], Delegated_result)
             | None \<Rightarrow>
                 (st\<lparr>px_buffered := px_buffered st @ [\<lparr>bf_msg = cl_msg c, bf_from = cl_sender c, bf_promise = None\<rparr>]\<rparr>,
                  [], Empty_message))
          else if px_restricted st \<and> \<not> trusted node st (cl_sender c) then (st, [], Error_result acl_error)
          else (st, [Delegate current (cl_msg c) (cl_sender c) (cl_mid c)], Delegated_result))"

definition proxy_down :: "address \<Rightarrow> proxy \<Rightarrow> proxy \<times> proxy_effect list" where
  "proxy_down source st =
     (if px_current st = Some source then (st\<lparr>px_current := None, px_alive := False\<rparr>, [Quit_proxy]) else (st, []))"

definition set_acl :: "address option list \<Rightarrow> proxy \<Rightarrow> proxy" where
  "set_acl allowed st = st\<lparr>px_allowed := allowed, px_restricted := True\<rparr>"

definition quiesce :: "proxy \<Rightarrow> proxy" where
  "quiesce st = st\<lparr>px_paused := True\<rparr>"

text \<open>The flush of one buffered call.  A plain send goes out under the sender of the resume message that is being handled.\<close>

definition flush_one :: "proxy \<Rightarrow> address \<Rightarrow> address option \<Rightarrow> buffered \<Rightarrow> proxy_effect list" where
  "flush_one st new_target resume_sender b =
     (if px_restricted st \<and> bf_from b \<notin> set (px_allowed st) then
        (case bf_promise b of Some (s, mid) \<Rightarrow> [Deliver_error s mid acl_error] | None \<Rightarrow> [])
      else
        (case bf_promise b of
           Some (s, mid) \<Rightarrow> [Delegate new_target (bf_msg b) s (Some mid)]
         | None \<Rightarrow> [Delegate new_target (bf_msg b) resume_sender None]))"

definition resume :: "address \<Rightarrow> address option \<Rightarrow> proxy \<Rightarrow> proxy \<times> proxy_effect list" where
  "resume new_target resume_sender st =
     (let st' = st\<lparr>px_current := Some new_target, px_version := px_version st + 1, px_paused := False\<rparr>
      in (st'\<lparr>px_buffered := []\<rparr>, Monitor_target new_target # concat (map (flush_one st' new_target resume_sender) (px_buffered st'))))"

datatype proxy_event =
    Call call
  | Proxy_down address
  | Set_acl "address option list"
  | Quiesce
  | Resume address "address option"

fun proxy_handle :: "nat \<Rightarrow> proxy_event \<Rightarrow> proxy \<Rightarrow> proxy \<times> proxy_effect list \<times> handler_result" where
  "proxy_handle node (Call c) st = default_handler node c st"
| "proxy_handle node (Proxy_down source) st = (let (st, es) = proxy_down source st in (st, es, Void_result))"
| "proxy_handle node (Set_acl allowed) st = (set_acl allowed st, [], Void_result)"
| "proxy_handle node Quiesce st = (quiesce st, [], Bool_result True)"
| "proxy_handle node (Resume new_target resume_sender) st = (let (st, es) = resume new_target resume_sender st in (st, es, Void_result))"

text \<open>A proxy that has quit handles nothing more.  A step records the event with what came of it.\<close>

type_synonym proxy_record = "proxy_event \<times> proxy_effect list \<times> handler_result"

fun proxy_run :: "nat \<Rightarrow> proxy_event list \<Rightarrow> proxy \<Rightarrow> proxy \<times> proxy_record list" where
  "proxy_run node [] st = (st, [])"
| "proxy_run node (e # es) st =
     (if px_alive st
      then let (st, fx, r) = proxy_handle node e st; (st, log) = proxy_run node es st in (st, (e, fx, r) # log)
      else (st, []))"

section \<open>What a run of the proxy shows\<close>

fun calls :: "proxy_event list \<Rightarrow> call list" where
  "calls [] = []"
| "calls (Call c # es) = c # calls es"
| "calls (_ # es) = calls es"

fun delegated :: "proxy_effect list \<Rightarrow> message list" where
  "delegated [] = []"
| "delegated (Delegate t m s i # fx) = m # delegated fx"
| "delegated (_ # fx) = delegated fx"

definition delegated_log :: "proxy_record list \<Rightarrow> message list" where
  "delegated_log log = concat (map (\<lambda>(e, fx, r). delegated fx) log)"

text \<open>How often the request \<open>p\<close> (its sender and id) is passed on or refused by an effect, and by a handled event.\<close>

fun effect_answers :: "promise \<Rightarrow> proxy_effect \<Rightarrow> nat" where
  "effect_answers p (Delegate t m s (Some mid)) = (if p = (s, mid) then 1 else 0)"
| "effect_answers p (Deliver_error s mid err) = (if p = (s, mid) then 1 else 0)"
| "effect_answers p _ = 0"

fun result_answers :: "promise \<Rightarrow> proxy_event \<Rightarrow> handler_result \<Rightarrow> nat" where
  "result_answers p (Call c) (Error_result err) = (if cl_mid c = Some (snd p) \<and> cl_sender c = fst p then 1 else 0)"
| "result_answers p _ _ = 0"

definition answers :: "promise \<Rightarrow> proxy_record \<Rightarrow> nat" where
  "answers p = (\<lambda>(e, fx, r). sum_list (map (effect_answers p) fx) + result_answers p e r)"

definition is_request :: "promise \<Rightarrow> call \<Rightarrow> bool" where
  "is_request p c \<longleftrightarrow> cl_mid c = Some (snd p) \<and> cl_sender c = fst p"

definition waiting :: "promise \<Rightarrow> proxy \<Rightarrow> nat" where
  "waiting p st = length (filter (\<lambda>b. bf_promise b = Some p) (px_buffered st))"

definition proxy_ok :: "proxy \<Rightarrow> bool" where
  "proxy_ok st \<longleftrightarrow> (px_alive st \<longrightarrow> px_current st \<noteq> None) \<and> (\<not> px_paused st \<longrightarrow> px_buffered st = []) \<and>
     (\<forall>b \<in> set (px_buffered st). \<forall>s i. bf_promise b = Some (s, i) \<longrightarrow> s = bf_from b)"

lemma delegated_append [simp]: "delegated (xs @ ys) = delegated xs @ delegated ys"
  by (induction xs rule: delegated.induct) auto

lemma delegated_log_simps [simp]:
  "delegated_log [] = []" "delegated_log ((e, r) # log) = delegated (fst r) @ delegated_log log"
  by (simp_all add: delegated_log_def case_prod_unfold)

lemma spawn_ok [simp]: "proxy_ok (fst (spawn_service_proxy t x))"
  by (simp add: proxy_ok_def spawn_service_proxy_def)

lemma default_handler_cases:
  assumes "proxy_ok st" "px_alive st"
  obtains (buffers) b where "px_paused st" "bf_msg b = cl_msg c" "bf_from b = cl_sender c" "bf_promise b = map_option (Pair (cl_sender c)) (cl_mid c)"
      "fst (default_handler node c st) = st\<lparr>px_buffered := px_buffered st @ [b]\<rparr>" "fst (snd (default_handler node c st)) = []"
      "snd (snd (default_handler node c st)) \<in> {Delegated_result, Empty_message}"
  | (refuses) "\<not> px_paused st" "px_restricted st" "\<not> trusted node st (cl_sender c)" "default_handler node c st = (st, [], Error_result acl_error)"
  | (forwards) current where "\<not> px_paused st" "px_restricted st \<longrightarrow> trusted node st (cl_sender c)" "px_current st = Some current"
      "default_handler node c st = (st, [Delegate current (cl_msg c) (cl_sender c) (cl_mid c)], Delegated_result)"
proof -
  obtain current where cur: "px_current st = Some current" using assms by (auto simp: proxy_ok_def)
  show thesis
  proof (cases "px_paused st")
    case True
    then show thesis
      using cur by (intro buffers [of "\<lparr>bf_msg = cl_msg c, bf_from = cl_sender c, bf_promise = map_option (Pair (cl_sender c)) (cl_mid c)\<rparr>"])
        (auto simp: default_handler_def split: option.splits)
  next
    case False
    then show thesis
      using cur refuses forwards by (cases "px_restricted st \<and> \<not> trusted node st (cl_sender c)") (auto simp: default_handler_def)
  qed
qed

lemma proxy_handle_ok:
  assumes "proxy_ok st" "px_alive st"
  shows "proxy_ok (fst (proxy_handle node e st))"
proof (cases e)
  case (Call c)
  show ?thesis
    using assms by (cases rule: default_handler_cases [where c = c and node = node]) (use assms in \<open>auto simp: proxy_ok_def Call\<close>)
qed (use assms in \<open>auto simp: proxy_ok_def proxy_down_def set_acl_def quiesce_def resume_def Let_def case_prod_unfold\<close>)

lemma proxy_run_ok: "proxy_ok st \<Longrightarrow> proxy_ok (fst (proxy_run node es st))"
  by (induction es arbitrary: st) (auto simp: Let_def case_prod_unfold proxy_handle_ok)

lemma proxy_run_dead: "\<not> px_alive st \<Longrightarrow> proxy_run node es st = (st, [])"
  by (cases es) auto

text \<open>A run that ends with a live proxy was alive throughout.\<close>

lemma proxy_run_alive: "px_alive (fst (proxy_run node es st)) \<Longrightarrow> px_alive st"
  by (cases "px_alive st") (auto simp: proxy_run_dead)

lemma proxy_run_append:
  "proxy_run node (es @ fs) st =
     (let (st1, log) = proxy_run node es st; (st2, log') = proxy_run node fs st1 in (st2, log @ log'))"
  by (induction es arbitrary: st) (auto simp: Let_def case_prod_unfold proxy_run_dead)

section \<open>Pausing as a contract\<close>

text \<open>What the plugin manager relies on: a paused gate passes nothing on until it is resumed.\<close>

locale call_gate =
  fixes handle :: "'e \<Rightarrow> 's \<Rightarrow> 's \<times> 'f list \<times> 'r"
    and paused :: "'s \<Rightarrow> bool"
    and opens :: "'e \<Rightarrow> bool"
    and passes :: "'f \<Rightarrow> bool"
  assumes paused_kept: "paused st \<Longrightarrow> \<not> opens e \<Longrightarrow> paused (fst (handle e st))"
    and paused_silent: "paused st \<Longrightarrow> \<not> opens e \<Longrightarrow> \<forall>f \<in> set (fst (snd (handle e st))). \<not> passes f"
begin

fun gate_run :: "'e list \<Rightarrow> 's \<Rightarrow> 's \<times> 'f list" where
  "gate_run [] st = (st, [])"
| "gate_run (e # es) st = (let (st, fx, r) = handle e st; (st, fx') = gate_run es st in (st, fx @ fx'))"

lemma gate_closed:
  assumes "paused st" "\<forall>e \<in> set es. \<not> opens e"
  shows "paused (fst (gate_run es st)) \<and> (\<forall>f \<in> set (snd (gate_run es st)). \<not> passes f)"
  using assms
proof (induction es arbitrary: st)
  case (Cons e es)
  then show ?case
    using paused_kept [of st e] paused_silent [of st e] Cons.IH [of "fst (handle e st)"] by (auto simp: Let_def case_prod_unfold)
qed simp

end

fun is_delegate :: "proxy_effect \<Rightarrow> bool" where
  "is_delegate (Delegate _ _ _ _) = True"
| "is_delegate _ = False"

fun is_resume :: "proxy_event \<Rightarrow> bool" where
  "is_resume (Resume _ _) = True"
| "is_resume _ = False"

interpretation proxy_gate: call_gate "proxy_handle node" px_paused is_resume is_delegate for node
proof unfold_locales
  fix st :: proxy and e
  assume "px_paused st" "\<not> is_resume e"
  then show "px_paused (fst (proxy_handle node e st))" "\<forall>f \<in> set (fst (snd (proxy_handle node e st))). \<not> is_delegate f"
    by (cases e; auto simp: default_handler_def proxy_down_def set_acl_def quiesce_def Let_def split: option.splits)+
qed

section \<open>Transparency of a hot reload\<close>

definition accepts :: "nat \<Rightarrow> proxy \<Rightarrow> address option \<Rightarrow> bool" where
  "accepts node st from \<longleftrightarrow> (px_restricted st \<longrightarrow> trusted node st from)"

definition same_policy :: "proxy \<Rightarrow> proxy \<Rightarrow> bool" where
  "same_policy st st' \<longleftrightarrow> px_restricted st' = px_restricted st \<and> px_allowed st' = px_allowed st \<and> px_allow_cross_node st' = px_allow_cross_node st"

lemma same_policy_accepts: "same_policy st st' \<Longrightarrow> accepts node st' = accepts node st"
  by (auto simp: same_policy_def accepts_def trusted_def fun_eq_iff)

definition held_messages :: "nat \<Rightarrow> proxy \<Rightarrow> message list" where
  "held_messages node st = map bf_msg (filter (\<lambda>b. accepts node st (bf_from b)) (px_buffered st))"

lemma delegated_concat: "delegated (concat xss) = concat (map delegated xss)"
  by (induction xss) auto

lemma delegated_flush:
  assumes "px_restricted st \<longrightarrow> \<not> px_allow_cross_node st"
  shows "delegated (flush_one st t s b) = (if accepts node st (bf_from b) then [bf_msg b] else [])"
  using assms by (auto simp: flush_one_def accepts_def trusted_def split: option.splits)

lemma concat_if: "concat (map (\<lambda>x. if P x then [f x] else []) xs) = map f (filter P xs)"
  by (induction xs) auto

lemma handle_transparent:
  assumes "proxy_ok st" "px_alive st" "px_alive (fst (proxy_handle node e st))" "\<forall>a. e \<noteq> Set_acl a"
    "px_restricted st \<longrightarrow> \<not> px_allow_cross_node st"
  shows "same_policy st (fst (proxy_handle node e st))" (is ?policy)
    and "delegated (fst (snd (proxy_handle node e st))) @ held_messages node (fst (proxy_handle node e st)) =
      held_messages node st @ map cl_msg (filter (\<lambda>c. accepts node st (cl_sender c)) (calls [e]))" (is ?flow)
proof -
  have "?policy \<and> ?flow"
  proof (cases e)
    case (Call c)
    have acc: "accepts node (st\<lparr>px_buffered := bs\<rparr>) = accepts node st" for bs
      by (rule same_policy_accepts) (simp add: same_policy_def)
    show ?thesis using assms(1,2)
    proof (cases rule: default_handler_cases [where c = c and node = node])
      case (buffers b)
      then show ?thesis using Call by (simp add: same_policy_def held_messages_def acc)
    next
      case refuses
      then show ?thesis using Call assms(1) by (simp add: same_policy_def held_messages_def proxy_ok_def accepts_def)
    next
      case (forwards current)
      then show ?thesis using Call assms(1) by (simp add: same_policy_def held_messages_def proxy_ok_def accepts_def)
    qed
  next
    case (Proxy_down a)
    then show ?thesis using assms(3) by (auto simp: proxy_down_def same_policy_def Let_def split: if_splits)
  next
    case Quiesce
    moreover have "accepts node (quiesce st) = accepts node st"
      by (rule same_policy_accepts) (simp add: same_policy_def quiesce_def)
    ultimately show ?thesis by (simp add: quiesce_def same_policy_def held_messages_def)
  next
    case (Resume t s)
    let ?st = "st\<lparr>px_current := Some t, px_version := px_version st + 1, px_paused := False\<rparr>"
    have acc: "accepts node ?st = accepts node st" by (rule same_policy_accepts) (simp add: same_policy_def)
    have "delegated (flush_one ?st t s b) = (if accepts node st (bf_from b) then [bf_msg b] else [])" for b
      using delegated_flush [of ?st t s b node] assms(5) acc by simp
    then show ?thesis
      using Resume by (simp add: resume_def Let_def same_policy_def held_messages_def delegated_concat comp_def concat_if)
  qed (use assms(4) in auto)
  then show ?policy ?flow by simp_all
qed

lemma run_transparent:
  assumes "proxy_ok st" "px_alive (fst (proxy_run node es st))" "\<forall>e \<in> set es. \<forall>a. e \<noteq> Set_acl a" "px_restricted st \<longrightarrow> \<not> px_allow_cross_node st"
  shows "delegated_log (snd (proxy_run node es st)) @ held_messages node (fst (proxy_run node es st)) =
    held_messages node st @ map cl_msg (filter (\<lambda>c. accepts node st (cl_sender c)) (calls es))"
  using assms
proof (induction es arbitrary: st)
  case (Cons e es)
  let ?st = "fst (proxy_handle node e st)"
  have alive: "px_alive st" using Cons.prems(2) by (rule proxy_run_alive)
  then have run: "px_alive (fst (proxy_run node es ?st))" using Cons.prems(2) by (simp add: Let_def case_prod_unfold)
  then have alive': "px_alive ?st" by (rule proxy_run_alive)
  have e: "\<forall>a. e \<noteq> Set_acl a" using Cons.prems(3) by simp
  note h = handle_transparent [OF Cons.prems(1) alive alive' e Cons.prems(4)]
  have pol: "px_restricted ?st \<longrightarrow> \<not> px_allow_cross_node ?st" using h(1) Cons.prems(4) by (simp add: same_policy_def)
  have "calls (e # es) = calls [e] @ calls es" by (cases e) auto
  with Cons.IH [OF proxy_handle_ok [OF Cons.prems(1) alive] run _ pol] h(2) Cons.prems(3) alive same_policy_accepts [OF h(1)]
  show ?case by (simp add: Let_def case_prod_unfold)
qed simp

section \<open>Requests\<close>

definition requests :: "promise \<Rightarrow> proxy_event list \<Rightarrow> nat" where
  "requests p es = length (filter (is_request p) (calls es))"

lemma requests_Cons: "requests p (e # es) = requests p [e] + requests p es"
  by (cases e) (simp_all add: requests_def)

lemma flush_answers: "sum_list (map (effect_answers p) (flush_one st t s b)) = (if bf_promise b = Some p then 1 else 0)"
  by (auto simp: flush_one_def split: option.splits)

lemma flush_all_answers:
  "sum_list (map (effect_answers p) (concat (map (flush_one st t s) bs))) = length (filter (\<lambda>b. bf_promise b = Some p) bs)"
  by (induction bs) (simp_all add: flush_answers)

lemma handle_answers:
  assumes "proxy_ok st" "px_alive st"
  shows "answers p (e, snd (proxy_handle node e st)) + waiting p (fst (proxy_handle node e st)) = waiting p st + requests p [e]"
proof (cases e)
  case (Call c)
  show ?thesis using assms
  proof (cases rule: default_handler_cases [where c = c and node = node])
    case (buffers b)
    moreover obtain r where "snd (default_handler node c st) = ([], r)" "r \<in> {Delegated_result, Empty_message}"
      using buffers by (metis prod.collapse)
    moreover have "bf_promise b = Some p \<longleftrightarrow> is_request p c" using buffers by (cases p) (auto simp: is_request_def)
    ultimately show ?thesis using Call by (auto simp: answers_def waiting_def requests_def)
  next
    case refuses
    then show ?thesis using Call by (simp add: answers_def requests_def is_request_def)
  next
    case (forwards current)
    then show ?thesis using Call by (cases "cl_mid c"; cases p) (auto simp: answers_def requests_def is_request_def)
  qed
next
  case (Resume t s)
  then show ?thesis by (simp add: resume_def Let_def answers_def waiting_def requests_def flush_all_answers)
qed (auto simp: proxy_down_def set_acl_def quiesce_def answers_def waiting_def requests_def Let_def case_prod_unfold)

lemma run_answers:
  assumes "proxy_ok st" "px_alive (fst (proxy_run node es st))"
  shows "sum_list (map (answers p) (snd (proxy_run node es st))) + waiting p (fst (proxy_run node es st)) = waiting p st + requests p es"
  using assms
proof (induction es arbitrary: st)
  case (Cons e es)
  let ?st = "fst (proxy_handle node e st)"
  have alive: "px_alive st" using Cons.prems(2) by (rule proxy_run_alive)
  then have run: "px_alive (fst (proxy_run node es ?st))" using Cons.prems(2) by (simp add: Let_def case_prod_unfold)
  from Cons.IH [OF proxy_handle_ok [OF Cons.prems(1) alive] run] handle_answers [OF Cons.prems(1) alive, of p e node] requests_Cons [of p e es] alive
  show ?case by (simp add: Let_def case_prod_unfold)
qed (simp add: requests_def)

section \<open>The access list\<close>

text \<open>Every buffered call came in as a call of the run.\<close>

definition received :: "proxy_event list \<Rightarrow> message \<Rightarrow> address option \<Rightarrow> bool" where
  "received es m from \<longleftrightarrow> (\<exists>c \<in> set (calls es). cl_msg c = m \<and> cl_sender c = from)"

lemma calls_append [simp]: "calls (es @ fs) = calls es @ calls fs"
  by (induction es rule: calls.induct) auto

lemma handle_buffered:
  "b \<in> set (px_buffered (fst (proxy_handle node e st))) \<Longrightarrow> b \<in> set (px_buffered st) \<or> received [e] (bf_msg b) (bf_from b)"
  by (cases e) (auto simp: default_handler_def proxy_down_def set_acl_def quiesce_def resume_def received_def Let_def case_prod_unfold
      split: option.splits if_splits)

lemma run_buffered:
  "b \<in> set (px_buffered (fst (proxy_run node es st))) \<Longrightarrow> b \<in> set (px_buffered st) \<or> received es (bf_msg b) (bf_from b)"
proof (induction es arbitrary: st)
  case (Cons e es)
  have "received (e # es) m f \<longleftrightarrow> received [e] m f \<or> received es m f" for m f by (cases e) (auto simp: received_def)
  with Cons.IH [of "fst (proxy_handle node e st)"] handle_buffered [of b node e st] Cons.prems show ?case
    by (auto simp: Let_def case_prod_unfold split: if_splits)
qed simp

lemma flush_delegates:
  assumes "Delegate t m s i \<in> set (flush_one st u rs b)"
  shows "t = u \<and> m = bf_msg b \<and> (px_restricted st \<longrightarrow> bf_from b \<in> set (px_allowed st))"
  using assms by (auto simp: flush_one_def split: option.splits if_splits)

lemma handle_delegates:
  assumes "Delegate t m s i \<in> set (fst (snd (proxy_handle node e st)))"
  shows "px_current (fst (proxy_handle node e st)) = Some t \<and>
    (\<exists>from. (received [e] m from \<or> (\<exists>b \<in> set (px_buffered st). bf_msg b = m \<and> bf_from b = from)) \<and>
      (px_restricted st \<longrightarrow> trusted node st from))"
proof (cases e)
  case (Call c)
  then show ?thesis using assms by (auto simp: default_handler_def received_def split: option.splits if_splits)
next
  case (Resume u rs)
  let ?st = "st\<lparr>px_current := Some u, px_version := px_version st + 1, px_paused := False\<rparr>"
  obtain b where "b \<in> set (px_buffered st)" "Delegate t m s i \<in> set (flush_one ?st u rs b)"
    using assms Resume by (auto simp: resume_def Let_def)
  with flush_delegates [OF this(2)] Resume show ?thesis by (auto simp: resume_def Let_def trusted_def)
qed (use assms in \<open>auto simp: proxy_down_def set_acl_def quiesce_def Let_def split: if_splits\<close>)

section \<open>The registry\<close>

type_synonym external_protocol_table = "(u16 \<times> string) list"

record versioned_entry =
  ve_name :: string
  ve_proxy :: address
  ve_impl :: address
  ve_version :: int
  ve_plugin_name :: string
  ve_protocols :: external_protocol_table

record registry =
  rg_services :: "(string \<times> versioned_entry) list"
  rg_exported :: "string list"
  rg_allow_cross_node :: bool

datatype registry_event =
    Register string address string external_protocol_table address
  | Exported_actors
  | Hot_reload string address
  | Unregister string
  | Resolve string
  | Protocols string
  | List_services
  | Set_service_acl string "address option list"
  | Shutdown

datatype registry_effect =
    Spawn_proxy address address bool
  | Registry_put string address
  | Registry_erase string
  | Send_exit address
  | Send_acl address "address option list"

datatype registry_reply =
    Names "string list"
  | Actor "address option"
  | Protocol_table external_protocol_table
  | No_result

definition empty_registry :: "bool \<Rightarrow> registry" where
  "empty_registry allow_cross_node = \<lparr>rg_services = [], rg_exported = [], rg_allow_cross_node = allow_cross_node\<rparr>"

text \<open>\<open>Spawn_proxy p impl x\<close> starts a proxy with the state \<open>spawn_service_proxy impl x\<close> at the fresh address \<open>p\<close>.\<close>

definition registry_register ::
    "string \<Rightarrow> address \<Rightarrow> string \<Rightarrow> external_protocol_table \<Rightarrow> address \<Rightarrow> registry \<Rightarrow> registry \<times> registry_effect list" where
  "registry_register name impl plugin protocols proxy st =
     (if map_of (rg_services st) name \<noteq> None then (st, [])
      else
        (st\<lparr>rg_services := omap_set name
              \<lparr>ve_name = name, ve_proxy = proxy, ve_impl = impl, ve_version = 1, ve_plugin_name = plugin, ve_protocols = protocols\<rparr>
              (rg_services st),
            rg_exported := rg_exported st @ [name]\<rparr>,
         [Spawn_proxy proxy impl (rg_allow_cross_node st), Registry_put name proxy]))"

definition registry_hot_reload :: "string \<Rightarrow> address \<Rightarrow> registry \<Rightarrow> registry" where
  "registry_hot_reload name new_impl st =
     (case map_of (rg_services st) name of
        None \<Rightarrow> st
      | Some e \<Rightarrow> st\<lparr>rg_services := omap_set name (e\<lparr>ve_version := ve_version e + 1, ve_impl := new_impl\<rparr>) (rg_services st)\<rparr>)"

definition registry_unregister :: "string \<Rightarrow> registry \<Rightarrow> registry \<times> registry_effect list" where
  "registry_unregister name st =
     (case map_of (rg_services st) name of
        None \<Rightarrow> (st, [])
      | Some e \<Rightarrow>
          (st\<lparr>rg_exported := filter (\<lambda>n. n \<noteq> name) (rg_exported st), rg_services := omap_erase name (rg_services st)\<rparr>,
           [Registry_erase name, Send_exit (ve_proxy e)]))"

definition registry_resolve :: "string \<Rightarrow> registry \<Rightarrow> address option" where
  "registry_resolve name st = map_option ve_proxy (map_of (rg_services st) name)"

definition registry_protocols :: "string \<Rightarrow> registry \<Rightarrow> external_protocol_table" where
  "registry_protocols name st = (case map_of (rg_services st) name of None \<Rightarrow> [] | Some e \<Rightarrow> ve_protocols e)"

definition registry_set_acl :: "string \<Rightarrow> address option list \<Rightarrow> registry \<Rightarrow> registry_effect list" where
  "registry_set_acl name allowed st =
     (case map_of (rg_services st) name of None \<Rightarrow> [] | Some e \<Rightarrow> [Send_acl (ve_proxy e) allowed])"

definition registry_shutdown :: "registry \<Rightarrow> registry \<times> registry_effect list" where
  "registry_shutdown st =
     (st\<lparr>rg_services := []\<rparr>, concat (map (\<lambda>(name, e). [Registry_erase name, Send_exit (ve_proxy e)]) (rg_services st)))"

fun registry_step :: "registry_event \<Rightarrow> registry \<Rightarrow> registry \<times> registry_effect list \<times> registry_reply" where
  "registry_step (Register name impl plugin protocols proxy) st =
     (let (st, es) = registry_register name impl plugin protocols proxy st in (st, es, No_result))"
| "registry_step Exported_actors st = (st, [], Names (rg_exported st))"
| "registry_step (Hot_reload name new_impl) st = (registry_hot_reload name new_impl st, [], No_result)"
| "registry_step (Unregister name) st = (let (st, es) = registry_unregister name st in (st, es, No_result))"
| "registry_step (Resolve name) st = (st, [], Actor (registry_resolve name st))"
| "registry_step (Protocols name) st = (st, [], Protocol_table (registry_protocols name st))"
| "registry_step List_services st = (st, [], Names (map fst (rg_services st)))"
| "registry_step (Set_service_acl name allowed) st = (st, registry_set_acl name allowed st, No_result)"
| "registry_step Shutdown st = (let (st, es) = registry_shutdown st in (st, es, No_result))"


fun registry_run :: "registry_event list \<Rightarrow> registry \<Rightarrow> registry \<times> registry_effect list" where
  "registry_run [] st = (st, [])"
| "registry_run (e # es) st = (let (st, fx, r) = registry_step e st; (st, fx') = registry_run es st in (st, fx @ fx'))"

text \<open>The entries of the actor registry of CAF that the effects leave.\<close>

fun caf_registry :: "registry_effect list \<Rightarrow> (string \<rightharpoonup> address) \<Rightarrow> (string \<rightharpoonup> address)" where
  "caf_registry [] m = m"
| "caf_registry (Registry_put name p # fx) m = caf_registry fx (m(name \<mapsto> p))"
| "caf_registry (Registry_erase name # fx) m = caf_registry fx (m(name := None))"
| "caf_registry (_ # fx) m = caf_registry fx m"

definition spawned :: "address \<Rightarrow> registry_effect list \<Rightarrow> nat" where
  "spawned p fx = length (filter (\<lambda>f. \<exists>impl x. f = Spawn_proxy p impl x) fx)"

definition exits :: "address \<Rightarrow> registry_effect list \<Rightarrow> nat" where
  "exits p fx = length (filter (\<lambda>f. f = Send_exit p) fx)"

definition proxies :: "address \<Rightarrow> registry \<Rightarrow> nat" where
  "proxies p st = length (filter (\<lambda>(name, e). ve_proxy e = p) (rg_services st))"

lemma caf_registry_append [simp]: "caf_registry (fx @ gx) m = caf_registry gx (caf_registry fx m)"
  by (induction fx m rule: caf_registry.induct) (simp_all del: fun_upd_apply)

lemma spawned_simps [simp]:
  "spawned p [] = 0" "spawned p (fx @ gx) = spawned p fx + spawned p gx"
  "spawned p (f # fx) = (case f of Spawn_proxy q impl x \<Rightarrow> if q = p then 1 else 0 | _ \<Rightarrow> 0) + spawned p fx"
  by (auto simp: spawned_def split: registry_effect.splits)

lemma exits_simps [simp]:
  "exits p [] = 0" "exits p (fx @ gx) = exits p fx + exits p gx"
  "exits p (f # fx) = (if f = Send_exit p then 1 else 0) + exits p fx"
  by (auto simp: exits_def)

definition registry_ok :: "registry \<Rightarrow> (string \<rightharpoonup> address) \<Rightarrow> bool" where
  "registry_ok st caf \<longleftrightarrow> omap_ok (rg_services st) \<and> (\<forall>name. caf name = registry_resolve name st)"

definition exported_ok :: "registry \<Rightarrow> bool" where
  "exported_ok st \<longleftrightarrow> distinct (rg_exported st) \<and> set (rg_exported st) = fst ` set (rg_services st)"

lemma registry_shutdown_caf:
  "caf_registry (concat (map (\<lambda>(name, e). [Registry_erase name, Send_exit (ve_proxy e)]) m)) caf =
     (\<lambda>name. if name \<in> fst ` set m then None else caf name)"
  by (induction m arbitrary: caf) (auto simp: fun_eq_iff)

lemma registry_shutdown_exits:
  "exits p (concat (map (\<lambda>(name, e). [Registry_erase name, Send_exit (ve_proxy e)]) m)) = length (filter (\<lambda>(name, e). ve_proxy e = p) m)"
  "spawned p (concat (map (\<lambda>(name, e). [Registry_erase name, Send_exit (ve_proxy e)]) m)) = 0"
  by (induction m) auto

lemma registry_step_ok:
  assumes "registry_ok st caf"
  shows "registry_ok (fst (registry_step e st)) (caf_registry (fst (snd (registry_step e st))) caf)" (is ?ok)
    and "proxies p (fst (registry_step e st)) + exits p (fst (snd (registry_step e st))) = proxies p st + spawned p (fst (snd (registry_step e st)))" (is ?count)
proof -
  have o: "omap_ok (rg_services st)" and c: "caf = (\<lambda>name. registry_resolve name st)"
    using assms by (auto simp: registry_ok_def)
  have "?ok \<and> ?count"
  proof (cases e)
    case (Register name impl plugin protocols proxy)
    then show ?thesis
      using o c omap_count_set [OF o, of "\<lambda>e. ve_proxy e = p" name]
      by (auto simp: registry_register_def registry_ok_def registry_resolve_def proxies_def Let_def split: option.splits)
  next
    case (Hot_reload name impl)
    show ?thesis
    proof (cases "map_of (rg_services st) name")
      case (Some v)
      then show ?thesis
        using Hot_reload o c omap_count_set [OF o, of "\<lambda>e. ve_proxy e = p" name "v\<lparr>ve_version := ve_version v + 1, ve_impl := impl\<rparr>"]
        by (auto simp: registry_hot_reload_def registry_ok_def registry_resolve_def proxies_def)
    qed (use Hot_reload assms in \<open>simp add: registry_hot_reload_def\<close>)
  next
    case (Unregister name)
    then show ?thesis
      using o c omap_count_erase [OF o, of "\<lambda>e. ve_proxy e = p" name]
      by (auto simp: registry_unregister_def registry_ok_def registry_resolve_def proxies_def Let_def split: option.splits)
  next
    case (Set_service_acl name allowed)
    then show ?thesis using o c by (auto simp: registry_set_acl_def registry_ok_def split: option.splits)
  next
    case Shutdown
    then show ?thesis
      using o c by (auto simp: registry_shutdown_def registry_ok_def registry_resolve_def proxies_def registry_shutdown_caf registry_shutdown_exits map_of_eq_None_iff)
  qed (use o c in \<open>simp_all add: registry_ok_def\<close>)
  then show ?ok ?count by simp_all
qed

lemma registry_step_exported:
  assumes "registry_ok st caf" "exported_ok st" "e \<noteq> Shutdown"
  shows "exported_ok (fst (registry_step e st))"
  using assms by (cases e) (auto simp: exported_ok_def registry_register_def registry_hot_reload_def registry_unregister_def map_of_eq_None_iff
      Let_def split: option.splits dest: map_of_Some_key)

lemma registry_run_ok:
  assumes "registry_ok st caf"
  shows "registry_ok (fst (registry_run es st)) (caf_registry (snd (registry_run es st)) caf)"
    and "proxies p (fst (registry_run es st)) + exits p (snd (registry_run es st)) = proxies p st + spawned p (snd (registry_run es st))"
    and "exported_ok st \<Longrightarrow> Shutdown \<notin> set es \<Longrightarrow> exported_ok (fst (registry_run es st))"
  using assms
proof (induction es arbitrary: st caf)
  case (Cons e es)
  {
    case 1
    then show ?case using Cons.IH(1) [OF registry_step_ok(1) [OF 1]] by (simp add: Let_def case_prod_unfold)
  next
    case 2
    then show ?case using Cons.IH(2) [OF registry_step_ok(1) [OF 2, of e]] registry_step_ok(2) [OF 2, of p e] by (simp add: Let_def case_prod_unfold)
  next
    case 3
    then show ?case
      using Cons.IH(3) [OF _ _ registry_step_ok(1) [OF 3(3), of e]] registry_step_exported [OF 3(3) 3(1), of e] by (auto simp: Let_def case_prod_unfold)
  }
qed simp_all

lemma empty_registry_ok [simp]: "registry_ok (empty_registry x) (\<lambda>_. None)" "exported_ok (empty_registry x)" "proxies p (empty_registry x) = 0"
  by (simp_all add: registry_ok_def exported_ok_def proxies_def empty_registry_def registry_resolve_def)

section \<open>Properties\<close>

text \<open>C29. A hot reload is transparent: take any state the proxy reaches, and any further calls, pauses and switches of the implementation
  after which it still lives, with the access list left alone and without cross-node trust.  The messages passed on in all,
  followed by those that still wait, are exactly the accepted ones among those that waited and those that came in, in their order:
  nothing is lost, doubled or reordered, as if there had been no pause.\<close>

theorem hot_reload_transparent:
  assumes "st = fst (proxy_run node pre (fst (spawn_service_proxy target False)))" "px_alive (fst (proxy_run node es st))"
    "\<forall>e \<in> set es. \<forall>a. e \<noteq> Set_acl a"
  shows "delegated_log (snd (proxy_run node es st)) @ held_messages node (fst (proxy_run node es st)) =
    held_messages node st @ map cl_msg (filter (\<lambda>c. px_restricted st \<longrightarrow> cl_sender c \<in> set (px_allowed st)) (calls es))"
proof -
  have "px_allow_cross_node (fst (proxy_handle node e s)) = px_allow_cross_node s" for e s
    by (cases e) (auto simp: default_handler_def proxy_down_def set_acl_def quiesce_def resume_def Let_def split: option.splits)
  then have "px_allow_cross_node (fst (proxy_run node es s)) = px_allow_cross_node s" for es s
    by (induction es arbitrary: s) (auto simp: Let_def case_prod_unfold)
  then have x: "\<not> px_allow_cross_node st" using assms(1) by (simp add: spawn_service_proxy_def)
  have "proxy_ok st" unfolding assms(1) by (rule proxy_run_ok) simp
  from run_transparent [OF this assms(2,3)] x show ?thesis by (simp add: accepts_def trusted_def)
qed

definition demo_call :: "string \<Rightarrow> nat \<Rightarrow> nat option \<Rightarrow> call" where
  "demo_call m n i = \<lparr>cl_msg = m, cl_sender = Some (0, n), cl_mid = i\<rparr>"

lemmas proxy_exec = demo_call_def spawn_service_proxy_def default_handler_def proxy_down_def set_acl_def quiesce_def resume_def flush_one_def
  trusted_def Let_def

theorem hot_reload_transparent_witness:
  "delegated_log (snd (proxy_run 0 [Call (demo_call ''a'' 7 None), Quiesce, Call (demo_call ''b'' 7 (Some 3)), Call (demo_call ''x'' 8 None),
       Call (demo_call ''c'' 7 None), Resume (0, 2) None, Call (demo_call ''d'' 7 None)]
     (fst (proxy_run 0 [Set_acl [Some (0, 7)]] (fst (spawn_service_proxy (0, 1) False)))))) = [''a'', ''b'', ''c'', ''d'']"
  using hot_reload_transparent [OF refl, of 0
     "[Call (demo_call ''a'' 7 None), Quiesce, Call (demo_call ''b'' 7 (Some 3)), Call (demo_call ''x'' 8 None),
       Call (demo_call ''c'' 7 None), Resume (0, 2) None, Call (demo_call ''d'' 7 None)]" "[Set_acl [Some (0, 7)]]" "(0, 1)"]
  by (simp add: proxy_exec held_messages_def)

text \<open>Every request is answered once: in any run of a proxy that still lives, each request that came in has been passed on to an
  implementation or refused with an error exactly once, or waits in the buffer; with several requests of the same sender and id
  the numbers agree.  No step answers a request that was not made.\<close>

theorem requests_answered_once:
  assumes "px_alive (fst (proxy_run node es (fst (spawn_service_proxy target allow_cross_node))))"
  shows "(case proxy_run node es (fst (spawn_service_proxy target allow_cross_node)) of
     (st, log) \<Rightarrow> sum_list (map (answers p) log) + waiting p st = length (filter (is_request p) (calls es)))"
  using run_answers [OF spawn_ok assms, of p] by (simp add: case_prod_unfold requests_def waiting_def spawn_service_proxy_def)



text \<open>Cross-node trust does not cover the buffer: with a restricted proxy that trusts remote senders, a request from a remote actor
  outside the list is passed on at once, but when it falls into the pause of a hot reload it is refused with an error.\<close>

theorem cross_node_refused_after_pause:
  assumes "px_alive st" "px_current st = Some old" "\<not> px_paused st" "px_buffered st = []" "px_restricted st" "px_allow_cross_node st"
    "cl_sender c = Some a" "fst a \<noteq> node" "Some a \<notin> set (px_allowed st)" "cl_mid c = Some mid"
  shows "fst (snd (proxy_handle node (Call c) st)) = [Delegate old (cl_msg c) (Some a) (Some mid)] \<and>
    map (\<lambda>(e, fx, r). fx) (snd (proxy_run node [Quiesce, Call c, Resume new s] st)) =
      [[], [], [Monitor_target new, Deliver_error (Some a) mid acl_error]]"
  using assms by (simp_all add: proxy_exec)

text \<open>The tables of the registry agree in every run: the entries it leaves in the actor registry of CAF are exactly the proxies that
  it resolves; the names it lists are sorted without duplicates; a proxy it spawned is in the table or has been told to exit, each
  once; and until a shutdown the exported names are exactly the registered ones.\<close>

theorem registry_consistent:
  "(case registry_run es (empty_registry allow_cross_node) of (st, fx) \<Rightarrow>
     caf_registry fx (\<lambda>_. None) name = registry_resolve name st \<and> sorted_wrt (<) (map fst (rg_services st)) \<and>
     spawned p fx = proxies p st + exits p fx \<and>
     (Shutdown \<notin> set es \<longrightarrow> distinct (rg_exported st) \<and> set (rg_exported st) = fst ` set (rg_services st)))"
  using registry_run_ok(1) [OF empty_registry_ok(1), of es allow_cross_node] registry_run_ok(2) [OF empty_registry_ok(1), of p es allow_cross_node]
    registry_run_ok(3) [OF empty_registry_ok(1,2), of es allow_cross_node]
  by (auto simp: case_prod_unfold registry_ok_def exported_ok_def)

end
