(* ===== verification/Plugin_Manager.thy ===== *)
theory Plugin_Manager
  imports Plugin_Loader Service_Registry
begin

text \<open>
  The plugin manager (\<^verbatim>\<open>src/core/plugin/plugin_manager.cpp\<close>): loading, hot reload, unloading and the end of plugins.  A handler
  returns the new state, its effects in the order of the code and its reply.  What the manager learns while a handler runs comes
  in as an argument (\<open>answers\<close>): the library behind the path, the instance and the actor that the plugin creates, and the answers
  of the registry, the proxies, the checkpoint store and the old actor; \<open>None\<close> and \<open>False\<close> stand for an error or a timeout too.
  The theory shows when a load succeeds, and that every instance a plugin creates is destroyed exactly once.
\<close>

section \<open>State and effects\<close>

record loaded_plugin =
  lp_instance :: nat
  lp_actor :: address
  lp_manifest :: plugin_manifest
  lp_asset_dir :: string

record manager =
  pm_dep_graph :: dep_graph
  pm_plugins :: "(string \<times> loaded_plugin) list"
  pm_retired :: "loaded_plugin list"
  pm_alive :: bool

text \<open>A library either lacks one of the two symbols or creates instances with a manifest.\<close>

record library =
  lib_symbols :: bool
  lib_manifest :: plugin_manifest

record answers =
  an_library :: "string \<Rightarrow> library option"
  an_asset_dir :: "string \<Rightarrow> string"
  an_instance :: nat
  an_actor :: address
  an_deps :: "string \<Rightarrow> address option"
  an_proxy :: "string \<Rightarrow> address option"
  an_quiesced :: "string \<Rightarrow> bool"
  an_acl :: "string \<Rightarrow> address option"
  an_state :: bytes

datatype manager_effect =
    Close_library
  | Keep_library
  | Create nat
  | Destroy nat
  | Spawn nat "address list" address
  | Monitor_plugin address
  | Restore_state address bytes
  | Init address
  | Ask_quiesce address
  | Ask_save_state address
  | Resume_proxy address address
  | Registry_register string address string
  | Registry_hot_reload string address
  | Registry_unregister string
  | Registry_set_acl string "address option list"
  | Service_gone address "string list"
  | Exit_plugin address
  | Request_shutdown
  | Quit_manager

datatype manager_reply =
    Done bool
  | Failed string
  | Plugin_names "string list"
  | Plugin_actor "address option"
  | Nothing

type_synonym handled = "manager \<times> manager_effect list \<times> manager_reply"

definition empty_manager :: manager where
  "empty_manager = \<lparr>pm_dep_graph = empty_graph, pm_plugins = [], pm_retired = [], pm_alive = True\<rparr>"

section \<open>Loading\<close>

fun register_services :: "string \<Rightarrow> string list \<Rightarrow> dep_graph \<Rightarrow> dep_graph" where
  "register_services name [] g = g"
| "register_services name (svc # svcs) g = register_services name svcs (register_service svc name g)"

text \<open>The first dependency without an actor (\<open>Inl\<close>), or the actors in the order of the manifest.\<close>

fun resolve_deps :: "(string \<Rightarrow> address option) \<Rightarrow> string list \<Rightarrow> string + address list" where
  "resolve_deps resolve [] = Inr []"
| "resolve_deps resolve (dep # deps) =
     (case resolve dep of
        None \<Rightarrow> Inl dep
      | Some a \<Rightarrow> (case resolve_deps resolve deps of Inl d \<Rightarrow> Inl d | Inr as \<Rightarrow> Inr (a # as)))"

definition collect_allowed :: "(string \<times> loaded_plugin) list \<Rightarrow> (string \<Rightarrow> address option) \<Rightarrow> string list \<Rightarrow> address option list" where
  "collect_allowed plugins resolve names =
     concat (map (\<lambda>pname. case map_of plugins pname of
        Some lp \<Rightarrow> [Some (lp_actor lp)]
      | None \<Rightarrow> (case resolve pname of Some a \<Rightarrow> [Some a] | None \<Rightarrow> [])) names)"

definition load_start :: "string \<Rightarrow> string \<Rightarrow> answers \<Rightarrow> plugin_manifest \<Rightarrow> address list \<Rightarrow> manager \<Rightarrow> handled" where
  "load_start name path an manifest deps st =
     (let actor = an_actor an;
          allowed = collect_allowed (pm_plugins st) (an_acl an) (mf_acl_allow manifest)
      in (st\<lparr>pm_plugins := omap_set name
               \<lparr>lp_instance = an_instance an, lp_actor = actor, lp_manifest = manifest, lp_asset_dir = an_asset_dir an path\<rparr> (pm_plugins st)\<rparr>,
          [Create (an_instance an), Spawn (an_instance an) deps actor] @
          (if an_state an \<noteq> [] then [Restore_state actor (an_state an)] else []) @
          [Monitor_plugin actor, Init actor] @
          map (\<lambda>svc. Registry_register svc actor name) (mf_provides manifest) @
          (if mf_acl_allow manifest \<noteq> [] then map (\<lambda>svc. Registry_set_acl svc allowed) (mf_provides manifest) else []) @
          [Keep_library],
          Done True))"

definition load_plugin :: "string \<Rightarrow> string \<Rightarrow> answers \<Rightarrow> manager \<Rightarrow> handled" where
  "load_plugin name path an st =
     (if map_of (pm_plugins st) name \<noteq> None then (st, [], Failed ''Already loaded'')
      else case an_library an path of
        None \<Rightarrow> (st, [], Failed ''Failed to load library'')
      | Some lib \<Rightarrow>
          if \<not> lib_symbols lib then (st, [Close_library], Done False)
          else let manifest = lib_manifest lib;
                   g = add_plugin name (mf_dependencies manifest) (register_services name (mf_provides manifest) (pm_dep_graph st));
                   st = st\<lparr>pm_dep_graph := g\<rparr>;
                   undo = [Create (an_instance an), Destroy (an_instance an), Close_library]
               in if has_cycle_from g name then (st, undo, Failed ''Circular dependency'')
                  else case resolve_deps (an_deps an) (mf_dependencies manifest) of
                    Inl dep \<Rightarrow> (st, undo, Failed (''Missing dep: '' @ dep))
                  | Inr deps \<Rightarrow> load_start name path an manifest deps st)"

section \<open>Hot reload\<close>

text \<open>Pausing the proxies of the services one by one: the effects, the proxies paused so far, and the service that failed.\<close>

fun quiesce_all :: "answers \<Rightarrow> string list \<Rightarrow> address list \<Rightarrow> manager_effect list \<times> address list \<times> string option" where
  "quiesce_all an [] ps = ([], ps, None)"
| "quiesce_all an (svc # svcs) ps =
     (case an_proxy an svc of
        None \<Rightarrow> ([], ps, Some svc)
      | Some p \<Rightarrow>
          if an_quiesced an svc
          then let (fx, ps, failed) = quiesce_all an svcs (ps @ [p]) in (Ask_quiesce p # fx, ps, failed)
          else ([Ask_quiesce p], ps, Some svc))"

definition reload_services :: "string \<Rightarrow> plugin_manifest \<Rightarrow> plugin_manifest \<Rightarrow> address option list \<Rightarrow> address \<Rightarrow> manager_effect list" where
  "reload_services name old_manifest manifest allowed new_actor =
     concat (map (\<lambda>svc.
       if svc \<notin> set (mf_provides old_manifest)
       then Registry_register svc new_actor name # (if allowed \<noteq> [] then [Registry_set_acl svc allowed] else [])
       else [Registry_hot_reload svc new_actor]) (mf_provides manifest))"

definition reload_switch :: "string \<Rightarrow> answers \<Rightarrow> loaded_plugin \<Rightarrow> plugin_manifest \<Rightarrow> address list \<Rightarrow> address list \<Rightarrow> manager \<Rightarrow>
    manager \<times> manager_effect list" where
  "reload_switch name an old manifest deps ps st =
     (let new_actor = an_actor an;
          allowed = collect_allowed (pm_plugins st) (an_acl an) (mf_acl_allow manifest)
      in (st\<lparr>pm_retired := pm_retired st @ [old],
             pm_plugins := omap_set name
               \<lparr>lp_instance = an_instance an, lp_actor = new_actor, lp_manifest = manifest, lp_asset_dir = lp_asset_dir old\<rparr> (pm_plugins st)\<rparr>,
          [Ask_save_state (lp_actor old), Spawn (an_instance an) deps new_actor] @
          (if an_state an \<noteq> [] then [Restore_state new_actor (an_state an)] else []) @
          [Monitor_plugin new_actor, Init new_actor] @
          reload_services name (lp_manifest old) manifest allowed new_actor @
          map (\<lambda>p. Resume_proxy p new_actor) ps @
          [Exit_plugin (lp_actor old), Keep_library]))"

definition reload_plugin :: "string \<Rightarrow> string \<Rightarrow> answers \<Rightarrow> manager \<Rightarrow> handled" where
  "reload_plugin name path an st =
     (case map_of (pm_plugins st) name of
        None \<Rightarrow> (st, [], Failed (''Plugin not loaded: '' @ name))
      | Some old \<Rightarrow>
     (case an_library an path of
        None \<Rightarrow> (st, [], Failed (''Failed to load library: '' @ path))
      | Some lib \<Rightarrow>
          if \<not> lib_symbols lib then (st, [Close_library], Failed (''Missing create/destroy symbols in: '' @ path))
          else let manifest = lib_manifest lib; created = [Create (an_instance an)]; undo = [Destroy (an_instance an), Close_library]
               in if mf_name manifest \<noteq> name then (st, created @ undo, Failed (''Reloaded manifest name mismatch: '' @ mf_name manifest))
                  else case find (\<lambda>svc. svc \<notin> set (mf_provides manifest)) (mf_provides (lp_manifest old)) of
                    Some svc \<Rightarrow> (st, created @ undo, Failed (''Reload rejected: service removed from provides: '' @ svc))
                  | None \<Rightarrow>
                 (case resolve_deps (an_deps an) (mf_dependencies manifest) of
                    Inl dep \<Rightarrow> (st, created @ undo, Failed (''Missing dep: '' @ dep))
                  | Inr deps \<Rightarrow>
                 (case quiesce_all an (mf_provides (lp_manifest old)) [] of
                    (fx, ps, Some svc) \<Rightarrow>
                      (st, created @ fx @ map (\<lambda>p. Resume_proxy p (lp_actor old)) ps @ undo,
                       Failed (''Reload: failed to quiesce proxy for service: '' @ svc))
                  | (fx, ps, None) \<Rightarrow>
                      let (st, gx) = reload_switch name an old manifest deps ps st in (st, created @ fx @ gx, Done True)))))"

section \<open>Unloading and the end of a plugin\<close>

definition unload_plugin :: "string \<Rightarrow> answers \<Rightarrow> manager \<Rightarrow> handled" where
  "unload_plugin name an st =
     (case map_of (pm_plugins st) name of
        None \<Rightarrow> (st, [], Done False)
      | Some old \<Rightarrow>
          let gone = mf_provides (lp_manifest old)
          in (st\<lparr>pm_retired := pm_retired st @ [old], pm_plugins := omap_erase name (pm_plugins st)\<rparr>,
              concat (map (\<lambda>svc. case an_proxy an svc of Some p \<Rightarrow> [Ask_quiesce p] | None \<Rightarrow> []) gone) @
              [Ask_save_state (lp_actor old)] @
              map Registry_unregister gone @
              (if gone \<noteq> [] then map (\<lambda>(n, other). Service_gone (lp_actor other) gone) (filter (\<lambda>(n, other). n \<noteq> name) (pm_plugins st)) else []) @
              [Exit_plugin (lp_actor old)],
              Done True))"

fun remove_retired :: "address \<Rightarrow> loaded_plugin list \<Rightarrow> (loaded_plugin \<times> loaded_plugin list) option" where
  "remove_retired source [] = None"
| "remove_retired source (lp # lps) =
     (if lp_actor lp = source then Some (lp, lps)
      else case remove_retired source lps of None \<Rightarrow> None | Some (x, rest) \<Rightarrow> Some (x, lp # rest))"

definition plugin_down :: "address \<Rightarrow> manager \<Rightarrow> manager \<times> manager_effect list" where
  "plugin_down source st =
     (case remove_retired source (pm_retired st) of
        Some (lp, rest) \<Rightarrow> (st\<lparr>pm_retired := rest\<rparr>, [Destroy (lp_instance lp)])
      | None \<Rightarrow>
          (case find (\<lambda>(n, lp). lp_actor lp = source) (pm_plugins st) of
             None \<Rightarrow> (st, [])
           | Some (n, lp) \<Rightarrow>
               (st\<lparr>pm_plugins := omap_erase n (pm_plugins st)\<rparr>,
                map Registry_unregister (mf_provides (lp_manifest lp)) @ [Destroy (lp_instance lp)])))"

definition manager_exit :: "manager \<Rightarrow> manager \<times> manager_effect list" where
  "manager_exit st =
     (st\<lparr>pm_plugins := [], pm_retired := [], pm_alive := False\<rparr>,
      map (\<lambda>(n, lp). Destroy (lp_instance lp)) (pm_plugins st) @ map (\<lambda>lp. Destroy (lp_instance lp)) (pm_retired st) @ [Quit_manager])"

text \<open>\<open>Request_shutdown_msg b\<close>: whether the actor registry knows the shutdown manager.\<close>

datatype manager_event =
    List_plugins
  | Load string string answers
  | Reload string string answers
  | Unload string answers
  | Resolve_plugin string
  | Request_shutdown_msg bool
  | Plugin_down address
  | Exit_msg

fun manager_step :: "manager_event \<Rightarrow> manager \<Rightarrow> handled" where
  "manager_step List_plugins st = (st, [], Plugin_names (map fst (pm_plugins st)))"
| "manager_step (Load name path an) st = load_plugin name path an st"
| "manager_step (Reload name path an) st = reload_plugin name path an st"
| "manager_step (Unload name an) st = unload_plugin name an st"
| "manager_step (Resolve_plugin name) st = (st, [], Plugin_actor (map_option lp_actor (map_of (pm_plugins st) name)))"
| "manager_step (Request_shutdown_msg known) st = (st, if known then [Request_shutdown] else [], Nothing)"
| "manager_step (Plugin_down source) st = (let (st, fx) = plugin_down source st in (st, fx, Nothing))"
| "manager_step Exit_msg st = (let (st, fx) = manager_exit st in (st, fx, Nothing))"

fun manager_run :: "manager_event list \<Rightarrow> manager \<Rightarrow> manager \<times> manager_effect list" where
  "manager_run [] st = (st, [])"
| "manager_run (e # es) st =
     (if pm_alive st then let (st, fx, r) = manager_step e st; (st, fx') = manager_run es st in (st, fx @ fx') else (st, []))"

section \<open>The life cycle of instances\<close>

definition created :: "nat \<Rightarrow> manager_effect list \<Rightarrow> nat" where
  "created i fx = length (filter (\<lambda>f. f = Create i) fx)"

definition destroyed :: "nat \<Rightarrow> manager_effect list \<Rightarrow> nat" where
  "destroyed i fx = length (filter (\<lambda>f. f = Destroy i) fx)"

definition live :: "nat \<Rightarrow> manager \<Rightarrow> nat" where
  "live i st = length (filter (\<lambda>(n, lp). lp_instance lp = i) (pm_plugins st)) + length (filter (\<lambda>lp. lp_instance lp = i) (pm_retired st))"

definition manager_ok :: "manager \<Rightarrow> bool" where
  "manager_ok st \<longleftrightarrow> omap_ok (pm_plugins st) \<and> (\<not> pm_alive st \<longrightarrow> pm_plugins st = [] \<and> pm_retired st = [])"

text \<open>Effects that neither create nor destroy an instance.\<close>

fun neutral :: "manager_effect \<Rightarrow> bool" where
  "neutral (Create i) = False"
| "neutral (Destroy i) = False"
| "neutral _ = True"

lemma counts_simps [simp]:
  "created i [] = 0" "created i (fx @ gx) = created i fx + created i gx" "created i (f # fx) = (if f = Create i then 1 else 0) + created i fx"
  "destroyed i [] = 0" "destroyed i (fx @ gx) = destroyed i fx + destroyed i gx" "destroyed i (f # fx) = (if f = Destroy i then 1 else 0) + destroyed i fx"
  by (auto simp: created_def destroyed_def)

lemma neutral_counts [simp]:
  assumes "\<forall>f \<in> set fx. neutral f"
  shows "created i fx = 0" "destroyed i fx = 0"
  using assms by (auto simp: created_def destroyed_def filter_empty_conv)

lemma destroyed_map: "destroyed i (map (\<lambda>x. Destroy (g x)) xs) = length (filter (\<lambda>x. g x = i) xs)"
  by (induction xs) auto

lemma quiesce_all_neutral: "\<forall>f \<in> set (fst (quiesce_all an svcs ps)). neutral f"
  by (induction svcs arbitrary: ps) (auto simp: Let_def case_prod_unfold split: option.splits)

lemma reload_services_neutral: "\<forall>f \<in> set (reload_services name m m' allowed a). neutral f"
  by (auto simp: reload_services_def split: if_splits)

lemma remove_retired_Some:
  "remove_retired source lps = Some (lp, rest) \<Longrightarrow> lp_actor lp = source \<and> lp \<in> set lps"
  "remove_retired source lps = Some (lp, rest) \<Longrightarrow> length (filter P lps) = length (filter P rest) + (if P lp then 1 else 0)"
  by (induction lps arbitrary: rest) (auto split: if_splits option.splits)

lemma omap_ok_distinct: "omap_ok m \<Longrightarrow> keys_distinct m"
  by (simp add: strict_sorted_iff)

lemma find_map_of:
  assumes "omap_ok m" "find (\<lambda>(n, x). P x) m = Some (n, x)"
  shows "map_of m n = Some x \<and> P x"
  using assms by (auto simp: find_Some_iff strict_sorted_iff dest!: nth_mem intro!: map_of_is_SomeI)

lemma find_None_all: "find (\<lambda>(n, x). P x) m = None \<longleftrightarrow> (\<forall>(n, x) \<in> set m. \<not> P x)"
  by (auto simp: find_None_iff)

subsection \<open>The ways a handler can end\<close>

definition loads :: "string \<Rightarrow> answers \<Rightarrow> string \<Rightarrow> manager \<Rightarrow> library \<Rightarrow> address list \<Rightarrow> bool" where
  "loads name an path st lib deps \<longleftrightarrow> map_of (pm_plugins st) name = None \<and> an_library an path = Some lib \<and> lib_symbols lib \<and>
     \<not> has_cycle_from (add_plugin name (mf_dependencies (lib_manifest lib))
         (register_services name (mf_provides (lib_manifest lib)) (pm_dep_graph st))) name \<and>
     resolve_deps (an_deps an) (mf_dependencies (lib_manifest lib)) = Inr deps"

lemma load_cases:
  obtains (fails) g fx r where "load_plugin name path an st = (st\<lparr>pm_dep_graph := g\<rparr>, fx, r)" "r \<noteq> Done True"
      "fx \<in> {[], [Close_library], [Create (an_instance an), Destroy (an_instance an), Close_library]}" "\<forall>lib deps. \<not> loads name an path st lib deps"
  | (loads) g lib deps where "loads name an path st lib deps"
      "load_plugin name path an st = load_start name path an (lib_manifest lib) deps (st\<lparr>pm_dep_graph := g\<rparr>)"
proof (cases "\<exists>lib deps. loads name an path st lib deps")
  case True
  then show thesis using loads by (auto simp: load_plugin_def loads_def Let_def)
next
  case False
  let ?g = "\<lambda>lib. add_plugin name (mf_dependencies (lib_manifest lib)) (register_services name (mf_provides (lib_manifest lib)) (pm_dep_graph st))"
  consider "map_of (pm_plugins st) name \<noteq> None \<or> an_library an path = None"
    | lib where "map_of (pm_plugins st) name = None" "an_library an path = Some lib" "\<not> lib_symbols lib"
    | lib where "map_of (pm_plugins st) name = None" "an_library an path = Some lib" "lib_symbols lib" "has_cycle_from (?g lib) name"
    | lib dep where "map_of (pm_plugins st) name = None" "an_library an path = Some lib" "lib_symbols lib" "\<not> has_cycle_from (?g lib) name"
        "resolve_deps (an_deps an) (mf_dependencies (lib_manifest lib)) = Inl dep"
    using False by (auto simp: loads_def) (metis option.exhaust sum.exhaust)+
  then show thesis
  proof cases
    case 1
    then obtain err where "load_plugin name path an st = (st, [], Failed err)" by (cases "map_of (pm_plugins st) name") (auto simp: load_plugin_def)
    then show thesis using False by (intro fails [of "pm_dep_graph st" "[]" "Failed err"]) simp_all
  next
    case 2
    then show thesis using False by (intro fails [of "pm_dep_graph st" "[Close_library]" "Done False"]) (simp_all add: load_plugin_def)
  next
    case (3 lib)
    then show thesis using False by (intro fails [of "?g lib" "[Create (an_instance an), Destroy (an_instance an), Close_library]" "Failed ''Circular dependency''"]) (simp_all add: load_plugin_def Let_def)
  next
    case (4 lib dep)
    then show thesis using False by (intro fails [of "?g lib" "[Create (an_instance an), Destroy (an_instance an), Close_library]" "Failed (''Missing dep: '' @ dep)"]) (simp_all add: load_plugin_def Let_def)
  qed
qed

lemma reload_cases:
  obtains (early) fx r where "reload_plugin name path an st = (st, fx, Failed r)" "\<forall>p. Ask_quiesce p \<notin> set fx"
      "fx \<in> {[], [Close_library], [Create (an_instance an), Destroy (an_instance an), Close_library]}"
  | (rollback) old fx ps svc r where "map_of (pm_plugins st) name = Some old" "quiesce_all an (mf_provides (lp_manifest old)) [] = (fx, ps, Some svc)"
      "reload_plugin name path an st =
        (st, Create (an_instance an) # fx @ map (\<lambda>p. Resume_proxy p (lp_actor old)) ps @ [Destroy (an_instance an), Close_library], Failed r)"
  | (switches) old manifest deps fx ps where "map_of (pm_plugins st) name = Some old" "quiesce_all an (mf_provides (lp_manifest old)) [] = (fx, ps, None)"
      "set (mf_provides (lp_manifest old)) \<subseteq> set (mf_provides manifest)" "\<exists>lib. an_library an path = Some lib \<and> manifest = lib_manifest lib"
      "reload_plugin name path an st =
        (case reload_switch name an old manifest deps ps st of (st', gx) \<Rightarrow> (st', Create (an_instance an) # fx @ gx, Done True))"
proof (cases "map_of (pm_plugins st) name")
  case None
  then show thesis using early by (simp add: reload_plugin_def)
next
  case (Some old)
  obtain fx ps failed where q: "quiesce_all an (mf_provides (lp_manifest old)) [] = (fx, ps, failed)" by (metis prod_cases3)
  show thesis
  proof (cases "an_library an path")
    case None
    then show thesis using Some early by (simp add: reload_plugin_def)
  next
    case lib: (Some lib)
    let ?m = "lib_manifest lib"
    let ?gone = "find (\<lambda>svc. svc \<notin> set (mf_provides ?m)) (mf_provides (lp_manifest old))"
    consider "\<not> lib_symbols lib" | "lib_symbols lib" "mf_name ?m \<noteq> name" | svc where "lib_symbols lib" "mf_name ?m = name" "?gone = Some svc"
      | dep where "lib_symbols lib" "mf_name ?m = name" "?gone = None" "resolve_deps (an_deps an) (mf_dependencies ?m) = Inl dep"
      | deps where "lib_symbols lib" "mf_name ?m = name" "?gone = None" "resolve_deps (an_deps an) (mf_dependencies ?m) = Inr deps"
      by (metis option.exhaust sum.exhaust)
    then show thesis
    proof cases
      case (5 deps)
      then have "set (mf_provides (lp_manifest old)) \<subseteq> set (mf_provides ?m)" by (auto simp: find_None_iff)
      then show thesis
        using Some lib 5 q rollback [OF Some] switches [OF Some, of fx ps ?m deps]
        by (cases failed) (auto simp: reload_plugin_def Let_def case_prod_unfold)
    qed (use Some lib early in \<open>simp_all add: reload_plugin_def Let_def\<close>)
  qed
qed


subsection \<open>Counting instances\<close>

definition balanced :: "nat \<Rightarrow> manager \<Rightarrow> manager \<times> manager_effect list \<Rightarrow> bool" where
  "balanced i st = (\<lambda>(st', fx). manager_ok st' \<and> live i st' + destroyed i fx = live i st + created i fx)"

lemma live_graph [simp]: "live i (st\<lparr>pm_dep_graph := g\<rparr>) = live i st" "manager_ok (st\<lparr>pm_dep_graph := g\<rparr>) = manager_ok st"
  by (simp_all add: live_def manager_ok_def)

lemma load_balanced:
  assumes "manager_ok st" "pm_alive st"
  shows "balanced i st (fst (load_plugin name path an st), fst (snd (load_plugin name path an st)))"
proof (cases rule: load_cases [of name path an st])
  case (fails g fx r)
  then show ?thesis using assms by (auto simp: balanced_def)
next
  case (loads g lib deps)
  let ?p = "\<lparr>lp_instance = an_instance an, lp_actor = an_actor an, lp_manifest = lib_manifest lib, lp_asset_dir = an_asset_dir an path\<rparr>"
  have o: "omap_ok (pm_plugins st)" using assms by (simp add: manager_ok_def)
  have "map_of (pm_plugins st) name = None" using loads(1) by (simp add: loads_def)
  then show ?thesis
    using assms loads(2) o omap_count_set [OF o, of "\<lambda>lp. lp_instance lp = i" name ?p]
    by (auto simp: balanced_def load_start_def Let_def manager_ok_def live_def)
qed

lemma reload_balanced:
  assumes "manager_ok st" "pm_alive st"
  shows "balanced i st (fst (reload_plugin name path an st), fst (snd (reload_plugin name path an st)))"
proof (cases rule: reload_cases [of name path an st])
  case (early fx r)
  then show ?thesis using assms by (auto simp: balanced_def)
next
  case (rollback old fx ps svc r)
  then show ?thesis using assms quiesce_all_neutral [of an "mf_provides (lp_manifest old)" "[]"] by (auto simp: balanced_def)
next
  case (switches old manifest deps fx ps)
  let ?p = "\<lparr>lp_instance = an_instance an, lp_actor = an_actor an, lp_manifest = manifest, lp_asset_dir = lp_asset_dir old\<rparr>"
  have o: "omap_ok (pm_plugins st)" using assms by (simp add: manager_ok_def)
  show ?thesis
    using assms switches(1,5) switches(2) quiesce_all_neutral [of an "mf_provides (lp_manifest old)" "[]"] o
      omap_count_set [OF o, of "\<lambda>lp. lp_instance lp = i" name ?p]
    by (auto simp: balanced_def reload_switch_def Let_def manager_ok_def live_def reload_services_neutral)
qed

lemma unload_balanced:
  assumes "manager_ok st" "pm_alive st"
  shows "balanced i st (fst (unload_plugin name an st), fst (snd (unload_plugin name an st)))"
proof (cases "map_of (pm_plugins st) name")
  case (Some old)
  have o: "omap_ok (pm_plugins st)" using assms by (simp add: manager_ok_def)
  have "\<forall>f \<in> set (fst (snd (unload_plugin name an st))). neutral f"
    using Some by (auto simp: unload_plugin_def Let_def split: option.splits)
  then show ?thesis
    using assms Some omap_count_erase [OF o, of "\<lambda>lp. lp_instance lp = i" name] o
    by (auto simp: balanced_def unload_plugin_def Let_def manager_ok_def live_def)
qed (use assms in \<open>simp add: balanced_def unload_plugin_def\<close>)

lemma down_balanced:
  assumes "manager_ok st" "pm_alive st"
  shows "balanced i st (plugin_down source st)"
proof (cases "remove_retired source (pm_retired st)")
  case (Some x)
  then obtain lp rest where "remove_retired source (pm_retired st) = Some (lp, rest)" by (cases x) simp
  with remove_retired_Some(2) [OF this, of "\<lambda>lp. lp_instance lp = i"] assms show ?thesis
    by (auto simp: balanced_def plugin_down_def manager_ok_def live_def)
next
  case None
  have o: "omap_ok (pm_plugins st)" using assms by (simp add: manager_ok_def)
  show ?thesis
  proof (cases "find (\<lambda>(n, lp). lp_actor lp = source) (pm_plugins st)")
    case (Some x)
    then obtain n lp where f: "find (\<lambda>(n, lp). lp_actor lp = source) (pm_plugins st) = Some (n, lp)" by (cases x) simp
    have "\<forall>f \<in> set (map Registry_unregister (mf_provides (lp_manifest lp))). neutral f" by auto
    with find_map_of [OF o f] omap_count_erase [OF o, of "\<lambda>lp. lp_instance lp = i" n] None f assms o show ?thesis
      by (auto simp: balanced_def plugin_down_def manager_ok_def live_def)
  qed (use None assms in \<open>simp add: balanced_def plugin_down_def\<close>)
qed

lemma step_balanced:
  assumes "manager_ok st" "pm_alive st"
  shows "balanced i st (fst (manager_step e st), fst (snd (manager_step e st)))"
proof (cases e)
  case Exit_msg
  have "destroyed i (map (\<lambda>(n, lp). Destroy (lp_instance lp)) (pm_plugins st)) = length (filter (\<lambda>(n, lp). lp_instance lp = i) (pm_plugins st))"
    using destroyed_map [of i "\<lambda>(n, lp). lp_instance lp" "pm_plugins st"] by (simp add: case_prod_unfold)
  moreover have "created i (map (\<lambda>(n, lp). Destroy (lp_instance lp)) (pm_plugins st)) = 0" "created i (map (\<lambda>lp. Destroy (lp_instance lp)) (pm_retired st)) = 0"
    by (auto simp: created_def filter_empty_conv)
  ultimately show ?thesis using Exit_msg by (simp add: balanced_def manager_exit_def manager_ok_def live_def destroyed_map Let_def)
qed (use assms load_balanced reload_balanced unload_balanced down_balanced in \<open>auto simp: balanced_def Let_def case_prod_unfold\<close>)

lemma run_balanced:
  assumes "manager_ok st"
  shows "balanced i st (manager_run es st)"
  using assms
proof (induction es arbitrary: st)
  case (Cons e es)
  show ?case
  proof (cases "pm_alive st")
    case True
    have b: "balanced i st (fst (manager_step e st), fst (snd (manager_step e st)))" using Cons.prems True by (rule step_balanced)
    then have "manager_ok (fst (manager_step e st))" by (simp add: balanced_def)
    from Cons.IH [OF this] b True show ?thesis by (simp add: balanced_def Let_def case_prod_unfold)
  qed (use Cons.prems in \<open>simp add: balanced_def\<close>)
qed (simp add: balanced_def)

lemma empty_manager_ok [simp]: "manager_ok empty_manager" "live i empty_manager = 0"
  by (simp_all add: manager_ok_def live_def empty_manager_def)

lemma resolve_deps_Inr: "resolve_deps f deps = Inr as \<longleftrightarrow> map f deps = map Some as"
proof (induction deps arbitrary: as)
  case (Cons d deps)
  show ?case by (cases as) (auto simp flip: Cons.IH split: option.splits sum.splits)
qed auto

definition demo_manifest :: "string \<Rightarrow> string list \<Rightarrow> string list \<Rightarrow> plugin_manifest" where
  "demo_manifest name deps svcs =
     \<lparr>mf_name = name, mf_version = ''1'', mf_dependencies = deps, mf_provides = svcs, mf_priority = 0, mf_acl_allow = []\<rparr>"

definition demo_answers :: "plugin_manifest \<Rightarrow> nat \<Rightarrow> address \<Rightarrow> bool \<Rightarrow> answers" where
  "demo_answers m i a quiesced =
     \<lparr>an_library = (\<lambda>_. Some \<lparr>lib_symbols = True, lib_manifest = m\<rparr>), an_asset_dir = (\<lambda>_. ''dir''), an_instance = i, an_actor = a,
      an_deps = (\<lambda>_. Some (0, 50)), an_proxy = (\<lambda>svc. if svc = ''s'' then Some (0, 9) else None), an_quiesced = (\<lambda>_. quiesced),
      an_acl = (\<lambda>_. None), an_state = []\<rparr>"

definition demo_manager :: manager where
  "demo_manager = empty_manager\<lparr>pm_plugins :=
     [(''p'', \<lparr>lp_instance = 1, lp_actor = (0, 1), lp_manifest = demo_manifest ''p'' [] [''s''], lp_asset_dir = ''dir''\<rparr>)]\<rparr>"

lemmas manager_exec = demo_manager_def empty_manager_def demo_answers_def demo_manifest_def load_plugin_def load_start_def reload_plugin_def
  reload_switch_def reload_services_def unload_plugin_def plugin_down_def manager_exit_def collect_allowed_def Let_def

section \<open>Properties\<close>

text \<open>C4. Instances are destroyed exactly once: in every run of the manager the number of times an instance was created equals the number
  of times it was destroyed plus its places in the tables; when the manager has ended, every instance it created has been destroyed
  as often as it was created.\<close>

theorem instances_destroyed_once:
  "(case manager_run es empty_manager of (st, fx) \<Rightarrow>
     created i fx = destroyed i fx + live i st \<and> (\<not> pm_alive st \<longrightarrow> destroyed i fx = created i fx))"
proof -
  have "balanced i empty_manager (manager_run es empty_manager)" by (rule run_balanced) simp
  then show ?thesis by (auto simp: balanced_def case_prod_unfold manager_ok_def) (simp add: live_def)
qed

theorem instances_destroyed_once_witness:
  "destroyed 1 (snd (manager_run [Load ''p'' ''path'' (demo_answers (demo_manifest ''p'' [] [''s'']) 1 (0, 1) True),
      Reload ''p'' ''path'' (demo_answers (demo_manifest ''p'' [] [''s'']) 2 (0, 2) True), Plugin_down (0, 1), Exit_msg] empty_manager)) = 1"
  using instances_destroyed_once [where i = 1 and es = "[Load ''p'' ''path'' (demo_answers (demo_manifest ''p'' [] [''s'']) 1 (0, 1) True),
      Reload ''p'' ''path'' (demo_answers (demo_manifest ''p'' [] [''s'']) 2 (0, 2) True), Plugin_down (0, 1), Exit_msg]"]
  by (simp add: manager_exec has_cycle_from_def dfs.simps add_plugin_def register_service_def empty_graph_def)

text \<open>A load succeeds exactly when the name is free, the library opens and has its symbols, the plugin closes no dependency cycle and
  every dependency has an actor.  Then the table gains exactly this plugin, spawned with the actors of its dependencies in the order of
  the manifest; otherwise the tables do not change, and an instance that was created has been destroyed.\<close>

theorem load_outcome:
  "(case manager_step (Load name path an) st of (st', fx, r) \<Rightarrow>
     (r = Done True \<longleftrightarrow> (\<exists>lib. map_of (pm_plugins st) name = None \<and> an_library an path = Some lib \<and> lib_symbols lib \<and>
        \<not> has_cycle_from (pm_dep_graph st') name \<and> (\<forall>dep \<in> set (mf_dependencies (lib_manifest lib)). an_deps an dep \<noteq> None))) \<and>
     (if r = Done True
      then \<exists>lib deps. an_library an path = Some lib \<and> map (an_deps an) (mf_dependencies (lib_manifest lib)) = map Some deps \<and>
        Spawn (an_instance an) deps (an_actor an) \<in> set fx \<and> pm_retired st' = pm_retired st \<and>
        pm_plugins st' = omap_set name \<lparr>lp_instance = an_instance an, lp_actor = an_actor an, lp_manifest = lib_manifest lib,
            lp_asset_dir = an_asset_dir an path\<rparr> (pm_plugins st)
      else pm_plugins st' = pm_plugins st \<and> pm_retired st' = pm_retired st \<and> created i fx = destroyed i fx))"
proof -
  have all: "(\<forall>dep \<in> set deps. an_deps an dep \<noteq> None) \<longleftrightarrow> (\<exists>as. resolve_deps (an_deps an) deps = Inr as)" for deps
  proof -
    have "(\<forall>dep \<in> set deps. an_deps an dep \<noteq> None) \<longleftrightarrow> (\<exists>as. map (an_deps an) deps = map Some as)"
      by (induction deps) (auto simp: Cons_eq_map_conv)
    then show ?thesis by (simp add: resolve_deps_Inr)
  qed
  show ?thesis
  proof (cases rule: load_cases [of name path an st])
    case (fails g fx r)
    have "\<not> (\<exists>lib. map_of (pm_plugins st) name = None \<and> an_library an path = Some lib \<and> lib_symbols lib \<and> \<not> has_cycle_from g name \<and>
        (\<forall>dep \<in> set (mf_dependencies (lib_manifest lib)). an_deps an dep \<noteq> None))"
    proof
      assume "\<exists>lib. map_of (pm_plugins st) name = None \<and> an_library an path = Some lib \<and> lib_symbols lib \<and> \<not> has_cycle_from g name \<and>
        (\<forall>dep \<in> set (mf_dependencies (lib_manifest lib)). an_deps an dep \<noteq> None)"
      then obtain lib where l: "map_of (pm_plugins st) name = None" "an_library an path = Some lib" "lib_symbols lib" "\<not> has_cycle_from g name"
        "\<forall>dep \<in> set (mf_dependencies (lib_manifest lib)). an_deps an dep \<noteq> None" by blast
      then obtain deps where d: "resolve_deps (an_deps an) (mf_dependencies (lib_manifest lib)) = Inr deps" using all by blast
      then have "has_cycle_from (add_plugin name (mf_dependencies (lib_manifest lib))
          (register_services name (mf_provides (lib_manifest lib)) (pm_dep_graph st))) name"
        using l fails(4) unfolding loads_def by blast
      moreover from this have "g = add_plugin name (mf_dependencies (lib_manifest lib))
          (register_services name (mf_provides (lib_manifest lib)) (pm_dep_graph st))"
        using fails(1) l(1,2,3) by (auto simp: load_plugin_def Let_def dest: arg_cong [where f = pm_dep_graph])
      ultimately show False using l(4) by simp
    qed
    then show ?thesis using fails(1,2,3) by auto
  next
    case (loads g lib deps)
    have g: "g = add_plugin name (mf_dependencies (lib_manifest lib)) (register_services name (mf_provides (lib_manifest lib)) (pm_dep_graph st))"
      using loads by (auto simp: load_plugin_def loads_def load_start_def Let_def dest: arg_cong [where f = pm_dep_graph])
    have d: "map (an_deps an) (mf_dependencies (lib_manifest lib)) = map Some deps" using loads(1) by (simp add: loads_def resolve_deps_Inr)
    have "\<forall>dep \<in> set (mf_dependencies (lib_manifest lib)). an_deps an dep \<noteq> None" using loads(1) all by (auto simp: loads_def)
    then show ?thesis
      using loads d unfolding g by (auto simp: loads_def load_start_def Let_def)
  qed
qed

end
