(* ===== verification/Hot_Reload.thy ===== *)
theory Hot_Reload
  imports Plugin_Manager
begin

text \<open>
  The plugin manager together with the proxies and the registry it controls.  The effects of the manager are delivered, in order, to the
  model of the proxy (with any calls in between) and to the model of the registry.  The theory shows how a reload hands a
  service over, how a failed one is rolled back, and that the registry follows the plugins that are loaded.
\<close>

section \<open>What a reload does to the proxies\<close>

text \<open>The messages that reach the proxy at \<open>p\<close>, in order; \<open>me\<close> is the manager.\<close>

fun proxy_event_of :: "address \<Rightarrow> address \<Rightarrow> manager_effect \<Rightarrow> proxy_event list" where
  "proxy_event_of me p (Ask_quiesce q) = (if q = p then [Quiesce] else [])"
| "proxy_event_of me p (Resume_proxy q a) = (if q = p then [Resume a (Some me)] else [])"
| "proxy_event_of me p _ = []"

definition proxy_events :: "address \<Rightarrow> address \<Rightarrow> manager_effect list \<Rightarrow> proxy_event list" where
  "proxy_events me p fx = concat (map (proxy_event_of me p) fx)"

lemma proxy_events_simps [simp]:
  "proxy_events me p [] = []" "proxy_events me p (f # fx) = proxy_event_of me p f @ proxy_events me p fx"
  "proxy_events me p (fx @ gx) = proxy_events me p fx @ proxy_events me p gx"
  by (simp_all add: proxy_events_def)

lemma proxy_events_none: "\<forall>f \<in> set fx. proxy_event_of me p f = [] \<Longrightarrow> proxy_events me p fx = []"
  by (induction fx) auto

lemma proxy_events_resume: "proxy_events me p (map (\<lambda>q. Resume_proxy q a) ps) = replicate (count_list ps p) (Resume a (Some me))"
  by (induction ps) auto

lemma reload_services_events: "proxy_events me p (reload_services name m m' allowed a) = []"
  by (rule proxy_events_none) (auto simp: reload_services_def)

text \<open>The pauses: as many as the proxy is paused for good, and one more when it is the one that did not answer.\<close>

lemma quiesce_all_events:
  assumes "quiesce_all an svcs ps = (fx, ps', failed)"
  shows "\<exists>qs. ps' = ps @ qs \<and> proxy_events me p fx =
    replicate (count_list qs p + (case failed of Some svc \<Rightarrow> if an_proxy an svc = Some p then 1 else 0 | None \<Rightarrow> 0)) Quiesce"
  using assms
proof (induction svcs arbitrary: ps fx)
  case (Cons svc svcs)
  show ?case
  proof (cases "an_proxy an svc")
    case (Some q)
    show ?thesis
    proof (cases "an_quiesced an svc")
      case True
      obtain fx' where q: "quiesce_all an svcs (ps @ [q]) = (fx', ps', failed)" and fx: "fx = Ask_quiesce q # fx'"
        using Cons.prems Some True by (cases "quiesce_all an svcs (ps @ [q])") auto
      from Cons.IH [OF q] fx show ?thesis by auto
    qed (use Cons.prems Some in auto)
  qed (use Cons.prems in auto)
qed simp

lemma quiesce_all_proxies:
  assumes "quiesce_all an svcs ps = (fx, ps', failed)"
  shows "failed = None \<Longrightarrow> set ps' = set ps \<union> {p. \<exists>svc \<in> set svcs. an_proxy an svc = Some p}"
    and "failed = Some svc \<Longrightarrow> svc \<in> set svcs \<and> (an_proxy an svc = None \<or> \<not> an_quiesced an svc)"
    and "Ask_quiesce p \<in> set fx \<Longrightarrow> p \<in> set ps' \<or> (\<exists>svc. failed = Some svc \<and> an_proxy an svc = Some p \<and> \<not> an_quiesced an svc)"
  using assms
proof (induction svcs arbitrary: ps fx)
  case (Cons s svcs)
  have more: "set (ps @ [q]) \<subseteq> set ps'" if "quiesce_all an svcs (ps @ [q]) = (fx', ps', failed)" for ps q fx'
    using quiesce_all_events [OF that, of "(0, 0)" "(0, 0)"] by auto
  {
    case 1
    then obtain q fx' where q: "an_proxy an s = Some q" "quiesce_all an svcs (ps @ [q]) = (fx', ps', failed)"
      by (auto simp: Let_def split: option.splits if_splits prod.splits)
    show ?case using Cons.IH(1) [OF 1(1) q(2)] q(1) by auto
  next
    case 2
    then show ?case using Cons.IH(2) by (auto simp: Let_def split: option.splits if_splits prod.splits)
  next
    case 3
    show ?case
    proof (cases "an_proxy an s \<noteq> None \<and> an_quiesced an s")
      case True
      then obtain q fx' where q: "quiesce_all an svcs (ps @ [q]) = (fx', ps', failed)" "fx = Ask_quiesce q # fx'"
        using 3 by (auto simp: Let_def split: prod.splits)
      show ?thesis using Cons.IH(3) [OF _ q(1)] more [OF q(1)] 3(1) q(2) by auto
    qed (use 3 in \<open>auto split: option.splits\<close>)
  }
qed simp_all

text \<open>A proxy under pauses and resumptions, whatever else it handles.\<close>

fun is_control :: "proxy_event \<Rightarrow> bool" where
  "is_control Quiesce = True"
| "is_control (Resume _ _) = True"
| "is_control _ = False"

fun control :: "bool \<times> address option \<Rightarrow> proxy_event \<Rightarrow> bool \<times> address option" where
  "control (paused, current) Quiesce = (True, current)"
| "control (paused, current) (Resume a s) = (False, Some a)"
| "control pc _ = pc"

lemma handle_control:
  assumes "px_alive (fst (proxy_handle node e st))"
  shows "(px_paused (fst (proxy_handle node e st)), px_current (fst (proxy_handle node e st))) =
    (if is_control e then control (px_paused st, px_current st) e else (px_paused st, px_current st))"
  using assms by (cases e) (auto simp: default_handler_def proxy_down_def set_acl_def quiesce_def resume_def Let_def split: option.splits if_splits)

lemma run_control:
  assumes "px_alive (fst (proxy_run node es st))"
  shows "(px_paused (fst (proxy_run node es st)), px_current (fst (proxy_run node es st))) =
    foldl control (px_paused st, px_current st) (filter is_control es)"
  using assms
proof (induction es arbitrary: st)
  case (Cons e es)
  have alive: "px_alive st" using Cons.prems by (rule proxy_run_alive)
  then have run: "px_alive (fst (proxy_run node es (fst (proxy_handle node e st))))"
    using Cons.prems by (simp add: Let_def case_prod_unfold)
  then have alive': "px_alive (fst (proxy_handle node e st))" by (rule proxy_run_alive)
  from Cons.IH [OF run] handle_control [OF alive'] alive show ?case by (simp add: Let_def case_prod_unfold)
qed simp

lemma control_quiesce: "foldl control (x, c) (replicate n Quiesce) = (x \<or> 0 < n, c)"
  by (induction n arbitrary: x) auto

lemma control_resume: "foldl control (x, c) (replicate n (Resume a s)) = (if n = 0 then (x, c) else (False, Some a))"
  by (induction n arbitrary: x c) auto

text \<open>Once paused, a proxy passes calls only to the target of the resumptions.\<close>

lemma paused_then_delegates:
  assumes "px_paused st \<or> px_current st = Some a" "\<forall>b s. Resume b s \<in> set es \<longrightarrow> b = a"
    "px_alive (fst (proxy_run node es st))" "(e, fx, r) \<in> set (snd (proxy_run node es st))" "Delegate t m s i \<in> set fx"
  shows "t = a"
  using assms
proof (induction es arbitrary: st)
  case (Cons e' es)
  let ?st = "fst (proxy_handle node e' st)"
  have alive: "px_alive st" using Cons.prems(3) by (rule proxy_run_alive)
  then have run: "px_alive (fst (proxy_run node es ?st))" using Cons.prems(3) by (simp add: Let_def case_prod_unfold)
  then have alive': "px_alive ?st" by (rule proxy_run_alive)
  have next': "px_paused ?st \<or> px_current ?st = Some a"
    using handle_control [OF alive'] Cons.prems(1,2) by (cases e') auto
  show ?case
  proof (cases "(e, fx, r) \<in> set (snd (proxy_run node es ?st))")
    case True
    have later: "\<forall>b s. Resume b s \<in> set es \<longrightarrow> b = a" using Cons.prems(2) by (meson list.set_intros(2))
    show ?thesis by (rule Cons.IH [OF next' later run True Cons.prems(5)])
  next
    case False
    then have "fx = fst (snd (proxy_handle node e' st))" using Cons.prems(4) alive by (auto simp: Let_def case_prod_unfold) (metis fst_conv)
    then have "Delegate t m s i \<in> set (fst (snd (proxy_handle node e' st)))" using Cons.prems(5) by simp
    then have cur: "px_current ?st = Some t" and gate: "px_paused st \<Longrightarrow> is_resume e'"
      using handle_delegates proxy_gate.paused_silent [of st e' node] by fastforce+
    show ?thesis
    proof (cases "is_resume e'")
      case True
      then obtain b u where "e' = Resume b u" by (cases e') auto
      moreover from this have "b = a" using Cons.prems(2) by (meson list.set_intros(1))
      ultimately show ?thesis using cur by (simp add: resume_def Let_def)
    next
      case False
      then have "px_current ?st = px_current st" "px_current st = Some a"
        using handle_control [OF alive'] gate Cons.prems(1) by (cases e'; auto)+
      then show ?thesis using cur by simp
    qed
  qed
qed simp

section \<open>What the manager leaves in the registry\<close>

text \<open>The messages that reach the registry; \<open>fresh\<close> gives the address of a new proxy.\<close>

fun registry_event_of :: "(string \<Rightarrow> address) \<Rightarrow> manager_effect \<Rightarrow> registry_event list" where
  "registry_event_of fresh (Registry_register svc a name) = [Register svc a name [] (fresh svc)]"
| "registry_event_of fresh (Registry_hot_reload svc a) = [Hot_reload svc a]"
| "registry_event_of fresh (Registry_unregister svc) = [Unregister svc]"
| "registry_event_of fresh (Registry_set_acl svc allowed) = [Set_service_acl svc allowed]"
| "registry_event_of fresh _ = []"

definition to_registry :: "(string \<Rightarrow> address) \<Rightarrow> manager_effect list \<Rightarrow> registry \<Rightarrow> registry" where
  "to_registry fresh fx rg = fst (registry_run (concat (map (registry_event_of fresh) fx)) rg)"

definition impl_of :: "registry \<Rightarrow> string \<Rightarrow> address option" where
  "impl_of rg svc = map_option ve_impl (map_of (rg_services rg) svc)"

lemma registry_run_append:
  "registry_run (es @ fs) st = (let (st1, fx) = registry_run es st; (st2, gx) = registry_run fs st1 in (st2, fx @ gx))"
  by (induction es arbitrary: st) (auto simp: Let_def case_prod_unfold)

lemma to_registry_simps [simp]:
  "to_registry fresh [] rg = rg" "to_registry fresh (fx @ gx) rg = to_registry fresh gx (to_registry fresh fx rg)"
  "to_registry fresh (f # fx) rg = to_registry fresh fx (fst (registry_run (registry_event_of fresh f) rg))"
  by (simp_all add: to_registry_def registry_run_append Let_def case_prod_unfold)

lemma to_registry_silent: "\<forall>f \<in> set fx. registry_event_of fresh f = [] \<Longrightarrow> to_registry fresh fx rg = rg"
  by (induction fx arbitrary: rg) auto

lemma to_registry_unregister:
  assumes "omap_ok (rg_services rg)"
  shows "omap_ok (rg_services (to_registry fresh (map Registry_unregister svcs) rg)) \<and>
    impl_of (to_registry fresh (map Registry_unregister svcs) rg) svc = (if svc \<in> set svcs then None else impl_of rg svc)"
  using assms
proof (induction svcs arbitrary: rg)
  case (Cons s svcs)
  have "omap_ok (rg_services (fst (registry_unregister s rg))) \<and> impl_of (fst (registry_unregister s rg)) svc = (if svc = s then None else impl_of rg svc)"
    using Cons.prems by (auto simp: registry_unregister_def impl_of_def split: option.splits)
  with Cons.IH [of "fst (registry_unregister s rg)"] show ?case by (auto simp: Let_def case_prod_unfold)
qed simp

lemma to_registry_register:
  assumes "omap_ok (rg_services rg)"
  shows "omap_ok (rg_services (to_registry fresh (map (\<lambda>svc. Registry_register svc a name) svcs) rg)) \<and>
    impl_of (to_registry fresh (map (\<lambda>svc. Registry_register svc a name) svcs) rg) svc =
      (if svc \<in> set svcs \<and> impl_of rg svc = None then Some a else impl_of rg svc)"
  using assms
proof (induction svcs arbitrary: rg)
  case (Cons s svcs)
  let ?rg = "fst (registry_register s a name [] (fresh s) rg)"
  have "omap_ok (rg_services ?rg) \<and> impl_of ?rg svc = (if svc = s \<and> impl_of rg svc = None then Some a else impl_of rg svc)"
    using Cons.prems by (auto simp: registry_register_def impl_of_def)
  with Cons.IH [of ?rg] show ?case by (auto simp: Let_def case_prod_unfold)
qed simp

lemma to_registry_reload:
  assumes "omap_ok (rg_services rg)"
  shows "omap_ok (rg_services (to_registry fresh (reload_services name m m' allowed a) rg)) \<and>
    impl_of (to_registry fresh (reload_services name m m' allowed a) rg) svc =
      (if svc \<in> set (mf_provides m') \<and> (svc \<in> set (mf_provides m) \<longleftrightarrow> impl_of rg svc \<noteq> None) then Some a else impl_of rg svc)"
  using assms unfolding reload_services_def
proof (induction "mf_provides m'" arbitrary: m' rg)
  case (Cons s svcs)
  let ?f = "if s \<notin> set (mf_provides m) then Registry_register s a name # (if allowed \<noteq> [] then [Registry_set_acl s allowed] else []) else [Registry_hot_reload s a]"
  let ?rg = "to_registry fresh ?f rg"
  have svcs: "svcs = mf_provides (m'\<lparr>mf_provides := svcs\<rparr>)" by simp
  have acl: "fst (registry_step (Set_service_acl s allowed) r) = r" for r by simp
  have step: "omap_ok (rg_services ?rg) \<and>
      impl_of ?rg svc = (if svc = s \<and> (s \<in> set (mf_provides m) \<longleftrightarrow> impl_of rg svc \<noteq> None) then Some a else impl_of rg svc)"
    using Cons.prems by (auto simp: registry_register_def registry_hot_reload_def impl_of_def Let_def case_prod_unfold split: option.splits)
  from Cons.hyps(1) [OF svcs, of ?rg] step show ?case
    unfolding Cons.hyps(2) [symmetric] by (auto simp del: registry_run.simps)
qed simp

subsection \<open>The manager and the registry together\<close>

definition disjoint_provides :: "manager \<Rightarrow> bool" where
  "disjoint_provides st \<longleftrightarrow> (\<forall>(n, lp) \<in> set (pm_plugins st). \<forall>(n', lp') \<in> set (pm_plugins st).
     n \<noteq> n' \<longrightarrow> set (mf_provides (lp_manifest lp)) \<inter> set (mf_provides (lp_manifest lp')) = {})"

fun clash_free :: "manager_event list \<Rightarrow> manager \<Rightarrow> bool" where
  "clash_free [] st = disjoint_provides st"
| "clash_free (e # es) st = (disjoint_provides st \<and> clash_free es (fst (manager_step e st)))"

fun system_run :: "(string \<Rightarrow> address) \<Rightarrow> manager_event list \<Rightarrow> manager \<times> registry \<Rightarrow> manager \<times> registry" where
  "system_run fresh [] (st, rg) = (st, rg)"
| "system_run fresh (e # es) (st, rg) =
     (if pm_alive st then let (st', fx, r) = manager_step e st in system_run fresh es (st', to_registry fresh fx rg) else (st, rg))"

definition provided_by :: "manager \<Rightarrow> string \<Rightarrow> address \<Rightarrow> bool" where
  "provided_by st svc a \<longleftrightarrow> (\<exists>n lp. map_of (pm_plugins st) n = Some lp \<and> svc \<in> set (mf_provides (lp_manifest lp)) \<and> lp_actor lp = a)"

definition mirrors :: "manager \<Rightarrow> registry \<Rightarrow> bool" where
  "mirrors st rg \<longleftrightarrow> manager_ok st \<and> omap_ok (rg_services rg) \<and> (\<forall>svc a. impl_of rg svc = Some a \<longleftrightarrow> provided_by st svc a)"

lemma mirrorsD:
  assumes "mirrors st rg"
  shows "omap_ok (pm_plugins st)" "omap_ok (rg_services rg)" "impl_of rg svc = Some a \<longleftrightarrow> provided_by st svc a"
  using assms by (simp_all add: mirrors_def manager_ok_def del: split_paired_All)

lemma disjoint_provides_lookup:
  assumes "disjoint_provides st" "omap_ok (pm_plugins st)" "map_of (pm_plugins st) n = Some lp" "map_of (pm_plugins st) n' = Some lp'"
    "svc \<in> set (mf_provides (lp_manifest lp))" "svc \<in> set (mf_provides (lp_manifest lp'))"
  shows "n = n'"
proof (rule ccontr)
  assume "n \<noteq> n'"
  moreover have "(n, lp) \<in> set (pm_plugins st)" "(n', lp') \<in> set (pm_plugins st)" using assms(3,4) by (auto dest: map_of_SomeD)
  ultimately show False using assms(1,5,6) by (fastforce simp: disjoint_provides_def)
qed

definition provides :: "loaded_plugin option \<Rightarrow> string \<Rightarrow> address \<Rightarrow> bool" where
  "provides x svc a \<longleftrightarrow> (\<exists>lp. x = Some lp \<and> svc \<in> set (mf_provides (lp_manifest lp)) \<and> lp_actor lp = a)"

definition others_provide :: "manager \<Rightarrow> string \<Rightarrow> string \<Rightarrow> address \<Rightarrow> bool" where
  "others_provide st name svc a \<longleftrightarrow> (\<exists>n. n \<noteq> name \<and> provides (map_of (pm_plugins st) n) svc a)"

lemma provides_simps [simp]:
  "\<not> provides None svc a" "provides (Some lp) svc a \<longleftrightarrow> svc \<in> set (mf_provides (lp_manifest lp)) \<and> lp_actor lp = a"
  by (auto simp: provides_def)

lemma provided_by_update:
  assumes "\<And>n. map_of (pm_plugins st') n = (if n = name then x else map_of (pm_plugins st) n)"
  shows "provided_by st' svc a \<longleftrightarrow> provides x svc a \<or> others_provide st name svc a"
proof -
  have "provided_by st' svc a \<longleftrightarrow> (\<exists>n. provides (map_of (pm_plugins st') n) svc a)" unfolding provided_by_def provides_def ..
  also have "\<dots> \<longleftrightarrow> provides x svc a \<or> others_provide st name svc a" unfolding assms others_provide_def by metis
  finally show ?thesis .
qed

lemma provided_by_split: "provided_by st svc a \<longleftrightarrow> provides (map_of (pm_plugins st) name) svc a \<or> others_provide st name svc a"
  by (rule provided_by_update) simp

lemma to_registry_acl [simp]: "to_registry fresh (map (\<lambda>svc. Registry_set_acl svc allowed) svcs) rg = rg"
  by (induction svcs) auto

lemma silent_effects [simp]:
  "to_registry fresh (map (\<lambda>p. Resume_proxy p a) ps) rg = rg"
  "to_registry fresh (map (\<lambda>(n, lp). Service_gone (lp_actor lp) gone) xs) rg = rg"
  "to_registry fresh (concat (map (\<lambda>svc. case f svc of Some p \<Rightarrow> [Ask_quiesce p] | None \<Rightarrow> []) svcs)) rg = rg"
  by (auto intro!: to_registry_silent split: option.splits)

lemma quiesce_all_silent: "to_registry fresh (fst (quiesce_all an svcs ps)) rg = rg"
proof (rule to_registry_silent)
  show "\<forall>f \<in> set (fst (quiesce_all an svcs ps)). registry_event_of fresh f = []"
    by (induction svcs arbitrary: ps) (auto simp: Let_def case_prod_unfold split: option.splits)
qed

lemma mirrors_load:
  assumes "mirrors st rg" "disjoint_provides (fst (load_plugin name path an st))" "manager_ok (fst (load_plugin name path an st))"
  shows "mirrors (fst (load_plugin name path an st)) (to_registry fresh (fst (snd (load_plugin name path an st))) rg)"
proof (cases rule: load_cases [of name path an st])
  case (fails g fx r)
  then have "to_registry fresh fx rg = rg" by auto
  then show ?thesis using fails assms(1) by (simp add: mirrors_def provided_by_def)
next
  case (loads g lib deps)
  let ?m = "lib_manifest lib"
  let ?st = "fst (load_plugin name path an st)" and ?rg = "to_registry fresh (map (\<lambda>svc. Registry_register svc (an_actor an) name) (mf_provides ?m)) rg"
  let ?p = "\<lparr>lp_instance = an_instance an, lp_actor = an_actor an, lp_manifest = ?m, lp_asset_dir = an_asset_dir an path\<rparr>"
  note o = mirrorsD(1,2) [OF assms(1)] and i = mirrorsD(3) [OF assms(1)]
  have new: "map_of (pm_plugins st) name = None" using loads(1) by (simp add: loads_def)
  have rg: "to_registry fresh (fst (snd (load_plugin name path an st))) rg = ?rg" using loads(2) by (simp add: load_start_def Let_def)
  have plugins: "map_of (pm_plugins ?st) n = (if n = name then Some ?p else map_of (pm_plugins st) n)" for n
    using loads(2) o(1) by (simp add: load_start_def Let_def)
  have o': "omap_ok (pm_plugins ?st)" using assms(3) by (simp add: manager_ok_def)
  have "impl_of rg svc = None" if "svc \<in> set (mf_provides ?m)" for svc
  proof (rule ccontr)
    assume "impl_of rg svc \<noteq> None"
    then obtain n lp where n: "map_of (pm_plugins st) n = Some lp" "svc \<in> set (mf_provides (lp_manifest lp))" using i by (auto simp: provided_by_def)
    then have "n \<noteq> name" using new by auto
    then have "map_of (pm_plugins ?st) n = Some lp" "map_of (pm_plugins ?st) name = Some ?p" using n(1) plugins by simp_all
    from disjoint_provides_lookup [OF assms(2) o' this n(2)] that \<open>n \<noteq> name\<close> show False by simp
  qed
  then have "impl_of ?rg svc = (if svc \<in> set (mf_provides ?m) then Some (an_actor an) else impl_of rg svc)" for svc
    using to_registry_register [OF o(2), of fresh "an_actor an" name "mf_provides ?m" svc] by simp
  moreover have "provided_by ?st svc a \<longleftrightarrow> (svc \<in> set (mf_provides ?m) \<and> a = an_actor an) \<or> provided_by st svc a" for svc a
    unfolding provided_by_update [OF plugins] provided_by_split [of st svc a name] new by auto
  ultimately show ?thesis
    unfolding rg mirrors_def using assms(3) i to_registry_register [OF o(2), of fresh "an_actor an" name "mf_provides ?m"]
      \<open>\<And>svc. svc \<in> set (mf_provides ?m) \<Longrightarrow> impl_of rg svc = None\<close> by (metis option.distinct(1) option.inject)
qed

lemma mirrors_reload:
  assumes "mirrors st rg" "disjoint_provides (fst (reload_plugin name path an st))" "manager_ok (fst (reload_plugin name path an st))" "disjoint_provides st"
  shows "mirrors (fst (reload_plugin name path an st)) (to_registry fresh (fst (snd (reload_plugin name path an st))) rg)"
proof (cases rule: reload_cases [of name path an st])
  case (early fx r)
  then have "to_registry fresh fx rg = rg" by auto
  then show ?thesis using early assms(1) by simp
next
  case (rollback old fx ps svc r)
  then show ?thesis
    using assms(1) quiesce_all_silent [of fresh an "mf_provides (lp_manifest old)" "[]"] by simp
next
  case (switches old manifest deps fx ps)
  let ?st = "fst (reload_plugin name path an st)" and ?al = "collect_allowed (pm_plugins st) (an_acl an) (mf_acl_allow manifest)"
  let ?p = "\<lparr>lp_instance = an_instance an, lp_actor = an_actor an, lp_manifest = manifest, lp_asset_dir = lp_asset_dir old\<rparr>"
  let ?rg = "to_registry fresh (reload_services name (lp_manifest old) manifest ?al (an_actor an)) rg"
  note o = mirrorsD(1,2) [OF assms(1)] and i = mirrorsD(3) [OF assms(1)]
  have o': "omap_ok (pm_plugins ?st)" using assms(3) by (simp add: manager_ok_def)
  have rg: "to_registry fresh (fst (snd (reload_plugin name path an st))) rg = ?rg"
    using switches(5) switches(2) quiesce_all_silent [of fresh an "mf_provides (lp_manifest old)" "[]"] by (simp add: reload_switch_def Let_def)
  have plugins: "map_of (pm_plugins ?st) n = (if n = name then Some ?p else map_of (pm_plugins st) n)" for n
    using switches(5) o(1) by (simp add: reload_switch_def Let_def)
  have only: "n = name" if "map_of (pm_plugins st) n = Some lp" "svc \<in> set (mf_provides (lp_manifest lp))" "svc \<in> set (mf_provides manifest)" for n lp svc
  proof (rule ccontr)
    assume "n \<noteq> name"
    then have "map_of (pm_plugins ?st) n = Some lp" "map_of (pm_plugins ?st) name = Some ?p" using that(1) plugins by simp_all
    from disjoint_provides_lookup [OF assms(2) o' this that(2)] that(3) \<open>n \<noteq> name\<close> show False by simp
  qed
  have cond: "svc \<in> set (mf_provides (lp_manifest old)) \<longleftrightarrow> impl_of rg svc \<noteq> None" if "svc \<in> set (mf_provides manifest)" for svc
  proof
    assume "svc \<in> set (mf_provides (lp_manifest old))"
    then have "provided_by st svc (lp_actor old)" using switches(1) unfolding provided_by_def by blast
    then show "impl_of rg svc \<noteq> None" using i [of svc "lp_actor old"] by simp
  next
    assume "impl_of rg svc \<noteq> None"
    then obtain a where "provided_by st svc a" using i by blast
    then show "svc \<in> set (mf_provides (lp_manifest old))" using only [OF _ _ that] switches(1) unfolding provided_by_def by fastforce
  qed
  have "impl_of ?rg svc = (if svc \<in> set (mf_provides manifest) then Some (an_actor an) else impl_of rg svc)" for svc
    using to_registry_reload [OF o(2), of fresh name "lp_manifest old" manifest ?al "an_actor an" svc] cond by auto
  moreover have "provided_by ?st svc a \<longleftrightarrow> (if svc \<in> set (mf_provides manifest) then a = an_actor an else provided_by st svc a)" for svc a
  proof -
    have "\<not> others_provide st name svc a" if "svc \<in> set (mf_provides manifest)"
      using only [OF _ _ that] unfolding others_provide_def provides_def by blast
    then show ?thesis unfolding provided_by_update [OF plugins] provided_by_split [of st svc a name] using switches(1,3) by auto
  qed
  ultimately show ?thesis
    unfolding rg mirrors_def using assms(3) i to_registry_reload [OF o(2), of fresh name "lp_manifest old" manifest ?al "an_actor an"] by auto
qed

lemma mirrors_removed:
  assumes "mirrors st rg" "disjoint_provides st" "map_of (pm_plugins st) name = Some old" "manager_ok st'"
    "\<And>n. map_of (pm_plugins st') n = (if n = name then None else map_of (pm_plugins st) n)"
  shows "mirrors st' (to_registry fresh (map Registry_unregister (mf_provides (lp_manifest old))) rg)"
proof -
  note o = mirrorsD(1,2) [OF assms(1)] and i = mirrorsD(3) [OF assms(1)]
  have "provided_by st' svc a \<longleftrightarrow> svc \<notin> set (mf_provides (lp_manifest old)) \<and> provided_by st svc a" for svc a
  proof -
    have "\<not> others_provide st name svc a" if "svc \<in> set (mf_provides (lp_manifest old))"
      using disjoint_provides_lookup [OF assms(2) o(1) _ assms(3) _ that] unfolding others_provide_def provides_def by blast
    then show ?thesis unfolding provided_by_update [OF assms(5)] provided_by_split [of st svc a name] using assms(3) by auto
  qed
  then show ?thesis
    unfolding mirrors_def using assms(4) i to_registry_unregister [OF o(2), of fresh "mf_provides (lp_manifest old)"] by auto
qed

lemma mirrors_step:
  assumes "mirrors st rg" "pm_alive st" "disjoint_provides st" "disjoint_provides (fst (manager_step e st))" "pm_alive (fst (manager_step e st))"
  shows "mirrors (fst (manager_step e st)) (to_registry fresh (fst (snd (manager_step e st))) rg)"
proof -
  have ok: "manager_ok st" using assms(1) by (simp add: mirrors_def)
  have ok': "manager_ok (fst (manager_step e st))" using step_balanced [OF ok assms(2), of 0 e] by (simp add: balanced_def)
  show ?thesis
  proof (cases e)
    case (Unload name an)
    show ?thesis
    proof (cases "map_of (pm_plugins st) name")
      case (Some old)
      then show ?thesis
        using mirrors_removed [OF assms(1,3) Some ok', of fresh] Unload by (auto simp: unload_plugin_def Let_def)
    qed (use Unload assms(1) in \<open>simp add: unload_plugin_def\<close>)
  next
    case (Plugin_down source)
    show ?thesis
    proof (cases "remove_retired source (pm_retired st)")
      case None
      have o: "omap_ok (pm_plugins st)" using ok by (simp add: manager_ok_def)
      show ?thesis
      proof (cases "find (\<lambda>(n, lp). lp_actor lp = source) (pm_plugins st)")
        case (Some x)
        then obtain n lp where f: "find (\<lambda>(n, lp). lp_actor lp = source) (pm_plugins st) = Some (n, lp)" by (cases x) simp
        then have "map_of (pm_plugins st) n = Some lp" using find_map_of [OF o f] by simp
        from mirrors_removed [OF assms(1,3) this ok', of fresh] None f Plugin_down show ?thesis by (simp add: plugin_down_def)
      qed (use None Plugin_down assms(1) in \<open>simp add: plugin_down_def\<close>)
    next
      case (Some x)
      then show ?thesis
        using Plugin_down assms(1) ok' by (cases x) (simp add: plugin_down_def mirrors_def provided_by_def)
    qed
  next
    case Exit_msg
    then show ?thesis using assms(5) by (simp add: manager_exit_def)
  qed (use assms ok' mirrors_load mirrors_reload in auto)
qed

lemma manager_step_exit: "\<not> pm_alive st \<Longrightarrow> system_run fresh es (st, rg) = (st, rg)"
  by (cases es) auto

lemma system_run_mirrors:
  assumes "mirrors st rg" "clash_free es st" "pm_alive (fst (system_run fresh es (st, rg)))"
  shows "mirrors (fst (system_run fresh es (st, rg))) (snd (system_run fresh es (st, rg)))"
  using assms
proof (induction es arbitrary: st rg)
  case (Cons e es)
  let ?st = "fst (manager_step e st)" and ?rg = "to_registry fresh (fst (snd (manager_step e st))) rg"
  have alive: "pm_alive st" using Cons.prems(3) by (cases "pm_alive st") auto
  then have run: "system_run fresh (e # es) (st, rg) = system_run fresh es (?st, ?rg)" by (simp add: Let_def case_prod_unfold)
  have alive': "pm_alive ?st"
  proof (rule ccontr)
    assume "\<not> pm_alive ?st"
    with manager_step_exit [OF this, of fresh es ?rg] Cons.prems(3) show False unfolding run by simp
  qed
  have "disjoint_provides ?st" using Cons.prems(2) by (cases es) auto
  with Cons.prems(1,2) alive alive' have "mirrors ?st ?rg" by (intro mirrors_step) auto
  from Cons.IH [OF this _ Cons.prems(3) [unfolded run]] Cons.prems(2) show ?case by (simp only: run clash_free.simps)
qed simp

subsection \<open>The control messages of a reload\<close>

lemma reload_done_events:
  assumes "reload_plugin name path an st = (st', fx, Done True)" "map_of (pm_plugins st) name = Some old"
  obtains n where "proxy_events me p fx = replicate n Quiesce @ replicate n (Resume (an_actor an) (Some me))"
    "(\<exists>svc \<in> set (mf_provides (lp_manifest old)). an_proxy an svc = Some p) \<Longrightarrow> 0 < n"
proof (cases rule: reload_cases [of name path an st])
  case (switches old' manifest deps gx ps)
  have o: "old' = old" using assms(2) switches(1) by simp
  obtain qs where q: "ps = qs" "proxy_events me p gx = replicate (count_list ps p) Quiesce"
    using quiesce_all_events [OF switches(2), of me p] by auto
  have "set ps = {p. \<exists>svc \<in> set (mf_provides (lp_manifest old)). an_proxy an svc = Some p}"
    using quiesce_all_proxies(1) [OF switches(2)] o by simp
  then have pos: "0 < count_list ps p" if "\<exists>svc \<in> set (mf_provides (lp_manifest old)). an_proxy an svc = Some p"
    using that count_list_0_iff [of ps p] by auto
  have "proxy_events me p fx = replicate (count_list ps p) Quiesce @ replicate (count_list ps p) (Resume (an_actor an) (Some me))"
    using assms(1) switches(5) q(2) by (auto simp: reload_switch_def Let_def proxy_events_resume reload_services_events)
  from that [OF this pos] show thesis .
qed (use assms in auto)

lemma quiesce_all_answered: "quiesce_all an svcs ps = (fx, ps', failed) \<Longrightarrow> p \<in> set ps' \<Longrightarrow> p \<in> set ps \<or> (\<exists>svc. an_proxy an svc = Some p \<and> an_quiesced an svc)"
  by (induction svcs arbitrary: ps fx) (fastforce split: option.splits if_splits prod.splits simp: Let_def)+

lemma reload_failed_events:
  assumes "reload_plugin name path an st = (st', fx, Failed r)" "Ask_quiesce p \<in> set fx"
  obtains old svc ps where "map_of (pm_plugins st) name = Some old" "st' = st" "an_proxy an svc = None \<or> \<not> an_quiesced an svc"
    "proxy_events me p fx = replicate (count_list ps p + (if an_proxy an svc = Some p then 1 else 0)) Quiesce @
       replicate (count_list ps p) (Resume (lp_actor old) (Some me))"
    "p \<in> set ps \<or> (an_proxy an svc = Some p \<and> \<not> an_quiesced an svc)" "p \<in> set ps \<longrightarrow> (\<exists>svc. an_proxy an svc = Some p \<and> an_quiesced an svc)"
proof (cases rule: reload_cases [of name path an st])
  case (rollback old gx ps svc r')
  have ev: "proxy_events me p gx = replicate (count_list ps p + (if an_proxy an svc = Some p then 1 else 0)) Quiesce"
    using quiesce_all_events [OF rollback(2), of me p] by auto
  have fx: "fx = Create (an_instance an) # gx @ map (\<lambda>p. Resume_proxy p (lp_actor old)) ps @ [Destroy (an_instance an), Close_library]" "st' = st"
    using assms(1) rollback(3) by auto
  then have "Ask_quiesce p \<in> set gx" using assms(2) by auto
  then have "p \<in> set ps \<or> (an_proxy an svc = Some p \<and> \<not> an_quiesced an svc)"
    using quiesce_all_proxies(3) [OF rollback(2)] by blast
  moreover have "proxy_events me p fx = replicate (count_list ps p + (if an_proxy an svc = Some p then 1 else 0)) Quiesce @
       replicate (count_list ps p) (Resume (lp_actor old) (Some me))"
    unfolding fx using ev by (simp add: proxy_events_resume)
  moreover have "an_proxy an svc = None \<or> \<not> an_quiesced an svc" using quiesce_all_proxies(2) [OF rollback(2)] by blast
  moreover have "p \<in> set ps \<longrightarrow> (\<exists>svc. an_proxy an svc = Some p \<and> an_quiesced an svc)" using quiesce_all_answered [OF rollback(2), of p] by auto
  ultimately show thesis using that [OF rollback(1) fx(2)] by blast
qed (use assms in \<open>auto split: prod.splits\<close>)

section \<open>Properties\<close>

text \<open>C1. A reload hands a service over: let a reload of a loaded plugin succeed, let \<open>p\<close> be the proxy of one of its services, in any
  state it can be in, and let it handle the messages of the manager in order, with any calls, access lists and other
  events in between (\<open>a\<close> up to the pause, \<open>b\<close> after it).  Then from the pause on no call is passed to anyone but the new actor, and in the
  end the proxy is open, serves the new actor and holds back no call.\<close>

theorem reload_handover:
  assumes "manager_step (Reload name path an) st = (st', fx, Done True)" "map_of (pm_plugins st) name = Some old"
    "svc \<in> set (mf_provides (lp_manifest old))" "an_proxy an svc = Some p"
    "px = fst (proxy_run node pre (fst (spawn_service_proxy target allow_cross_node)))"
    "filter is_control (a @ Quiesce # b) = proxy_events me p fx" "filter is_control a = []"
    "px_alive (fst (proxy_run node (a @ Quiesce # b) px))"
  shows "(case proxy_run node (a @ Quiesce # b) px of (px', log) \<Rightarrow>
      \<not> px_paused px' \<and> px_current px' = Some (an_actor an) \<and> px_buffered px' = []) \<and>
    (\<forall>(e, ef, r) \<in> set (snd (proxy_run node (Quiesce # b) (fst (proxy_run node a px)))).
       \<forall>t m s i. Delegate t m s i \<in> set ef \<longrightarrow> t = an_actor an)"
proof -
  have re: "reload_plugin name path an st = (st', fx, Done True)" using assms(1) by simp
  obtain n where n: "proxy_events me p fx = replicate n Quiesce @ replicate n (Resume (an_actor an) (Some me))" "0 < n"
    using reload_done_events [OF re assms(2), of me p] assms(3,4) by blast
  let ?px = "fst (proxy_run node (a @ Quiesce # b) px)"
  have "(px_paused ?px, px_current ?px) = (False, Some (an_actor an))"
    using run_control [OF assms(8)] n unfolding assms(6) by (simp add: control_quiesce control_resume)
  moreover have "proxy_ok ?px" unfolding assms(5) by (intro proxy_run_ok) simp
  ultimately have final: "\<not> px_paused ?px \<and> px_current ?px = Some (an_actor an) \<and> px_buffered ?px = []" by (simp add: proxy_ok_def)
  let ?mid = "fst (proxy_run node a px)"
  have run: "fst (proxy_run node (a @ Quiesce # b) px) = fst (proxy_run node (Quiesce # b) ?mid)"
    by (simp only: proxy_run_append Let_def case_prod_unfold fst_conv)
  then have alive: "px_alive (fst (proxy_run node (Quiesce # b) ?mid))" using assms(8) by simp
  then have mid: "px_alive ?mid" by (rule proxy_run_alive)
  have res: "\<forall>c s. Resume c s \<in> set b \<longrightarrow> c = an_actor an"
  proof (intro allI impI)
    fix c s assume "Resume c s \<in> set b"
    then have "Resume c s \<in> set (filter is_control (a @ Quiesce # b))" by simp
    then show "c = an_actor an" unfolding assms(6) n(1) by auto
  qed
  have "t = an_actor an" if e: "(e, ef, r) \<in> set (snd (proxy_run node (Quiesce # b) ?mid))" and d: "Delegate t m s i \<in> set ef" for e ef r t m s i
  proof -
    have "(e, ef, r) \<in> set (snd (proxy_run node b (quiesce ?mid)))" using e d mid by (auto simp: Let_def case_prod_unfold)
    moreover have "px_alive (fst (proxy_run node b (quiesce ?mid)))" using alive mid by (simp add: Let_def case_prod_unfold)
    ultimately show ?thesis using paused_then_delegates [OF _ res _ _ d, of "quiesce ?mid" node e r] by (simp add: quiesce_def)
  qed
  then show ?thesis using final by (auto simp: case_prod_unfold)
qed

theorem reload_handover_witness:
  "case proxy_run 0 [Call (demo_call ''a'' 7 None), Quiesce, Call (demo_call ''b'' 7 None), Resume (0, 2) (Some (0, 99)), Call (demo_call ''c'' 7 None)]
     (fst (proxy_run 0 [] (fst (spawn_service_proxy (0, 1) False)))) of (px', log) \<Rightarrow> \<not> px_paused px' \<and> px_current px' = Some (0, 2) \<and> px_buffered px' = []"
  using reload_handover [of "''p''" "''path''" "demo_answers (demo_manifest ''p'' [] [''s'']) 2 (0, 2) True" demo_manager _ _ _ "''s''" "(0, 9)" _ 0 "[]" "(0, 1)" False
     "[Call (demo_call ''a'' 7 None)]" "[Call (demo_call ''b'' 7 None), Resume (0, 2) (Some (0, 99)), Call (demo_call ''c'' 7 None)]" "(0, 99)", OF _ _ _ _ refl]
  by (simp add: manager_exec proxy_exec)

text \<open>A failed reload is rolled back: the manager's state does not change, and every proxy that was paused and confirmed the pause in
  time is, after it has handled the messages of the manager (whatever else it handled in between), open again and serves the old
  actor.\<close>

theorem reload_rolls_back:
  assumes "manager_step (Reload name path an) st = (st', fx, Failed r)" "Ask_quiesce p \<in> set fx" "\<forall>svc. an_proxy an svc = Some p \<longrightarrow> an_quiesced an svc"
    "filter is_control es = proxy_events me p fx" "px_alive (fst (proxy_run node es px))"
  shows "st' = st \<and> \<not> px_paused (fst (proxy_run node es px)) \<and>
    px_current (fst (proxy_run node es px)) = map_option lp_actor (map_of (pm_plugins st) name)"
proof -
  have re: "reload_plugin name path an st = (st', fx, Failed r)" using assms(1) by simp
  obtain old svc ps where o: "map_of (pm_plugins st) name = Some old" "st' = st" "an_proxy an svc = None \<or> \<not> an_quiesced an svc"
    "proxy_events me p fx = replicate (count_list ps p + (if an_proxy an svc = Some p then 1 else 0)) Quiesce @ replicate (count_list ps p) (Resume (lp_actor old) (Some me))"
    "p \<in> set ps \<or> (an_proxy an svc = Some p \<and> \<not> an_quiesced an svc)" "p \<in> set ps \<longrightarrow> (\<exists>svc. an_proxy an svc = Some p \<and> an_quiesced an svc)"
    by (rule reload_failed_events [OF re assms(2), where me = me])
  then have "p \<in> set ps" "an_proxy an svc \<noteq> Some p" using assms(3) by auto
  then have "0 < count_list ps p" using count_list_0_iff [of ps p] by auto
  then have "(px_paused (fst (proxy_run node es px)), px_current (fst (proxy_run node es px))) = (False, Some (lp_actor old))"
    using run_control [OF assms(5)] o(4) \<open>an_proxy an svc \<noteq> Some p\<close> unfolding assms(4) by (simp add: control_quiesce control_resume)
  then show ?thesis using o(1,2) by simp
qed

definition demo_two :: manager where
  "demo_two = empty_manager\<lparr>pm_plugins :=
     [(''p'', \<lparr>lp_instance = 1, lp_actor = (0, 1), lp_manifest = demo_manifest ''p'' [] [''s'', ''u''], lp_asset_dir = ''dir''\<rparr>)]\<rparr>"

text \<open>A late confirmation leaves a service stopped: when the proxy \<open>p\<close> of a service did not confirm the pause in time, the reload
  fails and sends it no resumption; a proxy that gets the pause late (and whatever else) is paused at the end, with the old actor alive.\<close>

theorem reload_timeout_pauses:
  assumes "manager_step (Reload name path an) st = (st', fx, Failed r)" "Ask_quiesce p \<in> set fx" "\<forall>svc. an_proxy an svc = Some p \<longrightarrow> \<not> an_quiesced an svc"
    "filter is_control es = proxy_events me p fx" "px_alive (fst (proxy_run node es px))"
  shows "px_paused (fst (proxy_run node es px)) \<and> px_current (fst (proxy_run node es px)) = px_current px"
proof -
  have re: "reload_plugin name path an st = (st', fx, Failed r)" using assms(1) by simp
  obtain old svc ps where o: "map_of (pm_plugins st) name = Some old" "st' = st" "an_proxy an svc = None \<or> \<not> an_quiesced an svc"
    "proxy_events me p fx = replicate (count_list ps p + (if an_proxy an svc = Some p then 1 else 0)) Quiesce @ replicate (count_list ps p) (Resume (lp_actor old) (Some me))"
    "p \<in> set ps \<or> (an_proxy an svc = Some p \<and> \<not> an_quiesced an svc)" "p \<in> set ps \<longrightarrow> (\<exists>svc. an_proxy an svc = Some p \<and> an_quiesced an svc)"
    by (rule reload_failed_events [OF re assms(2), where me = me])
  then have "p \<notin> set ps" "an_proxy an svc = Some p" using assms(3) by auto
  then have "filter is_control es = [Quiesce]" using o(4) unfolding assms(4) by (simp add: count_list_0_iff)
  then show ?thesis using run_control [OF assms(5)] by simp
qed

text \<open>C3. The registry follows the plugins: let the registry start empty and handle the messages of the manager and no others, and let no two loaded plugins provide a
  service of the same name.  Then at every point before the manager ends, a service is registered exactly when a loaded plugin
  provides it, and its implementation is the current actor of this plugin, through loads, reloads, unloads and crashes.\<close>

theorem services_follow_plugins:
  assumes "clash_free es empty_manager" "pm_alive (fst (system_run fresh es (empty_manager, empty_registry allow_cross_node)))"
  shows "(case system_run fresh es (empty_manager, empty_registry allow_cross_node) of (st, rg) \<Rightarrow>
    impl_of rg svc = Some a \<longleftrightarrow> (\<exists>n lp. map_of (pm_plugins st) n = Some lp \<and> svc \<in> set (mf_provides (lp_manifest lp)) \<and> lp_actor lp = a))"
proof -
  have "mirrors empty_manager (empty_registry allow_cross_node)"
    by (simp add: mirrors_def provided_by_def empty_registry_def impl_of_def) (simp add: empty_manager_def)
  from mirrorsD(3) [OF system_run_mirrors [OF this assms]] show ?thesis by (simp add: provided_by_def case_prod_unfold)
qed

theorem services_follow_plugins_witness:
  "impl_of (snd (system_run (\<lambda>_. (0, 9)) [Load ''p'' ''path'' (demo_answers (demo_manifest ''p'' [] [''s'']) 1 (0, 1) True),
     Reload ''p'' ''path'' (demo_answers (demo_manifest ''p'' [] [''s'', ''u'']) 2 (0, 2) True)] (empty_manager, empty_registry False))) ''u'' = Some (0, 2)"
  using services_follow_plugins [where fresh = "\<lambda>_. (0, 9)" and allow_cross_node = False and svc = "''u''" and a = "(0, 2)" and
     es = "[Load ''p'' ''path'' (demo_answers (demo_manifest ''p'' [] [''s'']) 1 (0, 1) True),
       Reload ''p'' ''path'' (demo_answers (demo_manifest ''p'' [] [''s'', ''u'']) 2 (0, 2) True)]"]
  by (simp add: manager_exec has_cycle_from_def dfs.simps add_plugin_def register_service_def empty_graph_def disjoint_provides_def)

text \<open>Without that condition the end of one plugin takes a service from another: when two loaded plugins provide the same name,
  unloading one of them removes the service, although the other, which may be the one that serves it, stays loaded.\<close>

theorem unload_removes_foreign_service:
  assumes "manager_ok st" "map_of (pm_plugins st) n = Some lp" "map_of (pm_plugins st) n' = Some lp'" "n \<noteq> n'"
    "svc \<in> set (mf_provides (lp_manifest lp))" "svc \<in> set (mf_provides (lp_manifest lp'))" "registry_ok rg caf"
  shows "(case manager_step (Unload n' an) st of (st', fx, r) \<Rightarrow>
    r = Done True \<and> map_of (pm_plugins st') n = Some lp \<and> registry_resolve svc (to_registry fresh fx rg) = None)"
proof -
  have "omap_ok (rg_services rg)" using assms(7) by (simp add: registry_ok_def)
  from to_registry_unregister [OF this, of fresh "mf_provides (lp_manifest lp')" svc] assms(6)
  have "registry_resolve svc (to_registry fresh (map Registry_unregister (mf_provides (lp_manifest lp'))) rg) = None"
    by (simp add: impl_of_def registry_resolve_def)
  then show ?thesis using assms(2,3,4,6) by (auto simp: unload_plugin_def Let_def)
qed

end
