(* ===== verification/Graceful_Shutdown.thy ===== *)
theory Graceful_Shutdown
  imports Prelude "HOL-Library.Sublist"
begin

text \<open>
  The shutdown coordinator (\<^verbatim>\<open>src/core/graceful_shutdown.cpp\<close>): it stops the plugins one after the other (resolve, drain, save the
  state, checkpoint, stop, wait for the end), then the cluster actors and the core components, then the log service, and quits.
  Every handler and every continuation of a request is a function; a run of the coordinator is an inductive relation in which an
  answer needs an open request.  The theory shows the order of the shutdown, that it ends only when everything it stopped has
  ended, what it waits for while it is unfinished, with the failure of a checkpoint as the only dead end, and that its timeout does not help against a plugin
  that hangs.
\<close>

section \<open>State, effects, handlers\<close>

datatype system_state = Initializing | Ready | Shutting_down | Stopped

record shutdown =
  sd_state :: system_state
  sd_remaining :: "string list"
  sd_stopping_plugin :: "address option"
  sd_stopping_name :: string
  sd_stopping_saved :: bool
  sd_components :: "address list"
  sd_ctls_pending :: nat
  sd_cluster_ctls :: "address list"
  sd_quit :: bool

text \<open>The actors given to the constructor and what \<open>get_stop_order\<close> returns.\<close>

record shutdown_config =
  sc_plugin_mgr :: "address option"
  sc_registry :: "address option"
  sc_checkpoint_mgr :: "address option"
  sc_logging :: "address option"
  sc_stop_order :: "string list"

datatype shutdown_effect =
    Watch address
  | Exit_actor address
  | Ask_resolve string
  | Drain address
  | Ask_save string address
  | Ask_checkpoint string address bytes
  | Stop_plugin address
  | Send_saved string bool
  | Schedule_force_exit
  | Stop_registry
  | Log_stopped
  | Quit
  | Notify_complete
  | Unhandled_error string

type_synonym stepped = "shutdown \<times> shutdown_effect list"

definition initial_shutdown :: shutdown where
  "initial_shutdown = \<lparr>sd_state = Initializing, sd_remaining = [], sd_stopping_plugin = None, sd_stopping_name = [], sd_stopping_saved = False,
     sd_components = [], sd_ctls_pending = 0, sd_cluster_ctls = [], sd_quit = False\<rparr>"

definition finish_quit :: "shutdown \<Rightarrow> stepped" where
  "finish_quit st = (st\<lparr>sd_quit := True\<rparr>, [Quit, Notify_complete])"

definition finish_last :: "shutdown_config \<Rightarrow> shutdown \<Rightarrow> stepped" where
  "finish_last cfg st =
     (let st = st\<lparr>sd_state := Stopped\<rparr>
      in case sc_logging cfg of
           Some a \<Rightarrow> (st\<lparr>sd_components := sd_components st @ [a]\<rparr>, [Log_stopped, Watch a, Exit_actor a])
         | None \<Rightarrow> (let (st, fx) = finish_quit st in (st, Log_stopped # fx)))"

definition stop_all :: "address list \<Rightarrow> shutdown_effect list" where
  "stop_all as = concat (map (\<lambda>a. [Watch a, Exit_actor a]) as)"

definition core_components :: "shutdown_config \<Rightarrow> address list" where
  "core_components cfg = concat (map (\<lambda>x. case x of Some a \<Rightarrow> [a] | None \<Rightarrow> []) [sc_plugin_mgr cfg, sc_registry cfg, sc_checkpoint_mgr cfg])"

definition finish_shutdown :: "shutdown_config \<Rightarrow> shutdown \<Rightarrow> stepped" where
  "finish_shutdown cfg st =
     (let ctls = sd_cluster_ctls st; comps = core_components cfg;
          st = st\<lparr>sd_ctls_pending := sd_ctls_pending st + length ctls, sd_components := sd_components st @ comps\<rparr>;
          fx = stop_all ctls @ stop_all comps
      in if sd_components st = [] \<and> sd_ctls_pending st = 0 then (let (st, gx) = finish_last cfg st in (st, fx @ gx)) else (st, fx))"

definition stop_next :: "string \<Rightarrow> shutdown_effect list" where
  "stop_next name = [Ask_resolve name]"

definition on_resolved :: "string \<Rightarrow> address option \<Rightarrow> shutdown \<Rightarrow> stepped" where
  "on_resolved name actor st =
     (case actor of
        None \<Rightarrow> (st, [Send_saved name False])
      | Some a \<Rightarrow> (st\<lparr>sd_stopping_plugin := Some a, sd_stopping_name := name, sd_stopping_saved := False\<rparr>, [Watch a, Drain a, Ask_save name a]))"

definition on_saved :: "string \<Rightarrow> address \<Rightarrow> bytes \<Rightarrow> shutdown \<Rightarrow> stepped" where
  "on_saved name a data st =
     (if data \<noteq> [] then (st, [Ask_checkpoint name a data]) else (st\<lparr>sd_stopping_saved := True\<rparr>, [Stop_plugin a]))"

definition on_checkpointed :: "address \<Rightarrow> shutdown \<Rightarrow> stepped" where
  "on_checkpointed a st = (st\<lparr>sd_stopping_saved := True\<rparr>, [Stop_plugin a])"

text \<open>The checkpoint request has no continuation for an error: the coordinator does nothing for the plugin, and the error goes to the error handler that
  CAF gives every actor, which is outside of this model.\<close>

definition on_checkpoint_failed :: "string \<Rightarrow> shutdown \<Rightarrow> stepped" where
  "on_checkpoint_failed name st = (st, [Unhandled_error name])"

definition on_shutdown :: "shutdown_config \<Rightarrow> shutdown \<Rightarrow> stepped" where
  "on_shutdown cfg st =
     (if sd_state st = Shutting_down then (st, [])
      else if sd_state st \<noteq> Ready then (if sd_state st \<noteq> Stopped then finish_shutdown cfg st else (st, []))
      else let st = st\<lparr>sd_state := Shutting_down, sd_remaining := sc_stop_order cfg\<rparr>
           in if sd_remaining st \<noteq> [] then (st, Stop_registry # stop_next (last (sd_remaining st)) @ [Schedule_force_exit])
              else (let (st, fx) = finish_shutdown cfg st in (st, Stop_registry # fx)))"

definition on_plugin_saved :: "shutdown_config \<Rightarrow> string \<Rightarrow> shutdown \<Rightarrow> stepped" where
  "on_plugin_saved cfg plugin_name st =
     (let st = st\<lparr>sd_remaining := filter (\<lambda>n. n \<noteq> plugin_name) (sd_remaining st)\<rparr>
      in if sd_remaining st \<noteq> [] then (st, stop_next (last (sd_remaining st))) else finish_shutdown cfg st)"

text \<open>The end of both barriers: everything has exited.\<close>

definition barrier :: "shutdown_config \<Rightarrow> shutdown \<Rightarrow> stepped" where
  "barrier cfg st =
     (if sd_components st = [] \<and> sd_ctls_pending st = 0 then (if sd_state st = Stopped then finish_quit st else finish_last cfg st) else (st, []))"

definition on_down :: "shutdown_config \<Rightarrow> address \<Rightarrow> shutdown \<Rightarrow> stepped" where
  "on_down cfg source st =
     (case sd_stopping_plugin st of
        Some p \<Rightarrow>
          if p \<noteq> source then (st, [])
          else (st\<lparr>sd_stopping_plugin := None, sd_stopping_name := [], sd_stopping_saved := False\<rparr>,
                [Send_saved (sd_stopping_name st) (sd_stopping_saved st)])
      | None \<Rightarrow>
          if source \<in> set (sd_components st) then barrier cfg (st\<lparr>sd_components := remove1 source (sd_components st)\<rparr>)
          else if 0 < sd_ctls_pending st \<and> source \<in> set (sd_cluster_ctls st) then barrier cfg (st\<lparr>sd_ctls_pending := sd_ctls_pending st - 1\<rparr>)
          else (st, []))"

definition on_force_exit :: "shutdown_config \<Rightarrow> shutdown \<Rightarrow> stepped" where
  "on_force_exit cfg st = (if sd_state st = Stopped then (st, []) else finish_shutdown cfg st)"

datatype shutdown_event =
    Ready_msg
  | Shutdown_msg
  | Plugin_saved string bool
  | Down_msg address
  | Drain_ack address
  | Force_exit
  | Register_cluster "address option"
  | Health_check
  | Resolved string "address option"
  | Resolve_failed string
  | Saved string address bytes
  | Save_failed string address
  | Checkpointed string address
  | Checkpoint_failed string address

fun shutdown_step :: "shutdown_config \<Rightarrow> shutdown_event \<Rightarrow> shutdown \<Rightarrow> stepped" where
  "shutdown_step cfg Ready_msg st = (st\<lparr>sd_state := Ready\<rparr>, [])"
| "shutdown_step cfg Shutdown_msg st = on_shutdown cfg st"
| "shutdown_step cfg (Plugin_saved name saved) st = on_plugin_saved cfg name st"
| "shutdown_step cfg (Down_msg source) st = on_down cfg source st"
| "shutdown_step cfg (Drain_ack a) st = (st, [])"
| "shutdown_step cfg Force_exit st = on_force_exit cfg st"
| "shutdown_step cfg (Register_cluster ctl) st =
     (case ctl of Some a \<Rightarrow> (st\<lparr>sd_cluster_ctls := sd_cluster_ctls st @ [a]\<rparr>, []) | None \<Rightarrow> (st, []))"
| "shutdown_step cfg Health_check st = (st, [])"
| "shutdown_step cfg (Resolved name actor) st = on_resolved name actor st"
| "shutdown_step cfg (Resolve_failed name) st = (st, [Send_saved name False])"
| "shutdown_step cfg (Saved name a data) st = on_saved name a data st"
| "shutdown_step cfg (Save_failed name a) st = (st, [Stop_plugin a])"
| "shutdown_step cfg (Checkpointed name a) st = on_checkpointed a st"
| "shutdown_step cfg (Checkpoint_failed name a) st = on_checkpoint_failed name st"

section \<open>Runs\<close>

text \<open>Open requests and messages of the coordinator to itself that have not arrived yet.\<close>

datatype pending = P_resolve string | P_save string address | P_checkpoint string address | P_saved string bool

fun opens :: "shutdown_effect \<Rightarrow> pending list" where
  "opens (Ask_resolve n) = [P_resolve n]"
| "opens (Ask_save n a) = [P_save n a]"
| "opens (Ask_checkpoint n a d) = [P_checkpoint n a]"
| "opens (Send_saved n b) = [P_saved n b]"
| "opens _ = []"

fun answers_to :: "shutdown_event \<Rightarrow> pending option" where
  "answers_to (Plugin_saved n b) = Some (P_saved n b)"
| "answers_to (Resolved n a) = Some (P_resolve n)"
| "answers_to (Resolve_failed n) = Some (P_resolve n)"
| "answers_to (Saved n a d) = Some (P_save n a)"
| "answers_to (Save_failed n a) = Some (P_save n a)"
| "answers_to (Checkpointed n a) = Some (P_checkpoint n a)"
| "answers_to (Checkpoint_failed n a) = Some (P_checkpoint n a)"
| "answers_to _ = None"

definition enabled :: "shutdown_event \<Rightarrow> pending list \<Rightarrow> bool" where
  "enabled e ps = (case answers_to e of None \<Rightarrow> True | Some p \<Rightarrow> p \<in> set ps)"

definition pending_after :: "shutdown_event \<Rightarrow> shutdown_effect list \<Rightarrow> pending list \<Rightarrow> pending list" where
  "pending_after e fx ps = (case answers_to e of None \<Rightarrow> ps | Some p \<Rightarrow> remove1 p ps) @ concat (map opens fx)"

inductive runs :: "shutdown_config \<Rightarrow> shutdown \<Rightarrow> shutdown_event list \<Rightarrow> shutdown_effect list \<Rightarrow> shutdown \<Rightarrow> pending list \<Rightarrow> bool" for cfg st0 where
  start: "runs cfg st0 [] [] st0 []"
| step: "runs cfg st0 es fx st ps \<Longrightarrow> \<not> sd_quit st \<Longrightarrow> enabled e ps \<Longrightarrow> shutdown_step cfg e st = (st', gx) \<Longrightarrow>
    runs cfg st0 (es @ [e]) (fx @ gx) st' (pending_after e gx ps)"

section \<open>The phases of a shutdown\<close>

definition ready_shutdown :: "address list \<Rightarrow> shutdown" where
  "ready_shutdown ctls = initial_shutdown\<lparr>sd_state := Ready, sd_cluster_ctls := ctls\<rparr>"

text \<open>Runs without the timeout, and without late registrations and ready messages.\<close>

fun regular :: "shutdown_event \<Rightarrow> bool" where
  "regular Force_exit = False"
| "regular (Register_cluster c) = False"
| "regular Ready_msg = False"
| "regular _ = True"

fun asked :: "shutdown_effect list \<Rightarrow> string list" where
  "asked [] = []"
| "asked (Ask_resolve n # fx) = n # asked fx"
| "asked (_ # fx) = asked fx"

fun downs :: "shutdown_event list \<Rightarrow> address list" where
  "downs [] = []"
| "downs (Down_msg a # es) = a # downs es"
| "downs (_ # es) = downs es"

text \<open>The messages that carry the chain of plugins on, and the plugin each is about.\<close>

fun token :: "pending \<Rightarrow> string option" where
  "token (P_resolve n) = Some n"
| "token (P_saved n b) = Some n"
| "token _ = None"

definition tokens :: "pending list \<Rightarrow> string list" where
  "tokens ps = concat (map (\<lambda>p. case token p of Some n \<Rightarrow> [n] | None \<Rightarrow> []) ps)"

definition log_service :: "shutdown_config \<Rightarrow> address list" where
  "log_service cfg = (case sc_logging cfg of Some a \<Rightarrow> [a] | None \<Rightarrow> [])"

text \<open>What is stopped in the end, and is different from each other.\<close>

definition config_ok :: "shutdown_config \<Rightarrow> address list \<Rightarrow> bool" where
  "config_ok cfg ctls \<longleftrightarrow> distinct (sc_stop_order cfg) \<and> distinct (core_components cfg @ log_service cfg @ ctls)"

definition idle :: "address list \<Rightarrow> shutdown_effect list \<Rightarrow> shutdown \<Rightarrow> pending list \<Rightarrow> bool" where
  "idle ctls fx st ps \<longleftrightarrow> st = ready_shutdown ctls \<and> fx = [] \<and> ps = []"

definition drained :: "shutdown_event list \<Rightarrow> shutdown_effect list \<Rightarrow> shutdown \<Rightarrow> pending list \<Rightarrow> bool" where
  "drained es fx st ps \<longleftrightarrow> (\<forall>a. Drain a \<in> set fx \<longrightarrow> a \<in> set (downs es) \<or> sd_stopping_plugin st = Some a) \<and>
     (\<forall>a. sd_stopping_plugin st = Some a \<longrightarrow> Watch a \<in> set fx \<and>
       ((\<exists>n. P_save n a \<in> set ps \<or> P_checkpoint n a \<in> set ps) \<or> Stop_plugin a \<in> set fx \<or> (\<exists>n. Checkpoint_failed n a \<in> set es)))"

definition stopping :: "shutdown_config \<Rightarrow> address list \<Rightarrow> shutdown_event list \<Rightarrow> shutdown_effect list \<Rightarrow> shutdown \<Rightarrow> pending list \<Rightarrow> bool" where
  "stopping cfg ctls es fx st ps \<longleftrightarrow>
     sd_state st = Shutting_down \<and> \<not> sd_quit st \<and> sd_components st = [] \<and> sd_ctls_pending st = 0 \<and> sd_cluster_ctls st = ctls \<and>
     (\<forall>a. Exit_actor a \<notin> set fx) \<and> drained es fx st ps \<and> Schedule_force_exit \<in> set fx \<and> sd_remaining st \<noteq> [] \<and>
     (\<exists>later. sc_stop_order cfg = sd_remaining st @ later \<and> asked fx = rev later @ [last (sd_remaining st)]) \<and>
     (case sd_stopping_plugin st of None \<Rightarrow> tokens ps = [last (sd_remaining st)]
      | Some a \<Rightarrow> tokens ps = [] \<and> sd_stopping_name st = last (sd_remaining st))"

definition base :: "shutdown_config \<Rightarrow> shutdown \<Rightarrow> address list" where
  "base cfg st = core_components cfg @ (if sd_state st = Stopped then log_service cfg else [])"

text \<open>\<open>X\<close> are the actors whose end the barriers have counted.\<close>

definition awaiting ::
    "shutdown_config \<Rightarrow> address list \<Rightarrow> address set \<Rightarrow> shutdown_event list \<Rightarrow> shutdown_effect list \<Rightarrow> shutdown \<Rightarrow> pending list \<Rightarrow> bool" where
  "awaiting cfg ctls X es fx st ps \<longleftrightarrow>
     sd_state st \<in> {Shutting_down, Stopped} \<and> sd_stopping_plugin st = None \<and> tokens ps = [] \<and> sd_cluster_ctls st = ctls \<and>
     asked fx = rev (sc_stop_order cfg) \<and> drained es fx st ps \<and> X \<subseteq> set (downs es) \<and> X \<subseteq> set (base cfg st) \<union> set ctls \<and>
     sd_components st = filter (\<lambda>a. a \<notin> X) (base cfg st) \<and> sd_ctls_pending st = length (filter (\<lambda>a. a \<notin> X) ctls) \<and>
     (\<forall>a. Exit_actor a \<in> set fx \<longrightarrow> a \<in> set (base cfg st) \<union> set ctls) \<and> (\<forall>a \<in> set (base cfg st) \<union> set ctls. Watch a \<in> set fx)"

definition finishing :: "shutdown_config \<Rightarrow> address list \<Rightarrow> shutdown_event list \<Rightarrow> shutdown_effect list \<Rightarrow> shutdown \<Rightarrow> pending list \<Rightarrow> bool" where
  "finishing cfg ctls es fx st ps \<longleftrightarrow> (\<exists>X. awaiting cfg ctls X es fx st ps) \<and>
     (sd_quit st \<longleftrightarrow> sd_components st = [] \<and> sd_ctls_pending st = 0) \<and> (sd_quit st \<longrightarrow> sd_state st = Stopped)"

lemma asked_append [simp]: "asked (fx @ gx) = asked fx @ asked gx"
  by (induction fx rule: asked.induct) auto

lemma downs_append [simp]: "downs (es @ fs) = downs es @ downs fs"
  by (induction es rule: downs.induct) auto

lemma downs_set: "a \<in> set (downs es) \<longleftrightarrow> Down_msg a \<in> set es"
  by (induction es rule: downs.induct) auto

lemma tokens_simps [simp]:
  "tokens [] = []" "tokens (ps @ qs) = tokens ps @ tokens qs" "tokens (p # ps) = (case token p of Some n \<Rightarrow> [n] | None \<Rightarrow> []) @ tokens ps"
  by (simp_all add: tokens_def)

lemma tokens_remove_none: "token p = None \<Longrightarrow> tokens (remove1 p ps) = tokens ps"
  by (induction ps) auto

lemma tokens_empty: "p \<in> set ps \<Longrightarrow> tokens ps = [] \<Longrightarrow> token p = None"
  by (induction ps) (auto split: option.splits)

lemma tokens_remove_single: "p \<in> set ps \<Longrightarrow> token p = Some n \<Longrightarrow> tokens ps = [m] \<Longrightarrow> n = m \<and> tokens (remove1 p ps) = []"
  by (induction ps) (auto split: option.splits dest: tokens_empty)

lemma stop_all_simps [simp]:
  "Exit_actor a \<in> set (stop_all as) \<longleftrightarrow> a \<in> set as" "Watch a \<in> set (stop_all as) \<longleftrightarrow> a \<in> set as" "Drain a \<notin> set (stop_all as)"
  "asked (stop_all as) = []" "concat (map opens (stop_all as)) = []"
  by (induction as) (auto simp: stop_all_def)

lemma drained_mono:
  assumes "drained es fx st ps" "sd_stopping_plugin st' = sd_stopping_plugin st" "\<forall>a. Drain a \<notin> set gx"
    "\<And>n a. P_save n a \<in> set ps \<or> P_checkpoint n a \<in> set ps \<Longrightarrow> (\<exists>n. P_save n a \<in> set ps' \<or> P_checkpoint n a \<in> set ps') \<or> Stop_plugin a \<in> set gx \<or> (\<exists>n. Checkpoint_failed n a \<in> set fs)"
  shows "drained (es @ fs) (fx @ gx) st' ps'"
  using assms(1,3,4) unfolding drained_def assms(2) by (simp del: split_paired_All) blast

lemma drained_none:
  assumes "drained es fx st ps" "sd_stopping_plugin st' = None" "\<forall>a. Drain a \<notin> set gx" "\<forall>a. sd_stopping_plugin st = Some a \<longrightarrow> a \<in> set (downs fs)"
  shows "drained (es @ fs) (fx @ gx) st' ps'"
  using assms unfolding drained_def by (simp del: split_paired_All) blast

section \<open>Steps of the phases\<close>

lemma barrier_finishing:
  assumes "awaiting cfg ctls X es fx st ps" "\<not> sd_quit st" "config_ok cfg ctls"
  shows "finishing cfg ctls es (fx @ snd (barrier cfg st)) (fst (barrier cfg st)) (ps @ concat (map opens (snd (barrier cfg st))))"
proof (cases "sd_components st = [] \<and> sd_ctls_pending st = 0")
  case False
  then show ?thesis using assms by (auto simp: barrier_def finishing_def)
next
  case True
  note aw = assms(1) [unfolded awaiting_def]
  have dr: "drained es (fx @ gx) st' ps'" if "sd_stopping_plugin st' = None" "\<forall>a. Drain a \<notin> set gx" for gx st' ps'
    using drained_none [of es fx st ps st' gx "[]" ps'] aw that by simp
  show ?thesis
  proof (cases "sd_state st = Stopped")
    case stopped: True
    then have "barrier cfg st = (st\<lparr>sd_quit := True\<rparr>, [Quit, Notify_complete])" using True by (simp add: barrier_def finish_quit_def)
    moreover have "awaiting cfg ctls X es (fx @ [Quit, Notify_complete]) (st\<lparr>sd_quit := True\<rparr>) ps"
      using aw dr by (simp add: awaiting_def base_def)
    ultimately show ?thesis using True stopped by (auto simp: finishing_def)
  next
    case False
    then have b: "barrier cfg st = finish_last cfg st" using True by (simp add: barrier_def)
    have X: "X \<subseteq> set (core_components cfg) \<union> set ctls" "filter (\<lambda>a. a \<notin> X) (core_components cfg) = []" "filter (\<lambda>a. a \<notin> X) ctls = []"
      using aw True False by (auto simp: base_def)
    show ?thesis
    proof (cases "sc_logging cfg")
      case None
      let ?st = "st\<lparr>sd_state := Stopped, sd_quit := True\<rparr>"
      have "awaiting cfg ctls X es (fx @ [Log_stopped, Quit, Notify_complete]) ?st ps"
        using aw X dr None True False by (simp add: awaiting_def base_def log_service_def)
      then show ?thesis using b None True by (auto simp: finish_last_def finish_quit_def finishing_def)
    next
      case (Some l)
      let ?st = "st\<lparr>sd_state := Stopped, sd_components := [l]\<rparr>"
      have "l \<notin> X" using X(1) Some assms(3) by (auto simp: config_ok_def log_service_def)
      then have "awaiting cfg ctls X es (fx @ [Log_stopped, Watch l, Exit_actor l]) ?st ps"
        using aw X dr Some True False by (auto simp: awaiting_def base_def log_service_def)
      then show ?thesis using b Some True assms(2) by (auto simp: finish_last_def finishing_def)
    qed
  qed
qed

lemma finish_shutdown_barrier:
  "finish_shutdown cfg st =
     (let st' = st\<lparr>sd_ctls_pending := sd_ctls_pending st + length (sd_cluster_ctls st), sd_components := sd_components st @ core_components cfg\<rparr>;
          fx = stop_all (sd_cluster_ctls st) @ stop_all (core_components cfg)
      in if sd_state st \<noteq> Stopped then (fst (barrier cfg st'), fx @ snd (barrier cfg st'))
         else if sd_components st' = [] \<and> sd_ctls_pending st' = 0 then (fst (finish_last cfg st'), fx @ snd (finish_last cfg st')) else (st', fx))"
  by (auto simp: finish_shutdown_def barrier_def Let_def case_prod_unfold)

lemma finish_shutdown_finishing:
  assumes "sd_state st = Shutting_down" "\<not> sd_quit st" "sd_components st = []" "sd_ctls_pending st = 0" "sd_cluster_ctls st = ctls"
    "sd_stopping_plugin st = None" "tokens ps = []" "asked fx = rev (sc_stop_order cfg)" "drained es fx st ps" "\<forall>a. Exit_actor a \<notin> set fx" "config_ok cfg ctls"
  shows "finishing cfg ctls es (fx @ snd (finish_shutdown cfg st)) (fst (finish_shutdown cfg st)) (ps @ concat (map opens (snd (finish_shutdown cfg st))))"
proof -
  let ?st = "st\<lparr>sd_ctls_pending := length ctls, sd_components := core_components cfg\<rparr>" and ?fx = "stop_all ctls @ stop_all (core_components cfg)"
  have "drained es (fx @ ?fx) ?st ps" using drained_none [of es fx st ps ?st ?fx "[]"] assms(6,9) by simp
  then have "awaiting cfg ctls {} es (fx @ ?fx) ?st ps" using assms by (auto simp: awaiting_def base_def)
  from barrier_finishing [OF this _ assms(11)] show ?thesis
    using assms(1-5) by (simp add: finish_shutdown_barrier Let_def)
qed

definition phase :: "shutdown_config \<Rightarrow> address list \<Rightarrow> shutdown_event list \<Rightarrow> shutdown_effect list \<Rightarrow> shutdown \<Rightarrow> pending list \<Rightarrow> bool" where
  "phase cfg ctls es fx st ps \<longleftrightarrow> idle ctls fx st ps \<or> stopping cfg ctls es fx st ps \<or> finishing cfg ctls es fx st ps"

lemma idle_step:
  assumes "idle ctls fx st ps" "regular e" "enabled e ps" "config_ok cfg ctls"
  shows "phase cfg ctls (es @ [e]) (fx @ snd (shutdown_step cfg e st)) (fst (shutdown_step cfg e st)) (pending_after e (snd (shutdown_step cfg e st)) ps)"
proof -
  have st: "st = ready_shutdown ctls" "fx = []" "ps = []" using assms(1) by (auto simp: idle_def)
  have quiet: "phase cfg ctls (es @ [e]) [] st []" using assms(1) by (simp add: phase_def idle_def)
  show ?thesis
  proof (cases e)
    case Shutdown_msg
    show ?thesis
    proof (cases "sc_stop_order cfg = []")
      case True
      let ?st = "st\<lparr>sd_state := Shutting_down, sd_remaining := []\<rparr>"
      have "drained (es @ [e]) [Stop_registry] ?st []" by (simp add: drained_def st ready_shutdown_def initial_shutdown_def)
      then have "finishing cfg ctls (es @ [e]) ([Stop_registry] @ snd (finish_shutdown cfg ?st)) (fst (finish_shutdown cfg ?st))
          ([] @ concat (map opens (snd (finish_shutdown cfg ?st))))"
        using True assms(4) by (intro finish_shutdown_finishing) (simp_all add: st ready_shutdown_def initial_shutdown_def)
      then show ?thesis
        using Shutdown_msg True st by (simp add: phase_def on_shutdown_def pending_after_def ready_shutdown_def Let_def case_prod_unfold)
    next
      case False
      then show ?thesis
        using Shutdown_msg st by (simp add: phase_def stopping_def on_shutdown_def stop_next_def pending_after_def ready_shutdown_def
            initial_shutdown_def Let_def drained_def)
    qed
  next
    case (Down_msg a)
    then show ?thesis
      using quiet st by (simp add: on_down_def pending_after_def ready_shutdown_def initial_shutdown_def)
  qed (use assms(2,3) quiet st in \<open>simp_all add: enabled_def pending_after_def\<close>)
qed

lemma stopping_D:
  assumes "stopping cfg ctls es fx st ps"
  shows "sd_state st = Shutting_down" "\<not> sd_quit st" "sd_components st = []" "sd_ctls_pending st = 0" "sd_cluster_ctls st = ctls"
    "\<forall>a. Exit_actor a \<notin> set fx" "drained es fx st ps" "sd_remaining st \<noteq> []"
    "\<exists>later. sc_stop_order cfg = sd_remaining st @ later \<and> asked fx = rev later @ [last (sd_remaining st)]"
    "sd_stopping_plugin st = None \<Longrightarrow> tokens ps = [last (sd_remaining st)]"
    "sd_stopping_plugin st = Some a \<Longrightarrow> tokens ps = [] \<and> sd_stopping_name st = last (sd_remaining st)" "Schedule_force_exit \<in> set fx"
  using assms by (simp_all add: stopping_def del: split_paired_All)

text \<open>A pending message that carries the chain on is the only one, about the last plugin that remains.\<close>

lemma stopping_token:
  assumes "stopping cfg ctls es fx st ps" "p \<in> set ps" "token p = Some n"
  shows "sd_stopping_plugin st = None" "n = last (sd_remaining st)" "tokens (remove1 p ps) = []"
proof -
  show none: "sd_stopping_plugin st = None"
    using tokens_empty [OF assms(2)] assms(3) stopping_D(11) [OF assms(1)] by (cases "sd_stopping_plugin st") auto
  show "n = last (sd_remaining st)" "tokens (remove1 p ps) = []"
    using tokens_remove_single [OF assms(2,3) stopping_D(10) [OF assms(1) none]] by simp_all
qed

lemma stopping_same:
  assumes "stopping cfg ctls es fx st ps" "sd_stopping_plugin st' = sd_stopping_plugin st" "sd_stopping_name st' = sd_stopping_name st"
    "sd_state st' = sd_state st" "sd_quit st' = sd_quit st" "sd_components st' = sd_components st" "sd_ctls_pending st' = sd_ctls_pending st"
    "sd_cluster_ctls st' = sd_cluster_ctls st" "sd_remaining st' = sd_remaining st" "tokens ps' = tokens ps" "drained (es @ fs) (fx @ gx) st' ps'"
    "asked gx = []" "\<forall>a. Exit_actor a \<notin> set gx"
  shows "stopping cfg ctls (es @ fs) (fx @ gx) st' ps'"
  using assms by (simp add: stopping_def del: split_paired_All split: option.splits)

lemma drained_answer:
  assumes "drained es fx st ps" "sd_stopping_plugin st' = sd_stopping_plugin st" "\<forall>a. Drain a \<notin> set gx"
    "\<And>n a. p \<in> {P_save n a, P_checkpoint n a} \<Longrightarrow> Stop_plugin a \<in> set gx \<or> P_checkpoint n a \<in> set qs \<or> Checkpoint_failed n a \<in> set fs"
  shows "drained (es @ fs) (fx @ gx) st' (remove1 p ps @ qs)"
proof (rule drained_mono [OF assms(1-3)])
  fix n a
  assume a: "P_save n a \<in> set ps \<or> P_checkpoint n a \<in> set ps"
  show "(\<exists>n. P_save n a \<in> set (remove1 p ps @ qs) \<or> P_checkpoint n a \<in> set (remove1 p ps @ qs)) \<or> Stop_plugin a \<in> set gx \<or>
      (\<exists>n. Checkpoint_failed n a \<in> set fs)"
  proof (cases "p \<in> {P_save n a, P_checkpoint n a}")
    case True
    then show ?thesis using assms(4) [OF True] by auto
  next
    case False
    then have "P_save n a \<in> set (remove1 p ps) \<or> P_checkpoint n a \<in> set (remove1 p ps)" using a by (auto simp: in_set_remove1)
    then show ?thesis by auto
  qed
qed

lemma stopping_answer:
  assumes "stopping cfg ctls es fx st ps" "e \<in> {Saved n a d, Save_failed n a, Checkpointed n a, Checkpoint_failed n a}"
  shows "stopping cfg ctls (es @ [e]) (fx @ snd (shutdown_step cfg e st)) (fst (shutdown_step cfg e st)) (pending_after e (snd (shutdown_step cfg e st)) ps)"
proof -
  have dr: "drained (es @ fs) (fx @ gx) st' (remove1 p ps @ qs)"
    if "sd_stopping_plugin st' = sd_stopping_plugin st" "\<forall>a. Drain a \<notin> set gx" "p \<in> {P_save n a, P_checkpoint n a}"
      "Stop_plugin a \<in> set gx \<or> P_checkpoint n a \<in> set qs \<or> Checkpoint_failed n a \<in> set fs" for st' gx p qs fs
    using that by (intro drained_answer [OF stopping_D(7) [OF assms(1)]]) auto
  from assms(2) consider "e = Saved n a d" | "e = Save_failed n a" | "e = Checkpointed n a" | "e = Checkpoint_failed n a" by blast
  then show ?thesis
  proof cases
    case 1
    then show ?thesis
      by (intro stopping_same [OF assms(1)])
        (auto simp: on_saved_def pending_after_def tokens_remove_none intro!: dr dr [where qs = "[]", simplified])
  next
    case 2
    then show ?thesis
      by (intro stopping_same [OF assms(1)]) (auto simp: pending_after_def tokens_remove_none intro!: dr [where qs = "[]", simplified])
  next
    case 3
    then show ?thesis
      by (intro stopping_same [OF assms(1)]) (auto simp: on_checkpointed_def pending_after_def tokens_remove_none intro!: dr [where qs = "[]", simplified])
  next
    case 4
    then show ?thesis
      by (intro stopping_same [OF assms(1)]) (auto simp: on_checkpoint_failed_def pending_after_def tokens_remove_none intro!: dr [where qs = "[]", simplified])
  qed
qed

lemma filter_last:
  assumes "distinct xs" "xs \<noteq> []"
  shows "filter (\<lambda>n. n \<noteq> last xs) xs = butlast xs"
proof -
  obtain ys y where xs: "xs = ys @ [y]" using assms(2) by (metis append_butlast_last_id)
  then have "filter (\<lambda>n. n \<noteq> y) ys = ys" using assms(1) by (auto simp: filter_id_conv)
  then show ?thesis using xs by simp
qed

lemma stopping_saved:
  assumes "stopping cfg ctls es fx st ps" "P_saved n b \<in> set ps" "config_ok cfg ctls"
  shows "phase cfg ctls (es @ [Plugin_saved n b]) (fx @ snd (on_plugin_saved cfg n st)) (fst (on_plugin_saved cfg n st))
    (remove1 (P_saved n b) ps @ concat (map opens (snd (on_plugin_saved cfg n st))))"
proof -
  note tk = stopping_token [OF assms(1,2), of n, simplified]
  obtain later where later: "sc_stop_order cfg = sd_remaining st @ later" "asked fx = rev later @ [n]"
    using stopping_D(9) [OF assms(1)] tk(2) by auto
  have ne: "sd_remaining st \<noteq> []" by (rule stopping_D(8) [OF assms(1)])
  have "distinct (sd_remaining st)" using assms(3) later(1) by (simp add: config_ok_def)
  then have rem: "filter (\<lambda>m. m \<noteq> n) (sd_remaining st) = butlast (sd_remaining st)" using filter_last ne tk(2) by simp
  have order: "sc_stop_order cfg = butlast (sd_remaining st) @ n # later" unfolding later(1) tk(2) using ne by simp
  let ?st = "st\<lparr>sd_remaining := butlast (sd_remaining st)\<rparr>"
  have dr: "drained (es @ [Plugin_saved n b]) (fx @ gx) ?st (remove1 (P_saved n b) ps @ qs)" if "\<forall>a. Drain a \<notin> set gx" for gx qs
    using that by (intro drained_answer [OF stopping_D(7) [OF assms(1)]]) simp_all
  show ?thesis
  proof (cases "butlast (sd_remaining st) = []")
    case False
    then have "stopping cfg ctls (es @ [Plugin_saved n b]) (fx @ [Ask_resolve (last (butlast (sd_remaining st)))]) ?st
        (remove1 (P_saved n b) ps @ [P_resolve (last (butlast (sd_remaining st)))])"
      using stopping_D(1-6, 12) [OF assms(1)] dr order later(2) tk by (simp add: stopping_def)
    then show ?thesis using False rem by (simp add: on_plugin_saved_def stop_next_def phase_def Let_def)
  next
    case True
    have "drained (es @ [Plugin_saved n b]) fx ?st (remove1 (P_saved n b) ps)" using dr [of "[]" "[]"] by simp
    then have "finishing cfg ctls (es @ [Plugin_saved n b]) (fx @ snd (finish_shutdown cfg ?st)) (fst (finish_shutdown cfg ?st))
        (remove1 (P_saved n b) ps @ concat (map opens (snd (finish_shutdown cfg ?st))))"
      using stopping_D(1-6) [OF assms(1)] order later(2) tk True assms(3) by (intro finish_shutdown_finishing) simp_all
    then show ?thesis using True rem by (simp add: on_plugin_saved_def phase_def Let_def)
  qed
qed

lemma stopping_resolved:
  assumes "stopping cfg ctls es fx st ps" "P_resolve n \<in> set ps" "e = Resolve_failed n \<or> e = Resolved n x"
  shows "stopping cfg ctls (es @ [e]) (fx @ snd (shutdown_step cfg e st)) (fst (shutdown_step cfg e st)) (remove1 (P_resolve n) ps @ concat (map opens (snd (shutdown_step cfg e st))))"
proof -
  note tk = stopping_token [OF assms(1,2), of n, simplified]
  have skip: "stopping cfg ctls (es @ [e]) (fx @ [Send_saved n False]) st (remove1 (P_resolve n) ps @ [P_saved n False])"
    using stopping_D [OF assms(1)] tk drained_answer [OF stopping_D(7) [OF assms(1)], of st "[Send_saved n False]" "P_resolve n" "[P_saved n False]" "[e]"]
    by (simp add: stopping_def del: split_paired_All)
  show ?thesis
  proof (cases "\<exists>a. e = Resolved n (Some a)")
    case False
    then show ?thesis using assms(3) skip by (cases x) (auto simp: on_resolved_def)
  next
    case True
    then obtain a where e: "e = Resolved n (Some a)" by blast
    let ?st = "st\<lparr>sd_stopping_plugin := Some a, sd_stopping_name := n, sd_stopping_saved := False\<rparr>"
    have "drained (es @ [e]) (fx @ [Watch a, Drain a, Ask_save n a]) ?st (remove1 (P_resolve n) ps @ [P_save n a])"
      using stopping_D(7) [OF assms(1)] tk(1) by (auto simp: drained_def)
    then have "stopping cfg ctls (es @ [e]) (fx @ [Watch a, Drain a, Ask_save n a]) ?st (remove1 (P_resolve n) ps @ [P_save n a])"
      using stopping_D(1-9, 12) [OF assms(1)] tk by (simp add: stopping_def del: split_paired_All)
    then show ?thesis using e by (simp add: on_resolved_def)
  qed
qed

lemma stopping_down:
  assumes "stopping cfg ctls es fx st ps"
  shows "stopping cfg ctls (es @ [Down_msg a]) (fx @ snd (on_down cfg a st)) (fst (on_down cfg a st)) (ps @ concat (map opens (snd (on_down cfg a st))))"
proof -
  have same: "stopping cfg ctls (es @ [Down_msg a]) (fx @ []) st ps"
    by (rule stopping_same [OF assms]) (auto intro: drained_mono [OF stopping_D(7) [OF assms], where gx = "[]", simplified])
  show ?thesis
  proof (cases "sd_stopping_plugin st = Some a")
    case True
    let ?st = "st\<lparr>sd_stopping_plugin := None, sd_stopping_name := [], sd_stopping_saved := False\<rparr>"
    have "drained (es @ [Down_msg a]) (fx @ [Send_saved (sd_stopping_name st) (sd_stopping_saved st)]) ?st (ps @ [P_saved (sd_stopping_name st) (sd_stopping_saved st)])"
      using True by (intro drained_none [OF stopping_D(7) [OF assms]]) auto
    then show ?thesis
      using stopping_D(1-9, 12) [OF assms] stopping_D(11) [OF assms True] True by (simp add: on_down_def stopping_def del: split_paired_All)
  next
    case False
    then have "on_down cfg a st = (st, [])" using stopping_D(3,4) [OF assms] by (auto simp: on_down_def split: option.splits)
    then show ?thesis using same by simp
  qed
qed

lemma stopping_step:
  assumes "stopping cfg ctls es fx st ps" "regular e" "enabled e ps" "config_ok cfg ctls"
  shows "phase cfg ctls (es @ [e]) (fx @ snd (shutdown_step cfg e st)) (fst (shutdown_step cfg e st)) (pending_after e (snd (shutdown_step cfg e st)) ps)"
proof -
  have same: "stopping cfg ctls (es @ [e]) (fx @ []) st ps"
    by (rule stopping_same [OF assms(1)]) (auto intro: drained_mono [OF stopping_D(7) [OF assms(1)], where gx = "[]", simplified])
  show ?thesis
  proof (cases e)
    case Shutdown_msg
    then show ?thesis using same stopping_D(1) [OF assms(1)] by (simp add: on_shutdown_def phase_def pending_after_def)
  next
    case (Plugin_saved n b)
    then show ?thesis using stopping_saved [OF assms(1) _ assms(4), of n b] assms(3) by (simp add: enabled_def pending_after_def)
  next
    case (Down_msg a)
    then show ?thesis using stopping_down [OF assms(1), of a] by (simp add: phase_def pending_after_def)
  next
    case (Resolved n x)
    then show ?thesis using stopping_resolved [OF assms(1), of n e x] assms(3) by (simp add: phase_def enabled_def pending_after_def)
  next
    case (Resolve_failed n)
    then show ?thesis using stopping_resolved [OF assms(1), of n e] assms(3) by (simp add: phase_def enabled_def pending_after_def)
  next
    case (Saved n a d)
    then show ?thesis using stopping_answer [OF assms(1), of e n a d] by (simp add: phase_def)
  next
    case (Save_failed n a)
    then show ?thesis using stopping_answer [OF assms(1), of e n a] by (simp add: phase_def)
  next
    case (Checkpointed n a)
    then show ?thesis using stopping_answer [OF assms(1), of e n a] by (simp add: phase_def)
  next
    case (Checkpoint_failed n a)
    then show ?thesis using stopping_answer [OF assms(1), of e n a] by (simp add: phase_def)
  qed (use assms(2) same in \<open>simp_all add: phase_def pending_after_def\<close>)
qed

lemma finishing_mono:
  assumes "finishing cfg ctls es fx st ps" "sd_stopping_plugin st' = None" "sd_state st' = sd_state st" "sd_quit st' = sd_quit st"
    "sd_components st' = sd_components st" "sd_ctls_pending st' = sd_ctls_pending st" "sd_cluster_ctls st' = sd_cluster_ctls st" "tokens ps' = []"
    "asked gx = []" "\<forall>a. Exit_actor a \<notin> set gx" "\<forall>a. Drain a \<notin> set gx"
  shows "finishing cfg ctls (es @ fs) (fx @ gx) st' ps'"
proof -
  obtain X where X: "awaiting cfg ctls X es fx st ps" using assms(1) by (auto simp: finishing_def)
  then have "drained (es @ fs) (fx @ gx) st' ps'" using assms(2,11) by (intro drained_none [of es fx st ps]) (auto simp: awaiting_def)
  then have "awaiting cfg ctls X (es @ fs) (fx @ gx) st' ps'" using X assms(2-10) by (auto simp: awaiting_def base_def)
  then show ?thesis using assms(1,3-6) by (auto simp: finishing_def)
qed

lemma filter_remove: "distinct xs \<Longrightarrow> remove1 a (filter P xs) = filter (\<lambda>x. x \<noteq> a \<and> P x) xs"
  by (auto simp: distinct_remove1_removeAll removeAll_filter_not_eq intro!: filter_cong)

lemma length_filter_remove:
  assumes "distinct xs" "a \<in> set xs" "P a"
  shows "length (filter P xs) - 1 = length (filter (\<lambda>x. x \<noteq> a \<and> P x) xs)"
  using assms length_remove1 [of a "filter P xs"] by (simp add: filter_remove)

lemma finishing_down:
  assumes "finishing cfg ctls es fx st ps" "\<not> sd_quit st" "config_ok cfg ctls" "a \<notin> set (downs es)"
  shows "finishing cfg ctls (es @ [Down_msg a]) (fx @ snd (on_down cfg a st)) (fst (on_down cfg a st)) (ps @ concat (map opens (snd (on_down cfg a st))))"
proof -
  obtain X where X: "awaiting cfg ctls X es fx st ps" using assms(1) by (auto simp: finishing_def)
  note aw = X [unfolded awaiting_def]
  have dist: "distinct (base cfg st)" "distinct ctls" "set (base cfg st) \<inter> set ctls = {}" using assms(3) by (auto simp: config_ok_def base_def)
  have new: "a \<notin> X" and none: "sd_stopping_plugin st = None" using aw assms(4) by auto
  have dr: "drained (es @ [Down_msg a]) fx st' ps" if "sd_stopping_plugin st' = None" for st'
    using aw that drained_none [of es fx st ps st' "[]" "[Down_msg a]" ps] by simp
  show ?thesis
  proof (cases "a \<in> set (sd_components st)")
    case True
    let ?st = "st\<lparr>sd_components := remove1 a (sd_components st)\<rparr>"
    have "a \<in> set (base cfg st)" using True aw by auto
    then have "a \<notin> set ctls" using dist(3) by blast
    then have "filter (\<lambda>x. x \<notin> insert a X) ctls = filter (\<lambda>x. x \<notin> X) ctls" by (intro filter_cong) auto
    then have "awaiting cfg ctls (insert a X) (es @ [Down_msg a]) fx ?st ps"
      using aw dr \<open>a \<in> set (base cfg st)\<close> dist(1) by (auto simp: awaiting_def base_def filter_remove simp del: filter_append)
    moreover have "on_down cfg a st = barrier cfg ?st" using none True by (simp add: on_down_def)
    ultimately show ?thesis using barrier_finishing [of cfg ctls "insert a X"] assms(2,3) by simp
  next
    case False
    show ?thesis
    proof (cases "0 < sd_ctls_pending st \<and> a \<in> set (sd_cluster_ctls st)")
      case True
      let ?st = "st\<lparr>sd_ctls_pending := sd_ctls_pending st - 1\<rparr>"
      have a: "a \<in> set ctls" "a \<notin> set (base cfg st)" using True aw dist(3) by auto
      then have "filter (\<lambda>x. x \<notin> insert a X) (base cfg st) = filter (\<lambda>x. x \<notin> X) (base cfg st)" by (intro filter_cong) auto
      then have "awaiting cfg ctls (insert a X) (es @ [Down_msg a]) fx ?st ps"
        using aw dr a length_filter_remove [OF dist(2) a(1), of "\<lambda>x. x \<notin> X"] new by (auto simp: awaiting_def base_def simp del: filter_append)
      moreover have "on_down cfg a st = barrier cfg ?st" using none True False by (simp add: on_down_def)
      ultimately show ?thesis using barrier_finishing [of cfg ctls "insert a X"] assms(2,3) by simp
    next
      case ctl: False
      then have "on_down cfg a st = (st, [])" using aw False by (auto simp: on_down_def)
      then show ?thesis using finishing_mono [OF assms(1), of st ps "[]" "[Down_msg a]"] aw by simp
    qed
  qed
qed

lemma finishing_step:
  assumes "finishing cfg ctls es fx st ps" "\<not> sd_quit st" "regular e" "enabled e ps" "config_ok cfg ctls" "distinct (downs (es @ [e]))"
  shows "finishing cfg ctls (es @ [e]) (fx @ snd (shutdown_step cfg e st)) (fst (shutdown_step cfg e st)) (pending_after e (snd (shutdown_step cfg e st)) ps)"
proof -
  obtain X where "awaiting cfg ctls X es fx st ps" using assms(1) by (auto simp: finishing_def)
  then have t: "tokens ps = []" and n: "sd_stopping_plugin st = None" and s: "sd_state st \<in> {Shutting_down, Stopped}" by (auto simp: awaiting_def)
  have no: "P_saved m b \<notin> set ps" "P_resolve m \<notin> set ps" for m b using tokens_empty [OF _ t] by fastforce+
  have same: "finishing cfg ctls (es @ [e]) fx st ps" using finishing_mono [OF assms(1) n, of ps "[]" "[e]"] t by simp
  show ?thesis
  proof (cases e)
    case (Down_msg a)
    then show ?thesis using finishing_down [OF assms(1,2,5), of a] assms(6) by (simp add: pending_after_def)
  next
    case Shutdown_msg
    then show ?thesis using same s by (auto simp: on_shutdown_def pending_after_def)
  next
    case (Saved m a d)
    then show ?thesis
      by (intro finishing_mono [OF assms(1)]) (auto simp: on_saved_def pending_after_def tokens_remove_none n t)
  next
    case (Save_failed m a)
    then show ?thesis by (intro finishing_mono [OF assms(1)]) (auto simp: pending_after_def tokens_remove_none n t)
  next
    case (Checkpointed m a)
    then show ?thesis by (intro finishing_mono [OF assms(1)]) (auto simp: on_checkpointed_def pending_after_def tokens_remove_none n t)
  next
    case (Checkpoint_failed m a)
    then show ?thesis by (intro finishing_mono [OF assms(1)]) (auto simp: on_checkpoint_failed_def pending_after_def tokens_remove_none n t)
  qed (use assms(3,4) same no in \<open>simp_all add: enabled_def pending_after_def\<close>)
qed

lemma runs_phase:
  assumes "runs cfg (ready_shutdown ctls) es fx st ps" "\<forall>e \<in> set es. regular e" "distinct (downs es)" "config_ok cfg ctls"
  shows "phase cfg ctls es fx st ps"
  using assms
proof (induction rule: runs.induct)
  case start
  then show ?case by (simp add: phase_def idle_def)
next
  case (step es fx st ps e st' gx)
  have ih: "phase cfg ctls es fx st ps" and e: "regular e" using step by simp_all
  have eq: "st' = fst (shutdown_step cfg e st)" "gx = snd (shutdown_step cfg e st)" using step.hyps(4) by simp_all
  from ih consider "idle ctls fx st ps" | "stopping cfg ctls es fx st ps" | "finishing cfg ctls es fx st ps" by (auto simp: phase_def)
  then show ?case
  proof cases
    case 1
    then show ?thesis unfolding eq using idle_step e step.hyps(3) step.prems(3) by blast
  next
    case 2
    then show ?thesis unfolding eq using stopping_step e step.hyps(3) step.prems(3) by blast
  next
    case 3
    then show ?thesis unfolding eq phase_def using finishing_step step.hyps(2,3) e step.prems(2,3) by blast
  qed
qed

section \<open>Runs with the timeout\<close>

definition chained :: "shutdown_event list \<Rightarrow> shutdown_effect list \<Rightarrow> shutdown \<Rightarrow> pending list \<Rightarrow> bool" where
  "chained es fx st ps \<longleftrightarrow> length (tokens ps) + (if sd_stopping_plugin st = None then 0 else 1) \<le> 1 \<and>
     (sd_state st = Ready \<longrightarrow> tokens ps = [] \<and> sd_stopping_plugin st = None) \<and>
     (\<forall>a. Drain a \<in> set fx \<longrightarrow> a \<in> set (downs es) \<or> sd_stopping_plugin st = Some a) \<and> (sd_quit st \<longrightarrow> sd_stopping_plugin st = None)"

text \<open>A step that keeps the plugin that is being stopped, starts none and does not quit.\<close>

definition quiet_step :: "shutdown \<Rightarrow> stepped \<Rightarrow> bool" where
  "quiet_step st = (\<lambda>(st', gx). sd_stopping_plugin st' = sd_stopping_plugin st \<and> (\<forall>a. Drain a \<notin> set gx) \<and>
     (sd_quit st' \<longrightarrow> sd_quit st \<or> sd_stopping_plugin st = None) \<and> tokens (concat (map opens gx)) = [] \<and> (sd_state st' = Ready \<longrightarrow> sd_state st = Ready))"

lemma finish_last_quiet: "sd_stopping_plugin st = None \<Longrightarrow> quiet_step st (finish_last cfg st)"
  by (auto simp: quiet_step_def finish_last_def finish_quit_def Let_def split: option.splits)

lemma finish_shutdown_quiet:
  assumes "core_components cfg \<noteq> []"
  shows "quiet_step st (finish_shutdown cfg st)"
  using assms by (auto simp: quiet_step_def finish_shutdown_def Let_def)

lemma barrier_quiet:
  assumes "sd_stopping_plugin st = None"
  shows "quiet_step st (barrier cfg st)"
  using assms finish_last_quiet [OF assms, of cfg] by (auto simp: barrier_def quiet_step_def finish_quit_def)

lemma tokens_remove_le: "length (tokens (remove1 p ps)) \<le> length (tokens ps)"
  by (induction ps) (auto split: option.splits)

lemma tokens_remove_token: "p \<in> set ps \<Longrightarrow> token p \<noteq> None \<Longrightarrow> length (tokens (remove1 p ps)) < length (tokens ps)"
  by (induction ps) (auto split: option.splits)

lemma chained_quiet:
  assumes "chained es fx st ps" "quiet_step st (st', gx)" "length (tokens ps') \<le> length (tokens ps)"
  shows "chained (es @ [e]) (fx @ gx) st' (ps' @ concat (map opens gx))"
  using assms by (auto simp: chained_def quiet_step_def split: if_splits)

lemma chained_token:
  assumes "chained es fx st ps" "p \<in> set ps" "token p \<noteq> None"
  shows "sd_stopping_plugin st = None" "tokens (remove1 p ps) = []" "sd_state st \<noteq> Ready"
proof -
  have "length (tokens ps) \<le> 1" using assms(1) by (simp add: chained_def split: if_splits)
  then have "length (tokens (remove1 p ps)) = 0" using tokens_remove_token [OF assms(2,3)] by linarith
  then show "tokens (remove1 p ps) = []" by simp
  show "sd_stopping_plugin st = None" "sd_state st \<noteq> Ready"
    using assms(1) tokens_remove_token [OF assms(2,3)] by (auto simp: chained_def split: if_splits)
qed

lemma chained_step:
  assumes "chained es fx st ps" "\<not> sd_quit st" "enabled e ps" "e \<noteq> Ready_msg" "core_components cfg \<noteq> []"
  shows "chained (es @ [e]) (fx @ snd (shutdown_step cfg e st)) (fst (shutdown_step cfg e st)) (pending_after e (snd (shutdown_step cfg e st)) ps)"
proof -
  have quiet: "chained (es @ [e]) (fx @ gx) st' (ps' @ concat (map opens gx))" if "quiet_step st (st', gx)" "ps' = ps \<or> ps' = remove1 p ps" for st' gx ps' p
    using chained_quiet [OF assms(1) that(1)] that(2) tokens_remove_le by auto
  have none: "quiet_step st (st\<lparr>sd_stopping_saved := b\<rparr>, [Stop_plugin a])" "quiet_step st (st, [])" for b a by (simp_all add: quiet_step_def)
  show ?thesis
  proof (cases e)
    case Shutdown_msg
    show ?thesis
    proof (cases "sd_state st = Ready \<and> sc_stop_order cfg \<noteq> []")
      case True
      then show ?thesis
        using assms(1,2) Shutdown_msg by (auto simp: on_shutdown_def stop_next_def pending_after_def chained_def Let_def)
    next
      case False
      have "quiet_step st (on_shutdown cfg st)"
        using False finish_shutdown_quiet [OF assms(5), of st] finish_shutdown_quiet [OF assms(5), of "st\<lparr>sd_state := Shutting_down, sd_remaining := []\<rparr>"]
        by (auto simp: on_shutdown_def quiet_step_def Let_def)
      from quiet [of "fst (on_shutdown cfg st)" "snd (on_shutdown cfg st)" ps] this Shutdown_msg show ?thesis by (simp add: pending_after_def)
    qed
  next
    case (Plugin_saved n b)
    then have p: "P_saved n b \<in> set ps" using assms(3) by (simp add: enabled_def)
    note tk = chained_token [OF assms(1) p, simplified]
    let ?st = "st\<lparr>sd_remaining := filter (\<lambda>m. m \<noteq> n) (sd_remaining st)\<rparr>"
    show ?thesis
    proof (cases "sd_remaining ?st = []")
      case True
      have "quiet_step st (finish_shutdown cfg ?st)" using finish_shutdown_quiet [OF assms(5), of ?st] by (simp add: quiet_step_def)
      from quiet [of "fst (finish_shutdown cfg ?st)" "snd (finish_shutdown cfg ?st)" "remove1 (P_saved n b) ps"] this True Plugin_saved show ?thesis
        by (auto simp: pending_after_def on_plugin_saved_def)
    next
      case False
      then show ?thesis
        using assms(1,2) Plugin_saved tk by (auto simp: on_plugin_saved_def stop_next_def pending_after_def chained_def Let_def)
    qed
  next
    case (Down_msg a)
    show ?thesis
    proof (cases "sd_stopping_plugin st = Some a")
      case True
      then show ?thesis using assms(1,2) Down_msg by (auto simp: on_down_def chained_def pending_after_def)
    next
      case False
      have "quiet_step st (on_down cfg a st)"
        using False barrier_quiet [of "st\<lparr>sd_components := remove1 a (sd_components st)\<rparr>" cfg] barrier_quiet [of "st\<lparr>sd_ctls_pending := sd_ctls_pending st - 1\<rparr>" cfg]
        by (auto simp: on_down_def quiet_step_def split: option.splits)
      from quiet [of "fst (on_down cfg a st)" "snd (on_down cfg a st)" ps] this Down_msg show ?thesis by (simp add: pending_after_def)
    qed
  next
    case Force_exit
    have "quiet_step st (on_force_exit cfg st)" using finish_shutdown_quiet [OF assms(5), of st] none(2) by (simp add: on_force_exit_def)
    from quiet [of "fst (on_force_exit cfg st)" "snd (on_force_exit cfg st)" ps] this Force_exit show ?thesis by (simp add: pending_after_def)
  next
    case (Register_cluster c)
    have "quiet_step st (shutdown_step cfg e st)" using Register_cluster by (simp add: quiet_step_def split: option.splits)
    from quiet [of "fst (shutdown_step cfg e st)" "snd (shutdown_step cfg e st)" ps] this Register_cluster show ?thesis by (simp add: pending_after_def)
  next
    case (Resolved n x)
    then have p: "P_resolve n \<in> set ps" using assms(3) by (simp add: enabled_def)
    note tk = chained_token [OF assms(1) p, simplified]
    show ?thesis using assms(1,2) Resolved tk by (auto simp: on_resolved_def chained_def pending_after_def split: option.splits)
  next
    case (Resolve_failed n)
    then have p: "P_resolve n \<in> set ps" using assms(3) by (simp add: enabled_def)
    note tk = chained_token [OF assms(1) p, simplified]
    show ?thesis using assms(1,2) Resolve_failed tk by (auto simp: chained_def pending_after_def)
  next
    case (Saved n a d)
    have "quiet_step st (on_saved n a d st)" by (simp add: on_saved_def quiet_step_def)
    from quiet [of "fst (on_saved n a d st)" "snd (on_saved n a d st)" "remove1 (P_save n a) ps"] this Saved show ?thesis
      by (auto simp: pending_after_def)
  next
    case (Save_failed n a)
    from quiet [of st "[Stop_plugin a]" "remove1 (P_save n a) ps" "P_save n a"] none(1) Save_failed show ?thesis
      by (auto simp: pending_after_def quiet_step_def)
  next
    case (Checkpointed n a)
    from quiet [OF none(1) [of True a], of "remove1 (P_checkpoint n a) ps" "P_checkpoint n a"] Checkpointed show ?thesis
      by (auto simp: pending_after_def on_checkpointed_def)
  next
    case (Checkpoint_failed n a)
    have "quiet_step st (st, [Unhandled_error n])" by (simp add: quiet_step_def)
    from quiet [OF this, of "remove1 (P_checkpoint n a) ps" "P_checkpoint n a"] Checkpoint_failed show ?thesis
      by (auto simp: pending_after_def on_checkpoint_failed_def)
  qed (use assms(4) quiet [OF none(2), of ps] in \<open>auto simp: pending_after_def\<close>)
qed

lemma runs_chained:
  assumes "runs cfg (ready_shutdown ctls) es fx st ps" "Ready_msg \<notin> set es" "core_components cfg \<noteq> []"
  shows "chained es fx st ps"
  using assms
proof (induction rule: runs.induct)
  case start
  then show ?case by (simp add: chained_def ready_shutdown_def initial_shutdown_def)
next
  case (step es fx st ps e st' gx)
  then have "chained es fx st ps" "e \<noteq> Ready_msg" by auto
  from chained_step [OF this(1) step.hyps(2,3) this(2) step.prems(2)] step.hyps(4) show ?case by simp
qed

section \<open>Execution of a run\<close>

fun shutdown_exec :: "shutdown_config \<Rightarrow> shutdown_event list \<Rightarrow> shutdown \<times> pending list \<Rightarrow> (shutdown_effect list \<times> shutdown \<times> pending list) option" where
  "shutdown_exec cfg [] (st, ps) = Some ([], st, ps)"
| "shutdown_exec cfg (e # es) (st, ps) =
     (if sd_quit st \<or> \<not> enabled e ps then None
      else let (st', gx) = shutdown_step cfg e st
           in case shutdown_exec cfg es (st', pending_after e gx ps) of None \<Rightarrow> None | Some (fx, r) \<Rightarrow> Some (gx @ fx, r))"

lemma runs_exec_append:
  "runs cfg start es fx st ps \<Longrightarrow> shutdown_exec cfg fs (st, ps) = Some (gx, st', ps') \<Longrightarrow> runs cfg start (es @ fs) (fx @ gx) st' ps'"
proof (induction fs arbitrary: es fx st ps gx)
  case (Cons e fs)
  obtain s hx where e: "shutdown_step cfg e st = (s, hx)" by fastforce
  then obtain gx' where g: "shutdown_exec cfg fs (s, pending_after e hx ps) = Some (gx', st', ps')" "gx = hx @ gx'" "\<not> sd_quit st" "enabled e ps"
    using Cons.prems(2) by (auto split: if_splits option.splits)
  have "runs cfg start (es @ [e]) (fx @ hx) s (pending_after e hx ps)" using Cons.prems(1) g(3,4) e by (rule runs.step)
  from Cons.IH [OF this g(1)] g(2) show ?case by simp
qed simp

lemmas runs_exec = runs_exec_append [OF runs.start, simplified]

definition demo_config :: shutdown_config where
  "demo_config = \<lparr>sc_plugin_mgr = Some (0, 1), sc_registry = Some (0, 2), sc_checkpoint_mgr = None, sc_logging = Some (0, 3), sc_stop_order = [''a'', ''b'']\<rparr>"

text \<open>A whole shutdown: plugin \<open>b\<close> saves its state, plugin \<open>a\<close> is unknown; and one that hangs in the plugin \<open>b\<close>.\<close>

definition demo_shutdown :: "shutdown_event list" where
  "demo_shutdown = [Shutdown_msg, Resolved ''b'' (Some (0, 8)), Saved ''b'' (0, 8) [7], Checkpointed ''b'' (0, 8), Down_msg (0, 8),
     Plugin_saved ''b'' True, Resolved ''a'' None, Plugin_saved ''a'' False, Down_msg (0, 2), Down_msg (0, 5), Down_msg (0, 1), Down_msg (0, 3)]"

definition demo_hang :: "shutdown_event list" where
  "demo_hang = [Shutdown_msg, Resolved ''b'' (Some (0, 8)), Force_exit, Down_msg (0, 2), Down_msg (0, 5), Down_msg (0, 1), Force_exit]"

lemmas shutdown_defs = demo_config_def demo_shutdown_def demo_hang_def ready_shutdown_def initial_shutdown_def enabled_def pending_after_def
  on_shutdown_def on_resolved_def on_saved_def on_checkpointed_def on_down_def on_plugin_saved_def on_force_exit_def stop_next_def barrier_def
  finish_shutdown_def finish_last_def finish_quit_def core_components_def log_service_def stop_all_def config_ok_def Let_def

lemma demo_regular:
  "\<forall>e \<in> set demo_shutdown. regular e" "distinct (downs demo_shutdown)" "config_ok demo_config [(0, 5)]" "core_components demo_config \<noteq> []"
  by (simp_all add: demo_shutdown_def demo_config_def config_ok_def core_components_def log_service_def)

section \<open>Properties\<close>

text \<open>C2. The order of a shutdown that starts in the ready state: as long as the drain timeout does not fire and no ready message or registration of a cluster
  actor arrives meanwhile, the plugins are asked for one by one, the reverse of the stop order, and at most one is being stopped; when the first component or cluster actor is told to exit, every plugin has been asked
  for and every plugin that was told to drain has ended.\<close>

theorem shutdown_order:
  assumes "runs cfg (ready_shutdown ctls) es fx st ps" "\<forall>e \<in> set es. regular e" "distinct (downs es)" "config_ok cfg ctls"
  shows "prefix (asked fx) (rev (sc_stop_order cfg)) \<and>
    (\<forall>a. Drain a \<in> set fx \<longrightarrow> Down_msg a \<in> set es \<or> sd_stopping_plugin st = Some a) \<and>
    (\<forall>x. Exit_actor x \<in> set fx \<longrightarrow> asked fx = rev (sc_stop_order cfg) \<and> (\<forall>a. Drain a \<in> set fx \<longrightarrow> Down_msg a \<in> set es))"
proof -
  from runs_phase [OF assms] consider "idle ctls fx st ps" | "stopping cfg ctls es fx st ps" | "finishing cfg ctls es fx st ps" by (auto simp: phase_def)
  then show ?thesis
  proof cases
    case 1
    then show ?thesis by (simp add: idle_def)
  next
    case 2
    obtain later where "sc_stop_order cfg = sd_remaining st @ later" "asked fx = rev later @ [last (sd_remaining st)]" using stopping_D(9) [OF 2] by blast
    moreover obtain ys y where "sd_remaining st = ys @ [y]" using stopping_D(8) [OF 2] by (metis append_butlast_last_id)
    ultimately have "rev (sc_stop_order cfg) = asked fx @ rev ys" by simp
    then show ?thesis using stopping_D(6,7) [OF 2] by (auto simp: drained_def downs_set)
  next
    case 3
    then show ?thesis by (auto simp: finishing_def awaiting_def drained_def downs_set)
  qed
qed


theorem shutdown_order_witness:
  "case shutdown_exec demo_config demo_shutdown (ready_shutdown [(0, 5)], []) of
     Some (fx, st, ps) \<Rightarrow> asked fx = [''b'', ''a''] \<and> Exit_actor (0, 5) \<in> set fx | None \<Rightarrow> False"
proof -
  obtain fx st ps where x: "shutdown_exec demo_config demo_shutdown (ready_shutdown [(0, 5)], []) = Some (fx, st, ps)" "Exit_actor (0, 5) \<in> set fx"
    by (simp add: shutdown_defs)
  have "runs demo_config (ready_shutdown [(0, 5)]) demo_shutdown fx st ps" using x(1) by (rule runs_exec)
  from shutdown_order [OF this demo_regular(1-3)] x(2) have "asked fx = rev (sc_stop_order demo_config)" by blast
  then show ?thesis unfolding x(1) using x(2) by (simp add: demo_config_def)
qed

text \<open>The coordinator ends last: in every run without the timeout, when it has quit, every cluster actor, component, the log service and
  every plugin it told to exit or drain has ended.\<close>

theorem quit_when_all_ended:
  assumes "runs cfg (ready_shutdown ctls) es fx st ps" "\<forall>e \<in> set es. regular e" "distinct (downs es)" "config_ok cfg ctls" "sd_quit st"
  shows "(\<forall>a. Exit_actor a \<in> set fx \<or> Drain a \<in> set fx \<longrightarrow> Down_msg a \<in> set es) \<and>
    (\<forall>a \<in> set (core_components cfg @ log_service cfg @ ctls). Down_msg a \<in> set es)"
proof -
  have "\<not> idle ctls fx st ps" "\<not> stopping cfg ctls es fx st ps"
    using assms(5) by (auto simp: idle_def stopping_def ready_shutdown_def initial_shutdown_def)
  then have f: "finishing cfg ctls es fx st ps" using runs_phase [OF assms(1-4)] by (auto simp: phase_def)
  then obtain X where X: "awaiting cfg ctls X es fx st ps" and s: "sd_state st = Stopped" "sd_components st = []" "sd_ctls_pending st = 0"
    using assms(5) by (auto simp: finishing_def)
  then have "filter (\<lambda>a. a \<notin> X) (base cfg st) = []" "filter (\<lambda>a. a \<notin> X) ctls = []" by (auto simp: awaiting_def)
  then have "set (base cfg st) \<union> set ctls \<subseteq> X" by (auto simp: filter_empty_conv)
  then have all: "a \<in> set (base cfg st) \<union> set ctls \<Longrightarrow> Down_msg a \<in> set es" for a
    using X by (auto simp: awaiting_def simp flip: downs_set)
  moreover have "Exit_actor a \<in> set fx \<Longrightarrow> a \<in> set (base cfg st) \<union> set ctls" "Drain a \<in> set fx \<Longrightarrow> Down_msg a \<in> set es" for a
    using X unfolding awaiting_def drained_def downs_set by (fastforce simp del: split_paired_All)+
  ultimately show ?thesis using s(1) by (auto simp: base_def)
qed



text \<open>The timeout does not help against a plugin that hangs: in every run, with any number of timeouts, when the coordinator has quit,
  every plugin it told to drain has ended.  So while such a plugin does not end, the coordinator never quits, even after the timeout
  has stopped all components and they have ended.\<close>

theorem hung_plugin_blocks_quit:
  assumes "runs cfg (ready_shutdown ctls) es fx st ps" "Ready_msg \<notin> set es" "core_components cfg \<noteq> []" "sd_quit st" "Drain a \<in> set fx"
  shows "Down_msg a \<in> set es"
proof -
  have "chained es fx st ps" by (rule runs_chained [OF assms(1-3)])
  then have "a \<in> set (downs es)" using assms(4,5) unfolding chained_def by (cases "sd_stopping_plugin st") (simp_all del: split_paired_All)
  then show ?thesis by (simp add: downs_set)
qed

end
