(* ===== verification/Spec2Isabelle.thy ===== *)
theory Spec2Isabelle
  imports Plugin_Loader Dtoa_Parse Redis_Store Job_Queue Sql_Store_Replies Checkpoint Pomelo_Bridge Cluster_Master Hot_Reload Graceful_Shutdown
begin

text \<open>
  A verification library for the plugin system: a C++ host on the CAF actor framework (\<^verbatim>\<open>src/src/core\<close>, \<^verbatim>\<open>src/include\<close>) whose services
  live in plugins (\<^verbatim>\<open>src/plugins\<close>), one of which, \<^verbatim>\<open>plugins/ts_host\<close>, embeds a JavaScript engine written in C (\<^verbatim>\<open>plugins/ts_host/quickjs\<close>).

  \<^bold>\<open>How the parts work together.\<close>  The loader scans the plugin directory, resolves the dependencies of the entry plugins and computes a
  load order with the dependency graph.  The plugin manager loads the libraries in this order, spawns their actors and registers
  their services; callers reach a service through its proxy, which the registry creates and which the manager pauses and resumes
  for a hot reload.  The shutdown coordinator stops plugins in reverse order, saves their state in the checkpoint store, and then stops the
  components.  Clients connect through the Pomelo endpoint (TCP or WebSocket), which translates packages into calls of services.  The
  nodes of a cluster register with the master, which answers where a service lives.  Game data is kept by entity stores: a client sends load and save
  requests of one contract, which the Redis engine serves on a hash of documents and the SQL actor by transactions.  The SQL actor builds
  its statements for three dialects, completes its schemas from the metadata of the database, and sends every statement to a database plugin, whose
  dispatcher takes a connection from the pool and puts a job on the queue of its worker; the worker reconnects when a connection is lost.

  \<^bold>\<open>The theories.\<close>
  \<^item> \<^theory_text>\<open>Prelude\<close>: machine types, association lists as hash maps and ordered maps, positional number values, bit lemmas, and the locale
    \<^verbatim>\<open>prefix_code\<close> of encodings that can be read back from the front of a text.
  \<^item> \<^theory_text>\<open>Dependency_Graph\<close> (\<^verbatim>\<open>core/dependency_graph.hpp\<close>): the graph as a record of association lists, the depth-first cycle check, Kahn's
    algorithm with the priority queue.  The order is a topological order with the right preference, it is empty exactly in the three
    cases named, the cycle check is exact, and neither depends on the iteration order of the hash maps.
  \<^item> \<^theory_text>\<open>Plugin_Loader\<close> (\<^verbatim>\<open>core/plugin/plugin_loader.cpp\<close>): scanning, dependency resolution as a worklist, load order.
  \<^item> \<^theory_text>\<open>Plugin_Manager\<close> (\<^verbatim>\<open>core/plugin/plugin_manager.cpp\<close>): every handler; when a load succeeds, and that instances are destroyed exactly once.
  \<^item> \<^theory_text>\<open>Service_Registry\<close> (\<^verbatim>\<open>core/service_registry.cpp\<close>): proxies and registry; pauses are transparent, requests are answered once, the access list
    holds, the tables agree.  The locale \<^verbatim>\<open>call_gate\<close> is the contract of pausing.
  \<^item> \<^theory_text>\<open>Hot_Reload\<close>: the manager composed with proxies and registry: the handover of a reload, the rollback, and that the registry follows the
    loaded plugins.
  \<^item> \<^theory_text>\<open>Graceful_Shutdown\<close> (\<^verbatim>\<open>core/graceful_shutdown.cpp\<close>): the coordinator as an inductive run relation over events that answer open requests or, for the
    checkpoint, fail them, with its phases as invariants: the order of stopping, and what an unfinished shutdown waits for while the timeout has not fired.
  \<^item> \<^theory_text>\<open>Checkpoint\<close> (\<^verbatim>\<open>core/checkpoint_manager.cpp\<close>): the file format, CRC-32, saving as a list of file operations (a crash is a prefix of it).
  \<^item> \<^theory_text>\<open>Pomelo_Codec\<close>, \<^theory_text>\<open>Pomelo_Ws\<close>, \<^theory_text>\<open>Pomelo_Bridge\<close> (\<^verbatim>\<open>core/pomelo_*\<close>): packages, WebSocket frames with SHA-1 and Base64 against the masking of the RFC, and the endpoint as a step
    function, with the use of an erased buffer as an outcome.  The locales \<^verbatim>\<open>frame_codec\<close> and \<^verbatim>\<open>frame_stream\<close> prove once that a stream cut into any reads is reassembled.
  \<^item> \<^theory_text>\<open>Cluster_Master\<close> (\<^verbatim>\<open>core/cluster/master.cpp\<close>, \<^verbatim>\<open>membership_registry.hpp\<close>): members with leases and monitors; the locale \<^verbatim>\<open>lease_service\<close> is the
    lease contract.
  \<^item> \<^theory_text>\<open>Dtoa_Limbs\<close> to \<^theory_text>\<open>Dtoa_Parse\<close> (\<^verbatim>\<open>quickjs/dtoa.c\<close>): number conversion from limb arithmetic to \<^verbatim>\<open>js_dtoa\<close> and \<^verbatim>\<open>js_atod\<close>.

  \<^item> \<^theory_text>\<open>Entity_Contract\<close> and \<^theory_text>\<open>Entity_Schema\<close> (\<^verbatim>\<open>include/common/entity_store_contract.hpp\<close>, \<^verbatim>\<open>include/templates/entity_store_schema.hpp\<close>): values, requests, results,
    schemas, and that the checks accept exactly the well-formed requests and catalogs; enumerations that arrive as bytes are open.
  \<^item> \<^theory_text>\<open>Number_Text\<close>: \<^verbatim>\<open>std::to_string\<close> and \<^verbatim>\<open>std::from_chars\<close> on integers, inverse to each other.
  \<^item> \<^theory_text>\<open>Redis_Decimal\<close>, \<^theory_text>\<open>Redis_Codec\<close>, \<^theory_text>\<open>Redis_Store\<close> (\<^verbatim>\<open>plugins/redis\<close>): decimal arithmetic, which is exact but for one case that is shown wrong; the
    binary encoding of documents, requests and commit records, with its pieces as interpretations of \<^verbatim>\<open>prefix_code\<close>; and concurrent clients whose saves are
    shown to be serialisable, to end, and to report only what is stored.
  \<^item> \<^theory_text>\<open>Job_Queue\<close>, \<^theory_text>\<open>Connection_Pool\<close> (\<^verbatim>\<open>include/templates/job_queue.hpp\<close>, \<^verbatim>\<open>db_worker_pool.hpp\<close>, \<^verbatim>\<open>sql_connection_pool.hpp\<close>): producers, worker and stop as interleaved
    steps, every job settled once; slots, handles and generations, transactions exclusive, and how long a released handle stays invalid.
  \<^item> \<^theory_text>\<open>Db_Contract\<close>, \<^theory_text>\<open>Sql_Service\<close> (\<^verbatim>\<open>include/common/db_contract.hpp\<close>, \<^verbatim>\<open>include/templates/sql_service_handlers.hpp\<close>, \<^verbatim>\<open>sql_reconnecting_worker.hpp\<close>): the dispatcher, the callbacks of
    jobs and the workers on the pool; statements of a transaction reach only its own session, and each request has one answer.
  \<^item> \<^theory_text>\<open>Sql_Statements\<close>, \<^theory_text>\<open>Sql_Provider\<close> (\<^verbatim>\<open>include/templates/sql_entity_store_statements.hpp\<close>, \<^verbatim>\<open>sql_entity_store_schema_provider.hpp\<close>): the builders of statements, whose
    text never depends on a value and whose placeholders fit their parameters; the decoding of cells; the completion of schemas from metadata.
  \<^item> \<^theory_text>\<open>Sql_Record\<close>, \<^theory_text>\<open>Sql_Save\<close>, \<^theory_text>\<open>Sql_Store\<close>, \<^theory_text>\<open>Sql_Store_Replies\<close> (\<^verbatim>\<open>include/templates/sql_entity_store_actor.hpp\<close>, \<^verbatim>\<open>sql_entity_store_recovery.hpp\<close>): the signature and the stored result of a
    request; one save as a state machine with all its continuations and retries, whose reports are true, whose transactions are closed and which
    ends; and the actor around it with admission, discovery, loads, the queues of the partitions, draining and exit, which answers every save
    once and truly: what a run sends and receives for a save is followed from its arrival to its answer.  It reports that it is drained only when it is, except at the
    end of the discovery, where the report is shown to come too early in one run, and at exit it can report a lost commit as not done.

  \<^bold>\<open>Interfaces.\<close>  \<^verbatim>\<open>call_gate\<close> is interpreted on the proxy, \<^verbatim>\<open>lease_service\<close> on the cluster master, \<^verbatim>\<open>frame_codec\<close> and \<^verbatim>\<open>frame_stream\<close> on Pomelo packages and WebSocket frames,
  \<^verbatim>\<open>prefix_code\<close> on the encodings of Redis and on the tokens of the signature.

  \<^bold>\<open>Conventions.\<close>  State is a record that handlers take and return; what a handler does to other actors is a list of effects in the order of
  the code; answers of other actors, of the file system, of the JSON parser and of dynamic libraries are arguments or events.  Errors are
  values.  Loops that could run for ever are \<^verbatim>\<open>partial_function (option)\<close> or carry fuel, and theorems state that they return.  An actor
  address is a pair of node and id, a null handle is \<^verbatim>\<open>None\<close>.  Logging is left out everywhere.  The clock is an
  argument, in milliseconds or, for the SQL entity store, in ticks of the steady clock.  A handler reads it once where the code reads it several times, except for the
  actor of the SQL entity store, whose handlers read clock and registry as often as the code does outside the continuations of one save.  The parameters of the entity stores are the test for valid
  JSON, the text and the arithmetic of doubles, and which services are registered; what a database answers is an input.

  \<^bold>\<open>Bounds.\<close>  Words keep their width: handles of transactions and generations, versions, exponents and limbs wrap as in the code.  The bound of a save on its
  inputs, \<^verbatim>\<open>save_ends\<close>, is the number of attempts times three answers for each change and eight for the rest of an attempt.

  \<^bold>\<open>Not modelled.\<close>
  \<^item> The JavaScript engine apart from number conversion (\<^verbatim>\<open>quickjs.c\<close>, \<^verbatim>\<open>quickjs-libc.c\<close>, \<^verbatim>\<open>libregexp.c\<close>, \<^verbatim>\<open>libunicode.c\<close> with its tables) is third-party code that the repository
    carries along; the script hosts for Lua, Python and TypeScript translate between CAF messages and the API of an interpreter.
  \<^item> The database plugins call the client libraries of SQLite, MySQL, PostgreSQL, hiredis and the MongoDB driver.  The MongoDB engine and its
    codec work on BSON objects and sessions of that driver; the actor that queues requests for the document engines is left out.
  \<^item> The reading of configurations (\<^verbatim>\<open>schema_catalog::parse\<close>, \<^verbatim>\<open>sql_uri_config.hpp\<close>, \<^verbatim>\<open>plugin_config.hpp\<close>, \<^verbatim>\<open>app_config.hpp\<close>) walks settings of CAF; the start of the process
    (\<^verbatim>\<open>__main__.cpp\<close>, \<^verbatim>\<open>framework_bootstrap.cpp\<close>, \<^verbatim>\<open>cluster/bootstrap.cpp\<close>) wires actors together and waits for the console.
  \<^item> Socket cancellation and dynamic libraries are calls of the operating system; the client, the remote caller and the operations actor of the
    cluster work on remote actors and connections of CAF; the bridge for processes in other languages, the services for time and logging and the
    plugins that serve as examples are left out.
  \<^item> The serialisation of messages (\<^verbatim>\<open>inspect\<close>) belongs to CAF.
\<close>

end
